(* ===== verification/Cxx_Prelude.thy ===== *)
theory Cxx_Prelude
  imports Main "HOL-Library.Word"
begin

text \<open>
  Shared vocabulary of the development: the outcome of a C++ call that may fail, the machine
  integer types, the string operations the codecs call, and the generic lemmas on lists that the
  components share.  A fault is a value: every \<open>assert\<close>, \<open>abort\<close> and out-of-range access that the
  code can reach is a branch of the model and ends in \<open>Inl\<close>.
\<close>

section \<open>Outcomes of a C++ call\<close>

datatype cxx_fault =
    Assert_Failed          \<comment> \<open>an \<open>assert\<close> of the source fails\<close>
  | Abort_Called           \<comment> \<open>the source calls \<open>abort\<close> or \<open>exit\<close>\<close>
  | Out_Of_Range           \<comment> \<open>a vector or string is read past its end\<close>
  | Undefined_Behaviour    \<comment> \<open>signed overflow, a conversion out of range, a missing return\<close>
  | Outside_Model          \<comment> \<open>the code goes on in a part that is left out (floating point, memory spaces)\<close>

type_synonym 'a cxx = "cxx_fault + 'a"

definition bindE :: "'a cxx \<Rightarrow> ('a \<Rightarrow> 'b cxx) \<Rightarrow> 'b cxx" where
  "bindE r k = (case r of Inl e \<Rightarrow> Inl e | Inr x \<Rightarrow> k x)"

definition assertE :: "bool \<Rightarrow> 'a cxx \<Rightarrow> 'a cxx" where
  "assertE b r = (if b then r else Inl Assert_Failed)"

definition okE :: "'a cxx \<Rightarrow> bool" where
  "okE r = (case r of Inl _ \<Rightarrow> False | Inr _ \<Rightarrow> True)"

named_theorems cxx_simps \<open>unfolding the outcome combinators\<close>

lemma bindE_simps [simp, cxx_simps]:
  "bindE (Inl e) k = Inl e"
  "bindE (Inr x) k = k x"
  by (simp_all add: bindE_def)

lemma assertE_simps [simp, cxx_simps]:
  "assertE True r = r"
  "assertE False r = Inl Assert_Failed"
  by (simp_all add: assertE_def)

lemma okE_simps [simp, cxx_simps]:
  "okE (Inl e) = False"
  "okE (Inr x) = True"
  by (simp_all add: okE_def)

lemma bindE_Inr_iff [cxx_simps]:
  "bindE r k = Inr y \<longleftrightarrow> (\<exists>x. r = Inr x \<and> k x = Inr y)"
  by (cases r) auto

lemma assertE_Inr_iff [cxx_simps]:
  "assertE b r = Inr y \<longleftrightarrow> b \<and> r = Inr y"
  by (cases b) auto

lemma bindE_Inr_E:
  assumes "bindE r k = Inr y"
  obtains x where "r = Inr x" "k x = Inr y"
  using assms by (auto simp: bindE_Inr_iff)

lemma assertE_Inr_E:
  assumes "assertE b r = Inr y"
  obtains "b" "r = Inr y"
  using assms by (auto simp: assertE_Inr_iff)

lemma okE_iff: "okE r \<longleftrightarrow> (\<exists>x. r = Inr x)"
  by (cases r) auto

lemma okE_bind: "okE (bindE r k) \<longleftrightarrow> (\<exists>x. r = Inr x \<and> okE (k x))"
  by (cases r) auto

text \<open>A loop that runs a fallible body over a list, stopping at the first fault.\<close>

fun foldE :: "('s \<Rightarrow> 'a \<Rightarrow> 's cxx) \<Rightarrow> 's \<Rightarrow> 'a list \<Rightarrow> 's cxx" where
  "foldE f s [] = Inr s"
| "foldE f s (x # xs) = bindE (f s x) (\<lambda>s'. foldE f s' xs)"

lemma foldE_append: "foldE f s (xs @ ys) = bindE (foldE f s xs) (\<lambda>s'. foldE f s' ys)"
proof (induction xs arbitrary: s)
  case (Cons x xs)
  then show ?case by (cases "f s x") simp_all
qed simp

lemma foldE_invariant:
  assumes "\<And>s x s'. x \<in> set xs \<Longrightarrow> P s \<Longrightarrow> f s x = Inr s' \<Longrightarrow> P s'"
    and "P s" and "foldE f s xs = Inr s'"
  shows "P s'"
  using assms
proof (induction xs arbitrary: s)
  case (Cons x xs)
  from Cons.prems(3) obtain t where t: "f s x = Inr t" "foldE f t xs = Inr s'"
    by (auto simp: bindE_Inr_iff)
  have "P t" using Cons.prems(1)[OF _ Cons.prems(2) t(1)] by simp
  then show ?case using Cons.IH[OF _ _ t(2)] Cons.prems(1) by auto
qed simp

section \<open>Machine integers\<close>

type_synonym u8 = "8 word"
type_synonym u32 = "32 word"
type_synonym u64 = "64 word"

section \<open>State machines given by a fallible step\<close>

text \<open>
  The contract the stateful components share: a step that may fault, an invariant that holds at
  the start and that every step which does not fault keeps.  The client is the run over a list of
  operations, as the simulator drives the component cycle after cycle.
\<close>

locale guarded_machine =
  fixes step :: "'s \<Rightarrow> 'op \<Rightarrow> 's cxx"
    and inv :: "'s \<Rightarrow> bool"
  assumes step_inv: "inv s \<Longrightarrow> step s a = Inr t \<Longrightarrow> inv t"
begin

lemma run_inv: "inv s \<Longrightarrow> foldE step s ops = Inr t \<Longrightarrow> inv t"
  by (rule foldE_invariant[where P = inv and f = step and xs = ops]) (auto intro: step_inv)

end

text \<open>A machine whose steps cannot fault under its invariant runs to the end.\<close>

locale total_machine = guarded_machine step inv
  for step :: "'s \<Rightarrow> 'op \<Rightarrow> 's cxx" and inv :: "'s \<Rightarrow> bool" +
  assumes step_ok: "inv s \<Longrightarrow> okE (step s a)"
begin

lemma run_total: "inv s \<Longrightarrow> \<exists>t. foldE step s ops = Inr t \<and> inv t"
proof (induction ops arbitrary: s)
  case (Cons a ops)
  obtain u where "step s a = Inr u" using step_ok[OF Cons.prems, of a] by (auto simp: okE_iff)
  with Cons.IH[OF step_inv[OF Cons.prems]] show ?case by simp
qed simp

end

section \<open>Strings\<close>

text \<open>
  \<open>std::string::substr(pos, n)\<close> for a start inside the string: at most \<open>n\<close> characters from \<open>pos\<close>.
  (\<open>pos > size\<close> throws in C++; the callers below stay in range, which the length lemmas of the
  codec theories state.)
\<close>

definition substr :: "'a list \<Rightarrow> nat \<Rightarrow> nat \<Rightarrow> 'a list" where
  "substr s p n = take n (drop p s)"

lemma length_substr [simp]: "length (substr s p n) = min n (length s - p)"
  by (simp add: substr_def)

lemma substr_0 [simp]: "substr s 0 n = take n s"
  by (simp add: substr_def)

text \<open>The pieces \<open>s.substr(i, n)\<close> for \<open>i = 0, n, 2n, ...\<close> below the length.\<close>

function pieces :: "nat \<Rightarrow> 'a list \<Rightarrow> 'a list list" where
  "pieces n s = (if n = 0 \<or> s = [] then [] else take n s # pieces n (drop n s))"
  by pat_completeness auto
termination
  by (relation "measure (\<lambda>(n, s). length s)") auto

declare pieces.simps [simp del]

lemma pieces_Nil [simp]: "pieces n [] = []"
  by (simp add: pieces.simps)

lemma pieces_append:
  "0 < n \<Longrightarrow> length x = n \<Longrightarrow> pieces n (x @ s) = x # pieces n s"
  by (subst pieces.simps) auto

lemma pieces_concat:
  assumes "0 < n" and "\<forall>x \<in> set xs. length x = n"
  shows "pieces n (concat xs) = xs"
  using assms by (induction xs) (auto simp: pieces_append)

lemma concat_pieces: "0 < n \<Longrightarrow> concat (pieces n s) = s"
  by (induction n s rule: pieces.induct) (subst pieces.simps, auto)

lemma pieces_lengths:
  "n dvd length s \<Longrightarrow> x \<in> set (pieces n s) \<Longrightarrow> length x = n"
proof (induction n s rule: pieces.induct)
  case (1 n s)
  show ?case
  proof (cases "n = 0 \<or> s = []")
    case True
    with "1.prems" show ?thesis by (simp add: pieces.simps)
  next
    case False
    then have len: "n \<le> length s" using "1.prems"(1) by (auto dest: dvd_imp_le)
    from "1.prems"(2) False have "x = take n s \<or> x \<in> set (pieces n (drop n s))"
      by (subst (asm) pieces.simps) auto
    moreover have "n dvd length (drop n s)" using "1.prems"(1) len by (simp add: dvd_diff_nat)
    ultimately show ?thesis using "1.IH"[OF False] len by auto
  qed
qed

lemma length_pieces: "n dvd length s \<Longrightarrow> n * length (pieces n s) = length s"
proof (induction n s rule: pieces.induct)
  case (1 n s)
  show ?case
  proof (cases "n = 0 \<or> s = []")
    case True
    with "1.prems" show ?thesis by (auto simp: pieces.simps)
  next
    case False
    then have len: "n \<le> length s" using "1.prems" by (auto dest: dvd_imp_le)
    have "n dvd length (drop n s)" using "1.prems" len by (simp add: dvd_diff_nat)
    from "1.IH"[OF False this] len False show ?thesis by (subst pieces.simps) simp
  qed
qed

section \<open>Counting\<close>

lemma length_concat_const:
  "\<forall>x \<in> set xs. length x = n \<Longrightarrow> length (concat xs) = n * length xs"
  by (induction xs) auto

lemma sum_list_le_const:
  "\<forall>x \<in> set xs. f x \<le> (c::nat) \<Longrightarrow> sum_list (map f xs) \<le> c * length xs"
  by (induction xs) auto

definition ceil_div8 :: "nat \<Rightarrow> nat" where
  "ceil_div8 b = (b + 7) div 8"

end
