(* ===== verification/Hex_Words.thy ===== *)
theory Hex_Words
  imports Cxx_Prelude
begin

text \<open>
  The textual form of a cache line that the string-based codecs work on: \<open>decompose_data\<close> reads the
  line as little-endian 32-bit words and prints each as eight hexadecimal digits, which \<open>run\<close> then
  turns to upper case (hpcl_comp_bdi_pl_proc.h and hpcl_comp_fpc_pl_proc.h, instantiated at
  \<open>unsigned int\<close> by gpu-sim.cc).  The digit, word and line levels each get a reading function and a
  round-trip lemma, so that the codecs can argue about words of hexadecimal digits.
\<close>

unbundle bit_operations_syntax

section \<open>Digits\<close>

definition hex_lower :: "nat \<Rightarrow> char" where
  "hex_lower d = ''0123456789abcdef'' ! d"

text \<open>\<open>::toupper\<close> of the C locale.\<close>

definition toupper_c :: "char \<Rightarrow> char" where
  "toupper_c c =
     (let n = (of_char c :: nat) in if 97 \<le> n \<and> n \<le> 122 then char_of (n - 32) else c)"

definition hexdig :: "nat \<Rightarrow> char" where
  "hexdig d = toupper_c (hex_lower d)"

text \<open>\<open>c - '0'\<close> as an \<open>int\<close>, and the inverse \<open>'0' + n\<close>.\<close>

definition char_minus0 :: "char \<Rightarrow> int" where
  "char_minus0 c = of_char c - 48"

definition digit_char :: "nat \<Rightarrow> char" where
  "digit_char n = char_of (48 + n)"

text \<open>The map \<open>lc_cmp\<close> of \<open>lookup_hexa\<close>, with the fall-back \<open>c - '0'\<close> its readers use.\<close>

definition lc_cmp :: "char \<Rightarrow> int option" where
  "lc_cmp = [CHR ''A'' \<mapsto> 10, CHR ''B'' \<mapsto> 11, CHR ''C'' \<mapsto> 12,
             CHR ''D'' \<mapsto> 13, CHR ''E'' \<mapsto> 14, CHR ''F'' \<mapsto> 15]"

definition hex_value :: "char \<Rightarrow> int" where
  "hex_value c = (case lc_cmp c of Some v \<Rightarrow> v | None \<Rightarrow> char_minus0 c)"

definition is_hex :: "char \<Rightarrow> bool" where
  "is_hex c \<longleftrightarrow> c \<in> set ''0123456789ABCDEF''"

lemma toupper_c_code:
  "toupper_c c = (if 97 \<le> (of_char c :: nat) \<and> (of_char c :: nat) \<le> 122
     then char_of ((of_char c :: nat) - 32) else c)"
  by (simp add: toupper_c_def Let_def)

lemma hexdig_table: "map hexdig [0..<16] = ''0123456789ABCDEF''"
  by code_simp

lemma hexdig_nth: "d < 16 \<Longrightarrow> hexdig d = ''0123456789ABCDEF'' ! d"
  using arg_cong[OF hexdig_table, of "\<lambda>xs. xs ! d"] by simp

lemma hexdig_eqs:
  "hexdig 0 = CHR ''0''" "hexdig 1 = CHR ''1''" "hexdig 2 = CHR ''2''" "hexdig 3 = CHR ''3''"
  "hexdig 4 = CHR ''4''" "hexdig 5 = CHR ''5''" "hexdig 6 = CHR ''6''" "hexdig 7 = CHR ''7''"
  "hexdig 8 = CHR ''8''" "hexdig 9 = CHR ''9''" "hexdig 10 = CHR ''A''" "hexdig 11 = CHR ''B''"
  "hexdig 12 = CHR ''C''" "hexdig 13 = CHR ''D''" "hexdig 14 = CHR ''E''" "hexdig 15 = CHR ''F''"
  by (simp_all add: hexdig_nth)

lemma is_hex_hexdig [simp]: "d < 16 \<Longrightarrow> is_hex (hexdig d)"
  using nth_mem[of d "''0123456789ABCDEF''"] by (simp only: is_hex_def hexdig_nth) simp

lemma is_hex_cases: "is_hex c \<longleftrightarrow> (\<exists>d<16. c = hexdig d)"
proof
  assume "is_hex c"
  then have "c \<in> set (map hexdig [0..<16])" by (simp only: hexdig_table is_hex_def)
  then show "\<exists>d<16. c = hexdig d" by auto
qed auto

lemma less_16_cases:
  "d < 16 \<Longrightarrow> d = 0 \<or> d = 1 \<or> d = 2 \<or> d = 3 \<or> d = 4 \<or> d = 5 \<or> d = 6 \<or> d = 7 \<or>
    d = 8 \<or> d = 9 \<or> d = 10 \<or> d = 11 \<or> d = 12 \<or> d = 13 \<or> d = 14 \<or> d = (15::nat)"
  by presburger

lemma hex_value_eqs:
  "hex_value CHR ''0'' = 0" "hex_value CHR ''1'' = 1" "hex_value CHR ''2'' = 2"
  "hex_value CHR ''3'' = 3" "hex_value CHR ''4'' = 4" "hex_value CHR ''5'' = 5"
  "hex_value CHR ''6'' = 6" "hex_value CHR ''7'' = 7" "hex_value CHR ''8'' = 8"
  "hex_value CHR ''9'' = 9" "hex_value CHR ''A'' = 10" "hex_value CHR ''B'' = 11"
  "hex_value CHR ''C'' = 12" "hex_value CHR ''D'' = 13" "hex_value CHR ''E'' = 14"
  "hex_value CHR ''F'' = 15"
  by (simp_all add: hex_value_def lc_cmp_def char_minus0_def)

lemma hex_value_hexdig [simp]: "d < 16 \<Longrightarrow> hex_value (hexdig d) = int d"
  by (drule less_16_cases, elim disjE) (simp_all add: hexdig_eqs hex_value_eqs hexdig_eqs(2)[simplified])

lemma hexdig_inj: "d < 16 \<Longrightarrow> e < 16 \<Longrightarrow> hexdig d = hexdig e \<Longrightarrow> d = e"
  by (metis hex_value_hexdig of_nat_eq_iff)

lemma char_minus0_hexdig: "d < 16 \<Longrightarrow> char_minus0 (hexdig d) = (if d < 10 then int d else int d + 7)"
  by (drule less_16_cases, elim disjE) (simp_all add: hexdig_eqs hexdig_eqs(2)[simplified] char_minus0_def)

lemma char_minus0_hex_le7: "d < 16 \<Longrightarrow> char_minus0 (hexdig d) \<le> 7 \<longleftrightarrow> d \<le> 7"
  by (auto simp: char_minus0_hexdig)

lemma char_minus0_hex_ge0: "d < 16 \<Longrightarrow> 0 \<le> char_minus0 (hexdig d)"
  by (auto simp: char_minus0_hexdig)

lemma digit_char_eqs [simp]: "digit_char 0 = CHR ''0''" "digit_char (Suc 0) = CHR ''1''"
  "digit_char 2 = CHR ''2''" "digit_char 3 = CHR ''3''" "digit_char 4 = CHR ''4''"
  "digit_char 5 = CHR ''5''" "digit_char 6 = CHR ''6''" "digit_char 7 = CHR ''7''"
  "digit_char 8 = CHR ''8''" "digit_char 9 = CHR ''9''"
  by code_simp+

section \<open>Binary strings\<close>

text \<open>
  \<open>get_binary(num, limit)\<close>: the low \<open>limit\<close> bits of a non-negative number, most significant first.
  The loop inserts at the front of \<open>res\<close>.
\<close>

fun get_binary_loop :: "string \<Rightarrow> nat \<Rightarrow> nat \<Rightarrow> string" where
  "get_binary_loop res num 0 = res"
| "get_binary_loop res num (Suc limit) =
     get_binary_loop (digit_char (num mod 2) # res) (num div 2) limit"

definition get_binary :: "nat \<Rightarrow> nat \<Rightarrow> string" where
  "get_binary num limit = get_binary_loop [] num limit"

text \<open>The value of a binary string, and the bits of a number as the recursion on its length.\<close>

fun bin_val :: "string \<Rightarrow> nat" where
  "bin_val [] = 0"
| "bin_val (c # cs) = (if c = CHR ''1'' then 2 ^ length cs else 0) + bin_val cs"

definition is_bit :: "char \<Rightarrow> bool" where
  "is_bit c \<longleftrightarrow> c = CHR ''0'' \<or> c = CHR ''1''"

lemma get_binary_loop_append: "get_binary_loop res num limit = get_binary_loop [] num limit @ res"
proof (induction limit arbitrary: res num)
  case (Suc limit)
  show ?case
    using Suc[of "digit_char (num mod 2) # res" "num div 2"]
      Suc[of "[digit_char (num mod 2)]" "num div 2"] by simp
qed simp

lemma get_binary_0 [simp]: "get_binary num 0 = []"
  by (simp add: get_binary_def)

lemma get_binary_Suc:
  "get_binary num (Suc limit) = get_binary (num div 2) limit @ [digit_char (num mod 2)]"
  unfolding get_binary_def by (simp add: get_binary_loop_append[of "[_]"])

lemma length_get_binary [simp]: "length (get_binary num limit) = limit"
  by (induction limit arbitrary: num) (simp_all add: get_binary_Suc)

lemma bin_val_append: "bin_val (xs @ ys) = bin_val xs * 2 ^ length ys + bin_val ys"
  by (induction xs) (simp_all add: algebra_simps power_add)

lemma digit_char_mod2_eq1: "digit_char (n mod 2) = CHR ''1'' \<longleftrightarrow> odd n"
  by (cases "even n") (simp_all add: odd_iff_mod_2_eq_one)

lemma bin_val_get_binary: "bin_val (get_binary num limit) = num mod 2 ^ limit"
proof (induction limit arbitrary: num)
  case (Suc limit)
  have "bin_val (get_binary num (Suc limit)) = (num div 2) mod 2 ^ limit * 2 + num mod 2"
    by (simp add: get_binary_Suc bin_val_append Suc digit_char_mod2_eq1 mod2_eq_if)
  also have "\<dots> = num mod 2 ^ Suc limit"
    using mod_mult2_eq[of num 2 "2 ^ limit"] by (simp add: mult.commute)
  finally show ?case .
qed (simp add: get_binary_def)

lemma is_bit_digit_char [simp]: "is_bit (digit_char (n mod 2))"
  by (cases "even n") (simp_all add: is_bit_def odd_iff_mod_2_eq_one)

lemma get_binary_bits: "\<forall>c \<in> set (get_binary num limit). is_bit c"
  by (induction limit arbitrary: num) (auto simp: get_binary_Suc)

lemma bin_val_less: "bin_val s < 2 ^ length s"
  by (induction s) auto

section \<open>Words and lines\<close>

text \<open>
  \<open>int_to_hex\<close> prints a 32-bit value with \<open>setfill('0')\<close>, \<open>setw(8)\<close> and \<open>hex\<close>: its eight nibbles, most
  significant first, in lower case.
\<close>

definition nibble :: "u32 \<Rightarrow> nat \<Rightarrow> nat" where
  "nibble w k = unat (drop_bit (4 * k) w AND 15)"

definition int_to_hex :: "u32 \<Rightarrow> string" where
  "int_to_hex w = map (\<lambda>k. hex_lower (nibble w k)) [7, 6, 5, 4, 3, 2, 1, 0]"

text \<open>
  One round of \<open>decompose_data\<close>: \<open>j\<close> runs from 3 down to 0 and \<open>data[i+j]\<close> is shifted by \<open>8*j\<close> bits.
\<close>

definition word_of_bytes :: "u8 \<Rightarrow> u8 \<Rightarrow> u8 \<Rightarrow> u8 \<Rightarrow> u32" where
  "word_of_bytes b0 b1 b2 b3 =
     push_bit 24 (ucast b3) + push_bit 16 (ucast b2) + push_bit 8 (ucast b1) + ucast b0"

text \<open>
  The loop over the line.  With a size that is not a multiple of four the inner loop reads past the
  end of the vector.
\<close>

fun decompose_words :: "u8 list \<Rightarrow> u32 list cxx" where
  "decompose_words [] = Inr []"
| "decompose_words (b0 # b1 # b2 # b3 # rest) =
     bindE (decompose_words rest) (\<lambda>ws. Inr (word_of_bytes b0 b1 b2 b3 # ws))"
| "decompose_words bs = Inl Out_Of_Range"

definition decompose_data :: "u8 list \<Rightarrow> string cxx" where
  "decompose_data cache_data =
     bindE (decompose_words cache_data) (\<lambda>ws. Inr (concat (map int_to_hex ws)))"

text \<open>The packet after \<open>transform(..., ::toupper)\<close>, as \<open>run\<close> hands it to the codecs.\<close>

definition make_packet :: "u8 list \<Rightarrow> string cxx" where
  "make_packet cache_data = bindE (decompose_data cache_data) (\<lambda>s. Inr (map toupper_c s))"

definition hex8 :: "u32 \<Rightarrow> string" where
  "hex8 w = map (\<lambda>k. hexdig (nibble w k)) [7, 6, 5, 4, 3, 2, 1, 0]"

lemma map_toupper_int_to_hex: "map toupper_c (int_to_hex w) = hex8 w"
  by (simp add: int_to_hex_def hex8_def hexdig_def)

lemma make_packet_eq:
  "make_packet data = bindE (decompose_words data) (\<lambda>ws. Inr (concat (map hex8 ws)))"
  by (cases "decompose_words data")
    (simp_all add: make_packet_def decompose_data_def map_concat map_toupper_int_to_hex comp_def)

lemma nibble_less [simp]: "nibble w k < 16"
proof -
  have m: "(15 :: u32) = mask 4" by (simp add: mask_eq_exp_minus_1)
  have "nibble w k = take_bit 4 (unat (drop_bit (4 * k) w))"
    unfolding nibble_def m take_bit_eq_mask[symmetric] by (rule unsigned_take_bit_eq)
  then show ?thesis using take_bit_nat_less_exp[of 4 "unat (drop_bit (4 * k) w)"] by simp
qed

lemma length_hex8 [simp]: "length (hex8 w) = 8"
  by (simp add: hex8_def)

lemma hex8_hex: "\<forall>c \<in> set (hex8 w). is_hex c"
  by (auto simp: hex8_def)

lemma decompose_words_ok: "okE (decompose_words data) \<longleftrightarrow> 4 dvd length data"
proof (induction data rule: decompose_words.induct)
  case (2 b0 b1 b2 b3 rest)
  have "4 dvd length (b0 # b1 # b2 # b3 # rest) \<longleftrightarrow> 4 dvd length rest"
    by (simp add: dvd_def) presburger
  with 2 show ?case by (cases "decompose_words rest") simp_all
qed (simp_all, presburger+)

lemma decompose_words_length: "decompose_words data = Inr ws \<Longrightarrow> length data = 4 * length ws"
  by (induction data arbitrary: ws rule: decompose_words.induct) (auto simp: bindE_Inr_iff)

text \<open>The digits determine the word, and the packet determines the line.\<close>

lemma nibble_bit: "j < 4 \<Longrightarrow> bit w (4 * k + j) \<longleftrightarrow> bit (nibble w k) j"
proof -
  assume j: "j < 4"
  have m: "(15 :: u32) = mask 4" by (simp add: mask_eq_exp_minus_1)
  show ?thesis
    using j by (cases "4 * k + j < 32")
      (auto simp: nibble_def m bit_simps dest: bit_imp_le_length)
qed

lemma hex8_inj: "hex8 w = hex8 v \<Longrightarrow> w = v"
proof (rule bit_eqI)
  fix n assume eq: "hex8 w = hex8 v" and n: "possible_bit TYPE(32 word) n"
  from n have n32: "n < 32" by simp
  have "hexdig (nibble w k) = hexdig (nibble v k)" if "k < 8" for k
  proof -
    have "k \<in> {7, 6, 5, 4, 3, 2, 1, 0}" using that by auto
    with eq show ?thesis by (auto simp: hex8_def)
  qed
  then have nib: "nibble w k = nibble v k" if "k < 8" for k
    using that hexdig_inj nibble_less by blast
  have n': "n = 4 * (n div 4) + n mod 4" by simp
  have "bit w (4 * (n div 4) + n mod 4) = bit v (4 * (n div 4) + n mod 4)"
    using nib[of "n div 4"] n32 by (simp only: nibble_bit)
  then show "bit w n = bit v n" using n' by simp
qed

definition bytes_of_word :: "u32 \<Rightarrow> u8 list" where
  "bytes_of_word w = [ucast w, ucast (drop_bit 8 w), ucast (drop_bit 16 w), ucast (drop_bit 24 w)]"

lemma unat_word_of_bytes:
  "unat (word_of_bytes b0 b1 b2 b3) =
     unat b0 + 2 ^ 8 * unat b1 + 2 ^ 16 * unat b2 + 2 ^ 24 * unat b3"
proof -
  have b: "unat b < 256" for b :: u8 using unsigned_less[of b] by simp
  note bb = b[of b0] b[of b1] b[of b2] b[of b3]
  define X where "X = unat b0 + 2 ^ 8 * unat b1 + 2 ^ 16 * unat b2 + 2 ^ 24 * unat b3"
  have "word_of_bytes b0 b1 b2 b3 = of_nat X"
    by (simp add: word_of_bytes_def push_bit_eq_mult X_def)
  moreover have "X < 2 ^ LENGTH(32)"
    using bb by (simp add: X_def)
  ultimately have "unat (word_of_bytes b0 b1 b2 b3) = X"
    by (simp only: unsigned_of_nat take_bit_nat_eq_self of_nat_id)
  then show ?thesis by (simp only: X_def)
qed

lemma byte_digits:
  fixes a b c d :: nat
  assumes "a < 256" "b < 256" "c < 256" "d < 256"
  defines "x \<equiv> a + 2 ^ 8 * b + 2 ^ 16 * c + 2 ^ 24 * d"
  shows "x div 2 ^ 0 mod 256 = a" "x div 2 ^ 8 mod 256 = b"
    "x div 2 ^ 16 mod 256 = c" "x div 2 ^ 24 mod 256 = d"
proof -
  have x: "x = a + 256 * (b + 256 * (c + 256 * d))" by (simp add: x_def)
  have 1: "x div 256 = b + 256 * (c + 256 * d)" using assms by (simp add: x)
  have 2: "x div 256 div 256 = c + 256 * d" using assms by (simp add: 1)
  have 3: "x div 256 div 256 div 256 = d" using assms by (simp add: 2)
  have p: "x div 2 ^ 16 = x div 256 div 256" "x div 2 ^ 24 = x div 256 div 256 div 256"
    by (simp_all add: div_mult2_eq[symmetric])
  have m: "(e + 256 * y) mod 256 = e" if "e < 256" for e y :: nat using that by simp
  have p8: "x div 2 ^ 8 = x div 256" by simp
  show "x div 2 ^ 0 mod 256 = a" by (simp only: x power_0 div_by_1 m[OF assms(1)])
  show "x div 2 ^ 8 mod 256 = b" by (simp only: p8 1 m[OF assms(2)])
  show "x div 2 ^ 16 mod 256 = c" by (simp only: p 2 m[OF assms(3)])
  show "x div 2 ^ 24 mod 256 = d" by (simp only: p 3 mod_less[OF assms(4)])
qed

lemma bytes_of_word_of_bytes:
  "bytes_of_word (word_of_bytes b0 b1 b2 b3) = [b0, b1, b2, b3]"
proof -
  have b: "unat b < 256" for b :: u8 using unsigned_less[of b] by simp
  note bb = b[of b0] b[of b1] b[of b2] b[of b3]
  let ?w = "word_of_bytes b0 b1 b2 b3"
  have w: "unat ?w mod 2 ^ LENGTH(32) = unat ?w"
    by (rule mod_less, rule unsigned_less)
  have u: "unat (ucast (drop_bit n ?w) :: u8) = unat ?w div 2 ^ n mod 256" for n
    by (simp only: unsigned_ucast_eq unsigned_drop_bit_eq)
      (simp add: drop_bit_eq_div take_bit_eq_mod w[simplified])
  have "unat ?w div 2 ^ 0 mod 256 = unat b0" "unat ?w div 2 ^ 8 mod 256 = unat b1"
    "unat ?w div 2 ^ 16 mod 256 = unat b2" "unat ?w div 2 ^ 24 mod 256 = unat b3"
    unfolding unat_word_of_bytes by (rule byte_digits[OF bb])+
  then have "ucast (drop_bit 0 ?w) = b0" "ucast (drop_bit 8 ?w) = b1"
    "ucast (drop_bit 16 ?w) = b2" "ucast (drop_bit 24 ?w) = b3"
    by (simp_all only: word_unat_eq_iff u)
  then show ?thesis by (simp only: bytes_of_word_def drop_bit_0 id_apply)
qed

lemma decompose_words_bytes:
  "decompose_words data = Inr ws \<Longrightarrow> concat (map bytes_of_word ws) = data"
  by (induction data arbitrary: ws rule: decompose_words.induct)
    (auto simp: bindE_Inr_iff bytes_of_word_of_bytes)

end
