(* ===== verification/Mem_Fetch.thy ===== *)
theory Mem_Fetch
  imports Cxx_Prelude
begin

text \<open>
  The part of a memory request (class \<open>mem_fetch\<close> of mem_fetch.h and mem_fetch.cc) that the
  compressors read and write: the raw line, the textual packet kept for comparison, the
  compression results per resolution and the compressed payload.  The members for routing, status
  and timing are left out; no compressor touches them.
\<close>

record mem_fetch =
  m_real_data :: "u8 list"
  compare_data :: string
  m_comp_data_size :: nat
  m_comp_data_bits :: int
  m_comp_data_bits_2B :: int
  m_comp_data_bits_4B :: int
  m_comp_data_bits_8B :: int
  m_compress_data :: "u8 list"

definition get_real_data_size :: "mem_fetch \<Rightarrow> nat" where
  "get_real_data_size mf = length (m_real_data mf)"

definition get_real_data :: "mem_fetch \<Rightarrow> nat \<Rightarrow> u8 cxx" where
  "get_real_data mf i = assertE (i < length (m_real_data mf)) (Inr (m_real_data mf ! i))"

definition set_comp_data_size :: "mem_fetch \<Rightarrow> nat \<Rightarrow> mem_fetch" where
  "set_comp_data_size mf n = mf\<lparr>m_comp_data_size := n\<rparr>"

definition set_comp_data_bits :: "mem_fetch \<Rightarrow> nat \<Rightarrow> int \<Rightarrow> mem_fetch cxx" where
  "set_comp_data_bits mf n res =
     (if res = -1 then Inr (mf\<lparr>m_comp_data_bits := int n\<rparr>)
      else if res = 2 then Inr (mf\<lparr>m_comp_data_bits_2B := int n\<rparr>)
      else if res = 4 then Inr (mf\<lparr>m_comp_data_bits_4B := int n\<rparr>)
      else if res = 8 then Inr (mf\<lparr>m_comp_data_bits_8B := int n\<rparr>)
      else Inl Assert_Failed)"

definition get_comp_data_bits :: "mem_fetch \<Rightarrow> int \<Rightarrow> int cxx" where
  "get_comp_data_bits mf res =
     (if res = -1 then assertE (0 < m_comp_data_bits mf) (Inr (m_comp_data_bits mf))
      else if res = 2 then assertE (0 < m_comp_data_bits_2B mf) (Inr (m_comp_data_bits_2B mf))
      else if res = 4 then assertE (0 < m_comp_data_bits_4B mf) (Inr (m_comp_data_bits_4B mf))
      else if res = 8 then assertE (0 < m_comp_data_bits_8B mf) (Inr (m_comp_data_bits_8B mf))
      else Inl Assert_Failed)"

text \<open>\<open>m_compress_data.resize(m_comp_data_size)\<close>: cut, or padded with zero bytes.\<close>

definition init_size :: "mem_fetch \<Rightarrow> mem_fetch" where
  "init_size mf = mf\<lparr>m_compress_data :=
     take (m_comp_data_size mf) (m_compress_data mf) @
     replicate (m_comp_data_size mf - length (m_compress_data mf)) 0\<rparr>"

definition set_comp_data :: "mem_fetch \<Rightarrow> nat \<Rightarrow> u8 \<Rightarrow> mem_fetch cxx" where
  "set_comp_data mf i b =
     (if i < length (m_compress_data mf)
      then Inr (mf\<lparr>m_compress_data := (m_compress_data mf)[i := b]\<rparr>) else Inl Out_Of_Range)"

text \<open>The copy loop at the end of a \<open>run\<close>: \<open>set_comp_data(i, data[i])\<close> for every \<open>i\<close>.\<close>

definition set_comp_data_all :: "mem_fetch \<Rightarrow> u8 list \<Rightarrow> mem_fetch cxx" where
  "set_comp_data_all mf data =
     foldE (\<lambda>m i. set_comp_data m i (data ! i)) mf [0..<length data]"

lemma length_init_size [simp]: "length (m_compress_data (init_size mf)) = m_comp_data_size mf"
  by (simp add: init_size_def)

lemma init_size_frame [simp]:
  "m_real_data (init_size mf) = m_real_data mf"
  "m_comp_data_size (init_size mf) = m_comp_data_size mf"
  "m_comp_data_bits (init_size mf) = m_comp_data_bits mf"
  "compare_data (init_size mf) = compare_data mf"
  by (simp_all add: init_size_def)

text \<open>A payload that fits is copied in full and leaves the rest of the buffer alone.\<close>

lemma set_comp_data_prefix:
  assumes "k \<le> length data" and "length data \<le> length (m_compress_data mf)"
  shows "foldE (\<lambda>m i. set_comp_data m i (data ! i)) mf [0..<k] =
    Inr (mf\<lparr>m_compress_data := take k data @ drop k (m_compress_data mf)\<rparr>)"
  using assms(1)
proof (induction k)
  case (Suc k)
  then have "k < length data" by simp
  with assms(2) have "(take k data @ drop k (m_compress_data mf))[k := data ! k] =
      take (Suc k) data @ drop (Suc k) (m_compress_data mf)"
    by (simp add: list_update_append take_Suc_conv_app_nth upd_conv_take_nth_drop)
  with Suc \<open>k < length data\<close> assms(2) show ?case
    by (simp add: foldE_append set_comp_data_def)
qed simp

lemma set_comp_data_all_exact:
  assumes "length data = length (m_compress_data mf)"
  shows "set_comp_data_all mf data = Inr (mf\<lparr>m_compress_data := data\<rparr>)"
  unfolding set_comp_data_all_def
  using set_comp_data_prefix[of "length data" data mf] assms by simp

end
