(* ===== verification/Cpack_Codec.thy ===== *)
theory Cpack_Codec
  imports Hex_Words Mem_Fetch
begin

text \<open>
  The dictionary codec C-PACK: its dictionary (hpcl_cpack_dict.h), the code table (hpcl_code_table.h and
  \<open>initialize\<close> of hpcl_comp_cpack_pl.h) and the codec (hpcl_comp_cpack_pl_proc.h) for words of 32 bits.  A word of eight
  digits is compared pair by pair with the dictionary; its code is followed by the five bits of the entry and the
  digits that differ.  A word that matches nothing goes to the local dictionary of the line.

  \<open>flit_count\<close> is a \<open>float\<close> that counts bytes in steps of an eighth, exact below \<open>2 ^ 20\<close> bytes; it is the number of
  bits here.  An \<open>unordered_set\<close> is a list without repetitions in the order of insertion; where the code iterates over
  one, the order is an argument.  \<open>COMP_DEBUG\<close> is on, as hpcl_user_define_stmts.h sets it.  The redundancy counters of
  \<open>get_red_data\<close> are left out, and so is \<open>clear\<close> of the dictionary, which no part of the program calls and which would
  not compile.
\<close>

section \<open>The dictionary\<close>

definition BIT_WORD :: nat where "BIT_WORD = 2"
definition PATTERN_SIZE :: nat where "PATTERN_SIZE = 4"
definition MAX_DICT_SIZE :: nat where "MAX_DICT_SIZE = 32"

text \<open>\<open>log2(MAX_DICT_SIZE)\<close>\<close>

definition INDEX_BITS :: nat where "INDEX_BITS = 5"

type_synonym word_dict = "(string \<times> string) list"

record cpack_dict =
  cd_max_size :: nat
  word_dict_glb :: word_dict

definition new_cpack_dict :: "nat \<Rightarrow> cpack_dict" where
  "new_cpack_dict dict_size = \<lparr>cd_max_size = dict_size, word_dict_glb = []\<rparr>"

text \<open>\<open>get_binary(index)\<close>\<close>

definition dict_index :: "nat \<Rightarrow> string" where "dict_index index = get_binary index INDEX_BITS"

text \<open>\<open>front()\<close> of an empty vector is undefined.\<close>

definition cpack_insert :: "nat \<Rightarrow> word_dict \<Rightarrow> string \<Rightarrow> word_dict cxx" where
  "cpack_insert max_size d p =
     (if \<exists>e \<in> set d. fst e = p then Inr d
      else if length d = max_size
           then (case d of [] \<Rightarrow> Inl Undefined_Behaviour | e # es \<Rightarrow> Inr (es @ [(p, snd e)]))
           else Inr (d @ [(p, dict_index (length d))]))"

definition cpack_update_dict :: "cpack_dict \<Rightarrow> string list \<Rightarrow> cpack_dict cxx" where
  "cpack_update_dict g lcl =
     bindE (foldE (cpack_insert (cd_max_size g)) (word_dict_glb g) lcl) (\<lambda>d. Inr (g\<lparr>word_dict_glb := d\<rparr>))"

definition find_glb :: "cpack_dict \<Rightarrow> string \<Rightarrow> bool" where
  "find_glb g cur \<longleftrightarrow> (\<exists>e \<in> set (word_dict_glb g). cur = fst e)"

definition check_new_added_word :: "cpack_dict \<Rightarrow> string list \<Rightarrow> string list" where
  "check_new_added_word g lcl = filter (\<lambda>cur. \<not> find_glb g cur) lcl"

section \<open>The code table\<close>

record code_table_glb =
  ct_code :: string
  ct_pattern :: string
  code_word_len :: nat

type_synonym cpack_table = "code_table_glb list"

definition cpack_initialize :: cpack_table where
  "cpack_initialize =
     [\<lparr>ct_code = ''00'', ct_pattern = ''zzzz'', code_word_len = 2\<rparr>,
      \<lparr>ct_code = ''01'', ct_pattern = ''xxxx'', code_word_len = 34\<rparr>,
      \<lparr>ct_code = ''10'', ct_pattern = ''mmmm'', code_word_len = 6\<rparr>,
      \<lparr>ct_code = ''1100'', ct_pattern = ''mmxx'', code_word_len = 24\<rparr>,
      \<lparr>ct_code = ''1101'', ct_pattern = ''zzzx'', code_word_len = 12\<rparr>,
      \<lparr>ct_code = ''1110'', ct_pattern = ''mmmx'', code_word_len = 16\<rparr>]"

text \<open>The maps \<open>pattern_finder\<close> and \<open>code_finder\<close>.\<close>

definition pattern_finder :: "cpack_table \<Rightarrow> string \<Rightarrow> code_table_glb option" where
  "pattern_finder tbl p = List.find (\<lambda>e. ct_pattern e = p) tbl"

definition code_finder :: "cpack_table \<Rightarrow> string \<Rightarrow> code_table_glb option" where
  "code_finder tbl c = List.find (\<lambda>e. ct_code e = c) tbl"

section \<open>Comparing words\<close>

text \<open>The pairs of a word but the last, each a zero or nothing, and the last pair.  Below two digits the unsigned bound
  of the loop wraps around.\<close>

definition process_string_partial :: "string \<Rightarrow> (string \<times> string) cxx" where
  "process_string_partial cur_str =
     (let n = length cur_str
      in if n < BIT_WORD then Inl Out_Of_Range
         else let zs = concat (map (\<lambda>k. if substr cur_str (BIT_WORD * k) 2 = ''00'' then ''z'' else '''')
                             [0..<(n - 1) div BIT_WORD])
              in if drop (n - 2) cur_str = ''00'' then Inr (zs @ ''z'', '''')
                 else Inr (zs @ ''x'', drop (n - 2) cur_str))"

text \<open>The loop ends at the first pair that differs: its result is the number of matches, the pattern and the rest.\<close>

fun compare_loop :: "string \<Rightarrow> string \<Rightarrow> nat list \<Rightarrow> (nat \<times> string \<times> string) cxx" where
  "compare_loop dict_str cur_str [] = Inr (0, '''', '''')"
| "compare_loop dict_str cur_str (i # is) =
     (if length cur_str < i + 2 then Inl Out_Of_Range
      else if substr dict_str i 2 = substr cur_str i 2
      then bindE (compare_loop dict_str cur_str is) (\<lambda>(n, p, u). Inr (n + 1, CHR ''m'' # p, u))
      else Inr (0, ''x'', drop i cur_str))"

definition compare_str :: "string \<Rightarrow> string \<Rightarrow> (nat \<times> string \<times> string) cxx" where
  "compare_str dict_str cur_str =
     (if length dict_str < BIT_WORD then Inl Out_Of_Range
      else bindE (compare_loop dict_str cur_str (map ((*) BIT_WORD) [0..<length dict_str div BIT_WORD]))
        (\<lambda>(n, p, u). Inr (n, p @ replicate (PATTERN_SIZE - length p) CHR ''x'', u)))"

text \<open>The best match so far: its length, the entry, the pattern and the rest of the word.\<close>

record match_state =
  mt_val :: nat
  mt_index :: string
  mt_pattern :: string
  mt_unmatched :: string

definition match_step :: "string \<Rightarrow> match_state \<Rightarrow> string \<times> string \<Rightarrow> match_state cxx" where
  "match_step cur_str s e =
     bindE (compare_str (fst e) cur_str) (\<lambda>(val, p, u).
       Inr (if mt_val s < val then \<lparr>mt_val = val, mt_index = snd e, mt_pattern = p, mt_unmatched = u\<rparr> else s))"

definition dict_compare ::
    "cpack_table \<Rightarrow> word_dict \<Rightarrow> string \<Rightarrow> string \<Rightarrow> string \<Rightarrow> (bool \<times> string \<times> string \<times> string) cxx" where
  "dict_compare tbl d cur_str processed_str unmatched =
     bindE (foldE (match_step cur_str)
         \<lparr>mt_val = 0, mt_index = '''', mt_pattern = processed_str, mt_unmatched = unmatched\<rparr> d) (\<lambda>s.
       if mt_val s = 0 \<or> mt_val s = 1 then Inr (False, mt_index s, ''xxxx'', cur_str)
       else Inr (pattern_finder tbl (mt_pattern s) \<noteq> None, mt_index s, mt_pattern s, mt_unmatched s))"

section \<open>The compressor\<close>

definition code_of :: "cpack_table \<Rightarrow> string \<Rightarrow> string \<Rightarrow> string" where
  "code_of tbl p rest = (case pattern_finder tbl p of None \<Rightarrow> '''' | Some e \<Rightarrow> ct_code e @ rest)"

text \<open>One word: the output, its bits, and whether it goes to the local dictionary.\<close>

definition cpack_word :: "cpack_table \<Rightarrow> word_dict \<Rightarrow> string \<Rightarrow> (string \<times> nat \<times> bool) cxx" where
  "cpack_word tbl d cur_str =
     bindE (process_string_partial cur_str) (\<lambda>(p, u).
       if p = ''zzzz'' \<or> p = ''zzzx'' then Inr (code_of tbl p u, if u \<noteq> [] then 12 else 2, False)
       else bindE (dict_compare tbl d cur_str p u) (\<lambda>(ret, idx, p, u).
         if ret then Inr (code_of tbl p (idx @ u),
                          if length u = 2 then 4 + INDEX_BITS + 8
                          else if length u = 4 then 4 + INDEX_BITS + 16
                          else 2 + INDEX_BITS, False)
         else Inr (code_of tbl p u, 34, True)))"

record cpack_state =
  output_to_get :: "string list"
  flit_bits :: nat
  word_dict_lcl :: "string list"

definition cpack_step :: "cpack_table \<Rightarrow> word_dict \<Rightarrow> cpack_state \<Rightarrow> string \<Rightarrow> cpack_state cxx" where
  "cpack_step tbl d s cur_str =
     bindE (cpack_word tbl d cur_str) (\<lambda>(out, bits, fresh).
       Inr \<lparr>output_to_get = output_to_get s @ [out], flit_bits = flit_bits s + bits,
            word_dict_lcl = (if fresh \<and> cur_str \<notin> set (word_dict_lcl s) then word_dict_lcl s @ [cur_str]
                             else word_dict_lcl s)\<rparr>)"

definition input_processor :: "cpack_table \<Rightarrow> word_dict \<Rightarrow> string list \<Rightarrow> string list \<Rightarrow> cpack_state cxx" where
  "input_processor tbl d lcl ws =
     foldE (cpack_step tbl d) \<lparr>output_to_get = [], flit_bits = 0, word_dict_lcl = lcl\<rparr> ws"

text \<open>\<open>run\<close>: the fetch with its compressed size, and the local dictionary.\<close>

definition cpack_run ::
    "cpack_table \<Rightarrow> word_dict \<Rightarrow> string list \<Rightarrow> mem_fetch \<Rightarrow> (mem_fetch \<times> string list) cxx" where
  "cpack_run tbl d lcl mf =
     (if get_real_data_size mf = 0 then Inr (mf, lcl)
      else bindE (make_packet (m_real_data mf)) (\<lambda>packet.
        let mf1 = mf\<lparr>compare_data := packet\<rparr>;
            input_packet_sz = length packet div 2
        in bindE (input_processor tbl d lcl (pieces 8 packet)) (\<lambda>s.
          let comp_byte_size = (if 8 * input_packet_sz < flit_bits s then (input_packet_sz * 8 + 1) div 8
                                else ceil_div8 (flit_bits s));
              mf2 = set_comp_data_size mf1 comp_byte_size
          in bindE (set_comp_data_bits mf2 (comp_byte_size * 8) (-1)) (\<lambda>mf3.
               Inr (init_size mf3, word_dict_lcl s)))))"

section \<open>Reading a word back\<close>

text \<open>\<open>search_dict\<close> does not initialise its loop variable: \<open>i0\<close> is the value it starts with.  A negative one is a large
  unsigned number in the comparison.\<close>

definition search_dict :: "int \<Rightarrow> string \<Rightarrow> word_dict \<Rightarrow> string" where
  "search_dict i0 idx d =
     (if i0 < 0 then '' ''
      else case List.find (\<lambda>e. idx = snd e) (drop (nat i0) d) of None \<Rightarrow> '' '' | Some e \<Rightarrow> fst e)"

text \<open>\<open>substr\<close> from past the end throws.\<close>

definition substr_from :: "string \<Rightarrow> nat \<Rightarrow> string cxx" where
  "substr_from s p = (if length s < p then Inl Out_Of_Range else Inr (drop p s))"

definition process_string_pattern :: "int \<Rightarrow> string \<Rightarrow> string \<Rightarrow> nat \<Rightarrow> word_dict \<Rightarrow> string cxx" where
  "process_string_pattern i0 pattern_str cur_str index d =
     (if pattern_str = ''zzzz'' then Inr ''00000000''
      else if pattern_str = ''xxxx'' then substr_from cur_str index
      else if pattern_str = ''mmmm'' then bindE (substr_from cur_str index) (\<lambda>i. Inr (search_dict i0 i d))
      else if pattern_str = ''mmxx'' then
        bindE (substr_from cur_str index) (\<lambda>rem.
        bindE (substr_from rem INDEX_BITS) (\<lambda>rest.
          Inr (substr (search_dict i0 (substr rem 0 INDEX_BITS) d) 0 4 @ rest)))
      else if pattern_str = ''zzzx'' then bindE (substr_from cur_str index) (\<lambda>rest. Inr (''000000'' @ rest))
      else if pattern_str = ''mmmx'' then
        bindE (substr_from cur_str index) (\<lambda>rem.
        bindE (substr_from rem INDEX_BITS) (\<lambda>rest.
          Inr (substr (search_dict i0 (substr rem 0 INDEX_BITS) d) 0 6 @ rest)))
      else Inr '' '')"

end
