(* ===== verification/Fpc_Codec.thy ===== *)
theory Fpc_Codec
  imports Hex_Words Mem_Fetch
begin

text \<open>
  Frequent-pattern compression (hpcl_comp_fpc_pl_proc.h, with the pattern table \<open>tracker\<close> of
  hpcl_comp_fpc_pl.h).  A packet is cut into words of eight hexadecimal digits; a run of up to
  eight zero words becomes \<open>000\<close> and a three-bit count, every other word a three-bit pattern and
  the digits the pattern keeps.  \<open>convert_output\<close> then walks over the output and adds up its bits.
  The \<open>float\<close> accumulators hold sums of small integers, which are exact below \<open>2^24\<close>; they are
  natural numbers here.
\<close>

section \<open>The compressor\<close>

type_synonym fpc_tracker = "(string \<times> nat) list"

text \<open>\<open>initialize\<close>: the patterns in the order they are tried, with the digits each keeps.\<close>

definition fpc_initialize :: fpc_tracker where
  "fpc_initialize =
     [(''000'', 0), (''001'', 1), (''010'', 2), (''011'', 4),
      (''100'', 4), (''101'', 4), (''110'', 2), (''111'', 8)]"

definition DATA_SIZE :: nat where "DATA_SIZE = 8"

definition gen_zero :: "nat \<Rightarrow> string" where "gen_zero n = replicate n CHR ''0''"

definition gen_f :: "nat \<Rightarrow> string" where "gen_f n = replicate n CHR ''F''"

text \<open>The set \<open>lc_cmp\<close> of this class: the digits with the top bit set.\<close>

definition lc_cmp_fpc :: "string set" where
  "lc_cmp_fpc = {''8'', ''9'', ''A'', ''B'', ''C'', ''D'', ''E'', ''F''}"

text \<open>\<open>cmp[0]\<close>: a \<open>std::string\<close> read at its size yields the terminating zero.\<close>

definition first_char :: "string \<Rightarrow> char" where
  "first_char s = (case s of [] \<Rightarrow> char_of (0::nat) | c # _ \<Rightarrow> c)"

definition check_str :: "string \<Rightarrow> nat \<Rightarrow> string \<Rightarrow> nat \<Rightarrow> bool \<times> string" where
  "check_str input index processed data_size =
     (let sub = substr input 0 (data_size - index);
          cmp = substr input (data_size - index) 1
      in if sub = gen_zero (data_size - index) \<and> char_minus0 (first_char cmp) \<le> 7
         then (True, if char_minus0 (first_char cmp) \<ge> 0 \<and> char_minus0 (first_char cmp) \<le> 7
                     then processed @ drop (data_size - index) input else processed)
         else if sub = gen_f (data_size - index) \<and> char_minus0 (first_char cmp) > 7
         then (True, if cmp \<in> lc_cmp_fpc
                     then processed @ drop (data_size - index) input else processed)
         else (False, processed))"

text \<open>\<open>check_rep\<close>: the set holds the first pair only, so every later pair must equal it.\<close>

definition check_rep :: "string \<Rightarrow> string option" where
  "check_rep input =
     (let tmp = {substr input 0 2}
      in if \<forall>sub \<in> set (pieces 2 (drop 2 input)). sub \<in> tmp
         then Some (substr input 0 2) else None)"

definition compare_pattern :: "string \<Rightarrow> string \<Rightarrow> string \<Rightarrow> string" where
  "compare_pattern input pattern processed =
     (if pattern = ''000'' then
        (if input = gen_zero DATA_SIZE then pattern else processed)
      else if pattern = ''001'' then
        (case check_str input 1 processed DATA_SIZE of
           (ok, p) \<Rightarrow> if ok then pattern @ p else p)
      else if pattern = ''010'' then
        (case check_str input 2 processed DATA_SIZE of
           (ok, p) \<Rightarrow> if ok then pattern @ p else p)
      else if pattern = ''011'' then
        (case check_str input 4 processed DATA_SIZE of
           (ok, p) \<Rightarrow> if ok then pattern @ p else p)
      else if pattern = ''100'' then
        (if drop (DATA_SIZE - 4) input = gen_zero (DATA_SIZE - 4)
         then pattern @ substr input 0 (DATA_SIZE - 4) else processed)
      else if pattern = ''101'' then
        (let part_one = substr input 0 (DATA_SIZE - 4);
             part_two = drop (DATA_SIZE - 4) input
         in case check_str part_one 2 [] (DATA_SIZE div 2) of
              (ok1, p_o) \<Rightarrow>
                (case check_str part_two 2 [] (DATA_SIZE div 2) of
                   (ok2, p_t) \<Rightarrow> if ok1 \<and> ok2 then pattern @ p_o @ p_t else processed))
      else if pattern = ''110'' then
        (case check_rep input of Some rep \<Rightarrow> pattern @ rep | None \<Rightarrow> processed)
      else if pattern = ''111'' then pattern @ input
      else processed)"

text \<open>The loop over the table: the first pattern that leaves \<open>processed\<close> non-empty wins.\<close>

fun each_compress_loop :: "string \<Rightarrow> string \<Rightarrow> fpc_tracker \<Rightarrow> string" where
  "each_compress_loop input processed [] = processed"
| "each_compress_loop input processed (p # tracker) =
     (let processed' = compare_pattern input (fst p) processed
      in if processed' \<noteq> [] then processed' else each_compress_loop input processed' tracker)"

definition each_compress :: "string \<Rightarrow> fpc_tracker \<Rightarrow> string" where
  "each_compress input tracker = each_compress_loop input [] tracker"

text \<open>
  The main loop of \<open>compress\<close> over the vector of words.  The position \<open>i\<close> is the suffix of the
  vector still to be read; the inner loop looks at the next seven words at most.
\<close>

definition zero_ahead :: "string list \<Rightarrow> nat" where
  "zero_ahead rest = length (takeWhile (\<lambda>w. w = ''00000000'') (take 7 rest))"

lemma zero_ahead_le: "zero_ahead rest \<le> length rest" "zero_ahead rest \<le> 7"
  unfolding zero_ahead_def
  using length_takeWhile_le[of "\<lambda>w. w = ''00000000''" "take 7 rest"] by simp_all

function compress_loop :: "fpc_tracker \<Rightarrow> string list \<Rightarrow> string" where
  "compress_loop tracker [] = []"
| "compress_loop tracker (sub # rest) =
     (if sub = ''00000000'' then
        (let ct = 1 + zero_ahead rest
         in (''000'' @ get_binary (ct - 1) 3) @ compress_loop tracker (drop (zero_ahead rest) rest))
      else each_compress sub tracker @ compress_loop tracker rest)"
  by pat_completeness auto
termination
  by (relation "measure (\<lambda>(t, ws). length ws)") auto

definition fpc_compress :: "string \<Rightarrow> fpc_tracker \<Rightarrow> string" where
  "fpc_compress input tracker = compress_loop tracker (pieces DATA_SIZE input)"

section \<open>The bit count\<close>

text \<open>\<open>get_pattern_len\<close> has no \<open>return\<close> for a pattern that is not in the table.\<close>

fun get_pattern_len :: "string \<Rightarrow> fpc_tracker \<Rightarrow> nat cxx" where
  "get_pattern_len pattern [] = Inl Undefined_Behaviour"
| "get_pattern_len pattern (p # tracker) =
     (if fst p = pattern then Inr (snd p) else get_pattern_len pattern tracker)"

text \<open>
  The loop of \<open>convert_output\<close>: the accumulators are the bits (\<open>bytes_d\<close> before the division) and
  the word counter \<open>ct\<close> that the debug output prints.
\<close>

function convert_output_loop ::
    "fpc_tracker \<Rightarrow> string \<Rightarrow> nat \<Rightarrow> int \<Rightarrow> (nat \<times> int) cxx" where
  "convert_output_loop tracker s bits ct =
     (if s = [] then Inr (bits, ct)
      else let pattern = substr s 0 3 in
        if pattern = ''000'' then
          (let pat2 = substr s 3 3 in
           if length pat2 < 3 then Inl Out_Of_Range
           else let zero_ct = char_minus0 (pat2 ! 2) * 4 + char_minus0 (pat2 ! 1) * 2 +
                    char_minus0 (pat2 ! 0)
                in convert_output_loop tracker (drop 6 s) (bits + 6) (ct + zero_ct + 1))
        else
          (case get_pattern_len pattern tracker of
             Inl e \<Rightarrow> Inl e
           | Inr len \<Rightarrow>
               convert_output_loop tracker (drop (len + 3) s) (bits + len * 4 + 3) (ct + 1)))"
  by pat_completeness auto
termination
  by (relation "measure (\<lambda>(t, s, b, c). length s)") auto

declare convert_output_loop.simps [simp del]

text \<open>
  \<open>run\<close>: \<open>bytes_d\<close> is the number of bits over eight, \<open>comp_byte_size\<close> its ceiling.  The converted
  payload \<open>data_to_send\<close> stays empty, so only the size, the bits and the zeroed buffer are stored.
\<close>

definition fpc_run :: "fpc_tracker \<Rightarrow> mem_fetch \<Rightarrow> mem_fetch cxx" where
  "fpc_run tracker mf =
     (if get_real_data_size mf = 0 then Inr mf
      else bindE (make_packet (m_real_data mf)) (\<lambda>packet.
        let mf1 = mf\<lparr>compare_data := packet\<rparr>;
            output = fpc_compress packet tracker
        in bindE (convert_output_loop tracker output 0 0) (\<lambda>(bits, ct).
          let comp_byte_size = ceil_div8 bits;
              mf2 = set_comp_data_size mf1 comp_byte_size
          in bindE (set_comp_data_bits mf2 (comp_byte_size * 8) (-1)) (\<lambda>mf3.
            Inr (init_size mf3)))))"

end
