(* ===== verification/Prefix_Code.thy ===== *)
theory Prefix_Code
  imports Cxx_Prelude
begin

text \<open>
  The contract of a compressor that emits one self-delimiting piece of text per item: a reader
  recognises the piece at the front of the stream and returns the item.  What follows from it, once
  for all codecs, is that the whole stream is uniquely decodable and that emission is injective.
  \<open>read_all\<close> is the reader iterated over a stream; the length of the stream is fuel enough because
  no piece is empty.
\<close>

fun read_all :: "(string \<Rightarrow> ('a \<times> string) option) \<Rightarrow> nat \<Rightarrow> string \<Rightarrow> 'a list option" where
  "read_all rd 0 s = (if s = [] then Some [] else None)"
| "read_all rd (Suc n) s =
     (if s = [] then Some []
      else case rd s of None \<Rightarrow> None | Some (a, r) \<Rightarrow> map_option ((#) a) (read_all rd n r))"

definition decode_stream :: "(string \<Rightarrow> ('a \<times> string) option) \<Rightarrow> string \<Rightarrow> 'a list option" where
  "decode_stream rd s = read_all rd (length s) s"

locale prefix_code =
  fixes emit :: "'a \<Rightarrow> string"
    and rd :: "string \<Rightarrow> ('a \<times> string) option"
    and valid :: "'a \<Rightarrow> bool"
  assumes rd_emit: "valid a \<Longrightarrow> rd (emit a @ rest) = Some (a, rest)"
    and emit_nonempty: "valid a \<Longrightarrow> emit a \<noteq> []"
begin

lemma length_emit_all: "\<forall>a \<in> set xs. valid a \<Longrightarrow> length xs \<le> length (concat (map emit xs))"
proof (induction xs)
  case (Cons a xs)
  then have "1 \<le> length (emit a)" using emit_nonempty[of a] by (cases "emit a") auto
  with Cons show ?case by auto
qed simp

lemma read_all_emit:
  "\<forall>a \<in> set xs. valid a \<Longrightarrow> length xs \<le> n \<Longrightarrow> read_all rd n (concat (map emit xs)) = Some xs"
proof (induction xs arbitrary: n)
  case Nil
  then show ?case by (cases n) simp_all
next
  case (Cons a xs)
  from Cons.prems(2) obtain m where n: "n = Suc m" "length xs \<le> m" by (cases n) auto
  have "read_all rd m (concat (map emit xs)) = Some xs" using Cons n by simp
  then show ?case
    using Cons.prems(1) emit_nonempty[of a] by (simp add: n rd_emit)
qed

lemma decode_emit:
  assumes "\<forall>a \<in> set xs. valid a"
  shows "decode_stream rd (concat (map emit xs)) = Some xs"
  using read_all_emit[OF assms length_emit_all[OF assms]] by (simp only: decode_stream_def)

lemma emit_all_inj:
  assumes "\<forall>a \<in> set xs. valid a" and "\<forall>a \<in> set ys. valid a"
    and "concat (map emit xs) = concat (map emit ys)"
  shows "xs = ys"
  using decode_emit[OF assms(1)] unfolding assms(3) decode_emit[OF assms(2)] by simp

end

end
