(* ===== verification/Fpc_Correct.thy ===== *)
theory Fpc_Correct
  imports Fpc_Codec Prefix_Code
begin

text \<open>
  Correctness of frequent-pattern compression: the decoder that the format calls for, the proof
  that it inverts \<open>fpc_compress\<close>, the exact bit count and its bounds, and the choice of the shortest
  pattern.
\<close>

section \<open>The format and its reader\<close>

definition sign_digit :: "char \<Rightarrow> char" where
  "sign_digit c = (if char_minus0 c > 7 then CHR ''F'' else CHR ''0'')"

text \<open>Sign extension of the digits \<open>s\<close> to \<open>n\<close> digits.\<close>

definition sign_ext :: "nat \<Rightarrow> string \<Rightarrow> string" where
  "sign_ext n s = replicate (n - length s) (sign_digit (first_char s)) @ s"

definition expand_pattern :: "string \<Rightarrow> string \<Rightarrow> string" where
  "expand_pattern pattern s =
     (if pattern = ''001'' \<or> pattern = ''010'' \<or> pattern = ''011'' then sign_ext 8 s
      else if pattern = ''100'' then s @ ''0000''
      else if pattern = ''101'' then sign_ext 4 (take 2 s) @ sign_ext 4 (drop 2 s)
      else if pattern = ''110'' then s @ s @ s @ s
      else s)"

datatype fpc_token = Zero_Run nat | Fpc_Word string

fun token_words :: "fpc_token \<Rightarrow> string list" where
  "token_words (Zero_Run n) = replicate n ''00000000''"
| "token_words (Fpc_Word w) = [w]"

fun fpc_emit :: "fpc_token \<Rightarrow> string" where
  "fpc_emit (Zero_Run n) = ''000'' @ get_binary (n - 1) 3"
| "fpc_emit (Fpc_Word w) = each_compress w fpc_initialize"

definition hex_word :: "string \<Rightarrow> bool" where
  "hex_word w \<longleftrightarrow> length w = 8 \<and> (\<forall>c \<in> set w. is_hex c)"

fun fpc_valid :: "fpc_token \<Rightarrow> bool" where
  "fpc_valid (Zero_Run n) \<longleftrightarrow> 1 \<le> n \<and> n \<le> 8"
| "fpc_valid (Fpc_Word w) \<longleftrightarrow> hex_word w \<and> w \<noteq> ''00000000''"

definition fpc_read :: "string \<Rightarrow> (fpc_token \<times> string) option" where
  "fpc_read s =
     (if take 3 s = ''000''
      then Some (Zero_Run (bin_val (take 3 (drop 3 s)) + 1), drop 6 s)
      else case get_pattern_len (take 3 s) fpc_initialize of
             Inl _ \<Rightarrow> None
           | Inr n \<Rightarrow> Some (Fpc_Word (expand_pattern (take 3 s) (take n (drop 3 s))),
                            drop (3 + n) s))"

definition fpc_decode :: "string \<Rightarrow> string option" where
  "fpc_decode s = map_option (\<lambda>ts. concat (concat (map token_words ts))) (decode_stream fpc_read s)"

section \<open>What one word compresses to\<close>

lemma is_hex_sign: "is_hex c \<Longrightarrow> char_minus0 c > 7 \<longleftrightarrow> [c] \<in> lc_cmp_fpc"
proof -
  assume "is_hex c"
  then obtain d where d: "d < 16" "c = hexdig d" by (auto simp: is_hex_cases)
  show ?thesis using less_16_cases[OF d(1)] unfolding d(2)
    by (elim disjE) (simp_all add: hexdig_eqs hexdig_eqs(2)[simplified] lc_cmp_fpc_def char_minus0_def)
qed

lemma is_hex_ge0: "is_hex c \<Longrightarrow> 0 \<le> char_minus0 c"
  by (auto simp: is_hex_cases char_minus0_hex_ge0)

text \<open>\<open>check_str\<close> accepts exactly the strings that are the sign extension of their tail.\<close>

lemma check_str_eq:
  assumes len: "length input = n" and hex: "\<forall>c \<in> set input. is_hex c" and i: "0 < i" "i \<le> n"
  shows "check_str input i p n =
    (if input = sign_ext n (drop (n - i) input) then (True, p @ drop (n - i) input) else (False, p))"
proof -
  obtain c t where d: "drop (n - i) input = c # t"
    using len i by (cases "drop (n - i) input") auto
  have "c \<in> set input" using d by (metis in_set_dropD list.set_intros(1))
  then have c: "is_hex c" using hex by blast
  have cmp: "substr input (n - i) 1 = [c]" by (simp add: substr_def d)
  have split: "input = sign_ext n (c # t) \<longleftrightarrow> take (n - i) input = replicate (n - i) (sign_digit c)"
  proof -
    have "length (c # t) = i" using len i by (simp flip: d)
    then show ?thesis
      using append_take_drop_id[of "n - i" input] unfolding d sign_ext_def
      by (simp add: first_char_def) (metis append_same_eq)
  qed
  show ?thesis
    unfolding check_str_def cmp d split Let_def
    using is_hex_sign[OF c] is_hex_ge0[OF c]
    by (auto simp: first_char_def sign_digit_def gen_zero_def gen_f_def)
qed

definition sext_fits :: "nat \<Rightarrow> nat \<Rightarrow> string \<Rightarrow> bool" where
  "sext_fits n i w \<longleftrightarrow> w = sign_ext n (drop (n - i) w)"

definition rep_word :: "string \<Rightarrow> bool" where
  "rep_word w \<longleftrightarrow> w = take 2 w @ take 2 w @ take 2 w @ take 2 w"

text \<open>The pattern the table selects for a word, and the digits it keeps.\<close>

definition fpc_class :: "string \<Rightarrow> string \<times> string" where
  "fpc_class w =
     (if w = ''00000000'' then (''000'', [])
      else if sext_fits 8 1 w then (''001'', drop 7 w)
      else if sext_fits 8 2 w then (''010'', drop 6 w)
      else if sext_fits 8 4 w then (''011'', drop 4 w)
      else if drop 4 w = ''0000'' then (''100'', take 4 w)
      else if sext_fits 4 2 (take 4 w) \<and> sext_fits 4 2 (drop 4 w)
        then (''101'', drop 2 (take 4 w) @ drop 6 w)
      else if rep_word w then (''110'', take 2 w)
      else (''111'', w))"

lemma gen_zero_values: "gen_zero 8 = ''00000000''" "gen_zero 4 = ''0000''"
  by (simp_all add: gen_zero_def numeral_eq_Suc)

lemma length_8_cases:
  assumes "length w = 8"
  obtains a b c d e f g h where "w = [a, b, c, d, e, f, g, h]"
  using assms by (auto simp: numeral_eq_Suc length_Suc_conv)

lemma check_rep_eq:
  assumes "length w = 8"
  shows "check_rep w =
    (if rep_word w then Some (take 2 w) else None)"
proof -
  obtain a b c d e f g h where w: "w = [a, b, c, d, e, f, g, h]"
    using assms by (rule length_8_cases)
  have "pieces 2 [c, d, e, f, g, h] = [[c, d], [e, f], [g, h]]"
    using pieces_concat[of 2 "[[c, d], [e, f], [g, h]]"] by simp
  then show ?thesis unfolding w by (auto simp: check_rep_def rep_word_def)
qed

lemma each_compress_step:
  assumes "compare_pattern w pat [] = (if c then pat @ a else [])" and "pat \<noteq> []"
  shows "each_compress_loop w [] ((pat, n) # t) = (if c then pat @ a else each_compress_loop w [] t)"
  using assms by (simp add: Let_def)

lemma compare_patterns:
  assumes "hex_word w"
  shows "compare_pattern w ''000'' [] = (if w = ''00000000'' then ''000'' @ [] else [])"
    "compare_pattern w ''001'' [] = (if sext_fits 8 1 w then ''001'' @ drop 7 w else [])"
    "compare_pattern w ''010'' [] = (if sext_fits 8 2 w then ''010'' @ drop 6 w else [])"
    "compare_pattern w ''011'' [] = (if sext_fits 8 4 w then ''011'' @ drop 4 w else [])"
    "compare_pattern w ''100'' [] = (if drop 4 w = ''0000'' then ''100'' @ take 4 w else [])"
    "compare_pattern w ''101'' [] = (if sext_fits 4 2 (take 4 w) \<and> sext_fits 4 2 (drop 4 w)
       then ''101'' @ drop 2 (take 4 w) @ drop 6 w else [])"
    "compare_pattern w ''110'' [] =
       (if rep_word w then ''110'' @ take 2 w else [])"
    "compare_pattern w ''111'' [] = (if True then ''111'' @ w else [])"
proof -
  have len: "length w = 8" and hex: "\<forall>c \<in> set w. is_hex c"
    using assms by (simp_all add: hex_word_def)
  have hex4: "\<forall>c \<in> set (take 4 w). is_hex c" "\<forall>c \<in> set (drop 4 w). is_hex c"
    using hex by (auto dest: in_set_takeD in_set_dropD)
  have cs: "check_str w i p 8 = (if sext_fits 8 i w then (True, p @ drop (8 - i) w) else (False, p))"
    if "0 < i" "i \<le> 8" for i p
    unfolding sext_fits_def by (rule check_str_eq[OF len hex that])
  have c1: "check_str (take 4 w) 2 p 4 =
      (if sext_fits 4 2 (take 4 w) then (True, p @ drop 2 (take 4 w)) else (False, p))" for p
    unfolding sext_fits_def using check_str_eq[OF _ hex4(1), of 4 2 p] len by simp
  have c2: "check_str (drop 4 w) 2 p 4 =
      (if sext_fits 4 2 (drop 4 w) then (True, p @ drop 2 (drop 4 w)) else (False, p))" for p
    unfolding sext_fits_def using check_str_eq[OF _ hex4(2), of 4 2 p] len by simp
  have dd: "drop 2 (drop 4 w) = drop 6 w" by simp
  note pat = compare_pattern_def DATA_SIZE_def
  show "compare_pattern w ''000'' [] = (if w = ''00000000'' then ''000'' @ [] else [])"
    by (simp add: pat gen_zero_values)
  show "compare_pattern w ''001'' [] = (if sext_fits 8 1 w then ''001'' @ drop 7 w else [])"
    using cs[of 1 "[]"] by (simp add: pat)
  show "compare_pattern w ''010'' [] = (if sext_fits 8 2 w then ''010'' @ drop 6 w else [])"
    using cs[of 2 "[]"] by (simp add: pat)
  show "compare_pattern w ''011'' [] = (if sext_fits 8 4 w then ''011'' @ drop 4 w else [])"
    using cs[of 4 "[]"] by (simp add: pat)
  show "compare_pattern w ''100'' [] = (if drop 4 w = ''0000'' then ''100'' @ take 4 w else [])"
    by (simp add: pat gen_zero_values)
  show "compare_pattern w ''101'' [] = (if sext_fits 4 2 (take 4 w) \<and> sext_fits 4 2 (drop 4 w)
      then ''101'' @ drop 2 (take 4 w) @ drop 6 w else [])"
    using c1[of "[]"] c2[of "[]"] dd by (simp add: pat Let_def)
  show "compare_pattern w ''110'' [] =
      (if rep_word w then ''110'' @ take 2 w else [])"
    unfolding pat by (simp only: check_rep_eq[OF len] if_distrib[of "case_option _ _"] option.case) simp
  show "compare_pattern w ''111'' [] = (if True then ''111'' @ w else [])"
    by (simp add: pat)
qed

lemma each_compress_class:
  assumes "hex_word w"
  shows "each_compress w fpc_initialize = fst (fpc_class w) @ snd (fpc_class w)"
proof -
  note steps = compare_patterns[OF assms, THEN each_compress_step]
  have cat: "fst (if c then x else y) @ snd (if c then x else y) =
      (if c then fst x @ snd x else fst y @ snd y)" for c and x y :: "string \<times> string"
    by simp
  show ?thesis
    unfolding each_compress_def fpc_initialize_def fpc_class_def
    by (simp only: steps list.distinct not_False_eq_True if_True cat fst_conv snd_conv)
qed

section \<open>Reading back\<close>

lemma fpc_class_eqs:
  "w = ''00000000'' \<Longrightarrow> fpc_class w = (''000'', [])"
  "w \<noteq> ''00000000'' \<Longrightarrow> sext_fits 8 1 w \<Longrightarrow> fpc_class w = (''001'', drop 7 w)"
  "w \<noteq> ''00000000'' \<Longrightarrow> \<not> sext_fits 8 1 w \<Longrightarrow> sext_fits 8 2 w \<Longrightarrow>
     fpc_class w = (''010'', drop 6 w)"
  "w \<noteq> ''00000000'' \<Longrightarrow> \<not> sext_fits 8 1 w \<Longrightarrow> \<not> sext_fits 8 2 w \<Longrightarrow> sext_fits 8 4 w \<Longrightarrow>
     fpc_class w = (''011'', drop 4 w)"
  "w \<noteq> ''00000000'' \<Longrightarrow> \<not> sext_fits 8 1 w \<Longrightarrow> \<not> sext_fits 8 2 w \<Longrightarrow> \<not> sext_fits 8 4 w \<Longrightarrow>
     drop 4 w = ''0000'' \<Longrightarrow> fpc_class w = (''100'', take 4 w)"
  "w \<noteq> ''00000000'' \<Longrightarrow> \<not> sext_fits 8 1 w \<Longrightarrow> \<not> sext_fits 8 2 w \<Longrightarrow> \<not> sext_fits 8 4 w \<Longrightarrow>
     drop 4 w \<noteq> ''0000'' \<Longrightarrow> sext_fits 4 2 (take 4 w) \<Longrightarrow> sext_fits 4 2 (drop 4 w) \<Longrightarrow>
     fpc_class w = (''101'', drop 2 (take 4 w) @ drop 6 w)"
  "w \<noteq> ''00000000'' \<Longrightarrow> \<not> sext_fits 8 1 w \<Longrightarrow> \<not> sext_fits 8 2 w \<Longrightarrow> \<not> sext_fits 8 4 w \<Longrightarrow>
     drop 4 w \<noteq> ''0000'' \<Longrightarrow> \<not> (sext_fits 4 2 (take 4 w) \<and> sext_fits 4 2 (drop 4 w)) \<Longrightarrow>
     rep_word w \<Longrightarrow> fpc_class w = (''110'', take 2 w)"
  "w \<noteq> ''00000000'' \<Longrightarrow> \<not> sext_fits 8 1 w \<Longrightarrow> \<not> sext_fits 8 2 w \<Longrightarrow> \<not> sext_fits 8 4 w \<Longrightarrow>
     drop 4 w \<noteq> ''0000'' \<Longrightarrow> \<not> (sext_fits 4 2 (take 4 w) \<and> sext_fits 4 2 (drop 4 w)) \<Longrightarrow>
     \<not> rep_word w \<Longrightarrow> fpc_class w = (''111'', w)"
  unfolding fpc_class_def by (simp_all only: if_True if_False simp_thms refl)

lemma fpc_class_cases:
  obtains (zero) "w = ''00000000''" "fpc_class w = (''000'', [])"
  | (s1) "w \<noteq> ''00000000''" "sext_fits 8 1 w" "fpc_class w = (''001'', drop 7 w)"
  | (s2) "w \<noteq> ''00000000''" "sext_fits 8 2 w" "fpc_class w = (''010'', drop 6 w)"
  | (s4) "w \<noteq> ''00000000''" "sext_fits 8 4 w" "fpc_class w = (''011'', drop 4 w)"
  | (pad) "w \<noteq> ''00000000''" "drop 4 w = ''0000''" "fpc_class w = (''100'', take 4 w)"
  | (half) "w \<noteq> ''00000000''" "sext_fits 4 2 (take 4 w)" "sext_fits 4 2 (drop 4 w)"
      "fpc_class w = (''101'', drop 2 (take 4 w) @ drop 6 w)"
  | (rep) "w \<noteq> ''00000000''" "rep_word w"
      "fpc_class w = (''110'', take 2 w)"
  | (raw) "w \<noteq> ''00000000''" "\<not> sext_fits 8 1 w" "\<not> sext_fits 8 2 w" "\<not> sext_fits 8 4 w"
      "drop 4 w \<noteq> ''0000''" "\<not> (sext_fits 4 2 (take 4 w) \<and> sext_fits 4 2 (drop 4 w))"
      "\<not> rep_word w" "fpc_class w = (''111'', w)"
proof -
  define z q r where "z \<longleftrightarrow> w = ''00000000''" and "q \<longleftrightarrow> drop 4 w = ''0000''"
    and "r \<longleftrightarrow> rep_word w"
  note eqs = fpc_class_eqs[of w, folded z_def q_def r_def]
  note elims = zero s1 s2 s4 pad half rep raw
  show thesis using elims[folded z_def q_def r_def] eqs by satx
qed

definition fpc_keeps :: "string \<Rightarrow> nat" where
  "fpc_keeps pattern =
     (if pattern = ''001'' then 1 else if pattern = ''010'' then 2 else if pattern = ''011'' then 4
      else if pattern = ''100'' then 4 else if pattern = ''101'' then 4
      else if pattern = ''110'' then 2 else if pattern = ''111'' then 8 else 0)"

lemma fpc_class_length:
  assumes "length w = 8"
  shows "length (fst (fpc_class w)) = 3"
    and "length (snd (fpc_class w)) = fpc_keeps (fst (fpc_class w))"
    and "get_pattern_len (fst (fpc_class w)) fpc_initialize = Inr (fpc_keeps (fst (fpc_class w)))"
    and "w \<noteq> ''00000000'' \<Longrightarrow> fst (fpc_class w) \<noteq> ''000''"
  using assms by (cases w rule: fpc_class_cases; simp add: fpc_keeps_def fpc_initialize_def)+

lemma fpc_class_expand:
  assumes "length w = 8" and "w \<noteq> ''00000000''"
  shows "expand_pattern (fst (fpc_class w)) (snd (fpc_class w)) = w"
proof (cases w rule: fpc_class_cases)
  case half
  have "sign_ext 4 (drop 2 (take 4 w)) = take 4 w" "sign_ext 4 (drop 6 w) = drop 4 w"
    using half(2,3) assms(1) by (simp_all add: sext_fits_def)
  then show ?thesis using half(4) assms(1) by (simp add: expand_pattern_def)
next
  case pad
  then show ?thesis using append_take_drop_id[of 4 w] by (simp add: expand_pattern_def)
next
  case rep
  then show ?thesis using rep(2)[unfolded rep_word_def, symmetric] by (simp add: expand_pattern_def)
qed (use assms in \<open>simp_all add: expand_pattern_def sext_fits_def\<close>)

lemma fpc_read_emit:
  assumes "fpc_valid t"
  shows "fpc_read (fpc_emit t @ rest) = Some (t, rest)"
proof (cases t)
  case (Zero_Run n)
  have "bin_val (get_binary (n - 1) 3) = n - 1"
    using assms Zero_Run by (auto simp: bin_val_get_binary intro!: mod_less)
  then show ?thesis using assms Zero_Run by (simp add: fpc_read_def numeral_eq_Suc)
next
  case (Fpc_Word w)
  then have hw: "hex_word w" "length w = 8" and nz: "w \<noteq> ''00000000''"
    using assms by (simp_all add: hex_word_def)
  define pat pay where "pat = fst (fpc_class w)" and "pay = snd (fpc_class w)"
  note len = fpc_class_length[OF hw(2), folded pat_def pay_def]
  have "fpc_emit t = pat @ pay"
    using each_compress_class[OF hw(1)] Fpc_Word by (simp add: pat_def pay_def)
  moreover have "take 3 (pat @ pay @ rest) = pat" "drop 3 (pat @ pay @ rest) = pay @ rest"
    using len(1) by simp_all
  moreover have "drop (3 + fpc_keeps pat) (pat @ pay @ rest) = rest"
    using len(1,2) by (simp add: drop_append)
  ultimately show ?thesis
    using len nz fpc_class_expand[OF hw(2) nz] Fpc_Word
    by (simp add: fpc_read_def pat_def[symmetric] pay_def[symmetric])
qed

lemma fpc_emit_nonempty: "fpc_valid t \<Longrightarrow> fpc_emit t \<noteq> []"
proof (cases t)
  case (Fpc_Word w)
  assume "fpc_valid t"
  then have hw: "hex_word w" "length w = 8" using Fpc_Word by (simp_all add: hex_word_def)
  show ?thesis
    using each_compress_class[OF hw(1)] fpc_class_length(1)[OF hw(2)] Fpc_Word by auto
qed simp

interpretation fpc: prefix_code fpc_emit fpc_read fpc_valid
  by unfold_locales (simp_all add: fpc_read_emit fpc_emit_nonempty)

text \<open>The tokens of a line: the runs the main loop forms.\<close>

function fpc_tokens :: "string list \<Rightarrow> fpc_token list" where
  "fpc_tokens [] = []"
| "fpc_tokens (w # rest) =
     (if w = ''00000000''
      then Zero_Run (1 + zero_ahead rest) # fpc_tokens (drop (zero_ahead rest) rest)
      else Fpc_Word w # fpc_tokens rest)"
  by pat_completeness auto
termination
  by (relation "measure length") auto

lemma compress_loop_tokens:
  "compress_loop fpc_initialize ws = concat (map fpc_emit (fpc_tokens ws))"
  by (induction ws rule: fpc_tokens.induct) (simp_all add: Let_def)

lemma zero_ahead_take: "take (zero_ahead rest) rest = replicate (zero_ahead rest) ''00000000''"
proof -
  let ?p = "\<lambda>w. w = ''00000000''" and ?r = "take 7 rest"
  have "takeWhile ?p ?r = replicate (length (takeWhile ?p ?r)) ''00000000''"
    by (rule replicate_eqI) (auto dest: set_takeWhileD)
  moreover have "takeWhile ?p ?r = take (length (takeWhile ?p ?r)) rest"
    using zero_ahead_le(2)[of rest] takeWhile_eq_take[of ?p ?r]
    by (simp add: zero_ahead_def min_absorb1)
  ultimately show ?thesis by (simp add: zero_ahead_def)
qed

lemma fpc_tokens_words: "concat (map token_words (fpc_tokens ws)) = ws"
proof (induction ws rule: fpc_tokens.induct)
  case (2 w rest)
  then show ?case using append_take_drop_id[of "zero_ahead rest" rest]
    by (auto simp: zero_ahead_take)
qed simp

lemma fpc_tokens_valid: "\<forall>w \<in> set ws. hex_word w \<Longrightarrow> \<forall>t \<in> set (fpc_tokens ws). fpc_valid t"
proof (induction ws rule: fpc_tokens.induct)
  case (2 w rest)
  then show ?case using zero_ahead_le(2)[of rest] by (auto dest: in_set_dropD)
qed simp

lemma fpc_decode_compress_words:
  assumes "\<forall>w \<in> set ws. hex_word w"
  shows "fpc_decode (compress_loop fpc_initialize ws) = Some (concat ws)"
  unfolding fpc_decode_def compress_loop_tokens
  using fpc.decode_emit[OF fpc_tokens_valid[OF assms]] by (simp add: fpc_tokens_words)

section \<open>Bits\<close>

fun token_bits :: "fpc_token \<Rightarrow> nat" where
  "token_bits (Zero_Run n) = 6"
| "token_bits (Fpc_Word w) = fpc_keeps (fst (fpc_class w)) * 4 + 3"

definition line_bits :: "string list \<Rightarrow> nat" where
  "line_bits ws = sum_list (map token_bits (fpc_tokens ws))"

lemma convert_output_emit:
  assumes "fpc_valid t"
  shows "\<exists>ct'. convert_output_loop fpc_initialize (fpc_emit t @ rest) bits ct =
    convert_output_loop fpc_initialize rest (bits + token_bits t) ct'"
proof (cases t)
  case (Zero_Run n)
  have len: "length (get_binary (n - 1) 3) = 3" by simp
  then show ?thesis
    using Zero_Run
    by (subst convert_output_loop.simps) (auto simp: substr_def numeral_eq_Suc Let_def)
next
  case (Fpc_Word w)
  then have hw: "hex_word w" "length w = 8" and nz: "w \<noteq> ''00000000''"
    using assms by (simp_all add: hex_word_def)
  define pat pay where "pat = fst (fpc_class w)" and "pay = snd (fpc_class w)"
  note len = fpc_class_length[OF hw(2), folded pat_def pay_def]
  have emit: "fpc_emit t = pat @ pay"
    using each_compress_class[OF hw(1)] Fpc_Word by (simp add: pat_def pay_def)
  have sub: "substr ((pat @ pay) @ rest) 0 3 = pat" "(pat @ pay) @ rest \<noteq> []"
    using len(1) by auto
  have drp: "drop (fpc_keeps pat + 3) ((pat @ pay) @ rest) = rest"
    using len(1,2) by simp
  have bits: "token_bits t = fpc_keeps pat * 4 + 3" by (simp add: Fpc_Word pat_def)
  have "convert_output_loop fpc_initialize ((pat @ pay) @ rest) bits ct =
      convert_output_loop fpc_initialize rest (bits + fpc_keeps pat * 4 + 3) (ct + 1)"
    by (subst convert_output_loop.simps)
      (simp only: sub if_False Let_def len(4)[OF nz] len(3) sum.case drp)
  then show ?thesis unfolding emit bits by (auto simp: add.assoc)
qed

lemma convert_output_tokens:
  assumes "\<forall>t \<in> set ts. fpc_valid t"
  shows "\<exists>ct'. convert_output_loop fpc_initialize (concat (map fpc_emit ts)) bits ct =
    Inr (bits + sum_list (map token_bits ts), ct')"
  using assms
proof (induction ts arbitrary: bits ct)
  case Nil
  then show ?case by (simp add: convert_output_loop.simps)
next
  case (Cons t ts)
  obtain ct1 where "convert_output_loop fpc_initialize (fpc_emit t @ concat (map fpc_emit ts)) bits ct =
      convert_output_loop fpc_initialize (concat (map fpc_emit ts)) (bits + token_bits t) ct1"
    using convert_output_emit[of t "concat (map fpc_emit ts)" bits ct] Cons.prems by auto
  then show ?case using Cons.IH[of "bits + token_bits t" ct1] Cons.prems
    by (simp add: add.assoc)
qed

lemma token_bits_bounds:
  assumes "fpc_valid t"
  shows "1 \<le> token_bits t" "token_bits t \<le> 35 * length (token_words t)"
  using assms by (cases t; simp add: fpc_keeps_def)+

lemma line_bits_bounds:
  assumes "\<forall>w \<in> set ws. hex_word w"
  shows "line_bits ws \<le> 35 * length ws" and "ws \<noteq> [] \<Longrightarrow> 1 \<le> line_bits ws"
proof -
  note v = fpc_tokens_valid[OF assms]
  have "sum_list (map token_bits ts) \<le> 35 * length (concat (map token_words ts))"
    if "\<forall>t \<in> set ts. fpc_valid t" for ts
    using that by (induction ts) (use token_bits_bounds(2) in \<open>fastforce simp: algebra_simps\<close>)+
  from this[OF v] show "line_bits ws \<le> 35 * length ws"
    by (simp only: line_bits_def fpc_tokens_words)
  assume "ws \<noteq> []"
  then have "fpc_tokens ws \<noteq> []" using fpc_tokens_words[of ws] by auto
  then obtain t ts where t: "fpc_tokens ws = t # ts" by (cases "fpc_tokens ws") auto
  then show "1 \<le> line_bits ws"
    using token_bits_bounds(1)[of t] v by (simp add: line_bits_def)
qed

section \<open>Properties\<close>

lemma hex_word_hex8: "hex_word (hex8 w)"
  using hex8_hex[of w] by (simp add: hex_word_def)

lemma packet_words:
  assumes "make_packet data = Inr packet"
  obtains ws where "decompose_words data = Inr ws" "packet = concat (map hex8 ws)"
    "pieces DATA_SIZE packet = map hex8 ws" "\<forall>w \<in> set (map hex8 ws). hex_word w"
proof -
  from assms obtain ws where ws: "decompose_words data = Inr ws" "packet = concat (map hex8 ws)"
    by (auto simp: make_packet_eq bindE_Inr_iff)
  have "pieces 8 (concat (map hex8 ws)) = map hex8 ws" by (rule pieces_concat) auto
  with ws show thesis by (intro that) (auto simp: DATA_SIZE_def hex_word_hex8)
qed

lemma packet_inj:
  assumes "make_packet d1 = Inr p" and "make_packet d2 = Inr p"
  shows "d1 = d2"
proof -
  obtain ws1 where 1: "decompose_words d1 = Inr ws1" "pieces DATA_SIZE p = map hex8 ws1"
    using assms(1) by (rule packet_words)
  obtain ws2 where 2: "decompose_words d2 = Inr ws2" "pieces DATA_SIZE p = map hex8 ws2"
    using assms(2) by (rule packet_words)
  have "ws1 = ws2" using 1(2) 2(2) by (auto simp: inj_map_eq_map[OF injI[OF hex8_inj]])
  with 1(1) 2(1) show ?thesis using decompose_words_bytes[of d1 ws1] decompose_words_bytes[of d2 ws2]
    by simp
qed

text \<open>Claim C1. Losslessness: the three-bit-pattern reader recovers the packet of every line that
  \<open>decompose_data\<close> accepts from the output of \<open>compress\<close>.\<close>

theorem fpc_lossless:
  assumes "make_packet data = Inr packet"
  shows "fpc_decode (fpc_compress packet fpc_initialize) = Some packet"
proof -
  obtain ws where "packet = concat (map hex8 ws)" "pieces DATA_SIZE packet = map hex8 ws"
    "\<forall>w \<in> set (map hex8 ws). hex_word w" using assms by (rule packet_words)
  then show ?thesis using fpc_decode_compress_words[of "map hex8 ws"] by (simp add: fpc_compress_def)
qed

theorem fpc_lossless_witness:
  "fpc_decode (fpc_compress ''000000000000000100000000'' fpc_initialize) =
     Some ''000000000000000100000000''"
proof -
  have "make_packet [0, 0, 0, 0, 1, 0, 0, 0, 0, 0, 0, 0] = Inr ''000000000000000100000000''"
    by (simp add: make_packet_eq word_of_bytes_def hex8_def nibble_def hexdig_eqs
        hexdig_eqs(2)[simplified])
  then show ?thesis by (rule fpc_lossless)
qed

text \<open>Different cache lines never share a compressed output: the line's bytes are determined
  by what \<open>compress\<close> emits.\<close>

theorem fpc_compress_injective:
  assumes "make_packet d1 = Inr p1" and "make_packet d2 = Inr p2" and "d1 \<noteq> d2"
  shows "fpc_compress p1 fpc_initialize \<noteq> fpc_compress p2 fpc_initialize"
proof
  assume same: "fpc_compress p1 fpc_initialize = fpc_compress p2 fpc_initialize"
  obtain ws1 where 1: "p1 = concat (map hex8 ws1)" "pieces DATA_SIZE p1 = map hex8 ws1"
    "\<forall>w \<in> set (map hex8 ws1). hex_word w" using assms(1) by (rule packet_words)
  obtain ws2 where 2: "p2 = concat (map hex8 ws2)" "pieces DATA_SIZE p2 = map hex8 ws2"
    "\<forall>w \<in> set (map hex8 ws2). hex_word w" using assms(2) by (rule packet_words)
  have "fpc_tokens (map hex8 ws1) = fpc_tokens (map hex8 ws2)"
    using same unfolding fpc_compress_def 1(2) 2(2) compress_loop_tokens
    by (rule fpc.emit_all_inj[OF fpc_tokens_valid[OF 1(3)] fpc_tokens_valid[OF 2(3)]])
  then have "map hex8 ws1 = map hex8 ws2"
    by (metis fpc_tokens_words)
  then have "p1 = p2" using 1(1) 2(1) by simp
  then show False using packet_inj assms by blast
qed

theorem fpc_compress_injective_witness:
  "fpc_compress ''00000001'' fpc_initialize \<noteq> fpc_compress ''00000002'' fpc_initialize"
proof (rule fpc_compress_injective)
  show "make_packet [1, 0, 0, 0] = Inr ''00000001''" "make_packet [2, 0, 0, 0] = Inr ''00000002''"
    by (simp_all add: make_packet_eq word_of_bytes_def hex8_def nibble_def hexdig_eqs
        hexdig_eqs(2)[simplified])
qed simp

lemma fpc_run_ok:
  assumes "decompose_words (m_real_data mf) = Inr ws" and "ws \<noteq> []"
  shows "\<exists>mf'. fpc_run fpc_initialize mf = Inr mf' \<and>
    m_real_data mf' = m_real_data mf \<and>
    m_comp_data_size mf' = ceil_div8 (line_bits (map hex8 ws)) \<and>
    get_comp_data_bits mf' (-1) = Inr (int (8 * m_comp_data_size mf')) \<and>
    length (m_compress_data mf') = m_comp_data_size mf'"
proof -
  have size: "get_real_data_size mf \<noteq> 0"
    using assms decompose_words_length[OF assms(1)] by (simp add: get_real_data_size_def)
  have pk: "make_packet (m_real_data mf) = Inr (concat (map hex8 ws))"
    by (simp add: make_packet_eq assms(1))
  have hex: "\<forall>w \<in> set (map hex8 ws). hex_word w" by (simp add: hex_word_hex8)
  have pcs: "pieces 8 (concat (map hex8 ws)) = map hex8 ws" by (rule pieces_concat) auto
  obtain ct where scan: "convert_output_loop fpc_initialize
      (fpc_compress (concat (map hex8 ws)) fpc_initialize) 0 0 = Inr (line_bits (map hex8 ws), ct)"
    using convert_output_tokens[OF fpc_tokens_valid[OF hex], of 0 0]
    by (auto simp: fpc_compress_def DATA_SIZE_def pcs compress_loop_tokens line_bits_def)
  have "1 \<le> line_bits (map hex8 ws)" using line_bits_bounds(2)[OF hex] assms(2) by simp
  then have "0 < ceil_div8 (line_bits (map hex8 ws))" by (simp add: ceil_div8_def)
  then show ?thesis using size
    by (simp add: fpc_run_def pk scan Let_def set_comp_data_bits_def set_comp_data_size_def
        get_comp_data_bits_def init_size_def)
qed

text \<open>\<open>run\<close> completes on every non-empty line of whole words: no pattern is missing from the
  table, the stored size is the rounded-up bit count of the format, the bit count read back by
  \<open>get_comp_data_bits\<close> passes its assertion, and the payload buffer has exactly that size.\<close>

theorem fpc_run_result:
  assumes "decompose_words (m_real_data mf) = Inr ws" and "ws \<noteq> []"
  shows "\<exists>mf'. fpc_run fpc_initialize mf = Inr mf' \<and>
    m_real_data mf' = m_real_data mf \<and>
    m_comp_data_size mf' = ceil_div8 (line_bits (map hex8 ws)) \<and>
    get_comp_data_bits mf' (-1) = Inr (int (8 * m_comp_data_size mf')) \<and>
    length (m_compress_data mf') = m_comp_data_size mf'"
  by (rule fpc_run_ok[OF assms])

theorem fpc_run_result_witness:
  "\<exists>mf'. fpc_run fpc_initialize \<lparr>m_real_data = [1, 0, 0, 0], compare_data = [],
      m_comp_data_size = 0, m_comp_data_bits = 0, m_comp_data_bits_2B = -1,
      m_comp_data_bits_4B = -1, m_comp_data_bits_8B = -1, m_compress_data = []\<rparr> = Inr mf' \<and>
    m_comp_data_size mf' = ceil_div8 (line_bits [hex8 1])"
  using fpc_run_result[of "\<lparr>m_real_data = [1, 0, 0, 0], compare_data = [],
      m_comp_data_size = 0, m_comp_data_bits = 0, m_comp_data_bits_2B = -1,
      m_comp_data_bits_4B = -1, m_comp_data_bits_8B = -1, m_compress_data = []\<rparr>" "[1]"]
  by (simp add: word_of_bytes_def) blast

text \<open>The compressed size of a line is at least one byte and at most 35 bits per word: an
  incompressible 128-byte line grows to 140 bytes and no line grows further.\<close>

theorem fpc_run_size_bounds:
  assumes "fpc_run fpc_initialize mf = Inr mf'" and "m_real_data mf \<noteq> []"
  shows "1 \<le> m_comp_data_size mf' \<and>
    m_comp_data_size mf' \<le> ceil_div8 (35 * (length (m_real_data mf) div 4))"
proof -
  obtain ws where ws: "decompose_words (m_real_data mf) = Inr ws"
    using assms by (cases "decompose_words (m_real_data mf)")
      (auto simp: fpc_run_def make_packet_eq get_real_data_size_def)
  have len: "length (m_real_data mf) = 4 * length ws" by (rule decompose_words_length[OF ws])
  have hex: "\<forall>w \<in> set (map hex8 ws). hex_word w" by (simp add: hex_word_hex8)
  have "ws \<noteq> []" using len assms(2) by auto
  with fpc_run_ok[OF ws] assms(1)
  have "m_comp_data_size mf' = ceil_div8 (line_bits (map hex8 ws))" by auto
  then show ?thesis
    using line_bits_bounds[OF hex] \<open>ws \<noteq> []\<close> len by (auto simp: ceil_div8_def intro!: div_le_mono)
qed

theorem fpc_run_size_bounds_witness:
  "\<exists>mf'. fpc_run fpc_initialize \<lparr>m_real_data = [1, 0, 0, 0], compare_data = [],
      m_comp_data_size = 0, m_comp_data_bits = 0, m_comp_data_bits_2B = -1,
      m_comp_data_bits_4B = -1, m_comp_data_bits_8B = -1, m_compress_data = []\<rparr> = Inr mf' \<and>
    1 \<le> m_comp_data_size mf' \<and> m_comp_data_size mf' \<le> ceil_div8 35"
proof -
  let ?mf = "\<lparr>m_real_data = [1, 0, 0, 0], compare_data = [],
      m_comp_data_size = 0, m_comp_data_bits = 0, m_comp_data_bits_2B = -1,
      m_comp_data_bits_4B = -1, m_comp_data_bits_8B = -1, m_compress_data = []\<rparr> :: mem_fetch"
  obtain mf' where run: "fpc_run fpc_initialize ?mf = Inr mf'"
    by (simp add: fpc_run_def make_packet_eq get_real_data_size_def word_of_bytes_def hex8_def
        nibble_def hexdig_eqs hexdig_eqs(2)[simplified] fpc_compress_def DATA_SIZE_def
        pieces.simps each_compress_def fpc_initialize_def compare_pattern_def check_str_def
        substr_def gen_zero_def gen_f_def first_char_def char_minus0_def numeral_eq_Suc
        convert_output_loop.simps set_comp_data_bits_def set_comp_data_size_def Let_def)
  from fpc_run_size_bounds[OF run] run show ?thesis by simp
qed

lemma rep_overlap:
  assumes "length w = 8" and rep: "rep_word w"
    and "sext_fits 8 4 w \<or> drop 4 w = ''0000'' \<or> (sext_fits 4 2 (take 4 w) \<and> sext_fits 4 2 (drop 4 w))"
  shows "w = ''00000000'' \<or> sext_fits 8 1 w"
proof -
  obtain a b c d e f g h where w: "w = [a, b, c, d, e, f, g, h]"
    using assms(1) by (rule length_8_cases)
  have eqs: "c = a" "d = b" "e = a" "f = b" "g = a" "h = b" using rep by (simp_all add: w rep_word_def)
  have s: "sext_fits 8 1 w \<longleftrightarrow> a = sign_digit h \<and> b = sign_digit h"
    "sext_fits 8 4 w \<longleftrightarrow> a = sign_digit a \<and> b = sign_digit a"
    "sext_fits 4 2 (take 4 w) \<longleftrightarrow> a = sign_digit a \<and> b = sign_digit a"
    by (auto simp: sext_fits_def sign_ext_def first_char_def w eqs numeral_eq_Suc)
  show ?thesis using assms(3) unfolding s by (auto simp: w eqs)
qed

lemma fpc_keeps_values:
  "fpc_keeps ''001'' = 1" "fpc_keeps ''010'' = 2" "fpc_keeps ''011'' = 4" "fpc_keeps ''100'' = 4"
  "fpc_keeps ''101'' = 4" "fpc_keeps ''110'' = 2" "fpc_keeps ''111'' = 8"
  by (simp_all add: fpc_keeps_def)

lemma class_keeps:
  assumes len: "length w = 8" and nz: "w \<noteq> ''00000000''"
  shows "sext_fits 8 1 w \<Longrightarrow> fpc_keeps (fst (fpc_class w)) \<le> 1"
    and "sext_fits 8 2 w \<Longrightarrow> fpc_keeps (fst (fpc_class w)) \<le> 2"
    and "rep_word w \<Longrightarrow> fpc_keeps (fst (fpc_class w)) \<le> 2"
    and "sext_fits 8 4 w \<Longrightarrow> fpc_keeps (fst (fpc_class w)) \<le> 4"
    and "drop 4 w = ''0000'' \<Longrightarrow> fpc_keeps (fst (fpc_class w)) \<le> 4"
    and "sext_fits 4 2 (take 4 w) \<Longrightarrow> sext_fits 4 2 (drop 4 w) \<Longrightarrow>
      fpc_keeps (fst (fpc_class w)) \<le> 4"
    and "fpc_keeps (fst (fpc_class w)) \<le> 8"
proof -
  show 1: "fpc_keeps (fst (fpc_class w)) \<le> 1" if "sext_fits 8 1 w"
    using fpc_class_eqs(2)[OF nz that] by (simp add: fpc_keeps_values)
  show 2: "fpc_keeps (fst (fpc_class w)) \<le> 2" if "sext_fits 8 2 w"
    using 1 fpc_class_eqs(3)[OF nz _ that] by (cases "sext_fits 8 1 w") (simp_all add: fpc_keeps_values)
  show "fpc_keeps (fst (fpc_class w)) \<le> 2" if r: "rep_word w"
  proof (cases "sext_fits 8 1 w \<or> sext_fits 8 2 w")
    case True
    then show ?thesis using 1 2 by auto
  next
    case False
    then have "\<not> sext_fits 8 4 w" "drop 4 w \<noteq> ''0000''"
      "\<not> (sext_fits 4 2 (take 4 w) \<and> sext_fits 4 2 (drop 4 w))"
      using rep_overlap[OF len r] nz by blast+
    then show ?thesis using fpc_class_eqs(7)[OF nz _ _ _ _ _ r] False by (simp add: fpc_keeps_values)
  qed
  show "fpc_keeps (fst (fpc_class w)) \<le> 4" if "sext_fits 8 4 w"
    using that by (cases w rule: fpc_class_cases) (simp_all add: fpc_keeps_def)
  show "fpc_keeps (fst (fpc_class w)) \<le> 4" if "drop 4 w = ''0000''"
    using that by (cases w rule: fpc_class_cases) (simp_all add: fpc_keeps_def)
  show "fpc_keeps (fst (fpc_class w)) \<le> 4"
    if "sext_fits 4 2 (take 4 w)" "sext_fits 4 2 (drop 4 w)"
    using that by (cases w rule: fpc_class_cases) (simp_all add: fpc_keeps_def)
  show "fpc_keeps (fst (fpc_class w)) \<le> 8" by (simp add: fpc_keeps_def)
qed

text \<open>The table order is optimal: no other pattern of the table that applies to a word keeps
  fewer characters than the one \<open>each_compress\<close> takes.\<close>

theorem fpc_shortest_pattern:
  assumes "hex_word w" and "w \<noteq> ''00000000''" and "p \<in> set fpc_initialize"
    and "compare_pattern w (fst p) [] \<noteq> []"
  shows "length (each_compress w fpc_initialize) \<le> length (compare_pattern w (fst p) [])"
proof -
  have len: "length w = 8" using assms(1) by (simp add: hex_word_def)
  have out: "length (each_compress w fpc_initialize) = 3 + length (snd (fpc_class w))"
    using each_compress_class[OF assms(1)] fpc_class_length(1)[OF len] by simp
  note cp = compare_patterns[OF assms(1)]
  have applies: "length (compare_pattern w (fst p) []) = 3 + fpc_keeps (fst p) \<and>
      (fst p = ''001'' \<and> sext_fits 8 1 w \<or> fst p = ''010'' \<and> sext_fits 8 2 w \<or>
       fst p = ''011'' \<and> sext_fits 8 4 w \<or> fst p = ''100'' \<and> drop 4 w = ''0000'' \<or>
       fst p = ''101'' \<and> sext_fits 4 2 (take 4 w) \<and> sext_fits 4 2 (drop 4 w) \<or>
       fst p = ''110'' \<and> rep_word w \<or> fst p = ''111'')"
  proof -
    have "p = (''000'', 0) \<or> p = (''001'', 1) \<or> p = (''010'', 2) \<or> p = (''011'', 4) \<or>
        p = (''100'', 4) \<or> p = (''101'', 4) \<or> p = (''110'', 2) \<or> p = (''111'', 8)"
      using assms(3) by (simp add: fpc_initialize_def)
    then show ?thesis
      using assms(2,4) len by (elim disjE) (simp_all add: cp fpc_keeps_def split: if_splits)
  qed
  have keep: "length (snd (fpc_class w)) = fpc_keeps (fst (fpc_class w))"
    by (rule fpc_class_length(2)[OF len])
  have "fpc_keeps (fst (fpc_class w)) \<le> fpc_keeps (fst p)"
    using applies class_keeps[OF len assms(2)] by (elim conjE disjE) (simp_all add: fpc_keeps_values)
  then show ?thesis using out keep applies by simp
qed

theorem fpc_shortest_pattern_witness:
  "length (each_compress ''0000007F'' fpc_initialize) \<le>
     length (compare_pattern ''0000007F'' ''011'' [])"
proof -
  have hex: "hex_word ''0000007F''" by (simp add: hex_word_def is_hex_def)
  have "compare_pattern ''0000007F'' ''011'' [] \<noteq> []"
    using compare_patterns(4)[OF hex]
    by (simp add: sext_fits_def sign_ext_def first_char_def sign_digit_def char_minus0_def
        numeral_eq_Suc)
  then show ?thesis
    using fpc_shortest_pattern[OF hex, of "(''011'', 4)"] by (simp add: fpc_initialize_def)
qed

text \<open>The word counter that the debug output of \<open>convert_output\<close> prints reads the three
  count bits in the wrong order: for a run of two zero words the count field is \<open>001\<close> and the
  counter advances by five words instead of two; the bits (six) are right.\<close>

theorem fpc_debug_counter_reversed:
  "fpc_compress ''0000000000000000'' fpc_initialize = ''000001'' \<and>
   convert_output_loop fpc_initialize ''000001'' 0 0 = Inr (6, 5)"
proof
  have "get_binary (Suc 0) 3 = ''001''" by code_simp
  then show "fpc_compress ''0000000000000000'' fpc_initialize = ''000001''"
    by (simp add: fpc_compress_def DATA_SIZE_def pieces.simps zero_ahead_def)
  show "convert_output_loop fpc_initialize ''000001'' 0 0 = Inr (6, 5)"
    by (simp add: convert_output_loop.simps substr_def char_minus0_def Let_def)
qed

end
