(* ===== verification/Cpack_Correct.thy ===== *)
theory Cpack_Correct
  imports Cpack_Codec Fpc_Correct
begin

text \<open>
  Correctness of C-PACK: the dictionary stays well-formed, what each word is sent as, the reader that the
  format calls for (built on \<open>process_string_pattern\<close>), the round trip, and the size.
\<close>

section \<open>The dictionary\<close>

definition cdict_ok :: "nat \<Rightarrow> word_dict \<Rightarrow> bool" where
  "cdict_ok m d \<longleftrightarrow> length d \<le> m \<and> distinct (map fst d) \<and> distinct (map snd d) \<and>
     set (map snd d) = dict_index ` {..<length d} \<and> (\<forall>e \<in> set d. length (fst e) = 8)"

lemma length_dict_index [simp]: "length (dict_index i) = INDEX_BITS"
  by (simp add: dict_index_def)

lemma dict_index_inj: "i < 32 \<Longrightarrow> j < 32 \<Longrightarrow> dict_index i = dict_index j \<Longrightarrow> i = j"
  unfolding dict_index_def INDEX_BITS_def by (drule arg_cong[where f = bin_val]) (simp add: bin_val_get_binary)

lemma cdict_index_length: "cdict_ok m d \<Longrightarrow> e \<in> set d \<Longrightarrow> length (snd e) = INDEX_BITS"
proof -
  assume a: "cdict_ok m d" "e \<in> set d"
  then have "snd e \<in> dict_index ` {..<length d}" unfolding cdict_ok_def by force
  then show ?thesis by auto
qed

lemma new_cdict_ok: "cdict_ok m (word_dict_glb (new_cpack_dict m))"
  by (simp add: cdict_ok_def new_cpack_dict_def)

lemma cpack_insert_ok:
  assumes ok: "cdict_ok m d" and m: "0 < m" "m \<le> 32" and p: "length p = 8"
  shows "\<exists>d'. cpack_insert m d p = Inr d' \<and> cdict_ok m d' \<and> p \<in> fst ` set d'"
proof (cases "\<exists>e \<in> set d. fst e = p")
  case True
  then show ?thesis using ok by (auto simp: cpack_insert_def)
next
  case new: False
  show ?thesis
  proof (cases "length d = m")
    case True
    then obtain e es where d: "d = e # es" using m by (cases d) auto
    have "snd e \<notin> set (map snd es)" "distinct (map snd es)" using ok by (simp_all add: cdict_ok_def d)
    moreover have "p \<notin> set (map fst es)" using new by (auto simp: d)
    ultimately have "cdict_ok m (es @ [(p, snd e)])" using ok p by (simp add: cdict_ok_def d)
    then show ?thesis using new True by (auto simp: cpack_insert_def d)
  next
    case False
    then have l: "length d < m" using ok by (simp add: cdict_ok_def)
    have "dict_index (length d) \<notin> dict_index ` {..<length d}"
    proof
      assume "dict_index (length d) \<in> dict_index ` {..<length d}"
      then obtain i where "i < length d" "dict_index (length d) = dict_index i" by auto
      then show False using dict_index_inj[of "length d" i] l m by simp
    qed
    then have "dict_index (length d) \<notin> set (map snd d)" using ok by (simp add: cdict_ok_def)
    moreover have "p \<notin> set (map fst d)" using new by auto
    moreover have "set (map snd (d @ [(p, dict_index (length d))])) = dict_index ` {..<length (d @ [(p, dict_index (length d))])}"
      using ok by (simp add: cdict_ok_def lessThan_Suc)
    ultimately have "cdict_ok m (d @ [(p, dict_index (length d))])"
      using ok l p by (simp add: cdict_ok_def)
    then show ?thesis using new False by (auto simp: cpack_insert_def)
  qed
qed

definition cpack_dict_ok :: "cpack_dict \<Rightarrow> bool" where
  "cpack_dict_ok g \<longleftrightarrow> 0 < cd_max_size g \<and> cd_max_size g \<le> 32 \<and> cdict_ok (cd_max_size g) (word_dict_glb g)"

lemma cpack_update_ok:
  assumes "cpack_dict_ok g" and "\<forall>p \<in> set lcl. length p = 8"
  shows "\<exists>g'. cpack_update_dict g lcl = Inr g' \<and> cpack_dict_ok g' \<and> cd_max_size g' = cd_max_size g"
proof -
  have "\<exists>d'. foldE (cpack_insert (cd_max_size g)) d lcl = Inr d' \<and> cdict_ok (cd_max_size g) d'"
    if "cdict_ok (cd_max_size g) d" for d
    using that assms(2)
  proof (induction lcl arbitrary: d)
    case (Cons p lcl)
    obtain d' where "cpack_insert (cd_max_size g) d p = Inr d'" "cdict_ok (cd_max_size g) d'"
      using cpack_insert_ok[OF Cons.prems(1), of p] assms(1) Cons.prems(2) by (auto simp: cpack_dict_ok_def)
    then show ?case using Cons.IH Cons.prems(2) by simp
  qed simp
  then show ?thesis using assms(1) by (fastforce simp: cpack_update_dict_def cpack_dict_ok_def)
qed

section \<open>Comparing\<close>

text \<open>The pairs at the front on which two words of eight digits agree.\<close>

definition common :: "string \<Rightarrow> string \<Rightarrow> nat" where
  "common d w = (if substr d 0 2 \<noteq> substr w 0 2 then 0 else if substr d 2 2 \<noteq> substr w 2 2 then 1
     else if substr d 4 2 \<noteq> substr w 4 2 then 2 else if substr d 6 2 \<noteq> substr w 6 2 then 3 else 4)"

definition match_pattern :: "nat \<Rightarrow> string" where
  "match_pattern m = replicate m CHR ''m'' @ replicate (4 - m) CHR ''x''"

lemma match_patterns:
  "match_pattern 0 = ''xxxx''" "match_pattern 1 = ''mxxx''" "match_pattern 2 = ''mmxx''" "match_pattern 3 = ''mmmx''"
  "match_pattern 4 = ''mmmm''"
  by (simp_all add: match_pattern_def numeral_eq_Suc)

lemma compare_str_common:
  assumes "length d = 8" and "length w = 8"
  shows "compare_str d w = Inr (common d w, match_pattern (common d w), drop (2 * common d w) w)"
proof -
  have "map ((*) BIT_WORD) [0..<length d div BIT_WORD] = [0, 2, 4, 6]"
    using assms(1) by (simp add: BIT_WORD_def upt_rec)
  moreover have "replicate 2 c = [c, c]" "replicate 3 c = [c, c, c]" for c :: char by (simp_all add: numeral_eq_Suc)
  ultimately show ?thesis using assms
    by (simp add: compare_str_def BIT_WORD_def PATTERN_SIZE_def common_def match_patterns match_patterns(2)[unfolded One_nat_def])
qed

lemma common_le: "common d w \<le> 4"
  by (simp add: common_def)

lemma common_same: "common w w = 4"
  by (simp add: common_def)

lemma common_take:
  assumes "length d = 8" and "length w = 8"
  shows "take (2 * common d w) d = take (2 * common d w) w"
proof -
  obtain a b c e f g h i where d: "d = [a, b, c, e, f, g, h, i]" using assms(1) by (rule length_8_cases)
  obtain a' b' c' e' f' g' h' i' where w: "w = [a', b', c', e', f', g', h', i']" using assms(2) by (rule length_8_cases)
  show ?thesis by (simp add: d w common_def substr_def)
qed

text \<open>The search keeps the first of the best entries.\<close>

definition best_match :: "word_dict \<Rightarrow> string \<Rightarrow> match_state \<Rightarrow> bool" where
  "best_match d w s \<longleftrightarrow> (\<forall>e \<in> set d. common (fst e) w \<le> mt_val s) \<and> (mt_val s = 0 \<or>
     (\<exists>e \<in> set d. mt_val s = common (fst e) w \<and> mt_index s = snd e \<and> mt_pattern s = match_pattern (mt_val s) \<and>
        mt_unmatched s = drop (2 * mt_val s) w))"

lemma match_fold:
  assumes "\<forall>e \<in> set d. length (fst e) = 8" and "length w = 8" and "mt_val s0 = 0"
  shows "\<exists>s. foldE (match_step w) s0 d = Inr s \<and> best_match d w s"
  using assms(1)
proof (induction d rule: rev_induct)
  case Nil
  then show ?case using assms(3) by (simp add: best_match_def)
next
  case (snoc e d)
  then obtain s where s: "foldE (match_step w) s0 d = Inr s" "best_match d w s" by auto
  have c: "compare_str (fst e) w = Inr (common (fst e) w, match_pattern (common (fst e) w), drop (2 * common (fst e) w) w)"
    using compare_str_common snoc.prems assms(2) by simp
  have f: "foldE (match_step w) s0 (d @ [e]) = match_step w s e"
    using s(1) by (cases "match_step w s e") (simp_all add: foldE_append)
  show ?case
  proof (cases "mt_val s < common (fst e) w")
    case True
    let ?t = "\<lparr>mt_val = common (fst e) w, mt_index = snd e, mt_pattern = match_pattern (common (fst e) w),
      mt_unmatched = drop (2 * common (fst e) w) w\<rparr>"
    have "\<forall>x \<in> set d. common (fst x) w \<le> common (fst e) w" using s(2) True unfolding best_match_def by fastforce
    then have "best_match (d @ [e]) w ?t" by (simp add: best_match_def)
    then show ?thesis unfolding f using True c by (simp add: match_step_def)
  next
    case False
    have "best_match (d @ [e]) w s" using s(2) False unfolding best_match_def by force
    then show ?thesis unfolding f using False c by (simp add: match_step_def)
  qed
qed

section \<open>What a word is sent as\<close>

lemma pattern_codes:
  "code_of cpack_initialize ''zzzz'' r = ''00'' @ r" "code_of cpack_initialize ''xxxx'' r = ''01'' @ r"
  "code_of cpack_initialize ''mmmm'' r = ''10'' @ r" "code_of cpack_initialize ''mmxx'' r = ''1100'' @ r"
  "code_of cpack_initialize ''zzzx'' r = ''1101'' @ r" "code_of cpack_initialize ''mmmx'' r = ''1110'' @ r"
  by (simp_all add: code_of_def pattern_finder_def cpack_initialize_def)

lemma partial_cases:
  assumes "length w = 8"
  obtains p u where "process_string_partial w = Inr (p, u)" "p = ''zzzz'' \<longleftrightarrow> w = ''00000000''" "p = ''zzzz'' \<longrightarrow> u = ''''"
    "p = ''zzzx'' \<longrightarrow> w = ''000000'' @ u \<and> length u = 2"
proof -
  obtain a b c e f g h i where w: "w = [a, b, c, e, f, g, h, i]" using assms by (rule length_8_cases)
  have u: "[0..<7 div 2] = [0, 1, 2::nat]" by (simp add: upt_rec)
  show thesis
    by (rule that[of "fst (projr (process_string_partial w))" "snd (projr (process_string_partial w))"])
      (auto simp: process_string_partial_def w BIT_WORD_def Let_def u substr_def)
qed

datatype cpack_kind = Zero_Word | Low_Byte string | Dict_Match nat string string | Fresh_Word

fun kind_output :: "cpack_kind \<Rightarrow> string \<Rightarrow> string \<times> nat \<times> bool" where
  "kind_output Zero_Word w = (''00'', 2, False)"
| "kind_output (Low_Byte u) w = (''1101'' @ u, 12, False)"
| "kind_output (Dict_Match m dw idx) w =
     ((if m = 4 then ''10'' else if m = 3 then ''1110'' else ''1100'') @ idx @ drop (2 * m) w,
      if m = 4 then 7 else if m = 3 then 17 else 25, False)"
| "kind_output Fresh_Word w = (''01'' @ w, 34, True)"

fun kind_fits :: "word_dict \<Rightarrow> string \<Rightarrow> cpack_kind \<Rightarrow> bool" where
  "kind_fits d w Zero_Word \<longleftrightarrow> w = ''00000000''"
| "kind_fits d w (Low_Byte u) \<longleftrightarrow> w = ''000000'' @ u \<and> length u = 2"
| "kind_fits d w (Dict_Match m dw idx) \<longleftrightarrow> 2 \<le> m \<and> m \<le> 4 \<and> (dw, idx) \<in> set d \<and> take (2 * m) dw = take (2 * m) w"
| "kind_fits d w Fresh_Word \<longleftrightarrow> w \<notin> fst ` set d"

lemma cpack_word_kind:
  assumes ok: "cdict_ok m d" and w: "length w = 8"
  shows "\<exists>k. cpack_word cpack_initialize d w = Inr (kind_output k w) \<and> kind_fits d w k"
proof -
  obtain p u where p: "process_string_partial w = Inr (p, u)" "p = ''zzzz'' \<longleftrightarrow> w = ''00000000''" "p = ''zzzz'' \<longrightarrow> u = ''''"
    "p = ''zzzx'' \<longrightarrow> w = ''000000'' @ u \<and> length u = 2" using w by (rule partial_cases)
  have d: "\<forall>e \<in> set d. length (fst e) = 8" using ok by (simp add: cdict_ok_def)
  consider (Z) "p = ''zzzz''" | (L) "p = ''zzzx''" | (D) "p \<noteq> ''zzzz''" "p \<noteq> ''zzzx''" by blast
  then show ?thesis
  proof cases
    case Z
    then show ?thesis using p by (intro exI[of _ Zero_Word]) (simp add: cpack_word_def pattern_codes)
  next
    case L
    then show ?thesis using p by (intro exI[of _ "Low_Byte u"]) (auto simp: cpack_word_def pattern_codes)
  next
    case D
    let ?s0 = "\<lparr>mt_val = 0, mt_index = '''', mt_pattern = p, mt_unmatched = u\<rparr>"
    obtain s where s: "foldE (match_step w) ?s0 d = Inr s" "best_match d w s" using match_fold[OF d w, of ?s0] by auto
    show ?thesis
    proof (cases "mt_val s \<le> 1")
      case True
      then have v: "mt_val s = 0 \<or> mt_val s = 1" by auto
      have "w \<notin> fst ` set d"
      proof
        assume "w \<in> fst ` set d"
        then obtain e where "e \<in> set d" "fst e = w" by auto
        then have "4 \<le> mt_val s" using s(2) common_same[of w] by (force simp: best_match_def)
        with True show False by simp
      qed
      moreover have "dict_compare cpack_initialize d w p u = Inr (False, mt_index s, ''xxxx'', w)"
        using s(1) v by (simp add: dict_compare_def)
      ultimately show ?thesis using D p(1) by (intro exI[of _ Fresh_Word]) (simp add: cpack_word_def pattern_codes)
    next
      case False
      then obtain e where e: "e \<in> set d" "mt_val s = common (fst e) w" "mt_index s = snd e"
          "mt_pattern s = match_pattern (mt_val s)" "mt_unmatched s = drop (2 * mt_val s) w"
        using s(2) by (auto simp: best_match_def)
      have m: "2 \<le> mt_val s" "mt_val s \<le> 4" using False e(2) common_le[of "fst e" w] by auto
      then have m3: "mt_val s = 2 \<or> mt_val s = 3 \<or> mt_val s = 4" by auto
      have pf: "pattern_finder cpack_initialize (match_pattern (mt_val s)) \<noteq> None"
        using m3 by (auto simp: match_patterns pattern_finder_def cpack_initialize_def)
      have dc: "dict_compare cpack_initialize d w p u = Inr (True, snd e, match_pattern (mt_val s), drop (2 * mt_val s) w)"
        using s(1) False e(3,4,5) pf by (simp add: dict_compare_def)
      have "kind_fits d w (Dict_Match (mt_val s) (fst e) (snd e))"
        using m e(1,2) common_take[of "fst e" w] d w by simp
      moreover have "cpack_word cpack_initialize d w = Inr (kind_output (Dict_Match (mt_val s) (fst e) (snd e)) w)"
        using m3 D p(1) dc w by (auto simp: cpack_word_def pattern_codes match_patterns INDEX_BITS_def)
      ultimately show ?thesis by blast
    qed
  qed
qed

section \<open>The reader\<close>

text \<open>The code is two or four bits; the pattern says how much follows.\<close>

definition rest_length :: "string \<Rightarrow> nat" where
  "rest_length p = (if p = ''zzzz'' then 0 else if p = ''xxxx'' then 8 else if p = ''mmmm'' then INDEX_BITS
     else if p = ''mmmx'' then INDEX_BITS + 2 else if p = ''mmxx'' then INDEX_BITS + 4 else 2)"

definition cpack_read :: "word_dict \<Rightarrow> string \<Rightarrow> (string \<times> string) option" where
  "cpack_read d s =
     (case (case code_finder cpack_initialize (take 2 s) of Some e \<Rightarrow> Some e
            | None \<Rightarrow> code_finder cpack_initialize (take 4 s)) of
        None \<Rightarrow> None
      | Some e \<Rightarrow>
          (let c = length (ct_code e); n = c + rest_length (ct_pattern e)
           in case process_string_pattern 0 (ct_pattern e) (take n s) c d of
                Inl _ \<Rightarrow> None | Inr w \<Rightarrow> Some (w, drop n s)))"

definition cpack_emit :: "word_dict \<Rightarrow> string \<Rightarrow> string" where
  "cpack_emit d w = (case cpack_word cpack_initialize d w of Inl _ \<Rightarrow> '''' | Inr (out, _) \<Rightarrow> out)"

lemma search_entry:
  assumes "distinct (map snd d)" and "(w, i) \<in> set d"
  shows "search_dict 0 i d = w"
proof -
  have "List.find (\<lambda>e. i = snd e) d = Some (w, i)" using assms by (induction d) force+
  then show ?thesis by (simp add: search_dict_def)
qed

lemma codes_found:
  "code_finder cpack_initialize ''00'' = Some \<lparr>ct_code = ''00'', ct_pattern = ''zzzz'', code_word_len = 2\<rparr>"
  "code_finder cpack_initialize ''01'' = Some \<lparr>ct_code = ''01'', ct_pattern = ''xxxx'', code_word_len = 34\<rparr>"
  "code_finder cpack_initialize ''10'' = Some \<lparr>ct_code = ''10'', ct_pattern = ''mmmm'', code_word_len = 6\<rparr>"
  "code_finder cpack_initialize ''11'' = None"
  "code_finder cpack_initialize ''1100'' = Some \<lparr>ct_code = ''1100'', ct_pattern = ''mmxx'', code_word_len = 24\<rparr>"
  "code_finder cpack_initialize ''1101'' = Some \<lparr>ct_code = ''1101'', ct_pattern = ''zzzx'', code_word_len = 12\<rparr>"
  "code_finder cpack_initialize ''1110'' = Some \<lparr>ct_code = ''1110'', ct_pattern = ''mmmx'', code_word_len = 16\<rparr>"
  by (simp_all add: code_finder_def cpack_initialize_def)

lemma read_kind:
  assumes ok: "cdict_ok m d" and w: "length w = 8" and k: "kind_fits d w k"
  shows "cpack_read d (fst (kind_output k w) @ rest) = Some (w, rest)"
proof (cases k)
  case Zero_Word
  then show ?thesis using k by (simp add: cpack_read_def codes_found rest_length_def process_string_pattern_def)
next
  case (Low_Byte u)
  then have "w = ''000000'' @ u" "length u = 2" using k by simp_all
  then show ?thesis using Low_Byte
    by (simp add: cpack_read_def codes_found rest_length_def process_string_pattern_def substr_from_def)
next
  case Fresh_Word
  then show ?thesis using w
    by (simp add: cpack_read_def codes_found rest_length_def process_string_pattern_def substr_from_def)
next
  case (Dict_Match n dw idx)
  have e: "2 \<le> n" "n \<le> 4" "(dw, idx) \<in> set d" "take (2 * n) dw = take (2 * n) w" using k Dict_Match by simp_all
  have i: "length idx = 5" using cdict_index_length[OF ok e(3)] by (simp add: INDEX_BITS_def)
  have s: "search_dict 0 idx d = dw" using search_entry ok e(3) by (simp add: cdict_ok_def)
  have dw: "length dw = 8" using ok e(3) by (force simp: cdict_ok_def)
  consider (Two) "n = 2" | (Three) "n = 3" | (Four) "n = 4" using e(1,2) by linarith
  then show ?thesis
  proof cases
    case Two
    have "take 4 dw @ drop 4 w = w" using e(4) Two by simp
    then show ?thesis using Dict_Match Two i s w
      by (simp add: INDEX_BITS_def Let_def cpack_read_def codes_found rest_length_def process_string_pattern_def substr_from_def)
  next
    case Three
    have "take 6 dw @ drop 6 w = w" using e(4) Three by simp
    then show ?thesis using Dict_Match Three i s w
      by (simp add: INDEX_BITS_def Let_def cpack_read_def codes_found rest_length_def process_string_pattern_def substr_from_def)
  next
    case Four
    have "dw = w" using e(4) Four w dw by simp
    then show ?thesis using Dict_Match Four i s w
      by (simp add: INDEX_BITS_def Let_def cpack_read_def codes_found rest_length_def process_string_pattern_def substr_from_def)
  qed
qed

interpretation cpack_code: prefix_code "cpack_emit d" "cpack_read d" "\<lambda>w. length w = 8 \<and> (\<exists>m. cdict_ok m d)" for d
proof unfold_locales
  fix w rest :: string
  assume a: "length w = 8 \<and> (\<exists>m. cdict_ok m d)"
  then obtain m k where "cdict_ok m d" and k: "cpack_word cpack_initialize d w = Inr (kind_output k w)" "kind_fits d w k"
    using cpack_word_kind by blast
  then have "cpack_read d (fst (kind_output k w) @ rest) = Some (w, rest)" using read_kind a by blast
  moreover have e: "cpack_emit d w = fst (kind_output k w)" by (simp add: cpack_emit_def k(1) split: prod.split)
  ultimately show "cpack_read d (cpack_emit d w @ rest) = Some (w, rest)" by simp
  show "cpack_emit d w \<noteq> []" unfolding e by (cases k) auto
qed

section \<open>A line\<close>

text \<open>The bits a word costs, and the words that go to the dictionary.\<close>

definition word_bits :: "word_dict \<Rightarrow> string \<Rightarrow> nat" where
  "word_bits d w = (case cpack_word cpack_initialize d w of Inl _ \<Rightarrow> 0 | Inr (_, n, _) \<Rightarrow> n)"

lemma word_bits_bounds:
  assumes "cdict_ok m d" and "length w = 8"
  shows "2 \<le> word_bits d w" and "word_bits d w \<le> 34"
proof -
  obtain k where k: "cpack_word cpack_initialize d w = Inr (kind_output k w)" using cpack_word_kind[OF assms] by blast
  have "2 \<le> fst (snd (kind_output k w)) \<and> fst (snd (kind_output k w)) \<le> 34" by (cases k) auto
  then show "2 \<le> word_bits d w" "word_bits d w \<le> 34"
    by (cases "kind_output k w" rule: prod_cases3; simp add: word_bits_def k)+
qed

definition new_words_ok :: "word_dict \<Rightarrow> string list \<Rightarrow> bool" where
  "new_words_ok d lcl \<longleftrightarrow> distinct lcl \<and> (\<forall>w \<in> set lcl. length w = 8 \<and> w \<notin> fst ` set d)"

lemma processor_ok:
  assumes ok: "cdict_ok m d" and ws: "\<forall>w \<in> set ws. length w = 8" and l: "new_words_ok d (word_dict_lcl s)"
  shows "\<exists>s'. foldE (cpack_step cpack_initialize d) s ws = Inr s' \<and>
    output_to_get s' = output_to_get s @ map (cpack_emit d) ws \<and>
    flit_bits s' = flit_bits s + sum_list (map (word_bits d) ws) \<and> new_words_ok d (word_dict_lcl s')"
  using ws l
proof (induction ws arbitrary: s)
  case (Cons w ws)
  obtain k where k: "cpack_word cpack_initialize d w = Inr (kind_output k w)" "kind_fits d w k"
    using cpack_word_kind[OF ok, of w] Cons.prems(1) by auto
  obtain out bits fresh where o: "kind_output k w = (out, bits, fresh)" by (metis prod_cases3)
  let ?s = "\<lparr>output_to_get = output_to_get s @ [out], flit_bits = flit_bits s + bits,
            word_dict_lcl = (if fresh \<and> w \<notin> set (word_dict_lcl s) then word_dict_lcl s @ [w] else word_dict_lcl s)\<rparr>"
  have st: "cpack_step cpack_initialize d s w = Inr ?s" by (simp add: cpack_step_def k(1) o)
  have "fresh \<longrightarrow> w \<notin> fst ` set d" using o k(2) by (cases k) auto
  then have "new_words_ok d (word_dict_lcl ?s)" using Cons.prems by (simp add: new_words_ok_def)
  from Cons.IH[OF _ this] Cons.prems(1) st show ?case
    by (auto simp: cpack_emit_def word_bits_def k(1) o)
qed simp

lemma input_processor_ok:
  assumes "cdict_ok m d" and "\<forall>w \<in> set ws. length w = 8"
  shows "\<exists>s. input_processor cpack_initialize d [] ws = Inr s \<and> output_to_get s = map (cpack_emit d) ws \<and>
    flit_bits s = sum_list (map (word_bits d) ws) \<and> new_words_ok d (word_dict_lcl s)"
  using processor_ok[OF assms, of "\<lparr>output_to_get = [], flit_bits = 0, word_dict_lcl = []\<rparr>"]
  by (simp add: input_processor_def new_words_ok_def)

lemma packet_pieces:
  assumes "make_packet data = Inr packet"
  shows "\<forall>w \<in> set (pieces 8 packet). length w = 8" and "concat (pieces 8 packet) = packet" and
    "length packet = 2 * length data" and "8 * length (pieces 8 packet) = length packet"
proof -
  obtain ws where ws: "decompose_words data = Inr ws" "packet = concat (map hex8 ws)" "pieces DATA_SIZE packet = map hex8 ws"
    using assms by (rule packet_words)
  then show "\<forall>w \<in> set (pieces 8 packet). length w = 8" by (simp add: DATA_SIZE_def)
  show "concat (pieces 8 packet) = packet" by (rule concat_pieces) simp
  have "length packet = 8 * length ws" using ws(2) length_concat_const[of "map hex8 ws" 8] by simp
  then show "length packet = 2 * length data" "8 * length (pieces 8 packet) = length packet"
    using decompose_words_length[OF ws(1)] ws(3) by (simp_all add: DATA_SIZE_def)
qed

lemma cpack_run_ok:
  assumes ok: "cdict_ok m d" and f: "4 dvd length (m_real_data mf)"
  shows "\<exists>mf' lcl. cpack_run cpack_initialize d [] mf = Inr (mf', lcl) \<and> new_words_ok d lcl \<and>
    (m_real_data mf \<noteq> [] \<longrightarrow> (\<exists>packet. make_packet (m_real_data mf) = Inr packet \<and>
       m_comp_data_size mf' = min (length (m_real_data mf)) (ceil_div8 (sum_list (map (word_bits d) (pieces 8 packet))))))"
proof (cases "m_real_data mf = []")
  case True
  then show ?thesis by (simp add: cpack_run_def get_real_data_size_def new_words_ok_def)
next
  case False
  obtain ws where "decompose_words (m_real_data mf) = Inr ws" using f decompose_words_ok by (auto simp: okE_iff)
  then obtain packet where p: "make_packet (m_real_data mf) = Inr packet" by (simp add: make_packet_eq)
  note pp = packet_pieces[OF p]
  obtain s where s: "input_processor cpack_initialize d [] (pieces 8 packet) = Inr s"
      "flit_bits s = sum_list (map (word_bits d) (pieces 8 packet))" "new_words_ok d (word_dict_lcl s)"
    using input_processor_ok[OF ok pp(1)] by blast
  have n: "length packet div 2 = length (m_real_data mf)" using pp(3) by simp
  have "(if 8 * (length packet div 2) < flit_bits s then (length packet div 2 * 8 + 1) div 8 else ceil_div8 (flit_bits s)) =
      min (length (m_real_data mf)) (ceil_div8 (flit_bits s))"
    unfolding n ceil_div8_def by auto
  then show ?thesis using False p s
    by (simp add: cpack_run_def get_real_data_size_def Let_def set_comp_data_bits_def init_size_def set_comp_data_size_def)
qed

section \<open>Properties\<close>

text \<open>Claim C21. C-PACK is lossless: with the dictionary that the compressor used, the reader of the format recovers every word
  of a line from the concatenated output.\<close>
theorem cpack_lossless:
  assumes "cpack_dict_ok g" and "make_packet data = Inr packet"
    and "input_processor cpack_initialize (word_dict_glb g) [] (pieces 8 packet) = Inr s"
  shows "decode_stream (cpack_read (word_dict_glb g)) (concat (output_to_get s)) = Some (pieces 8 packet)"
proof -
  have d: "cdict_ok (cd_max_size g) (word_dict_glb g)" using assms(1) by (simp add: cpack_dict_ok_def)
  note w = packet_pieces(1)[OF assms(2)]
  have "output_to_get s = map (cpack_emit (word_dict_glb g)) (pieces 8 packet)"
    using input_processor_ok[OF d w] assms(3) by auto
  then show ?thesis using cpack_code.decode_emit w d by auto
qed

definition cpack_demo_dict :: cpack_dict where
  "cpack_demo_dict = \<lparr>cd_max_size = 32, word_dict_glb = [(''12345678'', ''00000'')]\<rparr>"

lemma cpack_demo_dict_ok: "cpack_dict_ok cpack_demo_dict"
  by (simp add: cpack_dict_ok_def cpack_demo_dict_def cdict_ok_def dict_index_def INDEX_BITS_def get_binary_def numeral_eq_Suc lessThan_Suc)

lemma cpack_demo_words: "make_packet [0x78, 0x56, 0x34, 0x12, 0xFF, 0x56, 0x34, 0x12, 7, 0, 0, 0] = Inr ''12345678123456FF00000007''"
  by code_simp

lemma cpack_lossless_witness:
  "\<exists>s. input_processor cpack_initialize (word_dict_glb cpack_demo_dict) [] (pieces 8 ''12345678123456FF00000007'') = Inr s \<and>
    decode_stream (cpack_read (word_dict_glb cpack_demo_dict)) (concat (output_to_get s)) = Some (pieces 8 ''12345678123456FF00000007'')"
proof -
  have d: "cdict_ok 32 (word_dict_glb cpack_demo_dict)" using cpack_demo_dict_ok by (simp add: cpack_dict_ok_def cpack_demo_dict_def)
  obtain s where "input_processor cpack_initialize (word_dict_glb cpack_demo_dict) [] (pieces 8 ''12345678123456FF00000007'') = Inr s"
    using input_processor_ok[OF d packet_pieces(1)[OF cpack_demo_words]] by blast
  with cpack_lossless[OF cpack_demo_dict_ok cpack_demo_words] show ?thesis by blast
qed

text \<open>The size C-PACK stores for a line is the sum of the bits of its words in whole bytes, and the size of the line
  itself where that is more; a run never fails on whole words, and a non-empty line takes at least one byte.\<close>
theorem cpack_run_size:
  assumes "cpack_dict_ok g" and "make_packet (m_real_data mf) = Inr packet" and "m_real_data mf \<noteq> []"
  shows "\<exists>mf' lcl. cpack_run cpack_initialize (word_dict_glb g) [] mf = Inr (mf', lcl) \<and>
    m_comp_data_size mf' = min (length (m_real_data mf))
      (ceil_div8 (sum_list (map (word_bits (word_dict_glb g)) (pieces 8 packet)))) \<and> 1 \<le> m_comp_data_size mf'"
proof -
  have d: "cdict_ok (cd_max_size g) (word_dict_glb g)" using assms(1) by (simp add: cpack_dict_ok_def)
  note pp = packet_pieces[OF assms(2)]
  have "okE (decompose_words (m_real_data mf))" using assms(2) by (auto simp: make_packet_eq okE_iff bindE_Inr_iff)
  then have "4 dvd length (m_real_data mf)" by (simp add: decompose_words_ok)
  from cpack_run_ok[OF d this] assms(2,3) obtain mf' lcl where
    r: "cpack_run cpack_initialize (word_dict_glb g) [] mf = Inr (mf', lcl)" "m_comp_data_size mf' =
      min (length (m_real_data mf)) (ceil_div8 (sum_list (map (word_bits (word_dict_glb g)) (pieces 8 packet))))" by auto
  obtain w ws where w: "pieces 8 packet = w # ws" using pp(3,4) assms(3) by (cases "pieces 8 packet") auto
  have "2 \<le> word_bits (word_dict_glb g) w" using word_bits_bounds(1)[OF d, of w] pp(1) w by simp
  then have "1 \<le> ceil_div8 (sum_list (map (word_bits (word_dict_glb g)) (pieces 8 packet)))" by (simp add: w ceil_div8_def)
  moreover have "1 \<le> length (m_real_data mf)" using assms(3) by (cases "m_real_data mf") auto
  ultimately show ?thesis using r by simp
qed

definition cpack_demo_line :: mem_fetch where
  "cpack_demo_line = \<lparr>m_real_data = [0x78, 0x56, 0x34, 0x12, 0xFF, 0x56, 0x34, 0x12, 7, 0, 0, 0], compare_data = [],
     m_comp_data_size = 0, m_comp_data_bits = -1, m_comp_data_bits_2B = -1, m_comp_data_bits_4B = -1,
     m_comp_data_bits_8B = -1, m_compress_data = []\<rparr>"

lemma cpack_run_size_witness:
  "\<exists>mf' lcl. cpack_run cpack_initialize (word_dict_glb cpack_demo_dict) [] cpack_demo_line = Inr (mf', lcl) \<and>
    m_comp_data_size mf' = min 12 (ceil_div8 (sum_list (map (word_bits (word_dict_glb cpack_demo_dict)) (pieces 8 ''12345678123456FF00000007''))))"
  using cpack_run_size[OF cpack_demo_dict_ok, of cpack_demo_line "''12345678123456FF00000007''"] cpack_demo_words by (auto simp: cpack_demo_line_def)

end
