(* ===== verification/Bdi_Codec.thy ===== *)
theory Bdi_Codec
  imports Hex_Words Mem_Fetch
begin

text \<open>
  Base-delta-immediate compression (hpcl_comp_bdi_pl_proc.h, with the table of blocks that
  \<open>init_blocks\<close> of hpcl_comp_bdi_pl.h builds).  A packet of hexadecimal digits is cut into pieces of
  the block's base size; every piece is stored as its low digits if its high digits are zero, or as
  its difference from the first piece that is not, provided the high digits agree.  The smallest of
  the block encodings is sent.

  \<open>get_int\<close> sums \<open>int * pow(2, n)\<close> into a \<open>long long\<close>, so every partial sum goes through a \<open>double\<close>:
  \<open>rnd53\<close> is the rounding of an integer to 53 significant bits, to nearest, ties to even, and
  \<open>to_ll\<close> the conversion back, which is undefined out of range.  The statistics kept for
  \<open>abpd_anal_ptr\<close> are left out.
\<close>

section \<open>Blocks\<close>

record blocker =
  bl_code :: string
  bl_name :: string
  bl_base :: nat
  bl_delta :: nat
  bl_size :: nat

definition Blocker :: "string \<Rightarrow> string \<Rightarrow> nat \<Rightarrow> nat \<Rightarrow> nat \<Rightarrow> blocker" where
  "Blocker cd na bs dl sz =
     \<lparr>bl_code = cd, bl_name = na, bl_base = bs, bl_delta = dl, bl_size = sz\<rparr>"

definition init_blocks :: "(string \<times> blocker) list" where
  "init_blocks =
     [(''base8d1'', Blocker ''0010'' ''base8d1'' 8 1 12),
      (''base8d2'', Blocker ''0011'' ''base8d2'' 8 2 24),
      (''base8d4'', Blocker ''0100'' ''base8d4'' 8 4 16),
      (''base4d2'', Blocker ''0110'' ''base4d2'' 4 2 20),
      (''base4d1'', Blocker ''0101'' ''base4d1'' 4 1 12),
      (''base2d1'', Blocker ''0111'' ''base2d1'' 2 1 18)]"

section \<open>Doubles and \<open>long long\<close>\<close>

definition rnd53_nat :: "nat \<Rightarrow> nat" where
  "rnd53_nat n =
     (let e = length (filter (\<lambda>e. 2 ^ (53 + e) \<le> n) [0..<12]);
          q = n div 2 ^ e; r = n mod 2 ^ e
      in if e = 0 then n
         else if 2 * r < 2 ^ e \<or> 2 * r = 2 ^ e \<and> even q then q * 2 ^ e
         else (q + 1) * 2 ^ e)"

definition rnd53 :: "int \<Rightarrow> int" where
  "rnd53 x = (if x < 0 then - int (rnd53_nat (nat (- x))) else int (rnd53_nat (nat x)))"

definition to_ll :: "int \<Rightarrow> int cxx" where
  "to_ll x = (if - (2 ^ 63) \<le> x \<and> x < 2 ^ 63 then Inr x else Inl Undefined_Behaviour)"

section \<open>Digits and bits\<close>

text \<open>\<open>get_binary_hexa\<close>: four bits per digit, through \<open>lc_cmp\<close> or \<open>c - '0'\<close>.\<close>

definition get_binary_hexa :: "string \<Rightarrow> string" where
  "get_binary_hexa str = concat (map (\<lambda>c. get_binary (nat (hex_value c)) 4) str)"

text \<open>\<open>get_int\<close>: the weight of the first bit is negative when \<open>is_neg\<close>; \<open>count\<close> is the exponent.\<close>

fun get_int_loop :: "int \<Rightarrow> string \<Rightarrow> int cxx" where
  "get_int_loop val [] = Inr val"
| "get_int_loop val (c # cs) =
     bindE (to_ll (rnd53 (val + char_minus0 c * 2 ^ length cs))) (\<lambda>v. get_int_loop v cs)"

definition get_int :: "string \<Rightarrow> bool \<Rightarrow> int cxx" where
  "get_int binary is_neg =
     (case binary of
        [] \<Rightarrow> Inl Out_Of_Range
      | c # cs \<Rightarrow>
          bindE (to_ll (if is_neg then - (2 ^ length cs) else char_minus0 c * 2 ^ length cs))
            (\<lambda>v. get_int_loop v cs))"

text \<open>\<open>get_binary_c\<close>: two's complement, from the last bit to the first with a carry.\<close>

fun get_binary_c_loop :: "string \<Rightarrow> nat \<Rightarrow> string \<Rightarrow> string" where
  "get_binary_c_loop res carry [] = res"
| "get_binary_c_loop res carry (c # cs) =
     (if c = CHR ''0''
      then get_binary_c_loop (digit_char ((1 + carry) mod 2) # res) carry cs
      else get_binary_c_loop (digit_char carry # res) 0 cs)"

definition get_binary_c :: "string \<Rightarrow> string" where
  "get_binary_c b = get_binary_c_loop [] 1 (rev b)"

text \<open>The digits of \<open>convert_hexa\<close>: \<open>lc_dcp\<close> for ten and above, the decimal digit below.\<close>

definition lc_dcp :: "nat \<Rightarrow> char option" where
  "lc_dcp = [10 \<mapsto> CHR ''A'', 11 \<mapsto> CHR ''B'', 12 \<mapsto> CHR ''C'',
             13 \<mapsto> CHR ''D'', 14 \<mapsto> CHR ''E'', 15 \<mapsto> CHR ''F'']"

definition hex_of_nibble :: "nat \<Rightarrow> char" where
  "hex_of_nibble v = (case lc_dcp v of Some c \<Rightarrow> c | None \<Rightarrow> digit_char v)"

definition hex_of_bits :: "string \<Rightarrow> string" where
  "hex_of_bits bs = map (\<lambda>nib. hex_of_nibble (bin_val nib)) (pieces 4 bs)"

definition convert_hexa :: "int \<Rightarrow> nat \<Rightarrow> string cxx" where
  "convert_hexa num delta =
     bindE (to_ll \<bar>num\<bar>) (\<lambda>m.
       let binary = get_binary (nat m) (delta * 4);
           two_c = (if num < 0 then get_binary_c binary else binary)
       in Inr (hex_of_bits two_c))"

section \<open>Zero base and common base\<close>

definition get_zero_out :: "nat \<Rightarrow> string" where
  "get_zero_out num = replicate num CHR ''0''"

text \<open>\<open>zero_diff\<close>: \<open>None\<close> is the return value \<open>false\<close>.\<close>

definition zero_diff :: "string \<Rightarrow> string \<Rightarrow> nat \<Rightarrow> string option" where
  "zero_diff src dst delta =
     (if substr src 0 (length src - delta) \<noteq> substr dst 0 (length dst - delta) then None
      else Some (CHR ''0'' # drop (length src - delta) src))"

definition check_zero :: "string \<Rightarrow> nat \<Rightarrow> nat \<Rightarrow> bool \<times> string list" where
  "check_zero packet base delta =
     (let zero = get_zero_out base;
          one = (\<lambda>sub. case zero_diff sub zero delta of
                   None \<Rightarrow> (False, CHR ''#'' # sub) | Some p \<Rightarrow> (True, p));
          rs = map one (pieces base packet)
      in (list_all fst rs, map snd rs))"

text \<open>\<open>convert_base\<close>: the low digits of \<open>src\<close> minus the base, both read as signed.\<close>

definition signed_of_hex :: "string \<Rightarrow> int cxx" where
  "signed_of_hex s =
     (let b = get_binary_hexa s
      in case b of [] \<Rightarrow> Inl Out_Of_Range | c # _ \<Rightarrow> get_int b (c = CHR ''1''))"

definition convert_base :: "string \<Rightarrow> string \<Rightarrow> nat \<Rightarrow> string option cxx" where
  "convert_base src dst delta =
     (if substr src 0 (length src - delta) \<noteq> substr dst 0 (length dst - delta) then Inr None
      else bindE (signed_of_hex dst) (\<lambda>a.
           bindE (signed_of_hex (drop (length src - delta) src)) (\<lambda>b.
           bindE (to_ll (a * -1)) (\<lambda>two_c.
           bindE (to_ll (b + two_c)) (\<lambda>num.
           bindE (convert_hexa num delta) (\<lambda>processed. Inr (Some processed)))))))"

text \<open>
  The loop of \<open>check_base\<close>: \<open>bs\<close> is \<open>base_str\<close> once it is set.  \<open>None\<close> is the return value \<open>false\<close>,
  \<open>Some\<close> carries the base and the rewritten parts.
\<close>

fun check_base_loop ::
    "nat \<Rightarrow> string option \<Rightarrow> string list \<Rightarrow> (string option \<times> string list) option cxx" where
  "check_base_loop delta bs [] = Inr (Some (bs, []))"
| "check_base_loop delta bs (cur # rest) =
     (if cur \<noteq> [] \<and> hd cur = CHR ''#'' then
        (let w = tl cur; base_str = (case bs of None \<Rightarrow> w | Some b \<Rightarrow> b)
         in bindE (convert_base w base_str delta) (\<lambda>r.
              case r of None \<Rightarrow> Inr None
              | Some processed \<Rightarrow>
                  bindE (check_base_loop delta (Some base_str) rest) (\<lambda>q.
                    case q of None \<Rightarrow> Inr None
                    | Some (b, parts) \<Rightarrow> Inr (Some (b, (CHR ''1'' # processed) # parts)))))
      else bindE (check_base_loop delta bs rest) (\<lambda>q.
             case q of None \<Rightarrow> Inr None | Some (b, parts) \<Rightarrow> Inr (Some (b, cur # parts))))"

definition check_base ::
    "string list \<Rightarrow> nat \<Rightarrow> (string option \<times> string list) option cxx" where
  "check_base part_output delta = check_base_loop delta None part_output"

definition form_output :: "string list \<Rightarrow> string" where
  "form_output part_output = concat part_output"

section \<open>Selecting an encoding\<close>

definition all_zero_check :: "string \<Rightarrow> string option" where
  "all_zero_check packet =
     (if packet = replicate (length packet) CHR ''0'' then Some (''0000'' @ ''00'') else None)"

definition all_same_val :: "string \<Rightarrow> string option" where
  "all_same_val packet =
     (let rep_str = substr packet 0 16
      in if \<forall>tmp \<in> set (pieces 16 (drop 16 packet)). tmp = rep_str
         then Some (''0001'' @ rep_str) else None)"

text \<open>One round of the loop over the blocks: the encoding, if the block applies.\<close>

definition bdi_try :: "blocker \<Rightarrow> string \<Rightarrow> string option cxx" where
  "bdi_try bl packet =
     (let used_base = bl_base bl * 2; used_delta = bl_delta bl * 2
      in case check_zero packet used_base used_delta of
           (all_zero, part_output) \<Rightarrow>
             if all_zero
             then Inr (Some (bl_code bl @ get_zero_out used_base @ form_output part_output))
             else bindE (check_base part_output used_delta) (\<lambda>r.
               case r of None \<Rightarrow> Inr None
               | Some (bs, parts) \<Rightarrow>
                   Inr (Some (bl_code bl @ (case bs of None \<Rightarrow> [] | Some b \<Rightarrow> b) @
                              form_output parts))))"

text \<open>The loop \<open>for(k=4+used_base; k<output.size(); k+=used_delta+1)\<close> and the header bits.\<close>

definition bdi_bits :: "string \<Rightarrow> nat \<Rightarrow> nat \<Rightarrow> nat" where
  "bdi_bits output used_base used_delta =
     length (pieces (used_delta + 1) (drop (4 + used_base) output)) * (1 + used_delta * 4) +
     (4 + used_base * 4)"

record bdi_best =
  new_out :: string
  new_used_base :: int
  new_used_delta :: int
  new_comp_bit_size :: nat
  is_last_ex :: bool

definition INT_MAX :: nat where "INT_MAX = 2 ^ 31 - 1"

definition bdi_start :: bdi_best where
  "bdi_start = \<lparr>new_out = [], new_used_base = 0, new_used_delta = 0,
     new_comp_bit_size = INT_MAX, is_last_ex = True\<rparr>"

definition bdi_round :: "string \<Rightarrow> bdi_best \<Rightarrow> string \<times> blocker \<Rightarrow> bdi_best cxx" where
  "bdi_round packet best nb =
     (let bl = snd nb; used_base = bl_base bl * 2; used_delta = bl_delta bl * 2
      in bindE (bdi_try bl packet) (\<lambda>r.
           case r of None \<Rightarrow> Inr best
           | Some output \<Rightarrow>
               (let comp_bit_size = bdi_bits output used_base used_delta;
                    best' = (if comp_bit_size < new_comp_bit_size best
                             then best\<lparr>new_out := output, new_used_base := int used_base,
                                       new_used_delta := int used_delta,
                                       new_comp_bit_size := comp_bit_size\<rparr>
                             else best)
                in Inr (best'\<lparr>is_last_ex := False\<rparr>))))"

definition bdi_select :: "(string \<times> blocker) list \<Rightarrow> string \<Rightarrow> bdi_best cxx" where
  "bdi_select tracker packet =
     (case all_zero_check packet of
        Some out \<Rightarrow> Inr (bdi_start\<lparr>new_out := out, new_comp_bit_size := 4 + 1 * 8\<rparr>)
      | None \<Rightarrow>
          (case all_same_val packet of
             Some out \<Rightarrow> Inr (bdi_start\<lparr>new_out := out, new_comp_bit_size := 4 + 8 * 8\<rparr>)
           | None \<Rightarrow>
               bindE (foldE (bdi_round packet) bdi_start tracker) (\<lambda>best.
                 Inr (if is_last_ex best
                      then best\<lparr>new_used_base := -1, new_used_delta := -1,
                                new_out := ''1111'' @ packet,
                                new_comp_bit_size := 4 + length packet * 4\<rparr>
                      else best))))"

section \<open>The payload\<close>

definition hex_to_int :: "string \<Rightarrow> nat" where
  "hex_to_int x = bin_val (get_binary_hexa x)"

definition ASCII_0 :: u8 where "ASCII_0 = 48"

text \<open>
  The byte loop of the block branch as it is written: \<open>to_send\<close> collects \<open>binary[i]\<close>, not
  \<open>binary[j]\<close>, eight times.
\<close>

definition send_byte :: "string \<Rightarrow> u8 cxx" where
  "send_byte chunk =
     bindE (get_int (replicate 8 (hd chunk)) False) (\<lambda>v. Inr (word_of_int v))"

fun bytes_of_binary :: "string list \<Rightarrow> u8 list cxx" where
  "bytes_of_binary [] = Inr []"
| "bytes_of_binary (chunk # rest) =
     bindE (if length chunk = 8 then send_byte chunk
            else bindE (get_int (replicate (8 - length chunk) CHR ''0'' @ chunk) False)
                   (\<lambda>v. Inr (word_of_int v)))
       (\<lambda>b. bindE (bytes_of_binary rest) (\<lambda>bs. Inr (b # bs)))"

definition convert_output :: "string \<Rightarrow> int \<Rightarrow> int \<Rightarrow> u8 list cxx" where
  "convert_output output delta base =
     (let type_bdi = substr output 0 4
      in if type_bdi = ''0000'' then Inr [ASCII_0, ASCII_0]
         else if type_bdi = ''0001'' then Inr (replicate (8 + 1) ASCII_0)
         else if type_bdi = ''1111'' then
           (let decode = CHR ''F'' # drop 4 output
            in Inr (map (\<lambda>sub. word_of_nat (hex_to_int sub)) (pieces 2 decode)))
         else
           (let b = nat base; d = nat delta;
                binary = type_bdi @ get_binary_hexa (substr output 4 b) @
                  concat (map (\<lambda>item. substr item 0 1 @ get_binary_hexa (substr item 1 d))
                    (pieces (d + 1) (drop (4 + b) output)))
            in bytes_of_binary (pieces 8 binary)))"

text \<open>\<open>run\<close>: select, convert, check the assertion on the sizes and store the result.\<close>

definition bdi_run :: "(string \<times> blocker) list \<Rightarrow> mem_fetch \<Rightarrow> mem_fetch cxx" where
  "bdi_run tracker mf =
     (if get_real_data_size mf = 0 then Inr mf
      else bindE (make_packet (m_real_data mf)) (\<lambda>packet.
        let mf1 = mf\<lparr>compare_data := packet\<rparr>
        in bindE (bdi_select tracker packet) (\<lambda>best.
           bindE (convert_output (new_out best) (new_used_delta best) (new_used_base best))
             (\<lambda>data_to_send.
             let comp_byte_size = ceil_div8 (new_comp_bit_size best)
             in assertE (comp_byte_size = length data_to_send)
                  (bindE (set_comp_data_bits (set_comp_data_size mf1 comp_byte_size)
                      (new_comp_bit_size best) (-1)) (\<lambda>mf2.
                   set_comp_data_all (init_size mf2) data_to_send))))))"

end
