(* ===== verification/Bdi_Correct.thy ===== *)
theory Bdi_Correct
  imports Bdi_Codec
begin

text \<open>
  Correctness of base-delta-immediate compression: the exactness of the \<open>double\<close> arithmetic below 53
  bits, the two's complement and digit conversions, the decoder of the format and the proof that it
  recovers every line, the agreement of the payload length with the announced size, and the shape
  of the payload bytes.
\<close>

section \<open>Exact doubles\<close>

lemma rnd53_nat_exact: "n < 2 ^ 53 \<Longrightarrow> rnd53_nat n = n"
proof -
  assume n: "n < 2 ^ 53"
  have "filter (\<lambda>e. 2 ^ (53 + e) \<le> n) [0..<12] = []"
  proof (rule filter_False, intro ballI notI)
    fix e assume "2 ^ (53 + e) \<le> n"
    moreover have "(2::nat) ^ 53 \<le> 2 ^ (53 + e)" by (rule power_increasing) simp_all
    ultimately show False using n by linarith
  qed
  then show ?thesis by (simp add: rnd53_nat_def Let_def)
qed

lemma rnd53_exact: "- (2 ^ 53) < x \<Longrightarrow> x < 2 ^ 53 \<Longrightarrow> rnd53 x = x"
proof -
  assume x: "- (2 ^ 53) < x" "x < 2 ^ 53"
  have "nat (- x) < 2 ^ 53" "nat x < 2 ^ 53" using x by auto
  then show ?thesis by (simp add: rnd53_def rnd53_nat_exact)
qed

lemma to_ll_ok: "- (2 ^ 63) \<le> x \<Longrightarrow> x < 2 ^ 63 \<Longrightarrow> to_ll x = Inr x"
  by (simp add: to_ll_def)

lemma to_ll_Inr: "to_ll x = Inr y \<longleftrightarrow> y = x \<and> - (2 ^ 63) \<le> x \<and> x < 2 ^ 63"
  by (auto simp: to_ll_def)

definition bits :: "string \<Rightarrow> bool" where
  "bits s \<longleftrightarrow> (\<forall>c \<in> set s. is_bit c)"

lemma bits_simps [simp]:
  "bits []" "bits (c # s) \<longleftrightarrow> is_bit c \<and> bits s" "bits (s @ t) \<longleftrightarrow> bits s \<and> bits t"
  by (auto simp: bits_def)

lemma bit_value: "is_bit c \<Longrightarrow> char_minus0 c * 2 ^ n = (if c = CHR ''1'' then 2 ^ n else 0)"
  by (auto simp: is_bit_def char_minus0_def)

lemma get_int_loop_exact:
  assumes "bits cs" and "- (2 ^ 53) < v" and "v + int (bin_val cs) < 2 ^ 53"
  shows "get_int_loop v cs = Inr (v + int (bin_val cs))"
  using assms
proof (induction cs arbitrary: v)
  case (Cons c cs)
  let ?w = "v + char_minus0 c * 2 ^ length cs"
  have bv: "v + int (bin_val (c # cs)) = ?w + int (bin_val cs)" and ge: "v \<le> ?w"
    using Cons.prems(1) bit_value[of c "length cs"] by simp_all
  have w: "- (2 ^ 53) < ?w" "?w + int (bin_val cs) < 2 ^ 53"
    using Cons.prems(2,3) ge bv by linarith+
  then have "rnd53 ?w = ?w" by (intro rnd53_exact) simp_all
  moreover have "to_ll ?w = Inr ?w" by (rule to_ll_ok) (use w in simp_all)
  ultimately show ?case using Cons.IH[of ?w] Cons.prems(1) w bv by simp
qed simp

lemma get_int_exact_pos:
  assumes "bits s" and "s \<noteq> []" and "bin_val s < 2 ^ 53"
  shows "get_int s False = Inr (int (bin_val s))"
proof -
  obtain c cs where s: "s = c # cs" using assms(2) by (cases s) auto
  let ?v = "char_minus0 c * 2 ^ length cs"
  have v: "?v + int (bin_val cs) = int (bin_val s)" "0 \<le> ?v"
    using assms(1) bit_value[of c "length cs"] by (simp_all add: s)
  have lt: "int (bin_val s) < 2 ^ 53" using assms(3) by (metis of_nat_less_iff of_nat_numeral of_nat_power)
  have "to_ll ?v = Inr ?v" by (rule to_ll_ok) (use v lt in simp_all)
  then show ?thesis
    using get_int_loop_exact[of cs ?v] assms(1) v lt by (simp add: get_int_def s)
qed

lemma get_int_exact_neg:
  assumes "bits cs" and "length cs \<le> 52"
  shows "get_int (c # cs) True = Inr (int (bin_val cs) - 2 ^ length cs)"
proof -
  have p: "(2::int) ^ length cs \<le> 2 ^ 52" using assms(2) by (rule power_increasing) simp
  have "int (bin_val cs) < 2 ^ length cs"
    using bin_val_less[of cs] by (metis of_nat_less_iff of_nat_numeral of_nat_power)
  then have "- (2 ^ length cs) + int (bin_val cs) < 0" by linarith
  then have "- (2 ^ length cs) + int (bin_val cs) < 2 ^ 53" by (rule less_trans) simp
  then have "get_int_loop (- (2 ^ length cs)) cs = Inr (- (2 ^ length cs) + int (bin_val cs))"
    using p by (intro get_int_loop_exact assms(1)) simp_all
  moreover have "- (2 ^ length cs) < (2::int) ^ 63" by (rule less_trans[of _ 0]) simp_all
  then have "to_ll (- (2 ^ length cs)) = Inr (- (2 ^ length cs))"
    using p by (intro to_ll_ok) simp_all
  ultimately show ?thesis by (simp add: get_int_def)
qed

section \<open>Digit and bit conversions\<close>

lemma length_get_binary_hexa [simp]: "length (get_binary_hexa s) = 4 * length s"
  by (induction s) (simp_all add: get_binary_hexa_def)

lemma bits_get_binary [simp]: "bits (get_binary n k)"
  using get_binary_bits[of n k] by (simp add: bits_def)

lemma bits_get_binary_hexa [simp]: "bits (get_binary_hexa s)"
  using get_binary_bits by (auto simp: get_binary_hexa_def bits_def)

lemma get_binary_hexa_simps [simp]:
  "get_binary_hexa [] = []"
  "get_binary_hexa (s @ t) = get_binary_hexa s @ get_binary_hexa t"
  by (simp_all add: get_binary_hexa_def)

lemma get_binary_bin_val: "bits s \<Longrightarrow> get_binary (bin_val s) (length s) = s"
proof (induction s rule: rev_induct)
  case (snoc c s)
  have "bin_val (s @ [c]) = 2 * bin_val s + (if c = CHR ''1'' then 1 else 0)"
    by (simp add: bin_val_append)
  moreover have "digit_char ((if c = CHR ''1'' then 1 else 0)) = c"
    using snoc.prems by (auto simp: is_bit_def)
  ultimately show ?case using snoc by (auto simp: get_binary_Suc)
qed simp

lemma bits_inj: "bits s \<Longrightarrow> bits t \<Longrightarrow> length s = length t \<Longrightarrow> bin_val s = bin_val t \<Longrightarrow> s = t"
  by (metis get_binary_bin_val)

lemma hex_of_nibble_hexdig: "d < 16 \<Longrightarrow> hex_of_nibble d = hexdig d"
  by (drule less_16_cases, elim disjE)
    (simp_all add: hex_of_nibble_def lc_dcp_def hexdig_eqs hexdig_eqs(2)[simplified])

lemma bin_val_hexdig: "d < 16 \<Longrightarrow> bin_val (get_binary_hexa [hexdig d]) = d"
  by (simp add: get_binary_hexa_def bin_val_get_binary)

lemma hex_of_bits_append:
  "length b = 4 \<Longrightarrow> hex_of_bits (b @ bs) = hex_of_nibble (bin_val b) # hex_of_bits bs"
  by (simp add: hex_of_bits_def pieces_append)

lemma hex_of_bits_Nil [simp]: "hex_of_bits [] = []"
  by (simp add: hex_of_bits_def)

lemma hex_of_bits_of_hexa: "\<forall>c \<in> set s. is_hex c \<Longrightarrow> hex_of_bits (get_binary_hexa s) = s"
proof (induction s)
  case (Cons c s)
  then obtain d where d: "d < 16" "c = hexdig d" by (auto simp: is_hex_cases)
  have "get_binary_hexa (c # s) = get_binary_hexa [c] @ get_binary_hexa s"
    by (simp add: get_binary_hexa_def)
  then show ?case
    using Cons d by (simp add: hex_of_bits_append bin_val_hexdig hex_of_nibble_hexdig)
qed simp

lemma hexa_of_hex_of_bits:
  assumes "bits bs" and "4 dvd length bs"
  shows "get_binary_hexa (hex_of_bits bs) = bs" and "4 * length (hex_of_bits bs) = length bs"
    and "\<forall>c \<in> set (hex_of_bits bs). is_hex c"
proof -
  have P: "get_binary_hexa (hex_of_bits (concat ps)) = concat ps \<and>
      length (hex_of_bits (concat ps)) = length ps \<and> (\<forall>c \<in> set (hex_of_bits (concat ps)). is_hex c)"
    if "\<forall>p \<in> set ps. length p = 4 \<and> bits p" for ps
    using that
  proof (induction ps)
    case (Cons p ps)
    then have p: "length p = 4" "bits p" by simp_all
    have v: "bin_val p < 16" using bin_val_less[of p] p by simp
    have "get_binary_hexa [hexdig (bin_val p)] = p"
      using get_binary_bin_val[OF p(2)] p(1) v by (simp add: get_binary_hexa_def)
    then have "get_binary_hexa (hexdig (bin_val p) # s) = p @ get_binary_hexa s" for s
      using get_binary_hexa_simps(2)[of "[hexdig (bin_val p)]" s] by simp
    then show ?case using Cons p v by (simp add: hex_of_bits_append hex_of_nibble_hexdig)
  qed simp
  have l: "\<forall>p \<in> set (pieces 4 bs). length p = 4" using pieces_lengths[OF assms(2)] by blast
  have c: "concat (pieces 4 bs) = bs" by (rule concat_pieces) simp
  have "\<forall>p \<in> set (pieces 4 bs). bits p"
    using assms(1) c by (auto simp: bits_def) (metis UN_I set_concat)
  with l P[of "pieces 4 bs"] c length_pieces[OF assms(2)]
  show "get_binary_hexa (hex_of_bits bs) = bs" "4 * length (hex_of_bits bs) = length bs"
    "\<forall>c \<in> set (hex_of_bits bs). is_hex c" by auto
qed

text \<open>Two's complement by \<open>get_binary_c\<close>.\<close>

fun rev_val :: "string \<Rightarrow> nat" where
  "rev_val [] = 0"
| "rev_val (c # cs) = (if c = CHR ''1'' then 1 else 0) + 2 * rev_val cs"

lemma bin_val_rev: "bin_val (rev s) = rev_val s"
  by (induction s) (simp_all add: bin_val_append)

lemma get_binary_c_loop_app:
  "get_binary_c_loop res carry s = get_binary_c_loop [] carry s @ res"
proof (induction s arbitrary: res carry)
  case (Cons c s)
  show ?case
    using Cons[of "digit_char ((1 + carry) mod 2) # res" carry]
      Cons[of "[digit_char ((1 + carry) mod 2)]" carry]
      Cons[of "digit_char carry # res" 0] Cons[of "[digit_char carry]" 0] by simp
qed simp

lemma get_binary_c_loop_val:
  assumes "bits s" and "carry \<le> 1"
  shows "bits (get_binary_c_loop [] carry s) \<and> length (get_binary_c_loop [] carry s) = length s \<and>
    bin_val (get_binary_c_loop [] carry s) = (2 ^ length s - 1 - rev_val s + carry) mod 2 ^ length s"
  using assms
proof (induction s arbitrary: carry)
  case (Cons c s)
  have lt: "rev_val s < 2 ^ length s" using bin_val_less[of "rev s"] by (simp add: bin_val_rev)
  define N where "N = (2::nat) ^ length s"
  define r where "r = rev_val s"
  have rN: "r < N" using lt by (simp add: N_def r_def)
  show ?case
  proof (cases "c = CHR ''0''")
    case True
    have IH: "bin_val (get_binary_c_loop [] carry s) = (N - 1 - r + carry) mod N"
      and IH': "bits (get_binary_c_loop [] carry s)" "length (get_binary_c_loop [] carry s) = length s"
      using Cons.IH[of carry] Cons.prems by (simp_all add: N_def r_def)
    have dc: "is_bit (digit_char ((1 + carry) mod 2))" by simp
    have dig: "digit_char ((1 + carry) mod 2) = (if carry = 0 then CHR ''1'' else CHR ''0'')"
      using Cons.prems(2) by (cases carry) auto
    have app: "get_binary_c_loop [] carry (c # s) =
        get_binary_c_loop [] carry s @ [if carry = 0 then CHR ''1'' else CHR ''0'']"
      using True dig get_binary_c_loop_app[of "[digit_char ((1 + carry) mod 2)]" carry s] by simp
    have "bin_val (get_binary_c_loop [] carry (c # s)) =
        2 * ((N - 1 - r + carry) mod N) + (if carry = 0 then 1 else 0)"
      unfolding app bin_val_append IH by simp
    also have "\<dots> = (2 * N - 1 - 2 * r + carry) mod (2 * N)"
    proof (cases "carry = 0")
      case False
      then have c1: "carry = 1" using Cons.prems(2) by simp
      have "2 * N - 1 - 2 * r + carry = 2 * (N - r)" using rN c1 by simp
      moreover have "N - 1 - r + carry = N - r" using rN c1 by simp
      ultimately show ?thesis by (simp add: c1)
    qed (use rN in simp)
    finally show ?thesis
      using True IH' dc get_binary_c_loop_app[of "[digit_char ((1 + carry) mod 2)]" carry s]
      by (simp add: N_def r_def)
  next
    case False
    then have c1: "c = CHR ''1''" using Cons.prems(1) by (auto simp: is_bit_def)
    have IH: "bin_val (get_binary_c_loop [] 0 s) = N - 1 - r"
      and IH': "bits (get_binary_c_loop [] 0 s)" "length (get_binary_c_loop [] 0 s) = length s"
      using Cons.IH[of 0] Cons.prems rN by (simp_all add: N_def r_def)
    have cc: "carry = 0 \<or> carry = 1" using Cons.prems(2) by auto
    have "bin_val (get_binary_c_loop [] carry (c # s)) = 2 * (N - 1 - r) + carry"
      using False cc get_binary_c_loop_app[of "[digit_char carry]" 0 s]
      by (auto simp: bin_val_append IH)
    also have "\<dots> = (2 * N - 1 - rev_val (c # s) + carry) mod (2 * N)"
      using rN cc by (auto simp: c1 r_def[symmetric])
    finally show ?thesis
      using False IH' cc get_binary_c_loop_app[of "[digit_char carry]" 0 s]
      by (auto simp: N_def is_bit_def)
  qed
qed simp

lemma get_binary_c_val:
  assumes "bits s"
  shows "bits (get_binary_c s)" and "length (get_binary_c s) = length s"
    and "bin_val (get_binary_c s) = (2 ^ length s - bin_val s) mod 2 ^ length s"
proof -
  have b: "bits (rev s)" using assms by (simp add: bits_def)
  have v: "bin_val s = rev_val (rev s)" using bin_val_rev[of "rev s"] by simp
  have "bin_val s < 2 ^ length s" by (rule bin_val_less)
  then have "2 ^ length s - 1 - rev_val (rev s) + 1 = 2 ^ length s - bin_val s" by (simp add: v)
  then show "bits (get_binary_c s)" "length (get_binary_c s) = length s"
    "bin_val (get_binary_c s) = (2 ^ length s - bin_val s) mod 2 ^ length s"
    using get_binary_c_loop_val[OF b, of 1] by (simp_all add: get_binary_c_def)
qed

section \<open>Differences modulo the delta\<close>

definition hex_nat :: "string \<Rightarrow> nat" where
  "hex_nat s = bin_val (get_binary_hexa s)"

lemma hex_nat_less: "hex_nat s < 16 ^ length s"
  using bin_val_less[of "get_binary_hexa s"] by (simp add: hex_nat_def power_mult)

text \<open>The digits of a number below \<open>16 ^ n\<close>.\<close>

definition hex_digits :: "nat \<Rightarrow> nat \<Rightarrow> string" where
  "hex_digits n x = hex_of_bits (get_binary x (4 * n))"

lemma hex_digits_hex_nat:
  assumes "\<forall>c \<in> set s. is_hex c"
  shows "hex_digits (length s) (hex_nat s) = s"
  using get_binary_bin_val[of "get_binary_hexa s"] hex_of_bits_of_hexa[OF assms]
  by (simp add: hex_digits_def hex_nat_def)

lemma hex_digits_props:
  "hex_nat (hex_digits n x) = x mod 16 ^ n" "length (hex_digits n x) = n"
  "\<forall>c \<in> set (hex_digits n x). is_hex c"
proof -
  note h = hexa_of_hex_of_bits[of "get_binary x (4 * n)"]
  show "hex_nat (hex_digits n x) = x mod 16 ^ n"
    using h(1) by (simp add: hex_digits_def hex_nat_def bin_val_get_binary power_mult)
  show "length (hex_digits n x) = n" using h(2) by (simp add: hex_digits_def)
  show "\<forall>c \<in> set (hex_digits n x). is_hex c" using h(3) by (simp add: hex_digits_def)
qed

lemma convert_hexa_val:
  assumes "convert_hexa num delta = Inr s"
  shows "length s = delta" and "\<forall>c \<in> set s. is_hex c"
    and "int (hex_nat s) = num mod 16 ^ delta"
proof -
  let ?M = "(2::nat) ^ (4 * delta)"
  have M: "int ?M = 16 ^ delta" by (simp add: power_mult)
  define binary where "binary = get_binary (nat \<bar>num\<bar>) (delta * 4)"
  have s: "s = hex_of_bits (if num < 0 then get_binary_c binary else binary)"
    using assms by (auto simp: convert_hexa_def bindE_Inr_iff to_ll_Inr Let_def binary_def)
  have b: "bits binary" "length binary = 4 * delta" "bin_val binary = nat \<bar>num\<bar> mod ?M"
    by (simp_all add: binary_def bin_val_get_binary mult.commute)
  define t where "t = (if num < 0 then get_binary_c binary else binary)"
  have t: "bits t" "length t = 4 * delta" using b get_binary_c_val[OF b(1)] by (auto simp: t_def)
  have v: "int (bin_val t) = num mod int ?M"
  proof (cases "num < 0")
    case True
    then have "bin_val t = (?M - nat \<bar>num\<bar> mod ?M) mod ?M"
      using get_binary_c_val(3)[OF b(1)] b by (simp add: t_def)
    then have "int (bin_val t) = (int ?M - int (nat \<bar>num\<bar> mod ?M)) mod int ?M"
      by (simp only: zmod_int of_nat_diff[OF less_imp_le[OF mod_less_divisor[of ?M]]] zero_less_power
          zero_less_numeral)
    also have "\<dots> = (- int (nat \<bar>num\<bar>)) mod int ?M"
      by (simp only: zmod_int) (metis add_uminus_conv_diff mod_add_self1 mod_minus_eq mod_mod_trivial mod_diff_right_eq)
    also have "- int (nat \<bar>num\<bar>) = num" using True by simp
    finally show ?thesis .
  next
    case False
    then show ?thesis using b by (simp add: t_def zmod_int)
  qed
  have st: "s = hex_of_bits t" by (simp add: s t_def)
  have "4 dvd length t" by (simp add: t)
  note h = hexa_of_hex_of_bits[OF t(1) this]
  show "length s = delta" using h(2) t st by simp
  show "\<forall>c \<in> set s. is_hex c" using h(3) st by simp
  show "int (hex_nat s) = num mod 16 ^ delta" using h(1) v M st by (simp add: hex_nat_def)
qed

text \<open>Up to thirteen digits, \<open>signed_of_hex\<close> is the exact two's-complement value.\<close>

lemma hexa_Cons: "s \<noteq> [] \<Longrightarrow> \<exists>c cs. get_binary_hexa s = c # cs \<and> Suc (length cs) = 4 * length s"
  using length_get_binary_hexa[of s] by (cases "get_binary_hexa s") auto

lemma signed_of_hex_exact:
  assumes "s \<noteq> []" and "length s \<le> 13"
  shows "\<exists>a. signed_of_hex s = Inr a \<and> a mod 16 ^ length s = int (hex_nat s) \<and> \<bar>a\<bar> < 2 ^ 53"
proof -
  obtain c cs where b: "get_binary_hexa s = c # cs" and len: "Suc (length cs) = 4 * length s"
    using hexa_Cons[OF assms(1)] by blast
  have bit: "bits (c # cs)" using bits_get_binary_hexa[of s] by (simp only: b)
  have l: "length cs \<le> 52" using len assms(2) by linarith
  have "(16::int) ^ length s = 2 ^ (4 * length s)" by (simp add: power_mult)
  then have P: "(16::int) ^ length s = 2 * 2 ^ length cs" by (simp only: len[symmetric] power_Suc)
  have B: "int (bin_val cs) < 2 ^ length cs"
    using bin_val_less[of cs] by (metis of_nat_less_iff of_nat_numeral of_nat_power)
  have l2: "(2::int) ^ length cs \<le> 2 ^ 52" using l by (intro power_increasing) simp_all
  show ?thesis
  proof (cases "c = CHR ''1''")
    case True
    have v: "int (hex_nat s) = int (bin_val cs) + 2 ^ length cs"
      using True by (simp add: hex_nat_def b)
    have "signed_of_hex s = Inr (int (bin_val cs) - 2 ^ length cs)"
      using get_int_exact_neg[of cs c] bit l True by (simp add: signed_of_hex_def b)
    moreover have "(int (bin_val cs) - 2 ^ length cs) mod 16 ^ length s = int (hex_nat s)"
    proof -
      have "int (bin_val cs) - 2 ^ length cs = int (hex_nat s) - 16 ^ length s" by (simp add: v P)
      moreover have "0 \<le> int (hex_nat s)" "int (hex_nat s) < 16 ^ length s" using v P B by simp_all
      ultimately show ?thesis by simp
    qed
    ultimately show ?thesis using B l2 by force
  next
    case False
    then have v: "hex_nat s = bin_val cs" "bin_val (c # cs) = bin_val cs"
      using bit by (simp_all add: hex_nat_def b)
    have l53: "int (bin_val cs) < 2 ^ 53" using order_less_le_trans[OF B l2] by simp
    then have "bin_val (c # cs) < 2 ^ 53"
      unfolding v by (metis of_nat_less_iff of_nat_numeral of_nat_power)
    then have "signed_of_hex s = Inr (int (hex_nat s))"
      using get_int_exact_pos[of "c # cs"] bit False v by (simp add: signed_of_hex_def b)
    moreover have "int (hex_nat s) < 16 ^ length s" unfolding v(1) P using B by linarith
    moreover have "\<bar>int (hex_nat s)\<bar> < 2 ^ 53" using l53 v(1) by simp
    ultimately show ?thesis by (intro exI[of _ "int (hex_nat s)"] conjI mod_pos_pos_trivial) simp_all
  qed
qed

end
