(* ===== verification/Bdi_Lossless.thy ===== *)
theory Bdi_Lossless
  imports Bdi_Correct
begin

text \<open>
  The format that base-delta-immediate compression writes, its decoder, and the proof that the
  encoding selected for a line of whole double words determines the line.
\<close>

section \<open>The decoder\<close>

definition hex_string :: "string \<Rightarrow> bool" where
  "hex_string s \<longleftrightarrow> (\<forall>c \<in> set s. is_hex c)"

lemma hex_string_simps [simp]:
  "hex_string []" "hex_string (c # s) \<longleftrightarrow> is_hex c \<and> hex_string s"
  "hex_string (s @ t) \<longleftrightarrow> hex_string s \<and> hex_string t"
  "hex_string s \<Longrightarrow> hex_string (take n s)" "hex_string s \<Longrightarrow> hex_string (drop n s)"
  by (auto simp: hex_string_def dest: in_set_takeD in_set_dropD)

lemma is_hex_0 [simp]: "is_hex CHR ''0''"
  by (simp add: is_hex_def)

text \<open>
  An item: the mark \<open>0\<close> or \<open>1\<close> and \<open>d\<close> digits.  With the mark \<open>0\<close> the high digits are zero, with \<open>1\<close>
  they are the base's, and the digits hold the difference from the base's value modulo \<open>16 ^ d\<close>.
\<close>

definition bdi_item :: "nat \<Rightarrow> nat \<Rightarrow> string \<Rightarrow> string \<Rightarrow> string" where
  "bdi_item b d base item =
     (case item of [] \<Rightarrow> []
      | f # low \<Rightarrow>
          if f = CHR ''0'' then replicate (b - d) CHR ''0'' @ low
          else (case signed_of_hex base of
                  Inl _ \<Rightarrow> []
                | Inr a \<Rightarrow> take (b - d) base @
                    hex_digits d (nat ((int (hex_nat low) + a) mod 16 ^ d))))"

definition bdi_blocks :: "blocker \<Rightarrow> string \<Rightarrow> string" where
  "bdi_blocks bl rest =
     (let b = bl_base bl * 2; d = bl_delta bl * 2
      in concat (map (bdi_item b d (take b rest)) (pieces (d + 1) (drop b rest))))"

definition bdi_decode :: "(string \<times> blocker) list \<Rightarrow> nat \<Rightarrow> string \<Rightarrow> string" where
  "bdi_decode tracker n out =
     (let code = take 4 out; rest = drop 4 out
      in if code = ''0000'' then replicate n CHR ''0''
         else if code = ''0001'' then concat (replicate (n div 16) rest)
         else if code = ''1111'' then rest
         else (case filter (\<lambda>nb. bl_code (snd nb) = code) tracker of
                 [] \<Rightarrow> [] | nb # _ \<Rightarrow> bdi_blocks (snd nb) rest))"

section \<open>Items\<close>

lemma zero_diff_Some:
  assumes "length w = b" and "zero_diff w (get_zero_out b) d = Some p"
  shows "p = CHR ''0'' # drop (b - d) w" and "take (b - d) w = replicate (b - d) CHR ''0''"
  using assms by (auto simp: zero_diff_def get_zero_out_def split: if_splits)

lemma bdi_item_zero:
  assumes "length w = b" and "zero_diff w (get_zero_out b) d = Some p"
  shows "bdi_item b d y p = w"
  using zero_diff_Some[OF assms] append_take_drop_id[of "b - d" w] by (simp add: bdi_item_def)

lemma convert_base_Some:
  assumes "convert_base w base d = Inr (Some p)" and "length w = b" "length base = b"
    and "0 < d" "d \<le> 13" "d < b" "hex_string w"
  shows "bdi_item b d base (CHR ''1'' # p) = w" and "length p = d" and "hex_string p"
proof -
  obtain a v num where a: "signed_of_hex base = Inr a"
    and v: "signed_of_hex (drop (b - d) w) = Inr v" and num: "num = v + a * -1"
    and p: "convert_hexa num d = Inr p" and pre: "take (b - d) w = take (b - d) base"
    using assms(1-3) by (auto simp: convert_base_def bindE_Inr_iff to_ll_Inr split: if_splits)
  have low: "length (drop (b - d) w) = d" "drop (b - d) w \<noteq> []" using assms(2,4,6) by auto
  obtain v' where "signed_of_hex (drop (b - d) w) = Inr v'"
    and v': "v' mod 16 ^ d = int (hex_nat (drop (b - d) w))"
    using signed_of_hex_exact[of "drop (b - d) w"] low assms(5) by auto
  then have "v mod 16 ^ d = int (hex_nat (drop (b - d) w))" using v by simp
  moreover note c = convert_hexa_val[OF p]
  moreover have "(int (hex_nat p) + a) mod 16 ^ d = v mod 16 ^ d"
    unfolding c(3) num by (simp add: mod_simps)
  ultimately have dig: "hex_digits d (nat ((int (hex_nat p) + a) mod 16 ^ d)) = drop (b - d) w"
    using hex_digits_hex_nat[of "drop (b - d) w"] low assms(7) hex_string_simps(5)[of w "b - d"]
    by (simp add: hex_string_def)
  show "bdi_item b d base (CHR ''1'' # p) = w"
    using append_take_drop_id[of "b - d" w] by (simp add: bdi_item_def a dig pre[symmetric])
  show "length p = d" by (rule c(1))
  show "hex_string p" using c(2) by (simp add: hex_string_def)
qed

text \<open>What \<open>check_zero\<close> leaves for one piece.\<close>

definition zero_part :: "nat \<Rightarrow> nat \<Rightarrow> string \<Rightarrow> string" where
  "zero_part b d w =
     (case zero_diff w (get_zero_out b) d of None \<Rightarrow> CHR ''#'' # w | Some p \<Rightarrow> p)"

definition zero_ok :: "nat \<Rightarrow> nat \<Rightarrow> string \<Rightarrow> bool" where
  "zero_ok b d w \<longleftrightarrow> zero_diff w (get_zero_out b) d \<noteq> None"

lemma check_zero_eq:
  "check_zero packet b d =
     (list_all (zero_ok b d) (pieces b packet), map (zero_part b d) (pieces b packet))"
  by (simp add: check_zero_def Let_def list_all_iff zero_ok_def zero_part_def comp_def
      split: option.splits)

lemma zero_part_cases:
  assumes "length w = b" and "d < b"
  obtains (zero) "zero_ok b d w" "zero_part b d w = CHR ''0'' # drop (b - d) w"
      "\<And>y. bdi_item b d y (zero_part b d w) = w"
  | (other) "\<not> zero_ok b d w" "zero_part b d w = CHR ''#'' # w"
proof (cases "zero_diff w (get_zero_out b) d")
  case (Some p)
  then show ?thesis
    using zero_diff_Some[OF assms(1) Some] bdi_item_zero[OF assms(1) Some]
    by (intro zero) (auto simp: zero_ok_def zero_part_def)
qed (use other in \<open>auto simp: zero_ok_def zero_part_def\<close>)

text \<open>An item as it is sent: a mark and \<open>d\<close> digits.\<close>

definition item_ok :: "nat \<Rightarrow> string \<Rightarrow> bool" where
  "item_ok d p \<longleftrightarrow> length p = d + 1 \<and> is_bit (hd p)"

lemma check_base_loop_items:
  assumes "\<forall>w \<in> set ws. length w = b \<and> hex_string w" and "0 < d" "d \<le> 13" "d < b"
    and "\<And>x. bs = Some x \<Longrightarrow> length x = b"
    and "check_base_loop d bs (map (zero_part b d) ws) = Inr (Some (bs', parts))"
  shows "(\<forall>x. bs = Some x \<longrightarrow> bs' = Some x) \<and> (\<forall>x. bs' = Some x \<longrightarrow> length x = b) \<and>
    (bs' = None \<longrightarrow> list_all (zero_ok b d) ws) \<and>
    (\<forall>y. bs' = None \<or> bs' = Some y \<longrightarrow> map (bdi_item b d y) parts = ws) \<and>
    (\<forall>p \<in> set parts. item_ok d p)"
  using assms(1,5,6)
proof (induction ws arbitrary: bs bs' parts)
  case (Cons w ws)
  have w: "length w = b" "hex_string w" using Cons.prems(1) by simp_all
  from w(1) assms(4) show ?case
  proof (cases rule: zero_part_cases)
    case zero
    then obtain q where q: "check_base_loop d bs (map (zero_part b d) ws) = Inr (Some (bs', q))"
      and parts: "parts = zero_part b d w # q"
      using Cons.prems(3) by (auto simp: bindE_Inr_iff split: option.splits)
    have ws: "\<forall>w \<in> set ws. length w = b \<and> hex_string w" using Cons.prems(1) by simp
    have "item_ok d (zero_part b d w)"
      using zero(2) w(1) assms(4) by (simp add: item_ok_def is_bit_def)
    with Cons.IH[OF ws Cons.prems(2) q] zero show ?thesis by (auto simp: parts)
  next
    case other
    define base where "base = (case bs of None \<Rightarrow> w | Some b \<Rightarrow> b)"
    have lb: "length base = b" using w(1) Cons.prems(2) by (auto simp: base_def split: option.splits)
    from other Cons.prems(3) obtain p q
      where p: "convert_base w base d = Inr (Some p)"
        and q: "check_base_loop d (Some base) (map (zero_part b d) ws) = Inr (Some (bs', q))"
        and parts: "parts = (CHR ''1'' # p) # q"
      by (auto simp: bindE_Inr_iff base_def Let_def split: option.splits)
    have ws: "\<forall>w \<in> set ws. length w = b \<and> hex_string w" using Cons.prems(1) by simp
    note c = convert_base_Some[OF p w(1) lb assms(2-4) w(2)]
    have "item_ok d (CHR ''1'' # p)" using c(2) by (simp add: item_ok_def is_bit_def)
    moreover have "bs = Some x \<Longrightarrow> base = x" for x by (simp add: base_def)
    moreover have IH: "bs' = Some base \<and>
        (bs' = Some base \<longrightarrow> map (bdi_item b d base) q = ws) \<and> (\<forall>p \<in> set q. item_ok d p)"
      using Cons.IH[OF ws _ q] lb by blast
    ultimately show ?thesis using c(1) lb by (auto simp: parts)
  qed
qed simp

section \<open>Blocks\<close>

text \<open>The blocks of the table, as far as the proofs need them.\<close>

definition block_ok :: "blocker \<Rightarrow> bool" where
  "block_ok bl \<longleftrightarrow> 0 < bl_delta bl \<and> bl_delta bl < bl_base bl \<and> bl_delta bl \<le> 6 \<and>
     bl_base bl \<le> 8 \<and>
     length (bl_code bl) = 4 \<and> bits (bl_code bl)"

lemma init_blocks_ok: "nb \<in> set init_blocks \<Longrightarrow> block_ok (snd nb)"
  by (auto simp: init_blocks_def Blocker_def block_ok_def is_bit_def)

text \<open>An encoding of a block is its code, a base and one item for each piece.\<close>

lemma bdi_try_shape:
  assumes "bdi_try bl packet = Inr (Some out)" and "block_ok bl"
    and "bl_base bl * 2 dvd length packet" and "hex_string packet"
  obtains base items where "out = bl_code bl @ base @ concat items"
    "length base = bl_base bl * 2" "\<forall>p \<in> set items. item_ok (bl_delta bl * 2) p"
    "map (bdi_item (bl_base bl * 2) (bl_delta bl * 2) base) items = pieces (bl_base bl * 2) packet"
proof -
  let ?b = "bl_base bl * 2" and ?d = "bl_delta bl * 2"
  have d: "0 < ?d" "?d \<le> 13" "?d < ?b" using assms(2) by (auto simp: block_ok_def)
  have c: "concat (pieces ?b packet) = packet" using d by (intro concat_pieces) simp
  have ws: "\<forall>w \<in> set (pieces ?b packet). length w = ?b \<and> hex_string w"
  proof
    fix w assume w: "w \<in> set (pieces ?b packet)"
    then have "set w \<subseteq> set packet" by (subst c[symmetric]) auto
    then show "length w = ?b \<and> hex_string w"
      using pieces_lengths[OF assms(3) w] assms(4) by (auto simp: hex_string_def)
  qed
  show thesis
  proof (cases "list_all (zero_ok ?b ?d) (pieces ?b packet)")
    case True
    then have out: "out = bl_code bl @ get_zero_out ?b @ concat (map (zero_part ?b ?d) (pieces ?b packet))"
      using assms(1) by (simp add: bdi_try_def check_zero_eq form_output_def Let_def)
    have I: "bdi_item ?b ?d y (zero_part ?b ?d w) = w \<and> item_ok ?d (zero_part ?b ?d w)"
      if w: "w \<in> set (pieces ?b packet)" for w y
    proof -
      have l: "length w = ?b" and z: "zero_ok ?b ?d w" using ws w True by (auto simp: list_all_iff)
      from l d(3) show ?thesis
        by (cases rule: zero_part_cases) (use z l d in \<open>auto simp: item_ok_def is_bit_def\<close>)
    qed
    then have "map (bdi_item ?b ?d (get_zero_out ?b)) (map (zero_part ?b ?d) (pieces ?b packet)) =
        pieces ?b packet" by (auto intro: map_idI)
    moreover have "\<forall>p \<in> set (map (zero_part ?b ?d) (pieces ?b packet)). item_ok ?d p"
      using I by auto
    ultimately show thesis by (intro that[OF out]) (simp_all add: get_zero_out_def)
  next
    case False
    then obtain bs parts
      where loop: "check_base_loop ?d None (map (zero_part ?b ?d) (pieces ?b packet)) = Inr (Some (bs, parts))"
        and out: "out = bl_code bl @ (case bs of None \<Rightarrow> [] | Some b \<Rightarrow> b) @ concat parts"
      using assms(1)
      by (auto simp: bdi_try_def check_zero_eq form_output_def check_base_def bindE_Inr_iff Let_def
          split: option.splits)
    note P = check_base_loop_items[OF ws d _ loop]
    with False obtain y where y: "bs = Some y" by (cases bs) auto
    show thesis using P out y by (intro that[of y parts]) auto
  qed
qed

lemma concat_items:
  "\<forall>p \<in> set items. item_ok d p \<Longrightarrow> pieces (d + 1) (concat items) = items"
  by (rule pieces_concat) (auto simp: item_ok_def)

lemma bdi_blocks_try:
  assumes "bdi_try bl packet = Inr (Some out)" and "block_ok bl"
    and "bl_base bl * 2 dvd length packet" and "hex_string packet"
  shows "take 4 out = bl_code bl" and "bdi_blocks bl (drop 4 out) = packet"
proof -
  obtain base items where o: "out = bl_code bl @ base @ concat items"
    "length base = bl_base bl * 2" "\<forall>p \<in> set items. item_ok (bl_delta bl * 2) p"
    "map (bdi_item (bl_base bl * 2) (bl_delta bl * 2) base) items = pieces (bl_base bl * 2) packet"
    using assms by (rule bdi_try_shape)
  have l: "length (bl_code bl) = 4" "0 < bl_base bl * 2" using assms(2) by (auto simp: block_ok_def)
  show "take 4 out = bl_code bl" by (simp add: o(1) l)
  show "bdi_blocks bl (drop 4 out) = packet"
    using o concat_items[OF o(3)] concat_pieces[OF l(2), of packet] l
    by (simp add: bdi_blocks_def Let_def)
qed

section \<open>The selected encoding\<close>

lemma all_same_val_Some:
  assumes "all_same_val packet = Some out" and "16 dvd length packet" and "packet \<noteq> []"
  shows "out = ''0001'' @ take 16 packet"
    and "concat (replicate (length packet div 16) (take 16 packet)) = packet"
proof -
  let ?ps = "pieces 16 packet"
  show out: "out = ''0001'' @ take 16 packet"
    using assms(1) by (auto simp: all_same_val_def Let_def split: if_splits)
  have ps: "?ps = take 16 packet # pieces 16 (drop 16 packet)"
    using assms(3) by (subst pieces.simps) simp
  then have "\<forall>p \<in> set ?ps. p = take 16 packet"
    using assms(1) by (auto simp: all_same_val_def Let_def split: if_splits)
  then have "replicate (length ?ps) (take 16 packet) = ?ps"
    by (metis replicate_eqI)
  moreover have "length ?ps = length packet div 16" using length_pieces[OF assms(2)] by simp
  ultimately show "concat (replicate (length packet div 16) (take 16 packet)) = packet"
    using concat_pieces[of 16 packet] by simp
qed

text \<open>The announced size of a block encoding; it stays far below \<open>INT_MAX\<close>.\<close>

lemma bdi_try_bits:
  assumes "bdi_try bl packet = Inr (Some out)" and "block_ok bl"
    and "bl_base bl * 2 dvd length packet" and "hex_string packet"
  shows "bdi_bits out (bl_base bl * 2) (bl_delta bl * 2) =
    length packet div (bl_base bl * 2) * (1 + bl_delta bl * 2 * 4) + (4 + bl_base bl * 2 * 4)"
proof -
  obtain base items where o: "out = bl_code bl @ base @ concat items"
    "length base = bl_base bl * 2" "\<forall>p \<in> set items. item_ok (bl_delta bl * 2) p"
    "map (bdi_item (bl_base bl * 2) (bl_delta bl * 2) base) items = pieces (bl_base bl * 2) packet"
    using assms by (rule bdi_try_shape)
  have l: "length (bl_code bl) = 4" "0 < bl_base bl * 2" using assms(2) by (auto simp: block_ok_def)
  have "length items = length (pieces (bl_base bl * 2) packet)" using o(4) by (metis length_map)
  then have "length items = length packet div (bl_base bl * 2)"
    using length_pieces[OF assms(3)] l(2) by (metis nonzero_mult_div_cancel_left not_gr_zero)
  then show ?thesis using o l concat_items[OF o(3)] by (simp add: bdi_bits_def)
qed

lemma bdi_bits_small:
  assumes "block_ok bl" and "length packet \<le> 2 ^ 20"
  shows "length packet div (bl_base bl * 2) * (1 + bl_delta bl * 2 * 4) + (4 + bl_base bl * 2 * 4)
    < INT_MAX"
proof -
  have "1 + bl_delta bl * 2 * 4 \<le> 49" "4 + bl_base bl * 2 * 4 \<le> 68"
    using assms(1) by (auto simp: block_ok_def)
  moreover have "length packet div (bl_base bl * 2) \<le> 2 ^ 20"
    using assms(2) div_le_dividend le_trans by blast
  ultimately have "length packet div (bl_base bl * 2) * (1 + bl_delta bl * 2 * 4) +
      (4 + bl_base bl * 2 * 4) \<le> 2 ^ 20 * 49 + 68"
    by (intro add_mono mult_le_mono) auto
  then show ?thesis by (simp add: INT_MAX_def)
qed

text \<open>The encodings the selection can end with.\<close>

definition tracker_ok :: "(string \<times> blocker) list \<Rightarrow> string \<Rightarrow> bool" where
  "tracker_ok tracker packet \<longleftrightarrow> hex_string packet \<and> length packet \<le> 2 ^ 20 \<and>
     (\<forall>nb \<in> set tracker. block_ok (snd nb) \<and> bl_base (snd nb) * 2 dvd length packet)"

definition bdi_choice :: "(string \<times> blocker) list \<Rightarrow> string \<Rightarrow> bdi_best \<Rightarrow> bool" where
  "bdi_choice tracker packet best \<longleftrightarrow>
     (\<exists>nb \<in> set tracker. bdi_try (snd nb) packet = Inr (Some (new_out best)) \<and>
        new_used_base best = int (bl_base (snd nb) * 2) \<and>
        new_used_delta best = int (bl_delta (snd nb) * 2) \<and>
        new_comp_bit_size best =
          bdi_bits (new_out best) (bl_base (snd nb) * 2) (bl_delta (snd nb) * 2))"

definition fold_choice :: "(string \<times> blocker) list \<Rightarrow> string \<Rightarrow> bdi_best \<Rightarrow> bool" where
  "fold_choice tracker packet best \<longleftrightarrow>
     (if is_last_ex best then best = bdi_start else bdi_choice tracker packet best)"

lemma bdi_round_choice:
  assumes "bdi_round packet best nb = Inr best'" and "nb \<in> set tracker"
    and "fold_choice tracker packet best" and ok: "tracker_ok tracker packet"
  shows "fold_choice tracker packet best'"
proof -
  obtain r where r: "bdi_try (snd nb) packet = Inr r"
    using assms(1) by (auto simp: bdi_round_def Let_def bindE_Inr_iff)
  show ?thesis
  proof (cases r)
    case None
    then show ?thesis using assms r by (simp add: bdi_round_def Let_def)
  next
    case (Some out)
    let ?n = "bdi_bits out (bl_base (snd nb) * 2) (bl_delta (snd nb) * 2)"
    have nb: "block_ok (snd nb)" "bl_base (snd nb) * 2 dvd length packet" "hex_string packet"
      "length packet \<le> 2 ^ 20" using ok assms(2) by (auto simp: tracker_ok_def)
    have small: "?n < INT_MAX"
      using bdi_try_bits[of "snd nb" packet out] bdi_bits_small nb r Some by simp
    show ?thesis
    proof (cases "?n < new_comp_bit_size best")
      case True
      then show ?thesis
        using assms(1,2) r Some
        by (auto simp: bdi_round_def Let_def fold_choice_def bdi_choice_def)
    next
      case False
      then have b': "best' = best\<lparr>is_last_ex := False\<rparr>"
        using assms(1) r Some by (simp add: bdi_round_def Let_def)
      show ?thesis
        using assms(3) small False
        by (auto simp: b' fold_choice_def bdi_choice_def bdi_start_def split: if_splits)
    qed
  qed
qed

lemma all_zero_check_Some:
  "all_zero_check packet = Some out \<Longrightarrow>
     out = ''000000'' \<and> packet = replicate (length packet) CHR ''0''"
  by (auto simp: all_zero_check_def split: if_splits)

lemma bdi_select_cases:
  assumes "bdi_select tracker packet = Inr best" and "tracker_ok tracker packet"
  obtains (zero) "new_out best = ''000000''" "packet = replicate (length packet) CHR ''0''"
      "new_comp_bit_size best = 12"
  | (same) "all_same_val packet = Some (new_out best)" "new_comp_bit_size best = 68"
  | (plain) "new_out best = ''1111'' @ packet" "new_comp_bit_size best = 4 + length packet * 4"
  | (block) "bdi_choice tracker packet best"
proof (cases "all_zero_check packet")
  case (Some out)
  then show ?thesis
    using assms(1) all_zero_check_Some[OF Some] by (intro zero) (auto simp: bdi_select_def)
next
  case Z: None
  show ?thesis
  proof (cases "all_same_val packet")
    case (Some out)
    then show ?thesis using Z assms(1) by (intro same) (auto simp: bdi_select_def)
  next
    case None
    obtain b where b: "foldE (bdi_round packet) bdi_start tracker = Inr b"
      and best: "best = (if is_last_ex b
                   then b\<lparr>new_used_base := -1, new_used_delta := -1,
                          new_out := ''1111'' @ packet,
                          new_comp_bit_size := 4 + length packet * 4\<rparr>
                   else b)"
      using Z None assms(1) by (auto simp: bdi_select_def bindE_Inr_iff)
    have "fold_choice tracker packet b"
      by (rule foldE_invariant[OF bdi_round_choice[OF _ _ _ assms(2)] _ b])
        (auto simp: fold_choice_def bdi_start_def)
    then show ?thesis
      using plain block best by (auto simp: fold_choice_def split: if_splits)
  qed
qed

lemma init_blocks_code:
  assumes "nb \<in> set init_blocks"
  shows "filter (\<lambda>x. bl_code (snd x) = bl_code (snd nb)) init_blocks = [nb] \<and>
    bl_code (snd nb) \<notin> {''0000'', ''0001'', ''1111''} \<and> bl_base (snd nb) \<in> {8, 4, 2}"
proof -
  have "\<forall>nb \<in> set init_blocks.
      filter (\<lambda>x. bl_code (snd x) = bl_code (snd nb)) init_blocks = [nb] \<and>
      bl_code (snd nb) \<notin> {''0000'', ''0001'', ''1111''} \<and> bl_base (snd nb) \<in> {8, 4, 2}"
    unfolding init_blocks_def Blocker_def by (simp only: list.set ball_simps) simp
  then show ?thesis using assms by blast
qed

lemma init_blocks_tracker:
  assumes "16 dvd length packet" and "hex_string packet" and "length packet \<le> 2 ^ 20"
  shows "tracker_ok init_blocks packet"
proof -
  have "bl_base (snd nb) * 2 dvd length packet" if "nb \<in> set init_blocks" for nb
  proof -
    have "bl_base (snd nb) = 8 \<or> bl_base (snd nb) = 4 \<or> bl_base (snd nb) = 2"
      using init_blocks_code[OF that] by simp
    then have "bl_base (snd nb) * 2 dvd 16" by (elim disjE) simp_all
    then show ?thesis using assms(1) by (rule dvd_trans)
  qed
  then show ?thesis using assms init_blocks_ok by (simp add: tracker_ok_def)
qed

text \<open>Claim C2. Losslessness: for a line of whole double words the encoding the selection ends with
  determines the packet; the decoder reads the code, the base and the items, and reads the base's
  value through the same \<open>double\<close> arithmetic as the encoder.\<close>

theorem bdi_lossless:
  assumes "bdi_select init_blocks packet = Inr best" and "hex_string packet"
    and "16 dvd length packet" and "packet \<noteq> []" and "length packet \<le> 2 ^ 20"
  shows "bdi_decode init_blocks (length packet) (new_out best) = packet"
proof -
  have ok: "tracker_ok init_blocks packet" using assms by (intro init_blocks_tracker)
  from assms(1) ok show ?thesis
  proof (cases rule: bdi_select_cases)
    case zero
    then show ?thesis by (simp add: bdi_decode_def)
  next
    case same
    then show ?thesis using all_same_val_Some[OF same(1) assms(3,4)] by (simp add: bdi_decode_def)
  next
    case plain
    then show ?thesis by (simp add: bdi_decode_def)
  next
    case block
    then obtain nb where nb: "nb \<in> set init_blocks" "bdi_try (snd nb) packet = Inr (Some (new_out best))"
      by (auto simp: bdi_choice_def)
    then have k: "block_ok (snd nb)" "bl_base (snd nb) * 2 dvd length packet"
      using ok by (auto simp: tracker_ok_def)
    note t = bdi_blocks_try[OF nb(2) k assms(2)]
    have "bdi_decode init_blocks (length packet) (new_out best) =
        bdi_blocks (snd nb) (drop 4 (new_out best))"
      using init_blocks_code[OF nb(1)] by (simp add: bdi_decode_def t(1) Let_def)
    then show ?thesis using t(2) by simp
  qed
qed

end
