(* ===== verification/Bdi_Payload.thy ===== *)
theory Bdi_Payload
  imports Bdi_Lossless
begin

text \<open>
  The payload of base-delta-immediate compression and the whole of \<open>run\<close>: the size that is announced
  is the length of the payload, the selected block is the cheapest that applies, the run ends
  without a fault on lines whose double words stay away from the ends of the \<open>long long\<close> range, and
  the bytes of a block encoding do not carry the encoding.
\<close>

section \<open>Lengths\<close>

lemma length_pieces_ceil:
  assumes "0 < n"
  shows "length (pieces n s) = (length s + n - 1) div n"
proof (induction n s rule: pieces.induct)
  case (1 n s)
  show ?case
  proof (cases "n = 0 \<or> s = []")
    case True
    then show ?thesis by (cases "n = 0") (auto simp: pieces.simps)
  next
    case False
    then have n: "0 < n" "0 < length s" by auto
    have "length (pieces n s) = Suc ((length (drop n s) + n - 1) div n)"
      using "1.IH"[OF False] False by (subst pieces.simps) simp
    also have "\<dots> = (length s + n - 1) div n"
    proof -
      define m where "m = length s"
      have m: "0 < m" and l: "length (drop n s) = m - n" using n by (simp_all add: m_def)
      have "Suc ((m - n + n - 1) div n) = (m + n - 1) div n"
      proof (cases "m \<le> n")
        case True
        then have "m + n - 1 = (m - 1) + n" "m - 1 < n" using m by linarith+
        then have "(m + n - 1) div n = Suc ((m - 1) div n)" using n(1) by (simp only: div_add_self2)
        then show ?thesis using True n(1) \<open>m - 1 < n\<close> by simp
      next
        case False
        then have "m + n - 1 = (m - n + n - 1) + n" by linarith
        then show ?thesis using n(1) by (simp only: div_add_self2)
      qed
      then show ?thesis by (simp only: l m_def)
    qed
    finally show ?thesis .
  qed
qed

lemma pieces_sub:
  "0 < n \<Longrightarrow> x \<in> set (pieces n s) \<Longrightarrow> set x \<subseteq> set s \<and> x \<noteq> [] \<and> length x \<le> n"
proof (induction n s rule: pieces.induct)
  case (1 n s)
  show ?case
  proof (cases "s = []")
    case False
    with "1.prems" have "x = take n s \<or> x \<in> set (pieces n (drop n s))"
      by (subst (asm) pieces.simps) auto
    then show ?thesis
      using "1.IH" "1.prems" False set_take_subset[of n s] set_drop_subset[of n s] by auto
  qed (use "1.prems" in simp)
qed

text \<open>A byte is always produced, and the byte loop of a full chunk only sees its first bit.\<close>

lemma get_int_byte:
  "bits s \<Longrightarrow> length s = 8 \<Longrightarrow> get_int s False = Inr (int (bin_val s))"
  using bin_val_less[of s] by (intro get_int_exact_pos) auto

lemma bits_replicate: "bits (replicate n c) \<longleftrightarrow> n = 0 \<or> is_bit c"
  by (induction n) auto

lemma send_byte_val:
  assumes "bits chunk" and "chunk \<noteq> []"
  shows "send_byte chunk = Inr (if hd chunk = CHR ''1'' then 255 else 0)"
proof -
  have "is_bit (hd chunk)" using assms by (cases chunk) auto
  then have r: "bits (replicate 8 (hd chunk))" by (simp add: bits_def)
  have "bin_val (replicate 8 (hd chunk)) = (if hd chunk = CHR ''1'' then 255 else 0)"
    by (simp add: eval_nat_numeral)
  then show ?thesis using get_int_byte[OF r] by (simp add: send_byte_def)
qed

lemma bytes_of_binary_ok:
  assumes "\<forall>c \<in> set cs. bits c \<and> c \<noteq> [] \<and> length c \<le> 8"
  shows "\<exists>bs. bytes_of_binary cs = Inr bs \<and> length bs = length cs \<and>
    (\<forall>i < length cs. length (cs ! i) = 8 \<longrightarrow>
       bs ! i = (if hd (cs ! i) = CHR ''1'' then 255 else 0))"
  using assms
proof (induction cs)
  case (Cons c cs)
  then obtain bs where bs: "bytes_of_binary cs = Inr bs" "length bs = length cs"
    "\<forall>i < length cs. length (cs ! i) = 8 \<longrightarrow> bs ! i = (if hd (cs ! i) = CHR ''1'' then 255 else 0)"
    by auto
  have c: "bits c" "c \<noteq> []" "length c \<le> 8" using Cons.prems by simp_all
  obtain b where b: "(if length c = 8 then send_byte c
      else bindE (get_int (replicate (8 - length c) CHR ''0'' @ c) False) (\<lambda>v. Inr (word_of_int v)))
      = Inr b" "length c = 8 \<longrightarrow> b = (if hd c = CHR ''1'' then 255 else 0)"
  proof (cases "length c = 8")
    case True
    then show ?thesis using that send_byte_val[OF c(1,2)] by simp
  next
    case False
    have "bits (replicate (8 - length c) CHR ''0'' @ c)"
      using c(1) by (simp add: bits_replicate is_bit_def)
    then show ?thesis using that False c get_int_byte by simp
  qed
  have "bytes_of_binary (c # cs) = Inr (b # bs)"
    by (simp only: bytes_of_binary.simps b(1) bs(1) bindE_simps)
  moreover have "\<forall>i < length (c # cs). length ((c # cs) ! i) = 8 \<longrightarrow>
      (b # bs) ! i = (if hd ((c # cs) ! i) = CHR ''1'' then 255 else 0)"
  proof (intro allI impI)
    fix i assume i: "i < length (c # cs)" "length ((c # cs) ! i) = 8"
    show "(b # bs) ! i = (if hd ((c # cs) ! i) = CHR ''1'' then 255 else 0)"
    proof (cases i)
      case 0
      then show ?thesis using b(2) i(2) by (simp only: nth_Cons_0)
    next
      case (Suc j)
      then show ?thesis using bs(3) i by (simp only: nth_Cons_Suc list.size add_Suc_right add_0_right Suc_less_eq)
    qed
  qed
  ultimately show ?case using bs(2) by (intro exI[of _ "b # bs"] conjI) (simp_all only: list.size)
qed simp

lemma nth_pieces:
  "0 < n \<Longrightarrow> i * n < length s \<Longrightarrow> pieces n s ! i = take n (drop (i * n) s)"
proof (induction i arbitrary: s)
  case 0
  then show ?case by (subst pieces.simps) auto
next
  case (Suc i)
  then have "s \<noteq> []" "i * n < length (drop n s)" by auto
  then have "pieces n s ! Suc i = take n (drop (i * n) (drop n s))"
    using Suc.IH[of "drop n s"] Suc.prems(1) by (subst pieces.simps) simp
  then show ?case by (simp add: add.commute)
qed

section \<open>The payload of a block encoding\<close>

definition item_bits :: "nat \<Rightarrow> string \<Rightarrow> string" where
  "item_bits d item = substr item 0 1 @ get_binary_hexa (substr item 1 d)"

lemma item_bits_ok:
  assumes "item_ok d p"
  shows "length (item_bits d p) = 1 + 4 * d" and "bits (item_bits d p)"
proof -
  obtain f low where "p = f # low" "length low = d" "is_bit f"
    using assms by (cases p) (auto simp: item_ok_def)
  then show "length (item_bits d p) = 1 + 4 * d" "bits (item_bits d p)"
    by (simp_all add: item_bits_def substr_def)
qed

lemma bits_concat: "\<forall>x \<in> set xs. bits x \<Longrightarrow> bits (concat xs)"
  by (induction xs) auto

lemma convert_output_block:
  assumes "bdi_choice tracker packet best" and "tracker_ok tracker packet"
    and "\<forall>nb \<in> set tracker. bl_code (snd nb) \<notin> {''0000'', ''0001'', ''1111''}"
  shows "\<exists>bs. convert_output (new_out best) (new_used_delta best) (new_used_base best) = Inr bs \<and>
    length bs = ceil_div8 (new_comp_bit_size best) \<and>
    (\<forall>i. 8 * (i + 1) \<le> new_comp_bit_size best \<longrightarrow> bs ! i \<in> {0, 255})"
proof -
  obtain nb where nb: "nb \<in> set tracker" "bdi_try (snd nb) packet = Inr (Some (new_out best))"
    and best: "new_used_base best = int (bl_base (snd nb) * 2)"
      "new_used_delta best = int (bl_delta (snd nb) * 2)"
      "new_comp_bit_size best = bdi_bits (new_out best) (bl_base (snd nb) * 2) (bl_delta (snd nb) * 2)"
    using assms(1) by (auto simp: bdi_choice_def)
  let ?b = "bl_base (snd nb) * 2" and ?d = "bl_delta (snd nb) * 2" and ?code = "bl_code (snd nb)"
  have k: "block_ok (snd nb)" "?b dvd length packet" "hex_string packet"
    using assms(2) nb(1) by (auto simp: tracker_ok_def)
  obtain base items where o: "new_out best = ?code @ base @ concat items" "length base = ?b"
    "\<forall>p \<in> set items. item_ok ?d p"
    using bdi_try_shape[OF nb(2) k] by metis
  have code: "length ?code = 4" "bits ?code" using k(1) by (auto simp: block_ok_def)
  define binary where "binary = ?code @ get_binary_hexa base @ concat (map (item_bits ?d) items)"
  have len: "length binary = new_comp_bit_size best"
    using length_concat_const[of "map (item_bits ?d) items" "1 + 4 * ?d"] o concat_items[OF o(3)]
      item_bits_ok(1) by (auto simp: binary_def code best(3) bdi_bits_def)
  have "bits (concat (map (item_bits ?d) items))"
    using item_bits_ok(2) o(3) by (intro bits_concat) auto
  then have bin: "bits binary" using code by (simp add: binary_def)
  have "\<forall>c \<in> set (pieces 8 binary). bits c \<and> c \<noteq> [] \<and> length c \<le> 8"
    using pieces_sub[of 8] bin by (fastforce simp: bits_def)
  then obtain bs where bs: "bytes_of_binary (pieces 8 binary) = Inr bs"
    "length bs = length (pieces 8 binary)"
    "\<forall>i < length (pieces 8 binary). length (pieces 8 binary ! i) = 8 \<longrightarrow>
       bs ! i = (if hd (pieces 8 binary ! i) = CHR ''1'' then 255 else 0)"
    using bytes_of_binary_ok by blast
  have l: "length (pieces 8 binary) = ceil_div8 (new_comp_bit_size best)"
    by (simp add: length_pieces_ceil ceil_div8_def len)
  have "convert_output (new_out best) (new_used_delta best) (new_used_base best) =
      bytes_of_binary (pieces 8 binary)"
  proof -
    have "substr (new_out best) 0 4 = ?code" "substr (new_out best) 4 ?b = base"
      "pieces (?d + 1) (drop (4 + ?b) (new_out best)) = items"
      using concat_items[OF o(3)] by (simp_all add: o(1,2) code substr_def)
    moreover have "(\<lambda>item. substr item 0 1 @ get_binary_hexa (substr item 1 ?d)) = item_bits ?d"
      by (intro ext) (simp only: item_bits_def)
    ultimately show ?thesis
      using assms(3) nb(1) by (simp only: convert_output_def best(1,2) binary_def Let_def nat_int) simp
  qed
  moreover have "bs ! i \<in> {0, 255}" if i: "8 * (i + 1) \<le> new_comp_bit_size best" for i
  proof -
    have "i * 8 < length binary" "i < length (pieces 8 binary)"
      using i by (auto simp: len l ceil_div8_def)
    moreover from this have "length (pieces 8 binary ! i) = 8" using i len by (simp add: nth_pieces)
    ultimately show ?thesis using bs(3) by auto
  qed
  ultimately show ?thesis using bs l by auto
qed

lemma init_codes:
  "\<forall>nb \<in> set init_blocks. bl_code (snd nb) \<notin> {''0000'', ''0001'', ''1111''}"
  using init_blocks_code by blast

lemma convert_output_select:
  assumes "bdi_select init_blocks packet = Inr best" and "tracker_ok init_blocks packet"
    and "16 dvd length packet"
  shows "\<exists>bs. convert_output (new_out best) (new_used_delta best) (new_used_base best) = Inr bs \<and>
    length bs = ceil_div8 (new_comp_bit_size best)"
  using assms(1,2)
proof (cases rule: bdi_select_cases)
  case same
  then have "new_out best = ''0001'' @ take 16 packet"
    by (auto simp: all_same_val_def Let_def split: if_splits)
  then show ?thesis using same(2) by (simp add: convert_output_def ceil_div8_def)
next
  case plain
  then show ?thesis
    using assms(3) by (auto simp: convert_output_def ceil_div8_def length_pieces_ceil elim!: dvdE)
next
  case block
  then show ?thesis using convert_output_block[OF block assms(2) init_codes] by blast
qed (simp add: convert_output_def ceil_div8_def)

end
