(* ===== verification/Bdi_Run.thy ===== *)
theory Bdi_Run
  imports Bdi_Payload Fpc_Correct
begin

text \<open>
  The run of base-delta-immediate compression as a whole: where its \<open>long long\<close> arithmetic is defined,
  that a run then ends with the announced sizes, that the cheapest block is taken, and what rounding
  through \<open>double\<close> and the byte loop do to the values.
\<close>

section \<open>Rounding errors\<close>

lemma rnd53_nat_error:
  assumes "n < 2 ^ 64"
  shows "\<bar>int (rnd53_nat n) - int n\<bar> \<le> 2 ^ 10"
proof -
  define es where "es = filter (\<lambda>e. 2 ^ (53 + e) \<le> n) [0..<12]"
  define e where "e = length es"
  have "filter (\<lambda>e. 2 ^ (53 + e) \<le> n) [0..<12] = filter (\<lambda>e. 2 ^ (53 + e) \<le> n) [0..<11]"
  proof -
    have "\<not> 2 ^ (53 + 11) \<le> n" using assms by simp
    then show ?thesis by (simp add: upt_rec)
  qed
  then have "e \<le> 11" unfolding e_def es_def using length_filter_le[of _ "[0..<11]"] by (metis length_upt diff_zero)
  then have E: "(2::nat) ^ e \<le> 2 ^ 11" by (intro power_increasing) simp_all
  define q where "q = n div 2 ^ e"
  define r where "r = n mod 2 ^ e"
  have n: "n = q * 2 ^ e + r" unfolding q_def r_def by (rule div_mult_mod_eq[symmetric])
  have rl: "r < 2 ^ e" by (simp add: r_def)
  have rn: "rnd53_nat n = (if e = 0 then n
      else if 2 * r < 2 ^ e \<or> 2 * r = 2 ^ e \<and> even q then q * 2 ^ e else (q + 1) * 2 ^ e)"
    by (simp add: rnd53_nat_def Let_def e_def es_def q_def r_def)
  have I: "int n = int (q * 2 ^ e) + int r" by (subst n) (simp only: of_nat_add)
  consider "e = 0" | "rnd53_nat n = q * 2 ^ e" "2 * r \<le> 2 ^ e"
    | "rnd53_nat n = (q + 1) * 2 ^ e" "2 ^ e \<le> 2 * r"
  proof (cases "2 * r < 2 ^ e \<or> 2 * r = 2 ^ e \<and> even q")
    case True
    then have "2 * r \<le> 2 ^ e" by auto
    with True show ?thesis using that(1,2) by (cases "e = 0") (simp_all only: rn if_True if_False)
  next
    case False
    then have "2 ^ e \<le> 2 * r" by auto
    with False show ?thesis using that(1,3) by (cases "e = 0") (simp_all only: rn if_True if_False)
  qed
  then show ?thesis
  proof cases
    case 1
    then show ?thesis by (simp add: rn)
  next
    case 2
    then have "int r \<le> 2 ^ 10" using E by simp
    then show ?thesis using 2(1) I by simp
  next
    case 3
    have "int (rnd53_nat n) = int (q * 2 ^ e) + int (2 ^ e)" by (simp only: 3(1)) simp
    moreover have "int (2 ^ e) - int r \<le> 2 ^ 10" "0 \<le> int (2 ^ e) - int r"
    proof -
      define m where "m = (2::nat) ^ e"
      have "m \<le> 2048" "m \<le> 2 * r" "r < m" using E 3(2) rl by (simp_all add: m_def)
      then have "int m - int r \<le> 1024" "0 \<le> int m - int r" by linarith+
      then show "int (2 ^ e) - int r \<le> 2 ^ 10" "0 \<le> int (2 ^ e) - int r"
        unfolding m_def by simp_all
    qed
    ultimately show ?thesis using I by linarith
  qed
qed

lemma rnd53_error:
  assumes "\<bar>x\<bar> < 2 ^ 64"
  shows "\<bar>rnd53 x - x\<bar> \<le> 2 ^ 10"
proof -
  have "nat \<bar>x\<bar> < 2 ^ 64" using assms by simp
  note e = rnd53_nat_error[OF this]
  show ?thesis
  proof (cases "x < 0")
    case True
    then have "\<bar>rnd53 x - x\<bar> = \<bar>int (rnd53_nat (nat \<bar>x\<bar>)) - int (nat \<bar>x\<bar>)\<bar>" by (simp add: rnd53_def)
    then show ?thesis using e by simp
  next
    case False
    then show ?thesis using e by (simp add: rnd53_def)
  qed
qed

text \<open>The loop of \<open>get_int\<close> stays in range when the sums stay away from its ends.\<close>

lemma get_int_loop_range:
  assumes "bits cs" and "lo \<le> v" and "v + int (bin_val cs) \<le> hi"
    and "- (2 ^ 63) + int (length cs) * 2 ^ 10 \<le> lo" and "hi + int (length cs) * 2 ^ 10 < 2 ^ 63"
  shows "\<exists>r. get_int_loop v cs = Inr r \<and> lo - int (length cs) * 2 ^ 10 \<le> r \<and>
    r \<le> hi + int (length cs) * 2 ^ 10"
  using assms
proof (induction cs arbitrary: v lo hi)
  case (Cons c cs)
  let ?w = "v + char_minus0 c * 2 ^ length cs"
  have bv: "v + int (bin_val (c # cs)) = ?w + int (bin_val cs)" and ge: "v \<le> ?w"
    using Cons.prems(1) bit_value[of c "length cs"] by simp_all
  have len: "int (length (c # cs)) * 2 ^ 10 = 2 ^ 10 + int (length cs) * 2 ^ 10"
    by (simp add: algebra_simps)
  note p = Cons.prems(2-5)[unfolded len bv]
  have w: "lo \<le> ?w" "?w \<le> hi" "0 \<le> int (length cs) * 2 ^ 10" using p(1,2) ge by simp_all
  then have "\<bar>?w\<bar> < 2 ^ 64" using p(3,4) by simp
  then have e: "\<bar>rnd53 ?w - ?w\<bar> \<le> 2 ^ 10" by (rule rnd53_error)
  have "to_ll (rnd53 ?w) = Inr (rnd53 ?w)" by (rule to_ll_ok) (use e w p(3,4) in \<open>linarith+\<close>)
  moreover have "\<exists>r. get_int_loop (rnd53 ?w) cs = Inr r \<and>
      (lo - 2 ^ 10) - int (length cs) * 2 ^ 10 \<le> r \<and> r \<le> (hi + 2 ^ 10) + int (length cs) * 2 ^ 10"
  proof (rule Cons.IH)
    show "bits cs" using Cons.prems(1) by simp
    show "lo - 2 ^ 10 \<le> rnd53 ?w" "rnd53 ?w + int (bin_val cs) \<le> hi + 2 ^ 10"
      "- (2 ^ 63) + int (length cs) * 2 ^ 10 \<le> lo - 2 ^ 10"
      "hi + 2 ^ 10 + int (length cs) * 2 ^ 10 < 2 ^ 63" using e w p by linarith+
  qed
  ultimately show ?case by (simp add: algebra_simps)
qed simp

text \<open>A double word whose two top bits agree, so that its value is below \<open>2 ^ 62\<close> in magnitude.\<close>

definition mid_range :: "string \<Rightarrow> bool" where
  "mid_range w \<longleftrightarrow>
     (case get_binary_hexa w of b # c # _ \<Rightarrow> b = c | _ \<Rightarrow> False)"

definition signed_ok :: "string \<Rightarrow> bool" where
  "signed_ok w \<longleftrightarrow> (\<exists>a. signed_of_hex w = Inr a \<and> \<bar>a\<bar> \<le> 2 ^ 62 + 2 ^ 16)"

lemma mid_range_signed:
  assumes "length w = 16" and "mid_range w"
  shows "signed_ok w"
proof -
  obtain b c cs where e: "get_binary_hexa w = b # c # cs" and cc: "c = b"
    using assms(2) by (auto simp: mid_range_def split: list.splits)
  have len: "length cs = 62" using length_get_binary_hexa[of w] assms(1) by (simp add: e)
  have bit: "is_bit b" "bits cs" using bits_get_binary_hexa[of w] by (simp_all add: e)
  have B: "int (bin_val cs) < 2 ^ 62"
    using bin_val_less[of cs] len by (metis of_nat_less_iff of_nat_numeral of_nat_power)
  show ?thesis
  proof (cases "b = CHR ''1''")
    case True
    have "rnd53 (- (2 ^ 62)) = - (2 ^ 62)"
      by (simp add: rnd53_def rnd53_nat_def upt_rec)
    then have g: "get_int (b # c # cs) True = get_int_loop (- (2 ^ 62)) cs"
      using True cc len by (simp add: get_int_def to_ll_def char_minus0_def)
    have "\<exists>r. get_int_loop (- (2 ^ 62)) cs = Inr r \<and> - (2 ^ 62) - int (length cs) * 2 ^ 10 \<le> r \<and>
        r \<le> 0 + int (length cs) * 2 ^ 10"
      by (rule get_int_loop_range) (use bit B len in simp_all)
    then show ?thesis using g True by (auto simp: signed_ok_def signed_of_hex_def e len)
  next
    case False
    then have b0: "b = CHR ''0''" using bit(1) by (simp add: is_bit_def)
    have "rnd53 0 = 0" by (rule rnd53_exact) simp_all
    then have g: "get_int (b # c # cs) False = get_int_loop 0 cs"
      using b0 cc by (simp add: get_int_def to_ll_def char_minus0_def)
    have "\<exists>r. get_int_loop 0 cs = Inr r \<and> 0 - int (length cs) * 2 ^ 10 \<le> r \<and>
        r \<le> 2 ^ 62 + int (length cs) * 2 ^ 10"
      by (rule get_int_loop_range) (use bit B len in simp_all)
    then show ?thesis using g b0 by (auto simp: signed_ok_def signed_of_hex_def e len)
  qed
qed

lemma short_signed:
  assumes "w \<noteq> []" and "length w \<le> 13"
  shows "signed_ok w"
  using signed_of_hex_exact[OF assms] by (force simp: signed_ok_def)

section \<open>Runs without a fault\<close>

lemma convert_base_total:
  assumes "signed_ok base" and "length w = b" "length base = b" and "0 < d" "d \<le> 13" "d < b"
  shows "\<exists>r. convert_base w base d = Inr r"
proof -
  obtain a where a: "signed_of_hex base = Inr a" "\<bar>a\<bar> \<le> 2 ^ 62 + 2 ^ 16"
    using assms(1) by (auto simp: signed_ok_def)
  have low: "drop (b - d) w \<noteq> []" "length (drop (b - d) w) \<le> 13" using assms(2,4-6) by auto
  obtain v where v: "signed_of_hex (drop (b - d) w) = Inr v" "\<bar>v\<bar> < 2 ^ 53"
    using signed_of_hex_exact[OF low] by blast
  have "to_ll (a * -1) = Inr (a * -1)" by (rule to_ll_ok) (use a(2) in simp_all)
  moreover have "to_ll (v + a * -1) = Inr (v + a * -1)"
    by (rule to_ll_ok) (use a(2) v(2) in simp_all)
  moreover have "to_ll \<bar>v + a * -1\<bar> = Inr \<bar>v + a * -1\<bar>"
    by (rule to_ll_ok) (use a(2) v(2) in simp_all)
  ultimately show ?thesis
    using a(1) v(1) assms(2,3) by (simp add: convert_base_def convert_hexa_def Let_def)
qed

lemma check_base_loop_total:
  assumes "\<forall>w \<in> set ws. length w = b \<and> signed_ok w" and "0 < d" "d \<le> 13" "d < b"
    and "\<And>x. bs = Some x \<Longrightarrow> length x = b \<and> signed_ok x"
  shows "\<exists>r. check_base_loop d bs (map (zero_part b d) ws) = Inr r"
  using assms(1,5)
proof (induction ws arbitrary: bs)
  case (Cons w ws)
  have w: "length w = b" "signed_ok w" using Cons.prems(1) by simp_all
  have ws: "\<forall>w \<in> set ws. length w = b \<and> signed_ok w" using Cons.prems(1) by simp
  from w(1) assms(4) show ?case
  proof (cases rule: zero_part_cases)
    case zero
    obtain r where "check_base_loop d bs (map (zero_part b d) ws) = Inr r"
      using Cons.IH[OF ws Cons.prems(2)] by blast
    then show ?thesis using zero(2) by (auto split: option.split)
  next
    case other
    define base where "base = (case bs of None \<Rightarrow> w | Some b \<Rightarrow> b)"
    have lb: "length base = b \<and> signed_ok base"
      using w Cons.prems(2) by (auto simp: base_def split: option.splits)
    obtain r where r: "convert_base w base d = Inr r"
      using convert_base_total[of base w b d] lb w(1) assms(2-4) by blast
    obtain q where "check_base_loop d (Some base) (map (zero_part b d) ws) = Inr q"
      using Cons.IH[OF ws, of "Some base"] lb by blast
    then show ?thesis using other(2) r by (auto simp: base_def[symmetric] Let_def split: option.split)
  qed
qed simp

definition mid_range_line :: "string \<Rightarrow> bool" where
  "mid_range_line packet \<longleftrightarrow> (\<forall>w \<in> set (pieces 16 packet). mid_range w)"

lemma bdi_try_total:
  assumes "mid_range_line packet" and "16 dvd length packet" and "block_ok bl"
    and "bl_base bl * 2 dvd length packet" and "bl_base bl \<in> {8, 4, 2}"
  shows "\<exists>r. bdi_try bl packet = Inr r"
proof -
  let ?b = "bl_base bl * 2" and ?d = "bl_delta bl * 2"
  have d: "0 < ?d" "?d \<le> 13" "?d < ?b" using assms(3) by (auto simp: block_ok_def)
  have "\<forall>w \<in> set (pieces ?b packet). length w = ?b \<and> signed_ok w"
  proof
    fix w assume w: "w \<in> set (pieces ?b packet)"
    have l: "length w = ?b" by (rule pieces_lengths[OF assms(4) w])
    have "signed_ok w"
    proof (cases "?b = 16")
      case True
      then show ?thesis using assms(1) w l by (intro mid_range_signed) (auto simp: mid_range_line_def)
    next
      case False
      then show ?thesis using assms(5) l d by (intro short_signed) auto
    qed
    with l show "length w = ?b \<and> signed_ok w" by simp
  qed
  from check_base_loop_total[OF this d, of None]
  obtain r where "check_base_loop ?d None (map (zero_part ?b ?d) (pieces ?b packet)) = Inr r" by auto
  then show ?thesis
    by (auto simp: bdi_try_def check_zero_eq check_base_def Let_def split: option.split)
qed

lemma bdi_fold_total:
  assumes "\<And>nb. nb \<in> set nbs \<Longrightarrow> \<exists>r. bdi_try (snd nb) packet = Inr r"
  shows "\<exists>b. foldE (bdi_round packet) s nbs = Inr b"
  using assms
proof (induction nbs arbitrary: s)
  case (Cons nb nbs)
  obtain r where "bdi_try (snd nb) packet = Inr r"
    using Cons.prems[OF list.set_intros(1)] by blast
  then obtain s' where "bdi_round packet s nb = Inr s'"
    by (cases r) (auto simp: bdi_round_def Let_def)
  with Cons show ?case by simp
qed simp

lemma bdi_select_total:
  assumes "mid_range_line packet" and "16 dvd length packet" and "tracker_ok init_blocks packet"
  shows "\<exists>best. bdi_select init_blocks packet = Inr best"
proof -
  have "\<exists>r. bdi_try (snd nb) packet = Inr r" if "nb \<in> set init_blocks" for nb
    using assms that init_blocks_code[OF that] by (intro bdi_try_total) (auto simp: tracker_ok_def)
  from bdi_fold_total[of init_blocks packet bdi_start, OF this]
  show ?thesis by (auto simp: bdi_select_def split: option.split)
qed

lemma packet_hex_line:
  assumes "make_packet data = Inr packet" and "8 dvd length data"
  shows "hex_string packet" and "16 dvd length packet" and "length packet = 2 * length data"
proof -
  obtain ws where ws: "decompose_words data = Inr ws" "packet = concat (map hex8 ws)"
    using assms(1) by (rule packet_words)
  show "hex_string packet" using hex8_hex by (auto simp: ws(2) hex_string_def)
  show l: "length packet = 2 * length data"
    using length_concat_const[of "map hex8 ws" 8] decompose_words_length[OF ws(1)] by (simp add: ws(2))
  show "16 dvd length packet" using assms(2) by (auto simp: l elim!: dvdE)
qed

lemma bdi_run_eq:
  assumes "make_packet (m_real_data mf) = Inr packet" and "m_real_data mf \<noteq> []"
    and "bdi_select tracker packet = Inr best"
    and "convert_output (new_out best) (new_used_delta best) (new_used_base best) = Inr bs"
    and "length bs = ceil_div8 (new_comp_bit_size best)"
  shows "\<exists>mf'. bdi_run tracker mf = Inr mf' \<and> m_compress_data mf' = bs \<and>
    m_comp_data_size mf' = ceil_div8 (new_comp_bit_size best) \<and>
    m_comp_data_bits mf' = int (new_comp_bit_size best) \<and> compare_data mf' = packet \<and>
    m_real_data mf' = m_real_data mf"
  using assms
  by (simp add: bdi_run_def get_real_data_size_def Let_def set_comp_data_bits_def
      set_comp_data_size_def set_comp_data_all_exact)

lemma bdi_run_ok:
  assumes "make_packet (m_real_data mf) = Inr packet" and "m_real_data mf \<noteq> []"
    and "8 dvd length (m_real_data mf)" and "length (m_real_data mf) \<le> 2 ^ 19"
    and "mid_range_line packet"
  shows "\<exists>mf' best. bdi_run init_blocks mf = Inr mf' \<and> bdi_select init_blocks packet = Inr best \<and>
    m_comp_data_bits mf' = int (new_comp_bit_size best) \<and>
    m_comp_data_size mf' = ceil_div8 (new_comp_bit_size best) \<and>
    length (m_compress_data mf') = m_comp_data_size mf' \<and> m_real_data mf' = m_real_data mf"
proof -
  note p = packet_hex_line[OF assms(1,3)]
  have ok: "tracker_ok init_blocks packet" using p assms(4) by (intro init_blocks_tracker) simp_all
  obtain best where best: "bdi_select init_blocks packet = Inr best"
    using bdi_select_total[OF assms(5) p(2) ok] by blast
  obtain bs where "convert_output (new_out best) (new_used_delta best) (new_used_base best) = Inr bs"
    "length bs = ceil_div8 (new_comp_bit_size best)"
    using convert_output_select[OF best ok p(2)] by blast
  from bdi_run_eq[OF assms(1,2) best this] this best show ?thesis by auto
qed

text \<open>Claim C6. A run on a line of whole double words, each of magnitude below \<open>2 ^ 62\<close>, ends without a
  fault: the assertion that the announced size is the payload's length holds, the size stored in the
  fetch is the selected encoding's bits rounded up to bytes, and the line is kept.\<close>

theorem bdi_run_result:
  assumes "make_packet (m_real_data mf) = Inr packet" and "m_real_data mf \<noteq> []"
    and "8 dvd length (m_real_data mf)" and "length (m_real_data mf) \<le> 2 ^ 19"
    and "mid_range_line packet"
  shows "\<exists>mf' best. bdi_run init_blocks mf = Inr mf' \<and> bdi_select init_blocks packet = Inr best \<and>
    m_comp_data_bits mf' = int (new_comp_bit_size best) \<and>
    m_comp_data_size mf' = ceil_div8 (new_comp_bit_size best) \<and>
    length (m_compress_data mf') = m_comp_data_size mf' \<and> m_real_data mf' = m_real_data mf"
  by (rule bdi_run_ok[OF assms])

text \<open>A line for the witnesses: two double words, 0 and 1.\<close>

definition demo_line :: "u8 list" where
  "demo_line = [0, 0, 0, 0, 0, 0, 0, 0, 1, 0, 0, 0, 0, 0, 0, 0]"

definition demo_fetch :: "u8 list \<Rightarrow> mem_fetch" where
  "demo_fetch data = \<lparr>m_real_data = data, compare_data = [], m_comp_data_size = 0,
     m_comp_data_bits = 0, m_comp_data_bits_2B = -1, m_comp_data_bits_4B = -1,
     m_comp_data_bits_8B = -1, m_compress_data = []\<rparr>"

lemma demo_packet:
  "make_packet demo_line = Inr ''00000000000000000000000100000000''"
  by (simp add: make_packet_eq demo_line_def word_of_bytes_def hex8_def nibble_def hexdig_eqs
      hexdig_eqs(2)[simplified])

lemma demo_dvd: "16 dvd length ''00000000000000000000000100000000''"
proof -
  have "length ''00000000000000000000000100000000'' = 16 * 2" by simp
  then show ?thesis by (simp only: dvd_triv_left)
qed

lemma demo_line_facts: "demo_line \<noteq> []" "8 dvd length demo_line" "length demo_line \<le> 2 ^ 19"
proof -
  have "length demo_line = 8 * 2" by (simp add: demo_line_def)
  then show "8 dvd length demo_line" "length demo_line \<le> 2 ^ 19" by (simp_all only: dvd_triv_left) simp
  show "demo_line \<noteq> []" by (simp add: demo_line_def)
qed

lemma demo_mid_range: "mid_range_line ''00000000000000000000000100000000''"
proof -
  have "pieces 16 ''00000000000000000000000100000000'' = [''0000000000000000'', ''0000000100000000'']"
    by (simp add: pieces.simps)
  moreover have "get_binary 0 4 = ''0000''" by code_simp
  ultimately show ?thesis
    by (simp add: mid_range_line_def mid_range_def get_binary_hexa_def hex_value_eqs)
qed

theorem bdi_run_result_witness:
  "\<exists>mf' best. bdi_run init_blocks (demo_fetch demo_line) = Inr mf' \<and>
    bdi_select init_blocks ''00000000000000000000000100000000'' = Inr best \<and>
    m_comp_data_bits mf' = int (new_comp_bit_size best) \<and>
    m_comp_data_size mf' = ceil_div8 (new_comp_bit_size best) \<and>
    length (m_compress_data mf') = m_comp_data_size mf' \<and>
    m_real_data mf' = m_real_data (demo_fetch demo_line)"
  using demo_packet demo_mid_range demo_line_facts
  by (intro bdi_run_result) (simp_all add: demo_fetch_def)

lemma demo_line_run: "\<exists>mf'. bdi_run init_blocks (demo_fetch demo_line) = Inr mf'"
  using bdi_run_ok[of "demo_fetch demo_line"] demo_packet demo_mid_range demo_line_facts
  by (auto simp: demo_fetch_def)

section \<open>The cheapest block\<close>

definition cheapest :: "string \<Rightarrow> (string \<times> blocker) list \<Rightarrow> bdi_best \<Rightarrow> bool" where
  "cheapest packet seen best \<longleftrightarrow>
     (\<forall>nb out. nb \<in> set seen \<longrightarrow> bdi_try (snd nb) packet = Inr (Some out) \<longrightarrow>
        \<not> is_last_ex best \<and>
        new_comp_bit_size best \<le> bdi_bits out (bl_base (snd nb) * 2) (bl_delta (snd nb) * 2))"

lemma bdi_round_cheapest:
  assumes "bdi_round packet best nb = Inr best'" and "cheapest packet seen best"
  shows "cheapest packet (seen @ [nb]) best'"
proof -
  obtain r where r: "bdi_try (snd nb) packet = Inr r"
    using assms(1) by (auto simp: bdi_round_def Let_def bindE_Inr_iff)
  show ?thesis
  proof (cases r)
    case None
    then show ?thesis using assms r by (auto simp: bdi_round_def Let_def cheapest_def)
  next
    case (Some out)
    let ?n = "bdi_bits out (bl_base (snd nb) * 2) (bl_delta (snd nb) * 2)"
    have "new_comp_bit_size best' \<le> new_comp_bit_size best" "new_comp_bit_size best' \<le> ?n"
      "\<not> is_last_ex best'"
      using assms(1) r Some by (auto simp: bdi_round_def Let_def split: if_splits)
    then show ?thesis using assms(2) r Some by (fastforce simp: cheapest_def)
  qed
qed

lemma bdi_fold_cheapest:
  "foldE (bdi_round packet) s nbs = Inr b \<Longrightarrow> cheapest packet seen s \<Longrightarrow> cheapest packet (seen @ nbs) b"
proof (induction nbs arbitrary: s seen)
  case (Cons nb nbs)
  obtain s' where s: "bdi_round packet s nb = Inr s'" "foldE (bdi_round packet) s' nbs = Inr b"
    using Cons.prems(1) by (auto simp: bindE_Inr_iff)
  from Cons.IH[OF s(2) bdi_round_cheapest[OF s(1) Cons.prems(2)]] show ?case by simp
qed simp

text \<open>When neither special case applies, the encoding sent is at most as long as that of every
  block of the table that applies to the line.\<close>

theorem bdi_cheapest_block:
  assumes "bdi_select tracker packet = Inr best"
    and "all_zero_check packet = None" and "all_same_val packet = None"
    and "nb \<in> set tracker" and "bdi_try (snd nb) packet = Inr (Some out)"
  shows "new_comp_bit_size best \<le> bdi_bits out (bl_base (snd nb) * 2) (bl_delta (snd nb) * 2)"
proof -
  obtain b where b: "foldE (bdi_round packet) bdi_start tracker = Inr b"
    and best: "\<not> is_last_ex b \<longrightarrow> best = b"
    using assms(1-3) by (auto simp: bdi_select_def bindE_Inr_iff)
  have "cheapest packet [] bdi_start" by (simp add: cheapest_def)
  from bdi_fold_cheapest[OF b this] have "cheapest packet tracker b" by simp
  then have "\<not> is_last_ex b \<and>
      new_comp_bit_size b \<le> bdi_bits out (bl_base (snd nb) * 2) (bl_delta (snd nb) * 2)"
    using assms(4,5) unfolding cheapest_def by blast
  then show ?thesis using best by simp
qed

lemma demo_tracker: "tracker_ok init_blocks ''00000000000000000000000100000000''"
  by (rule init_blocks_tracker[OF demo_dvd]) (simp_all add: hex_string_def is_hex_def)

theorem bdi_cheapest_block_witness:
  "\<exists>best. bdi_select init_blocks ''00000000000000000000000100000000'' = Inr best \<and>
    new_comp_bit_size best \<le> bdi_bits (''01110000'' @ ''000000000000000001000000'') 4 2"
proof -
  let ?p = "''00000000000000000000000100000000''" and ?nb = "(''base2d1'', Blocker ''0111'' ''base2d1'' 2 1 18)"
  obtain best where best: "bdi_select init_blocks ?p = Inr best"
    using bdi_select_total[OF demo_mid_range demo_dvd demo_tracker] by blast
  have "all_zero_check ?p = None" by (simp add: all_zero_check_def numeral_eq_Suc)
  moreover have "all_same_val ?p = None" by (simp add: all_same_val_def pieces.simps)
  moreover have "?nb \<in> set init_blocks" by (simp add: init_blocks_def)
  moreover have "bdi_try (snd ?nb) ?p = Inr (Some (''01110000'' @ ''000000000000000001000000''))"
    by (simp add: bdi_try_def check_zero_eq Blocker_def Let_def pieces.simps zero_ok_def zero_part_def
        zero_diff_def get_zero_out_def form_output_def numeral_eq_Suc)
  ultimately have "new_comp_bit_size best \<le>
      bdi_bits (''01110000'' @ ''000000000000000001000000'') (bl_base (snd ?nb) * 2) (bl_delta (snd ?nb) * 2)"
    by (rule bdi_cheapest_block[OF best])
  then show ?thesis using best by (auto simp: Blocker_def)
qed

theorem bdi_lossless_witness:
  "\<exists>best. bdi_select init_blocks ''00000000000000000000000100000000'' = Inr best \<and>
    bdi_decode init_blocks 32 (new_out best) = ''00000000000000000000000100000000''"
proof -
  let ?p = "''00000000000000000000000100000000''"
  obtain best where best: "bdi_select init_blocks ?p = Inr best"
    using bdi_select_total[OF demo_mid_range demo_dvd demo_tracker] by blast
  have "bdi_decode init_blocks (length ?p) (new_out best) = ?p"
    by (rule bdi_lossless[OF best _ demo_dvd]) (simp_all add: hex_string_def is_hex_def)
  moreover have "length ?p = 32" by simp
  ultimately show ?thesis using best by (intro exI[of _ best] conjI) (simp_all only:)
qed

section \<open>What the arithmetic and the byte loop lose\<close>

text \<open>The bytes that a block encoding stores are 0 or 255, up to the last, partial one: the byte
  loop pushes the bit that opens the chunk eight times, so the payload does not carry the encoding.\<close>

theorem bdi_payload_degenerate:
  assumes "bdi_choice init_blocks packet best" and "tracker_ok init_blocks packet"
    and "convert_output (new_out best) (new_used_delta best) (new_used_base best) = Inr bs"
    and "8 * (i + 1) \<le> new_comp_bit_size best"
  shows "bs ! i \<in> {0, 255}"
  using convert_output_block[OF assms(1,2) init_codes] assms(3,4) by auto

theorem bdi_payload_degenerate_witness:
  "\<exists>bs. convert_output (''01110000'' @ ''000000000000000001000000'') 2 4 = Inr bs \<and>
     bs ! 10 \<in> {0, 255}"
proof -
  let ?p = "''00000000000000000000000100000000''" and ?o = "''01110000'' @ ''000000000000000001000000''"
  let ?best = "\<lparr>new_out = ?o, new_used_base = 4, new_used_delta = 2,
      new_comp_bit_size = bdi_bits ?o 4 2, is_last_ex = False\<rparr>"
  let ?nb = "(''base2d1'', Blocker ''0111'' ''base2d1'' 2 1 18)"
  have "?nb \<in> set init_blocks" by (simp add: init_blocks_def)
  moreover have "bdi_try (snd ?nb) ?p = Inr (Some ?o)"
    by (simp add: bdi_try_def check_zero_eq Blocker_def Let_def pieces.simps zero_ok_def zero_part_def
        zero_diff_def get_zero_out_def form_output_def numeral_eq_Suc)
  ultimately have ch: "bdi_choice init_blocks ?p ?best"
    unfolding bdi_choice_def by (intro bexI[of _ ?nb]) (simp_all add: Blocker_def)
  have n: "bdi_bits ?o 4 2 = 92" by (simp add: bdi_bits_def pieces.simps)
  obtain bs where bs: "convert_output (new_out ?best) (new_used_delta ?best) (new_used_base ?best) = Inr bs"
    using convert_output_block[OF ch demo_tracker init_codes] by blast
  have "bs ! 10 \<in> {0, 255}"
    by (rule bdi_payload_degenerate[OF ch demo_tracker bs]) (use n in simp)
  then show ?thesis using bs by auto
qed

lemma get_int_loop_zeros:
  "rnd53 v = v \<Longrightarrow> to_ll v = Inr v \<Longrightarrow> get_int_loop v (replicate n CHR ''0'' @ cs) = get_int_loop v cs"
  by (induction n) (simp_all add: char_minus0_def)

lemma get_binary_hexa_zeros: "get_binary_hexa (replicate n CHR ''0'') = replicate (4 * n) CHR ''0''"
proof (induction n)
  case (Suc n)
  have "get_binary 0 4 = replicate 4 CHR ''0''" by code_simp
  moreover have "get_binary_hexa (replicate (Suc n) CHR ''0'') =
      get_binary 0 4 @ get_binary_hexa (replicate n CHR ''0'')"
    by (simp add: get_binary_hexa_def hex_value_eqs)
  ultimately show ?case unfolding Suc.IH by (simp only: replicate_add[symmetric] mult_Suc_right)
qed simp

lemma signed_of_hex_Cons:
  "get_binary_hexa s = c # cs \<Longrightarrow> signed_of_hex s = get_int (c # cs) (c = CHR ''1'')"
  by (simp add: signed_of_hex_def)

text \<open>The power of two at either end of the range survives rounding.\<close>

lemma rnd53_powers: "rnd53 (- (2 ^ 63)) = - (2 ^ 63)" "rnd53 (2 ^ 61) = 2 ^ 61" "rnd53 (2 ^ 61 + 1) = 2 ^ 61"
  by (simp_all add: rnd53_def rnd53_nat_def upt_rec)

text \<open>On the double word with only the sign bit set the negation \<open>a * -1\<close> of \<open>convert_base\<close>
  leaves the \<open>long long\<close> range, whatever double word is stored against it.\<close>

theorem bdi_min_double_word_overflows:
  "convert_base (''8'' @ replicate 15 CHR ''0'') (''8'' @ replicate 15 CHR ''0'') 2 =
     Inl Undefined_Behaviour"
proof -
  let ?w = "''8'' @ replicate 15 CHR ''0''"
  have "get_binary 8 4 = ''1000''" by code_simp
  then have e: "get_binary_hexa ''8'' = CHR ''1'' # replicate 3 CHR ''0''"
    by (simp add: get_binary_hexa_def hex_value_eqs numeral_3_eq_3)
  have "get_binary_hexa ?w = (CHR ''1'' # replicate 3 CHR ''0'') @ replicate (4 * 15) CHR ''0''"
    by (subst get_binary_hexa_simps(2), subst e, subst get_binary_hexa_zeros) (rule refl)
  also have "\<dots> = CHR ''1'' # replicate (3 + 4 * 15) CHR ''0''"
    by (simp only: append_Cons replicate_add)
  finally have b: "get_binary_hexa ?w = CHR ''1'' # replicate 63 CHR ''0'' @ []" by simp
  have "get_int_loop (- (2 ^ 63)) (replicate 63 CHR ''0'' @ []) = Inr (- (2 ^ 63))"
    using get_int_loop_zeros[OF rnd53_powers(1), of 63 "[]"] by (simp add: to_ll_def)
  then have "signed_of_hex ?w = Inr (- (2 ^ 63))"
    unfolding signed_of_hex_Cons[OF b] by (simp add: get_int_def to_ll_def del: append_Nil2)
  moreover have "\<exists>v. signed_of_hex (drop (16 - 2) (''8'' @ replicate 15 CHR ''0'')) = Inr v"
    using signed_of_hex_exact[of "drop 14 (''8'' @ replicate 15 CHR ''0'')"] by fastforce
  moreover have "to_ll (- (2 ^ 63) * -1) = Inl Undefined_Behaviour" by (simp add: to_ll_def)
  ultimately show ?thesis by (auto simp: convert_base_def)
qed

text \<open>Rounding shows in the items: a base of more than 53 significant bits is stored with a
  difference from itself that is not zero, so a decoder that adds in exact integers gets another word.\<close>

theorem bdi_rounded_base:
  "convert_base (''2'' @ replicate 14 CHR ''0'' @ ''1'') (''2'' @ replicate 14 CHR ''0'' @ ''1'') 2 =
     Inr (Some ''01'')"
proof -
  let ?w = "''2'' @ replicate 14 CHR ''0'' @ ''1''"
  have g: "get_binary 2 4 = ''0010''" "get_binary (Suc 0) 4 = ''0001''" "get_binary 0 4 = ''0000''"
    by code_simp+
  have e: "get_binary_hexa ''2'' = CHR ''0'' # CHR ''0'' # CHR ''1'' # replicate 1 CHR ''0''"
    "get_binary_hexa ''1'' = replicate 3 CHR ''0'' @ ''1''"
    by (simp_all add: get_binary_hexa_def hex_value_eqs g numeral_3_eq_3)
  have "get_binary_hexa ?w = (CHR ''0'' # CHR ''0'' # CHR ''1'' # replicate 1 CHR ''0'') @
      replicate (4 * 14) CHR ''0'' @ replicate 3 CHR ''0'' @ ''1''"
    by (subst get_binary_hexa_simps(2), subst get_binary_hexa_simps(2), subst e(1), subst e(2),
        subst get_binary_hexa_zeros) (rule refl)
  also have "\<dots> = CHR ''0'' # CHR ''0'' # CHR ''1'' # replicate (1 + (4 * 14 + 3)) CHR ''0'' @ ''1''"
    by (simp only: append_Cons append_Nil append_assoc replicate_add)
  finally have b: "get_binary_hexa ?w = CHR ''0'' # CHR ''0'' # CHR ''1'' # replicate 60 CHR ''0'' @ ''1''"
    by simp
  have "to_ll (2 ^ 61) = Inr (2 ^ 61)" by (simp add: to_ll_def)
  then have "get_int_loop (2 ^ 61) (replicate 60 CHR ''0'' @ ''1'') = Inr (2 ^ 61)"
    using get_int_loop_zeros[OF rnd53_powers(2)] rnd53_powers(3) by (simp add: char_minus0_def)
  moreover have "rnd53 0 = 0" by (rule rnd53_exact) simp_all
  ultimately have a: "signed_of_hex ?w = Inr (2 ^ 61)"
    using rnd53_powers(2) unfolding signed_of_hex_Cons[OF b]
    by (simp add: get_int_def to_ll_def char_minus0_def)
  have d: "drop (16 - 2) ?w = ''01''" by (simp add: numeral_eq_Suc)
  have "get_binary_hexa ''01'' = ''00000001''" by (simp add: get_binary_hexa_def hex_value_eqs g)
  then have "signed_of_hex ''01'' = Inr 1"
    using get_int_exact_pos[of "''00000001''"] by (simp add: signed_of_hex_def is_bit_def)
  moreover have "to_ll (1 + 2 ^ 61 * -1) = Inr (1 - 2 ^ 61)" "to_ll (2 ^ 61 * -1) = Inr (- (2 ^ 61))"
    "to_ll \<bar>1 - 2 ^ 61\<bar> = Inr (2 ^ 61 - 1)" by (simp_all add: to_ll_def)
  moreover have "convert_hexa (1 - 2 ^ 61) 2 = Inr ''01''"
  proof -
    obtain s where s: "convert_hexa (1 - 2 ^ 61) 2 = Inr s"
      by (simp add: convert_hexa_def to_ll_def Let_def)
    note v = convert_hexa_val[OF s]
    have "int (hex_nat s) = 1" unfolding v(3) by simp
    then have "hex_nat s = 1" by simp
    moreover have "hex_digits 2 1 = ''01''" by code_simp
    ultimately show ?thesis using hex_digits_hex_nat[OF v(2)] v(1) s by simp
  qed
  ultimately show ?thesis using a d by (simp add: convert_base_def)
qed

end
