(* ===== verification/Comp_Pipeline.thy ===== *)
theory Comp_Pipeline
  imports Bdi_Run
begin

text \<open>
  The compression pipelines (hpcl_comp_fpc_pl.h, hpcl_comp_bdi_pl.h) and their stage registers
  (hpcl_comp_pl_data.h).  A pipeline is a row of stages, each with an output register that may hold
  a fetch; \<open>run\<close> walks the stages from the last to the first, once a cycle.  The stage that
  compresses is the first; its input register is the pipeline's input.

  \<open>codec\<close> is the \<open>run\<close> of the codec on a fetch, \<open>fpc_run fpc_initialize\<close> or \<open>bdi_run init_blocks\<close>.  The
  fetches are pointers in the code and no other part holds them while they are in the pipeline, so
  that the register holds the fetch itself here.  Flits, the compression ratio and the flags of
  \<open>hpcl_comp_pl_data\<close> are not used by these pipelines, apart from the copy in \<open>set_input\<close>.
\<close>

section \<open>Stage registers\<close>

record ('f, 'a) pl_data =
  m_flit_ptr :: "'f list"
  m_comp_rsl :: int
  m_is_tail_done :: bool
  m_is_comp_done :: bool
  m_mf :: "'a option"

definition clean :: "('f, 'a) pl_data \<Rightarrow> ('f, 'a) pl_data" where
  "clean d = d\<lparr>m_flit_ptr := [], m_comp_rsl := -1, m_is_tail_done := False,
     m_is_comp_done := False, m_mf := None\<rparr>"

definition pl_data_new :: "('f, 'a) pl_data" where
  "pl_data_new = \<lparr>m_flit_ptr = [], m_comp_rsl = -1, m_is_tail_done = False,
     m_is_comp_done = False, m_mf = None\<rparr>"

definition copy :: "('f, 'a) pl_data \<Rightarrow> ('f, 'a) pl_data \<Rightarrow> ('f, 'a) pl_data" where
  "copy d hcpd = d\<lparr>m_flit_ptr := m_flit_ptr hcpd, m_comp_rsl := m_comp_rsl hcpd\<rparr>"

definition add_comp_pl_data :: "('f, 'a) pl_data \<Rightarrow> 'f \<Rightarrow> ('f, 'a) pl_data" where
  "add_comp_pl_data d flit_ptr = d\<lparr>m_flit_ptr := m_flit_ptr d @ [flit_ptr]\<rparr>"

definition get_flit_ptr :: "('f, 'a) pl_data \<Rightarrow> nat \<Rightarrow> 'f option cxx" where
  "get_flit_ptr d index =
     (if m_flit_ptr d = [] then Inr None
      else assertE (index < length (m_flit_ptr d)) (Inr (Some (m_flit_ptr d ! index))))"

definition set_mem_fetch :: "('f, 'a) pl_data \<Rightarrow> 'a option \<Rightarrow> ('f, 'a) pl_data" where
  "set_mem_fetch d mf = d\<lparr>m_mf := mf\<rparr>"

lemma clean_new: "clean d = pl_data_new"
  by (cases d) (simp add: clean_def pl_data_new_def)

lemma m_mf_simps [simp]:
  "m_mf (set_mem_fetch d mf) = mf" "m_mf (clean d) = None" "m_mf pl_data_new = None"
  "m_mf (copy d e) = m_mf d" "m_mf (add_comp_pl_data d f) = m_mf d"
  by (simp_all add: set_mem_fetch_def clean_def pl_data_new_def copy_def add_comp_pl_data_def)

section \<open>The pipelines\<close>

datatype pl_type = PL_NONE | DUMMY | COMP | GET_OUTPUT

record ('f, 'a) comp_pl =
  pl_input :: "('f, 'a) pl_data"
  pl_types :: "pl_type list"
  pl_outputs :: "('f, 'a) pl_data list"
  m_comp_buffer :: "'a list"
  m_comp_buffer_size :: nat

text \<open>
  \<open>create\<close> of the FPC pipeline: the first stage compresses, the last returns, those between pass on.
  With one stage the last assignment wins.  With none, \<open>m_comp_pl_proc[0]\<close> is out of range.
\<close>

definition fpc_types :: "nat \<Rightarrow> pl_type list" where
  "fpc_types n =
     ((foldl (\<lambda>ts i. ts[i := DUMMY]) ((replicate n PL_NONE)[0 := COMP]) [1..<n - 1]))
       [n - 1 := GET_OUTPUT]"

definition fpc_create :: "nat \<Rightarrow> nat \<Rightarrow> ('f, 'a) comp_pl cxx" where
  "fpc_create n comp_buffer_size =
     (if n = 0 then Inl Out_Of_Range
      else Inr \<lparr>pl_input = pl_data_new, pl_types = fpc_types n,
                pl_outputs = replicate n pl_data_new,
                m_comp_buffer = [], m_comp_buffer_size = comp_buffer_size\<rparr>)"

definition bdi_create :: "nat \<Rightarrow> nat \<Rightarrow> ('f, 'a) comp_pl cxx" where
  "bdi_create n comp_buffer_size =
     (if n = 0 then Inl Out_Of_Range
      else Inr \<lparr>pl_input = pl_data_new, pl_types = replicate n PL_NONE,
                pl_outputs = replicate n pl_data_new,
                m_comp_buffer = [], m_comp_buffer_size = comp_buffer_size\<rparr>)"

definition set_input :: "('f, 'a) comp_pl \<Rightarrow> ('f, 'a) pl_data \<Rightarrow> ('f, 'a) comp_pl" where
  "set_input pl input_data = pl\<lparr>pl_input := copy (pl_input pl) input_data\<rparr>"

text \<open>\<open>get_input()->set_mem_fetch(mf)\<close>, the way the simulator feeds the pipeline.\<close>

definition feed :: "('f, 'a) comp_pl \<Rightarrow> 'a option \<Rightarrow> ('f, 'a) comp_pl" where
  "feed pl mf = pl\<lparr>pl_input := set_mem_fetch (pl_input pl) mf\<rparr>"

text \<open>
  The first part of the codec's \<open>run\<close>: the fetch of the input register goes to the output register
  and is compressed in place.  The input register keeps it too, which is the same object.
\<close>

definition proc_run ::
    "('a \<Rightarrow> 'a cxx) \<Rightarrow> ('f, 'a) comp_pl \<Rightarrow> nat \<Rightarrow> ('f, 'a) comp_pl cxx" where
  "proc_run codec pl i =
     (case m_mf (pl_input pl) of
        None \<Rightarrow> Inr (pl\<lparr>pl_outputs := (pl_outputs pl)[i := set_mem_fetch (pl_outputs pl ! i) None]\<rparr>)
      | Some mf \<Rightarrow> bindE (codec mf) (\<lambda>mf'.
          Inr (pl\<lparr>pl_input := set_mem_fetch (pl_input pl) (Some mf'),
                  pl_outputs := (pl_outputs pl)[i := set_mem_fetch (pl_outputs pl ! i) (Some mf')]\<rparr>)))"

definition move_out :: "('f, 'a) comp_pl \<Rightarrow> nat \<Rightarrow> ('f, 'a) comp_pl cxx" where
  "move_out pl i =
     (if i + 1 < length (pl_outputs pl) then
        Inr (pl\<lparr>pl_outputs := (pl_outputs pl)
          [i + 1 := set_mem_fetch (pl_outputs pl ! (i + 1)) (m_mf (pl_outputs pl ! i))]\<rparr>)
      else Inl Out_Of_Range)"

definition clean_out :: "('f, 'a) comp_pl \<Rightarrow> nat \<Rightarrow> ('f, 'a) comp_pl" where
  "clean_out pl i = pl\<lparr>pl_outputs := (pl_outputs pl)[i := clean (pl_outputs pl ! i)]\<rparr>"

text \<open>One stage of \<open>run\<close>; the second component is \<open>ret\<close>.\<close>

definition fpc_stage ::
    "('a \<Rightarrow> 'a cxx) \<Rightarrow> ('f, 'a) comp_pl \<times> 'a option \<Rightarrow> nat \<Rightarrow> (('f, 'a) comp_pl \<times> 'a option) cxx" where
  "fpc_stage codec s i =
     (let pl = fst s; ret = snd s
      in case pl_types pl ! i of
           COMP \<Rightarrow> bindE (proc_run codec pl i) (\<lambda>p1.
                     bindE (move_out p1 i) (\<lambda>p2. Inr (clean_out p2 i, ret)))
         | GET_OUTPUT \<Rightarrow> Inr (clean_out pl i, m_mf (pl_outputs pl ! i))
         | _ \<Rightarrow> bindE (if m_mf (pl_outputs pl ! i) = None then Inr pl else move_out pl i)
                  (\<lambda>p1. Inr (clean_out p1 i, ret)))"

definition fpc_pl_run ::
    "('a \<Rightarrow> 'a cxx) \<Rightarrow> ('f, 'a) comp_pl \<Rightarrow> (('f, 'a) comp_pl \<times> 'a option) cxx" where
  "fpc_pl_run codec pl =
     foldE (fpc_stage codec) (pl, None) (rev [0..<length (pl_outputs pl)])"

definition bdi_stage ::
    "('a \<Rightarrow> 'a cxx) \<Rightarrow> ('f, 'a) comp_pl \<times> 'a option \<Rightarrow> nat \<Rightarrow> (('f, 'a) comp_pl \<times> 'a option) cxx" where
  "bdi_stage codec s i =
     (let pl = fst s; ret = snd s
      in if i = 0 then bindE (proc_run codec pl i) (\<lambda>p1.
                         bindE (move_out p1 i) (\<lambda>p2. Inr (clean_out p2 i, ret)))
         else Inr (clean_out pl i, m_mf (pl_outputs pl ! i)))"

definition bdi_pl_run ::
    "('a \<Rightarrow> 'a cxx) \<Rightarrow> ('f, 'a) comp_pl \<Rightarrow> (('f, 'a) comp_pl \<times> 'a option) cxx" where
  "bdi_pl_run codec pl =
     foldE (bdi_stage codec) (pl, None) (rev [0..<length (pl_outputs pl)])"

text \<open>The buffer of compressed fetches.  \<open>erase(begin())\<close> of an empty vector is undefined.\<close>

definition top_compressed_mem_fetch :: "('f, 'a) comp_pl \<Rightarrow> 'a option" where
  "top_compressed_mem_fetch pl = (case m_comp_buffer pl of [] \<Rightarrow> None | mf # _ \<Rightarrow> Some mf)"

definition pop_compressed_mem_fetch :: "('f, 'a) comp_pl \<Rightarrow> ('f, 'a) comp_pl cxx" where
  "pop_compressed_mem_fetch pl =
     (case m_comp_buffer pl of [] \<Rightarrow> Inl Undefined_Behaviour
      | _ # ms \<Rightarrow> Inr (pl\<lparr>m_comp_buffer := ms\<rparr>))"

definition has_comp_buffer_space :: "('f, 'a) comp_pl \<Rightarrow> bool" where
  "has_comp_buffer_space pl = (\<not> m_comp_buffer_size pl \<le> length (m_comp_buffer pl))"

section \<open>What one run does to the registers\<close>

definition held :: "('f, 'a) comp_pl \<Rightarrow> 'a option list" where
  "held pl = map m_mf (pl_outputs pl)"

definition same_frame :: "('f, 'a) comp_pl \<Rightarrow> ('f, 'a) comp_pl \<Rightarrow> bool" where
  "same_frame p q \<longleftrightarrow> pl_types q = pl_types p \<and> length (pl_outputs q) = length (pl_outputs p)"

lemma same_frame_simps [simp]:
  "same_frame p p"
  "same_frame p (clean_out q i) \<longleftrightarrow> same_frame p q"
  "same_frame p (feed q x) \<longleftrightarrow> same_frame p q"
  "same_frame (feed p x) q \<longleftrightarrow> same_frame p q"
  by (simp_all add: same_frame_def clean_out_def feed_def)

lemma same_frame_trans: "same_frame p q \<Longrightarrow> same_frame q r \<Longrightarrow> same_frame p r"
  by (simp add: same_frame_def)

lemma held_simps [simp]:
  "length (held pl) = length (pl_outputs pl)"
  "held (clean_out pl i) = (held pl)[i := None]"
  "held (feed pl x) = held pl"
  "pl_input (clean_out pl i) = pl_input pl"
  by (simp_all add: held_def clean_out_def feed_def map_update)

lemma m_mf_held: "i < length (pl_outputs pl) \<Longrightarrow> m_mf (pl_outputs pl ! i) = held pl ! i"
  by (simp add: held_def)

lemma move_out_ok:
  assumes "i + 1 < length (pl_outputs pl)"
  shows "\<exists>q. move_out pl i = Inr q \<and> same_frame pl q \<and> held q = (held pl)[i + 1 := held pl ! i] \<and>
    pl_input q = pl_input pl"
  using assms by (simp add: move_out_def same_frame_def held_def map_update)

lemma proc_run_ok:
  assumes "i < length (pl_outputs pl)"
    and "\<And>x. m_mf (pl_input pl) = Some x \<Longrightarrow> codec x = Inr (C x)"
  shows "\<exists>q. proc_run codec pl i = Inr q \<and> same_frame pl q \<and>
    held q = (held pl)[i := map_option C (m_mf (pl_input pl))]"
  using assms(2)
  by (cases "m_mf (pl_input pl)") (simp_all add: proc_run_def same_frame_def held_def map_update)

text \<open>The stages that only pass on shift their registers by one.\<close>

lemma dummy_stages:
  assumes "\<forall>i \<in> {1..k}. pl_types pl ! i = DUMMY" and "k + 1 < length (pl_outputs pl)"
    and "held pl ! (k + 1) = None"
  shows "\<exists>q. foldE (fpc_stage codec) (pl, ret) (rev [1..<Suc k]) = Inr (q, ret) \<and> same_frame pl q \<and>
    pl_input q = pl_input pl \<and>
    held q = (if k = 0 then held pl
      else take 1 (held pl) @ None # take k (drop 1 (held pl)) @ drop (k + 2) (held pl))"
  using assms
proof (induction k arbitrary: pl)
  case (Suc k)
  let ?i = "Suc k" and ?h = "held pl"
  have dum: "pl_types pl ! ?i = DUMMY" using Suc.prems(1) by simp
  have len: "?i + 1 < length (pl_outputs pl)" using Suc.prems(2) by simp
  obtain q where q: "fpc_stage codec (pl, ret) ?i = Inr (q, ret)" "same_frame pl q"
    "pl_input q = pl_input pl" "held q = (?h[?i + 1 := ?h ! ?i])[?i := None]"
  proof (cases "m_mf (pl_outputs pl ! ?i) = None")
    case True
    then have "?h ! ?i = None" using len by (simp add: m_mf_held)
    then have "?h[?i + 1 := ?h ! ?i] = ?h" using Suc.prems(3) by (metis Suc_eq_plus1 list_update_id)
    then show ?thesis using True dum that[of "clean_out pl ?i"] by (simp add: fpc_stage_def)
  next
    case False
    obtain r where r: "move_out pl ?i = Inr r" "same_frame pl r" "held r = ?h[?i + 1 := ?h ! ?i]"
      "pl_input r = pl_input pl" using move_out_ok[OF len] by auto
    have "fpc_stage codec (pl, ret) ?i = Inr (clean_out r ?i, ret)"
      using False dum r(1) by (simp add: fpc_stage_def del: not_None_eq)
    then show ?thesis using r that[of "clean_out r ?i"] by simp
  qed
  have "held q ! (k + 1) = None" using q(4) len by simp
  moreover have "k + 1 < length (pl_outputs q)" using q(2) len by (simp add: same_frame_def)
  moreover have "\<forall>i \<in> {1..k}. pl_types q ! i = DUMMY" using q(2) Suc.prems(1) by (simp add: same_frame_def)
  ultimately obtain q' where q': "foldE (fpc_stage codec) (q, ret) (rev [1..<Suc k]) = Inr (q', ret)"
    "same_frame q q'" "pl_input q' = pl_input q"
    "held q' = (if k = 0 then held q
      else take 1 (held q) @ None # take k (drop 1 (held q)) @ drop (k + 2) (held q))"
    using Suc.IH by blast
  have "held q' = take 1 ?h @ None # take ?i (drop 1 ?h) @ drop (?i + 2) ?h"
  proof (rule nth_equalityI)
    show "length (held q') = length (take 1 ?h @ None # take ?i (drop 1 ?h) @ drop (?i + 2) ?h)"
      using q'(2) q(2) len by (auto simp: same_frame_def)
    fix j assume "j < length (held q')"
    then have j: "j < length (pl_outputs pl)" using q'(2) q(2) by (simp add: same_frame_def)
    show "held q' ! j = (take 1 ?h @ None # take ?i (drop 1 ?h) @ drop (?i + 2) ?h) ! j"
    proof -
      consider "j = 0" | "j = 1" | i where "j = Suc (Suc i)" by (metis One_nat_def not0_implies_Suc)
      then show ?thesis
        using j len
        by cases (auto simp: q'(4) q(4) nth_append nth_Cons nth_list_update min_def less_Suc_eq
            split: nat.split)
    qed
  qed
  moreover have "foldE (fpc_stage codec) (pl, ret) (rev [1..<Suc ?i]) = Inr (q', ret)"
    using q(1) q'(1) by simp
  ultimately show ?case using same_frame_trans[OF q(2) q'(2)] q(3) q'(3) by auto
qed simp

text \<open>The first stage, for both pipelines.\<close>

definition first_stage :: "('a \<Rightarrow> 'a cxx) \<Rightarrow> ('f, 'a) comp_pl \<Rightarrow> ('f, 'a) comp_pl cxx" where
  "first_stage codec pl = bindE (proc_run codec pl 0) (\<lambda>p1.
     bindE (move_out p1 0) (\<lambda>p2. Inr (clean_out p2 0)))"

lemma first_stage_ok:
  assumes "1 < length (pl_outputs pl)" and "\<And>x. m_mf (pl_input pl) = Some x \<Longrightarrow> codec x = Inr (C x)"
  shows "\<exists>q. first_stage codec pl = Inr q \<and> same_frame pl q \<and>
    held q = (held pl)[0 := None, 1 := map_option C (m_mf (pl_input pl))]"
proof -
  obtain a b r where h: "held pl = a # b # r"
    using assms(1) held_simps(1)[of pl] by (metis One_nat_def length_0_conv less_nat_zero_code
        list.exhaust list.size(3,4) add_0 less_irrefl_nat plus_1_eq_Suc)
  obtain p1 where p1: "proc_run codec pl 0 = Inr p1" "same_frame pl p1"
    "held p1 = (held pl)[0 := map_option C (m_mf (pl_input pl))]"
    using proc_run_ok[of 0 pl codec C, OF less_trans[OF zero_less_one assms(1)] assms(2)] by blast
  have l: "0 + 1 < length (pl_outputs p1)" using p1(2) assms(1) by (simp add: same_frame_def)
  obtain p2 where p2: "move_out p1 0 = Inr p2" "same_frame p1 p2"
    "held p2 = (held p1)[0 + 1 := held p1 ! 0]"
    using move_out_ok[OF l] by blast
  have "same_frame pl p2" using p1(2) p2(2) by (rule same_frame_trans)
  moreover have "held p2 = (held pl)[0 := map_option C (m_mf (pl_input pl)),
      1 := map_option C (m_mf (pl_input pl))]"
    using p2(3) p1(3) by (simp add: h)
  then have "(held p2)[0 := None] = (held pl)[0 := None, 1 := map_option C (m_mf (pl_input pl))]"
    by (simp add: h)
  ultimately show ?thesis using p1(1) p2(1) by (simp add: first_stage_def)
qed

lemma fpc_stage_first:
  "pl_types pl ! 0 = COMP \<Longrightarrow>
     fpc_stage codec (pl, ret) 0 = bindE (first_stage codec pl) (\<lambda>q. Inr (q, ret))"
  by (cases "proc_run codec pl 0")
    (auto simp: fpc_stage_def first_stage_def split: sum.splits elim: bindE_Inr_E
      simp: bindE_def)

lemma bdi_stage_first:
  "bdi_stage codec (pl, ret) 0 = bindE (first_stage codec pl) (\<lambda>q. Inr (q, ret))"
  by (cases "proc_run codec pl 0")
    (auto simp: bdi_stage_def first_stage_def bindE_def split: sum.splits)

lemma fpc_types_nth:
  assumes "2 \<le> n"
  shows "length (fpc_types n) = n" and "fpc_types n ! 0 = COMP"
    and "\<forall>i \<in> {1..n - 2}. fpc_types n ! i = DUMMY" and "fpc_types n ! (n - 1) = GET_OUTPUT"
proof -
  have P: "length (foldl (\<lambda>ts i. ts[i := DUMMY]) ts [1..<m]) = length ts \<and>
      (\<forall>i < length ts. foldl (\<lambda>ts i. ts[i := DUMMY]) ts [1..<m] ! i =
         (if 1 \<le> i \<and> i < m then DUMMY else ts ! i))" for m ts
    by (induction m) (auto simp: nth_list_update less_Suc_eq)
  let ?ts = "(replicate n PL_NONE)[0 := COMP]"
  show l: "length (fpc_types n) = n" using P[of ?ts "n - 1"] by (simp add: fpc_types_def)
  show "fpc_types n ! 0 = COMP" using P[of ?ts "n - 1"] assms by (simp add: fpc_types_def)
  show "\<forall>i \<in> {1..n - 2}. fpc_types n ! i = DUMMY"
    using P[of ?ts "n - 1"] assms by (auto simp: fpc_types_def)
  show "fpc_types n ! (n - 1) = GET_OUTPUT" using P[of ?ts "n - 1"] assms by (simp add: fpc_types_def)
qed

text \<open>The fetches under way, the next to leave first.\<close>

definition flight :: "('f, 'a) comp_pl \<Rightarrow> 'a option list" where
  "flight pl = rev (tl (held pl))"

definition fpc_ready :: "nat \<Rightarrow> ('f, 'a) comp_pl \<Rightarrow> bool" where
  "fpc_ready n pl \<longleftrightarrow> 2 \<le> n \<and> pl_types pl = fpc_types n \<and> length (pl_outputs pl) = n \<and>
     held pl ! 0 = None"

lemma fpc_pl_run_shift:
  assumes "fpc_ready n pl" and "\<And>x. m_mf (pl_input pl) = Some x \<Longrightarrow> codec x = Inr (C x)"
  shows "\<exists>q. fpc_pl_run codec pl = Inr (q, hd (flight pl)) \<and> fpc_ready n q \<and>
    flight q = tl (flight pl) @ [map_option C (m_mf (pl_input pl))]"
proof -
  obtain k where n: "n = Suc (Suc k)"
    using assms(1) by (auto simp: fpc_ready_def dest: le_Suc_ex)
  note ty = fpc_types_nth[of n]
  have pl: "pl_types pl = fpc_types n" "length (pl_outputs pl) = n" "held pl ! 0 = None"
    using assms(1) by (auto simp: fpc_ready_def)
  let ?h = "held pl" and ?x = "map_option C (m_mf (pl_input pl))"
  have last: "fpc_stage codec (pl, None) (Suc k) = Inr (clean_out pl (Suc k), ?h ! Suc k)"
    using ty(4) n pl by (simp add: fpc_stage_def m_mf_held)
  let ?p = "clean_out pl (Suc k)"
  obtain p1 where p1: "foldE (fpc_stage codec) (?p, ?h ! Suc k) (rev [1..<Suc k]) = Inr (p1, ?h ! Suc k)"
    "same_frame ?p p1" "pl_input p1 = pl_input pl"
    "held p1 = (if k = 0 then held ?p
       else take 1 (held ?p) @ None # take k (drop 1 (held ?p)) @ drop (k + 2) (held ?p))"
  proof -
    have "\<forall>i \<in> {1..k}. pl_types ?p ! i = DUMMY" using ty(3) n pl by (simp add: clean_out_def)
    moreover have "k + 1 < length (pl_outputs ?p)" "held ?p ! (k + 1) = None"
      using n pl by (simp_all add: clean_out_def held_def)
    ultimately show ?thesis using dummy_stages[of k ?p codec "?h ! Suc k"] that by auto
  qed
  obtain a hs where h: "?h = a # hs" "length hs = Suc k" "a = None"
    using pl n by (cases ?h) (auto simp: held_def)
  have h1: "held p1 = None # None # take k hs"
    using p1(4) h by (cases "k = 0") (auto simp: length_Suc_conv take_update_swap list_update_append list_update_beyond)
  have f1: "pl_types p1 = fpc_types n" "length (pl_outputs p1) = n"
    using p1(2) pl by (simp_all add: same_frame_def clean_out_def)
  obtain q where q: "first_stage codec p1 = Inr q" "same_frame p1 q"
    "held q = (held p1)[0 := None, 1 := ?x]"
  proof -
    have "1 < length (pl_outputs p1)" using f1 n by simp
    moreover have "\<And>x. m_mf (pl_input p1) = Some x \<Longrightarrow> codec x = Inr (C x)" using assms(2) p1(3) by simp
    ultimately show ?thesis using first_stage_ok[of p1 codec C] that p1(3) by metis
  qed
  have "[0..<Suc k] = 0 # [1..<Suc k]" by (simp add: upt_conv_Cons del: upt_Suc)
  moreover have "rev [0..<n] = Suc k # rev [0..<Suc k]" by (simp add: n)
  ultimately have "rev [0..<n] = Suc k # rev [1..<Suc k] @ [0]" by (simp only: rev.simps)
  then have "fpc_pl_run codec pl = Inr (q, ?h ! Suc k)"
    using last p1(1) q(1) fpc_stage_first[of p1 codec "?h ! Suc k"] f1 ty(2) n pl(2)
    by (simp add: fpc_pl_run_def foldE_append)
  moreover have "hd (flight pl) = ?h ! Suc k"
    using h by (simp add: flight_def hd_rev last_conv_nth) (metis diff_Suc_1 last_conv_nth length_0_conv nat.distinct(1))
  moreover have "flight q = tl (flight pl) @ [?x]"
  proof -
    have "tl (rev hs) = rev (take k hs)"
      using h(2) by (cases hs rule: rev_cases) auto
    then show ?thesis using q(3) h1 h by (simp add: flight_def)
  qed
  moreover have "fpc_ready n q"
    using q(2,3) f1 h1 assms(1) by (simp add: fpc_ready_def same_frame_def)
  ultimately show ?thesis by auto
qed

text \<open>
  The pipeline of the base-delta codec: whatever the number of stages, only the register of stage 1
  is ever filled.
\<close>

definition bdi_ready :: "nat \<Rightarrow> ('f, 'a) comp_pl \<Rightarrow> bool" where
  "bdi_ready n pl \<longleftrightarrow> 2 \<le> n \<and> length (pl_outputs pl) = n \<and>
     (\<forall>i < n. i \<noteq> 1 \<longrightarrow> held pl ! i = None)"

definition bdi_flight :: "('f, 'a) comp_pl \<Rightarrow> 'a option list" where
  "bdi_flight pl = [held pl ! 1]"

lemma bdi_back_stages:
  assumes "k < length (pl_outputs pl)"
  shows "\<exists>q. foldE (bdi_stage codec) (pl, ret) (rev [1..<Suc k]) =
      Inr (q, if k = 0 then ret else held pl ! 1) \<and>
    same_frame pl q \<and> pl_input q = pl_input pl \<and>
    held q = take 1 (held pl) @ replicate k None @ drop (Suc k) (held pl)"
  using assms
proof (induction k arbitrary: pl ret)
  case 0
  then show ?case using append_take_drop_id[of 1 "held pl"] by simp
next
  case (Suc k)
  let ?p = "clean_out pl (Suc k)"
  have s: "bdi_stage codec (pl, ret) (Suc k) = Inr (?p, held pl ! Suc k)"
    using Suc.prems by (simp add: bdi_stage_def m_mf_held)
  have "k < length (pl_outputs ?p)" using Suc.prems by (simp add: clean_out_def)
  then obtain q where q: "foldE (bdi_stage codec) (?p, held pl ! Suc k) (rev [1..<Suc k]) =
      Inr (q, if k = 0 then held pl ! Suc k else held ?p ! 1)" "same_frame ?p q" "pl_input q = pl_input ?p"
    "held q = take 1 (held ?p) @ replicate k None @ drop (Suc k) (held ?p)"
    using Suc.IH by blast
  have "drop (Suc k) ((held pl)[Suc k := None]) = None # drop (Suc (Suc k)) (held pl)"
    using Suc.prems by (subst drop_update_swap) (simp_all add: Cons_nth_drop_Suc[symmetric])
  then have "held q = take 1 (held pl) @ replicate (Suc k) None @ drop (Suc (Suc k)) (held pl)"
    using q(4) by (simp add: take_update_swap list_update_beyond replicate_append_same)
  moreover have "same_frame pl q" using q(2) by (simp add: same_frame_def clean_out_def)
  moreover have "pl_input q = pl_input pl" using q(3) by simp
  moreover have "foldE (bdi_stage codec) (pl, ret) (rev [1..<Suc (Suc k)]) = Inr (q, held pl ! 1)"
    using s q(1) by (cases k) simp_all
  ultimately show ?case by simp
qed

lemma bdi_pl_run_shift:
  assumes "bdi_ready n pl" and "\<And>x. m_mf (pl_input pl) = Some x \<Longrightarrow> codec x = Inr (C x)"
  shows "\<exists>q. bdi_pl_run codec pl = Inr (q, hd (bdi_flight pl)) \<and> bdi_ready n q \<and>
    bdi_flight q = tl (bdi_flight pl) @ [map_option C (m_mf (pl_input pl))]"
proof -
  obtain k where n: "n = Suc (Suc k)"
    using assms(1) by (auto simp: bdi_ready_def dest: le_Suc_ex)
  have pl: "length (pl_outputs pl) = n" "\<forall>i < n. i \<noteq> 1 \<longrightarrow> held pl ! i = None"
    using assms(1) by (auto simp: bdi_ready_def)
  let ?x = "map_option C (m_mf (pl_input pl))"
  have l: "Suc k < length (pl_outputs pl)" using pl n by simp
  obtain p where p: "foldE (bdi_stage codec) (pl, None) (rev [1..<Suc (Suc k)]) = Inr (p, held pl ! 1)"
    "same_frame pl p" "pl_input p = pl_input pl"
    "held p = take 1 (held pl) @ replicate (Suc k) None @ drop (Suc (Suc k)) (held pl)"
    using bdi_back_stages[OF l, of codec None] by auto
  have hp: "held p = replicate n None"
    using p(4) pl n by (cases "held pl") (auto simp: held_def)
  have lp: "length (pl_outputs p) = n" using p(2) pl by (simp add: same_frame_def)
  obtain q where q: "first_stage codec p = Inr q" "same_frame p q" "held q = (held p)[0 := None, 1 := ?x]"
  proof -
    have "1 < length (pl_outputs p)" using lp n by simp
    moreover have "\<And>x. m_mf (pl_input p) = Some x \<Longrightarrow> codec x = Inr (C x)" using assms(2) p(3) by simp
    ultimately show ?thesis using first_stage_ok[of p codec C] that p(3) by metis
  qed
  have "[0..<n] = 0 # [1..<n]" using n by (simp add: upt_conv_Cons del: upt_Suc)
  then have "bdi_pl_run codec pl = Inr (q, held pl ! 1)"
    using p(1) q(1) bdi_stage_first[of codec p "held pl ! 1"] pl n
    by (simp add: bdi_pl_run_def foldE_append del: upt_Suc)
  moreover have "bdi_ready n q"
    using q(2,3) hp lp n by (auto simp: bdi_ready_def same_frame_def nth_Cons' nth_list_update)
  moreover have "bdi_flight q = [?x]" using q(3) hp n by (simp add: bdi_flight_def)
  ultimately show ?thesis by (auto simp: bdi_flight_def)
qed

section \<open>Delay lines\<close>

text \<open>
  The contract of a pipeline: a cycle that is fed an input the codec accepts hands out the head of
  the fetches under way and queues the compressed input at their end.
\<close>

locale delay_line =
  fixes cycle :: "'s \<Rightarrow> 'a option \<Rightarrow> ('s \<times> 'a option) cxx"
    and inv :: "'s \<Rightarrow> bool" and under_way :: "'s \<Rightarrow> 'a option list"
    and codec :: "'a \<Rightarrow> 'a cxx"
  assumes cycle_shift: "\<And>s x C. inv s \<Longrightarrow> (\<And>a. x = Some a \<Longrightarrow> codec a = Inr (C a)) \<Longrightarrow>
      \<exists>t. cycle s x = Inr (t, hd (under_way s)) \<and> inv t \<and>
        under_way t = tl (under_way s) @ [map_option C x]"
    and under_way_ne: "inv s \<Longrightarrow> under_way s \<noteq> []"

fun cycles :: "('s \<Rightarrow> 'a option \<Rightarrow> ('s \<times> 'a option) cxx) \<Rightarrow> 's \<Rightarrow> 'a option list \<Rightarrow> ('s \<times> 'a option list) cxx" where
  "cycles cycle s [] = Inr (s, [])"
| "cycles cycle s (x # xs) =
     bindE (cycle s x) (\<lambda>r. bindE (cycles cycle (fst r) xs) (\<lambda>q. Inr (fst q, snd r # snd q)))"

context delay_line begin

lemma cycles_delay:
  assumes "inv s" and "\<And>a. Some a \<in> set xs \<Longrightarrow> codec a = Inr (C a)"
  shows "\<exists>t. cycles cycle s xs =
      Inr (t, take (length xs) (under_way s @ map (map_option C) xs)) \<and> inv t \<and>
    under_way t = drop (length xs) (under_way s @ map (map_option C) xs)"
  using assms
proof (induction xs arbitrary: s)
  case (Cons x xs)
  obtain t where t: "cycle s x = Inr (t, hd (under_way s))" "inv t"
    "under_way t = tl (under_way s) @ [map_option C x]"
    using cycle_shift[OF Cons.prems(1), of x C] Cons.prems(2) by auto
  obtain u us where s: "under_way s = u # us" using under_way_ne[OF Cons.prems(1)] by (cases "under_way s") auto
  have "\<And>a. Some a \<in> set xs \<Longrightarrow> codec a = Inr (C a)" using Cons.prems(2) by simp
  from Cons.IH[OF t(2) this] t(1,3) show ?case by (auto simp: s)
qed simp

end

definition fpc_cycle :: "('f, mem_fetch) comp_pl \<Rightarrow> mem_fetch option \<Rightarrow> (('f, mem_fetch) comp_pl \<times> mem_fetch option) cxx" where
  "fpc_cycle pl x = fpc_pl_run (fpc_run fpc_initialize) (feed pl x)"

definition bdi_cycle :: "('f, mem_fetch) comp_pl \<Rightarrow> mem_fetch option \<Rightarrow> (('f, mem_fetch) comp_pl \<times> mem_fetch option) cxx" where
  "bdi_cycle pl x = bdi_pl_run (bdi_run init_blocks) (feed pl x)"

lemma feed_ready:
  "fpc_ready n (feed pl x) \<longleftrightarrow> fpc_ready n pl" "flight (feed pl x) = flight pl"
  "bdi_ready n (feed pl x) \<longleftrightarrow> bdi_ready n pl" "bdi_flight (feed pl x) = bdi_flight pl"
  "m_mf (pl_input (feed pl x)) = x"
  by (simp_all add: fpc_ready_def flight_def bdi_ready_def bdi_flight_def held_def)
    (simp_all add: feed_def)

interpretation fpc_line: delay_line fpc_cycle "\<lambda>pl. \<exists>n. fpc_ready n pl" flight "fpc_run fpc_initialize"
proof unfold_locales
  fix s :: "('f, mem_fetch) comp_pl" and x and C :: "mem_fetch \<Rightarrow> mem_fetch"
  assume "\<exists>n. fpc_ready n s" and c: "\<And>a. x = Some a \<Longrightarrow> fpc_run fpc_initialize a = Inr (C a)"
  then obtain n where "fpc_ready n (feed s x)" by (auto simp: feed_ready)
  from fpc_pl_run_shift[OF this, of "fpc_run fpc_initialize" C] c
  show "\<exists>t. fpc_cycle s x = Inr (t, hd (flight s)) \<and> (\<exists>n. fpc_ready n t) \<and>
      flight t = tl (flight s) @ [map_option C x]"
    by (auto simp: fpc_cycle_def feed_ready)
next
  fix s :: "('f, mem_fetch) comp_pl"
  assume "\<exists>n. fpc_ready n s"
  then have "0 < length (flight s)" by (auto simp: fpc_ready_def flight_def held_def)
  then show "flight s \<noteq> []" by simp
qed

interpretation bdi_line: delay_line bdi_cycle "\<lambda>pl. \<exists>n. bdi_ready n pl" bdi_flight "bdi_run init_blocks"
proof unfold_locales
  fix s :: "('f, mem_fetch) comp_pl" and x and C :: "mem_fetch \<Rightarrow> mem_fetch"
  assume "\<exists>n. bdi_ready n s" and c: "\<And>a. x = Some a \<Longrightarrow> bdi_run init_blocks a = Inr (C a)"
  then obtain n where "bdi_ready n (feed s x)" by (auto simp: feed_ready)
  from bdi_pl_run_shift[OF this, of "bdi_run init_blocks" C] c
  show "\<exists>t. bdi_cycle s x = Inr (t, hd (bdi_flight s)) \<and> (\<exists>n. bdi_ready n t) \<and>
      bdi_flight t = tl (bdi_flight s) @ [map_option C x]"
    by (auto simp: bdi_cycle_def feed_ready)
qed (simp add: bdi_flight_def)

text \<open>A new pipeline holds nothing.\<close>

lemma fpc_create_flight:
  assumes "fpc_create n bufsz = Inr pl" and "2 \<le> n"
  shows "fpc_ready n pl" and "flight pl = replicate (n - 1) None"
  using assms by (auto simp: fpc_create_def fpc_ready_def flight_def held_def map_replicate_const split: if_splits)

lemma bdi_create_flight:
  assumes "bdi_create n bufsz = Inr pl" and "2 \<le> n"
  shows "bdi_ready n pl" and "bdi_flight pl = [None]"
  using assms by (auto simp: bdi_create_def bdi_ready_def bdi_flight_def held_def split: if_splits)

text \<open>Claim C5. The FPC pipeline of \<open>n\<close> stages is a delay line of \<open>n - 1\<close> cycles: from a new pipeline, fed
  one fetch or nothing in every cycle, it hands out nothing for \<open>n - 1\<close> cycles and then the inputs,
  compressed, in order.\<close>

theorem fpc_pipeline_delay:
  assumes "fpc_create n bufsz = Inr (pl :: ('f, mem_fetch) comp_pl)" and "2 \<le> n"
    and "\<And>mf. Some mf \<in> set xs \<Longrightarrow> fpc_run fpc_initialize mf = Inr (C mf)"
  shows "\<exists>pl'. cycles fpc_cycle pl xs =
    Inr (pl', take (length xs) (replicate (n - 1) None @ map (map_option C) xs))"
proof -
  note c = fpc_create_flight[OF assms(1,2)]
  then have "\<exists>n. fpc_ready n pl" by blast
  from fpc_line.cycles_delay[OF this assms(3)] c(2) show ?thesis by auto
qed

theorem fpc_pipeline_delay_witness:
  "\<exists>pl pl' mf'. fpc_create 3 1 = Inr (pl :: (unit, mem_fetch) comp_pl) \<and>
     fpc_run fpc_initialize (demo_fetch [1, 0, 0, 0]) = Inr mf' \<and>
     cycles fpc_cycle pl [Some (demo_fetch [1, 0, 0, 0]), None, None] =
       Inr (pl', [None, None, Some mf'])"
proof -
  have "decompose_words (m_real_data (demo_fetch [1, 0, 0, 0])) = Inr [1]"
    by (simp add: demo_fetch_def word_of_bytes_def)
  then obtain mf' where mf: "fpc_run fpc_initialize (demo_fetch [1, 0, 0, 0]) = Inr mf'"
    using fpc_run_ok by blast
  obtain pl :: "(unit, mem_fetch) comp_pl" where pl: "fpc_create 3 1 = Inr pl"
    by (simp add: fpc_create_def)
  from fpc_pipeline_delay[OF pl, of "[Some (demo_fetch [1, 0, 0, 0]), None, None]" "\<lambda>_. mf'"] mf pl
  show ?thesis by (auto simp: numeral_eq_Suc)
qed

text \<open>The pipeline of the base-delta codec hands a fetch out in the next cycle whatever number of
  stages it was created with (two or more): the stage count does not model its latency.\<close>

theorem bdi_pipeline_delay:
  assumes "bdi_create n bufsz = Inr (pl :: ('f, mem_fetch) comp_pl)" and "2 \<le> n"
    and "\<And>mf. Some mf \<in> set xs \<Longrightarrow> bdi_run init_blocks mf = Inr (C mf)"
  shows "\<exists>pl'. cycles bdi_cycle pl xs =
    Inr (pl', take (length xs) (None # map (map_option C) xs))"
proof -
  note c = bdi_create_flight[OF assms(1,2)]
  then have "\<exists>n. bdi_ready n pl" by blast
  from bdi_line.cycles_delay[OF this assms(3)] c(2) show ?thesis by auto
qed

theorem bdi_pipeline_delay_witness:
  "\<exists>pl pl' mf'. bdi_create 5 1 = Inr (pl :: (unit, mem_fetch) comp_pl) \<and>
     bdi_run init_blocks (demo_fetch demo_line) = Inr mf' \<and>
     cycles bdi_cycle pl [Some (demo_fetch demo_line), None] = Inr (pl', [None, Some mf'])"
proof -
  obtain mf' where mf: "bdi_run init_blocks (demo_fetch demo_line) = Inr mf'"
    using demo_line_run by blast
  obtain pl :: "(unit, mem_fetch) comp_pl" where pl: "bdi_create 5 1 = Inr pl"
    by (simp add: bdi_create_def)
  from bdi_pipeline_delay[OF pl, of "[Some (demo_fetch demo_line), None]" "\<lambda>_. mf'"] mf pl
  show ?thesis by auto
qed

text \<open>A pipeline of one stage never compresses: FPC's only stage is a return stage, which never
  sees the input, and the base-delta stage writes past the end of the stages.\<close>

theorem one_stage_pipelines:
  "(\<exists>pl pl'. fpc_create 1 bufsz = Inr (pl :: ('f, mem_fetch) comp_pl) \<and>
     cycles fpc_cycle pl xs = Inr (pl', replicate (length xs) None)) \<and>
   (\<exists>pl. bdi_create 1 bufsz = Inr (pl :: ('f, mem_fetch) comp_pl) \<and>
     bdi_cycle pl None = Inl Out_Of_Range)"
proof (rule conjI)
  let ?ok = "\<lambda>pl :: ('f, mem_fetch) comp_pl. pl_types pl = [GET_OUTPUT] \<and> held pl = [None]"
  have step: "\<exists>q. fpc_cycle pl x = Inr (q, None) \<and> ?ok q" if "?ok pl" for pl x
  proof -
    have l: "length (pl_outputs pl) = 1" using that by (auto simp: held_def)
    then have "fpc_cycle pl x = Inr (clean_out (feed pl x) 0, None)"
      using that m_mf_held[of 0 pl]
      by (simp add: fpc_cycle_def fpc_pl_run_def feed_def fpc_stage_def)
    moreover have "held (clean_out (feed pl x) 0) = [None]" using that by simp
    moreover have "pl_types (clean_out (feed pl x) 0) = [GET_OUTPUT]"
      using that by (simp add: clean_out_def feed_def)
    ultimately show ?thesis by blast
  qed
  have run: "\<exists>q. cycles fpc_cycle pl xs = Inr (q, replicate (length xs) None)" if "?ok pl" for pl
    using that
  proof (induction xs arbitrary: pl)
    case (Cons x xs)
    from step[OF Cons.prems, of x] Cons.IH show ?case by fastforce
  qed simp
  have "?ok \<lparr>pl_input = pl_data_new, pl_types = fpc_types 1, pl_outputs = replicate 1 pl_data_new,
      m_comp_buffer = [], m_comp_buffer_size = bufsz\<rparr>"
    by (simp add: fpc_types_def held_def)
  from run[OF this]
  show "\<exists>pl pl'. fpc_create 1 bufsz = Inr (pl :: ('f, mem_fetch) comp_pl) \<and>
      cycles fpc_cycle pl xs = Inr (pl', replicate (length xs) None)"
    by (simp add: fpc_create_def)
  show "\<exists>pl. bdi_create 1 bufsz = Inr (pl :: ('f, mem_fetch) comp_pl) \<and>
      bdi_cycle pl None = Inl Out_Of_Range"
    by (simp add: bdi_create_def bdi_cycle_def bdi_pl_run_def bdi_stage_def feed_def
        proc_run_def set_mem_fetch_def move_out_def)
qed

end
