(* ===== verification/Cpack_Pipeline.thy ===== *)
theory Cpack_Pipeline
  imports Cpack_Correct Comp_Pipeline
begin

text \<open>
  The C-PACK pipeline (hpcl_comp_cpack_pl.h): a row of stages as in the other pipelines, with a local dictionary per
  stage and the global one.  The words that a line adds go to the global dictionary in the cycle in which the line is
  compressed.  \<open>iter\<close> is the order in which an \<open>unordered_set\<close> is walked: the order of the standard library, of which
  the proofs only use that it walks over the elements.
\<close>

section \<open>The pipeline\<close>

record 'f cpack_pl =
  cp_base :: "('f, mem_fetch) comp_pl"
  cp_locals :: "string list list"
  m_glb_dict :: cpack_dict
  cp_update_list :: "string list"

definition cpack_create :: "nat \<Rightarrow> nat \<Rightarrow> 'f cpack_pl cxx" where
  "cpack_create n comp_buffer_size =
     (if n = 0 then Inl Out_Of_Range
      else Inr \<lparr>cp_base = \<lparr>pl_input = pl_data_new, pl_types = fpc_types n, pl_outputs = replicate n pl_data_new,
                  m_comp_buffer = [], m_comp_buffer_size = comp_buffer_size\<rparr>,
                cp_locals = replicate n [], m_glb_dict = new_cpack_dict 32, cp_update_list = []\<rparr>)"

text \<open>\<open>run\<close> of the codec on the input register, for stage \<open>i\<close>; without a fetch the local dictionary stays.\<close>

definition run_codec :: "'f cpack_pl \<Rightarrow> nat \<Rightarrow> ('f cpack_pl \<times> string list) cxx" where
  "run_codec pl i =
     (let d = word_dict_glb (m_glb_dict pl); lcl = cp_locals pl ! i
      in bindE (proc_run (\<lambda>mf. bindE (cpack_run cpack_initialize d lcl mf) (\<lambda>(mf', _). Inr mf')) (cp_base pl) i) (\<lambda>b.
         bindE (case m_mf (pl_input (cp_base pl)) of
                  None \<Rightarrow> Inr lcl
                | Some mf \<Rightarrow> bindE (cpack_run cpack_initialize d lcl mf) (\<lambda>(_, lcl'). Inr lcl')) (\<lambda>lcl'.
           Inr (pl\<lparr>cp_base := b\<rparr>, lcl'))))"

definition add_words :: "(string list \<Rightarrow> string list) \<Rightarrow> 'f cpack_pl \<Rightarrow> string list \<Rightarrow> 'f cpack_pl cxx" where
  "add_words iter pl lcl =
     bindE (cpack_update_dict (m_glb_dict pl) (iter lcl)) (\<lambda>g.
       Inr (pl\<lparr>m_glb_dict := g, cp_update_list := check_new_added_word (m_glb_dict pl) (iter lcl)\<rparr>))"

definition set_locals :: "'f cpack_pl \<Rightarrow> nat \<Rightarrow> string list \<Rightarrow> 'f cpack_pl" where
  "set_locals pl i lcl = pl\<lparr>cp_locals := (cp_locals pl)[i := lcl]\<rparr>"

text \<open>One stage of \<open>run\<close>; the second component is \<open>ret\<close>.\<close>

definition cpack_stage ::
    "(string list \<Rightarrow> string list) \<Rightarrow> 'f cpack_pl \<times> mem_fetch option \<Rightarrow> nat \<Rightarrow> ('f cpack_pl \<times> mem_fetch option) cxx" where
  "cpack_stage iter s i =
     (let pl = fst s; ret = snd s
      in case pl_types (cp_base pl) ! i of
           COMP \<Rightarrow>
             bindE (run_codec pl i) (\<lambda>(p1, lcl).
             bindE (add_words iter p1 lcl) (\<lambda>p2.
             bindE (move_out (cp_base p2) i) (\<lambda>b.
               Inr ((set_locals (set_locals p2 (i + 1) lcl) i [])\<lparr>cp_base := clean_out b i\<rparr>, ret))))
         | GET_OUTPUT \<Rightarrow>
             Inr ((set_locals pl i [])\<lparr>cp_base := clean_out (cp_base pl) i, cp_update_list := []\<rparr>,
                  m_mf (pl_outputs (cp_base pl) ! i))
         | _ \<Rightarrow>
             bindE (if m_mf (pl_outputs (cp_base pl) ! i) = None then Inr pl
                    else bindE (move_out (cp_base pl) i) (\<lambda>b.
                      Inr ((set_locals (set_locals pl (i + 1) (cp_locals pl ! i)) i [])\<lparr>cp_base := b\<rparr>))) (\<lambda>p1.
               Inr (p1\<lparr>cp_base := clean_out (cp_base p1) i\<rparr>, ret)))"

text \<open>A pipeline of one stage compresses and returns in the same cycle.\<close>

definition cpack_single :: "(string list \<Rightarrow> string list) \<Rightarrow> 'f cpack_pl \<Rightarrow> ('f cpack_pl \<times> mem_fetch option) cxx" where
  "cpack_single iter pl =
     bindE (run_codec pl 0) (\<lambda>(p1, lcl).
     bindE (add_words iter (set_locals p1 0 []) lcl) (\<lambda>p2.
       Inr (p2\<lparr>cp_base := clean_out (cp_base p2) 0\<rparr>, m_mf (pl_outputs (cp_base p2) ! 0))))"

definition cpack_pl_run :: "(string list \<Rightarrow> string list) \<Rightarrow> 'f cpack_pl \<Rightarrow> ('f cpack_pl \<times> mem_fetch option) cxx" where
  "cpack_pl_run iter pl =
     (if length (pl_outputs (cp_base pl)) = 1 then cpack_single iter pl
      else foldE (cpack_stage iter) (pl, None) (rev [0..<length (pl_outputs (cp_base pl))]))"

text \<open>A cycle: the simulator puts the fetch into the input register and runs the pipeline.\<close>

definition cpack_cycle ::
    "(string list \<Rightarrow> string list) \<Rightarrow> 'f cpack_pl \<Rightarrow> mem_fetch option \<Rightarrow> ('f cpack_pl \<times> mem_fetch option) cxx" where
  "cpack_cycle iter pl x = cpack_pl_run iter (pl\<lparr>cp_base := feed (cp_base pl) x\<rparr>)"

section \<open>What a sequence of lines is compressed to\<close>

text \<open>Each line with the dictionary that the lines before it left.\<close>

fun cpack_lines :: "(string list \<Rightarrow> string list) \<Rightarrow> cpack_dict \<Rightarrow> mem_fetch option list \<Rightarrow> (mem_fetch option list \<times> cpack_dict) cxx" where
  "cpack_lines iter g [] = Inr ([], g)"
| "cpack_lines iter g (None # xs) = bindE (cpack_lines iter g xs) (\<lambda>(ys, h). Inr (None # ys, h))"
| "cpack_lines iter g (Some mf # xs) =
     bindE (cpack_run cpack_initialize (word_dict_glb g) [] mf) (\<lambda>(mf', lcl).
     bindE (cpack_update_dict g (iter lcl)) (\<lambda>g'.
     bindE (cpack_lines iter g' xs) (\<lambda>(ys, h). Inr (Some mf' # ys, h))))"

definition walks :: "(string list \<Rightarrow> string list) \<Rightarrow> bool" where
  "walks iter \<longleftrightarrow> (\<forall>s. set (iter s) = set s)"


lemma walks_Nil: "walks iter \<Longrightarrow> iter [] = []"
  by (metis set_empty walks_def)

lemma cpack_line_ok:
  assumes g: "cpack_dict_ok g" and "walks iter" and "4 dvd length (m_real_data mf)"
  shows "\<exists>mf' lcl g'. cpack_run cpack_initialize (word_dict_glb g) [] mf = Inr (mf', lcl) \<and>
    cpack_update_dict g (iter lcl) = Inr g' \<and> cpack_dict_ok g'"
proof -
  have d: "cdict_ok (cd_max_size g) (word_dict_glb g)" using g by (simp add: cpack_dict_ok_def)
  obtain mf' lcl where r: "cpack_run cpack_initialize (word_dict_glb g) [] mf = Inr (mf', lcl)" "new_words_ok (word_dict_glb g) lcl"
    using cpack_run_ok[OF d assms(3)] by blast
  have "\<forall>p \<in> set (iter lcl). length p = 8" using r(2) assms(2) by (simp add: walks_def new_words_ok_def)
  from cpack_update_ok[OF g this] r(1) show ?thesis by blast
qed

lemma cpack_lines_ok:
  assumes "cpack_dict_ok g" and "walks iter" and "\<forall>mf. Some mf \<in> set xs \<longrightarrow> 4 dvd length (m_real_data mf)"
  shows "\<exists>ys h. cpack_lines iter g xs = Inr (ys, h) \<and> cpack_dict_ok h"
  using assms
proof (induction iter g xs rule: cpack_lines.induct)
  case (2 iter g xs)
  then show ?case by fastforce
next
  case (3 iter g mf xs)
  obtain mf' lcl g' where r: "cpack_run cpack_initialize (word_dict_glb g) [] mf = Inr (mf', lcl)"
      "cpack_update_dict g (iter lcl) = Inr g'" "cpack_dict_ok g'"
    using cpack_line_ok[OF "3.prems"(1,2), of mf] "3.prems"(3) by auto
  obtain ys h where "cpack_lines iter g' xs = Inr (ys, h)" "cpack_dict_ok h"
    using "3.IH"[OF r(3) "3.prems"(2)] "3.prems"(3) by auto
  then show ?case using r by simp
qed simp

section \<open>The registers move as in the other pipeline\<close>

lemma fpc_stage_back:
  assumes "fpc_stage codec (p, ret) i = Inr (q, r)" and "pl_types p ! i \<noteq> COMP"
  shows "pl_types q = pl_types p" and "pl_input q = pl_input p"
  using assms by (auto simp: fpc_stage_def move_out_def clean_out_def cxx_simps Let_def split: pl_type.splits if_splits)

text \<open>A stage that does not compress leaves the dictionary and the local words of the first stage alone.\<close>

definition same_dicts :: "'f cpack_pl \<Rightarrow> 'f cpack_pl \<Rightarrow> bool" where
  "same_dicts p q \<longleftrightarrow> m_glb_dict q = m_glb_dict p \<and> length (cp_locals q) = length (cp_locals p) \<and> cp_locals q ! 0 = cp_locals p ! 0"

lemma cpack_stage_back:
  assumes "fpc_stage codec (cp_base pl, ret) i = Inr (b, r)" and "pl_types (cp_base pl) ! i \<noteq> COMP" and "i \<noteq> 0"
  shows "\<exists>pl'. cpack_stage iter (pl, ret) i = Inr (pl', r) \<and> cp_base pl' = b \<and> same_dicts pl pl'"
proof (cases "pl_types (cp_base pl) ! i = GET_OUTPUT")
  case True
  then show ?thesis using assms by (auto simp: fpc_stage_def cpack_stage_def set_locals_def same_dicts_def Let_def)
next
  case False
  show ?thesis
  proof (cases "m_mf (pl_outputs (cp_base pl) ! i) = None")
    case True
    then show ?thesis using assms False
      by (cases "pl_types (cp_base pl) ! i") (auto simp: fpc_stage_def cpack_stage_def same_dicts_def Let_def)
  next
    case some: False
    obtain p1 where "move_out (cp_base pl) i = Inr p1" "b = clean_out p1 i" "r = ret"
      using assms False some by (cases "pl_types (cp_base pl) ! i") (auto simp: fpc_stage_def cxx_simps Let_def)
    then show ?thesis using assms(2,3) False some
      by (cases "pl_types (cp_base pl) ! i") (auto simp: cpack_stage_def set_locals_def same_dicts_def Let_def)
  qed
qed

lemma cpack_back_stages:
  assumes "foldE (fpc_stage codec) (cp_base pl, ret) is = Inr (b, r)"
    and "\<forall>i \<in> set is. i \<noteq> 0 \<and> pl_types (cp_base pl) ! i \<noteq> COMP"
  shows "\<exists>pl'. foldE (cpack_stage iter) (pl, ret) is = Inr (pl', r) \<and> cp_base pl' = b \<and> same_dicts pl pl' \<and>
    pl_types b = pl_types (cp_base pl) \<and> pl_input b = pl_input (cp_base pl)"
  using assms
proof (induction "is" arbitrary: pl ret)
  case Nil
  then show ?case by (simp add: same_dicts_def)
next
  case (Cons i "is")
  obtain b1 r1 where f: "fpc_stage codec (cp_base pl, ret) i = Inr (b1, r1)" "foldE (fpc_stage codec) (b1, r1) is = Inr (b, r)"
    using Cons.prems(1) by (auto simp: bindE_Inr_iff)
  have i: "pl_types (cp_base pl) ! i \<noteq> COMP" "i \<noteq> 0" using Cons.prems(2) by auto
  obtain p1 where p1: "cpack_stage iter (pl, ret) i = Inr (p1, r1)" "cp_base p1 = b1" "same_dicts pl p1"
    using cpack_stage_back[OF f(1) i] by blast
  note k = fpc_stage_back[OF f(1) i(1)]
  obtain p2 where "foldE (cpack_stage iter) (p1, r1) is = Inr (p2, r)" "cp_base p2 = b" "same_dicts p1 p2"
      "pl_types b = pl_types b1" "pl_input b = pl_input b1"
    using Cons.IH[of p1 r1] f(2) p1(2) k(1) Cons.prems(2) by auto
  then show ?case using p1 k by (simp add: same_dicts_def)
qed

definition cpack_ready :: "nat \<Rightarrow> 'f cpack_pl \<Rightarrow> bool" where
  "cpack_ready n pl \<longleftrightarrow> fpc_ready n (cp_base pl) \<and> length (cp_locals pl) = n \<and> cp_locals pl ! 0 = []"

lemma cpack_pl_run_shift:
  assumes rd: "cpack_ready n pl"
    and st: "case m_mf (pl_input (cp_base pl)) of
        None \<Rightarrow> y = None \<and> cpack_update_dict (m_glb_dict pl) (iter []) = Inr g
      | Some mf \<Rightarrow> (\<exists>mf' lcl. cpack_run cpack_initialize (word_dict_glb (m_glb_dict pl)) [] mf = Inr (mf', lcl) \<and>
          cpack_update_dict (m_glb_dict pl) (iter lcl) = Inr g \<and> y = Some mf')"
  shows "\<exists>pl'. cpack_pl_run iter pl = Inr (pl', hd (flight (cp_base pl))) \<and> cpack_ready n pl' \<and> m_glb_dict pl' = g \<and>
    flight (cp_base pl') = tl (flight (cp_base pl)) @ [y]"
proof -
  let ?b = "cp_base pl" and ?d = "word_dict_glb (m_glb_dict pl)"
  let ?codec = "\<lambda>mf. bindE (cpack_run cpack_initialize ?d [] mf) (\<lambda>(mf', _). Inr mf')"
  let ?C = "\<lambda>mf. case y of None \<Rightarrow> mf | Some mf' \<Rightarrow> mf'"
  have n: "2 \<le> n" "fpc_ready n ?b" "length (pl_outputs ?b) = n" "pl_types ?b = fpc_types n"
    using rd by (auto simp: cpack_ready_def fpc_ready_def)
  have "\<And>x. m_mf (pl_input ?b) = Some x \<Longrightarrow> ?codec x = Inr (?C x)" using st by auto
  from fpc_pl_run_shift[OF n(2), where codec = ?codec and C = ?C, OF this] obtain q where
    q: "fpc_pl_run ?codec ?b = Inr (q, hd (flight ?b))" "fpc_ready n q"
      "flight q = tl (flight ?b) @ [map_option ?C (m_mf (pl_input ?b))]" by blast
  have y: "map_option ?C (m_mf (pl_input ?b)) = y" using st by (cases "m_mf (pl_input ?b)") auto
  have r: "rev [0..<n] = rev [1..<n] @ [0]" using n(1) by (metis One_nat_def rev.simps(2) upt_conv_Cons zero_less_one less_le_trans one_le_numeral)
  obtain b1 r1 where b1: "foldE (fpc_stage ?codec) (?b, None) (rev [1..<n]) = Inr (b1, r1)"
      "fpc_stage ?codec (b1, r1) 0 = Inr (q, hd (flight ?b))"
    using q(1) unfolding fpc_pl_run_def n(3) r foldE_append by (auto simp: bindE_Inr_iff)
  have ty: "\<forall>i \<in> set (rev [1..<n]). i \<noteq> 0 \<and> pl_types ?b ! i \<noteq> COMP"
  proof
    fix i assume "i \<in> set (rev [1..<n])"
    then have "i \<noteq> 0" "i \<in> {1..n - 2} \<or> i = n - 1" by auto
    then show "i \<noteq> 0 \<and> pl_types ?b ! i \<noteq> COMP" using fpc_types_nth(3,4)[OF n(1)] n(4) by auto
  qed
  obtain p1 where p1: "foldE (cpack_stage iter) (pl, None) (rev [1..<n]) = Inr (p1, r1)" "cp_base p1 = b1" "same_dicts pl p1"
      "pl_types b1 = fpc_types n" "pl_input b1 = pl_input ?b"
    using cpack_back_stages[OF b1(1) ty] n(4) by metis
  have c: "pl_types b1 ! 0 = COMP" using fpc_types_nth(2)[OF n(1)] p1(4) by simp
  obtain b2 b3 where b2: "proc_run ?codec b1 0 = Inr b2" "move_out b2 0 = Inr b3" "q = clean_out b3 0" "r1 = hd (flight ?b)"
    using b1(2) c by (auto simp: fpc_stage_def cxx_simps Let_def)
  have sd: "m_glb_dict p1 = m_glb_dict pl" "cp_locals p1 ! 0 = []" "length (cp_locals p1) = n"
    using p1(3) rd by (simp_all add: same_dicts_def cpack_ready_def)
  obtain lcl where lcl: "run_codec p1 0 = Inr (p1\<lparr>cp_base := b2\<rparr>, lcl)" "cpack_update_dict (m_glb_dict pl) (iter lcl) = Inr g"
    using st b2(1) sd by (cases "m_mf (pl_input ?b)") (auto simp: run_codec_def Let_def p1(2,5))
  define p2 where "p2 = p1\<lparr>cp_base := b2, m_glb_dict := g, cp_update_list := check_new_added_word (m_glb_dict pl) (iter lcl)\<rparr>"
  have "add_words iter (p1\<lparr>cp_base := b2\<rparr>) lcl = Inr p2" using lcl(2) sd(1) by (simp add: add_words_def p2_def)
  then have "cpack_stage iter (p1, r1) 0 =
      Inr ((set_locals (set_locals p2 1 lcl) 0 [])\<lparr>cp_base := q\<rparr>, hd (flight ?b))"
    using c lcl(1) b2 p1(2) by (simp add: cpack_stage_def p2_def Let_def)
  then have "cpack_pl_run iter pl = Inr ((set_locals (set_locals p2 1 lcl) 0 [])\<lparr>cp_base := q\<rparr>, hd (flight ?b))"
    unfolding cpack_pl_run_def n(3) r foldE_append using n(1) p1(1) by simp
  moreover have "cpack_ready n ((set_locals (set_locals p2 1 lcl) 0 [])\<lparr>cp_base := q\<rparr>)"
    using q(2) sd(3) n(1) by (simp add: cpack_ready_def set_locals_def p2_def)
  ultimately show ?thesis using q(3) y by (simp add: set_locals_def p2_def)
qed

lemma feed_base [simp]:
  "cpack_ready n (pl\<lparr>cp_base := feed (cp_base pl) x\<rparr>) = cpack_ready n pl"
  "m_mf (pl_input (feed b x)) = x" "flight (feed b x) = flight b"
  by (simp_all add: cpack_ready_def feed_ready)

lemma cpack_cycles:
  assumes "cpack_ready n pl" and "walks iter" and "cpack_lines iter (m_glb_dict pl) xs = Inr (ys, h)"
  shows "\<exists>pl'. cycles (cpack_cycle iter) pl xs = Inr (pl', take (length xs) (flight (cp_base pl) @ ys)) \<and> m_glb_dict pl' = h"
  using assms
proof (induction xs arbitrary: pl ys)
  case (Cons x xs)
  have rd: "cpack_ready n (pl\<lparr>cp_base := feed (cp_base pl) x\<rparr>)" using Cons.prems(1) by simp
  obtain y g zs where y: "case x of
        None \<Rightarrow> y = None \<and> cpack_update_dict (m_glb_dict pl) (iter []) = Inr g
      | Some mf \<Rightarrow> (\<exists>mf' lcl. cpack_run cpack_initialize (word_dict_glb (m_glb_dict pl)) [] mf = Inr (mf', lcl) \<and>
          cpack_update_dict (m_glb_dict pl) (iter lcl) = Inr g \<and> y = Some mf')"
      "cpack_lines iter g xs = Inr (zs, h)" "ys = y # zs"
  proof (cases x)
    case None
    then obtain zs where "cpack_lines iter (m_glb_dict pl) xs = Inr (zs, h)" "ys = None # zs"
      using Cons.prems(3) by (auto simp: bindE_Inr_iff)
    then show ?thesis using that[of None "m_glb_dict pl" zs] None walks_Nil[OF Cons.prems(2)] by (simp add: cpack_update_dict_def)
  next
    case (Some mf)
    then obtain mf' lcl g zs where "cpack_run cpack_initialize (word_dict_glb (m_glb_dict pl)) [] mf = Inr (mf', lcl)"
      "cpack_update_dict (m_glb_dict pl) (iter lcl) = Inr g" "cpack_lines iter g xs = Inr (zs, h)" "ys = Some mf' # zs"
      using Cons.prems(3) by (auto simp: bindE_Inr_iff)
    then show ?thesis using that[of "Some mf'" g zs] Some by simp
  qed
  let ?p = "pl\<lparr>cp_base := feed (cp_base pl) x\<rparr>"
  have st: "case m_mf (pl_input (cp_base ?p)) of
        None \<Rightarrow> y = None \<and> cpack_update_dict (m_glb_dict ?p) (iter []) = Inr g
      | Some mf \<Rightarrow> (\<exists>mf' lcl. cpack_run cpack_initialize (word_dict_glb (m_glb_dict ?p)) [] mf = Inr (mf', lcl) \<and>
          cpack_update_dict (m_glb_dict ?p) (iter lcl) = Inr g \<and> y = Some mf')"
    using y(1) by (cases x) simp_all
  obtain p1 where p1: "cpack_cycle iter pl x = Inr (p1, hd (flight (cp_base pl)))" "cpack_ready n p1" "m_glb_dict p1 = g"
      "flight (cp_base p1) = tl (flight (cp_base pl)) @ [y]"
    using cpack_pl_run_shift[OF rd st] by (auto simp: cpack_cycle_def)
  obtain p2 where p2: "cycles (cpack_cycle iter) p1 xs = Inr (p2, take (length xs) (flight (cp_base p1) @ zs))" "m_glb_dict p2 = h"
    using Cons.IH[OF p1(2) Cons.prems(2)] y(2) p1(3) by auto
  have "0 < length (flight (cp_base pl))" using Cons.prems(1) by (auto simp: cpack_ready_def fpc_ready_def flight_def held_def)
  then obtain u us where "flight (cp_base pl) = u # us" by (cases "flight (cp_base pl)") auto
  then show ?case using p1 p2 y(3) by simp
qed simp

text \<open>Claim C22. The C-PACK pipeline of \<open>n\<close> stages hands a line out after \<open>n - 1\<close> cycles, in order and without loss, compressed
  with the dictionary that the lines before it left; the dictionary is the same after any sequence of cycles as if the
  lines were compressed one by one, holds at most 32 distinct words with distinct indices, and no run fails on
  lines of whole words.  This holds for every order in which the library walks a set.\<close>
theorem cpack_pipeline_delay:
  assumes "cpack_create n comp_buffer_size = Inr pl" and "2 \<le> n" and "walks iter"
    and "\<forall>mf. Some mf \<in> set xs \<longrightarrow> 4 dvd length (m_real_data mf)"
  shows "\<exists>ys g pl'. cpack_lines iter (new_cpack_dict 32) xs = Inr (ys, g) \<and>
    cycles (cpack_cycle iter) pl xs = Inr (pl', take (length xs) (replicate (n - 1) None @ ys)) \<and>
    m_glb_dict pl' = g \<and> cpack_dict_ok g"
proof -
  have g: "cpack_dict_ok (new_cpack_dict 32)" using new_cdict_ok by (simp add: cpack_dict_ok_def) (simp add: new_cpack_dict_def)
  have pl: "cpack_ready n pl" "m_glb_dict pl = new_cpack_dict 32" "flight (cp_base pl) = replicate (n - 1) None"
    using assms(1,2) by (auto simp: cpack_create_def cpack_ready_def fpc_ready_def flight_def held_def map_replicate_const split: if_splits)
  obtain ys h where l: "cpack_lines iter (new_cpack_dict 32) xs = Inr (ys, h)" "cpack_dict_ok h"
    using cpack_lines_ok[OF g assms(3,4)] by blast
  from cpack_cycles[OF pl(1) assms(3), of xs ys h] l pl(2,3) show ?thesis by auto
qed

lemma cpack_pipeline_delay_witness:
  "\<exists>ys g pl pl'. cpack_create 3 1 = Inr (pl :: nat cpack_pl) \<and> cpack_lines rev (new_cpack_dict 32) [Some cpack_demo_line, None, None] = Inr (ys, g) \<and>
    cycles (cpack_cycle rev) pl [Some cpack_demo_line, None, None] = Inr (pl', take 3 ([None, None] @ ys)) \<and> cpack_dict_ok g"
proof -
  obtain pl where pl: "cpack_create 3 1 = Inr (pl :: nat cpack_pl)" by (simp add: cpack_create_def)
  have "walks rev" by (simp add: walks_def)
  moreover have "length (m_real_data cpack_demo_line) = 4 * 3" by (simp add: cpack_demo_line_def)
  then have "\<forall>mf. Some mf \<in> set [Some cpack_demo_line, None, None] \<longrightarrow> 4 dvd length (m_real_data mf)" by simp
  ultimately show ?thesis using cpack_pipeline_delay[OF pl, of rev "[Some cpack_demo_line, None, None]"] pl by (auto simp: numeral_eq_Suc)
qed

end
