(* ===== verification/Bpc_Codec.thy ===== *)
theory Bpc_Codec
  imports Hex_Words Mem_Fetch
begin

unbundle bit_operations_syntax

text \<open>
  Bit-plane compression (hpcl_comp_bpc_pl_proc.h): the words of a line become the first word and the differences of
  neighbours in 33 bits; the differences are turned into 33 bit planes, each plane is taken exclusive-or with the next
  one, and the planes are encoded by runs of zero planes and by patterns.  \<open>run\<close> keeps the size of the result only.
  \<open>long\<close> is an integer here: the values stay below \<open>2 ^ 34\<close>, and \<open>pow\<close> in \<open>double\<close> is exact for them, as is the division of
  the size by 8 in \<open>float\<close>.  A plane with its number in front, \<open>"i#..."\<close>, is \<open>Looked_Up i\<close>.  The rotations and zero counts
  that only code in comments calls, and \<open>conv_hex\<close>, whose result is not used, are left out.
\<close>

section \<open>Numbers and text\<close>

definition get_bin_str :: "nat \<Rightarrow> nat \<Rightarrow> string" where "get_bin_str val ct = get_binary val ct"

definition get_dec :: "char \<Rightarrow> nat" where "get_dec c = nat (hex_value c)"

definition byte_text :: "u8 \<Rightarrow> string" where
  "byte_text b = [hexdig (unat (drop_bit 4 b)), hexdig (unat (b AND 15))]"

definition digits_binary :: "string \<Rightarrow> string" where
  "digits_binary s = concat (map (\<lambda>c. get_bin_str (get_dec c) 4) s)"

definition convert_binary :: "string \<Rightarrow> string list" where
  "convert_binary raw_data = map digits_binary (pieces 8 raw_data)"

text \<open>\<open>int_to_hex\<close>: sixteen digits, the lowest first, then reversed.  \<open>>>\<close> on a negative \<open>long\<close> is arithmetic.\<close>

fun long_digits :: "int \<Rightarrow> nat \<Rightarrow> string" where
  "long_digits i 0 = []"
| "long_digits i (Suc n) = hexdig (nat (i mod 16)) # long_digits (i div 16) n"

definition long_to_hex :: "int \<Rightarrow> string" where "long_to_hex i = rev (long_digits i 16)"

text \<open>\<open>get_num\<close>: two's complement of the width of the text.\<close>

fun get_num_pos :: "int \<Rightarrow> string \<Rightarrow> int" where
  "get_num_pos res [] = res"
| "get_num_pos res [c] = res OR (char_minus0 c AND 1)"
| "get_num_pos res (c # d # cs) = get_num_pos ((res OR (char_minus0 c AND 1)) * 2) (d # cs)"

fun get_num_neg :: "int \<Rightarrow> string \<Rightarrow> int" where
  "get_num_neg res [] = res"
| "get_num_neg res (c # cs) = get_num_neg (res + 2 ^ length cs * char_minus0 c) cs"

definition get_num :: "string \<Rightarrow> int" where
  "get_num a = (case a of [] \<Rightarrow> 0
     | c # cs \<Rightarrow> if c = CHR ''1'' then get_num_neg (- (2 ^ length cs)) cs else get_num_pos 0 a)"

definition calc_delta :: "string \<Rightarrow> string \<Rightarrow> string" where
  "calc_delta a b = (let hex_str = long_to_hex (get_num b - get_num a); low = drop (length hex_str - 9) hex_str
     in drop 3 (digits_binary low))"

fun deltas :: "string \<Rightarrow> string list \<Rightarrow> string list" where
  "deltas a [] = []"
| "deltas a (b # bs) = calc_delta a b # deltas b bs"

definition get_delta_value :: "string list \<Rightarrow> string list cxx" where
  "get_delta_value raw = (case raw of [] \<Rightarrow> Inl Undefined_Behaviour | a # bs \<Rightarrow> Inr (a # deltas a bs))"

section \<open>Planes\<close>

text \<open>\<open>res_mat[rows-j-1][i] = matrix[i][j]\<close>\<close>

definition rotate_mat_90 :: "string list \<Rightarrow> string list cxx" where
  "rotate_mat_90 matrix = (case matrix of [] \<Rightarrow> Inl Undefined_Behaviour
     | r # _ \<Rightarrow> if \<forall>row \<in> set matrix. length r \<le> length row
         then Inr (map (\<lambda>k. map (\<lambda>row. row ! (length r - 1 - k)) matrix) [0..<length r])
         else Inl Out_Of_Range)"

definition xor_char :: "char \<Rightarrow> char \<Rightarrow> char" where
  "xor_char a b = digit_char (nat (char_minus0 a XOR char_minus0 b))"

definition get_xor :: "string \<Rightarrow> string \<Rightarrow> string cxx" where
  "get_xor a b = assertE (length a = length b) (Inr (map2 xor_char a b))"

fun get_dbx :: "string list \<Rightarrow> string list cxx" where
  "get_dbx [] = Inl Undefined_Behaviour"
| "get_dbx [a] = Inr [a]"
| "get_dbx (a # b # cs) = bindE (get_xor a b) (\<lambda>x. bindE (get_dbx (b # cs)) (\<lambda>xs. Inr (x # xs)))"

section \<open>Encoding the planes\<close>

datatype bpc_row = Looked_Up nat string | Coded string

definition create_lookup :: "string list \<Rightarrow> bpc_row list" where
  "create_lookup dbx = map2 Looked_Up [0..<length dbx] dbx"

text \<open>\<open>std::string::find\<close>: the first place where the pattern occurs.\<close>

fun find_str :: "string \<Rightarrow> string \<Rightarrow> nat option" where
  "find_str pat [] = (if pat = [] then Some 0 else None)"
| "find_str pat (c # cs) = (if take (length pat) (c # cs) = pat then Some 0 else map_option Suc (find_str pat cs))"

definition zero_check :: "string \<Rightarrow> nat \<Rightarrow> bool" where
  "zero_check a row_len = (find_str (replicate row_len CHR ''0'') a \<noteq> None)"

text \<open>\<open>traverse\<close>: the number of zero planes from here on.\<close>

fun traverse :: "bpc_row list \<Rightarrow> nat" where
  "traverse [] = 0"
| "traverse (Coded s # rs) = 0"
| "traverse (Looked_Up i cur # rs) = (if zero_check cur (length cur) then traverse rs + 1 else 0)"

definition zero_code :: "nat \<Rightarrow> string" where
  "zero_code max_zero = (if max_zero = 1 then ''001'' else ''01'' @ get_bin_str (max_zero - 2) 5)"

function encode_run_len :: "bpc_row list \<Rightarrow> bpc_row list" where
  "encode_run_len [] = []"
| "encode_run_len (r # rs) =
     (if 1 \<le> traverse (r # rs) then Coded (zero_code (traverse (r # rs))) # encode_run_len (drop (traverse (r # rs)) (r # rs))
      else r # encode_run_len rs)"
  by pat_completeness auto
termination
  by (relation "measure length") auto

text \<open>\<open>one_check\<close>: the code when nothing but the ones at \<open>it\<close> is set.\<close>

definition one_check :: "string \<Rightarrow> nat \<Rightarrow> string \<Rightarrow> nat \<Rightarrow> string option" where
  "one_check code len act it =
     (let fw_str = take it act; bw_str = drop (it + len) act
      in if find_str (replicate (length fw_str) CHR ''0'') fw_str \<noteq> None \<and>
            find_str (replicate (length bw_str) CHR ''0'') bw_str \<noteq> None
         then Some (code @ get_bin_str it 5) else None)"

definition try_ones :: "string \<Rightarrow> string \<Rightarrow> string \<Rightarrow> string option" where
  "try_ones code pat act = (case find_str pat act of None \<Rightarrow> None | Some it \<Rightarrow> one_check code (length pat) act it)"

text \<open>The last case builds \<open>"1" + act\<close> in \<open>uncomp\<close> but sends \<open>act\<close>.\<close>

definition encode_row :: "string list \<Rightarrow> nat \<Rightarrow> bpc_row \<Rightarrow> string cxx" where
  "encode_row dbp row_len r = (case r of
     Coded s \<Rightarrow> Inr s
   | Looked_Up org_index act \<Rightarrow>
       if find_str (replicate row_len CHR ''1'') act \<noteq> None then Inr ''00000''
       else case try_ones ''00010'' ''11'' act of Some s \<Rightarrow> Inr s | None \<Rightarrow>
         (case try_ones ''00011'' ''1'' act of Some s \<Rightarrow> Inr s | None \<Rightarrow>
            assertE (org_index < length dbp)
              (if zero_check (dbp ! org_index) row_len then Inr ''00001'' else Inr act)))"

fun encode_others :: "string list \<Rightarrow> nat \<Rightarrow> bpc_row list \<Rightarrow> string list cxx" where
  "encode_others dbp row_len [] = Inr []"
| "encode_others dbp row_len (r # rs) =
     bindE (encode_row dbp row_len r) (\<lambda>s. bindE (encode_others dbp row_len rs) (\<lambda>ss. Inr (s # ss)))"

definition do_actual_encode :: "string list \<Rightarrow> string list \<Rightarrow> string cxx" where
  "do_actual_encode dbp dbx =
     assertE (length dbp = length dbx)
       (case dbx of [] \<Rightarrow> Inl Undefined_Behaviour
        | row # _ \<Rightarrow> bindE (encode_others dbp (length row) (encode_run_len (create_lookup dbx))) (\<lambda>ss. Inr (concat ss)))"

definition compress_base :: "string \<Rightarrow> string" where
  "compress_base base =
     (if base = replicate 32 CHR ''0'' then ''000''
      else if take 28 base = replicate 28 CHR ''0'' then ''001'' @ drop 28 base
      else if take 24 base = replicate 24 CHR ''0'' then ''010'' @ drop 24 base
      else if take 16 base = replicate 16 CHR ''0'' then ''011'' @ drop 16 base
      else ''1'' @ base)"

text \<open>The bits that \<open>run\<close> counts.\<close>

definition bpc_compress :: "u8 list \<Rightarrow> string cxx" where
  "bpc_compress cache_data =
     bindE (get_delta_value (convert_binary (concat (map byte_text cache_data)))) (\<lambda>raw.
     bindE (rotate_mat_90 (tl raw)) (\<lambda>dbp.
     bindE (get_dbx dbp) (\<lambda>dbx.
     bindE (do_actual_encode dbp dbx) (\<lambda>output. Inr (compress_base (hd raw) @ output)))))"

definition bpc_run :: "mem_fetch \<Rightarrow> mem_fetch cxx" where
  "bpc_run mf =
     (if get_real_data_size mf = 0 then Inr mf
      else bindE (bpc_compress (m_real_data mf)) (\<lambda>output.
           bindE (set_comp_data_bits (set_comp_data_size mf (ceil_div8 (length output))) (length output) (-1)) (\<lambda>mf1.
             Inr (init_size mf1))))"

end
