(* ===== verification/Bpc_Correct.thy ===== *)
theory Bpc_Correct
  imports Bpc_Codec Bdi_Correct Prefix_Code
begin

text \<open>
  What bit-plane compression keeps of a line.  The differences, the planes and their exclusive-ors determine the line;
  the encoding of the planes is that of a reference encoder that emits one symbol per run or plane, and symbols other
  than planes sent as they are form a prefix code.
\<close>

unbundle bit_operations_syntax

section \<open>Differences\<close>

lemma get_binary_append: "get_binary num (p + q) = get_binary (num div 2 ^ q) p @ get_binary num q"
proof (induction q arbitrary: num)
  case (Suc q)
  show ?case using Suc[of "num div 2"] by (simp add: get_binary_Suc div_mult2_eq)
qed simp

lemma get_binary_mod: "get_binary (num mod 2 ^ n) n = get_binary num n"
  using get_binary_bin_val[of "get_binary num n"] by (simp add: bin_val_get_binary)

lemma long_digits_take: "take n (long_digits i m) = long_digits i (min n m)"
proof (induction m arbitrary: i n)
  case (Suc m)
  then show ?case by (cases n) simp_all
qed simp

lemma digits_binary_append: "digits_binary (s @ t) = digits_binary s @ digits_binary t"
  by (simp add: digits_binary_def)

lemma digits_binary_hexdig: "d < 16 \<Longrightarrow> digits_binary [hexdig d] = get_binary d 4"
  by (simp add: digits_binary_def get_bin_str_def get_dec_def)

lemma digits_binary_long: "digits_binary (rev (long_digits i n)) = get_binary (nat (i mod 16 ^ n)) (4 * n)"
proof (induction n arbitrary: i)
  case 0
  show ?case by (simp add: digits_binary_def)
next
  case (Suc n)
  have m: "i mod 16 ^ Suc n = 16 * (i div 16 mod 16 ^ n) + i mod 16" using zmod_zmult2_eq[of "16 ^ n" i 16] by simp
  have p: "0 \<le> i div 16 mod 16 ^ n" "0 \<le> i mod 16" "i mod 16 < 16" by simp_all
  have n: "nat (i mod 16 ^ Suc n) = 16 * nat (i div 16 mod 16 ^ n) + nat (i mod 16)"
    unfolding m using p by (simp add: nat_add_distrib nat_mult_distrib)
  have "nat (i mod 16 ^ Suc n) div 2 ^ 4 = nat (i div 16 mod 16 ^ n)" "nat (i mod 16 ^ Suc n) mod 2 ^ 4 = nat (i mod 16)"
    unfolding n using p by (simp_all add: nat_less_iff)
  then have "get_binary (nat (i mod 16 ^ Suc n)) (4 * n + 4) =
      get_binary (nat (i div 16 mod 16 ^ n)) (4 * n) @ get_binary (nat (i mod 16)) 4"
    using get_binary_append[of "nat (i mod 16 ^ Suc n)" "4 * n" 4] get_binary_mod[of "nat (i mod 16 ^ Suc n)" 4] by simp
  then show ?case using Suc[of "i div 16"] digits_binary_hexdig[of "nat (i mod 16)"] p
    by (simp add: digits_binary_append nat_less_iff add.commute)
qed

lemma long_digits_length [simp]: "length (long_digits i n) = n"
  by (induction n arbitrary: i) simp_all

lemma calc_delta_binary: "calc_delta a b = get_binary (nat ((get_num b - get_num a) mod 2 ^ 36)) 33"
proof -
  let ?d = "get_num b - get_num a"
  have "drop (length (long_to_hex ?d) - 9) (long_to_hex ?d) = rev (long_digits ?d 9)"
    using long_digits_take[of 9 ?d 16] by (simp add: long_to_hex_def drop_rev)
  then have "calc_delta a b = drop 3 (get_binary (nat (?d mod 16 ^ 9)) 36)"
    by (simp add: calc_delta_def Let_def digits_binary_long)
  also have "\<dots> = get_binary (nat (?d mod 16 ^ 9)) 33"
    using get_binary_append[of "nat (?d mod 16 ^ 9)" 3 33] by simp
  finally show ?thesis by simp
qed

definition row_bits :: "nat \<Rightarrow> string \<Rightarrow> bool" where
  "row_bits n s \<longleftrightarrow> length s = n \<and> bits s"

lemma get_num_pos_val:
  assumes "s \<noteq> []" and "bits s" and "even res"
  shows "get_num_pos res s = res * 2 ^ (length s - 1) + int (bin_val s)"
proof -
  have o: "r OR (char_minus0 c AND 1) = r + (if c = CHR ''1'' then 1 else 0)" if "even r" "is_bit c" for r c
  proof -
    have "r OR 1 = r + 1" using that(1) by (simp add: or_one_eq)
    then show ?thesis using that(2) by (auto simp: is_bit_def char_minus0_def)
  qed
  show ?thesis using assms
  proof (induction res s rule: get_num_pos.induct)
    case (3 res c d cs)
    have "get_num_pos ((res OR (char_minus0 c AND 1)) * 2) (d # cs) =
        (res OR (char_minus0 c AND 1)) * 2 * 2 ^ (length (d # cs) - 1) + int (bin_val (d # cs))"
      using "3.prems" by (intro "3.IH") auto
    then show ?case using o[of res c] "3.prems" by (simp add: algebra_simps)
  qed (simp_all add: o)
qed

lemma get_num_neg_val: "bits s \<Longrightarrow> get_num_neg res s = res + int (bin_val s)"
  by (induction res s rule: get_num_neg.induct) (auto simp: is_bit_def char_minus0_def)

lemma get_num_val:
  assumes "bits a"
  shows "int (bin_val a) mod 2 ^ length a = get_num a mod 2 ^ length a"
proof (cases a)
  case (Cons c cs)
  show ?thesis
  proof (cases "c = CHR ''1''")
    case True
    have "get_num a = int (bin_val a) - 2 ^ length a"
      using True assms Cons get_num_neg_val[of cs] by (simp add: get_num_def)
    then show ?thesis by (simp add: mod_diff_right_eq)
  next
    case False
    then have "get_num a = int (bin_val a)" using assms get_num_pos_val[of a 0] Cons by (simp add: get_num_def)
    then show ?thesis by simp
  qed
qed (simp add: get_num_def)

text \<open>The word after a difference, and the words after all of them.\<close>

definition undelta :: "string \<Rightarrow> string \<Rightarrow> string" where
  "undelta a d = get_binary (bin_val a + bin_val d) 32"

fun restore :: "string \<Rightarrow> string list \<Rightarrow> string list" where
  "restore a [] = [a]"
| "restore a (d # ds) = a # restore (undelta a d) ds"

lemma undelta_delta:
  assumes "row_bits 32 a" and "row_bits 32 b"
  shows "undelta a (calc_delta a b) = b"
proof -
  let ?d = "get_num b - get_num a" and ?M = "2 ^ 32 :: int"
  have "int (bin_val (calc_delta a b)) = ?d mod 2 ^ 36 mod 2 ^ 33"
    by (simp add: calc_delta_binary bin_val_get_binary zmod_int)
  also have "\<dots> mod ?M = ?d mod ?M" by (simp add: mod_mod_cancel)
  finally have d: "int (bin_val (calc_delta a b)) mod ?M = ?d mod ?M" .
  have "int (bin_val a) mod ?M = get_num a mod ?M" "int (bin_val b) mod ?M = get_num b mod ?M"
    using get_num_val[of a] get_num_val[of b] assms by (simp_all add: row_bits_def)
  then have "(int (bin_val a) + int (bin_val (calc_delta a b))) mod ?M = int (bin_val b) mod ?M"
    using mod_add_cong[OF _ d, of "int (bin_val a)" "get_num a"] by simp
  then have "int ((bin_val a + bin_val (calc_delta a b)) mod 2 ^ 32) = int (bin_val b mod 2 ^ 32)"
    by (simp only: zmod_int of_nat_add of_nat_power of_nat_numeral)
  then have "(bin_val a + bin_val (calc_delta a b)) mod 2 ^ 32 = bin_val b mod 2 ^ 32" by (simp only: of_nat_eq_iff)
  then have "undelta a (calc_delta a b) = get_binary (bin_val b) 32"
    unfolding undelta_def by (metis get_binary_mod)
  then show ?thesis using get_binary_bin_val[of b] assms(2) by (simp add: row_bits_def)
qed

lemma restore_deltas:
  assumes "row_bits 32 a" and "\<forall>b \<in> set bs. row_bits 32 b"
  shows "restore a (deltas a bs) = a # bs"
  using assms by (induction a bs rule: deltas.induct) (simp_all add: undelta_delta)

lemma deltas_bits: "\<forall>d \<in> set (deltas a bs). row_bits 33 d"
  by (induction a bs rule: deltas.induct) (auto simp: calc_delta_binary row_bits_def)

lemma length_deltas [simp]: "length (deltas a bs) = length bs"
  by (induction a bs rule: deltas.induct) simp_all


section \<open>Planes\<close>

definition zeros :: "nat \<Rightarrow> string" where "zeros n = replicate n CHR ''0''"

lemma row_bits_zeros [simp]: "row_bits n (zeros n)" "length (zeros n) = n"
  by (simp_all add: row_bits_def zeros_def bits_def is_bit_def)

definition unrotate :: "nat \<Rightarrow> string list \<Rightarrow> string list" where
  "unrotate m R = map (\<lambda>i. map (\<lambda>j. R ! (length R - 1 - j) ! i) [0..<length R]) [0..<m]"

lemma rotate_ok:
  assumes "M \<noteq> []" and "\<forall>row \<in> set M. row_bits n row"
  shows "\<exists>R. rotate_mat_90 M = Inr R \<and> length R = n \<and> (\<forall>row \<in> set R. row_bits (length M) row) \<and> unrotate (length M) R = M"
proof -
  define R where "R = map (\<lambda>k. map (\<lambda>row. row ! (n - 1 - k)) M) [0..<n]"
  obtain r rs where M: "M = r # rs" using assms(1) by (cases M) auto
  have "rotate_mat_90 M = Inr R" using assms(2) by (simp add: rotate_mat_90_def M R_def row_bits_def)
  moreover have "length R = n" by (simp add: R_def)
  moreover have "row_bits (length M) row" if "row \<in> set R" for row
  proof -
    obtain k where k: "k < n" "row = map (\<lambda>row. row ! (n - 1 - k)) M" using \<open>row \<in> set R\<close> by (auto simp: R_def)
    have "is_bit (x ! (n - 1 - k))" if "x \<in> set M" for x
      using assms(2) that k(1) by (simp add: row_bits_def bits_def)
    then show ?thesis by (simp add: k(2) row_bits_def bits_def)
  qed
  moreover have "unrotate (length M) R = M"
  proof (rule nth_equalityI)
    fix i assume "i < length (unrotate (length M) R)"
    then have i: "i < length M" by (simp add: unrotate_def)
    then have l: "length (M ! i) = n" using assms(2) by (simp add: row_bits_def)
    have "R ! (n - 1 - j) ! i = M ! i ! j" if "j < n" for j
      using that i by (simp add: R_def)
    then have "map (\<lambda>j. R ! (n - 1 - j) ! i) [0..<n] = M ! i" using l by (intro nth_equalityI) simp_all
    then show "unrotate (length M) R ! i = M ! i" using i \<open>length R = n\<close> by (simp add: unrotate_def)
  qed (simp add: unrotate_def)
  ultimately show ?thesis by blast
qed

definition xor_row :: "string \<Rightarrow> string \<Rightarrow> string" where "xor_row a b = map2 xor_char a b"

lemma xor_char_eqs:
  "xor_char CHR ''0'' CHR ''0'' = CHR ''0''" "xor_char CHR ''0'' CHR ''1'' = CHR ''1''"
  "xor_char CHR ''1'' CHR ''0'' = CHR ''1''" "xor_char CHR ''1'' CHR ''1'' = CHR ''0''"
  by (simp_all add: xor_char_def char_minus0_def)

lemma xor_char_bits: "is_bit a \<Longrightarrow> is_bit b \<Longrightarrow> is_bit (xor_char a b) \<and> xor_char (xor_char a b) b = a"
  by (auto simp: is_bit_def xor_char_eqs)

lemma xor_row_bits:
  assumes "row_bits n a" and "row_bits n b"
  shows "row_bits n (xor_row a b) \<and> xor_row (xor_row a b) b = a"
proof -
  have "length a = length b \<Longrightarrow> bits a \<Longrightarrow> bits b \<Longrightarrow> bits (xor_row a b) \<and> xor_row (xor_row a b) b = a"
    by (induction a b rule: list_induct2) (auto simp: xor_row_def xor_char_bits)
  then show ?thesis using assms by (simp add: row_bits_def) (simp add: xor_row_def)
qed

lemma xor_row_zeros: "row_bits n a \<Longrightarrow> xor_row a (zeros n) = a"
proof (induction a arbitrary: n)
  case (Cons c a)
  then obtain m where "n = Suc m" by (auto simp: row_bits_def)
  with Cons show ?case by (auto simp: row_bits_def zeros_def xor_row_def is_bit_def xor_char_eqs)
qed (simp add: row_bits_def xor_row_def)

text \<open>The planes from the exclusive-ors, the last one first; \<open>None\<close> stands for a plane that is zero.\<close>

fun resolve :: "string \<Rightarrow> string option list \<Rightarrow> string list" where
  "resolve z [] = []"
| "resolve z (s # ss) =
     (let ps = resolve z ss
      in (case s of None \<Rightarrow> z | Some x \<Rightarrow> xor_row x (case ps of [] \<Rightarrow> z | p # _ \<Rightarrow> p)) # ps)"

definition plane_spec :: "string \<Rightarrow> string option \<Rightarrow> string \<times> string \<Rightarrow> bool" where
  "plane_spec z s px \<longleftrightarrow> s = Some (snd px) \<or> s = None \<and> fst px = z"

lemma get_dbx_ok:
  assumes "dbp \<noteq> []" and "\<forall>p \<in> set dbp. row_bits n p"
  shows "\<exists>dbx. get_dbx dbp = Inr dbx \<and> length dbx = length dbp \<and> (\<forall>x \<in> set dbx. row_bits n x) \<and>
    (\<forall>ss. list_all2 (plane_spec (zeros n)) ss (zip dbp dbx) \<longrightarrow> resolve (zeros n) ss = dbp)"
  using assms
proof (induction dbp rule: get_dbx.induct)
  case (2 a)
  then show ?case
    by (auto simp: list_all2_Cons2 plane_spec_def xor_row_zeros Let_def)
next
  case (3 a b cs)
  then obtain xs where xs: "get_dbx (b # cs) = Inr xs" "length xs = length (b # cs)" "\<forall>x \<in> set xs. row_bits n x"
    "\<And>ss. list_all2 (plane_spec (zeros n)) ss (zip (b # cs) xs) \<Longrightarrow> resolve (zeros n) ss = b # cs" by auto
  have ab: "row_bits n a" "row_bits n b" using "3.prems" by auto
  have x: "get_xor a b = Inr (xor_row a b)" using ab by (simp add: get_xor_def row_bits_def xor_row_def)
  have "resolve (zeros n) ss = a # b # cs" if "list_all2 (plane_spec (zeros n)) ss (zip (a # b # cs) (xor_row a b # xs))" for ss
  proof -
    obtain s ts where s: "ss = s # ts" "plane_spec (zeros n) s (a, xor_row a b)" "list_all2 (plane_spec (zeros n)) ts (zip (b # cs) xs)"
      using \<open>list_all2 _ ss _\<close> by (auto simp: list_all2_Cons2)
    show ?thesis using s(2) xs(4)[OF s(3)] xor_row_bits[OF ab] by (auto simp: s(1) plane_spec_def Let_def)
  qed
  then show ?case using xs(1-3) x xor_row_bits[OF ab] by simp
qed simp

section \<open>The reference encoder\<close>

datatype bpc_sym = Zero_Planes nat | All_Ones | Two_Ones nat | One_One nat | Plane_Zero | Raw_Plane string

definition sym_emit :: "bpc_sym \<Rightarrow> string" where
  "sym_emit s = (case s of Zero_Planes k \<Rightarrow> zero_code k | All_Ones \<Rightarrow> ''00000''
     | Two_Ones i \<Rightarrow> ''00010'' @ get_binary i 5 | One_One i \<Rightarrow> ''00011'' @ get_binary i 5
     | Plane_Zero \<Rightarrow> ''00001'' | Raw_Plane x \<Rightarrow> x)"

text \<open>The place of \<open>pat\<close> when everything else is zero.\<close>

definition sole :: "string \<Rightarrow> string \<Rightarrow> nat option" where
  "sole pat x = (case find_str pat x of None \<Rightarrow> None
     | Some i \<Rightarrow> if x = zeros i @ pat @ zeros (length x - i - length pat) then Some i else None)"

definition classify :: "nat \<Rightarrow> string \<times> string \<Rightarrow> bpc_sym" where
  "classify n px = (if snd px = replicate n CHR ''1'' then All_Ones
     else case sole ''11'' (snd px) of Some i \<Rightarrow> Two_Ones i
     | None \<Rightarrow> (case sole ''1'' (snd px) of Some i \<Rightarrow> One_One i
       | None \<Rightarrow> if fst px = zeros n then Plane_Zero else Raw_Plane (snd px)))"

definition zero_front :: "nat \<Rightarrow> (string \<times> string) list \<Rightarrow> nat" where
  "zero_front n ps = length (takeWhile (\<lambda>px. snd px = zeros n) ps)"

function syms :: "nat \<Rightarrow> (string \<times> string) list \<Rightarrow> bpc_sym list" where
  "syms n [] = []"
| "syms n (px # ps) =
     (if 1 \<le> zero_front n (px # ps) then Zero_Planes (zero_front n (px # ps)) # syms n (drop (zero_front n (px # ps)) (px # ps))
      else classify n px # syms n ps)"
  by pat_completeness auto
termination
  by (relation "measure (\<lambda>(n, ps). length ps)") auto

lemma find_short: "length s < length pat \<Longrightarrow> find_str pat s = None"
  by (induction s) auto

lemma find_full: "length pat = length s \<Longrightarrow> find_str pat s \<noteq> None \<longleftrightarrow> s = pat"
  by (cases s) (auto simp: find_short)

lemma find_some: "find_str pat s = Some i \<Longrightarrow> s = take i s @ pat @ drop (i + length pat) s"
proof (induction s arbitrary: i)
  case (Cons c s)
  show ?case
  proof (cases "take (length pat) (c # s) = pat")
    case True
    then have "i = 0" using Cons.prems by simp
    then show ?thesis using True append_take_drop_id[of "length pat" "c # s"] by simp
  next
    case False
    then obtain j where "find_str pat s = Some j" "i = Suc j" using Cons.prems by auto
    with Cons.IH[of j] show ?thesis by simp
  qed
qed (simp split: if_splits)

lemma find_bound: "find_str pat s = Some i \<Longrightarrow> i + length pat \<le> length s"
proof (induction s arbitrary: i)
  case (Cons c s)
  show ?case
  proof (cases "take (length pat) (c # s) = pat")
    case True
    then have "min (length (c # s)) (length pat) = length pat" by (metis length_take)
    then show ?thesis using Cons.prems True by simp
  next
    case False
    then show ?thesis using Cons by auto
  qed
qed (simp split: if_splits)

lemma zero_check_full: "zero_check x (length x) \<longleftrightarrow> x = zeros (length x)"
  using find_full[of "replicate (length x) CHR ''0''" x] by (auto simp: zero_check_def zeros_def)

lemma try_ones_sole: "try_ones code pat x = map_option (\<lambda>i. code @ get_binary i 5) (sole pat x)"
proof (cases "find_str pat x")
  case (Some i)
  note f = find_some[OF Some]
  note l = find_bound[OF Some]
  have "take i x = zeros (length (take i x)) \<and> drop (i + length pat) x = zeros (length (drop (i + length pat) x)) \<longleftrightarrow>
      x = zeros i @ pat @ zeros (length x - i - length pat)"
  proof
    assume "take i x = zeros (length (take i x)) \<and> drop (i + length pat) x = zeros (length (drop (i + length pat) x))"
    then show "x = zeros i @ pat @ zeros (length x - i - length pat)" using f l by (metis add_leE diff_diff_left length_drop length_take min_absorb2)
  next
    assume x: "x = zeros i @ pat @ zeros (length x - i - length pat)"
    have "take i x = zeros i" by (subst x) simp
    moreover have "drop (i + length pat) x = zeros (length x - i - length pat)" by (subst x) simp
    ultimately show "take i x = zeros (length (take i x)) \<and> drop (i + length pat) x = zeros (length (drop (i + length pat) x))" by simp
  qed
  moreover have "find_str (replicate (length y) CHR ''0'') y \<noteq> None \<longleftrightarrow> y = zeros (length y)" for y
    using find_full[of "replicate (length y) CHR ''0''" y] by (simp add: zeros_def)
  ultimately show ?thesis using Some
    by (simp add: try_ones_def one_check_def sole_def Let_def get_bin_str_def)
qed (simp add: try_ones_def sole_def)

lemma encode_row_emit:
  assumes "length x = n" and "length (dbp ! i) = n" and "i < length dbp"
  shows "encode_row dbp n (Looked_Up i x) = Inr (sym_emit (classify n (dbp ! i, x)))"
proof -
  have o: "find_str (replicate n CHR ''1'') x \<noteq> None \<longleftrightarrow> x = replicate n CHR ''1''" using find_full assms(1) by simp
  have z: "zero_check (dbp ! i) n \<longleftrightarrow> dbp ! i = zeros n" using zero_check_full[of "dbp ! i"] assms(2) by simp
  have "encode_row dbp n (Looked_Up i x) = (if x = replicate n CHR ''1'' then Inr ''00000''
      else case map_option (\<lambda>i. ''00010'' @ get_binary i 5) (sole ''11'' x) of Some s \<Rightarrow> Inr s | None \<Rightarrow>
        (case map_option (\<lambda>i. ''00011'' @ get_binary i 5) (sole ''1'' x) of Some s \<Rightarrow> Inr s | None \<Rightarrow>
           assertE (i < length dbp) (if dbp ! i = zeros n then Inr ''00001'' else Inr x)))"
    by (simp only: encode_row_def bpc_row.case o z try_ones_sole)
  then show ?thesis using assms(3)
    by (simp add: classify_def sym_emit_def split: option.split)
qed

fun rows_from :: "nat \<Rightarrow> string list \<Rightarrow> bpc_row list" where
  "rows_from i [] = []"
| "rows_from i (x # xs) = Looked_Up i x # rows_from (Suc i) xs"

lemma rows_from_upt: "map2 Looked_Up [i..<i + length xs] xs = rows_from i xs"
proof (induction xs arbitrary: i)
  case (Cons x xs)
  have "[i..<i + length (x # xs)] = i # [Suc i..<Suc i + length xs]" by (simp add: upt_conv_Cons del: upt_Suc)
  then show ?case using Cons[of "Suc i"] by (simp only: list.map zip_Cons_Cons rows_from.simps prod.case)
qed simp

lemma rows_from_drop: "drop k (rows_from i xs) = rows_from (i + k) (drop k xs)"
  by (induction k arbitrary: i xs) (simp, case_tac xs, simp_all)

lemma traverse_rows: "\<forall>x \<in> set xs. length x = n \<Longrightarrow> traverse (rows_from i xs) = length (takeWhile (\<lambda>x. x = zeros n) xs)"
  by (induction xs arbitrary: i) (auto simp: zero_check_full)

lemma takeWhile_snd: "length (takeWhile P (map snd ps)) = length (takeWhile (\<lambda>px. P (snd px)) ps)"
  by (induction ps) simp_all

lemma encode_rows:
  assumes "\<forall>px \<in> set ps. length (fst px) = n \<and> length (snd px) = n" and "drop i dbp = map fst ps"
  shows "encode_others dbp n (encode_run_len (rows_from i (map snd ps))) = Inr (map sym_emit (syms n ps))"
  using assms
proof (induction n ps arbitrary: i rule: syms.induct)
  case (2 n px ps)
  let ?k = "zero_front n (px # ps)" and ?rs = "rows_from i (map snd (px # ps))"
  have t: "traverse ?rs = ?k"
    using traverse_rows[of "map snd (px # ps)" n i] "2.prems"(1) takeWhile_snd[of "\<lambda>x. x = zeros n" "px # ps"]
    by (simp add: zero_front_def del: rows_from.simps takeWhile.simps)
  have rs: "?rs = Looked_Up i (snd px) # rows_from (Suc i) (map snd ps)" by simp
  show ?case
  proof (cases "1 \<le> ?k")
    case True
    have "drop ?k ?rs = rows_from (i + ?k) (map snd (drop ?k (px # ps)))" by (simp only: rows_from_drop drop_map)
    moreover have "encode_run_len ?rs = Coded (zero_code ?k) # encode_run_len (drop ?k ?rs)"
      using True t unfolding rs by simp
    moreover have "drop (i + ?k) dbp = map fst (drop ?k (px # ps))"
      using "2.prems"(2) by (metis add.commute drop_drop drop_map)
    then have "encode_others dbp n (encode_run_len (rows_from (i + ?k) (map snd (drop ?k (px # ps))))) =
        Inr (map sym_emit (syms n (drop ?k (px # ps))))"
    proof (rule "2.IH"(1)[OF True, rotated])
      show "\<forall>px \<in> set (drop ?k (px # ps)). length (fst px) = n \<and> length (snd px) = n" using "2.prems"(1) in_set_dropD by metis
    qed
    ultimately show ?thesis using True by (simp add: encode_row_def sym_emit_def)
  next
    case False
    have "i < length dbp" using "2.prems"(2) by (metis drop_all list.map_disc_iff list.distinct(1) not_le)
    then have d: "dbp ! i = fst px" "drop (Suc i) dbp = map fst ps"
      using "2.prems"(2) by (simp_all add: Cons_nth_drop_Suc[symmetric])
    have "encode_row dbp n (Looked_Up i (snd px)) = Inr (sym_emit (classify n px))"
      using encode_row_emit[of "snd px" n dbp i] "2.prems"(1) d(1) \<open>i < length dbp\<close> by simp
    moreover have "encode_others dbp n (encode_run_len (rows_from (Suc i) (map snd ps))) = Inr (map sym_emit (syms n ps))"
      using "2.prems"(1) d(2) by (intro "2.IH"(2)[OF False]) auto
    moreover have "encode_run_len ?rs = Looked_Up i (snd px) # encode_run_len (rows_from (Suc i) (map snd ps))"
      using False t unfolding rs by simp
    ultimately show ?thesis using False by simp
  qed
qed simp

lemma do_actual_encode_syms:
  assumes "dbp \<noteq> []" and "length dbx = length dbp" and "\<forall>x \<in> set dbp. length x = n" and "\<forall>x \<in> set dbx. length x = n"
  shows "do_actual_encode dbp dbx = Inr (concat (map sym_emit (syms n (zip dbp dbx))))"
proof -
  obtain x xs where x: "dbx = x # xs" using assms(1,2) by (cases dbx) auto
  have "encode_others dbp n (encode_run_len (rows_from 0 (map snd (zip dbp dbx)))) = Inr (map sym_emit (syms n (zip dbp dbx)))"
    using assms by (intro encode_rows) (auto dest: set_zip_leftD set_zip_rightD)
  moreover have "create_lookup dbx = rows_from 0 dbx" using rows_from_upt[of 0 dbx] by (simp add: create_lookup_def)
  moreover have "length x = n" using assms(4) x by simp
  ultimately show ?thesis using assms(2) by (simp add: do_actual_encode_def x)
qed

section \<open>Reading the symbols\<close>

definition expand :: "nat \<Rightarrow> bpc_sym \<Rightarrow> string option list" where
  "expand n s = (case s of Zero_Planes k \<Rightarrow> replicate k (Some (zeros n)) | All_Ones \<Rightarrow> [Some (replicate n CHR ''1'')]
     | Two_Ones i \<Rightarrow> [Some (zeros i @ ''11'' @ zeros (n - i - 2))] | One_One i \<Rightarrow> [Some (zeros i @ ''1'' @ zeros (n - i - 1))]
     | Plane_Zero \<Rightarrow> [None] | Raw_Plane x \<Rightarrow> [Some x])"

lemma sole_some: "sole pat x = Some i \<Longrightarrow> x = zeros i @ pat @ zeros (length x - i - length pat) \<and> i + length pat \<le> length x"
  by (auto simp: sole_def dest: find_bound split: option.splits if_splits)

lemma classify_expand:
  assumes "length (snd px) = n"
  shows "list_all2 (plane_spec (zeros n)) (expand n (classify n px)) [px]"
proof -
  have "\<exists>i. sole ''11'' (snd px) = Some i \<Longrightarrow> ?thesis" if "snd px \<noteq> replicate n CHR ''1''"
    using sole_some[of "''11''" "snd px"] assms that by (auto simp: classify_def expand_def plane_spec_def)
  moreover have "\<exists>i. sole ''1'' (snd px) = Some i \<Longrightarrow> ?thesis" if "snd px \<noteq> replicate n CHR ''1''" "sole ''11'' (snd px) = None"
    using sole_some[of "''1''" "snd px"] assms that by (auto simp: classify_def expand_def plane_spec_def)
  ultimately show ?thesis
    by (cases "snd px = replicate n CHR ''1''"; cases "sole ''11'' (snd px)"; cases "sole ''1'' (snd px)")
      (auto simp: classify_def expand_def plane_spec_def)
qed

lemma syms_expand:
  assumes "\<forall>px \<in> set ps. length (snd px) = n"
  shows "list_all2 (plane_spec (zeros n)) (concat (map (expand n) (syms n ps))) ps"
  using assms
proof (induction n ps rule: syms.induct)
  case (2 n px ps)
  let ?k = "zero_front n (px # ps)"
  show ?case
  proof (cases "1 \<le> ?k")
    case True
    have IH: "list_all2 (plane_spec (zeros n)) (concat (map (expand n) (syms n (drop ?k (px # ps))))) (drop ?k (px # ps))"
    proof (rule "2.IH"(1)[OF True])
      show "\<forall>px \<in> set (drop ?k (px # ps)). length (snd px) = n" using "2.prems" in_set_dropD by metis
    qed
    have t: "take ?k (px # ps) = takeWhile (\<lambda>px. snd px = zeros n) (px # ps)"
      unfolding zero_front_def by (rule takeWhile_eq_take[symmetric])
    have "list_all2 (plane_spec (zeros n)) (replicate (length ys) (Some (zeros n))) ys" if "\<forall>y \<in> set ys. snd y = zeros n" for ys
      using that by (induction ys) (auto simp: plane_spec_def)
    from this[of "take ?k (px # ps)"] have "list_all2 (plane_spec (zeros n)) (replicate ?k (Some (zeros n))) (take ?k (px # ps))"
      using set_takeWhileD t unfolding zero_front_def by (metis (mono_tags, lifting))
    then have "list_all2 (plane_spec (zeros n)) (replicate ?k (Some (zeros n)) @ concat (map (expand n) (syms n (drop ?k (px # ps)))))
        (take ?k (px # ps) @ drop ?k (px # ps))" using IH by (rule list_all2_appendI)
    moreover have "expand n (Zero_Planes ?k) = replicate ?k (Some (zeros n))" by (simp add: expand_def)
    ultimately show ?thesis using True by simp
  next
    case False
    have "list_all2 (plane_spec (zeros n)) (expand n (classify n px) @ concat (map (expand n) (syms n ps))) ([px] @ ps)"
      using "2.prems" by (intro list_all2_appendI classify_expand "2.IH"(2)[OF False]) auto
    then show ?thesis using False by simp
  qed
qed simp

definition sym_ok :: "bpc_sym \<Rightarrow> bool" where
  "sym_ok s = (case s of Zero_Planes k \<Rightarrow> 1 \<le> k \<and> k \<le> 33 | Two_Ones i \<Rightarrow> i < 32 | One_One i \<Rightarrow> i < 32 | Raw_Plane x \<Rightarrow> False | _ \<Rightarrow> True)"

definition is_raw :: "bpc_sym \<Rightarrow> bool" where "is_raw s = (case s of Raw_Plane x \<Rightarrow> True | _ \<Rightarrow> False)"

lemma classify_ok:
  assumes "length (snd px) = n" and "n \<le> 32"
  shows "sym_ok (classify n px) \<or> is_raw (classify n px)"
proof -
  have "i < 32" if "sole ''11'' (snd px) = Some i \<or> sole ''1'' (snd px) = Some i" for i
    using that sole_some[of "''11''" "snd px" i] sole_some[of "''1''" "snd px" i] assms by auto
  then show ?thesis by (auto simp: classify_def sym_ok_def is_raw_def split: option.split)
qed

lemma syms_ok:
  assumes "\<forall>px \<in> set ps. length (snd px) = n" and "n \<le> 32" and "length ps \<le> 33" and "s \<in> set (syms n ps)"
  shows "sym_ok s \<or> is_raw s"
  using assms
proof (induction n ps rule: syms.induct)
  case (2 n px ps)
  let ?k = "zero_front n (px # ps)"
  have k: "?k \<le> 33" using "2.prems"(3) length_takeWhile_le[of "\<lambda>px. snd px = zeros n" "px # ps"] by (simp add: zero_front_def)
  show ?case
  proof (cases "1 \<le> ?k")
    case True
    then have "s = Zero_Planes ?k \<or> s \<in> set (syms n (drop ?k (px # ps)))" using "2.prems"(4) by simp
    moreover have "s \<in> set (syms n (drop ?k (px # ps))) \<Longrightarrow> ?thesis"
    proof (rule "2.IH"(1)[OF True])
      show "\<forall>px \<in> set (drop ?k (px # ps)). length (snd px) = n" using "2.prems"(1) in_set_dropD by metis
      show "n \<le> 32" "length (drop ?k (px # ps)) \<le> 33" using "2.prems"(2,3) by simp_all
    qed
    ultimately show ?thesis using True k by (auto simp: sym_ok_def)
  next
    case False
    then have "s = classify n px \<or> s \<in> set (syms n ps)" using "2.prems"(4) by simp
    then show ?thesis using "2.IH"(2)[OF False] classify_ok[of px n] "2.prems" by auto
  qed
qed simp

definition bpc_read :: "string \<Rightarrow> (bpc_sym \<times> string) option" where
  "bpc_read s =
     (if take 3 s = ''001'' then Some (Zero_Planes 1, drop 3 s)
      else if take 2 s = ''01'' then Some (Zero_Planes (bin_val (take 5 (drop 2 s)) + 2), drop 7 s)
      else if take 5 s = ''00000'' then Some (All_Ones, drop 5 s)
      else if take 5 s = ''00001'' then Some (Plane_Zero, drop 5 s)
      else if take 5 s = ''00010'' then Some (Two_Ones (bin_val (take 5 (drop 5 s))), drop 10 s)
      else if take 5 s = ''00011'' then Some (One_One (bin_val (take 5 (drop 5 s))), drop 10 s)
      else None)"

lemma bpc_read_emit: "sym_ok a \<Longrightarrow> bpc_read (sym_emit a @ rest) = Some (a, rest)"
  by (cases a) (auto simp: sym_ok_def sym_emit_def bpc_read_def zero_code_def get_bin_str_def bin_val_get_binary)

lemma sym_emit_nonempty: "sym_ok a \<Longrightarrow> sym_emit a \<noteq> []"
  by (cases a) (auto simp: sym_ok_def sym_emit_def zero_code_def)

interpretation bpc: prefix_code sym_emit bpc_read sym_ok
  by unfold_locales (rule bpc_read_emit, assumption, rule sym_emit_nonempty)

definition base_read :: "string \<Rightarrow> (string \<times> string) option" where
  "base_read s =
     (if take 1 s = ''1'' then Some (take 32 (drop 1 s), drop 33 s)
      else if take 3 s = ''000'' then Some (zeros 32, drop 3 s)
      else if take 3 s = ''001'' then Some (zeros 28 @ take 4 (drop 3 s), drop 7 s)
      else if take 3 s = ''010'' then Some (zeros 24 @ take 8 (drop 3 s), drop 11 s)
      else if take 3 s = ''011'' then Some (zeros 16 @ take 16 (drop 3 s), drop 19 s)
      else None)"

lemma base_read_base:
  assumes "length b = 32"
  shows "base_read (compress_base b @ rest) = Some (b, rest)"
proof -
  have d: "zeros k @ drop k b = b" if "take k b = replicate k CHR ''0''" for k
    using append_take_drop_id[of k b] that by (simp add: zeros_def)
  show ?thesis using assms d[of 28] d[of 24] d[of 16] by (simp add: base_read_def compress_base_def zeros_def)
qed

section \<open>A line\<close>

definition text_of :: "u8 list \<Rightarrow> string" where "text_of data = concat (map byte_text data)"

definition bytes_of_bits :: "string \<Rightarrow> u8 list" where
  "bytes_of_bits t = map (\<lambda>p. of_nat (bin_val p)) (pieces 8 t)"

lemma byte_text_binary: "digits_binary (byte_text b) = get_binary (unat b) 8"
proof -
  have lt: "unat b < 2 ^ 8" using unsigned_less[of b, where 'a = nat] by simp
  have d: "unat (drop_bit 4 b) = unat b div 2 ^ 4"
    by (simp only: unsigned_drop_bit_eq drop_bit_eq_div[where 'a = nat]) (use take_bit_nat_eq_self[OF lt] in simp)
  have "(15 :: u8) = mask 4" by (simp add: mask_eq_exp_minus_1)
  then have "b AND 15 = take_bit 4 b" by (simp only: take_bit_eq_mask)
  then have m: "unat (b AND 15) = unat b mod 2 ^ 4" by (simp only: unsigned_take_bit_eq take_bit_eq_mod[where 'a = nat])
  have "unat b < 256" using unsigned_less[of b, where 'a = nat] by simp
  then have l: "unat b div 2 ^ 4 < 16" "unat b mod 2 ^ 4 < 16" by (simp_all add: div_less_iff_less_mult)
  have "digits_binary (byte_text b) = get_binary (unat b div 2 ^ 4) 4 @ get_binary (unat b mod 2 ^ 4) 4"
    using digits_binary_append[of "[hexdig (unat (drop_bit 4 b))]" "[hexdig (unat (b AND 15))]"] digits_binary_hexdig[OF l(1)]
      digits_binary_hexdig[OF l(2)] by (simp add: byte_text_def d m)
  then show ?thesis using get_binary_append[of "unat b" 4 4] get_binary_mod[of "unat b" 4] by simp
qed

lemma digits_binary_text: "digits_binary (text_of data) = concat (map (\<lambda>b. get_binary (unat b) 8) data)"
  by (induction data) (simp_all add: text_of_def digits_binary_append byte_text_binary, simp add: digits_binary_def)

lemma bytes_of_bits_line: "bytes_of_bits (digits_binary (text_of data)) = data"
proof -
  have "pieces 8 (digits_binary (text_of data)) = map (\<lambda>b. get_binary (unat b) 8) data"
    unfolding digits_binary_text by (rule pieces_concat) simp_all
  moreover have "unat b mod 2 ^ 8 = unat b" for b :: u8 using unsigned_less[of b, where 'a = nat] by simp
  then have "(of_nat (bin_val (get_binary (unat b) 8)) :: u8) = b" for b :: u8 
    by (simp only: bin_val_get_binary) simp
  ultimately show ?thesis by (simp add: bytes_of_bits_def comp_def)
qed

lemma length_text_of [simp]: "length (text_of data) = 2 * length data"
  by (induction data) (simp_all add: text_of_def byte_text_def)

lemma concat_digits: "concat (map digits_binary xs) = digits_binary (concat xs)"
  by (induction xs) (simp_all add: digits_binary_append, simp add: digits_binary_def)

lemma length_digits_binary [simp]: "length (digits_binary s) = 4 * length s"
  by (induction s) (simp_all add: digits_binary_def get_bin_str_def)

lemma convert_binary_ok:
  assumes "4 dvd length data"
  shows "concat (convert_binary (text_of data)) = digits_binary (text_of data)"
    and "\<forall>w \<in> set (convert_binary (text_of data)). row_bits 32 w"
    and "4 * length (convert_binary (text_of data)) = length data"
proof -
  have d: "8 dvd length (text_of data)" using assms by (auto simp: dvd_def)
  show "concat (convert_binary (text_of data)) = digits_binary (text_of data)"
    by (simp add: convert_binary_def concat_digits concat_pieces)
  show "4 * length (convert_binary (text_of data)) = length data"
    using length_pieces[OF d] by (simp add: convert_binary_def)
  have "bits (digits_binary s)" for s
    by (induction s) (simp_all add: digits_binary_def get_bin_str_def)
  then show "\<forall>w \<in> set (convert_binary (text_of data)). row_bits 32 w"
    using pieces_lengths[OF d] by (auto simp: convert_binary_def row_bits_def)
qed

text \<open>The first word and the planes of a line, and the symbols of the reference encoder.\<close>

definition bpc_planes :: "u8 list \<Rightarrow> (string \<times> string list \<times> string list) cxx" where
  "bpc_planes data =
     bindE (get_delta_value (convert_binary (text_of data))) (\<lambda>raw.
     bindE (rotate_mat_90 (tl raw)) (\<lambda>dbp. bindE (get_dbx dbp) (\<lambda>dbx. Inr (hd raw, dbp, dbx))))"

definition plane_width :: "u8 list \<Rightarrow> nat" where "plane_width data = length data div 4 - 1"

definition bpc_symbols :: "u8 list \<Rightarrow> bpc_sym list cxx" where
  "bpc_symbols data = bindE (bpc_planes data) (\<lambda>(base, dbp, dbx). Inr (syms (plane_width data) (zip dbp dbx)))"

definition bpc_decode :: "nat \<Rightarrow> string \<Rightarrow> u8 list option" where
  "bpc_decode n s = (case base_read s of None \<Rightarrow> None
     | Some (base, r) \<Rightarrow> map_option (\<lambda>ss. bytes_of_bits (concat (restore base (unrotate n
          (resolve (zeros n) (concat (map (expand n) ss))))))) (decode_stream bpc_read r))"

lemma bpc_planes_ok:
  assumes "4 dvd length data" and "8 \<le> length data"
  defines "n \<equiv> plane_width data"
  shows "\<exists>base dbp dbx. bpc_planes data = Inr (base, dbp, dbx) \<and> length base = 32 \<and> length dbp = 33 \<and> length dbx = 33 \<and>
    (\<forall>p \<in> set dbp. row_bits n p) \<and> (\<forall>x \<in> set dbx. row_bits n x) \<and>
    (\<forall>ss. list_all2 (plane_spec (zeros n)) ss (zip dbp dbx) \<longrightarrow>
       bytes_of_bits (concat (restore base (unrotate n (resolve (zeros n) ss)))) = data)"
proof -
  note c = convert_binary_ok[OF assms(1)]
  obtain base ws where w: "convert_binary (text_of data) = base # ws" using c(3) assms(2) by (cases "convert_binary (text_of data)") auto
  have n: "length ws = n" "ws \<noteq> []" using c(3) assms(2) w by (auto simp: n_def plane_width_def)
  obtain dbp where dbp: "rotate_mat_90 (deltas base ws) = Inr dbp" "length dbp = 33" "\<forall>p \<in> set dbp. row_bits n p"
    "unrotate n dbp = deltas base ws"
    using rotate_ok[of "deltas base ws" 33] deltas_bits[of base ws] n by (metis length_0_conv length_deltas)
  have "dbp \<noteq> []" using dbp(2) by auto
  from get_dbx_ok[OF this dbp(3)] obtain dbx where dbx: "get_dbx dbp = Inr dbx" "length dbx = 33" "\<forall>x \<in> set dbx. row_bits n x"
    "\<And>ss. list_all2 (plane_spec (zeros n)) ss (zip dbp dbx) \<Longrightarrow> resolve (zeros n) ss = dbp" using dbp(2) by auto
  have "restore base (deltas base ws) = base # ws" using restore_deltas c(2) w by simp
  then have "bytes_of_bits (concat (restore base (unrotate n dbp))) = data"
    using c(1) w bytes_of_bits_line[of data] dbp(4) by simp
  moreover have "bpc_planes data = Inr (base, dbp, dbx)" using dbp(1) dbx(1) w by (simp add: bpc_planes_def get_delta_value_def)
  moreover have "length base = 32" using c(2) w by (simp add: row_bits_def)
  ultimately show ?thesis using dbp(2,3) dbx(2-4) by auto
qed

lemma bpc_compress_planes:
  assumes "bpc_planes data = Inr (base, dbp, dbx)"
  shows "bpc_compress data = bindE (do_actual_encode dbp dbx) (\<lambda>output. Inr (compress_base base @ output))"
  using assms by (auto simp: bpc_planes_def bpc_compress_def text_of_def bindE_Inr_iff)

lemma bpc_compress_symbols:
  assumes "4 dvd length data" and "8 \<le> length data"
  shows "\<exists>base dbp dbx ss. bpc_planes data = Inr (base, dbp, dbx) \<and> bpc_symbols data = Inr ss \<and> length base = 32 \<and>
    length (zip dbp dbx) = 33 \<and> (\<forall>px \<in> set (zip dbp dbx). length (snd px) = plane_width data) \<and>
    ss = syms (plane_width data) (zip dbp dbx) \<and>
    bpc_compress data = Inr (compress_base base @ concat (map sym_emit ss)) \<and>
    bytes_of_bits (concat (restore base (unrotate (plane_width data) (resolve (zeros (plane_width data))
       (concat (map (expand (plane_width data)) ss)))))) = data"
proof -
  let ?n = "plane_width data"
  obtain base dbp dbx where p: "bpc_planes data = Inr (base, dbp, dbx)" "length base = 32" "length dbp = 33" "length dbx = 33"
    "\<forall>p \<in> set dbp. row_bits ?n p" "\<forall>x \<in> set dbx. row_bits ?n x"
    "\<And>ss. list_all2 (plane_spec (zeros ?n)) ss (zip dbp dbx) \<Longrightarrow>
       bytes_of_bits (concat (restore base (unrotate ?n (resolve (zeros ?n) ss)))) = data"
    using bpc_planes_ok[OF assms] by blast
  let ?ss = "syms ?n (zip dbp dbx)"
  have z: "\<forall>px \<in> set (zip dbp dbx). length (snd px) = ?n" using p(6) by (auto simp: row_bits_def dest: set_zip_rightD)
  have "dbp \<noteq> []" using p(3) by auto
  then have "do_actual_encode dbp dbx = Inr (concat (map sym_emit ?ss))"
    using p(3-6) by (intro do_actual_encode_syms) (auto simp: row_bits_def)
  then have "bpc_compress data = Inr (compress_base base @ concat (map sym_emit ?ss))"
    using bpc_compress_planes[OF p(1)] by simp
  moreover have "bpc_symbols data = Inr ?ss" by (simp add: bpc_symbols_def p(1))
  moreover have "length (zip dbp dbx) = 33" using p(3,4) by simp
  ultimately show ?thesis using p(1,2) p(7)[OF syms_expand[OF z]] z by blast
qed

text \<open>Claim C25. Lossless lines of bit-plane compression (hpcl_comp_bpc_pl_proc.h \<open>run\<close>): when no plane of a line of 8 to 132
  bytes is sent as it is, the bits that are counted determine the line; a reader recovers all of its bytes.\<close>

theorem bpc_lossless:
  assumes "4 dvd length data" and "8 \<le> length data" and "length data \<le> 132"
    and "bpc_symbols data = Inr ss" and "\<forall>s \<in> set ss. \<not> is_raw s"
  shows "\<exists>out. bpc_compress data = Inr out \<and> bpc_decode (plane_width data) out = Some data"
proof -
  obtain base dbp dbx where p: "length base = 32" "length (zip dbp dbx) = 33"
    "\<forall>px \<in> set (zip dbp dbx). length (snd px) = plane_width data" "ss = syms (plane_width data) (zip dbp dbx)"
    "bpc_compress data = Inr (compress_base base @ concat (map sym_emit ss))"
    "bytes_of_bits (concat (restore base (unrotate (plane_width data) (resolve (zeros (plane_width data))
       (concat (map (expand (plane_width data)) ss)))))) = data"
    using bpc_compress_symbols[OF assms(1,2)] assms(4) by auto
  have "plane_width data \<le> 32" using assms(3) by (simp add: plane_width_def)
  then have "\<forall>s \<in> set ss. sym_ok s" using syms_ok[OF p(3)] p(2,4) assms(5) by fastforce
  then have "decode_stream bpc_read (concat (map sym_emit ss)) = Some ss" by (rule bpc.decode_emit)
  then show ?thesis using base_read_base[OF p(1)] p(5,6) by (simp add: bpc_decode_def)
qed


lemma sym_emit_length: "sym_ok s \<or> is_raw s \<and> (\<forall>x. s = Raw_Plane x \<longrightarrow> length x \<le> n) \<Longrightarrow> length (sym_emit s) \<le> max 10 n"
  by (cases s) (auto simp: sym_ok_def is_raw_def sym_emit_def zero_code_def get_bin_str_def)

lemma syms_raw: "Raw_Plane x \<in> set (syms n ps) \<Longrightarrow> x \<in> snd ` set ps"
proof (induction n ps rule: syms.induct)
  case (2 n px ps)
  let ?k = "zero_front n (px # ps)"
  show ?case
  proof (cases "1 \<le> ?k")
    case True
    then have "Raw_Plane x \<in> set (syms n (drop ?k (px # ps)))" using "2.prems" by simp
    then have "x \<in> snd ` set (drop ?k (px # ps))" by (rule "2.IH"(1)[OF True])
    then show ?thesis using image_mono[OF set_drop_subset, of snd ?k "px # ps"] by (rule rev_subsetD)
  next
    case False
    then have "Raw_Plane x = classify n px \<or> Raw_Plane x \<in> set (syms n ps)" using "2.prems" by simp
    moreover have "Raw_Plane x = classify n px \<Longrightarrow> x = snd px" by (auto simp: classify_def split: option.splits if_splits)
    ultimately have "x = snd px \<or> x \<in> snd ` set ps" using "2.IH"(2)[OF False] by blast
    then show ?thesis by auto
  qed
qed simp

lemma length_syms: "length (syms n ps) \<le> length ps"
proof (induction n ps rule: syms.induct)
  case (2 n px ps)
  then show ?case by (cases "1 \<le> zero_front n (px # ps)") auto
qed simp

lemma length_compress_base: "length b = 32 \<Longrightarrow> 0 < length (compress_base b) \<and> length (compress_base b) \<le> 33"
  by (simp add: compress_base_def)

text \<open>Claim C26. The size of bit-plane compression (hpcl_comp_bpc_pl_proc.h \<open>run\<close>): a run on a line of whole words, two to 33 of
  them, ends without a fault and stores the bits of the reference encoder, the code of the first word and one code per
  symbol, and the same number rounded up to bytes; it is positive and at most 33 + 33 * max 10 n bits for n + 1 words.\<close>

theorem bpc_run_result:
  assumes "4 dvd length (m_real_data mf)" and "8 \<le> length (m_real_data mf)" and "length (m_real_data mf) \<le> 132"
  shows "\<exists>base dbp dbx ss mf' b. bpc_planes (m_real_data mf) = Inr (base, dbp, dbx) \<and> bpc_symbols (m_real_data mf) = Inr ss \<and>
    b = length (compress_base base) + (\<Sum>s\<leftarrow>ss. length (sym_emit s)) \<and> bpc_run mf = Inr mf' \<and>
    m_comp_data_bits mf' = int b \<and> m_comp_data_size mf' = ceil_div8 b \<and> length (m_compress_data mf') = ceil_div8 b \<and>
    m_real_data mf' = m_real_data mf \<and> 0 < b \<and> b \<le> 33 + 33 * max 10 (plane_width (m_real_data mf))"
proof -
  let ?d = "m_real_data mf" and ?n = "plane_width (m_real_data mf)"
  obtain base dbp dbx ss where p: "bpc_planes ?d = Inr (base, dbp, dbx)" "bpc_symbols ?d = Inr ss" "length base = 32"
    "length (zip dbp dbx) = 33" "\<forall>px \<in> set (zip dbp dbx). length (snd px) = ?n" "ss = syms ?n (zip dbp dbx)"
    "bpc_compress ?d = Inr (compress_base base @ concat (map sym_emit ss))"
    using bpc_compress_symbols[OF assms(1,2)] by blast
  let ?b = "length (compress_base base) + (\<Sum>s\<leftarrow>ss. length (sym_emit s))"
  have b: "length (compress_base base @ concat (map sym_emit ss)) = ?b" by (simp add: length_concat comp_def)
  have "bpc_run mf = Inr (init_size (set_comp_data_size mf (ceil_div8 ?b)\<lparr>m_comp_data_bits := int ?b\<rparr>))"
  proof -
    have "m_real_data mf \<noteq> []" using assms(2) by auto
    then show ?thesis using p(7) b by (simp add: bpc_run_def get_real_data_size_def set_comp_data_bits_def)
  qed
  moreover have "length (sym_emit s) \<le> max 10 ?n" if "s \<in> set ss" for s
  proof -
    have "?n \<le> 32" using assms(3) by (simp add: plane_width_def)
    then have "sym_ok s \<or> is_raw s" using syms_ok[OF p(5)] p(4,6) that by simp
    moreover have "length x \<le> ?n" if "s = Raw_Plane x" for x
      using syms_raw[of x ?n "zip dbp dbx"] p(5,6) \<open>s \<in> set ss\<close> that by auto
    ultimately show ?thesis by (intro sym_emit_length) auto
  qed
  then have "(\<Sum>s\<leftarrow>ss. length (sym_emit s)) \<le> max 10 ?n * length ss" by (intro sum_list_le_const) blast
  moreover have "length ss \<le> 33" by (metis length_syms p(4,6))
  then have "max 10 ?n * length ss \<le> 33 * max 10 ?n" using mult_le_mono2[of "length ss" 33 "max 10 ?n"] by (simp only: mult.commute)
  ultimately have "?b \<le> 33 + 33 * max 10 ?n" "0 < ?b" using length_compress_base[OF p(3)] by linarith+
  then show ?thesis using p(1,2) \<open>bpc_run mf = _\<close> by (auto simp: set_comp_data_size_def)
qed

end
