(* ===== verification/Bpc_Run.thy ===== *)
theory Bpc_Run
  imports Bpc_Correct Comp_Pipeline
begin

text \<open>
  The pipeline of bit-plane compression (hpcl_comp_bpc_pl.h), which moves its registers as the FPC pipeline does, and
  lines evaluated on their numbers: a witness of the lossless case and two lines with the same output.
\<close>

section \<open>The pipeline\<close>

text \<open>With one stage the type of the stage is never set.\<close>

definition bpc_create :: "nat \<Rightarrow> nat \<Rightarrow> ('f, 'a) comp_pl cxx" where
  "bpc_create n comp_buffer_size =
     (if n = 0 then Inl Out_Of_Range
      else Inr \<lparr>pl_input = pl_data_new, pl_types = (if n = 1 then [PL_NONE] else fpc_types n),
                pl_outputs = replicate n pl_data_new, m_comp_buffer = [], m_comp_buffer_size = comp_buffer_size\<rparr>)"

definition bpc_pl_run :: "('f, mem_fetch) comp_pl \<Rightarrow> (('f, mem_fetch) comp_pl \<times> mem_fetch option) cxx" where
  "bpc_pl_run pl = foldE (fpc_stage bpc_run) (pl, None) (rev [0..<length (pl_outputs pl)])"

definition bpc_cycle :: "('f, mem_fetch) comp_pl \<Rightarrow> mem_fetch option \<Rightarrow> (('f, mem_fetch) comp_pl \<times> mem_fetch option) cxx" where
  "bpc_cycle pl x = bpc_pl_run (feed pl x)"

interpretation bpc_line: delay_line bpc_cycle "\<lambda>pl. \<exists>n. fpc_ready n pl" flight bpc_run
proof unfold_locales
  fix s :: "('f, mem_fetch) comp_pl" and x and C :: "mem_fetch \<Rightarrow> mem_fetch"
  assume "\<exists>n. fpc_ready n s" and c: "\<And>a. x = Some a \<Longrightarrow> bpc_run a = Inr (C a)"
  then obtain n where "fpc_ready n (feed s x)" by (auto simp: feed_ready)
  from fpc_pl_run_shift[OF this, of bpc_run C] c
  show "\<exists>t. bpc_cycle s x = Inr (t, hd (flight s)) \<and> (\<exists>n. fpc_ready n t) \<and> flight t = tl (flight s) @ [map_option C x]"
    by (auto simp: bpc_cycle_def bpc_pl_run_def fpc_pl_run_def feed_ready)
next
  fix s :: "('f, mem_fetch) comp_pl"
  assume "\<exists>n. fpc_ready n s"
  then show "flight s \<noteq> []" by (rule fpc_line.under_way_ne)
qed

lemma bpc_create_flight:
  assumes "bpc_create n bufsz = Inr pl" and "2 \<le> n"
  shows "fpc_ready n pl" and "flight pl = replicate (n - 1) None"
  using assms by (auto simp: bpc_create_def fpc_ready_def flight_def held_def map_replicate_const split: if_splits)

text \<open>The pipeline of \<open>n\<close> stages hands its inputs out compressed, in order, \<open>n - 1\<close> cycles later.\<close>

theorem bpc_pipeline_delay:
  assumes "bpc_create n bufsz = Inr (pl :: ('f, mem_fetch) comp_pl)" and "2 \<le> n"
    and "\<And>mf. Some mf \<in> set xs \<Longrightarrow> bpc_run mf = Inr (C mf)"
  shows "\<exists>pl'. cycles bpc_cycle pl xs = Inr (pl', take (length xs) (replicate (n - 1) None @ map (map_option C) xs))"
proof -
  note c = bpc_create_flight[OF assms(1,2)]
  then have "\<exists>n. fpc_ready n pl" by blast
  from bpc_line.cycles_delay[OF this assms(3)] c(2) show ?thesis by auto
qed

section \<open>Lines given by numbers\<close>

definition word_bytes :: "nat \<Rightarrow> u8 list" where
  "word_bytes x = [of_nat (x div 2 ^ 24), of_nat (x div 2 ^ 16), of_nat (x div 2 ^ 8), of_nat x]"

definition line_bytes :: "nat list \<Rightarrow> u8 list" where "line_bytes xs = concat (map word_bytes xs)"

lemma get_binary_of_nat: "get_binary (unat (of_nat x :: u8)) 8 = get_binary x 8"
  using get_binary_mod[of x 8] by (simp add: unsigned_of_nat take_bit_eq_mod)

lemma word_bytes_binary: "digits_binary (text_of (word_bytes x)) = get_binary x 32"
proof -
  have "get_binary x 32 = get_binary (x div 2 ^ 24) 8 @ get_binary (x div 2 ^ 16) 8 @ get_binary (x div 2 ^ 8) 8 @ get_binary x 8"
    using get_binary_append[of x 24 8] get_binary_append[of "x div 2 ^ 8" 16 8] get_binary_append[of "x div 2 ^ 16" 8 8]
    by (simp add: div_mult2_eq[symmetric])
  then show ?thesis by (simp add: digits_binary_text word_bytes_def get_binary_of_nat)
qed

lemma text_line: "text_of (line_bytes xs) = concat (map (\<lambda>x. text_of (word_bytes x)) xs)"
  by (induction xs) (simp_all add: line_bytes_def text_of_def)

lemma convert_line: "convert_binary (text_of (line_bytes xs)) = map (\<lambda>x. get_binary x 32) xs"
proof -
  have "pieces 8 (text_of (line_bytes xs)) = map (\<lambda>x. text_of (word_bytes x)) xs"
    unfolding text_line by (rule pieces_concat) (simp_all add: word_bytes_def)
  then show ?thesis by (simp add: convert_binary_def word_bytes_binary comp_def)
qed

lemma get_num_binary:
  assumes "x < 2 ^ 31"
  shows "get_num (get_binary x 32) = int x"
proof -
  have "get_binary x 32 = get_binary (x div 2 ^ 31) 1 @ get_binary x 31" using get_binary_append[of x 1 31] by simp
  then have h: "get_binary x 32 = CHR ''0'' # get_binary x 31" using assms by (simp add: get_binary_Suc[of _ 0, simplified])
  have "get_num (get_binary x 32) = get_num_pos 0 (get_binary x 32)" unfolding h by (simp add: get_num_def)
  also have "\<dots> = int (bin_val (get_binary x 32))"
    using get_num_pos_val[of "get_binary x 32" 0] length_get_binary[of x 32] by (metis add_0 bits_get_binary even_zero list.size(3) mult_zero_left zero_neq_numeral)
  also have "\<dots> = int x" using assms by (simp add: bin_val_get_binary)
  finally show ?thesis .
qed

text \<open>The differences of neighbours of a rising list.\<close>

fun steps :: "nat \<Rightarrow> nat list \<Rightarrow> nat list" where
  "steps a [] = []"
| "steps a (b # bs) = (b - a) # steps b bs"

lemma calc_delta_nat:
  assumes "a \<le> b" and "b < 2 ^ 31"
  shows "calc_delta (get_binary a 32) (get_binary b 32) = get_binary (b - a) 33"
proof -
  have "a < 2 ^ 31" using assms by simp
  then have "get_num (get_binary b 32) - get_num (get_binary a 32) = int (b - a)"
    using get_num_binary[of a] get_num_binary[OF assms(2)] assms(1) by simp
  moreover have "int (b - a) mod 2 ^ 36 = int (b - a)" using assms by simp
  ultimately show ?thesis unfolding calc_delta_binary by (simp only: nat_int)
qed

lemma deltas_steps:
  assumes "sorted (a # bs)" and "\<forall>b \<in> set bs. b < 2 ^ 31"
  shows "deltas (get_binary a 32) (map (\<lambda>x. get_binary x 32) bs) = map (\<lambda>d. get_binary d 33) (steps a bs)"
  using assms by (induction a bs rule: steps.induct) (simp_all add: calc_delta_nat)

lemma get_binary_nth: "k < n \<Longrightarrow> get_binary d n ! (n - 1 - k) = digit_char (d div 2 ^ k mod 2)"
proof (induction n arbitrary: d k)
  case (Suc n)
  show ?case
  proof (cases k)
    case 0
    then show ?thesis by (simp add: get_binary_Suc nth_append)
  next
    case (Suc j)
    then have "get_binary (d div 2) n ! (n - 1 - j) = digit_char (d div 2 div 2 ^ j mod 2)" using Suc.IH[of j "d div 2"] Suc.prems by simp
    moreover have "n - k = n - 1 - j" "n - k < n" using Suc Suc.prems by simp_all
    ultimately show ?thesis using Suc by (simp add: get_binary_Suc nth_append div_mult2_eq)
  qed
qed simp

definition plane :: "nat list \<Rightarrow> nat \<Rightarrow> string" where
  "plane ds k = map (\<lambda>d. digit_char (d div 2 ^ k mod 2)) ds"

lemma rotate_steps:
  assumes "ds \<noteq> []"
  shows "rotate_mat_90 (map (\<lambda>d. get_binary d 33) ds) = Inr (map (plane ds) [0..<33])"
proof -
  obtain e es where ds: "ds = e # es" using assms by (cases ds) auto
  have "map (\<lambda>row. row ! (33 - 1 - k)) (map (\<lambda>d. get_binary d 33) ds) = plane ds k" if "k < 33" for k
    using get_binary_nth[OF that] by (simp add: plane_def)
  then show ?thesis by (simp add: rotate_mat_90_def ds)
qed

text \<open>Numbers below 128 have seven planes.\<close>

lemma planes_small:
  assumes "\<forall>d \<in> set ds. d < 128"
  shows "map (plane ds) [0..<33] = map (plane ds) [0, 1, 2, 3, 4, 5, 6] @ replicate 26 (zeros (length ds))"
proof -
  have z: "plane ds k = zeros (length ds)" if "7 \<le> k" for k
  proof -
    have "d div 2 ^ k mod 2 = 0" if "d \<in> set ds" for d
    proof -
      have "(2::nat) ^ 7 \<le> 2 ^ k" using \<open>7 \<le> k\<close> by (intro power_increasing) simp_all
      then have "d < 2 ^ k" using assms that by fastforce
      then show ?thesis by simp
    qed
    then show ?thesis by (simp add: plane_def zeros_def map_replicate_const[symmetric])
  qed
  have "[0..<33] = [0, 1, 2, 3, 4, 5, 6] @ [7..<33]" by (simp add: upt_rec)
  moreover have "map (plane ds) [7..<33] = replicate 26 (zeros (length ds))"
  proof -
    have "map (plane ds) [7..<33] = map (\<lambda>_. zeros (length ds)) [7..<33]"
      by (rule map_cong[OF refl], rule z) (simp only: set_upt atLeastLessThan_iff)
    also have "33 - 7 = (26::nat)" by simp
    then have "map (\<lambda>_. zeros (length ds)) [7..<33] = replicate 26 (zeros (length ds))"
      by (simp only: map_replicate_const length_upt)
    finally show ?thesis .
  qed
  ultimately show ?thesis by (metis map_append)
qed

lemma bpc_planes_line:
  assumes "sorted (a # b # bs)" and "\<forall>x \<in> set (b # bs). x < 2 ^ 31" and "\<forall>d \<in> set (steps a (b # bs)). d < 128"
  shows "bpc_planes (line_bytes (a # b # bs)) =
    bindE (get_dbx (map (plane (steps a (b # bs))) [0, 1, 2, 3, 4, 5, 6] @ replicate 26 (zeros (length (b # bs)))))
      (\<lambda>dbx. Inr (get_binary a 32, map (plane (steps a (b # bs))) [0, 1, 2, 3, 4, 5, 6] @ replicate 26 (zeros (length (b # bs))), dbx))"
proof -
  have l: "length (steps a xs) = length xs" for a xs by (induction a xs rule: steps.induct) simp_all
  have "steps a (b # bs) \<noteq> []" by simp
  then have "rotate_mat_90 (deltas (get_binary a 32) (map (\<lambda>x. get_binary x 32) (b # bs))) =
      Inr (map (plane (steps a (b # bs))) [0, 1, 2, 3, 4, 5, 6] @ replicate 26 (zeros (length (b # bs))))"
    using rotate_steps[of "steps a (b # bs)"] planes_small[OF assms(3)] deltas_steps[OF assms(1,2)] l[of a "b # bs"] by simp
  then show ?thesis unfolding bpc_planes_def convert_line by (simp add: get_delta_value_def)
qed


lemmas small_rows = xor_row_def xor_char_eqs zeros_def sole_def classify_def zero_front_def sym_emit_def zero_code_def get_bin_str_def

text \<open>Two lines of eight words, by their words and by their planes.\<close>

definition first_line :: "u8 list" where "first_line = line_bytes [0, 127, 253, 380, 507, 634, 760, 886]"
definition second_line :: "u8 list" where "second_line = line_bytes [0, 127, 191, 318, 445, 572, 636, 700]"

lemma dbx_zeros: "get_dbx (replicate (Suc m) (zeros n)) = Inr (replicate (Suc m) (zeros n))"
  by (induction m) (simp_all add: get_xor_def xor_row_def[symmetric] xor_row_zeros)

lemma dbx_tail: "row_bits n x \<Longrightarrow> get_dbx (x # replicate (Suc m) (zeros n)) = Inr (x # replicate (Suc m) (zeros n))"
  using dbx_zeros[of m n] by (simp add: get_xor_def xor_row_def[symmetric] xor_row_zeros) (simp add: row_bits_def)

lemma replicates:
  "zeros 7 = ''0000000''" "replicate 7 c = [c, c, c, c, c, c, c]" "replicate 6 x = [x, x, x, x, x, x]" "replicate 5 x = [x, x, x, x, x]"
  "zeros 0 = []" "zeros (Suc n) = CHR ''0'' # zeros n"
  by (simp_all add: zeros_def numeral_eq_Suc)

lemma dbx_ones_tail: "get_dbx (''1111111'' # replicate 26 ''0000000'') = Inr (''1111111'' # replicate 26 ''0000000'')"
  using dbx_tail[of 7 "''1111111''" 25] by (simp add: row_bits_def is_bit_def replicates)

lemma get_binary_zero: "get_binary 0 n = zeros n"
  by (induction n) (simp_all add: get_binary_Suc zeros_def replicate_append_same)

lemma first_planes:
  "bpc_planes first_line = Inr (zeros 32, ''1011100'' # replicate 6 ''1111111'' @ replicate 26 (zeros 7),
     ''0100011'' # replicate 5 (zeros 7) @ ''1111111'' # replicate 26 (zeros 7))"
  by (simp add: first_line_def bpc_planes_line plane_def get_xor_def xor_char_eqs dbx_ones_tail get_binary_zero replicates)

lemma second_planes:
  "bpc_planes second_line = Inr (zeros 32, replicate 6 ''1011100'' @ ''1111111'' # replicate 26 (zeros 7),
     replicate 5 (zeros 7) @ ''0100011'' # ''1111111'' # replicate 26 (zeros 7))"
  by (simp add: second_line_def bpc_planes_line plane_def get_xor_def xor_char_eqs dbx_ones_tail get_binary_zero replicates)


lemma length_line_bytes [simp]: "length (line_bytes xs) = 4 * length xs"
  by (induction xs) (simp_all add: line_bytes_def word_bytes_def)

lemma syms_zeros: "syms n (replicate (Suc m) (p, zeros n)) = [Zero_Planes (Suc m)]"
  by (simp add: zero_front_def)

lemma syms_tail: "syms 7 (replicate 26 (''0000000'', ''0000000'')) = [Zero_Planes 26]"
  using syms_zeros[of 7 25 "zeros 7"] by (simp add: replicates del: syms.simps)

lemma first_symbols:
  "bpc_symbols first_line = Inr [Raw_Plane ''0100011'', Zero_Planes 5, All_Ones, Zero_Planes 26]"
proof -
  have "plane_width first_line = 7" by (simp add: plane_width_def first_line_def)
  then show ?thesis unfolding bpc_symbols_def first_planes
    by (simp add: replicates zero_front_def classify_def sole_def syms_tail)
qed

lemma second_symbols:
  "bpc_symbols second_line = Inr [Zero_Planes 5, Raw_Plane ''0100011'', All_Ones, Zero_Planes 26]"
proof -
  have "plane_width second_line = 7" by (simp add: plane_width_def second_line_def)
  then show ?thesis unfolding bpc_symbols_def second_planes
    by (simp add: replicates zero_front_def classify_def sole_def syms_tail)
qed


lemma compress_by:
  assumes "4 dvd length data" and "8 \<le> length data" and "bpc_planes data = Inr (base, dbp, dbx)" and "bpc_symbols data = Inr ss"
  shows "bpc_compress data = Inr (compress_base base @ concat (map sym_emit ss))"
proof -
  obtain base' dbp' dbx' ss' where "bpc_planes data = Inr (base', dbp', dbx')" "bpc_symbols data = Inr ss'"
    "bpc_compress data = Inr (compress_base base' @ concat (map sym_emit ss'))"
    using bpc_compress_symbols[OF assms(1,2)] by blast
  then show ?thesis using assms(3,4) by simp
qed

text \<open>Bit-plane compression loses lines (hpcl_comp_bpc_pl_proc.h \<open>encode_others\<close>): the prefix of a plane that is
  sent as it is goes into \<open>uncomp\<close> and is not sent, so that the code is not uniquely decodable; two different lines of
  32 bytes have the same output.\<close>

theorem bpc_ambiguous:
  "first_line \<noteq> second_line \<and> length first_line = 32 \<and> length second_line = 32 \<and>
   (\<exists>out. bpc_compress first_line = Inr out \<and> bpc_compress second_line = Inr out)"
proof -
  have l: "length first_line = 32" "length second_line = 32" by (simp_all add: first_line_def second_line_def)
  have a: "bpc_compress first_line = Inr (compress_base (zeros 32) @ concat (map sym_emit [Raw_Plane ''0100011'', Zero_Planes 5, All_Ones, Zero_Planes 26]))"
    using compress_by[OF _ _ first_planes first_symbols] l by simp
  have b: "bpc_compress second_line = Inr (compress_base (zeros 32) @ concat (map sym_emit [Zero_Planes 5, Raw_Plane ''0100011'', All_Ones, Zero_Planes 26]))"
    using compress_by[OF _ _ second_planes second_symbols] l by simp
  have "sym_emit (Zero_Planes 5) = ''0100011''"
  proof -
    have "get_binary 3 5 = ''00011''" by code_simp
    then show ?thesis by (simp add: sym_emit_def zero_code_def get_bin_str_def)
  qed
  then have "bpc_compress first_line = bpc_compress second_line" unfolding a b by (simp add: sym_emit_def)
  moreover have "first_line \<noteq> second_line" using first_symbols second_symbols by auto
  moreover have "\<exists>out. bpc_compress second_line = Inr out" using b by (rule exI)
  ultimately show ?thesis using l by simp
qed

definition small_line :: "u8 list" where "small_line = line_bytes [5, 6, 8, 12]"

lemma small_planes:
  "bpc_planes small_line = Inr (get_binary 5 32, ''100'' # ''010'' # ''001'' # replicate 30 (zeros 3),
     ''110'' # ''011'' # ''001'' # replicate 30 (zeros 3))"
proof -
  have "get_dbx (''001'' # replicate 30 (zeros 3)) = Inr (''001'' # replicate 30 (zeros 3))"
    using dbx_tail[of 3 "''001''" 29] by (simp add: row_bits_def is_bit_def)
  moreover have "zeros 3 = ''000''" "replicate 30 x = x # x # x # x # replicate 26 x" for x :: string
    by (simp_all add: zeros_def numeral_eq_Suc)
  ultimately show ?thesis
    by (simp add: small_line_def bpc_planes_line plane_def get_xor_def xor_char_eqs replicates)
qed

lemma small_symbols: "bpc_symbols small_line = Inr [Two_Ones 0, Two_Ones 1, One_One 2, Zero_Planes 30]"
proof -
  have "plane_width small_line = 3" by (simp add: plane_width_def small_line_def)
  moreover have "syms 3 (replicate 30 (''000'', ''000'')) = [Zero_Planes 30]" "zeros 3 = ''000''" "replicate 3 c = [c, c, c]" for c :: char
    using syms_zeros[of 3 29 "''000''"] by (simp_all add: zeros_def numeral_eq_Suc del: syms.simps)
  ultimately show ?thesis unfolding bpc_symbols_def small_planes
    by (simp add: replicates zero_front_def classify_def sole_def)
qed

theorem bpc_lossless_witness: "\<exists>out. bpc_compress small_line = Inr out \<and> bpc_decode 3 out = Some small_line"
proof -
  have l: "4 dvd length small_line" "8 \<le> length small_line" "length small_line \<le> 132" "plane_width small_line = 3"
    by (simp_all add: small_line_def plane_width_def)
  have "\<forall>s \<in> set [Two_Ones 0, Two_Ones 1, One_One 2, Zero_Planes 30]. \<not> is_raw s" by (simp add: is_raw_def)
  from bpc_lossless[OF l(1-3) small_symbols this] l(4) show ?thesis by simp
qed

theorem bpc_run_result_witness:
  "\<exists>mf'. bpc_run (demo_fetch small_line) = Inr mf' \<and> 0 < m_comp_data_bits mf' \<and> m_comp_data_bits mf' \<le> 363"
proof -
  have d: "m_real_data (demo_fetch small_line) = small_line" by (simp add: demo_fetch_def)
  have l: "4 dvd length (m_real_data (demo_fetch small_line))" "8 \<le> length (m_real_data (demo_fetch small_line))"
    "length (m_real_data (demo_fetch small_line)) \<le> 132" "plane_width (m_real_data (demo_fetch small_line)) = 3"
    unfolding d by (simp_all add: small_line_def plane_width_def)
  have "\<exists>mf' b. bpc_run (demo_fetch small_line) = Inr mf' \<and> m_comp_data_bits mf' = int b \<and> 0 < b \<and> b \<le> 33 + 33 * max 10 (3::nat)"
    using bpc_run_result[OF l(1-3)] unfolding l(4) by metis
  then show ?thesis by auto
qed

end
