(* ===== verification/Instructions.thy ===== *)
theory Instructions
  imports Cxx_Prelude
begin

text \<open>
  The part of the decoded instruction that the scoreboard and the reconvergence stack read
  (\<open>inst_t\<close> and \<open>warp_inst_t\<close> of abstract_hardware_model.h): the operation, the memory space and the
  registers it names.  Register numbers are positive where an operand is present and 0 where it is
  not.
\<close>

datatype op_type = NO_OP | ALU_OP | SFU_OP | ALU_SFU_OP | LOAD_OP | STORE_OP | BRANCH_OP |
  BARRIER_OP | MEMORY_BARRIER_OP | CALL_OPS | RET_OPS

datatype memory_space = undefined_space | reg_space | local_space | shared_space |
  param_space_unclassified | param_space_kernel | param_space_local | const_space | tex_space |
  surf_space | global_space | generic_space | instruction_space

datatype memory_op_t = no_memory_op | memory_load | memory_store

record inst =
  i_warp_id :: nat
  i_op :: op_type
  i_memory_op :: memory_op_t
  i_space :: memory_space
  i_out :: "nat list"
  i_in :: "nat list"
  i_pred :: int
  i_ar1 :: int
  i_ar2 :: int

definition is_load :: "inst \<Rightarrow> bool" where
  "is_load i = (i_op i = LOAD_OP \<or> i_memory_op i = memory_load)"

definition is_store :: "inst \<Rightarrow> bool" where
  "is_store i = (i_op i = STORE_OP \<or> i_memory_op i = memory_store)"

definition space_is_const :: "memory_space \<Rightarrow> bool" where
  "space_is_const s = (s = const_space \<or> s = param_space_kernel)"

definition space_is_local :: "memory_space \<Rightarrow> bool" where
  "space_is_local s = (s = local_space \<or> s = param_space_local)"

text \<open>The four operand slots that are in use, as the loops \<open>for (r = 0; r < 4; r++) if (out[r] > 0)\<close>
  visit them.\<close>

definition used :: "nat list \<Rightarrow> nat list" where
  "used rs = filter (\<lambda>r. 0 < r) (take 4 rs)"

lemma set_used: "set (used rs) = {r \<in> set (take 4 rs). 0 < r}"
  by (auto simp: used_def)

end
