(* ===== verification/Scoreboard.thy ===== *)
theory Scoreboard
  imports Instructions
begin

text \<open>
  The scoreboard of a shader core (scoreboard.cc): for every warp the registers with a pending write
  and those that wait for a long operation.  The state is the two vectors of sets; indexing a vector
  past its end is undefined.  \<open>abort\<close> of \<open>reserveRegister\<close> is the fault \<open>Abort_Called\<close>.  The printing of
  \<open>printContents\<close> is left out.
\<close>

record scoreboard =
  reg_table :: "nat set list"
  longopregs :: "nat set list"

definition Scoreboard :: "nat \<Rightarrow> scoreboard" where
  "Scoreboard n_warps = \<lparr>reg_table = replicate n_warps {}, longopregs = replicate n_warps {}\<rparr>"

definition row :: "nat set list \<Rightarrow> nat \<Rightarrow> nat set cxx" where
  "row t wid = (if wid < length t then Inr (t ! wid) else Inl Undefined_Behaviour)"

definition reserveRegister :: "scoreboard \<Rightarrow> nat \<Rightarrow> nat \<Rightarrow> scoreboard cxx" where
  "reserveRegister sb wid regnum =
     bindE (row (reg_table sb) wid) (\<lambda>s.
       if regnum \<in> s then Inl Abort_Called
       else Inr (sb\<lparr>reg_table := (reg_table sb)[wid := insert regnum s]\<rparr>))"

definition releaseRegister :: "scoreboard \<Rightarrow> nat \<Rightarrow> nat \<Rightarrow> scoreboard cxx" where
  "releaseRegister sb wid regnum =
     bindE (row (reg_table sb) wid) (\<lambda>s.
       if regnum \<notin> s then Inr sb
       else Inr (sb\<lparr>reg_table := (reg_table sb)[wid := s - {regnum}]\<rparr>))"

definition islongop :: "scoreboard \<Rightarrow> nat \<Rightarrow> nat \<Rightarrow> bool cxx" where
  "islongop sb warp_id regnum = bindE (row (longopregs sb) warp_id) (\<lambda>s. Inr (regnum \<in> s))"

definition mark_longop :: "scoreboard \<Rightarrow> nat \<Rightarrow> nat \<Rightarrow> scoreboard cxx" where
  "mark_longop sb wid regnum =
     bindE (row (longopregs sb) wid) (\<lambda>s.
       Inr (sb\<lparr>longopregs := (longopregs sb)[wid := insert regnum s]\<rparr>))"

definition erase_longop :: "scoreboard \<Rightarrow> nat \<Rightarrow> nat \<Rightarrow> scoreboard cxx" where
  "erase_longop sb wid regnum =
     bindE (row (longopregs sb) wid) (\<lambda>s.
       Inr (sb\<lparr>longopregs := (longopregs sb)[wid := s - {regnum}]\<rparr>))"

definition long_space :: "memory_space \<Rightarrow> bool" where
  "long_space s = (s = global_space \<or> s = local_space \<or> s = param_space_kernel \<or>
     s = param_space_local \<or> s = param_space_unclassified \<or> s = tex_space)"

definition reserveRegisters :: "scoreboard \<Rightarrow> inst \<Rightarrow> scoreboard cxx" where
  "reserveRegisters sb i =
     bindE (foldE (\<lambda>s r. reserveRegister s (i_warp_id i) r) sb (used (i_out i))) (\<lambda>sb1.
       if is_load i \<and> long_space (i_space i)
       then foldE (\<lambda>s r. mark_longop s (i_warp_id i) r) sb1 (used (i_out i))
       else Inr sb1)"

definition releaseRegisters :: "scoreboard \<Rightarrow> inst \<Rightarrow> scoreboard cxx" where
  "releaseRegisters sb i =
     foldE (\<lambda>s r. bindE (releaseRegister s (i_warp_id i) r)
                    (\<lambda>s1. erase_longop s1 (i_warp_id i) r)) sb (used (i_out i))"

text \<open>\<open>inst_regs\<close>: every register the instruction names, predicate and address registers included.\<close>

definition inst_regs :: "inst \<Rightarrow> nat set" where
  "inst_regs i = set (used (i_out i)) \<union> set (used (i_in i)) \<union>
     set (map nat (filter (\<lambda>r. 0 < r) [i_pred i, i_ar1 i, i_ar2 i]))"

definition checkCollision :: "scoreboard \<Rightarrow> nat \<Rightarrow> inst \<Rightarrow> bool cxx" where
  "checkCollision sb wid i =
     bindE (row (reg_table sb) wid) (\<lambda>s. Inr (\<exists>r \<in> inst_regs i. r \<in> s))"

definition pendingWrites :: "scoreboard \<Rightarrow> nat \<Rightarrow> bool cxx" where
  "pendingWrites sb wid = bindE (row (reg_table sb) wid) (\<lambda>s. Inr (s \<noteq> {}))"

section \<open>What the operations do to a row\<close>

definition pending :: "scoreboard \<Rightarrow> nat \<Rightarrow> nat set" where
  "pending sb wid = reg_table sb ! wid"

definition longop :: "scoreboard \<Rightarrow> nat \<Rightarrow> nat set" where
  "longop sb wid = longopregs sb ! wid"

definition sb_ok :: "nat \<Rightarrow> scoreboard \<Rightarrow> bool" where
  "sb_ok n sb \<longleftrightarrow> length (reg_table sb) = n \<and> length (longopregs sb) = n"

lemma row_ok: "wid < length t \<Longrightarrow> row t wid = Inr (t ! wid)"
  by (simp add: row_def)

lemma reserve_all:
  assumes "sb_ok n sb" and "w < n" and "distinct rs" and "set rs \<inter> pending sb w = {}"
  shows "foldE (\<lambda>s r. reserveRegister s w r) sb rs =
    Inr (sb\<lparr>reg_table := (reg_table sb)[w := set rs \<union> pending sb w]\<rparr>)"
  using assms
proof (induction rs arbitrary: sb)
  case Nil
  then show ?case by (simp add: pending_def)
next
  case (Cons r rs)
  let ?sb = "sb\<lparr>reg_table := (reg_table sb)[w := insert r (pending sb w)]\<rparr>"
  have "reserveRegister sb w r = Inr ?sb"
    using Cons.prems by (simp add: reserveRegister_def row_ok sb_ok_def pending_def)
  moreover have "sb_ok n ?sb" "set rs \<inter> pending ?sb w = {}"
    using Cons.prems by (auto simp: sb_ok_def pending_def)
  ultimately show ?case using Cons.IH[of ?sb] Cons.prems by (simp add: sb_ok_def pending_def)
qed

lemma mark_all:
  assumes "sb_ok n sb" and "w < n"
  shows "foldE (\<lambda>s r. mark_longop s w r) sb rs =
    Inr (sb\<lparr>longopregs := (longopregs sb)[w := set rs \<union> longop sb w]\<rparr>)"
  using assms
proof (induction rs arbitrary: sb)
  case Nil
  then show ?case by (simp add: longop_def)
next
  case (Cons r rs)
  let ?sb = "sb\<lparr>longopregs := (longopregs sb)[w := insert r (longop sb w)]\<rparr>"
  have "mark_longop sb w r = Inr ?sb"
    using Cons.prems by (simp add: mark_longop_def row_ok sb_ok_def longop_def)
  moreover have "sb_ok n ?sb" using Cons.prems by (simp add: sb_ok_def)
  ultimately show ?case using Cons.IH[of ?sb] Cons.prems by (simp add: sb_ok_def longop_def)
qed

lemma release_all:
  assumes "sb_ok n sb" and "w < n"
  shows "foldE (\<lambda>s r. bindE (releaseRegister s w r) (\<lambda>s1. erase_longop s1 w r)) sb rs =
    Inr (sb\<lparr>reg_table := (reg_table sb)[w := pending sb w - set rs],
            longopregs := (longopregs sb)[w := longop sb w - set rs]\<rparr>)"
  using assms
proof (induction rs arbitrary: sb)
  case Nil
  then show ?case by (simp add: pending_def longop_def)
next
  case (Cons r rs)
  let ?sb = "sb\<lparr>reg_table := (reg_table sb)[w := pending sb w - {r}],
      longopregs := (longopregs sb)[w := longop sb w - {r}]\<rparr>"
  have "bindE (releaseRegister sb w r) (\<lambda>s1. erase_longop s1 w r) = Inr ?sb"
    using Cons.prems
    by (auto simp: releaseRegister_def erase_longop_def row_ok sb_ok_def pending_def longop_def
        list_update_id)
  moreover have "sb_ok n ?sb" using Cons.prems by (simp add: sb_ok_def)
  ultimately show ?case
    using Cons.IH[of ?sb] Cons.prems by (simp add: sb_ok_def pending_def longop_def Diff_insert2[symmetric])
qed

section \<open>Hazards\<close>

lemma checkCollision_eq:
  "sb_ok n sb \<Longrightarrow> w < n \<Longrightarrow> checkCollision sb w i = Inr (inst_regs i \<inter> pending sb w \<noteq> {})"
  by (auto simp: checkCollision_def row_ok sb_ok_def pending_def)

lemma reserveRegisters_ok:
  assumes "sb_ok n sb" and "w < n" and "i_warp_id i = w" and "distinct (used (i_out i))"
    and "inst_regs i \<inter> pending sb w = {}"
  shows "\<exists>sb'. reserveRegisters sb i = Inr sb' \<and> sb_ok n sb' \<and>
    pending sb' w = set (used (i_out i)) \<union> pending sb w \<and>
    longop sb' w = (if is_load i \<and> long_space (i_space i) then set (used (i_out i)) else {}) \<union> longop sb w \<and>
    (\<forall>v. v \<noteq> w \<longrightarrow> pending sb' v = pending sb v \<and> longop sb' v = longop sb v)"
proof -
  have "set (used (i_out i)) \<inter> pending sb w = {}" using assms(5) by (auto simp: inst_regs_def)
  note r = reserve_all[OF assms(1,2,4) this]
  let ?sb = "sb\<lparr>reg_table := (reg_table sb)[w := set (used (i_out i)) \<union> pending sb w]\<rparr>"
  have ok: "sb_ok n ?sb" using assms(1) by (simp add: sb_ok_def)
  show ?thesis
    using r mark_all[OF ok assms(2)] assms(1-3)
    by (auto simp: reserveRegisters_def sb_ok_def pending_def longop_def)
qed

lemma releaseRegisters_ok:
  assumes "sb_ok n sb" and "w < n" and "i_warp_id i = w"
  shows "\<exists>sb'. releaseRegisters sb i = Inr sb' \<and> sb_ok n sb' \<and>
    pending sb' w = pending sb w - set (used (i_out i)) \<and>
    longop sb' w = longop sb w - set (used (i_out i)) \<and>
    (\<forall>v. v \<noteq> w \<longrightarrow> pending sb' v = pending sb v \<and> longop sb' v = longop sb v)"
  using release_all[OF assms(1,2)] assms
  by (simp add: releaseRegisters_def sb_ok_def pending_def longop_def)

text \<open>An instruction that passes the collision check reserves its registers without the
  abort, and from then on every instruction of the warp that reads or writes one of them is held
  back, while the other warps see no change.\<close>

theorem scoreboard_issue:
  assumes "sb_ok n sb" and "i_warp_id i < n" and "distinct (used (i_out i))"
    and "checkCollision sb (i_warp_id i) i = Inr False"
  shows "\<exists>sb'. reserveRegisters sb i = Inr sb' \<and> sb_ok n sb' \<and>
    (\<forall>j. inst_regs j \<inter> set (used (i_out i)) \<noteq> {} \<longrightarrow>
       checkCollision sb' (i_warp_id i) j = Inr True) \<and>
    (\<forall>v j. v < n \<longrightarrow> v \<noteq> i_warp_id i \<longrightarrow> checkCollision sb' v j = checkCollision sb v j)"
proof -
  have "inst_regs i \<inter> pending sb (i_warp_id i) = {}"
    using assms(4) by (simp add: checkCollision_eq[OF assms(1,2)])
  from reserveRegisters_ok[OF assms(1,2) refl assms(3) this]
  obtain sb' where s: "reserveRegisters sb i = Inr sb'" "sb_ok n sb'"
    "pending sb' (i_warp_id i) = set (used (i_out i)) \<union> pending sb (i_warp_id i)"
    "\<forall>v. v \<noteq> i_warp_id i \<longrightarrow> pending sb' v = pending sb v" by blast
  show ?thesis
    using s checkCollision_eq[OF s(2)] checkCollision_eq[OF assms(1)] assms(2)
    by (intro exI[of _ sb']) auto
qed

definition demo_inst :: inst where
  "demo_inst = \<lparr>i_warp_id = 1, i_op = LOAD_OP, i_memory_op = no_memory_op, i_space = global_space,
     i_out = [3, 4, 0, 0], i_in = [5, 0, 0, 0], i_pred = 0, i_ar1 = 0, i_ar2 = 0\<rparr>"

theorem scoreboard_issue_witness:
  "\<exists>sb'. reserveRegisters (Scoreboard 2) demo_inst = Inr sb' \<and>
    checkCollision sb' 1 (demo_inst\<lparr>i_out := [3, 0, 0, 0]\<rparr>) = Inr True"
proof -
  have "sb_ok 2 (Scoreboard 2)" by (simp add: sb_ok_def Scoreboard_def)
  moreover have "i_warp_id demo_inst < 2" "distinct (used (i_out demo_inst))"
    by (simp_all add: demo_inst_def used_def)
  moreover have "checkCollision (Scoreboard 2) (i_warp_id demo_inst) demo_inst = Inr False"
    by (simp add: checkCollision_def row_def Scoreboard_def demo_inst_def)
  ultimately have "\<exists>sb'. reserveRegisters (Scoreboard 2) demo_inst = Inr sb' \<and> sb_ok 2 sb' \<and>
    (\<forall>j. inst_regs j \<inter> set (used (i_out demo_inst)) \<noteq> {} \<longrightarrow>
       checkCollision sb' (i_warp_id demo_inst) j = Inr True) \<and>
    (\<forall>v j. v < 2 \<longrightarrow> v \<noteq> i_warp_id demo_inst \<longrightarrow> checkCollision sb' v j = checkCollision (Scoreboard 2) v j)"
    by (rule scoreboard_issue)
  then obtain sb' where "reserveRegisters (Scoreboard 2) demo_inst = Inr sb'"
    and c: "\<And>j. inst_regs j \<inter> set (used (i_out demo_inst)) \<noteq> {} \<Longrightarrow>
       checkCollision sb' (i_warp_id demo_inst) j = Inr True" by blast
  moreover have "checkCollision sb' (i_warp_id demo_inst) (demo_inst\<lparr>i_out := [3, 0, 0, 0]\<rparr>) = Inr True"
    by (rule c) (simp add: inst_regs_def demo_inst_def used_def)
  ultimately show ?thesis by (auto simp: demo_inst_def)
qed

text \<open>Completing an instruction gives back exactly what its issue took: the pending registers of
  every warp and the check of every other instruction are as before it.\<close>

theorem scoreboard_release_reserve:
  assumes "sb_ok n sb" and "i_warp_id i < n" and "distinct (used (i_out i))"
    and "checkCollision sb (i_warp_id i) i = Inr False"
  shows "\<exists>sb'. bindE (reserveRegisters sb i) (\<lambda>s. releaseRegisters s i) = Inr sb' \<and>
    reg_table sb' = reg_table sb"
proof -
  have e: "inst_regs i \<inter> pending sb (i_warp_id i) = {}"
    using assms(4) by (simp add: checkCollision_eq[OF assms(1,2)])
  from reserveRegisters_ok[OF assms(1,2) refl assms(3) e]
  obtain s where s: "reserveRegisters sb i = Inr s" "sb_ok n s"
    "pending s (i_warp_id i) = set (used (i_out i)) \<union> pending sb (i_warp_id i)"
    "\<forall>v. v \<noteq> i_warp_id i \<longrightarrow> pending s v = pending sb v" by blast
  from releaseRegisters_ok[OF s(2) assms(2) refl]
  obtain t where t: "releaseRegisters s i = Inr t" "sb_ok n t"
    "pending t (i_warp_id i) = pending s (i_warp_id i) - set (used (i_out i))"
    "\<forall>v. v \<noteq> i_warp_id i \<longrightarrow> pending t v = pending s v" by blast
  have "set (used (i_out i)) \<inter> pending sb (i_warp_id i) = {}" using e by (auto simp: inst_regs_def)
  then have "pending t v = pending sb v" for v using s t by (cases "v = i_warp_id i") auto
  then have "reg_table t = reg_table sb"
    using t(2) assms(1) by (auto simp: sb_ok_def pending_def intro!: nth_equalityI)
  with s(1) t(1) show ?thesis by simp
qed

theorem scoreboard_release_reserve_witness:
  "\<exists>sb'. bindE (reserveRegisters (Scoreboard 2) demo_inst) (\<lambda>s. releaseRegisters s demo_inst) = Inr sb' \<and>
     reg_table sb' = [{}, {}]"
proof -
  have "sb_ok 2 (Scoreboard 2)" by (simp add: sb_ok_def Scoreboard_def)
  moreover have "i_warp_id demo_inst < 2" "distinct (used (i_out demo_inst))"
    by (simp_all add: demo_inst_def used_def)
  moreover have "checkCollision (Scoreboard 2) (i_warp_id demo_inst) demo_inst = Inr False"
    by (simp add: checkCollision_def row_def Scoreboard_def demo_inst_def)
  ultimately have "\<exists>sb'. bindE (reserveRegisters (Scoreboard 2) demo_inst)
      (\<lambda>s. releaseRegisters s demo_inst) = Inr sb' \<and> reg_table sb' = reg_table (Scoreboard 2)"
    by (rule scoreboard_release_reserve)
  then show ?thesis by (simp add: Scoreboard_def numeral_2_eq_2)
qed

text \<open>A load that writes back register by register through \<open>releaseRegister\<close>, as the load/store
  unit does, leaves the long-operation mark behind: the register has no pending write any more and
  \<open>islongop\<close> still answers true.\<close>

theorem scoreboard_stale_longop:
  "\<exists>sb1 sb2. reserveRegisters (Scoreboard 2) (demo_inst\<lparr>i_out := [3, 0, 0, 0]\<rparr>) = Inr sb1 \<and>
     releaseRegister sb1 1 3 = Inr sb2 \<and>
     pendingWrites sb2 1 = Inr False \<and> islongop sb2 1 3 = Inr True"
  by (simp add: reserveRegisters_def demo_inst_def used_def reserveRegister_def row_def Scoreboard_def
      is_load_def long_space_def mark_longop_def releaseRegister_def pendingWrites_def islongop_def
      numeral_2_eq_2)

section \<open>The scoreboard under the scheduler\<close>

text \<open>
  The core's use of the scoreboard: the scheduler issues an instruction only if the check passes
  (\<open>scheduler_unit::cycle\<close>, \<open>issue_warp\<close>), and writeback completes one of those in flight.  An
  instruction the decoder could not have produced, with a repeated destination or the number of a
  warp the core does not have, is not offered.
\<close>

datatype sb_op = Issue inst | Complete nat

definition decoded :: "nat \<Rightarrow> inst \<Rightarrow> bool" where
  "decoded n i \<longleftrightarrow> i_warp_id i < n \<and> distinct (used (i_out i))"

definition sb_step :: "nat \<Rightarrow> scoreboard \<times> inst list \<Rightarrow> sb_op \<Rightarrow> (scoreboard \<times> inst list) cxx" where
  "sb_step n s op =
     (case op of
        Issue i \<Rightarrow>
          if decoded n i then
            bindE (checkCollision (fst s) (i_warp_id i) i) (\<lambda>c.
              if c then Inr s
              else bindE (reserveRegisters (fst s) i) (\<lambda>sb. Inr (sb, snd s @ [i])))
          else Inr s
      | Complete k \<Rightarrow>
          if k < length (snd s) then
            bindE (releaseRegisters (fst s) (snd s ! k)) (\<lambda>sb.
              Inr (sb, take k (snd s) @ drop (Suc k) (snd s)))
          else Inr s)"

definition dests :: "nat \<Rightarrow> inst \<Rightarrow> nat set" where
  "dests w i = (if i_warp_id i = w then set (used (i_out i)) else {})"

text \<open>What the scoreboard stands for: the destinations of the instructions in flight, which no two
  of them share.\<close>

definition sb_inv :: "nat \<Rightarrow> scoreboard \<times> inst list \<Rightarrow> bool" where
  "sb_inv n s \<longleftrightarrow> sb_ok n (fst s) \<and> (\<forall>i \<in> set (snd s). decoded n i) \<and>
     (\<forall>w < n. pending (fst s) w = (\<Union>i \<in> set (snd s). dests w i)) \<and>
     (\<forall>w < n. \<forall>j < length (snd s). \<forall>k < j. dests w (snd s ! k) \<inter> dests w (snd s ! j) = {})"

lemma sb_inv_Issue:
  assumes "sb_inv n (sb, is)" and "decoded n i" and "checkCollision sb (i_warp_id i) i = Inr False"
  shows "\<exists>sb'. reserveRegisters sb i = Inr sb' \<and> sb_inv n (sb', is @ [i])"
proof -
  have ok: "sb_ok n sb" and w: "i_warp_id i < n" "distinct (used (i_out i))"
    using assms(1,2) by (auto simp: sb_inv_def decoded_def)
  have e: "inst_regs i \<inter> pending sb (i_warp_id i) = {}"
    using assms(3) by (simp add: checkCollision_eq[OF ok w(1)])
  from reserveRegisters_ok[OF ok w(1) refl w(2) e]
  obtain s where s: "reserveRegisters sb i = Inr s" "sb_ok n s"
    "pending s (i_warp_id i) = set (used (i_out i)) \<union> pending sb (i_warp_id i)"
    "\<forall>v. v \<noteq> i_warp_id i \<longrightarrow> pending s v = pending sb v" by blast
  have p: "pending s v = dests v i \<union> pending sb v" for v
    using s(3,4) by (cases "v = i_warp_id i") (simp_all add: dests_def)
  have d: "dests v j \<inter> dests v i = {}" if "v < n" "j \<in> set is" for v j
    using e assms(1) that by (cases "v = i_warp_id i") (auto simp: sb_inv_def dests_def inst_regs_def)
  have "sb_inv n (s, is @ [i])"
    using assms(1,2) s(2) p d by (auto simp: sb_inv_def nth_append less_Suc_eq)
  with s(1) show ?thesis by blast
qed

lemma drop_nth_props:
  assumes "k < length xs"
  shows "set xs = insert (xs ! k) (set (take k xs @ drop (Suc k) xs))"
    and "j < length xs - 1 \<Longrightarrow>
      (take k xs @ drop (Suc k) xs) ! j = xs ! (if j < k then j else Suc j)"
  using assms id_take_nth_drop[OF assms]
  by (metis Un_insert_right list.simps(15) set_append) (auto simp: nth_append)

lemma sb_inv_Complete:
  assumes "sb_inv n (sb, is)" and "k < length is"
  shows "\<exists>sb'. releaseRegisters sb (is ! k) = Inr sb' \<and>
    sb_inv n (sb', take k is @ drop (Suc k) is)"
proof -
  let ?i = "is ! k" and ?is = "take k is @ drop (Suc k) is"
  have ok: "sb_ok n sb" and w: "i_warp_id ?i < n"
    using assms by (auto simp: sb_inv_def decoded_def)
  from releaseRegisters_ok[OF ok w refl]
  obtain s where s: "releaseRegisters sb ?i = Inr s" "sb_ok n s"
    "pending s (i_warp_id ?i) = pending sb (i_warp_id ?i) - set (used (i_out ?i))"
    "\<forall>v. v \<noteq> i_warp_id ?i \<longrightarrow> pending s v = pending sb v" by blast
  have p: "pending s v = pending sb v - dests v ?i" for v
    using s(3,4) by (cases "v = i_warp_id ?i") (simp_all add: dests_def)
  have pw: "\<And>v j k. v < n \<Longrightarrow> j < length is \<Longrightarrow> k < j \<Longrightarrow> dests v (is ! k) \<inter> dests v (is ! j) = {}"
    using assms(1) by (simp add: sb_inv_def)
  have disj: "dests v (is ! a) \<inter> dests v (is ! b) = {}" if "v < n" "a < length is" "b < length is" "a \<noteq> b" for v a b
    using pw[OF that(1,2), of b] pw[OF that(1,3), of a] that(4) by (cases "a < b") (auto simp: Int_commute)
  have d: "dests v i \<inter> dests v ?i = {}" if v: "v < n" and i: "i \<in> set ?is" for v i
  proof -
    obtain j where "j < length ?is" "i = ?is ! j" using i by (metis in_set_conv_nth)
    then have "i = is ! (if j < k then j else Suc j)" "(if j < k then j else Suc j) < length is"
      using drop_nth_props(2)[OF assms(2), of j] assms(2) by auto
    moreover have "(if j < k then j else Suc j) \<noteq> k" by simp
    ultimately show ?thesis using disj[OF v] assms(2) by metis
  qed
  have "pending s v = (\<Union>i \<in> set ?is. dests v i)" if "v < n" for v
    using assms(1) that d[OF that] p drop_nth_props(1)[OF assms(2)] by (auto simp: sb_inv_def)
  moreover have "\<forall>v < n. \<forall>b < length ?is. \<forall>a < b. dests v (?is ! a) \<inter> dests v (?is ! b) = {}"
    using disj drop_nth_props(2)[OF assms(2)] assms(2) by auto
  moreover have "\<forall>i \<in> set ?is. decoded n i"
    using assms drop_nth_props(1)[OF assms(2)] by (auto simp: sb_inv_def)
  ultimately show ?thesis using s(1,2) by (auto simp: sb_inv_def)
qed

interpretation sb_machine: total_machine "sb_step n" "sb_inv n" for n
proof unfold_locales
  have ex: "\<exists>t. sb_step n s a = Inr t \<and> sb_inv n t" if inv: "sb_inv n s" for s a
  proof (cases a)
    case (Issue i)
    show ?thesis
    proof (cases "decoded n i")
      case True
      then have "i_warp_id i < n" "sb_ok n (fst s)" using inv by (auto simp: decoded_def sb_inv_def)
      then obtain c where c: "checkCollision (fst s) (i_warp_id i) i = Inr c"
        by (simp add: checkCollision_eq)
      show ?thesis
        using sb_inv_Issue[of n "fst s" "snd s" i] inv True c by (cases c) (auto simp: sb_step_def Issue)
    qed (use inv in \<open>simp add: sb_step_def Issue\<close>)
  next
    case (Complete k)
    then show ?thesis
      using sb_inv_Complete[of n "fst s" "snd s" k] inv by (cases "k < length (snd s)") (auto simp: sb_step_def)
  qed
  fix s t a
  assume s: "sb_inv n s"
  show "okE (sb_step n s a)" using ex[OF s, of a] by (auto simp: okE_iff)
  show "sb_inv n t" if "sb_step n s a = Inr t" using ex[OF s, of a] that by auto
qed

text \<open>Claim C4. Driven by the scheduler and writeback from the empty scoreboard, in any order, the
  scoreboard never aborts: its pending registers are exactly the destinations of the instructions
  in flight, and no two instructions of a warp in flight write the same register.\<close>

theorem scoreboard_run:
  "\<exists>sb is. foldE (sb_step n) (Scoreboard n, []) ops = Inr (sb, is) \<and>
     (\<forall>w < n. pending sb w = (\<Union>i \<in> set is. dests w i)) \<and>
     (\<forall>w < n. \<forall>j < length is. \<forall>k < j. dests w (is ! k) \<inter> dests w (is ! j) = {})"
proof -
  have "sb_inv n (Scoreboard n, [])"
    by (simp add: sb_inv_def sb_ok_def Scoreboard_def pending_def)
  from sb_machine.run_total[OF this, of ops] show ?thesis by (auto simp: sb_inv_def)
qed

theorem scoreboard_run_witness:
  "\<exists>sb is. foldE (sb_step 2) (Scoreboard 2, []) [Issue demo_inst, Issue demo_inst, Complete 0] =
       Inr (sb, is) \<and> pending sb 1 = (\<Union>i \<in> set is. dests 1 i)"
  using scoreboard_run[of 2 "[Issue demo_inst, Issue demo_inst, Complete 0]"] by auto

end
