(* ===== verification/Simt_Stack.thy ===== *)
theory Simt_Stack
  imports Instructions
begin

text \<open>
  The reconvergence stack of a warp (\<open>simt_stack\<close> of abstract_hardware_model.cc).  A mask is
  \<open>std::bitset<32>\<close>, a 32-bit word; an address is 32 bits wide and \<open>null_pc\<close> is all ones.  The head of
  the list \<open>m_stack\<close> is the back of the deque.  \<open>std::map\<close> is an association list kept in key order.
  \<open>cyc\<close> is \<open>gpu_sim_cycle + gpu_tot_sim_cycle\<close>.  The divergence statistics are left out.
\<close>

unbundle bit_operations_syntax

type_synonym simt_mask_t = u32
type_synonym address = u32

datatype stack_entry_type = NORMAL | CALL

record simt_entry =
  m_pc :: address
  m_calldepth :: nat
  m_active_mask :: simt_mask_t
  m_recvg_pc :: address
  m_branch_div_cycle :: u64
  m_type :: stack_entry_type

record simt_stack =
  m_warp_id :: nat
  m_warp_size :: nat
  m_stack :: "simt_entry list"

definition null_pc :: address where "null_pc = -1"

definition simt_stack_entry :: simt_entry where
  "simt_stack_entry = \<lparr>m_pc = null_pc, m_calldepth = 0, m_active_mask = 0, m_recvg_pc = null_pc,
     m_branch_div_cycle = 0, m_type = NORMAL\<rparr>"

definition reset :: "simt_stack \<Rightarrow> simt_stack" where
  "reset st = st\<lparr>m_stack := []\<rparr>"

definition new_simt_stack :: "nat \<Rightarrow> nat \<Rightarrow> simt_stack" where
  "new_simt_stack wid warpSize = reset \<lparr>m_warp_id = wid, m_warp_size = warpSize, m_stack = []\<rparr>"

definition launch :: "simt_stack \<Rightarrow> address \<Rightarrow> simt_mask_t \<Rightarrow> simt_stack" where
  "launch st start_pc active_mask =
     (let st1 = reset st
      in st1\<lparr>m_stack := simt_stack_entry\<lparr>m_pc := start_pc, m_calldepth := 1,
             m_active_mask := active_mask, m_type := NORMAL\<rparr> # m_stack st1\<rparr>)"

definition stack_back :: "simt_stack \<Rightarrow> simt_entry cxx" where
  "stack_back st = (case m_stack st of [] \<Rightarrow> Inl Assert_Failed | e # _ \<Rightarrow> Inr e)"

definition get_active_mask :: "simt_stack \<Rightarrow> simt_mask_t cxx" where
  "get_active_mask st = bindE (stack_back st) (\<lambda>e. Inr (m_active_mask e))"

definition get_pdom_stack_top_info :: "simt_stack \<Rightarrow> (address \<times> address) cxx" where
  "get_pdom_stack_top_info st = bindE (stack_back st) (\<lambda>e. Inr (m_pc e, m_recvg_pc e))"

definition get_rp :: "simt_stack \<Rightarrow> address cxx" where
  "get_rp st = bindE (stack_back st) (\<lambda>e. Inr (m_recvg_pc e))"

section \<open>Groups of threads with the same next address\<close>

text \<open>
  One pass \<open>for (i = m_warp_size - 1; i >= 0; i--)\<close>: the state is the remaining mask, the group's
  address and the group's mask.
\<close>

fun extract_group ::
    "nat \<Rightarrow> simt_mask_t \<Rightarrow> address list \<Rightarrow> simt_mask_t \<times> address \<times> simt_mask_t \<Rightarrow>
     simt_mask_t \<times> address \<times> simt_mask_t" where
  "extract_group 0 thread_done next_pc s = s"
| "extract_group (Suc i) thread_done next_pc (am, tmp_pc, tmp_mask) =
     extract_group i thread_done next_pc
       (if bit am i then
          if bit thread_done i then (unset_bit i am, tmp_pc, tmp_mask)
          else if tmp_pc = null_pc then (unset_bit i am, next_pc ! i, set_bit i tmp_mask)
          else if tmp_pc = next_pc ! i then (unset_bit i am, tmp_pc, set_bit i tmp_mask)
          else (am, tmp_pc, tmp_mask)
        else (am, tmp_pc, tmp_mask))"

text \<open>The map of the divergent paths: \<open>paths[k] = v\<close>, \<open>find\<close>, \<open>erase\<close> and \<open>begin\<close> in key order.\<close>

fun omap_put :: "address \<Rightarrow> simt_mask_t \<Rightarrow> (address \<times> simt_mask_t) list \<Rightarrow> (address \<times> simt_mask_t) list" where
  "omap_put k v [] = [(k, v)]"
| "omap_put k v (p # ps) =
     (if k < fst p then (k, v) # p # ps
      else if k = fst p then (k, v) # ps
      else p # omap_put k v ps)"

definition omap_erase :: "address \<Rightarrow> (address \<times> simt_mask_t) list \<Rightarrow> (address \<times> simt_mask_t) list" where
  "omap_erase k ps = filter (\<lambda>p. fst p \<noteq> k) ps"

definition members :: "simt_mask_t \<Rightarrow> nat set" where
  "members m = {i. i < 32 \<and> bit m i}"

lemma finite_members [simp]: "finite (members m)"
  by (simp add: members_def)

lemma members_set_bit: "i < 32 \<Longrightarrow> members (set_bit i m) = insert i (members m)"
  by (auto simp: members_def bit_set_bit_iff)

lemma members_unset_bit: "members (unset_bit i m) = members m - {i}"
  by (auto simp: members_def bit_unset_bit_iff)

lemma members_0 [simp]: "members 0 = {}"
  by (simp add: members_def)

lemma members_bit: "i \<in> members m \<longleftrightarrow> bit m i"
  using bit_imp_le_length[of m i] by (auto simp: members_def)

lemma members_empty: "members m = {} \<longleftrightarrow> m = 0"
proof
  assume "members m = {}"
  then have "\<And>n. \<not> bit m n" by (simp add: members_bit[symmetric])
  then show "m = 0" by (intro bit_eqI) simp
qed simp

lemma extract_group_members:
  "extract_group i d np (am, tmp, tm) = (am', tmp', tm') \<Longrightarrow>
     members am' \<subseteq> members am \<and> (tmp' \<noteq> tmp \<longrightarrow> members am' \<noteq> members am)"
proof (induction i arbitrary: am tmp tm)
  case (Suc i)
  show ?case
  proof (cases "bit am i \<and> (bit d i \<or> tmp = null_pc \<or> tmp = np ! i)")
    case True
    then obtain u v where "extract_group i d np (unset_bit i am, u, v) = (am', tmp', tm')"
      using Suc.prems by (auto split: if_splits)
    from Suc.IH[OF this] show ?thesis using True by (auto simp: members_unset_bit members_bit)
  next
    case False
    then have "extract_group i d np (am, tmp, tm) = (am', tmp', tm')"
      using Suc.prems by (auto split: if_splits)
    from Suc.IH[OF this] show ?thesis .
  qed
qed simp

text \<open>
  The loop \<open>while (top_active_mask.any())\<close>: the groups and their number.  A pass that finds no
  address asserts that nothing is left.
\<close>

function collect_paths ::
    "nat \<Rightarrow> simt_mask_t \<Rightarrow> address list \<Rightarrow> simt_mask_t \<Rightarrow> (address \<times> simt_mask_t) list \<Rightarrow> nat \<Rightarrow>
     ((address \<times> simt_mask_t) list \<times> nat) cxx" where
  "collect_paths w thread_done next_pc am paths num =
     (if am = 0 then Inr (paths, num)
      else (case extract_group w thread_done next_pc (am, null_pc, 0) of
              (am', tmp_pc, tmp_mask) \<Rightarrow>
                if tmp_pc = null_pc then assertE (am' = 0) (Inr (paths, num))
                else collect_paths w thread_done next_pc am' (omap_put tmp_pc tmp_mask paths)
                       (num + 1)))"
  by pat_completeness auto
termination
  by (relation "measure (\<lambda>(w, d, np, am, ps, n). card (members am))")
    (auto intro!: psubset_card_mono dest!: extract_group_members[OF sym])

declare collect_paths.simps [simp del]

section \<open>The update after an instruction\<close>

text \<open>
  The loop over the paths.  \<open>stk\<close> is the stack with its back first.  The result is the stack and
  whether the function has returned already (a call or a return); the caller pops one entry
  otherwise.
\<close>

record upd =
  u_cyc :: u64
  u_num :: nat
  u_op :: op_type
  u_not_taken :: address
  u_recvg :: address
  u_top_recvg :: address
  u_top_type :: stack_entry_type

definition take_path :: "address \<Rightarrow> nat \<Rightarrow> (address \<times> simt_mask_t) list \<Rightarrow>
    (address \<times> simt_mask_t \<times> (address \<times> simt_mask_t) list) cxx" where
  "take_path not_taken_pc i paths =
     (case map_of paths not_taken_pc of
        Some m \<Rightarrow> assertE (i = 0) (Inr (not_taken_pc, m, omap_erase not_taken_pc paths))
      | None \<Rightarrow> (case paths of [] \<Rightarrow> Inl Undefined_Behaviour
                 | p # _ \<Rightarrow> Inr (fst p, snd p, omap_erase (fst p) paths)))"

definition call_entry :: "u64 \<Rightarrow> address \<Rightarrow> simt_mask_t \<Rightarrow> simt_entry" where
  "call_entry cyc pc msk = simt_stack_entry\<lparr>m_pc := pc, m_active_mask := msk,
     m_branch_div_cycle := cyc, m_type := CALL\<rparr>"

definition return_call :: "address \<Rightarrow> simt_entry list \<Rightarrow> simt_entry list cxx" where
  "return_call tmp_next_pc stk =
     (case tl stk of [] \<Rightarrow> Inl Assert_Failed
      | e # es \<Rightarrow>
          (if tmp_next_pc = m_recvg_pc e \<and> m_type e \<noteq> CALL
           then assertE (m_type e = NORMAL) (Inr es)
           else Inr (e\<lparr>m_pc := tmp_next_pc\<rparr> # es)))"

text \<open>The top becomes the reconvergence entry, unless it reconverges where the paths do.\<close>

definition make_recvg :: "upd \<Rightarrow> simt_entry list \<Rightarrow> simt_entry list" where
  "make_recvg u stk =
     (if u_recvg u \<noteq> u_top_recvg u
      then simt_stack_entry #
        (hd stk)\<lparr>m_pc := u_recvg u, m_branch_div_cycle := u_cyc u\<rparr> # tl stk
      else stk)"

definition set_path :: "upd \<Rightarrow> bool \<Rightarrow> address \<Rightarrow> simt_mask_t \<Rightarrow> simt_entry list \<Rightarrow> simt_entry list" where
  "set_path u diverged pc msk stk =
     (let e = (hd stk)\<lparr>m_pc := pc, m_active_mask := msk\<rparr>;
          e' = (if diverged then e\<lparr>m_calldepth := 0, m_recvg_pc := u_recvg u\<rparr>
                else e\<lparr>m_recvg_pc := u_top_recvg u\<rparr>)
      in simt_stack_entry # e' # tl stk)"

fun path_loop ::
    "upd \<Rightarrow> nat \<Rightarrow> nat \<Rightarrow> bool \<Rightarrow> (address \<times> simt_mask_t) list \<Rightarrow> simt_entry list \<Rightarrow>
     (simt_entry list \<times> bool) cxx" where
  "path_loop u i 0 diverged paths stk = Inr (stk, False)"
| "path_loop u i (Suc k) diverged paths stk =
     bindE (take_path (u_not_taken u) i paths) (\<lambda>r.
       let tmp_next_pc = fst r; tmp_mask = fst (snd r); rest = snd (snd r)
       in if u_op u = CALL_OPS then
            assertE (u_num u = 1) (Inr (call_entry (u_cyc u) tmp_next_pc tmp_mask # stk, True))
          else if u_op u = RET_OPS \<and> u_top_type u = CALL then
            assertE (u_num u = 1) (bindE (return_call tmp_next_pc stk) (\<lambda>s. Inr (s, True)))
          else if tmp_next_pc = u_top_recvg u \<and> u_top_type u \<noteq> CALL then
            path_loop u (Suc i) k diverged rest stk
          else
            (let now = 1 < u_num u \<and> \<not> diverged;
                 stk1 = (if now then make_recvg u stk else stk);
                 diverged1 = (diverged \<or> now)
             in if diverged1 \<and> tmp_next_pc = u_recvg u then
                  path_loop u (Suc i) k diverged1 rest stk1
                else path_loop u (Suc i) k diverged1 rest (set_path u diverged1 tmp_next_pc tmp_mask stk1)))"

definition update ::
    "u64 \<Rightarrow> simt_stack \<Rightarrow> simt_mask_t \<Rightarrow> address list \<Rightarrow> address \<Rightarrow> op_type \<Rightarrow> u32 \<Rightarrow> address \<Rightarrow>
     simt_stack cxx" where
  "update cyc st thread_done next_pc recvg_pc next_inst_op next_inst_size next_inst_pc =
     bindE (stack_back st) (\<lambda>e.
     assertE (length next_pc = m_warp_size st)
     (assertE (m_pc e = next_inst_pc)
     (assertE (m_active_mask e \<noteq> 0)
     (bindE (collect_paths (m_warp_size st) thread_done next_pc (m_active_mask e) [] 0) (\<lambda>c.
     assertE (snd c \<le> 2)
     (bindE (path_loop
          \<lparr>u_cyc = cyc, u_num = snd c, u_op = next_inst_op,
           u_not_taken = next_inst_pc + next_inst_size, u_recvg = recvg_pc,
           u_top_recvg = m_recvg_pc e, u_top_type = m_type e\<rparr>
          0 (snd c) False (fst c) (m_stack st)) (\<lambda>r.
       if snd r then Inr (st\<lparr>m_stack := fst r\<rparr>)
       else assertE (fst r \<noteq> []) (Inr (st\<lparr>m_stack := tl (fst r)\<rparr>)))))))))"

end
