(* ===== verification/Simt_Correct.thy ===== *)
theory Simt_Correct
  imports Simt_Stack
begin

text \<open>
  Correctness of the reconvergence stack: the grouping of the threads by their next address, the
  invariant of the stack (every entry that is to reconverge has an entry below that waits at its
  reconvergence address with all its threads) and that no thread is lost by an update.
\<close>

section \<open>Ordered maps\<close>

lemma map_of_omap_put: "map_of (omap_put k v ps) = (map_of ps)(k \<mapsto> v)"
  by (induction ps) (auto simp: fun_eq_iff)

lemma map_of_omap_erase: "map_of (omap_erase k ps) = (map_of ps)(k := None)"
  by (induction ps) (auto simp: omap_erase_def fun_eq_iff)

lemma omap_erase_fresh [simp]: "k \<notin> fst ` set (omap_erase k ps)"
  by (auto simp: omap_erase_def)

definition ordered :: "(address \<times> simt_mask_t) list \<Rightarrow> bool" where
  "ordered ps \<longleftrightarrow> sorted_wrt (<) (map fst ps)"

lemma omap_put_keys: "fst ` set (omap_put k v ps) = insert k (fst ` set ps)"
  by (induction ps) auto

lemma ordered_omap_put: "ordered ps \<Longrightarrow> ordered (omap_put k v ps)"
proof (induction ps)
  case (Cons p ps)
  then have p: "\<forall>q \<in> set ps. fst p < fst q" "ordered ps" by (auto simp: ordered_def)
  have "\<forall>q \<in> set (omap_put k v ps). fst q = k \<or> (\<exists>r \<in> set ps. fst q = fst r)"
    using omap_put_keys[of k v ps] by force
  then show ?case using Cons.IH[OF p(2)] Cons.prems p(1) by (fastforce simp: ordered_def)
qed (simp add: ordered_def)

lemma length_omap_put: "k \<notin> fst ` set ps \<Longrightarrow> length (omap_put k v ps) = Suc (length ps)"
  by (induction ps) auto

lemma ordered_distinct: "ordered ps \<Longrightarrow> distinct (map fst ps)"
  unfolding ordered_def by (induction ps) auto

section \<open>Groups\<close>

definition live :: "nat \<Rightarrow> simt_mask_t \<Rightarrow> simt_mask_t \<Rightarrow> nat set" where
  "live i am d = {j. j < i \<and> bit am j \<and> \<not> bit d j}"

definition group :: "nat \<Rightarrow> simt_mask_t \<Rightarrow> simt_mask_t \<Rightarrow> address list \<Rightarrow> address \<Rightarrow> nat set" where
  "group i am d np pc = {j \<in> live i am d. np ! j = pc}"

lemma extract_group_spec:
  assumes "extract_group i d np (am, tmp, tm) = (am', tmp', tm')" and "i \<le> 32"
    and "\<forall>j \<in> live i am d. np ! j \<noteq> null_pc"
  shows "(tmp \<noteq> null_pc \<longrightarrow> tmp' = tmp) \<and> (tmp' = null_pc \<longrightarrow> live i am d = {}) \<and>
    members tm' = members tm \<union> group i am d np tmp' \<and>
    members am' = members am - {j. j < i \<and> bit d j} - group i am d np tmp'"
  using assms
proof (induction i arbitrary: am tmp tm)
  case 0
  then show ?case by (simp add: live_def group_def)
next
  case (Suc i)
  have i: "i < 32" "i \<le> 32" using Suc.prems(2) by simp_all
  have L: "live (Suc i) am d = live i am d \<union> (if bit am i \<and> \<not> bit d i then {i} else {})"
    by (auto simp: live_def less_Suc_eq)
  have U: "live i (unset_bit i am) d = live i am d" by (auto simp: live_def bit_unset_bit_iff)
  have np: "\<forall>j \<in> live i am d. np ! j \<noteq> null_pc" using Suc.prems(3) L by blast
  show ?case
  proof (cases "bit am i")
    case False
    then have "extract_group i d np (am, tmp, tm) = (am', tmp', tm')" using Suc.prems(1) by simp
    from Suc.IH[OF this i(2) np] show ?thesis
      using False L by (auto simp: group_def members_bit less_Suc_eq)
  next
    case am: True
    show ?thesis
    proof (cases "bit d i")
      case True
      then have e: "extract_group i d np (unset_bit i am, tmp, tm) = (am', tmp', tm')"
        using Suc.prems(1) am by simp
      have np': "\<forall>j \<in> live i (unset_bit i am) d. np ! j \<noteq> null_pc" using np by (simp only: U)
      from Suc.IH[OF e i(2) np'] show ?thesis
        using True L U by (auto simp: group_def members_unset_bit less_Suc_eq)
    next
      case nd: False
      have i_live: "i \<in> live (Suc i) am d" using am nd by (simp add: live_def)
      then have ni: "np ! i \<noteq> null_pc" using Suc.prems(3) by blast
      show ?thesis
      proof (cases "tmp = null_pc \<or> tmp = np ! i")
        case True
        then have e: "extract_group i d np (unset_bit i am, np ! i, set_bit i tm) = (am', tmp', tm')"
          using Suc.prems(1) am nd by (auto split: if_splits)
        have np': "\<forall>j \<in> live i (unset_bit i am) d. np ! j \<noteq> null_pc" using np by (simp only: U)
        note IH = Suc.IH[OF e i(2) np']
        then have t: "tmp' = np ! i" using ni by simp
        have "group (Suc i) am d np tmp' = insert i (group i (unset_bit i am) d np tmp')"
          using L U am nd t by (auto simp: group_def)
        then show ?thesis
          using IH t ni True members_set_bit[OF i(1), of tm] nd
          by (auto simp: members_unset_bit less_Suc_eq)
      next
        case False
        then have e: "extract_group i d np (am, tmp, tm) = (am', tmp', tm')"
          using Suc.prems(1) am nd by (auto split: if_splits)
        note IH = Suc.IH[OF e i(2) np]
        then have "tmp' = tmp" using False by simp
        then have "group (Suc i) am d np tmp' = group i am d np tmp'"
          using L False by (auto simp: group_def)
        then show ?thesis using IH False nd \<open>tmp' = tmp\<close> by (auto simp: less_Suc_eq)
      qed
    qed
  qed
qed

lemma extract_group_nonzero:
  assumes "extract_group i d np (am, null_pc, 0) = (am', tmp', tm')" and "tmp' \<noteq> null_pc" and "i \<le> 32"
  shows "tm' \<noteq> 0"
proof -
  have P: "extract_group i d np (am, tmp, tm) = (am', tmp', tm') \<Longrightarrow> i \<le> 32 \<Longrightarrow>
      members tm \<subseteq> members tm' \<and> (tmp' \<noteq> tmp \<longrightarrow> members tm' \<noteq> {})" for am tmp tm
  proof (induction i arbitrary: am tmp tm)
    case (Suc i)
    from Suc.prems(1) obtain a u v where e: "extract_group i d np (a, u, v) = (am', tmp', tm')"
      and uv: "(u, v) = (tmp, tm) \<or> v = set_bit i tm" by (auto split: if_splits)
    from Suc.IH[OF e] Suc.prems(2) uv show ?case
      using members_set_bit[of i tm] by fastforce
  qed simp
  from P[OF assms(1,3)] assms(2) show ?thesis by (auto simp: members_empty[symmetric])
qed

text \<open>The groups the loop collects: one for each next address of a live thread.\<close>

lemma collect_paths_spec:
  assumes "w \<le> 32" and "members am \<subseteq> {..<w}" and "\<forall>j \<in> live w am d. np ! j \<noteq> null_pc"
    and "ordered ps" and "\<forall>j \<in> live w am d. np ! j \<notin> fst ` set ps"
  shows "\<exists>qs. collect_paths w d np am ps (length ps) = Inr (qs, length qs) \<and> ordered qs \<and>
    (\<forall>k. map_of qs k \<noteq> None \<longleftrightarrow> map_of ps k \<noteq> None \<or> group w am d np k \<noteq> {}) \<and>
    (\<forall>k m. map_of qs k = Some m \<longrightarrow>
       (if group w am d np k = {} then map_of ps k = Some m else members m = group w am d np k))"
  using assms
proof (induction "card (members am)" arbitrary: am ps rule: less_induct)
  case less
  show ?case
  proof (cases "am = 0")
    case True
    then show ?thesis
      using less.prems(4)
      by (intro exI[of _ ps]) (auto simp: collect_paths.simps[of w d np 0] group_def live_def)
  next
    case False
    obtain am' tmp tm where e: "extract_group w d np (am, null_pc, 0) = (am', tmp, tm)"
      by (cases "extract_group w d np (am, null_pc, 0)")
    note S = extract_group_spec[OF e less.prems(1,3)]
    show ?thesis
    proof (cases "tmp = null_pc")
      case True
      then have l: "live w am d = {}" using S by simp
      have "members am' = {}"
        using S True less.prems(2) l by (auto simp: members_bit live_def)
      then have "am' = 0" by (simp add: members_empty)
      then show ?thesis
        using False e True less.prems(4) l
        by (intro exI[of _ ps]) (auto simp: collect_paths.simps[of w d np am] group_def)
    next
      case ntmp: False
      have lt: "card (members am') < card (members am)"
        using extract_group_members[OF e] ntmp by (intro psubset_card_mono) auto
      have tm: "members tm = group w am d np tmp" using S by simp
      have tm_ne: "group w am d np tmp \<noteq> {}"
      proof
        assume "group w am d np tmp = {}"
        then have "members tm = {}" using tm by simp
        then have "tm = 0" by (simp add: members_empty)
        with e ntmp show False using extract_group_nonzero[OF _ _ less.prems(1)] by blast
      qed
      have live': "live w am' d = live w am d - group w am d np tmp"
        using S by (auto simp: live_def members_bit[symmetric])
      have grp': "group w am' d np k = (if k = tmp then {} else group w am d np k)" for k
        using live' by (auto simp: group_def)
      have fresh: "tmp \<notin> fst ` set ps" using tm_ne less.prems(5) by (auto simp: group_def)
      have p2: "members am' \<subseteq> {..<w}" using S less.prems(2) by blast
      have p3: "\<forall>j \<in> live w am' d. np ! j \<noteq> null_pc" using less.prems(3) live' by blast
      have p5: "\<forall>j \<in> live w am' d. np ! j \<notin> fst ` set (omap_put tmp tm ps)"
        using less.prems(5) live' by (auto simp: omap_put_keys group_def)
      obtain qs where qs: "collect_paths w d np am' (omap_put tmp tm ps) (length (omap_put tmp tm ps)) =
          Inr (qs, length qs)" "ordered qs"
        "\<forall>k. map_of qs k \<noteq> None \<longleftrightarrow> map_of (omap_put tmp tm ps) k \<noteq> None \<or> group w am' d np k \<noteq> {}"
        "\<forall>k m. map_of qs k = Some m \<longrightarrow>
          (if group w am' d np k = {} then map_of (omap_put tmp tm ps) k = Some m
           else members m = group w am' d np k)"
        using less.hyps[OF lt less.prems(1) p2 p3 ordered_omap_put[OF less.prems(4)] p5] by blast
      have "collect_paths w d np am ps (length ps) = Inr (qs, length qs)"
        using qs(1) False e ntmp length_omap_put[OF fresh]
        by (subst collect_paths.simps) simp
      moreover have "map_of qs k \<noteq> None \<longleftrightarrow> map_of ps k \<noteq> None \<or> group w am d np k \<noteq> {}" for k
        using qs(3) tm_ne by (auto simp: map_of_omap_put grp' split: if_splits)
      moreover have "if group w am d np k = {} then map_of ps k = Some m else members m = group w am d np k"
        if "map_of qs k = Some m" for k m
      proof -
        have "if group w am' d np k = {} then map_of (omap_put tmp tm ps) k = Some m
            else members m = group w am' d np k" using qs(4) that by blast
        then show ?thesis using tm tm_ne
          by (cases "k = tmp") (simp_all add: map_of_omap_put grp' split: if_splits)
      qed
      ultimately show ?thesis using qs(2) by blast
    qed
  qed
qed

section \<open>The stack invariant\<close>

definition waits :: "simt_entry list \<Rightarrow> address \<Rightarrow> nat set \<Rightarrow> bool" where
  "waits es pc ts \<longleftrightarrow> (\<exists>f \<in> set es. m_pc f = pc \<and> ts \<subseteq> members (m_active_mask f))"

text \<open>
  An entry: a call entry never reconverges and lies on its caller, whose threads include its own;
  any other entry that reconverges has an entry below that waits for its threads.
\<close>

definition wf_entry :: "simt_entry list \<Rightarrow> simt_entry \<Rightarrow> bool" where
  "wf_entry es e \<longleftrightarrow>
     (case m_type e of
        CALL \<Rightarrow> m_recvg_pc e = null_pc \<and> es \<noteq> [] \<and>
                members (m_active_mask e) \<subseteq> members (m_active_mask (hd es))
      | NORMAL \<Rightarrow> m_recvg_pc e = null_pc \<or> waits es (m_recvg_pc e) (members (m_active_mask e)))"

fun wf_stack :: "simt_entry list \<Rightarrow> bool" where
  "wf_stack [] = True"
| "wf_stack (e # es) = (wf_entry es e \<and> wf_stack es)"

lemma waits_mono: "waits es pc ts \<Longrightarrow> set es \<subseteq> set fs \<Longrightarrow> us \<subseteq> ts \<Longrightarrow> waits fs pc us"
  by (fastforce simp: waits_def)

lemma waits_Cons: "waits (e # es) pc ts \<longleftrightarrow> m_pc e = pc \<and> ts \<subseteq> members (m_active_mask e) \<or> waits es pc ts"
  by (auto simp: waits_def)

lemma wf_entry_mask:
  "wf_entry es e \<Longrightarrow> members m \<subseteq> members (m_active_mask e) \<Longrightarrow>
     wf_entry es (e\<lparr>m_pc := pc, m_active_mask := m\<rparr>)"
  by (auto simp: wf_entry_def split: stack_entry_type.splits intro: waits_mono)

text \<open>
  The loop over the paths: \<open>s\<close> is the entry the next path is written to, \<open>T\<close> the entries that stay,
  \<open>e0\<close> the top the update started with and \<open>es0\<close> the entries below it.
\<close>

definition target :: "upd \<Rightarrow> bool \<Rightarrow> address" where
  "target u diverged = (if diverged then u_recvg u else u_top_recvg u)"

definition loop_inv ::
    "upd \<Rightarrow> simt_entry \<Rightarrow> simt_entry list \<Rightarrow> bool \<Rightarrow> simt_entry \<Rightarrow> simt_entry list \<Rightarrow> bool" where
  "loop_inv u e0 es0 diverged s T \<longleftrightarrow>
     wf_stack T \<and>
     (u_top_recvg u = null_pc \<or> waits T (u_top_recvg u) (members (m_active_mask e0))) \<and>
     (diverged \<longrightarrow> u_recvg u = null_pc \<or> waits T (u_recvg u) (members (m_active_mask e0))) \<and>
     (\<forall>m pc cd. members m \<subseteq> members (m_active_mask e0) \<longrightarrow>
        wf_entry T (s\<lparr>m_pc := pc, m_active_mask := m, m_calldepth := cd,
                     m_recvg_pc := target u diverged\<rparr>)) \<and>
     (\<not> diverged \<longrightarrow> 1 < u_num u \<longrightarrow> s = e0 \<and> T = es0)"

lemma loop_inv_start:
  assumes "wf_stack (e0 # es0)" and "u_top_recvg u = m_recvg_pc e0"
  shows "loop_inv u e0 es0 False e0 es0"
  using assms
  by (auto simp: loop_inv_def wf_entry_def target_def split: stack_entry_type.splits
      intro: waits_mono)

lemma loop_inv_diverge:
  assumes "wf_stack (e0 # es0)" and "u_top_recvg u = m_recvg_pc e0"
  obtains s T add where "make_recvg u (e0 # es0) = s # T" "loop_inv u e0 es0 True s T" "T = add @ es0"
    "add = [] \<or> (\<exists>r. add = [r] \<and> m_pc r = u_recvg u \<and> m_active_mask r = m_active_mask e0)"
proof (cases "u_recvg u = u_top_recvg u")
  case True
  then have "loop_inv u e0 es0 True e0 es0"
    using assms by (auto simp: loop_inv_def wf_entry_def target_def
        split: stack_entry_type.splits intro: waits_mono)
  then show ?thesis using True by (intro that[of e0 es0 "[]"]) (simp_all add: make_recvg_def)
next
  case False
  let ?r = "e0\<lparr>m_pc := u_recvg u, m_branch_div_cycle := u_cyc u\<rparr>"
  have "wf_entry es0 ?r" using assms(1) by (auto simp: wf_entry_def split: stack_entry_type.splits)
  moreover have "waits (?r # es0) (u_recvg u) (members (m_active_mask e0))" by (simp add: waits_def)
  moreover have "u_top_recvg u = null_pc \<or> waits (?r # es0) (u_top_recvg u) (members (m_active_mask e0))"
    using assms by (auto simp: wf_entry_def waits_Cons split: stack_entry_type.splits)
  ultimately have "loop_inv u e0 es0 True simt_stack_entry (?r # es0)"
    using assms(1)
    by (auto simp: loop_inv_def wf_entry_def target_def simt_stack_entry_def intro: waits_mono
        split: stack_entry_type.splits)
  then show ?thesis using False
    by (intro that[of simt_stack_entry "?r # es0" "[?r]"]) (simp_all add: make_recvg_def)
qed

lemma loop_inv_set:
  assumes "loop_inv u e0 es0 diverged s T" and "members m \<subseteq> members (m_active_mask e0)"
    and "diverged \<or> u_num u \<le> 1"
  obtains e where "set_path u diverged pc m (s # T) = simt_stack_entry # e # T"
    "loop_inv u e0 es0 diverged simt_stack_entry (e # T)" "m_pc e = pc" "m_active_mask e = m"
proof -
  define e where "e = (if diverged
      then s\<lparr>m_pc := pc, m_active_mask := m, m_calldepth := 0, m_recvg_pc := u_recvg u\<rparr>
      else s\<lparr>m_pc := pc, m_active_mask := m, m_recvg_pc := u_top_recvg u\<rparr>)"
  have set: "set_path u diverged pc m (s # T) = simt_stack_entry # e # T"
    by (simp add: set_path_def e_def)
  have "wf_entry T (s\<lparr>m_pc := pc, m_active_mask := m, m_calldepth := (if diverged then 0 else m_calldepth s),
      m_recvg_pc := target u diverged\<rparr>)"
    using assms(1,2) by (simp add: loop_inv_def)
  then have we: "wf_entry T e" by (simp add: e_def target_def split: if_splits)
  have wT: "wf_stack T" using assms(1) by (simp add: loop_inv_def)
  have a: "u_top_recvg u = null_pc \<or> waits (e # T) (u_top_recvg u) (members (m_active_mask e0))"
    and b: "diverged \<longrightarrow> u_recvg u = null_pc \<or> waits (e # T) (u_recvg u) (members (m_active_mask e0))"
    using assms(1) by (auto simp: loop_inv_def waits_Cons)
  have "wf_entry (e # T) (simt_stack_entry\<lparr>m_pc := pc', m_active_mask := m', m_calldepth := cd,
      m_recvg_pc := target u diverged\<rparr>)" if "members m' \<subseteq> members (m_active_mask e0)" for m' pc' cd
    using a b that by (auto simp: wf_entry_def simt_stack_entry_def target_def intro: waits_mono)
  then have "loop_inv u e0 es0 diverged simt_stack_entry (e # T)"
    using a b we wT assms(3) by (auto simp: loop_inv_def)
  then show ?thesis using set that[of e] by (simp add: e_def)
qed

lemma take_path_ok:
  assumes "paths \<noteq> []" and "i = 0 \<or> map_of paths nt = None" and "distinct (map fst paths)"
  obtains pc m rest where "take_path nt i paths = Inr (pc, m, rest)" "(pc, m) \<in> set paths"
    "set paths = insert (pc, m) (set rest)" "distinct (map fst rest)"
    "length paths = Suc (length rest)" "map_of rest nt = None" "pc \<notin> fst ` set rest"
proof -
  have er: "set paths = insert (k, m) (set (omap_erase k paths)) \<and> distinct (map fst (omap_erase k paths)) \<and>
      length paths = Suc (length (omap_erase k paths))" if km: "(k, m) \<in> set paths" for k m
  proof -
    have "set paths = insert (k, m) (set (omap_erase k paths))"
      using km assms(3) by (auto simp: omap_erase_def dest: eq_key_imp_eq_value)
    moreover have "distinct (map fst (omap_erase k paths))"
      using assms(3) by (simp add: omap_erase_def distinct_map_filter)
    moreover have "length paths = Suc (length (omap_erase k paths))"
      using assms(3) km
    proof (induction paths)
      case (Cons p ps)
      show ?case
      proof (cases "fst p = k")
        case True
        then have "omap_erase k ps = ps"
          using Cons.prems(1) by (auto simp: omap_erase_def filter_id_conv image_iff)
        then show ?thesis using True by (simp add: omap_erase_def)
      next
        case False
        then show ?thesis using Cons by (auto simp: omap_erase_def)
      qed
    qed simp
    ultimately show ?thesis by blast
  qed
  show thesis
  proof (cases "map_of paths nt")
    case (Some m)
    then have "(nt, m) \<in> set paths" by (rule map_of_SomeD)
    with er[OF this] Some assms(2) show thesis
      by (intro that[of nt m "omap_erase nt paths"])
        (auto simp: take_path_def map_of_omap_erase omap_erase_fresh)
  next
    case None
    obtain p ps where p: "paths = p # ps" using assms(1) by (cases paths) auto
    then have "(fst p, snd p) \<in> set paths" by simp
    with er[OF this] None p show thesis
      by (intro that[of "fst p" "snd p" "omap_erase (fst p) paths"])
        (auto simp: take_path_def map_of_omap_erase omap_erase_fresh)
  qed
qed

text \<open>The entries the loop writes: one for each path, with its threads, and under them at most one for the
  reconvergence, with all the threads of the entry that diverged; no two resume at the same address.\<close>

definition written ::
    "upd \<Rightarrow> simt_entry \<Rightarrow> bool \<Rightarrow> (address \<times> simt_mask_t) list \<Rightarrow> simt_entry list \<Rightarrow> bool" where
  "written u e0 diverged paths new \<longleftrightarrow> distinct (map m_pc new) \<and>
     (\<forall>e \<in> set new.
        \<not> diverged \<and> 1 < u_num u \<and> m_pc e = u_recvg u \<and> m_active_mask e = m_active_mask e0 \<or>
        (m_pc e, m_active_mask e) \<in> set paths \<and> (diverged \<or> 1 < u_num u \<longrightarrow> m_pc e \<noteq> u_recvg u))"

lemma written_Nil [simp]: "written u e0 diverged paths []"
  by (simp add: written_def)

lemma written_skip: "written u e0 diverged rest new \<Longrightarrow> set rest \<subseteq> set paths \<Longrightarrow> written u e0 diverged paths new"
  by (auto simp: written_def)

lemma written_recvg:
  assumes "written u e0 True paths new" and "1 < u_num u"
    and "add = [] \<or> (\<exists>r. add = [r] \<and> m_pc r = u_recvg u \<and> m_active_mask r = m_active_mask e0)"
  shows "written u e0 False paths (new @ add)"
  using assms by (auto simp: written_def)

lemma written_path:
  assumes "written u e0 diverged rest new" and "diverged \<or> u_num u \<le> 1"
    and "set paths = insert (m_pc e, m_active_mask e) (set rest)" and "m_pc e \<notin> fst ` set rest"
    and "diverged \<longrightarrow> m_pc e \<noteq> u_recvg u"
  shows "written u e0 diverged paths (new @ [e])"
  using assms by (force simp: written_def)

lemma path_loop_ok:
  assumes "wf_stack (e0 # es0)" and "u_top_recvg u = m_recvg_pc e0" and "u_top_type u = m_type e0"
    and "u_op u \<noteq> CALL_OPS" and "\<not> (u_op u = RET_OPS \<and> u_top_type u = CALL)"
    and "loop_inv u e0 es0 diverged s T"
    and "diverged \<or> k = 0 \<or> s = e0 \<and> T = es0" and "u_num u = i + k"
    and "length paths = k" and "distinct (map fst paths)" and "i = 0 \<or> map_of paths (u_not_taken u) = None"
    and "\<forall>p \<in> set paths. fst p \<noteq> null_pc \<and> members (snd p) \<subseteq> members (m_active_mask e0)"
    and "diverged \<or> u_num u \<le> 1 \<or> s = e0"
  shows "\<exists>s' T'. path_loop u i k diverged paths (s # T) = Inr (s' # T', False) \<and> wf_stack T' \<and>
    (\<exists>new. T' = new @ T \<and> written u e0 diverged paths new) \<and>
    (\<forall>p \<in> set paths. waits T' (fst p) (members (snd p)))"
  using assms(6-)
proof (induction k arbitrary: i diverged paths s T)
  case 0
  then show ?case by (auto simp: loop_inv_def)
next
  case (Suc k)
  have ne: "paths \<noteq> []" using Suc.prems(4) by auto
  obtain pc m rest where take: "take_path (u_not_taken u) i paths = Inr (pc, m, rest)"
    and in_paths: "(pc, m) \<in> set paths" and set_paths: "set paths = insert (pc, m) (set rest)"
    and rest: "distinct (map fst rest)" "length paths = Suc (length rest)"
      "map_of rest (u_not_taken u) = None" and pc_new: "pc \<notin> fst ` set rest"
    by (rule take_path_ok[OF ne Suc.prems(6,5)])
  have pcm: "pc \<noteq> null_pc" "members m \<subseteq> members (m_active_mask e0)"
    using bspec[OF Suc.prems(7) in_paths] by simp_all
  have rest_ok: "\<forall>p \<in> set rest. fst p \<noteq> null_pc \<and> members (snd p) \<subseteq> members (m_active_mask e0)"
    using Suc.prems(7) set_paths by auto
  have fin: ?case
    if step: "path_loop u i (Suc k) diverged paths (s # T) = path_loop u (Suc i) k dv rest (s1 # T1)"
      and inv: "loop_inv u e0 es0 dv s1 T1" and st: "dv \<or> k = 0 \<or> s1 = e0 \<and> T1 = es0"
      and st2: "dv \<or> u_num u \<le> 1 \<or> s1 = e0"
      and sub: "T1 = add @ T" and wt: "waits T1 pc (members m)"
      and wr: "\<And>new. written u e0 dv rest new \<Longrightarrow> written u e0 diverged paths (new @ add)"
    for dv s1 T1 add
  proof -
    obtain s' T' new where r: "path_loop u (Suc i) k dv rest (s1 # T1) = Inr (s' # T', False)" "wf_stack T'"
      "T' = new @ T1" "written u e0 dv rest new" "\<forall>p \<in> set rest. waits T' (fst p) (members (snd p))"
      using Suc.IH[OF inv st _ _ rest(1) _ rest_ok st2, of "Suc i"] Suc.prems(3,4) rest(2,3) by auto
    have "waits T' pc (members m)" using wt by (rule waits_mono) (auto simp: r(3))
    moreover have "T' = (new @ add) @ T" using r(3) sub by simp
    ultimately show ?thesis using r(1,2,5) wr[OF r(4)] step set_paths by auto
  qed
  show ?case
  proof (cases "pc = u_top_recvg u \<and> u_top_type u \<noteq> CALL")
    case True
    then have "waits T pc (members m)"
      using Suc.prems(1) pcm by (auto simp: loop_inv_def intro: waits_mono)
    moreover have "path_loop u i (Suc k) diverged paths (s # T) = path_loop u (Suc i) k diverged rest (s # T)"
      using True assms(4,5) take by (simp add: Let_def)
    moreover have "written u e0 diverged paths (new @ [])" if "written u e0 diverged rest new" for new
      using written_skip[OF that] set_paths by auto
    ultimately show ?thesis using fin[of diverged s T "[]"] Suc.prems(1,2,8) by auto
  next
    case False
    define now where "now = (1 < u_num u \<and> \<not> diverged)"
    obtain s1 T1 add where m1: "(if now then make_recvg u (s # T) else s # T) = s1 # T1"
      and inv1: "loop_inv u e0 es0 (diverged \<or> now) s1 T1" and sub1: "T1 = add @ T"
      and wr1: "\<And>new ps. written u e0 (diverged \<or> now) ps new \<Longrightarrow> written u e0 diverged ps (new @ add)"
    proof (cases now)
      case True
      then have n: "s = e0" "T = es0" "\<not> diverged" "1 < u_num u" using Suc.prems(2,3) by (auto simp: now_def)
      obtain s1 T1 add where d: "make_recvg u (e0 # es0) = s1 # T1" "loop_inv u e0 es0 True s1 T1"
        "T1 = add @ es0"
        "add = [] \<or> (\<exists>r. add = [r] \<and> m_pc r = u_recvg u \<and> m_active_mask r = m_active_mask e0)"
        by (rule loop_inv_diverge[OF assms(1,2)])
      show ?thesis using that[of s1 T1 add] d n True written_recvg[OF _ n(4) d(4)] by simp
    next
      case False
      then show ?thesis using that[of s T "[]"] Suc.prems(1) by auto
    qed
    have step: "path_loop u i (Suc k) diverged paths (s # T) =
        (if (diverged \<or> now) \<and> pc = u_recvg u
         then path_loop u (Suc i) k (diverged \<or> now) rest (s1 # T1)
         else path_loop u (Suc i) k (diverged \<or> now) rest (set_path u (diverged \<or> now) pc m (s1 # T1)))"
    proof -
      have c: "(u_op u = CALL_OPS) = False" "(u_op u = RET_OPS \<and> u_top_type u = CALL) = False"
        "(pc = u_top_recvg u \<and> u_top_type u \<noteq> CALL) = False" using assms(4,5) False by auto
      show ?thesis
        by (simp only: path_loop.simps(2) take bindE_simps Let_def fst_conv snd_conv c if_False
            now_def[symmetric] m1)
    qed
    have dv: "diverged \<or> now \<or> u_num u \<le> 1" by (auto simp: now_def)
    show ?thesis
    proof (cases "(diverged \<or> now) \<and> pc = u_recvg u")
      case True
      then have "waits T1 pc (members m)"
        using inv1 pcm by (auto simp: loop_inv_def intro: waits_mono)
      moreover have "written u e0 diverged paths (new @ add)" if "written u e0 (diverged \<or> now) rest new" for new
        using wr1[OF written_skip[OF that]] set_paths by auto
      ultimately show ?thesis using fin[OF _ inv1 _ _ sub1] step True by auto
    next
      case nr: False
      obtain e where e: "set_path u (diverged \<or> now) pc m (s1 # T1) = simt_stack_entry # e # T1"
        "loop_inv u e0 es0 (diverged \<or> now) simt_stack_entry (e # T1)" "m_pc e = pc" "m_active_mask e = m"
        using loop_inv_set[OF inv1 pcm(2), of pc] dv by auto
      have "waits (e # T1) pc (members m)" using e by (simp add: waits_Cons)
      moreover have "(diverged \<or> now) \<or> k = 0" using dv Suc.prems(3) by auto
      moreover have "written u e0 diverged paths (new @ e # add)" if w: "written u e0 (diverged \<or> now) rest new" for new
      proof -
        have "pc \<notin> fst ` set rest" using pc_new by simp
        then have "written u e0 (diverged \<or> now) paths (new @ [e])"
          using written_path[OF w] dv e(3,4) set_paths nr by auto
        from wr1[OF this] show ?thesis by simp
      qed
      moreover have "e # T1 = (e # add) @ T" using sub1 by simp
      ultimately show ?thesis
        using fin[OF _ e(2), of "e # add"] step nr e(1) dv by (auto simp del: path_loop.simps)
    qed
  qed
qed

section \<open>The update\<close>

text \<open>What the core hands to the update: the threads of the warp, their next addresses, which are real
  addresses for live threads, and an instruction that sends them to at most two places, to one if it
  is a call or a return.\<close>

definition update_args ::
    "simt_stack \<Rightarrow> simt_mask_t \<Rightarrow> address list \<Rightarrow> op_type \<Rightarrow> bool" where
  "update_args st d np op \<longleftrightarrow>
     (case m_stack st of [] \<Rightarrow> False
      | e # es \<Rightarrow>
          m_warp_size st \<le> 32 \<and> length np = m_warp_size st \<and> m_active_mask e \<noteq> 0 \<and>
          members (m_active_mask e) \<subseteq> {..<m_warp_size st} \<and>
          (let L = live (m_warp_size st) (m_active_mask e) d
           in (\<forall>j \<in> L. np ! j \<noteq> null_pc) \<and> card ((!) np ` L) \<le> 2 \<and>
              (op = CALL_OPS \<or> op = RET_OPS \<and> m_type e = CALL \<longrightarrow> card ((!) np ` L) \<le> 1)))"

definition covered :: "simt_entry list \<Rightarrow> address list \<Rightarrow> nat set \<Rightarrow> bool" where
  "covered es np ts \<longleftrightarrow> (\<forall>j \<in> ts. \<exists>e \<in> set es. m_pc e = np ! j \<and> bit (m_active_mask e) j)"

lemma collected:
  assumes "w \<le> 32" and "members am \<subseteq> {..<w}" and "\<forall>j \<in> live w am d. np ! j \<noteq> null_pc"
  obtains qs where "collect_paths w d np am [] 0 = Inr (qs, length qs)" "distinct (map fst qs)"
    "length qs = card ((!) np ` live w am d)"
    "\<forall>p \<in> set qs. fst p \<noteq> null_pc \<and> members (snd p) = group w am d np (fst p)"
    "\<forall>j \<in> live w am d. \<exists>p \<in> set qs. fst p = np ! j \<and> j \<in> members (snd p)"
    "fst ` set qs = (!) np ` live w am d"
proof -
  obtain qs where qs: "collect_paths w d np am [] 0 = Inr (qs, length qs)" "ordered qs"
    "\<forall>k. map_of qs k \<noteq> None \<longleftrightarrow> group w am d np k \<noteq> {}"
    "\<forall>k m. map_of qs k = Some m \<longrightarrow>
       (if group w am d np k = {} then map_of [] k = Some m else members m = group w am d np k)"
    using collect_paths_spec[OF assms, of "[]"] by (auto simp: ordered_def)
  have dist: "distinct (map fst qs)" by (rule ordered_distinct[OF qs(2)])
  have keys: "fst ` set qs = (!) np ` live w am d"
  proof (rule set_eqI)
    fix k
    have "k \<in> fst ` set qs \<longleftrightarrow> group w am d np k \<noteq> {}"
      using qs(3) by (metis map_of_eq_None_iff)
    then show "k \<in> fst ` set qs \<longleftrightarrow> k \<in> (!) np ` live w am d" by (auto simp: group_def)
  qed
  have val: "members (snd p) = group w am d np (fst p)" if "p \<in> set qs" for p
  proof -
    have "map_of qs (fst p) = Some (snd p)" using that dist by (simp add: map_of_eq_Some_iff)
    then show ?thesis using qs(4) by (metis map_of.simps(1) option.distinct(1))
  qed
  have "length qs = card ((!) np ` live w am d)"
    using distinct_card[OF dist] keys by simp
  moreover have "\<forall>p \<in> set qs. fst p \<noteq> null_pc" using keys assms(3) by force
  moreover have "\<exists>p \<in> set qs. fst p = np ! j \<and> j \<in> members (snd p)" if "j \<in> live w am d" for j
  proof -
    have "np ! j \<in> fst ` set qs" using that keys by simp
    then obtain p where p: "p \<in> set qs" "fst p = np ! j" by auto
    then show ?thesis using val[OF p(1)] that by (auto simp: group_def)
  qed
  ultimately show ?thesis using that qs(1) dist val keys by blast
qed

text \<open>
  The stack after an instruction of the entry \<open>e0\<close> on \<open>es0\<close>, with \<open>L\<close> the live threads of \<open>e0\<close>.  A call puts one
  entry with them on top and changes nothing below.  A return from a call takes \<open>e0\<close> off and sends the caller on,
  or takes the caller off as well where it would resume at its own reconvergence.  Any other instruction
  replaces \<open>e0\<close> alone: by an entry for each place some threads go to, with exactly these threads, and when they
  part, by one that waits for all threads of \<open>e0\<close> where they meet again.
\<close>

definition stack_after ::
    "op_type \<Rightarrow> address \<Rightarrow> simt_entry \<Rightarrow> simt_entry list \<Rightarrow> address list \<Rightarrow> nat set \<Rightarrow> simt_entry list \<Rightarrow> bool" where
  "stack_after op recvg e0 es0 np L stk \<longleftrightarrow>
     (if op = CALL_OPS \<and> L \<noteq> {} then
        \<exists>c. stk = c # e0 # es0 \<and> m_type c = CALL \<and> members (m_active_mask c) = L
      else if op = RET_OPS \<and> m_type e0 = CALL \<and> L \<noteq> {} then
        \<exists>f fs. es0 = f # fs \<and>
          (\<forall>j \<in> L. stk = (if np ! j = m_recvg_pc f \<and> m_type f \<noteq> CALL then fs else f\<lparr>m_pc := np ! j\<rparr> # fs))
      else
        \<exists>new. stk = new @ es0 \<and> distinct (map m_pc new) \<and>
          (\<forall>e \<in> set new.
             1 < card ((!) np ` L) \<and> m_pc e = recvg \<and> m_active_mask e = m_active_mask e0 \<or>
             m_pc e \<in> (!) np ` L \<and> members (m_active_mask e) = {j \<in> L. np ! j = m_pc e}))"

lemma update_ok:
  assumes "wf_stack (m_stack st)" and "update_args st d np op"
    and "m_stack st = e0 # es0" and "m_pc e0 = pc"
  shows "\<exists>stk. update cyc st d np recvg op sz pc = Inr (st\<lparr>m_stack := stk\<rparr>) \<and> wf_stack stk \<and>
    covered stk np (live (m_warp_size st) (m_active_mask e0) d) \<and>
    stack_after op recvg e0 es0 np (live (m_warp_size st) (m_active_mask e0) d) stk"
proof -
  let ?w = "m_warp_size st" and ?am = "m_active_mask e0"
  let ?L = "live ?w ?am d"
  have args: "?w \<le> 32" "length np = ?w" "?am \<noteq> 0" "members ?am \<subseteq> {..<?w}"
    "\<forall>j \<in> ?L. np ! j \<noteq> null_pc" "card ((!) np ` ?L) \<le> 2"
    "op = CALL_OPS \<or> op = RET_OPS \<and> m_type e0 = CALL \<longrightarrow> card ((!) np ` ?L) \<le> 1"
    using assms(2) by (auto simp: update_args_def assms(3) Let_def)
  have wf: "wf_stack (e0 # es0)" using assms(1) by (simp add: assms(3))
  obtain qs where qs: "collect_paths ?w d np ?am [] 0 = Inr (qs, length qs)" "distinct (map fst qs)"
    "length qs = card ((!) np ` ?L)"
    "\<forall>p \<in> set qs. fst p \<noteq> null_pc \<and> members (snd p) = group ?w ?am d np (fst p)"
    "\<forall>j \<in> ?L. \<exists>p \<in> set qs. fst p = np ! j \<and> j \<in> members (snd p)"
    "fst ` set qs = (!) np ` ?L"
    by (rule collected[OF args(1,4,5)])
  have sub: "\<forall>p \<in> set qs. fst p \<noteq> null_pc \<and> members (snd p) \<subseteq> members ?am"
    using qs(4) by (auto simp: group_def live_def members_bit)
  define u where "u = \<lparr>u_cyc = cyc, u_num = length qs, u_op = op, u_not_taken = pc + sz,
      u_recvg = recvg, u_top_recvg = m_recvg_pc e0, u_top_type = m_type e0\<rparr>"
  have upd: "update cyc st d np recvg op sz pc =
      bindE (path_loop u 0 (length qs) False qs (e0 # es0)) (\<lambda>r.
        if snd r then Inr (st\<lparr>m_stack := fst r\<rparr>)
        else assertE (fst r \<noteq> []) (Inr (st\<lparr>m_stack := tl (fst r)\<rparr>)))"
    using args(2,3,6) qs(1,3) by (simp add: update_def stack_back_def assms(3,4) u_def)
  have cov: "covered es np ?L" if "\<forall>p \<in> set qs. waits es (fst p) (members (snd p))" for es
    using that qs(5) by (fastforce simp: covered_def waits_def members_bit)
  have noL: "?L = {} \<longleftrightarrow> qs = []" using qs(6) by auto
  show ?thesis
  proof (cases "qs = [] \<or> op \<noteq> CALL_OPS \<and> \<not> (op = RET_OPS \<and> m_type e0 = CALL)")
    case True
    obtain s' T' where r: "path_loop u 0 (length qs) False qs (e0 # es0) = Inr (s' # T', False)"
      "wf_stack T'" "\<forall>p \<in> set qs. waits T' (fst p) (members (snd p))"
      "\<exists>new. T' = new @ es0 \<and> written u e0 False qs new"
    proof (cases "qs = []")
      case True
      then show ?thesis using that[of e0 es0] wf by simp
    next
      case False
      then show ?thesis
        using path_loop_ok[OF wf _ _ _ _ loop_inv_start[OF wf], of u "length qs" 0 qs] True qs(2) sub that
        by (auto simp: u_def)
    qed
    moreover obtain new where new: "T' = new @ es0" "written u e0 False qs new" using r(4) by blast
    have path: "m_pc e \<in> (!) np ` ?L \<and> members (m_active_mask e) = {j \<in> ?L. np ! j = m_pc e}"
      if "(m_pc e, m_active_mask e) \<in> set qs" for e
    proof -
      have "m_pc e \<in> fst ` set qs" using that by force
      then show ?thesis using bspec[OF qs(4) that] by (simp add: group_def qs(6))
    qed
    have no: "(op = CALL_OPS \<and> ?L \<noteq> {}) = False" "(op = RET_OPS \<and> m_type e0 = CALL \<and> ?L \<noteq> {}) = False"
      using True noL by auto
    have num: "u_num u = card ((!) np ` ?L)" "u_recvg u = recvg" by (simp_all add: u_def qs(3))
    have each: "\<forall>e \<in> set new. 1 < card ((!) np ` ?L) \<and> m_pc e = recvg \<and> m_active_mask e = ?am \<or>
        m_pc e \<in> (!) np ` ?L \<and> members (m_active_mask e) = {j \<in> ?L. np ! j = m_pc e}"
    proof
      fix e assume "e \<in> set new"
      then consider "1 < u_num u" "m_pc e = u_recvg u" "m_active_mask e = ?am" | "(m_pc e, m_active_mask e) \<in> set qs"
        using new(2) unfolding written_def by blast
      then show "1 < card ((!) np ` ?L) \<and> m_pc e = recvg \<and> m_active_mask e = ?am \<or>
          m_pc e \<in> (!) np ` ?L \<and> members (m_active_mask e) = {j \<in> ?L. np ! j = m_pc e}"
      proof cases
        case 1
        then show ?thesis using num by simp
      next
        case 2
        from path[OF this] show ?thesis by blast
      qed
    qed
    have "distinct (map m_pc new)" using new(2) by (simp add: written_def)
    with new(1) each have "stack_after op recvg e0 es0 np ?L T'"
      unfolding stack_after_def no if_False by blast
    moreover have "update cyc st d np recvg op sz pc = Inr (st\<lparr>m_stack := T'\<rparr>)" using upd r(1) by simp
    moreover have "covered T' np ?L" using cov r(3) by blast
    ultimately show ?thesis using r(2) by blast
  next
    case False
    then have sp: "op = CALL_OPS \<or> op = RET_OPS \<and> m_type e0 = CALL" "qs \<noteq> []" by auto
    then have "length qs = 1" using args(7) qs(3) by (metis One_nat_def Suc_leI le_antisym length_greater_0_conv)
    then obtain k m where q: "qs = [(k, m)]"
      by (metis length_0_conv length_Suc_conv One_nat_def surj_pair)
    have km: "k \<noteq> null_pc" "members m \<subseteq> members ?am" using sub q by simp_all
    have kL: "members m = ?L" "\<forall>j \<in> ?L. np ! j = k" "?L \<noteq> {}"
    proof -
      show at: "\<forall>j \<in> ?L. np ! j = k" using qs(5) unfolding q by simp
      have "members m = group ?w ?am d np k" using qs(4) unfolding q by simp
      also have "\<dots> = ?L" using at unfolding group_def by blast
      finally show "members m = ?L" .
      show "?L \<noteq> {}" using noL q by blast
    qed
    obtain rest where take: "take_path (pc + sz) 0 qs = Inr (k, m, rest)"
      using q by (auto simp: take_path_def)
    have finished: ?thesis if "path_loop u 0 (length qs) False qs (e0 # es0) = Inr (es, True)" "wf_stack es"
      "waits es k (members m)" "stack_after op recvg e0 es0 np ?L es" for es
    proof -
      have "covered es np ?L" using cov that(3) q by simp
      moreover have "update cyc st d np recvg op sz pc = Inr (st\<lparr>m_stack := es\<rparr>)" using upd that(1) by simp
      ultimately show ?thesis using that(2,4) by blast
    qed
    show ?thesis
    proof (cases "op = CALL_OPS")
      case True
      let ?c = "call_entry cyc k m"
      have loop: "path_loop u 0 (length qs) False qs (e0 # es0) = Inr (?c # e0 # es0, True)"
        using take True q by (simp add: u_def)
      have "wf_entry (e0 # es0) ?c"
        using km by (simp add: wf_entry_def call_entry_def simt_stack_entry_def)
      moreover have "waits (?c # e0 # es0) k (members m)"
        by (simp add: waits_def call_entry_def)
      moreover have "stack_after op recvg e0 es0 np ?L (?c # e0 # es0)"
        using True kL by (simp add: stack_after_def call_entry_def)
      ultimately show ?thesis using wf by (intro finished[OF loop]) simp_all
    next
      case no_call: False
      then have ret: "op = RET_OPS" "m_type e0 = CALL" using sp by auto
      obtain f fs where es0: "es0 = f # fs" and ef: "members ?am \<subseteq> members (m_active_mask f)"
        using wf ret(2) by (cases es0) (auto simp: wf_entry_def)
      obtain es where es: "return_call k (e0 # es0) = Inr es" "wf_stack es" "waits es k (members m)"
        "es = (if k = m_recvg_pc f \<and> m_type f \<noteq> CALL then fs else f\<lparr>m_pc := k\<rparr> # fs)"
      proof (cases "k = m_recvg_pc f \<and> m_type f \<noteq> CALL")
        case True
        then have "waits fs k (members (m_active_mask f))"
          using wf km(1) by (auto simp: es0 wf_entry_def split: stack_entry_type.splits)
        then have "waits fs k (members m)" using km(2) ef by (auto intro: waits_mono)
        then show ?thesis
          using that[of fs] True wf by (cases "m_type f") (auto simp: return_call_def es0)
      next
        case False
        have "wf_stack (f\<lparr>m_pc := k\<rparr> # fs)"
          using wf by (auto simp: es0 wf_entry_def split: stack_entry_type.splits)
        moreover have "waits (f\<lparr>m_pc := k\<rparr> # fs) k (members m)" using km(2) ef by (auto simp: waits_def)
        moreover have "return_call k (e0 # es0) = Inr (f\<lparr>m_pc := k\<rparr> # fs)"
          using False by (auto simp: return_call_def es0)
        ultimately show ?thesis using that False by auto
      qed
      have "path_loop u 0 (length qs) False qs (e0 # es0) = Inr (es, True)"
        using take ret es(1) q by (simp add: u_def)
      moreover have "stack_after op recvg e0 es0 np ?L es"
        using ret kL es(4) by (auto simp: stack_after_def es0)
      ultimately show ?thesis using es(2,3) by (intro finished)
    qed
  qed
qed


text \<open>A warp of four threads that splits in two at a branch.\<close>

definition demo_stack :: simt_stack where
  "demo_stack = launch (new_simt_stack 0 4) 0 15"

lemma demo_stack_eq:
  "m_stack demo_stack = [simt_stack_entry\<lparr>m_pc := 0, m_calldepth := 1, m_active_mask := 15, m_type := NORMAL\<rparr>]"
  "m_warp_size demo_stack = 4"
  by (simp_all add: demo_stack_def launch_def new_simt_stack_def reset_def)

lemma demo_members: "members 15 \<subseteq> {..<4}"
proof
  fix j assume "j \<in> members 15"
  then have j: "bit (15 :: u32) j" by (simp add: members_bit)
  have "(15 :: u32) = mask 4" by (simp add: mask_eq_exp_minus_1)
  with j show "j \<in> {..<4}" by (simp add: bit_mask_iff)
qed

lemma demo_args: "update_args demo_stack 0 [8, 8, 16, 16] BRANCH_OP"
proof -
  have four: "j = 0 \<or> j = 1 \<or> j = 2 \<or> j = 3" if "j < 4" for j :: nat using that by linarith
  let ?L = "live 4 15 0"
  have np: "[8, 8, 16, 16 :: address] ! j \<in> {8, 16}" if "j \<in> ?L" for j
    using four[of j] that by (auto simp: live_def)
  have "(!) [8, 8, 16, 16 :: address] ` ?L \<subseteq> {8, 16}" using np by blast
  then have "card ((!) [8, 8, 16, 16 :: address] ` ?L) \<le> card {8, 16 :: address}"
    by (intro card_mono) auto
  also have "\<dots> \<le> 2" by (simp add: card_insert_if)
  finally have "card ((!) [8, 8, 16, 16 :: address] ` ?L) \<le> 2" .
  moreover have "\<forall>j \<in> ?L. [8, 8, 16, 16 :: address] ! j \<noteq> null_pc"
    using np by (fastforce simp: null_pc_def)
  ultimately show ?thesis
    using demo_members by (simp add: update_args_def demo_stack_eq simt_stack_entry_def Let_def)
qed


section \<open>Runs of a warp\<close>

text \<open>The instructions of a warp in sequence, as \<open>updateSIMTStack\<close> hands them over; arguments outside
  \<open>update_args\<close> are refused.\<close>

record simt_args =
  a_cyc :: u64
  a_done :: simt_mask_t
  a_next :: "address list"
  a_recvg :: address
  a_op :: op_type
  a_size :: u32

definition simt_exec :: "simt_stack \<Rightarrow> simt_args \<Rightarrow> simt_stack cxx" where
  "simt_exec st a =
     assertE (update_args st (a_done a) (a_next a) (a_op a))
       (update (a_cyc a) st (a_done a) (a_next a) (a_recvg a) (a_op a) (a_size a) (m_pc (hd (m_stack st))))"

lemma simt_exec_ok:
  assumes "wf_stack (m_stack st)" and "update_args st (a_done a) (a_next a) (a_op a)"
  shows "\<exists>st'. simt_exec st a = Inr st' \<and> wf_stack (m_stack st')"
proof -
  obtain e es where s: "m_stack st = e # es"
    using assms(2) by (auto simp: update_args_def split: list.splits)
  from update_ok[OF assms s refl, of "a_cyc a" "a_recvg a" "a_size a"] show ?thesis
    using assms(2) by (auto simp: simt_exec_def s)
qed

interpretation simt_machine: guarded_machine simt_exec "\<lambda>st. wf_stack (m_stack st)"
proof unfold_locales
  fix st a st'
  assume "wf_stack (m_stack st)" and e: "simt_exec st a = Inr st'"
  moreover have "update_args st (a_done a) (a_next a) (a_op a)"
    using e by (simp add: simt_exec_def assertE_def split: if_splits)
  ultimately show "wf_stack (m_stack st')" using simt_exec_ok by fastforce
qed

text \<open>Claim C7. From launch on, whatever the warp executes, every entry that is to reconverge has an entry
  below it that waits at its reconvergence address with all of its threads, and every call entry
  lies on its caller.\<close>

theorem simt_run_wf:
  assumes "foldE simt_exec (launch st start_pc active_mask) ops = Inr st'"
    and "m_stack st' = es @ e # fs" and "m_type e = NORMAL" and "m_recvg_pc e \<noteq> null_pc"
  shows "\<exists>f \<in> set fs. m_pc f = m_recvg_pc e \<and>
    (\<forall>j. bit (m_active_mask e) j \<longrightarrow> bit (m_active_mask f) j)"
proof -
  have "wf_stack (m_stack (launch st start_pc active_mask))"
    by (simp add: launch_def reset_def wf_entry_def simt_stack_entry_def)
  from simt_machine.run_inv[OF this assms(1)] have "wf_stack (es @ e # fs)" by (simp add: assms(2))
  then have "wf_entry fs e" by (induction es) simp_all
  then show ?thesis using assms(3,4) by (auto simp: wf_entry_def waits_def members_bit[symmetric])
qed

lemma demo_update:
  "update 0 demo_stack 0 [8, 8, 16, 16] 32 BRANCH_OP 8 0 =
     Inr (demo_stack\<lparr>m_stack :=
       [simt_stack_entry\<lparr>m_pc := 16, m_active_mask := 12, m_recvg_pc := 32\<rparr>,
        simt_stack_entry\<lparr>m_pc := 8, m_active_mask := 3, m_recvg_pc := 32\<rparr>,
        simt_stack_entry\<lparr>m_pc := 32, m_calldepth := 1, m_active_mask := 15\<rparr>]\<rparr>)"
  by code_simp

theorem simt_run_wf_witness:
  "\<exists>f \<in> set [simt_stack_entry\<lparr>m_pc := 8, m_active_mask := 3, m_recvg_pc := 32\<rparr>,
        simt_stack_entry\<lparr>m_pc := 32, m_calldepth := 1, m_active_mask := 15\<rparr>].
     m_pc f = 32 \<and> (\<forall>j. bit (12 :: u32) j \<longrightarrow> bit (m_active_mask f) j)"
proof -
  let ?a = "\<lparr>a_cyc = 0, a_done = 0, a_next = [8, 8, 16, 16], a_recvg = 32, a_op = BRANCH_OP, a_size = 8\<rparr>"
  let ?e = "simt_stack_entry\<lparr>m_pc := 16, m_active_mask := 12, m_recvg_pc := 32\<rparr>"
  let ?fs = "[simt_stack_entry\<lparr>m_pc := 8, m_active_mask := 3, m_recvg_pc := 32\<rparr>,
        simt_stack_entry\<lparr>m_pc := 32, m_calldepth := 1, m_active_mask := 15\<rparr>]"
  have "m_pc (hd (m_stack demo_stack)) = 0" by (simp add: demo_stack_eq)
  then have "foldE simt_exec (launch (new_simt_stack 0 4) 0 15) [?a] =
      Inr (demo_stack\<lparr>m_stack := ?e # ?fs\<rparr>)"
    using demo_args demo_update by (simp add: simt_exec_def demo_stack_def[symmetric])
  from simt_run_wf[OF this, of "[]" ?e ?fs] show ?thesis
    by (simp add: simt_stack_entry_def null_pc_def)
qed

end
