(* ===== verification/Delay_Queue.thy ===== *)
theory Delay_Queue
  imports Cxx_Prelude
begin

text \<open>
  The pipelined queue between the parts of the memory system (\<open>fifo_pipeline\<close> of delayqueue.h): a
  linked list of cells, some of them empty, whose minimum length delays what is pushed.  The list
  of cells stands for the linked list, \<open>m_head == NULL\<close> for the empty list.  A null pointer is \<open>None\<close>.
  \<open>m_n_element\<close> is \<open>unsigned\<close> and wraps around; \<open>m_length\<close> counts the cells.
\<close>

section \<open>The operations\<close>

record 'a fifo =
  m_min_len :: nat
  m_max_len :: nat
  m_length :: nat
  m_n_element :: u32
  cells :: "'a option list"

definition push :: "'a fifo \<Rightarrow> 'a option \<Rightarrow> 'a fifo" where
  "push q data =
     (if cells q \<noteq> [] then
        (if last (cells q) \<noteq> None \<or> m_length q < m_min_len q
         then q\<lparr>cells := cells q @ [data], m_length := m_length q + 1, m_n_element := m_n_element q + 1\<rparr>
         else q\<lparr>cells := butlast (cells q) @ [data]\<rparr>)
      else q\<lparr>cells := [data], m_length := m_length q + 1, m_n_element := m_n_element q + 1\<rparr>)"

definition uncount :: "'a fifo \<Rightarrow> 'a fifo" where
  "uncount q = q\<lparr>m_n_element := m_n_element q - 1\<rparr>"

fun push_nulls :: "nat \<Rightarrow> 'a fifo \<Rightarrow> 'a fifo" where
  "push_nulls 0 q = q"
| "push_nulls (Suc n) q = push_nulls n (push q None)"

definition fifo_pipeline :: "nat \<Rightarrow> nat \<Rightarrow> 'a fifo cxx" where
  "fifo_pipeline minlen maxlen =
     assertE (maxlen \<noteq> 0)
       (Inr (push_nulls minlen \<lparr>m_min_len = minlen, m_max_len = maxlen, m_length = 0,
               m_n_element = 0, cells = []\<rparr>))"

definition pop :: "'a fifo \<Rightarrow> ('a fifo \<times> 'a option) cxx" where
  "pop q =
     (case cells q of
        [] \<Rightarrow> Inr (q, None)
      | data # rest \<Rightarrow>
          (let q1 = q\<lparr>cells := rest, m_length := m_length q - 1\<rparr>
           in assertE (m_length q1 = 0 \<longrightarrow> rest = [])
             (let q2 = uncount q1
              in Inr (if m_min_len q2 \<noteq> 0 \<and> m_length q2 < m_min_len q2
                      then uncount (push q2 None) else q2, data))))"

definition top_elem :: "'a fifo \<Rightarrow> 'a option" where
  "top_elem q = (case cells q of [] \<Rightarrow> None | data # _ \<Rightarrow> data)"

text \<open>The two loops of \<open>set_min_length\<close>.\<close>

lemma push_more: "m_length q < m_min_len q \<Longrightarrow> m_length (push q d) = m_length q + 1"
  "m_min_len (push q d) = m_min_len q"
  by (auto simp: push_def)

function grow :: "'a fifo \<Rightarrow> 'a fifo" where
  "grow q = (if m_length q < m_min_len q then grow (uncount (push q None)) else q)"
  by pat_completeness auto
termination
  by (relation "measure (\<lambda>q. m_min_len q - m_length q)") (auto simp: uncount_def push_more)

declare grow.simps [simp del]

text \<open>The rest of a computation runs only on the value of what came before it: a recursive call there is
  one on that value.\<close>

lemma bindE_cong [fundef_cong]:
  assumes "r = r'" and "\<And>x. r' = Inr x \<Longrightarrow> k x = k' x"
  shows "bindE r k = bindE r' k'"
  using assms by (cases r') simp_all

text \<open>The loop that drops empty cells at the tail; a turn with a single cell is a \<open>pop\<close>.  Every turn
  takes one off \<open>m_length\<close>, also the one that pops, which pushes nothing back above the minimum.\<close>

lemma pop_shortens:
  assumes "pop q = Inr r" and "m_min_len q < m_length q" and "cells q \<noteq> []"
  shows "m_length (fst r) < m_length q"
  using assms by (cases "cells q") (auto simp: pop_def uncount_def Let_def assertE_def split: if_splits)

function shrink :: "'a fifo \<Rightarrow> 'a fifo cxx" where
  "shrink q =
     (if m_min_len q < m_length q then
        (if cells q = [] then Inl Undefined_Behaviour
         else if last (cells q) = None then
           (if length (cells q) = 1
            then assertE (hd (cells q) = None) (bindE (pop q) (\<lambda>r. shrink (fst r)))
            else shrink (q\<lparr>cells := butlast (cells q), m_length := m_length q - 1\<rparr>))
         else Inr q)
      else Inr q)"
  by pat_completeness auto
termination
  by (relation "measure m_length") (auto intro: pop_shortens)

declare shrink.simps [simp del]

definition set_min_length :: "'a fifo \<Rightarrow> nat \<Rightarrow> 'a fifo cxx" where
  "set_min_length q new_min_len =
     (if new_min_len = m_min_len q then Inr q
      else if m_min_len q < new_min_len then Inr (grow (q\<lparr>m_min_len := new_min_len\<rparr>))
      else assertE (cells q \<noteq> [])
        (shrink (q\<lparr>m_min_len := new_min_len\<rparr>)))"

definition fifo_full :: "'a fifo \<Rightarrow> bool" where
  "fifo_full q = (m_max_len q \<noteq> 0 \<and> m_max_len q \<le> m_length q)"

definition fifo_empty :: "'a fifo \<Rightarrow> bool" where
  "fifo_empty q = (cells q = [])"

definition get_n_element :: "'a fifo \<Rightarrow> u32" where "get_n_element q = m_n_element q"

definition get_length :: "'a fifo \<Rightarrow> nat" where "get_length q = m_length q"

definition get_max_len :: "'a fifo \<Rightarrow> nat" where "get_max_len q = m_max_len q"

section \<open>First in, first out\<close>

definition fifo_ok :: "'a fifo \<Rightarrow> bool" where
  "fifo_ok q \<longleftrightarrow> m_length q = length (cells q) \<and> m_min_len q \<le> length (cells q)"

definition payload :: "'a fifo \<Rightarrow> 'a list" where
  "payload q = concat (map (\<lambda>d. case d of None \<Rightarrow> [] | Some x \<Rightarrow> [x]) (cells q))"

lemma payload_append_cells:
  "concat (map (\<lambda>d. case d of None \<Rightarrow> [] | Some x \<Rightarrow> [x]) (butlast cs @ [d])) =
     concat (map (\<lambda>d. case d of None \<Rightarrow> [] | Some x \<Rightarrow> [x]) (butlast cs)) @
     (case d of None \<Rightarrow> [] | Some x \<Rightarrow> [x])"
  by simp

lemma payload_push:
  "payload (push q d) = payload q @ (case d of None \<Rightarrow> [] | Some x \<Rightarrow> [x])"
proof (cases "cells q = [] \<or> last (cells q) \<noteq> None \<or> m_length q < m_min_len q")
  case True
  then show ?thesis by (auto simp: push_def payload_def)
next
  case False
  then have "cells q = butlast (cells q) @ [None]" by (metis append_butlast_last_id)
  then have "payload q = concat (map (\<lambda>d. case d of None \<Rightarrow> [] | Some x \<Rightarrow> [x]) (butlast (cells q)))"
    unfolding payload_def by (metis payload_append_cells append_Nil2 option.case(1))
  then show ?thesis using False by (simp add: push_def payload_def)
qed

lemma fifo_ok_push: "m_length q = length (cells q) \<Longrightarrow> m_min_len q \<le> length (cells (push q d)) \<Longrightarrow>
    fifo_ok (push q d)"
  by (auto simp: push_def fifo_ok_def)

lemma push_frame [simp]: "m_min_len (push q d) = m_min_len q" "m_max_len (push q d) = m_max_len q"
  by (auto simp: push_def)

lemma fifo_ok_push_any: "fifo_ok q \<Longrightarrow> fifo_ok (push q d)"
  by (auto simp: push_def fifo_ok_def)

lemma uncount_simps [simp]:
  "cells (uncount q) = cells q" "m_length (uncount q) = m_length q"
  "m_min_len (uncount q) = m_min_len q" "payload (uncount q) = payload q"
  "fifo_ok (uncount q) \<longleftrightarrow> fifo_ok q" "push (uncount q) d = uncount (push q d)"
  by (auto simp: uncount_def payload_def fifo_ok_def push_def)

lemma pop_ok:
  assumes "fifo_ok q"
  shows "\<exists>q'. pop q = Inr (q', top_elem q) \<and> fifo_ok q' \<and>
    payload q = (case top_elem q of None \<Rightarrow> [] | Some x \<Rightarrow> [x]) @ payload q'"
proof (cases "cells q")
  case Nil
  then show ?thesis using assms by (simp add: pop_def top_elem_def payload_def)
next
  case (Cons d rest)
  let ?q1 = "q\<lparr>cells := rest, m_length := m_length q - 1\<rparr>"
  have len: "m_length ?q1 = length rest" using assms Cons by (simp add: fifo_ok_def)
  have pay: "payload q = (case d of None \<Rightarrow> [] | Some x \<Rightarrow> [x]) @ payload ?q1"
    using Cons by (simp add: payload_def)
  show ?thesis
  proof (cases "m_min_len q \<noteq> 0 \<and> length rest < m_min_len q")
    case True
    have "m_min_len q \<le> length (cells (push ?q1 None))"
      using True assms Cons by (auto simp: fifo_ok_def push_def)
    then have "fifo_ok (push ?q1 None)" using len by (intro fifo_ok_push) simp_all
    then show ?thesis
      using True Cons len pay by (simp add: pop_def top_elem_def payload_push Let_def)
  next
    case False
    then have "fifo_ok ?q1" using len assms Cons by (auto simp: fifo_ok_def)
    then show ?thesis using False Cons len pay by (auto simp: pop_def top_elem_def Let_def)
  qed
qed

lemma pop_payload:
  assumes "pop q = Inr (q', Some x)"
  shows "payload q = x # payload q'"
proof (cases "cells q")
  case (Cons d rest)
  have "payload q = (case d of None \<Rightarrow> [] | Some y \<Rightarrow> [y]) @ payload (q\<lparr>cells := rest, m_length := m_length q - 1\<rparr>)"
    using Cons by (simp add: payload_def)
  then show ?thesis using assms Cons
    by (auto simp: pop_def Let_def payload_push assertE_def split: if_splits)
qed (use assms in \<open>simp add: pop_def\<close>)

text \<open>
  The contract of a queue between two parts of the memory system: pushing appends to what is under
  way, popping takes from its front, or hands out nothing and takes nothing.
\<close>

definition opt_list :: "'a option \<Rightarrow> 'a list" where
  "opt_list d = (case d of None \<Rightarrow> [] | Some x \<Rightarrow> [x])"

datatype 'a queue_op = Push "'a option" | Pop

locale memory_queue =
  fixes enq :: "'s \<Rightarrow> 'a option \<Rightarrow> 's" and deq :: "'s \<Rightarrow> ('s \<times> 'a option) cxx"
    and contents :: "'s \<Rightarrow> 'a list" and inv :: "'s \<Rightarrow> bool"
  assumes enq_inv: "inv s \<Longrightarrow> inv (enq s d)"
    and enq_contents: "inv s \<Longrightarrow> contents (enq s d) = contents s @ opt_list d"
    and deq_ok: "inv s \<Longrightarrow> \<exists>t d. deq s = Inr (t, d) \<and> inv t \<and> contents s = opt_list d @ contents t"

text \<open>A run of the queue: the state and what was popped.\<close>

fun queue_run ::
    "('s \<Rightarrow> 'a option \<Rightarrow> 's) \<Rightarrow> ('s \<Rightarrow> ('s \<times> 'a option) cxx) \<Rightarrow> 's \<Rightarrow> 'a queue_op list \<Rightarrow> ('s \<times> 'a list) cxx" where
  "queue_run enq deq s [] = Inr (s, [])"
| "queue_run enq deq s (Push d # ops) = queue_run enq deq (enq s d) ops"
| "queue_run enq deq s (Pop # ops) =
     bindE (deq s) (\<lambda>r. bindE (queue_run enq deq (fst r) ops) (\<lambda>q.
       Inr (fst q, opt_list (snd r) @ snd q)))"

fun pushed :: "'a queue_op list \<Rightarrow> 'a list" where
  "pushed [] = []"
| "pushed (Push d # ops) = opt_list d @ pushed ops"
| "pushed (Pop # ops) = pushed ops"

context memory_queue begin

lemma run_fifo:
  "inv s \<Longrightarrow> \<exists>t out. queue_run enq deq s ops = Inr (t, out) \<and> inv t \<and>
     contents s @ pushed ops = out @ contents t"
proof (induction ops arbitrary: s)
  case (Cons op ops)
  show ?case
  proof (cases op)
    case (Push d)
    from Cons.IH[OF enq_inv[OF Cons.prems], of d] show ?thesis
      by (auto simp: Push enq_contents[OF Cons.prems])
  next
    case Pop
    obtain t d where t: "deq s = Inr (t, d)" "inv t" "contents s = opt_list d @ contents t"
      using deq_ok[OF Cons.prems] by blast
    from Cons.IH[OF t(2)] t(1,3) show ?thesis by (auto simp: Pop)
  qed
qed simp

end

interpretation dq: memory_queue push pop payload fifo_ok
proof unfold_locales
  fix s :: "'a fifo" and d
  assume ok: "fifo_ok s"
  show "fifo_ok (push s d)" by (rule fifo_ok_push_any[OF ok])
  show "payload (push s d) = payload s @ opt_list d" by (simp add: payload_push opt_list_def)
  show "\<exists>t d. pop s = Inr (t, d) \<and> fifo_ok t \<and> payload s = opt_list d @ payload t"
    using pop_ok[OF ok] by (auto simp: opt_list_def)
qed

lemma push_nulls_cells:
  assumes "n + length (cells q) \<le> m_min_len q" and "m_length q = length (cells q)"
  shows "cells (push_nulls n q) = cells q @ replicate n None \<and>
    m_length (push_nulls n q) = m_length q + n \<and>
    m_min_len (push_nulls n q) = m_min_len q \<and> m_max_len (push_nulls n q) = m_max_len q \<and>
    m_n_element (push_nulls n q) = m_n_element q + of_nat n"
  using assms
proof (induction n arbitrary: q)
  case (Suc n)
  have p: "cells (push q None) = cells q @ [None]" "m_length (push q None) = m_length q + 1"
    "m_n_element (push q None) = m_n_element q + 1"
    using Suc.prems by (auto simp: push_def)
  with Suc.IH[of "push q None"] Suc.prems show ?case
    by (simp add: replicate_append_same[symmetric] algebra_simps)
qed simp

lemma fifo_pipeline_new:
  assumes "fifo_pipeline minlen maxlen = Inr (q :: 'a fifo)"
  shows "fifo_ok q" and "cells q = replicate minlen None" and "payload q = []"
    and "m_min_len q = minlen" and "m_n_element q = of_nat minlen"
proof -
  let ?q0 = "\<lparr>m_min_len = minlen, m_max_len = maxlen, m_length = 0, m_n_element = 0, cells = []\<rparr> :: 'a fifo"
  have q: "q = push_nulls minlen ?q0"
    using assms by (auto simp: fifo_pipeline_def assertE_def split: if_splits)
  have p: "cells q = replicate minlen None \<and> m_length q = minlen \<and> m_min_len q = minlen \<and>
      m_n_element q = of_nat minlen"
    using push_nulls_cells[of minlen ?q0] by (simp add: q)
  then show "fifo_ok q" "cells q = replicate minlen None" "payload q = []" "m_min_len q = minlen"
    "m_n_element q = of_nat minlen" by (simp_all add: fifo_ok_def payload_def)
qed

text \<open>Claim C9. Nothing is lost, duplicated or reordered: from a new queue, whatever is pushed and popped,
  null pushes included, the requests handed out followed by those still in the queue are exactly
  the requests pushed, in order.\<close>

theorem fifo_order:
  assumes "fifo_pipeline minlen maxlen = Inr q"
  shows "\<exists>q' out. queue_run push pop q ops = Inr (q', out) \<and> pushed ops = out @ payload q'"
  using dq.run_fifo[OF fifo_pipeline_new(1)[OF assms], of ops] fifo_pipeline_new(3)[OF assms] by auto

theorem fifo_order_witness:
  "\<exists>q q' out. fifo_pipeline 2 8 = Inr q \<and>
     queue_run push pop q [Push (Some 1), Pop, Push None, Push (Some (2 :: nat)), Pop] = Inr (q', out) \<and>
     [1, 2] = out @ payload q'"
proof -
  obtain q :: "nat fifo" where q: "fifo_pipeline 2 8 = Inr q" by (simp add: fifo_pipeline_def)
  from fifo_order[OF q, of "[Push (Some 1), Pop, Push None, Push (Some (2 :: nat)), Pop]"] q
  show ?thesis by (simp add: opt_list_def)
qed

section \<open>Delay\<close>

fun pops :: "nat \<Rightarrow> 'a fifo \<Rightarrow> ('a fifo \<times> 'a option list) cxx" where
  "pops 0 q = Inr (q, [])"
| "pops (Suc n) q =
     bindE (pop q) (\<lambda>r. bindE (pops n (fst r)) (\<lambda>s. Inr (fst s, snd r # snd s)))"

lemma pops_take:
  assumes "fifo_ok q" and "n \<le> length (cells q)"
  shows "\<exists>q'. pops n q = Inr (q', take n (cells q))"
  using assms
proof (induction n arbitrary: q)
  case (Suc n)
  obtain q1 where q1: "pop q = Inr (q1, top_elem q)" "fifo_ok q1" using pop_ok[OF Suc.prems(1)] by blast
  obtain d rest where c: "cells q = d # rest" using Suc.prems(2) by (cases "cells q") auto
  have pre: "n \<le> length (cells q1) \<and> take n (cells q1) = take n rest"
  proof -
    let ?q1 = "uncount (q\<lparr>cells := rest, m_length := m_length q - 1\<rparr>)"
    have len: "m_length q - 1 = length rest" using Suc.prems(1) c by (simp add: fifo_ok_def)
    have "q1 = (if m_min_len q \<noteq> 0 \<and> length rest < m_min_len q then uncount (push ?q1 None) else ?q1)"
      using q1(1) c len by (auto simp: pop_def Let_def assertE_def split: if_splits)
    moreover have "cells (push ?q1 None) = rest @ [None]" if "length rest < m_min_len q"
      using that len by (auto simp: push_def uncount_def)
    ultimately have "cells q1 = rest @ [None] \<or> cells q1 = rest" by (auto simp: uncount_def)
    then show ?thesis using Suc.prems(2) c by auto
  qed
  from Suc.IH[OF q1(2)] pre obtain q' where "pops n q1 = Inr (q', take n rest)" by auto
  then show ?case using q1(1) c by (simp add: top_elem_def)
qed simp

text \<open>The minimum length is the delay: a request pushed into a new queue of minimum length
  \<open>m > 0\<close> is handed out by the \<open>m\<close>-th pop, and the pops before it hand out nothing.\<close>

theorem fifo_latency:
  assumes "fifo_pipeline minlen maxlen = Inr q" and "0 < minlen"
  shows "\<exists>q'. pops minlen (push q (Some x)) = Inr (q', replicate (minlen - 1) None @ [Some x])"
proof -
  note n = fifo_pipeline_new[OF assms(1)]
  have "last (replicate minlen (None :: 'a option)) = None" using assms(2) by (cases minlen) auto
  then have c: "cells (push q (Some x)) = replicate (minlen - 1) None @ [Some x]"
    using n assms(2) by (cases minlen) (auto simp: push_def fifo_ok_def replicate_append_same[symmetric])
  have ok: "fifo_ok (push q (Some x))" by (rule fifo_ok_push_any[OF n(1)])
  have "minlen \<le> length (cells (push q (Some x)))" using c assms(2) by simp
  from pops_take[OF ok this] c assms(2) show ?thesis by auto
qed

theorem fifo_latency_witness:
  "\<exists>q q'. fifo_pipeline 3 8 = Inr q \<and>
     pops 3 (push q (Some (7 :: nat))) = Inr (q', [None, None, Some 7])"
proof -
  obtain q :: "nat fifo" where q: "fifo_pipeline 3 8 = Inr q" by (simp add: fifo_pipeline_def)
  from fifo_latency[OF q, of 7] q show ?thesis by (simp add: numeral_2_eq_2)
qed

text \<open>The element counter does not count the elements: it starts at the number of the cells
  that the constructor fills with null, every pop of an empty cell takes one off, and the counter of
  a queue that never held a request wraps around to the largest \<open>unsigned\<close>.\<close>

theorem n_element_wraps:
  "\<exists>q q'. fifo_pipeline 1 8 = Inr (q :: nat fifo) \<and> get_n_element q = 1 \<and>
     pops 2 q = Inr (q', [None, None]) \<and> payload q' = [] \<and> get_n_element q' = - 1"
  by (simp add: fifo_pipeline_def push_def pop_def uncount_def payload_def get_n_element_def
      numeral_2_eq_2)

section \<open>Changing the minimum length\<close>

text \<open>The second loop leaves a queue that it cannot make shorter: at the minimum, or with a request in
  the last cell.\<close>

definition trimmed :: "'a fifo \<Rightarrow> bool" where
  "trimmed q \<longleftrightarrow> (m_min_len q < length (cells q) \<longrightarrow> last (cells q) \<noteq> None)"

lemma grow_ok:
  assumes "m_length q = length (cells q)"
  shows "fifo_ok (grow q) \<and> m_min_len (grow q) = m_min_len q \<and> m_max_len (grow q) = m_max_len q \<and>
    cells (grow q) = cells q @ replicate (m_min_len q - length (cells q)) None"
  using assms
proof (induction q rule: grow.induct)
  case (1 q)
  show ?case
  proof (cases "m_length q < m_min_len q")
    case True
    let ?q = "uncount (push q None)"
    have cs: "cells ?q = cells q @ [None]" using True by (auto simp: push_def)
    have len: "m_length ?q = length (cells ?q)" using "1.prems" by (auto simp: push_def)
    have "m_min_len q - length (cells q) = Suc (m_min_len q - length (cells ?q))"
      using True "1.prems" cs by simp
    moreover have "grow q = grow ?q" using True by (subst grow.simps) simp
    moreover have "m_max_len ?q = m_max_len q" by (simp add: uncount_def)
    ultimately show ?thesis using "1.IH"[OF True len] cs by simp
  next
    case False
    then have "grow q = q" by (subst grow.simps) simp
    then show ?thesis using False "1.prems" by (simp add: fifo_ok_def)
  qed
qed

lemma shrink_ok:
  assumes "fifo_ok q"
  shows "\<exists>q' k. shrink q = Inr q' \<and> fifo_ok q' \<and> m_min_len q' = m_min_len q \<and>
    m_max_len q' = m_max_len q \<and> cells q = cells q' @ replicate k None \<and> trimmed q'"
  using assms
proof (induction q rule: shrink.induct)
  case (1 q)
  have len: "m_length q = length (cells q)" using "1.prems" by (simp add: fifo_ok_def)
  show ?case
  proof (cases "m_min_len q < m_length q \<and> last (cells q) = None")
    case False
    then have "shrink q = Inr q" using len by (subst shrink.simps) auto
    moreover have "cells q = cells q @ replicate 0 None" by simp
    moreover have "trimmed q" using False len by (auto simp: trimmed_def)
    ultimately show ?thesis using "1.prems" by blast
  next
    case go: True
    then have ne: "cells q \<noteq> []" using len by auto
    have split: "cells q = butlast (cells q) @ [None]" using go ne by (metis append_butlast_last_id)
    let ?q = "q\<lparr>cells := butlast (cells q), m_length := m_length q - 1\<rparr>"
    have ok: "fifo_ok ?q" using go len by (auto simp: fifo_ok_def)
    have step: "\<exists>q0. shrink q = shrink q0 \<and> fifo_ok q0 \<and> m_min_len q0 = m_min_len q \<and>
        m_max_len q0 = m_max_len q \<and> cells q0 = butlast (cells q) \<and>
        (\<exists>q' k. shrink q0 = Inr q' \<and> fifo_ok q' \<and> m_min_len q' = m_min_len q0 \<and>
           m_max_len q' = m_max_len q0 \<and> cells q0 = cells q' @ replicate k None \<and> trimmed q')"
    proof (cases "length (cells q) = 1")
      case False
      then have "shrink q = shrink ?q" using go ne by (subst shrink.simps) simp
      then show ?thesis using "1.IH"(2)[OF _ ne _ False ok] go ok by auto
    next
      case True
      then have c: "cells q = [None]" using split by (cases "cells q") auto
      have pq: "pop q = Inr (uncount ?q, None)"
        using go len True c by (simp add: pop_def uncount_def Let_def)
      then have "shrink q = shrink (uncount ?q)" using go ne c by (subst shrink.simps) simp
      moreover have "fifo_ok (uncount ?q)" using ok by simp
      moreover have "m_max_len (uncount ?q) = m_max_len q" by (simp add: uncount_def)
      ultimately show ?thesis using "1.IH"(1)[OF _ ne _ True pq] go by auto
    qed
    then obtain q' k where "shrink q = Inr q'" "fifo_ok q'" "m_min_len q' = m_min_len q"
      "m_max_len q' = m_max_len q" "butlast (cells q) = cells q' @ replicate k None" "trimmed q'" by metis
    moreover from this(5) have "cells q = cells q' @ replicate (Suc k) None"
      by (subst split) (simp add: replicate_append_same)
    ultimately show ?thesis by blast
  qed
qed

text \<open>What a change of the minimum length leaves: the same queue when nothing changes, empty cells up
  to the new minimum at the tail when it grows, and as many of them gone as the new minimum allows
  when it shrinks.\<close>

definition resized :: "'a fifo \<Rightarrow> nat \<Rightarrow> 'a fifo \<Rightarrow> bool" where
  "resized q n q' \<longleftrightarrow> fifo_ok q' \<and> m_min_len q' = n \<and> m_max_len q' = m_max_len q \<and>
     payload q' = payload q \<and>
     (if n = m_min_len q then q' = q
      else if m_min_len q < n then cells q' = cells q @ replicate (n - length (cells q)) None
      else trimmed q' \<and> (\<exists>k \<le> length (cells q). cells q = cells q' @ replicate k None))"

lemma set_min_length_ok:
  assumes "fifo_ok q"
  shows "\<exists>q'. set_min_length q n = Inr q' \<and> resized q n q'"
proof -
  have len: "m_length q = length (cells q)" "m_min_len q \<le> length (cells q)"
    using assms by (simp_all add: fifo_ok_def)
  consider "n = m_min_len q" | "m_min_len q < n" | "n < m_min_len q" by linarith
  then show ?thesis
  proof cases
    case 1
    then show ?thesis using assms by (simp add: set_min_length_def resized_def)
  next
    case 2
    then show ?thesis using grow_ok[of "q\<lparr>m_min_len := n\<rparr>"] len
      by (simp add: set_min_length_def payload_def resized_def)
  next
    case 3
    let ?q = "q\<lparr>m_min_len := n\<rparr>"
    have "fifo_ok ?q" using 3 len by (simp add: fifo_ok_def)
    from shrink_ok[OF this] obtain q' k where q': "shrink ?q = Inr q'" "fifo_ok q'" "m_min_len q' = n"
      "m_max_len q' = m_max_len q" "cells q = cells q' @ replicate k None" "trimmed q'" by auto
    have "payload q' = payload q" unfolding payload_def by (subst q'(5)) simp
    moreover have "cells q \<noteq> []" using 3 len by auto
    moreover have "k \<le> length (cells q)" by (subst q'(5)) simp
    ultimately show ?thesis using 3 q' by (auto simp: set_min_length_def resized_def)
  qed
qed

text \<open>Claim C10. Changing the minimum length always ends without a fault and does what it says.  The new
  minimum is stored and the queue holds at least so many cells; the requests under way and their
  order are kept.  When the minimum grows, empty cells are added at the tail exactly up to it; when
  it shrinks, only empty cells at the tail go, and they go until the queue is as short as the new
  minimum or ends in a request; when it stays, nothing changes.\<close>

theorem set_min_length_keeps:
  assumes "fifo_ok q"
  shows "\<exists>q'. set_min_length q n = Inr q' \<and> fifo_ok q' \<and> m_min_len q' = n \<and>
    m_max_len q' = m_max_len q \<and> payload q' = payload q \<and>
    (n = m_min_len q \<longrightarrow> q' = q) \<and>
    (m_min_len q < n \<longrightarrow> cells q' = cells q @ replicate (n - length (cells q)) None) \<and>
    (n < m_min_len q \<longrightarrow> (\<exists>k. cells q = cells q' @ replicate k None) \<and>
       (n < length (cells q') \<longrightarrow> last (cells q') \<noteq> None))"
  using set_min_length_ok[OF assms, of n] by (auto simp: resized_def trimmed_def split: if_splits)

theorem set_min_length_keeps_witness:
  "\<exists>q' q''. set_min_length \<lparr>m_min_len = 2, m_max_len = 8, m_length = 3, m_n_element = 3,
      cells = [Some (5 :: nat), None, None]\<rparr> 0 = Inr q' \<and> payload q' = [5] \<and> cells q' = [Some 5] \<and>
    set_min_length \<lparr>m_min_len = 2, m_max_len = 8, m_length = 3, m_n_element = 3,
      cells = [Some (5 :: nat), None, None]\<rparr> 4 = Inr q'' \<and> cells q'' = [Some 5, None, None, None]"
proof -
  let ?q = "\<lparr>m_min_len = 2, m_max_len = 8, m_length = 3, m_n_element = 3,
      cells = [Some (5 :: nat), None, None]\<rparr>"
  have ok: "fifo_ok ?q" by (simp add: fifo_ok_def)
  obtain q' k where q': "set_min_length ?q 0 = Inr q'" "[Some 5, None, None] = cells q' @ replicate k None"
    "cells q' \<noteq> [] \<longrightarrow> last (cells q') \<noteq> None" "payload q' = [5]"
    using set_min_length_keeps[OF ok, of 0] by (auto simp: payload_def)
  have "length [Some (5 :: nat), None, None] = length (cells q' @ replicate k None)"
    by (rule arg_cong[OF q'(2)])
  then have "k = 0 \<or> k = 1 \<or> k = 2 \<or> k = 3" by auto
  then have "cells q' = [Some 5]"
    using q'(2)[symmetric] q'(3,4) by (elim disjE) (auto simp: numeral_eq_Suc payload_def append_eq_Cons_conv
        Cons_eq_append_conv)
  moreover obtain q'' where "set_min_length ?q 4 = Inr q''" "cells q'' = [Some 5, None, None, None]"
    using set_min_length_keeps[OF ok, of 4] by (auto simp: numeral_eq_Suc)
  ultimately show ?thesis using q' by blast
qed

end
