(* ===== verification/Hpcl_Dict.thy ===== *)
theory Hpcl_Dict
  imports Cxx_Prelude
begin

text \<open>
  The dictionaries of the dictionary-based compressors (hpcl_dict.h, hpcl_dict_elem.h).  The word type
  \<open>K\<close> is a machine word of any width, \<open>unsigned long long\<close> times are 64 bits wide, \<open>unsigned\<close>
  frequencies 32 bits.  Indexing \<open>m_dict\<close> past its end is undefined.  The floating-point segment ratios
  and the printing are left out.
\<close>

section \<open>Entries\<close>

record 'k dict_elem =
  m_word :: 'k
  m_last_use_time :: u64
  m_freq :: u32
  m_valid :: bool
  m_hold_flag :: bool
  m_found_flag :: bool
  m_word_loc :: int

definition elem_init :: "'w::len word \<Rightarrow> u64 \<Rightarrow> 'w word dict_elem" where
  "elem_init word time = \<lparr>m_word = word, m_last_use_time = time, m_freq = 1, m_valid = False,
     m_hold_flag = False, m_found_flag = False, m_word_loc = -1\<rparr>"

definition elem_search :: "'w::len word dict_elem \<Rightarrow> 'w word \<Rightarrow> bool" where
  "elem_search e word = (if m_word e = word then True else False)"

definition update_last_use_time :: "'w::len word dict_elem \<Rightarrow> u64 \<Rightarrow> 'w word dict_elem" where
  "update_last_use_time e time = e\<lparr>m_last_use_time := time\<rparr>"

definition update_freq :: "'w::len word dict_elem \<Rightarrow> 'w word dict_elem" where
  "update_freq e = e\<lparr>m_freq := m_freq e + 1\<rparr>"

section \<open>Dictionaries\<close>

datatype rep_policy = HPCL_INVALID | HPCL_LRU | HPCL_LFU

record 'k dict =
  m_MAX_DICT_SIZE :: nat
  m_rep_policy :: rep_policy
  m_dict :: "'k dict_elem list"
  m_last_max_word_loc :: int
  m_no_comp_data_segment :: "int list"

definition dict_init :: "nat \<Rightarrow> rep_policy \<Rightarrow> 'w::len word dict" where
  "dict_init dict_size policy =
     \<lparr>m_MAX_DICT_SIZE = dict_size, m_rep_policy = policy,
      m_dict = replicate dict_size (elem_init 0 0), m_last_max_word_loc = -1,
      m_no_comp_data_segment = [-1, -1, -1, -1]\<rparr>"

definition dict_clear :: "'w::len word dict \<Rightarrow> 'w word dict" where
  "dict_clear d = d\<lparr>m_dict := []\<rparr>"

definition elem_at :: "'w::len word dict \<Rightarrow> nat \<Rightarrow> 'w word dict_elem cxx" where
  "elem_at d i = (if i < length (m_dict d) then Inr (m_dict d ! i) else Inl Undefined_Behaviour)"

definition set_elem :: "'w::len word dict \<Rightarrow> nat \<Rightarrow> 'w word dict_elem \<Rightarrow> 'w word dict" where
  "set_elem d i e = d\<lparr>m_dict := (m_dict d)[i := e]\<rparr>"

text \<open>The loops over the entries look for the first one that \<open>search\<close> accepts.\<close>

fun search_loop :: "'w::len word \<Rightarrow> nat \<Rightarrow> 'w word dict_elem list \<Rightarrow> nat option" where
  "search_loop word i [] = None"
| "search_loop word i (e # es) = (if elem_search e word then Some i else search_loop word (i + 1) es)"

definition search_word :: "'w::len word dict \<Rightarrow> 'w word \<Rightarrow> int" where
  "search_word d word = (case search_loop word 0 (m_dict d) of None \<Rightarrow> -1 | Some i \<Rightarrow> int i)"

definition get_valid_flag :: "'w::len word dict \<Rightarrow> nat \<Rightarrow> bool cxx" where
  "get_valid_flag d i = bindE (elem_at d i) (\<lambda>e. Inr (m_valid e))"

definition get_word :: "'w::len word dict \<Rightarrow> nat \<Rightarrow> 'w word cxx" where
  "get_word d i = assertE (i < length (m_dict d)) (Inr (m_word (m_dict d ! i)))"

definition erase_dict :: "'w::len word dict \<Rightarrow> 'w word \<Rightarrow> 'w word dict cxx" where
  "erase_dict d word =
     (let index = search_word d word
      in assertE (0 \<le> index)
           (Inr (set_elem d (nat index) ((m_dict d ! nat index)\<lparr>m_valid := False\<rparr>))))"

definition on_word :: "'w::len word dict \<Rightarrow> nat \<Rightarrow> 'w word \<Rightarrow> ('w word dict_elem \<Rightarrow> 'w word dict_elem) \<Rightarrow> 'w word dict cxx" where
  "on_word d i word f =
     bindE (elem_at d i) (\<lambda>e. assertE (m_word e = word) (Inr (set_elem d i (f e))))"

definition validate_word :: "'w::len word dict \<Rightarrow> nat \<Rightarrow> 'w word \<Rightarrow> 'w word dict cxx" where
  "validate_word d i word = on_word d i word (\<lambda>e. e\<lparr>m_valid := True\<rparr>)"

definition hold_word :: "'w::len word dict \<Rightarrow> nat \<Rightarrow> 'w word \<Rightarrow> 'w word dict cxx" where
  "hold_word d i word = on_word d i word (\<lambda>e. e\<lparr>m_hold_flag := True\<rparr>)"

definition release_word :: "'w::len word dict \<Rightarrow> nat \<Rightarrow> 'w word \<Rightarrow> 'w word dict cxx" where
  "release_word d i word = on_word d i word (\<lambda>e. e\<lparr>m_hold_flag := False\<rparr>)"

text \<open>The victim loops, as written: the running minimum keeps the value of the first entry.\<close>

fun victim_loop :: "('w::len word dict_elem \<Rightarrow> bool) \<Rightarrow> nat \<Rightarrow> nat \<Rightarrow> 'w word dict_elem list \<Rightarrow> nat" where
  "victim_loop better best i [] = best"
| "victim_loop better best i (e # es) = victim_loop better (if better e then i else best) (i + 1) es"

definition update_elem_by_LRU :: "'w::len word dict \<Rightarrow> 'w word \<Rightarrow> u64 \<Rightarrow> ('w word dict \<times> nat) cxx" where
  "update_elem_by_LRU d word time =
     bindE (elem_at d 0) (\<lambda>e0.
       let last_use_time = m_last_use_time e0;
           oldest_index = victim_loop (\<lambda>e. m_last_use_time e < last_use_time) 0 1 (tl (m_dict d))
       in Inr (set_elem d oldest_index (elem_init word time), oldest_index))"

definition update_elem_by_LFU :: "'w::len word dict \<Rightarrow> 'w word \<Rightarrow> u64 \<Rightarrow> ('w word dict \<times> nat) cxx" where
  "update_elem_by_LFU d word time =
     bindE (elem_at d 0) (\<lambda>e0.
       let freq = m_freq e0;
           least_used_index =
             victim_loop (\<lambda>e. m_freq e < freq \<and> m_hold_flag e = False) 0 1 (tl (m_dict d))
       in Inr (set_elem d least_used_index (elem_init word time), least_used_index))"

definition search_victim_by_LFU :: "'w::len word dict \<Rightarrow> 'w word cxx" where
  "search_victim_by_LFU d =
     bindE (elem_at d 0) (\<lambda>e0.
       let freq = m_freq e0
       in Inr (m_word (m_dict d ! victim_loop (\<lambda>e. m_freq e < freq) 0 1 (tl (m_dict d)))))"

definition update_dict :: "'w::len word dict \<Rightarrow> 'w word \<Rightarrow> u64 \<Rightarrow> int \<Rightarrow> ('w word dict \<times> nat) cxx" where
  "update_dict d word use_time index =
     (if 0 \<le> index then
        bindE (elem_at d (nat index)) (\<lambda>_.
          Inr (set_elem d (nat index) (elem_init word use_time), nat index))
      else (case search_loop word 0 (m_dict d) of
              Some i \<Rightarrow>
                Inr (set_elem d i (update_freq (update_last_use_time (m_dict d ! i) use_time)), i)
            | None \<Rightarrow>
                if length (m_dict d) < m_MAX_DICT_SIZE d
                then Inr (d\<lparr>m_dict := m_dict d @ [elem_init word use_time]\<rparr>, length (m_dict d))
                else (case m_rep_policy d of
                        HPCL_LRU \<Rightarrow> update_elem_by_LRU d word use_time
                      | HPCL_LFU \<Rightarrow> update_elem_by_LFU d word use_time
                      | HPCL_INVALID \<Rightarrow> Inl Assert_Failed)))"

definition get_freq :: "'w::len word dict \<Rightarrow> nat \<Rightarrow> int cxx" where
  "get_freq d i = bindE (elem_at d i) (\<lambda>e. Inr (sint (m_freq e)))"

definition get_free_entry :: "'w::len word dict \<Rightarrow> int" where
  "get_free_entry d = (if length (m_dict d) < m_MAX_DICT_SIZE d then int (length (m_dict d)) else -1)"

definition get_word_no_with_multi_freq :: "'w::len word dict \<Rightarrow> nat" where
  "get_word_no_with_multi_freq d = length (filter (\<lambda>e. 1 < m_freq e) (m_dict d))"

definition get_valid_word_no :: "'w::len word dict \<Rightarrow> nat" where
  "get_valid_word_no d = length (filter m_valid (m_dict d))"

definition set_found_flag :: "'w::len word dict \<Rightarrow> nat \<Rightarrow> 'w word dict cxx" where
  "set_found_flag d i = bindE (elem_at d i) (\<lambda>e. Inr (set_elem d i (e\<lparr>m_found_flag := True\<rparr>)))"

definition get_found_flag :: "'w::len word dict \<Rightarrow> nat \<Rightarrow> bool cxx" where
  "get_found_flag d i = bindE (elem_at d i) (\<lambda>e. Inr (m_found_flag e))"

definition clear_found_flag :: "'w::len word dict \<Rightarrow> nat \<Rightarrow> 'w word dict cxx" where
  "clear_found_flag d i = bindE (elem_at d i) (\<lambda>e. Inr (set_elem d i (e\<lparr>m_found_flag := False\<rparr>)))"

definition compare_step :: "'w::len word dict \<times> nat \<Rightarrow> 'w word dict_elem \<Rightarrow> ('w word dict \<times> nat) cxx" where
  "compare_step s e =
     (let index = search_word (fst s) (m_word e)
      in if 0 \<le> index then
           bindE (get_found_flag (fst s) (nat index)) (\<lambda>f.
             if f then Inr s
             else bindE (set_found_flag (fst s) (nat index)) (\<lambda>d. Inr (d, snd s + 1)))
         else Inr s)"

definition compare_dict :: "'w::len word dict \<Rightarrow> 'w word dict \<Rightarrow> ('w word dict \<times> nat) cxx" where
  "compare_dict this d = foldE compare_step (d, 0) (m_dict this)"

definition get_word_no :: "'w::len word dict \<Rightarrow> nat" where
  "get_word_no d = length (m_dict d)"

definition set_word_loc :: "'w::len word dict \<Rightarrow> nat \<Rightarrow> int \<Rightarrow> 'w word dict cxx" where
  "set_word_loc d i word_loc = bindE (elem_at d i) (\<lambda>e. Inr (set_elem d i (e\<lparr>m_word_loc := word_loc\<rparr>)))"

definition get_word_loc :: "'w::len word dict \<Rightarrow> nat \<Rightarrow> int cxx" where
  "get_word_loc d i = bindE (elem_at d i) (\<lambda>e. Inr (m_word_loc e))"

definition set_last_max_word_loc :: "'w::len word dict \<Rightarrow> int \<Rightarrow> 'w word dict" where
  "set_last_max_word_loc d loc = d\<lparr>m_last_max_word_loc := loc\<rparr>"

definition get_no_comp_data_segment_ratio :: "'w::len word dict \<Rightarrow> nat \<Rightarrow> int cxx" where
  "get_no_comp_data_segment_ratio d i = assertE (i < 4) (Inr (m_no_comp_data_segment d ! i))"

definition set_no_comp_data_segment_ratio :: "'w::len word dict \<Rightarrow> nat \<Rightarrow> int \<Rightarrow> 'w word dict cxx" where
  "set_no_comp_data_segment_ratio d i r =
     assertE (i < 4) (Inr (d\<lparr>m_no_comp_data_segment := (m_no_comp_data_segment d)[i := r]\<rparr>))"

text \<open>\<open>get_redund_nibble_no\<close>: \<open>sizeof(K)\<close> nibbles of each word are counted.\<close>

definition nibbles_of :: "nat \<Rightarrow> 'w::len word \<Rightarrow> nat list" where
  "nibbles_of n w = map (\<lambda>j. unat (and (drop_bit (4 * j) w) 15)) [0..<n]"

definition get_redund_nibble_no :: "'w::len word dict \<Rightarrow> nat" where
  "get_redund_nibble_no d =
     (let ns = concat (map (\<lambda>e. nibbles_of (LENGTH('w) div 8) (m_word e)) (m_dict d));
          cnt = (\<lambda>i. length (filter (\<lambda>n. n = i) ns))
      in sum_list (map (\<lambda>i. if 1 < cnt i then cnt i else 0) [0..<16]))"

section \<open>Search and update\<close>

definition words :: "'w::len word dict \<Rightarrow> 'w word list" where
  "words d = map m_word (m_dict d)"

lemma search_loop_spec:
  "(case search_loop word i es of
      None \<Rightarrow> word \<notin> set (map m_word es)
    | Some j \<Rightarrow> i \<le> j \<and> j < i + length es \<and> m_word (es ! (j - i)) = word \<and>
        (\<forall>k < j - i. m_word (es ! k) \<noteq> word))"
proof (induction es arbitrary: i)
  case (Cons e es)
  show ?case
  proof (cases "m_word e = word")
    case True
    then show ?thesis by (simp add: elem_search_def)
  next
    case False
    then show ?thesis
      using Cons.IH[of "i + 1"]
      by (auto simp: elem_search_def nth_Cons' less_Suc_eq_0_disj split: option.splits)
  qed
qed simp

lemma search_loop_Some:
  assumes "search_loop word 0 es = Some j"
  shows "j < length es" and "m_word (es ! j) = word" and "\<forall>k < j. m_word (es ! k) \<noteq> word"
  using search_loop_spec[where word = word and i = 0 and es = es] assms by auto

lemma search_loop_None: "search_loop word 0 es = None \<longleftrightarrow> word \<notin> set (map m_word es)"
proof (cases "search_loop word 0 es")
  case (Some j)
  then have "word \<in> set (map m_word es)" using search_loop_Some[OF Some] by (metis in_set_conv_nth length_map nth_map)
  then show ?thesis using Some by simp
qed (use search_loop_spec[where word = word and i = 0 and es = es] in simp)

lemma victim_loop_bound:
  "best < n \<Longrightarrow> i + length es \<le> n \<Longrightarrow> victim_loop better best i es < n"
proof (induction es arbitrary: best i)
  case (Cons e es)
  then show ?case by (cases "better e") (simp_all)
qed simp

definition distinct_nonzero :: "'w::len word list \<Rightarrow> bool" where
  "distinct_nonzero ws \<longleftrightarrow> distinct (filter (\<lambda>w. w \<noteq> 0) ws)"

definition dict_ok :: "'w::len word dict \<Rightarrow> bool" where
  "dict_ok d \<longleftrightarrow> distinct_nonzero (words d) \<and> length (m_dict d) \<le> m_MAX_DICT_SIZE d \<and>
     0 < m_MAX_DICT_SIZE d \<and> m_rep_policy d \<noteq> HPCL_INVALID"

lemma words_set_elem: "words (set_elem d i e) = (words d)[i := m_word e]"
  by (simp add: words_def set_elem_def map_update)

lemma words_set_same:
  assumes "i < length (m_dict d)" and "m_word e = m_word (m_dict d ! i)"
  shows "words (set_elem d i e) = words d"
proof -
  have "words d ! i = m_word e" using assms by (simp add: words_def)
  then show ?thesis using list_update_id[of "words d" i] by (simp add: words_set_elem)
qed

lemma set_elem_frame [simp]:
  "m_MAX_DICT_SIZE (set_elem d i e) = m_MAX_DICT_SIZE d"
  "m_rep_policy (set_elem d i e) = m_rep_policy d"
  "length (m_dict (set_elem d i e)) = length (m_dict d)"
  by (simp_all add: set_elem_def)

lemma distinct_update: "distinct_nonzero xs \<Longrightarrow> x \<notin> set xs \<Longrightarrow> distinct_nonzero (xs[i := x])"
  unfolding distinct_nonzero_def
proof (induction xs arbitrary: i)
  case (Cons a xs)
  show ?case
  proof (cases i)
    case 0
    then show ?thesis using Cons.prems by (cases "a = 0") auto
  next
    case (Suc j)
    have "set (xs[j := x]) \<subseteq> insert x (set xs)" by (rule set_update_subset_insert)
    then show ?thesis using Cons.IH[of j] Cons.prems Suc by auto
  qed
qed simp

lemma distinct_append: "distinct_nonzero xs \<Longrightarrow> x \<notin> set xs \<Longrightarrow> distinct_nonzero (xs @ [x])"
  by (simp add: distinct_nonzero_def)

lemma replace_ok:
  assumes "dict_ok d" and "i < length (m_dict d)" and "word \<notin> set (words d)"
  shows "dict_ok (set_elem d i (elem_init word t)) \<and>
    words (set_elem d i (elem_init word t)) = (words d)[i := word]"
  using assms distinct_update[of "words d" word i]
  by (simp add: dict_ok_def words_set_elem elem_init_def)

lemma update_dict_ok:
  assumes "dict_ok d"
  shows "\<exists>d' i. update_dict d word t (-1) = Inr (d', i) \<and> dict_ok d' \<and> i < length (m_dict d') \<and>
    m_word (m_dict d' ! i) = word \<and>
    (words d' = words d \<or> words d' = words d @ [word] \<or>
     length (words d) = m_MAX_DICT_SIZE d \<and> word \<notin> set (words d) \<and> words d' = (words d)[i := word])"
proof (cases "search_loop word 0 (m_dict d)")
  case (Some i)
  note s = search_loop_Some[OF Some]
  let ?e = "update_freq (update_last_use_time (m_dict d ! i) t)"
  have w: "words (set_elem d i ?e) = words d"
    using s(1) by (intro words_set_same) (simp_all add: update_freq_def update_last_use_time_def)
  have "dict_ok (set_elem d i ?e)" using assms w by (simp add: dict_ok_def)
  then show ?thesis
    using Some s w by (auto simp: update_dict_def set_elem_def update_freq_def update_last_use_time_def)
next
  case None
  then have n: "word \<notin> set (words d)" by (simp add: search_loop_None words_def)
  show ?thesis
  proof (cases "length (m_dict d) < m_MAX_DICT_SIZE d")
    case True
    let ?d = "d\<lparr>m_dict := m_dict d @ [elem_init word t]\<rparr>"
    have "words ?d = words d @ [word]" by (simp add: words_def elem_init_def)
    then show ?thesis
      using True None n assms distinct_append[of "words d" word]
      by (auto simp: update_dict_def dict_ok_def elem_init_def)
  next
    case False
    then have full: "length (m_dict d) = m_MAX_DICT_SIZE d" "0 < length (m_dict d)"
      using assms by (auto simp: dict_ok_def)
    have b: "victim_loop p 0 1 (tl (m_dict d)) < length (m_dict d)" for p
      using full(2) by (intro victim_loop_bound) auto
    have "\<exists>i < length (m_dict d). update_dict d word t (-1) = Inr (set_elem d i (elem_init word t), i)"
    proof (cases "m_rep_policy d")
      case HPCL_INVALID
      then show ?thesis using assms by (simp add: dict_ok_def)
    next
      case HPCL_LRU
      then show ?thesis
        using False None full(2) b
        by (simp add: update_dict_def update_elem_by_LRU_def elem_at_def Let_def)
    next
      case HPCL_LFU
      then show ?thesis
        using False None full(2) b
        by (simp add: update_dict_def update_elem_by_LFU_def elem_at_def Let_def)
    qed
    then obtain i where i: "i < length (m_dict d)"
      "update_dict d word t (-1) = Inr (set_elem d i (elem_init word t), i)" by blast
    from replace_ok[OF assms i(1) n] i n full show ?thesis
      by (auto simp: set_elem_def elem_init_def words_def)
  qed
qed

lemma search_word_member: "0 \<le> search_word d word \<longleftrightarrow> word \<in> set (words d)"
  by (cases "search_loop word 0 (m_dict d)")
    (use search_loop_None[of word "m_dict d"] in \<open>auto simp: search_word_def words_def\<close>)

lemma search_word_nth:
  assumes "word \<in> set (words d)"
  shows "nat (search_word d word) < length (m_dict d)"
    and "m_word (m_dict d ! nat (search_word d word)) = word"
proof -
  obtain j where j: "search_loop word 0 (m_dict d) = Some j"
    using assms search_loop_None[of word "m_dict d"] by (auto simp: words_def)
  show "nat (search_word d word) < length (m_dict d)"
    and "m_word (m_dict d ! nat (search_word d word)) = word"
    using search_loop_Some[OF j] by (simp_all add: search_word_def j)
qed

lemma search_loop_words:
  "map m_word es = map m_word fs \<Longrightarrow> search_loop word i es = search_loop word i fs"
proof (induction es arbitrary: fs i)
  case (Cons e es)
  then obtain f fs' where "fs = f # fs'" "m_word e = m_word f" "map m_word es = map m_word fs'" by (cases fs) auto
  then show ?case using Cons.IH[of fs' "i + 1"] by (simp add: elem_search_def)
qed simp

lemma search_word_words:
  assumes "words d = words d'"
  shows "search_word d w = search_word d' w"
  unfolding search_word_def search_loop_words[OF assms[unfolded words_def]] ..

lemma nth_in_words: "i < length (m_dict d) \<Longrightarrow> m_word (m_dict d ! i) \<in> set (words d)"
  by (simp add: words_def)

text \<open>\<open>update_dict\<close> without an index never fails on a dictionary whose nonzero words are
  distinct: it keeps them distinct, returns an index inside the dictionary that holds the word, and the
  other entries keep their words: it found the word, appended it, or overwrote one entry when full.\<close>
theorem dict_update_finds:
  assumes "dict_ok d"
  shows "\<exists>d' i. update_dict d word t (-1) = Inr (d', i) \<and> dict_ok d' \<and> i < length (m_dict d') \<and>
    m_word (m_dict d' ! i) = word \<and> 0 \<le> search_word d' word \<and>
    (words d' = words d \<or> words d' = words d @ [word] \<or>
     length (words d) = m_MAX_DICT_SIZE d \<and> word \<notin> set (words d) \<and> words d' = (words d)[i := word])"
proof -
  obtain d' i where u: "update_dict d word t (-1) = Inr (d', i)" "dict_ok d'" "i < length (m_dict d')"
    "m_word (m_dict d' ! i) = word" and w: "words d' = words d \<or> words d' = words d @ [word] \<or>
     length (words d) = m_MAX_DICT_SIZE d \<and> word \<notin> set (words d) \<and> words d' = (words d)[i := word]"
    using update_dict_ok[OF assms, of word t] by blast
  have "word \<in> set (words d')" using nth_in_words[OF u(3)] u(4) by simp
  then show ?thesis using u w search_word_member[of d' word] by blast
qed

section \<open>Runs of updates\<close>

text \<open>The compressors create a dictionary, clear it for every line and update it with its words.\<close>

datatype 'k dict_op = Dict_Clear | Dict_Update 'k u64

definition dict_step :: "'w::len word dict \<Rightarrow> 'w word dict_op \<Rightarrow> 'w word dict cxx" where
  "dict_step d a = (case a of Dict_Clear \<Rightarrow> Inr (dict_clear d)
     | Dict_Update word t \<Rightarrow> bindE (update_dict d word t (-1)) (\<lambda>r. Inr (fst r)))"

definition dict_of :: "nat \<Rightarrow> 'w::len word set \<Rightarrow> 'w word dict \<Rightarrow> bool" where
  "dict_of n W d \<longleftrightarrow> dict_ok d \<and> m_MAX_DICT_SIZE d = n \<and> set (words d) \<subseteq> W"

definition op_word :: "'k dict_op \<Rightarrow> 'k set" where
  "op_word a = (case a of Dict_Clear \<Rightarrow> {} | Dict_Update word t \<Rightarrow> {word})"

lemma update_max: "update_dict d word t k = Inr (d', i) \<Longrightarrow> m_MAX_DICT_SIZE d' = m_MAX_DICT_SIZE d"
  by (auto simp: update_dict_def update_elem_by_LRU_def update_elem_by_LFU_def bindE_Inr_iff Let_def
      split: if_splits option.splits rep_policy.splits)

lemma dict_step_update:
  assumes "dict_of n W d"
  shows "\<exists>d'. dict_step d (Dict_Update word t) = Inr d' \<and> dict_of n (insert word W) d' \<and> word \<in> set (words d')"
proof -
  have d: "dict_ok d" "m_MAX_DICT_SIZE d = n" "set (words d) \<subseteq> W" using assms by (auto simp: dict_of_def)
  obtain d' i where u: "update_dict d word t (-1) = Inr (d', i)" "dict_ok d'" "i < length (m_dict d')"
    "m_word (m_dict d' ! i) = word" and w: "words d' = words d \<or> words d' = words d @ [word] \<or>
     length (words d) = m_MAX_DICT_SIZE d \<and> word \<notin> set (words d) \<and> words d' = (words d)[i := word]"
    using update_dict_ok[OF d(1), of word t] by blast
  have "m_MAX_DICT_SIZE d' = n" using update_max[OF u(1)] d(2) by simp
  moreover have "word \<in> set (words d')" using nth_in_words[OF u(3)] u(4) by simp
  moreover have "set (words d') \<subseteq> insert word W"
    using w d(3) set_update_subset_insert[of "words d" i word] by auto
  ultimately show ?thesis using u by (simp add: dict_step_def dict_of_def)
qed

lemma dict_step_ok:
  assumes "dict_of n W d" and "op_word a \<subseteq> W"
  shows "\<exists>d'. dict_step d a = Inr d' \<and> dict_of n W d'"
proof (cases a)
  case Dict_Clear
  then show ?thesis
    using assms(1)
    by (simp add: dict_step_def dict_clear_def dict_of_def dict_ok_def words_def distinct_nonzero_def)
next
  case (Dict_Update word t)
  then have "insert word W = W" using assms(2) by (auto simp: op_word_def)
  then show ?thesis using dict_step_update[OF assms(1), of word t] Dict_Update by auto
qed

interpretation dict_machine: total_machine dict_step "dict_of n UNIV" for n
proof unfold_locales
  fix d d' :: "'a word dict" and a
  assume "dict_of n UNIV d" "dict_step d a = Inr d'"
  then show "dict_of n UNIV d'" using dict_step_ok[of n UNIV d a] by auto
next
  fix d :: "'a word dict" and a
  assume "dict_of n UNIV d"
  then show "okE (dict_step d a)" using dict_step_ok[of n UNIV d a] by (auto simp: okE_iff)
qed

lemma dict_init_ok: "0 < n \<Longrightarrow> p \<noteq> HPCL_INVALID \<Longrightarrow> dict_of n {0} (dict_init n p)"
  by (simp add: dict_of_def dict_ok_def dict_init_def words_def distinct_nonzero_def elem_init_def)

lemma dict_words_run:
  assumes "dict_of n W d" and "foldE dict_step d ops = Inr d'"
  shows "set (words d') \<subseteq> W \<union> (\<Union>a \<in> set ops. op_word a)"
proof -
  let ?W = "W \<union> (\<Union>a \<in> set ops. op_word a)"
  have "dict_of n ?W d" using assms(1) by (auto simp: dict_of_def)
  then have "dict_of n ?W d'"
  proof (rule foldE_invariant[where P = "dict_of n ?W" and f = dict_step and xs = ops, rotated])
    show "foldE dict_step d ops = Inr d'" by (rule assms(2))
    fix s x s'
    assume x: "x \<in> set ops" and s: "dict_of n ?W s" "dict_step s x = Inr s'"
    have "op_word x \<subseteq> ?W" using x by blast
    from dict_step_ok[OF s(1) this] s(2) show "dict_of n ?W s'" by auto
  qed
  then show ?thesis by (simp add: dict_of_def)
qed

lemma dict_run_ok:
  fixes word :: "'a::len word"
  assumes "0 < n" and "p \<noteq> HPCL_INVALID"
  shows "\<exists>d. foldE dict_step (dict_init n p) (ops @ [Dict_Update word t]) = Inr d \<and> dict_ok d \<and>
    get_word_no d \<le> n \<and> 0 \<le> search_word d word \<and>
    set (words d) \<subseteq> {0, word} \<union> (\<Union>a \<in> set ops. op_word a)"
proof -
  have i0: "dict_of n {0} (dict_init n p :: 'a word dict)" by (rule dict_init_ok[OF assms])
  then have i: "dict_of n UNIV (dict_init n p :: 'a word dict)" by (simp add: dict_of_def)
  obtain d where d: "foldE dict_step (dict_init n p) ops = Inr d" "dict_of n UNIV d"
    using dict_machine.run_total[OF i, of ops] by blast
  obtain d' where d': "dict_step d (Dict_Update word t) = Inr d'" "dict_of n (insert word UNIV) d'"
    "word \<in> set (words d')"
    using dict_step_update[OF d(2), of word t] by blast
  have run: "foldE dict_step (dict_init n p) (ops @ [Dict_Update word t]) = Inr d'"
    by (simp add: foldE_append d d')
  have "set (words d') \<subseteq> {0, word} \<union> (\<Union>a \<in> set ops. op_word a)"
    using dict_words_run[OF i0 run] by (auto simp: op_word_def)
  with d' run show ?thesis by (auto simp: dict_of_def dict_ok_def get_word_no_def search_word_member)
qed

text \<open>Claim C8. A dictionary built by \<open>init\<close> for a replacement policy takes any sequence of updates and
  clears without a failed assertion: its nonzero words stay distinct, it never holds more than \<open>n\<close>
  entries, it holds no word that was not put in (but zero), and the word of the last update is found.\<close>
theorem dict_run:
  assumes "0 < n" and "p \<noteq> HPCL_INVALID"
  shows "\<exists>d. foldE dict_step (dict_init n p) (ops @ [Dict_Update word t]) = Inr d \<and> dict_ok d \<and>
    get_word_no d \<le> n \<and> 0 \<le> search_word d word \<and>
    set (words d) \<subseteq> {0, word} \<union> (\<Union>a \<in> set ops. op_word a)"
  by (rule dict_run_ok[OF assms])

definition demo_dict :: "rep_policy \<Rightarrow> (u32 \<times> u64 \<times> bool) list \<Rightarrow> u32 dict" where
  "demo_dict p es = \<lparr>m_MAX_DICT_SIZE = length es, m_rep_policy = p,
     m_dict = map (\<lambda>(w, t, h). (elem_init w t)\<lparr>m_hold_flag := h\<rparr>) es, m_last_max_word_loc = -1,
     m_no_comp_data_segment = [-1, -1, -1, -1]\<rparr>"

lemma dict_update_finds_witness:
  "\<exists>d' i. update_dict (demo_dict HPCL_LRU [(7, 5, False), (0, 1, False), (0, 3, False)]) 9 6 (-1) = Inr (d', i) \<and>
    dict_ok d' \<and> m_word (m_dict d' ! i) = 9"
proof -
  have "dict_ok (demo_dict HPCL_LRU [(7, 5, False), (0, 1, False), (0, 3, False)])"
    by (simp add: demo_dict_def dict_ok_def words_def elem_init_def distinct_nonzero_def)
  from dict_update_finds[OF this, of 9 6] show ?thesis by blast
qed

lemma dict_run_witness:
  "\<exists>d. foldE dict_step (dict_init 2 HPCL_LFU :: u8 dict)
      ([Dict_Clear, Dict_Update 1 1, Dict_Update 2 2, Dict_Update 1 3] @ [Dict_Update 4 4]) = Inr d \<and>
    dict_ok d \<and> get_word_no d \<le> 2 \<and> 0 \<le> search_word d 4"
  using dict_run[of 2 HPCL_LFU "[Dict_Clear, Dict_Update 1 1, Dict_Update 2 2, Dict_Update 1 3]" 4 4] by auto

section \<open>Which entry is replaced\<close>

lemma victim_loop_spec:
  "let v = victim_loop better best i es in
     (v = best \<and> (\<forall>k < length es. \<not> better (es ! k))) \<or>
     (i \<le> v \<and> v < i + length es \<and> better (es ! (v - i)) \<and>
      (\<forall>k. v - i < k \<and> k < length es \<longrightarrow> \<not> better (es ! k)))"
proof (induction es arbitrary: best i)
  case (Cons e es)
  let ?b = "if better e then i else best"
  let ?v = "victim_loop better ?b (i + 1) es"
  have ih: "(?v = ?b \<and> (\<forall>k < length es. \<not> better (es ! k))) \<or>
     (i + 1 \<le> ?v \<and> ?v < i + 1 + length es \<and> better (es ! (?v - (i + 1))) \<and>
      (\<forall>k. ?v - (i + 1) < k \<and> k < length es \<longrightarrow> \<not> better (es ! k)))"
    using Cons.IH[of ?b "i + 1"] by (simp add: Let_def)
  have v: "victim_loop better best i (e # es) = ?v" by simp
  show ?case
  proof (cases "\<exists>k < length es. better (es ! k)")
    case True
    then have h: "i + 1 \<le> ?v" "?v < i + 1 + length es" "better (es ! (?v - (i + 1)))"
      "\<forall>k. ?v - (i + 1) < k \<and> k < length es \<longrightarrow> \<not> better (es ! k)" using ih by blast+
    have "\<not> better ((e # es) ! k)" if "?v - i < k" "k < length (e # es)" for k
      using h(1,4) that by (cases k) auto
    moreover have "(e # es) ! (?v - i) = es ! (?v - (i + 1))" using h(1) by (simp add: nth_Cons')
    ultimately show ?thesis unfolding v Let_def using h by simp
  next
    case False
    have "?v - (i + 1) < length es" if "i + 1 \<le> ?v" "?v < i + 1 + length es" using that by linarith
    with False ih have "?v = ?b" by blast
    then show ?thesis unfolding v Let_def using False by (auto simp: nth_Cons' gr0_conv_Suc)
  qed
qed simp

definition last_better :: "('w::len word dict_elem \<Rightarrow> bool) \<Rightarrow> 'w word dict \<Rightarrow> nat \<Rightarrow> bool" where
  "last_better better d v \<longleftrightarrow> v < length (m_dict d) \<and>
     (v = 0 \<or> better (m_dict d ! v)) \<and>
     (\<forall>k. v < k \<and> k < length (m_dict d) \<longrightarrow> \<not> better (m_dict d ! k))"

lemma victim_loop_last:
  assumes "m_dict d \<noteq> []"
  shows "last_better better d (victim_loop better 0 1 (tl (m_dict d)))"
proof -
  obtain e es where d: "m_dict d = e # es" using assms by (cases "m_dict d") auto
  let ?v = "victim_loop better 0 1 es"
  have spec: "(?v = 0 \<and> (\<forall>k < length es. \<not> better (es ! k))) \<or>
     (1 \<le> ?v \<and> ?v < 1 + length es \<and> better (es ! (?v - 1)) \<and>
      (\<forall>k. ?v - 1 < k \<and> k < length es \<longrightarrow> \<not> better (es ! k)))"
    using victim_loop_spec[where better = better and best = 0 and i = 1 and es = es] by (simp add: Let_def)
  have "\<not> better ((e # es) ! k)" if "?v < k" "k < Suc (length es)" for k
    using spec that by (cases k) (auto simp: Suc_le_eq)
  then show ?thesis using spec by (auto simp: last_better_def d nth_Cons')
qed

lemma lru_victim_ok:
  assumes "m_dict d \<noteq> []"
  shows "\<exists>v. update_elem_by_LRU d word time = Inr (set_elem d v (elem_init word time), v) \<and>
    last_better (\<lambda>e. m_last_use_time e < m_last_use_time (m_dict d ! 0)) d v"
  using assms victim_loop_last[OF assms]
  by (simp add: update_elem_by_LRU_def elem_at_def Let_def)

text \<open>The entry the LRU replacement overwrites is the last one used earlier than entry 0,
  or entry 0 when there is none; it is reset to the new word and time.\<close>
theorem lru_victim:
  assumes "m_dict d \<noteq> []"
  shows "\<exists>v. update_elem_by_LRU d word time = Inr (set_elem d v (elem_init word time), v) \<and>
    last_better (\<lambda>e. m_last_use_time e < m_last_use_time (m_dict d ! 0)) d v"
  by (rule lru_victim_ok[OF assms])

lemma lru_victim_witness:
  "\<exists>v. update_elem_by_LRU (demo_dict HPCL_LRU [(7, 5, False), (8, 1, False), (9, 6, False)]) 3 7 =
      Inr (set_elem (demo_dict HPCL_LRU [(7, 5, False), (8, 1, False), (9, 6, False)]) v (elem_init 3 7), v) \<and>
    last_better (\<lambda>e. m_last_use_time e < 5) (demo_dict HPCL_LRU [(7, 5, False), (8, 1, False), (9, 6, False)]) v"
  using lru_victim[of "demo_dict HPCL_LRU [(7, 5, False), (8, 1, False), (9, 6, False)]" 3 7]
  by (simp add: demo_dict_def elem_init_def)

text \<open>The running minimum is never updated: with entries last used at 5, 1 and 3 the LRU
  replacement overwrites the one of time 3 and leaves the oldest; and LFU replacement overwrites
  entry 0 although it is held.\<close>
theorem replacement_not_minimal:
  "update_dict (demo_dict HPCL_LRU [(7, 5, False), (8, 1, False), (9, 3, False)]) 4 6 (-1) =
     Inr (demo_dict HPCL_LRU [(7, 5, False), (8, 1, False), (4, 6, False)], 2) \<and>
   update_dict (demo_dict HPCL_LFU [(7, 5, True), (8, 1, False), (9, 3, False)]) 4 6 (-1) =
     Inr (demo_dict HPCL_LFU [(4, 6, False), (8, 1, False), (9, 3, False)], 0)"
  by (simp add: demo_dict_def update_dict_def update_elem_by_LRU_def update_elem_by_LFU_def elem_search_def
      elem_init_def elem_at_def set_elem_def Let_def)

section \<open>Erasing and comparing\<close>

lemma erase_dict_ok:
  assumes "word \<in> set (words d)"
  shows "\<exists>d'. erase_dict d word = Inr d' \<and> words d' = words d \<and>
    \<not> m_valid (m_dict d' ! nat (search_word d word)) \<and> search_word d' word = search_word d word"
proof -
  let ?i = "nat (search_word d word)"
  let ?d = "set_elem d ?i ((m_dict d ! ?i)\<lparr>m_valid := False\<rparr>)"
  note i = search_word_nth[OF assms]
  have w: "words ?d = words d"
    using i(1) by (intro words_set_same) simp_all
  have "erase_dict d word = Inr ?d" using assms by (simp add: erase_dict_def Let_def search_word_member)
  moreover have "\<not> m_valid (m_dict ?d ! ?i)" using i(1) by (simp add: set_elem_def)
  ultimately show ?thesis using w search_word_words[OF w, of word] by blast
qed

text \<open>\<open>erase_dict\<close> of a word the dictionary holds clears the valid bit of its first entry and
  changes no word: since \<open>search_word\<close> does not read the bit, the erased word is still found there.\<close>
theorem erase_dict_keeps_word:
  assumes "word \<in> set (words d)"
  shows "\<exists>d'. erase_dict d word = Inr d' \<and> words d' = words d \<and>
    \<not> m_valid (m_dict d' ! nat (search_word d word)) \<and> search_word d' word = search_word d word"
  by (rule erase_dict_ok[OF assms])

lemma erase_dict_keeps_word_witness:
  "\<exists>d'. erase_dict (demo_dict HPCL_LRU [(7, 5, False), (8, 1, False)]) 8 = Inr d' \<and> 8 \<in> set (words d')"
proof -
  have m: "8 \<in> set (words (demo_dict HPCL_LRU [(7, 5, False), (8, 1, False)]))"
    by (simp add: demo_dict_def words_def elem_init_def)
  from erase_dict_keeps_word[OF this] m show ?thesis by fastforce
qed

text \<open>The indices where the words of \<open>ws\<close> are found.\<close>

definition hits :: "'w::len word dict \<Rightarrow> 'w word list \<Rightarrow> nat set" where
  "hits d ws = {nat (search_word d w) | w. w \<in> set ws \<inter> set (words d)}"

lemma hits_snoc:
  "hits d (ws @ [w]) = (if 0 \<le> search_word d w then insert (nat (search_word d w)) (hits d ws) else hits d ws)"
  by (auto simp: hits_def search_word_member)

lemma hits_words: "words d = words d' \<Longrightarrow> hits d ws = hits d' ws"
  unfolding hits_def by (simp add: search_word_words[of d d'])

lemma finite_hits [simp]: "finite (hits d ws)"
proof -
  have "hits d ws = (\<lambda>w. nat (search_word d w)) ` (set ws \<inter> set (words d))" by (auto simp: hits_def)
  then show ?thesis by simp
qed

lemma card_hits: "card (hits d ws) = card (set ws \<inter> set (words d))"
proof -
  have "hits d ws = (\<lambda>w. nat (search_word d w)) ` (set ws \<inter> set (words d))" by (auto simp: hits_def)
  moreover have "inj_on (\<lambda>w. nat (search_word d w)) (set ws \<inter> set (words d))"
    using search_word_nth(2)[of _ d] by (metis (no_types, lifting) IntD2 inj_onI)
  ultimately show ?thesis by (simp add: card_image)
qed

definition compare_inv :: "'w::len word dict \<Rightarrow> 'w word list \<Rightarrow> 'w word dict \<times> nat \<Rightarrow> bool" where
  "compare_inv d ws s \<longleftrightarrow> words (fst s) = words d \<and> snd s = card (hits d ws) \<and>
     (\<forall>i < length (m_dict d). m_found_flag (m_dict (fst s) ! i) \<longleftrightarrow> i \<in> hits d ws)"

lemma compare_step_ok:
  assumes "compare_inv d ws s"
  shows "\<exists>s'. compare_step s e = Inr s' \<and> compare_inv d (ws @ [m_word e]) s'"
proof (cases "0 \<le> search_word d (m_word e)")
  case False
  have w: "words (fst s) = words d" using assms by (simp add: compare_inv_def)
  with False assms show ?thesis
    using search_word_words[OF w, of "m_word e"] by (simp add: compare_step_def compare_inv_def hits_snoc)
next
  case True
  let ?i = "nat (search_word d (m_word e))"
  have w: "words (fst s) = words d" using assms by (simp add: compare_inv_def)
  note eq = search_word_words[OF w, of "m_word e"]
  have len: "length (m_dict (fst s)) = length (m_dict d)" using arg_cong[OF w, of length] by (simp add: words_def)
  have i: "?i < length (m_dict d)" using True search_word_nth(1) by (simp add: search_word_member)
  show ?thesis
  proof (cases "m_found_flag (m_dict (fst s) ! ?i)")
    case found: True
    then have "?i \<in> hits d ws" using assms i by (simp add: compare_inv_def)
    then show ?thesis using found True assms i len
      by (simp add: compare_step_def eq compare_inv_def hits_snoc insert_absorb get_found_flag_def elem_at_def)
  next
    case new: False
    let ?d = "set_elem (fst s) ?i ((m_dict (fst s) ! ?i)\<lparr>m_found_flag := True\<rparr>)"
    have "?i \<notin> hits d ws" using new assms i by (simp add: compare_inv_def)
    moreover have "words ?d = words d" using i len w by (subst words_set_same) simp_all
    moreover have "m_found_flag (m_dict ?d ! k) \<longleftrightarrow> k = ?i \<or> m_found_flag (m_dict (fst s) ! k)"
      if "k < length (m_dict d)" for k
      using that len by (cases "k = ?i") (auto simp: set_elem_def)
    ultimately show ?thesis using new True assms i len
      by (simp add: compare_step_def eq compare_inv_def hits_snoc get_found_flag_def set_found_flag_def elem_at_def Let_def)
  qed
qed

lemma compare_fold_ok:
  "compare_inv d ws s \<Longrightarrow>
    \<exists>s'. foldE compare_step s es = Inr s' \<and> compare_inv d (ws @ map m_word es) s'"
proof (induction es arbitrary: s ws)
  case (Cons e es)
  obtain s' where s': "compare_step s e = Inr s'" "compare_inv d (ws @ [m_word e]) s'"
    using compare_step_ok[OF Cons.prems] by blast
  from Cons.IH[OF s'(2)] s'(1) show ?case by simp
qed simp

lemma compare_dict_ok:
  assumes "\<forall>e \<in> set (m_dict d). \<not> m_found_flag e"
  shows "\<exists>d'. compare_dict this d = Inr (d', card (set (words this) \<inter> set (words d))) \<and> words d' = words d \<and>
    (\<forall>i < length (m_dict d). m_found_flag (m_dict d' ! i) \<longleftrightarrow>
       (\<exists>w \<in> set (words this) \<inter> set (words d). i = nat (search_word d w)))"
proof -
  have "compare_inv d [] (d, 0)" using assms by (simp add: compare_inv_def hits_def)
  from compare_fold_ok[OF this, of "m_dict this"]
  obtain s where s: "foldE compare_step (d, 0) (m_dict this) = Inr s" "compare_inv d (words this) s"
    by (auto simp: words_def)
  then show ?thesis
    by (cases s) (auto simp: compare_dict_def compare_inv_def card_hits[symmetric] hits_def)
qed

text \<open>\<open>compare_dict\<close> on a dictionary with no found flag set counts exactly the distinct words
  the two dictionaries share, and sets the found flag of exactly their first entries.\<close>
theorem compare_dict_counts_shared:
  assumes "\<forall>e \<in> set (m_dict d). \<not> m_found_flag e"
  shows "\<exists>d'. compare_dict this d = Inr (d', card (set (words this) \<inter> set (words d))) \<and> words d' = words d \<and>
    (\<forall>i < length (m_dict d). m_found_flag (m_dict d' ! i) \<longleftrightarrow>
       (\<exists>w \<in> set (words this) \<inter> set (words d). i = nat (search_word d w)))"
  by (rule compare_dict_ok[OF assms])

lemma compare_dict_counts_shared_witness:
  "\<exists>d'. compare_dict (demo_dict HPCL_LRU [(7, 5, False), (8, 1, False), (7, 2, False)])
      (demo_dict HPCL_LFU [(1, 0, False), (7, 0, False)]) = Inr (d', 1)"
  using compare_dict_counts_shared[of "demo_dict HPCL_LFU [(1, 0, False), (7, 0, False)]"
      "demo_dict HPCL_LRU [(7, 5, False), (8, 1, False), (7, 2, False)]"]
  by (auto simp: demo_dict_def words_def elem_init_def)

lemma multi_count_le:
  "sum_list (map (\<lambda>i. let c = length (filter (\<lambda>n. n = i) ns) in if 1 < c then c else 0) [0..<m]) \<le> length (ns :: nat list)"
proof -
  have "sum_list (map (\<lambda>i. length (filter (\<lambda>n. n = i) ns)) [0..<m]) \<le> length ns"
  proof (induction ns)
    case (Cons n ns)
    have "sum_list (map (\<lambda>i. length (filter (\<lambda>k. k = i) (n # ns))) [0..<m]) =
      sum_list (map (\<lambda>i. (if n = i then 1 else 0) + length (filter (\<lambda>k. k = i) ns)) [0..<m])"
      by (rule arg_cong[where f = sum_list]) simp
    also have "\<dots> = sum_list (map (\<lambda>i. if n = i then 1 else 0) [0..<m]) +
        sum_list (map (\<lambda>i. length (filter (\<lambda>k. k = i) ns)) [0..<m])"
      by (rule sum_list_addf)
    also have "sum_list (map (\<lambda>i. if n = i then 1 else 0) [0..<m]) \<le> (1 :: nat)"
      by (induction m) auto
    finally show ?case using Cons.IH by simp
  qed simp
  moreover have "sum_list (map (\<lambda>i. let c = length (filter (\<lambda>n. n = i) ns) in if 1 < c then c else 0) [0..<m]) \<le>
    sum_list (map (\<lambda>i. length (filter (\<lambda>n. n = i) ns)) [0..<m])"
    by (rule sum_list_mono) (simp add: Let_def)
  ultimately show ?thesis by (rule order_trans[rotated])
qed

lemma redund_nibble_le:
  "get_redund_nibble_no (d :: 'w::len word dict) \<le> LENGTH('w) div 8 * get_word_no d"
proof -
  let ?ns = "concat (map (\<lambda>e. nibbles_of (LENGTH('w) div 8) (m_word e)) (m_dict d))"
  have "length ?ns = LENGTH('w) div 8 * get_word_no d"
    by (simp add: get_word_no_def length_concat nibbles_of_def o_def sum_list_triv)
  then show ?thesis using multi_count_le[of ?ns 16] by (simp add: get_redund_nibble_no_def Let_def)
qed

text \<open>\<open>get_redund_nibble_no\<close> looks at only the low half of every word: on 32-bit words
  its result is at most four per entry, and the word \<open>0x11110000\<close> counts four, not eight.\<close>
theorem redund_nibble_half:
  "get_redund_nibble_no (d :: u32 dict) \<le> 4 * get_word_no d \<and>
   get_redund_nibble_no (demo_dict HPCL_LRU [(0x11110000, 0, False)]) = 4"
proof
  show "get_redund_nibble_no d \<le> 4 * get_word_no d" using redund_nibble_le[of d] by simp
  have ns: "nibbles_of 4 (0x11110000 :: u32) = [0, 0, 0, 0]"
    by (simp add: nibbles_of_def drop_bit_Suc upt_rec)
  show "get_redund_nibble_no (demo_dict HPCL_LRU [(0x11110000, 0, False)]) = 4"
    by (simp add: get_redund_nibble_no_def demo_dict_def elem_init_def Let_def ns upt_rec)
qed

end
