(* ===== verification/Cache_Config.thy ===== *)
theory Cache_Config
  imports Cxx_Prelude
begin

unbundle bit_operations_syntax

text \<open>
  Cache geometry (\<open>cache_config\<close>, \<open>l1d_cache_config\<close> and \<open>l2_cache_config\<close> of gpu-cache.h and
  gpu-cache.cc) and \<open>LOGB2\<close> of gpu-misc.cc: parsing the configuration, the set index functions and the
  tag of an address.  The tokens that \<open>sscanf\<close> reads are the input of the parser.  The virtual \<open>set_index\<close>
  is dispatched on \<open>m_class\<close>; the partition mapping of the L2 is the function that class carries.
\<close>

section \<open>Logarithm\<close>

text \<open>One line \<open>shift = ((v & m) != 0) << k; v >>= shift; r |= shift\<close> of \<open>LOGB2\<close>.\<close>

definition logb2_step :: "u32 \<Rightarrow> nat \<Rightarrow> u32 \<times> u32 \<Rightarrow> u32 \<times> u32" where
  "logb2_step m k s =
     (let shift = push_bit k (if fst s AND m \<noteq> 0 then 1 else 0 :: u32)
      in (drop_bit (unat shift) (fst s), snd s OR shift))"

definition LOGB2 :: "u32 \<Rightarrow> u32" where
  "LOGB2 v = snd (logb2_step 0x2 0 (logb2_step 0xC 1 (logb2_step 0xF0 2 (logb2_step 0xFF00 3
     (logb2_step 0xFFFF0000 4 (v, 0))))))"

lemma high_half_zero_iff:
  assumes "unat v < 2 ^ (2 * k)" and "m = push_bit k (mask k)"
  shows "(v :: u32) AND m = 0 \<longleftrightarrow> unat v < 2 ^ k"
proof -
  have "take_bit (2 * k) v = v" using assms(1) by (simp add: word_unat_eq_iff unsigned_take_bit_eq take_bit_nat_eq_self_iff)
  have bits: "bit (v AND m) i \<longleftrightarrow> bit v i \<and> k \<le> i" for i
  proof (cases "i < 2 * k")
    case True
    then show ?thesis unfolding assms(2)
      by (auto simp: bit_and_iff bit_push_bit_iff bit_mask_iff dest: bit_imp_le_length)
  next
    case False
    have "\<not> bit v i"
    proof
      assume "bit v i"
      then have "bit (take_bit (2 * k) v) i" using \<open>take_bit (2 * k) v = v\<close> by simp
      then show False using False by (simp add: bit_take_bit_iff)
    qed
    then show ?thesis by (simp add: bit_and_iff)
  qed
  have "v AND m = 0 \<longleftrightarrow> take_bit k v = v"
    using bits by (auto simp: bit_eq_iff bit_take_bit_iff not_le)
  also have "\<dots> \<longleftrightarrow> unat v < 2 ^ k"
    by (simp add: word_unat_eq_iff unsigned_take_bit_eq take_bit_nat_eq_self_iff)
  finally show ?thesis .
qed

text \<open>Each step keeps \<open>v\<close> = (original shifted right by \<open>r\<close>) and halves the number of bits left.\<close>

definition logb2_inv :: "u32 \<Rightarrow> nat \<Rightarrow> u32 \<times> u32 \<Rightarrow> bool" where
  "logb2_inv v0 n s \<longleftrightarrow> unat (fst s) = unat v0 div 2 ^ unat (snd s) \<and> 0 < unat (fst s) \<and> unat (fst s) < 2 ^ n"

lemma logb2_step_inv:
  assumes "logb2_inv v0 (2 * 2 ^ k) s" and m: "m = push_bit (2 ^ k) (mask (2 ^ k))" and k: "k < 5"
    and r: "unat (snd s OR push_bit k 1) = unat (snd s) + 2 ^ k"
  shows "logb2_inv v0 (2 ^ k) (logb2_step m k s)"
proof -
  have z: "fst s AND m = 0 \<longleftrightarrow> unat (fst s) < 2 ^ 2 ^ k"
    using high_half_zero_iff[of "fst s" "2 ^ k" m] assms(1,2) by (simp add: logb2_inv_def)
  show ?thesis
  proof (cases "fst s AND m = 0")
    case True
    then show ?thesis using assms(1) z by (simp add: logb2_inv_def logb2_step_def)
  next
    case False
    have "k \<in> {0, 1, 2, 3, 4}" using k by auto
    then have pk: "unat (push_bit k 1 :: u32) = 2 ^ k" by auto
    have "unat (fst s) div 2 ^ 2 ^ k < 2 ^ 2 ^ k"
      using assms(1) by (simp add: logb2_inv_def mult_2 power_add less_mult_imp_div_less)
    moreover have "0 < unat (fst s) div 2 ^ 2 ^ k"
      using False z by (simp add: div_greater_zero_iff not_less)
    moreover have "unat (fst s) div 2 ^ 2 ^ k = unat v0 div 2 ^ unat (snd s OR push_bit k 1)"
      using assms(1) r by (simp add: logb2_inv_def div_mult2_eq power_add)
    ultimately show ?thesis using False pk
      by (simp add: logb2_inv_def logb2_step_def Let_def unat_drop_bit_eq drop_bit_eq_div[where 'a = nat])
  qed
qed

lemma logb2_step_snd: "snd (logb2_step m k s) \<in> {snd s, snd s OR push_bit k 1}"
  by (simp add: logb2_step_def Let_def)

lemma LOGB2_spec:
  assumes "v \<noteq> 0"
  shows "2 ^ unat (LOGB2 v) \<le> unat v" and "unat v < 2 * 2 ^ unat (LOGB2 v)" and "unat (LOGB2 v) < 32"
proof -
  have v0: "0 < unat v" using assms by (simp add: unat_gt_0)
  let ?s4 = "logb2_step 0xFFFF0000 4 (v, 0)"
  let ?s3 = "logb2_step 0xFF00 3 ?s4"
  let ?s2 = "logb2_step 0xF0 2 ?s3"
  let ?s1 = "logb2_step 0xC 1 ?s2"
  let ?s0 = "logb2_step 0x2 0 ?s1"
  have r4: "snd ?s4 \<in> {0, 16}" using logb2_step_snd[of "0xFFFF0000" 4 "(v, 0)"] by simp
  have r3: "snd ?s3 \<in> {0, 16, 8, 24}" using logb2_step_snd[of "0xFF00" 3 ?s4] r4 by auto
  have r2: "snd ?s2 \<in> {0, 16, 8, 24, 4, 20, 12, 28}" using logb2_step_snd[of "0xF0" 2 ?s3] r3 by auto
  have r1: "snd ?s1 \<in> {0, 16, 8, 24, 4, 20, 12, 28, 2, 18, 10, 26, 6, 22, 14, 30}"
    using logb2_step_snd[of "0xC" 1 ?s2] r2 by auto
  have r0: "snd ?s0 \<in> {0, 16, 8, 24, 4, 20, 12, 28, 2, 18, 10, 26, 6, 22, 14, 30} \<or>
    snd ?s0 \<in> {1, 17, 9, 25, 5, 21, 13, 29, 3, 19, 11, 27, 7, 23, 15, 31}"
    using logb2_step_snd[of "0x2" 0 ?s1] r1 by auto
  have "logb2_inv v 32 (v, 0)" using v0 unsigned_less[of v] by (simp add: logb2_inv_def)
  then have "logb2_inv v 16 ?s4" using logb2_step_inv[of v 4 "(v, 0)" "0xFFFF0000"] by (simp add: mask_eq_exp_minus_1)
  then have "logb2_inv v 8 ?s3" using logb2_step_inv[of v 3 ?s4 "0xFF00"] r4 by (auto simp: mask_eq_exp_minus_1)
  then have "logb2_inv v 4 ?s2" using logb2_step_inv[of v 2 ?s3 "0xF0"] r3 by (auto simp: mask_eq_exp_minus_1)
  then have "logb2_inv v 2 ?s1" using logb2_step_inv[of v 1 ?s2 "0xC"] r2 by (auto simp: mask_eq_exp_minus_1)
  then have i: "logb2_inv v 1 ?s0" using logb2_step_inv[of v 0 ?s1 "0x2"] r1 by (auto simp: mask_eq_exp_minus_1)
  have L: "LOGB2 v = snd ?s0" by (simp add: LOGB2_def)
  have "unat v div 2 ^ unat (LOGB2 v) = 1" using i by (simp add: logb2_inv_def L)
  then show "2 ^ unat (LOGB2 v) \<le> unat v" "unat v < 2 * 2 ^ unat (LOGB2 v)"
    by (metis div_less linorder_not_le zero_neq_one) (metis One_nat_def Suc_1 dividend_less_times_div add.commute mult.commute mult_1 mult_2 zero_less_numeral zero_less_power \<open>unat v div 2 ^ unat (LOGB2 v) = 1\<close>)
  show "unat (LOGB2 v) < 32" unfolding L using r0 by auto
qed

lemma LOGB2_power:
  assumes "unat v = 2 ^ k"
  shows "unat (LOGB2 v) = k"
proof -
  have nz: "v \<noteq> 0" using assms by (metis power_eq_0_iff unsigned_0 zero_neq_numeral)
  note b = LOGB2_spec[OF nz]
  have "(2 :: nat) ^ unat (LOGB2 v) \<le> 2 ^ k" "(2 :: nat) ^ k < 2 ^ (unat (LOGB2 v) + 1)" using b assms by simp_all
  then have "unat (LOGB2 v) \<le> k" "k < unat (LOGB2 v) + 1"
    by (simp_all only: power_increasing_iff power_strict_increasing_iff one_less_numeral_iff semiring_norm)
  then show ?thesis by simp
qed

section \<open>Configuration\<close>

datatype replacement_policy_t = LRU | FIFO
datatype write_policy_t = READ_ONLY | WRITE_BACK | WRITE_THROUGH | WRITE_EVICT | LOCAL_WB_GLOBAL_WT
datatype allocation_policy_t = ON_MISS | ON_FILL
datatype write_allocate_policy_t = NO_WRITE_ALLOCATE | WRITE_ALLOCATE
datatype mshr_config_t = TEX_FIFO | ASSOC
datatype set_index_function = FERMI_HASH_SET_FUNCTION | LINEAR_SET_FUNCTION | CUSTOM_SET_FUNCTION

text \<open>The class of the configuration object; an L2 may have an address mapping.\<close>

datatype config_class = Base_Config | L1D_Config | L2_Config "(u64 \<Rightarrow> u64) option"

record cache_config =
  m_class :: config_class
  m_valid_config :: bool
  m_disabled :: bool
  m_line_sz :: u32
  m_line_sz_log2 :: u32
  m_nset :: u32
  m_nset_log2 :: u32
  m_assoc :: u32
  m_replacement_policy :: replacement_policy_t
  m_write_policy :: write_policy_t
  m_alloc_policy :: allocation_policy_t
  m_mshr_type :: mshr_config_t
  m_write_alloc_policy :: write_allocate_policy_t
  m_mshr_entries :: u32
  m_mshr_max_merge :: u32
  m_miss_queue_size :: u32
  m_result_fifo_entries :: u32
  m_data_port_width :: u32
  m_set_index_function :: set_index_function

text \<open>What \<open>sscanf\<close> makes of the string: fewer than 11 tokens (of \<open>"none"\<close> or another string), or the 11
  first ones and up to three more.\<close>

record config_fields =
  t_nset :: u32
  t_line_sz :: u32
  t_assoc :: u32
  t_rp :: char
  t_wp :: char
  t_ap :: char
  t_wap :: char
  t_sif :: char
  t_mshr_type :: char
  t_mshr_entries :: u32
  t_mshr_max_merge :: u32
  t_more :: "u32 list"

datatype config_tokens = Tokens_None | Tokens_Bad | Tokens config_fields

definition ntok :: "config_fields \<Rightarrow> nat" where
  "ntok t = 11 + length (t_more t)"

definition parse_rp :: "char \<Rightarrow> replacement_policy_t cxx" where
  "parse_rp c = (if c = CHR ''L'' then Inr LRU else if c = CHR ''F'' then Inr FIFO else Inl Abort_Called)"

definition parse_wp :: "char \<Rightarrow> write_policy_t cxx" where
  "parse_wp c =
     (if c = CHR ''R'' then Inr READ_ONLY else if c = CHR ''B'' then Inr WRITE_BACK
      else if c = CHR ''T'' then Inr WRITE_THROUGH else if c = CHR ''E'' then Inr WRITE_EVICT
      else if c = CHR ''L'' then Inr LOCAL_WB_GLOBAL_WT else Inl Abort_Called)"

definition parse_ap :: "char \<Rightarrow> allocation_policy_t cxx" where
  "parse_ap c = (if c = CHR ''m'' then Inr ON_MISS else if c = CHR ''f'' then Inr ON_FILL else Inl Abort_Called)"

definition parse_mshr_type :: "config_fields \<Rightarrow> mshr_config_t cxx" where
  "parse_mshr_type t =
     (if t_mshr_type t = CHR ''F'' then assertE (ntok t = 13) (Inr TEX_FIFO)
      else if t_mshr_type t = CHR ''A'' then Inr ASSOC else Inl Abort_Called)"

definition parse_wap :: "char \<Rightarrow> write_allocate_policy_t cxx" where
  "parse_wap c = (if c = CHR ''W'' then Inr WRITE_ALLOCATE else if c = CHR ''N'' then Inr NO_WRITE_ALLOCATE
     else Inl Abort_Called)"

definition parse_sif :: "char \<Rightarrow> set_index_function cxx" where
  "parse_sif c = (if c = CHR ''H'' then Inr FERMI_HASH_SET_FUNCTION
     else if c = CHR ''C'' then Inr CUSTOM_SET_FUNCTION
     else if c = CHR ''L'' then Inr LINEAR_SET_FUNCTION else Inl Abort_Called)"

text \<open>The numbers that \<open>sscanf\<close> stores.\<close>

definition scan_fields :: "cache_config \<Rightarrow> config_fields \<Rightarrow> cache_config" where
  "scan_fields c t = c\<lparr>m_nset := t_nset t, m_line_sz := t_line_sz t, m_assoc := t_assoc t,
     m_mshr_entries := t_mshr_entries t, m_mshr_max_merge := t_mshr_max_merge t,
     m_miss_queue_size := (if 1 \<le> length (t_more t) then t_more t ! 0 else m_miss_queue_size c),
     m_result_fifo_entries := (if 2 \<le> length (t_more t) then t_more t ! 1 else m_result_fifo_entries c),
     m_data_port_width := (if 3 \<le> length (t_more t) then t_more t ! 2 else m_data_port_width c)\<rparr>"

definition init_port :: "cache_config \<Rightarrow> cache_config cxx" where
  "init_port c =
     (let w = (if m_data_port_width c = 0 then m_line_sz c else m_data_port_width c)
      in if w = 0 then Inl Undefined_Behaviour
         else assertE (m_line_sz c mod w = 0) (Inr (c\<lparr>m_data_port_width := w\<rparr>)))"

definition cache_config_init :: "cache_config \<Rightarrow> config_tokens \<Rightarrow> cache_config cxx" where
  "cache_config_init c0 tokens =
     (case tokens of
        Tokens_None \<Rightarrow> Inr (c0\<lparr>m_disabled := True\<rparr>)
      | Tokens_Bad \<Rightarrow> Inl Abort_Called
      | Tokens t \<Rightarrow>
          bindE (parse_rp (t_rp t)) (\<lambda>rp.
          bindE (parse_wp (t_wp t)) (\<lambda>wp.
          bindE (parse_ap (t_ap t)) (\<lambda>ap.
          bindE (parse_mshr_type t) (\<lambda>mt.
          bindE (parse_wap (t_wap t)) (\<lambda>wap.
            let c = (scan_fields c0 t)\<lparr>m_replacement_policy := rp, m_write_policy := wp, m_alloc_policy := ap,
                      m_mshr_type := mt, m_line_sz_log2 := LOGB2 (t_line_sz t), m_nset_log2 := LOGB2 (t_nset t),
                      m_valid_config := True, m_write_alloc_policy := wap\<rparr>
            in assertE (\<not> (ap = ON_FILL \<and> wp = WRITE_BACK))
                 (bindE (init_port c) (\<lambda>c1.
                  bindE (parse_sif (t_sif t)) (\<lambda>sif. Inr (c1\<lparr>m_set_index_function := sif\<rparr>))))))))))"

definition get_line_sz :: "cache_config \<Rightarrow> u32 cxx" where
  "get_line_sz c = assertE (m_valid_config c) (Inr (m_line_sz c))"

definition get_num_lines :: "cache_config \<Rightarrow> u32 cxx" where
  "get_num_lines c = assertE (m_valid_config c) (Inr (m_nset c * m_assoc c))"

section \<open>Set index and tag\<close>

definition linear_index :: "cache_config \<Rightarrow> u64 \<Rightarrow> u32" where
  "linear_index c addr = ucast (drop_bit (unat (m_line_sz_log2 c)) addr AND ucast (m_nset c - 1))"

definition base_set_index :: "cache_config \<Rightarrow> u64 \<Rightarrow> u32 cxx" where
  "base_set_index c addr =
     (if m_set_index_function c \<noteq> LINEAR_SET_FUNCTION then Inl Abort_Called else Inr (linear_index c addr))"

definition hash_index :: "cache_config \<Rightarrow> u64 \<Rightarrow> u32" where
  "hash_index c addr =
     (let lower_xor = ucast (drop_bit (unat (m_line_sz_log2 c)) addr AND 0x1F) :: u32;
          upper_xor = ucast (drop_bit 13 (addr AND 0xE000)) OR ucast (drop_bit 14 (addr AND 0x20000))
                        OR ucast (drop_bit 15 (addr AND 0x80000)) :: u32;
          set_index = lower_xor XOR upper_xor
      in if m_nset c = 64 then set_index OR ucast (drop_bit 7 (addr AND 0x1000)) else set_index)"

definition l1d_set_index :: "cache_config \<Rightarrow> u64 \<Rightarrow> u32 cxx" where
  "l1d_set_index c addr =
     (case m_set_index_function c of
        FERMI_HASH_SET_FUNCTION \<Rightarrow>
          if m_nset c = 32 \<or> m_nset c = 64
          then assertE (hash_index c addr < m_nset c) (Inr (hash_index c addr))
          else Inl Assert_Failed
      | CUSTOM_SET_FUNCTION \<Rightarrow> assertE (m_nset c < m_nset c) (Inr (m_nset c))
      | LINEAR_SET_FUNCTION \<Rightarrow> assertE (linear_index c addr < m_nset c) (Inr (linear_index c addr)))"

definition l2_set_index :: "(u64 \<Rightarrow> u64) option \<Rightarrow> cache_config \<Rightarrow> u64 \<Rightarrow> u32" where
  "l2_set_index mapping c addr =
     (case mapping of
        None \<Rightarrow> linear_index c addr
      | Some partition_address \<Rightarrow> linear_index c (partition_address addr))"

definition set_index :: "cache_config \<Rightarrow> u64 \<Rightarrow> u32 cxx" where
  "set_index c addr =
     (case m_class c of
        Base_Config \<Rightarrow> base_set_index c addr
      | L1D_Config \<Rightarrow> l1d_set_index c addr
      | L2_Config mapping \<Rightarrow> Inr (l2_set_index mapping c addr))"

text \<open>\<open>~(m_line_sz-1)\<close> is computed in 32 bits and then widened.\<close>

definition cache_tag :: "cache_config \<Rightarrow> u64 \<Rightarrow> u64" where
  "cache_tag c addr = addr AND ucast (NOT (m_line_sz c - 1))"

definition cache_block_addr :: "cache_config \<Rightarrow> u64 \<Rightarrow> u64" where
  "cache_block_addr c addr = addr AND ucast (NOT (m_line_sz c - 1))"

section \<open>What an accepted configuration guarantees\<close>

lemma parse_mshr_type_tex: "parse_mshr_type t = Inr TEX_FIFO \<Longrightarrow> length (t_more t) = 2"
  by (auto simp: parse_mshr_type_def ntok_def cxx_simps split: if_splits)

lemma cache_config_init_ok:
  assumes "cache_config_init c0 (Tokens t) = Inr c"
  shows "m_valid_config c \<and> m_nset c = t_nset t \<and> m_line_sz c = t_line_sz t \<and> m_assoc c = t_assoc t \<and>
    m_line_sz_log2 c = LOGB2 (m_line_sz c) \<and> m_nset_log2 c = LOGB2 (m_nset c) \<and>
    \<not> (m_alloc_policy c = ON_FILL \<and> m_write_policy c = WRITE_BACK) \<and>
    (m_mshr_type c = TEX_FIFO \<longrightarrow> length (t_more t) = 2) \<and>
    m_data_port_width c \<noteq> 0 \<and> m_line_sz c mod m_data_port_width c = 0"
proof -
  obtain rp wp ap mt wap sif c1 c2 where m: "parse_mshr_type t = Inr mt"
    and c1: "c1 = (scan_fields c0 t)\<lparr>m_replacement_policy := rp, m_write_policy := wp, m_alloc_policy := ap,
                      m_mshr_type := mt, m_line_sz_log2 := LOGB2 (t_line_sz t), m_nset_log2 := LOGB2 (t_nset t),
                      m_valid_config := True, m_write_alloc_policy := wap\<rparr>"
    and a: "\<not> (ap = ON_FILL \<and> wp = WRITE_BACK)" and c2: "init_port c1 = Inr c2"
    and c: "c = c2\<lparr>m_set_index_function := sif\<rparr>"
    using assms unfolding cache_config_init_def config_tokens.case Let_def
    by (elim bindE_Inr_E assertE_Inr_E) blast
  define w where "w = (if m_data_port_width c1 = 0 then m_line_sz c1 else m_data_port_width c1)"
  have w: "c2 = c1\<lparr>m_data_port_width := w\<rparr>" "w \<noteq> 0" "m_line_sz c1 mod w = 0"
    using c2 unfolding init_port_def Let_def w_def[symmetric] assertE_def by (auto split: if_split_asm)
  show ?thesis unfolding c w(1) using m a w(2,3) parse_mshr_type_tex[of t]
    by (simp add: c1 scan_fields_def)
qed

text \<open>Claim C14. A configuration string that \<open>init\<close> accepts gives a usable cache: the geometry is the one
  written, the port width is not zero and divides the line size, the line size lies between the power of
  two that the logarithm names and the next one, allocation on fill never meets write-back (the deadlock the source
  describes), and a texture queue has exactly thirteen fields.\<close>
theorem cache_config_init_consistent:
  assumes "cache_config_init c0 (Tokens t) = Inr c" and "t_line_sz t \<noteq> 0"
  shows "m_valid_config c \<and> m_nset c = t_nset t \<and> m_line_sz c = t_line_sz t \<and> m_assoc c = t_assoc t \<and>
    2 ^ unat (m_line_sz_log2 c) \<le> unat (m_line_sz c) \<and> unat (m_line_sz c) < 2 * 2 ^ unat (m_line_sz_log2 c) \<and>
    \<not> (m_alloc_policy c = ON_FILL \<and> m_write_policy c = WRITE_BACK) \<and>
    (m_mshr_type c = TEX_FIFO \<longrightarrow> length (t_more t) = 2) \<and>
    m_data_port_width c \<noteq> 0 \<and> m_line_sz c mod m_data_port_width c = 0"
proof -
  note i = cache_config_init_ok[OF assms(1)]
  then have "m_line_sz c \<noteq> 0" using assms(2) by metis
  from LOGB2_spec(1,2)[OF this]
  have "2 ^ unat (m_line_sz_log2 c) \<le> unat (m_line_sz c)" "unat (m_line_sz c) < 2 * 2 ^ unat (m_line_sz_log2 c)"
    using i by metis+
  with i show ?thesis by blast
qed

definition new_cache_config :: "config_class \<Rightarrow> cache_config" where
  "new_cache_config cls = \<lparr>m_class = cls, m_valid_config = False, m_disabled = False, m_line_sz = 0,
     m_line_sz_log2 = 0, m_nset = 0, m_nset_log2 = 0, m_assoc = 0, m_replacement_policy = LRU,
     m_write_policy = READ_ONLY, m_alloc_policy = ON_MISS, m_mshr_type = TEX_FIFO,
     m_write_alloc_policy = NO_WRITE_ALLOCATE, m_mshr_entries = 0, m_mshr_max_merge = 0,
     m_miss_queue_size = 0, m_result_fifo_entries = 0, m_data_port_width = 0,
     m_set_index_function = LINEAR_SET_FUNCTION\<rparr>"

text \<open>\<open>32:128:4,L:R:f:N:H,A:32:8,8\<close>\<close>

definition demo_fields :: config_fields where
  "demo_fields = \<lparr>t_nset = 32, t_line_sz = 128, t_assoc = 4, t_rp = CHR ''L'', t_wp = CHR ''R'',
     t_ap = CHR ''f'', t_wap = CHR ''N'', t_sif = CHR ''H'', t_mshr_type = CHR ''A'', t_mshr_entries = 32,
     t_mshr_max_merge = 8, t_more = [8]\<rparr>"

definition demo_l1d :: cache_config where
  "demo_l1d = (new_cache_config L1D_Config)\<lparr>m_nset := 32, m_line_sz := 128, m_assoc := 4,
     m_mshr_entries := 32, m_mshr_max_merge := 8, m_miss_queue_size := 8, m_replacement_policy := LRU,
     m_write_policy := READ_ONLY, m_alloc_policy := ON_FILL, m_mshr_type := ASSOC, m_line_sz_log2 := 7,
     m_nset_log2 := 5, m_valid_config := True, m_write_alloc_policy := NO_WRITE_ALLOCATE,
     m_data_port_width := 128, m_set_index_function := FERMI_HASH_SET_FUNCTION\<rparr>"

lemma demo_l1d_init: "cache_config_init (new_cache_config L1D_Config) (Tokens demo_fields) = Inr demo_l1d"
  by code_simp

lemma cache_config_init_consistent_witness:
  "2 ^ unat (m_line_sz_log2 demo_l1d) \<le> unat (m_line_sz demo_l1d) \<and> m_valid_config demo_l1d"
proof -
  have "t_line_sz demo_fields \<noteq> 0" by (simp add: demo_fields_def)
  from cache_config_init_consistent[OF demo_l1d_init this] show ?thesis by blast
qed

section \<open>Sets\<close>

lemma and_pred_less:
  fixes x :: u64 and n :: u32
  assumes "n \<noteq> 0"
  shows "(ucast (x AND ucast (n - 1)) :: u32) < n"
proof -
  have "x AND ucast (n - 1) \<le> ucast (n - 1)" by (rule word_and_le1)
  then have "unat (x AND ucast (n - 1)) \<le> unat (ucast (n - 1) :: u64)" by (simp add: word_le_nat_alt)
  also have "\<dots> = unat (n - 1)"
  proof -
    have "unat (n - 1) < 2 ^ LENGTH(32)" by (rule unsigned_less)
    then show ?thesis by (simp add: unsigned_ucast_eq take_bit_nat_eq_self)
  qed
  also have "\<dots> < unat n" using assms by (rule measure_unat)
  finally have *: "unat (x AND ucast (n - 1)) < unat n" .
  have "unat (ucast (x AND ucast (n - 1)) :: u32) \<le> unat (x AND ucast (n - 1))"
    by (simp add: unsigned_ucast_eq unsigned_take_bit_eq take_bit_nat_less_eq_self)
  with * show ?thesis by (simp add: word_less_nat_alt)
qed

lemma linear_index_less: "m_nset c \<noteq> 0 \<Longrightarrow> linear_index c addr < m_nset c"
  unfolding linear_index_def by (rule and_pred_less)

lemma less_of_bits:
  fixes w :: "'a::len word"
  assumes "\<And>i. bit w i \<Longrightarrow> i < k"
  shows "unat w < 2 ^ k"
proof -
  have "take_bit k w = w" using assms by (auto simp: bit_eq_iff bit_take_bit_iff)
  then have "take_bit k (unat w) = unat w" by (metis unsigned_take_bit_eq)
  then show ?thesis by (simp add: take_bit_nat_eq_self_iff)
qed

lemma hash_index_less:
  assumes "m_nset c = 32 \<or> m_nset c = 64"
  shows "hash_index c addr < m_nset c"
proof -
  have m: "0x1F = (mask 5 :: u64)" "0xE000 = push_bit 13 (mask 3 :: u64)" "0x20000 = push_bit 17 (1 :: u64)"
    "0x80000 = push_bit 19 (1 :: u64)" "0x1000 = push_bit 12 (1 :: u64)"
    by (simp_all add: mask_eq_exp_minus_1)
  have b: "bit (8 :: int) i \<longleftrightarrow> i = 3" "bit (16 :: int) i \<longleftrightarrow> i = 4" "bit (32 :: int) i \<longleftrightarrow> i = 5" for i
    using bit_push_bit_iff[of 3 "1 :: int" i] bit_push_bit_iff[of 4 "1 :: int" i] bit_push_bit_iff[of 5 "1 :: int" i]
    by (auto simp: bit_1_iff)
  have bits: "i < (if m_nset c = 64 then 6 else 5)" if "bit (hash_index c addr) i" for i
    using that unfolding hash_index_def m Let_def
    by (auto simp: bit_or_iff bit_xor_iff bit_and_iff bit_ucast_iff bit_drop_bit_eq bit_mask_iff bit_push_bit_iff bit_1_iff b
        split: if_split_asm)
  show ?thesis
  proof (cases "m_nset c = 64")
    case True
    then show ?thesis using less_of_bits[of "hash_index c addr" 6] bits by (simp add: word_less_nat_alt)
  next
    case False
    then show ?thesis using less_of_bits[of "hash_index c addr" 5] bits assms by (simp add: word_less_nat_alt)
  qed
qed

lemma set_index_ok:
  assumes "m_nset c \<noteq> 0" and "set_index c addr = Inr i"
  shows "i < m_nset c"
  using assms linear_index_less[OF assms(1)]
  by (auto simp: set_index_def base_set_index_def l1d_set_index_def l2_set_index_def cxx_simps
      split: config_class.splits set_index_function.splits if_splits option.splits)

section \<open>Tags\<close>

lemma unat_power_lower32:
  assumes "k < 32"
  shows "unat (2 ^ k :: u32) = 2 ^ k"
proof -
  have "(2 :: nat) ^ k < 2 ^ 32" by (rule power_strict_increasing[OF assms]) simp
  then have "unat (of_nat (2 ^ k) :: u32) = 2 ^ k"
    using assms by (simp only: unsigned_of_nat) (simp add: take_bit_nat_eq_self)
  then show ?thesis by simp
qed

lemma cache_tag_bits:
  assumes "unat (m_line_sz c) = 2 ^ k" and "k < 32"
  shows "bit (cache_tag c addr) i \<longleftrightarrow> bit addr i \<and> k \<le> i \<and> i < 32"
proof -
  have "m_line_sz c = push_bit k 1"
    using assms by (simp add: word_unat_eq_iff push_bit_of_1 unat_power_lower32)
  then have "m_line_sz c - 1 = mask k" by (simp add: mask_eq_exp_minus_1 push_bit_of_1)
  then show ?thesis by (auto simp: cache_tag_def bit_and_iff bit_ucast_iff bit_not_iff bit_mask_iff dest: bit_imp_le_length)
qed

lemma cache_tag_eq_iff:
  assumes "unat (m_line_sz c) = 2 ^ k" and "k < 32"
  shows "cache_tag c a = cache_tag c b \<longleftrightarrow> (unat a mod 2 ^ 32) div 2 ^ k = (unat b mod 2 ^ 32) div 2 ^ k"
proof -
  have "drop_bit k (take_bit 32 (unat a)) = drop_bit k (take_bit 32 (unat b)) \<longleftrightarrow>
    drop_bit k (take_bit 32 a) = drop_bit k (take_bit 32 b)"
    by (simp add: word_unat_eq_iff unat_drop_bit_eq unsigned_take_bit_eq)
  also have "\<dots> \<longleftrightarrow>
    (\<forall>i. bit (drop_bit k (take_bit 32 a)) i \<longleftrightarrow> bit (drop_bit k (take_bit 32 b)) i)"
    by (metis bit_word_eqI)
  also have "\<dots> \<longleftrightarrow> (\<forall>i. k \<le> i \<and> i < 32 \<longrightarrow> (bit a i \<longleftrightarrow> bit b i))"
    by (simp add: bit_drop_bit_eq bit_take_bit_iff) (metis le_add_diff_inverse add.commute le_add2)
  also have "\<dots> \<longleftrightarrow> (\<forall>i. bit (cache_tag c a) i \<longleftrightarrow> bit (cache_tag c b) i)"
    unfolding cache_tag_bits[OF assms] by blast
  also have "\<dots> \<longleftrightarrow> cache_tag c a = cache_tag c b"
    by (metis bit_word_eqI)
  finally show ?thesis by (simp add: take_bit_eq_mod drop_bit_eq_div)
qed

text \<open>The tag of a cache with lines of \<open>2 ^ k\<close> bytes is the line number of only the low 32 bits of
  the address, because the mask is computed in 32 bits: two lines at the same place in different 4 GB
  regions have the same tag, so the cache takes one for the other.\<close>
theorem cache_tag_ignores_high_bits:
  assumes "unat (m_line_sz c) = 2 ^ k" and "k < 32"
  shows "(cache_tag c a = cache_tag c b \<longleftrightarrow> (unat a mod 2 ^ 32) div 2 ^ k = (unat b mod 2 ^ 32) div 2 ^ k) \<and>
    cache_tag c (a + 2 ^ 32) = cache_tag c a"
proof -
  have "unat (a + 2 ^ 32) mod 2 ^ 32 = unat a mod 2 ^ 32"
    by (simp add: unat_word_ariths mod_mod_cancel mod_add_eq)
  then show ?thesis using cache_tag_eq_iff[OF assms] by simp
qed

lemma cache_tag_ignores_high_bits_witness:
  "cache_tag demo_l1d (0x80 + 2 ^ 32) = cache_tag demo_l1d 0x80 \<and>
   (0x80 + 2 ^ 32 :: u64) \<noteq> 0x80"
  using cache_tag_ignores_high_bits[of demo_l1d 7 "0x80"] by (simp add: demo_l1d_def)

text \<open>Claim C13. Every set index a cache computes names one of its sets: the linear function for any number
  of sets but zero, behind any address mapping, and the hash function, which never fails on 32 or 64 sets.\<close>
theorem set_index_in_range:
  assumes "m_nset c \<noteq> 0"
  shows "(\<forall>i. set_index c addr = Inr i \<longrightarrow> i < m_nset c) \<and>
    (m_set_index_function c = LINEAR_SET_FUNCTION \<longrightarrow> okE (set_index c addr)) \<and>
    (m_class c = L1D_Config \<and> m_set_index_function c = FERMI_HASH_SET_FUNCTION \<and> m_nset c \<in> {32, 64} \<longrightarrow>
       set_index c addr = Inr (hash_index c addr))"
proof -
  have "m_nset c \<in> {32, 64} \<Longrightarrow> hash_index c addr < m_nset c" using hash_index_less[of c addr] by blast
  then show ?thesis
    using set_index_ok[OF assms, of addr] linear_index_less[OF assms, of addr]
    by (auto simp: set_index_def base_set_index_def l1d_set_index_def okE_def split: config_class.splits)
qed

lemma set_index_in_range_witness: "set_index demo_l1d 0x12345680 = Inr (hash_index demo_l1d 0x12345680)"
  using set_index_in_range[of demo_l1d "0x12345680"] by (simp add: demo_l1d_def new_cache_config_def)

end
