(* ===== verification/Tag_Array.thy ===== *)
theory Tag_Array
  imports Cache_Config
begin

text \<open>
  The tags of a cache (\<open>cache_block_t\<close> and \<open>tag_array\<close> of gpu-cache.h and gpu-cache.cc), with the
  segments of the compressed L1 data cache: lookup, replacement, allocation, fill and flush.  Segment
  indices and times are 32-bit words, as in the source; line indices are natural numbers with \<open>None\<close>
  for \<open>(unsigned)-1\<close>, and a line outside the allocated array is out of range.  The access log
  (\<open>shader_cache_access_log\<close>) and the printing are left out.
\<close>

section \<open>Lines\<close>

datatype cache_block_state = INVALID | RESERVED | VALID | MODIFIED
datatype cache_request_status = HIT | HIT_RESERVED | MISS | RESERVATION_FAIL

record cache_block =
  m_tag :: u64
  m_block_addr :: u64
  m_alloc_time :: u32
  m_last_access_time :: u32
  m_fill_time :: u32
  m_status :: cache_block_state
  m_start_seg_idx :: u32
  m_end_seg_idx :: u32
  m_compressed :: u32

definition new_block :: cache_block where
  "new_block = \<lparr>m_tag = 0, m_block_addr = 0, m_alloc_time = 0, m_last_access_time = 0, m_fill_time = 0,
     m_status = INVALID, m_start_seg_idx = 0, m_end_seg_idx = 0, m_compressed = 0\<rparr>"

definition block_allocate ::
    "cache_block \<Rightarrow> u64 \<Rightarrow> u64 \<Rightarrow> u32 \<Rightarrow> u32 \<Rightarrow> u32 \<Rightarrow> u32 \<Rightarrow> cache_block" where
  "block_allocate b tag block_addr time start_seg end_seg compressed =
     b\<lparr>m_tag := tag, m_block_addr := block_addr, m_alloc_time := time, m_last_access_time := time,
       m_fill_time := 0, m_status := RESERVED, m_start_seg_idx := start_seg, m_end_seg_idx := end_seg,
       m_compressed := compressed\<rparr>"

definition block_fill :: "cache_block \<Rightarrow> u32 \<Rightarrow> cache_block cxx" where
  "block_fill b time = assertE (m_status b = RESERVED) (Inr (b\<lparr>m_status := VALID, m_fill_time := time\<rparr>))"

definition block_copy :: "cache_block \<Rightarrow> cache_block \<Rightarrow> cache_block" where
  "block_copy src dst = dst\<lparr>m_tag := m_tag src, m_block_addr := m_block_addr src,
     m_alloc_time := m_alloc_time src, m_last_access_time := m_last_access_time src,
     m_fill_time := m_fill_time src, m_status := m_status src, m_start_seg_idx := m_start_seg_idx src,
     m_end_seg_idx := m_end_seg_idx src, m_compressed := m_compressed src\<rparr>"

definition reset_comp_cache_info :: "cache_block \<Rightarrow> u32 \<Rightarrow> cache_block" where
  "reset_comp_cache_info b max_seg_idx =
     b\<lparr>m_start_seg_idx := 0, m_end_seg_idx := max_seg_idx, m_compressed := 0\<rparr>"

section \<open>The array\<close>

text \<open>The members of \<open>g_hpcl_comp_config\<close> that the cache reads.\<close>

record comp_config =
  hpcl_cache_comp_en :: u32
  hpcl_comp_tag_size_multiplier :: u32
  hpcl_comp_cache_segment_size :: u32

record tag_array =
  m_config :: cache_config
  g_comp :: comp_config
  normal_cache_id :: int
  m_core_id :: int
  m_type_id :: int
  m_lines :: "cache_block list"
  m_access :: u32
  m_miss :: u32
  m_pending_hit :: u32
  m_res_fail :: u32
  m_prev_snapshot_access :: u32
  m_prev_snapshot_miss :: u32
  m_prev_snapshot_pending_hit :: u32

definition is_l1_data :: "tag_array \<Rightarrow> bool" where
  "is_l1_data ta \<longleftrightarrow> 0 \<le> m_core_id ta \<and> m_type_id ta = normal_cache_id ta"

definition is_compressed_cache :: "tag_array \<Rightarrow> bool" where
  "is_compressed_cache ta \<longleftrightarrow> is_l1_data ta \<and> hpcl_cache_comp_en (g_comp ta) = 1"

definition max_seg_idx :: "tag_array \<Rightarrow> u32" where
  "max_seg_idx ta = m_assoc (m_config ta) * 128 div hpcl_comp_cache_segment_size (g_comp ta) - 1"

definition MAX_DEFAULT_CACHE_SIZE_MULTIBLIER :: u32 where
  "MAX_DEFAULT_CACHE_SIZE_MULTIBLIER = 4"

definition new_tag_array :: "cache_config \<Rightarrow> comp_config \<Rightarrow> int \<Rightarrow> int \<Rightarrow> int \<Rightarrow> tag_array cxx" where
  "new_tag_array config g normal core_id type_id =
     bindE (get_num_lines config) (\<lambda>n.
       let ta = \<lparr>m_config = config, g_comp = g, normal_cache_id = normal, m_core_id = core_id,
              m_type_id = type_id, m_lines = [], m_access = 0, m_miss = 0, m_pending_hit = 0, m_res_fail = 0,
              m_prev_snapshot_access = 0, m_prev_snapshot_miss = 0, m_prev_snapshot_pending_hit = 0\<rparr>
       in if is_l1_data ta \<and> hpcl_cache_comp_en g \<noteq> 0 then
            if MAX_DEFAULT_CACHE_SIZE_MULTIBLIER * n * 2 = 0 then Inr ta
            else if hpcl_comp_cache_segment_size g = 0 then Inl Undefined_Behaviour
            else assertE (0 <s max_seg_idx ta)
                   (Inr (ta\<lparr>m_lines := replicate (unat (MAX_DEFAULT_CACHE_SIZE_MULTIBLIER * n * 2))
                             (new_block\<lparr>m_end_seg_idx := max_seg_idx ta\<rparr>)\<rparr>))
          else Inr (ta\<lparr>m_lines := replicate (unat (MAX_DEFAULT_CACHE_SIZE_MULTIBLIER * n)) new_block\<rparr>))"

definition update_cache_parameters :: "tag_array \<Rightarrow> cache_config \<Rightarrow> tag_array" where
  "update_cache_parameters ta config = ta\<lparr>m_config := config\<rparr>"

definition get_block :: "tag_array \<Rightarrow> nat \<Rightarrow> cache_block cxx" where
  "get_block ta idx = (if idx < length (m_lines ta) then Inr (m_lines ta ! idx) else Inl Out_Of_Range)"

definition put_block :: "tag_array \<Rightarrow> nat \<Rightarrow> cache_block \<Rightarrow> tag_array" where
  "put_block ta idx b = ta\<lparr>m_lines := (m_lines ta)[idx := b]\<rparr>"

definition get_avail_space :: "cache_block \<Rightarrow> u32" where
  "get_avail_space line =
     (if m_end_seg_idx line < m_start_seg_idx line then 0 else m_end_seg_idx line - m_start_seg_idx line + 1)"

text \<open>The ways of a set: doubled tags in the compressed cache.\<close>

definition comp_assoc :: "tag_array \<Rightarrow> nat" where
  "comp_assoc ta = unat (m_assoc (m_config ta) * hpcl_comp_tag_size_multiplier (g_comp ta))"

definition assoc_no :: "tag_array \<Rightarrow> nat" where
  "assoc_no ta = (if is_compressed_cache ta then comp_assoc ta else unat (m_assoc (m_config ta)))"

definition get_way_idx :: "tag_array \<Rightarrow> nat \<Rightarrow> nat" where
  "get_way_idx ta idx = idx mod comp_assoc ta"

section \<open>Eviction of several lines\<close>

definition get_neighbor_idx :: "tag_array \<Rightarrow> nat \<Rightarrow> (int \<times> int) cxx" where
  "get_neighbor_idx ta idx =
     assertE (hpcl_cache_comp_en (g_comp ta) = 1)
       (if comp_assoc ta = 0 then Inl Undefined_Behaviour
        else let way = idx mod comp_assoc ta
             in if way = 0 then Inr (int idx + 1, -1)
                else if way = comp_assoc ta - 1 then Inr (-1, int idx - 1)
                else Inr (int idx + 1, int idx - 1))"

definition select_evict_line_idx :: "tag_array \<Rightarrow> int \<Rightarrow> int \<Rightarrow> int cxx" where
  "select_evict_line_idx ta top_idx bot_idx =
     (if 0 \<le> top_idx \<and> 0 \<le> bot_idx then
        (if m_replacement_policy (m_config ta) = LRU then
           bindE (get_block ta (nat top_idx)) (\<lambda>t.
           bindE (get_block ta (nat bot_idx)) (\<lambda>b.
             Inr (if m_last_access_time t < m_last_access_time b then top_idx else bot_idx)))
         else Inr (-1))
      else if 0 \<le> top_idx then Inr top_idx
      else if 0 \<le> bot_idx then Inr bot_idx
      else Inl Assert_Failed)"

text \<open>The segments past the end of the last way of a set count as free space.\<close>

definition tail_space :: "tag_array \<Rightarrow> nat \<Rightarrow> cache_block \<Rightarrow> u32" where
  "tail_space ta idx b =
     (if get_way_idx ta idx = 0 \<and> \<not> m_end_seg_idx b < m_start_seg_idx b \<and> m_end_seg_idx b < max_seg_idx ta
      then max_seg_idx ta - m_end_seg_idx b else 0)"

text \<open>The evicted lines are kept from the highest index to the lowest.\<close>

fun insert_evicted :: "nat \<Rightarrow> nat list \<Rightarrow> nat list" where
  "insert_evicted n [] = [n]"
| "insert_evicted n (m # ms) = (if m < n then n # m # ms else m # insert_evicted n ms)"

record evict_state =
  ev_avail :: u32
  ev_max :: nat
  ev_min :: nat
  ev_last_used :: bool
  ev_lines :: "nat list"

definition evict_next :: "tag_array \<Rightarrow> evict_state \<Rightarrow> nat cxx" where
  "evict_next ta s =
     bindE (get_neighbor_idx ta (ev_max s)) (\<lambda>top_dummy.
     bindE (get_neighbor_idx ta (ev_min s)) (\<lambda>dummy_bot.
     bindE (select_evict_line_idx ta (fst top_dummy) (snd dummy_bot)) (\<lambda>evict_line.
       if 0 \<le> evict_line \<and> nat evict_line < length (m_lines ta) then Inr (nat evict_line) else Inl Out_Of_Range)))"

definition evict_line_step :: "tag_array \<Rightarrow> evict_state \<Rightarrow> nat \<Rightarrow> evict_state" where
  "evict_line_step ta s evict_line =
     (let b = m_lines ta ! evict_line;
          at_end = (m_end_seg_idx b = max_seg_idx ta);
          avail = (if ev_last_used s \<and> at_end then ev_avail s else ev_avail s + get_avail_space b)
      in \<lparr>ev_avail = avail + tail_space ta evict_line b,
          ev_max = (if ev_max s < evict_line then evict_line else ev_max s),
          ev_min = (if evict_line < ev_min s then evict_line else ev_min s),
          ev_last_used = ev_last_used s \<or> at_end,
          ev_lines = insert_evicted evict_line (ev_lines s)\<rparr>)"

lemma evict_next_cases:
  assumes "evict_next ta s = Inr e"
  shows "e < length (m_lines ta)" and "e = ev_max s + 1 \<or> e + 1 = ev_min s"
  using assms
  by (auto simp: evict_next_def get_neighbor_idx_def select_evict_line_idx_def cxx_simps Let_def
      split: if_split_asm)

function evict_loop :: "tag_array \<Rightarrow> int \<Rightarrow> evict_state \<Rightarrow> evict_state cxx" where
  "evict_loop ta seg_no s =
     (if sint (ev_avail s) < seg_no
      then (case evict_next ta s of Inl e \<Rightarrow> Inl e | Inr l \<Rightarrow> evict_loop ta seg_no (evict_line_step ta s l))
      else Inr s)"
  by pat_completeness auto
termination
proof (relation "measure (\<lambda>(ta, _, s). (length (m_lines ta) - ev_max s) + ev_min s)", simp)
  fix ta seg_no s l
  assume "evict_next ta s = Inr l"
  from evict_next_cases[OF this]
  show "((ta, seg_no, evict_line_step ta s l), ta, seg_no, s)
    \<in> measure (\<lambda>(ta, _, s). (length (m_lines ta) - ev_max s) + ev_min s)"
    by (auto simp: evict_line_step_def Let_def)
qed

declare evict_loop.simps [simp del]

definition do_multi_line_eviction :: "tag_array \<Rightarrow> nat \<Rightarrow> int \<Rightarrow> (nat \<times> nat list) cxx" where
  "do_multi_line_eviction ta cache_line seg_no =
     (if comp_assoc ta = 0 \<or> hpcl_comp_cache_segment_size (g_comp ta) = 0 then Inl Undefined_Behaviour else
     bindE (get_block ta cache_line) (\<lambda>b.
     bindE (evict_loop ta seg_no
         \<lparr>ev_avail = get_avail_space b + tail_space ta cache_line b, ev_max = cache_line, ev_min = cache_line,
          ev_last_used = (m_end_seg_idx b = max_seg_idx ta), ev_lines = [cache_line]\<rparr>) (\<lambda>s.
       Inr (ev_max s, remove1 (ev_max s) (ev_lines s)))))"

section \<open>Lookup\<close>

text \<open>The candidates that the loop over the ways collects.\<close>

record candidates =
  invalid_line :: "nat option"
  valid_line :: "nat option"
  valid_timestamp :: u32
  all_reserved :: bool
  invalid_line_with_avail_space :: "nat option"
  valid_line_with_avail_space :: "nat option"

definition no_candidates :: candidates where
  "no_candidates = \<lparr>invalid_line = None, valid_line = None, valid_timestamp = -1, all_reserved = True,
     invalid_line_with_avail_space = None, valid_line_with_avail_space = None\<rparr>"

definition fits :: "cache_block \<Rightarrow> int \<Rightarrow> bool" where
  "fits b seg_no \<longleftrightarrow> seg_no \<le> sint (get_avail_space b)"

definition note_invalid :: "bool \<Rightarrow> int \<Rightarrow> nat \<Rightarrow> cache_block \<Rightarrow> candidates \<Rightarrow> candidates cxx" where
  "note_invalid compressed seg_no index b c =
     (if \<not> compressed then Inr (c\<lparr>invalid_line := Some index\<rparr>)
      else assertE (0 \<le> sint (get_avail_space b))
        (Inr (if fits b seg_no then c\<lparr>invalid_line_with_avail_space := Some index\<rparr>
              else c\<lparr>invalid_line := Some index\<rparr>)))"

text \<open>Under FIFO the compressed cache keeps the access time of a candidate, not its allocation time.\<close>

definition note_valid :: "replacement_policy_t \<Rightarrow> bool \<Rightarrow> int \<Rightarrow> nat \<Rightarrow> cache_block \<Rightarrow> candidates \<Rightarrow> candidates cxx" where
  "note_valid policy compressed seg_no index b c =
     (let stamp = (case policy of LRU \<Rightarrow> m_last_access_time b | FIFO \<Rightarrow> m_alloc_time b)
      in if stamp < valid_timestamp c then
           if \<not> compressed then Inr (c\<lparr>valid_timestamp := stamp, valid_line := Some index\<rparr>)
           else assertE (0 \<le> sint (get_avail_space b))
             (Inr ((if fits b seg_no then c\<lparr>valid_line_with_avail_space := Some index\<rparr>
                    else c\<lparr>valid_line := Some index\<rparr>)\<lparr>valid_timestamp := m_last_access_time b\<rparr>))
         else Inr c)"

definition note_line :: "replacement_policy_t \<Rightarrow> bool \<Rightarrow> int \<Rightarrow> nat \<Rightarrow> cache_block \<Rightarrow> candidates \<Rightarrow> candidates cxx" where
  "note_line policy compressed seg_no index b c =
     (if m_status b = RESERVED then Inr c
      else if m_status b = INVALID
      then note_invalid compressed seg_no index b (c\<lparr>all_reserved := False\<rparr>)
      else note_valid policy compressed seg_no index b (c\<lparr>all_reserved := False\<rparr>))"

text \<open>The loop ends early with the line that has the tag, unless that line is invalid.\<close>

fun probe_loop :: "tag_array \<Rightarrow> u64 \<Rightarrow> int \<Rightarrow> candidates \<Rightarrow> nat list
      \<Rightarrow> ((cache_request_status \<times> nat) + candidates) cxx" where
  "probe_loop ta tag seg_no c [] = Inr (Inr c)"
| "probe_loop ta tag seg_no c (index # is) =
     bindE (get_block ta index) (\<lambda>b.
       if m_tag b = tag \<and> m_status b \<noteq> INVALID
       then Inr (Inl (if m_status b = RESERVED then HIT_RESERVED else HIT, index))
       else bindE (note_line (m_replacement_policy (m_config ta)) (is_compressed_cache ta) seg_no index b c)
              (\<lambda>c'. probe_loop ta tag seg_no c' is))"

definition pick_victim :: "tag_array \<Rightarrow> int \<Rightarrow> candidates \<Rightarrow> (nat \<times> nat list) cxx" where
  "pick_victim ta seg_no c =
     (if \<not> is_compressed_cache ta then
        (case invalid_line c of Some i \<Rightarrow> Inr (i, [])
         | None \<Rightarrow> (case valid_line c of Some i \<Rightarrow> Inr (i, []) | None \<Rightarrow> Inl Abort_Called))
      else
        (case invalid_line_with_avail_space c of Some i \<Rightarrow> Inr (i, [])
         | None \<Rightarrow> (case valid_line_with_avail_space c of Some i \<Rightarrow> Inr (i, [])
         | None \<Rightarrow> (case invalid_line c of Some i \<Rightarrow> do_multi_line_eviction ta i seg_no
         | None \<Rightarrow> (case valid_line c of Some i \<Rightarrow> do_multi_line_eviction ta i seg_no
         | None \<Rightarrow> Inl Abort_Called)))))"

definition set_lines :: "tag_array \<Rightarrow> u32 \<Rightarrow> nat list" where
  "set_lines ta si = map (\<lambda>way. unat si * assoc_no ta + way) [0..<assoc_no ta]"

text \<open>\<open>idx\<close> keeps the caller's value when the reservation fails.\<close>

definition probe :: "tag_array \<Rightarrow> u64 \<Rightarrow> nat \<Rightarrow> int \<Rightarrow> (cache_request_status \<times> nat \<times> nat list) cxx" where
  "probe ta addr idx seg_no =
     bindE (set_index (m_config ta) addr) (\<lambda>si.
       if hpcl_comp_cache_segment_size (g_comp ta) = 0 then Inl Undefined_Behaviour
       else bindE (probe_loop ta (cache_tag (m_config ta) addr) seg_no no_candidates (set_lines ta si)) (\<lambda>r.
         case r of
           Inl (status, index) \<Rightarrow> Inr (status, index, [])
         | Inr c \<Rightarrow>
             if all_reserved c
             then assertE (m_alloc_policy (m_config ta) = ON_MISS) (Inr (RESERVATION_FAIL, idx, []))
             else bindE (pick_victim ta seg_no c) (\<lambda>v. Inr (MISS, fst v, snd v))))"

section \<open>Access, fill and flush\<close>

definition touch :: "tag_array \<Rightarrow> nat \<Rightarrow> u32 \<Rightarrow> tag_array" where
  "touch ta idx time = put_block ta idx ((m_lines ta ! idx)\<lparr>m_last_access_time := time\<rparr>)"

definition allocate_at :: "tag_array \<Rightarrow> nat \<Rightarrow> u64 \<Rightarrow> u32 \<Rightarrow> tag_array" where
  "allocate_at ta idx addr time = put_block ta idx
     (block_allocate (m_lines ta ! idx) (cache_tag (m_config ta) addr) (cache_block_addr (m_config ta) addr) time 0 0 0)"

text \<open>The result: status, line, and the line to write back if one has to be (\<open>wb\<close> and \<open>evicted\<close>).\<close>

definition access :: "tag_array \<Rightarrow> u64 \<Rightarrow> u32 \<Rightarrow> nat
      \<Rightarrow> (tag_array \<times> cache_request_status \<times> nat \<times> cache_block option) cxx" where
  "access ta0 addr time idx0 =
     (let ta = ta0\<lparr>m_access := m_access ta0 + 1\<rparr>
      in bindE (probe ta addr idx0 0) (\<lambda>(status, idx, _).
           case status of
             HIT_RESERVED \<Rightarrow>
               Inr ((touch ta idx time)\<lparr>m_pending_hit := m_pending_hit ta + 1\<rparr>, HIT_RESERVED, idx, None)
           | HIT \<Rightarrow> Inr (touch ta idx time, HIT, idx, None)
           | MISS \<Rightarrow>
               (let ta1 = ta\<lparr>m_miss := m_miss ta + 1\<rparr>
                in if m_alloc_policy (m_config ta) = ON_MISS
                   then Inr (allocate_at ta1 idx addr time, MISS, idx,
                             if m_status (m_lines ta ! idx) = MODIFIED then Some (m_lines ta ! idx) else None)
                   else Inr (ta1, MISS, idx, None))
           | RESERVATION_FAIL \<Rightarrow> Inr (ta\<lparr>m_res_fail := m_res_fail ta + 1\<rparr>, RESERVATION_FAIL, idx, None)))"

definition access_no_wb :: "tag_array \<Rightarrow> u64 \<Rightarrow> u32 \<Rightarrow> nat \<Rightarrow> (tag_array \<times> cache_request_status \<times> nat) cxx" where
  "access_no_wb ta addr time idx =
     bindE (access ta addr time idx) (\<lambda>(ta', status, idx', wb). assertE (wb = None) (Inr (ta', status, idx')))"

text \<open>Filling the compressed cache.  The line found grows to the segments of the lines evicted with it, then
  shrinks to the segments its data needs.\<close>

definition seg_count :: "tag_array \<Rightarrow> u32 \<Rightarrow> u32" where
  "seg_count ta data_size =
     (let seg_size = unat (hpcl_comp_cache_segment_size (g_comp ta))
      in of_nat ((unat data_size + seg_size - 1) div seg_size))"

definition set_seg :: "tag_array \<Rightarrow> nat \<Rightarrow> u32 \<Rightarrow> u32 \<Rightarrow> tag_array" where
  "set_seg ta i start_seg end_seg =
     put_block ta i ((m_lines ta ! i)\<lparr>m_start_seg_idx := start_seg, m_end_seg_idx := end_seg\<rparr>)"

definition widen_line :: "tag_array \<Rightarrow> nat \<Rightarrow> nat list \<Rightarrow> tag_array" where
  "widen_line ta idx evict_idx =
     (let b = m_lines ta ! idx
      in if evict_idx = [] then
           (if get_way_idx ta idx = 0 then set_seg ta idx (m_start_seg_idx b) (max_seg_idx ta) else ta)
         else let l = last evict_idx
              in set_seg ta idx (m_start_seg_idx b)
                   (if get_way_idx ta l = 0 then max_seg_idx ta else m_end_seg_idx (m_lines ta ! l)))"

definition needed_end :: "u32 \<Rightarrow> u32 \<Rightarrow> u32 \<Rightarrow> u32 cxx" where
  "needed_end start_seg end_seg seg_no =
     assertE (start_seg \<le> end_seg)
       (assertE (seg_no \<le> end_seg - start_seg + 1)
         (let nec_end = start_seg + seg_no - 1
          in if nec_end < end_seg then assertE (0 \<le> sint nec_end) (Inr nec_end) else Inr end_seg))"

text \<open>Without eviction the lines of the lower ways move together behind the filled line (from high
  to low index).\<close>

definition compact_step :: "tag_array \<Rightarrow> nat \<Rightarrow> tag_array cxx" where
  "compact_step ta j =
     (let b = m_lines ta ! j;
          above = m_lines ta ! (j + 1);
          mx = max_seg_idx ta
      in if m_end_seg_idx above = mx
         then assertE (m_end_seg_idx b = mx) (Inr (set_seg ta j (mx + 1) (m_end_seg_idx b)))
         else let offset = m_end_seg_idx b - m_start_seg_idx b;
                  start_seg = m_end_seg_idx above + 1
              in Inr (set_seg ta j start_seg
                        (if m_end_seg_idx b = mx then m_end_seg_idx b else start_seg + offset)))"

definition compact_lines :: "tag_array \<Rightarrow> nat \<Rightarrow> nat \<Rightarrow> tag_array cxx" where
  "compact_lines ta idx way = foldE compact_step ta (map (\<lambda>i. idx - i) [1..<way + 1])"

text \<open>With eviction the lines below the evicted ones move up by their number, and the ways left over at the
  low end become invalid.  The second component is \<open>update_seg_idx\<close>.\<close>

definition shift_step :: "nat \<Rightarrow> tag_array \<times> u32 \<Rightarrow> nat \<Rightarrow> tag_array \<times> u32" where
  "shift_step k s i =
     (let ta = fst s; u = snd s; mx = max_seg_idx ta;
          ta1 = put_block ta (i + k) (block_copy (m_lines ta ! i) (m_lines ta ! (i + k)));
          b = m_lines ta1 ! (i + k)
      in if mx < u then (set_seg ta1 (i + k) (mx + 1) mx, u)
         else let u' = u + (m_end_seg_idx b - m_start_seg_idx b)
              in if mx < u' then (set_seg ta1 (i + k) u mx, u') else (set_seg ta1 (i + k) u u', u' + 1))"

definition clear_step :: "u32 \<Rightarrow> tag_array \<Rightarrow> nat \<Rightarrow> tag_array" where
  "clear_step u ta i =
     (let mx = max_seg_idx ta;
          ta1 = set_seg ta i (if mx < u then mx + 1 else u) mx
      in put_block ta1 i ((m_lines ta1 ! i)\<lparr>m_status := INVALID\<rparr>))"

definition shift_lines :: "tag_array \<Rightarrow> nat \<Rightarrow> nat \<Rightarrow> u32 \<Rightarrow> tag_array" where
  "shift_lines ta idx k u0 =
     (let last_way_idx = idx - get_way_idx ta idx;
          r = foldl (shift_step k) (ta, u0) (rev [last_way_idx..<idx - k])
      in foldl (clear_step (snd r)) (fst r) (rev [last_way_idx..<last_way_idx + k]))"

definition fill_compressed :: "tag_array \<Rightarrow> u64 \<Rightarrow> u32 \<Rightarrow> u32 \<Rightarrow> u32 \<Rightarrow> (tag_array \<times> nat) cxx" where
  "fill_compressed ta addr time compressed_data_size compressed =
     (if hpcl_comp_cache_segment_size (g_comp ta) = 0 then Inl Undefined_Behaviour
      else let seg_no = seg_count ta compressed_data_size
       in bindE (probe ta addr 0 (sint seg_no)) (\<lambda>(status, idx, evict_idx).
            assertE (status = MISS)
              (let ta1 = widen_line ta idx evict_idx;
                   start_seg = m_start_seg_idx (m_lines ta1 ! idx)
               in bindE (needed_end start_seg (m_end_seg_idx (m_lines ta1 ! idx)) seg_no) (\<lambda>end_seg.
                    let ta2 = put_block ta1 idx
                          (block_allocate (m_lines ta1 ! idx) (cache_tag (m_config ta) addr)
                             (cache_block_addr (m_config ta) addr) time start_seg end_seg compressed)
                    in if evict_idx = []
                       then bindE (compact_lines ta2 idx (get_way_idx ta idx)) (\<lambda>ta3. Inr (ta3, idx))
                       else Inr (shift_lines ta2 idx (length evict_idx) (end_seg + 1), idx)))))"

definition fill_plain :: "tag_array \<Rightarrow> u64 \<Rightarrow> u32 \<Rightarrow> (tag_array \<times> nat) cxx" where
  "fill_plain ta addr time =
     bindE (probe ta addr 0 0) (\<lambda>(status, idx, _).
       assertE (status = MISS) (Inr (allocate_at ta idx addr time, idx)))"

definition fill_block :: "tag_array \<Rightarrow> nat \<Rightarrow> u32 \<Rightarrow> tag_array cxx" where
  "fill_block ta idx time =
     bindE (get_block ta idx) (\<lambda>b. bindE (block_fill b time) (\<lambda>b'. Inr (put_block ta idx b')))"

definition fill_addr :: "tag_array \<Rightarrow> u64 \<Rightarrow> u32 \<Rightarrow> u32 \<Rightarrow> u32 \<Rightarrow> tag_array cxx" where
  "fill_addr ta addr time compressed_data_size compressed =
     assertE (m_alloc_policy (m_config ta) = ON_FILL)
       (bindE (if hpcl_cache_comp_en (g_comp ta) = 0 \<or> \<not> is_l1_data ta then fill_plain ta addr time
               else fill_compressed ta addr time compressed_data_size compressed)
          (\<lambda>(ta', idx). fill_block ta' idx time))"

definition fill_index :: "tag_array \<Rightarrow> nat \<Rightarrow> u32 \<Rightarrow> tag_array cxx" where
  "fill_index ta index time = assertE (m_alloc_policy (m_config ta) = ON_MISS) (fill_block ta index time)"

definition flush_lines :: "(cache_block \<Rightarrow> cache_block) \<Rightarrow> nat \<Rightarrow> tag_array \<Rightarrow> tag_array cxx" where
  "flush_lines f n ta =
     (if n \<le> length (m_lines ta)
      then Inr (ta\<lparr>m_lines := map f (take n (m_lines ta)) @ drop n (m_lines ta)\<rparr>) else Inl Out_Of_Range)"

definition flush :: "tag_array \<Rightarrow> tag_array cxx" where
  "flush ta =
     bindE (get_num_lines (m_config ta)) (\<lambda>n.
       if is_l1_data ta \<and> hpcl_cache_comp_en (g_comp ta) \<noteq> 0 then
         if hpcl_comp_cache_segment_size (g_comp ta) = 0 then Inl Undefined_Behaviour
         else flush_lines (\<lambda>b. reset_comp_cache_info (b\<lparr>m_status := INVALID\<rparr>) (max_seg_idx ta)) (unat (n * 2)) ta
       else flush_lines (\<lambda>b. b\<lparr>m_status := INVALID\<rparr>) (unat n) ta)"

definition new_window :: "tag_array \<Rightarrow> tag_array" where
  "new_window ta = ta\<lparr>m_prev_snapshot_access := m_access ta, m_prev_snapshot_miss := m_miss ta,
     m_prev_snapshot_pending_hit := m_pending_hit ta\<rparr>"

definition get_stats :: "tag_array \<Rightarrow> u32 \<times> u32 \<times> u32 \<times> u32" where
  "get_stats ta = (m_access ta, m_miss ta, m_pending_hit ta, m_res_fail ta)"

definition get_cache_block_comp_state :: "tag_array \<Rightarrow> nat \<Rightarrow> u32 cxx" where
  "get_cache_block_comp_state ta idx = bindE (get_block ta idx) (\<lambda>b. Inr (m_compressed b))"

end
