(* ===== verification/Tag_Correct.thy ===== *)
theory Tag_Correct
  imports Tag_Array
begin

text \<open>
  Correctness of the lookup in a tag array: what the loop over the ways finds, which line it offers for
  replacement, and the invariant of the plain cache, that no tag occurs twice in a set, with the fate of
  the dirty lines.
\<close>

section \<open>The loop over the ways\<close>

definition matches :: "tag_array \<Rightarrow> u64 \<Rightarrow> nat \<Rightarrow> bool" where
  "matches ta tag i \<longleftrightarrow> m_tag (m_lines ta ! i) = tag \<and> m_status (m_lines ta ! i) \<noteq> INVALID"

abbreviation note_at :: "tag_array \<Rightarrow> int \<Rightarrow> candidates \<Rightarrow> nat \<Rightarrow> candidates cxx" where
  "note_at ta seg_no c i \<equiv>
     note_line (m_replacement_policy (m_config ta)) (is_compressed_cache ta) seg_no i (m_lines ta ! i) c"

lemma probe_loop_hit:
  "probe_loop ta tag seg_no c is = Inr (Inl (st, i)) \<Longrightarrow>
    i \<in> set is \<and> i < length (m_lines ta) \<and> matches ta tag i \<and>
    st = (if m_status (m_lines ta ! i) = RESERVED then HIT_RESERVED else HIT)"
proof (induction "is" arbitrary: c)
  case (Cons j js)
  then show ?case
    by (cases "j < length (m_lines ta)")
      (auto simp: get_block_def matches_def cxx_simps split: if_split_asm)
qed simp

lemma probe_loop_miss:
  "probe_loop ta tag seg_no c is = Inr (Inr c') \<Longrightarrow>
    (\<forall>i \<in> set is. i < length (m_lines ta) \<and> \<not> matches ta tag i) \<and> foldE (note_at ta seg_no) c is = Inr c'"
proof (induction "is" arbitrary: c)
  case (Cons j js)
  then show ?case
    by (cases "j < length (m_lines ta)")
      (auto simp: get_block_def matches_def cxx_simps split: if_split_asm)
qed simp

definition stamp :: "tag_array \<Rightarrow> nat \<Rightarrow> u32" where
  "stamp ta i = (case m_replacement_policy (m_config ta) of
     LRU \<Rightarrow> m_last_access_time (m_lines ta ! i) | FIFO \<Rightarrow> m_alloc_time (m_lines ta ! i))"

definition invalid_at :: "tag_array \<Rightarrow> nat \<Rightarrow> bool" where
  "invalid_at ta i \<longleftrightarrow> m_status (m_lines ta ! i) = INVALID"

definition valid_at :: "tag_array \<Rightarrow> nat \<Rightarrow> bool" where
  "valid_at ta i \<longleftrightarrow> m_status (m_lines ta ! i) \<in> {VALID, MODIFIED}"

text \<open>What the candidates know of the lines seen so far.\<close>

definition last_such :: "nat option \<Rightarrow> nat set \<Rightarrow> (nat \<Rightarrow> bool) \<Rightarrow> bool" where
  "last_such r seen P \<longleftrightarrow> (case r of None \<Rightarrow> \<forall>i \<in> seen. \<not> P i
     | Some i \<Rightarrow> i \<in> seen \<and> P i \<and> (\<forall>j \<in> seen. P j \<longrightarrow> j \<le> i))"

definition some_such :: "nat option \<Rightarrow> nat set \<Rightarrow> (nat \<Rightarrow> bool) \<Rightarrow> bool" where
  "some_such r seen P \<longleftrightarrow> (case r of None \<Rightarrow> True | Some i \<Rightarrow> i \<in> seen \<and> P i)"

definition loose :: "tag_array \<Rightarrow> int \<Rightarrow> nat \<Rightarrow> bool" where
  "loose ta n i \<longleftrightarrow> is_compressed_cache ta \<and> fits (m_lines ta ! i) n"

definition best_such :: "tag_array \<Rightarrow> nat option \<Rightarrow> u32 \<Rightarrow> nat set \<Rightarrow> bool" where
  "best_such ta r t seen \<longleftrightarrow> (case r of
      None \<Rightarrow> t = -1 \<and> (\<forall>i \<in> seen. valid_at ta i \<longrightarrow> stamp ta i = -1)
    | Some v \<Rightarrow> stamp ta v = t \<and> (\<forall>i \<in> seen. valid_at ta i \<longrightarrow> t \<le> stamp ta i))"

definition cand_inv :: "tag_array \<Rightarrow> int \<Rightarrow> nat set \<Rightarrow> candidates \<Rightarrow> bool" where
  "cand_inv ta n seen c \<longleftrightarrow>
     (all_reserved c \<longleftrightarrow> (\<forall>i \<in> seen. m_status (m_lines ta ! i) = RESERVED)) \<and>
     last_such (invalid_line c) seen (\<lambda>i. invalid_at ta i \<and> \<not> loose ta n i) \<and>
     last_such (invalid_line_with_avail_space c) seen (\<lambda>i. invalid_at ta i \<and> loose ta n i) \<and>
     some_such (valid_line c) seen (valid_at ta) \<and>
     some_such (valid_line_with_avail_space c) seen (\<lambda>i. valid_at ta i \<and> loose ta n i) \<and>
     (\<not> is_compressed_cache ta \<longrightarrow> best_such ta (valid_line c) (valid_timestamp c) seen)"

lemma cand_inv_start: "cand_inv ta n {} no_candidates"
  by (simp add: cand_inv_def no_candidates_def last_such_def some_such_def best_such_def)

lemma last_such_hit: "\<forall>s \<in> seen. s < i \<Longrightarrow> P i \<Longrightarrow> last_such (Some i) (insert i seen) P"
  by (auto simp: last_such_def)

lemma last_such_skip: "last_such r seen P \<Longrightarrow> \<not> P i \<Longrightarrow> last_such r (insert i seen) P"
  by (auto simp: last_such_def split: option.splits)

lemma some_such_hit: "P i \<Longrightarrow> some_such (Some i) (insert i seen) P"
  by (simp add: some_such_def)

lemma some_such_skip: "some_such r seen P \<Longrightarrow> some_such r (insert i seen) P"
  by (auto simp: some_such_def split: option.splits)

lemma word_max_le: "(-1 :: 'a::len word) \<le> w \<longleftrightarrow> w = -1"
  by (metis word_n1_ge order_antisym)

lemma best_such_skip: "best_such ta r t seen \<Longrightarrow> \<not> valid_at ta i \<Longrightarrow> best_such ta r t (insert i seen)"
  by (auto simp: best_such_def split: option.splits)

lemma best_such_worse: "best_such ta r t seen \<Longrightarrow> \<not> stamp ta i < t \<Longrightarrow> best_such ta r t (insert i seen)"
  by (auto simp: best_such_def not_less word_max_le split: option.splits)

lemma best_such_better:
  "best_such ta r t seen \<Longrightarrow> stamp ta i < t \<Longrightarrow> best_such ta (Some i) (stamp ta i) (insert i seen)"
  by (auto simp: best_such_def split: option.splits)

lemma note_line_cases:
  assumes e: "note_at ta n c i = Inr c'"
  shows "(m_status (m_lines ta ! i) = RESERVED \<and> c' = c) \<or>
    (invalid_at ta i \<and> loose ta n i \<and>
       c' = c\<lparr>all_reserved := False, invalid_line_with_avail_space := Some i\<rparr>) \<or>
    (invalid_at ta i \<and> \<not> loose ta n i \<and> c' = c\<lparr>all_reserved := False, invalid_line := Some i\<rparr>) \<or>
    (valid_at ta i \<and> \<not> stamp ta i < valid_timestamp c \<and> c' = c\<lparr>all_reserved := False\<rparr>) \<or>
    (valid_at ta i \<and> is_compressed_cache ta \<and> loose ta n i \<and>
       c' = c\<lparr>all_reserved := False, valid_line_with_avail_space := Some i,
              valid_timestamp := m_last_access_time (m_lines ta ! i)\<rparr>) \<or>
    (valid_at ta i \<and> is_compressed_cache ta \<and>
       c' = c\<lparr>all_reserved := False, valid_line := Some i,
              valid_timestamp := m_last_access_time (m_lines ta ! i)\<rparr>) \<or>
    (valid_at ta i \<and> \<not> is_compressed_cache ta \<and> stamp ta i < valid_timestamp c \<and>
       c' = c\<lparr>all_reserved := False, valid_timestamp := stamp ta i, valid_line := Some i\<rparr>)"
proof (cases "m_status (m_lines ta ! i)")
  case INVALID
  then show ?thesis using e
    by (auto simp: note_line_def note_invalid_def assertE_def invalid_at_def loose_def split: if_split_asm)
next
  case RESERVED
  then show ?thesis using e by (simp add: note_line_def)
next
  case VALID
  then show ?thesis using e
    by (simp add: note_line_def note_valid_def assertE_def valid_at_def loose_def Let_def stamp_def split: if_split_asm)
next
  case MODIFIED
  then show ?thesis using e
    by (simp add: note_line_def note_valid_def assertE_def valid_at_def loose_def Let_def stamp_def split: if_split_asm)
qed

lemma note_line_inv:
  assumes inv: "cand_inv ta n seen c" and new: "\<forall>s \<in> seen. s < i" and e: "note_at ta n c i = Inr c'"
  shows "cand_inv ta n (insert i seen) c'"
proof -
  have iv: "\<not> valid_at ta i" "m_status (m_lines ta ! i) \<noteq> RESERVED" if "invalid_at ta i"
    using that by (auto simp: invalid_at_def valid_at_def)
  have vi: "\<not> invalid_at ta i" "m_status (m_lines ta ! i) \<noteq> RESERVED" if "valid_at ta i"
    using that by (auto simp: invalid_at_def valid_at_def)
  have rs: "\<not> invalid_at ta i" "\<not> valid_at ta i" if "m_status (m_lines ta ! i) = RESERVED"
    using that by (auto simp: invalid_at_def valid_at_def)
  note I = inv[unfolded cand_inv_def]
  note such = last_such_skip some_such_skip best_such_skip
  from note_line_cases[OF e] show ?thesis
    unfolding cand_inv_def
  proof (elim disjE conjE, goal_cases)
    case 1
    then show ?case using I rs by (auto intro: such)
  next
    case 2
    then show ?case using I iv by (auto intro: such last_such_hit[OF new])
  next
    case 3
    then show ?case using I iv by (auto intro: such last_such_hit[OF new])
  next
    case 4
    then show ?case using I vi by (auto intro: such best_such_worse)
  next
    case 5
    then show ?case using I vi by (auto intro: such some_such_hit)
  next
    case 6
    then show ?case using I vi by (auto intro: such some_such_hit)
  next
    case 7
    then show ?case using I vi by (auto intro: such some_such_hit best_such_better)
  qed
qed

lemma note_fold_inv:
  "cand_inv ta n seen c \<Longrightarrow> \<forall>s \<in> seen. \<forall>i \<in> set is. s < i \<Longrightarrow> sorted_wrt (<) is \<Longrightarrow>
    foldE (note_at ta n) c is = Inr c' \<Longrightarrow> cand_inv ta n (seen \<union> set is) c'"
proof (induction "is" arbitrary: seen c)
  case (Cons i js)
  obtain d where d: "note_at ta n c i = Inr d" "foldE (note_at ta n) d js = Inr c'"
    using Cons.prems(4) by (auto simp: bindE_Inr_iff)
  have "cand_inv ta n (insert i seen) d" using note_line_inv[OF Cons.prems(1) _ d(1)] Cons.prems(2) by simp
  from Cons.IH[OF this _ _ d(2)] Cons.prems(2,3) show ?case by auto
qed simp

lemma set_lines_sorted: "sorted_wrt (<) (set_lines ta si)"
  unfolding set_lines_def sorted_wrt_map by (rule sorted_wrt_mono_rel[OF _ sorted_wrt_upt]) simp

lemma set_lines_mem:
  assumes "0 < assoc_no ta"
  shows "i \<in> set (set_lines ta si) \<longleftrightarrow> i div assoc_no ta = unat si"
proof
  assume "i div assoc_no ta = unat si"
  then have "i = unat si * assoc_no ta + i mod assoc_no ta" by (metis div_mult_mod_eq)
  moreover have "i mod assoc_no ta \<in> {0..<assoc_no ta}" using assms by simp
  ultimately show "i \<in> set (set_lines ta si)" unfolding set_lines_def set_map set_upt by (rule image_eqI)
next
  assume "i \<in> set (set_lines ta si)"
  then obtain way where "i = unat si * assoc_no ta + way" "way < assoc_no ta"
    unfolding set_lines_def set_map set_upt by (elim imageE) auto
  then show "i div assoc_no ta = unat si" by simp
qed

lemma probe_cases:
  assumes "probe ta addr idx n = Inr (st, j, ev)"
  obtains (Hit) si where "set_index (m_config ta) addr = Inr si" "j \<in> set (set_lines ta si)"
      "j < length (m_lines ta)" "matches ta (cache_tag (m_config ta) addr) j" "ev = []"
      "st = (if m_status (m_lines ta ! j) = RESERVED then HIT_RESERVED else HIT)"
    | (Fail) si where "set_index (m_config ta) addr = Inr si" "st = RESERVATION_FAIL" "j = idx" "ev = []"
      "m_alloc_policy (m_config ta) = ON_MISS"
      "\<forall>i \<in> set (set_lines ta si). i < length (m_lines ta) \<and> m_status (m_lines ta ! i) = RESERVED"
      "\<forall>i \<in> set (set_lines ta si). \<not> matches ta (cache_tag (m_config ta) addr) i"
    | (Miss) si c where "set_index (m_config ta) addr = Inr si" "st = MISS"
      "pick_victim ta n c = Inr (j, ev)" "cand_inv ta n (set (set_lines ta si)) c"
      "\<forall>i \<in> set (set_lines ta si). i < length (m_lines ta) \<and> \<not> matches ta (cache_tag (m_config ta) addr) i"
proof -
  from assms obtain si r where si: "set_index (m_config ta) addr = Inr si"
    and r: "probe_loop ta (cache_tag (m_config ta) addr) n no_candidates (set_lines ta si) = Inr r"
    and k: "(case r of Inl (status, index) \<Rightarrow> Inr (status, index, [])
         | Inr c \<Rightarrow> if all_reserved c
             then assertE (m_alloc_policy (m_config ta) = ON_MISS) (Inr (RESERVATION_FAIL, idx, []))
             else bindE (pick_victim ta n c) (\<lambda>v. Inr (MISS, fst v, snd v))) = Inr (st, j, ev)"
    by (auto simp: probe_def bindE_Inr_iff split: if_split_asm)
  show ?thesis
  proof (cases r)
    case (Inl h)
    then show ?thesis using Hit[OF si] probe_loop_hit[of ta _ n no_candidates "set_lines ta si"] r k
      by (cases h) auto
  next
    case (Inr c)
    note m = probe_loop_miss[OF r[unfolded Inr]]
    have inv: "cand_inv ta n (set (set_lines ta si)) c"
      using note_fold_inv[OF cand_inv_start _ set_lines_sorted conjunct2[OF m]] by simp
    show ?thesis
    proof (cases "all_reserved c")
      case True
      then show ?thesis using Fail[OF si] m inv k Inr by (auto simp: cxx_simps cand_inv_def)
    next
      case False
      then show ?thesis using Miss[OF si _ _ inv] m k Inr by (auto simp: cxx_simps)
    qed
  qed
qed

text \<open>Which line a plain cache gives up.\<close>

definition good_victim :: "tag_array \<Rightarrow> u32 \<Rightarrow> nat \<Rightarrow> bool" where
  "good_victim ta si j \<longleftrightarrow> j \<in> set (set_lines ta si) \<and>
     (invalid_at ta j \<or>
      valid_at ta j \<and> (\<forall>i \<in> set (set_lines ta si). \<not> invalid_at ta i \<and> (valid_at ta i \<longrightarrow> stamp ta j \<le> stamp ta i)))"

lemma pick_plain:
  assumes "\<not> is_compressed_cache ta" and "cand_inv ta n (set (set_lines ta si)) c"
    and "pick_victim ta n c = Inr (j, ev)"
  shows "good_victim ta si j \<and> ev = []"
proof (cases "invalid_line c")
  case (Some i)
  then show ?thesis using assms
    by (auto simp: pick_victim_def good_victim_def cand_inv_def last_such_def loose_def)
next
  case None
  then have "valid_line c = Some j" "ev = []" using assms(1,3) by (auto simp: pick_victim_def split: option.splits)
  then show ?thesis using assms(1,2) None
    by (auto simp: good_victim_def cand_inv_def last_such_def some_such_def best_such_def loose_def)
qed

lemma probe_plain_ok:
  assumes "\<not> is_compressed_cache ta" and p: "probe ta addr idx n = Inr (st, j, ev)"
  shows "\<exists>si. set_index (m_config ta) addr = Inr si \<and> ev = [] \<and>
    (case st of
       HIT \<Rightarrow> j \<in> set (set_lines ta si) \<and> matches ta (cache_tag (m_config ta) addr) j \<and> valid_at ta j
     | HIT_RESERVED \<Rightarrow> j \<in> set (set_lines ta si) \<and> matches ta (cache_tag (m_config ta) addr) j \<and>
         m_status (m_lines ta ! j) = RESERVED
     | MISS \<Rightarrow> good_victim ta si j \<and> (\<forall>i \<in> set (set_lines ta si). \<not> matches ta (cache_tag (m_config ta) addr) i)
     | RESERVATION_FAIL \<Rightarrow> j = idx \<and> (\<forall>i \<in> set (set_lines ta si). m_status (m_lines ta ! i) = RESERVED \<and>
         \<not> matches ta (cache_tag (m_config ta) addr) i)) \<and>
    (st \<noteq> RESERVATION_FAIL \<longrightarrow> j < length (m_lines ta))"
  using p
proof (cases rule: probe_cases)
  case (Hit si)
  then show ?thesis by (cases "m_status (m_lines ta ! j)") (auto simp: matches_def valid_at_def)
next
  case (Fail si)
  then show ?thesis by auto
next
  case (Miss si c)
  from pick_plain[OF assms(1) Miss(4,3)] show ?thesis
    using Miss by (auto simp: good_victim_def)
qed

text \<open>What a lookup in a plain cache reports is true: a hit names a line of the address's set that
  has its tag and is filled, a pending hit one that is reserved for it; on a miss no line of the set
  has the tag, and the line offered is an invalid one if there is any and otherwise the least recently used (or
  oldest) of those that can be replaced; a reservation fails only if every line is reserved.\<close>
theorem probe_correct:
  assumes "\<not> is_compressed_cache ta" and "probe ta addr idx n = Inr (st, j, ev)"
  shows "\<exists>si. set_index (m_config ta) addr = Inr si \<and> ev = [] \<and>
    (case st of
       HIT \<Rightarrow> j \<in> set (set_lines ta si) \<and> matches ta (cache_tag (m_config ta) addr) j \<and> valid_at ta j
     | HIT_RESERVED \<Rightarrow> j \<in> set (set_lines ta si) \<and> matches ta (cache_tag (m_config ta) addr) j \<and>
         m_status (m_lines ta ! j) = RESERVED
     | MISS \<Rightarrow> good_victim ta si j \<and> (\<forall>i \<in> set (set_lines ta si). \<not> matches ta (cache_tag (m_config ta) addr) i)
     | RESERVATION_FAIL \<Rightarrow> j = idx \<and> (\<forall>i \<in> set (set_lines ta si). m_status (m_lines ta ! i) = RESERVED \<and>
         \<not> matches ta (cache_tag (m_config ta) addr) i)) \<and>
    (st \<noteq> RESERVATION_FAIL \<longrightarrow> j < length (m_lines ta))"
  by (rule probe_plain_ok[OF assms])

section \<open>No tag twice in a set\<close>

definition twins :: "tag_array \<Rightarrow> nat \<Rightarrow> nat \<Rightarrow> bool" where
  "twins ta i j \<longleftrightarrow> i \<noteq> j \<and> i div assoc_no ta = j div assoc_no ta \<and> \<not> invalid_at ta i \<and> \<not> invalid_at ta j \<and>
     m_tag (m_lines ta ! i) = m_tag (m_lines ta ! j)"

definition is_plain :: "tag_array \<Rightarrow> bool" where
  "is_plain ta \<longleftrightarrow> hpcl_cache_comp_en (g_comp ta) = 0 \<or> \<not> is_l1_data ta"

lemma is_plain_uncompressed: "is_plain ta \<Longrightarrow> \<not> is_compressed_cache ta"
  by (auto simp: is_plain_def is_compressed_cache_def)

definition plain_ok :: "tag_array \<Rightarrow> bool" where
  "plain_ok ta \<longleftrightarrow> is_plain ta \<and> 0 < assoc_no ta \<and>
     (\<forall>i < length (m_lines ta). \<forall>j < length (m_lines ta). \<not> twins ta i j)"

lemma assoc_no_cong:
  "m_config ta' = m_config ta \<Longrightarrow> g_comp ta' = g_comp ta \<Longrightarrow> m_core_id ta' = m_core_id ta \<Longrightarrow>
   m_type_id ta' = m_type_id ta \<Longrightarrow> normal_cache_id ta' = normal_cache_id ta \<Longrightarrow>
   is_compressed_cache ta' = is_compressed_cache ta \<and> assoc_no ta' = assoc_no ta \<and> comp_assoc ta' = comp_assoc ta \<and>
   max_seg_idx ta' = max_seg_idx ta \<and> is_plain ta' = is_plain ta"
  by (simp add: is_plain_def is_compressed_cache_def assoc_no_def comp_assoc_def is_l1_data_def max_seg_idx_def)

text \<open>\<open>same_array\<close>: only the lines and the counters differ.\<close>

definition same_array :: "tag_array \<Rightarrow> tag_array \<Rightarrow> bool" where
  "same_array ta ta' \<longleftrightarrow> m_config ta' = m_config ta \<and> g_comp ta' = g_comp ta \<and> m_core_id ta' = m_core_id ta \<and>
     m_type_id ta' = m_type_id ta \<and> normal_cache_id ta' = normal_cache_id ta \<and>
     length (m_lines ta') = length (m_lines ta)"

lemma same_arrayD:
  assumes "same_array ta ta'"
  shows "is_compressed_cache ta' = is_compressed_cache ta" and "assoc_no ta' = assoc_no ta"
    and "comp_assoc ta' = comp_assoc ta" and "max_seg_idx ta' = max_seg_idx ta"
    and "length (m_lines ta') = length (m_lines ta)" and "m_config ta' = m_config ta"
    and "is_plain ta' = is_plain ta"
  using assoc_no_cong[of ta' ta] assms by (simp_all add: same_array_def)

lemma same_array_trans: "same_array a b \<Longrightarrow> same_array b c \<Longrightarrow> same_array a c"
  by (simp add: same_array_def)

lemma same_array_put [simp]: "same_array ta (put_block ta i b)"
  by (simp add: same_array_def put_block_def)

lemma put_block_nth:
  "k < length (m_lines ta) \<Longrightarrow> m_lines (put_block ta i b) ! k = (if k = i then b else m_lines ta ! k)"
  by (simp add: put_block_def nth_list_update)

text \<open>A change of one line keeps the invariant if the line stays where it was with its tag, becomes invalid, or
  takes a tag that no other valid line of its set has.\<close>

lemma plain_ok_change:
  assumes ok: "plain_ok ta" and same: "same_array ta ta'" and j: "j < length (m_lines ta)"
    and rest: "\<And>i. i < length (m_lines ta) \<Longrightarrow> i \<noteq> j \<Longrightarrow>
      m_tag (m_lines ta' ! i) = m_tag (m_lines ta ! i) \<and> m_status (m_lines ta' ! i) = m_status (m_lines ta ! i)"
    and new: "invalid_at ta' j \<or> (m_tag (m_lines ta' ! j) = m_tag (m_lines ta ! j) \<and> \<not> invalid_at ta j) \<or>
      (\<forall>i < length (m_lines ta). i div assoc_no ta = j div assoc_no ta \<longrightarrow> i \<noteq> j \<longrightarrow>
         \<not> matches ta (m_tag (m_lines ta' ! j)) i)"
  shows "plain_ok ta'"
proof -
  have tw: "\<not> twins ta' i k" if ik: "i < length (m_lines ta)" "k < length (m_lines ta)" for i k
  proof
    assume t: "twins ta' i k"
    have "\<not> twins ta i k" "\<not> twins ta k i" "\<not> twins ta i j" "\<not> twins ta j k"
      using ok ik j by (auto simp: plain_ok_def)
    with t new rest[OF ik(1)] rest[OF ik(2)] ik show False
      by (cases "i = j"; cases "k = j")
        (auto simp: twins_def invalid_at_def matches_def same_arrayD(2)[OF same])
  qed
  show ?thesis using ok tw same_arrayD[OF same] by (simp add: plain_ok_def)
qed

section \<open>Operations on a tag array\<close>

text \<open>The operations of the caches: \<open>Set_State\<close> is the write of \<open>m_status\<close> through \<open>get_block\<close> after a hit
  (\<open>MODIFIED\<close>, or \<open>INVALID\<close> for a write-evict).\<close>

datatype tag_op =
    Access u64 u32
  | Fill_Addr u64 u32 u32 u32
  | Fill_Index nat u32
  | Set_State nat cache_block_state
  | Flush

definition set_state :: "tag_array \<Rightarrow> nat \<Rightarrow> cache_block_state \<Rightarrow> tag_array cxx" where
  "set_state ta i st =
     bindE (get_block ta i) (\<lambda>b.
       assertE (m_status b \<in> {VALID, MODIFIED} \<and> st \<in> {MODIFIED, INVALID})
         (Inr (put_block ta i (b\<lparr>m_status := st\<rparr>))))"

definition tag_step :: "tag_array \<Rightarrow> tag_op \<Rightarrow> tag_array cxx" where
  "tag_step ta a = (case a of
     Access addr t \<Rightarrow> bindE (access ta addr t 0) (\<lambda>r. Inr (fst r))
   | Fill_Addr addr t n c \<Rightarrow> fill_addr ta addr t n c
   | Fill_Index i t \<Rightarrow> fill_index ta i t
   | Set_State i st \<Rightarrow> set_state ta i st
   | Flush \<Rightarrow> flush ta)"

lemma counters_irrelevant:
  "plain_ok (ta\<lparr>m_access := a\<rparr>) = plain_ok ta" "plain_ok (ta\<lparr>m_miss := a\<rparr>) = plain_ok ta"
  "plain_ok (ta\<lparr>m_pending_hit := a\<rparr>) = plain_ok ta" "plain_ok (ta\<lparr>m_res_fail := a\<rparr>) = plain_ok ta"
  by (simp_all add: plain_ok_def twins_def invalid_at_def assoc_no_def comp_assoc_def is_compressed_cache_def
      is_l1_data_def is_plain_def)

lemma same_array_counters [simp]:
  "same_array ta (ta'\<lparr>m_access := a\<rparr>) = same_array ta ta'" "same_array ta (ta'\<lparr>m_miss := a\<rparr>) = same_array ta ta'"
  "same_array ta (ta'\<lparr>m_pending_hit := a\<rparr>) = same_array ta ta'"
  "same_array ta (ta'\<lparr>m_res_fail := a\<rparr>) = same_array ta ta'" "same_array ta ta"
  by (simp_all add: same_array_def)

lemma same_array_touch [simp]: "same_array ta (touch ta j t)" "same_array ta (allocate_at ta j addr t)"
  by (simp_all add: touch_def allocate_at_def)

lemma touch_ok:
  assumes "plain_ok ta" and "j < length (m_lines ta)"
  shows "plain_ok (touch ta j t)"
proof -
  have n: "m_lines (touch ta j t) ! i = (if i = j then (m_lines ta ! j)\<lparr>m_last_access_time := t\<rparr> else m_lines ta ! i)"
    if "i < length (m_lines ta)" for i using that by (simp add: touch_def put_block_nth)
  have "\<not> invalid_at ta j \<or> invalid_at (touch ta j t) j" using assms(2) by (simp add: invalid_at_def n)
  then show ?thesis using assms by (intro plain_ok_change[OF assms(1) _ assms(2)]) (auto simp: n)
qed

lemma allocate_ok:
  assumes "plain_ok ta" and j: "j < length (m_lines ta)" "j \<in> set (set_lines ta si)"
    and new: "\<forall>i \<in> set (set_lines ta si). \<not> matches ta (cache_tag (m_config ta) addr) i"
  shows "plain_ok (allocate_at ta j addr t)"
proof (rule plain_ok_change[OF assms(1) _ j(1)])
  show "same_array ta (allocate_at ta j addr t)" by (simp add: allocate_at_def)
  have tag: "m_tag (m_lines (allocate_at ta j addr t) ! j) = cache_tag (m_config ta) addr"
    using j by (simp add: allocate_at_def put_block_nth block_allocate_def)
  have "0 < assoc_no ta" using assms(1) by (simp add: plain_ok_def)
  then have "i \<in> set (set_lines ta si)" if "i div assoc_no ta = j div assoc_no ta" for i
    using that j(2) by (simp add: set_lines_mem)
  then show "invalid_at (allocate_at ta j addr t) j \<or> (m_tag (m_lines (allocate_at ta j addr t) ! j) = m_tag (m_lines ta ! j) \<and>
      \<not> invalid_at ta j) \<or> (\<forall>i < length (m_lines ta). i div assoc_no ta = j div assoc_no ta \<longrightarrow> i \<noteq> j \<longrightarrow>
      \<not> matches ta (m_tag (m_lines (allocate_at ta j addr t) ! j)) i)"
    unfolding tag using new by blast
qed (simp add: allocate_at_def put_block_nth)

lemma plain_bumped: "plain_ok ta \<Longrightarrow> \<not> is_compressed_cache (ta\<lparr>m_access := a\<rparr>)"
  by (auto simp: plain_ok_def is_plain_def is_compressed_cache_def is_l1_data_def)

text \<open>The outcome of an access, written over the array whose access counter is already up.\<close>

lemma access_cases:
  assumes "access ta0 addr time idx0 = Inr (ta', st, j, wb)"
  defines "ta \<equiv> ta0\<lparr>m_access := m_access ta0 + 1\<rparr>"
  obtains (Touch) ev where "probe ta addr idx0 0 = Inr (st, j, ev)" "st = HIT \<or> st = HIT_RESERVED" "wb = None"
      "\<exists>p. ta' = (touch ta j time)\<lparr>m_pending_hit := p\<rparr>"
    | (Alloc) ev where "probe ta addr idx0 0 = Inr (st, j, ev)" "st = MISS" "m_alloc_policy (m_config ta) = ON_MISS"
      "ta' = allocate_at (ta\<lparr>m_miss := m_miss ta + 1\<rparr>) j addr time"
      "wb = (if m_status (m_lines ta ! j) = MODIFIED then Some (m_lines ta ! j) else None)"
    | (Count) ev where "probe ta addr idx0 0 = Inr (st, j, ev)" "wb = None"
      "st = MISS \<and> m_alloc_policy (m_config ta) = ON_FILL \<or> st = RESERVATION_FAIL"
      "\<exists>m r. ta' = ta\<lparr>m_miss := m, m_res_fail := r\<rparr>"
proof -
  obtain s k ev where p: "probe ta addr idx0 0 = Inr (s, k, ev)"
    using assms(1) by (auto simp: access_def Let_def bindE_Inr_iff ta_def)
  have u: "(touch ta j time)\<lparr>m_pending_hit := m_pending_hit (touch ta j time)\<rparr> = touch ta j time" by simp
  have w: "ta\<lparr>m_miss := a\<rparr> = ta\<lparr>m_miss := a, m_res_fail := m_res_fail ta\<rparr>"
    "ta\<lparr>m_res_fail := a\<rparr> = ta\<lparr>m_miss := m_miss ta, m_res_fail := a\<rparr>" for a by simp_all
  have acc: "(case s of
      HIT_RESERVED \<Rightarrow> Inr ((touch ta k time)\<lparr>m_pending_hit := m_pending_hit ta + 1\<rparr>, HIT_RESERVED, k, None)
    | HIT \<Rightarrow> Inr (touch ta k time, HIT, k, None)
    | MISS \<Rightarrow> (let ta1 = ta\<lparr>m_miss := m_miss ta + 1\<rparr>
         in if m_alloc_policy (m_config ta) = ON_MISS
            then Inr (allocate_at ta1 k addr time, MISS, k,
                      if m_status (m_lines ta ! k) = MODIFIED then Some (m_lines ta ! k) else None)
            else Inr (ta1, MISS, k, None))
    | RESERVATION_FAIL \<Rightarrow> Inr (ta\<lparr>m_res_fail := m_res_fail ta + 1\<rparr>, RESERVATION_FAIL, k, None)) =
      (Inr (ta', st, j, wb) :: (tag_array \<times> cache_request_status \<times> nat \<times> cache_block option) cxx)"
    using assms(1) p unfolding access_def Let_def ta_def[symmetric] by simp
  show ?thesis
  proof (cases s)
    case HIT
    then have "st = HIT" "k = j" "wb = None" "ta' = touch ta j time" using acc by auto
    then show ?thesis using Touch p HIT u by metis
  next
    case HIT_RESERVED
    then have "st = HIT_RESERVED" "k = j" "wb = None"
      "ta' = (touch ta j time)\<lparr>m_pending_hit := m_pending_hit ta + 1\<rparr>" using acc by auto
    then show ?thesis using Touch p HIT_RESERVED by blast
  next
    case MISS
    show ?thesis
    proof (cases "m_alloc_policy (m_config ta)")
      case ON_MISS
      then have "st = MISS" "k = j" "ta' = allocate_at (ta\<lparr>m_miss := m_miss ta + 1\<rparr>) j addr time"
        "wb = (if m_status (m_lines ta ! j) = MODIFIED then Some (m_lines ta ! j) else None)"
        using acc MISS by (auto simp: Let_def)
      then show ?thesis using Alloc[unfolded ta_def[symmetric]] p MISS ON_MISS by blast
    next
      case ON_FILL
      then have "st = MISS" "k = j" "wb = None" "ta' = ta\<lparr>m_miss := m_miss ta + 1\<rparr>"
        using acc MISS by (auto simp: Let_def)
      then show ?thesis using Count p MISS ON_FILL w(1) by metis
    qed
  next
    case RESERVATION_FAIL
    then have "st = RESERVATION_FAIL" "k = j" "wb = None" "ta' = ta\<lparr>m_res_fail := m_res_fail ta + 1\<rparr>"
      using acc by auto
    then show ?thesis using Count p RESERVATION_FAIL w(2) by metis
  qed
qed

lemma access_plain:
  assumes ok: "plain_ok ta" and a: "access ta addr t idx = Inr (ta', st, j, wb)"
  shows "plain_ok ta' \<and> same_array ta ta'"
proof -
  let ?ta = "ta\<lparr>m_access := m_access ta + 1\<rparr>"
  have ok': "plain_ok ?ta" using ok by (simp add: counters_irrelevant)
  from a show ?thesis
  proof (cases rule: access_cases)
    case (Touch ev)
    from probe_plain_ok[OF plain_bumped[OF ok] Touch(1)] Touch(2) have "j < length (m_lines ?ta)" by auto
    from touch_ok[OF ok' this, of t] Touch(4) show ?thesis
      using same_array_trans[of ta ?ta] by (auto simp: counters_irrelevant)
  next
    case (Alloc ev)
    from probe_plain_ok[OF plain_bumped[OF ok] Alloc(1)] Alloc(2) obtain si where
      si: "j \<in> set (set_lines ?ta si)" "j < length (m_lines ?ta)"
      "\<forall>i \<in> set (set_lines ?ta si). \<not> matches ?ta (cache_tag (m_config ?ta) addr) i"
      by (auto simp: good_victim_def)
    have "plain_ok (allocate_at ?ta j addr t)" by (rule allocate_ok[OF ok' si(2,1,3)])
    moreover have "allocate_at (?ta\<lparr>m_miss := m\<rparr>) j addr t = (allocate_at ?ta j addr t)\<lparr>m_miss := m\<rparr>" for m
      by (simp add: allocate_at_def put_block_def)
    ultimately show ?thesis using Alloc(4) same_array_trans[of ta ?ta] by (simp add: counters_irrelevant)
  next
    case (Count ev)
    then show ?thesis using ok' by (auto simp: counters_irrelevant)
  qed
qed

lemma fill_block_cases:
  assumes "fill_block ta i t = Inr ta'"
  shows "i < length (m_lines ta) \<and> m_status (m_lines ta ! i) = RESERVED \<and>
    ta' = put_block ta i ((m_lines ta ! i)\<lparr>m_status := VALID, m_fill_time := t\<rparr>)"
  using assms by (auto simp: fill_block_def get_block_def block_fill_def cxx_simps split: if_split_asm)

lemma fill_block_plain:
  assumes "plain_ok ta" and "fill_block ta i t = Inr ta'"
  shows "plain_ok ta' \<and> same_array ta ta'"
proof -
  note f = fill_block_cases[OF assms(2)]
  have n: "m_lines ta' ! k = (if k = i then (m_lines ta ! i)\<lparr>m_status := VALID, m_fill_time := t\<rparr> else m_lines ta ! k)"
    if "k < length (m_lines ta)" for k using f that by (simp add: put_block_nth)
  have "plain_ok ta'" using f n by (intro plain_ok_change[OF assms(1), of ta' i]) (auto simp: invalid_at_def)
  then show ?thesis using f by simp
qed

lemma fill_plain_plain:
  assumes ok: "plain_ok ta" and f: "fill_plain ta addr t = Inr (ta', j)"
  shows "plain_ok ta' \<and> same_array ta ta'"
proof -
  obtain ev where p: "probe ta addr 0 0 = Inr (MISS, j, ev)" and ta': "ta' = allocate_at ta j addr t"
    using f by (auto simp: fill_plain_def cxx_simps)
  have "\<not> is_compressed_cache ta" using ok by (simp add: plain_ok_def is_plain_uncompressed)
  from probe_plain_ok[OF this p] obtain si where "j \<in> set (set_lines ta si)" "j < length (m_lines ta)"
    "\<forall>i \<in> set (set_lines ta si). \<not> matches ta (cache_tag (m_config ta) addr) i"
    by (auto simp: good_victim_def)
  from allocate_ok[OF ok this(2,1,3)] show ?thesis by (simp add: ta')
qed

lemma flush_lines_plain:
  assumes ok: "plain_ok ta" and f: "flush_lines f n ta = Inr ta'" and inv: "\<And>b. m_status (f b) = INVALID"
  shows "plain_ok ta' \<and> same_array ta ta'"
proof -
  have n: "n \<le> length (m_lines ta)"
    and ta': "ta' = ta\<lparr>m_lines := map f (take n (m_lines ta)) @ drop n (m_lines ta)\<rparr>"
    using f by (simp_all add: flush_lines_def split: if_split_asm)
  have len: "length (m_lines ta') = length (m_lines ta)" using n by (simp add: ta')
  then have same: "same_array ta ta'" by (simp add: same_array_def ta')
  have nth: "invalid_at ta' i \<or> m_lines ta' ! i = m_lines ta ! i" if "i < length (m_lines ta)" for i
    using that n by (auto simp: ta' invalid_at_def inv nth_append min_absorb2)
  have "\<not> twins ta' i j" if "i < length (m_lines ta)" "j < length (m_lines ta)" for i j
  proof
    assume t: "twins ta' i j"
    then have "m_lines ta' ! i = m_lines ta ! i" "m_lines ta' ! j = m_lines ta ! j"
      using nth[OF that(1)] nth[OF that(2)] by (auto simp: twins_def)
    with t have "twins ta i j" by (simp add: twins_def invalid_at_def same_arrayD(2)[OF same])
    then show False using ok that by (auto simp: plain_ok_def)
  qed
  then show ?thesis using ok same same_arrayD[OF same] by (simp add: plain_ok_def)
qed

lemma set_state_plain:
  assumes "plain_ok ta" and "set_state ta i st = Inr ta'"
  shows "plain_ok ta' \<and> same_array ta ta'"
proof -
  have i: "i < length (m_lines ta)" "m_status (m_lines ta ! i) \<in> {VALID, MODIFIED}"
    and ta': "ta' = put_block ta i ((m_lines ta ! i)\<lparr>m_status := st\<rparr>)"
    using assms(2) by (auto simp: set_state_def get_block_def cxx_simps split: if_split_asm)
  have n: "m_lines ta' ! k = (if k = i then (m_lines ta ! i)\<lparr>m_status := st\<rparr> else m_lines ta ! k)"
    if "k < length (m_lines ta)" for k using ta' that by (simp add: put_block_nth)
  have "plain_ok ta'" using i n ta' by (intro plain_ok_change[OF assms(1), of ta' i]) (auto simp: invalid_at_def)
  then show ?thesis using ta' by simp
qed

lemma tag_step_plain:
  assumes ok: "plain_ok ta" and s: "tag_step ta a = Inr ta'"
  shows "plain_ok ta' \<and> same_array ta ta'"
proof (cases a)
  case (Access addr t)
  then obtain st j wb where "access ta addr t 0 = Inr (ta', st, j, wb)"
    using s by (auto simp: tag_step_def cxx_simps)
  then show ?thesis by (rule access_plain[OF ok])
next
  case (Fill_Addr addr t n c)
  then have "bindE (fill_plain ta addr t) (\<lambda>(ta', idx). fill_block ta' idx t) = Inr ta'"
    using s ok by (auto simp: tag_step_def fill_addr_def plain_ok_def is_plain_def cxx_simps split: if_split_asm)
  then obtain ta1 j where 1: "fill_plain ta addr t = Inr (ta1, j)" "fill_block ta1 j t = Inr ta'"
    by (auto simp: bindE_Inr_iff)
  from fill_plain_plain[OF ok 1(1)] fill_block_plain[of ta1, OF _ 1(2)] show ?thesis
    using same_array_trans by blast
next
  case (Fill_Index i t)
  then show ?thesis using s fill_block_plain[OF ok, of i t] by (simp add: tag_step_def fill_index_def cxx_simps)
next
  case (Set_State i st)
  then show ?thesis using s set_state_plain[OF ok] by (simp add: tag_step_def)
next
  case Flush
  then show ?thesis using s
    by (auto simp: tag_step_def flush_def cxx_simps reset_comp_cache_info_def split: if_split_asm
        elim!: flush_lines_plain[OF ok])
qed

interpretation plain_machine: guarded_machine tag_step "\<lambda>ta. plain_ok ta \<and> same_array ta0 ta" for ta0
  by unfold_locales (use tag_step_plain same_array_trans in blast)

lemma new_tag_array_plain:
  assumes "new_tag_array c g normal core type = Inr ta" and "m_assoc c \<noteq> 0"
    and "hpcl_cache_comp_en g = 0 \<or> core < 0 \<or> type \<noteq> normal"
  shows "plain_ok ta"
proof -
  have ta: "m_config ta = c" "g_comp ta = g" "m_core_id ta = core" "m_type_id ta = type" "normal_cache_id ta = normal"
    and l: "\<forall>b \<in> set (m_lines ta). m_status b = INVALID"
    using assms(1) by (auto simp: new_tag_array_def Let_def cxx_simps new_block_def split: if_split_asm)
  have pl: "is_plain ta" using assms(3) by (auto simp: is_plain_def is_l1_data_def ta)
  moreover have "0 < assoc_no ta"
    using assms(2) is_plain_uncompressed[OF pl] by (simp add: assoc_no_def ta unat_gt_0)
  moreover have "invalid_at ta i" if "i < length (m_lines ta)" for i
    using l that by (simp add: invalid_at_def)
  ultimately show ?thesis by (simp add: plain_ok_def twins_def)
qed

lemma tag_run_ok:
  assumes "new_tag_array c g normal core type = Inr ta0" and "m_assoc c \<noteq> 0"
    and "hpcl_cache_comp_en g = 0 \<or> core < 0 \<or> type \<noteq> normal"
    and "foldE tag_step ta0 ops = Inr ta"
  shows "plain_ok ta" and "same_array ta0 ta"
  using plain_machine.run_inv[of ta0 ta0, OF _ assms(4)] new_tag_array_plain[OF assms(1-3)] by simp_all

text \<open>Claim C11. Whatever a plain cache is asked to do, allocating on a miss or on a fill, with writes, evictions and
  flushes in any order, no two lines of a set ever hold the same tag: an address has at most one line.\<close>
theorem tag_run_unique:
  assumes "new_tag_array c g normal core type = Inr ta0" and "m_assoc c \<noteq> 0"
    and "hpcl_cache_comp_en g = 0 \<or> core < 0 \<or> type \<noteq> normal"
    and "foldE tag_step ta0 ops = Inr ta"
    and "i < length (m_lines ta)" and "j < length (m_lines ta)" and "i div assoc_no ta = j div assoc_no ta"
    and "matches ta tag i" and "matches ta tag j"
  shows "i = j"
proof -
  have "\<not> twins ta i j" using tag_run_ok(1)[OF assms(1-4)] assms(5,6) by (simp add: plain_ok_def)
  then show ?thesis using assms(7-9) by (auto simp: twins_def matches_def invalid_at_def)
qed

section \<open>Dirty lines\<close>

lemma access_dirty_ok:
  assumes a: "access ta addr t idx = Inr (ta', st, j, wb)"
    and i: "i < length (m_lines ta)" and d: "m_status (m_lines ta ! i) = MODIFIED"
  shows "(m_status (m_lines ta' ! i) = MODIFIED \<and> m_tag (m_lines ta' ! i) = m_tag (m_lines ta ! i) \<and>
      m_block_addr (m_lines ta' ! i) = m_block_addr (m_lines ta ! i)) \<or> wb = Some (m_lines ta ! i)"
  using a
proof (cases rule: access_cases)
  case (Touch ev)
  then show ?thesis using i d by (auto simp: touch_def put_block_nth)
next
  case (Alloc ev)
  then show ?thesis using i d by (cases "i = j") (simp_all add: allocate_at_def put_block_nth)
next
  case (Count ev)
  then show ?thesis using d by auto
qed

text \<open>Claim C12. No dirty line is lost by an access: every modified line is still there, modified and with its
  address, or it is the one handed back for writing.\<close>
theorem access_keeps_dirty:
  assumes "access ta addr t idx = Inr (ta', st, j, wb)"
    and "i < length (m_lines ta)" and "m_status (m_lines ta ! i) = MODIFIED"
  shows "(m_status (m_lines ta' ! i) = MODIFIED \<and> m_tag (m_lines ta' ! i) = m_tag (m_lines ta ! i) \<and>
      m_block_addr (m_lines ta' ! i) = m_block_addr (m_lines ta ! i)) \<or> wb = Some (m_lines ta ! i)"
  by (rule access_dirty_ok[OF assms])

text \<open>A small write-back cache: two sets of two lines of 128 bytes.\<close>

definition demo_cache :: "allocation_policy_t \<Rightarrow> write_policy_t \<Rightarrow> tag_array" where
  "demo_cache ap wp = \<lparr>m_config = (new_cache_config L1D_Config)\<lparr>m_valid_config := True, m_nset := 2,
       m_line_sz := 128, m_assoc := 2, m_line_sz_log2 := 7, m_alloc_policy := ap, m_write_policy := wp\<rparr>,
     g_comp = \<lparr>hpcl_cache_comp_en = 0, hpcl_comp_tag_size_multiplier = 2, hpcl_comp_cache_segment_size = 8\<rparr>,
     normal_cache_id = 0, m_core_id = 0, m_type_id = 0, m_lines = replicate 16 new_block, m_access = 0, m_miss = 0,
     m_pending_hit = 0, m_res_fail = 0, m_prev_snapshot_access = 0, m_prev_snapshot_miss = 0,
     m_prev_snapshot_pending_hit = 0\<rparr>"

definition demo_ops :: "tag_op list" where
  "demo_ops = [Access 0x100 1, Fill_Index 1 2, Set_State 1 MODIFIED, Access 0x200 3, Fill_Index 0 4, Access 0x300 5]"

lemma demo_new: "new_tag_array (m_config (demo_cache ap wp)) (g_comp (demo_cache ap wp)) 0 0 0 = Inr (demo_cache ap wp)"
  by (simp add: new_tag_array_def demo_cache_def get_num_lines_def is_l1_data_def new_cache_config_def
      MAX_DEFAULT_CACHE_SIZE_MULTIBLIER_def)

lemma demo_run_ok: "okE (foldE tag_step (demo_cache ON_MISS WRITE_BACK) demo_ops)"
  by code_simp

lemma probe_correct_witness:
  "probe (demo_cache ON_MISS WRITE_BACK) 0x100 0 0 = Inr (MISS, 1, []) \<and>
   good_victim (demo_cache ON_MISS WRITE_BACK) 0 1"
proof -
  have p: "probe (demo_cache ON_MISS WRITE_BACK) 0x100 0 0 = Inr (MISS, 1, [])" by code_simp
  have "\<not> is_compressed_cache (demo_cache ON_MISS WRITE_BACK)" by code_simp
  moreover have "set_index (m_config (demo_cache ON_MISS WRITE_BACK)) 0x100 = Inr 0" by code_simp
  ultimately show ?thesis using p probe_correct[OF _ p] by auto
qed

lemma tag_run_unique_witness:
  "\<exists>ta. foldE tag_step (demo_cache ON_MISS WRITE_BACK) demo_ops = Inr ta \<and>
    (\<forall>i < 2. \<forall>j < 2. matches ta 0x300 i \<longrightarrow> matches ta 0x300 j \<longrightarrow> i = j)"
proof -
  obtain ta where ta: "foldE tag_step (demo_cache ON_MISS WRITE_BACK) demo_ops = Inr ta"
    using demo_run_ok by (auto simp: okE_iff)
  have a: "m_assoc (m_config (demo_cache ON_MISS WRITE_BACK)) \<noteq> 0"
    "hpcl_cache_comp_en (g_comp (demo_cache ON_MISS WRITE_BACK)) = 0" by (simp_all add: demo_cache_def)
  have "same_array (demo_cache ON_MISS WRITE_BACK) ta"
    by (rule tag_run_ok(2)[OF demo_new a(1) _ ta]) (use a(2) in simp)
  then have l: "length (m_lines ta) = 16" "assoc_no ta = 2"
    by (simp_all add: same_arrayD) (simp_all add: demo_cache_def assoc_no_def is_compressed_cache_def)
  have "i = j" if "i < 2" "j < 2" "matches ta 0x300 i" "matches ta 0x300 j" for i j
    by (rule tag_run_unique[OF demo_new a(1) _ ta _ _ _ that(3,4)]) (use a that l in auto)
  with ta show ?thesis by blast
qed

definition demo_dirty :: tag_array where
  "demo_dirty = put_block (put_block (demo_cache ON_MISS WRITE_BACK) 0
     ((block_allocate new_block 0x100 0x100 1 0 0 0)\<lparr>m_status := MODIFIED\<rparr>)) 1
     ((block_allocate new_block 0x200 0x200 2 0 0 0)\<lparr>m_status := VALID\<rparr>)"

lemma access_keeps_dirty_witness:
  "\<exists>ta' st j wb. access demo_dirty 0x300 5 0 = Inr (ta', st, j, wb) \<and> m_status (m_lines demo_dirty ! 0) = MODIFIED \<and>
    (m_status (m_lines ta' ! 0) = MODIFIED \<or> wb = Some (m_lines demo_dirty ! 0))"
proof -
  have "okE (access demo_dirty 0x300 5 0)" by code_simp
  then obtain ta' st j wb where a: "access demo_dirty 0x300 5 0 = Inr (ta', st, j, wb)" by (auto simp: okE_iff)
  have d: "0 < length (m_lines demo_dirty)" "m_status (m_lines demo_dirty ! 0) = MODIFIED" by code_simp+
  show ?thesis using access_keeps_dirty[OF a d] a d(2) by blast
qed

definition holds :: "tag_array cxx \<Rightarrow> (cache_block \<Rightarrow> bool) \<Rightarrow> bool" where
  "holds r P \<longleftrightarrow> (case r of Inl _ \<Rightarrow> False | Inr ta \<Rightarrow> list_all P (m_lines ta))"

text \<open>Allocation on fill has no write-back path: \<open>init\<close> rejects it with write-back, but accepts it with
  \<open>LOCAL_WB_GLOBAL_WT\<close>, whose local writes are write-back too.  There a fill drops a modified line: after these
  steps the line is in no line of the cache, and no step handed it back.\<close>
theorem fill_drops_dirty:
  "okE (cache_config_init (new_cache_config L1D_Config) (Tokens (demo_fields\<lparr>t_wp := CHR ''L''\<rparr>))) \<and>
   holds (foldE tag_step (demo_cache ON_FILL LOCAL_WB_GLOBAL_WT)
       [Fill_Addr 0x100 1 0 0, Fill_Addr 0x200 2 0 0, Set_State 1 MODIFIED])
     (\<lambda>b. m_status b = MODIFIED \<longleftrightarrow> m_tag b = 0x100) \<and>
   holds (foldE tag_step (demo_cache ON_FILL LOCAL_WB_GLOBAL_WT)
       [Fill_Addr 0x100 1 0 0, Fill_Addr 0x200 2 0 0, Set_State 1 MODIFIED, Fill_Addr 0x300 3 0 0])
     (\<lambda>b. m_status b \<noteq> MODIFIED \<and> m_tag b \<noteq> 0x100)"
  by code_simp

end
