(* ===== verification/Tag_Layout.thy ===== *)
theory Tag_Layout
  imports Tag_Correct
begin

text \<open>
  The segments of the compressed L1 data cache.  The ways of a set share one data array of \<open>max_seg_idx + 1\<close>
  segments; every tag names a range of them.  The lemmas show that filling, with its evictions, compactions and
  shifts, keeps the ranges in order, so that no two lines that hold data share a segment.
\<close>

section \<open>The order of the ranges\<close>

definition seg_ok :: "u32 \<Rightarrow> cache_block \<Rightarrow> bool" where
  "seg_ok mx b \<longleftrightarrow> unat (m_start_seg_idx b) \<le> unat (m_end_seg_idx b) + 1 \<and> unat (m_end_seg_idx b) \<le> unat mx"

text \<open>\<open>linked\<close>: the next lower way begins where the higher one ends; past the last segment it is empty, or both
  are free tags of the same remaining segments.\<close>

definition linked :: "u32 \<Rightarrow> cache_block \<Rightarrow> cache_block \<Rightarrow> bool" where
  "linked mx a b \<longleftrightarrow>
     (if m_end_seg_idx a = mx
      then m_end_seg_idx b = mx \<and> (m_start_seg_idx b = mx + 1 \<or>
             m_status a = INVALID \<and> m_status b = INVALID \<and> m_start_seg_idx b = m_start_seg_idx a)
      else m_start_seg_idx b = m_end_seg_idx a + 1)"

abbreviation line :: "tag_array \<Rightarrow> nat \<Rightarrow> cache_block" where
  "line ta i \<equiv> m_lines ta ! i"

definition layout :: "tag_array \<Rightarrow> bool" where
  "layout ta \<longleftrightarrow> (\<forall>i < length (m_lines ta). seg_ok (max_seg_idx ta) (line ta i) \<and>
     (i + 1 < length (m_lines ta) \<and> (i + 1) div comp_assoc ta = i div comp_assoc ta \<longrightarrow>
        linked (max_seg_idx ta) (line ta (i + 1)) (line ta i)))"

definition chain :: "u32 \<Rightarrow> (nat \<Rightarrow> cache_block) \<Rightarrow> nat \<Rightarrow> nat \<Rightarrow> bool" where
  "chain mx f lo hi \<longleftrightarrow> (\<forall>w. lo \<le> w \<and> w \<le> hi \<longrightarrow> seg_ok mx (f w) \<and> (w < hi \<longrightarrow> linked mx (f (w + 1)) (f w)))"

lemma chain_single: "chain mx f i i \<longleftrightarrow> seg_ok mx (f i)"
  by (auto simp: chain_def)

lemma chainD:
  "chain mx f lo hi \<Longrightarrow> lo \<le> w \<Longrightarrow> w \<le> hi \<Longrightarrow> seg_ok mx (f w)"
  "chain mx f lo hi \<Longrightarrow> lo \<le> w \<Longrightarrow> w < hi \<Longrightarrow> linked mx (f (Suc w)) (f w)"
  by (auto simp: chain_def)

lemma chain_extend:
  assumes "chain mx f (Suc j) hi" and "j < hi" and "seg_ok mx (f j)" and "linked mx (f (Suc j)) (f j)"
  shows "chain mx f j hi"
  unfolding chain_def
proof (intro allI impI)
  fix w assume "j \<le> w \<and> w \<le> hi"
  then show "seg_ok mx (f w) \<and> (w < hi \<longrightarrow> linked mx (f (w + 1)) (f w))"
    using assms by (cases "w = j") (auto simp: chain_def)
qed

lemma chain_cong: "chain mx f lo hi \<Longrightarrow> (\<And>w. lo \<le> w \<Longrightarrow> w \<le> hi \<Longrightarrow> g w = f w) \<Longrightarrow> chain mx g lo hi"
  unfolding chain_def by (metis Suc_eq_plus1 Suc_leI le_SucI)

text \<open>Disjointness: below a line that holds data, every range starts after its end.\<close>

lemma chain_after:
  assumes "chain mx f lo hi" and "m_status (f hi) \<noteq> INVALID" and "lo \<le> w" and "w < hi" and "unat mx + 1 < 2 ^ 32"
  shows "unat (m_end_seg_idx (f hi)) < unat (m_start_seg_idx (f w))"
  using assms(3,4)
proof (induction "hi - w" arbitrary: w rule: less_induct)
  case less
  have l: "linked mx (f (w + 1)) (f w)" and s: "seg_ok mx (f (w + 1))" and h: "seg_ok mx (f hi)"
    using assms(1) less.prems by (simp_all add: chain_def)
  have m1: "unat (mx + 1) = unat mx + 1" using assms(5) by (simp add: unat_word_ariths)
  show ?case
  proof (cases "w + 1 = hi")
    case True
    show ?thesis
    proof (cases "m_end_seg_idx (f hi) = mx")
      case e: True
      then show ?thesis using l True assms(2) m1 by (simp add: linked_def)
    next
      case e: False
      then have "unat (m_end_seg_idx (f hi)) < unat mx" using h
        by (metis le_neq_implies_less seg_ok_def word_unat_eq_iff)
      then show ?thesis using e l True assms(5) by (simp add: linked_def unat_word_ariths)
    qed
  next
    case False
    then have ih: "unat (m_end_seg_idx (f hi)) < unat (m_start_seg_idx (f (w + 1)))"
      using less.hyps[of "w + 1"] less.prems by auto
    show ?thesis
    proof (cases "m_end_seg_idx (f (w + 1)) = mx")
      case True
      then show ?thesis using l ih h m1 by (auto simp: linked_def seg_ok_def)
    next
      case e: False
      then have "unat (m_end_seg_idx (f (w + 1))) < unat mx" using s
        by (metis le_neq_implies_less seg_ok_def word_unat_eq_iff)
      then show ?thesis using e l ih s assms(5) by (simp add: linked_def unat_word_ariths seg_ok_def)
    qed
  qed
qed

lemma end_less: "m_end_seg_idx a \<noteq> mx \<Longrightarrow> seg_ok mx a \<Longrightarrow> unat (m_end_seg_idx a) < unat mx"
  by (metis le_neq_implies_less seg_ok_def word_unat_eq_iff)

lemma unat_plus1:
  assumes "m_end_seg_idx a \<noteq> mx" and "seg_ok mx a"
  shows "unat (m_end_seg_idx a + 1) = unat (m_end_seg_idx a) + 1"
proof -
  have "unat mx < 2 ^ LENGTH(32)" by (rule unsigned_less)
  then show ?thesis using end_less[OF assms] by (simp add: unat_word_ariths)
qed

lemma unat_back:
  fixes s st e :: u32
  assumes "unat s \<le> unat st" and "unat st \<le> unat e + 1" and "0 < unat s"
  shows "unat (s + (e - st)) = unat e - (unat st - unat s)"
proof -
  have d: "unat (st - s) = unat st - unat s" using assms(1) by (simp add: unat_sub word_le_nat_alt)
  have "st - s \<le> e" unfolding word_le_nat_alt d using assms by linarith
  then have "unat (e - (st - s)) = unat e - (unat st - unat s)" by (simp add: unat_sub d)
  moreover have "s + (e - st) = e - (st - s)" by simp
  ultimately show ?thesis by (simp only:)
qed

section \<open>Compaction\<close>

text \<open>The segments of the next lower line \<open>b\<close> once the line above it has become \<open>a'\<close>.\<close>

definition compacted :: "u32 \<Rightarrow> cache_block \<Rightarrow> cache_block \<Rightarrow> cache_block" where
  "compacted mx a' b =
     (if m_end_seg_idx a' = mx then b\<lparr>m_start_seg_idx := mx + 1\<rparr>
      else b\<lparr>m_start_seg_idx := m_end_seg_idx a' + 1,
             m_end_seg_idx := (if m_end_seg_idx b = mx then m_end_seg_idx b
                else m_end_seg_idx a' + 1 + (m_end_seg_idx b - m_start_seg_idx b))\<rparr>)"

lemma compacted_ok:
  assumes a: "seg_ok mx a" and b: "seg_ok mx b" and ab: "linked mx a b" and a': "seg_ok mx a'"
    and le: "unat (m_end_seg_idx a') \<le> unat (m_end_seg_idx a)" and mx: "unat mx + 1 < 2 ^ 31"
  shows "seg_ok mx (compacted mx a' b) \<and> linked mx a' (compacted mx a' b) \<and>
    unat (m_end_seg_idx (compacted mx a' b)) \<le> unat (m_end_seg_idx b) \<and>
    (m_end_seg_idx a' = mx \<longrightarrow> m_end_seg_idx b = mx)"
proof (cases "m_end_seg_idx a' = mx")
  case True
  then have "unat (m_end_seg_idx a) = unat mx" using le a by (simp add: seg_ok_def)
  then have "m_end_seg_idx b = mx" using ab by (simp add: linked_def word_unat_eq_iff)
  then show ?thesis using True mx by (simp add: compacted_def seg_ok_def linked_def unat_word_ariths)
next
  case False
  have s: "unat (m_end_seg_idx a' + 1) = unat (m_end_seg_idx a') + 1" by (rule unat_plus1[OF False a'])
  show ?thesis
  proof (cases "m_end_seg_idx b = mx")
    case True
    then show ?thesis using False s end_less[OF False a'] by (simp add: compacted_def seg_ok_def linked_def)
  next
    case nb: False
    have na: "m_end_seg_idx a \<noteq> mx" using ab nb by (auto simp: linked_def split: if_split_asm)
    then have st: "unat (m_start_seg_idx b) = unat (m_end_seg_idx a) + 1"
      using ab unat_plus1[OF na a] by (simp add: linked_def)
    have "unat (m_end_seg_idx a' + 1 + (m_end_seg_idx b - m_start_seg_idx b)) =
        unat (m_end_seg_idx b) - (unat (m_start_seg_idx b) - unat (m_end_seg_idx a' + 1))"
      using st s le b by (intro unat_back) (simp_all add: seg_ok_def)
    then show ?thesis using False nb s st le b by (simp add: compacted_def seg_ok_def linked_def) arith
  qed
qed

lemma compact_step_eq:
  assumes "compact_step ta j = Inr ta'" and "j < length (m_lines ta)"
  shows "same_array ta ta'" and "\<And>w. w < length (m_lines ta) \<Longrightarrow> w \<noteq> j \<Longrightarrow> line ta' w = line ta w"
    and "line ta' j = compacted (max_seg_idx ta) (line ta (j + 1)) (line ta j)"
  using assms
  by (auto simp: compact_step_def Let_def cxx_simps set_seg_def put_block_nth compacted_def split: if_split_asm)

text \<open>After \<open>t\<close> steps below \<open>idx\<close> the lines from \<open>idx - t\<close> up are in order, those below untouched.\<close>

definition same_start :: "tag_array \<Rightarrow> tag_array \<Rightarrow> nat \<Rightarrow> bool" where
  "same_start ta ta' j \<longleftrightarrow> unat (m_end_seg_idx (line ta' j)) \<le> unat (m_end_seg_idx (line ta j))"

lemma compact_run:
  assumes old: "chain (max_seg_idx ta0) (line ta0) (idx - way) idx"
    and mx: "unat (max_seg_idx ta0) + 1 < 2 ^ 31" and idx: "idx < length (m_lines ta0)" "way \<le> idx"
    and same: "same_array ta0 ta" and eq: "\<And>w. w < length (m_lines ta0) \<Longrightarrow> w \<noteq> idx \<Longrightarrow> line ta w = line ta0 w"
    and top: "seg_ok (max_seg_idx ta0) (line ta idx)" "0 < way \<Longrightarrow> same_start ta0 ta idx"
  shows "t \<le> way \<Longrightarrow> foldE compact_step ta (map (\<lambda>i. idx - i) [1..<t + 1]) = Inr ta' \<Longrightarrow>
    same_array ta0 ta' \<and> chain (max_seg_idx ta0) (line ta') (idx - t) idx \<and> line ta' idx = line ta idx \<and>
    (\<forall>w < length (m_lines ta0). w < idx - t \<or> idx < w \<longrightarrow> line ta' w = line ta0 w) \<and>
    (0 < way \<longrightarrow> same_start ta0 ta' (idx - t))"
proof (induction t arbitrary: ta')
  case 0
  then show ?case using same eq top by (simp add: chain_single)
next
  case (Suc t)
  let ?mx = "max_seg_idx ta0" and ?j = "idx - Suc t"
  have "[1..<Suc t + 1] = [1..<t + 1] @ [Suc t]" by simp
  then obtain u where u: "foldE compact_step ta (map (\<lambda>i. idx - i) [1..<t + 1]) = Inr u"
    and st: "compact_step u ?j = Inr ta'"
    using Suc.prems(2) by (auto simp: foldE_append bindE_Inr_iff)
  have ih: "same_array ta0 u" "chain ?mx (line u) (idx - t) idx" "line u idx = line ta idx"
    "\<forall>w < length (m_lines ta0). w < idx - t \<or> idx < w \<longrightarrow> line u w = line ta0 w" "same_start ta0 u (idx - t)"
    using Suc.IH[OF _ u] Suc.prems(1) by auto
  have j: "Suc ?j = idx - t" "?j < length (m_lines u)" "?j < idx" "idx - way \<le> ?j"
    using Suc.prems(1) idx same_arrayD(5)[OF ih(1)] by auto
  note c = compact_step_eq[OF st j(2)]
  have b: "line u ?j = line ta0 ?j" using ih(4) j idx by auto
  have new: "line ta' ?j = compacted ?mx (line u (Suc ?j)) (line ta0 ?j)"
    using c(3) b same_arrayD(4)[OF ih(1)] by simp
  have "seg_ok ?mx (line u (Suc ?j))" using ih(2) j by (simp add: chain_def)
  moreover have "seg_ok ?mx (line ta0 (Suc ?j)) \<and> seg_ok ?mx (line ta0 ?j) \<and> linked ?mx (line ta0 (Suc ?j)) (line ta0 ?j)"
    using chainD(1)[OF old j(4)] chainD(1)[OF old, of "Suc ?j"] chainD(2)[OF old j(4) j(3)] j(3,4) by auto
  ultimately have ok: "seg_ok ?mx (line ta' ?j)" "linked ?mx (line u (Suc ?j)) (line ta' ?j)"
    "unat (m_end_seg_idx (line ta' ?j)) \<le> unat (m_end_seg_idx (line ta0 ?j))"
    unfolding new using compacted_ok[OF _ _ _ _ _ mx] ih(5)[unfolded same_start_def] j(1) by auto
  have up: "line ta' w = line u w" if "?j < w" "w < length (m_lines u)" for w using c(2)[of w] that by auto
  have "chain ?mx (line ta') (Suc ?j) idx"
    by (rule chain_cong[OF ih(2)[folded j(1)]]) (use up idx same_arrayD(5)[OF ih(1)] in auto)
  then have "chain ?mx (line ta') ?j idx"
    by (rule chain_extend[where f = "line ta'", OF _ j(3) ok(1)]) (use ok(2) up j idx same_arrayD(5)[OF ih(1)] in auto)
  moreover have "line ta' idx = line ta idx" using up j idx ih(3) same_arrayD(5)[OF ih(1)] by auto
  moreover have "line ta' w = line ta0 w" if "w < length (m_lines ta0)" "w < ?j \<or> idx < w" for w
    using c(2)[of w] ih(4) that j same_arrayD(5)[OF ih(1)] by auto
  ultimately show ?case
    using same_array_trans[OF ih(1) c(1)] ok(3) by (simp add: same_start_def)
qed

section \<open>Shifting\<close>

text \<open>\<open>next_seg\<close>: \<open>u\<close> is where the line below \<open>b\<close> has to start, past the last segment if there is none left.\<close>

definition next_seg :: "u32 \<Rightarrow> cache_block \<Rightarrow> u32 \<Rightarrow> bool" where
  "next_seg mx b u \<longleftrightarrow>
     (if mx < u then m_end_seg_idx b = mx else m_end_seg_idx b \<noteq> mx \<and> u = m_end_seg_idx b + 1)"

definition shifted :: "u32 \<Rightarrow> u32 \<Rightarrow> cache_block \<Rightarrow> cache_block \<times> u32" where
  "shifted mx u b =
     (if mx < u then (b\<lparr>m_start_seg_idx := mx + 1, m_end_seg_idx := mx\<rparr>, u)
      else let u' = u + (m_end_seg_idx b - m_start_seg_idx b)
           in if mx < u' then (b\<lparr>m_start_seg_idx := u, m_end_seg_idx := mx\<rparr>, u')
              else (b\<lparr>m_start_seg_idx := u, m_end_seg_idx := u'\<rparr>, u' + 1))"

lemma next_seg_start:
  assumes "seg_ok mx a" and mx: "unat mx + 1 < 2 ^ 31"
  shows "next_seg mx a (m_end_seg_idx a + 1)"
proof (cases "m_end_seg_idx a = mx")
  case True
  have "mx < mx + 1" using mx by (simp add: word_less_nat_alt unat_word_ariths)
  then show ?thesis using True by (simp add: next_seg_def)
next
  case False
  have "\<not> mx < m_end_seg_idx a + 1"
    using end_less[OF False assms(1)] unat_plus1[OF False assms(1)] by (simp add: word_less_nat_alt)
  then show ?thesis using False by (simp add: next_seg_def)
qed

lemma empty_after: "unat mx + 1 < 2 ^ 31 \<Longrightarrow> unat (mx + 1 :: u32) = unat mx + 1"
  by (simp add: unat_word_ariths)

lemma unat_forward:
  fixes u st e :: u32
  assumes "unat st \<le> unat e + 1" and "0 < unat u" and "unat u + unat e < 2 ^ 32"
  shows "unat (u + (e - st)) + unat st = unat u + unat e"
proof (cases "st \<le> e")
  case True
  then have "unat (e - st) = unat e - unat st" and "unat st \<le> unat e" by (simp_all add: unat_sub word_le_nat_alt)
  then show ?thesis using assms(3) by (simp add: unat_word_ariths)
next
  case False
  then have st: "unat st = unat e + 1" using assms(1) by (simp add: word_le_nat_alt)
  have "unat (e + 1) = unat e + 1" using assms(2,3) by (simp add: unat_word_ariths)
  then have "st = e + 1" using st by (simp add: word_unat_eq_iff)
  then have "u + (e - st) = u - 1" by simp
  moreover have "u \<noteq> 0" using assms(2) by auto
  ultimately show ?thesis using st assms(2) by (simp add: unat_minus_one)
qed

lemma shifted_ok:
  assumes a: "seg_ok mx a" and n: "next_seg mx a u" and b: "seg_ok mx b" and mx: "unat mx + 1 < 2 ^ 31"
  shows "seg_ok mx (fst (shifted mx u b)) \<and> linked mx a (fst (shifted mx u b)) \<and>
    next_seg mx (fst (shifted mx u b)) (snd (shifted mx u b))"
proof (cases "mx < u")
  case True
  then show ?thesis using n mx
    by (simp add: shifted_def next_seg_def seg_ok_def linked_def empty_after)
next
  case False
  then have na: "m_end_seg_idx a \<noteq> mx" and u: "u = m_end_seg_idx a + 1" using n by (simp_all add: next_seg_def)
  have uu: "unat u = unat (m_end_seg_idx a) + 1" unfolding u by (rule unat_plus1[OF na a])
  have ul: "unat u \<le> unat mx" using False by (simp add: word_le_nat_alt not_less)
  define u' where "u' = u + (m_end_seg_idx b - m_start_seg_idx b)"
  have d: "unat u' + unat (m_start_seg_idx b) = unat u + unat (m_end_seg_idx b)"
    unfolding u'_def using b mx ul uu by (intro unat_forward) (simp_all add: seg_ok_def)
  have eq: "shifted mx u b = (if mx < u' then (b\<lparr>m_start_seg_idx := u, m_end_seg_idx := mx\<rparr>, u')
      else (b\<lparr>m_start_seg_idx := u, m_end_seg_idx := u'\<rparr>, u' + 1))"
    using False by (simp add: shifted_def u'_def Let_def)
  have l: "linked mx a (b\<lparr>m_start_seg_idx := u, m_end_seg_idx := e\<rparr>)" for e using na by (simp add: linked_def u)
  show ?thesis
  proof (cases "mx < u'")
    case True
    then show ?thesis using l ul by (simp add: eq next_seg_def seg_ok_def)
  next
    case in_range: False
    define b' where "b' = b\<lparr>m_start_seg_idx := u, m_end_seg_idx := u'\<rparr>"
    have b': "seg_ok mx b'" using d b in_range by (simp add: b'_def seg_ok_def word_less_nat_alt not_less)
    from next_seg_start[OF this mx] have "next_seg mx b' (u' + 1)" by (simp add: b'_def)
    with b' l[of u'] show ?thesis using in_range by (simp add: eq b'_def)
  qed
qed

lemma block_copy_eq [simp]: "block_copy src dst = src"
  by (simp add: block_copy_def)

lemma shift_step_eq:
  fixes k i u and ta :: tag_array
  assumes "i + k < length (m_lines ta)"
  defines "r \<equiv> shift_step k (ta, u) i"
  shows "same_array ta (fst r)"
    and "w < length (m_lines ta) \<Longrightarrow> w \<noteq> i + k \<Longrightarrow> line (fst r) w = line ta w"
    and "line (fst r) (i + k) = fst (shifted (max_seg_idx ta) u (line ta i))"
    and "snd r = snd (shifted (max_seg_idx ta) u (line ta i))"
proof -
  define ta1 where "ta1 = put_block ta (i + k) (line ta i)"
  have t: "same_array ta ta1" "line ta1 (i + k) = line ta i" "length (m_lines ta1) = length (m_lines ta)"
    using assms(1) by (simp_all add: ta1_def put_block_nth same_arrayD(5)[OF same_array_put])
  define e where "e = m_end_seg_idx (line ta i) - m_start_seg_idx (line ta i)"
  have r: "r = (if max_seg_idx ta < u then (set_seg ta1 (i + k) (max_seg_idx ta + 1) (max_seg_idx ta), u)
      else if max_seg_idx ta < u + e then (set_seg ta1 (i + k) u (max_seg_idx ta), u + e)
      else (set_seg ta1 (i + k) u (u + e), u + e + 1))"
    by (simp add: r_def shift_step_def Let_def ta1_def[symmetric] t(2) e_def)
  have g: "same_array ta (set_seg ta1 (i + k) x y)" for x y
    using same_array_trans[OF t(1)] by (simp add: set_seg_def)
  have n: "w < length (m_lines ta) \<Longrightarrow> line (set_seg ta1 (i + k) x y) w =
      (if w = i + k then (line ta i)\<lparr>m_start_seg_idx := x, m_end_seg_idx := y\<rparr> else line ta w)" for w x y
    using t by (simp add: set_seg_def put_block_nth) (simp add: ta1_def put_block_nth)
  show "same_array ta (fst r)" by (simp add: r g)
  show "w < length (m_lines ta) \<Longrightarrow> w \<noteq> i + k \<Longrightarrow> line (fst r) w = line ta w" by (simp add: r n)
  show "line (fst r) (i + k) = fst (shifted (max_seg_idx ta) u (line ta i))"
    using assms(1) by (simp add: r n shifted_def Let_def e_def)
  show "snd r = snd (shifted (max_seg_idx ta) u (line ta i))" by (simp add: r shifted_def Let_def e_def)
qed

text \<open>Below \<open>hi\<close> the lines \<open>lo..<m\<close> move up by \<open>k\<close>; after the ones from \<open>j\<close> on, those from \<open>j + k\<close> up are in order.\<close>

lemma shift_run:
  assumes oks: "\<And>w. w < length (m_lines ta0) \<Longrightarrow> seg_ok (max_seg_idx ta0) (line ta0 w)"
    and mx: "unat (max_seg_idx ta0) + 1 < 2 ^ 31" and hi: "hi = m + k" "hi < length (m_lines ta0)" "0 < k"
    and start: "same_array ta0 ta" "\<And>w. w < length (m_lines ta0) \<Longrightarrow> w \<noteq> hi \<Longrightarrow> line ta w = line ta0 w"
      "seg_ok (max_seg_idx ta0) (line ta hi)" "next_seg (max_seg_idx ta0) (line ta hi) u"
  shows "n \<le> m \<Longrightarrow> let r = foldl (shift_step k) (ta, u) (rev [m - n..<m]) in
    same_array ta0 (fst r) \<and> chain (max_seg_idx ta0) (line (fst r)) (m - n + k) hi \<and> line (fst r) hi = line ta hi \<and>
    (\<forall>w < length (m_lines ta0). w < m - n + k \<or> hi < w \<longrightarrow> line (fst r) w = line ta0 w) \<and>
    next_seg (max_seg_idx ta0) (line (fst r) (m - n + k)) (snd r)"
proof (induction n)
  case 0
  then show ?case using start hi by (simp add: chain_single)
next
  case (Suc n)
  let ?mx = "max_seg_idx ta0" and ?j = "m - Suc n"
  define r where "r = foldl (shift_step k) (ta, u) (rev [m - n..<m])"
  have j: "Suc ?j = m - n" "Suc ?j + k = m - n + k" "?j < m - n" using Suc.prems by simp_all
  have "[?j..<m] = ?j # [m - n..<m]" using j(1) Suc.prems upt_conv_Cons[of ?j m] by simp
  then have fold: "foldl (shift_step k) (ta, u) (rev [?j..<m]) = shift_step k (fst r, snd r) ?j"
    by (simp add: r_def)
  have ih: "same_array ta0 (fst r)" "chain ?mx (line (fst r)) (m - n + k) hi" "line (fst r) hi = line ta hi"
    "\<forall>w < length (m_lines ta0). w < m - n + k \<or> hi < w \<longrightarrow> line (fst r) w = line ta0 w"
    "next_seg ?mx (line (fst r) (m - n + k)) (snd r)"
    using Suc.IH Suc.prems by (simp_all add: Let_def r_def)
  note len = same_arrayD(5)[OF ih(1)]
  have b: "?j + k < length (m_lines (fst r))" using len hi Suc.prems by linarith
  define q where "q = shift_step k (fst r, snd r) ?j"
  note s = shift_step_eq[OF b, where u = "snd r", folded q_def, unfolded same_arrayD(4)[OF ih(1)]]
  have old: "line (fst r) ?j = line ta0 ?j" using ih(4) j hi Suc.prems by auto
  have "seg_ok ?mx (line (fst r) (m - n + k))" using chainD(1)[OF ih(2)] hi Suc.prems by simp
  from shifted_ok[OF this ih(5) oks[of ?j] mx]
  have ok: "seg_ok ?mx (line (fst q) (?j + k))" "linked ?mx (line (fst r) (m - n + k)) (line (fst q) (?j + k))"
    "next_seg ?mx (line (fst q) (?j + k)) (snd q)"
    using s(3,4) old hi Suc.prems by auto
  have up: "line (fst q) w = line (fst r) w" if "w < length (m_lines ta0)" "w \<noteq> ?j + k" for w
    using s(2)[of w] that len by simp
  have "chain ?mx (line (fst q)) (Suc (?j + k)) hi"
    by (rule chain_cong[OF ih(2)[folded j(2), unfolded add_Suc]]) (use up hi in auto)
  then have "chain ?mx (line (fst q)) (?j + k) hi"
    by (rule chain_extend[where f = "line (fst q)", OF _ _ ok(1)]) (use ok(2) up[of "Suc (?j + k)"] j hi Suc.prems in auto)
  moreover have "line (fst q) hi = line ta hi" using up[of hi] ih(3) hi Suc.prems by auto
  moreover have "line (fst q) w = line ta0 w" if "w < length (m_lines ta0)" "w < ?j + k \<or> hi < w" for w
    using up[of w] ih(4) that j hi Suc.prems by auto
  ultimately show ?case
    using same_array_trans[OF ih(1) s(1)] ok(3) unfolding fold q_def[symmetric] Let_def by blast
qed

lemma clear_step_eq:
  fixes u and ta :: tag_array
  assumes "i < length (m_lines ta)"
  defines "b \<equiv> (line ta i)\<lparr>m_start_seg_idx := (if max_seg_idx ta < u then max_seg_idx ta + 1 else u),
      m_end_seg_idx := max_seg_idx ta, m_status := INVALID\<rparr>"
  shows "same_array ta (clear_step u ta i)" and "line (clear_step u ta i) i = b"
    and "w < length (m_lines ta) \<Longrightarrow> w \<noteq> i \<Longrightarrow> line (clear_step u ta i) w = line ta w"
proof -
  define ta1 where "ta1 = set_seg ta i (if max_seg_idx ta < u then max_seg_idx ta + 1 else u) (max_seg_idx ta)"
  have t: "same_array ta ta1" "length (m_lines ta1) = length (m_lines ta)"
    by (simp_all add: ta1_def set_seg_def same_arrayD(5)[OF same_array_put])
  have n: "w < length (m_lines ta) \<Longrightarrow> line ta1 w = (if w = i then (line ta i)\<lparr>m_start_seg_idx := (if max_seg_idx ta < u then max_seg_idx ta + 1 else u),
      m_end_seg_idx := max_seg_idx ta\<rparr> else line ta w)" for w
    by (simp add: ta1_def set_seg_def put_block_nth)
  have c: "clear_step u ta i = put_block ta1 i ((line ta1 i)\<lparr>m_status := INVALID\<rparr>)"
    by (simp add: clear_step_def Let_def ta1_def)
  show "same_array ta (clear_step u ta i)" unfolding c using same_array_trans[OF t(1)] by simp
  show "line (clear_step u ta i) i = b" unfolding c using assms(1) t(2) by (simp add: put_block_nth n b_def)
  show "w < length (m_lines ta) \<Longrightarrow> w \<noteq> i \<Longrightarrow> line (clear_step u ta i) w = line ta w"
    unfolding c using t(2) by (simp add: put_block_nth n)
qed

definition free_from :: "u32 \<Rightarrow> u32 \<Rightarrow> cache_block \<Rightarrow> bool" where
  "free_from mx u b \<longleftrightarrow> next_seg mx b u \<or>
     \<not> mx < u \<and> m_status b = INVALID \<and> m_start_seg_idx b = u \<and> m_end_seg_idx b = mx"

lemma clear_ok:
  fixes b :: cache_block
  assumes f: "free_from mx u a" and mx: "unat mx + 1 < 2 ^ 31"
  defines "b' \<equiv> b\<lparr>m_start_seg_idx := (if mx < u then mx + 1 else u), m_end_seg_idx := mx, m_status := INVALID\<rparr>"
  shows "seg_ok mx b'" and "linked mx a b'" and "free_from mx u b'"
  using assms
  by (auto simp: free_from_def next_seg_def seg_ok_def linked_def b'_def empty_after word_less_nat_alt)

lemma clear_run:
  assumes mx: "unat (max_seg_idx ta0) + 1 < 2 ^ 31" and hi: "m \<le> hi" "hi < length (m_lines ta0)"
    and start: "same_array ta0 ta" "chain (max_seg_idx ta0) (line ta) m hi" "free_from (max_seg_idx ta0) u (line ta m)"
  shows "n \<le> m \<Longrightarrow> let r = foldl (clear_step u) ta (rev [m - n..<m]) in
    same_array ta0 r \<and> chain (max_seg_idx ta0) (line r) (m - n) hi \<and>
    (\<forall>w < length (m_lines ta0). w < m - n \<or> m \<le> w \<longrightarrow> line r w = line ta w) \<and>
    free_from (max_seg_idx ta0) u (line r (m - n))"
proof (induction n)
  case 0
  then show ?case using start by simp
next
  case (Suc n)
  let ?mx = "max_seg_idx ta0" and ?j = "m - Suc n"
  define r where "r = foldl (clear_step u) ta (rev [m - n..<m])"
  have j: "Suc ?j = m - n" using Suc.prems by simp
  have "[?j..<m] = ?j # [m - n..<m]" using j Suc.prems upt_conv_Cons[of ?j m] by simp
  then have fold: "foldl (clear_step u) ta (rev [?j..<m]) = clear_step u r ?j" by (simp add: r_def)
  have ih: "same_array ta0 r" "chain ?mx (line r) (m - n) hi"
    "\<forall>w < length (m_lines ta0). w < m - n \<or> m \<le> w \<longrightarrow> line r w = line ta w" "free_from ?mx u (line r (m - n))"
    using Suc.IH Suc.prems by (simp_all add: Let_def r_def)
  have b: "?j < length (m_lines r)" using same_arrayD(5)[OF ih(1)] hi Suc.prems by linarith
  note c = clear_step_eq[OF b, where u = u, unfolded same_arrayD(4)[OF ih(1)]]
  note ok = clear_ok[OF ih(4) mx, of "line r ?j", folded c(2)]
  have up: "line (clear_step u r ?j) w = line r w" if "w < length (m_lines ta0)" "w \<noteq> ?j" for w
    using c(3)[of w] that same_arrayD(5)[OF ih(1)] by simp
  have "chain ?mx (line (clear_step u r ?j)) (Suc ?j) hi"
    by (rule chain_cong[OF ih(2)[folded j]]) (use up hi in auto)
  then have "chain ?mx (line (clear_step u r ?j)) ?j hi"
    by (rule chain_extend[where f = "line (clear_step u r ?j)", OF _ _ ok(1)])
      (use ok(2) up[of "Suc ?j"] j hi Suc.prems in auto)
  moreover have "line (clear_step u r ?j) w = line ta w" if "w < length (m_lines ta0)" "w < ?j \<or> m \<le> w" for w
    using up[of w] ih(3) that j Suc.prems by auto
  ultimately show ?case
    using same_array_trans[OF ih(1) c(1)] ok(3) unfolding fold Let_def by blast
qed

section \<open>The lines evicted together\<close>

definition same_set :: "tag_array \<Rightarrow> nat \<Rightarrow> nat \<Rightarrow> bool" where
  "same_set ta i j \<longleftrightarrow> i div comp_assoc ta = j div comp_assoc ta"

definition range_ok :: "tag_array \<Rightarrow> nat \<Rightarrow> evict_state \<Rightarrow> bool" where
  "range_ok ta i s \<longleftrightarrow> ev_min s \<le> i \<and> i \<le> ev_max s \<and> ev_max s < length (m_lines ta) \<and>
     same_set ta (ev_min s) (ev_max s) \<and> ev_lines s = rev [ev_min s..<Suc (ev_max s)]"

lemma insert_evicted_low: "\<forall>x \<in> set xs. e < x \<Longrightarrow> insert_evicted e xs = xs @ [e]"
  by (induction xs) auto

lemma way_succ:
  assumes "0 < A" and "i mod A \<noteq> A - 1"
  shows "(i + 1) div A = i div (A :: nat)"
proof -
  have "i mod A < A" using assms(1) by simp
  then have "i mod A + 1 < A" using assms(2) by linarith
  moreover have "i = A * (i div A) + i mod A" by simp
  ultimately have "A * (i div A) \<le> i + 1" "i + 1 < A * Suc (i div A)" by (simp_all only: mult_Suc_right)
  then show ?thesis by (rule div_nat_eqI)
qed

lemma way_pred:
  assumes "0 < A" and "i mod A \<noteq> 0"
  shows "(i - 1) div A = i div (A :: nat)" and "0 < i"
proof -
  show "0 < i" using assms(2) by (cases i) auto
  then have i: "i = Suc (i - 1)" by simp
  have "(i - 1) mod A \<noteq> A - 1"
  proof
    assume "(i - 1) mod A = A - 1"
    then have "i mod A = 0" using assms(1) by (subst i) (simp add: mod_Suc)
    then show False using assms(2) by simp
  qed
  from way_succ[OF assms(1) this] i show "(i - 1) div A = i div A" by simp
qed

lemma evict_next_same_set:
  assumes "2 \<le> comp_assoc ta" and "evict_next ta s = Inr e" and "same_set ta (ev_min s) (ev_max s)"
  shows "e < length (m_lines ta) \<and> (e = ev_max s + 1 \<and> same_set ta e (ev_max s) \<or>
    Suc e = ev_min s \<and> same_set ta e (ev_min s))"
proof -
  obtain t d d' b l where n: "get_neighbor_idx ta (ev_max s) = Inr (t, d)" "get_neighbor_idx ta (ev_min s) = Inr (d', b)"
    and sel: "select_evict_line_idx ta t b = Inr l" and e: "0 \<le> l" "e = nat l" "e < length (m_lines ta)"
    using assms(2) by (auto simp: evict_next_def cxx_simps split: if_split_asm)
  let ?A = "comp_assoc ta"
  have t: "t = -1 \<or> (t = int (ev_max s) + 1 \<and> (ev_max s + 1) div ?A = ev_max s div ?A)"
    using n(1) assms(1) way_succ[of ?A "ev_max s"]
    by (auto simp: get_neighbor_idx_def cxx_simps Let_def split: if_split_asm)
  have b: "b = -1 \<or> (b = int (ev_min s) - 1 \<and> 0 < ev_min s \<and> (ev_min s - 1) div ?A = ev_min s div ?A)"
    using n(2) assms(1) way_pred[of ?A "ev_min s"]
    by (auto simp: get_neighbor_idx_def cxx_simps Let_def split: if_split_asm)
  have "l = t \<or> l = b \<or> l = -1"
    using sel by (auto simp: select_evict_line_idx_def cxx_simps split: if_split_asm)
  then show ?thesis
  proof (elim disjE)
    assume "l = t"
    then have "l = int (ev_max s) + 1" "(ev_max s + 1) div ?A = ev_max s div ?A" using t e(1) by auto
    then show ?thesis using e by (simp add: same_set_def nat_add_distrib)
  next
    assume "l = b"
    then have "l = int (ev_min s) - 1" "0 < ev_min s" "(ev_min s - 1) div ?A = ev_min s div ?A" using b e(1) by auto
    then have "Suc e = ev_min s" "(ev_min s - 1) div ?A = ev_min s div ?A" "e = ev_min s - 1" using e by simp_all
    then show ?thesis using e(3) by (simp add: same_set_def)
  next
    assume "l = -1"
    then show ?thesis using e(1) by simp
  qed
qed

lemma evict_step_range:
  assumes "2 \<le> comp_assoc ta" and "range_ok ta i s" and "evict_next ta s = Inr e"
  shows "range_ok ta i (evict_line_step ta s e)"
proof -
  note r = assms(2)[unfolded range_ok_def]
  from evict_next_same_set[OF assms(1,3)] r
  have e: "e < length (m_lines ta)" and
    c: "e = ev_max s + 1 \<and> same_set ta e (ev_max s) \<or> Suc e = ev_min s \<and> same_set ta e (ev_min s)" by auto
  from c show ?thesis
  proof (elim disjE conjE)
    assume m: "e = ev_max s + 1" "same_set ta e (ev_max s)"
    have "insert_evicted e (rev [ev_min s..<Suc (ev_max s)]) = rev [ev_min s..<Suc e]" using m(1) r by simp
    then show ?thesis using r m e by (simp add: range_ok_def evict_line_step_def Let_def same_set_def)
  next
    assume m: "Suc e = ev_min s" "same_set ta e (ev_min s)"
    have "insert_evicted e (rev [ev_min s..<Suc (ev_max s)]) = rev [ev_min s..<Suc (ev_max s)] @ [e]"
      using m(1) by (intro insert_evicted_low) auto
    also have "\<dots> = rev [e..<Suc (ev_max s)]" using m(1) r upt_conv_Cons[of e "Suc (ev_max s)"] by auto
    finally show ?thesis using r m e by (auto simp: range_ok_def evict_line_step_def Let_def same_set_def)
  qed
qed

lemma evict_loop_range:
  "2 \<le> comp_assoc ta \<Longrightarrow> range_ok ta i s \<Longrightarrow> evict_loop ta n s = Inr s' \<Longrightarrow> range_ok ta i s'"
proof (induction ta n s rule: evict_loop.induct)
  case (1 ta n s)
  show ?case
  proof (cases "sint (ev_avail s) < n")
    case True
    then obtain e where e: "evict_next ta s = Inr e" "evict_loop ta n (evict_line_step ta s e) = Inr s'"
      using "1.prems"(3) by (subst (asm) evict_loop.simps) (auto split: sum.splits)
    show ?thesis
      by (rule "1.IH"[OF True e(1) "1.prems"(1) evict_step_range[OF "1.prems"(1,2) e(1)] e(2)])
  next
    case False
    then show ?thesis using "1.prems" by (subst (asm) evict_loop.simps) simp
  qed
qed

lemma multi_eviction_range:
  assumes "2 \<le> comp_assoc ta" and "do_multi_line_eviction ta i n = Inr (M, ev)"
  shows "\<exists>m. m \<le> i \<and> i \<le> M \<and> M < length (m_lines ta) \<and> same_set ta m M \<and> ev = rev [m..<M]"
proof -
  obtain s where i: "i < length (m_lines ta)" and l: "evict_loop ta n
         \<lparr>ev_avail = get_avail_space (line ta i) + tail_space ta i (line ta i), ev_max = i, ev_min = i,
          ev_last_used = (m_end_seg_idx (line ta i) = max_seg_idx ta), ev_lines = [i]\<rparr> = Inr s"
    and s: "M = ev_max s" "ev = remove1 (ev_max s) (ev_lines s)"
    using assms(2) by (auto simp: do_multi_line_eviction_def get_block_def cxx_simps split: if_split_asm)
  have "range_ok ta i s"
    by (rule evict_loop_range[OF assms(1) _ l]) (use i in \<open>simp add: range_ok_def same_set_def\<close>)
  then show ?thesis using s by (auto simp: range_ok_def)
qed

section \<open>Filling\<close>

definition top_free :: "tag_array \<Rightarrow> nat \<Rightarrow> bool" where
  "top_free ta i \<longleftrightarrow> (i + 1 < length (m_lines ta) \<and> same_set ta (i + 1) i \<longrightarrow>
     \<not> (invalid_at ta (i + 1) \<and> invalid_at ta i \<and>
        m_start_seg_idx (line ta i) = m_start_seg_idx (line ta (i + 1)) \<and>
        m_end_seg_idx (line ta i) = m_end_seg_idx (line ta (i + 1))))"

lemma comp_assoc_no: "is_compressed_cache ta \<Longrightarrow> assoc_no ta = comp_assoc ta"
  by (simp add: assoc_no_def)

text \<open>The line offered and the lines evicted with it are neighbours in one set, and no free tag above the line
  shares its segments.\<close>

lemma compressed_victim:
  assumes comp: "is_compressed_cache ta" and A: "2 \<le> comp_assoc ta" and p: "probe ta addr idx0 n = Inr (MISS, idx, ev)"
  shows "\<exists>m. m \<le> idx \<and> idx < length (m_lines ta) \<and> same_set ta m idx \<and> ev = rev [m..<idx] \<and> top_free ta idx"
  using p
proof (cases rule: probe_cases)
  case (Hit si)
  then show ?thesis by (simp split: if_split_asm)
next
  case (Fail si)
  then show ?thesis by simp
next
  case (Miss si c)
  have mem: "i \<in> set (set_lines ta si) \<longleftrightarrow> i div comp_assoc ta = unat si" for i
    using set_lines_mem[of ta i si] A comp_assoc_no[OF comp] by simp
  note I = Miss(4)[unfolded cand_inv_def]
  have upper: "idx + 1 \<in> set (set_lines ta si)" if "same_set ta (idx + 1) idx" "idx \<in> set (set_lines ta si)"
    using that by (simp add: mem same_set_def)
  have multi: "\<exists>m. m \<le> idx \<and> idx < length (m_lines ta) \<and> same_set ta m idx \<and> ev = rev [m..<idx] \<and> top_free ta idx"
    if i: "i \<in> set (set_lines ta si)" "do_multi_line_eviction ta i n = Inr (idx, ev)"
      and no: "\<And>j. j \<in> set (set_lines ta si) \<Longrightarrow> i < j \<Longrightarrow> \<not> invalid_at ta j" for i
  proof -
    obtain m where m: "m \<le> i" "i \<le> idx" "idx < length (m_lines ta)" "same_set ta m idx" "ev = rev [m..<idx]"
      using multi_eviction_range[OF A i(2)] by blast
    have "m div comp_assoc ta \<le> i div comp_assoc ta" "i div comp_assoc ta \<le> idx div comp_assoc ta"
      using m by (simp_all add: div_le_mono)
    then have "idx div comp_assoc ta = i div comp_assoc ta" using m(4) by (simp add: same_set_def)
    then have "idx \<in> set (set_lines ta si)" using i(1) by (simp add: mem)
    then have "top_free ta idx" using upper no m(2) by (auto simp: top_free_def)
    moreover have "m \<le> idx" using m(1,2) by simp
    ultimately show ?thesis using m(3-5) by blast
  qed
  have single: "\<exists>m. m \<le> idx \<and> idx < length (m_lines ta) \<and> same_set ta m idx \<and> ev = rev [m..<idx] \<and> top_free ta idx"
    if "idx \<in> set (set_lines ta si)" "ev = []" "top_free ta idx"
    using that Miss(5) by (intro exI[of _ idx]) (simp add: same_set_def)
  show ?thesis
  proof (cases "invalid_line_with_avail_space c")
    case (Some i)
    then have i: "i = idx" "ev = []" using Miss(3) comp by (simp_all add: pick_victim_def)
    then have "idx \<in> set (set_lines ta si)" and last: "\<And>j. j \<in> set (set_lines ta si) \<Longrightarrow> invalid_at ta j \<Longrightarrow>
        loose ta n j \<Longrightarrow> j \<le> idx" and l: "loose ta n idx"
      using I Some by (auto simp: last_such_def)
    moreover have "top_free ta idx"
      unfolding top_free_def
    proof (intro impI notI)
      assume a: "idx + 1 < length (m_lines ta) \<and> same_set ta (idx + 1) idx"
        and s: "invalid_at ta (idx + 1) \<and> invalid_at ta idx \<and>
          m_start_seg_idx (line ta idx) = m_start_seg_idx (line ta (idx + 1)) \<and>
          m_end_seg_idx (line ta idx) = m_end_seg_idx (line ta (idx + 1))"
      then have "get_avail_space (line ta (idx + 1)) = get_avail_space (line ta idx)"
        by (simp only: get_avail_space_def)
      then have "loose ta n (idx + 1)" using l by (simp add: loose_def fits_def)
      then show False using last[of "idx + 1"] upper a s calculation(1) by auto
    qed
    ultimately show ?thesis using single i(2) by blast
  next
    case none: None
    show ?thesis
    proof (cases "valid_line_with_avail_space c")
      case (Some i)
      then have i: "i = idx" "ev = []" using Miss(3) comp none by (simp_all add: pick_victim_def)
      then have "idx \<in> set (set_lines ta si)" "valid_at ta idx" using I Some by (auto simp: some_such_def)
      moreover have "top_free ta idx" using calculation(2) by (auto simp: top_free_def invalid_at_def valid_at_def)
      ultimately show ?thesis using single i(2) by blast
    next
      case nonev: None
      show ?thesis
      proof (cases "invalid_line c")
        case (Some i)
        then have "do_multi_line_eviction ta i n = Inr (idx, ev)"
          using Miss(3) comp none nonev by (simp add: pick_victim_def)
        moreover have "i \<in> set (set_lines ta si)" using I Some by (simp add: last_such_def)
        moreover have "\<not> invalid_at ta j" if "j \<in> set (set_lines ta si)" "i < j" for j
          using that I Some none by (auto simp: last_such_def)
        ultimately show ?thesis using multi by blast
      next
        case nonei: None
        then obtain i where v: "valid_line c = Some i" "do_multi_line_eviction ta i n = Inr (idx, ev)"
          using Miss(3) comp none nonev by (auto simp: pick_victim_def split: option.splits)
        then have "i \<in> set (set_lines ta si)" using I by (simp add: some_such_def)
        moreover have "\<not> invalid_at ta j" if "j \<in> set (set_lines ta si)" for j
          using that I nonei none by (auto simp: last_such_def)
        ultimately show ?thesis using multi v(2) by blast
      qed
    qed
  qed
qed

lemma needed_end_ok:
  assumes "needed_end st e n = Inr e'"
  shows "unat st \<le> unat e' + 1" and "unat e' \<le> unat e" and "st \<le> e"
proof -
  have le: "st \<le> e" "n \<le> e - st + 1" using assms by (simp_all add: needed_end_def assertE_Inr_iff)
  show "st \<le> e" by (rule le(1))
  have r: "e' = (if st + n - 1 < e then st + n - 1 else e)"
    using assms le by (simp add: needed_end_def Let_def assertE_Inr_iff split: if_split_asm)
  have es: "unat (e - st) = unat e - unat st" "unat st \<le> unat e" using le(1) by (simp_all add: unat_sub word_le_nat_alt)
  have "unat st \<le> unat e' + 1 \<and> unat e' \<le> unat e"
  proof (cases "st + n - 1 < e")
    case False
    then show ?thesis using r es(2) by simp
  next
    case True
    have n: "unat n \<le> unat e - unat st + 1"
    proof -
      have "unat n \<le> unat (e - st + 1)" using le(2) by (simp add: word_le_nat_alt)
      also have "\<dots> \<le> unat (e - st) + 1" by (simp add: unat_word_ariths)
      finally show ?thesis by (simp add: es)
    qed
    have "unat e < 2 ^ LENGTH(32)" by (rule unsigned_less)
    then have small: "unat st + unat n \<le> 2 ^ 32" using n es(2) by simp
    show ?thesis
    proof (cases "unat st + unat n = 0")
      case z: True
      then show ?thesis using r True by (simp add: word_less_nat_alt)
    next
      case nz: False
      have "unat (st + n - 1) = unat st + unat n - 1"
      proof (cases "unat st + unat n = 2 ^ 32")
        case True
        then have "st + n = 0" by (simp add: word_unat_eq_iff unat_word_ariths)
        moreover have "unat (-1 :: u32) = 2 ^ 32 - 1"
          by (simp add: unsigned_minus_1_eq_mask mask_eq_exp_minus_1)
        ultimately show ?thesis using True by simp
      next
        case False
        then have "unat (st + n) = unat st + unat n" using small by (simp add: unat_word_ariths)
        moreover from this have "st + n \<noteq> 0" using nz by (metis unsigned_0)
        ultimately show ?thesis by (simp add: unat_minus_one)
      qed
      then show ?thesis using r True nz by (simp add: word_less_nat_alt)
    qed
  qed
  then show "unat st \<le> unat e' + 1" "unat e' \<le> unat e" by auto
qed

lemma widen_eq:
  assumes "idx < length (m_lines ta)"
  shows "same_array ta (widen_line ta idx ev)"
    and "\<And>w. w < length (m_lines ta) \<Longrightarrow> w \<noteq> idx \<Longrightarrow> line (widen_line ta idx ev) w = line ta w"
    and "m_start_seg_idx (line (widen_line ta idx ev) idx) = m_start_seg_idx (line ta idx)"
    and "m_end_seg_idx (line (widen_line ta idx ev) idx) =
      (if ev = [] then (if get_way_idx ta idx = 0 then max_seg_idx ta else m_end_seg_idx (line ta idx))
       else if get_way_idx ta (last ev) = 0 then max_seg_idx ta else m_end_seg_idx (line ta (last ev)))"
  using assms by (auto simp: widen_line_def Let_def set_seg_def put_block_nth)

text \<open>The new line fits between its neighbours above.\<close>

lemma filled_linked:
  assumes lay: "layout ta" and free: "top_free ta idx" and s: "idx + 1 < length (m_lines ta)" "same_set ta (idx + 1) idx"
    and b: "m_start_seg_idx b = m_start_seg_idx (line ta idx)" "m_start_seg_idx b \<le> e" "unat e \<le> unat (max_seg_idx ta)"
    and mx: "unat (max_seg_idx ta) + 1 < 2 ^ 31"
  shows "linked (max_seg_idx ta) (line ta (idx + 1)) b"
proof -
  have l: "linked (max_seg_idx ta) (line ta (idx + 1)) (line ta idx)"
    using lay s by (simp add: layout_def same_set_def)
  have "m_start_seg_idx b \<noteq> max_seg_idx ta + 1"
    using b(2,3) mx empty_after[OF mx] by (auto simp: word_le_nat_alt)
  then have "m_end_seg_idx (line ta (idx + 1)) \<noteq> max_seg_idx ta"
    using l free s b(1) by (auto simp: linked_def top_free_def invalid_at_def)
  then show ?thesis using l b(1) by (simp add: linked_def)
qed

lemma layout_chain:
  assumes "layout ta" and "idx < length (m_lines ta)" and "0 < comp_assoc ta"
  shows "chain (max_seg_idx ta) (line ta) (idx - get_way_idx ta idx) idx"
  unfolding chain_def
proof (intro allI impI)
  fix w assume w: "idx - get_way_idx ta idx \<le> w \<and> w \<le> idx"
  have "idx - get_way_idx ta idx = comp_assoc ta * (idx div comp_assoc ta)"
    by (simp add: get_way_idx_def minus_mod_eq_mult_div)
  then have d: "v div comp_assoc ta = idx div comp_assoc ta" if "idx - get_way_idx ta idx \<le> v" "v \<le> idx" for v
    using that assms(3) by (metis div_le_mono le_antisym nonzero_mult_div_cancel_left not_gr_zero)
  show "seg_ok (max_seg_idx ta) (line ta w) \<and>
    (w < idx \<longrightarrow> linked (max_seg_idx ta) (line ta (w + 1)) (line ta w))"
    using assms(1,2) w d[of w] d[of "w + 1"] by (auto simp: layout_def)
qed

text \<open>A change that keeps the order up to \<open>idx\<close> in its set, and nothing else, keeps the layout.\<close>

lemma layout_change:
  assumes lay: "layout ta" and same: "same_array ta ta'" and idx: "idx < length (m_lines ta)" and A: "0 < comp_assoc ta"
    and ch: "chain (max_seg_idx ta) (line ta') (idx - get_way_idx ta idx) idx"
    and rest: "\<And>w. w < length (m_lines ta) \<Longrightarrow> w < idx - get_way_idx ta idx \<or> idx < w \<Longrightarrow> line ta' w = line ta w"
    and top: "idx + 1 < length (m_lines ta) \<Longrightarrow> same_set ta (idx + 1) idx \<Longrightarrow>
      linked (max_seg_idx ta) (line ta (idx + 1)) (line ta' idx)"
  shows "layout ta'"
proof -
  let ?B = "idx - get_way_idx ta idx" and ?A = "comp_assoc ta"
  have B: "?B = ?A * (idx div ?A)" by (simp add: get_way_idx_def minus_mod_eq_mult_div)
  have ok: "seg_ok (max_seg_idx ta) (line ta' i) \<and> (i + 1 < length (m_lines ta) \<and> (i + 1) div ?A = i div ?A \<longrightarrow>
      linked (max_seg_idx ta) (line ta' (i + 1)) (line ta' i))" if i: "i < length (m_lines ta)" for i
  proof -
    consider "idx < i" | "i = idx" | "?B \<le> i" "i < idx" | "i < ?B" by linarith
    then show ?thesis
    proof cases
      case 1
      then show ?thesis using rest[of i] rest[of "i + 1"] lay i by (simp add: layout_def)
    next
      case 2
      then show ?thesis using chainD(1)[OF ch, of idx] rest[of "idx + 1"] top by (simp add: same_set_def)
    next
      case 3
      then show ?thesis using chainD(1)[OF ch, of i] chainD(2)[OF ch, of i] by simp
    next
      case 4
      have "(i + 1) div ?A \<noteq> i div ?A" if "i + 1 = ?B"
      proof
        assume "(i + 1) div ?A = i div ?A"
        then have "i div ?A = idx div ?A" using that B A by simp
        then have "?B \<le> i" unfolding B by (metis times_div_less_eq_dividend)
        then show False using 4 by simp
      qed
      then show ?thesis using 4 rest[of i] rest[of "i + 1"] lay i by (cases "i + 1 = ?B") (auto simp: layout_def)
    qed
  qed
  then show ?thesis using same_arrayD[OF same] by (simp add: layout_def)
qed

definition flush_count :: "tag_array \<Rightarrow> nat" where
  "flush_count ta = unat (m_nset (m_config ta) * m_assoc (m_config ta) * 2)"

definition comp_ok :: "tag_array \<Rightarrow> bool" where
  "comp_ok ta \<longleftrightarrow> is_compressed_cache ta \<and> m_alloc_policy (m_config ta) = ON_FILL \<and> 2 \<le> comp_assoc ta \<and>
     unat (max_seg_idx ta) + 1 < 2 ^ 31 \<and> comp_assoc ta dvd flush_count ta \<and> layout ta"

lemma fill_compressed_layout:
  assumes ok: "comp_ok ta" and f: "fill_compressed ta addr t sz c = Inr (ta', idx)"
  shows "layout ta' \<and> same_array ta ta'"
proof -
  let ?mx = "max_seg_idx ta" and ?n = "seg_count ta sz" and ?B = "idx - get_way_idx ta idx"
  have comp: "is_compressed_cache ta" and A: "2 \<le> comp_assoc ta" and mx: "unat ?mx + 1 < 2 ^ 31" and lay: "layout ta"
    using ok by (simp_all add: comp_ok_def)
  obtain i0 ev where p: "probe ta addr 0 (sint ?n) = Inr (MISS, i0, ev)"
    using f by (auto simp: fill_compressed_def Let_def cxx_simps split: if_split_asm)
  define ta1 where "ta1 = widen_line ta i0 ev"
  define st where "st = m_start_seg_idx (line ta1 i0)"
  obtain e where e: "needed_end st (m_end_seg_idx (line ta1 i0)) ?n = Inr e"
    using f p by (auto simp: fill_compressed_def Let_def cxx_simps ta1_def st_def split: if_split_asm)
  define nb where "nb = block_allocate (line ta1 i0) (cache_tag (m_config ta) addr) (cache_block_addr (m_config ta) addr) t st e c"
  define ta2 where "ta2 = put_block ta1 i0 nb"
  have f2: "(if ev = [] then bindE (compact_lines ta2 i0 (get_way_idx ta i0)) (\<lambda>ta3. Inr (ta3, i0))
      else Inr (shift_lines ta2 i0 (length ev) (e + 1), i0)) = Inr (ta', idx)"
  proof -
    have sz: "(hpcl_comp_cache_segment_size (g_comp ta) = 0) = False"
      using f by (auto simp: fill_compressed_def)
    show ?thesis
      using f by (simp only: fill_compressed_def sz if_False Let_def p bindE_simps prod.case assertE_simps simp_thms
          ta1_def[symmetric] st_def[symmetric] e nb_def[symmetric] ta2_def[symmetric])
  qed
  then have i0: "i0 = idx" by (auto simp: cxx_simps split: if_split_asm)
  obtain m where m: "m \<le> idx" "idx < length (m_lines ta)" "same_set ta m idx" "ev = rev [m..<idx]" "top_free ta idx"
    using compressed_victim[OF comp A p] i0 by auto
  note w = widen_eq[OF m(2), where ev = ev, folded ta1_def[unfolded i0]]
  have st: "st = m_start_seg_idx (line ta idx)" using w(3) by (simp add: st_def i0)
  have oks: "seg_ok ?mx (line ta v)" if "v < length (m_lines ta)" for v using lay that by (simp add: layout_def)
  have last_ev: "last ev = m" if "ev \<noteq> []" using that m(4) by (auto simp: last_rev upt_conv_Cons)
  have we: "unat (m_end_seg_idx (line ta1 idx)) \<le> unat ?mx"
    using w(4) oks[of idx] oks[of m] last_ev m(1,2) by (auto simp: seg_ok_def)
  note ne = needed_end_ok[OF e[unfolded i0]]
  have nb: "m_start_seg_idx nb = st" "m_end_seg_idx nb = e" by (simp_all add: nb_def block_allocate_def)
  have le: "st \<le> m_end_seg_idx (line ta1 idx)" by (rule ne(3))
  have nok: "seg_ok ?mx nb" using ne(1,2) we by (simp add: seg_ok_def nb)
  have same2: "same_array ta ta2"
    using same_array_trans[OF w(1)] by (simp add: ta2_def)
  have l2: "line ta2 v = (if v = idx then nb else line ta v)" if "v < length (m_lines ta)" for v
    using that w(2)[of v] same_arrayD(5)[OF w(1)] by (simp add: ta2_def i0 put_block_nth)
  have top: "linked ?mx (line ta (idx + 1)) nb" if "idx + 1 < length (m_lines ta)" "same_set ta (idx + 1) idx"
    by (rule filled_linked[OF lay m(5) that, of nb "m_end_seg_idx (line ta1 idx)"])
      (use nb st le we mx in simp_all)
  have way: "get_way_idx ta idx \<le> idx" by (simp add: get_way_idx_def)
  show ?thesis
  proof (cases "ev = []")
    case True
    have c: "foldE compact_step ta2 (map (\<lambda>i. idx - i) [1..<get_way_idx ta idx + 1]) = Inr ta'"
      using f2 True i0 by (simp add: compact_lines_def cxx_simps)
    have start: "same_start ta ta2 idx" if "0 < get_way_idx ta idx"
      using ne(2) w(4) True that m(2) l2[of idx] by (simp add: same_start_def nb)
    have run: "same_array ta ta' \<and> chain ?mx (line ta') ?B idx \<and> line ta' idx = line ta2 idx \<and>
      (\<forall>v < length (m_lines ta). v < ?B \<or> idx < v \<longrightarrow> line ta' v = line ta v)"
      using compact_run[OF layout_chain[OF lay m(2)] mx m(2) way same2 _ _ start order_refl c] A l2 nok m(2) by auto
    show ?thesis
    proof
      show "layout ta'"
        by (rule layout_change[OF lay _ m(2)]) (use run A top l2[OF m(2)] in auto)
    qed (use run in blast)
  next
    case False
    define k where "k = idx - m"
    have k: "length ev = k" "0 < k" "idx = m + k" using m(1,4) False by (auto simp: k_def)
    have way_m: "?B \<le> m"
    proof -
      have "?B = comp_assoc ta * (idx div comp_assoc ta)" by (simp add: get_way_idx_def minus_mod_eq_mult_div)
      also have "\<dots> = comp_assoc ta * (m div comp_assoc ta)" using m(3) by (simp add: same_set_def)
      also have "\<dots> \<le> m" by (rule times_div_less_eq_dividend)
      finally show ?thesis .
    qed
    define r where "r = foldl (shift_step k) (ta2, e + 1) (rev [?B..<m])"
    have gw: "get_way_idx ta2 idx = get_way_idx ta idx" by (simp add: get_way_idx_def same_arrayD(3)[OF same2])
    have ta': "ta' = foldl (clear_step (snd r)) (fst r) (rev [?B..<?B + k])"
    proof -
      have "shift_lines ta2 idx k (e + 1) = ta'" using f2 False by (simp add: i0 k(1))
      moreover have "idx - k = m" using k(3) by simp
      ultimately show ?thesis by (simp only: shift_lines_def Let_def gw r_def)
    qed
    have nx: "next_seg ?mx (line ta2 idx) (e + 1)"
      using next_seg_start[OF nok mx] l2[OF m(2)] nb by simp
    have sh: "same_array ta (fst r) \<and> chain ?mx (line (fst r)) (?B + k) idx \<and> line (fst r) idx = line ta2 idx \<and>
      (\<forall>v < length (m_lines ta). v < ?B + k \<or> idx < v \<longrightarrow> line (fst r) v = line ta v) \<and>
      next_seg ?mx (line (fst r) (?B + k)) (snd r)"
      using shift_run[OF oks mx k(3) m(2) k(2) same2 _ _ nx, of "m - ?B"] l2 nok m(2) way_m
      by (simp add: Let_def r_def)
    have len: "length (m_lines (fst r)) = length (m_lines ta)" using sh same_arrayD(5) by blast
    have cl: "same_array ta ta' \<and> chain ?mx (line ta') (?B + k - k) idx \<and>
      (\<forall>v < length (m_lines ta). v < ?B + k - k \<or> ?B + k \<le> v \<longrightarrow> line ta' v = line (fst r) v) \<and>
      free_from ?mx (snd r) (line ta' (?B + k - k))"
      using clear_run[OF mx _ m(2), of "?B + k" "fst r" "snd r" k] sh way_m k(3)
      by (simp add: Let_def ta' free_from_def)
    have rest: "line ta' v = line ta v" if v: "v < length (m_lines ta)" "v < ?B \<or> idx < v" for v
    proof -
      have "line ta' v = line (fst r) v" using cl v way_m k(3) by auto
      also have "\<dots> = line ta v" using sh v by auto
      finally show ?thesis .
    qed
    have "line ta' idx = line (fst r) idx" using cl m(2) way_m k(3) by auto
    then have "line ta' idx = nb" using sh l2[OF m(2)] by auto
    moreover have "same_array ta ta'" "chain ?mx (line ta') ?B idx" using cl by auto
    moreover have "0 < comp_assoc ta" using A by simp
    ultimately show ?thesis
      using layout_change[OF lay, of ta' idx, OF _ m(2) _ _ rest] top by simp
  qed
qed

section \<open>Runs of the compressed cache\<close>

lemma layout_same_segments:
  assumes lay: "layout ta" and same: "same_array ta ta'"
    and eq: "\<And>i. i < length (m_lines ta) \<Longrightarrow> m_start_seg_idx (line ta' i) = m_start_seg_idx (line ta i) \<and>
      m_end_seg_idx (line ta' i) = m_end_seg_idx (line ta i) \<and> (invalid_at ta i \<longrightarrow> invalid_at ta' i)"
  shows "layout ta'"
proof -
  have "linked (max_seg_idx ta) (line ta' (i + 1)) (line ta' i)"
    if "i + 1 < length (m_lines ta)" "linked (max_seg_idx ta) (line ta (i + 1)) (line ta i)" for i
    using that eq[of i] eq[of "i + 1"] by (auto simp: linked_def invalid_at_def)
  then show ?thesis using lay eq same_arrayD[OF same] by (simp add: layout_def seg_ok_def)
qed

lemma comp_ok_change:
  assumes "comp_ok ta" and "same_array ta ta'" and "layout ta'"
  shows "comp_ok ta'"
  using assms same_arrayD[OF assms(2)] by (simp add: comp_ok_def flush_count_def)

lemma comp_ok_same_segments:
  assumes "comp_ok ta" and "same_array ta ta'"
    and "\<And>i. i < length (m_lines ta) \<Longrightarrow> m_start_seg_idx (line ta' i) = m_start_seg_idx (line ta i) \<and>
      m_end_seg_idx (line ta' i) = m_end_seg_idx (line ta i) \<and> (invalid_at ta i \<longrightarrow> invalid_at ta' i)"
  shows "comp_ok ta'"
  using comp_ok_change[OF assms(1,2)] layout_same_segments[of ta ta'] assms by (auto simp: comp_ok_def)

lemma fill_block_comp:
  assumes "comp_ok ta" and "fill_block ta i t = Inr ta'"
  shows "comp_ok ta'"
proof (rule comp_ok_same_segments[OF assms(1)])
  note f = fill_block_cases[OF assms(2)]
  show "same_array ta ta'" using f by simp
  show "m_start_seg_idx (line ta' k) = m_start_seg_idx (line ta k) \<and> m_end_seg_idx (line ta' k) = m_end_seg_idx (line ta k) \<and>
    (invalid_at ta k \<longrightarrow> invalid_at ta' k)" if "k < length (m_lines ta)" for k
    using f that by (auto simp: put_block_nth invalid_at_def)
qed

lemma set_state_comp:
  assumes "comp_ok ta" and "set_state ta i st = Inr ta'"
  shows "comp_ok ta'"
proof (rule comp_ok_same_segments[OF assms(1)])
  have i: "m_status (line ta i) \<in> {VALID, MODIFIED}" and ta': "ta' = put_block ta i ((line ta i)\<lparr>m_status := st\<rparr>)"
    using assms(2) by (auto simp: set_state_def get_block_def cxx_simps split: if_split_asm)
  show "same_array ta ta'" using ta' by simp
  show "m_start_seg_idx (line ta' k) = m_start_seg_idx (line ta k) \<and> m_end_seg_idx (line ta' k) = m_end_seg_idx (line ta k) \<and>
    (invalid_at ta k \<longrightarrow> invalid_at ta' k)" if "k < length (m_lines ta)" for k
    using i ta' that by (auto simp: put_block_nth invalid_at_def)
qed

lemma access_comp:
  assumes ok: "comp_ok ta" and a: "access ta addr t idx = Inr (ta', st, j, wb)"
  shows "comp_ok ta'"
  using a
proof (cases rule: access_cases)
  case (Touch ev)
  show ?thesis
  proof (rule comp_ok_same_segments[OF ok])
    show "same_array ta ta'" using Touch(4) same_array_trans[of ta "ta\<lparr>m_access := m_access ta + 1\<rparr>"] by auto
    show "m_start_seg_idx (line ta' k) = m_start_seg_idx (line ta k) \<and> m_end_seg_idx (line ta' k) = m_end_seg_idx (line ta k) \<and>
      (invalid_at ta k \<longrightarrow> invalid_at ta' k)" if "k < length (m_lines ta)" for k
      using Touch(4) that by (auto simp: touch_def put_block_nth invalid_at_def)
  qed
next
  case (Alloc ev)
  then show ?thesis using ok by (simp add: comp_ok_def)
next
  case (Count ev)
  show ?thesis by (rule comp_ok_same_segments[OF ok]) (use Count(4) in \<open>auto simp: invalid_at_def\<close>)
qed

lemma flush_comp:
  assumes ok: "comp_ok ta" and f: "flush ta = Inr ta'"
  shows "comp_ok ta'"
proof -
  let ?mx = "max_seg_idx ta" and ?n = "flush_count ta" and ?A = "comp_assoc ta"
  have comp: "is_compressed_cache ta" and lay: "layout ta" and dvd: "?A dvd ?n" and mx: "unat ?mx + 1 < 2 ^ 31"
    and A: "0 < ?A" using ok by (simp_all add: comp_ok_def)
  have fl: "flush_lines (\<lambda>b. reset_comp_cache_info (b\<lparr>m_status := INVALID\<rparr>) ?mx) ?n ta = Inr ta'"
    using f comp by (auto simp: flush_def get_num_lines_def cxx_simps is_compressed_cache_def flush_count_def
        split: if_split_asm)
  then have n: "?n \<le> length (m_lines ta)"
    and ta': "ta' = ta\<lparr>m_lines := map (\<lambda>b. reset_comp_cache_info (b\<lparr>m_status := INVALID\<rparr>) ?mx) (take ?n (m_lines ta)) @
        drop ?n (m_lines ta)\<rparr>"
    by (simp_all add: flush_lines_def split: if_split_asm)
  have same: "same_array ta ta'" using n by (simp add: ta' same_array_def)
  have nth: "line ta' i = (if i < ?n then reset_comp_cache_info ((line ta i)\<lparr>m_status := INVALID\<rparr>) ?mx else line ta i)"
    if "i < length (m_lines ta)" for i
    using that n by (simp add: ta' nth_append min_absorb2)
  have reset: "seg_ok ?mx (reset_comp_cache_info (b\<lparr>m_status := INVALID\<rparr>) ?mx)"
    "linked ?mx (reset_comp_cache_info (a\<lparr>m_status := INVALID\<rparr>) ?mx) (reset_comp_cache_info (b\<lparr>m_status := INVALID\<rparr>) ?mx)"
    for a b by (simp_all add: seg_ok_def linked_def reset_comp_cache_info_def)
  have "seg_ok ?mx (line ta' i) \<and> (i + 1 < length (m_lines ta) \<and> (i + 1) div ?A = i div ?A \<longrightarrow>
      linked ?mx (line ta' (i + 1)) (line ta' i))" if i: "i < length (m_lines ta)" for i
  proof -
    have "(i + 1) div ?A \<noteq> i div ?A" if "i + 1 = ?n"
    proof
      assume "(i + 1) div ?A = i div ?A"
      moreover have "(i + 1) div ?A * ?A = i + 1" using dvd that by (metis dvd_div_mult_self)
      moreover have "i div ?A * ?A \<le> i" by (rule div_times_less_eq_dividend)
      ultimately show False by simp
    qed
    then show ?thesis using lay i nth[of i] nth[of "i + 1"] reset
      by (cases "i + 1 < ?n"; cases "i + 1 = ?n") (auto simp: layout_def)
  qed
  then have "layout ta'" using same_arrayD[OF same] by (simp add: layout_def)
  then show ?thesis by (rule comp_ok_change[OF ok same])
qed

lemma tag_step_comp:
  assumes ok: "comp_ok ta" and s: "tag_step ta a = Inr ta'"
  shows "comp_ok ta'"
proof (cases a)
  case (Access addr t)
  then show ?thesis using s access_comp[OF ok] by (auto simp: tag_step_def cxx_simps)
next
  case (Fill_Addr addr t n c)
  have "hpcl_cache_comp_en (g_comp ta) \<noteq> 0 \<and> is_l1_data ta" using ok by (simp add: comp_ok_def is_compressed_cache_def)
  then obtain ta1 j where 1: "fill_compressed ta addr t n c = Inr (ta1, j)" "fill_block ta1 j t = Inr ta'"
    using s Fill_Addr by (auto simp: tag_step_def fill_addr_def cxx_simps)
  have "comp_ok ta1" using fill_compressed_layout[OF ok 1(1)] comp_ok_change[OF ok] by blast
  then show ?thesis by (rule fill_block_comp[OF _ 1(2)])
next
  case (Fill_Index i t)
  then show ?thesis using s ok by (simp add: tag_step_def fill_index_def comp_ok_def cxx_simps)
next
  case (Set_State i st)
  then show ?thesis using s set_state_comp[OF ok] by (simp add: tag_step_def)
next
  case Flush
  then show ?thesis using s flush_comp[OF ok] by (simp add: tag_step_def)
qed

interpretation comp_machine: guarded_machine tag_step comp_ok
  by unfold_locales (rule tag_step_comp)

text \<open>The geometry of a compressed cache: allocation on fill, two tags per line, and sizes that do not wrap around.\<close>

definition comp_geometry :: "cache_config \<Rightarrow> comp_config \<Rightarrow> bool" where
  "comp_geometry c g \<longleftrightarrow> hpcl_cache_comp_en g = 1 \<and> m_alloc_policy c = ON_FILL \<and>
     hpcl_comp_tag_size_multiplier g = 2 \<and> m_assoc c \<noteq> 0 \<and> m_nset c \<noteq> 0 \<and>
     unat (m_assoc c) * 128 < 2 ^ 31 \<and> unat (m_nset c) * unat (m_assoc c) * 8 < 2 ^ 32"

lemma new_tag_array_comp:
  assumes new: "new_tag_array c g normal core type = Inr ta" and geo: "comp_geometry c g"
    and l1: "0 \<le> core" "type = normal"
  shows "comp_ok ta"
proof -
  let ?n = "m_nset c * m_assoc c" and ?ns = "unat (m_nset c)" and ?as = "unat (m_assoc c)"
  note G = geo[unfolded comp_geometry_def]
  have pos: "0 < ?ns" "0 < ?as" using G by (simp_all add: unat_gt_0)
  have big: "?as \<le> ?ns * ?as" using pos by simp
  have "?ns * ?as < 2 ^ 32" using G by linarith
  then have n: "unat ?n = ?ns * ?as" by (simp add: unat_word_ariths)
  have n8: "unat (MAX_DEFAULT_CACHE_SIZE_MULTIBLIER * ?n * 2) = ?ns * ?as * 8"
    using G n by (simp add: unat_word_ariths MAX_DEFAULT_CACHE_SIZE_MULTIBLIER_def)
  then have nz: "MAX_DEFAULT_CACHE_SIZE_MULTIBLIER * ?n * 2 \<noteq> 0" using pos by (metis mult_is_0 unsigned_0 not_gr0 zero_neq_numeral)
  have ta: "m_config ta = c" "g_comp ta = g" "m_core_id ta = core" "m_type_id ta = type" "normal_cache_id ta = normal"
    and sz: "hpcl_comp_cache_segment_size g \<noteq> 0" and mx0: "0 <s max_seg_idx ta"
    and lines: "\<forall>b \<in> set (m_lines ta). b = new_block\<lparr>m_end_seg_idx := max_seg_idx ta\<rparr>"
    using new l1 G nz
    by (auto simp: new_tag_array_def Let_def cxx_simps get_num_lines_def is_l1_data_def max_seg_idx_def split: if_split_asm)
  have comp: "is_compressed_cache ta" using l1 G by (simp add: is_compressed_cache_def is_l1_data_def ta)
  have A: "comp_assoc ta = ?as * 2" using G big by (simp add: comp_assoc_def ta unat_word_ariths)
  have "?ns * ?as * 2 < 2 ^ 32" using G by linarith
  then have fc: "flush_count ta = ?ns * ?as * 2" using n by (simp add: flush_count_def ta unat_word_ariths)
  have mx: "unat (max_seg_idx ta) + 1 < 2 ^ 31"
  proof -
    let ?q = "m_assoc c * 128 div hpcl_comp_cache_segment_size g"
    have "unat ?q \<le> unat (m_assoc c * 128)" by (simp add: unat_div)
    also have "\<dots> = ?as * 128" using G by (simp add: unat_word_ariths)
    finally have q: "unat ?q < 2 ^ 31" using G by linarith
    have m: "max_seg_idx ta = ?q - 1" by (simp add: max_seg_idx_def ta)
    have "?q \<noteq> 0"
    proof
      assume "?q = 0"
      then have "max_seg_idx ta = -1" by (simp add: m)
      then show False using mx0 by (simp add: word_sless_alt)
    qed
    then show ?thesis using q by (simp add: m unat_minus_one unat_gt_0)
  qed
  have "layout ta"
    unfolding layout_def
  proof (intro allI impI)
    fix i assume i: "i < length (m_lines ta)"
    have l: "line ta k = new_block\<lparr>m_end_seg_idx := max_seg_idx ta\<rparr>" if "k < length (m_lines ta)" for k
      using lines that by simp
    show "seg_ok (max_seg_idx ta) (line ta i) \<and> (i + 1 < length (m_lines ta) \<and>
        (i + 1) div comp_assoc ta = i div comp_assoc ta \<longrightarrow> linked (max_seg_idx ta) (line ta (i + 1)) (line ta i))"
      using i l[of i] l[of "i + 1"] by (auto simp: seg_ok_def linked_def new_block_def)
  qed
  then show ?thesis using comp G A fc mx pos by (simp add: comp_ok_def ta)
qed

definition has_segment :: "tag_array \<Rightarrow> nat \<Rightarrow> u32 \<Rightarrow> bool" where
  "has_segment ta i s \<longleftrightarrow> \<not> invalid_at ta i \<and> m_start_seg_idx (line ta i) \<le> s \<and> s \<le> m_end_seg_idx (line ta i)"

lemma layout_disjoint:
  assumes ok: "comp_ok ta" and i: "i < length (m_lines ta)" and less: "j < i" and set: "same_set ta j i"
    and s: "has_segment ta i s"
  shows "\<not> has_segment ta j s"
proof
  assume t: "has_segment ta j s"
  have lay: "layout ta" and A: "0 < comp_assoc ta" and mx: "unat (max_seg_idx ta) + 1 < 2 ^ 31"
    using ok by (simp_all add: comp_ok_def)
  have "i - get_way_idx ta i = comp_assoc ta * (i div comp_assoc ta)"
    by (simp add: get_way_idx_def minus_mod_eq_mult_div)
  also have "\<dots> = comp_assoc ta * (j div comp_assoc ta)" using set by (simp add: same_set_def)
  also have "\<dots> \<le> j" by (rule times_div_less_eq_dividend)
  finally have j: "i - get_way_idx ta i \<le> j" .
  have "unat (m_end_seg_idx (line ta i)) < unat (m_start_seg_idx (line ta j))"
    using chain_after[OF layout_chain[OF lay i A] _ j less] s mx by (simp add: has_segment_def invalid_at_def)
  then show False using s t by (auto simp: has_segment_def word_le_nat_alt)
qed

text \<open>Claim C15. In the compressed L1 data cache no two lines of a set ever share a segment of the data array, whatever is
  looked up, filled with data of any compressed size (evicting, compacting and shifting lines), written and
  flushed; and every line that holds data stays inside the array.\<close>
theorem compressed_segments_disjoint:
  assumes "new_tag_array c g normal core type = Inr ta0" and "comp_geometry c g" and "0 \<le> core" and "type = normal"
    and "foldE tag_step ta0 ops = Inr ta"
    and "i < length (m_lines ta)" and "j < length (m_lines ta)" and "same_set ta i j"
    and "has_segment ta i s" and "has_segment ta j s"
  shows "i = j \<and> s \<le> max_seg_idx ta"
proof -
  have ok: "comp_ok ta" using comp_machine.run_inv[OF new_tag_array_comp[OF assms(1-4)] assms(5)] .
  have "i = j"
    using layout_disjoint[OF ok assms(6) _ _ assms(9)] layout_disjoint[OF ok assms(7) _ _ assms(10)] assms(8-10)
    by (metis linorder_neqE_nat same_set_def)
  moreover have "seg_ok (max_seg_idx ta) (line ta i)" using ok assms(6) by (simp add: comp_ok_def layout_def)
  ultimately show ?thesis using assms(9) by (auto simp: has_segment_def seg_ok_def word_le_nat_alt)
qed

text \<open>One set of two lines (four tags) and segments of 64 bytes; the last fill evicts a line.\<close>

definition comp_cfg :: cache_config where
  "comp_cfg = (new_cache_config L1D_Config)\<lparr>m_valid_config := True, m_nset := 1, m_line_sz := 128, m_assoc := 2,
     m_line_sz_log2 := 7, m_alloc_policy := ON_FILL\<rparr>"

definition comp_g :: comp_config where
  "comp_g = \<lparr>hpcl_cache_comp_en = 1, hpcl_comp_tag_size_multiplier = 2, hpcl_comp_cache_segment_size = 64\<rparr>"

definition comp_ops :: "tag_op list" where
  "comp_ops = [Fill_Addr 0x100 1 64 1, Fill_Addr 0x200 2 100 1, Fill_Addr 0x300 3 60 1, Access 0x100 4, Fill_Addr 0x400 5 128 0]"

definition comp_run :: "nat \<Rightarrow> tag_array cxx" where
  "comp_run n = bindE (new_tag_array comp_cfg comp_g 0 0 0) (\<lambda>ta. foldE tag_step ta (take n comp_ops))"

lemma comp_run_ok:
  "case comp_run 5 of Inl _ \<Rightarrow> False
   | Inr ta \<Rightarrow> 3 < length (m_lines ta) \<and> same_set ta 3 2 \<and> has_segment ta 3 0 \<and> has_segment ta 2 2"
  by code_simp

lemma compressed_segments_disjoint_witness:
  "\<exists>ta. comp_run 5 = Inr ta \<and> has_segment ta 3 0 \<and> \<not> has_segment ta 2 0"
proof -
  obtain ta where ta: "comp_run 5 = Inr ta" and l: "3 < length (m_lines ta)" "same_set ta 3 2" "has_segment ta 3 0"
    using comp_run_ok by (auto split: sum.splits)
  then obtain ta0 where t: "new_tag_array comp_cfg comp_g 0 0 0 = Inr ta0" "foldE tag_step ta0 (take 5 comp_ops) = Inr ta"
    by (auto simp: comp_run_def bindE_Inr_iff)
  have geo: "comp_geometry comp_cfg comp_g" by (simp add: comp_geometry_def comp_cfg_def comp_g_def)
  have "\<not> has_segment ta 2 0"
    using compressed_segments_disjoint[OF t(1) geo _ _ t(2) l(1) _ l(2,3)] l(1) by force
  with ta l(3) show ?thesis by blast
qed

end
