(* ===== verification/Ring_Fifo.thy ===== *)
theory Ring_Fifo
  imports Cxx_Prelude
begin

text \<open>
  The bounded FIFO of the texture cache (\<open>tex_cache::fifo\<close> of gpu-cache.h): an array with the position of the
  oldest entry, the position for the next one, and a count.  The positions are below the size and the count at most
  the size, so the natural numbers of the model are the \<open>unsigned\<close> of the code.
\<close>

section \<open>The array\<close>

record 'a ring =
  f_head :: nat
  f_tail :: nat
  f_num :: nat
  f_size :: nat
  f_data :: "'a list"

text \<open>\<open>new T[size]\<close> holds default-constructed entries.\<close>

definition new_ring :: "'a \<Rightarrow> nat \<Rightarrow> 'a ring" where
  "new_ring d n = \<lparr>f_head = 0, f_tail = 0, f_num = 0, f_size = n, f_data = replicate n d\<rparr>"

definition ring_full :: "'a ring \<Rightarrow> bool" where "ring_full r \<longleftrightarrow> f_num r = f_size r"
definition ring_empty :: "'a ring \<Rightarrow> bool" where "ring_empty r \<longleftrightarrow> f_num r = 0"
definition ring_size :: "'a ring \<Rightarrow> nat" where "ring_size r = f_num r"
definition ring_capacity :: "'a ring \<Rightarrow> nat" where "ring_capacity r = f_size r"

definition inc_head :: "'a ring \<Rightarrow> 'a ring" where
  "inc_head r = r\<lparr>f_head := (f_head r + 1) mod f_size r, f_num := f_num r + 1\<rparr>"

definition inc_tail :: "'a ring \<Rightarrow> 'a ring cxx" where
  "inc_tail r = assertE (0 < f_num r) (Inr (r\<lparr>f_tail := (f_tail r + 1) mod f_size r, f_num := f_num r - 1\<rparr>))"

definition ring_push :: "'a ring \<Rightarrow> 'a \<Rightarrow> ('a ring \<times> nat) cxx" where
  "ring_push r e = assertE (\<not> ring_full r)
     (if f_head r < length (f_data r)
      then Inr (inc_head (r\<lparr>f_data := (f_data r)[f_head r := e]\<rparr>), f_head r) else Inl Out_Of_Range)"

definition ring_pop :: "'a ring \<Rightarrow> ('a ring \<times> 'a) cxx" where
  "ring_pop r = assertE (\<not> ring_empty r)
     (if f_tail r < length (f_data r)
      then bindE (inc_tail r) (\<lambda>r'. Inr (r', f_data r ! f_tail r)) else Inl Out_Of_Range)"

definition ring_peek_at :: "'a ring \<Rightarrow> nat \<Rightarrow> 'a cxx" where
  "ring_peek_at r i = assertE (i < f_size r)
     (if i < length (f_data r) then Inr (f_data r ! i) else Inl Out_Of_Range)"

text \<open>Writing through the reference that \<open>peek(index)\<close> returns.\<close>

definition ring_set :: "'a ring \<Rightarrow> nat \<Rightarrow> 'a \<Rightarrow> 'a ring" where
  "ring_set r i e = r\<lparr>f_data := (f_data r)[i := e]\<rparr>"

definition ring_peek :: "'a ring \<Rightarrow> 'a cxx" where
  "ring_peek r = (if f_tail r < length (f_data r) then Inr (f_data r ! f_tail r) else Inl Out_Of_Range)"

definition next_pop_index :: "'a ring \<Rightarrow> nat" where "next_pop_index r = f_tail r"

section \<open>The contract of a bounded queue\<close>

text \<open>The operations hand out what was put in, oldest first; putting into a full queue and taking from an empty one
  fail.\<close>

locale bounded_queue =
  fixes put :: "'s \<Rightarrow> 'a \<Rightarrow> ('s \<times> nat) cxx" and take_out :: "'s \<Rightarrow> ('s \<times> 'a) cxx"
    and contents :: "'s \<Rightarrow> 'a list" and cap :: "'s \<Rightarrow> nat" and inv :: "'s \<Rightarrow> bool"
  assumes put_ok: "inv s \<Longrightarrow> length (contents s) < cap s \<Longrightarrow>
      \<exists>t i. put s x = Inr (t, i) \<and> inv t \<and> contents t = contents s @ [x] \<and> cap t = cap s"
    and put_full: "inv s \<Longrightarrow> length (contents s) = cap s \<Longrightarrow> put s x = Inl Assert_Failed"
    and out_ok: "inv s \<Longrightarrow> contents s = x # xs \<Longrightarrow> \<exists>t. take_out s = Inr (t, x) \<and> inv t \<and> contents t = xs \<and> cap t = cap s"
    and out_empty: "inv s \<Longrightarrow> contents s = [] \<Longrightarrow> take_out s = Inl Assert_Failed"
    and bounded: "inv s \<Longrightarrow> length (contents s) \<le> cap s"
begin

lemma put_cases:
  assumes "inv s"
  shows "okE (put s x) \<longleftrightarrow> length (contents s) < cap s"
  using put_ok[OF assms, of x] put_full[OF assms, of x] bounded[OF assms]
  by (cases "length (contents s) < cap s") (auto simp: okE_iff)

lemma put_all:
  "inv s \<Longrightarrow> length (contents s) + length xs \<le> cap s \<Longrightarrow>
    \<exists>t. foldE (\<lambda>s x. bindE (put s x) (\<lambda>(t, _). Inr t)) s xs = Inr t \<and> inv t \<and> contents t = contents s @ xs \<and> cap t = cap s"
proof (induction xs arbitrary: s)
  case (Cons x xs)
  obtain t i where t: "put s x = Inr (t, i)" "inv t" "contents t = contents s @ [x]" "cap t = cap s"
    using put_ok[OF Cons.prems(1), of x] Cons.prems(2) by auto
  then show ?case using Cons.IH[OF t(2)] Cons.prems(2) by simp
qed simp

end

section \<open>The array is a bounded queue\<close>

definition slot :: "'a ring \<Rightarrow> nat \<Rightarrow> nat" where "slot r k = (f_tail r + k) mod f_size r"

definition ring_list :: "'a ring \<Rightarrow> 'a list" where "ring_list r = map (\<lambda>k. f_data r ! slot r k) [0..<f_num r]"

definition ring_ok :: "'a ring \<Rightarrow> bool" where
  "ring_ok r \<longleftrightarrow> length (f_data r) = f_size r \<and> f_num r \<le> f_size r \<and> 0 < f_size r \<and> f_tail r < f_size r \<and>
     f_head r = slot r (f_num r)"

lemma length_ring_list [simp]: "length (ring_list r) = f_num r"
  by (simp add: ring_list_def)

lemma ring_list_nth: "k < f_num r \<Longrightarrow> ring_list r ! k = f_data r ! slot r k"
  by (simp add: ring_list_def)

lemma slot_less: "ring_ok r \<Longrightarrow> slot r k < f_size r"
  by (simp add: slot_def ring_ok_def)

lemma mod_add_less:
  assumes "(t::nat) < n" and "i < n"
  shows "(t + i) mod n = (if t + i < n then t + i else t + i - n)"
  using assms by (simp add: mod_if)

lemma slot_inj: "ring_ok r \<Longrightarrow> i < f_size r \<Longrightarrow> j < f_size r \<Longrightarrow> slot r i = slot r j \<longleftrightarrow> i = j"
  by (auto simp: slot_def ring_ok_def mod_add_less split: if_splits)

lemma new_ring_ok: "0 < n \<Longrightarrow> ring_ok (new_ring d n) \<and> ring_list (new_ring d n) = []"
  by (simp add: ring_ok_def new_ring_def slot_def ring_list_def)

lemma ring_push_ok:
  assumes ok: "ring_ok r" and room: "f_num r < f_size r"
  shows "\<exists>r'. ring_push r e = Inr (r', slot r (f_num r)) \<and> ring_ok r' \<and> ring_list r' = ring_list r @ [e] \<and>
    f_size r' = f_size r \<and> f_tail r' = f_tail r \<and> f_num r' = f_num r + 1 \<and>
    f_data r' = (f_data r)[slot r (f_num r) := e]"
proof -
  define r' where "r' = inc_head (r\<lparr>f_data := (f_data r)[f_head r := e]\<rparr>)"
  have h: "f_head r = slot r (f_num r)" "f_head r < length (f_data r)" using ok slot_less[OF ok] by (simp_all add: ring_ok_def)
  have f: "f_size r' = f_size r" "f_tail r' = f_tail r" "f_num r' = f_num r + 1" "f_data r' = (f_data r)[slot r (f_num r) := e]"
    "slot r' k = slot r k" for k
    using h by (simp_all add: r'_def inc_head_def slot_def)
  have "f_head r' = slot r' (f_num r')"
    by (simp add: f r'_def inc_head_def h(1)) (simp add: slot_def mod_simps)
  then have "ring_ok r'" using ok room by (simp add: ring_ok_def f)
  moreover have "ring_list r' = ring_list r @ [e]"
  proof (rule nth_equalityI)
    fix k assume "k < length (ring_list r')"
    then have k: "k \<le> f_num r" by (simp add: f)
    show "ring_list r' ! k = (ring_list r @ [e]) ! k"
    proof (cases "k = f_num r")
      case True
      then show ?thesis using h by (simp add: ring_list_nth f nth_append)
    next
      case False
      then have "k < f_num r" "slot r k \<noteq> slot r (f_num r)" using k room slot_inj[OF ok, of k "f_num r"] by auto
      then show ?thesis by (simp add: ring_list_nth f nth_append)
    qed
  qed (simp add: f)
  moreover have "ring_push r e = Inr (r', slot r (f_num r))"
    using room h by (simp add: ring_push_def ring_full_def r'_def)
  ultimately show ?thesis using f by blast
qed

lemma ring_pop_ok:
  assumes ok: "ring_ok r" and l: "ring_list r = x # xs"
  shows "\<exists>r'. ring_pop r = Inr (r', x) \<and> ring_ok r' \<and> ring_list r' = xs \<and> f_size r' = f_size r \<and>
    (\<forall>k. slot r' k = slot r (k + 1)) \<and> f_num r = f_num r' + 1 \<and> f_data r' = f_data r \<and> x = f_data r ! f_tail r"
proof -
  have n: "f_num r = Suc (length xs)" using l by (metis length_Cons length_ring_list)
  define r' where "r' = r\<lparr>f_tail := (f_tail r + 1) mod f_size r, f_num := f_num r - 1\<rparr>"
  have s: "slot r' k = slot r (k + 1)" for k by (simp add: slot_def r'_def mod_simps add.commute add.left_commute)
  have f: "f_size r' = f_size r" "f_num r' = length xs" "f_data r' = f_data r" "f_head r' = f_head r" by (simp_all add: r'_def n)
  have t: "f_tail r < length (f_data r)" "slot r 0 = f_tail r" using ok by (simp_all add: ring_ok_def slot_def)
  have x: "x = f_data r ! f_tail r" using ring_list_nth[of 0 r] l n t(2) by simp
  have "ring_ok r'" using ok n s[of "length xs"] by (simp add: ring_ok_def f) (simp add: r'_def)
  moreover have "ring_list r' = xs"
  proof (rule nth_equalityI)
    fix k assume "k < length (ring_list r')"
    then have "k < length xs" by (simp add: f)
    then show "ring_list r' ! k = xs ! k" using ring_list_nth[of "k + 1" r] l n by (simp add: ring_list_nth f s)
  qed (simp add: f)
  moreover have "ring_pop r = Inr (r', x)"
    using n t(1) x by (simp add: ring_pop_def ring_empty_def inc_tail_def r'_def)
  ultimately show ?thesis using f n s x by simp
qed

lemma ring_set_ok:
  assumes "ring_ok r" and "k < f_num r"
  shows "ring_ok (ring_set r (slot r k) e) \<and> ring_list (ring_set r (slot r k) e) = (ring_list r)[k := e] \<and>
    slot (ring_set r (slot r k) e) = slot r"
proof -
  let ?r = "ring_set r (slot r k) e"
  have f: "slot ?r = slot r" "f_data ?r = (f_data r)[slot r k := e]" "f_num ?r = f_num r" "f_size ?r = f_size r"
    "f_tail ?r = f_tail r" "f_head ?r = f_head r"
    by (simp_all add: fun_eq_iff slot_def ring_set_def)
  have l: "slot r k < length (f_data r)" using slot_less[OF assms(1)] assms(1) by (simp add: ring_ok_def)
  have "ring_list ?r = (ring_list r)[k := e]"
  proof (rule nth_equalityI)
    fix j assume "j < length (ring_list ?r)"
    then have j: "j < f_num r" by (simp add: f)
    have "slot r j = slot r k \<longleftrightarrow> j = k" using assms j by (intro slot_inj) (simp_all add: ring_ok_def)
    then show "ring_list ?r ! j = (ring_list r)[k := e] ! j"
      using j assms(2) l by (auto simp: ring_list_nth f nth_list_update)
  qed (simp add: f)
  then show ?thesis using assms(1) by (simp add: ring_ok_def f)
qed

interpretation ring: bounded_queue ring_push ring_pop ring_list f_size ring_ok
proof unfold_locales
  fix s :: "'a ring" and x
  assume ok: "ring_ok s"
  show "length (ring_list s) < f_size s \<Longrightarrow>
      \<exists>t i. ring_push s x = Inr (t, i) \<and> ring_ok t \<and> ring_list t = ring_list s @ [x] \<and> f_size t = f_size s"
    using ring_push_ok[OF ok, of x] by auto
  show "length (ring_list s) = f_size s \<Longrightarrow> ring_push s x = Inl Assert_Failed" by (simp add: ring_push_def ring_full_def)
  show "ring_list s = [] \<Longrightarrow> ring_pop s = Inl Assert_Failed"
    by (simp add: ring_pop_def ring_empty_def ring_list_def)
  show "length (ring_list s) \<le> f_size s" using ok by (simp add: ring_ok_def)
  fix xs
  show "ring_list s = x # xs \<Longrightarrow> \<exists>t. ring_pop s = Inr (t, x) \<and> ring_ok t \<and> ring_list t = xs \<and> f_size t = f_size s"
    using ring_pop_ok[OF ok] by blast
qed

end
