(* ===== verification/Mem_Access.thy ===== *)
theory Mem_Access
  imports Cxx_Prelude
begin

text \<open>
  The kinds of memory access and the access that a warp sends (\<open>mem_access_type\<close> and \<open>mem_access_t\<close> of
  abstract_hardware_model.h).  A \<open>bitset\<close> is the set of its positions; the running number \<open>m_uid\<close> is left out.
\<close>

datatype mem_access_type =
    GLOBAL_ACC_R | LOCAL_ACC_R | CONST_ACC_R | TEXTURE_ACC_R | GLOBAL_ACC_W | LOCAL_ACC_W | L1_WRBK_ACC
  | L2_WRBK_ACC | INST_ACC_R | L1_WR_ALLOC_R | L2_WR_ALLOC_R | NUM_MEM_ACCESS_TYPE

fun access_type_no :: "mem_access_type \<Rightarrow> nat" where
  "access_type_no GLOBAL_ACC_R = 0" | "access_type_no LOCAL_ACC_R = 1" | "access_type_no CONST_ACC_R = 2"
| "access_type_no TEXTURE_ACC_R = 3" | "access_type_no GLOBAL_ACC_W = 4" | "access_type_no LOCAL_ACC_W = 5"
| "access_type_no L1_WRBK_ACC = 6" | "access_type_no L2_WRBK_ACC = 7" | "access_type_no INST_ACC_R = 8"
| "access_type_no L1_WR_ALLOC_R = 9" | "access_type_no L2_WR_ALLOC_R = 10" | "access_type_no NUM_MEM_ACCESS_TYPE = 11"

record mem_access =
  ma_type :: mem_access_type
  ma_addr :: u64
  ma_size :: u32
  ma_write :: bool
  ma_warp_mask :: "nat set"
  ma_byte_mask :: "nat set"
  ma_threadid_addr :: "(nat \<times> u64) list"

definition new_mem_access ::
    "mem_access_type \<Rightarrow> u64 \<Rightarrow> u32 \<Rightarrow> bool \<Rightarrow> nat set \<Rightarrow> nat set \<Rightarrow> (nat \<times> u64) list \<Rightarrow> mem_access" where
  "new_mem_access type address size' wr active_mask byte_mask threadid_addr =
     \<lparr>ma_type = type, ma_addr = address, ma_size = size', ma_write = wr, ma_warp_mask = active_mask,
      ma_byte_mask = byte_mask, ma_threadid_addr = threadid_addr\<rparr>"

text \<open>\<open>bitset<n>::set(i)\<close> throws when \<open>i\<close> is not a position.\<close>

definition bitset_set :: "nat \<Rightarrow> nat \<Rightarrow> nat set \<Rightarrow> nat set cxx" where
  "bitset_set n i s = (if i < n then Inr (insert i s) else Inl Out_Of_Range)"

definition bitset_range :: "nat \<Rightarrow> nat \<Rightarrow> nat \<Rightarrow> nat set \<Rightarrow> nat set cxx" where
  "bitset_range n idx len s = foldE (\<lambda>s i. bitset_set n (idx + i) s) s [0..<len]"

lemma bitset_range_ok: "idx + len \<le> n \<Longrightarrow> bitset_range n idx len s = Inr (s \<union> {idx..<idx + len})"
proof (induction len)
  case (Suc len)
  then show ?case by (auto simp: bitset_range_def bitset_set_def foldE_append)
qed (simp add: bitset_range_def)

end
