(* ===== verification/Cache_Stats.thy ===== *)
theory Cache_Stats
  imports Tag_Array Mem_Access
begin

text \<open>
  The counters of a cache (\<open>cache_stats\<close> and \<open>cache_sub_stats\<close> of gpu-cache.h and gpu-cache.cc): a table of how
  often each type of access had each outcome, and the cycles its ports were in use.  Counters are machine
  words and wrap around.  The printing is left out.
\<close>

section \<open>The table\<close>

fun status_no :: "cache_request_status \<Rightarrow> nat" where
  "status_no HIT = 0" | "status_no HIT_RESERVED = 1" | "status_no MISS = 2" | "status_no RESERVATION_FAIL = 3"

definition NUM_CACHE_REQUEST_STATUS :: nat where "NUM_CACHE_REQUEST_STATUS = 4"

record cache_stats =
  st_table :: "u32 list list"
  m_cache_port_available_cycles :: u64
  m_cache_data_port_busy_cycles :: u64
  m_cache_fill_port_busy_cycles :: u64

definition new_cache_stats :: cache_stats where
  "new_cache_stats = \<lparr>st_table = replicate (access_type_no NUM_MEM_ACCESS_TYPE) (replicate NUM_CACHE_REQUEST_STATUS 0),
     m_cache_port_available_cycles = 0, m_cache_data_port_busy_cycles = 0, m_cache_fill_port_busy_cycles = 0\<rparr>"

definition stats_clear :: "cache_stats \<Rightarrow> cache_stats" where
  "stats_clear cs = \<lparr>st_table = map (map (\<lambda>_. 0)) (st_table cs),
     m_cache_port_available_cycles = 0, m_cache_data_port_busy_cycles = 0, m_cache_fill_port_busy_cycles = 0\<rparr>"

definition check_valid :: "int \<Rightarrow> int \<Rightarrow> bool" where
  "check_valid type status \<longleftrightarrow> 0 \<le> type \<and> type < int (access_type_no NUM_MEM_ACCESS_TYPE) \<and>
     0 \<le> status \<and> status < int NUM_CACHE_REQUEST_STATUS"

definition cell :: "cache_stats \<Rightarrow> nat \<Rightarrow> nat \<Rightarrow> u32" where
  "cell cs type status = st_table cs ! type ! status"

definition stats_at :: "cache_stats \<Rightarrow> int \<Rightarrow> int \<Rightarrow> u32 cxx" where
  "stats_at cs type status = assertE (check_valid type status) (Inr (cell cs (nat type) (nat status)))"

definition inc_stats :: "cache_stats \<Rightarrow> int \<Rightarrow> int \<Rightarrow> cache_stats cxx" where
  "inc_stats cs type status = assertE (check_valid type status)
     (Inr (cs\<lparr>st_table := (st_table cs)[nat type := (st_table cs ! nat type)[nat status := cell cs (nat type) (nat status) + 1]]\<rparr>))"

definition select_stats_status :: "cache_request_status \<Rightarrow> cache_request_status \<Rightarrow> cache_request_status" where
  "select_stats_status p a = (if p = HIT_RESERVED \<and> a \<noteq> RESERVATION_FAIL then p else a)"

text \<open>The loops over all types and outcomes.\<close>

definition all_cells :: "(nat \<times> nat) list" where
  "all_cells = [(type, status). type \<leftarrow> [0..<access_type_no NUM_MEM_ACCESS_TYPE], status \<leftarrow> [0..<NUM_CACHE_REQUEST_STATUS]]"

definition stats_plus :: "cache_stats \<Rightarrow> cache_stats \<Rightarrow> cache_stats" where
  "stats_plus a b = \<lparr>st_table = map (\<lambda>type. map (\<lambda>status. cell a type status + cell b type status)
       [0..<NUM_CACHE_REQUEST_STATUS]) [0..<access_type_no NUM_MEM_ACCESS_TYPE],
     m_cache_port_available_cycles = m_cache_port_available_cycles a + m_cache_port_available_cycles b,
     m_cache_data_port_busy_cycles = m_cache_data_port_busy_cycles a + m_cache_data_port_busy_cycles b,
     m_cache_fill_port_busy_cycles = m_cache_fill_port_busy_cycles a + m_cache_fill_port_busy_cycles b\<rparr>"

definition stats_sum :: "cache_stats \<Rightarrow> mem_access_type list \<Rightarrow> cache_request_status list \<Rightarrow> u32 cxx" where
  "stats_sum cs types statuses =
     foldE (\<lambda>total (t, s). bindE (stats_at cs (int (access_type_no t)) (int (status_no s))) (\<lambda>n. Inr (total + n))) 0
       [(t, s). t \<leftarrow> types, s \<leftarrow> statuses]"

definition sample_cache_port_utility :: "cache_stats \<Rightarrow> bool \<Rightarrow> bool \<Rightarrow> cache_stats" where
  "sample_cache_port_utility cs data_busy fill_busy =
     cs\<lparr>m_cache_port_available_cycles := m_cache_port_available_cycles cs + 1,
        m_cache_data_port_busy_cycles := m_cache_data_port_busy_cycles cs + (if data_busy then 1 else 0),
        m_cache_fill_port_busy_cycles := m_cache_fill_port_busy_cycles cs + (if fill_busy then 1 else 0)\<rparr>"

section \<open>The summary\<close>

record cache_sub_stats =
  accesses :: u32
  misses :: u32
  pending_hits :: u32
  res_fails :: u32
  port_available_cycles :: u64
  data_port_busy_cycles :: u64
  fill_port_busy_cycles :: u64

definition sub_clear :: cache_sub_stats where
  "sub_clear = \<lparr>accesses = 0, misses = 0, pending_hits = 0, res_fails = 0, port_available_cycles = 0,
     data_port_busy_cycles = 0, fill_port_busy_cycles = 0\<rparr>"

definition sub_plus :: "cache_sub_stats \<Rightarrow> cache_sub_stats \<Rightarrow> cache_sub_stats" where
  "sub_plus a b = \<lparr>accesses = accesses a + accesses b, misses = misses a + misses b,
     pending_hits = pending_hits a + pending_hits b, res_fails = res_fails a + res_fails b,
     port_available_cycles = port_available_cycles a + port_available_cycles b,
     data_port_busy_cycles = data_port_busy_cycles a + data_port_busy_cycles b,
     fill_port_busy_cycles = fill_port_busy_cycles a + fill_port_busy_cycles b\<rparr>"

definition sub_step :: "cache_stats \<Rightarrow> cache_sub_stats \<Rightarrow> nat \<times> nat \<Rightarrow> cache_sub_stats" where
  "sub_step cs t ts =
     (let n = cell cs (fst ts) (snd ts); s = snd ts
      in t\<lparr>accesses := accesses t + (if s = status_no HIT \<or> s = status_no MISS \<or> s = status_no HIT_RESERVED then n else 0),
           misses := misses t + (if s = status_no MISS then n else 0),
           pending_hits := pending_hits t + (if s = status_no HIT_RESERVED then n else 0),
           res_fails := res_fails t + (if s = status_no RESERVATION_FAIL then n else 0)\<rparr>)"

definition get_sub_stats :: "cache_stats \<Rightarrow> cache_sub_stats" where
  "get_sub_stats cs = (foldl (sub_step cs) sub_clear all_cells)
     \<lparr>port_available_cycles := m_cache_port_available_cycles cs,
      data_port_busy_cycles := m_cache_data_port_busy_cycles cs,
      fill_port_busy_cycles := m_cache_fill_port_busy_cycles cs\<rparr>"

section \<open>Counting\<close>

definition stats_ok :: "cache_stats \<Rightarrow> bool" where
  "stats_ok cs \<longleftrightarrow> length (st_table cs) = 11 \<and> (\<forall>r \<in> set (st_table cs). length r = 4)"

lemma new_stats_ok: "stats_ok new_cache_stats"
  by (simp add: stats_ok_def new_cache_stats_def NUM_CACHE_REQUEST_STATUS_def)

lemma all_cells_range: "(t, s) \<in> set all_cells \<Longrightarrow> t < 11 \<and> s < 4"
  by (auto simp: all_cells_def NUM_CACHE_REQUEST_STATUS_def)

lemma cell_plus: "t < 11 \<Longrightarrow> s < 4 \<Longrightarrow> cell (stats_plus a b) t s = cell a t s + cell b t s"
  by (simp add: cell_def stats_plus_def NUM_CACHE_REQUEST_STATUS_def)

lemma sub_step_plus:
  "(t, s) \<in> set all_cells \<Longrightarrow>
    sub_step (stats_plus a b) (sub_plus x y) (t, s) = sub_plus (sub_step a x (t, s)) (sub_step b y (t, s))"
  by (simp add: sub_step_def sub_plus_def cell_plus Let_def all_cells_range algebra_simps)

lemma foldl_plus:
  assumes "\<And>x y p. p \<in> set ps \<Longrightarrow> f (g x y) p = g (f1 x p) (f2 y p)"
  shows "foldl f (g x y) ps = g (foldl f1 x ps) (foldl f2 y ps)"
  using assms by (induction ps arbitrary: x y) auto

text \<open>The summary of two caches counted together is the sum of their summaries, so accumulating over the
  cores of a GPU before or after summarising gives the same numbers (wrap-around included).\<close>
theorem sub_stats_additive:
  "get_sub_stats (stats_plus a b) = sub_plus (get_sub_stats a) (get_sub_stats b)"
proof -
  have "sub_clear = sub_plus sub_clear sub_clear" by (simp add: sub_plus_def sub_clear_def)
  then have "foldl (sub_step (stats_plus a b)) sub_clear all_cells =
      sub_plus (foldl (sub_step a) sub_clear all_cells) (foldl (sub_step b) sub_clear all_cells)"
    using foldl_plus[where f = "sub_step (stats_plus a b)" and g = sub_plus and ps = all_cells
        and ?f1.0 = "sub_step a" and ?f2.0 = "sub_step b" and x = sub_clear and y = sub_clear] sub_step_plus
    by (metis prod.exhaust_sel)
  then show ?thesis by (simp add: get_sub_stats_def sub_plus_def stats_plus_def)
qed

lemma inc_stats_ok:
  assumes "stats_ok cs" and "t \<noteq> NUM_MEM_ACCESS_TYPE"
  shows "\<exists>cs'. inc_stats cs (int (access_type_no t)) (int (status_no s)) = Inr cs' \<and> stats_ok cs'"
proof -
  have t: "access_type_no t < 11" using assms(2) by (cases t) auto
  have s: "status_no s < 4" by (cases s) auto
  let ?t = "access_type_no t" and ?s = "status_no s"
  let ?row = "(st_table cs ! ?t)[?s := cell cs ?t ?s + 1]"
  have "length ?row = 4" using assms(1) t by (auto simp: stats_ok_def)
  then have "\<forall>r \<in> set ((st_table cs)[?t := ?row]). length r = 4"
    using assms(1) set_update_subset_insert[of "st_table cs" ?t ?row] unfolding stats_ok_def by blast
  then show ?thesis using assms(1) t s
    by (simp add: inc_stats_def check_valid_def NUM_CACHE_REQUEST_STATUS_def stats_ok_def)
qed

lemma sample_ok [simp]: "stats_ok (sample_cache_port_utility cs d f) = stats_ok cs"
  by (simp add: stats_ok_def sample_cache_port_utility_def)

end
