(* ===== verification/Mshr_Table.thy ===== *)
theory Mshr_Table
  imports Cxx_Prelude "HOL-Library.AList"
begin

text \<open>
  The miss status holding registers (\<open>mshr_table\<close> of gpu-cache.h and gpu-cache.cc): requests that wait for the
  same block are merged in one entry, a fill marks the entry ready, and its requests are then handed out one
  by one.  The hash table is an association list without repeated keys; \<open>mf->isatomic()\<close> is an argument.
\<close>

section \<open>The table\<close>

record 'mf mshr_entry =
  e_list :: "'mf list"
  e_has_atomic :: bool

definition new_entry :: "'mf mshr_entry" where
  "new_entry = \<lparr>e_list = [], e_has_atomic = False\<rparr>"

record 'mf mshr_table =
  m_num_entries :: nat
  m_max_merged :: nat
  m_data :: "(u64 \<times> 'mf mshr_entry) list"
  m_current_response :: "u64 list"

definition new_mshr_table :: "nat \<Rightarrow> nat \<Rightarrow> 'mf mshr_table" where
  "new_mshr_table num_entries max_merged =
     \<lparr>m_num_entries = num_entries, m_max_merged = max_merged, m_data = [], m_current_response = []\<rparr>"

text \<open>\<open>m_data[block_addr]\<close> makes a new entry if there is none.\<close>

definition entry_at :: "'mf mshr_table \<Rightarrow> u64 \<Rightarrow> 'mf mshr_entry" where
  "entry_at t addr = (case map_of (m_data t) addr of None \<Rightarrow> new_entry | Some e \<Rightarrow> e)"

definition put_entry :: "'mf mshr_table \<Rightarrow> u64 \<Rightarrow> 'mf mshr_entry \<Rightarrow> 'mf mshr_table" where
  "put_entry t addr e = t\<lparr>m_data := AList.update addr e (m_data t)\<rparr>"

definition mshr_probe :: "'mf mshr_table \<Rightarrow> u64 \<Rightarrow> bool" where
  "mshr_probe t addr = (map_of (m_data t) addr \<noteq> None)"

definition mshr_full :: "'mf mshr_table \<Rightarrow> u64 \<Rightarrow> bool" where
  "mshr_full t addr =
     (case map_of (m_data t) addr of
        Some e \<Rightarrow> m_max_merged t \<le> length (e_list e)
      | None \<Rightarrow> m_num_entries t \<le> length (m_data t))"

definition mshr_add :: "'mf mshr_table \<Rightarrow> u64 \<Rightarrow> 'mf \<Rightarrow> bool \<Rightarrow> 'mf mshr_table cxx" where
  "mshr_add t addr mf atomic =
     (let e = (entry_at t addr)\<lparr>e_list := e_list (entry_at t addr) @ [mf]\<rparr>;
          t1 = put_entry t addr e
      in assertE (length (m_data t1) \<le> m_num_entries t)
           (assertE (length (e_list e) \<le> m_max_merged t)
              (Inr (if atomic then put_entry t1 addr (e\<lparr>e_has_atomic := True\<rparr>) else t1))))"

definition mshr_busy :: "'mf mshr_table \<Rightarrow> bool" where "mshr_busy t = False"

definition mark_ready :: "'mf mshr_table \<Rightarrow> u64 \<Rightarrow> ('mf mshr_table \<times> bool) cxx" where
  "mark_ready t addr =
     assertE (\<not> mshr_busy t)
       (case map_of (m_data t) addr of
          None \<Rightarrow> Inl Assert_Failed
        | Some e \<Rightarrow>
            (let t1 = t\<lparr>m_current_response := m_current_response t @ [addr]\<rparr>
             in assertE (length (m_current_response t1) \<le> length (m_data t1)) (Inr (t1, e_has_atomic e))))"

definition access_ready :: "'mf mshr_table \<Rightarrow> bool" where
  "access_ready t = (m_current_response t \<noteq> [])"

definition next_access :: "'mf mshr_table \<Rightarrow> ('mf mshr_table \<times> 'mf) cxx" where
  "next_access t =
     assertE (access_ready t)
       (let addr = hd (m_current_response t); e = entry_at t addr
        in assertE (e_list e \<noteq> [])
             (let rest = tl (e_list e)
              in Inr (if rest = []
                      then t\<lparr>m_data := AList.delete addr (m_data t), m_current_response := tl (m_current_response t)\<rparr>
                      else put_entry t addr (e\<lparr>e_list := rest\<rparr>),
                      hd (e_list e))))"

definition check_mshr_parameters :: "'mf mshr_table \<Rightarrow> nat \<Rightarrow> nat \<Rightarrow> unit cxx" where
  "check_mshr_parameters t num_entries max_merged =
     assertE (m_num_entries t = num_entries) (assertE (m_max_merged t = max_merged) (Inr ()))"

section \<open>The invariant\<close>

definition mshr_ok :: "'mf mshr_table \<Rightarrow> bool" where
  "mshr_ok t \<longleftrightarrow> distinct (map fst (m_data t)) \<and> length (m_data t) \<le> m_num_entries t \<and>
     (\<forall>e \<in> ran (map_of (m_data t)). e_list e \<noteq> [] \<and> length (e_list e) \<le> m_max_merged t) \<and>
     0 < m_max_merged t \<and> distinct (m_current_response t) \<and> set (m_current_response t) \<subseteq> dom (map_of (m_data t))"

definition waiting :: "'mf mshr_table \<Rightarrow> u64 \<Rightarrow> 'mf list" where
  "waiting t addr = e_list (entry_at t addr)"

lemma map_of_put [simp]: "map_of (m_data (put_entry t a e)) = (map_of (m_data t))(a \<mapsto> e)"
  by (simp add: put_entry_def update_conv')

lemma put_entry_frame [simp]:
  "m_num_entries (put_entry t a e) = m_num_entries t" "m_max_merged (put_entry t a e) = m_max_merged t"
  "m_current_response (put_entry t a e) = m_current_response t"
  by (simp_all add: put_entry_def)

lemma card_keys: "distinct (map fst xs) \<Longrightarrow> length xs = card (dom (map_of xs))"
  by (metis distinct_card dom_map_of_conv_image_fst length_map set_map)

lemma distinct_put: "distinct (map fst (m_data t)) \<Longrightarrow> distinct (map fst (m_data (put_entry t a e)))"
  by (simp add: put_entry_def distinct_update)

lemma length_put:
  assumes "distinct (map fst (m_data t))"
  shows "length (m_data (put_entry t a e)) = (if mshr_probe t a then length (m_data t) else Suc (length (m_data t)))"
proof -
  have "length (m_data (put_entry t a e)) = card (insert a (dom (map_of (m_data t))))"
    using card_keys[OF distinct_put[OF assms]] by simp
  moreover have "mshr_probe t a \<longleftrightarrow> a \<in> dom (map_of (m_data t))" by (auto simp: mshr_probe_def)
  ultimately show ?thesis using card_keys[OF assms] by (simp add: card_insert_if finite_dom_map_of)
qed

lemma waiting_of: "waiting t a = (case map_of (m_data t) a of None \<Rightarrow> [] | Some e \<Rightarrow> e_list e)"
  by (simp add: waiting_def entry_at_def new_entry_def split: option.splits)

lemma ran_update_subset: "e \<in> ran (m(a \<mapsto> x)) \<Longrightarrow> e = x \<or> e \<in> ran m"
  by (auto simp: ran_def split: if_split_asm)

lemma ran_clear_subset: "e \<in> ran (m(a := None)) \<Longrightarrow> e \<in> ran m"
  by (auto simp: ran_def split: if_split_asm)

lemma mshr_add_ok:
  assumes ok: "mshr_ok t" and room: "\<not> mshr_full t addr"
  shows "\<exists>t'. mshr_add t addr mf atomic = Inr t' \<and> mshr_ok t' \<and>
    (\<forall>a. waiting t' a = (if a = addr then waiting t a @ [mf] else waiting t a)) \<and>
    m_current_response t' = m_current_response t \<and> m_num_entries t' = m_num_entries t \<and> m_max_merged t' = m_max_merged t"
proof -
  let ?e = "(entry_at t addr)\<lparr>e_list := waiting t addr @ [mf]\<rparr>"
  define t1 where "t1 = put_entry t addr ?e"
  define t' where "t' = (if atomic then put_entry t1 addr (?e\<lparr>e_has_atomic := True\<rparr>) else t1)"
  have d: "distinct (map fst (m_data t))" and len: "length (m_data t) \<le> m_num_entries t" using ok by (simp_all add: mshr_ok_def)
  have d1: "distinct (map fst (m_data t1))" unfolding t1_def by (rule distinct_put[OF d])
  have l1: "length (m_data t1) \<le> m_num_entries t"
    using room len length_put[OF d] by (auto simp: t1_def mshr_full_def mshr_probe_def split: option.splits)
  have "length (waiting t addr) < m_max_merged t"
  proof (cases "map_of (m_data t) addr")
    case None then show ?thesis using ok by (simp add: mshr_ok_def waiting_of)
  next
    case (Some e) then show ?thesis using room by (simp add: mshr_full_def waiting_of)
  qed
  then have merged: "length (e_list ?e) \<le> m_max_merged t" by simp
  obtain e where e: "map_of (m_data t') = (map_of (m_data t))(addr \<mapsto> e)" "e_list e = waiting t addr @ [mf]"
    by (cases atomic) (auto simp: t'_def t1_def)
  have frame: "m_current_response t' = m_current_response t" "m_num_entries t' = m_num_entries t"
    "m_max_merged t' = m_max_merged t" by (simp_all add: t'_def t1_def)
  have "distinct (map fst (m_data t'))" "length (m_data t') \<le> m_num_entries t"
    using d1 l1 distinct_put[OF d1] length_put[OF d1] by (auto simp: t'_def mshr_probe_def t1_def)
  moreover have "\<forall>x \<in> ran (map_of (m_data t')). e_list x \<noteq> [] \<and> length (e_list x) \<le> m_max_merged t"
    using ok merged e(2) unfolding e(1) mshr_ok_def by (auto dest!: ran_update_subset)
  ultimately have "mshr_ok t'" using ok e(1) frame by (auto simp: mshr_ok_def)
  moreover have "mshr_add t addr mf atomic = Inr t'"
    using l1 merged by (simp add: mshr_add_def Let_def t'_def t1_def waiting_def)
  moreover have "\<forall>a. waiting t' a = (if a = addr then waiting t a @ [mf] else waiting t a)"
    using e by (simp add: waiting_of)
  ultimately show ?thesis using frame by blast
qed

lemma mark_ready_ok:
  assumes ok: "mshr_ok t" and pend: "mshr_probe t addr" "addr \<notin> set (m_current_response t)"
  shows "\<exists>t' b. mark_ready t addr = Inr (t', b) \<and> mshr_ok t' \<and> m_data t' = m_data t \<and>
    m_current_response t' = m_current_response t @ [addr] \<and> m_num_entries t' = m_num_entries t \<and> m_max_merged t' = m_max_merged t"
proof -
  obtain e where e: "map_of (m_data t) addr = Some e" using pend(1) by (auto simp: mshr_probe_def)
  have d: "distinct (map fst (m_data t))" using ok by (simp add: mshr_ok_def)
  have "set (m_current_response t @ [addr]) \<subseteq> dom (map_of (m_data t))" using ok e by (auto simp: mshr_ok_def)
  then have "card (set (m_current_response t @ [addr])) \<le> length (m_data t)"
    unfolding card_keys[OF d] by (intro card_mono finite_dom_map_of)
  moreover have "distinct (m_current_response t @ [addr])" using ok pend(2) by (simp add: mshr_ok_def)
  ultimately have "length (m_current_response t @ [addr]) \<le> length (m_data t)" by (simp only: distinct_card)
  then show ?thesis using ok e pend by (auto simp: mark_ready_def mshr_busy_def Let_def mshr_ok_def)
qed

lemma next_access_ok:
  assumes ok: "mshr_ok t" and ready: "access_ready t"
  shows "\<exists>t' mf. next_access t = Inr (t', mf) \<and> mshr_ok t' \<and>
    waiting t (hd (m_current_response t)) = mf # waiting t' (hd (m_current_response t)) \<and>
    (\<forall>a. a \<noteq> hd (m_current_response t) \<longrightarrow> waiting t' a = waiting t a) \<and>
    (m_current_response t' = m_current_response t \<and> dom (map_of (m_data t')) = dom (map_of (m_data t)) \<or>
     m_current_response t' = tl (m_current_response t) \<and>
       dom (map_of (m_data t')) = dom (map_of (m_data t)) - {hd (m_current_response t)}) \<and>
    m_num_entries t' = m_num_entries t \<and> m_max_merged t' = m_max_merged t"
proof -
  obtain addr resp where r: "m_current_response t = addr # resp" using ready by (auto simp: access_ready_def neq_Nil_conv)
  obtain e where e: "map_of (m_data t) addr = Some e" using ok r by (auto simp: mshr_ok_def)
  then have en: "entry_at t addr = e" by (simp add: entry_at_def)
  have ne: "e_list e \<noteq> []" and le: "length (e_list e) \<le> m_max_merged t"
    using ok ranI[of "map_of (m_data t)", OF e] unfolding mshr_ok_def by blast+
  have d: "distinct (map fst (m_data t))" using ok by (simp add: mshr_ok_def)
  show ?thesis
  proof (cases "tl (e_list e) = []")
    case True
    define u where "u = t\<lparr>m_data := AList.delete addr (m_data t), m_current_response := resp\<rparr>"
    have f: "m_data u = AList.delete addr (m_data t)" "m_current_response u = resp" "m_num_entries u = m_num_entries t"
      "m_max_merged u = m_max_merged t" by (simp_all add: u_def)
    have mo: "map_of (m_data u) = (map_of (m_data t))(addr := None)" by (simp add: f delete_conv')
    have "length (m_data u) \<le> length (m_data t)" unfolding f by (rule length_delete_le)
    moreover have "\<forall>x \<in> ran (map_of (m_data u)). e_list x \<noteq> [] \<and> length (e_list x) \<le> m_max_merged t"
      using ok ran_clear_subset[of _ "map_of (m_data t)" addr] unfolding mo mshr_ok_def by blast
    moreover have "set resp \<subseteq> dom (map_of (m_data u))" "distinct resp"
      using ok r unfolding mo mshr_ok_def by (simp, blast, simp)
    moreover have "distinct (map fst (m_data u))" unfolding f by (rule distinct_delete[OF d])
    moreover have "length (m_data t) \<le> m_num_entries t" "0 < m_max_merged t" using ok by (simp_all add: mshr_ok_def)
    ultimately have "mshr_ok u" unfolding mshr_ok_def f(2-4) by linarith
    moreover have "waiting t addr = hd (e_list e) # waiting u addr"
      using e True ne by (simp add: waiting_of mo) (metis list.collapse)
    moreover have "\<forall>a. a \<noteq> addr \<longrightarrow> waiting u a = waiting t a" by (simp add: waiting_of mo)
    moreover have "next_access t = Inr (u, hd (e_list e))"
      using ready True ne r en by (simp add: next_access_def Let_def u_def)
    ultimately show ?thesis using r f(2-4) mo by simp
  next
    case False
    let ?t = "put_entry t addr (e\<lparr>e_list := tl (e_list e)\<rparr>)"
    have "length (m_data ?t) = length (m_data t)" using length_put[OF d] e by (simp add: mshr_probe_def)
    moreover have "\<forall>x \<in> ran (map_of (m_data ?t)). e_list x \<noteq> [] \<and> length (e_list x) \<le> m_max_merged t"
      using ok False le unfolding map_of_put mshr_ok_def by (auto dest!: ran_update_subset)
    ultimately have "mshr_ok ?t" using ok distinct_put[OF d] by (auto simp: mshr_ok_def)
    moreover have "waiting t addr = hd (e_list e) # waiting ?t addr" using e ne by (simp add: waiting_of)
    moreover have "\<forall>a. a \<noteq> addr \<longrightarrow> waiting ?t a = waiting t a" by (simp add: waiting_of)
    moreover have "dom (map_of (m_data ?t)) = dom (map_of (m_data t))" using e by auto
    ultimately show ?thesis using ready False ne r en by (simp add: next_access_def Let_def)
  qed
qed

section \<open>The table under a cache\<close>

text \<open>
  The operations as the caches call them: a miss is added when \<open>full\<close> leaves room and its block is requested from
  below when the table does not have it yet; each request is answered once; the load/store unit takes an access
  when one is ready.  The requests outstanding below, and what was accepted and handed out, are kept beside the table.
\<close>

record 'mf mshr_sys =
  tbl :: "'mf mshr_table"
  sent :: "u64 set"
  accepted :: "(u64 \<times> 'mf) list"
  served :: "(u64 \<times> 'mf) list"

datatype 'mf mshr_op = Miss u64 'mf bool | Response u64 | Drain

fun mshr_step :: "'mf mshr_sys \<Rightarrow> 'mf mshr_op \<Rightarrow> 'mf mshr_sys cxx" where
  "mshr_step s (Miss a mf atomic) =
     (if mshr_full (tbl s) a then Inr s
      else bindE (mshr_add (tbl s) a mf atomic)
        (\<lambda>t. Inr (s\<lparr>tbl := t, sent := (if mshr_probe (tbl s) a then sent s else insert a (sent s)),
                      accepted := accepted s @ [(a, mf)]\<rparr>)))"
| "mshr_step s (Response a) =
     (if a \<in> sent s then bindE (mark_ready (tbl s) a) (\<lambda>(t, b). Inr (s\<lparr>tbl := t, sent := sent s - {a}\<rparr>)) else Inr s)"
| "mshr_step s Drain =
     (if access_ready (tbl s)
      then bindE (next_access (tbl s))
        (\<lambda>(t, mf). Inr (s\<lparr>tbl := t, served := served s @ [(hd (m_current_response (tbl s)), mf)]\<rparr>))
      else Inr s)"

definition new_mshr_sys :: "nat \<Rightarrow> nat \<Rightarrow> 'mf mshr_sys" where
  "new_mshr_sys n k = \<lparr>tbl = new_mshr_table n k, sent = {}, accepted = [], served = []\<rparr>"

definition of_block :: "u64 \<Rightarrow> (u64 \<times> 'mf) list \<Rightarrow> 'mf list" where
  "of_block a xs = map snd (filter (\<lambda>(b, _). b = a) xs)"

definition pending_blocks :: "'mf mshr_table \<Rightarrow> u64 set" where
  "pending_blocks t = dom (map_of (m_data t))"

definition sys_ok :: "'mf mshr_sys \<Rightarrow> bool" where
  "sys_ok s \<longleftrightarrow> mshr_ok (tbl s) \<and> sent s \<inter> set (m_current_response (tbl s)) = {} \<and>
     sent s \<union> set (m_current_response (tbl s)) = pending_blocks (tbl s) \<and>
     (\<forall>a. of_block a (accepted s) = of_block a (served s) @ waiting (tbl s) a)"

lemma of_block_simps [simp]:
  "of_block a [] = []" "of_block a (xs @ [(b, mf)]) = (if b = a then of_block a xs @ [mf] else of_block a xs)"
  by (simp_all add: of_block_def)

lemma probe_pending: "mshr_probe t a \<longleftrightarrow> a \<in> pending_blocks t"
  by (auto simp: mshr_probe_def pending_blocks_def)

lemma waiting_pending: "mshr_ok t \<Longrightarrow> waiting t a \<noteq> [] \<longleftrightarrow> a \<in> pending_blocks t"
  unfolding mshr_ok_def pending_blocks_def waiting_of
  by (cases "map_of (m_data t) a") (simp_all add: ranI domIff)

lemma pending_by_waiting: "mshr_ok t \<Longrightarrow> pending_blocks t = {a. waiting t a \<noteq> []}"
  using waiting_pending by blast

definition sys_of :: "nat \<Rightarrow> nat \<Rightarrow> 'mf mshr_sys \<Rightarrow> bool" where
  "sys_of n k s \<longleftrightarrow> sys_ok s \<and> m_num_entries (tbl s) = n \<and> m_max_merged (tbl s) = k"

lemma mshr_step_miss:
  assumes "sys_of n k s" and room: "\<not> mshr_full (tbl s) a"
  shows "\<exists>u. mshr_step s (Miss a mf atomic) = Inr u \<and> sys_of n k u \<and> accepted u = accepted s @ [(a, mf)]"
proof -
  have ok: "sys_ok s" and m: "mshr_ok (tbl s)" and nk: "m_num_entries (tbl s) = n" "m_max_merged (tbl s) = k"
    using assms(1) by (simp_all add: sys_of_def sys_ok_def)
  obtain t where t: "mshr_add (tbl s) a mf atomic = Inr t" "mshr_ok t"
      "\<forall>b. waiting t b = (if b = a then waiting (tbl s) b @ [mf] else waiting (tbl s) b)"
      "m_current_response t = m_current_response (tbl s)"
      "m_num_entries t = m_num_entries (tbl s)" "m_max_merged t = m_max_merged (tbl s)"
    using mshr_add_ok[OF m room] by blast
  have p: "pending_blocks t = insert a (pending_blocks (tbl s))"
    unfolding pending_by_waiting[OF t(2)] pending_by_waiting[OF m] using t(3) by auto
  let ?u = "s\<lparr>tbl := t, sent := (if mshr_probe (tbl s) a then sent s else insert a (sent s)),
                accepted := accepted s @ [(a, mf)]\<rparr>"
  have "mshr_step s (Miss a mf atomic) = Inr ?u" using room t(1) by simp
  moreover have "sys_of n k ?u"
    using ok t p nk unfolding sys_of_def sys_ok_def probe_pending by auto
  ultimately show ?thesis by simp
qed

lemma mshr_step_response:
  assumes "sys_of n k s" and sent: "a \<in> sent s"
  shows "\<exists>u. mshr_step s (Response a) = Inr u \<and> sys_of n k u \<and> sent u = sent s - {a} \<and>
    m_data (tbl u) = m_data (tbl s) \<and> accepted u = accepted s \<and> served u = served s"
proof -
  have ok: "sys_ok s" and m: "mshr_ok (tbl s)" and nk: "m_num_entries (tbl s) = n" "m_max_merged (tbl s) = k"
    using assms(1) by (simp_all add: sys_of_def sys_ok_def)
  have a: "mshr_probe (tbl s) a" "a \<notin> set (m_current_response (tbl s))"
    using ok sent unfolding sys_ok_def probe_pending by blast+
  obtain t b where t: "mark_ready (tbl s) a = Inr (t, b)" "mshr_ok t" "m_data t = m_data (tbl s)"
      "m_current_response t = m_current_response (tbl s) @ [a]"
      "m_num_entries t = m_num_entries (tbl s)" "m_max_merged t = m_max_merged (tbl s)"
    using mark_ready_ok[OF m a] by blast
  have w: "waiting t = waiting (tbl s)" "pending_blocks t = pending_blocks (tbl s)"
    by (simp_all add: fun_eq_iff waiting_of pending_blocks_def t(3))
  have "sys_of n k (s\<lparr>tbl := t, sent := sent s - {a}\<rparr>)"
    using ok t w nk sent unfolding sys_of_def sys_ok_def by auto
  then show ?thesis using sent t by simp
qed

lemma mshr_step_drain:
  assumes "sys_of n k s" and ready: "access_ready (tbl s)"
  shows "\<exists>u a mf. mshr_step s Drain = Inr u \<and> sys_of n k u \<and> sent u = sent s \<and> accepted u = accepted s \<and>
    served u = served s @ [(a, mf)] \<and> a \<in> pending_blocks (tbl s) \<and>
    pending_blocks (tbl u) \<subseteq> pending_blocks (tbl s) \<and> waiting (tbl s) = (waiting (tbl u))(a := mf # waiting (tbl u) a)"
proof -
  have ok: "sys_ok s" and m: "mshr_ok (tbl s)" and nk: "m_num_entries (tbl s) = n" "m_max_merged (tbl s) = k"
    using assms(1) by (simp_all add: sys_of_def sys_ok_def)
  let ?a = "hd (m_current_response (tbl s))"
  obtain t mf where t: "next_access (tbl s) = Inr (t, mf)" "mshr_ok t"
      "waiting (tbl s) ?a = mf # waiting t ?a" "\<forall>b. b \<noteq> ?a \<longrightarrow> waiting t b = waiting (tbl s) b"
      "m_current_response t = m_current_response (tbl s) \<and> pending_blocks t = pending_blocks (tbl s) \<or>
       m_current_response t = tl (m_current_response (tbl s)) \<and> pending_blocks t = pending_blocks (tbl s) - {?a}"
      "m_num_entries t = m_num_entries (tbl s)" "m_max_merged t = m_max_merged (tbl s)"
    using next_access_ok[OF m ready] unfolding pending_blocks_def by blast
  obtain resp where r: "m_current_response (tbl s) = ?a # resp"
    using ready by (metis access_ready_def list.collapse)
  have h: "?a \<in> set (m_current_response (tbl s))" using r by (metis list.set_intros(1))
  have "distinct (?a # resp)" using m r unfolding mshr_ok_def by metis
  then have a: "?a \<notin> set resp" "?a \<in> pending_blocks (tbl s)" "?a \<notin> sent s"
    using ok h unfolding sys_ok_def by (simp, blast, blast)
  have w: "waiting (tbl s) = (waiting t)(?a := mf # waiting t ?a)" using t(3,4) by auto
  have S: "set (m_current_response (tbl s)) = insert ?a (set resp)" "set (tl (m_current_response (tbl s))) = set resp"
    using r by (metis list.set(2), metis list.sel(3))
  have "sent s \<inter> set (m_current_response t) = {} \<and> sent s \<union> set (m_current_response t) = pending_blocks t"
    using t(5)
  proof
    assume "m_current_response t = m_current_response (tbl s) \<and> pending_blocks t = pending_blocks (tbl s)"
    then show ?thesis using ok unfolding sys_ok_def by simp
  next
    assume "m_current_response t = tl (m_current_response (tbl s)) \<and> pending_blocks t = pending_blocks (tbl s) - {?a}"
    then show ?thesis using ok a S unfolding sys_ok_def by auto
  qed
  then have "sys_of n k (s\<lparr>tbl := t, served := served s @ [(?a, mf)]\<rparr>)"
    using ok t(2,3,4,6,7) nk unfolding sys_of_def sys_ok_def by simp
  then show ?thesis using ready t(1,5) a(2) w by auto
qed

lemma mshr_step_ok:
  assumes "sys_of n k s"
  shows "\<exists>u. mshr_step s op = Inr u \<and> sys_of n k u"
proof (cases op)
  case (Miss a mf atomic)
  then show ?thesis using assms mshr_step_miss[OF assms, of a mf atomic] by (cases "mshr_full (tbl s) a") auto
next
  case (Response a)
  then show ?thesis using assms mshr_step_response[OF assms, of a] by (cases "a \<in> sent s") auto
next
  case Drain
  then show ?thesis using assms mshr_step_drain[OF assms] by (cases "access_ready (tbl s)") auto
qed

interpretation mshr_machine: total_machine mshr_step "sys_of n k" for n k
  by unfold_locales (metis Inr_inject mshr_step_ok, metis okE_iff mshr_step_ok)

lemma new_sys_ok: "0 < k \<Longrightarrow> sys_of n k (new_mshr_sys n k)"
  by (simp add: sys_of_def sys_ok_def new_mshr_sys_def new_mshr_table_def mshr_ok_def pending_blocks_def waiting_of)

lemma waiting_bound: "mshr_ok t \<Longrightarrow> length (waiting t a) \<le> m_max_merged t"
  unfolding mshr_ok_def waiting_of by (cases "map_of (m_data t) a") (simp_all add: ranI)

lemma pending_le: "sys_of n k s \<Longrightarrow> card (pending_blocks (tbl s)) \<le> n"
  unfolding sys_of_def sys_ok_def mshr_ok_def pending_blocks_def by (metis card_keys)

text \<open>Claim C16. Under any sequence of misses, responses and drains no assertion of the MSHR table fails, the table keeps
  to its size and merging limit, and for every block the accesses handed out followed by those still waiting are the
  accesses accepted, in their order; a block waits exactly as long as its response is outstanding or being handed out.\<close>
theorem mshr_run:
  assumes "0 < k"
  shows "\<exists>s. foldE mshr_step (new_mshr_sys n k) ops = Inr s \<and> length (m_data (tbl s)) \<le> n \<and>
    (\<forall>a. of_block a (accepted s) = of_block a (served s) @ waiting (tbl s) a \<and> length (waiting (tbl s) a) \<le> k \<and>
         (waiting (tbl s) a \<noteq> [] \<longleftrightarrow> a \<in> sent s \<union> set (m_current_response (tbl s))))"
proof -
  obtain s where s: "foldE mshr_step (new_mshr_sys n k) ops = Inr s" "sys_of n k s"
    using mshr_machine.run_total[OF new_sys_ok[OF assms, where n = n], where ops = ops] by blast
  then have "mshr_ok (tbl s)" "m_num_entries (tbl s) = n" "m_max_merged (tbl s) = k" by (simp_all add: sys_of_def sys_ok_def)
  then show ?thesis
    using s waiting_bound[of "tbl s"] waiting_pending[of "tbl s"] by (auto simp: sys_of_def sys_ok_def mshr_ok_def)
qed

definition demo_mshr_ops :: "nat mshr_op list" where
  "demo_mshr_ops = [Miss 0x80 1 False, Miss 0x100 2 False, Miss 0x80 3 True, Response 0x80, Drain, Miss 0x80 4 False,
     Miss 0x180 5 False, Response 0x100, Drain]"

theorem mshr_run_witness:
  "0 < (2::nat) \<and> (\<exists>s. foldE mshr_step (new_mshr_sys 2 2) demo_mshr_ops = Inr s \<and> length (m_data (tbl s)) \<le> 2 \<and>
    (\<forall>a. of_block a (accepted s) = of_block a (served s) @ waiting (tbl s) a \<and> length (waiting (tbl s) a) \<le> 2 \<and>
         (waiting (tbl s) a \<noteq> [] \<longleftrightarrow> a \<in> sent s \<union> set (m_current_response (tbl s)))))"
  using mshr_run[of 2 2 demo_mshr_ops] by simp

section \<open>Every accepted access is handed out\<close>

lemma respond_all:
  assumes "sys_of n k s" and "distinct rs" and "set rs = sent s"
  shows "\<exists>u. foldE mshr_step s (map Response rs) = Inr u \<and> sys_of n k u \<and> sent u = {} \<and> accepted u = accepted s"
  using assms
proof (induction rs arbitrary: s)
  case (Cons a rs)
  then obtain v where v: "mshr_step s (Response a) = Inr v" "sys_of n k v" "sent v = sent s - {a}" "accepted v = accepted s"
    using mshr_step_response[OF Cons.prems(1), of a] by (metis list.set_intros(1))
  moreover have "set rs = sent v" using Cons.prems(2,3) v(3) by auto
  ultimately show ?case using Cons.IH[of v] Cons.prems(2) by simp
qed simp

lemma drain_all:
  assumes "sys_of n k s" and "sent s = {}"
    and "finite A" and "pending_blocks (tbl s) \<subseteq> A" and "(\<Sum>a\<in>A. length (waiting (tbl s) a)) \<le> m"
  shows "\<exists>u. foldE mshr_step s (replicate m Drain) = Inr u \<and> sys_of n k u \<and> pending_blocks (tbl u) = {} \<and>
    accepted u = accepted s"
  using assms
proof (induction m arbitrary: s)
  case 0
  have "waiting (tbl s) a = []" if "a \<in> A" for a using 0(3,5) that by simp
  then have "pending_blocks (tbl s) = {}"
    using 0(1,4) waiting_pending[of "tbl s"] unfolding sys_of_def sys_ok_def by blast
  then show ?case using 0(1) by simp
next
  case (Suc m)
  show ?case
  proof (cases "access_ready (tbl s)")
    case True
    obtain v a mf where v: "mshr_step s Drain = Inr v" "sys_of n k v" "sent v = sent s" "accepted v = accepted s"
        "a \<in> pending_blocks (tbl s)" "pending_blocks (tbl v) \<subseteq> pending_blocks (tbl s)"
        "waiting (tbl s) = (waiting (tbl v))(a := mf # waiting (tbl v) a)"
      using mshr_step_drain[OF Suc.prems(1) True] by blast
    have aA: "a \<in> A" using v(5) Suc.prems(4) by blast
    have "(\<Sum>b\<in>A. length (waiting (tbl s) b)) = Suc (\<Sum>b\<in>A. length (waiting (tbl v) b))"
      unfolding sum.remove[OF Suc.prems(3) aA] v(7) by simp
    with Suc.IH[OF v(2) _ Suc.prems(3)] Suc.prems(2,4,5) v show ?thesis by auto
  next
    case False
    then have e: "pending_blocks (tbl s) = {}"
      using Suc.prems(1,2) unfolding sys_of_def sys_ok_def access_ready_def by auto
    then have "waiting (tbl s) a = []" for a
      using Suc.prems(1) waiting_pending[of "tbl s"] unfolding sys_of_def sys_ok_def by blast
    then show ?thesis using Suc.IH[OF Suc.prems(1-4)] False by simp
  qed
qed

text \<open>Claim C17. No accepted access is left behind: from every state a table of \<open>n\<close> entries of \<open>k\<close> accesses can reach,
  once the outstanding responses have come in and \<open>n * k\<close> accesses could be taken, the table is empty and every
  access it accepted has been handed out, block by block in the order of acceptance.\<close>
theorem mshr_drains:
  assumes "0 < k" and "foldE mshr_step (new_mshr_sys n k) ops = Inr s" and "distinct rs" and "set rs = sent s"
  shows "\<exists>u. foldE mshr_step s (map Response rs @ replicate (n * k) Drain) = Inr u \<and> m_data (tbl u) = [] \<and>
    (\<forall>a. of_block a (served u) = of_block a (accepted s))"
proof -
  have s: "sys_of n k s" using mshr_machine.run_inv[OF new_sys_ok[OF assms(1)] assms(2)] .
  obtain v where v: "foldE mshr_step s (map Response rs) = Inr v" "sys_of n k v" "sent v = {}" "accepted v = accepted s"
    using respond_all[OF s assms(3,4)] by blast
  have ok: "mshr_ok (tbl v)" and kv: "m_max_merged (tbl v) = k" using v(2) by (simp_all add: sys_of_def sys_ok_def)
  have "(\<Sum>a\<in>pending_blocks (tbl v). length (waiting (tbl v) a)) \<le> card (pending_blocks (tbl v)) * k"
    using waiting_bound[OF ok] kv by (simp add: sum_bounded_above[where K = k, simplified])
  also have "\<dots> \<le> n * k" using pending_le[OF v(2)] by simp
  finally obtain u where u: "foldE mshr_step v (replicate (n * k) Drain) = Inr u" "sys_of n k u"
      "pending_blocks (tbl u) = {}" "accepted u = accepted v"
    using drain_all[OF v(2,3) _ subset_refl] by (auto simp: pending_blocks_def finite_dom_map_of)
  have w: "waiting (tbl u) a = []" for a
    using u(2,3) waiting_pending[of "tbl u"] unfolding sys_of_def sys_ok_def by blast
  have "m_data (tbl u) = []" using u(3) by (simp add: pending_blocks_def)
  moreover have "of_block a (served u) = of_block a (accepted s)" for a
    using u(2,4) v(4) w unfolding sys_of_def sys_ok_def by (metis append_Nil2)
  ultimately show ?thesis using v(1) u(1) by (simp add: foldE_append)
qed

lemma demo_mshr_final: "\<exists>s. foldE mshr_step (new_mshr_sys 2 2) demo_mshr_ops = Inr s \<and> sent s = {}"
proof -
  have "case foldE mshr_step (new_mshr_sys 2 2) demo_mshr_ops of Inl _ \<Rightarrow> False | Inr s \<Rightarrow> (\<forall>a \<in> sent s. False)"
    by code_simp
  then show ?thesis by (simp split: sum.splits)
qed

theorem mshr_drains_witness:
  "\<exists>s u. foldE mshr_step (new_mshr_sys 2 2) demo_mshr_ops = Inr s \<and>
     foldE mshr_step s (map Response [] @ replicate (2 * 2) Drain) = Inr u \<and> m_data (tbl u) = [] \<and>
     (\<forall>a. of_block a (served u) = of_block a (accepted s))"
proof -
  obtain s where "foldE mshr_step (new_mshr_sys 2 2) demo_mshr_ops = Inr s" "sent s = {}" using demo_mshr_final by blast
  then show ?thesis using mshr_drains[of 2 2 demo_mshr_ops s "[]"] by auto
qed

text \<open>The comment of \<open>mark_ready\<close> says the same request is not removed twice, but its assertions do not see it:
  marking a block ready twice succeeds while another block is pending, and the table fails later, in \<open>next_access\<close>.\<close>
theorem mshr_double_ready:
  "\<exists>t0 t1 t2 t3 t4 b c m. mshr_add (new_mshr_table 4 4) 0x80 (1::nat) False = Inr t0 \<and> mshr_add t0 0x100 2 False = Inr t1 \<and>
     mark_ready t1 0x80 = Inr (t2, b) \<and> mark_ready t2 0x80 = Inr (t3, c) \<and>
     next_access t3 = Inr (t4, m) \<and> next_access t4 = Inl Assert_Failed"
  by (simp add: mshr_add_def mark_ready_def next_access_def new_mshr_table_def put_entry_def entry_at_def new_entry_def
      access_ready_def mshr_busy_def Let_def) blast

end
