(* ===== verification/Cache_Control.thy ===== *)
theory Cache_Control
  imports Cache_Stats Mshr_Table
begin

text \<open>
  The cache controllers (\<open>baseline_cache\<close>, \<open>read_only_cache\<close>, \<open>data_cache\<close> with its L1 and L2 forms, and their port
  bandwidth, of gpu-cache.h and gpu-cache.cc) over the tag array and the miss status holding registers.  Requests
  are shared objects that the controller changes, so they live in a store and are named by numbers; the memory port
  is the caller's: \<open>full\<close> is an argument, a pushed request a result.  \<open>set_status\<close> and the access log only trace.
  The code is the one that is compiled: \<open>REQ_COAL_MODULE\<close> is off.
\<close>

section \<open>Requests and the state of a cache\<close>

datatype cache_event = WRITE_BACK_REQUEST_SENT | READ_REQUEST_SENT | WRITE_REQUEST_SENT

definition was_writeback_sent :: "cache_event list \<Rightarrow> bool" where
  "was_writeback_sent events \<longleftrightarrow> WRITE_BACK_REQUEST_SENT \<in> set events"

text \<open>What the caches read and write of a \<open>mem_fetch\<close>; \<open>r_comp_bits\<close> is the compressed size its compressor recorded.\<close>

record request =
  r_addr :: u64
  r_data_size :: u32
  r_ctrl_size :: u32
  r_write :: bool
  r_type :: mem_access_type
  r_atomic :: bool
  r_comp_bits :: int

definition WRITE_PACKET_SIZE :: u32 where "WRITE_PACKET_SIZE = 8"

record extra_mf_fields =
  xf_valid :: bool
  xf_block_addr :: u64
  xf_cache_index :: nat
  xf_data_size :: u32

text \<open>The member function pointers \<open>m_wr_hit\<close> and \<open>m_wr_miss\<close>.\<close>

datatype wr_hit_fn = Wr_Hit_Wb | Wr_Hit_Wt | Wr_Hit_We | Wr_Hit_Global_We_Local_Wb
datatype wr_miss_fn = Wr_Miss_Wa | Wr_Miss_No_Wa

record base_cache =
  c_tags :: tag_array
  c_mshrs :: "nat mshr_table"
  m_miss_queue :: "nat list"
  m_extra_mf_fields :: "nat \<Rightarrow> extra_mf_fields option"
  c_stats :: cache_stats
  m_data_port_occupied_cycles :: u32
  m_fill_port_occupied_cycles :: u32
  m_wr_hit :: wr_hit_fn
  m_wr_miss :: wr_miss_fn
  m_wr_alloc_type :: mem_access_type
  m_wrbk_type :: mem_access_type
  heap :: "nat \<Rightarrow> request"
  next_mf :: nat

definition cfg :: "base_cache \<Rightarrow> cache_config" where "cfg c = m_config (c_tags c)"

definition new_mf :: "base_cache \<Rightarrow> request \<Rightarrow> base_cache" where
  "new_mf c r = c\<lparr>heap := (heap c)(next_mf c := r), next_mf := next_mf c + 1\<rparr>"

definition pick_wr_hit :: "write_policy_t \<Rightarrow> wr_hit_fn cxx" where
  "pick_wr_hit wp = (case wp of
     READ_ONLY \<Rightarrow> Inl Assert_Failed
   | WRITE_BACK \<Rightarrow> Inr Wr_Hit_Wb
   | WRITE_THROUGH \<Rightarrow> Inr Wr_Hit_Wt
   | WRITE_EVICT \<Rightarrow> Inr Wr_Hit_We
   | LOCAL_WB_GLOBAL_WT \<Rightarrow> Inr Wr_Hit_Global_We_Local_Wb)"

definition pick_wr_miss :: "write_allocate_policy_t \<Rightarrow> wr_miss_fn" where
  "pick_wr_miss wa = (case wa of WRITE_ALLOCATE \<Rightarrow> Wr_Miss_Wa | NO_WRITE_ALLOCATE \<Rightarrow> Wr_Miss_No_Wa)"

text \<open>The function pointers of a read-only cache do not exist; its record holds arbitrary ones.\<close>

definition new_baseline_cache ::
    "cache_config \<Rightarrow> comp_config \<Rightarrow> int \<Rightarrow> int \<Rightarrow> int \<Rightarrow> base_cache cxx" where
  "new_baseline_cache config g normal core_id type_id =
     bindE (new_tag_array config g normal core_id type_id) (\<lambda>ta.
       assertE (m_mshr_type config = ASSOC)
         (Inr \<lparr>c_tags = ta, c_mshrs = new_mshr_table (unat (m_mshr_entries config)) (unat (m_mshr_max_merge config)),
            m_miss_queue = [], m_extra_mf_fields = (\<lambda>_. None), c_stats = new_cache_stats,
            m_data_port_occupied_cycles = 0, m_fill_port_occupied_cycles = 0,
            m_wr_hit = Wr_Hit_Wb, m_wr_miss = Wr_Miss_No_Wa,
            m_wr_alloc_type = L1_WR_ALLOC_R, m_wrbk_type = L1_WRBK_ACC,
            heap = (\<lambda>_. \<lparr>r_addr = 0, r_data_size = 0, r_ctrl_size = 0, r_write = False, r_type = GLOBAL_ACC_R,
                     r_atomic = False, r_comp_bits = -1\<rparr>),
            next_mf = 0\<rparr>))"

definition new_data_cache ::
    "cache_config \<Rightarrow> comp_config \<Rightarrow> int \<Rightarrow> int \<Rightarrow> int \<Rightarrow> mem_access_type \<Rightarrow> mem_access_type \<Rightarrow> base_cache cxx" where
  "new_data_cache config g normal core_id type_id wr_alloc_type wrbk_type =
     bindE (new_baseline_cache config g normal core_id type_id) (\<lambda>c.
     bindE (pick_wr_hit (m_write_policy config)) (\<lambda>wh.
       Inr (c\<lparr>m_wr_hit := wh, m_wr_miss := pick_wr_miss (m_write_alloc_policy config),
              m_wr_alloc_type := wr_alloc_type, m_wrbk_type := wrbk_type\<rparr>)))"

definition new_l1_cache where
  "new_l1_cache config g normal core_id type_id =
     new_data_cache config g normal core_id type_id L1_WR_ALLOC_R L1_WRBK_ACC"

definition new_l2_cache where
  "new_l2_cache config g normal core_id type_id =
     new_data_cache config g normal core_id type_id L2_WR_ALLOC_R L2_WRBK_ACC"

definition update_base_cache :: "base_cache \<Rightarrow> cache_config \<Rightarrow> base_cache cxx" where
  "update_base_cache c config =
     bindE (check_mshr_parameters (c_mshrs c) (unat (m_mshr_entries config)) (unat (m_mshr_max_merge config)))
       (\<lambda>_. Inr (c\<lparr>c_tags := update_cache_parameters (c_tags c) config\<rparr>))"

section \<open>Port bandwidth\<close>

definition ceil_cycles :: "u32 \<Rightarrow> u32 \<Rightarrow> u32" where
  "ceil_cycles n width = n div width + (if 0 < n mod width then 1 else 0)"

definition use_data_port :: "base_cache \<Rightarrow> nat \<Rightarrow> cache_request_status \<Rightarrow> cache_event list \<Rightarrow> base_cache cxx" where
  "use_data_port c mf outcome events =
     (let width = m_data_port_width (cfg c)
      in case outcome of
           HIT \<Rightarrow> if width = 0 then Inl Undefined_Behaviour
                  else Inr (c\<lparr>m_data_port_occupied_cycles :=
                    m_data_port_occupied_cycles c + ceil_cycles (r_data_size (heap c mf)) width\<rparr>)
         | RESERVATION_FAIL \<Rightarrow> Inr c
         | _ \<Rightarrow> if was_writeback_sent events
                then if width = 0 then Inl Undefined_Behaviour
                     else Inr (c\<lparr>m_data_port_occupied_cycles :=
                       m_data_port_occupied_cycles c + m_line_sz (cfg c) div width\<rparr>)
                else Inr c)"

definition use_fill_port :: "base_cache \<Rightarrow> base_cache cxx" where
  "use_fill_port c =
     (if m_data_port_width (cfg c) = 0 then Inl Undefined_Behaviour
      else Inr (c\<lparr>m_fill_port_occupied_cycles :=
        m_fill_port_occupied_cycles c + m_line_sz (cfg c) div m_data_port_width (cfg c)\<rparr>))"

definition replenish_port_bandwidth :: "base_cache \<Rightarrow> base_cache cxx" where
  "replenish_port_bandwidth c =
     (let d = (if 0 <s m_data_port_occupied_cycles c then m_data_port_occupied_cycles c - 1
               else m_data_port_occupied_cycles c);
          f = (if 0 <s m_fill_port_occupied_cycles c then m_fill_port_occupied_cycles c - 1
               else m_fill_port_occupied_cycles c)
      in assertE (0 \<le>s d) (assertE (0 \<le>s f)
           (Inr (c\<lparr>m_data_port_occupied_cycles := d, m_fill_port_occupied_cycles := f\<rparr>))))"

definition data_port_free :: "base_cache \<Rightarrow> bool" where
  "data_port_free c \<longleftrightarrow> m_data_port_occupied_cycles c = 0"

definition fill_port_free :: "base_cache \<Rightarrow> bool" where
  "fill_port_free c \<longleftrightarrow> m_fill_port_occupied_cycles c = 0"

section \<open>Misses\<close>

definition miss_queue_full :: "base_cache \<Rightarrow> nat \<Rightarrow> bool" where
  "miss_queue_full c num_miss \<longleftrightarrow> unat (m_miss_queue_size (cfg c)) \<le> length (m_miss_queue c) + num_miss"

definition push_miss :: "base_cache \<Rightarrow> nat \<Rightarrow> base_cache" where
  "push_miss c mf = c\<lparr>m_miss_queue := m_miss_queue c @ [mf]\<rparr>"

text \<open>A read-only cache accesses its tags without a place for the evicted line.\<close>

definition tag_access :: "base_cache \<Rightarrow> u64 \<Rightarrow> u32 \<Rightarrow> nat \<Rightarrow> bool \<Rightarrow> (tag_array \<times> nat \<times> cache_block option) cxx" where
  "tag_access c block_addr time cache_index read_only =
     (if read_only
      then bindE (access_no_wb (c_tags c) block_addr time cache_index) (\<lambda>(ta, _, idx). Inr (ta, idx, None))
      else bindE (access (c_tags c) block_addr time cache_index) (\<lambda>(ta, _, idx, wb). Inr (ta, idx, wb)))"

text \<open>The result: the cache, \<open>do_miss\<close>, the line to write back, and the events.\<close>

definition send_read_request :: "base_cache \<Rightarrow> u64 \<Rightarrow> nat \<Rightarrow> nat \<Rightarrow> u32 \<Rightarrow> bool \<Rightarrow> bool
      \<Rightarrow> (base_cache \<times> bool \<times> cache_block option \<times> cache_event list) cxx" where
  "send_read_request c block_addr cache_index mf time read_only wa =
     (let mshr_hit = mshr_probe (c_mshrs c) block_addr;
          mshr_avail = \<not> mshr_full (c_mshrs c) block_addr
      in if mshr_hit \<and> mshr_avail then
           bindE (tag_access c block_addr time cache_index read_only) (\<lambda>(ta, idx, wb).
           bindE (mshr_add (c_mshrs c) block_addr mf (r_atomic (heap c mf))) (\<lambda>t.
             Inr (c\<lparr>c_tags := ta, c_mshrs := t\<rparr>, True, wb, [])))
         else if \<not> mshr_hit \<and> mshr_avail \<and> length (m_miss_queue c) < unat (m_miss_queue_size (cfg c)) then
           bindE (tag_access c block_addr time cache_index read_only) (\<lambda>(ta, idx, wb).
           bindE (mshr_add (c_mshrs c) block_addr mf (r_atomic (heap c mf))) (\<lambda>t.
           bindE (get_line_sz (cfg c)) (\<lambda>line_sz.
             let r = heap c mf;
                 c1 = c\<lparr>c_tags := ta, c_mshrs := t,
                        m_extra_mf_fields := (m_extra_mf_fields c)(mf \<mapsto> \<lparr>xf_valid = True, xf_block_addr = block_addr,
                          xf_cache_index = idx, xf_data_size = r_data_size r\<rparr>),
                        heap := (heap c)(mf := r\<lparr>r_data_size := line_sz\<rparr>)\<rparr>
             in Inr (push_miss c1 mf, True, wb, if wa then [] else [READ_REQUEST_SENT]))))
         else Inr (c, False, None, []))"

definition wrbk_request :: "base_cache \<Rightarrow> cache_block \<Rightarrow> u32 \<Rightarrow> request" where
  "wrbk_request c evicted line_sz = \<lparr>r_addr = m_block_addr evicted, r_data_size = line_sz,
     r_ctrl_size = WRITE_PACKET_SIZE, r_write = True, r_type = m_wrbk_type c, r_atomic = False, r_comp_bits = -1\<rparr>"

text \<open>The write-back of an evicted line that a write-through policy has not written already.\<close>

definition write_back :: "base_cache \<Rightarrow> cache_block option \<Rightarrow> (base_cache \<times> bool) cxx" where
  "write_back c wb =
     (case wb of
        Some evicted \<Rightarrow>
          if m_write_policy (cfg c) \<noteq> WRITE_THROUGH
          then bindE (get_line_sz (cfg c)) (\<lambda>line_sz.
                 Inr (push_miss (new_mf c (wrbk_request c evicted line_sz)) (next_mf c), True))
          else Inr (c, False)
      | None \<Rightarrow> Inr (c, False))"

section \<open>Hits and misses\<close>

type_synonym outcome = "(base_cache \<times> cache_request_status \<times> cache_event list) cxx"

definition set_block_status :: "base_cache \<Rightarrow> nat \<Rightarrow> cache_block_state \<Rightarrow> base_cache cxx" where
  "set_block_status c idx st =
     bindE (get_block (c_tags c) idx) (\<lambda>b. Inr (c\<lparr>c_tags := put_block (c_tags c) idx (b\<lparr>m_status := st\<rparr>)\<rparr>))"

definition wr_hit_wb :: "base_cache \<Rightarrow> u64 \<Rightarrow> nat \<Rightarrow> nat \<Rightarrow> u32 \<Rightarrow> outcome" where
  "wr_hit_wb c addr cache_index mf time =
     bindE (access_no_wb (c_tags c) (cache_block_addr (cfg c) addr) time cache_index) (\<lambda>(ta, _, idx).
     bindE (set_block_status (c\<lparr>c_tags := ta\<rparr>) idx MODIFIED) (\<lambda>c1. Inr (c1, HIT, [])))"

definition wr_hit_wt :: "base_cache \<Rightarrow> u64 \<Rightarrow> nat \<Rightarrow> nat \<Rightarrow> u32 \<Rightarrow> outcome" where
  "wr_hit_wt c addr cache_index mf time =
     (if miss_queue_full c 0 then Inr (c, RESERVATION_FAIL, [])
      else bindE (access_no_wb (c_tags c) (cache_block_addr (cfg c) addr) time cache_index) (\<lambda>(ta, _, idx).
           bindE (set_block_status (c\<lparr>c_tags := ta\<rparr>) idx MODIFIED) (\<lambda>c1.
             Inr (push_miss c1 mf, HIT, [WRITE_REQUEST_SENT]))))"

definition wr_hit_we :: "base_cache \<Rightarrow> u64 \<Rightarrow> nat \<Rightarrow> nat \<Rightarrow> u32 \<Rightarrow> outcome" where
  "wr_hit_we c addr cache_index mf time =
     (if miss_queue_full c 0 then Inr (c, RESERVATION_FAIL, [])
      else bindE (set_block_status (push_miss c mf) cache_index INVALID) (\<lambda>c1. Inr (c1, HIT, [WRITE_REQUEST_SENT])))"

definition wr_hit_global_we_local_wb :: "base_cache \<Rightarrow> u64 \<Rightarrow> nat \<Rightarrow> nat \<Rightarrow> u32 \<Rightarrow> outcome" where
  "wr_hit_global_we_local_wb c addr cache_index mf time =
     (if r_type (heap c mf) = GLOBAL_ACC_W then wr_hit_we c addr cache_index mf time
      else wr_hit_wb c addr cache_index mf time)"

definition wr_alloc_request :: "base_cache \<Rightarrow> nat \<Rightarrow> request" where
  "wr_alloc_request c mf =
     (let r = heap c mf
      in \<lparr>r_addr = r_addr r, r_data_size = r_data_size r, r_ctrl_size = r_ctrl_size r, r_write = False,
          r_type = m_wr_alloc_type c, r_atomic = False, r_comp_bits = -1\<rparr>)"

definition wr_miss_wa :: "base_cache \<Rightarrow> u64 \<Rightarrow> nat \<Rightarrow> nat \<Rightarrow> u32 \<Rightarrow> outcome" where
  "wr_miss_wa c addr cache_index mf time =
     (let block_addr = cache_block_addr (cfg c) addr;
          mshr_hit = mshr_probe (c_mshrs c) block_addr;
          mshr_avail = \<not> mshr_full (c_mshrs c) block_addr
      in if miss_queue_full c 2 \<or>
            (\<not> (mshr_hit \<and> mshr_avail) \<and>
             \<not> (\<not> mshr_hit \<and> mshr_avail \<and> length (m_miss_queue c) < unat (m_miss_queue_size (cfg c))))
         then Inr (c, RESERVATION_FAIL, [])
         else let c1 = push_miss c mf; n_mf = next_mf c1; c2 = new_mf c1 (wr_alloc_request c1 mf)
           in bindE (send_read_request c2 block_addr cache_index n_mf time False True) (\<lambda>(c3, do_miss, wb, events).
                if do_miss
                then bindE (write_back c3 wb) (\<lambda>(c4, _). Inr (c4, MISS, WRITE_REQUEST_SENT # events))
                else Inr (c3, RESERVATION_FAIL, WRITE_REQUEST_SENT # events)))"

definition wr_miss_no_wa :: "base_cache \<Rightarrow> nat \<Rightarrow> outcome" where
  "wr_miss_no_wa c mf =
     (if miss_queue_full c 0 then Inr (c, RESERVATION_FAIL, [])
      else Inr (push_miss c mf, MISS, [WRITE_REQUEST_SENT]))"

definition rd_hit_base :: "base_cache \<Rightarrow> u64 \<Rightarrow> nat \<Rightarrow> nat \<Rightarrow> u32 \<Rightarrow> outcome" where
  "rd_hit_base c addr cache_index mf time =
     bindE (access_no_wb (c_tags c) (cache_block_addr (cfg c) addr) time cache_index) (\<lambda>(ta, _, idx).
       if r_atomic (heap c mf)
       then assertE (r_type (heap c mf) = GLOBAL_ACC_R)
              (bindE (set_block_status (c\<lparr>c_tags := ta\<rparr>) idx MODIFIED) (\<lambda>c1. Inr (c1, HIT, [])))
       else Inr (c\<lparr>c_tags := ta\<rparr>, HIT, []))"

definition rd_miss_base :: "base_cache \<Rightarrow> u64 \<Rightarrow> nat \<Rightarrow> nat \<Rightarrow> u32 \<Rightarrow> outcome" where
  "rd_miss_base c addr cache_index mf time =
     (if miss_queue_full c 1 then Inr (c, RESERVATION_FAIL, [])
      else bindE (send_read_request c (cache_block_addr (cfg c) addr) cache_index mf time False False)
        (\<lambda>(c1, do_miss, wb, events).
           if do_miss
           then bindE (write_back c1 wb) (\<lambda>(c2, sent).
                  Inr (c2, MISS, events @ (if sent then [WRITE_BACK_REQUEST_SENT] else [])))
           else Inr (c1, RESERVATION_FAIL, events)))"

section \<open>Access\<close>

definition call_wr_hit :: "base_cache \<Rightarrow> u64 \<Rightarrow> nat \<Rightarrow> nat \<Rightarrow> u32 \<Rightarrow> outcome" where
  "call_wr_hit c = (case m_wr_hit c of
     Wr_Hit_Wb \<Rightarrow> wr_hit_wb c | Wr_Hit_Wt \<Rightarrow> wr_hit_wt c | Wr_Hit_We \<Rightarrow> wr_hit_we c
   | Wr_Hit_Global_We_Local_Wb \<Rightarrow> wr_hit_global_we_local_wb c)"

definition call_wr_miss :: "base_cache \<Rightarrow> u64 \<Rightarrow> nat \<Rightarrow> nat \<Rightarrow> u32 \<Rightarrow> outcome" where
  "call_wr_miss c addr cache_index mf time = (case m_wr_miss c of
     Wr_Miss_Wa \<Rightarrow> wr_miss_wa c addr cache_index mf time | Wr_Miss_No_Wa \<Rightarrow> wr_miss_no_wa c mf)"

definition process_tag_probe ::
    "base_cache \<Rightarrow> bool \<Rightarrow> cache_request_status \<Rightarrow> u64 \<Rightarrow> nat \<Rightarrow> nat \<Rightarrow> u32 \<Rightarrow> outcome" where
  "process_tag_probe c wr probe_status addr cache_index mf time =
     bindE (if wr
            then (if probe_status = HIT then call_wr_hit c addr cache_index mf time
                  else if probe_status \<noteq> RESERVATION_FAIL then call_wr_miss c addr cache_index mf time
                  else Inr (c, probe_status, []))
            else (if probe_status = HIT then rd_hit_base c addr cache_index mf time
                  else if probe_status \<noteq> RESERVATION_FAIL then rd_miss_base c addr cache_index mf time
                  else Inr (c, probe_status, [])))
       (\<lambda>(c1, access_status, events).
          bindE (use_data_port c1 mf access_status events) (\<lambda>c2. Inr (c2, access_status, events)))"

definition note_access :: "base_cache \<Rightarrow> nat \<Rightarrow> cache_request_status \<Rightarrow> cache_request_status \<Rightarrow> base_cache cxx" where
  "note_access c mf probe_status access_status =
     bindE (inc_stats (c_stats c) (int (access_type_no (r_type (heap c mf))))
         (int (status_no (select_stats_status probe_status access_status)))) (\<lambda>cs. Inr (c\<lparr>c_stats := cs\<rparr>))"

text \<open>\<open>(unsigned)-1\<close>, the index a lookup that fails leaves behind.\<close>

definition no_index :: nat where "no_index = 2 ^ 32 - 1"

declare no_index_def [code del]

definition data_cache_access :: "base_cache \<Rightarrow> u64 \<Rightarrow> nat \<Rightarrow> u32 \<Rightarrow> outcome" where
  "data_cache_access c addr mf time =
     bindE (get_line_sz (cfg c)) (\<lambda>line_sz.
     assertE (r_data_size (heap c mf) \<le> line_sz)
       (bindE (probe (c_tags c) (cache_block_addr (cfg c) addr) no_index 0) (\<lambda>(probe_status, cache_index, _).
        bindE (process_tag_probe c (r_write (heap c mf)) probe_status addr cache_index mf time)
          (\<lambda>(c1, access_status, events).
        bindE (note_access c1 mf probe_status access_status) (\<lambda>c2. Inr (c2, access_status, events))))))"

definition l1_access :: "base_cache \<Rightarrow> u64 \<Rightarrow> nat \<Rightarrow> u32 \<Rightarrow> outcome" where
  "l1_access c addr mf time = data_cache_access c addr mf time"

definition l2_access :: "base_cache \<Rightarrow> u64 \<Rightarrow> nat \<Rightarrow> u32 \<Rightarrow> outcome" where
  "l2_access c addr mf time = data_cache_access c addr mf time"

definition read_only_access :: "base_cache \<Rightarrow> u64 \<Rightarrow> nat \<Rightarrow> u32 \<Rightarrow> outcome" where
  "read_only_access c addr mf time =
     bindE (get_line_sz (cfg c)) (\<lambda>line_sz.
     assertE (r_data_size (heap c mf) \<le> line_sz) (assertE (m_write_policy (cfg c) = READ_ONLY)
       (assertE (\<not> r_write (heap c mf))
       (bindE (probe (c_tags c) (cache_block_addr (cfg c) addr) no_index 0) (\<lambda>(status, cache_index, _).
        bindE (if status = HIT
               then bindE (access_no_wb (c_tags c) (cache_block_addr (cfg c) addr) time cache_index)
                      (\<lambda>(ta, st, _). Inr (c\<lparr>c_tags := ta\<rparr>, st, []))
               else if status \<noteq> RESERVATION_FAIL \<and> \<not> miss_queue_full c 0
               then bindE (send_read_request c (cache_block_addr (cfg c) addr) cache_index mf time True False)
                      (\<lambda>(c1, do_miss, _, events). Inr (c1, if do_miss then MISS else RESERVATION_FAIL, events))
               else Inr (c, RESERVATION_FAIL, [])) (\<lambda>(c1, cache_status, events).
        bindE (note_access c1 mf status cache_status) (\<lambda>c2. Inr (c2, cache_status, events))))))))"

section \<open>The level below\<close>

text \<open>One cycle: the oldest miss leaves if the port takes it, and the ports get their bandwidth back.\<close>

definition cache_cycle :: "(u32 \<Rightarrow> bool \<Rightarrow> bool) \<Rightarrow> base_cache \<Rightarrow> (base_cache \<times> nat option) cxx" where
  "cache_cycle port_full c =
     (let (c1, out) =
            (case m_miss_queue c of
               [] \<Rightarrow> (c, None)
             | mf # rest \<Rightarrow>
                 if \<not> port_full (r_data_size (heap c mf) + r_ctrl_size (heap c mf)) (r_write (heap c mf))
                 then (c\<lparr>m_miss_queue := rest\<rparr>, Some mf) else (c, None));
          c2 = c1\<lparr>c_stats := sample_cache_port_utility (c_stats c1) (\<not> data_port_free c1) (\<not> fill_port_free c1)\<rparr>
      in bindE (replenish_port_bandwidth c2) (\<lambda>c3. Inr (c3, out)))"

definition comp_bytes :: "int \<Rightarrow> u32" where
  "comp_bytes bits = of_nat (ceil_div8 (nat bits))"

text \<open>\<open>get_comp_data_bits\<close> of mem_fetch.cc, with the assertion in it (683); the one of its caller in gpu-cache.cc is
  commented out.\<close>

definition comp_data_bits :: "request \<Rightarrow> int cxx" where
  "comp_data_bits r = assertE (0 < r_comp_bits r) (Inr (r_comp_bits r))"

text \<open>What the response writes in the tags.  A compressed L1 data cache stores global lines at their compressed
  size, marked compressed unless compression made them longer.\<close>

definition fill_tags :: "base_cache \<Rightarrow> request \<Rightarrow> extra_mf_fields \<Rightarrow> u32 \<Rightarrow> tag_array cxx" where
  "fill_tags c r e time =
     (if m_alloc_policy (cfg c) = ON_MISS then fill_index (c_tags c) (xf_cache_index e) time
      else if hpcl_cache_comp_en (g_comp (c_tags c)) = 0 \<or> \<not> is_l1_data (c_tags c)
      then fill_addr (c_tags c) (xf_block_addr e) time 0 0
      else if r_type r = LOCAL_ACC_R then fill_addr (c_tags c) (xf_block_addr e) time (r_data_size r) 0
      else assertE (r_type r = GLOBAL_ACC_R)
        (bindE (comp_data_bits r) (\<lambda>bits.
           fill_addr (c_tags c) (xf_block_addr e) time (comp_bytes bits)
             (if uint (r_data_size r * 8) < bits then 0 else 1))))"

definition cache_fill :: "base_cache \<Rightarrow> nat \<Rightarrow> u32 \<Rightarrow> base_cache cxx" where
  "cache_fill c mf time =
     (case m_extra_mf_fields c mf of
        None \<Rightarrow> Inl Assert_Failed
      | Some e \<Rightarrow>
          assertE (xf_valid e)
            (let r = (heap c mf)\<lparr>r_data_size := xf_data_size e\<rparr>; c1 = c\<lparr>heap := (heap c)(mf := r)\<rparr>
             in bindE (fill_tags c1 r e time) (\<lambda>ta.
                bindE (mark_ready (c_mshrs c1) (xf_block_addr e)) (\<lambda>(t, has_atomic).
                  let c2 = c1\<lparr>c_tags := ta, c_mshrs := t\<rparr>
                  in bindE (if has_atomic
                            then assertE (m_alloc_policy (cfg c) = ON_MISS) (set_block_status c2 (xf_cache_index e) MODIFIED)
                            else Inr c2) (\<lambda>c3.
                     use_fill_port (c3\<lparr>m_extra_mf_fields := (m_extra_mf_fields c3)(mf := None)\<rparr>))))))"

definition waiting_for_fill :: "base_cache \<Rightarrow> nat \<Rightarrow> bool" where
  "waiting_for_fill c mf \<longleftrightarrow> m_extra_mf_fields c mf \<noteq> None"

definition cache_access_ready :: "base_cache \<Rightarrow> bool" where
  "cache_access_ready c = access_ready (c_mshrs c)"

definition cache_next_access :: "base_cache \<Rightarrow> (base_cache \<times> nat) cxx" where
  "cache_next_access c = bindE (next_access (c_mshrs c)) (\<lambda>(t, mf). Inr (c\<lparr>c_mshrs := t\<rparr>, mf))"

definition cache_flush :: "base_cache \<Rightarrow> base_cache cxx" where
  "cache_flush c = bindE (flush (c_tags c)) (\<lambda>ta. Inr (c\<lparr>c_tags := ta\<rparr>))"

end
