(* ===== verification/Tex_Cache.thy ===== *)
theory Tex_Cache
  imports Ring_Fifo Cache_Control
begin

text \<open>
  The texture cache (\<open>tex_cache\<close> of gpu-cache.h and gpu-cache.cc).  Its tags run ahead of its data: an access looks the
  tags up at once and enters a FIFO of fragments, a miss also a reorder buffer and the FIFO of requests; the data
  lines change only when the oldest fragment is served.  The requests are shared objects in a store, as for the
  other controllers, and the memory port is an argument.  \<open>set_status\<close> only traces; \<open>REQ_COAL_MODULE\<close> is off.
\<close>

section \<open>The state\<close>

record fragment_entry =
  fe_request :: nat
  fe_index :: nat
  fe_miss :: bool
  fe_size :: u32

record rob_entry =
  re_ready :: bool
  re_time :: u32
  re_index :: nat
  re_request :: nat
  re_block :: u64

record data_block =
  db_valid :: bool
  db_addr :: u64

record tex_extra =
  tx_valid :: bool
  tx_rob_index :: nat

record tex_cache =
  x_tags :: tag_array
  m_fragment_fifo :: "fragment_entry ring"
  m_request_fifo :: "nat ring"
  m_rob :: "rob_entry ring"
  m_cache :: "data_block list"
  m_result_fifo :: "nat ring"
  x_stats :: cache_stats
  x_extra :: "nat \<Rightarrow> tex_extra option"
  x_heap :: "nat \<Rightarrow> request"

text \<open>The members that a default constructor leaves unset are arbitrary; no run reads them.\<close>

definition no_fragment :: fragment_entry where
  "no_fragment = \<lparr>fe_request = 0, fe_index = 0, fe_miss = False, fe_size = 0\<rparr>"

definition no_rob_entry :: rob_entry where
  "no_rob_entry = \<lparr>re_ready = False, re_time = 0, re_index = 0, re_request = 0, re_block = 0\<rparr>"

definition new_rob_entry :: "nat \<Rightarrow> nat \<Rightarrow> u64 \<Rightarrow> rob_entry" where
  "new_rob_entry i mf a = \<lparr>re_ready = False, re_time = 0, re_index = i, re_request = mf, re_block = a\<rparr>"

definition no_data_block :: data_block where "no_data_block = \<lparr>db_valid = False, db_addr = 0\<rparr>"

text \<open>The sizes of the FIFOs share their storage with parameters of the other kind of cache.\<close>

definition new_tex_cache :: "cache_config \<Rightarrow> comp_config \<Rightarrow> int \<Rightarrow> int \<Rightarrow> int \<Rightarrow> (nat \<Rightarrow> request) \<Rightarrow> tex_cache cxx" where
  "new_tex_cache config g normal core_id type_id h =
     bindE (new_tag_array config g normal core_id type_id) (\<lambda>ta.
     assertE (m_mshr_type config = TEX_FIFO) (assertE (m_write_policy config = READ_ONLY)
     (assertE (m_alloc_policy config = ON_MISS) (bindE (get_num_lines config) (\<lambda>n.
       Inr \<lparr>x_tags = ta, m_fragment_fifo = new_ring no_fragment (unat (m_mshr_entries config)),
         m_request_fifo = new_ring 0 (unat (m_mshr_max_merge config)),
         m_rob = new_ring no_rob_entry (unat (m_miss_queue_size config)),
         m_cache = replicate (unat n) no_data_block,
         m_result_fifo = new_ring 0 (unat (m_result_fifo_entries config)),
         x_stats = new_cache_stats, x_extra = (\<lambda>_. None), x_heap = h\<rparr>)))))"

section \<open>Operations\<close>

definition x_cfg :: "tex_cache \<Rightarrow> cache_config" where "x_cfg c = m_config (x_tags c)"

text \<open>A miss: the reorder buffer, the extra fields, the whole line as the size, the tags, the request.\<close>

definition tex_miss :: "tex_cache \<Rightarrow> nat \<Rightarrow> nat \<Rightarrow> u64 \<Rightarrow> u32 \<Rightarrow> tex_cache cxx" where
  "tex_miss c mf idx block_addr time =
     bindE (ring_push (m_rob c) (new_rob_entry idx mf block_addr)) (\<lambda>(rob, rob_index).
     bindE (get_line_sz (x_cfg c)) (\<lambda>line_sz.
     bindE (fill_index (x_tags c) idx time) (\<lambda>ta.
     bindE (ring_push (m_request_fifo c) mf) (\<lambda>(q, _).
       Inr (c\<lparr>m_rob := rob, x_extra := (x_extra c)(mf \<mapsto> \<lparr>tx_valid = True, tx_rob_index = rob_index\<rparr>),
              x_heap := (x_heap c)(mf := (x_heap c mf)\<lparr>r_data_size := line_sz\<rparr>),
              x_tags := ta, m_request_fifo := q\<rparr>)))))"

definition tex_access :: "tex_cache \<Rightarrow> u64 \<Rightarrow> nat \<Rightarrow> u32 \<Rightarrow> (tex_cache \<times> cache_request_status \<times> cache_event list) cxx" where
  "tex_access c addr mf time =
     (if ring_full (m_fragment_fifo c) \<or> ring_full (m_request_fifo c) \<or> ring_full (m_rob c)
      then Inr (c, RESERVATION_FAIL, [])
      else bindE (get_line_sz (x_cfg c)) (\<lambda>line_sz.
        assertE (r_data_size (x_heap c mf) \<le> line_sz)
        (let block_addr = cache_block_addr (x_cfg c) addr
         in bindE (access_no_wb (x_tags c) block_addr time no_index) (\<lambda>(ta, status, idx).
            assertE (status \<noteq> RESERVATION_FAIL) (assertE (status \<noteq> HIT_RESERVED)
            (bindE (ring_push (m_fragment_fifo c) \<lparr>fe_request = mf, fe_index = idx, fe_miss = (status = MISS),
                      fe_size = r_data_size (x_heap c mf)\<rparr>) (\<lambda>(ff, _).
             let c1 = c\<lparr>x_tags := ta, m_fragment_fifo := ff\<rparr>
             in bindE (if status = MISS
                       then bindE (tex_miss c1 mf idx block_addr time) (\<lambda>c2. Inr (c2, MISS, [READ_REQUEST_SENT]))
                       else Inr (c1, HIT_RESERVED, [])) (\<lambda>(c2, cache_status, events).
                bindE (inc_stats (x_stats c2) (int (access_type_no (r_type (x_heap c2 mf))))
                         (int (status_no (select_stats_status status cache_status)))) (\<lambda>cs.
                  Inr (c2\<lparr>x_stats := cs\<rparr>, cache_status, events))))))))))"

text \<open>The two halves of a cycle.\<close>

definition send_next_request :: "(u32 \<Rightarrow> bool \<Rightarrow> bool) \<Rightarrow> tex_cache \<Rightarrow> (tex_cache \<times> nat option) cxx" where
  "send_next_request port_full c =
     (if ring_empty (m_request_fifo c) then Inr (c, None)
      else bindE (ring_peek (m_request_fifo c)) (\<lambda>mf.
        if port_full (r_ctrl_size (x_heap c mf)) False then Inr (c, None)
        else bindE (ring_pop (m_request_fifo c)) (\<lambda>(q, _). Inr (c\<lparr>m_request_fifo := q\<rparr>, Some mf))))"

definition fragment_block :: "tex_cache \<Rightarrow> fragment_entry \<Rightarrow> u64" where
  "fragment_block c e = cache_block_addr (x_cfg c) (r_addr (x_heap c (fe_request e)))"

definition serve_miss :: "tex_cache \<Rightarrow> fragment_entry \<Rightarrow> tex_cache cxx" where
  "serve_miss c e =
     bindE (ring_peek_at (m_rob c) (next_pop_index (m_rob c))) (\<lambda>r.
     assertE (re_request r = fe_request e) (assertE (re_block r = fragment_block c e)
     (if re_ready r then
        assertE (re_index r = fe_index e)
        (if re_index r < length (m_cache c) then
           bindE (ring_push (m_result_fifo c) (fe_request e)) (\<lambda>(res, _).
           bindE (ring_pop (m_rob c)) (\<lambda>(rob, _).
           bindE (ring_pop (m_fragment_fifo c)) (\<lambda>(ff, _).
             Inr (c\<lparr>m_cache := (m_cache c)[re_index r := \<lparr>db_valid = True, db_addr = re_block r\<rparr>],
                    m_result_fifo := res, m_rob := rob, m_fragment_fifo := ff\<rparr>))))
         else Inl Out_Of_Range)
      else Inr c)))"

definition serve_hit :: "tex_cache \<Rightarrow> fragment_entry \<Rightarrow> tex_cache cxx" where
  "serve_hit c e =
     (if fe_index e < length (m_cache c) then
        assertE (db_valid (m_cache c ! fe_index e)) (assertE (db_addr (m_cache c ! fe_index e) = fragment_block c e)
        (bindE (ring_push (m_result_fifo c) (fe_request e)) (\<lambda>(res, _).
         bindE (ring_pop (m_fragment_fifo c)) (\<lambda>(ff, _).
           Inr (c\<lparr>m_result_fifo := res, m_fragment_fifo := ff\<rparr>)))))
      else Inl Out_Of_Range)"

definition read_ready_line :: "tex_cache \<Rightarrow> tex_cache cxx" where
  "read_ready_line c =
     (if \<not> ring_empty (m_fragment_fifo c) \<and> \<not> ring_full (m_result_fifo c)
      then bindE (ring_peek (m_fragment_fifo c)) (\<lambda>e. if fe_miss e then serve_miss c e else serve_hit c e)
      else Inr c)"

definition tex_cycle :: "(u32 \<Rightarrow> bool \<Rightarrow> bool) \<Rightarrow> tex_cache \<Rightarrow> (tex_cache \<times> nat option) cxx" where
  "tex_cycle port_full c =
     bindE (send_next_request port_full c) (\<lambda>(c1, sent). bindE (read_ready_line c1) (\<lambda>c2. Inr (c2, sent)))"

definition tex_fill :: "tex_cache \<Rightarrow> nat \<Rightarrow> u32 \<Rightarrow> tex_cache cxx" where
  "tex_fill c mf time =
     (case x_extra c mf of
        None \<Rightarrow> Inl Assert_Failed
      | Some e \<Rightarrow> assertE (tx_valid e) (assertE (\<not> ring_empty (m_rob c))
          (bindE (ring_peek_at (m_rob c) (tx_rob_index e)) (\<lambda>r.
           assertE (\<not> re_ready r)
           (let c1 = c\<lparr>m_rob := ring_set (m_rob c) (tx_rob_index e) (r\<lparr>re_ready := True, re_time := time\<rparr>)\<rparr>
            in assertE (re_block r = cache_block_addr (x_cfg c) (r_addr (x_heap c mf))) (Inr c1))))))"

definition tex_access_ready :: "tex_cache \<Rightarrow> bool" where
  "tex_access_ready c \<longleftrightarrow> \<not> ring_empty (m_result_fifo c)"

definition tex_next_access :: "tex_cache \<Rightarrow> (tex_cache \<times> nat) cxx" where
  "tex_next_access c = bindE (ring_pop (m_result_fifo c)) (\<lambda>(res, mf). Inr (c\<lparr>m_result_fifo := res\<rparr>, mf))"

end
