(* ===== verification/Tag_Total.thy ===== *)
theory Tag_Total
  imports Tag_Correct
begin

text \<open>
  The plain tag array never faults: what a lookup and an access need so that they return, and what they do to
  the state and tag of each line.  This is what the controllers build on.
\<close>

section \<open>The array as the controllers see it\<close>

definition lstat :: "tag_array \<Rightarrow> nat \<Rightarrow> cache_block_state" where "lstat ta i = m_status (m_lines ta ! i)"
definition ltag :: "tag_array \<Rightarrow> nat \<Rightarrow> u64" where "ltag ta i = m_tag (m_lines ta ! i)"

text \<open>Every address has a set inside the array.\<close>

definition sets_inside :: "tag_array \<Rightarrow> bool" where
  "sets_inside ta \<longleftrightarrow> (\<forall>addr. \<exists>si. set_index (m_config ta) addr = Inr si \<and> (unat si + 1) * assoc_no ta \<le> length (m_lines ta))"

text \<open>No line carries the time \<open>(unsigned)-1\<close>, with which the search for the oldest line starts.\<close>

definition stamped :: "tag_array \<Rightarrow> bool" where
  "stamped ta \<longleftrightarrow> (\<forall>b \<in> set (m_lines ta). m_last_access_time b \<noteq> -1 \<and> m_alloc_time b \<noteq> -1)"

definition array_ok :: "tag_array \<Rightarrow> bool" where
  "array_ok ta \<longleftrightarrow> plain_ok ta \<and> sets_inside ta \<and> stamped ta \<and> hpcl_comp_cache_segment_size (g_comp ta) \<noteq> 0 \<and>
     (m_alloc_policy (m_config ta) = ON_FILL \<longrightarrow> (\<forall>i < length (m_lines ta). lstat ta i \<noteq> RESERVED))"

text \<open>The lines of the set of an address.\<close>

definition home :: "tag_array \<Rightarrow> u64 \<Rightarrow> nat set" where
  "home ta addr = (case set_index (m_config ta) addr of Inl _ \<Rightarrow> {} | Inr si \<Rightarrow> set (set_lines ta si))"

lemma set_lines_bound:
  assumes "(unat si + 1) * assoc_no ta \<le> n" and "i \<in> set (set_lines ta si)"
  shows "i < n"
proof -
  obtain w where "i = unat si * assoc_no ta + w" "w < assoc_no ta"
    using assms(2) unfolding set_lines_def set_map set_upt by (elim imageE) auto
  then have "i < (unat si + 1) * assoc_no ta" by (simp add: add_mult_distrib)
  with assms(1) show ?thesis by linarith
qed

lemma home_bound: "array_ok ta \<Longrightarrow> i \<in> home ta addr \<Longrightarrow> i < length (m_lines ta)"
  unfolding array_ok_def sets_inside_def home_def
  by (metis set_lines_bound sum.simps(6))

section \<open>A lookup returns\<close>

lemma note_plain_total: "\<not> is_compressed_cache ta \<Longrightarrow> \<exists>c'. note_at ta n c i = Inr c'"
  by (cases "m_status (m_lines ta ! i)")
    (simp_all add: note_line_def note_invalid_def note_valid_def Let_def)

lemma probe_loop_total:
  assumes "\<not> is_compressed_cache ta" and "\<forall>i \<in> set is. i < length (m_lines ta)"
  shows "\<exists>r. probe_loop ta tag n c is = Inr r"
  using assms(2)
proof (induction "is" arbitrary: c)
  case (Cons j js)
  obtain c' where "note_at ta n c j = Inr c'" using note_plain_total[OF assms(1)] by blast
  with Cons.IH[of c'] Cons.prems show ?case by (auto simp: get_block_def)
qed simp

lemma pick_plain_total:
  assumes "\<not> is_compressed_cache ta" and inv: "cand_inv ta n S c" and some: "\<not> all_reserved c"
    and st: "\<forall>i \<in> S. stamp ta i \<noteq> -1"
  shows "\<exists>j. pick_victim ta n c = Inr (j, [])"
proof (cases "invalid_line c")
  case None
  obtain i where i: "i \<in> S" "m_status (m_lines ta ! i) \<noteq> RESERVED" using inv some by (auto simp: cand_inv_def)
  have "\<not> invalid_at ta i"
    using inv None assms(1) i(1) by (auto simp: cand_inv_def last_such_def loose_def)
  then have "valid_at ta i" using i(2) by (cases "m_status (m_lines ta ! i)") (simp_all add: invalid_at_def valid_at_def)
  then have "valid_line c \<noteq> None"
    using inv assms(1) i(1) st unfolding cand_inv_def best_such_def by (auto split: option.splits)
  then show ?thesis using None assms(1) by (auto simp: pick_victim_def)
qed (use assms(1) in \<open>simp add: pick_victim_def\<close>)

lemma probe_total:
  assumes "array_ok ta"
  shows "\<exists>st j. probe ta addr idx n = Inr (st, j, [])"
proof -
  have pl: "\<not> is_compressed_cache ta" using assms by (simp add: array_ok_def plain_ok_def is_plain_uncompressed)
  obtain si where si: "set_index (m_config ta) addr = Inr si" "(unat si + 1) * assoc_no ta \<le> length (m_lines ta)"
    using assms by (auto simp: array_ok_def sets_inside_def)
  have b: "\<forall>i \<in> set (set_lines ta si). i < length (m_lines ta)" using set_lines_bound[OF si(2)] by blast
  obtain r where r: "probe_loop ta (cache_tag (m_config ta) addr) n no_candidates (set_lines ta si) = Inr r"
    using probe_loop_total[OF pl b] by blast
  have seg: "hpcl_comp_cache_segment_size (g_comp ta) \<noteq> 0" using assms by (simp add: array_ok_def)
  show ?thesis
  proof (cases r)
    case (Inl h)
    then show ?thesis using si r seg by (cases h) (simp add: probe_def)
  next
    case (Inr c)
    have inv: "cand_inv ta n (set (set_lines ta si)) c"
      using note_fold_inv[OF cand_inv_start _ set_lines_sorted] probe_loop_miss[OF r[unfolded Inr]] by simp
    have st: "\<forall>i \<in> set (set_lines ta si). stamp ta i \<noteq> -1"
      using assms b by (auto simp: array_ok_def stamped_def stamp_def split: replacement_policy_t.split)
    show ?thesis
    proof (cases "all_reserved c")
      case True
      have "0 < assoc_no ta" using assms by (simp add: array_ok_def plain_ok_def)
      then have i: "unat si * assoc_no ta \<in> set (set_lines ta si)" (is "?i \<in> _") by (simp add: set_lines_mem)
      then have "lstat ta ?i = RESERVED" "?i < length (m_lines ta)"
        using inv True b by (auto simp: cand_inv_def lstat_def)
      then have "m_alloc_policy (m_config ta) = ON_MISS"
        using assms by (cases "m_alloc_policy (m_config ta)") (auto simp: array_ok_def)
      then show ?thesis using si r seg Inr True by (simp add: probe_def)
    next
      case False
      then show ?thesis using pick_plain_total[OF pl inv False st] si r seg Inr by (auto simp: probe_def)
    qed
  qed
qed

text \<open>What the lookup says, in terms of the home set.\<close>

definition lookup_means :: "tag_array \<Rightarrow> u64 \<Rightarrow> cache_request_status \<Rightarrow> nat \<Rightarrow> bool" where
  "lookup_means ta addr st j \<longleftrightarrow> (case st of
     HIT \<Rightarrow> j \<in> home ta addr \<and> ltag ta j = cache_tag (m_config ta) addr \<and> lstat ta j \<in> {VALID, MODIFIED}
   | HIT_RESERVED \<Rightarrow> j \<in> home ta addr \<and> ltag ta j = cache_tag (m_config ta) addr \<and> lstat ta j = RESERVED
   | MISS \<Rightarrow> j \<in> home ta addr \<and> lstat ta j \<noteq> RESERVED \<and>
       (\<forall>i \<in> home ta addr. ltag ta i = cache_tag (m_config ta) addr \<longrightarrow> lstat ta i = INVALID)
   | RESERVATION_FAIL \<Rightarrow> m_alloc_policy (m_config ta) = ON_MISS \<and>
       (\<forall>i \<in> home ta addr. lstat ta i = RESERVED \<and> ltag ta i \<noteq> cache_tag (m_config ta) addr))"

lemma probe_means:
  assumes ok: "array_ok ta" and p: "probe ta addr idx n = Inr (st, j, ev)"
  shows "lookup_means ta addr st j \<and> (st \<noteq> RESERVATION_FAIL \<longrightarrow> j < length (m_lines ta))"
proof -
  have pl: "\<not> is_compressed_cache ta" using ok by (simp add: array_ok_def plain_ok_def is_plain_uncompressed)
  from probe_plain_ok[OF pl p] obtain si where si: "set_index (m_config ta) addr = Inr si"
    and m: "case st of
       HIT \<Rightarrow> j \<in> set (set_lines ta si) \<and> matches ta (cache_tag (m_config ta) addr) j \<and> valid_at ta j
     | HIT_RESERVED \<Rightarrow> j \<in> set (set_lines ta si) \<and> matches ta (cache_tag (m_config ta) addr) j \<and>
         m_status (m_lines ta ! j) = RESERVED
     | MISS \<Rightarrow> good_victim ta si j \<and> (\<forall>i \<in> set (set_lines ta si). \<not> matches ta (cache_tag (m_config ta) addr) i)
     | RESERVATION_FAIL \<Rightarrow> j = idx \<and> (\<forall>i \<in> set (set_lines ta si). m_status (m_lines ta ! i) = RESERVED \<and>
         \<not> matches ta (cache_tag (m_config ta) addr) i)"
    and j: "st \<noteq> RESERVATION_FAIL \<longrightarrow> j < length (m_lines ta)" by auto
  have h: "home ta addr = set (set_lines ta si)" using si by (simp add: home_def)
  have "st = RESERVATION_FAIL \<Longrightarrow> m_alloc_policy (m_config ta) = ON_MISS"
    using p by (cases rule: probe_cases) (auto split: if_split_asm)
  then show ?thesis using m j
    by (cases st) (auto simp: lookup_means_def h matches_def good_victim_def valid_at_def invalid_at_def lstat_def ltag_def)
qed

text \<open>On an array in order the outcome depends on neither the counters nor the index passed in, and is the only one.\<close>

lemma home_addr_unique:
  assumes ok: "array_ok ta" and "i \<in> home ta addr" "j \<in> home ta addr"
    and "ltag ta i = ltag ta j" "lstat ta i \<noteq> INVALID" "lstat ta j \<noteq> INVALID"
  shows "i = j"
proof (rule ccontr)
  assume "i \<noteq> j"
  have a: "0 < assoc_no ta" using ok by (simp add: array_ok_def plain_ok_def)
  obtain si where "i \<in> set (set_lines ta si)" "j \<in> set (set_lines ta si)"
    using assms(2,3) unfolding home_def by (auto split: sum.splits)
  then have "i div assoc_no ta = j div assoc_no ta" by (simp add: set_lines_mem[OF a])
  then have "twins ta i j" using assms(4-6) \<open>i \<noteq> j\<close> by (simp add: twins_def ltag_def lstat_def invalid_at_def)
  then show False using ok home_bound[OF ok assms(2)] home_bound[OF ok assms(3)] by (auto simp: array_ok_def plain_ok_def)
qed

definition holder :: "tag_array \<Rightarrow> u64 \<Rightarrow> nat \<Rightarrow> bool" where
  "holder ta addr i \<longleftrightarrow> i \<in> home ta addr \<and> ltag ta i = cache_tag (m_config ta) addr \<and> lstat ta i \<noteq> INVALID"

lemma means_holder:
  assumes "lookup_means ta addr st j"
  shows "(st = HIT \<or> st = HIT_RESERVED \<longrightarrow> holder ta addr j \<and> (st = HIT_RESERVED \<longleftrightarrow> lstat ta j = RESERVED)) \<and>
    (st = MISS \<longrightarrow> (\<forall>i. \<not> holder ta addr i) \<and> (\<exists>i \<in> home ta addr. lstat ta i \<noteq> RESERVED)) \<and>
    (st = RESERVATION_FAIL \<longrightarrow> (\<forall>i. \<not> holder ta addr i) \<and> (\<forall>i \<in> home ta addr. lstat ta i = RESERVED))"
  using assms by (cases st) (auto simp: lookup_means_def holder_def)

lemma means_unique:
  assumes "array_ok ta" and "lookup_means ta addr st j" and "lookup_means ta addr st' j'"
  shows "st = st' \<and> (st = HIT \<or> st = HIT_RESERVED \<longrightarrow> j = j')"
proof -
  have u: "i = k" if "holder ta addr i" "holder ta addr k" for i k
    using home_addr_unique[OF assms(1), of i addr k] that by (simp add: holder_def)
  note a = means_holder[OF assms(2)] and b = means_holder[OF assms(3)]
  have ex: "s = HIT \<or> s = HIT_RESERVED \<or> s = MISS \<or> s = RESERVATION_FAIL" for s by (cases s) simp_all
  show ?thesis
  proof (cases "\<exists>i. holder ta addr i")
    case True
    then have "st = HIT \<or> st = HIT_RESERVED" "st' = HIT \<or> st' = HIT_RESERVED"
      using a b ex[of st] ex[of st'] by blast+
    then show ?thesis using a b u by metis
  next
    case False
    then have "st = MISS \<or> st = RESERVATION_FAIL" "st' = MISS \<or> st' = RESERVATION_FAIL"
      using a b ex[of st] ex[of st'] by blast+
    then show ?thesis using a b by (elim disjE) blast+
  qed
qed

section \<open>An access returns\<close>

lemma array_ok_counters [simp]:
  "array_ok (ta\<lparr>m_access := a\<rparr>) = array_ok ta" "array_ok (ta\<lparr>m_miss := a\<rparr>) = array_ok ta"
  "array_ok (ta\<lparr>m_pending_hit := a\<rparr>) = array_ok ta" "array_ok (ta\<lparr>m_res_fail := a\<rparr>) = array_ok ta"
  by (simp_all add: array_ok_def counters_irrelevant sets_inside_def stamped_def lstat_def
      assoc_no_def comp_assoc_def is_compressed_cache_def is_l1_data_def)

lemma views_access [simp]:
  "lstat (ta\<lparr>m_access := a\<rparr>) = lstat ta" "ltag (ta\<lparr>m_access := a\<rparr>) = ltag ta" "home (ta\<lparr>m_access := a\<rparr>) = home ta"
  by (simp_all add: fun_eq_iff lstat_def ltag_def home_def set_lines_def assoc_no_def comp_assoc_def
      is_compressed_cache_def is_l1_data_def split: sum.split)

lemma lookup_means_access [simp]: "lookup_means (ta\<lparr>m_access := a\<rparr>) addr st j = lookup_means ta addr st j"
  by (cases st) (simp_all add: lookup_means_def)

lemma array_ok_change:
  assumes ok: "array_ok ta" and same: "same_array ta ta'" and pl: "plain_ok ta'" and st: "stamped ta'"
    and f: "m_alloc_policy (m_config ta) = ON_FILL \<longrightarrow> (\<forall>i < length (m_lines ta). lstat ta' i \<noteq> RESERVED)"
  shows "array_ok ta'"
  using assms same_arrayD[OF same] by (simp add: array_ok_def sets_inside_def same_array_def)

lemma stamped_put:
  "stamped ta \<Longrightarrow> m_last_access_time b \<noteq> -1 \<Longrightarrow> m_alloc_time b \<noteq> -1 \<Longrightarrow> stamped (put_block ta i b)"
  unfolding stamped_def put_block_def using set_update_subset_insert[of "m_lines ta" i b] by fastforce

lemma stamped_nth: "stamped ta \<Longrightarrow> i < length (m_lines ta) \<Longrightarrow>
    m_last_access_time (m_lines ta ! i) \<noteq> -1 \<and> m_alloc_time (m_lines ta ! i) \<noteq> -1"
  by (simp add: stamped_def)

definition access_effect :: "tag_array \<Rightarrow> tag_array \<Rightarrow> u64 \<Rightarrow> cache_request_status \<Rightarrow> nat \<Rightarrow> bool" where
  "access_effect ta ta' addr st j \<longleftrightarrow> (\<forall>i < length (m_lines ta).
     (lstat ta' i, ltag ta' i) =
       (if st = MISS \<and> m_alloc_policy (m_config ta) = ON_MISS \<and> i = j
        then (RESERVED, cache_tag (m_config ta) addr) else (lstat ta i, ltag ta i)))"

lemma access_total:
  assumes ok: "array_ok ta" and t: "t \<noteq> -1"
  shows "\<exists>ta' st j wb. access ta addr t idx = Inr (ta', st, j, wb) \<and> lookup_means ta addr st j \<and> array_ok ta' \<and>
    same_array ta ta' \<and> (st \<noteq> RESERVATION_FAIL \<longrightarrow> j < length (m_lines ta)) \<and> access_effect ta ta' addr st j \<and>
    (wb \<noteq> None \<longrightarrow> st = MISS \<and> m_alloc_policy (m_config ta) = ON_MISS)"
proof -
  let ?ta = "ta\<lparr>m_access := m_access ta + 1\<rparr>"
  have ok1: "array_ok ?ta" using ok by simp
  obtain st0 j0 where p: "probe ?ta addr idx 0 = Inr (st0, j0, [])" using probe_total[OF ok1] by blast
  have "\<exists>ta' st j wb. access ta addr t idx = Inr (ta', st, j, wb)"
    using p by (cases st0) (auto simp: access_def Let_def)
  then obtain ta' st j wb where a: "access ta addr t idx = Inr (ta', st, j, wb)" by blast
  have pl: "plain_ok ta'" "same_array ta ta'" using access_plain[OF _ a] ok by (auto simp: array_ok_def)
  have S: "stamped ?ta" using ok by (simp add: array_ok_def stamped_def)
  have same1: "same_array ?ta (touch ?ta k t)" "m_lines ?ta = m_lines ta" "m_config ?ta = m_config ta" for k by simp_all
  from a have "lookup_means ta addr st j \<and> (st \<noteq> RESERVATION_FAIL \<longrightarrow> j < length (m_lines ta)) \<and>
      access_effect ta ta' addr st j \<and> stamped ta' \<and> (wb \<noteq> None \<longrightarrow> st = MISS \<and> m_alloc_policy (m_config ta) = ON_MISS)"
  proof (cases rule: access_cases)
    case (Touch ev)
    from probe_means[OF ok1 Touch(1)] Touch(2) have m: "lookup_means ta addr st j" "j < length (m_lines ta)" by auto
    obtain q where q: "ta' = (touch ?ta j t)\<lparr>m_pending_hit := q\<rparr>" using Touch(4) by blast
    have "stamped (touch ?ta j t)" unfolding touch_def
      using t S stamped_nth[OF S, of j] m(2) by (intro stamped_put) simp_all
    then have "stamped ta'" by (simp add: q stamped_def)
    moreover have "access_effect ta ta' addr st j"
      using Touch(2) by (auto simp: access_effect_def q touch_def put_block_nth lstat_def ltag_def)
    ultimately show ?thesis using m Touch(3) by simp
  next
    case (Alloc ev)
    from probe_means[OF ok1 Alloc(1)] Alloc(2) have m: "lookup_means ta addr st j" "j < length (m_lines ta)" by auto
    have "stamped (?ta\<lparr>m_miss := m_miss ?ta + 1\<rparr>)" using S by (simp add: stamped_def)
    then have "stamped ta'" unfolding Alloc(4) allocate_at_def
      using t by (intro stamped_put) (simp_all add: block_allocate_def)
    moreover have "access_effect ta ta' addr st j"
      using Alloc(2,3) unfolding Alloc(4)
      by (auto simp: access_effect_def allocate_at_def put_block_nth lstat_def ltag_def block_allocate_def)
    ultimately show ?thesis using m Alloc(2,3) by simp
  next
    case (Count ev)
    from probe_means[OF ok1 Count(1)] have m: "lookup_means ta addr st j" "st \<noteq> RESERVATION_FAIL \<longrightarrow> j < length (m_lines ta)" by auto
    obtain x y where q: "ta' = ?ta\<lparr>m_miss := x, m_res_fail := y\<rparr>" using Count(4) by blast
    have "stamped ta'" using S by (simp add: q stamped_def)
    moreover have "access_effect ta ta' addr st j"
      using Count(3) by (auto simp: access_effect_def q lstat_def ltag_def)
    ultimately show ?thesis using m Count(2) by simp
  qed
  moreover from this have "array_ok ta'"
  proof (intro array_ok_change[OF ok pl(2,1)], blast)
    show "m_alloc_policy (m_config ta) = ON_FILL \<longrightarrow> (\<forall>i < length (m_lines ta). lstat ta' i \<noteq> RESERVED)"
      if "lookup_means ta addr st j \<and> (st \<noteq> RESERVATION_FAIL \<longrightarrow> j < length (m_lines ta)) \<and>
        access_effect ta ta' addr st j \<and> stamped ta' \<and> (wb \<noteq> None \<longrightarrow> st = MISS \<and> m_alloc_policy (m_config ta) = ON_MISS)"
      using that ok unfolding access_effect_def array_ok_def by fastforce
  qed
  ultimately show ?thesis using a pl(2) by blast
qed

section \<open>Changes of one line\<close>

definition line_becomes :: "tag_array \<Rightarrow> tag_array \<Rightarrow> nat \<Rightarrow> cache_block_state \<Rightarrow> u64 \<Rightarrow> bool" where
  "line_becomes ta ta' j s g \<longleftrightarrow> (\<forall>i < length (m_lines ta).
     (lstat ta' i, ltag ta' i) = (if i = j then (s, g) else (lstat ta i, ltag ta i)))"

lemma line_becomesD:
  assumes "line_becomes ta ta' j s g" and "i < length (m_lines ta)"
  shows "lstat ta' i = (if i = j then s else lstat ta i)" and "ltag ta' i = (if i = j then g else ltag ta i)"
  using assms by (auto simp: line_becomes_def split: if_split_asm)

lemma put_status_total:
  assumes ok: "array_ok ta" and j: "j < length (m_lines ta)" "lstat ta j \<noteq> INVALID"
    and s: "s \<noteq> RESERVED" "m_status b = s" "m_tag b = ltag ta j"
    and st: "m_last_access_time b \<noteq> -1" "m_alloc_time b \<noteq> -1"
  shows "array_ok (put_block ta j b) \<and> same_array ta (put_block ta j b) \<and>
    line_becomes ta (put_block ta j b) j s (ltag ta j)"
proof -
  have e: "line_becomes ta (put_block ta j b) j s (ltag ta j)"
    using s by (simp add: line_becomes_def lstat_def ltag_def put_block_nth)
  have pl: "plain_ok ta" "\<not> invalid_at ta j" using ok j(2) by (simp_all add: array_ok_def invalid_at_def lstat_def)
  have "plain_ok (put_block ta j b)"
    by (rule plain_ok_change[OF pl(1) _ j(1)]) (simp_all add: put_block_nth j(1) s(3) ltag_def pl(2))
  moreover have "stamped (put_block ta j b)" using ok st by (intro stamped_put) (simp_all add: array_ok_def)
  moreover have "\<forall>i < length (m_lines ta). lstat (put_block ta j b) i \<noteq> RESERVED"
    if "m_alloc_policy (m_config ta) = ON_FILL"
    using that ok s(1) by (simp add: array_ok_def line_becomesD(1)[OF e])
  ultimately show ?thesis using array_ok_change[OF ok, of "put_block ta j b"] e by (metis same_array_put)
qed

lemma fill_index_total:
  assumes ok: "array_ok ta" and j: "j < length (m_lines ta)" "lstat ta j = RESERVED"
    and m: "m_alloc_policy (m_config ta) = ON_MISS"
  shows "\<exists>ta'. fill_index ta j t = Inr ta' \<and> array_ok ta' \<and> same_array ta ta' \<and> line_becomes ta ta' j VALID (ltag ta j)"
proof -
  let ?b = "(m_lines ta ! j)\<lparr>m_status := VALID, m_fill_time := t\<rparr>"
  have "fill_index ta j t = Inr (put_block ta j ?b)"
    using j m by (simp add: fill_index_def fill_block_def get_block_def block_fill_def lstat_def)
  moreover have "array_ok (put_block ta j ?b) \<and> same_array ta (put_block ta j ?b) \<and>
      line_becomes ta (put_block ta j ?b) j VALID (ltag ta j)"
    using put_status_total[OF ok j(1), of VALID ?b] j ok stamped_nth[of ta j]
    by (simp add: array_ok_def ltag_def)
  ultimately show ?thesis by blast
qed

lemma fill_addr_total:
  assumes ok: "array_ok ta" and f: "m_alloc_policy (m_config ta) = ON_FILL" and t: "t \<noteq> -1"
    and fresh: "\<forall>i. \<not> holder ta addr i"
  shows "\<exists>ta' j. fill_addr ta addr t 0 0 = Inr ta' \<and> array_ok ta' \<and> same_array ta ta' \<and> j \<in> home ta addr \<and>
    line_becomes ta ta' j VALID (cache_tag (m_config ta) addr)"
proof -
  obtain st j where p: "probe ta addr 0 0 = Inr (st, j, [])" using probe_total[OF ok] by blast
  note pm = probe_means[OF ok p]
  have "st \<noteq> RESERVATION_FAIL" using conjunct1[OF pm] f by (auto simp: lookup_means_def)
  moreover have "st \<noteq> HIT" "st \<noteq> HIT_RESERVED" using means_holder[OF conjunct1[OF pm]] fresh by blast+
  ultimately have "st = MISS" by (cases st) simp_all
  then have j: "j \<in> home ta addr" "j < length (m_lines ta)" using pm by (auto simp: lookup_means_def)
  define ta1 where "ta1 = allocate_at ta j addr t"
  have e1: "line_becomes ta ta1 j RESERVED (cache_tag (m_config ta) addr)"
    using j by (simp add: line_becomes_def ta1_def allocate_at_def put_block_nth lstat_def ltag_def block_allocate_def)
  let ?b = "(m_lines ta1 ! j)\<lparr>m_status := VALID, m_fill_time := t\<rparr>"
  let ?u = "put_block ta1 j ?b"
  have len: "length (m_lines ta1) = length (m_lines ta)" by (simp add: ta1_def allocate_at_def put_block_def)
  have fp: "fill_plain ta addr t = Inr (ta1, j)" using p \<open>st = MISS\<close> by (simp add: fill_plain_def ta1_def)
  have pl: "is_plain ta" using ok by (simp add: array_ok_def plain_ok_def)
  have "lstat ta1 j = RESERVED" using line_becomesD(1)[OF e1 j(2)] by simp
  then have fb: "fill_block ta1 j t = Inr ?u"
    using j(2) len by (simp add: fill_block_def get_block_def block_fill_def lstat_def)
  have "fill_addr ta addr t 0 0 = Inr ?u" using fp fb f pl by (simp add: fill_addr_def is_plain_def)
  moreover have same: "same_array ta ?u" "plain_ok ?u"
    using fill_plain_plain[OF _ fp] fill_block_plain[OF _ fb] ok same_array_trans by (auto simp: array_ok_def)
  moreover have e: "line_becomes ta ?u j VALID (cache_tag (m_config ta) addr)"
    unfolding line_becomes_def
    using line_becomesD[OF e1] j(2) len by (auto simp: put_block_nth lstat_def ltag_def)
  moreover have "stamped ?u"
  proof -
    have s1: "stamped ta1" using ok t unfolding ta1_def allocate_at_def
      by (intro stamped_put) (simp_all add: array_ok_def block_allocate_def)
    then show ?thesis using stamped_nth[OF s1, of j] j(2) len by (intro stamped_put) simp_all
  qed
  moreover have "\<forall>i < length (m_lines ta). lstat ?u i \<noteq> RESERVED"
    using ok f by (simp add: array_ok_def line_becomesD(1)[OF e])
  ultimately show ?thesis using array_ok_change[OF ok, of ?u] j(1) by blast
qed

lemma home_same: "same_array ta ta' \<Longrightarrow> home ta' = home ta"
  using same_arrayD[of ta ta']
  by (simp add: fun_eq_iff home_def set_lines_def split: sum.split)

lemma tag_is_block: "cache_tag c a = cache_block_addr c a"
  by (simp add: cache_tag_def cache_block_addr_def)

lemma block_addr_idem [simp]: "cache_block_addr c (cache_block_addr c a) = cache_block_addr c a"
  by (simp add: cache_block_addr_def and.assoc)

end
