(* ===== verification/Tex_Correct.thy ===== *)
theory Tex_Correct
  imports Tex_Cache Tag_Total
begin

text \<open>
  The invariant of the texture cache.  The tags are the state that the data lines will have once every fragment in
  the queue is served (\<open>replay\<close>), the reorder buffer holds the misses of the queue in their order, and the entries
  that are not ready are the requests that wait in the request FIFO or at the level below.  Every operation keeps it
  and returns.
\<close>

section \<open>Serving the queue ahead of time\<close>

definition advance :: "(fragment_entry \<Rightarrow> u64) \<Rightarrow> fragment_entry \<Rightarrow> (nat \<Rightarrow> u64 option) \<Rightarrow> nat \<Rightarrow> u64 option" where
  "advance b e m = (if fe_miss e then m(fe_index e \<mapsto> b e) else m)"

fun replay :: "(fragment_entry \<Rightarrow> u64) \<Rightarrow> fragment_entry list \<Rightarrow> (nat \<Rightarrow> u64 option) \<Rightarrow> nat \<Rightarrow> u64 option" where
  "replay b [] m = m"
| "replay b (e # es) m = replay b es (advance b e m)"

text \<open>Each hit finds its block in the line when its turn comes.\<close>

fun served :: "(fragment_entry \<Rightarrow> u64) \<Rightarrow> fragment_entry list \<Rightarrow> (nat \<Rightarrow> u64 option) \<Rightarrow> bool" where
  "served b [] m \<longleftrightarrow> True"
| "served b (e # es) m \<longleftrightarrow> (fe_miss e \<or> m (fe_index e) = Some (b e)) \<and> served b es (advance b e m)"

lemma replay_snoc: "replay b (es @ [e]) m = advance b e (replay b es m)"
  by (induction es arbitrary: m) simp_all

lemma served_snoc: "served b (es @ [e]) m \<longleftrightarrow> served b es m \<and> (fe_miss e \<or> replay b es m (fe_index e) = Some (b e))"
  by (induction es arbitrary: m) auto

definition contents :: "data_block list \<Rightarrow> nat \<Rightarrow> u64 option" where
  "contents ls i = (if i < length ls \<and> db_valid (ls ! i) then Some (db_addr (ls ! i)) else None)"

lemma contents_update:
  "i < length ls \<Longrightarrow> contents (ls[i := \<lparr>db_valid = True, db_addr = a\<rparr>]) = (contents ls)(i \<mapsto> a)"
  by (auto simp: fun_eq_iff contents_def nth_list_update)

section \<open>The invariant\<close>

definition coherent :: "(fragment_entry \<Rightarrow> u64) \<Rightarrow> fragment_entry list \<Rightarrow> (nat \<Rightarrow> u64 option) \<Rightarrow> tag_array \<Rightarrow> bool" where
  "coherent b F m ta \<longleftrightarrow> served b F m \<and>
     (\<forall>i < length (m_lines ta). lstat ta i \<noteq> INVALID \<longrightarrow> replay b F m i = Some (ltag ta i))"

definition matched :: "(fragment_entry \<Rightarrow> u64) \<Rightarrow> fragment_entry list \<Rightarrow> rob_entry list \<Rightarrow> bool" where
  "matched b F R \<longleftrightarrow> map (\<lambda>r. (re_request r, re_index r, re_block r)) R =
     map (\<lambda>e. (fe_request e, fe_index e, b e)) (filter fe_miss F)"

definition awaited :: "rob_entry list \<Rightarrow> nat list \<Rightarrow> bool" where
  "awaited R W \<longleftrightarrow> distinct W \<and> set W = re_request ` {r \<in> set R. \<not> re_ready r}"

definition slots_ok :: "(nat \<Rightarrow> tex_extra option) \<Rightarrow> rob_entry ring \<Rightarrow> bool" where
  "slots_ok x rob \<longleftrightarrow> (\<forall>k < f_num rob. x (re_request (ring_list rob ! k)) = Some \<lparr>tx_valid = True, tx_rob_index = slot rob k\<rparr>)"

definition tags_ok :: "tag_array \<Rightarrow> nat \<Rightarrow> bool" where
  "tags_ok ta n \<longleftrightarrow> array_ok ta \<and> m_alloc_policy (m_config ta) = ON_MISS \<and> m_valid_config (m_config ta) \<and>
     (\<forall>i < length (m_lines ta). lstat ta i = INVALID \<or> lstat ta i = VALID) \<and> (\<forall>addr. \<forall>j \<in> home ta addr. j < n)"

definition fragments :: "tex_cache \<Rightarrow> fragment_entry list" where "fragments c = ring_list (m_fragment_fifo c)"

definition results :: "tex_cache \<Rightarrow> nat list" where "results c = ring_list (m_result_fifo c)"

text \<open>The accesses that were accepted and not handed back yet, oldest first.\<close>

definition in_cache :: "tex_cache \<Rightarrow> nat list" where "in_cache c = results c @ map fe_request (fragments c)"

definition rings_ok :: "tex_cache \<Rightarrow> bool" where
  "rings_ok c \<longleftrightarrow> ring_ok (m_fragment_fifo c) \<and> ring_ok (m_request_fifo c) \<and> ring_ok (m_rob c) \<and> ring_ok (m_result_fifo c)"

text \<open>\<open>out\<close> holds the requests at the level below.\<close>

definition tex_ok :: "tex_cache \<Rightarrow> nat list \<Rightarrow> bool" where
  "tex_ok c out \<longleftrightarrow> tags_ok (x_tags c) (length (m_cache c)) \<and> rings_ok c \<and> stats_ok (x_stats c) \<and>
     coherent (fragment_block c) (fragments c) (contents (m_cache c)) (x_tags c) \<and>
     matched (fragment_block c) (fragments c) (ring_list (m_rob c)) \<and>
     awaited (ring_list (m_rob c)) (ring_list (m_request_fifo c) @ out) \<and>
     slots_ok (x_extra c) (m_rob c) \<and> distinct (in_cache c) \<and> (\<forall>e \<in> set (fragments c). fe_index e < length (m_cache c))"

lemma tex_okD:
  assumes "tex_ok c out"
  shows "tags_ok (x_tags c) (length (m_cache c))" "rings_ok c" "stats_ok (x_stats c)"
    "coherent (fragment_block c) (fragments c) (contents (m_cache c)) (x_tags c)"
    "matched (fragment_block c) (fragments c) (ring_list (m_rob c))"
    "awaited (ring_list (m_rob c)) (ring_list (m_request_fifo c) @ out)"
    "slots_ok (x_extra c) (m_rob c)" "distinct (in_cache c)" "\<forall>e \<in> set (fragments c). fe_index e < length (m_cache c)"
  using assms unfolding tex_ok_def by blast+

lemma ring_peek_list: "ring_ok r \<Longrightarrow> ring_list r = x # xs \<Longrightarrow> ring_peek r = Inr x"
  using ring_list_nth[of 0 r] length_ring_list[of r] by (simp add: ring_peek_def ring_ok_def slot_def)

lemma ring_peek_at_slot: "ring_ok r \<Longrightarrow> k < f_num r \<Longrightarrow> ring_peek_at r (slot r k) = Inr (ring_list r ! k)"
  using slot_less[of r k] by (simp add: ring_peek_at_def ring_list_nth ring_ok_def)

lemma ring_empty_list: "ring_empty r \<longleftrightarrow> ring_list r = []"
  by (simp add: ring_empty_def flip: length_0_conv)

lemma matched_requests: "matched b F R \<Longrightarrow> map re_request R = map fe_request (filter fe_miss F)"
  unfolding matched_def by (drule arg_cong[where f = "map fst"]) (simp add: comp_def)

lemma rob_distinct:
  assumes "matched b F R" and "distinct (map fe_request F)"
  shows "distinct (map re_request R)"
  using assms(2) by (simp add: matched_requests[OF assms(1)] distinct_map_filter)

section \<open>The cycle\<close>

lemma send_next_ok:
  assumes ok: "tex_ok c out"
  shows "\<exists>c' sent. send_next_request full c = Inr (c', sent) \<and> tex_ok c' (out @ (case sent of None \<Rightarrow> [] | Some mf \<Rightarrow> [mf])) \<and>
    in_cache c' = in_cache c \<and> x_cfg c' = x_cfg c \<and>
    (ring_list (m_request_fifo c) = [] \<longrightarrow> c' = c \<and> sent = None)"
proof (cases "ring_list (m_request_fifo c)")
  case Nil
  then show ?thesis using ok by (simp add: send_next_request_def ring_empty_list)
next
  case (Cons mf q)
  note d = tex_okD[OF ok]
  have rq: "ring_ok (m_request_fifo c)" using d(2) by (simp add: rings_ok_def)
  obtain r' where r': "ring_pop (m_request_fifo c) = Inr (r', mf)" "ring_ok r'" "ring_list r' = q"
    using ring_pop_ok[OF rq Cons] by blast
  let ?c = "c\<lparr>m_request_fifo := r'\<rparr>"
  have b: "fragment_block ?c = fragment_block c" by (simp add: fun_eq_iff fragment_block_def x_cfg_def)
  have s: "fragments ?c = fragments c" "in_cache ?c = in_cache c" by (simp_all add: in_cache_def results_def fragments_def)
  have w: "awaited (ring_list (m_rob c)) (q @ out @ [mf])" using d(6) by (auto simp: awaited_def Cons)
  have rk: "rings_ok ?c" using d(2) r'(2) by (simp add: rings_ok_def)
  have "tex_ok ?c (out @ [mf])" using d w r' rk by (simp add: tex_ok_def b s)
  then show ?thesis using ok r' Cons s ring_peek_list[OF rq Cons]
    by (simp add: send_next_request_def ring_empty_list x_cfg_def)
qed

lemma rob_head:
  assumes m: "matched b (e # F) R" and e: "fe_miss e"
  shows "\<exists>r R'. R = r # R' \<and> re_request r = fe_request e \<and> re_index r = fe_index e \<and> re_block r = b e \<and> matched b F R'"
  using m e by (cases R) (simp_all add: matched_def)

lemma slots_pop:
  assumes "slots_ok x r" and l: "ring_list r = a # R" and "ring_list r' = R" and "\<forall>k. slot r' k = slot r (k + 1)"
    and n: "f_num r = f_num r' + 1"
  shows "slots_ok x r'"
  unfolding slots_ok_def
proof (intro allI impI)
  fix k assume "k < f_num r'"
  then have "k + 1 < f_num r" using n by simp
  then have "x (re_request (ring_list r ! (k + 1))) = Some \<lparr>tx_valid = True, tx_rob_index = slot r (k + 1)\<rparr>"
    using assms(1) unfolding slots_ok_def by blast
  then show "x (re_request (ring_list r' ! k)) = Some \<lparr>tx_valid = True, tx_rob_index = slot r' k\<rparr>"
    using assms(3,4) l by simp
qed

lemma serve_miss_ok:
  assumes ok: "tex_ok c out" and f: "fragments c = e # F" and e: "fe_miss e"
    and room: "\<not> ring_full (m_result_fifo c)"
  shows "\<exists>c'. serve_miss c e = Inr c' \<and> tex_ok c' out \<and> in_cache c' = in_cache c \<and> x_cfg c' = x_cfg c \<and>
    (re_ready (ring_list (m_rob c) ! 0) \<longrightarrow> results c' = results c @ [fe_request e])"
proof -
  note d = tex_okD[OF ok]
  obtain r R' where r: "ring_list (m_rob c) = r # R'" "re_request r = fe_request e" "re_index r = fe_index e"
      "re_block r = fragment_block c e" "matched (fragment_block c) F R'"
    using rob_head[OF d(5)[unfolded f] e] by blast
  have rr: "ring_ok (m_rob c)" "ring_ok (m_result_fifo c)" "ring_ok (m_fragment_fifo c)" using d(2) by (simp_all add: rings_ok_def)
  have "f_num (m_rob c) \<noteq> 0" using r(1) length_ring_list[of "m_rob c"] by auto
  then have "ring_peek_at (m_rob c) (slot (m_rob c) 0) = Inr r" using ring_peek_at_slot[OF rr(1), of 0] r(1) by simp
  moreover have "slot (m_rob c) 0 = next_pop_index (m_rob c)" using rr(1) by (simp add: slot_def next_pop_index_def ring_ok_def)
  ultimately have pk: "ring_peek_at (m_rob c) (next_pop_index (m_rob c)) = Inr r" by simp
  show ?thesis
  proof (cases "re_ready r")
    case False
    then show ?thesis using pk r ok by (simp add: serve_miss_def)
  next
    case True
    have "f_num (m_result_fifo c) < f_size (m_result_fifo c)" using room rr(2) by (simp add: ring_full_def ring_ok_def)
    from ring_push_ok[OF rr(2) this, of "fe_request e"] obtain res i where
      res: "ring_push (m_result_fifo c) (fe_request e) = Inr (res, i)" "ring_ok res" "ring_list res = results c @ [fe_request e]"
      by (auto simp: results_def)
    from ring_pop_ok[OF rr(1) r(1)] obtain rob where
      rob: "ring_pop (m_rob c) = Inr (rob, r)" "ring_ok rob" "ring_list rob = R'" "\<forall>k. slot rob k = slot (m_rob c) (k + 1)"
        "f_num (m_rob c) = f_num rob + 1" by blast
    from ring_pop_ok[OF rr(3) f[unfolded fragments_def]] obtain ff where
      ff: "ring_pop (m_fragment_fifo c) = Inr (ff, e)" "ring_ok ff" "ring_list ff = F" by blast
    define c' where "c' = c\<lparr>m_cache := (m_cache c)[re_index r := \<lparr>db_valid = True, db_addr = re_block r\<rparr>],
                    m_result_fifo := res, m_rob := rob, m_fragment_fifo := ff\<rparr>"
    have s: "fragments c' = F" "results c' = results c @ [fe_request e]" "x_tags c' = x_tags c" "m_rob c' = rob"
      "m_request_fifo c' = m_request_fifo c" "x_extra c' = x_extra c" "x_stats c' = x_stats c" "fragment_block c' = fragment_block c"
      "length (m_cache c') = length (m_cache c)" "rings_ok c'" "x_cfg c' = x_cfg c"
      using res ff rob d(2) by (simp_all add: c'_def fragments_def results_def fun_eq_iff fragment_block_def x_cfg_def rings_ok_def)
    have ic: "in_cache c' = in_cache c" by (simp add: in_cache_def s f)
    have ix: "fe_index e < length (m_cache c)" using d(9) f by simp
    have "contents (m_cache c') = advance (fragment_block c) e (contents (m_cache c))"
      using ix e r by (simp add: c'_def contents_update advance_def)
    then have co: "coherent (fragment_block c) F (contents (m_cache c')) (x_tags c)"
      using d(4) by (simp add: coherent_def f)
    have aw: "awaited R' (ring_list (m_request_fifo c) @ out)" using d(6) r(1) True by (auto simp: awaited_def)
    have "slots_ok (x_extra c) rob" by (rule slots_pop[OF d(7) r(1) rob(3,4,5)])
    then have "tex_ok c' out" using d(1,3,8,9) co r(5) aw by (simp add: tex_ok_def s ic f rob(3))
    moreover have "serve_miss c e = Inr c'"
      using pk r True ix res rob ff by (simp add: serve_miss_def c'_def)
    ultimately show ?thesis using s ic by simp
  qed
qed

lemma serve_hit_ok:
  assumes ok: "tex_ok c out" and f: "fragments c = e # F" and e: "\<not> fe_miss e"
    and room: "\<not> ring_full (m_result_fifo c)"
  shows "\<exists>c'. serve_hit c e = Inr c' \<and> tex_ok c' out \<and> in_cache c' = in_cache c \<and> x_cfg c' = x_cfg c \<and>
    results c' = results c @ [fe_request e]"
proof -
  note d = tex_okD[OF ok]
  have rr: "ring_ok (m_result_fifo c)" "ring_ok (m_fragment_fifo c)" using d(2) by (simp_all add: rings_ok_def)
  have "f_num (m_result_fifo c) < f_size (m_result_fifo c)" using room rr(1) by (simp add: ring_full_def ring_ok_def)
  from ring_push_ok[OF rr(1) this, of "fe_request e"] obtain res i where
    res: "ring_push (m_result_fifo c) (fe_request e) = Inr (res, i)" "ring_ok res" "ring_list res = results c @ [fe_request e]"
    by (auto simp: results_def)
  from ring_pop_ok[OF rr(2) f[unfolded fragments_def]] obtain ff where
    ff: "ring_pop (m_fragment_fifo c) = Inr (ff, e)" "ring_ok ff" "ring_list ff = F" by blast
  define c' where "c' = c\<lparr>m_result_fifo := res, m_fragment_fifo := ff\<rparr>"
  have s: "fragments c' = F" "results c' = results c @ [fe_request e]" "x_tags c' = x_tags c" "m_rob c' = m_rob c"
    "m_request_fifo c' = m_request_fifo c" "x_extra c' = x_extra c" "x_stats c' = x_stats c" "fragment_block c' = fragment_block c"
    "m_cache c' = m_cache c" "rings_ok c'" "x_cfg c' = x_cfg c"
    using res ff d(2) by (simp_all add: c'_def fragments_def results_def fun_eq_iff fragment_block_def x_cfg_def rings_ok_def)
  have ic: "in_cache c' = in_cache c" by (simp add: in_cache_def s f)
  have ix: "fe_index e < length (m_cache c)" using d(9) f by simp
  have "contents (m_cache c) (fe_index e) = Some (fragment_block c e)" and co: "coherent (fragment_block c) F (contents (m_cache c)) (x_tags c)"
    using d(4) e by (simp_all add: coherent_def f advance_def)
  then have "db_valid (m_cache c ! fe_index e)" "db_addr (m_cache c ! fe_index e) = fragment_block c e"
    by (simp_all add: contents_def split: if_splits)
  then have "serve_hit c e = Inr c'" using ix res ff by (simp add: serve_hit_def c'_def)
  moreover have "matched (fragment_block c) F (ring_list (m_rob c))" using d(5) e by (simp add: matched_def f)
  then have "tex_ok c' out" using d(1,3,6,7,8,9) co by (simp add: tex_ok_def s ic f)
  ultimately show ?thesis using s ic by simp
qed

lemma read_ready_ok:
  assumes ok: "tex_ok c out"
  shows "\<exists>c'. read_ready_line c = Inr c' \<and> tex_ok c' out \<and> in_cache c' = in_cache c \<and> x_cfg c' = x_cfg c \<and>
    (ring_list (m_request_fifo c) @ out = [] \<and> fragments c \<noteq> [] \<and> \<not> ring_full (m_result_fifo c) \<longrightarrow>
       results c' = results c @ [fe_request (hd (fragments c))])"
proof (cases "fragments c \<noteq> [] \<and> \<not> ring_full (m_result_fifo c)")
  case False
  then show ?thesis using ok by (auto simp: read_ready_line_def ring_empty_list fragments_def)
next
  case True
  then obtain e F where f: "fragments c = e # F" by (cases "fragments c") auto
  note d = tex_okD[OF ok]
  have p: "ring_peek (m_fragment_fifo c) = Inr e"
    by (rule ring_peek_list[where xs = F]) (use d(2) f in \<open>simp_all add: fragments_def rings_ok_def\<close>)
  have ne: "\<not> ring_empty (m_fragment_fifo c)" using f by (simp add: ring_empty_list fragments_def)
  show ?thesis
  proof (cases "fe_miss e")
    case True
    obtain r R' where r: "ring_list (m_rob c) = r # R'" using rob_head[OF d(5)[unfolded f] True] by blast
    have "re_ready r" if "ring_list (m_request_fifo c) @ out = []" using d(6) that r by (auto simp: awaited_def)
    then show ?thesis using serve_miss_ok[OF ok f True] \<open>fragments c \<noteq> [] \<and> \<not> ring_full (m_result_fifo c)\<close> p ne True r f
      by (auto simp: read_ready_line_def)
  next
    case False
    then show ?thesis using serve_hit_ok[OF ok f False] True p ne f by (auto simp: read_ready_line_def)
  qed
qed

lemma tex_cycle_ok:
  assumes ok: "tex_ok c out"
  shows "\<exists>c' sent. tex_cycle full c = Inr (c', sent) \<and> tex_ok c' (out @ (case sent of None \<Rightarrow> [] | Some mf \<Rightarrow> [mf])) \<and>
    in_cache c' = in_cache c \<and> x_cfg c' = x_cfg c \<and>
    (ring_list (m_request_fifo c) @ out = [] \<and> fragments c \<noteq> [] \<and> \<not> ring_full (m_result_fifo c) \<longrightarrow>
       results c' = results c @ [fe_request (hd (fragments c))])"
proof -
  obtain c1 sent where c1: "send_next_request full c = Inr (c1, sent)"
      "tex_ok c1 (out @ (case sent of None \<Rightarrow> [] | Some mf \<Rightarrow> [mf]))" "in_cache c1 = in_cache c" "x_cfg c1 = x_cfg c"
      "ring_list (m_request_fifo c) = [] \<longrightarrow> c1 = c \<and> sent = None"
    using send_next_ok[OF ok] by blast
  obtain c2 where c2: "read_ready_line c1 = Inr c2" "tex_ok c2 (out @ (case sent of None \<Rightarrow> [] | Some mf \<Rightarrow> [mf]))"
      "in_cache c2 = in_cache c1" "x_cfg c2 = x_cfg c1"
      "ring_list (m_request_fifo c1) @ (out @ (case sent of None \<Rightarrow> [] | Some mf \<Rightarrow> [mf])) = [] \<and> fragments c1 \<noteq> [] \<and>
         \<not> ring_full (m_result_fifo c1) \<longrightarrow> results c2 = results c1 @ [fe_request (hd (fragments c1))]"
    using read_ready_ok[OF c1(2)] by blast
  have "tex_cycle full c = Inr (c2, sent)" using c1(1) c2(1) by (simp add: tex_cycle_def)
  moreover have "results c2 = results c @ [fe_request (hd (fragments c))]"
    if "ring_list (m_request_fifo c) @ out = []" "fragments c \<noteq> []" "\<not> ring_full (m_result_fifo c)"
    using c1(5) c2(5) that by auto
  ultimately show ?thesis using c1(3,4) c2(2,3,4) by auto
qed

section \<open>The answers\<close>

lemma tex_next_ok:
  assumes ok: "tex_ok c out" and r: "results c = mf # rs"
  shows "\<exists>c'. tex_next_access c = Inr (c', mf) \<and> tex_ok c' out \<and> in_cache c = mf # in_cache c' \<and> x_cfg c' = x_cfg c"
proof -
  note d = tex_okD[OF ok]
  have rk: "ring_ok (m_result_fifo c)" using d(2) by (simp add: rings_ok_def)
  from ring_pop_ok[OF rk r[unfolded results_def]] obtain res where
    res: "ring_pop (m_result_fifo c) = Inr (res, mf)" "ring_ok res" "ring_list res = rs" by blast
  let ?c = "c\<lparr>m_result_fifo := res\<rparr>"
  have s: "fragments ?c = fragments c" "fragment_block ?c = fragment_block c" "x_cfg ?c = x_cfg c" "rings_ok ?c"
    using d(2) res(2) by (simp_all add: fragments_def fun_eq_iff fragment_block_def x_cfg_def rings_ok_def)
  have ic: "in_cache c = mf # in_cache ?c" using r res(3) by (simp add: in_cache_def results_def fragments_def)
  then have "distinct (in_cache ?c)" using d(8) by simp
  then have "tex_ok ?c out" using d s by (simp add: tex_ok_def)
  then show ?thesis using res(1) ic s(3) by (simp add: tex_next_access_def)
qed

text \<open>A reorder buffer in which the entry of a request becomes ready.\<close>

lemma ready_entry:
  assumes "distinct (map re_request R)" and k: "k < length R" and "re_request r' = re_request (R ! k)" and "re_ready r'"
  shows "re_request ` {r \<in> set (R[k := r']). \<not> re_ready r} = re_request ` {r \<in> set R. \<not> re_ready r} - {re_request (R ! k)}"
    (is "?A = ?B")
proof
  show "?A \<subseteq> ?B"
  proof
    fix x assume "x \<in> ?A"
    then obtain j where j: "j < length R" "x = re_request (R[k := r'] ! j)" "\<not> re_ready (R[k := r'] ! j)"
      by (auto simp: in_set_conv_nth)
    then have "j \<noteq> k" using assms(4) k by auto
    moreover have "re_request (R ! j) \<noteq> re_request (R ! k)"
      using assms(1) j(1) k \<open>j \<noteq> k\<close> nth_eq_iff_index_eq[of "map re_request R" j k] by simp
    ultimately show "x \<in> ?B" using j by auto
  qed
  show "?B \<subseteq> ?A"
  proof
    fix x assume x: "x \<in> ?B"
    then obtain j where j: "j < length R" "x = re_request (R ! j)" "\<not> re_ready (R ! j)" by (auto simp: in_set_conv_nth)
    then have "j \<noteq> k" using x by auto
    then have "R[k := r'] ! j = R ! j" by simp
    moreover have "R[k := r'] ! j \<in> set (R[k := r'])" using j(1) by (intro nth_mem) simp
    ultimately show "x \<in> ?A" using j by auto
  qed
qed

lemma tex_fill_ok:
  assumes ok: "tex_ok c out" and mf: "mf \<in> set out"
  shows "\<exists>c'. tex_fill c mf t = Inr c' \<and> tex_ok c' (remove1 mf out) \<and> in_cache c' = in_cache c \<and> x_cfg c' = x_cfg c"
proof -
  note d = tex_okD[OF ok]
  let ?R = "ring_list (m_rob c)"
  have rk: "ring_ok (m_rob c)" using d(2) by (simp add: rings_ok_def)
  have "mf \<in> re_request ` {r \<in> set ?R. \<not> re_ready r}" using d(6) mf by (auto simp: awaited_def)
  then obtain k where k: "k < f_num (m_rob c)" "re_request (?R ! k) = mf" "\<not> re_ready (?R ! k)" by (auto simp: in_set_conv_nth)
  let ?r = "(?R ! k)\<lparr>re_ready := True, re_time := t\<rparr>"
  let ?c = "c\<lparr>m_rob := ring_set (m_rob c) (slot (m_rob c) k) ?r\<rparr>"
  note rs = ring_set_ok[OF rk k(1), of ?r]
  have x: "x_extra c mf = Some \<lparr>tx_valid = True, tx_rob_index = slot (m_rob c) k\<rparr>" using d(7) k by (auto simp: slots_ok_def)
  have s: "fragments ?c = fragments c" "fragment_block ?c = fragment_block c" "x_cfg ?c = x_cfg c" "rings_ok ?c" "in_cache ?c = in_cache c"
    using d(2) rs by (simp_all add: fragments_def fun_eq_iff fragment_block_def x_cfg_def rings_ok_def in_cache_def results_def)
  have mm: "matched (fragment_block c) (fragments c) (?R[k := ?r])"
  proof -
    have "map (\<lambda>r. (re_request r, re_index r, re_block r)) (?R[k := ?r]) = map (\<lambda>r. (re_request r, re_index r, re_block r)) ?R"
      using k(1) by (intro nth_equalityI) (simp_all add: nth_list_update)
    then show ?thesis using d(5) by (simp add: matched_def)
  qed
  have dr: "distinct (map re_request ?R)" by (rule rob_distinct[OF d(5)]) (use d(8) in \<open>simp add: in_cache_def\<close>)
  have aw: "awaited (?R[k := ?r]) (ring_list (m_request_fifo c) @ remove1 mf out)"
  proof -
    have dw: "distinct (ring_list (m_request_fifo c) @ out)" using d(6) by (simp add: awaited_def)
    then have "set (ring_list (m_request_fifo c) @ remove1 mf out) = set (ring_list (m_request_fifo c) @ out) - {mf}"
      using mf by (auto simp: set_remove1_eq)
    also have "\<dots> = re_request ` {r \<in> set (?R[k := ?r]). \<not> re_ready r}"
      using ready_entry[OF dr, of k ?r] k d(6) by (simp add: awaited_def)
    finally show ?thesis using dw by (auto simp: awaited_def set_remove1_eq distinct_remove1)
  qed
  have sl: "slots_ok (x_extra c) (ring_set (m_rob c) (slot (m_rob c) k) ?r)"
    unfolding slots_ok_def
  proof (intro allI impI)
    fix i assume "i < f_num (ring_set (m_rob c) (slot (m_rob c) k) ?r)"
    then have i: "i < f_num (m_rob c)" by (simp add: ring_set_def)
    have "re_request (?R[k := ?r] ! i) = re_request (?R ! i)" using k(1) i by (simp add: nth_list_update)
    then show "x_extra c (re_request (ring_list (ring_set (m_rob c) (slot (m_rob c) k) ?r) ! i)) =
        Some \<lparr>tx_valid = True, tx_rob_index = slot (ring_set (m_rob c) (slot (m_rob c) k) ?r) i\<rparr>"
      using d(7) i rs by (simp add: slots_ok_def)
  qed
  have "tex_ok ?c (remove1 mf out)" using d mm aw sl rs by (simp add: tex_ok_def s)
  moreover have "re_block (?R ! k) = cache_block_addr (x_cfg c) (r_addr (x_heap c mf))"
  proof -
    have "?R ! k \<in> set ?R" using k(1) by simp
    then have "(re_request (?R ! k), re_index (?R ! k), re_block (?R ! k)) \<in>
        set (map (\<lambda>e. (fe_request e, fe_index e, fragment_block c e)) (filter fe_miss (fragments c)))"
      using d(5) unfolding matched_def by (metis (no_types, lifting) image_eqI set_map)
    then show ?thesis using k(2) by (auto simp: fragment_block_def)
  qed
  moreover have "\<not> ring_empty (m_rob c)" using k(1) by (simp add: ring_empty_def)
  ultimately show ?thesis using x ring_peek_at_slot[OF rk k(1)] k(3) s by (simp add: tex_fill_def)
qed

section \<open>The access\<close>

lemma home_not_empty:
  assumes "array_ok ta"
  shows "home ta addr \<noteq> {}"
proof -
  obtain si where "set_index (m_config ta) addr = Inr si" using assms by (auto simp: array_ok_def sets_inside_def)
  moreover have "0 < assoc_no ta" using assms by (simp add: array_ok_def plain_ok_def)
  ultimately show ?thesis by (simp add: home_def set_lines_def)
qed

text \<open>The tags of a cache without dirty or reserved lines hit or miss, and evict nothing that has to be written.\<close>

lemma tags_lookup:
  assumes ok: "tags_ok ta n" and t: "t \<noteq> -1"
  shows "\<exists>ta' st j. access_no_wb ta addr t i = Inr (ta', st, j) \<and> (st = HIT \<or> st = MISS) \<and> lookup_means ta addr st j \<and>
    array_ok ta' \<and> same_array ta ta' \<and> j < length (m_lines ta) \<and> j < n \<and> access_effect ta ta' addr st j"
proof -
  have a: "array_ok ta" and l: "\<forall>i < length (m_lines ta). lstat ta i = INVALID \<or> lstat ta i = VALID"
    using ok by (simp_all add: tags_ok_def)
  obtain ta' st j wb where e: "access ta addr t i = Inr (ta', st, j, wb)" "lookup_means ta addr st j" "array_ok ta'"
      "same_array ta ta'" "st \<noteq> RESERVATION_FAIL \<longrightarrow> j < length (m_lines ta)" "access_effect ta ta' addr st j"
    using access_total[OF a t, of addr i] by blast
  have nr: "k \<in> home ta addr \<Longrightarrow> lstat ta k \<noteq> RESERVED" for k using l home_bound[OF a] by fastforce
  have "st \<noteq> RESERVATION_FAIL" using e(2) home_not_empty[OF a, of addr] nr by (auto simp: lookup_means_def)
  moreover have "st \<noteq> HIT_RESERVED" using e(2) nr by (auto simp: lookup_means_def)
  ultimately have st: "st = HIT \<or> st = MISS" by (cases st) simp_all
  then have j: "j \<in> home ta addr" "j < length (m_lines ta)" using e(2,5) by (auto simp: lookup_means_def)
  have "m_status (m_lines ta ! j) \<noteq> MODIFIED" using l j(2) by (auto simp: lstat_def)
  with e(1) have "wb = None" by (cases rule: access_cases) simp_all
  then show ?thesis using e j st ok by (auto simp: access_no_wb_def tags_ok_def)
qed

lemma slots_push:
  assumes "slots_ok x r" and l: "ring_list r' = ring_list r @ [a]" and n: "f_num r' = f_num r + 1" and s: "slot r' = slot r"
    and new: "re_request a \<notin> re_request ` set (ring_list r)"
  shows "slots_ok (x(re_request a \<mapsto> \<lparr>tx_valid = True, tx_rob_index = slot r (f_num r)\<rparr>)) r'"
  unfolding slots_ok_def
proof (intro allI impI)
  fix k assume k: "k < f_num r'"
  show "(x(re_request a \<mapsto> \<lparr>tx_valid = True, tx_rob_index = slot r (f_num r)\<rparr>)) (re_request (ring_list r' ! k)) =
      Some \<lparr>tx_valid = True, tx_rob_index = slot r' k\<rparr>"
  proof (cases "k = f_num r")
    case True
    then show ?thesis by (simp add: l s nth_append)
  next
    case False
    then have k': "k < f_num r" using k n by simp
    then have "ring_list r ! k \<in> set (ring_list r)" by simp
    then have "re_request (ring_list r ! k) \<noteq> re_request a" using new by (metis image_eqI)
    then show ?thesis using assms(1) k' by (simp add: slots_ok_def l s nth_append)
  qed
qed

lemma coherent_miss:
  assumes "coherent b F m ta" and "fe_miss e" "fe_index e = j" "b e = g"
    and "\<forall>i < length (m_lines ta). (lstat ta' i, ltag ta' i) = (if i = j then (VALID, g) else (lstat ta i, ltag ta i))"
    and "length (m_lines ta') = length (m_lines ta)"
  shows "coherent b (F @ [e]) m ta'"
  using assms by (auto simp: coherent_def served_snoc replay_snoc advance_def split: if_split_asm)

lemma coherent_hit:
  assumes "coherent b F m ta" and "\<not> fe_miss e" "fe_index e = j" "b e = ltag ta j" "j < length (m_lines ta)" "lstat ta j \<noteq> INVALID"
    and "\<forall>i < length (m_lines ta). (lstat ta' i, ltag ta' i) = (lstat ta i, ltag ta i)"
    and "length (m_lines ta') = length (m_lines ta)"
  shows "coherent b (F @ [e]) m ta'"
  using assms by (auto simp: coherent_def served_snoc replay_snoc advance_def)

lemma not_full_push:
  assumes "ring_ok r" and "\<not> ring_full r"
  shows "\<exists>r'. ring_push r e = Inr (r', slot r (f_num r)) \<and> ring_ok r' \<and> ring_list r' = ring_list r @ [e] \<and>
    slot r' = slot r \<and> f_num r' = f_num r + 1"
proof -
  have "f_num r < f_size r" using assms by (simp add: ring_full_def ring_ok_def)
  from ring_push_ok[OF assms(1) this, of e] show ?thesis by (force simp: slot_def fun_eq_iff)
qed

lemma tags_ok_change:
  assumes ok: "tags_ok ta n" and "array_ok ta'" and s: "same_array ta ta'"
    and "\<forall>i < length (m_lines ta). lstat ta' i = INVALID \<or> lstat ta' i = VALID"
  shows "tags_ok ta' n"
  using assms same_arrayD[OF s] home_same[OF s] by (simp add: tags_ok_def same_array_def)

text \<open>A miss that has already entered the fragments; \<open>d\<close> is the invariant before that.\<close>

lemma tex_miss_ok:
  assumes d: "tex_ok c out" and room: "\<not> ring_full (m_request_fifo c)" "\<not> ring_full (m_rob c)" and new: "mf \<notin> set (in_cache c)"
    and a: "lookup_means (x_tags c) block MISS j" "array_ok ta" "same_array (x_tags c) ta" "j < length (m_lines (x_tags c))"
      "j < length (m_cache c)" "access_effect (x_tags c) ta block MISS j" "cache_block_addr (x_cfg c) block = block"
      "block = cache_block_addr (x_cfg c) (r_addr (x_heap c mf))"
    and f: "ring_ok ff" "ring_list ff = fragments c @ [\<lparr>fe_request = mf, fe_index = j, fe_miss = True, fe_size = z\<rparr>]"
  shows "\<exists>c'. tex_miss (c\<lparr>x_tags := ta, m_fragment_fifo := ff\<rparr>) mf j block t = Inr c' \<and> tex_ok c' out \<and>
    in_cache c' = in_cache c @ [mf] \<and> x_cfg c' = x_cfg c \<and> x_stats c' = x_stats c \<and> r_type (x_heap c' mf) = r_type (x_heap c mf)"
proof -
  note o = tex_okD[OF d]
  let ?e = "\<lparr>fe_request = mf, fe_index = j, fe_miss = True, fe_size = z\<rparr>"
  let ?r = "new_rob_entry j mf block"
  have on: "m_alloc_policy (m_config (x_tags c)) = ON_MISS" and v: "m_valid_config (m_config (x_tags c))" using o(1) by (simp_all add: tags_ok_def)
  have cf: "m_config ta = m_config (x_tags c)" "length (m_lines ta) = length (m_lines (x_tags c))" using same_arrayD[OF a(3)] by auto
  have "(lstat ta j, ltag ta j) = (RESERVED, cache_tag (m_config (x_tags c)) block)"
    using a(6)[unfolded access_effect_def, rule_format, OF a(4)] on by simp
  then have lj: "lstat ta j = RESERVED" "ltag ta j = block" using a(7) by (simp_all add: tag_is_block x_cfg_def)
  obtain ta2 where ta2: "fill_index ta j t = Inr ta2" "array_ok ta2" "same_array ta ta2" "line_becomes ta ta2 j VALID (ltag ta j)"
    using fill_index_total[OF a(2), of j t] lj cf a(4) on by auto
  have eff: "\<forall>i < length (m_lines (x_tags c)). (lstat ta2 i, ltag ta2 i) =
      (if i = j then (VALID, block) else (lstat (x_tags c) i, ltag (x_tags c) i))"
    using a(6) ta2(4) cf(2) lj(2) unfolding access_effect_def line_becomes_def by (auto split: if_split_asm)
  have same: "same_array (x_tags c) ta2" by (rule same_array_trans[OF a(3) ta2(3)])
  have rr: "ring_ok (m_rob c)" "ring_ok (m_request_fifo c)" using o(2) by (simp_all add: rings_ok_def)
  obtain rob where rob: "ring_push (m_rob c) ?r = Inr (rob, slot (m_rob c) (f_num (m_rob c)))" "ring_ok rob"
      "ring_list rob = ring_list (m_rob c) @ [?r]" "slot rob = slot (m_rob c)" "f_num rob = f_num (m_rob c) + 1"
    using not_full_push[OF rr(1) room(2), of ?r] by blast
  obtain q k where q: "ring_push (m_request_fifo c) mf = Inr (q, k)" "ring_ok q" "ring_list q = ring_list (m_request_fifo c) @ [mf]"
    using not_full_push[OF rr(2) room(1), of mf] by blast
  define c' where "c' = c\<lparr>m_fragment_fifo := ff, m_rob := rob,
      x_extra := (x_extra c)(mf \<mapsto> \<lparr>tx_valid = True, tx_rob_index = slot (m_rob c) (f_num (m_rob c))\<rparr>),
      x_heap := (x_heap c)(mf := (x_heap c mf)\<lparr>r_data_size := m_line_sz (m_config (x_tags c))\<rparr>), x_tags := ta2, m_request_fifo := q\<rparr>"
  have run: "tex_miss (c\<lparr>x_tags := ta, m_fragment_fifo := ff\<rparr>) mf j block t = Inr c'"
    using rob(1) q(1) ta2(1) v cf(1) by (simp add: tex_miss_def get_line_sz_def x_cfg_def c'_def)
  have cf2: "m_config ta2 = m_config (x_tags c)" "length (m_lines ta2) = length (m_lines (x_tags c))" using same_arrayD[OF same] by auto
  have s: "fragments c' = fragments c @ [?e]" "results c' = results c" "x_tags c' = ta2" "m_rob c' = rob" "m_request_fifo c' = q"
    "x_stats c' = x_stats c" "m_cache c' = m_cache c" "x_cfg c' = x_cfg c" "fragment_block c' = fragment_block c" "rings_ok c'"
    "r_type (x_heap c' mf) = r_type (x_heap c mf)"
    using f rob q o(2) cf2 by (simp_all add: c'_def fragments_def results_def x_cfg_def fun_eq_iff fragment_block_def rings_ok_def)
  have x: "x_extra c' = (x_extra c)(re_request ?r \<mapsto> \<lparr>tx_valid = True, tx_rob_index = slot (m_rob c) (f_num (m_rob c))\<rparr>)"
    by (simp add: c'_def new_rob_entry_def)
  have ic: "in_cache c' = in_cache c @ [mf]" by (simp add: in_cache_def s)
  have bl: "fragment_block c ?e = block" using a(8) by (simp add: fragment_block_def)
  have rq: "re_request ` set (ring_list (m_rob c)) \<subseteq> set (in_cache c)"
    using arg_cong[OF matched_requests[OF o(5)], of set] by (auto simp: in_cache_def)
  have nr: "re_request ?r \<notin> re_request ` set (ring_list (m_rob c))" using rq new by (auto simp: new_rob_entry_def)
  have "tags_ok ta2 (length (m_cache c))"
  proof (rule tags_ok_change[OF o(1) ta2(2) same], intro allI impI)
    fix i assume i: "i < length (m_lines (x_tags c))"
    show "lstat ta2 i = INVALID \<or> lstat ta2 i = VALID"
      using eff[rule_format, OF i] o(1) i by (cases "i = j") (simp_all add: tags_ok_def)
  qed
  moreover have "coherent (fragment_block c) (fragments c @ [?e]) (contents (m_cache c)) ta2"
    by (rule coherent_miss[OF o(4) _ _ bl eff cf2(2)]) simp_all
  moreover have "matched (fragment_block c) (fragments c @ [?e]) (ring_list (m_rob c) @ [?r])"
    using o(5) bl by (simp add: matched_def new_rob_entry_def)
  moreover have "awaited (ring_list (m_rob c) @ [?r]) ((ring_list (m_request_fifo c) @ [mf]) @ out)"
  proof -
    have "mf \<notin> set (ring_list (m_request_fifo c) @ out)" using o(6) rq new by (auto simp: awaited_def)
    moreover have "{r \<in> set (ring_list (m_rob c) @ [?r]). \<not> re_ready r} = insert ?r {r \<in> set (ring_list (m_rob c)). \<not> re_ready r}"
      by (auto simp: new_rob_entry_def)
    moreover have "re_request ?r = mf" by (simp add: new_rob_entry_def)
    ultimately show ?thesis using o(6) by (auto simp: awaited_def)
  qed
  moreover have "slots_ok (x_extra c') rob" unfolding x by (rule slots_push[OF o(7) rob(3,5,4) nr])
  ultimately have "tex_ok c' out" using o(3,8,9) a(5) new by (simp add: tex_ok_def s ic rob(3) q(3))
  then show ?thesis using run s ic by blast
qed

lemma tex_hit_ok:
  assumes d: "tex_ok c out" and new: "mf \<notin> set (in_cache c)"
    and a: "lookup_means (x_tags c) block HIT j" "array_ok ta" "same_array (x_tags c) ta" "j < length (m_lines (x_tags c))"
      "j < length (m_cache c)" "access_effect (x_tags c) ta block HIT j" "cache_block_addr (x_cfg c) block = block"
      "block = cache_block_addr (x_cfg c) (r_addr (x_heap c mf))"
    and f: "ring_ok ff" "ring_list ff = fragments c @ [\<lparr>fe_request = mf, fe_index = j, fe_miss = False, fe_size = z\<rparr>]"
  shows "tex_ok (c\<lparr>x_tags := ta, m_fragment_fifo := ff\<rparr>) out \<and>
    in_cache (c\<lparr>x_tags := ta, m_fragment_fifo := ff\<rparr>) = in_cache c @ [mf] \<and> x_cfg (c\<lparr>x_tags := ta, m_fragment_fifo := ff\<rparr>) = x_cfg c"
proof -
  note o = tex_okD[OF d]
  let ?e = "\<lparr>fe_request = mf, fe_index = j, fe_miss = False, fe_size = z\<rparr>"
  let ?c = "c\<lparr>x_tags := ta, m_fragment_fifo := ff\<rparr>"
  have cf: "m_config ta = m_config (x_tags c)" "length (m_lines ta) = length (m_lines (x_tags c))" using same_arrayD[OF a(3)] by auto
  have eff: "\<forall>i < length (m_lines (x_tags c)). (lstat ta i, ltag ta i) = (lstat (x_tags c) i, ltag (x_tags c) i)"
    using a(6) by (simp add: access_effect_def)
  have lj: "ltag (x_tags c) j = block" "lstat (x_tags c) j \<noteq> INVALID"
    using a(1,7) by (auto simp: lookup_means_def tag_is_block x_cfg_def)
  have s: "fragments ?c = fragments c @ [?e]" "results ?c = results c" "x_cfg ?c = x_cfg c" "fragment_block ?c = fragment_block c" "rings_ok ?c"
    using f o(2) cf by (simp_all add: fragments_def results_def x_cfg_def fun_eq_iff fragment_block_def rings_ok_def)
  have ic: "in_cache ?c = in_cache c @ [mf]" by (simp add: in_cache_def s)
  have bl: "fragment_block c ?e = ltag (x_tags c) j" using a(8) lj by (simp add: fragment_block_def)
  have "tags_ok ta (length (m_cache c))"
    by (rule tags_ok_change[OF o(1) a(2,3)]) (use eff o(1) in \<open>auto simp: tags_ok_def\<close>)
  moreover have "coherent (fragment_block c) (fragments c @ [?e]) (contents (m_cache c)) ta"
    by (rule coherent_hit[OF o(4) _ _ bl a(4) lj(2) eff cf(2)]) simp_all
  moreover have "matched (fragment_block c) (fragments c @ [?e]) (ring_list (m_rob c))" using o(5) by (simp add: matched_def)
  ultimately have "tex_ok ?c out" using o(3,6,7,8,9) a(5) new by (simp add: tex_ok_def s ic)
  then show ?thesis using s ic by blast
qed

lemma tex_ok_stats: "tex_ok c out \<Longrightarrow> stats_ok cs \<Longrightarrow> tex_ok (c\<lparr>x_stats := cs\<rparr>) out \<and> in_cache (c\<lparr>x_stats := cs\<rparr>) = in_cache c"
proof -
  assume a: "tex_ok c out" "stats_ok cs"
  have "fragment_block (c\<lparr>x_stats := cs\<rparr>) = fragment_block c" "fragments (c\<lparr>x_stats := cs\<rparr>) = fragments c"
    "in_cache (c\<lparr>x_stats := cs\<rparr>) = in_cache c" "rings_ok (c\<lparr>x_stats := cs\<rparr>) = rings_ok c"
    by (simp_all add: fun_eq_iff fragment_block_def x_cfg_def fragments_def in_cache_def results_def rings_ok_def)
  then show ?thesis using a by (simp add: tex_ok_def)
qed

text \<open>What the caller promises of an access: the request is not in the cache already, its size fits in a line.\<close>

definition tex_admissible :: "tex_cache \<Rightarrow> nat \<Rightarrow> u32 \<Rightarrow> bool" where
  "tex_admissible c mf t \<longleftrightarrow> mf \<notin> set (in_cache c) \<and> r_data_size (x_heap c mf) \<le> m_line_sz (x_cfg c) \<and> t \<noteq> -1 \<and>
     r_type (x_heap c mf) \<noteq> NUM_MEM_ACCESS_TYPE"

lemma tex_access_ok:
  assumes ok: "tex_ok c out" and adm: "tex_admissible c mf t"
  shows "\<exists>c' st ev. tex_access c (r_addr (x_heap c mf)) mf t = Inr (c', st, ev) \<and> tex_ok c' out \<and> x_cfg c' = x_cfg c \<and>
    in_cache c' = in_cache c @ (if st = RESERVATION_FAIL then [] else [mf])"
proof (cases "ring_full (m_fragment_fifo c) \<or> ring_full (m_request_fifo c) \<or> ring_full (m_rob c)")
  case True
  then show ?thesis using ok by (simp add: tex_access_def)
next
  case False
  note d = tex_okD[OF ok]
  let ?b = "cache_block_addr (x_cfg c) (r_addr (x_heap c mf))"
  have new: "mf \<notin> set (in_cache c)" and ty: "r_type (x_heap c mf) \<noteq> NUM_MEM_ACCESS_TYPE" and t: "t \<noteq> -1"
    using adm by (simp_all add: tex_admissible_def)
  have ls: "get_line_sz (x_cfg c) = Inr (m_line_sz (x_cfg c))" using d(1) by (simp add: get_line_sz_def tags_ok_def x_cfg_def)
  obtain ta st j where a: "access_no_wb (x_tags c) ?b t no_index = Inr (ta, st, j)" "st = HIT \<or> st = MISS"
      "lookup_means (x_tags c) ?b st j" "array_ok ta" "same_array (x_tags c) ta" "j < length (m_lines (x_tags c))"
      "j < length (m_cache c)" "access_effect (x_tags c) ta ?b st j"
    using tags_lookup[OF d(1) t] by blast
  have fo: "ring_ok (m_fragment_fifo c)" using d(2) by (simp add: rings_ok_def)
  let ?e = "\<lparr>fe_request = mf, fe_index = j, fe_miss = (st = MISS), fe_size = r_data_size (x_heap c mf)\<rparr>"
  obtain ff k where ff: "ring_push (m_fragment_fifo c) ?e = Inr (ff, k)" "ring_ok ff" "ring_list ff = fragments c @ [?e]"
    using not_full_push[OF fo, of ?e] False by (auto simp: fragments_def)
  let ?c1 = "c\<lparr>x_tags := ta, m_fragment_fifo := ff\<rparr>"
  obtain c2 cs2 ev where c2: "(if st = MISS then bindE (tex_miss ?c1 mf j ?b t) (\<lambda>c2. Inr (c2, MISS, [READ_REQUEST_SENT]))
        else Inr (?c1, HIT_RESERVED, [])) = Inr (c2, cs2, ev)" "cs2 \<noteq> RESERVATION_FAIL" "tex_ok c2 out" "in_cache c2 = in_cache c @ [mf]"
      "x_cfg c2 = x_cfg c" "r_type (x_heap c2 mf) = r_type (x_heap c mf)"
  proof (cases "st = MISS")
    case True
    have "ring_list ff = fragments c @ [\<lparr>fe_request = mf, fe_index = j, fe_miss = True, fe_size = r_data_size (x_heap c mf)\<rparr>]"
      using ff(3) True by simp
    then show ?thesis
      using tex_miss_ok[OF ok _ _ new a(3)[unfolded True] a(4,5,6,7) a(8)[unfolded True] block_addr_idem refl ff(2), of "r_data_size (x_heap c mf)" t]
        False True that by fastforce
  next
    case hit: False
    then have "st = HIT" using a(2) by simp
    moreover from this have "ring_list ff = fragments c @ [\<lparr>fe_request = mf, fe_index = j, fe_miss = False, fe_size = r_data_size (x_heap c mf)\<rparr>]"
      using ff(3) by simp
    ultimately show ?thesis
      using tex_hit_ok[OF ok new, of ?b j ta ff "r_data_size (x_heap c mf)"] a ff(2) that hit by simp
  qed
  obtain cs where cs: "inc_stats (x_stats c2) (int (access_type_no (r_type (x_heap c2 mf))))
      (int (status_no (select_stats_status st cs2))) = Inr cs" "stats_ok cs"
    using inc_stats_ok[OF tex_okD(3)[OF c2(3)], of "r_type (x_heap c2 mf)"] ty c2(6) by metis
  have "tex_access c (r_addr (x_heap c mf)) mf t = Inr (c2\<lparr>x_stats := cs\<rparr>, cs2, ev)"
    using False adm a(1,2) ff(1) c2(1) cs(1) ls by (auto simp: tex_access_def tex_admissible_def Let_def)
  then show ?thesis using tex_ok_stats[OF c2(3) cs(2)] c2(2,4,5) by (auto simp: x_cfg_def)
qed

end
