(* ===== verification/Cache_Correct.thy ===== *)
theory Cache_Correct
  imports Cache_Control Tag_Total
begin

text \<open>
  Correctness of the cache controllers: a rejected access leaves the cache as it was, the miss queue keeps to its
  size, and no assertion of the controller, the tag array or the miss status holding registers can fail under the
  protocol of the callers.
\<close>

section \<open>A rejected access changes nothing\<close>

lemma send_read_request_cases:
  assumes "send_read_request c block idx mf t ro wa = Inr (c', done', wb, ev)"
  shows "(\<not> done' \<and> c' = c \<and> wb = None \<and> ev = [] \<and>
      (mshr_full (c_mshrs c) block \<or> \<not> mshr_probe (c_mshrs c) block \<and> unat (m_miss_queue_size (cfg c)) \<le> length (m_miss_queue c))) \<or>
    (done' \<and> (\<exists>q. m_miss_queue c' = m_miss_queue c @ q \<and> (q = [] \<or> q = [mf] \<and> length (m_miss_queue c) < unat (m_miss_queue_size (cfg c)))))"
  using assms
  by (auto simp: send_read_request_def Let_def cxx_simps push_miss_def not_less split: if_split_asm)

lemma set_block_status_frame:
  "set_block_status c i s = Inr c' \<Longrightarrow> m_miss_queue c' = m_miss_queue c \<and> c_stats c' = c_stats c"
  by (auto simp: set_block_status_def cxx_simps)

lemma wr_hit_reject:
  "call_wr_hit c addr idx mf t = Inr (c', RESERVATION_FAIL, ev) \<Longrightarrow> c' = c \<and> ev = []"
  by (cases "m_wr_hit c")
    (auto simp: call_wr_hit_def wr_hit_wb_def wr_hit_wt_def wr_hit_we_def wr_hit_global_we_local_wb_def cxx_simps
      split: if_split_asm)

lemma wr_miss_reject:
  assumes "call_wr_miss c addr idx mf t = Inr (c', RESERVATION_FAIL, ev)"
  shows "c' = c \<and> ev = []"
proof (cases "m_wr_miss c")
  case Wr_Miss_No_Wa
  then show ?thesis using assms by (auto simp: call_wr_miss_def wr_miss_no_wa_def split: if_split_asm)
next
  case Wr_Miss_Wa
  define block where "block = cache_block_addr (cfg c) addr"
  define c2 where "c2 = new_mf (push_miss c mf) (wr_alloc_request (push_miss c mf) mf)"
  have f: "c_mshrs c2 = c_mshrs c" "cfg c2 = cfg c" "length (m_miss_queue c2) = length (m_miss_queue c) + 1"
    by (simp_all add: c2_def new_mf_def push_miss_def cfg_def)
  have e: "wr_miss_wa c addr idx mf t = Inr (c', RESERVATION_FAIL, ev)"
    using assms Wr_Miss_Wa by (simp add: call_wr_miss_def)
  show ?thesis
  proof (rule ccontr)
    assume "\<not> ?thesis"
    then have room: "\<not> miss_queue_full c 2" "\<not> mshr_full (c_mshrs c) block"
      and "bindE (send_read_request c2 block idx (next_mf (push_miss c mf)) t False True) (\<lambda>(c3, do_miss, wb, events).
             if do_miss then bindE (write_back c3 wb) (\<lambda>(c4, _). Inr (c4, MISS, WRITE_REQUEST_SENT # events))
             else Inr (c3, RESERVATION_FAIL, WRITE_REQUEST_SENT # events)) = Inr (c', RESERVATION_FAIL, ev)"
      using e by (auto simp: wr_miss_wa_def Let_def block_def c2_def split: if_split_asm)
    then obtain wb events where "send_read_request c2 block idx (next_mf (push_miss c mf)) t False True = Inr (c', False, wb, events)"
      by (auto simp: cxx_simps split: if_split_asm)
    from send_read_request_cases[OF this] room f show False by (auto simp: miss_queue_full_def)
  qed
qed

lemma rd_miss_reject:
  "rd_miss_base c addr idx mf t = Inr (c', RESERVATION_FAIL, ev) \<Longrightarrow> c' = c \<and> ev = []"
  by (auto simp: rd_miss_base_def cxx_simps split: if_split_asm dest: send_read_request_cases)

lemma rd_hit_status: "rd_hit_base c addr idx mf t = Inr (c', s, ev) \<Longrightarrow> s = HIT"
  by (auto simp: rd_hit_base_def cxx_simps split: if_split_asm)

lemma process_reject:
  assumes "process_tag_probe c wr st addr idx mf t = Inr (c', RESERVATION_FAIL, ev)"
  shows "c' = c \<and> ev = []"
  using assms
  by (auto simp: process_tag_probe_def use_data_port_def cxx_simps split: if_split_asm
      dest: wr_hit_reject wr_miss_reject rd_miss_reject rd_hit_status)

lemma note_access_frame: "note_access c mf p a = Inr c' \<Longrightarrow> c' = c\<lparr>c_stats := c_stats c'\<rparr>"
  by (auto simp: note_access_def cxx_simps)

text \<open>A request the data cache turns away leaves no trace: when the access returns a reservation failure, the
  tags, the miss status holding registers, the miss queue, the requests in flight and the ports are as before and no
  event is reported; only the statistics have counted it.  So the caller can simply try again, also where the code
  has already begun to queue the write of a write-allocate miss.\<close>
theorem rejected_access_unchanged:
  assumes "data_cache_access c addr mf t = Inr (c', RESERVATION_FAIL, ev)"
  shows "c' = c\<lparr>c_stats := c_stats c'\<rparr> \<and> ev = []"
proof -
  obtain st idx c1 where "process_tag_probe c (r_write (heap c mf)) st addr idx mf t = Inr (c1, RESERVATION_FAIL, ev)"
    and n: "note_access c1 mf st RESERVATION_FAIL = Inr c'"
    using assms by (auto simp: data_cache_access_def cxx_simps)
  with process_reject show ?thesis using note_access_frame[OF n] by blast
qed

section \<open>The requests in flight\<close>

text \<open>Atomic operations do not wait in a cache that allocates on fill.\<close>

definition no_atomic :: "'mf mshr_table \<Rightarrow> bool" where
  "no_atomic t \<longleftrightarrow> (\<forall>e \<in> ran (map_of (m_data t)). \<not> e_has_atomic e)"

lemma mshr_add_facts:
  assumes ok: "mshr_ok t" and room: "\<not> mshr_full t a"
  shows "\<exists>t'. mshr_add t a mf at = Inr t' \<and> mshr_ok t' \<and> pending_blocks t' = insert a (pending_blocks t) \<and>
    m_current_response t' = m_current_response t \<and> (no_atomic t \<and> \<not> at \<longrightarrow> no_atomic t')"
proof -
  obtain t' where t': "mshr_add t a mf at = Inr t'" "mshr_ok t'"
      "\<forall>b. waiting t' b = (if b = a then waiting t b @ [mf] else waiting t b)"
      "m_current_response t' = m_current_response t"
    using mshr_add_ok[OF ok room] by blast
  have p: "pending_blocks t' = insert a (pending_blocks t)"
    unfolding pending_by_waiting[OF t'(2)] pending_by_waiting[OF ok] using t'(3) by auto
  have "no_atomic t'" if n: "no_atomic t" "\<not> at"
  proof -
    have e: "\<not> e_has_atomic (entry_at t a)"
      using n(1) by (cases "map_of (m_data t) a") (auto simp: entry_at_def new_entry_def no_atomic_def intro: ranI)
    have "t' = put_entry t a ((entry_at t a)\<lparr>e_list := e_list (entry_at t a) @ [mf]\<rparr>)"
      using t'(1) n(2) by (auto simp: mshr_add_def Let_def cxx_simps)
    then show ?thesis using n(1) e unfolding no_atomic_def by (auto dest!: ran_update_subset)
  qed
  then show ?thesis using t' p by blast
qed

lemma mark_ready_facts:
  assumes ok: "mshr_ok t" and a: "a \<in> pending_blocks t" "a \<notin> set (m_current_response t)"
  shows "\<exists>t' b. mark_ready t a = Inr (t', b) \<and> mshr_ok t' \<and> pending_blocks t' = pending_blocks t \<and>
    m_current_response t' = m_current_response t @ [a] \<and> (no_atomic t \<longrightarrow> \<not> b \<and> no_atomic t')"
proof -
  have pr: "mshr_probe t a" using a(1) by (simp add: probe_pending)
  obtain t' b where t': "mark_ready t a = Inr (t', b)" "mshr_ok t'" "m_data t' = m_data t"
      "m_current_response t' = m_current_response t @ [a]" using mark_ready_ok[OF ok pr a(2)] by blast
  have "\<not> b \<and> no_atomic t'" if "no_atomic t"
  proof -
    obtain e where e: "map_of (m_data t) a = Some e" using pr by (auto simp: mshr_probe_def)
    then have "b = e_has_atomic e" using t'(1) by (auto simp: mark_ready_def Let_def cxx_simps)
    then show ?thesis using that e t'(3) by (simp add: no_atomic_def ranI)
  qed
  then show ?thesis using t' by (simp add: pending_blocks_def)
qed

lemma next_access_facts:
  assumes ok: "mshr_ok t" and r: "access_ready t"
  shows "\<exists>t' mf. next_access t = Inr (t', mf) \<and> mshr_ok t' \<and> set (m_current_response t') \<subseteq> set (m_current_response t) \<and>
    pending_blocks t' \<subseteq> pending_blocks t \<and>
    pending_blocks t - pending_blocks t' = set (m_current_response t) - set (m_current_response t') \<and>
    (no_atomic t \<longrightarrow> no_atomic t')"
proof -
  obtain t' mf where t': "next_access t = Inr (t', mf)" "mshr_ok t'"
    "m_current_response t' = m_current_response t \<and> pending_blocks t' = pending_blocks t \<or>
     m_current_response t' = tl (m_current_response t) \<and> pending_blocks t' = pending_blocks t - {hd (m_current_response t)}"
    using next_access_ok[OF ok r] unfolding pending_blocks_def by blast
  obtain a resp where c: "m_current_response t = a # resp" using r by (auto simp: access_ready_def neq_Nil_conv)
  have a: "a \<notin> set resp" "a \<in> pending_blocks t" using ok c by (auto simp: mshr_ok_def pending_blocks_def)
  have "no_atomic t'" if n: "no_atomic t"
  proof -
    have e: "\<not> e_has_atomic (entry_at t a)"
      using n by (cases "map_of (m_data t) a") (auto simp: entry_at_def new_entry_def no_atomic_def intro: ranI)
    have "(m_data t' = AList.delete a (m_data t)) \<or>
        t' = put_entry t a ((entry_at t a)\<lparr>e_list := tl (e_list (entry_at t a))\<rparr>)"
      using t'(1) c by (auto simp: next_access_def Let_def cxx_simps split: if_split_asm)
    then show ?thesis
    proof
      assume "m_data t' = AList.delete a (m_data t)"
      then show ?thesis using n ran_clear_subset[of _ "map_of (m_data t)" a] unfolding no_atomic_def by (simp add: delete_conv')
    next
      assume "t' = put_entry t a ((entry_at t a)\<lparr>e_list := tl (e_list (entry_at t a))\<rparr>)"
      then show ?thesis using n e unfolding no_atomic_def by (auto dest!: ran_update_subset)
    qed
  qed
  moreover have "set (m_current_response t') \<subseteq> set (m_current_response t) \<and> pending_blocks t' \<subseteq> pending_blocks t \<and>
      pending_blocks t - pending_blocks t' = set (m_current_response t) - set (m_current_response t')"
    using t'(3)
  proof
    assume "m_current_response t' = m_current_response t \<and> pending_blocks t' = pending_blocks t"
    then show ?thesis by simp
  next
    assume "m_current_response t' = tl (m_current_response t) \<and> pending_blocks t' = pending_blocks t - {hd (m_current_response t)}"
    then have "m_current_response t' = resp" "pending_blocks t' = pending_blocks t - {a}" by (simp_all add: c)
    then show ?thesis using a unfolding c by auto
  qed
  ultimately show ?thesis using t'(1,2) by blast
qed

text \<open>
  Every request in flight has a line reserved for it (allocation on a miss) or no line holds its block (allocation on
  a fill), its block waits in the table, and no two requests in flight are for the same block; a block that waits
  has a request in flight or is being handed out.
\<close>

definition flight_ok :: "tag_array \<Rightarrow> extra_mf_fields \<Rightarrow> bool" where
  "flight_ok ta e \<longleftrightarrow> xf_valid e \<and> cache_block_addr (m_config ta) (xf_block_addr e) = xf_block_addr e \<and>
     (m_alloc_policy (m_config ta) = ON_MISS \<longrightarrow> xf_cache_index e < length (m_lines ta) \<and>
        lstat ta (xf_cache_index e) = RESERVED \<and> ltag ta (xf_cache_index e) = xf_block_addr e) \<and>
     (m_alloc_policy (m_config ta) = ON_FILL \<longrightarrow> (\<forall>i. \<not> holder ta (xf_block_addr e) i))"

definition flights_ok :: "tag_array \<Rightarrow> nat mshr_table \<Rightarrow> (nat \<Rightarrow> extra_mf_fields option) \<Rightarrow> nat \<Rightarrow> bool" where
  "flights_ok ta t X n \<longleftrightarrow> (\<forall>mf e. X mf = Some e \<longrightarrow> flight_ok ta e \<and> mf < n) \<and>
     (\<forall>mf mf' e e'. X mf = Some e \<longrightarrow> X mf' = Some e' \<longrightarrow> xf_block_addr e = xf_block_addr e' \<longrightarrow> mf = mf') \<and>
     xf_block_addr ` ran X \<inter> set (m_current_response t) = {} \<and>
     pending_blocks t = xf_block_addr ` ran X \<union> set (m_current_response t)"

text \<open>A change of the tags that takes no reserved line and, where lines are allocated on a fill, brings no block in.\<close>

definition tags_keep :: "tag_array \<Rightarrow> tag_array \<Rightarrow> bool" where
  "tags_keep ta ta' \<longleftrightarrow> same_array ta ta' \<and> array_ok ta' \<and>
     (\<forall>i < length (m_lines ta). (lstat ta i = RESERVED \<longrightarrow> lstat ta' i = RESERVED \<and> ltag ta' i = ltag ta i) \<and>
        (m_alloc_policy (m_config ta) = ON_FILL \<and> lstat ta' i \<noteq> INVALID \<longrightarrow> lstat ta i \<noteq> INVALID \<and> ltag ta' i = ltag ta i))"

lemma tags_keep_trans: "tags_keep a b \<Longrightarrow> tags_keep b c \<Longrightarrow> tags_keep a c"
  using same_array_trans[of a b c] same_arrayD[of a b] by (auto simp: tags_keep_def)

lemma flight_keep:
  assumes k: "tags_keep ta ta'" and ok: "array_ok ta" and f: "flight_ok ta e"
  shows "flight_ok ta' e"
proof -
  have same: "same_array ta ta'" "array_ok ta'" using k by (simp_all add: tags_keep_def)
  note s = same_arrayD[OF same(1)]
  have "\<not> holder ta' b i" if "m_alloc_policy (m_config ta) = ON_FILL" "\<not> holder ta b i" for b i
  proof
    assume h: "holder ta' b i"
    then have "i \<in> home ta b" using home_same[OF same(1)] by (simp add: holder_def)
    moreover from this have "i < length (m_lines ta)" by (rule home_bound[OF ok])
    ultimately show False using k that h s by (auto simp: tags_keep_def holder_def)
  qed
  then show ?thesis using f k s by (auto simp: flight_ok_def tags_keep_def)
qed

lemma flights_keep:
  assumes "tags_keep ta ta'" and "array_ok ta" and "flights_ok ta t X n" and "n \<le> n'"
  shows "flights_ok ta' t X n'"
  using assms(3,4) flight_keep[OF assms(1,2)] unfolding flights_ok_def by (meson less_le_trans)

section \<open>Accesses\<close>

definition core_ok :: "base_cache \<Rightarrow> bool" where
  "core_ok c \<longleftrightarrow> array_ok (c_tags c) \<and> mshr_ok (c_mshrs c) \<and>
     flights_ok (c_tags c) (c_mshrs c) (m_extra_mf_fields c) (next_mf c) \<and>
     length (m_miss_queue c) \<le> unat (m_miss_queue_size (cfg c)) \<and> m_valid_config (cfg c) \<and>
     (m_alloc_policy (cfg c) = ON_FILL \<longrightarrow> no_atomic (c_mshrs c))"

definition quiet :: "base_cache \<Rightarrow> base_cache \<Rightarrow> bool" where
  "quiet c c' \<longleftrightarrow> cfg c' = cfg c \<and> c_stats c' = c_stats c \<and>
     m_data_port_occupied_cycles c' = m_data_port_occupied_cycles c \<and>
     m_fill_port_occupied_cycles c' = m_fill_port_occupied_cycles c \<and> next_mf c \<le> next_mf c' \<and>
     (\<forall>m < next_mf c. r_type (heap c' m) = r_type (heap c m))"

lemma quiet_refl [simp]: "quiet c c"
  by (simp add: quiet_def)

lemma quiet_trans: "quiet a b \<Longrightarrow> quiet b c \<Longrightarrow> quiet a c"
  by (simp add: quiet_def)

definition outcome_ok :: "base_cache \<Rightarrow> outcome \<Rightarrow> bool" where
  "outcome_ok c r \<longleftrightarrow> (\<exists>c' s ev. r = Inr (c', s, ev) \<and> core_ok c' \<and> quiet c c' \<and> (s = HIT \<longrightarrow> heap c' = heap c))"

lemma outcome_okI: "core_ok c' \<Longrightarrow> quiet c c' \<Longrightarrow> (s = HIT \<Longrightarrow> heap c' = heap c) \<Longrightarrow> outcome_ok c (Inr (c', s, ev))"
  unfolding outcome_ok_def by blast

lemma core_tags:
  assumes "core_ok c" and "tags_keep (c_tags c) ta"
  shows "core_ok (c\<lparr>c_tags := ta\<rparr>) \<and> quiet c (c\<lparr>c_tags := ta\<rparr>)"
proof -
  have "flights_ok ta (c_mshrs c) (m_extra_mf_fields c) (next_mf c)"
    using assms by (intro flights_keep[of "c_tags c" ta _ _ "next_mf c"]) (simp_all add: core_ok_def)
  moreover have "m_config ta = m_config (c_tags c)" using assms(2) by (simp add: tags_keep_def same_array_def)
  ultimately show ?thesis using assms by (simp add: core_ok_def quiet_def cfg_def tags_keep_def)
qed

lemma core_push:
  "core_ok c \<Longrightarrow> length (m_miss_queue c) < unat (m_miss_queue_size (cfg c)) \<Longrightarrow>
    core_ok (push_miss c mf) \<and> quiet c (push_miss c mf)"
  by (simp add: core_ok_def push_miss_def quiet_def cfg_def)

lemma core_new:
  assumes "core_ok c"
  shows "core_ok (new_mf c r) \<and> quiet c (new_mf c r)"
proof -
  have "flights_ok (c_tags c) (c_mshrs c) (m_extra_mf_fields c) (next_mf c + 1)"
    using assms flights_keep[of "c_tags c" "c_tags c" _ _ "next_mf c" "next_mf c + 1"]
    by (simp add: core_ok_def tags_keep_def)
  then show ?thesis using assms by (simp add: core_ok_def new_mf_def quiet_def cfg_def)
qed

lemma hit_access:
  assumes ok: "array_ok ta" and m: "lookup_means ta b HIT j" and t: "t \<noteq> -1"
  shows "\<exists>ta'. access_no_wb ta b t idx = Inr (ta', HIT, j) \<and> tags_keep ta ta' \<and> j < length (m_lines ta) \<and>
    lstat ta' j \<in> {VALID, MODIFIED}"
proof -
  obtain ta' st j' wb where a: "access ta b t idx = Inr (ta', st, j', wb)" "lookup_means ta b st j'" "array_ok ta'"
      "same_array ta ta'" "access_effect ta ta' b st j'"
      "wb \<noteq> None \<longrightarrow> st = MISS \<and> m_alloc_policy (m_config ta) = ON_MISS"
    using access_total[OF ok t, of b idx] by blast
  have st: "st = HIT" "j' = j" using means_unique[OF ok m a(2)] by auto
  have "j \<in> home ta b" using m by (simp add: lookup_means_def)
  then have j: "j < length (m_lines ta)" by (rule home_bound[OF ok])
  have same: "\<forall>i < length (m_lines ta). lstat ta' i = lstat ta i \<and> ltag ta' i = ltag ta i"
    using a(5) st by (simp add: access_effect_def)
  then have "tags_keep ta ta'" using a(3,4) by (simp add: tags_keep_def)
  moreover have "lstat ta' j \<in> {VALID, MODIFIED}" using same j m by (simp add: lookup_means_def)
  ultimately show ?thesis using a(1,6) st j by (auto simp: access_no_wb_def)
qed

lemma set_status_keep:
  assumes ok: "array_ok ta" and j: "j < length (m_lines ta)" "lstat ta j \<in> {VALID, MODIFIED}"
    and s: "s \<in> {MODIFIED, INVALID}"
  shows "tags_keep ta (put_block ta j ((m_lines ta ! j)\<lparr>m_status := s\<rparr>))"
proof -
  let ?u = "put_block ta j ((m_lines ta ! j)\<lparr>m_status := s\<rparr>)"
  have st: "stamped ta" using ok by (simp add: array_ok_def)
  have u: "array_ok ?u \<and> same_array ta ?u \<and> line_becomes ta ?u j s (ltag ta j)"
    using j s stamped_nth[OF st j(1)] by (intro put_status_total[OF ok j(1)]) (auto simp: ltag_def)
  note l = line_becomesD[OF conjunct2[OF conjunct2[OF u]]]
  show ?thesis using u j(2) l s unfolding tags_keep_def by auto
qed

lemma set_block_status_total:
  assumes ok: "core_ok c" and j: "j < length (m_lines (c_tags c))" "lstat (c_tags c) j \<in> {VALID, MODIFIED}"
    and s: "s \<in> {MODIFIED, INVALID}"
  shows "\<exists>c'. set_block_status c j s = Inr c' \<and> core_ok c' \<and> quiet c c' \<and> heap c' = heap c \<and> m_miss_queue c' = m_miss_queue c"
proof -
  let ?ta = "put_block (c_tags c) j ((m_lines (c_tags c) ! j)\<lparr>m_status := s\<rparr>)"
  have "array_ok (c_tags c)" using ok by (simp add: core_ok_def)
  from core_tags[OF ok set_status_keep[OF this j s]] have "core_ok (c\<lparr>c_tags := ?ta\<rparr>) \<and> quiet c (c\<lparr>c_tags := ?ta\<rparr>)" .
  moreover have "set_block_status c j s = Inr (c\<lparr>c_tags := ?ta\<rparr>)" using j(1) by (simp add: set_block_status_def get_block_def)
  ultimately show ?thesis by simp
qed

text \<open>A hit that updates the age of the line and marks it modified.\<close>

lemma hit_and_mark:
  assumes ok: "core_ok c" and m: "lookup_means (c_tags c) b HIT j" and t: "t \<noteq> -1"
  shows "\<exists>ta c'. access_no_wb (c_tags c) b t j = Inr (ta, HIT, j) \<and> core_ok (c\<lparr>c_tags := ta\<rparr>) \<and> quiet c (c\<lparr>c_tags := ta\<rparr>) \<and>
    set_block_status (c\<lparr>c_tags := ta\<rparr>) j MODIFIED = Inr c' \<and> core_ok c' \<and> quiet c c' \<and> heap c' = heap c \<and>
    m_miss_queue c' = m_miss_queue c"
proof -
  have a: "array_ok (c_tags c)" using ok by (simp add: core_ok_def)
  obtain ta where ta: "access_no_wb (c_tags c) b t j = Inr (ta, HIT, j)" "tags_keep (c_tags c) ta"
      "j < length (m_lines (c_tags c))" "lstat ta j \<in> {VALID, MODIFIED}" using hit_access[OF a m t] by blast
  note k = core_tags[OF ok ta(2)]
  have "length (m_lines ta) = length (m_lines (c_tags c))" using ta(2) by (simp add: tags_keep_def same_array_def)
  then obtain c' where "set_block_status (c\<lparr>c_tags := ta\<rparr>) j MODIFIED = Inr c'" "core_ok c'" "quiet (c\<lparr>c_tags := ta\<rparr>) c'"
      "heap c' = heap c" "m_miss_queue c' = m_miss_queue c"
    using set_block_status_total[OF conjunct1[OF k], of j MODIFIED] ta(3,4) by auto
  then show ?thesis using ta(1) k quiet_trans by blast
qed

lemma wr_hit_total:
  assumes ok: "core_ok c" and m: "lookup_means (c_tags c) (cache_block_addr (cfg c) addr) HIT j" and t: "t \<noteq> -1"
  shows "outcome_ok c (call_wr_hit c addr j mf t)"
proof -
  obtain ta c' where h: "access_no_wb (c_tags c) (cache_block_addr (cfg c) addr) t j = Inr (ta, HIT, j)"
      "set_block_status (c\<lparr>c_tags := ta\<rparr>) j MODIFIED = Inr c'" "core_ok c'" "quiet c c'" "heap c' = heap c"
      "m_miss_queue c' = m_miss_queue c"
    using hit_and_mark[OF ok m t] by blast
  have wb: "outcome_ok c (wr_hit_wb c addr j mf t)" using h by (auto simp: wr_hit_wb_def intro: outcome_okI)
  have room: "length (m_miss_queue c) < unat (m_miss_queue_size (cfg c))" if "\<not> miss_queue_full c 0"
    using that by (simp add: miss_queue_full_def)
  have rej: "outcome_ok c (Inr (c, RESERVATION_FAIL, []))" using ok by (simp add: outcome_okI)
  have wt: "outcome_ok c (wr_hit_wt c addr j mf t)"
  proof (cases "miss_queue_full c 0")
    case False
    have "cfg c' = cfg c" using h(4) by (simp add: quiet_def)
    then have "core_ok (push_miss c' mf) \<and> quiet c' (push_miss c' mf)" using core_push[OF h(3)] room[OF False] h(6) by simp
    then show ?thesis using h False quiet_trans[OF h(4)] by (auto simp: wr_hit_wt_def push_miss_def intro!: outcome_okI)
  qed (simp add: wr_hit_wt_def rej)
  have we: "outcome_ok c (wr_hit_we c addr j mf t)"
  proof (cases "miss_queue_full c 0")
    case False
    let ?p = "push_miss c mf"
    note p = core_push[OF ok room[OF False], of mf]
    have "array_ok (c_tags c)" using ok by (simp add: core_ok_def)
    then have "j < length (m_lines (c_tags c))" "lstat (c_tags c) j \<in> {VALID, MODIFIED}"
      using m home_bound[of "c_tags c" j] by (auto simp: lookup_means_def)
    then obtain d where "set_block_status ?p j INVALID = Inr d" "core_ok d" "quiet ?p d" "heap d = heap ?p"
      using set_block_status_total[OF conjunct1[OF p], of j INVALID] by (auto simp: push_miss_def)
    moreover have "heap ?p = heap c" by (simp add: push_miss_def)
    ultimately show ?thesis using False p quiet_trans by (auto simp: wr_hit_we_def intro!: outcome_okI)
  qed (simp add: wr_hit_we_def rej)
  show ?thesis using wb wt we
    by (cases "m_wr_hit c") (simp_all add: call_wr_hit_def wr_hit_global_we_local_wb_def)
qed

lemma rd_hit_total:
  assumes ok: "core_ok c" and m: "lookup_means (c_tags c) (cache_block_addr (cfg c) addr) HIT j" and t: "t \<noteq> -1"
    and at: "r_atomic (heap c mf) \<longrightarrow> r_type (heap c mf) = GLOBAL_ACC_R"
  shows "outcome_ok c (rd_hit_base c addr j mf t)"
  using hit_and_mark[OF ok m t] at by (auto simp: rd_hit_base_def intro!: outcome_okI)

lemma wr_miss_no_wa_total:
  assumes "core_ok c" shows "outcome_ok c (wr_miss_no_wa c mf)"
  using assms core_push[OF assms, of mf]
  by (auto simp: wr_miss_no_wa_def miss_queue_full_def not_le intro!: outcome_okI)

section \<open>Read misses\<close>

lemma access_keep:
  assumes ok: "array_ok ta" and t: "t \<noteq> -1" and m: "lookup_means ta b st j" and st: "st = MISS \<or> st = HIT_RESERVED"
    and b: "cache_block_addr (m_config ta) b = b"
  shows "\<exists>ta' j' wb. access ta b t idx = Inr (ta', st, j', wb) \<and> tags_keep ta ta' \<and>
    flight_ok ta' \<lparr>xf_valid = True, xf_block_addr = b, xf_cache_index = j', xf_data_size = n\<rparr>"
proof -
  obtain ta' st' j' wb where a: "access ta b t idx = Inr (ta', st', j', wb)" "lookup_means ta b st' j'" "array_ok ta'"
      "same_array ta ta'" "st' \<noteq> RESERVATION_FAIL \<longrightarrow> j' < length (m_lines ta)" "access_effect ta ta' b st' j'"
    using access_total[OF ok t, of b idx] by blast
  have st': "st' = st" using means_unique[OF ok m a(2)] by simp
  note s = same_arrayD[OF a(4)]
  have e: "lstat ta' i = (if st = MISS \<and> m_alloc_policy (m_config ta) = ON_MISS \<and> i = j' then RESERVED else lstat ta i)"
    "ltag ta' i = (if st = MISS \<and> m_alloc_policy (m_config ta) = ON_MISS \<and> i = j' then b else ltag ta i)"
    if "i < length (m_lines ta)" for i
    using a(6) that b unfolding access_effect_def st' by (auto simp: tag_is_block split: if_split_asm)
  have j': "j' < length (m_lines ta)" using a(5) st st' by auto
  have v: "st = MISS \<longrightarrow> lstat ta j' \<noteq> RESERVED" "st = HIT_RESERVED \<longrightarrow> lstat ta j' = RESERVED \<and> ltag ta j' = b"
    using a(2) b by (auto simp: lookup_means_def st' tag_is_block)
  have k: "tags_keep ta ta'" using a(3,4) e v(1) by (auto simp: tags_keep_def)
  have "\<not> holder ta' b i" if f: "m_alloc_policy (m_config ta) = ON_FILL" for i
  proof
    assume h: "holder ta' b i"
    then have i: "i \<in> home ta b" "i < length (m_lines ta)" using home_same[OF a(4)] home_bound[OF ok] by (auto simp: holder_def)
    have "st \<noteq> HIT_RESERVED" using f ok j' v(2) by (auto simp: array_ok_def)
    then have "st = MISS" using st by blast
    then show False using h i e[OF i(2)] f means_holder[OF m] s by (auto simp: holder_def)
  qed
  moreover have "lstat ta' j' = RESERVED \<and> ltag ta' j' = b" if "m_alloc_policy (m_config ta) = ON_MISS"
    using e[OF j'] v st that by auto
  ultimately have "flight_ok ta' \<lparr>xf_valid = True, xf_block_addr = b, xf_cache_index = j', xf_data_size = n\<rparr>"
    using b j' s by (simp add: flight_ok_def)
  then show ?thesis using a(1) k st' by blast
qed

lemma flights_add:
  assumes f: "flights_ok ta t X n" and e: "flight_ok ta e" and mf: "X mf = None" "mf < n"
    and new: "xf_block_addr e \<notin> pending_blocks t"
    and t': "pending_blocks t' = insert (xf_block_addr e) (pending_blocks t)" "m_current_response t' = m_current_response t"
  shows "flights_ok ta t' (X(mf \<mapsto> e)) n"
proof -
  have ran: "ran (X(mf \<mapsto> e)) = insert e (ran X)" using mf(1) by (rule ran_map_upd)
  have out: "xf_block_addr e' \<noteq> xf_block_addr e" if "X m = Some e'" for m e'
  proof -
    have "xf_block_addr e' \<in> pending_blocks t" using f ranI[of X, OF that] unfolding flights_ok_def by blast
    then show ?thesis using new by metis
  qed
  have "xf_block_addr e \<notin> set (m_current_response t)" using f new by (auto simp: flights_ok_def)
  then have "xf_block_addr ` ran (X(mf \<mapsto> e)) \<inter> set (m_current_response t') = {}"
      "pending_blocks t' = xf_block_addr ` ran (X(mf \<mapsto> e)) \<union> set (m_current_response t')"
    using f unfolding ran t' flights_ok_def by auto
  moreover have "\<forall>m m' e1 e2. (X(mf \<mapsto> e)) m = Some e1 \<longrightarrow> (X(mf \<mapsto> e)) m' = Some e2 \<longrightarrow>
      xf_block_addr e1 = xf_block_addr e2 \<longrightarrow> m = m'"
    using f out unfolding flights_ok_def fun_upd_apply by (metis option.inject)
  moreover have "\<forall>m e1. (X(mf \<mapsto> e)) m = Some e1 \<longrightarrow> flight_ok ta e1 \<and> m < n"
    using f e mf(2) unfolding flights_ok_def by auto
  ultimately show ?thesis unfolding flights_ok_def by blast
qed

lemma send_read_total:
  assumes ok: "core_ok c" and m: "lookup_means (c_tags c) b st j" and st: "st = MISS \<or> st = HIT_RESERVED" and t: "t \<noteq> -1"
    and b: "cache_block_addr (cfg c) b = b" and mf: "mf < next_mf c" "m_extra_mf_fields c mf = None"
    and at: "m_alloc_policy (cfg c) = ON_FILL \<longrightarrow> \<not> r_atomic (heap c mf)"
  shows "\<exists>c' dm wb ev. send_read_request c b idx mf t False wa = Inr (c', dm, wb, ev) \<and> core_ok c' \<and> quiet c c' \<and>
    length (m_miss_queue c') \<le> length (m_miss_queue c) + 1"
proof -
  let ?X = "m_extra_mf_fields c"
  have a: "array_ok (c_tags c)" "mshr_ok (c_mshrs c)" "flights_ok (c_tags c) (c_mshrs c) ?X (next_mf c)"
    using ok by (simp_all add: core_ok_def)
  obtain ta j' wb where ta: "access (c_tags c) b t idx = Inr (ta, st, j', wb)" "tags_keep (c_tags c) ta"
      and fl: "flight_ok ta \<lparr>xf_valid = True, xf_block_addr = b, xf_cache_index = j', xf_data_size = r_data_size (heap c mf)\<rparr>"
    using access_keep[OF a(1) t m st b[unfolded cfg_def], of idx "r_data_size (heap c mf)"] by blast
  have cf: "m_config ta = cfg c" "array_ok ta" using ta(2) by (simp_all add: tags_keep_def same_array_def cfg_def)
  note fk = flights_keep[OF ta(2) a(1) a(3) order_refl]
  consider "\<not> mshr_full (c_mshrs c) b \<and> mshr_probe (c_mshrs c) b"
    | "\<not> mshr_full (c_mshrs c) b \<and> \<not> mshr_probe (c_mshrs c) b \<and> length (m_miss_queue c) < unat (m_miss_queue_size (cfg c))"
    | "mshr_full (c_mshrs c) b \<or> \<not> mshr_probe (c_mshrs c) b \<and> \<not> length (m_miss_queue c) < unat (m_miss_queue_size (cfg c))"
    by blast
  then show ?thesis
  proof cases
    case 1
    obtain t' where t': "mshr_add (c_mshrs c) b mf (r_atomic (heap c mf)) = Inr t'" "mshr_ok t'"
        "pending_blocks t' = insert b (pending_blocks (c_mshrs c))" "m_current_response t' = m_current_response (c_mshrs c)"
        "no_atomic (c_mshrs c) \<and> \<not> r_atomic (heap c mf) \<longrightarrow> no_atomic t'"
      using mshr_add_facts[OF a(2)] 1 by blast
    have "pending_blocks t' = pending_blocks (c_mshrs c)" using t'(3) 1 by (auto simp: probe_pending)
    then have "flights_ok ta t' ?X (next_mf c)" using fk t'(4) by (simp add: flights_ok_def)
    then have "core_ok (c\<lparr>c_tags := ta, c_mshrs := t'\<rparr>)"
      using ok cf t'(2,5) at by (simp add: core_ok_def cfg_def)
    then show ?thesis using 1 ta(1) t'(1) cf by (simp add: send_read_request_def tag_access_def quiet_def cfg_def) blast
  next
    case 2
    obtain t' where t': "mshr_add (c_mshrs c) b mf (r_atomic (heap c mf)) = Inr t'" "mshr_ok t'"
        "pending_blocks t' = insert b (pending_blocks (c_mshrs c))" "m_current_response t' = m_current_response (c_mshrs c)"
        "no_atomic (c_mshrs c) \<and> \<not> r_atomic (heap c mf) \<longrightarrow> no_atomic t'"
      using mshr_add_facts[OF a(2)] 2 by blast
    have "flights_ok ta t' (?X(mf \<mapsto> \<lparr>xf_valid = True, xf_block_addr = b, xf_cache_index = j',
        xf_data_size = r_data_size (heap c mf)\<rparr>)) (next_mf c)"
      using 2 t'(3,4) mf by (intro flights_add[OF fk fl]) (simp_all add: probe_pending)
    then have "core_ok (push_miss (c\<lparr>c_tags := ta, c_mshrs := t',
        m_extra_mf_fields := ?X(mf \<mapsto> \<lparr>xf_valid = True, xf_block_addr = b, xf_cache_index = j',
          xf_data_size = r_data_size (heap c mf)\<rparr>),
        heap := (heap c)(mf := (heap c mf)\<lparr>r_data_size := m_line_sz (cfg c)\<rparr>)\<rparr>) mf)"
      using ok cf t'(2,5) at 2 by (simp add: core_ok_def cfg_def push_miss_def)
    moreover have "get_line_sz (cfg c) = Inr (m_line_sz (cfg c))" using ok by (simp add: core_ok_def get_line_sz_def)
    ultimately show ?thesis using 2 ta(1) t'(1) cf
      by (cases wa) (simp_all add: send_read_request_def tag_access_def quiet_def cfg_def push_miss_def Let_def, blast+)
  next
    case 3
    then show ?thesis using ok by (auto simp: send_read_request_def Let_def)
  qed
qed

lemma write_back_total:
  assumes ok: "core_ok c" and q: "length (m_miss_queue c) < unat (m_miss_queue_size (cfg c))"
  shows "\<exists>c' s. write_back c wb = Inr (c', s) \<and> core_ok c' \<and> quiet c c'"
proof -
  let ?d = "\<lambda>r. push_miss (new_mf c r) (next_mf c)"
  have "core_ok (?d r) \<and> quiet c (?d r)" for r
    using core_new[OF ok, of r] core_push[of "new_mf c r" "next_mf c"] q quiet_trans[of c "new_mf c r"]
    by (auto simp: new_mf_def cfg_def)
  moreover have "get_line_sz (cfg c) = Inr (m_line_sz (cfg c))" using ok by (simp add: core_ok_def get_line_sz_def)
  ultimately show ?thesis using ok by (cases wb) (auto simp: write_back_def)
qed

lemma rd_miss_total:
  assumes ok: "core_ok c" and m: "lookup_means (c_tags c) (cache_block_addr (cfg c) addr) st j"
    and st: "st = MISS \<or> st = HIT_RESERVED" and t: "t \<noteq> -1" and mf: "mf < next_mf c" "m_extra_mf_fields c mf = None"
    and at: "m_alloc_policy (cfg c) = ON_FILL \<longrightarrow> \<not> r_atomic (heap c mf)"
  shows "outcome_ok c (rd_miss_base c addr idx mf t)"
proof (cases "miss_queue_full c 1")
  case False
  obtain c1 dm wb ev where 1: "send_read_request c (cache_block_addr (cfg c) addr) idx mf t False False = Inr (c1, dm, wb, ev)"
      "core_ok c1" "quiet c c1" "length (m_miss_queue c1) \<le> length (m_miss_queue c) + 1"
    using send_read_total[OF ok m st t _ mf at, of idx False] by auto
  have "length (m_miss_queue c1) < unat (m_miss_queue_size (cfg c1))"
    using False 1(3,4) by (simp add: miss_queue_full_def quiet_def)
  from write_back_total[OF 1(2) this, of wb] obtain c2 s where "write_back c1 wb = Inr (c2, s)" "core_ok c2" "quiet c1 c2" by blast
  then show ?thesis using False 1 quiet_trans[OF 1(3)] by (cases dm) (auto simp: rd_miss_base_def intro!: outcome_okI)
qed (use ok in \<open>simp add: rd_miss_base_def outcome_okI\<close>)

lemma wr_miss_wa_total:
  assumes ok: "core_ok c" and m: "lookup_means (c_tags c) (cache_block_addr (cfg c) addr) st j"
    and st: "st = MISS \<or> st = HIT_RESERVED" and t: "t \<noteq> -1"
  shows "outcome_ok c (wr_miss_wa c addr idx mf t)"
proof -
  let ?b = "cache_block_addr (cfg c) addr"
  define c1 where "c1 = push_miss c mf"
  define c2 where "c2 = new_mf c1 (wr_alloc_request c1 mf)"
  have f: "c_tags c2 = c_tags c" "cfg c2 = cfg c" "next_mf c1 = next_mf c" "next_mf c2 = next_mf c + 1"
    "length (m_miss_queue c2) = length (m_miss_queue c) + 1" "m_extra_mf_fields c2 = m_extra_mf_fields c"
    "\<not> r_atomic (heap c2 (next_mf c))"
    by (simp_all add: c1_def c2_def new_mf_def push_miss_def cfg_def wr_alloc_request_def Let_def)
  have none: "m_extra_mf_fields c2 (next_mf c) = None"
  proof (rule ccontr)
    assume "m_extra_mf_fields c2 (next_mf c) \<noteq> None"
    then obtain e where "m_extra_mf_fields c (next_mf c) = Some e" using f(6) by auto
    then have "next_mf c < next_mf c" using ok by (auto simp: core_ok_def flights_ok_def)
    then show False by simp
  qed
  show ?thesis
  proof (cases "miss_queue_full c 2")
    case False
    then have room: "length (m_miss_queue c) + 2 < unat (m_miss_queue_size (cfg c))" by (simp add: miss_queue_full_def)
    have 2: "core_ok c2" "quiet c c2"
      using core_push[OF ok, of mf] core_new[of c1 "wr_alloc_request c1 mf"] room quiet_trans[of c c1 c2]
      by (simp_all add: c1_def c2_def)
    obtain c3 dm wb ev where 3: "send_read_request c2 ?b idx (next_mf c) t False True = Inr (c3, dm, wb, ev)"
        "core_ok c3" "quiet c2 c3" "length (m_miss_queue c3) \<le> length (m_miss_queue c2) + 1"
      using send_read_total[OF 2(1) _ st t, of ?b j "next_mf c" idx True] m f none by auto
    have "length (m_miss_queue c3) < unat (m_miss_queue_size (cfg c3))"
      using room 3(3,4) f by (simp add: quiet_def)
    from write_back_total[OF 3(2) this, of wb] obtain c4 s where 4: "write_back c3 wb = Inr (c4, s)" "core_ok c4" "quiet c3 c4" by blast
    have q: "quiet c c3" "quiet c c4" using quiet_trans[OF 2(2)] 3(3) 4(3) quiet_trans by blast+
    have "outcome_ok c (Inr (c, RESERVATION_FAIL, []))" "outcome_ok c (Inr (c4, MISS, WRITE_REQUEST_SENT # ev))"
      "outcome_ok c (Inr (c3, RESERVATION_FAIL, WRITE_REQUEST_SENT # ev))"
      using ok 3(2) 4(2) q by (auto intro!: outcome_okI)
    then show ?thesis using 3(1) 4(1) f(3)
      by (cases dm) (simp_all add: wr_miss_wa_def Let_def c1_def[symmetric] c2_def[symmetric])
  qed (use ok in \<open>simp add: wr_miss_wa_def Let_def outcome_okI\<close>)
qed

section \<open>The whole access\<close>

definition ctl_ok :: "base_cache \<Rightarrow> bool" where
  "ctl_ok c \<longleftrightarrow> core_ok c \<and> stats_ok (c_stats c) \<and> 0 \<le>s m_data_port_occupied_cycles c \<and>
     0 \<le>s m_fill_port_occupied_cycles c \<and> m_data_port_width (cfg c) \<noteq> 0 \<and> 0 \<le>s m_line_sz (cfg c)"

lemma nonneg_iff: "0 \<le>s (a :: u32) \<longleftrightarrow> unat a < 2 ^ 31"
proof -
  have b: "unat a < 2 ^ 32" using unsigned_less[of a, where 'a = nat] by simp
  have "0 \<le>s a \<longleftrightarrow> \<not> bit a 31" by (simp add: word_sle_eq bit_last_iff[symmetric] not_less[symmetric])
  also have "bit a 31 \<longleftrightarrow> odd (unat a div 2 ^ 31)"
  proof -
    have "bit (unat a) 31 = bit a 31" by (simp add: bit_unsigned_iff)
    then show ?thesis by (simp only: bit_iff_odd)
  qed
  also have "(\<not> odd (unat a div 2 ^ 31)) \<longleftrightarrow> unat a < 2 ^ 31"
  proof (cases "unat a < 2 ^ 31")
    case False
    then have "unat a div 2 ^ 31 = 1" using b by (intro div_nat_eqI) simp_all
    then show ?thesis using False by simp
  qed simp
  finally show ?thesis .
qed

lemma nonneg_mono: "(a :: u32) \<le> b \<Longrightarrow> 0 \<le>s b \<Longrightarrow> 0 \<le>s a"
  by (simp add: nonneg_iff word_le_nat_alt)

lemma ceil_cycles_le:
  assumes "w \<noteq> 0"
  shows "ceil_cycles n w \<le> n"
proof (cases "n mod w = 0")
  case True
  then show ?thesis by (simp add: ceil_cycles_def word_le_nat_alt unat_div_distrib)
next
  case False
  then have m: "0 < unat n mod unat w" by (metis unat_mod_distrib unat_gt_0)
  have "unat w \<noteq> 0" using assms by (metis unat_eq_zero)
  moreover have "unat w \<noteq> 1" using m by (intro notI) simp
  moreover have "0 < unat n" using m by (intro gr0I) simp
  ultimately have "unat n div unat w < unat n" by simp
  moreover have "unat (n div w + 1) \<le> unat (n div w) + 1" by (simp add: unat_word_ariths)
  ultimately show ?thesis using False by (simp add: ceil_cycles_def word_le_nat_alt unat_div_distrib word_gt_0)
qed

lemma use_data_port_total:
  assumes ok: "core_ok c" and w: "m_data_port_width (cfg c) \<noteq> 0" and l: "0 \<le>s m_line_sz (cfg c)"
    and free: "m_data_port_occupied_cycles c = 0" and hit: "s = HIT \<longrightarrow> r_data_size (heap c mf) \<le> m_line_sz (cfg c)"
  shows "\<exists>d. use_data_port c mf s ev = Inr (c\<lparr>m_data_port_occupied_cycles := d\<rparr>) \<and> 0 \<le>s d"
proof -
  have c: "0 \<le>s ceil_cycles (r_data_size (heap c mf)) (m_data_port_width (cfg c))" if "s = HIT"
    using nonneg_mono[OF order_trans[OF ceil_cycles_le[OF w]] l] hit that by blast
  have d: "m_line_sz (cfg c) div m_data_port_width (cfg c) \<le> m_line_sz (cfg c)"
    by (simp add: word_le_nat_alt unat_div_distrib)
  have z: "m_data_port_occupied_cycles c = (0 :: u32)" "c = c\<lparr>m_data_port_occupied_cycles := 0\<rparr>" using free by simp_all
  have keep: "\<exists>d. c = c\<lparr>m_data_port_occupied_cycles := d\<rparr> \<and> 0 \<le>s d" by (rule exI[of _ 0], rule conjI[OF z(2)]) simp
  then show ?thesis using c nonneg_mono[OF d l] w
    by (cases s) (auto simp: use_data_port_def Let_def z(1))
qed

lemma core_ports [simp]:
  "core_ok (c\<lparr>m_data_port_occupied_cycles := d\<rparr>) = core_ok c" "core_ok (c\<lparr>m_fill_port_occupied_cycles := d\<rparr>) = core_ok c"
  "core_ok (c\<lparr>c_stats := cs\<rparr>) = core_ok c" "cfg (c\<lparr>m_data_port_occupied_cycles := d\<rparr>) = cfg c"
  "cfg (c\<lparr>m_fill_port_occupied_cycles := d\<rparr>) = cfg c" "cfg (c\<lparr>c_stats := cs\<rparr>) = cfg c"
  by (simp_all add: core_ok_def cfg_def)

text \<open>What the caller of a data cache sees to: the port is free, the request fits in a line, its type is a type, the clock
  has not reached \<open>(unsigned)-1\<close>, and atomics are global reads and go to caches that allocate on a miss.\<close>

definition admissible :: "base_cache \<Rightarrow> request \<Rightarrow> u32 \<Rightarrow> bool" where
  "admissible c r t \<longleftrightarrow> data_port_free c \<and> r_data_size r \<le> m_line_sz (cfg c) \<and> r_type r \<noteq> NUM_MEM_ACCESS_TYPE \<and> t \<noteq> -1 \<and>
     (r_atomic r \<longrightarrow> r_type r = GLOBAL_ACC_R \<and> m_alloc_policy (cfg c) = ON_MISS)"

lemma process_total:
  assumes ok: "core_ok c" and m: "lookup_means (c_tags c) (cache_block_addr (cfg c) addr) st j" and t: "t \<noteq> -1"
    and mf: "mf < next_mf c" "m_extra_mf_fields c mf = None"
    and at: "r_atomic (heap c mf) \<longrightarrow> r_type (heap c mf) = GLOBAL_ACC_R \<and> m_alloc_policy (cfg c) = ON_MISS"
  shows "outcome_ok c
    (if w then (if st = HIT then call_wr_hit c addr j mf t
       else if st \<noteq> RESERVATION_FAIL then call_wr_miss c addr j mf t else Inr (c, st, []))
     else (if st = HIT then rd_hit_base c addr j mf t
       else if st \<noteq> RESERVATION_FAIL then rd_miss_base c addr j mf t else Inr (c, st, [])))"
proof (cases "st = HIT \<or> st = RESERVATION_FAIL")
  case True
  then show ?thesis using wr_hit_total[OF ok _ t] rd_hit_total[OF ok _ t] m at ok by (auto intro!: outcome_okI)
next
  case False
  then have st: "st = MISS \<or> st = HIT_RESERVED" by (cases st) simp_all
  have "outcome_ok c (call_wr_miss c addr j mf t)"
    using wr_miss_wa_total[OF ok m st t] wr_miss_no_wa_total[OF ok] by (cases "m_wr_miss c") (simp_all add: call_wr_miss_def)
  moreover have "outcome_ok c (rd_miss_base c addr j mf t)" using rd_miss_total[OF ok m st t mf] at by auto
  ultimately show ?thesis using False by simp
qed

lemma data_access_total:
  assumes ok: "ctl_ok c" and adm: "admissible c (heap c mf) t" and mf: "mf < next_mf c" "m_extra_mf_fields c mf = None"
  shows "\<exists>c' s ev. data_cache_access c addr mf t = Inr (c', s, ev) \<and> ctl_ok c' \<and> cfg c' = cfg c"
proof -
  let ?b = "cache_block_addr (cfg c) addr"
  have core: "core_ok c" and st: "stats_ok (c_stats c)" using ok by (simp_all add: ctl_ok_def)
  have arr: "array_ok (c_tags c)" and v: "get_line_sz (cfg c) = Inr (m_line_sz (cfg c))"
    using core by (simp_all add: core_ok_def get_line_sz_def)
  obtain s0 j where p: "probe (c_tags c) ?b no_index 0 = Inr (s0, j, [])" using probe_total[OF arr] by blast
  note m = conjunct1[OF probe_means[OF arr p]]
  have t: "t \<noteq> -1" and at: "r_atomic (heap c mf) \<longrightarrow> r_type (heap c mf) = GLOBAL_ACC_R \<and> m_alloc_policy (cfg c) = ON_MISS"
    using adm by (simp_all add: admissible_def)
  obtain c1 s ev where 1: "(if r_write (heap c mf) then (if s0 = HIT then call_wr_hit c addr j mf t
       else if s0 \<noteq> RESERVATION_FAIL then call_wr_miss c addr j mf t else Inr (c, s0, []))
     else (if s0 = HIT then rd_hit_base c addr j mf t
       else if s0 \<noteq> RESERVATION_FAIL then rd_miss_base c addr j mf t else Inr (c, s0, []))) = Inr (c1, s, ev)"
      "core_ok c1" "quiet c c1" "s = HIT \<longrightarrow> heap c1 = heap c"
    using process_total[OF core m t mf at, of "r_write (heap c mf)"] unfolding outcome_ok_def by blast
  have q: "cfg c1 = cfg c" "c_stats c1 = c_stats c" "m_data_port_occupied_cycles c1 = 0"
    "m_fill_port_occupied_cycles c1 = m_fill_port_occupied_cycles c" "r_type (heap c1 mf) = r_type (heap c mf)"
    using 1(3) adm mf by (simp_all add: quiet_def admissible_def data_port_free_def)
  obtain d where d: "use_data_port c1 mf s ev = Inr (c1\<lparr>m_data_port_occupied_cycles := d\<rparr>)" "0 \<le>s d"
    using use_data_port_total[OF 1(2), of s mf ev] ok adm q 1(4) by (auto simp: ctl_ok_def admissible_def)
  have pr: "process_tag_probe c (r_write (heap c mf)) s0 addr j mf t = Inr (c1\<lparr>m_data_port_occupied_cycles := d\<rparr>, s, ev)"
    unfolding process_tag_probe_def 1(1) using d(1) by simp
  obtain cs where cs: "inc_stats (c_stats c1) (int (access_type_no (r_type (heap c mf))))
      (int (status_no (select_stats_status s0 s))) = Inr cs" "stats_ok cs"
    using inc_stats_ok[of "c_stats c1" "r_type (heap c mf)"] st q(2) adm unfolding admissible_def by metis
  let ?c = "c1\<lparr>m_data_port_occupied_cycles := d, c_stats := cs\<rparr>"
  have "data_cache_access c addr mf t = Inr (?c, s, ev)"
    using v p pr cs(1) adm q(5) by (simp add: data_cache_access_def note_access_def admissible_def)
  moreover have "ctl_ok ?c" using ok 1(2) d(2) cs(2) q by (simp add: ctl_ok_def)
  ultimately show ?thesis using q(1) by (metis core_ports(4,6))
qed

section \<open>Fills\<close>

lemma flights_remove:
  assumes k: "\<And>m e'. X m = Some e' \<Longrightarrow> m \<noteq> mf \<Longrightarrow> flight_ok ta' e'" and f: "flights_ok ta t X n" and mf: "X mf = Some e"
    and t': "pending_blocks t' = pending_blocks t" "m_current_response t' = m_current_response t @ [xf_block_addr e]"
  shows "flights_ok ta' t' (X(mf := None)) n"
proof -
  have inj: "X m = Some e1 \<Longrightarrow> xf_block_addr e1 = xf_block_addr e \<Longrightarrow> m = mf" for m e1
    using f mf unfolding flights_ok_def by blast
  have ran: "xf_block_addr ` ran (X(mf := None)) = xf_block_addr ` ran X - {xf_block_addr e}"
  proof (intro equalityI subsetI)
    fix b assume "b \<in> xf_block_addr ` ran (X(mf := None))"
    then obtain m e1 where "X m = Some e1" "m \<noteq> mf" "b = xf_block_addr e1" by (auto simp: ran_def split: if_split_asm)
    then show "b \<in> xf_block_addr ` ran X - {xf_block_addr e}" using inj by (auto intro: ranI)
  next
    fix b assume "b \<in> xf_block_addr ` ran X - {xf_block_addr e}"
    then obtain m e1 where "X m = Some e1" "b = xf_block_addr e1" "b \<noteq> xf_block_addr e" by (auto simp: ran_def)
    moreover from this have "(X(mf := None)) m = Some e1" using mf by auto
    ultimately show "b \<in> xf_block_addr ` ran (X(mf := None))" by (metis ranI image_eqI)
  qed
  have "xf_block_addr e \<in> xf_block_addr ` ran X" using ranI[of X, OF mf] by blast
  then have "xf_block_addr ` ran (X(mf := None)) \<inter> set (m_current_response t') = {}"
      "pending_blocks t' = xf_block_addr ` ran (X(mf := None)) \<union> set (m_current_response t')"
    using f unfolding ran t' flights_ok_def by auto
  moreover have "\<forall>m e1. (X(mf := None)) m = Some e1 \<longrightarrow> flight_ok ta' e1 \<and> m < n"
    using f k unfolding flights_ok_def by (auto split: if_split_asm)
  moreover have "\<forall>m m' e1 e2. (X(mf := None)) m = Some e1 \<longrightarrow> (X(mf := None)) m' = Some e2 \<longrightarrow>
      xf_block_addr e1 = xf_block_addr e2 \<longrightarrow> m = m'"
    using f unfolding flights_ok_def by (auto split: if_split_asm)
  ultimately show ?thesis unfolding flights_ok_def by blast
qed

text \<open>The tags after a fill: the line of the request is filled, and the other requests in flight keep theirs.\<close>

lemma fill_tags_total:
  assumes ok: "core_ok c" and mf: "m_extra_mf_fields c mf = Some e" and t: "t \<noteq> -1"
  shows "\<exists>ta. fill_tags (c\<lparr>heap := h\<rparr>) r e t = Inr ta \<and> array_ok ta \<and> same_array (c_tags c) ta \<and>
    (\<forall>m e'. m_extra_mf_fields c m = Some e' \<longrightarrow> m \<noteq> mf \<longrightarrow> flight_ok ta e') \<and>
    (m_alloc_policy (cfg c) = ON_MISS \<longrightarrow> xf_cache_index e < length (m_lines ta) \<and> lstat ta (xf_cache_index e) = VALID)"
proof -
  let ?ta = "c_tags c" and ?X = "m_extra_mf_fields c"
  have arr: "array_ok ?ta" and f: "flights_ok ?ta (c_mshrs c) ?X (next_mf c)" using ok by (simp_all add: core_ok_def)
  have e: "flight_ok ?ta e" using f mf by (simp add: flights_ok_def)
  have all: "\<forall>m e'. ?X m = Some e' \<longrightarrow> flight_ok ?ta e' \<and> m < next_mf c"
    and inj: "\<forall>m m' e1 e2. ?X m = Some e1 \<longrightarrow> ?X m' = Some e2 \<longrightarrow> xf_block_addr e1 = xf_block_addr e2 \<longrightarrow> m = m'"
    using f unfolding flights_ok_def by simp_all
  have oth: "flight_ok ?ta e'" "xf_block_addr e' \<noteq> xf_block_addr e" if "?X m = Some e'" "m \<noteq> mf" for m e'
    using all inj[rule_format, OF that(1) mf] that by auto
  have pl: "is_plain ?ta" using arr by (simp add: array_ok_def plain_ok_def)
  show ?thesis
  proof (cases "m_alloc_policy (cfg c)")
    case ON_MISS
    then have j: "xf_cache_index e < length (m_lines ?ta)" "lstat ?ta (xf_cache_index e) = RESERVED"
      "ltag ?ta (xf_cache_index e) = xf_block_addr e" using e by (simp_all add: flight_ok_def cfg_def)
    obtain ta where ta: "fill_index ?ta (xf_cache_index e) t = Inr ta" "array_ok ta" "same_array ?ta ta"
        "line_becomes ?ta ta (xf_cache_index e) VALID (ltag ?ta (xf_cache_index e))"
      using fill_index_total[OF arr j(1,2), of t] ON_MISS by (auto simp: cfg_def)
    note s = same_arrayD[OF ta(3)] and l = line_becomesD[OF ta(4)]
    have "flight_ok ta e'" if "?X m = Some e'" "m \<noteq> mf" for m e'
    proof -
      have e': "xf_cache_index e' < length (m_lines ?ta)" "lstat ?ta (xf_cache_index e') = RESERVED"
        "ltag ?ta (xf_cache_index e') = xf_block_addr e'"
        using oth(1)[OF that] ON_MISS by (simp_all add: flight_ok_def cfg_def)
      then have "xf_cache_index e' \<noteq> xf_cache_index e" using oth(2)[OF that] j(3) by auto
      then show ?thesis using oth(1)[OF that] e' l[OF e'(1)] s ON_MISS by (simp add: flight_ok_def cfg_def)
    qed
    moreover have "lstat ta (xf_cache_index e) = VALID" using l(1)[OF j(1)] by simp
    ultimately show ?thesis using ta ON_MISS j(1) s(5) by (simp add: fill_tags_def cfg_def)
  next
    case ON_FILL
    then have fresh: "\<forall>i. \<not> holder ?ta (xf_block_addr e) i" using e by (simp add: flight_ok_def cfg_def)
    obtain ta j where ta: "fill_addr ?ta (xf_block_addr e) t 0 0 = Inr ta" "array_ok ta" "same_array ?ta ta"
        "j \<in> home ?ta (xf_block_addr e)"
        "line_becomes ?ta ta j VALID (cache_tag (m_config ?ta) (xf_block_addr e))"
      using fill_addr_total[OF arr _ t fresh] ON_FILL by (auto simp: cfg_def)
    note s = same_arrayD[OF ta(3)] and l = line_becomesD[OF ta(5)]
    have b: "cache_tag (m_config ?ta) (xf_block_addr e) = xf_block_addr e" using e by (simp add: flight_ok_def tag_is_block)
    have "flight_ok ta e'" if "?X m = Some e'" "m \<noteq> mf" for m e'
    proof -
      have e': "\<not> holder ?ta (xf_block_addr e') i" for i using oth(1)[OF that] ON_FILL by (simp add: flight_ok_def cfg_def)
      have b': "cache_tag (m_config ?ta) (xf_block_addr e') = xf_block_addr e'"
        using oth(1)[OF that] by (simp add: flight_ok_def tag_is_block)
      have "\<not> holder ta (xf_block_addr e') i" for i
      proof
        assume h: "holder ta (xf_block_addr e') i"
        then have i: "i \<in> home ?ta (xf_block_addr e')" using home_same[OF ta(3)] by (simp add: holder_def)
        note li = l[OF home_bound[OF arr i]]
        show False using h i li e'[of i] oth(2)[OF that] b b' s(6) by (auto simp: holder_def split: if_split_asm)
      qed
      then show ?thesis using oth(1)[OF that] s ON_FILL by (simp add: flight_ok_def cfg_def)
    qed
    then show ?thesis using ta ON_FILL pl by (simp add: fill_tags_def cfg_def is_plain_def)
  qed
qed

lemma cache_fill_total:
  assumes ok: "ctl_ok c" and mf: "waiting_for_fill c mf" and t: "t \<noteq> -1" and free: "fill_port_free c"
  shows "\<exists>c' e. cache_fill c mf t = Inr c' \<and> ctl_ok c' \<and> cfg c' = cfg c \<and> m_extra_mf_fields c mf = Some e \<and>
    m_extra_mf_fields c' = (m_extra_mf_fields c)(mf := None) \<and> r_data_size (heap c' mf) = xf_data_size e \<and>
    xf_block_addr e \<in> set (m_current_response (c_mshrs c'))"
proof -
  obtain e where e: "m_extra_mf_fields c mf = Some e" using mf by (auto simp: waiting_for_fill_def)
  have core: "core_ok c" using ok by (simp add: ctl_ok_def)
  have arr: "array_ok (c_tags c)" and mo: "mshr_ok (c_mshrs c)"
    and f: "flights_ok (c_tags c) (c_mshrs c) (m_extra_mf_fields c) (next_mf c)" using core by (simp_all add: core_ok_def)
  define r where "r = (heap c mf)\<lparr>r_data_size := xf_data_size e\<rparr>"
  define h where "h = (heap c)(mf := r)"
  obtain ta where ta: "fill_tags (c\<lparr>heap := h\<rparr>) r e t = Inr ta" "array_ok ta" "same_array (c_tags c) ta"
      "\<forall>m e'. m_extra_mf_fields c m = Some e' \<longrightarrow> m \<noteq> mf \<longrightarrow> flight_ok ta e'"
      "m_alloc_policy (cfg c) = ON_MISS \<longrightarrow> xf_cache_index e < length (m_lines ta) \<and> lstat ta (xf_cache_index e) = VALID"
    using fill_tags_total[OF core e t] by blast
  have b: "xf_block_addr e \<in> pending_blocks (c_mshrs c)" "xf_block_addr e \<notin> set (m_current_response (c_mshrs c))"
    using f ranI[of "m_extra_mf_fields c", OF e] unfolding flights_ok_def by blast+
  obtain t' at where t': "mark_ready (c_mshrs c) (xf_block_addr e) = Inr (t', at)" "mshr_ok t'"
      "pending_blocks t' = pending_blocks (c_mshrs c)" "m_current_response t' = m_current_response (c_mshrs c) @ [xf_block_addr e]"
      "no_atomic (c_mshrs c) \<longrightarrow> \<not> at \<and> no_atomic t'"
    using mark_ready_facts[OF mo b] by blast
  have cf: "m_config ta = cfg c" using ta(3) by (simp add: same_array_def cfg_def)
  have xv: "xf_valid e" using f e by (simp add: flights_ok_def flight_ok_def)
  define ta' where "ta' = (if at then put_block ta (xf_cache_index e) ((m_lines ta ! xf_cache_index e)\<lparr>m_status := MODIFIED\<rparr>) else ta)"
  have om: "m_alloc_policy (cfg c) = ON_MISS" if at
    using that t'(5) core by (cases "m_alloc_policy (cfg c)") (auto simp: core_ok_def)
  have k: "tags_keep ta ta'"
    using set_status_keep[OF ta(2), of "xf_cache_index e" MODIFIED] om ta(2,5) by (auto simp: ta'_def tags_keep_def)
  define c3 where "c3 = c\<lparr>heap := h, c_tags := ta', c_mshrs := t', m_extra_mf_fields := (m_extra_mf_fields c)(mf := None)\<rparr>"
  have "m_config ta' = cfg c" using k cf by (simp add: tags_keep_def same_array_def)
  then have cf3: "cfg c3 = cfg c" by (simp add: c3_def cfg_def)
  have "flights_ok ta' t' ((m_extra_mf_fields c)(mf := None)) (next_mf c)"
    using flight_keep[OF k ta(2)] ta(4) by (intro flights_remove[OF _ f e t'(3,4)]) blast
  then have core3: "core_ok c3"
    using core k t'(2,5) cf3 unfolding core_ok_def by (simp add: c3_def tags_keep_def)
  have w: "m_data_port_width (cfg c) \<noteq> 0" "0 \<le>s m_line_sz (cfg c)" using ok by (simp_all add: ctl_ok_def)
  let ?n = "m_line_sz (cfg c) div m_data_port_width (cfg c)"
  have n: "0 \<le>s ?n" using nonneg_mono[OF _ w(2), of ?n] by (simp add: word_le_nat_alt unat_div_distrib)
  let ?c = "c3\<lparr>m_fill_port_occupied_cycles := ?n\<rparr>"
  have u: "use_fill_port c3 = Inr ?c"
    using w(1) cf3 free by (simp add: use_fill_port_def fill_port_free_def c3_def)
  have c3': "c3 = c\<lparr>heap := h, c_mshrs := t', c_tags := ta', m_extra_mf_fields := (m_extra_mf_fields c)(mf := None)\<rparr>"
    by (rule base_cache.equality) (simp_all add: c3_def)
  have "cache_fill c mf t = use_fill_port c3"
  proof (cases at)
    case True
    then show ?thesis unfolding c3' using e xv ta(1,5) t'(1) om
      by (simp add: cache_fill_def Let_def r_def[symmetric] h_def[symmetric] set_block_status_def get_block_def ta'_def)
  next
    case False
    then show ?thesis unfolding c3_def using e xv ta(1) t'(1)
      by (simp add: cache_fill_def Let_def r_def[symmetric] h_def[symmetric] ta'_def)
  qed
  moreover have "ctl_ok ?c" using ok core3 cf3 n by (simp add: ctl_ok_def) (simp add: c3_def)
  moreover have "r_data_size (heap ?c mf) = xf_data_size e" by (simp add: c3_def h_def r_def)
  ultimately show ?thesis using u cf3 e t'(4) by (simp add: c3_def)
qed

section \<open>Hand-out and cycles\<close>

lemma cache_next_total:
  assumes ok: "ctl_ok c" and r: "cache_access_ready c"
  shows "\<exists>c' mf. cache_next_access c = Inr (c', mf) \<and> ctl_ok c' \<and> cfg c' = cfg c"
proof -
  have core: "core_ok c" using ok by (simp add: ctl_ok_def)
  then have mo: "mshr_ok (c_mshrs c)"
    and f: "flights_ok (c_tags c) (c_mshrs c) (m_extra_mf_fields c) (next_mf c)" by (simp_all add: core_ok_def)
  obtain t' mf where t': "next_access (c_mshrs c) = Inr (t', mf)" "mshr_ok t'"
      "set (m_current_response t') \<subseteq> set (m_current_response (c_mshrs c))" "pending_blocks t' \<subseteq> pending_blocks (c_mshrs c)"
      "pending_blocks (c_mshrs c) - pending_blocks t' = set (m_current_response (c_mshrs c)) - set (m_current_response t')"
      "no_atomic (c_mshrs c) \<longrightarrow> no_atomic t'"
    using next_access_facts[OF mo] r by (auto simp: cache_access_ready_def)
  let ?B = "xf_block_addr ` ran (m_extra_mf_fields c)"
  have "?B \<inter> set (m_current_response (c_mshrs c)) = {}" "pending_blocks (c_mshrs c) = ?B \<union> set (m_current_response (c_mshrs c))"
    using f unfolding flights_ok_def by simp_all
  with t'(3-5) have "?B \<inter> set (m_current_response t') = {}" "pending_blocks t' = ?B \<union> set (m_current_response t')"
    by blast+
  then have "flights_ok (c_tags c) t' (m_extra_mf_fields c) (next_mf c)"
    using f unfolding flights_ok_def by simp
  then have c: "core_ok (c\<lparr>c_mshrs := t'\<rparr>)" using core t'(2,6) by (simp add: core_ok_def cfg_def)
  have cf: "cfg (c\<lparr>c_mshrs := t'\<rparr>) = cfg c" by (simp add: cfg_def)
  have "ctl_ok (c\<lparr>c_mshrs := t'\<rparr>)" using ok c unfolding ctl_ok_def cf by simp
  then show ?thesis using t'(1) cf by (simp add: cache_next_access_def)
qed

lemma dec_nonneg: "0 \<le>s (w :: u32) \<Longrightarrow> 0 \<le>s (if 0 <s w then w - 1 else w)"
  using nonneg_mono[of "w - 1" w] by (cases "w = 0") (simp_all add: word_le_nat_alt unat_minus_one)

lemma cache_cycle_total:
  assumes ok: "ctl_ok c"
  shows "\<exists>c' out. cache_cycle full_fn c = Inr (c', out) \<and> ctl_ok c' \<and> cfg c' = cfg c"
proof -
  define r where "r = (case m_miss_queue c of
               [] \<Rightarrow> (c, None)
             | mf # rest \<Rightarrow>
                 if \<not> full_fn (r_data_size (heap c mf) + r_ctrl_size (heap c mf)) (r_write (heap c mf))
                 then (c\<lparr>m_miss_queue := rest\<rparr>, Some mf) else (c, None))"
  obtain c1 out where c1: "r = (c1, out)" by (cases r)
  have "c1 = c \<or> (\<exists>mf rest. m_miss_queue c = mf # rest \<and> c1 = c\<lparr>m_miss_queue := rest\<rparr>)"
    using c1 by (auto simp: r_def split: list.splits if_split_asm)
  then have 1: "core_ok c1" "cfg c1 = cfg c" "c_stats c1 = c_stats c"
    "m_data_port_occupied_cycles c1 = m_data_port_occupied_cycles c" "m_fill_port_occupied_cycles c1 = m_fill_port_occupied_cycles c"
    using ok by (auto simp: ctl_ok_def core_ok_def cfg_def)
  define c2 where "c2 = c1\<lparr>c_stats := sample_cache_port_utility (c_stats c1) (\<not> data_port_free c1) (\<not> fill_port_free c1)\<rparr>"
  define d where "d = (if 0 <s m_data_port_occupied_cycles c then m_data_port_occupied_cycles c - 1 else m_data_port_occupied_cycles c)"
  define f where "f = (if 0 <s m_fill_port_occupied_cycles c then m_fill_port_occupied_cycles c - 1 else m_fill_port_occupied_cycles c)"
  have df: "0 \<le>s d" "0 \<le>s f" unfolding d_def f_def using ok by (simp_all only: ctl_ok_def dec_nonneg)
  have p2: "m_data_port_occupied_cycles c2 = m_data_port_occupied_cycles c"
    "m_fill_port_occupied_cycles c2 = m_fill_port_occupied_cycles c" by (simp_all add: c2_def 1(4,5))
  have "replenish_port_bandwidth c2 = Inr (c2\<lparr>m_data_port_occupied_cycles := d, m_fill_port_occupied_cycles := f\<rparr>)"
    unfolding replenish_port_bandwidth_def Let_def p2 d_def[symmetric] f_def[symmetric] using df by simp
  moreover have "ctl_ok (c2\<lparr>m_data_port_occupied_cycles := d, m_fill_port_occupied_cycles := f\<rparr>)"
    using ok 1 df by (simp add: ctl_ok_def c2_def)
  moreover have "cache_cycle full_fn c = bindE (replenish_port_bandwidth c2) (\<lambda>c3. Inr (c3, out))"
    unfolding cache_cycle_def r_def[symmetric] c1 by (simp add: Let_def c2_def)
  ultimately show ?thesis using 1(2) by (simp add: c2_def)
qed

end
