(* ===== verification/Cache_Run.thy ===== *)
theory Cache_Run
  imports Cache_Correct
begin

text \<open>
  A data cache under its callers: the load/store unit that sends requests while the data port is free and takes
  ready ones, the level below that answers the requests in flight while the fill port is free, and the clock.  Any
  such run goes through without a fault, and what it leaves behind in the end.
\<close>

section \<open>The protocol\<close>

datatype cache_op =
    Request u64 request u32
  | Cycle "u32 \<Rightarrow> bool \<Rightarrow> bool"
  | Fill nat u32
  | Take

definition ctl_step :: "base_cache \<Rightarrow> cache_op \<Rightarrow> base_cache cxx" where
  "ctl_step c a = (case a of
     Request addr r t \<Rightarrow>
       if admissible c r t
       then bindE (data_cache_access (new_mf c r) addr (next_mf c) t) (\<lambda>(c', _, _). Inr c') else Inr c
   | Cycle port_full \<Rightarrow> bindE (cache_cycle port_full c) (\<lambda>(c', _). Inr c')
   | Fill mf t \<Rightarrow> if waiting_for_fill c mf \<and> fill_port_free c \<and> t \<noteq> -1 then cache_fill c mf t else Inr c
   | Take \<Rightarrow> if cache_access_ready c then bindE (cache_next_access c) (\<lambda>(c', _). Inr c') else Inr c)"

definition ctl_of :: "cache_config \<Rightarrow> base_cache \<Rightarrow> bool" where
  "ctl_of config c \<longleftrightarrow> ctl_ok c \<and> cfg c = config"

lemma ctl_step_total:
  assumes "ctl_of config c"
  shows "\<exists>c'. ctl_step c a = Inr c' \<and> ctl_of config c'"
proof -
  have ok: "ctl_ok c" and cf: "cfg c = config" using assms by (simp_all add: ctl_of_def)
  show ?thesis
  proof (cases a)
    case (Request addr r t)
    show ?thesis
    proof (cases "admissible c r t")
      case True
      let ?n = "new_mf c r"
      have core: "core_ok c" using ok by (simp add: ctl_ok_def)
      note q = core_new[OF core, of r]
      have n: "heap ?n (next_mf c) = r" "next_mf c < next_mf ?n" "m_extra_mf_fields ?n = m_extra_mf_fields c" "cfg ?n = cfg c"
        by (simp_all add: new_mf_def cfg_def)
      have "ctl_ok ?n" using ok q n(4) by (simp add: ctl_ok_def) (simp add: quiet_def)
      moreover have "admissible ?n (heap ?n (next_mf c)) t"
        using True q by (simp add: admissible_def n data_port_free_def quiet_def)
      moreover have "m_extra_mf_fields ?n (next_mf c) = None"
      proof (rule ccontr)
        assume "m_extra_mf_fields ?n (next_mf c) \<noteq> None"
        then obtain e where "m_extra_mf_fields c (next_mf c) = Some e" using n(3) by auto
        then have "next_mf c < next_mf c" using core by (auto simp: core_ok_def flights_ok_def)
        then show False by simp
      qed
      ultimately obtain c' s ev where "data_cache_access ?n addr (next_mf c) t = Inr (c', s, ev)" "ctl_ok c'" "cfg c' = cfg ?n"
        using data_access_total[of ?n "next_mf c" t addr] n(2) by blast
      then show ?thesis using Request True n(4) cf by (simp add: ctl_step_def ctl_of_def)
    qed (use Request assms in \<open>simp add: ctl_step_def\<close>)
  next
    case (Cycle port_full)
    then show ?thesis using cache_cycle_total[OF ok, of port_full] cf by (auto simp: ctl_step_def ctl_of_def)
  next
    case (Fill mf t)
    then show ?thesis using cache_fill_total[OF ok, of mf t] assms cf
      by (cases "waiting_for_fill c mf \<and> fill_port_free c \<and> t \<noteq> -1") (auto simp: ctl_step_def ctl_of_def)
  next
    case Take
    then show ?thesis using cache_next_total[OF ok] assms cf
      by (cases "cache_access_ready c") (auto simp: ctl_step_def ctl_of_def)
  qed
qed

interpretation ctl_machine: total_machine ctl_step "ctl_of config" for config
  by unfold_locales (metis Inr_inject ctl_step_total, metis okE_iff ctl_step_total)

section \<open>A new cache\<close>

text \<open>A configuration with a set for every address that fits in the machine integers.\<close>

definition sound_config :: "cache_config \<Rightarrow> comp_config \<Rightarrow> bool" where
  "sound_config config g \<longleftrightarrow> m_assoc config \<noteq> 0 \<and> m_nset config \<noteq> 0 \<and>
     4 * (unat (m_nset config) * unat (m_assoc config)) < 2 ^ 32 \<and> (\<forall>addr. okE (set_index config addr)) \<and>
     m_mshr_max_merge config \<noteq> 0 \<and> m_data_port_width config \<noteq> 0 \<and> 0 \<le>s m_line_sz config \<and>
     hpcl_comp_cache_segment_size g \<noteq> 0"

lemma new_array_ok:
  assumes n: "new_tag_array config g normal core type = Inr ta" and s: "sound_config config g"
    and p: "hpcl_cache_comp_en g = 0 \<or> core < 0 \<or> type \<noteq> normal"
  shows "array_ok ta \<and> m_config ta = config \<and> m_valid_config config"
proof -
  have v: "m_valid_config config" and g: "g_comp ta = g" and cf: "m_config ta = config"
    and l: "m_lines ta = replicate (unat (MAX_DEFAULT_CACHE_SIZE_MULTIBLIER * (m_nset config * m_assoc config))) new_block"
    using n p by (auto simp: new_tag_array_def get_num_lines_def Let_def is_l1_data_def cxx_simps split: if_split_asm)
  have pl: "plain_ok ta" by (rule new_tag_array_plain[OF n _ p]) (use s in \<open>simp add: sound_config_def\<close>)
  have "unat (m_nset config) * unat (m_assoc config) < 2 ^ 32" using s unfolding sound_config_def by linarith
  then have "unat (m_nset config * m_assoc config) = unat (m_nset config) * unat (m_assoc config)"
    by (simp add: unat_word_ariths)
  then have len: "length (m_lines ta) = 4 * (unat (m_nset config) * unat (m_assoc config))"
    using s by (simp add: l sound_config_def unat_word_ariths MAX_DEFAULT_CACHE_SIZE_MULTIBLIER_def)
  have as: "assoc_no ta = unat (m_assoc config)"
    using pl cf by (simp add: assoc_no_def plain_ok_def is_plain_uncompressed)
  have "sets_inside ta"
    unfolding sets_inside_def
  proof
    fix addr
    obtain si where si: "set_index config addr = Inr si" using s by (auto simp: sound_config_def okE_iff)
    then have "unat si + 1 \<le> unat (m_nset config)"
      using set_index_ok[of config addr si] s by (simp add: sound_config_def word_less_nat_alt)
    then have "(unat si + 1) * unat (m_assoc config) \<le> unat (m_nset config) * unat (m_assoc config)"
      by (rule mult_le_mono1)
    then show "\<exists>si. set_index (m_config ta) addr = Inr si \<and> (unat si + 1) * assoc_no ta \<le> length (m_lines ta)"
      using si cf as len by auto
  qed
  moreover have "stamped ta" by (simp add: stamped_def l new_block_def)
  moreover have "\<forall>i < length (m_lines ta). lstat ta i \<noteq> RESERVED" by (simp add: l lstat_def new_block_def)
  ultimately show ?thesis using pl s v cf g by (simp add: array_ok_def sound_config_def)
qed

lemma new_data_cache_ok:
  assumes n: "new_data_cache config g normal core type wa wb = Inr c" and s: "sound_config config g"
    and p: "hpcl_cache_comp_en g = 0 \<or> core < 0 \<or> type \<noteq> normal"
  shows "ctl_of config c"
proof -
  obtain ta wh where ta: "new_tag_array config g normal core type = Inr ta"
    and c: "c_tags c = ta" "c_mshrs c = new_mshr_table (unat (m_mshr_entries config)) (unat (m_mshr_max_merge config))"
      "m_miss_queue c = []" "m_extra_mf_fields c = (\<lambda>_. None)" "c_stats c = new_cache_stats"
      "m_data_port_occupied_cycles c = 0" "m_fill_port_occupied_cycles c = 0"
    using n by (auto simp: new_data_cache_def new_baseline_cache_def cxx_simps)
  note a = new_array_ok[OF ta s p]
  let ?t = "new_mshr_table (unat (m_mshr_entries config)) (unat (m_mshr_max_merge config)) :: nat mshr_table"
  have "0 < unat (m_mshr_max_merge config)" using s by (simp add: sound_config_def unat_gt_0)
  then have "mshr_ok ?t" "pending_blocks ?t = {}" "no_atomic ?t" "m_current_response ?t = []"
    by (simp_all add: mshr_ok_def new_mshr_table_def pending_blocks_def no_atomic_def)
  then have "core_ok c" using a c by (simp add: core_ok_def flights_ok_def cfg_def)
  then show ?thesis using a c s new_stats_ok by (simp add: ctl_of_def ctl_ok_def cfg_def sound_config_def)
qed

text \<open>Claim C18. From a new cache of a sound configuration that stores its lines uncompressed, no run of requests, clock
  cycles, fills and hand-outs can fail an assertion or leave the bounds of an array in the controller, the tags or
  the miss status holding registers.  At every moment the miss queue keeps to its size, at most one
  request per block is in flight to the level below, and a block has accesses waiting exactly as long as its
  request is in flight or its response is being handed out.\<close>
theorem cache_run_safe:
  assumes "new_data_cache config g normal core type wr_alloc wrbk = Inr c0" and "sound_config config g"
    and "hpcl_cache_comp_en g = 0 \<or> core < 0 \<or> type \<noteq> normal"
  shows "\<exists>c. foldE ctl_step c0 ops = Inr c \<and> length (m_miss_queue c) \<le> unat (m_miss_queue_size config) \<and>
    (\<forall>mf mf' e e'. m_extra_mf_fields c mf = Some e \<longrightarrow> m_extra_mf_fields c mf' = Some e' \<longrightarrow>
       xf_block_addr e = xf_block_addr e' \<longrightarrow> mf = mf') \<and>
    (\<forall>b. waiting (c_mshrs c) b \<noteq> [] \<longleftrightarrow>
       (\<exists>mf e. m_extra_mf_fields c mf = Some e \<and> xf_block_addr e = b) \<or> b \<in> set (m_current_response (c_mshrs c)))"
proof -
  obtain c where c: "foldE ctl_step c0 ops = Inr c" "ctl_of config c"
    using ctl_machine.run_total[OF new_data_cache_ok[OF assms], where ops = ops] by blast
  then have core: "core_ok c" "cfg c = config" by (simp_all add: ctl_of_def ctl_ok_def)
  then have f: "flights_ok (c_tags c) (c_mshrs c) (m_extra_mf_fields c) (next_mf c)" and m: "mshr_ok (c_mshrs c)"
    and q: "length (m_miss_queue c) \<le> unat (m_miss_queue_size config)" by (simp_all add: core_ok_def)
  have "waiting (c_mshrs c) b \<noteq> [] \<longleftrightarrow>
       (\<exists>mf e. m_extra_mf_fields c mf = Some e \<and> xf_block_addr e = b) \<or> b \<in> set (m_current_response (c_mshrs c))" for b
    using f unfolding waiting_pending[OF m] flights_ok_def by (auto simp: ran_def)
  moreover have "\<forall>mf mf' e e'. m_extra_mf_fields c mf = Some e \<longrightarrow> m_extra_mf_fields c mf' = Some e' \<longrightarrow>
       xf_block_addr e = xf_block_addr e' \<longrightarrow> mf = mf'" using f unfolding flights_ok_def by blast
  ultimately show ?thesis using c(1) q by blast
qed

text \<open>A write-back cache of one line.\<close>

definition one_line_config :: cache_config where
  "one_line_config = (new_cache_config L1D_Config)\<lparr>m_valid_config := True, m_nset := 1, m_line_sz := 128, m_assoc := 1,
     m_line_sz_log2 := 7, m_write_policy := WRITE_BACK, m_write_alloc_policy := WRITE_ALLOCATE, m_mshr_type := ASSOC,
     m_mshr_entries := 4, m_mshr_max_merge := 4, m_miss_queue_size := 4, m_data_port_width := 128\<rparr>"

definition plain_g :: comp_config where
  "plain_g = \<lparr>hpcl_cache_comp_en = 0, hpcl_comp_tag_size_multiplier = 2, hpcl_comp_cache_segment_size = 8\<rparr>"

definition load :: "u64 \<Rightarrow> request" where
  "load a = \<lparr>r_addr = a, r_data_size = 32, r_ctrl_size = 8, r_write = False, r_type = GLOBAL_ACC_R, r_atomic = False,
     r_comp_bits = -1\<rparr>"

lemma one_line_sound: "sound_config one_line_config plain_g"
proof -
  have "okE (set_index one_line_config addr)" for addr
    using set_index_in_range[of one_line_config addr] by (simp add: one_line_config_def new_cache_config_def)
  then show ?thesis by (simp add: sound_config_def one_line_config_def plain_g_def nonneg_iff new_cache_config_def)
qed

definition one_line_cache :: "base_cache cxx" where
  "one_line_cache = new_l1_cache one_line_config plain_g 0 0 0"

definition run_one_line :: "cache_op list \<Rightarrow> base_cache cxx" where
  "run_one_line ops = bindE one_line_cache (\<lambda>c. foldE ctl_step c ops)"

definition open_port :: cache_op where "open_port = Cycle (\<lambda>_ _. False)"

definition demo_run :: "cache_op list" where
  "demo_run = [Request 0x80 (load 0x80) 1, open_port, Request 0x84 (load 0x84) 2, Fill 0 5, Take, open_port, Take]"

lemma one_line_new: "\<exists>c0. one_line_cache = Inr c0"
proof -
  have "okE one_line_cache" by code_simp
  then show ?thesis by (simp add: okE_iff)
qed

lemma cache_run_safe_witness:
  "\<exists>c0 c. one_line_cache = Inr c0 \<and> foldE ctl_step c0 demo_run = Inr c \<and> length (m_miss_queue c) \<le> 4"
proof -
  obtain c0 where c0: "one_line_cache = Inr c0" using one_line_new by blast
  then have "new_data_cache one_line_config plain_g 0 0 0 L1_WR_ALLOC_R L1_WRBK_ACC = Inr c0"
    by (simp add: one_line_cache_def new_l1_cache_def)
  from cache_run_safe[OF this one_line_sound, of demo_run] show ?thesis
    using c0 by (auto simp: plain_g_def one_line_config_def)
qed

section \<open>Rejected accesses, at work\<close>

definition busy_run :: "cache_op list" where
  "busy_run = [Request 0x80 (load 0x80) 1]"

text \<open>The one line is reserved for block 0x80, so a load of another block is turned away.\<close>

definition second_load :: "(base_cache \<times> cache_request_status \<times> cache_event list) cxx" where
  "second_load = bindE (run_one_line busy_run)
     (\<lambda>c. data_cache_access (new_mf c (load 0x100)) 0x100 (next_mf c) 2)"

lemma second_load_rejected: "case second_load of Inl _ \<Rightarrow> False | Inr (c, s, ev) \<Rightarrow> s = RESERVATION_FAIL"
  by code_simp

lemma rejected_access_unchanged_witness:
  "\<exists>c c'. data_cache_access c 0x100 1 2 = Inr (c', RESERVATION_FAIL, []) \<and> c' = c\<lparr>c_stats := c_stats c'\<rparr>"
proof -
  have n: "case run_one_line busy_run of Inl _ \<Rightarrow> False | Inr c \<Rightarrow> next_mf c = 1" by code_simp
  obtain c c' ev where c: "run_one_line busy_run = Inr c"
    and e: "data_cache_access (new_mf c (load 0x100)) 0x100 (next_mf c) 2 = Inr (c', RESERVATION_FAIL, ev)"
    using second_load_rejected by (auto simp: second_load_def bindE_Inr_iff split: sum.splits)
  from rejected_access_unchanged[OF e] e c n show ?thesis by auto
qed

section \<open>A line that stays reserved\<close>

text \<open>
  Two loads of a block are merged and its response arrives; before the waiting loads are taken, a load of
  another block evicts the line, and its response arrives; then the first block is loaded again.
\<close>

definition leak_run :: "cache_op list" where
  "leak_run = [Request 0x80 (load 0x80) 1, Request 0x84 (load 0x84) 2, open_port, Fill 0 3, open_port,
     Request 0x100 (load 0x100) 4, open_port, Fill 2 5, open_port, Request 0x88 (load 0x88) 6,
     Take, Take, Take, Take, open_port]"

text \<open>The cache can lose a line for good: a miss that finds its block still waiting in the miss status holding
  registers is merged without a request to the level below, but the tag array has reserved a line for it.  In this
  run everything is answered and handed out (no access waits, nothing is in flight, nothing is queued), and
  yet the only line of the cache is still reserved for a response that will never come: a load of any other block
  is turned away.\<close>
theorem reserved_line_leaks:
  "case run_one_line leak_run of Inl _ \<Rightarrow> False
   | Inr c \<Rightarrow> m_data (c_mshrs c) = [] \<and> m_current_response (c_mshrs c) = [] \<and> m_miss_queue c = [] \<and>
       list_all (\<lambda>mf. m_extra_mf_fields c mf = None) [0..<next_mf c] \<and> m_status (m_lines (c_tags c) ! 0) = RESERVED \<and>
       (case data_cache_access (new_mf c (load 0x100)) 0x100 (next_mf c) 9 of
          Inl _ \<Rightarrow> False | Inr (_, s, _) \<Rightarrow> s = RESERVATION_FAIL)"
  by code_simp

end
