(* ===== verification/Tex_Run.thy ===== *)
theory Tex_Run
  imports Tex_Correct Cache_Run
begin

text \<open>
  The texture cache under its callers: the texture unit that sends accesses and takes results, the level below that
  answers the requests it got in any order, and the clock.
\<close>

section \<open>The protocol\<close>

datatype tex_op =
    Tex_Access nat u32
  | Tex_Cycle "u32 \<Rightarrow> bool \<Rightarrow> bool"
  | Tex_Fill nat u32
  | Tex_Take

text \<open>The cache, the requests the level below has not answered, and the history: accesses accepted and handed back.\<close>

record tex_sys =
  ts_cache :: tex_cache
  ts_out :: "nat list"
  ts_accepted :: "nat list"
  ts_taken :: "nat list"

definition tex_start :: "tex_cache \<Rightarrow> tex_sys" where
  "tex_start c = \<lparr>ts_cache = c, ts_out = [], ts_accepted = [], ts_taken = []\<rparr>"

definition tex_step :: "tex_sys \<Rightarrow> tex_op \<Rightarrow> tex_sys cxx" where
  "tex_step s a = (case a of
     Tex_Access mf t \<Rightarrow>
       if tex_admissible (ts_cache s) mf t
       then bindE (tex_access (ts_cache s) (r_addr (x_heap (ts_cache s) mf)) mf t) (\<lambda>(c, st, _).
         Inr (s\<lparr>ts_cache := c, ts_accepted := ts_accepted s @ (if st = RESERVATION_FAIL then [] else [mf])\<rparr>))
       else Inr s
   | Tex_Cycle port_full \<Rightarrow> bindE (tex_cycle port_full (ts_cache s)) (\<lambda>(c, sent).
       Inr (s\<lparr>ts_cache := c, ts_out := ts_out s @ (case sent of None \<Rightarrow> [] | Some mf \<Rightarrow> [mf])\<rparr>))
   | Tex_Fill mf t \<Rightarrow>
       if mf \<in> set (ts_out s)
       then bindE (tex_fill (ts_cache s) mf t) (\<lambda>c. Inr (s\<lparr>ts_cache := c, ts_out := remove1 mf (ts_out s)\<rparr>))
       else Inr s
   | Tex_Take \<Rightarrow>
       if tex_access_ready (ts_cache s)
       then bindE (tex_next_access (ts_cache s)) (\<lambda>(c, mf). Inr (s\<lparr>ts_cache := c, ts_taken := ts_taken s @ [mf]\<rparr>))
       else Inr s)"

definition tex_sys_ok :: "tex_sys \<Rightarrow> bool" where
  "tex_sys_ok s \<longleftrightarrow> tex_ok (ts_cache s) (ts_out s) \<and> ts_accepted s = ts_taken s @ in_cache (ts_cache s)"

lemma tex_step_total:
  assumes "tex_sys_ok s"
  shows "\<exists>s'. tex_step s a = Inr s' \<and> tex_sys_ok s'"
proof -
  have ok: "tex_ok (ts_cache s) (ts_out s)" and h: "ts_accepted s = ts_taken s @ in_cache (ts_cache s)"
    using assms by (simp_all add: tex_sys_ok_def)
  show ?thesis
  proof (cases a)
    case (Tex_Access mf t)
    show ?thesis
    proof (cases "tex_admissible (ts_cache s) mf t")
      case True
      from tex_access_ok[OF ok True] show ?thesis using Tex_Access True h by (auto simp: tex_step_def tex_sys_ok_def)
    qed (use Tex_Access assms in \<open>simp add: tex_step_def\<close>)
  next
    case (Tex_Cycle port_full)
    from tex_cycle_ok[OF ok, of port_full] obtain c sent where "tex_cycle port_full (ts_cache s) = Inr (c, sent)"
      "tex_ok c (ts_out s @ (case sent of None \<Rightarrow> [] | Some mf \<Rightarrow> [mf]))" "in_cache c = in_cache (ts_cache s)" by blast
    then show ?thesis using Tex_Cycle h by (simp add: tex_step_def tex_sys_ok_def)
  next
    case (Tex_Fill mf t)
    show ?thesis
    proof (cases "mf \<in> set (ts_out s)")
      case True
      from tex_fill_ok[OF ok True, of t] show ?thesis using Tex_Fill True h by (auto simp: tex_step_def tex_sys_ok_def)
    qed (use Tex_Fill assms in \<open>simp add: tex_step_def\<close>)
  next
    case Tex_Take
    show ?thesis
    proof (cases "tex_access_ready (ts_cache s)")
      case True
      then obtain mf rs where "results (ts_cache s) = mf # rs"
        by (cases "results (ts_cache s)") (auto simp: tex_access_ready_def ring_empty_list results_def)
      from tex_next_ok[OF ok this] show ?thesis using Tex_Take True h by (auto simp: tex_step_def tex_sys_ok_def)
    qed (use Tex_Take assms in \<open>simp add: tex_step_def\<close>)
  qed
qed

interpretation tex_machine: total_machine tex_step tex_sys_ok
  by unfold_locales (metis Inr_inject tex_step_total, metis okE_iff tex_step_total)

section \<open>A new cache\<close>

definition tex_config :: "cache_config \<Rightarrow> comp_config \<Rightarrow> bool" where
  "tex_config config g \<longleftrightarrow> sound_config config g \<and> m_mshr_entries config \<noteq> 0 \<and> m_miss_queue_size config \<noteq> 0 \<and>
     m_result_fifo_entries config \<noteq> 0"

lemma new_tex_cache_ok:
  assumes n: "new_tex_cache config g normal core type h = Inr c" and tc: "tex_config config g"
    and p: "hpcl_cache_comp_en g = 0 \<or> core < 0 \<or> type \<noteq> normal"
  shows "tex_sys_ok (tex_start c)"
proof -
  have s: "sound_config config g" using tc by (simp add: tex_config_def)
  obtain ta where ta: "new_tag_array config g normal core type = Inr ta" and v: "m_valid_config config"
    and al: "m_alloc_policy config = ON_MISS"
    and c: "x_tags c = ta" "m_fragment_fifo c = new_ring no_fragment (unat (m_mshr_entries config))"
      "m_request_fifo c = new_ring 0 (unat (m_mshr_max_merge config))" "m_rob c = new_ring no_rob_entry (unat (m_miss_queue_size config))"
      "m_cache c = replicate (unat (m_nset config * m_assoc config)) no_data_block"
      "m_result_fifo c = new_ring 0 (unat (m_result_fifo_entries config))" "x_stats c = new_cache_stats"
    using n by (auto simp: new_tex_cache_def cxx_simps get_num_lines_def)
  have a: "array_ok ta" "m_config ta = config" using new_array_ok[OF ta s p] by simp_all
  have l: "m_lines ta = replicate (unat (MAX_DEFAULT_CACHE_SIZE_MULTIBLIER * (m_nset config * m_assoc config))) new_block"
    using ta p by (auto simp: new_tag_array_def get_num_lines_def Let_def is_l1_data_def cxx_simps split: if_split_asm)
  have st: "lstat ta i = INVALID" if "i < length (m_lines ta)" for i using that by (simp add: l lstat_def new_block_def)
  have as: "assoc_no ta = unat (m_assoc config)"
    using a by (simp add: assoc_no_def array_ok_def plain_ok_def is_plain_uncompressed)
  have "unat (m_nset config) * unat (m_assoc config) < 2 ^ 32" using s unfolding sound_config_def by linarith
  then have len: "length (m_cache c) = unat (m_nset config) * unat (m_assoc config)" by (simp add: c unat_word_ariths)
  have home: "j < length (m_cache c)" if mem: "j \<in> home ta addr" for j addr
  proof -
    obtain si where si: "set_index config addr = Inr si" "j \<in> set (set_lines ta si)"
      using mem unfolding home_def a(2) by (cases "set_index config addr") simp_all
    then have "unat si + 1 \<le> unat (m_nset config)"
      using set_index_ok[of config addr si] s by (simp add: sound_config_def word_less_nat_alt)
    then have "(unat si + 1) * assoc_no ta \<le> length (m_cache c)" unfolding len as by (rule mult_le_mono1)
    from set_lines_bound[OF this si(2)] show ?thesis .
  qed
  have r: "ring_ok (m_fragment_fifo c)" "ring_ok (m_request_fifo c)" "ring_ok (m_rob c)" "ring_ok (m_result_fifo c)"
      "fragments c = []" "results c = []" "ring_list (m_rob c) = []" "ring_list (m_request_fifo c) = []"
    using tc unfolding c fragments_def results_def tex_config_def sound_config_def by (simp_all add: new_ring_ok unat_gt_0)
  have "tags_ok ta (length (m_cache c))" using a al v st home by (simp add: tags_ok_def)
  moreover have "slots_ok (x_extra c) (m_rob c)" using length_ring_list[of "m_rob c"] r(7) by (simp add: slots_ok_def)
  ultimately have "tex_ok c []"
    using r st new_stats_ok by (simp add: tex_ok_def rings_ok_def c(1,7) in_cache_def coherent_def matched_def awaited_def)
  then show ?thesis by (simp add: tex_sys_ok_def tex_start_def in_cache_def r)
qed

text \<open>Claim C19. The texture cache serves its accesses in the order in which it accepted them, whatever hits and misses they
  are and in whatever order the level below answers: from a new cache of a sound configuration no run can fail an
  assertion or leave an array.  The assertions include the two that compare the data line of the access
  that is served, hit or miss, with the block it asked for.  At every moment the accesses accepted are those handed
  back, then the results, then the fragments, oldest first.\<close>
theorem tex_run_in_order:
  assumes "new_tex_cache config g normal core type h = Inr c0" and "tex_config config g"
    and "hpcl_cache_comp_en g = 0 \<or> core < 0 \<or> type \<noteq> normal"
  shows "\<exists>s. foldE tex_step (tex_start c0) ops = Inr s \<and>
    ts_accepted s = ts_taken s @ ring_list (m_result_fifo (ts_cache s)) @ map fe_request (ring_list (m_fragment_fifo (ts_cache s)))"
proof -
  obtain s where "foldE tex_step (tex_start c0) ops = Inr s" "tex_sys_ok s"
    using tex_machine.run_total[OF new_tex_cache_ok[OF assms], where ops = ops] by blast
  then show ?thesis by (auto simp: tex_sys_ok_def in_cache_def results_def fragments_def)
qed

text \<open>Claim C20. The texture cache does not get stuck: in every reachable state, once the level below has answered
  every request it was sent and the request queue is empty, a cycle hands over the oldest fragment, as long as there is
  one and the result queue has room.\<close>
theorem tex_never_stuck:
  assumes "new_tex_cache config g normal core type h = Inr c0" and "tex_config config g"
    and "hpcl_cache_comp_en g = 0 \<or> core < 0 \<or> type \<noteq> normal"
    and "foldE tex_step (tex_start c0) ops = Inr s" and "ts_out s = []" and "ring_empty (m_request_fifo (ts_cache s))"
    and "\<not> ring_empty (m_fragment_fifo (ts_cache s))" and "\<not> ring_full (m_result_fifo (ts_cache s))"
  shows "\<exists>s'. tex_step s (Tex_Cycle port_full) = Inr s' \<and> ring_list (m_result_fifo (ts_cache s')) =
    ring_list (m_result_fifo (ts_cache s)) @ [fe_request (hd (ring_list (m_fragment_fifo (ts_cache s))))]"
proof -
  obtain s1 where "foldE tex_step (tex_start c0) ops = Inr s1" "tex_sys_ok s1"
    using tex_machine.run_total[OF new_tex_cache_ok[OF assms(1-3)], where ops = ops] by blast
  then have "tex_ok (ts_cache s) (ts_out s)" using assms(4) by (simp add: tex_sys_ok_def)
  from tex_cycle_ok[OF this, of port_full] obtain c sent where "tex_cycle port_full (ts_cache s) = Inr (c, sent)"
    "results c = results (ts_cache s) @ [fe_request (hd (fragments (ts_cache s)))]"
    using assms(5-8) by (auto simp: ring_empty_list fragments_def)
  then show ?thesis by (simp add: tex_step_def results_def fragments_def)
qed

section \<open>At work\<close>

text \<open>One line, four places in each queue; the level below answers out of order.\<close>

definition one_line_tex :: cache_config where
  "one_line_tex = one_line_config\<lparr>m_mshr_type := TEX_FIFO, m_write_policy := READ_ONLY, m_alloc_policy := ON_MISS,
     m_result_fifo_entries := 4\<rparr>"

definition demo_heap :: "nat \<Rightarrow> request" where "demo_heap mf = load (if mf = 2 then 0x100 else 0x80)"

definition demo_tex :: "tex_cache cxx" where "demo_tex = new_tex_cache one_line_tex plain_g 0 0 1 demo_heap"

definition demo_tex_run :: "tex_op list" where
  "demo_tex_run = (let go = Tex_Cycle (\<lambda>_ _. False) in
     [Tex_Access 1 1, Tex_Access 2 2, Tex_Access 3 3, go, go, go, Tex_Fill 3 4, Tex_Fill 2 5, Tex_Fill 1 6, go])"

lemma one_line_tex_ok: "tex_config one_line_tex plain_g"
proof -
  have "okE (set_index one_line_tex addr)" for addr
    using set_index_in_range[of one_line_tex addr] by (simp add: one_line_tex_def one_line_config_def new_cache_config_def)
  then show ?thesis
    by (simp add: tex_config_def sound_config_def one_line_tex_def one_line_config_def plain_g_def nonneg_iff new_cache_config_def)
qed

lemma demo_tex_new: "\<exists>c0. demo_tex = Inr c0"
proof -
  have "okE demo_tex" by code_simp
  then show ?thesis by (simp add: okE_iff)
qed

lemma demo_tex_state: "case bindE demo_tex (\<lambda>c. foldE tex_step (tex_start c) demo_tex_run) of Inl _ \<Rightarrow> False
    | Inr s \<Rightarrow> ts_out s = [] \<and> ring_empty (m_request_fifo (ts_cache s)) \<and> \<not> ring_empty (m_fragment_fifo (ts_cache s)) \<and>
        \<not> ring_full (m_result_fifo (ts_cache s)) \<and> ts_accepted s = [1, 2, 3] \<and> ring_list (m_result_fifo (ts_cache s)) = [1]"
  by code_simp

lemma tex_run_in_order_witness:
  "\<exists>c0 s. demo_tex = Inr c0 \<and> foldE tex_step (tex_start c0) demo_tex_run = Inr s \<and> ts_accepted s =
     ts_taken s @ ring_list (m_result_fifo (ts_cache s)) @ map fe_request (ring_list (m_fragment_fifo (ts_cache s)))"
proof -
  obtain c0 where c0: "demo_tex = Inr c0" using demo_tex_new by blast
  from tex_run_in_order[OF c0[unfolded demo_tex_def] one_line_tex_ok, of demo_tex_run] show ?thesis
    using c0 by (auto simp: plain_g_def)
qed

lemma tex_never_stuck_witness:
  "\<exists>c0 s s'. demo_tex = Inr c0 \<and> foldE tex_step (tex_start c0) demo_tex_run = Inr s \<and> tex_step s (Tex_Cycle (\<lambda>_ _. False)) = Inr s' \<and>
     ring_list (m_result_fifo (ts_cache s')) =
       ring_list (m_result_fifo (ts_cache s)) @ [fe_request (hd (ring_list (m_fragment_fifo (ts_cache s))))]"
proof -
  obtain c0 where c0: "demo_tex = Inr c0" using demo_tex_new by blast
  note st = demo_tex_state[unfolded c0 bindE_simps]
  obtain s where s: "foldE tex_step (tex_start c0) demo_tex_run = Inr s"
    using st by (cases "foldE tex_step (tex_start c0) demo_tex_run") auto
  then have t: "ts_out s = []" "ring_empty (m_request_fifo (ts_cache s))" "\<not> ring_empty (m_fragment_fifo (ts_cache s))"
    "\<not> ring_full (m_result_fifo (ts_cache s))" using st by simp_all
  show ?thesis
    using tex_never_stuck[OF c0[unfolded demo_tex_def] one_line_tex_ok _ s t, of "\<lambda>_ _. False"] c0 s by (auto simp: plain_g_def)
qed

end
