(* ===== verification/Sorted_Map.thy ===== *)
theory Sorted_Map
  imports Main
begin

text \<open>\<open>std::map\<close> as an association list in the order of its keys: lookup, assignment, and what they keep.\<close>

definition sorted_keys :: "('k::linorder \<times> 'v) list \<Rightarrow> bool" where
  "sorted_keys m \<longleftrightarrow> sorted_wrt (<) (map fst m)"

text \<open>\<open>m[k]\<close> on a key that is not there holds a new value.\<close>

fun smap_get :: "('k::linorder \<times> 'v) list \<Rightarrow> 'k \<Rightarrow> 'v \<Rightarrow> 'v" where
  "smap_get [] k d = d"
| "smap_get ((j, v) # m) k d = (if j = k then v else smap_get m k d)"

fun smap_put :: "'k::linorder \<Rightarrow> 'v \<Rightarrow> ('k \<times> 'v) list \<Rightarrow> ('k \<times> 'v) list" where
  "smap_put k v [] = [(k, v)]"
| "smap_put k v ((j, w) # m) =
     (if k < j then (k, v) # (j, w) # m else if k = j then (k, v) # m else (j, w) # smap_put k v m)"

lemma smap_put_keys: "fst ` set (smap_put k v m) = insert k (fst ` set m)"
  by (induction k v m rule: smap_put.induct) auto

lemma smap_put_sorted: "sorted_keys m \<Longrightarrow> sorted_keys (smap_put k v m)"
proof (induction k v m rule: smap_put.induct)
  case (2 k v j w m)
  have "set (map fst (smap_put k v m)) = insert k (set (map fst m))" using smap_put_keys[of k v m] by simp
  then show ?case using 2 by (auto simp: sorted_keys_def dest: less_trans)
qed (simp add: sorted_keys_def)

lemma smap_put_set:
  "sorted_keys m \<Longrightarrow> set (smap_put k v m) = insert (k, v) {p \<in> set m. fst p \<noteq> k}"
  by (induction k v m rule: smap_put.induct) (auto simp: sorted_keys_def)

lemma smap_get_in: "sorted_keys m \<Longrightarrow> (k, v) \<in> set m \<Longrightarrow> smap_get m k d = v"
  by (induction m k d rule: smap_get.induct) (auto simp: sorted_keys_def)

lemma smap_get_out: "k \<notin> fst ` set m \<Longrightarrow> smap_get m k d = d"
  by (induction m k d rule: smap_get.induct) auto

lemma smap_get_mem: "k \<in> fst ` set m \<Longrightarrow> (k, smap_get m k d) \<in> set m"
  by (induction m k d rule: smap_get.induct) auto

lemma sorted_keys_distinct: "sorted_keys m \<Longrightarrow> distinct (map fst m)"
  unfolding sorted_keys_def using strict_sorted_iff by blast


lemma smap_put_sum:
  assumes "sorted_keys m" and "f d = (0::nat)"
  shows "(\<Sum>p\<leftarrow>smap_put k v m. f (snd p)) + f (smap_get m k d) = (\<Sum>p\<leftarrow>m. f (snd p)) + f v"
  using assms(1)
proof (induction k v m rule: smap_put.induct)
  case (2 k v j w m)
  have "smap_get m k d = d" if "k < j" using that 2(2) by (intro smap_get_out) (auto simp: sorted_keys_def)
  then show ?case using 2 assms(2) by (auto simp: sorted_keys_def)
qed (simp add: assms(2))

end
