(* ===== verification/Coalescing.thy ===== *)
theory Coalescing
  imports Mem_Access Sorted_Map Instructions
begin

unbundle bit_operations_syntax

text \<open>
  The memory accesses of a warp (\<open>warp_inst_t::generate_mem_accesses\<close> and the coalescing rules of
  abstract_hardware_model.cc): the accesses of the threads of a subwarp to one segment become a transaction, which
  shrinks to the half or quarter of the segment that is used; shared memory turns bank conflicts into cycles;
  texture and constant accesses are grouped by cache line.  A \<open>bitset\<close> is the set of its positions, a \<open>std::map\<close> a list
  in key order.  The line statistics of PTX are left out.
\<close>

section \<open>The instruction\<close>

record core_config =
  warp_size :: nat
  mem_warp_parts :: nat
  num_shmem_bank :: u32
  shmem_limited_broadcast :: bool
  gpgpu_coalesce_arch :: int
  gpgpu_cache_texl1_linesize :: u32
  gpgpu_cache_constl1_linesize :: u32

definition MAX_WARP_SIZE :: nat where "MAX_WARP_SIZE = 32"
definition MAX_ACCESSES_PER_INSN_PER_THREAD :: nat where "MAX_ACCESSES_PER_INSN_PER_THREAD = 8"
definition MAX_MEMORY_ACCESS_SIZE :: nat where "MAX_MEMORY_ACCESS_SIZE = 128"

record warp_inst =
  w_inst :: inst
  w_data_size :: nat
  w_empty :: bool
  w_isatomic :: bool
  w_active_mask :: "nat set"
  w_thread_valid :: bool
  w_memreqaddr :: "u64 list list"
  w_accessq :: "mem_access list"
  w_accesses_created :: bool
  w_cycles :: u32

definition space_of :: "warp_inst \<Rightarrow> memory_space" where "space_of w = i_space (w_inst w)"

definition clear_active :: "warp_inst \<Rightarrow> nat set \<Rightarrow> warp_inst cxx" where
  "clear_active w inactive = assertE (w_active_mask w \<inter> inactive = inactive)
     (Inr (w\<lparr>w_active_mask := w_active_mask w - inactive\<rparr>))"

definition set_not_active :: "warp_inst \<Rightarrow> nat \<Rightarrow> warp_inst cxx" where
  "set_not_active w lane_id = (if lane_id < MAX_WARP_SIZE then Inr (w\<lparr>w_active_mask := w_active_mask w - {lane_id}\<rparr>)
     else Inl Out_Of_Range)"

text \<open>The addresses of a thread: a vector of \<open>warp_size\<close> arrays once one was set.\<close>

definition size_threads :: "core_config \<Rightarrow> warp_inst \<Rightarrow> warp_inst" where
  "size_threads cf w = (if w_thread_valid w then w
     else w\<lparr>w_memreqaddr := take (warp_size cf) (w_memreqaddr w) @
              replicate (warp_size cf - length (w_memreqaddr w)) (replicate MAX_ACCESSES_PER_INSN_PER_THREAD 0),
            w_thread_valid := True\<rparr>)"

definition set_addrs :: "core_config \<Rightarrow> warp_inst \<Rightarrow> nat \<Rightarrow> u64 list \<Rightarrow> warp_inst cxx" where
  "set_addrs cf w n addr =
     (let w1 = size_threads cf w
      in assertE (length addr \<le> MAX_ACCESSES_PER_INSN_PER_THREAD)
           (if n < length (w_memreqaddr w1)
            then Inr (w1\<lparr>w_memreqaddr := (w_memreqaddr w1)[n := addr @ drop (length addr) (w_memreqaddr w1 ! n)]\<rparr>)
            else Inl Out_Of_Range))"

definition accessq_empty :: "warp_inst \<Rightarrow> bool" where "accessq_empty w \<longleftrightarrow> w_accessq w = []"
definition accessq_count :: "warp_inst \<Rightarrow> nat" where "accessq_count w = length (w_accessq w)"

definition accessq_back :: "warp_inst \<Rightarrow> mem_access cxx" where
  "accessq_back w = (if w_accessq w = [] then Inl Undefined_Behaviour else Inr (last (w_accessq w)))"

definition accessq_pop_back :: "warp_inst \<Rightarrow> warp_inst cxx" where
  "accessq_pop_back w = (if w_accessq w = [] then Inl Undefined_Behaviour else Inr (w\<lparr>w_accessq := butlast (w_accessq w)\<rparr>))"

definition dispatch_delay :: "warp_inst \<Rightarrow> warp_inst \<times> bool" where
  "dispatch_delay w = (let w1 = (if 0 < w_cycles w then w\<lparr>w_cycles := w_cycles w - 1\<rparr> else w) in (w1, 0 < w_cycles w1))"

text \<open>\<open>m_per_scalar_thread[thread].memreqaddr[access]\<close>\<close>

definition thread_addr :: "warp_inst \<Rightarrow> nat \<Rightarrow> nat \<Rightarrow> u64 cxx" where
  "thread_addr w thread n =
     (if thread < length (w_memreqaddr w) \<and> n < length (w_memreqaddr w ! thread)
      then Inr (w_memreqaddr w ! thread ! n) else Inl Out_Of_Range)"

text \<open>The result is an \<open>address_type\<close> of 32 bits.\<close>

definition line_size_based_tag_func :: "u64 \<Rightarrow> u64 \<Rightarrow> u32" where
  "line_size_based_tag_func address line_size = ucast (address AND NOT (line_size - 1))"

section \<open>Transactions\<close>

record transaction_info =
  ti_chunks :: "nat set"
  ti_bytes :: "nat set"
  ti_active :: "nat set"
  thread_id_access_addr :: "(nat \<times> u64) list"

definition new_transaction :: transaction_info where
  "new_transaction = \<lparr>ti_chunks = {}, ti_bytes = {}, ti_active = {}, thread_id_access_addr = []\<rparr>"

definition test_bytes :: "transaction_info \<Rightarrow> nat \<Rightarrow> nat \<Rightarrow> bool cxx" where
  "test_bytes info start_bit end_bit =
     foldE (\<lambda>found i. if found then Inr True else if i < MAX_MEMORY_ACCESS_SIZE then Inr (i \<in> ti_bytes info) else Inl Out_Of_Range)
       False [start_bit..<Suc end_bit]"

definition segment_size :: "nat \<Rightarrow> u32" where
  "segment_size data_size = (if data_size = 1 then 32 else if data_size = 2 then 64
     else if data_size = 4 \<or> data_size = 8 \<or> data_size = 16 then 128 else 0)"

definition byte_in_line :: "u64 \<Rightarrow> nat" where "byte_in_line addr = unat (addr AND 127)"

text \<open>\<open>chunks.set\<close>, \<open>active.set\<close> and the bytes of an access.\<close>

definition touch_transaction :: "nat \<Rightarrow> u64 \<Rightarrow> nat \<Rightarrow> transaction_info \<Rightarrow> transaction_info cxx" where
  "touch_transaction thread addr len info =
     bindE (bitset_set 4 (byte_in_line addr div 32) (ti_chunks info)) (\<lambda>chunks.
     bindE (bitset_set MAX_WARP_SIZE thread (ti_active info)) (\<lambda>active.
     bindE (bitset_range MAX_MEMORY_ACCESS_SIZE (byte_in_line addr) len (ti_bytes info)) (\<lambda>bytes.
       Inr (info\<lparr>ti_chunks := chunks, ti_active := active, ti_bytes := bytes\<rparr>))))"

type_synonym transactions = "(u64 \<times> transaction_info) list"

definition coalesce_access :: "u32 \<Rightarrow> nat \<Rightarrow> transactions \<Rightarrow> nat \<times> u64 \<Rightarrow> transactions cxx" where
  "coalesce_access seg len m ta =
     (let thread = fst ta; addr = snd ta; block_address = line_size_based_tag_func addr (ucast seg);
          key = ucast block_address; info = smap_get m key new_transaction
      in assertE (block_address = line_size_based_tag_func (addr + of_nat len - 1) (ucast seg))
           (bindE (touch_transaction thread addr len
                     (info\<lparr>thread_id_access_addr := thread_id_access_addr info @ [(thread, addr)]\<rparr>)) (\<lambda>info'.
              Inr (smap_put key info' m))))"

text \<open>Local memory accesses of more than four bytes were split into chunks of four.\<close>

definition data_size_coales :: "warp_inst \<Rightarrow> nat" where
  "data_size_coales w = (if space_is_local (space_of w) \<and> 4 \<le> w_data_size w then 4 else w_data_size w)"

definition num_accesses :: "warp_inst \<Rightarrow> nat" where
  "num_accesses w = (if space_is_local (space_of w) \<and> 4 \<le> w_data_size w then w_data_size w div 4 else 1)"

definition coalesce_thread :: "warp_inst \<Rightarrow> u32 \<Rightarrow> transactions \<Rightarrow> nat \<Rightarrow> transactions cxx" where
  "coalesce_thread w seg m thread =
     (if thread \<notin> w_active_mask w then Inr m
      else assertE (num_accesses w \<le> MAX_ACCESSES_PER_INSN_PER_THREAD)
        (foldE (\<lambda>m n. bindE (thread_addr w thread n) (\<lambda>addr. coalesce_access seg (data_size_coales w) m (thread, addr)))
           m [0..<num_accesses w]))"

section \<open>Reducing a transaction\<close>

definition halves :: "nat set \<Rightarrow> nat \<Rightarrow> nat \<Rightarrow> bool \<times> bool" where
  "halves q i j = (i \<in> q, j \<in> q)"

text \<open>The address and the size after the first step, and the halves of a segment of 64 bytes that are used.\<close>

definition reduce_segment :: "nat set \<Rightarrow> u64 \<Rightarrow> u32 \<Rightarrow> (u64 \<times> u32 \<times> bool \<times> bool) cxx" where
  "reduce_segment q addr seg =
     (if seg = 128 then
        (let lower_half_used = (0 \<in> q \<or> 1 \<in> q); upper_half_used = (2 \<in> q \<or> 3 \<in> q)
         in if lower_half_used \<and> \<not> upper_half_used then Inr (addr, 64, halves q 0 1)
            else if \<not> lower_half_used \<and> upper_half_used then Inr (addr + 64, 64, halves q 2 3)
            else assertE (lower_half_used \<and> upper_half_used) (Inr (addr, 128, False, False)))
      else if seg = 64 then
        (if addr mod 128 = 0 then Inr (addr, 64, halves q 0 1)
         else assertE (addr mod 128 = 64) (Inr (addr, 64, halves q 2 3)))
      else Inr (addr, seg, False, False))"

definition reduce_half :: "u64 \<times> u32 \<times> bool \<times> bool \<Rightarrow> (u64 \<times> u32) cxx" where
  "reduce_half r = (case r of (addr, size', lower_half_used, upper_half_used) \<Rightarrow>
     if size' = 64 then
       (if lower_half_used \<and> \<not> upper_half_used then Inr (addr, 32)
        else if \<not> lower_half_used \<and> upper_half_used then Inr (addr + 32, 32)
        else assertE (lower_half_used \<and> upper_half_used) (Inr (addr, size')))
     else Inr (addr, size'))"

definition reduce_and_send ::
    "bool \<Rightarrow> mem_access_type \<Rightarrow> u32 \<Rightarrow> mem_access list \<Rightarrow> u64 \<times> transaction_info \<Rightarrow> mem_access list cxx" where
  "reduce_and_send is_write access_type seg accessq t =
     (let addr = fst t; info = snd t
      in assertE (addr AND ucast (seg - 1) = 0) (assertE (ti_chunks info \<noteq> {})
           (bindE (reduce_segment (ti_chunks info) addr seg) (\<lambda>r.
            bindE (reduce_half r) (\<lambda>(addr', size').
              Inr (accessq @ [new_mem_access access_type addr' size' is_write (ti_active info) (ti_bytes info)
                                (thread_id_access_addr info)]))))))"

section \<open>The coalescing rules\<close>

definition subwarp_threads :: "nat \<Rightarrow> nat \<Rightarrow> nat list" where
  "subwarp_threads subwarp_size subwarp = [subwarp * subwarp_size..<(subwarp + 1) * subwarp_size]"

definition coalesce_subwarp ::
    "warp_inst \<Rightarrow> bool \<Rightarrow> mem_access_type \<Rightarrow> nat \<Rightarrow> mem_access list \<Rightarrow> nat \<Rightarrow> mem_access list cxx" where
  "coalesce_subwarp w is_write access_type subwarp_size accessq subwarp =
     (let seg = segment_size (w_data_size w)
      in bindE (foldE (coalesce_thread w seg) [] (subwarp_threads subwarp_size subwarp)) (\<lambda>m.
           foldE (reduce_and_send is_write access_type seg) accessq m))"

definition memory_coalescing_arch_13 :: "core_config \<Rightarrow> warp_inst \<Rightarrow> bool \<Rightarrow> mem_access_type \<Rightarrow> warp_inst cxx" where
  "memory_coalescing_arch_13 cf w is_write access_type =
     (if mem_warp_parts cf = 0 then Inl Undefined_Behaviour
      else bindE (foldE (coalesce_subwarp w is_write access_type (warp_size cf div mem_warp_parts cf)) (w_accessq w)
              [0..<mem_warp_parts cf]) (\<lambda>q. Inr (w\<lparr>w_accessq := q\<rparr>)))"

text \<open>Atomic operations: the transactions of a segment are a list, and a thread joins the first one whose bytes it does
  not touch.\<close>

fun join_transaction :: "nat \<Rightarrow> u64 \<Rightarrow> nat \<Rightarrow> transaction_info list \<Rightarrow> transaction_info list cxx" where
  "join_transaction thread addr len [] = bindE (touch_transaction thread addr len new_transaction) (\<lambda>info. Inr [info])"
| "join_transaction thread addr len (info # infos) =
     bindE (test_bytes info (byte_in_line addr) (byte_in_line addr + len - 1)) (\<lambda>used.
       if used then bindE (join_transaction thread addr len infos) (\<lambda>infos'. Inr (info # infos'))
       else assertE (\<forall>i \<in> set [0..<len]. byte_in_line addr + i \<notin> ti_bytes info)
              (bindE (touch_transaction thread addr len info) (\<lambda>info'. Inr (info' # infos))))"

definition atomic_access ::
    "u32 \<Rightarrow> nat \<Rightarrow> (u64 \<times> transaction_info list) list \<Rightarrow> nat \<times> u64 \<Rightarrow> (u64 \<times> transaction_info list) list cxx" where
  "atomic_access seg len m ta =
     (let thread = fst ta; addr = snd ta; block_address = line_size_based_tag_func addr (ucast seg); key = ucast block_address
      in assertE (block_address = line_size_based_tag_func (addr + of_nat len - 1) (ucast seg))
           (bindE (join_transaction thread addr len (smap_get m key [])) (\<lambda>infos. Inr (smap_put key infos m))))"

definition atomic_thread ::
    "warp_inst \<Rightarrow> u32 \<Rightarrow> (u64 \<times> transaction_info list) list \<Rightarrow> nat \<Rightarrow> (u64 \<times> transaction_info list) list cxx" where
  "atomic_thread w seg m thread =
     (if thread \<notin> w_active_mask w then Inr m
      else bindE (thread_addr w thread 0) (\<lambda>addr. atomic_access seg (w_data_size w) m (thread, addr)))"

definition atomic_subwarp ::
    "warp_inst \<Rightarrow> bool \<Rightarrow> mem_access_type \<Rightarrow> nat \<Rightarrow> mem_access list \<Rightarrow> nat \<Rightarrow> mem_access list cxx" where
  "atomic_subwarp w is_write access_type subwarp_size accessq subwarp =
     (let seg = segment_size (w_data_size w)
      in bindE (foldE (atomic_thread w seg) [] (subwarp_threads subwarp_size subwarp)) (\<lambda>m.
           foldE (reduce_and_send is_write access_type seg) accessq
             (concat (map (\<lambda>(key, infos). map (Pair key) infos) m))))"

definition memory_coalescing_arch_13_atomic :: "core_config \<Rightarrow> warp_inst \<Rightarrow> bool \<Rightarrow> mem_access_type \<Rightarrow> warp_inst cxx" where
  "memory_coalescing_arch_13_atomic cf w is_write access_type =
     assertE (space_of w = global_space)
       (bindE (foldE (atomic_subwarp w is_write access_type (warp_size cf div 2)) (w_accessq w) [0..<2]) (\<lambda>q.
          Inr (w\<lparr>w_accessq := q\<rparr>)))"

section \<open>Shared memory\<close>

text \<open>\<open>shmem_bank_func\<close> takes an address of 32 bits.\<close>

definition shmem_bank_func :: "core_config \<Rightarrow> u64 \<Rightarrow> u32 cxx" where
  "shmem_bank_func cf addr = (if num_shmem_bank cf = 0 then Inl Undefined_Behaviour
     else Inr ((ucast addr :: u32) div 4 mod num_shmem_bank cf))"

type_synonym bank_accesses = "(u32 \<times> (u64 \<times> nat) list) list"

definition bank_access :: "core_config \<Rightarrow> warp_inst \<Rightarrow> bank_accesses \<Rightarrow> nat \<Rightarrow> bank_accesses cxx" where
  "bank_access cf w accs thread =
     (if thread \<notin> w_active_mask w then Inr accs
      else bindE (thread_addr w thread 0) (\<lambda>addr.
           bindE (shmem_bank_func cf addr) (\<lambda>bank.
             let word = ucast (line_size_based_tag_func addr 4); words = smap_get accs bank []
             in Inr (smap_put bank (smap_put word (smap_get words word 0 + 1) words) accs))))"

text \<open>The first word of the first bank that several threads read.\<close>

definition find_broadcast :: "bank_accesses \<Rightarrow> (u32 \<times> u64) option" where
  "find_broadcast accs = List.find (\<lambda>_. True)
     (concat (map (\<lambda>(bank, words). map (\<lambda>(word, n). (bank, word)) (filter (\<lambda>(word, n). 1 < n) words)) accs))"

definition sum_accesses :: "(u64 \<times> nat) list \<Rightarrow> nat" where "sum_accesses words = sum_list (map snd words)"

definition bank_cost :: "(u32 \<times> u64) option \<Rightarrow> u32 \<times> (u64 \<times> nat) list \<Rightarrow> nat cxx" where
  "bank_cost broadcast b =
     (let n = sum_accesses (snd b)
      in case broadcast of
           None \<Rightarrow> Inr n
         | Some (bank, word) \<Rightarrow>
             if bank \<noteq> fst b then Inr n
             else (case List.find (\<lambda>(v, k). v = word) (snd b) of
                     None \<Rightarrow> Inr n
                   | Some (_, k) \<Rightarrow> assertE (1 < k) (assertE (k - 1 \<le> n) (Inr (n - (k - 1))))))"

definition limited_broadcast_accesses :: "bank_accesses \<Rightarrow> nat cxx" where
  "limited_broadcast_accesses accs =
     foldE (\<lambda>max_bank_accesses b. bindE (bank_cost (find_broadcast accs) b) (\<lambda>n. Inr (max max_bank_accesses n))) 0 accs"

definition max_bank_words :: "bank_accesses \<Rightarrow> nat" where
  "max_bank_words accs = foldl (\<lambda>m b. max m (length (snd b))) 0 accs"

definition shared_subwarp :: "core_config \<Rightarrow> warp_inst \<Rightarrow> nat \<Rightarrow> nat \<Rightarrow> nat \<Rightarrow> nat cxx" where
  "shared_subwarp cf w subwarp_size total_accesses subwarp =
     bindE (foldE (bank_access cf w) [] (subwarp_threads subwarp_size subwarp)) (\<lambda>accs.
       if shmem_limited_broadcast cf then bindE (limited_broadcast_accesses accs) (\<lambda>n. Inr (total_accesses + n))
       else Inr (total_accesses + max_bank_words accs))"

definition shared_conflicts :: "core_config \<Rightarrow> warp_inst \<Rightarrow> warp_inst cxx" where
  "shared_conflicts cf w =
     (if mem_warp_parts cf = 0 then Inl Undefined_Behaviour
      else bindE (foldE (shared_subwarp cf w (warp_size cf div mem_warp_parts cf)) 0 [0..<mem_warp_parts cf]) (\<lambda>total_accesses.
        assertE (0 < total_accesses \<and> total_accesses \<le> warp_size cf) (Inr (w\<lparr>w_cycles := of_nat total_accesses\<rparr>))))"

section \<open>Texture and constant accesses\<close>

text \<open>The block addresses with their threads, and the bytes of a line that any thread touches.\<close>

definition line_access ::
    "u32 \<Rightarrow> warp_inst \<Rightarrow> (u64 \<times> nat set) list \<times> nat set \<Rightarrow> nat \<Rightarrow> ((u64 \<times> nat set) list \<times> nat set) cxx" where
  "line_access cache_block_size w s thread =
     (if thread \<notin> w_active_mask w then Inr s
      else bindE (thread_addr w thread 0) (\<lambda>addr.
        let block_address = line_size_based_tag_func addr (ucast cache_block_size); key = ucast block_address;
            idx = unat (ucast (addr - ucast block_address) :: u32)
        in bindE (bitset_set MAX_WARP_SIZE thread (smap_get (fst s) key {})) (\<lambda>mask.
           bindE (bitset_range MAX_MEMORY_ACCESS_SIZE idx (w_data_size w) (snd s)) (\<lambda>bytes.
             Inr (smap_put key mask (fst s), bytes)))))"

definition line_accesses :: "core_config \<Rightarrow> u32 \<Rightarrow> bool \<Rightarrow> mem_access_type \<Rightarrow> warp_inst \<Rightarrow> warp_inst cxx" where
  "line_accesses cf cache_block_size is_write access_type w =
     (if cache_block_size = 0 then Inr w
      else assertE (w_accessq w = [])
        (bindE (foldE (line_access cache_block_size w) ([], {}) [0..<warp_size cf]) (\<lambda>(accesses, byte_mask).
           Inr (w\<lparr>w_accessq := w_accessq w @
             map (\<lambda>(a, mask). new_mem_access access_type a cache_block_size is_write mask byte_mask []) accesses\<rparr>))))"

section \<open>All of it\<close>

text \<open>Shared memory has no access type; the value is not used.\<close>

definition access_type_of :: "memory_space \<Rightarrow> bool \<Rightarrow> mem_access_type option" where
  "access_type_of sp is_write = (case sp of
     const_space \<Rightarrow> Some CONST_ACC_R | param_space_kernel \<Rightarrow> Some CONST_ACC_R
   | tex_space \<Rightarrow> Some TEXTURE_ACC_R
   | global_space \<Rightarrow> Some (if is_write then GLOBAL_ACC_W else GLOBAL_ACC_R)
   | local_space \<Rightarrow> Some (if is_write then LOCAL_ACC_W else LOCAL_ACC_R)
   | param_space_local \<Rightarrow> Some (if is_write then LOCAL_ACC_W else LOCAL_ACC_R)
   | shared_space \<Rightarrow> Some NUM_MEM_ACCESS_TYPE
   | _ \<Rightarrow> None)"

definition generate_mem_accesses :: "core_config \<Rightarrow> warp_inst \<Rightarrow> warp_inst cxx" where
  "generate_mem_accesses cf w =
     (if w_empty w \<or> i_op (w_inst w) = MEMORY_BARRIER_OP \<or> w_accesses_created w then Inr w
      else if \<not> (i_op (w_inst w) = LOAD_OP \<or> i_op (w_inst w) = STORE_OP) then Inr w
      else if w_active_mask w = {} then Inr w
      else assertE (is_load (w_inst w) \<or> is_store (w_inst w)) (assertE (w_thread_valid w)
        (let is_write = is_store (w_inst w)
         in case access_type_of (space_of w) is_write of
              None \<Rightarrow> Inl Assert_Failed
            | Some access_type \<Rightarrow>
                bindE (case space_of w of
                    shared_space \<Rightarrow> shared_conflicts cf w
                  | tex_space \<Rightarrow> line_accesses cf (gpgpu_cache_texl1_linesize cf) is_write access_type w
                  | const_space \<Rightarrow> line_accesses cf (gpgpu_cache_constl1_linesize cf) is_write access_type w
                  | param_space_kernel \<Rightarrow> line_accesses cf (gpgpu_cache_constl1_linesize cf) is_write access_type w
                  | _ \<Rightarrow>
                     if gpgpu_coalesce_arch cf = 13
                     then if w_isatomic w then memory_coalescing_arch_13_atomic cf w is_write access_type
                          else memory_coalescing_arch_13 cf w is_write access_type
                     else Inl Abort_Called)
                  (\<lambda>w'. Inr (w'\<lparr>w_accesses_created := True\<rparr>)))))"

end
