(* ===== verification/Coalesce_Correct.thy ===== *)
theory Coalesce_Correct
  imports Coalescing "HOL-Library.Multiset"
begin

text \<open>
  What coalescing sends: the transaction of a segment is the accesses of the subwarp to it, the access sent is the
  smallest aligned piece of 32, 64 or 128 bytes that holds them, and every active thread is served by exactly one.
\<close>

unbundle bit_operations_syntax

section \<open>Addresses\<close>

lemma and_not_mask_shift: "(a :: 'a::len word) AND NOT (mask n) = push_bit n (drop_bit n a)"
  by (rule bit_eqI) (auto simp: bit_simps)

lemma tag_nat:
  assumes "n \<le> 32"
  shows "unat (line_size_based_tag_func a (2 ^ n)) = unat a mod 2 ^ 32 div 2 ^ n * 2 ^ n"
proof -
  have lt: "unat (ucast a :: u32) < 2 ^ 32" using unsigned_less[of "ucast a :: u32", where 'a = nat] by simp
  have "line_size_based_tag_func a (2 ^ n) = ucast (push_bit n (drop_bit n a))"
    by (simp add: line_size_based_tag_func_def and_not_mask_shift flip: mask_eq_exp_minus_1)
  also have "\<dots> = push_bit n (drop_bit n (ucast a :: u32))"
    by (rule bit_eqI) (auto simp: bit_simps)
  finally have "unat (line_size_based_tag_func a (2 ^ n)) = unat (push_bit n (drop_bit n (ucast a :: u32)))" by simp
  also have "\<dots> = take_bit 32 (unat (ucast a :: u32) div 2 ^ n * 2 ^ n)"
    by (simp only: unsigned_push_bit_eq unsigned_drop_bit_eq push_bit_eq_mult[where 'a = nat] drop_bit_eq_div[where 'a = nat])
      (simp add: take_bit_nat_eq_self[OF lt])
  also have "unat (ucast a :: u32) = unat a mod 2 ^ 32" by (simp add: unsigned_ucast_eq take_bit_eq_mod)
  also have "take_bit 32 (unat a mod 2 ^ 32 div 2 ^ n * 2 ^ n) = unat a mod 2 ^ 32 div 2 ^ n * 2 ^ n"
    by (rule take_bit_nat_eq_self) (rule le_less_trans[OF div_times_less_eq_dividend], simp)
  finally show ?thesis .
qed

lemma byte_in_line_mod: "byte_in_line a = unat a mod 128"
proof -
  have "(127 :: u64) = mask 7" by (simp add: mask_eq_exp_minus_1)
  then have "byte_in_line a = unat (take_bit 7 a)" by (simp only: byte_in_line_def take_bit_eq_mask)
  also have "\<dots> = take_bit 7 (unat a)" by (rule unsigned_take_bit_eq)
  finally show ?thesis by (simp add: take_bit_eq_mod)
qed

text \<open>An aligned access stays in its segment.\<close>

lemma aligned_same_tag:
  assumes "a AND mask j = 0" and "j \<le> n"
  shows "line_size_based_tag_func (a + mask j) (2 ^ n) = line_size_based_tag_func a (2 ^ n)"
proof -
  have "a + mask j = a OR mask j" using word_plus_and_or[of a "mask j"] assms(1) by simp
  then have "(a + mask j) AND NOT (mask n) = a AND NOT (mask n)"
    using assms(2) by (simp only:) (rule bit_eqI, auto simp: bit_simps)
  then show ?thesis by (simp add: line_size_based_tag_func_def flip: mask_eq_exp_minus_1)
qed

text \<open>The address in the 32 bits that the tags keep, and what an access has to satisfy to be coalesced.\<close>

definition low32 :: "u64 \<Rightarrow> nat" where "low32 a = unat a mod 2 ^ 32"

definition fits :: "u32 \<Rightarrow> nat \<Rightarrow> u64 \<Rightarrow> bool" where
  "fits seg len a \<longleftrightarrow> line_size_based_tag_func (a + of_nat len - 1) (ucast seg) = line_size_based_tag_func a (ucast seg) \<and>
     low32 a mod 32 + len \<le> 32"

lemma byte_low32: "byte_in_line a = low32 a mod 128"
proof -
  have "unat a mod 2 ^ 32 mod 2 ^ 7 = unat a mod 2 ^ 7" by (rule mod_mod_cancel) simp
  then show ?thesis by (simp add: byte_in_line_mod low32_def)
qed

lemma aligned_fits:
  assumes "len \<in> {1, 2, 4, 8, 16}" and "len dvd unat a" and "seg = 2 ^ n" and "len \<le> 2 ^ n" and "n \<in> {5, 6, 7}"
  shows "fits seg len a"
proof -
  obtain j where j: "len = 2 ^ j" "j \<le> 4"
  proof -
    have "len = 2 ^ 0 \<or> len = 2 ^ 1 \<or> len = 2 ^ 2 \<or> len = 2 ^ 3 \<or> len = 2 ^ 4" using assms(1) by auto
    then show ?thesis using that by fastforce
  qed
  have jn: "j \<le> n" using j(2) assms(5) by auto
  have "unat (take_bit j a) = unat a mod 2 ^ j" by (simp only: unsigned_take_bit_eq take_bit_eq_mod[where 'a = nat])
  then have "take_bit j a = 0" using assms(2) j(1) by (simp add: unat_eq_0 flip: dvd_eq_mod_eq_0)
  then have m: "a AND mask j = 0" by (simp add: take_bit_eq_mask)
  have "of_nat len - 1 = (mask j :: u64)" by (simp add: j(1) mask_eq_exp_minus_1)
  then have "a + of_nat len - 1 = a + mask j" by (metis add_diff_eq)
  moreover have "ucast seg = (2 ^ n :: u64)" using assms(3,5) by auto
  ultimately have "line_size_based_tag_func (a + of_nat len - 1) (ucast seg) = line_size_based_tag_func a (ucast seg)"
    using aligned_same_tag[OF m jn] by (simp only:)
  moreover have "low32 a mod 32 + len \<le> 32"
  proof -
    have "low32 a mod 32 = unat a mod 32"
      using mod_mod_cancel[of "2 ^ 5" "2 ^ 32" "unat a"] by (simp add: low32_def)
    moreover have "len dvd unat a mod 32" using assms(1,2) by (auto intro: dvd_mod)
    then obtain c where "unat a mod 32 = len * c" by blast
    moreover have "unat a mod 32 < 32" by simp
    ultimately show ?thesis using assms(1) by auto
  qed
  ultimately show ?thesis by (simp add: fits_def)
qed

section \<open>The transactions of a subwarp\<close>

definition key_of :: "u32 \<Rightarrow> nat \<times> u64 \<Rightarrow> u64" where
  "key_of seg ta = ucast (line_size_based_tag_func (snd ta) (ucast seg))"

definition info_of :: "nat \<Rightarrow> (nat \<times> u64) list \<Rightarrow> transaction_info" where
  "info_of len xs = \<lparr>ti_chunks = (\<lambda>ta. byte_in_line (snd ta) div 32) ` set xs,
     ti_bytes = (\<Union>ta \<in> set xs. {byte_in_line (snd ta)..<byte_in_line (snd ta) + len}),
     ti_active = fst ` set xs, thread_id_access_addr = xs\<rparr>"

definition grouped :: "u32 \<Rightarrow> nat \<Rightarrow> (nat \<times> u64) list \<Rightarrow> transactions \<Rightarrow> bool" where
  "grouped seg len L m \<longleftrightarrow> sorted_keys m \<and> fst ` set m = key_of seg ` set L \<and>
     (\<forall>p \<in> set m. snd p = info_of len (filter (\<lambda>ta. key_of seg ta = fst p) L))"

lemma touch_transaction_ok:
  assumes "low32 a mod 32 + len \<le> 32" and "t < 32"
  shows "touch_transaction t a len info = Inr (info\<lparr>ti_chunks := insert (byte_in_line a div 32) (ti_chunks info),
     ti_active := insert t (ti_active info), ti_bytes := ti_bytes info \<union> {byte_in_line a..<byte_in_line a + len}\<rparr>)"
proof -
  have "low32 a mod 128 mod 32 = low32 a mod 32" by (rule mod_mod_cancel) simp
  moreover have "low32 a mod 128 div 32 < 4" by (simp add: div_less_iff_less_mult)
  moreover have "low32 a mod 128 = 32 * (low32 a mod 128 div 32) + low32 a mod 128 mod 32" by simp
  ultimately have "byte_in_line a + len \<le> 128" "byte_in_line a div 32 < 4" using assms(1) unfolding byte_low32 by linarith+
  then show ?thesis using assms(2)
    by (simp add: touch_transaction_def bitset_range_ok bitset_set_def MAX_WARP_SIZE_def MAX_MEMORY_ACCESS_SIZE_def)
qed

lemma info_of_snoc:
  "info_of len (xs @ [(t, a)]) = (info_of len xs)\<lparr>ti_chunks := insert (byte_in_line a div 32) (ti_chunks (info_of len xs)),
     ti_active := insert t (ti_active (info_of len xs)),
     ti_bytes := ti_bytes (info_of len xs) \<union> {byte_in_line a..<byte_in_line a + len},
     thread_id_access_addr := xs @ [(t, a)]\<rparr>"
  by (auto simp: info_of_def)

lemma coalesce_access_ok:
  assumes g: "grouped seg len L m" and f: "fits seg len a" and t: "t < 32"
  shows "\<exists>m'. coalesce_access seg len m (t, a) = Inr m' \<and> grouped seg len (L @ [(t, a)]) m'"
proof -
  let ?k = "key_of seg (t, a)" and ?F = "\<lambda>k L. filter (\<lambda>ta. key_of seg ta = k) L"
  have s: "sorted_keys m" using g by (simp add: grouped_def)
  have old: "smap_get m ?k new_transaction = info_of len (?F ?k L)"
  proof (cases "?k \<in> fst ` set m")
    case True
    from smap_get_mem[OF this] show ?thesis using g unfolding grouped_def by force
  next
    case False
    then have "?k \<notin> key_of seg ` set L" using g by (simp add: grouped_def)
    then have "?F ?k L = []" unfolding filter_empty_conv by (metis image_eqI)
    then show ?thesis using smap_get_out[OF False] by (simp add: new_transaction_def info_of_def)
  qed
  let ?new = "info_of len (?F ?k (L @ [(t, a)]))"
  have r: "coalesce_access seg len m (t, a) = Inr (smap_put ?k ?new m)"
    using f t touch_transaction_ok[of a len t] old
    by (simp add: coalesce_access_def Let_def fits_def key_of_def info_of_snoc) (simp add: info_of_def)
  have "snd p = info_of len (?F (fst p) (L @ [(t, a)]))" if "p \<in> set (smap_put ?k ?new m)" for p
    using that g unfolding smap_put_set[OF s] grouped_def by auto
  then have "grouped seg len (L @ [(t, a)]) (smap_put ?k ?new m)"
    using g smap_put_sorted[OF s] smap_put_keys[of ?k ?new m] unfolding grouped_def by auto
  with r show ?thesis by blast
qed

text \<open>The accesses of a thread, in order.\<close>

definition thread_list :: "warp_inst \<Rightarrow> nat \<Rightarrow> (nat \<times> u64) list" where
  "thread_list w t = (if t \<in> w_active_mask w then map (\<lambda>n. (t, w_memreqaddr w ! t ! n)) [0..<num_accesses w] else [])"

definition warp_ok :: "warp_inst \<Rightarrow> bool" where
  "warp_ok w \<longleftrightarrow> num_accesses w \<le> MAX_ACCESSES_PER_INSN_PER_THREAD \<and>
     (\<forall>t \<in> w_active_mask w. t < MAX_WARP_SIZE \<and> t < length (w_memreqaddr w) \<and> num_accesses w \<le> length (w_memreqaddr w ! t) \<and>
        (\<forall>n < num_accesses w. fits (segment_size (w_data_size w)) (data_size_coales w) (w_memreqaddr w ! t ! n)))"

lemma coalesce_thread_ok:
  assumes ok: "warp_ok w" and g: "grouped (segment_size (w_data_size w)) (data_size_coales w) L m"
  shows "\<exists>m'. coalesce_thread w (segment_size (w_data_size w)) m t = Inr m' \<and>
    grouped (segment_size (w_data_size w)) (data_size_coales w) (L @ thread_list w t) m'"
proof (cases "t \<in> w_active_mask w")
  case True
  let ?f = "\<lambda>m n. bindE (thread_addr w t n) (\<lambda>addr. coalesce_access (segment_size (w_data_size w)) (data_size_coales w) m (t, addr))"
  have "\<exists>m'. foldE ?f m [0..<n] = Inr m' \<and> grouped (segment_size (w_data_size w)) (data_size_coales w)
      (L @ map (\<lambda>n. (t, w_memreqaddr w ! t ! n)) [0..<n]) m'" if "n \<le> num_accesses w" for n
    using that
  proof (induction n)
    case 0
    then show ?case using g by simp
  next
    case (Suc n)
    then obtain m' where m': "foldE ?f m [0..<n] = Inr m'" "grouped (segment_size (w_data_size w)) (data_size_coales w)
      (L @ map (\<lambda>n. (t, w_memreqaddr w ! t ! n)) [0..<n]) m'" by auto
    have x: "t < 32" "t < length (w_memreqaddr w)" "n < length (w_memreqaddr w ! t)"
      "fits (segment_size (w_data_size w)) (data_size_coales w) (w_memreqaddr w ! t ! n)"
      using ok True Suc.prems by (auto simp: warp_ok_def MAX_WARP_SIZE_def)
    from coalesce_access_ok[OF m'(2) x(4,1)] show ?case using m'(1) x(2,3)
      by (auto simp: foldE_append thread_addr_def)
  qed
  from this[of "num_accesses w"] True ok show ?thesis by (auto simp: coalesce_thread_def thread_list_def warp_ok_def)
qed (use g in \<open>simp add: coalesce_thread_def thread_list_def\<close>)

lemma coalesce_threads_ok:
  assumes ok: "warp_ok w" and "grouped (segment_size (w_data_size w)) (data_size_coales w) L m"
  shows "\<exists>m'. foldE (coalesce_thread w (segment_size (w_data_size w))) m ts = Inr m' \<and>
    grouped (segment_size (w_data_size w)) (data_size_coales w) (L @ concat (map (thread_list w) ts)) m'"
  using assms(2)
proof (induction ts arbitrary: L m)
  case (Cons t ts)
  obtain m' where "coalesce_thread w (segment_size (w_data_size w)) m t = Inr m'"
    "grouped (segment_size (w_data_size w)) (data_size_coales w) (L @ thread_list w t) m'"
    using coalesce_thread_ok[OF ok Cons.prems] by blast
  with Cons.IH[OF this(2)] show ?case by simp
qed simp

section \<open>The piece that is sent\<close>

text \<open>The piece of \<open>n\<close> bytes at \<open>x\<close> in the segment of \<open>s\<close> bytes at \<open>k\<close>, for the chunks \<open>q\<close> of the 128 bytes at \<open>b\<close>.\<close>

definition piece :: "nat set \<Rightarrow> nat \<Rightarrow> nat \<Rightarrow> nat \<Rightarrow> bool" where
  "piece q b x n \<longleftrightarrow> n \<in> {32, 64, 128} \<and> n dvd x \<and> (\<forall>c \<in> q. x \<le> b + 32 * c \<and> b + 32 * c + 32 \<le> x + n) \<and>
     (32 < n \<longrightarrow> (\<exists>c \<in> q. b + 32 * c < x + n div 2) \<and> (\<exists>c \<in> q. x + n div 2 \<le> b + 32 * c))"

lemma dvd_add_piece: "(n::nat) dvd k \<Longrightarrow> n dvd d \<Longrightarrow> n dvd k + d"
  by (rule dvd_add)

lemma unat_plus_small: "unat (k :: u64) < 2 ^ 32 \<Longrightarrow> unat (d :: u64) < 2 ^ 32 \<Longrightarrow> unat (k + d) = unat k + unat d"
  by (simp add: unat_word_ariths)

lemma reduce_half_ok:
  assumes x: "64 dvd unat x" "unat x < 2 ^ 32" and b: "b = unat x - 32 * i" "32 * i \<le> unat x"
    and q: "q \<subseteq> {i, i + 1}" "q \<noteq> {}"
  shows "\<exists>addr n. reduce_half (x, 64, halves q i (i + 1)) = Inr (addr, n) \<and> piece q b (unat addr) (unat n)"
proof -
  have d: "32 dvd unat x" by (rule dvd_trans[OF _ x(1)]) simp
  have u: "unat (x + 32) = unat x + 32" using x(2) by (simp add: unat_word_ariths)
  have e: "b + 32 * i = unat x" "b + 32 * (i + 1) = unat x + 32" using b by simp_all
  show ?thesis
  proof (cases "i \<in> q")
    case True
    show ?thesis
    proof (cases "i + 1 \<in> q")
      case False
      then have "q = {i}" using q True by auto
      then show ?thesis using False d e by (auto simp: reduce_half_def halves_def piece_def)
    next
      case both: True
      then have "q = {i, i + 1}" using q True by auto
      then show ?thesis using x(1) e by (simp add: reduce_half_def halves_def piece_def)
    qed
  next
    case False
    then have "q = {i + 1}" using q by auto
    then show ?thesis using d e u by (simp add: reduce_half_def halves_def piece_def dvd_add_piece)
  qed
qed

lemma reduce_ok:
  assumes s: "seg = 32 \<or> seg = 64 \<or> seg = 128" and k: "unat seg dvd unat k" "unat k < 2 ^ 32"
    and q: "q \<subseteq> {..<4}" "q \<noteq> {}"
      "\<forall>c \<in> q. unat k \<le> unat k div 128 * 128 + 32 * c \<and> unat k div 128 * 128 + 32 * c + 32 \<le> unat k + unat seg"
  shows "\<exists>addr n. bindE (reduce_segment q k seg) reduce_half = Inr (addr, n) \<and> piece q (unat k div 128 * 128) (unat addr) (unat n)"
  using s
proof (elim disjE)
  assume s: "seg = 32"
  then have "reduce_half (k, 32, False, False) = Inr (k, 32)" by (simp add: reduce_half_def)
  moreover have "piece q (unat k div 128 * 128) (unat k) 32" using k(1) q(3) s by (simp add: piece_def)
  ultimately show ?thesis using s by (auto simp: reduce_segment_def)
next
  assume s: "seg = 64"
  obtain c where c: "unat k = 64 * c" using k(1) s by auto
  have m: "unat (k mod 128) = unat k mod 128" by (simp add: unat_mod)
  show ?thesis
  proof (cases "even c")
    case True
    then obtain e where "c = 2 * e" by blast
    then have e: "unat k mod 128 = 0" "unat k div 128 * 128 = unat k - 32 * 0" using c by simp_all
    have z: "k mod 128 = 0" using m e(1) by (simp add: unat_eq_0 flip: unat_0_iff)
    have "q \<subseteq> {0, 0 + 1}" using q(1,3) s e(2) by force
    from reduce_half_ok[OF _ k(2) e(2) _ this q(2)] k(1) s show ?thesis by (simp add: reduce_segment_def z)
  next
    case False
    then obtain e where "c = 2 * e + 1" by (metis oddE)
    then have e: "unat k mod 128 = 64" "unat k div 128 * 128 = unat k - 32 * 2" "32 * 2 \<le> unat k" using c by simp_all
    have z: "k mod 128 = 64" using m e(1) by (simp add: word_unat_eq_iff)
    have "q \<subseteq> {2, 2 + 1}"
    proof
      fix x assume "x \<in> q"
      then have "x < 4" "unat k \<le> unat k - 64 + 32 * x" using q(1,3) e(2) by auto
      then show "x \<in> {2, 2 + 1}" using e(3) by auto
    qed
    from reduce_half_ok[OF _ k(2) e(2,3) this q(2)] k(1) s show ?thesis by (simp add: reduce_segment_def z)
  qed
next
  assume s: "seg = 128"
  then have b: "unat k div 128 * 128 = unat k" using k(1) by simp
  have d: "64 dvd unat k" by (rule dvd_trans[of _ 128]) (use k(1) s in simp_all)
  have u: "unat (k + 64) = unat k + 64" using k(2) by (simp add: unat_word_ariths)
  consider (Low) "q \<subseteq> {0, 0 + 1}" | (High) "q \<subseteq> {2, 2 + 1}" | (Both) "0 \<in> q \<or> 1 \<in> q" "2 \<in> q \<or> 3 \<in> q"
  proof -
    have "q \<subseteq> {0, 1, 2, 3}" using q(1) by force
    then show ?thesis using that by (cases "0 \<in> q \<or> 1 \<in> q"; cases "2 \<in> q \<or> 3 \<in> q") auto
  qed
  then show ?thesis
  proof cases
    case Low
    then have "0 \<in> q \<or> 1 \<in> q" "2 \<notin> q" "3 \<notin> q" using q(2) by auto
    then show ?thesis using reduce_half_ok[OF d k(2) _ _ Low q(2), of "unat k"] b s by (simp add: reduce_segment_def)
  next
    case High
    then have h: "0 \<notin> q" "1 \<notin> q" "2 \<in> q \<or> 3 \<in> q" using q(2) by auto
    have "unat k \<le> 2 ^ 32 - 128"
    proof -
      obtain c where "unat k = 128 * c" using b by (metis mult.commute)
      then show ?thesis using k(2) by simp
    qed
    then have "64 dvd unat (k + 64)" "unat (k + 64) < 2 ^ 32" using d u by (simp_all add: dvd_add_piece)
    from reduce_half_ok[OF this _ _ High q(2), of "unat k"] h b s u show ?thesis by (simp add: reduce_segment_def)
  next
    case Both
    have "\<exists>c \<in> q. c < 2" "\<exists>c \<in> q. 2 \<le> c" using Both by (auto intro: bexI[of _ 0] bexI[of _ 1] bexI[of _ 2] bexI[of _ 3])
    then have "\<exists>c \<in> q. 32 * c < 64" "\<exists>c \<in> q. 64 \<le> 32 * c" by auto
    then have "piece q (unat k) (unat k) 128" using q(1) k(1) s by (auto simp: piece_def)
    moreover have "bindE (reduce_segment q k seg) reduce_half = Inr (k, 128)"
      using Both s by (auto simp: reduce_segment_def reduce_half_def)
    ultimately show ?thesis using b by auto
  qed
qed

lemma chunk_address: "(A::nat) div 128 * 128 + 32 * (A mod 128 div 32) = A div 32 * 32"
proof -
  have "A mod (32 * 4) = 32 * (A div 32 mod 4) + A mod 32" by (rule mod_mult2_eq)
  then have "A mod 128 div 32 = A div 32 mod 4" by simp
  moreover have "A div 128 = A div 32 div 4" by (simp add: div_mult2_eq[of A 32 4, simplified])
  moreover have "A div 32 div 4 * 4 + A div 32 mod 4 = A div 32" by (rule div_mult_mod_eq)
  ultimately show ?thesis by linarith
qed

lemma chunk_in_segment:
  assumes "s = 32 \<or> s = 64 \<or> s = (128::nat)"
  shows "A div s * s \<le> A div 32 * 32" and "A div 32 * 32 + 32 \<le> A div s * s + s" and "A div s * s div 128 = A div 128"
proof -
  obtain t u where t: "s = 32 * t" "0 < t" "128 = s * u" "0 < u"
    using assms that[of 1 4] that[of 2 2] that[of 4 1] by auto
  have d: "A div s = A div 32 div t" by (simp add: t(1) div_mult2_eq)
  have "y div t * t \<le> y" "y < y div t * t + t" for y
    using dividend_less_div_times[OF t(2), of y] by (simp_all add: add.commute)
  note l = this[of "A div 32"]
  have "A div 32 div t * t * 32 \<le> A div 32 * 32" using l(1) by (rule mult_le_mono1)
  then show "A div s * s \<le> A div 32 * 32" unfolding d by (simp only: t(1) ac_simps)
  have "A div 32 + 1 \<le> A div 32 div t * t + t" using l(2) by simp
  then have "(A div 32 + 1) * 32 \<le> (A div 32 div t * t + t) * 32" by (rule mult_le_mono1)
  then show "A div 32 * 32 + 32 \<le> A div s * s + s" unfolding d by (simp only: t(1) ac_simps distrib_left distrib_right)
  have "A div s * s div (s * u) = A div s div u" using t(1,2) by (simp add: mult.commute)
  then show "A div s * s div 128 = A div 128" unfolding t(3) by (simp add: div_mult2_eq)
qed

lemma key_nat:
  assumes "seg = 32 \<or> seg = 64 \<or> seg = (128::u32)"
  shows "unat (key_of seg (t, a)) = low32 a div unat seg * unat seg"
proof -
  obtain n where n: "ucast seg = (2 ^ n :: u64)" "unat seg = 2 ^ n" "n \<le> 32"
    using assms by (elim disjE) (auto intro: that[of 5] that[of 6] that[of 7])
  have "unat (key_of seg (t, a)) = unat (line_size_based_tag_func a (2 ^ n))"
    by (simp add: key_of_def n(1) unsigned_ucast_eq take_bit_nat_eq_self unsigned_less[THEN order_less_trans])
  then show ?thesis using tag_nat[OF n(3), of a] n(2) by (simp add: low32_def)
qed

text \<open>What an access sent serves: the tags keep 32 bits of an address, so it is the address modulo \<open>2 ^ 32\<close>.\<close>

definition covered32 :: "nat \<Rightarrow> mem_access \<Rightarrow> nat \<times> u64 \<Rightarrow> bool" where
  "covered32 len x ta \<longleftrightarrow> unat (ma_addr x) \<le> low32 (snd ta) \<and> low32 (snd ta) + len \<le> unat (ma_addr x) + unat (ma_size x)"

text \<open>An aligned piece of 32, 64 or 128 bytes; of a larger one both halves are needed.\<close>

definition tight32 :: "mem_access \<Rightarrow> bool" where
  "tight32 x \<longleftrightarrow> unat (ma_size x) \<in> {32, 64, 128} \<and> unat (ma_size x) dvd unat (ma_addr x) \<and>
     (32 < unat (ma_size x) \<longrightarrow>
        (\<exists>ta \<in> set (ma_threadid_addr x). low32 (snd ta) < unat (ma_addr x) + unat (ma_size x) div 2) \<and>
        (\<exists>ta \<in> set (ma_threadid_addr x). unat (ma_addr x) + unat (ma_size x) div 2 \<le> low32 (snd ta)))"

definition well_sent32 :: "nat \<Rightarrow> mem_access \<Rightarrow> bool" where
  "well_sent32 len x \<longleftrightarrow> ma_warp_mask x = fst ` set (ma_threadid_addr x) \<and>
     ma_byte_mask x = ti_bytes (info_of len (ma_threadid_addr x)) \<and>
     (\<forall>ta \<in> set (ma_threadid_addr x). covered32 len x ta) \<and> tight32 x"

lemma piece_sent:
  assumes p: "piece ((\<lambda>ta. byte_in_line (snd ta) div 32) ` set xs) b (unat addr) (unat n)"
    and b: "\<forall>ta \<in> set xs. b + 32 * (byte_in_line (snd ta) div 32) = low32 (snd ta) div 32 * 32"
    and f: "\<forall>ta \<in> set xs. low32 (snd ta) mod 32 + len \<le> 32"
  shows "well_sent32 len (new_mem_access ty addr n wr (fst ` set xs) (ti_bytes (info_of len xs)) xs)"
proof -
  have A: "low32 (snd ta) = b + 32 * (byte_in_line (snd ta) div 32) + low32 (snd ta) mod 32" if "ta \<in> set xs" for ta
    using b that div_mult_mod_eq[of "low32 (snd ta)" 32] by simp
  have r: "low32 (snd ta) mod 32 < 32" for ta :: "nat \<times> u64" by simp
  let ?x = "new_mem_access ty addr n wr (fst ` set xs) (ti_bytes (info_of len xs)) xs" and ?q = "(\<lambda>ta. byte_in_line (snd ta) div 32) ` set xs"
  have e: "ma_addr ?x = addr" "ma_size ?x = n" "ma_threadid_addr ?x = xs" "ma_warp_mask ?x = fst ` set xs"
    "ma_byte_mask ?x = ti_bytes (info_of len xs)"
    by (simp_all add: new_mem_access_def)
  have n: "unat n \<in> {32, 64, 128}" "unat n dvd unat addr" using p by (simp_all add: piece_def)
  have "covered32 len ?x ta" if t: "ta \<in> set xs" for ta
  proof -
    have "unat addr \<le> b + 32 * (byte_in_line (snd ta) div 32)" "b + 32 * (byte_in_line (snd ta) div 32) + 32 \<le> unat addr + unat n"
      using p t by (simp_all add: piece_def)
    moreover have "low32 (snd ta) mod 32 + len \<le> 32" using f t by blast
    ultimately show ?thesis using A[OF t] unfolding covered32_def e by linarith
  qed
  moreover have "(\<exists>ta \<in> set xs. low32 (snd ta) < unat addr + unat n div 2) \<and> (\<exists>ta \<in> set xs. unat addr + unat n div 2 \<le> low32 (snd ta))"
    if big: "32 < unat n"
  proof -
    have h: "32 dvd unat addr + unat n div 2"
    proof (rule dvd_add)
      show "32 dvd unat addr" by (rule dvd_trans[OF _ n(2)]) (use n(1) in auto)
      show "32 dvd unat n div 2" using n(1) big by auto
    qed
    obtain t1 t2 where t: "t1 \<in> set xs" "b + 32 * (byte_in_line (snd t1) div 32) < unat addr + unat n div 2"
      "t2 \<in> set xs" "unat addr + unat n div 2 \<le> b + 32 * (byte_in_line (snd t2) div 32)"
    proof -
      have "\<exists>c \<in> ?q. b + 32 * c < unat addr + unat n div 2" "\<exists>c \<in> ?q. unat addr + unat n div 2 \<le> b + 32 * c"
        using p big unfolding piece_def by blast+
      then show ?thesis using that by auto
    qed
    obtain y where y: "unat addr + unat n div 2 = 32 * y" using h by blast
    have "low32 (snd t1) div 32 * 32 < 32 * y" using t(1,2) b y by simp
    then have "low32 (snd t1) < 32 * y" by (simp add: div_less_iff_less_mult mult.commute)
    moreover have "32 * y \<le> low32 (snd t2)" using A[OF t(3)] t(4) y by linarith
    ultimately show ?thesis using t(1,3) unfolding y by blast
  qed
  ultimately show ?thesis using n unfolding well_sent32_def tight32_def e by blast
qed

lemma send_one:
  assumes g: "grouped seg len L m" and m: "p \<in> set m" and s: "seg = 32 \<or> seg = 64 \<or> seg = 128"
    and f: "\<forall>ta \<in> set L. fits seg len (snd ta)"
  shows "\<exists>x. reduce_and_send wr ty seg acc p = Inr (acc @ [x]) \<and> well_sent32 len x \<and>
    ma_threadid_addr x = filter (\<lambda>ta. key_of seg ta = fst p) L \<and> ma_type x = ty \<and> ma_write x = wr"
proof -
  obtain k info where p: "p = (k, info)" by (cases p)
  let ?xs = "filter (\<lambda>ta. key_of seg ta = k) L"
  have info: "info = info_of len ?xs" using g m p by (auto simp: grouped_def)
  have "fst ` set m = key_of seg ` set L" using g by (simp add: grouped_def)
  then have "k \<in> key_of seg ` set L" using imageI[OF m, of fst] by (simp add: p)
  then obtain ta where "ta \<in> set L" "key_of seg ta = k" by blast
  then have ne: "?xs \<noteq> []" by (auto simp: filter_empty_conv)
  have su: "unat seg = 32 \<or> unat seg = 64 \<or> unat seg = 128" using s by auto
  have K: "unat k = low32 (snd ta) div unat seg * unat seg" if "ta \<in> set ?xs" for ta
    using key_nat[OF s, of "fst ta" "snd ta"] that by simp
  note C = chunk_in_segment[OF su]
  let ?b = "unat k div 128 * 128"
  have b: "\<forall>ta \<in> set ?xs. ?b + 32 * (byte_in_line (snd ta) div 32) = low32 (snd ta) div 32 * 32"
  proof
    fix ta assume "ta \<in> set ?xs"
    then have "unat k div 128 = low32 (snd ta) div 128" using K C(3) by metis
    then show "?b + 32 * (byte_in_line (snd ta) div 32) = low32 (snd ta) div 32 * 32"
      using chunk_address[of "low32 (snd ta)"] by (simp add: byte_low32)
  qed
  obtain t0 where t0: "t0 \<in> set ?xs" using hd_in_set[OF ne] by blast
  have kl: "unat k < 2 ^ 32"
  proof -
    have "unat k \<le> low32 (snd t0)" using K[OF t0] by (simp add: div_times_less_eq_dividend)
    moreover have "low32 (snd t0) < 2 ^ 32" by (simp add: low32_def)
    ultimately show ?thesis by simp
  qed
  have kd: "unat seg dvd unat k" using K[OF t0] by simp
  let ?q = "(\<lambda>ta. byte_in_line (snd ta) div 32) ` set ?xs"
  have q: "?q \<subseteq> {..<4}" "?q \<noteq> {}" using t0 by (auto simp: byte_low32 div_less_iff_less_mult simp del: set_filter)
  have qi: "\<forall>c \<in> ?q. unat k \<le> ?b + 32 * c \<and> ?b + 32 * c + 32 \<le> unat k + unat seg"
  proof
    fix c assume "c \<in> ?q"
    then obtain ta where t: "ta \<in> set ?xs" "c = byte_in_line (snd ta) div 32" by blast
    have e: "?b + 32 * c = low32 (snd ta) div 32 * 32" using b t by blast
    show "unat k \<le> ?b + 32 * c \<and> ?b + 32 * c + 32 \<le> unat k + unat seg"
      unfolding e using C(1,2)[of "low32 (snd ta)"] K[OF t(1)] by simp
  qed
  obtain addr n where r: "bindE (reduce_segment ?q k seg) reduce_half = Inr (addr, n)" "piece ?q ?b (unat addr) (unat n)"
    using reduce_ok[OF s kd kl q qi] by blast
  have z: "k AND ucast (seg - 1) = 0"
  proof -
    obtain j where j: "ucast (seg - 1) = (mask j :: u64)" "unat seg = 2 ^ j"
      using s by (elim disjE) (auto simp: mask_eq_exp_minus_1 intro: that[of 5] that[of 6] that[of 7])
    have "unat (take_bit j k) = 0" using kd j(2) by (simp only: unsigned_take_bit_eq take_bit_eq_mod[where 'a = nat] dvd_eq_mod_eq_0)
    then show ?thesis by (simp only: j(1) flip: take_bit_eq_mask) (simp add: unat_eq_0)
  qed
  let ?x = "new_mem_access ty addr n wr (fst ` set ?xs) (ti_bytes info) ?xs"
  have "\<forall>ta \<in> set ?xs. low32 (snd ta) mod 32 + len \<le> 32" using f by (simp add: fits_def)
  from piece_sent[OF r(2) b this] have w: "well_sent32 len ?x" unfolding info .
  obtain rs where rs: "reduce_segment ?q k seg = Inr rs" "reduce_half rs = Inr (addr, n)" using r(1) by (auto simp: bindE_Inr_iff)
  have "ti_chunks info = ?q" "ti_active info = fst ` set ?xs" "thread_id_access_addr info = ?xs" by (simp_all add: info info_of_def)
  then have "reduce_and_send wr ty seg acc p = Inr (acc @ [?x])"
    using z q(2) rs by (simp add: reduce_and_send_def p)
  then show ?thesis using w p by (auto simp: new_mem_access_def)
qed

section \<open>A subwarp and a warp\<close>

lemma mset_by_key:
  assumes "distinct ks" and "\<forall>a \<in> set L. f a \<in> set ks"
  shows "mset (concat (map (\<lambda>k. filter (\<lambda>a. f a = k) L) ks)) = mset L"
  using assms
proof (induction ks arbitrary: L)
  case (Cons k ks)
  let ?L = "filter (\<lambda>a. f a \<noteq> k) L"
  have "filter (\<lambda>a. f a = j) ?L = filter (\<lambda>a. f a = j) L" if "j \<in> set ks" for j
    using that Cons.prems(1) by (auto simp: intro!: filter_cong)
  then have "map (\<lambda>j. filter (\<lambda>a. f a = j) ?L) ks = map (\<lambda>j. filter (\<lambda>a. f a = j) L) ks" by simp
  moreover have "mset (concat (map (\<lambda>j. filter (\<lambda>a. f a = j) ?L) ks)) = mset ?L"
    using Cons.prems by (intro Cons.IH) auto
  ultimately have e: "mset (concat (map (\<lambda>j. filter (\<lambda>a. f a = j) L) ks)) = mset ?L" by (simp only:)
  have "mset (concat (map (\<lambda>j. filter (\<lambda>a. f a = j) L) (k # ks))) = mset (filter (\<lambda>a. f a = k) L) + mset ?L"
    by (simp only: list.map concat.simps mset_append e)
  also have "\<dots> = mset L" unfolding mset_filter by (rule multiset_partition[symmetric])
  finally show ?case .
qed simp

definition all_sent32 :: "nat \<Rightarrow> mem_access_type \<Rightarrow> bool \<Rightarrow> mem_access list \<Rightarrow> bool" where
  "all_sent32 len ty wr xs \<longleftrightarrow> (\<forall>x \<in> set xs. well_sent32 len x \<and> ma_type x = ty \<and> ma_write x = wr)"

lemma all_sent32_simps [simp]:
  "all_sent32 len ty wr []" "all_sent32 len ty wr (xs @ ys) \<longleftrightarrow> all_sent32 len ty wr xs \<and> all_sent32 len ty wr ys"
  by (auto simp: all_sent32_def)

lemma send_all:
  assumes g: "grouped seg len L m" and s: "seg = 32 \<or> seg = 64 \<or> seg = 128" and f: "\<forall>ta \<in> set L. fits seg len (snd ta)"
    and "set ms \<subseteq> set m"
  shows "\<exists>xs. foldE (reduce_and_send wr ty seg) acc ms = Inr (acc @ xs) \<and> all_sent32 len ty wr xs \<and>
    map ma_threadid_addr xs = map (\<lambda>k. filter (\<lambda>ta. key_of seg ta = k) L) (map fst ms)"
  using assms(4)
proof (induction ms arbitrary: acc)
  case (Cons p ms)
  obtain x where x: "reduce_and_send wr ty seg acc p = Inr (acc @ [x])" "all_sent32 len ty wr [x]"
    "ma_threadid_addr x = filter (\<lambda>ta. key_of seg ta = fst p) L"
  proof -
    have "p \<in> set m" using Cons.prems by simp
    from send_one[OF g this s f, of wr ty acc] show ?thesis using that by (force simp: all_sent32_def simp del: filter_filter)
  qed
  obtain xs where xs: "foldE (reduce_and_send wr ty seg) (acc @ [x]) ms = Inr (acc @ [x] @ xs)" "all_sent32 len ty wr xs"
    "map ma_threadid_addr xs = map (\<lambda>k. filter (\<lambda>ta. key_of seg ta = k) L) (map fst ms)"
  proof -
    have "set ms \<subseteq> set m" using Cons.prems by simp
    from Cons.IH[OF this, of "acc @ [x]"] show ?thesis using that by (simp only: append_assoc) blast
  qed
  have "all_sent32 len ty wr (x # xs)" using x(2) xs(2) by (simp add: all_sent32_def)
  then show ?case using x(1,3) xs(1,3) by (intro exI[of _ "x # xs"]) simp
qed simp

definition warp_pieces :: "warp_inst \<Rightarrow> nat list \<Rightarrow> (nat \<times> u64) list" where
  "warp_pieces w ts = concat (map (thread_list w) ts)"

lemma subwarp_ok:
  assumes ok: "warp_ok w" and s: "segment_size (w_data_size w) = 32 \<or> segment_size (w_data_size w) = 64 \<or> segment_size (w_data_size w) = 128"
  shows "\<exists>xs. coalesce_subwarp w wr ty k acc i = Inr (acc @ xs) \<and> all_sent32 (data_size_coales w) ty wr xs \<and>
    mset (concat (map ma_threadid_addr xs)) = mset (warp_pieces w (subwarp_threads k i)) \<and>
    length xs = card (key_of (segment_size (w_data_size w)) ` set (warp_pieces w (subwarp_threads k i)))"
proof -
  let ?seg = "segment_size (w_data_size w)" and ?len = "data_size_coales w" and ?L = "warp_pieces w (subwarp_threads k i)"
  have "grouped ?seg ?len [] []" by (simp add: grouped_def sorted_keys_def)
  from coalesce_threads_ok[OF ok this, of "subwarp_threads k i"] obtain m where
    m: "foldE (coalesce_thread w ?seg) [] (subwarp_threads k i) = Inr m" "grouped ?seg ?len ?L m" by (auto simp: warp_pieces_def)
  have f: "\<forall>ta \<in> set ?L. fits ?seg ?len (snd ta)"
    using ok by (auto simp: warp_pieces_def thread_list_def warp_ok_def split: if_splits)
  obtain xs where xs: "foldE (reduce_and_send wr ty ?seg) acc m = Inr (acc @ xs)" "all_sent32 ?len ty wr xs"
    "map ma_threadid_addr xs = map (\<lambda>k. filter (\<lambda>ta. key_of ?seg ta = k) ?L) (map fst m)"
    using send_all[OF m(2) s f subset_refl] by blast
  have d: "distinct (map fst m)" and ks: "set (map fst m) = key_of ?seg ` set ?L"
    using m(2) sorted_keys_distinct[of m] by (simp_all add: grouped_def)
  have "mset (concat (map ma_threadid_addr xs)) = mset ?L"
    unfolding xs(3) by (rule mset_by_key[OF d]) (simp only: ks, blast)
  moreover have "length xs = card (key_of ?seg ` set ?L)"
    using arg_cong[OF xs(3), of length] distinct_card[OF d] ks by simp
  moreover have "coalesce_subwarp w wr ty k acc i = Inr (acc @ xs)" using m(1) xs(1) by (simp add: coalesce_subwarp_def)
  ultimately show ?thesis using xs(2) by blast
qed

definition segments :: "warp_inst \<Rightarrow> nat \<Rightarrow> nat \<Rightarrow> u64 set" where
  "segments w k i = key_of (segment_size (w_data_size w)) ` set (warp_pieces w (subwarp_threads k i))"

lemma subwarps_ok:
  assumes ok: "warp_ok w" and s: "segment_size (w_data_size w) = 32 \<or> segment_size (w_data_size w) = 64 \<or> segment_size (w_data_size w) = 128"
  shows "\<exists>xs. foldE (coalesce_subwarp w wr ty k) acc [0..<p] = Inr (acc @ xs) \<and> all_sent32 (data_size_coales w) ty wr xs \<and>
    mset (concat (map ma_threadid_addr xs)) = mset (warp_pieces w [0..<p * k]) \<and>
    length xs = (\<Sum>i<p. card (segments w k i))"
proof (induction p)
  case 0
  show ?case by (simp add: warp_pieces_def)
next
  case (Suc p)
  then obtain xs where xs: "foldE (coalesce_subwarp w wr ty k) acc [0..<p] = Inr (acc @ xs)" "all_sent32 (data_size_coales w) ty wr xs"
    "mset (concat (map ma_threadid_addr xs)) = mset (warp_pieces w [0..<p * k])" "length xs = (\<Sum>i<p. card (segments w k i))" by blast
  obtain ys where ys: "coalesce_subwarp w wr ty k (acc @ xs) p = Inr ((acc @ xs) @ ys)" "all_sent32 (data_size_coales w) ty wr ys"
    "mset (concat (map ma_threadid_addr ys)) = mset (warp_pieces w (subwarp_threads k p))" "length ys = card (segments w k p)"
    using subwarp_ok[OF ok s] unfolding segments_def by blast
  have "[0..<Suc p * k] = [0..<p * k] @ subwarp_threads k p"
    using upt_add_eq_append[of 0 "p * k" k] by (simp add: subwarp_threads_def add.commute)
  then have "mset (warp_pieces w [0..<Suc p * k]) = mset (concat (map ma_threadid_addr (xs @ ys)))"
    using xs(3) ys(3) by (simp add: warp_pieces_def)
  then show ?case using xs(1,2,4) ys(1,2,4) by (intro exI[of _ "xs @ ys"]) (simp add: foldE_append)
qed

text \<open>What a warp has to hold: the addresses of its active threads, aligned to the size of an access.\<close>

definition aligned_warp :: "warp_inst \<Rightarrow> bool" where
  "aligned_warp w \<longleftrightarrow> w_data_size w \<in> {1, 2, 4, 8, 16} \<and>
     (\<forall>t \<in> w_active_mask w. t < MAX_WARP_SIZE \<and> t < length (w_memreqaddr w) \<and>
        length (w_memreqaddr w ! t) = MAX_ACCESSES_PER_INSN_PER_THREAD \<and>
        (\<forall>n < num_accesses w. data_size_coales w dvd unat (w_memreqaddr w ! t ! n)))"

lemma aligned_warp_ok:
  assumes a: "aligned_warp w"
  shows "warp_ok w"
    and "segment_size (w_data_size w) = 32 \<or> segment_size (w_data_size w) = 64 \<or> segment_size (w_data_size w) = 128"
proof -
  have d: "w_data_size w \<in> {1, 2, 4, 8, 16}" using a by (simp add: aligned_warp_def)
  have c: "data_size_coales w \<in> {1, 2, 4, 8, 16}" "data_size_coales w \<le> w_data_size w" "num_accesses w \<le> 4"
    using d by (auto simp: data_size_coales_def num_accesses_def)
  obtain n where n: "segment_size (w_data_size w) = 2 ^ n" "w_data_size w \<le> 2 ^ n" "n \<in> {5, 6, 7}"
    using d that[of 5] that[of 6] that[of 7] by (auto simp: segment_size_def)
  have "fits (segment_size (w_data_size w)) (data_size_coales w) x" if "data_size_coales w dvd unat x" for x
    using aligned_fits[OF c(1) that n(1) _ n(3)] c(2) n(2) by linarith
  then show "warp_ok w" using a c(3) unfolding warp_ok_def aligned_warp_def by (auto simp: MAX_ACCESSES_PER_INSN_PER_THREAD_def)
  show "segment_size (w_data_size w) = 32 \<or> segment_size (w_data_size w) = 64 \<or> segment_size (w_data_size w) = 128"
    using d by (auto simp: segment_size_def)
qed

lemma coalescing_result:
  assumes "0 < mem_warp_parts cf" and "mem_warp_parts cf dvd warp_size cf" and "aligned_warp w"
  shows "\<exists>xs. memory_coalescing_arch_13 cf w wr ty = Inr (w\<lparr>w_accessq := w_accessq w @ xs\<rparr>) \<and>
    mset (concat (map ma_threadid_addr xs)) = mset (warp_pieces w [0..<warp_size cf]) \<and> all_sent32 (data_size_coales w) ty wr xs \<and>
    length xs = (\<Sum>i<mem_warp_parts cf. card (segments w (warp_size cf div mem_warp_parts cf) i))"
  using subwarps_ok[OF aligned_warp_ok[OF assms(3)], of wr ty "warp_size cf div mem_warp_parts cf" "w_accessq w" "mem_warp_parts cf"]
    assms(1,2) by (auto simp: memory_coalescing_arch_13_def)

section \<open>The addresses themselves\<close>

text \<open>The access holds the bytes of the thread, at the address the thread accesses.\<close>

definition covered :: "nat \<Rightarrow> mem_access \<Rightarrow> nat \<times> u64 \<Rightarrow> bool" where
  "covered len x ta \<longleftrightarrow> unat (ma_addr x) \<le> unat (snd ta) \<and> unat (snd ta) + len \<le> unat (ma_addr x) + unat (ma_size x)"

text \<open>An aligned piece of 32, 64 or 128 bytes; of a larger one both halves are needed.\<close>

definition tight :: "mem_access \<Rightarrow> bool" where
  "tight x \<longleftrightarrow> unat (ma_size x) \<in> {32, 64, 128} \<and> unat (ma_size x) dvd unat (ma_addr x) \<and>
     (32 < unat (ma_size x) \<longrightarrow>
        (\<exists>ta \<in> set (ma_threadid_addr x). unat (snd ta) < unat (ma_addr x) + unat (ma_size x) div 2) \<and>
        (\<exists>ta \<in> set (ma_threadid_addr x). unat (ma_addr x) + unat (ma_size x) div 2 \<le> unat (snd ta)))"

definition well_sent :: "nat \<Rightarrow> mem_access \<Rightarrow> bool" where
  "well_sent len x \<longleftrightarrow> ma_warp_mask x = fst ` set (ma_threadid_addr x) \<and>
     ma_byte_mask x = (\<Union>ta \<in> set (ma_threadid_addr x). {unat (snd ta) mod 128..<unat (snd ta) mod 128 + len}) \<and>
     (\<forall>ta \<in> set (ma_threadid_addr x). covered len x ta) \<and> tight x"

definition all_sent :: "nat \<Rightarrow> mem_access_type \<Rightarrow> bool \<Rightarrow> mem_access list \<Rightarrow> bool" where
  "all_sent len ty wr xs \<longleftrightarrow> (\<forall>x \<in> set xs. well_sent len x \<and> ma_type x = ty \<and> ma_write x = wr)"

text \<open>The segments that a subwarp accesses, by their number in the memory.\<close>

definition touched_segments :: "warp_inst \<Rightarrow> nat \<Rightarrow> nat \<Rightarrow> nat set" where
  "touched_segments w k i =
     (\<lambda>ta. unat (snd ta) div unat (segment_size (w_data_size w))) ` set (warp_pieces w (subwarp_threads k i))"

text \<open>The addresses that the 32 bits of \<open>address_type\<close> can hold.\<close>

definition below_4g :: "warp_inst \<Rightarrow> bool" where
  "below_4g w \<longleftrightarrow> (\<forall>t \<in> w_active_mask w. \<forall>n < num_accesses w. unat (w_memreqaddr w ! t ! n) < 2 ^ 32)"

lemma low32_small: "unat a < 2 ^ 32 \<Longrightarrow> low32 a = unat a"
  by (simp add: low32_def)

lemma warp_pieces_low: "below_4g w \<Longrightarrow> ta \<in> set (warp_pieces w ts) \<Longrightarrow> low32 (snd ta) = unat (snd ta)"
  by (auto simp: warp_pieces_def thread_list_def below_4g_def low32_small split: if_splits)

lemma all_sent_low:
  assumes "all_sent32 len ty wr xs" and "\<forall>x \<in> set xs. \<forall>ta \<in> set (ma_threadid_addr x). low32 (snd ta) = unat (snd ta)"
  shows "all_sent len ty wr xs"
  unfolding all_sent_def
proof
  fix x assume x: "x \<in> set xs"
  have l: "low32 (snd ta) = unat (snd ta)" if "ta \<in> set (ma_threadid_addr x)" for ta using assms(2) x that by blast
  have "well_sent32 len x" "ma_type x = ty \<and> ma_write x = wr" using assms(1) x by (simp_all add: all_sent32_def)
  then show "well_sent len x \<and> ma_type x = ty \<and> ma_write x = wr"
    using l by (simp add: well_sent_def well_sent32_def covered_def covered32_def tight_def tight32_def
        info_of_def byte_in_line_mod cong: bex_cong)
qed

lemma card_segments:
  assumes "below_4g w"
    and s: "segment_size (w_data_size w) = 32 \<or> segment_size (w_data_size w) = 64 \<or> segment_size (w_data_size w) = 128"
  shows "card (segments w k i) = card (touched_segments w k i)"
proof -
  let ?S = "set (warp_pieces w (subwarp_threads k i))" and ?s = "segment_size (w_data_size w)"
  have e: "unat (key_of ?s ta) = unat (snd ta) div unat ?s * unat ?s" if "ta \<in> ?S" for ta
    using key_nat[OF s, of "fst ta" "snd ta"] warp_pieces_low[OF assms(1) that] by simp
  have "unat ` segments w k i = (\<lambda>d. d * unat ?s) ` touched_segments w k i"
    unfolding segments_def touched_segments_def image_image using e by (intro image_cong refl)
  moreover have "inj_on unat (segments w k i)" by (simp add: inj_on_def word_unat_eq_iff)
  moreover have "inj_on (\<lambda>d. d * unat ?s) (touched_segments w k i)" using s by (auto simp: inj_on_def)
  ultimately show ?thesis by (metis card_image)
qed

text \<open>From \<open>2 ^ 32\<close> on the access that is sent for a thread lies elsewhere.\<close>

lemma high_address_missed:
  assumes "tight32 x" and "covered32 len x ta" and "0 < len" and "2 ^ 32 \<le> unat (snd ta)"
  shows "\<not> covered len x ta"
proof -
  let ?a = "unat (ma_addr x)" and ?n = "unat (ma_size x)"
  have n: "?n \<in> {32, 64, 128}" "?n dvd ?a" using assms(1) by (simp_all add: tight32_def)
  have "?a \<le> low32 (snd ta)" using assms(2) by (simp add: covered32_def)
  moreover have "low32 (snd ta) < 2 ^ 32" by (simp add: low32_def)
  ultimately have "?a < 2 ^ 32" by simp
  moreover obtain c where c: "?a = ?n * c" using n(2) by (rule dvdE)
  moreover have "?n dvd 2 ^ 32" using n(1) by auto
  then obtain d where d: "2 ^ 32 = ?n * d" by (rule dvdE)
  ultimately have "c < d" by (metis mult_less_cancel1)
  then have "?n * (c + 1) \<le> ?n * d" by (intro mult_le_mono2) simp
  then have "?a + ?n \<le> 2 ^ 32" unfolding c d by (simp only: distrib_left mult_1_right)
  then show ?thesis using assms(3,4) by (simp add: covered_def)
qed

text \<open>A load or store of the global or local memory that is issued, and whose accesses were not made yet.\<close>

definition pending_request :: "warp_inst \<Rightarrow> bool" where
  "pending_request w \<longleftrightarrow> \<not> w_empty w \<and> \<not> w_accesses_created w \<and> w_active_mask w \<noteq> {} \<and> w_thread_valid w \<and>
     i_op (w_inst w) \<in> {LOAD_OP, STORE_OP}"

definition access_kind :: "warp_inst \<Rightarrow> mem_access_type" where
  "access_kind w = (if space_of w = global_space then if is_store (w_inst w) then GLOBAL_ACC_W else GLOBAL_ACC_R
     else if is_store (w_inst w) then LOCAL_ACC_W else LOCAL_ACC_R)"

lemma generate_coalesced:
  assumes "pending_request w" and "space_of w \<in> {global_space, local_space, param_space_local}" and "\<not> w_isatomic w"
    and "gpgpu_coalesce_arch cf = 13" and "0 < mem_warp_parts cf" and "mem_warp_parts cf dvd warp_size cf" and "aligned_warp w"
  shows "\<exists>xs. generate_mem_accesses cf w = Inr (w\<lparr>w_accessq := w_accessq w @ xs, w_accesses_created := True\<rparr>) \<and>
    mset (concat (map ma_threadid_addr xs)) = mset (warp_pieces w [0..<warp_size cf]) \<and>
    all_sent32 (data_size_coales w) (access_kind w) (is_store (w_inst w)) xs \<and>
    length xs = (\<Sum>i<mem_warp_parts cf. card (segments w (warp_size cf div mem_warp_parts cf) i))"
proof -
  have "access_type_of (space_of w) (is_store (w_inst w)) = Some (access_kind w)"
    using assms(2) by (auto simp: access_type_of_def access_kind_def)
  then have "generate_mem_accesses cf w =
      bindE (memory_coalescing_arch_13 cf w (is_store (w_inst w)) (access_kind w)) (\<lambda>w'. Inr (w'\<lparr>w_accesses_created := True\<rparr>))"
    using assms(1-4) by (auto simp: generate_mem_accesses_def pending_request_def is_load_def is_store_def)
  then show ?thesis using coalescing_result[OF assms(5-7), of "is_store (w_inst w)" "access_kind w"] by force
qed

text \<open>Claim C23. Coalescing (abstract_hardware_model.cc \<open>generate_mem_accesses\<close>, \<open>memory_coalescing_arch_13\<close>): for a load or
  store of global or local memory that is not atomic and whose active threads access addresses below \<open>2 ^ 32\<close>, aligned
  to the size of an access, no assertion fails; one access is queued per segment that a subwarp touches, the accesses of
  all active threads are served exactly once, and each access sent holds the bytes of its threads, at their addresses, in
  an aligned piece of 32, 64 or 128 bytes of which both halves are used when it is larger than 32, with a mask of exactly
  these bytes.  (The bound is needed:
  from \<open>2 ^ 32\<close> on the code sends the access to the address truncated to 32 bits, \<open>high_address_missed\<close>.)\<close>

theorem coalescing_serves_the_warp:
  assumes "pending_request w" and "space_of w \<in> {global_space, local_space, param_space_local}" and "\<not> w_isatomic w"
    and "gpgpu_coalesce_arch cf = 13" and "0 < mem_warp_parts cf" and "mem_warp_parts cf dvd warp_size cf" and "aligned_warp w"
    and "below_4g w"
  shows "\<exists>xs. generate_mem_accesses cf w = Inr (w\<lparr>w_accessq := w_accessq w @ xs, w_accesses_created := True\<rparr>) \<and>
    mset (concat (map ma_threadid_addr xs)) = mset (warp_pieces w [0..<warp_size cf]) \<and>
    all_sent (data_size_coales w) (access_kind w) (is_store (w_inst w)) xs \<and>
    length xs = (\<Sum>i<mem_warp_parts cf. card (touched_segments w (warp_size cf div mem_warp_parts cf) i))"
proof -
  obtain xs where xs: "generate_mem_accesses cf w = Inr (w\<lparr>w_accessq := w_accessq w @ xs, w_accesses_created := True\<rparr>)"
    "mset (concat (map ma_threadid_addr xs)) = mset (warp_pieces w [0..<warp_size cf])"
    "all_sent32 (data_size_coales w) (access_kind w) (is_store (w_inst w)) xs"
    "length xs = (\<Sum>i<mem_warp_parts cf. card (segments w (warp_size cf div mem_warp_parts cf) i))"
    using generate_coalesced[OF assms(1-7)] by blast
  have "set (concat (map ma_threadid_addr xs)) = set (warp_pieces w [0..<warp_size cf])"
    by (rule mset_eq_setD[OF xs(2)])
  then have "\<forall>x \<in> set xs. \<forall>ta \<in> set (ma_threadid_addr x). low32 (snd ta) = unat (snd ta)"
    using warp_pieces_low[OF assms(8)] by auto
  from all_sent_low[OF xs(3) this] show ?thesis
    using xs(1,2,4) by (simp only: card_segments[OF assms(8) aligned_warp_ok(2)[OF assms(7)]]) blast
qed

definition demo_core :: core_config where
  "demo_core = \<lparr>warp_size = 4, mem_warp_parts = 2, num_shmem_bank = 2, shmem_limited_broadcast = True, gpgpu_coalesce_arch = 13,
     gpgpu_cache_texl1_linesize = 64, gpgpu_cache_constl1_linesize = 64\<rparr>"

definition demo_warp :: "memory_space \<Rightarrow> u64 list \<Rightarrow> warp_inst" where
  "demo_warp sp addrs = \<lparr>w_inst = \<lparr>i_warp_id = 0, i_op = LOAD_OP, i_memory_op = memory_load, i_space = sp, i_out = [1], i_in = [],
     i_pred = 0, i_ar1 = 0, i_ar2 = 0\<rparr>, w_data_size = 4, w_empty = False, w_isatomic = False, w_active_mask = {0, 1, 3},
     w_thread_valid = True, w_memreqaddr = map (\<lambda>a. [a, 0, 0, 0, 0, 0, 0, 0]) addrs, w_accessq = [], w_accesses_created = False,
     w_cycles = 0\<rparr>"

theorem coalescing_serves_the_warp_witness:
  "\<exists>xs. generate_mem_accesses demo_core (demo_warp global_space [256, 260, 0, 320]) =
     Inr (demo_warp global_space [256, 260, 0, 320]\<lparr>w_accessq := xs, w_accesses_created := True\<rparr>) \<and> length xs = 2"
proof -
  let ?w = "demo_warp global_space [256, 260, 0, 320]"
  have p: "pending_request ?w" "space_of ?w \<in> {global_space, local_space, param_space_local}" "\<not> w_isatomic ?w"
    "gpgpu_coalesce_arch demo_core = 13" "0 < mem_warp_parts demo_core" "mem_warp_parts demo_core dvd warp_size demo_core"
    by (simp_all add: demo_warp_def demo_core_def pending_request_def space_of_def)
  have a: "aligned_warp ?w"
    by (simp add: aligned_warp_def demo_warp_def MAX_WARP_SIZE_def MAX_ACCESSES_PER_INSN_PER_THREAD_def num_accesses_def
        data_size_coales_def space_of_def space_is_local_def)
  have low: "below_4g ?w" by (simp add: below_4g_def demo_warp_def num_accesses_def space_of_def space_is_local_def)
  have "subwarp_threads 2 0 = [0, 1]" "subwarp_threads 2 1 = [2, 3]" by (simp_all add: subwarp_threads_def upt_rec)
  then have "touched_segments ?w 2 0 = {2}" "touched_segments ?w 2 1 = {2}"
    by (simp_all add: touched_segments_def warp_pieces_def thread_list_def num_accesses_def space_of_def
        space_is_local_def demo_warp_def segment_size_def)
  then have "(\<Sum>i<mem_warp_parts demo_core. card (touched_segments ?w (warp_size demo_core div mem_warp_parts demo_core) i)) = 2"
    by (simp add: demo_core_def lessThan_Suc lessThan_nat_numeral)
  moreover have "w_accessq ?w = []" by (simp add: demo_warp_def)
  ultimately show ?thesis using coalescing_serves_the_warp[OF p a low] by auto
qed

end
