(* ===== verification/Conflict_Correct.thy ===== *)
theory Conflict_Correct
  imports Coalesce_Correct
begin

text \<open>
  The cycles that a shared memory instruction takes for its bank conflicts, and the accesses of a texture or constant
  instruction, one for each cache line.
\<close>

unbundle bit_operations_syntax

section \<open>The table of the banks\<close>

text \<open>The words of one bank after the accesses \<open>L\<close> (bank and word).\<close>

definition bank_ok :: "(u32 \<times> u64) list \<Rightarrow> u32 \<Rightarrow> (u64 \<times> nat) list \<Rightarrow> bool" where
  "bank_ok L b ws \<longleftrightarrow> sorted_keys ws \<and> fst ` set ws = snd ` {p \<in> set L. fst p = b} \<and> (\<forall>p \<in> set ws. 0 < snd p) \<and>
     sum_accesses ws = length (filter (\<lambda>p. fst p = b) L)"

definition banked :: "(u32 \<times> u64) list \<Rightarrow> bank_accesses \<Rightarrow> bool" where
  "banked L accs \<longleftrightarrow> sorted_keys accs \<and> fst ` set accs = fst ` set L \<and> (\<forall>p \<in> set accs. bank_ok L (fst p) (snd p))"

definition count_access :: "bank_accesses \<Rightarrow> u32 \<times> u64 \<Rightarrow> bank_accesses" where
  "count_access accs p = (let words = smap_get accs (fst p) []
     in smap_put (fst p) (smap_put (snd p) (smap_get words (snd p) 0 + 1) words) accs)"

lemma bank_ok_hit:
  assumes "bank_ok L b ws"
  shows "bank_ok (L @ [(b, v)]) b (smap_put v (smap_get ws v 0 + 1) ws)"
proof -
  have s: "sorted_keys ws" using assms by (simp add: bank_ok_def)
  have "sum_accesses (smap_put v (smap_get ws v 0 + 1) ws) + smap_get ws v 0 = sum_accesses ws + (smap_get ws v 0 + 1)"
    using smap_put_sum[OF s, of "\<lambda>n. n" 0 v "smap_get ws v 0 + 1"] by (simp add: sum_accesses_def)
  moreover have "\<forall>p \<in> set (smap_put v (smap_get ws v 0 + 1) ws). 0 < snd p"
    using assms by (auto simp: smap_put_set[OF s] bank_ok_def)
  moreover have "{p \<in> set (L @ [(b, v)]). fst p = b} = insert (b, v) {p \<in> set L. fst p = b}" by auto
  then have "fst ` set (smap_put v (smap_get ws v 0 + 1) ws) = snd ` {p \<in> set (L @ [(b, v)]). fst p = b}"
    using assms by (simp add: smap_put_keys bank_ok_def)
  ultimately show ?thesis using assms smap_put_sorted[OF s] by (simp add: bank_ok_def)
qed

lemma bank_ok_miss:
  assumes "bank_ok L b ws" and "b' \<noteq> b"
  shows "bank_ok (L @ [(b', v)]) b ws"
proof -
  have "{p \<in> set (L @ [(b', v)]). fst p = b} = {p \<in> set L. fst p = b}" using assms(2) by auto
  then show ?thesis using assms by (simp add: bank_ok_def)
qed

lemma count_access_ok:
  assumes b: "banked L accs"
  shows "banked (L @ [p]) (count_access accs p)"
proof -
  obtain b v where p: "p = (b, v)" by (cases p)
  have s: "sorted_keys accs" using b by (simp add: banked_def)
  have "bank_ok L b (smap_get accs b [])"
  proof (cases "b \<in> fst ` set accs")
    case True
    from smap_get_mem[OF this] show ?thesis using b unfolding banked_def by force
  next
    case False
    then have "b \<notin> fst ` set L" using b by (simp add: banked_def)
    then have "{p \<in> set L. fst p = b} = {}" "filter (\<lambda>p. fst p = b) L = []" by (force simp: filter_empty_conv)+
    then show ?thesis using smap_get_out[OF False] by (simp add: bank_ok_def sorted_keys_def sum_accesses_def)
  qed
  from bank_ok_hit[OF this, of v] have "\<forall>q \<in> set (count_access accs p). bank_ok (L @ [p]) (fst q) (snd q)"
    using b bank_ok_miss by (auto simp: count_access_def smap_put_set[OF s] p banked_def Let_def)
  moreover have "fst ` set (count_access accs p) = fst ` set (L @ [p])"
    using b by (simp add: count_access_def Let_def p smap_put_keys banked_def)
  moreover have "sorted_keys (count_access accs p)" using smap_put_sorted[OF s] by (simp add: count_access_def Let_def)
  ultimately show ?thesis by (simp only: banked_def)
qed

lemma banked_counted: "banked L (foldl count_access [] L)"
proof (induction L rule: rev_induct)
  case Nil
  show ?case by (simp add: banked_def sorted_keys_def)
next
  case (snoc p L)
  from count_access_ok[OF this] show ?case by simp
qed

section \<open>The cost of a subwarp\<close>

lemma find_in: "List.find P xs = Some x \<Longrightarrow> x \<in> set xs \<and> P x"
  by (metis find_Some_iff nth_mem)

lemma Max_insert_max: "finite S \<Longrightarrow> Max (insert (max m l) S) = Max (insert m (insert l S))" for m :: nat
  by (cases "S = {}") (simp_all add: max.assoc)

lemma max_bank_words_Max: "max_bank_words accs = Max (insert 0 ((\<lambda>p. length (snd p)) ` set accs))"
proof -
  have "foldl (\<lambda>m b. max m (length (snd b))) m accs = Max (insert m ((\<lambda>p. length (snd p)) ` set accs))" for m
    by (induction accs arbitrary: m) (simp_all only: foldl.simps Max_insert_max[OF finite_imageI, OF finite_set] list.set image_insert
        image_empty Max_singleton)
  then show ?thesis by (simp add: max_bank_words_def)
qed

text \<open>The largest number of different words of one bank.\<close>

definition degree :: "(u32 \<times> u64) list \<Rightarrow> nat" where
  "degree L = Max (insert 0 ((\<lambda>b. card (snd ` {p \<in> set L. fst p = b})) ` fst ` set L))"

lemma bank_words_card: "bank_ok L b ws \<Longrightarrow> length ws = card (snd ` {p \<in> set L. fst p = b})"
  using distinct_card[OF sorted_keys_distinct, of ws] by (simp add: bank_ok_def)

lemma max_bank_words_degree:
  assumes "banked L accs"
  shows "max_bank_words accs = degree L"
proof -
  have "length (snd p) = card (snd ` {q \<in> set L. fst q = fst p})" if "p \<in> set accs" for p
    using that assms by (intro bank_words_card) (simp add: banked_def)
  then have "(\<lambda>p. length (snd p)) ` set accs = (\<lambda>p. card (snd ` {q \<in> set L. fst q = fst p})) ` set accs" by (rule image_cong[OF refl])
  then have "(\<lambda>p. length (snd p)) ` set accs = (\<lambda>b. card (snd ` {q \<in> set L. fst q = b})) ` fst ` set accs"
    by (simp only: image_image)
  then show ?thesis using assms by (simp add: max_bank_words_Max degree_def banked_def)
qed

lemma card_bank_le: "card (snd ` {p \<in> set L. fst p = b}) \<le> length (filter (\<lambda>p. fst p = b) L)"
proof -
  have "card (set (map snd (filter (\<lambda>p. fst p = b) L))) \<le> length (map snd (filter (\<lambda>p. fst p = b) L))" by (rule card_length)
  then show ?thesis by (simp add: image_image)
qed

lemma degree_bounds: "degree L \<le> length L" "L \<noteq> [] \<Longrightarrow> 0 < degree L"
proof -
  have "card (snd ` {p \<in> set L. fst p = b}) \<le> length L" for b
    using card_bank_le[of L b] length_filter_le[of "\<lambda>p. fst p = b" L] by linarith
  then show "degree L \<le> length L" by (simp add: degree_def)
  assume "L \<noteq> []"
  then obtain p where p: "p \<in> set L" using hd_in_set by blast
  then have "snd p \<in> snd ` {q \<in> set L. fst q = fst p}" by simp
  moreover have "finite (snd ` {q \<in> set L. fst q = fst p})" by simp
  ultimately have "0 < card (snd ` {q \<in> set L. fst q = fst p})" unfolding card_gt_0_iff by blast
  then show "0 < degree L" using p by (force simp: degree_def Max_gr_iff)
qed

lemma find_broadcast_some:
  assumes "find_broadcast accs = Some (b, v)"
  shows "\<exists>ws n. (b, ws) \<in> set accs \<and> (v, n) \<in> set ws \<and> 1 < n"
  using find_in[OF assms[unfolded find_broadcast_def]] by auto

lemma sum_member: "p \<in> set ws \<Longrightarrow> snd p \<le> sum_accesses ws"
  by (induction ws) (auto simp: sum_accesses_def)

lemma bank_cost_bounds:
  assumes b: "banked L accs" and p: "p \<in> set accs"
  shows "\<exists>n. bank_cost (find_broadcast accs) p = Inr n \<and> 0 < n \<and> n \<le> length L"
proof -
  have o: "bank_ok L (fst p) (snd p)" using b p by (simp add: banked_def)
  have "fst p \<in> fst ` set L" using b imageI[OF p, of fst] by (simp add: banked_def)
  then obtain q where q: "q \<in> set L" "fst q = fst p" by auto
  then have ne: "filter (\<lambda>r. fst r = fst p) L \<noteq> []" by (auto simp: filter_empty_conv)
  then have n: "0 < sum_accesses (snd p)" "sum_accesses (snd p) \<le> length L"
    using o by (auto simp: bank_ok_def)
  show ?thesis
  proof (cases "find_broadcast accs")
    case None
    then show ?thesis using n by (simp add: bank_cost_def Let_def)
  next
    case (Some bv)
    obtain b v where bv: "bv = (b, v)" by (cases bv)
    show ?thesis
    proof (cases "b = fst p")
      case False
      then show ?thesis using n Some by (simp add: bank_cost_def Let_def bv)
    next
      case True
      obtain ws k where w: "(b, ws) \<in> set accs" "(v, k) \<in> set ws" "1 < k"
        using find_broadcast_some[of accs b v] Some bv by blast
      have ws: "ws = snd p"
        using w(1) p True smap_get_in[of accs b ws "[]"] smap_get_in[of accs b "snd p" "[]"] b by (auto simp: banked_def)
      obtain j where j: "List.find (\<lambda>(u, k). u = v) (snd p) = Some (v, j)" "(v, j) \<in> set (snd p)"
      proof (cases "List.find (\<lambda>(u, k). u = v) (snd p)")
        case None
        then show ?thesis using w(2) ws by (auto simp: find_None_iff)
      next
        case (Some uj)
        then show ?thesis using that find_in[OF Some] by (cases uj) auto
      qed
      have jk: "j = k"
        using smap_get_in[OF _ j(2), of 0] smap_get_in[of "snd p" v k 0] w(2) o by (simp add: bank_ok_def ws)
      have le: "j \<le> sum_accesses (snd p)" "j - Suc 0 \<le> sum_accesses (snd p)" using sum_member[OF j(2)] by simp_all
      then show ?thesis using n w(3) jk Some by (simp add: bank_cost_def Let_def bv True[symmetric] j(1))
    qed
  qed
qed

lemma limited_broadcast_bounds:
  assumes b: "banked L accs" and "L \<noteq> []"
  shows "\<exists>n. limited_broadcast_accesses accs = Inr n \<and> 0 < n \<and> n \<le> length L"
proof -
  have step: "\<exists>n. foldE (\<lambda>m p. bindE (bank_cost (find_broadcast accs) p) (\<lambda>n. Inr (max m n))) m ps = Inr n \<and>
      (0 < m \<or> ps \<noteq> [] \<longrightarrow> 0 < n) \<and> n \<le> length L" if "set ps \<subseteq> set accs" "m \<le> length L" for m ps
    using that
  proof (induction ps arbitrary: m)
    case (Cons p ps)
    obtain n where n: "bank_cost (find_broadcast accs) p = Inr n" "0 < n" "n \<le> length L"
      using bank_cost_bounds[OF b, of p] Cons.prems by auto
    have "set ps \<subseteq> set accs" "max m n \<le> length L" using Cons.prems n(3) by auto
    from Cons.IH[OF this] show ?case using n by auto
  qed simp
  have "accs \<noteq> []" using assms by (auto simp: banked_def)
  then show ?thesis using step[of accs 0] by (simp add: limited_broadcast_accesses_def)
qed

lemma limited_broadcast_nil: "limited_broadcast_accesses [] = Inr 0"
  by (simp add: limited_broadcast_accesses_def)


section \<open>A subwarp and a warp\<close>

text \<open>The bank and the word of the active threads among \<open>ts\<close>.\<close>

definition bank_of :: "core_config \<Rightarrow> u64 \<Rightarrow> u32" where
  "bank_of cf a = (ucast a :: u32) div 4 mod num_shmem_bank cf"

definition word_of :: "u64 \<Rightarrow> u64" where "word_of a = ucast (line_size_based_tag_func a 4)"

definition first_addr :: "warp_inst \<Rightarrow> nat \<Rightarrow> u64" where "first_addr w t = w_memreqaddr w ! t ! 0"

definition active_of :: "warp_inst \<Rightarrow> nat list \<Rightarrow> nat list" where
  "active_of w ts = filter (\<lambda>t. t \<in> w_active_mask w) ts"

definition banks :: "core_config \<Rightarrow> warp_inst \<Rightarrow> nat list \<Rightarrow> (u32 \<times> u64) list" where
  "banks cf w ts = map (\<lambda>t. (bank_of cf (first_addr w t), word_of (first_addr w t))) (active_of w ts)"

definition has_addr :: "warp_inst \<Rightarrow> bool" where
  "has_addr w \<longleftrightarrow> (\<forall>t \<in> w_active_mask w. t < MAX_WARP_SIZE \<and> t < length (w_memreqaddr w) \<and> w_memreqaddr w ! t \<noteq> [])"

lemma has_addr_thread: "has_addr w \<Longrightarrow> t \<in> w_active_mask w \<Longrightarrow> thread_addr w t 0 = Inr (first_addr w t) \<and> t < MAX_WARP_SIZE"
  by (auto simp: has_addr_def thread_addr_def first_addr_def)

lemma bank_accesses_ok:
  assumes "has_addr w" and "num_shmem_bank cf \<noteq> 0"
  shows "foldE (bank_access cf w) accs ts = Inr (foldl count_access accs (banks cf w ts))"
proof (induction ts arbitrary: accs)
  case (Cons t ts)
  then show ?case using has_addr_thread[OF assms(1), of t] assms(2)
    by (simp add: banks_def active_of_def bank_access_def shmem_bank_func_def bank_of_def word_of_def count_access_def Let_def)
qed (simp add: banks_def active_of_def)

lemma shared_subwarp_ok:
  assumes "has_addr w" and "num_shmem_bank cf \<noteq> 0"
  shows "\<exists>c. shared_subwarp cf w k tot i = Inr (tot + c) \<and> c \<le> length (active_of w (subwarp_threads k i)) \<and>
    (active_of w (subwarp_threads k i) \<noteq> [] \<longrightarrow> 0 < c) \<and>
    (\<not> shmem_limited_broadcast cf \<longrightarrow> c = degree (banks cf w (subwarp_threads k i)))"
proof -
  let ?L = "banks cf w (subwarp_threads k i)"
  have b: "banked ?L (foldl count_access [] ?L)" by (rule banked_counted)
  have len: "length ?L = length (active_of w (subwarp_threads k i))" "?L = [] \<longleftrightarrow> active_of w (subwarp_threads k i) = []"
    by (simp_all add: banks_def)
  have f: "foldE (bank_access cf w) [] (subwarp_threads k i) = Inr (foldl count_access [] ?L)"
    by (rule bank_accesses_ok[OF assms])
  show ?thesis
  proof (cases "shmem_limited_broadcast cf")
    case True
    show ?thesis
    proof (cases "?L = []")
      case True
      then show ?thesis using f len \<open>shmem_limited_broadcast cf\<close> by (simp add: shared_subwarp_def limited_broadcast_nil)
    next
      case False
      from limited_broadcast_bounds[OF b this] show ?thesis using f len True by (auto simp: shared_subwarp_def)
    qed
  next
    case False
    then show ?thesis using f len degree_bounds[of ?L] max_bank_words_degree[OF b] by (simp add: shared_subwarp_def)
  qed
qed

lemma shared_subwarps_ok:
  assumes "has_addr w" and "num_shmem_bank cf \<noteq> 0"
  shows "\<exists>c. foldE (shared_subwarp cf w k) 0 [0..<p] = Inr c \<and> c \<le> length (active_of w [0..<p * k]) \<and>
    (active_of w [0..<p * k] \<noteq> [] \<longrightarrow> 0 < c) \<and>
    (\<not> shmem_limited_broadcast cf \<longrightarrow> c = (\<Sum>i<p. degree (banks cf w (subwarp_threads k i))))"
proof (induction p)
  case (Suc p)
  then obtain c where c: "foldE (shared_subwarp cf w k) 0 [0..<p] = Inr c" "c \<le> length (active_of w [0..<p * k])"
    "active_of w [0..<p * k] \<noteq> [] \<longrightarrow> 0 < c" "\<not> shmem_limited_broadcast cf \<longrightarrow> c = (\<Sum>i<p. degree (banks cf w (subwarp_threads k i)))"
    by blast
  obtain d where d: "shared_subwarp cf w k c p = Inr (c + d)" "d \<le> length (active_of w (subwarp_threads k p))"
    "active_of w (subwarp_threads k p) \<noteq> [] \<longrightarrow> 0 < d" "\<not> shmem_limited_broadcast cf \<longrightarrow> d = degree (banks cf w (subwarp_threads k p))"
    using shared_subwarp_ok[OF assms] by blast
  have "active_of w [0..<Suc p * k] = active_of w [0..<p * k] @ active_of w (subwarp_threads k p)"
    using upt_add_eq_append[of 0 "p * k" k] by (simp add: active_of_def subwarp_threads_def add.commute)
  then show ?case using c d by (auto simp: foldE_append)
qed (simp add: active_of_def)

text \<open>Claim C24. Bank conflicts (abstract_hardware_model.cc, the shared memory branch of \<open>generate_mem_accesses\<close>): a shared
  memory instruction passes the assertion on its number of cycles whatever addresses its threads have; it takes at
  least one cycle and at most one per active thread, and without limited broadcast exactly, for each subwarp, the
  largest number of different words that its threads read from one bank.\<close>

theorem shared_memory_cycles:
  assumes "pending_request w" and "space_of w = shared_space" and "has_addr w" and "num_shmem_bank cf \<noteq> 0"
    and "0 < mem_warp_parts cf" and "mem_warp_parts cf dvd warp_size cf" and "w_active_mask w \<subseteq> {..<warp_size cf}"
  shows "\<exists>c. generate_mem_accesses cf w = Inr (w\<lparr>w_cycles := of_nat c, w_accesses_created := True\<rparr>) \<and>
    1 \<le> c \<and> c \<le> card (w_active_mask w) \<and>
    (shmem_limited_broadcast cf \<or>
     c = (\<Sum>i<mem_warp_parts cf. degree (banks cf w (subwarp_threads (warp_size cf div mem_warp_parts cf) i))))"
proof -
  let ?k = "warp_size cf div mem_warp_parts cf"
  have k: "mem_warp_parts cf * ?k = warp_size cf" using assms(6) by simp
  obtain c where c: "foldE (shared_subwarp cf w ?k) 0 [0..<mem_warp_parts cf] = Inr c" "c \<le> length (active_of w [0..<warp_size cf])"
    "active_of w [0..<warp_size cf] \<noteq> [] \<longrightarrow> 0 < c"
    "\<not> shmem_limited_broadcast cf \<longrightarrow> c = (\<Sum>i<mem_warp_parts cf. degree (banks cf w (subwarp_threads ?k i)))"
    using shared_subwarps_ok[OF assms(3,4), of ?k "mem_warp_parts cf"] unfolding k by blast
  have "set (active_of w [0..<warp_size cf]) = w_active_mask w" "distinct (active_of w [0..<warp_size cf])"
    using assms(7) by (auto simp: active_of_def)
  then have n: "length (active_of w [0..<warp_size cf]) = card (w_active_mask w)" "active_of w [0..<warp_size cf] \<noteq> []"
    using distinct_card assms(1) by (fastforce simp: pending_request_def)+
  have "length (active_of w [0..<warp_size cf]) \<le> warp_size cf"
    using length_filter_le[of "\<lambda>t. t \<in> w_active_mask w" "[0..<warp_size cf]"] by (simp add: active_of_def)
  then have "shared_conflicts cf w = Inr (w\<lparr>w_cycles := of_nat c\<rparr>)"
    using c(1,2,3) n(2) assms(5) by (simp add: shared_conflicts_def)
  then have "generate_mem_accesses cf w = Inr (w\<lparr>w_cycles := of_nat c, w_accesses_created := True\<rparr>)"
    using assms(1,2) by (auto simp: generate_mem_accesses_def pending_request_def is_load_def is_store_def access_type_of_def)
  then show ?thesis using c(2,3,4) n by auto
qed

theorem shared_memory_cycles_witness:
  "\<exists>c. generate_mem_accesses (demo_core\<lparr>shmem_limited_broadcast := False\<rparr>) (demo_warp shared_space [0, 8, 0, 4]) =
     Inr (demo_warp shared_space [0, 8, 0, 4]\<lparr>w_cycles := of_nat c, w_accesses_created := True\<rparr>) \<and> 1 \<le> c \<and> c \<le> 3"
proof -
  let ?w = "demo_warp shared_space [0, 8, 0, 4]" and ?c = "demo_core\<lparr>shmem_limited_broadcast := False\<rparr>"
  have p: "pending_request ?w" "space_of ?w = shared_space" "num_shmem_bank ?c \<noteq> 0"
    "0 < mem_warp_parts ?c" "mem_warp_parts ?c dvd warp_size ?c" "w_active_mask ?w \<subseteq> {..<warp_size ?c}"
    by (simp_all add: demo_warp_def demo_core_def pending_request_def space_of_def)
  have a: "has_addr ?w" by (simp add: has_addr_def demo_warp_def MAX_WARP_SIZE_def)
  have "card (w_active_mask ?w) = 3" by (simp add: demo_warp_def)
  then show ?thesis using shared_memory_cycles[OF p(1,2) a p(3-6)] by (simp only:) blast
qed


section \<open>One access per cache line\<close>

lemma ucast_diff_32: "(ucast (x - y :: u64) :: u32) = ucast x - ucast y"
proof -
  have "take_bit 32 (i - j) = take_bit 32 (take_bit 64 i - take_bit 64 j)" for i j :: int
    unfolding take_bit_diff[of 32 i j, symmetric] take_bit_diff[of 32 "take_bit 64 i" "take_bit 64 j", symmetric] by simp
  then show ?thesis by transfer (simp add: take_bit_diff)
qed

lemma tag_word: "line_size_based_tag_func a (2 ^ n) = push_bit n (drop_bit n (ucast a :: u32))"
proof -
  have "line_size_based_tag_func a (2 ^ n) = ucast (push_bit n (drop_bit n a))"
    by (simp add: line_size_based_tag_func_def and_not_mask_shift flip: mask_eq_exp_minus_1)
  also have "\<dots> = push_bit n (drop_bit n (ucast a :: u32))" by (rule bit_eqI) (auto simp: bit_simps)
  finally show ?thesis .
qed

lemma line_offset: "unat (ucast (a - ucast (line_size_based_tag_func a (2 ^ n))) :: u32) = low32 a mod 2 ^ n"
proof -
  have "(ucast (ucast (line_size_based_tag_func a (2 ^ n)) :: u64) :: u32) = line_size_based_tag_func a (2 ^ n)"
    by (rule bit_eqI) (auto simp: bit_simps)
  then have "(ucast (a - ucast (line_size_based_tag_func a (2 ^ n))) :: u32) = ucast a - push_bit n (drop_bit n (ucast a))"
    by (simp only: ucast_diff_32 tag_word)
  also have "\<dots> = take_bit n (ucast a :: u32)" using bits_ident[of n "ucast a :: u32"] by (simp add: algebra_simps)
  finally show ?thesis
    unfolding low32_def by (simp only: unsigned_take_bit_eq unsigned_ucast_eq take_bit_eq_mod[where 'a = nat]) simp
qed

lemma line_size_cases:
  assumes "n \<le> 7"
  shows "(2 ^ n :: u32) \<noteq> 0" "(ucast (2 ^ n :: u32) :: u64) = 2 ^ n" "unat (2 ^ n :: u32) = 2 ^ n"
proof -
  have n: "n \<in> {0, 1, 2, 3, 4, 5, 6, 7}" using assms by auto
  show "(2 ^ n :: u32) \<noteq> 0" using n by auto
  show "(ucast (2 ^ n :: u32) :: u64) = 2 ^ n" using n by auto
  show "unat (2 ^ n :: u32) = 2 ^ n" using n by auto
qed

text \<open>The line of an address, and the table after the threads \<open>ts\<close>.\<close>

definition line_of :: "u32 \<Rightarrow> u64 \<Rightarrow> u64" where "line_of sz a = ucast (line_size_based_tag_func a (ucast sz))"

definition lined :: "u32 \<Rightarrow> warp_inst \<Rightarrow> nat list \<Rightarrow> (u64 \<times> nat set) list \<Rightarrow> bool" where
  "lined sz w ts m \<longleftrightarrow> sorted_keys m \<and> fst ` set m = (\<lambda>t. line_of sz (first_addr w t)) ` set (active_of w ts) \<and>
     (\<forall>p \<in> set m. snd p = {t \<in> set (active_of w ts). line_of sz (first_addr w t) = fst p})"

definition touched :: "u32 \<Rightarrow> warp_inst \<Rightarrow> nat list \<Rightarrow> nat set" where
  "touched sz w ts = (\<Union>t \<in> set (active_of w ts).
     {low32 (first_addr w t) mod unat sz..<low32 (first_addr w t) mod unat sz + w_data_size w})"

lemma line_access_ok:
  assumes h: "has_addr w" and sz: "sz = 2 ^ n" "n \<le> 7" and t: "t \<in> w_active_mask w \<longrightarrow> low32 (first_addr w t) mod 2 ^ n + w_data_size w \<le> 128"
    and m: "lined sz w ts m"
  shows "\<exists>m'. line_access sz w (m, touched sz w ts) t = Inr (m', touched sz w (ts @ [t])) \<and> lined sz w (ts @ [t]) m'"
proof (cases "t \<in> w_active_mask w")
  case False
  then show ?thesis using m by (simp add: line_access_def lined_def touched_def active_of_def)
next
  case True
  let ?a = "first_addr w t" and ?k = "line_of sz (first_addr w t)"
  have s: "sorted_keys m" using m by (simp add: lined_def)
  have u: "(ucast sz :: u64) = 2 ^ n" "unat sz = 2 ^ n" using line_size_cases[OF sz(2)] sz(1) by simp_all
  have old: "smap_get m ?k {} = {x \<in> set (active_of w ts). line_of sz (first_addr w x) = ?k}"
  proof (cases "?k \<in> fst ` set m")
    case True
    have "\<forall>p \<in> set m. snd p = {x \<in> set (active_of w ts). line_of sz (first_addr w x) = fst p}" using m unfolding lined_def by blast
    from bspec[OF this smap_get_mem[OF True]] show ?thesis by (simp only: fst_conv snd_conv)
  next
    case False
    then have "?k \<notin> (\<lambda>t. line_of sz (first_addr w t)) ` set (active_of w ts)" using m by (simp add: lined_def)
    then have "{x \<in> set (active_of w ts). line_of sz (first_addr w x) = ?k} = {}" by (metis (mono_tags, lifting) Collect_empty_eq image_eqI)
    then show ?thesis using smap_get_out[OF False] by simp
  qed
  let ?m = "smap_put ?k (insert t (smap_get m ?k {})) m"
  have at: "set (active_of w (ts @ [t])) = insert t (set (active_of w ts))" using True by (simp add: active_of_def)
  have idx: "unat (ucast (?a - ucast (line_size_based_tag_func ?a (ucast sz))) :: u32) = low32 ?a mod 2 ^ n"
    using line_offset[of ?a n] by (simp only: u(1))
  have "bitset_range MAX_MEMORY_ACCESS_SIZE (low32 ?a mod 2 ^ n) (w_data_size w) (touched sz w ts) = Inr (touched sz w (ts @ [t]))"
    using t True by (simp add: bitset_range_ok MAX_MEMORY_ACCESS_SIZE_def touched_def at u(2) Un_commute)
  then have "line_access sz w (m, touched sz w ts) t = Inr (?m, touched sz w (ts @ [t]))"
    using True has_addr_thread[OF h True] idx by (simp add: line_access_def Let_def bitset_set_def line_of_def)
  moreover have "snd p = {x \<in> set (active_of w (ts @ [t])). line_of sz (first_addr w x) = fst p}" if "p \<in> set ?m" for p
    using that m old unfolding smap_put_set[OF s] at lined_def by auto
  then have "lined sz w (ts @ [t]) ?m"
    using m smap_put_sorted[OF s] smap_put_keys[of ?k _ m] unfolding lined_def at by simp
  ultimately show ?thesis by blast
qed

lemma line_accesses_ok:
  assumes h: "has_addr w" and sz: "sz = 2 ^ n" "n \<le> 7"
    and t: "\<forall>t \<in> w_active_mask w. low32 (first_addr w t) mod 2 ^ n + w_data_size w \<le> 128"
  shows "\<exists>m. foldE (line_access sz w) ([], {}) ts = Inr (m, touched sz w ts) \<and> lined sz w ts m"
proof (induction ts rule: rev_induct)
  case Nil
  show ?case by (simp add: lined_def touched_def active_of_def sorted_keys_def)
next
  case (snoc t ts)
  then obtain m where m: "foldE (line_access sz w) ([], {}) ts = Inr (m, touched sz w ts)" "lined sz w ts m" by blast
  from line_access_ok[OF h sz _ m(2), of t] assms(4) m(1) show ?case by (auto simp: foldE_append)
qed

definition line_size_of :: "core_config \<Rightarrow> warp_inst \<Rightarrow> u32" where
  "line_size_of cf w = (if space_of w = tex_space then gpgpu_cache_texl1_linesize cf else gpgpu_cache_constl1_linesize cf)"

text \<open>Texture and constant accesses (abstract_hardware_model.cc \<open>generate_mem_accesses\<close>): with lines of at most
  128 bytes that are a power of two and threads that stay in their line, a load of texture or constant memory queues
  exactly one access for each line its active threads touch, in the order of the addresses, and the mask of an access
  holds the threads of its line.\<close>

theorem one_access_per_line:
  assumes "pending_request w" and "space_of w \<in> {tex_space, const_space, param_space_kernel}" and "w_accessq w = []"
    and "has_addr w" and "w_active_mask w \<subseteq> {..<warp_size cf}" and "line_size_of cf w = 2 ^ n" and "n \<le> 7"
    and "\<forall>t \<in> w_active_mask w. low32 (first_addr w t) mod 2 ^ n + w_data_size w \<le> 2 ^ n"
  shows "\<exists>xs. generate_mem_accesses cf w = Inr (w\<lparr>w_accessq := xs, w_accesses_created := True\<rparr>) \<and>
    sorted_wrt (<) (map ma_addr xs) \<and> ma_addr ` set xs = (\<lambda>t. line_of (2 ^ n) (first_addr w t)) ` w_active_mask w \<and>
    (\<forall>x \<in> set xs. ma_size x = 2 ^ n \<and> ma_warp_mask x = {t \<in> w_active_mask w. line_of (2 ^ n) (first_addr w t) = ma_addr x})"
proof -
  let ?sz = "2 ^ n :: u32" and ?ty = "if space_of w = tex_space then TEXTURE_ACC_R else CONST_ACC_R" and ?wr = "is_store (w_inst w)"
  have p: "(2::nat) ^ n \<le> 128" using power_increasing[OF assms(7), of "2::nat"] by simp
  have "\<forall>t \<in> w_active_mask w. low32 (first_addr w t) mod 2 ^ n + w_data_size w \<le> 128" using assms(8) p by fastforce
  from line_accesses_ok[OF assms(4) refl assms(7) this, of "[0..<warp_size cf]"] obtain m where
    m: "foldE (line_access ?sz w) ([], {}) [0..<warp_size cf] = Inr (m, touched ?sz w [0..<warp_size cf])"
      "lined ?sz w [0..<warp_size cf] m" by blast
  have act: "set (active_of w [0..<warp_size cf]) = w_active_mask w" using assms(5) by (auto simp: active_of_def)
  have nz: "?sz \<noteq> 0" by (rule line_size_cases(1)[OF assms(7)])
  let ?f = "\<lambda>(a, mask). new_mem_access ?ty a ?sz ?wr mask (touched ?sz w [0..<warp_size cf]) []"
  have l: "line_accesses cf ?sz ?wr ?ty w = Inr (w\<lparr>w_accessq := map ?f m\<rparr>)"
    using m(1) nz assms(3) by (simp add: line_accesses_def split_def)
  have "generate_mem_accesses cf w = bindE (line_accesses cf ?sz ?wr ?ty w) (\<lambda>w'. Inr (w'\<lparr>w_accesses_created := True\<rparr>))"
    using assms(1,2,6) by (auto simp: generate_mem_accesses_def pending_request_def is_load_def is_store_def access_type_of_def
        line_size_of_def)
  then have g: "generate_mem_accesses cf w = Inr (w\<lparr>w_accessq := map ?f m, w_accesses_created := True\<rparr>)" by (simp add: l)
  have f: "ma_addr (?f q) = fst q" "ma_size (?f q) = ?sz" "ma_warp_mask (?f q) = snd q" for q
    by (cases q; simp add: new_mem_access_def)+
  define xs where "xs = map ?f m"
  have "map ma_addr xs = map fst m" unfolding xs_def using f(1) by simp
  moreover from this have "ma_addr ` set xs = fst ` set m" by (metis set_map)
  moreover have "\<forall>x \<in> set xs. ma_size x = ?sz \<and> ma_warp_mask x = {t \<in> w_active_mask w. line_of ?sz (first_addr w t) = ma_addr x}"
    unfolding xs_def using m(2) f unfolding lined_def act by simp
  ultimately show ?thesis using m(2) g unfolding lined_def act sorted_keys_def xs_def[symmetric]
    by (intro exI[of _ xs]) (simp only: simp_thms)
qed

theorem one_access_per_line_witness:
  "\<exists>xs. generate_mem_accesses demo_core (demo_warp tex_space [260, 0, 0, 256]) =
     Inr (demo_warp tex_space [260, 0, 0, 256]\<lparr>w_accessq := xs, w_accesses_created := True\<rparr>) \<and> ma_addr ` set xs = {0, 256}"
proof -
  let ?w = "demo_warp tex_space [260, 0, 0, 256]"
  have p: "pending_request ?w" "space_of ?w \<in> {tex_space, const_space, param_space_kernel}" "w_accessq ?w = []"
    "w_active_mask ?w \<subseteq> {..<warp_size demo_core}" "line_size_of demo_core ?w = 2 ^ 6" "(6::nat) \<le> 7"
    by (simp_all add: demo_warp_def demo_core_def pending_request_def space_of_def line_size_of_def)
  have h: "has_addr ?w" by (simp add: has_addr_def demo_warp_def MAX_WARP_SIZE_def)
  have a: "\<forall>t \<in> w_active_mask ?w. low32 (first_addr ?w t) mod 2 ^ 6 + w_data_size ?w \<le> 2 ^ 6"
    by (simp add: first_addr_def demo_warp_def low32_def)
  have "(\<lambda>t. line_of (2 ^ 6) (first_addr ?w t)) ` w_active_mask ?w = {0, 256}"
    by (simp add: first_addr_def demo_warp_def line_of_def line_size_based_tag_func_def insert_commute)
  then show ?thesis using one_access_per_line[OF p(1-3) h p(4-6) a] by (simp only:) blast
qed

end
