(* ===== verification/Arbiters.thy ===== *)
theory Arbiters
  imports Cxx_Prelude
begin

text \<open>
  The arbiters of the network (intersim2/arbiters): each input may place one request with a priority, \<open>Arbitrate\<close> picks a
  winner of the highest priority, and \<open>UpdateState\<close> lowers the winner for the next time.  The contract that the
  allocators rely on, with the round-robin and the matrix arbiter as its instances, and the fairness of round robin.
  Inputs are natural numbers, \<open>-1\<close> is \<open>None\<close>.  The virtual functions of an arbiter are a record of operations.
\<close>

section \<open>The arbiters\<close>

record entry =
  e_valid :: bool
  e_id :: int
  e_pri :: int

record arbiter =
  a_request :: "entry list"
  a_size :: nat
  a_selected :: "nat option"
  a_highest_pri :: int
  a_best_input :: "nat option"
  a_num_reqs :: nat

record rr_arbiter = arbiter +
  rr_pointer :: nat

record matrix_arbiter = arbiter +
  mx_matrix :: "bool list list"
  mx_last_req :: "nat option"

definition int_min :: int where "int_min = - (2 ^ 31)"

definition no_entry :: entry where "no_entry = \<lparr>e_valid = False, e_id = 0, e_pri = 0\<rparr>"

definition Arbiter_AddRequest :: "'m arbiter_scheme \<Rightarrow> nat \<Rightarrow> int \<Rightarrow> int \<Rightarrow> 'm arbiter_scheme cxx" where
  "Arbiter_AddRequest a input lab pri =
     assertE (input < a_size a) (assertE (\<not> e_valid (a_request a ! input))
       (Inr (a\<lparr>a_num_reqs := a_num_reqs a + 1,
               a_request := (a_request a)[input := \<lparr>e_valid = True, e_id = lab, e_pri = pri\<rparr>]\<rparr>)))"

text \<open>The winner with its identifier and its priority.\<close>

definition Arbiter_Arbitrate :: "'m arbiter_scheme \<Rightarrow> (nat \<times> int \<times> int) option cxx" where
  "Arbiter_Arbitrate a = (case a_selected a of
     None \<Rightarrow> assertE (a_num_reqs a = 0) (Inr None)
   | Some s \<Rightarrow> if s < length (a_request a) then Inr (Some (s, e_id (a_request a ! s), e_pri (a_request a ! s)))
       else Inl Out_Of_Range)"

definition Arbiter_Clear :: "'m arbiter_scheme \<Rightarrow> 'm arbiter_scheme" where
  "Arbiter_Clear a = (if 0 < a_num_reqs a
     then a\<lparr>a_request := map (\<lambda>e. e\<lparr>e_valid := False\<rparr>) (a_request a), a_num_reqs := 0, a_selected := None\<rparr> else a)"

subsection \<open>Round robin\<close>

definition new_rr :: "nat \<Rightarrow> rr_arbiter" where
  "new_rr size' = \<lparr>a_request = replicate size' no_entry, a_size = size', a_selected = None, a_highest_pri = int_min,
     a_best_input = None, a_num_reqs = 0, rr_pointer = 0\<rparr>"

definition rr_distance :: "int \<Rightarrow> int \<Rightarrow> int \<Rightarrow> int" where
  "rr_distance input offset size' = (input - offset + size') mod size'"

definition Supersedes :: "int \<Rightarrow> int \<Rightarrow> int \<Rightarrow> int \<Rightarrow> int \<Rightarrow> int \<Rightarrow> bool" where
  "Supersedes input1 pri1 input2 pri2 offset size' \<longleftrightarrow>
     pri2 < pri1 \<or> pri1 = pri2 \<and> rr_distance input1 offset size' < rr_distance input2 offset size'"

definition rr_AddRequest :: "rr_arbiter \<Rightarrow> nat \<Rightarrow> int \<Rightarrow> int \<Rightarrow> rr_arbiter cxx" where
  "rr_AddRequest a input lab pri =
     (if \<not> input < length (a_request a) then Inl Out_Of_Range
      else let e = a_request a ! input;
               best = (case a_best_input a of None \<Rightarrow> -1 | Some b \<Rightarrow> int b);
               better = (a_num_reqs a = 0 \<or> Supersedes (int input) pri best (a_highest_pri a) (int (rr_pointer a)) (int (a_size a)));
               a1 = (if (\<not> e_valid e \<or> e_pri e < pri) \<and> better
                     then a\<lparr>a_highest_pri := pri, a_best_input := Some input\<rparr> else a)
           in Arbiter_AddRequest a1 input lab pri)"

definition rr_Arbitrate :: "rr_arbiter \<Rightarrow> (rr_arbiter \<times> (nat \<times> int \<times> int) option) cxx" where
  "rr_Arbitrate a = (let a1 = a\<lparr>a_selected := a_best_input a\<rparr> in bindE (Arbiter_Arbitrate a1) (\<lambda>w. Inr (a1, w)))"

definition rr_UpdateState :: "rr_arbiter \<Rightarrow> rr_arbiter" where
  "rr_UpdateState a = (case a_selected a of None \<Rightarrow> a | Some s \<Rightarrow> a\<lparr>rr_pointer := (s + 1) mod a_size a\<rparr>)"

definition rr_Clear :: "rr_arbiter \<Rightarrow> rr_arbiter" where
  "rr_Clear a = Arbiter_Clear (a\<lparr>a_highest_pri := int_min, a_best_input := None\<rparr>)"

subsection \<open>Matrix\<close>

definition new_matrix :: "nat \<Rightarrow> matrix_arbiter" where
  "new_matrix size' = \<lparr>a_request = replicate size' no_entry, a_size = size', a_selected = None, a_highest_pri = int_min,
     a_best_input = None, a_num_reqs = 0,
     mx_matrix = map (\<lambda>i. map (\<lambda>j. j < i) [0..<size']) [0..<size'], mx_last_req = None\<rparr>"

definition matrix_UpdateState :: "matrix_arbiter \<Rightarrow> matrix_arbiter" where
  "matrix_UpdateState a = (case a_selected a of None \<Rightarrow> a
     | Some s \<Rightarrow> a\<lparr>mx_matrix := map (\<lambda>i. map (\<lambda>j.
         if i = j then mx_matrix a ! i ! j else if i = s then False else if j = s then True else mx_matrix a ! i ! j)
         [0..<a_size a]) [0..<a_size a]\<rparr>)"

definition matrix_AddRequest :: "matrix_arbiter \<Rightarrow> nat \<Rightarrow> int \<Rightarrow> int \<Rightarrow> matrix_arbiter cxx" where
  "matrix_AddRequest a input lab pri = Arbiter_AddRequest (a\<lparr>mx_last_req := Some input\<rparr>) input lab pri"

text \<open>Whether \<open>i\<close> keeps \<open>input\<close> from being granted.\<close>

definition blocks :: "matrix_arbiter \<Rightarrow> nat \<Rightarrow> nat \<Rightarrow> bool" where
  "blocks a input i \<longleftrightarrow> e_valid (a_request a ! i) \<and>
     (e_pri (a_request a ! i) = e_pri (a_request a ! input) \<and> mx_matrix a ! i ! input \<or>
      e_pri (a_request a ! input) < e_pri (a_request a ! i))"

definition matrix_Arbitrate :: "matrix_arbiter \<Rightarrow> (matrix_arbiter \<times> (nat \<times> int \<times> int) option) cxx" where
  "matrix_Arbitrate a =
     (let sel = (if a_num_reqs a < 2 then mx_last_req a
         else List.find (\<lambda>input. e_valid (a_request a ! input) \<and> list_all (\<lambda>i. \<not> blocks a input i) [0..<a_size a]) [0..<a_size a]);
          a1 = a\<lparr>a_selected := sel\<rparr>
      in bindE (Arbiter_Arbitrate a1) (\<lambda>w. Inr (a1, w)))"

definition matrix_Clear :: "matrix_arbiter \<Rightarrow> matrix_arbiter" where
  "matrix_Clear a = Arbiter_Clear (a\<lparr>mx_last_req := None\<rparr>)"

section \<open>The contract\<close>

record 'a arb_ops =
  op_add :: "'a \<Rightarrow> nat \<Rightarrow> int \<Rightarrow> int \<Rightarrow> 'a cxx"
  op_arbitrate :: "'a \<Rightarrow> ('a \<times> (nat \<times> int \<times> int) option) cxx"
  op_update :: "'a \<Rightarrow> 'a"
  op_clear :: "'a \<Rightarrow> 'a"
  op_num_reqs :: "'a \<Rightarrow> nat"

definition rr_ops :: "rr_arbiter arb_ops" where
  "rr_ops = \<lparr>op_add = rr_AddRequest, op_arbitrate = rr_Arbitrate, op_update = rr_UpdateState, op_clear = rr_Clear,
     op_num_reqs = a_num_reqs\<rparr>"

definition matrix_ops :: "matrix_arbiter arb_ops" where
  "matrix_ops = \<lparr>op_add = matrix_AddRequest, op_arbitrate = matrix_Arbitrate, op_update = matrix_UpdateState,
     op_clear = matrix_Clear, op_num_reqs = a_num_reqs\<rparr>"

text \<open>The requests of an arbiter: identifier and priority of each input.  The winner is among those of highest priority.\<close>

type_synonym requests = "nat \<Rightarrow> (int \<times> int) option"

definition wins :: "requests \<Rightarrow> (nat \<times> int \<times> int) option \<Rightarrow> bool" where
  "wins R w \<longleftrightarrow> (case w of None \<Rightarrow> R = Map.empty
     | Some (s, lab, pri) \<Rightarrow> R s = Some (lab, pri) \<and> (\<forall>j q. R j = Some q \<longrightarrow> snd q \<le> pri))"

locale arbiter_contract =
  fixes V :: "'a arb_ops" and ok :: "nat \<Rightarrow> 'a \<Rightarrow> bool" and reqs :: "'a \<Rightarrow> requests"
  assumes add_ok: "ok n a \<Longrightarrow> i < n \<Longrightarrow> reqs a i = None \<Longrightarrow>
      \<exists>b. op_add V a i lab pri = Inr b \<and> ok n b \<and> reqs b = (reqs a)(i \<mapsto> (lab, pri))"
    and arbitrate_ok: "ok n a \<Longrightarrow> \<exists>b w. op_arbitrate V a = Inr (b, w) \<and> ok n b \<and> reqs b = reqs a \<and> wins (reqs a) w"
    and update_ok: "ok n a \<Longrightarrow> ok n (op_update V a) \<and> reqs (op_update V a) = reqs a"
    and clear_ok: "ok n a \<Longrightarrow> ok n (op_clear V a) \<and> reqs (op_clear V a) = Map.empty"
    and num_reqs_ok: "ok n a \<Longrightarrow> op_num_reqs V a = 0 \<longleftrightarrow> reqs a = Map.empty"


section \<open>Requests\<close>

definition pending :: "'m arbiter_scheme \<Rightarrow> requests" where
  "pending a i = (if i < length (a_request a) \<and> e_valid (a_request a ! i)
     then Some (e_id (a_request a ! i), e_pri (a_request a ! i)) else None)"

definition base_ok :: "nat \<Rightarrow> 'm arbiter_scheme \<Rightarrow> bool" where
  "base_ok n a \<longleftrightarrow> a_size a = n \<and> length (a_request a) = n \<and> a_num_reqs a = card (dom (pending a))"

lemma dom_pending: "dom (pending a) \<subseteq> {..<length (a_request a)}"
  by (auto simp: pending_def split: if_splits)

lemma finite_pending [simp]: "finite (dom (pending a))"
  using dom_pending finite_subset by blast

lemma num_reqs_empty: "base_ok n a \<Longrightarrow> a_num_reqs a = 0 \<longleftrightarrow> pending a = Map.empty"
  by (simp add: base_ok_def)

lemma pending_put:
  assumes "i < length (a_request a)"
  shows "pending (a\<lparr>a_num_reqs := k, a_request := (a_request a)[i := \<lparr>e_valid = True, e_id = lab, e_pri = pri\<rparr>]\<rparr>) =
    (pending a)(i \<mapsto> (lab, pri))"
  using assms by (auto simp: pending_def fun_eq_iff nth_list_update)

lemma base_add:
  assumes "base_ok n a" and "i < n" and "pending a i = None"
  shows "Arbiter_AddRequest a i lab pri = Inr (a\<lparr>a_num_reqs := a_num_reqs a + 1,
      a_request := (a_request a)[i := \<lparr>e_valid = True, e_id = lab, e_pri = pri\<rparr>]\<rparr>)"
    and "base_ok n (a\<lparr>a_num_reqs := a_num_reqs a + 1, a_request := (a_request a)[i := \<lparr>e_valid = True, e_id = lab, e_pri = pri\<rparr>]\<rparr>)"
proof -
  have i: "i < length (a_request a)" "\<not> e_valid (a_request a ! i)" using assms by (auto simp: base_ok_def pending_def split: if_splits)
  then show "Arbiter_AddRequest a i lab pri = Inr (a\<lparr>a_num_reqs := a_num_reqs a + 1,
      a_request := (a_request a)[i := \<lparr>e_valid = True, e_id = lab, e_pri = pri\<rparr>]\<rparr>)"
    using assms(1) by (simp add: Arbiter_AddRequest_def base_ok_def)
  have "i \<notin> dom (pending a)" using assms(3) by auto
  then have "card (dom ((pending a)(i \<mapsto> (lab, pri)))) = card (dom (pending a)) + 1" by simp
  then show "base_ok n (a\<lparr>a_num_reqs := a_num_reqs a + 1, a_request := (a_request a)[i := \<lparr>e_valid = True, e_id = lab, e_pri = pri\<rparr>]\<rparr>)"
    using assms(1) unfolding base_ok_def pending_put[OF i(1)] by simp
qed

lemma base_clear:
  assumes "base_ok n a"
  shows "base_ok n (Arbiter_Clear a) \<and> pending (Arbiter_Clear a) = Map.empty"
proof (cases "0 < a_num_reqs a")
  case True
  then have "pending (Arbiter_Clear a) = Map.empty" by (auto simp: Arbiter_Clear_def pending_def fun_eq_iff)
  then show ?thesis using assms True by (simp add: base_ok_def Arbiter_Clear_def)
next
  case False
  then show ?thesis using assms num_reqs_empty[OF assms] by (simp add: Arbiter_Clear_def)
qed

lemma base_more:
  "pending (a\<lparr>a_highest_pri := x, a_best_input := y\<rparr>) = pending a" "pending (a\<lparr>a_selected := z\<rparr>) = pending a"
  "base_ok n (a\<lparr>a_highest_pri := x, a_best_input := y\<rparr>) = base_ok n a" "base_ok n (a\<lparr>a_selected := z\<rparr>) = base_ok n a"
  "pending (b\<lparr>rr_pointer := p\<rparr>) = pending b" "base_ok n (b\<lparr>rr_pointer := p\<rparr>) = base_ok n b"
  "pending (c\<lparr>mx_matrix := m\<rparr>) = pending c" "base_ok n (c\<lparr>mx_matrix := m\<rparr>) = base_ok n c"
  "pending (c\<lparr>mx_last_req := l\<rparr>) = pending c" "base_ok n (c\<lparr>mx_last_req := l\<rparr>) = base_ok n c"
proof -
  have p: "pending (a\<lparr>a_highest_pri := x, a_best_input := y\<rparr>) = pending a" "pending (a\<lparr>a_selected := z\<rparr>) = pending a"
    "pending (b\<lparr>rr_pointer := p\<rparr>) = pending b" "pending (c\<lparr>mx_matrix := m\<rparr>) = pending c" "pending (c\<lparr>mx_last_req := l\<rparr>) = pending c"
    by (simp_all add: pending_def fun_eq_iff)
  show "pending (a\<lparr>a_highest_pri := x, a_best_input := y\<rparr>) = pending a" "pending (a\<lparr>a_selected := z\<rparr>) = pending a"
    "base_ok n (a\<lparr>a_highest_pri := x, a_best_input := y\<rparr>) = base_ok n a" "base_ok n (a\<lparr>a_selected := z\<rparr>) = base_ok n a"
    "pending (b\<lparr>rr_pointer := p\<rparr>) = pending b" "base_ok n (b\<lparr>rr_pointer := p\<rparr>) = base_ok n b"
    "pending (c\<lparr>mx_matrix := m\<rparr>) = pending c" "base_ok n (c\<lparr>mx_matrix := m\<rparr>) = base_ok n c"
    "pending (c\<lparr>mx_last_req := l\<rparr>) = pending c" "base_ok n (c\<lparr>mx_last_req := l\<rparr>) = base_ok n c"
    by (simp_all add: base_ok_def p)
qed

lemma base_arbitrate:
  assumes "base_ok n a" and "case a_selected a of None \<Rightarrow> pending a = Map.empty | Some s \<Rightarrow> pending a s \<noteq> None"
  shows "Arbiter_Arbitrate a = Inr (case a_selected a of None \<Rightarrow> None | Some s \<Rightarrow> Some (s, the (pending a s)))"
proof (cases "a_selected a")
  case None
  then show ?thesis using assms num_reqs_empty[OF assms(1)] by (simp add: Arbiter_Arbitrate_def)
next
  case (Some s)
  then have "s < length (a_request a) \<and> e_valid (a_request a ! s)" using assms(2) by (auto simp: pending_def split: if_splits)
  then show ?thesis using Some by (simp add: Arbiter_Arbitrate_def pending_def)
qed

section \<open>Round robin\<close>

definition rr_ok :: "nat \<Rightarrow> rr_arbiter \<Rightarrow> bool" where
  "rr_ok n a \<longleftrightarrow> base_ok n a \<and>
     (case a_best_input a of None \<Rightarrow> pending a = Map.empty
      | Some b \<Rightarrow> (\<exists>lab. pending a b = Some (lab, a_highest_pri a)) \<and> (\<forall>j q. pending a j = Some q \<longrightarrow> snd q \<le> a_highest_pri a))"

lemma rr_add_cases:
  assumes "base_ok n a" and "i < n" and "pending a i = None" and "a_best_input a = None \<longrightarrow> pending a = Map.empty"
  shows "\<exists>b. rr_AddRequest a i lab pri = Inr b \<and> base_ok n b \<and> pending b = (pending a)(i \<mapsto> (lab, pri)) \<and>
    rr_pointer b = rr_pointer a \<and>
    (if pending a = Map.empty \<or> Supersedes (int i) pri (int (the (a_best_input a))) (a_highest_pri a) (int (rr_pointer a)) (int n)
     then a_best_input b = Some i \<and> a_highest_pri b = pri
     else a_best_input b = a_best_input a \<and> a_highest_pri b = a_highest_pri a)"
proof -
  have l: "i < length (a_request a)" "\<not> e_valid (a_request a ! i)" "a_size a = n"
    using assms(1-3) by (auto simp: base_ok_def pending_def split: if_splits)
  let ?B = "pending a = Map.empty \<or> Supersedes (int i) pri (int (the (a_best_input a))) (a_highest_pri a) (int (rr_pointer a)) (int n)"
  define a1 where "a1 = (if ?B then a\<lparr>a_highest_pri := pri, a_best_input := Some i\<rparr> else a)"
  have eq: "rr_AddRequest a i lab pri = Arbiter_AddRequest a1 i lab pri"
    using l assms(4) num_reqs_empty[OF assms(1)]
    by (cases "a_best_input a") (simp_all add: rr_AddRequest_def Let_def a1_def)
  have a1: "base_ok n a1" "pending a1 = pending a" by (simp_all add: a1_def base_more assms(1))
  have p: "pending a1 i = None" using a1(2) assms(3) by simp
  have len: "i < length (a_request a1)" using a1(1) assms(2) by (simp add: base_ok_def)
  note b = base_add[OF a1(1) assms(2) p, of lab pri]
  show ?thesis using b a1(2) by (simp add: eq pending_put[OF len]) (simp add: a1_def)
qed

lemma rr_add_ok:
  assumes "rr_ok n a" and "i < n" and "pending a i = None"
  shows "\<exists>b. rr_AddRequest a i lab pri = Inr b \<and> rr_ok n b \<and> pending b = (pending a)(i \<mapsto> (lab, pri))"
proof -
  have "base_ok n a" "a_best_input a = None \<longrightarrow> pending a = Map.empty" using assms(1) by (auto simp: rr_ok_def)
  from rr_add_cases[OF this(1) assms(2,3) this(2), of lab pri] obtain b where
    b: "rr_AddRequest a i lab pri = Inr b" "base_ok n b" "pending b = (pending a)(i \<mapsto> (lab, pri))"
    "if pending a = Map.empty \<or> Supersedes (int i) pri (int (the (a_best_input a))) (a_highest_pri a) (int (rr_pointer a)) (int n)
     then a_best_input b = Some i \<and> a_highest_pri b = pri
     else a_best_input b = a_best_input a \<and> a_highest_pri b = a_highest_pri a" by blast
  have "rr_ok n b"
  proof (cases "a_best_input a")
    case None
    then have "pending a = Map.empty" using assms(1) by (simp add: rr_ok_def)
    then show ?thesis using b by (simp add: rr_ok_def)
  next
    case (Some k)
    then obtain l where k: "pending a k = Some (l, a_highest_pri a)" "\<forall>j q. pending a j = Some q \<longrightarrow> snd q \<le> a_highest_pri a"
      using assms(1) by (auto simp: rr_ok_def)
    then have ki: "k \<noteq> i" "pending a \<noteq> Map.empty" using assms(3) by auto
    show ?thesis
    proof (cases "Supersedes (int i) pri (int k) (a_highest_pri a) (int (rr_pointer a)) (int n)")
      case True
      then have "a_highest_pri a \<le> pri" by (auto simp: Supersedes_def)
      then have "\<forall>j q. ((pending a)(i \<mapsto> (lab, pri))) j = Some q \<longrightarrow> snd q \<le> pri" using k(2) by (auto intro: order_trans)
      moreover have "a_best_input b = Some i" "a_highest_pri b = pri" using b(4) True Some by simp_all
      ultimately show ?thesis using b(2,3) by (simp add: rr_ok_def)
    next
      case False
      then have "pri \<le> a_highest_pri a" by (auto simp: Supersedes_def)
      then have "\<forall>j q. ((pending a)(i \<mapsto> (lab, pri))) j = Some q \<longrightarrow> snd q \<le> a_highest_pri a" using k(2) by auto
      moreover have "a_best_input b = Some k" "a_highest_pri b = a_highest_pri a" using b(4) False Some ki(2) by simp_all
      ultimately show ?thesis using b(2,3) k(1) ki(1) by (simp add: rr_ok_def)
    qed
  qed
  then show ?thesis using b by blast
qed

lemma rr_arbitrate_eq:
  assumes "base_ok n a" and "case a_best_input a of None \<Rightarrow> pending a = Map.empty | Some s \<Rightarrow> pending a s \<noteq> None"
  shows "rr_Arbitrate a = Inr (a\<lparr>a_selected := a_best_input a\<rparr>,
    case a_best_input a of None \<Rightarrow> None | Some s \<Rightarrow> Some (s, the (pending a s)))"
  using base_arbitrate[of n "a\<lparr>a_selected := a_best_input a\<rparr>"] assms
  by (cases "a_best_input a") (simp_all add: rr_Arbitrate_def base_more Let_def)

lemma rr_arbitrate_ok:
  assumes "rr_ok n a"
  shows "\<exists>b w. rr_Arbitrate a = Inr (b, w) \<and> rr_ok n b \<and> pending b = pending a \<and> wins (pending a) w"
proof -
  have "base_ok n a" "case a_best_input a of None \<Rightarrow> pending a = Map.empty | Some s \<Rightarrow> pending a s \<noteq> None"
    using assms by (auto simp: rr_ok_def split: option.splits)
  from rr_arbitrate_eq[OF this] assms show ?thesis
    by (auto simp: rr_ok_def base_more wins_def split: option.splits)
qed

lemma rr_update_ok: "rr_ok n a \<Longrightarrow> rr_ok n (rr_UpdateState a) \<and> pending (rr_UpdateState a) = pending a"
  by (cases "a_selected a"; cases "a_best_input a") (simp_all add: rr_UpdateState_def rr_ok_def base_more)

lemma rr_clear_ok: "rr_ok n a \<Longrightarrow> rr_ok n (rr_Clear a) \<and> pending (rr_Clear a) = Map.empty"
  using base_clear[of n "a\<lparr>a_highest_pri := int_min, a_best_input := None\<rparr>"]
  by (auto simp: rr_ok_def rr_Clear_def base_more) (auto simp: Arbiter_Clear_def split: if_splits)

interpretation rr: arbiter_contract rr_ops rr_ok pending
proof unfold_locales
  fix n a i lab pri assume "rr_ok n a" "i < n" "pending a i = None"
  then show "\<exists>b. op_add rr_ops a i lab pri = Inr b \<and> rr_ok n b \<and> pending b = (pending a)(i \<mapsto> (lab, pri))"
    using rr_add_ok by (simp add: rr_ops_def)
next
  fix n a assume a: "rr_ok n a"
  show "\<exists>b w. op_arbitrate rr_ops a = Inr (b, w) \<and> rr_ok n b \<and> pending b = pending a \<and> wins (pending a) w"
    using rr_arbitrate_ok[OF a] by (simp add: rr_ops_def)
  show "rr_ok n (op_update rr_ops a) \<and> pending (op_update rr_ops a) = pending a" using rr_update_ok[OF a] by (simp add: rr_ops_def)
  show "rr_ok n (op_clear rr_ops a) \<and> pending (op_clear rr_ops a) = Map.empty" using rr_clear_ok[OF a] by (simp add: rr_ops_def)
  show "op_num_reqs rr_ops a = 0 \<longleftrightarrow> pending a = Map.empty" using a num_reqs_empty[of n a] by (simp add: rr_ops_def rr_ok_def)
qed


section \<open>Matrix\<close>

text \<open>The matrix holds an order of the inputs: those of lower rank go first.\<close>

definition ranked :: "nat \<Rightarrow> bool list list \<Rightarrow> (nat \<Rightarrow> nat) \<Rightarrow> bool" where
  "ranked n M rank \<longleftrightarrow> inj_on rank {..<n} \<and> (\<forall>i < n. \<forall>j < n. M ! i ! j = (rank i < rank j))"

definition matrix_ok :: "nat \<Rightarrow> matrix_arbiter \<Rightarrow> bool" where
  "matrix_ok n a \<longleftrightarrow> base_ok n a \<and>
     (case mx_last_req a of None \<Rightarrow> pending a = Map.empty | Some i \<Rightarrow> pending a i \<noteq> None) \<and>
     (\<exists>rank. ranked n (mx_matrix a) rank)"

lemma matrix_add_ok:
  assumes "matrix_ok n a" and "i < n" and "pending a i = None"
  shows "\<exists>b. matrix_AddRequest a i lab pri = Inr b \<and> matrix_ok n b \<and> pending b = (pending a)(i \<mapsto> (lab, pri))"
proof -
  let ?a = "a\<lparr>mx_last_req := Some i\<rparr>"
  have a: "base_ok n ?a" "pending ?a i = None" "pending ?a = pending a" using assms by (simp_all add: base_more matrix_ok_def)
  have l: "i < length (a_request ?a)" using a(1) assms(2) by (simp add: base_ok_def)
  note b = base_add[OF a(1) assms(2) a(2), of lab pri] pending_put[OF l, where k = "a_num_reqs ?a + 1" and lab = lab and pri = pri]
  show ?thesis using b assms(1) a(3) by (simp add: matrix_AddRequest_def matrix_ok_def)
qed

lemma matrix_winner:
  assumes ok: "base_ok n a" and rank: "ranked n (mx_matrix a) rank" and ne: "pending a \<noteq> Map.empty"
  shows "\<exists>s lab pri. List.find (\<lambda>input. e_valid (a_request a ! input) \<and> list_all (\<lambda>i. \<not> blocks a input i) [0..<a_size a]) [0..<a_size a] = Some s \<and>
    pending a s = Some (lab, pri) \<and> (\<forall>j q. pending a j = Some q \<longrightarrow> snd q \<le> pri)"
proof -
  let ?P = "\<lambda>input. e_valid (a_request a ! input) \<and> list_all (\<lambda>i. \<not> blocks a input i) [0..<a_size a]"
  have n: "a_size a = n" "length (a_request a) = n" using ok by (simp_all add: base_ok_def)
  have p: "pending a i = Some (e_id (a_request a ! i), e_pri (a_request a ! i)) \<longleftrightarrow> e_valid (a_request a ! i)" if "i < n" for i
    using that n by (simp add: pending_def)
  let ?D = "dom (pending a)"
  let ?m = "Max ((\<lambda>i. e_pri (a_request a ! i)) ` ?D)"
  let ?T = "{i \<in> ?D. e_pri (a_request a ! i) = ?m}"
  have D: "finite ?D" "?D \<noteq> {}" "\<And>i. i \<in> ?D \<longleftrightarrow> i < n \<and> e_valid (a_request a ! i)"
    using ne n by (auto simp: pending_def split: if_splits)
  have "?m \<in> (\<lambda>i. e_pri (a_request a ! i)) ` ?D" using D(1,2) by (intro Max_in) auto
  then have T: "finite ?T" "?T \<noteq> {}" using D(1) by auto
  obtain s where s: "s \<in> ?T" "\<And>i. i \<in> ?T \<Longrightarrow> rank s \<le> rank i" using ex_min_if_finite[of "rank ` ?T"] T
    by (metis (no_types, lifting) arg_min_if_finite(1,2) not_le_imp_less)
  have "\<not> blocks a s i" if "i < n" for i
  proof
    assume b: "blocks a s i"
    then have i: "i \<in> ?D" using that D(3) by (simp add: blocks_def)
    then have "e_pri (a_request a ! i) \<le> ?m" using D(1) by (intro Max_ge) auto
    then have "e_pri (a_request a ! i) = ?m" "mx_matrix a ! i ! s" using b s(1) by (auto simp: blocks_def)
    moreover have "s < n" using s(1) D(3) by simp
    ultimately have "rank i < rank s" "i \<in> ?T" using rank that i by (simp_all add: ranked_def)
    then show False using s(2)[of i] by simp
  qed
  then have "?P s" "s < n" using s(1) D(3) n by (simp_all add: list_all_iff)
  then have "List.find ?P [0..<n] \<noteq> None" by (auto simp: find_None_iff)
  then obtain t where t: "List.find ?P [0..<n] = Some t" by blast
  then have tP: "t < n" "?P t" by (auto simp: find_Some_iff)
  have "snd q \<le> e_pri (a_request a ! t)" if "pending a j = Some q" for j q
  proof -
    have "j \<in> ?D" using that by auto
    then have "j < n" "e_valid (a_request a ! j)" "q = (e_id (a_request a ! j), e_pri (a_request a ! j))"
      using D(3) that p[of j] by auto
    moreover have "\<not> blocks a t j" using tP(2) \<open>j < n\<close> n by (simp add: list_all_iff)
    ultimately show ?thesis by (auto simp: blocks_def)
  qed
  moreover have "pending a t = Some (e_id (a_request a ! t), e_pri (a_request a ! t))" using p tP by blast
  ultimately show ?thesis using t n(1) by auto
qed

lemma matrix_arbitrate_ok:
  assumes "matrix_ok n a"
  shows "\<exists>b w. matrix_Arbitrate a = Inr (b, w) \<and> matrix_ok n b \<and> pending b = pending a \<and> wins (pending a) w"
proof -
  define sel where "sel = (if a_num_reqs a < 2 then mx_last_req a
    else List.find (\<lambda>input. e_valid (a_request a ! input) \<and> list_all (\<lambda>i. \<not> blocks a input i) [0..<a_size a]) [0..<a_size a])"
  define w where "w = (case sel of None \<Rightarrow> None | Some s \<Rightarrow> Some (s, the (pending a s)))"
  have ok: "base_ok n a" using assms by (simp add: matrix_ok_def)
  have sel: "case sel of None \<Rightarrow> pending a = Map.empty
    | Some s \<Rightarrow> \<exists>lab pri. pending a s = Some (lab, pri) \<and> (\<forall>j q. pending a j = Some q \<longrightarrow> snd q \<le> pri)"
  proof (cases "a_num_reqs a < 2")
    case True
    show ?thesis
    proof (cases "mx_last_req a")
      case (Some i)
      then obtain q where q: "pending a i = Some q" using assms by (auto simp: matrix_ok_def)
      have "card (dom (pending a)) \<le> 1" using True ok by (simp add: base_ok_def)
      then have "dom (pending a) = {i}" using q card_le_Suc0_iff_eq[OF finite_pending, of a] by auto
      then have "j = i" if "pending a j = Some r" for j r using that by blast
      then show ?thesis using True Some q by (cases q) (fastforce simp: sel_def)
    qed (use True assms in \<open>simp add: matrix_ok_def sel_def\<close>)
  next
    case False
    then have "pending a \<noteq> Map.empty" using num_reqs_empty[OF ok] by auto
    moreover obtain rank where "ranked n (mx_matrix a) rank" using assms by (auto simp: matrix_ok_def)
    ultimately show ?thesis using matrix_winner[OF ok, of rank] False by (auto simp: sel_def)
  qed
  then have ne: "case sel of None \<Rightarrow> pending a = Map.empty | Some s \<Rightarrow> pending a s \<noteq> None"
    by (cases sel) auto
  have "Arbiter_Arbitrate (a\<lparr>a_selected := sel\<rparr>) = Inr w"
    using base_arbitrate[of n "a\<lparr>a_selected := sel\<rparr>"] ok ne by (cases sel) (simp_all add: base_more w_def)
  then have "matrix_Arbitrate a = Inr (a\<lparr>a_selected := sel\<rparr>, w)"
    unfolding matrix_Arbitrate_def Let_def sel_def by simp
  moreover have "wins (pending a) w" using sel by (cases sel) (auto simp: wins_def w_def)
  moreover have "matrix_ok n (a\<lparr>a_selected := sel\<rparr>)" using assms by (cases "mx_last_req a") (simp_all add: matrix_ok_def base_more)
  ultimately show ?thesis using base_more(2)[where a = a and z = sel] by blast
qed

lemma ranked_update:
  assumes "ranked n M rank"
  shows "\<exists>rank'. ranked n (map (\<lambda>i. map (\<lambda>j. if i = j then M ! i ! j else if i = s then False else if j = s then True else M ! i ! j)
    [0..<n]) [0..<n]) rank'"
proof -
  define top where "top = Suc (Max (rank ` {..n}))"
  have t: "rank i < top" if "i < n" for i
    using Max_ge[of "rank ` {..n}" "rank i"] that by (simp add: top_def le_imp_less_Suc)
  have "inj_on (rank(s := top)) {..<n}"
  proof (rule inj_onI)
    fix i j assume ij: "i \<in> {..<n}" "j \<in> {..<n}" "(rank(s := top)) i = (rank(s := top)) j"
    have "rank i = rank j \<Longrightarrow> i = j" using assms ij(1,2) by (simp add: ranked_def inj_on_def)
    then show "i = j" using ij(3) t[of i] t[of j] ij(1,2) by (cases "i = s"; cases "j = s") simp_all
  qed
  moreover have "map (\<lambda>i. map (\<lambda>j. if i = j then M ! i ! j else if i = s then False else if j = s then True else M ! i ! j)
      [0..<n]) [0..<n] ! i ! j = ((rank(s := top)) i < (rank(s := top)) j)" if "i < n" "j < n" for i j
    using that assms t[of i] t[of j] by (auto simp: ranked_def)
  ultimately show ?thesis unfolding ranked_def by (intro exI[of _ "rank(s := top)"]) blast
qed

lemma matrix_update_ok: "matrix_ok n a \<Longrightarrow> matrix_ok n (matrix_UpdateState a) \<and> pending (matrix_UpdateState a) = pending a"
proof (cases "a_selected a")
  case (Some s)
  assume a: "matrix_ok n a"
  then obtain rank where "ranked n (mx_matrix a) rank" "a_size a = n" by (auto simp: matrix_ok_def base_ok_def)
  from ranked_update[OF this(1), of s] this(2) a Some show ?thesis
    by (cases "mx_last_req a") (simp_all add: matrix_UpdateState_def matrix_ok_def base_more)
qed (simp add: matrix_UpdateState_def)

lemma matrix_clear_ok: "matrix_ok n a \<Longrightarrow> matrix_ok n (matrix_Clear a) \<and> pending (matrix_Clear a) = Map.empty"
  using base_clear[of n "a\<lparr>mx_last_req := None\<rparr>"]
  by (auto simp: matrix_ok_def matrix_Clear_def base_more) (auto simp: Arbiter_Clear_def split: if_splits)

interpretation matrix: arbiter_contract matrix_ops matrix_ok pending
proof unfold_locales
  fix n a i lab pri assume "matrix_ok n a" "i < n" "pending a i = None"
  then show "\<exists>b. op_add matrix_ops a i lab pri = Inr b \<and> matrix_ok n b \<and> pending b = (pending a)(i \<mapsto> (lab, pri))"
    using matrix_add_ok by (simp add: matrix_ops_def)
next
  fix n a assume a: "matrix_ok n a"
  show "\<exists>b w. op_arbitrate matrix_ops a = Inr (b, w) \<and> matrix_ok n b \<and> pending b = pending a \<and> wins (pending a) w"
    using matrix_arbitrate_ok[OF a] by (simp add: matrix_ops_def)
  show "matrix_ok n (op_update matrix_ops a) \<and> pending (op_update matrix_ops a) = pending a"
    using matrix_update_ok[OF a] by (simp add: matrix_ops_def)
  show "matrix_ok n (op_clear matrix_ops a) \<and> pending (op_clear matrix_ops a) = Map.empty"
    using matrix_clear_ok[OF a] by (simp add: matrix_ops_def)
  show "op_num_reqs matrix_ops a = 0 \<longleftrightarrow> pending a = Map.empty" using a num_reqs_empty[of n a] by (simp add: matrix_ops_def matrix_ok_def)
qed

lemma new_arbiters_ok: "rr_ok n (new_rr n)" "matrix_ok n (new_matrix n)" "pending (new_rr n) = Map.empty" "pending (new_matrix n) = Map.empty"
proof -
  show p: "pending (new_rr n) = Map.empty" "pending (new_matrix n) = Map.empty"
    by (auto simp: pending_def fun_eq_iff new_rr_def new_matrix_def no_entry_def)
  then show "rr_ok n (new_rr n)" by (simp add: rr_ok_def base_ok_def) (simp add: new_rr_def)
  have "ranked n (mx_matrix (new_matrix n)) (\<lambda>i. n - i)" by (auto simp: ranked_def inj_on_def new_matrix_def)
  then show "matrix_ok n (new_matrix n)" using p(2) by (auto simp: matrix_ok_def base_ok_def) (simp_all add: new_matrix_def)
qed

section \<open>Fairness of round robin\<close>

text \<open>A round: the arbiter is cleared, takes the requests of the inputs, picks a winner and moves its pointer.\<close>

definition rr_round :: "rr_arbiter \<Rightarrow> (nat \<times> int \<times> int) list \<Rightarrow> (rr_arbiter \<times> (nat \<times> int \<times> int) option) cxx" where
  "rr_round a L = bindE (foldE (\<lambda>a (i, lab, pri). rr_AddRequest a i lab pri) (rr_Clear a) L) (\<lambda>b.
     bindE (rr_Arbitrate b) (\<lambda>(c, w). Inr (rr_UpdateState c, w)))"

fun rr_rounds :: "rr_arbiter \<Rightarrow> (nat \<times> int \<times> int) list list \<Rightarrow> (rr_arbiter \<times> (nat \<times> int \<times> int) option list) cxx" where
  "rr_rounds a [] = Inr (a, [])"
| "rr_rounds a (L # Ls) = bindE (rr_round a L) (\<lambda>(b, w). bindE (rr_rounds b Ls) (\<lambda>(c, ws). Inr (c, w # ws)))"

definition round_ok :: "nat \<Rightarrow> int \<Rightarrow> (nat \<times> int \<times> int) list \<Rightarrow> bool" where
  "round_ok n p L \<longleftrightarrow> distinct (map fst L) \<and> (\<forall>(i, lab, pri) \<in> set L. i < n \<and> pri = p)"

lemma rr_distance_if:
  "i < n \<Longrightarrow> q < n \<Longrightarrow> rr_distance (int i) (int q) (int n) = (if q \<le> i then int i - int q else int i - int q + int n)"
proof (cases "q \<le> i")
  case False
  assume "i < n" "q < n"
  with False show ?thesis unfolding rr_distance_def by (subst mod_pos_pos_trivial) auto
qed (simp add: rr_distance_def)

lemma rr_distance_inj:
  "i < n \<Longrightarrow> j < n \<Longrightarrow> q < n \<Longrightarrow> rr_distance (int i) (int q) (int n) = rr_distance (int j) (int q) (int n) \<Longrightarrow> i = j"
  by (simp add: rr_distance_if split: if_splits)

lemma rr_distance_bounds: "i < n \<Longrightarrow> q < n \<Longrightarrow> 0 \<le> rr_distance (int i) (int q) (int n) \<and> rr_distance (int i) (int q) (int n) < int n"
  by (simp add: rr_distance_def)

lemma rr_distance_step:
  assumes "i < n" and "s < n" and "q < n" and "rr_distance (int s) (int q) (int n) < rr_distance (int i) (int q) (int n)"
  shows "rr_distance (int i) (int ((s + 1) mod n)) (int n) < rr_distance (int i) (int q) (int n)"
proof -
  have "(s + 1) mod n = (if s + 1 = n then 0 else s + 1)" using assms(2) by (simp add: mod_less)
  then show ?thesis using assms by (simp add: rr_distance_if split: if_splits)
qed

text \<open>The arbiter after the requests \<open>K\<close>, the last one first: its best input is the first one from the pointer on.\<close>

definition rr_taken :: "nat \<Rightarrow> int \<Rightarrow> nat \<Rightarrow> (nat \<times> int \<times> int) list \<Rightarrow> rr_arbiter \<Rightarrow> bool" where
  "rr_taken n p q K a \<longleftrightarrow> base_ok n a \<and> rr_pointer a = q \<and> pending a = map_of K \<and>
     (case a_best_input a of None \<Rightarrow> K = []
      | Some s \<Rightarrow> a_highest_pri a = p \<and> s \<in> fst ` set K \<and>
          (\<forall>j \<in> fst ` set K. rr_distance (int s) (int q) (int n) \<le> rr_distance (int j) (int q) (int n)))"

lemma rr_taken_add:
  assumes t: "rr_taken n p q K a" and i: "i < n" "i \<notin> fst ` set K"
  shows "\<exists>b. rr_AddRequest a i lab p = Inr b \<and> rr_taken n p q ((i, lab, p) # K) b"
proof -
  have a: "base_ok n a" "pending a = map_of K" "rr_pointer a = q" "a_best_input a = None \<longrightarrow> pending a = Map.empty"
    using t by (auto simp: rr_taken_def)
  have "pending a i = None" using i(2) a(2) by (simp add: map_of_eq_None_iff)
  from rr_add_cases[OF a(1) i(1) this a(4), of lab p] obtain b where
    b: "rr_AddRequest a i lab p = Inr b" "base_ok n b" "pending b = (pending a)(i \<mapsto> (lab, p))" "rr_pointer b = rr_pointer a"
    "if pending a = Map.empty \<or> Supersedes (int i) p (int (the (a_best_input a))) (a_highest_pri a) (int (rr_pointer a)) (int n)
     then a_best_input b = Some i \<and> a_highest_pri b = p
     else a_best_input b = a_best_input a \<and> a_highest_pri b = a_highest_pri a" by blast
  have "rr_taken n p q ((i, lab, p) # K) b"
  proof (cases "a_best_input a")
    case None
    then have "K = []" using t by (simp add: rr_taken_def)
    then show ?thesis using b a by (simp add: rr_taken_def)
  next
    case (Some s)
    then have s: "a_highest_pri a = p" "s \<in> fst ` set K"
      "\<forall>j \<in> fst ` set K. rr_distance (int s) (int q) (int n) \<le> rr_distance (int j) (int q) (int n)"
      using t by (auto simp: rr_taken_def)
    then have ne: "pending a \<noteq> Map.empty" using a(2) by auto
    show ?thesis
    proof (cases "rr_distance (int i) (int q) (int n) < rr_distance (int s) (int q) (int n)")
      case True
      then have "a_best_input b = Some i" "a_highest_pri b = p" using b(5) Some s(1) a(3) by (simp_all add: Supersedes_def)
      then show ?thesis using b(2-4) a s(3) True by (fastforce simp: rr_taken_def)
    next
      case False
      then have "a_best_input b = Some s" "a_highest_pri b = p"
        using b(5) Some s(1) a(3) ne by (simp_all add: Supersedes_def)
      then show ?thesis using b(2-4) a s False by (simp add: rr_taken_def)
    qed
  qed
  then show ?thesis using b(1) by blast
qed

lemma rr_taken_all:
  assumes "rr_taken n p q K a" and "round_ok n p L" and "fst ` set K \<inter> fst ` set L = {}"
  shows "\<exists>b. foldE (\<lambda>a (i, lab, pri). rr_AddRequest a i lab pri) a L = Inr b \<and> rr_taken n p q (rev L @ K) b"
  using assms
proof (induction L arbitrary: K a)
  case (Cons x L)
  obtain i lab where x: "x = (i, lab, p)" "i < n" using Cons.prems(2) by (cases x) (auto simp: round_ok_def)
  have "i \<notin> fst ` set K" using Cons.prems(3) x(1) by auto
  from rr_taken_add[OF Cons.prems(1) x(2) this] obtain b where
    b: "rr_AddRequest a i lab p = Inr b" "rr_taken n p q (x # K) b" using x(1) by blast
  have L: "round_ok n p L" "i \<notin> fst ` set L" using Cons.prems(2) x(1) by (auto simp: round_ok_def)
  have "fst ` set (x # K) \<inter> fst ` set L = {}" using Cons.prems(3) L(2) x(1) by auto
  from Cons.IH[OF b(2) L(1) this] b(1) x(1) show ?case by simp
qed simp

lemma rr_taken_start:
  assumes "rr_ok n a"
  shows "rr_taken n p (rr_pointer a) [] (rr_Clear a)"
proof -
  have "base_ok n (rr_Clear a)" "pending (rr_Clear a) = Map.empty" using rr_clear_ok[OF assms] by (simp_all add: rr_ok_def)
  moreover have "rr_pointer (rr_Clear a) = rr_pointer a" "a_best_input (rr_Clear a) = None"
    by (simp_all add: rr_Clear_def Arbiter_Clear_def)
  ultimately show ?thesis by (simp add: rr_taken_def)
qed

lemma rr_taken_arbitrate:
  assumes t: "rr_taken n p q K a" and K: "\<forall>x \<in> set K. snd (snd x) = p"
  shows "\<exists>b w. rr_Arbitrate a = Inr (b, w) \<and> rr_ok n b \<and> rr_pointer b = q \<and> a_selected b = map_option fst w \<and>
    (case w of None \<Rightarrow> K = []
     | Some (s, lab, pri) \<Rightarrow> pri = p \<and> s \<in> fst ` set K \<and>
         (\<forall>j \<in> fst ` set K. rr_distance (int s) (int q) (int n) \<le> rr_distance (int j) (int q) (int n)))"
proof -
  have a: "base_ok n a" "pending a = map_of K" "rr_pointer a = q" using t by (simp_all add: rr_taken_def)
  have pri: "snd r = p" if "map_of K j = Some r" for j r using K map_of_SomeD[OF that] by fastforce
  show ?thesis
  proof (cases "a_best_input a")
    case None
    then have "K = []" using t by (simp add: rr_taken_def)
    then show ?thesis using rr_arbitrate_eq[OF a(1)] a None by (simp add: rr_ok_def base_more)
  next
    case (Some s)
    then have s: "a_highest_pri a = p" "s \<in> fst ` set K"
      "\<forall>j \<in> fst ` set K. rr_distance (int s) (int q) (int n) \<le> rr_distance (int j) (int q) (int n)"
      using t by (auto simp: rr_taken_def)
    then obtain lab where lab: "map_of K s = Some (lab, p)" using pri[of s]
      by (metis map_of_eq_None_iff not_None_eq prod.collapse)
    have "rr_ok n a" using a(1,2) Some s(1) lab pri by (auto simp: rr_ok_def)
    then have "rr_ok n (a\<lparr>a_selected := Some s\<rparr>)" using Some by (simp add: rr_ok_def base_more)
    moreover have "rr_Arbitrate a = Inr (a\<lparr>a_selected := Some s\<rparr>, Some (s, lab, p))"
      using rr_arbitrate_eq[OF a(1)] a(2) Some lab by simp
    ultimately show ?thesis using s a(3) by simp
  qed
qed

lemma rr_round_result:
  assumes a: "rr_ok n a" "rr_pointer a < n" and L: "round_ok n p L"
  shows "\<exists>b w. rr_round a L = Inr (b, w) \<and> rr_ok n b \<and> rr_pointer b < n \<and>
    (\<forall>i \<in> fst ` set L. (\<exists>lab. w = Some (i, lab, p)) \<or>
      rr_distance (int i) (int (rr_pointer b)) (int n) < rr_distance (int i) (int (rr_pointer a)) (int n))"
proof -
  let ?q = "rr_pointer a"
  obtain c where c: "foldE (\<lambda>a (i, lab, pri). rr_AddRequest a i lab pri) (rr_Clear a) L = Inr c" "rr_taken n p ?q (rev L) c"
    using rr_taken_all[OF rr_taken_start[OF a(1)] L] by auto
  have "\<forall>x \<in> set (rev L). snd (snd x) = p" using L by (auto simp: round_ok_def)
  from rr_taken_arbitrate[OF c(2) this] obtain d w where
    d: "rr_Arbitrate c = Inr (d, w)" "rr_ok n d" "rr_pointer d = ?q" "a_selected d = map_option fst w"
    "case w of None \<Rightarrow> L = []
     | Some (s, lab, pri) \<Rightarrow> pri = p \<and> s \<in> fst ` set L \<and>
         (\<forall>j \<in> fst ` set L. rr_distance (int s) (int ?q) (int n) \<le> rr_distance (int j) (int ?q) (int n))"
    unfolding set_rev rev_is_Nil_conv by blast
  have r: "rr_round a L = Inr (rr_UpdateState d, w)" using c(1) d(1) by (simp add: rr_round_def)
  have u: "rr_ok n (rr_UpdateState d)" using rr_update_ok[OF d(2)] by simp
  have lt: "i < n" if "i \<in> fst ` set L" for i using L that by (auto simp: round_ok_def)
  show ?thesis
  proof (cases w)
    case None
    then show ?thesis using r u d a(2) by (auto simp: rr_UpdateState_def)
  next
    case (Some x)
    obtain s lab where x: "x = (s, lab, p)" "s \<in> fst ` set L"
      "\<forall>j \<in> fst ` set L. rr_distance (int s) (int ?q) (int n) \<le> rr_distance (int j) (int ?q) (int n)"
      using d(5) Some by (cases x) auto
    have n: "a_size d = n" using d(2) by (simp add: rr_ok_def base_ok_def)
    then have p: "rr_pointer (rr_UpdateState d) = (s + 1) mod n" using d(4) Some x(1) by (simp add: rr_UpdateState_def)
    have "(\<exists>lab. w = Some (i, lab, p)) \<or> rr_distance (int i) (int ((s + 1) mod n)) (int n) < rr_distance (int i) (int ?q) (int n)"
      if i: "i \<in> fst ` set L" for i
    proof (cases "i = s")
      case False
      then have "rr_distance (int s) (int ?q) (int n) < rr_distance (int i) (int ?q) (int n)"
        using x(3) i rr_distance_inj[OF lt[OF i] lt[OF x(2)] a(2)] by fastforce
      from rr_distance_step[OF lt[OF i] lt[OF x(2)] a(2) this] show ?thesis by blast
    qed (use Some x(1) in simp)
    moreover have "(s + 1) mod n < n" using a(2) by (intro mod_less_divisor) simp
    ultimately show ?thesis using r u p by auto
  qed
qed

lemma rr_rounds_total:
  assumes "rr_ok n a" and "rr_pointer a < n" and "\<forall>L \<in> set Ls. \<exists>p. round_ok n p L"
  shows "\<exists>b ws. rr_rounds a Ls = Inr (b, ws) \<and> length ws = length Ls \<and> rr_ok n b \<and> rr_pointer b < n"
  using assms
proof (induction Ls arbitrary: a)
  case (Cons L Ls)
  then obtain p where "round_ok n p L" by auto
  from rr_round_result[OF Cons.prems(1,2) this] obtain b w where
    b: "rr_round a L = Inr (b, w)" "rr_ok n b" "rr_pointer b < n" by blast
  then show ?case using Cons.IH[OF b(2,3)] Cons.prems(3) by auto
qed simp

lemma rr_rounds_append:
  "rr_rounds a (Ls @ Ms) = bindE (rr_rounds a Ls) (\<lambda>(b, us). bindE (rr_rounds b Ms) (\<lambda>(c, ws). Inr (c, us @ ws)))"
proof (induction Ls arbitrary: a)
  case Nil
  then show ?case by (cases "rr_rounds a Ms") auto
next
  case (Cons L Ls)
  show ?case
  proof (cases "rr_round a L")
    case (Inr x)
    show ?thesis
    proof (cases "rr_rounds (fst x) Ls")
      case (Inr y)
      then show ?thesis using \<open>rr_round a L = Inr x\<close> Cons.IH[of "fst x"]
        by (cases "rr_rounds (fst y) Ms") (simp_all add: case_prod_beta)
    qed (use Inr Cons.IH in \<open>simp add: case_prod_beta\<close>)
  qed simp
qed

lemma rr_rounds_grant:
  assumes "rr_ok n a" and "rr_pointer a < n" and "\<forall>L \<in> set Ls. (\<exists>p. round_ok n p L) \<and> i \<in> fst ` set L" and "i < n"
    and "rr_distance (int i) (int (rr_pointer a)) (int n) < int (length Ls)"
  shows "\<exists>b ws lab p. rr_rounds a Ls = Inr (b, ws) \<and> length ws = length Ls \<and> Some (i, lab, p) \<in> set ws"
  using assms
proof (induction Ls arbitrary: a)
  case Nil
  then show ?case using rr_distance_bounds[of i n "rr_pointer a"] by simp
next
  case (Cons L Ls)
  obtain p where p: "round_ok n p L" "i \<in> fst ` set L" using Cons.prems(3) by auto
  from rr_round_result[OF Cons.prems(1,2) p(1)] p(2) obtain b w where
    b: "rr_round a L = Inr (b, w)" "rr_ok n b" "rr_pointer b < n"
    "(\<exists>lab. w = Some (i, lab, p)) \<or>
      rr_distance (int i) (int (rr_pointer b)) (int n) < rr_distance (int i) (int (rr_pointer a)) (int n)" by blast
  have Ls: "\<forall>L \<in> set Ls. \<exists>p. round_ok n p L" "\<forall>L \<in> set Ls. (\<exists>p. round_ok n p L) \<and> i \<in> fst ` set L" using Cons.prems(3) by auto
  from rr_rounds_total[OF b(2,3) Ls(1)] obtain c ws where c: "rr_rounds b Ls = Inr (c, ws)" "length ws = length Ls" by blast
  show ?case
  proof (cases "\<exists>lab. w = Some (i, lab, p)")
    case True
    then show ?thesis using b(1) c by auto
  next
    case False
    then have "rr_distance (int i) (int (rr_pointer b)) (int n) < int (length Ls)" using b(4) Cons.prems(5) by simp
    from Cons.IH[OF b(2,3) Ls(2) Cons.prems(4) this] b(1) show ?thesis by fastforce
  qed
qed

text \<open>Claim C27. Round-robin arbitration is fair.  A new round-robin arbiter serves any number of rounds; in each round every
  input places at most one request and the requests of the round have the same priority.  Whatever those rounds were, an input
  that requests in each of the following \<open>n\<close> rounds is granted in one of them, \<open>n\<close> being the number of inputs; no call fails an
  assertion on the way.\<close>

theorem round_robin_fair:
  assumes "i < n" and "\<forall>L \<in> set (Ls @ Ms). \<exists>p. round_ok n p L" and "length Ms = n" and "\<forall>L \<in> set Ms. i \<in> fst ` set L"
  shows "\<exists>a us ws lab p. rr_rounds (new_rr n) (Ls @ Ms) = Inr (a, us @ ws) \<and>
    length us = length Ls \<and> length ws = n \<and> Some (i, lab, p) \<in> set ws"
proof -
  have n: "rr_ok n (new_rr n)" "rr_pointer (new_rr n) < n" using new_arbiters_ok(1) assms(1) by (simp_all add: new_rr_def)
  have Ls: "\<forall>L \<in> set Ls. \<exists>p. round_ok n p L" "\<forall>L \<in> set Ms. (\<exists>p. round_ok n p L) \<and> i \<in> fst ` set L" using assms(2,4) by auto
  from rr_rounds_total[OF n Ls(1)] obtain b us where
    b: "rr_rounds (new_rr n) Ls = Inr (b, us)" "length us = length Ls" "rr_ok n b" "rr_pointer b < n" by blast
  have "rr_distance (int i) (int (rr_pointer b)) (int n) < int (length Ms)" using rr_distance_bounds[OF assms(1) b(4)] assms(3) by simp
  from rr_rounds_grant[OF b(3,4) Ls(2) assms(1) this] obtain c ws lab p where
    c: "rr_rounds b Ms = Inr (c, ws)" "length ws = length Ms" "Some (i, lab, p) \<in> set ws" by blast
  then have "rr_rounds (new_rr n) (Ls @ Ms) = Inr (c, us @ ws)" using b(1) by (simp add: rr_rounds_append)
  then show ?thesis using b(2) c(2,3) assms(3) by blast
qed

theorem round_robin_fair_witness:
  "\<exists>a us ws lab p. rr_rounds (new_rr 2) ([[(0, 7, 1)]] @ [[(0, 7, 1), (1, 8, 1)], [(1, 8, 1)]]) = Inr (a, us @ ws) \<and>
    length us = length [[(0::nat, 7::int, 1::int)]] \<and> length ws = 2 \<and> Some (1, lab, p) \<in> set ws"
  by (rule round_robin_fair) (auto simp: round_ok_def)

end
