(* ===== verification/Allocators.thy ===== *)
theory Allocators
  imports Arbiters Sorted_Map
begin

text \<open>
  The allocators of the network (intersim2/allocators): a matrix of requests, an input port asking for an output port, of
  which \<open>Allocate\<close> grants a matching.  The base class with the grants, the dense and the sparse store of the requests, and the
  separable allocators, which arbitrate at one side and then at the other.  Ports are natural numbers (the code asserts that
  they are not negative), \<open>-1\<close> for no port is \<open>None\<close>, \<open>std::set\<close> is a set read in ascending order and \<open>std::map\<close> an
  association list in the order of its keys.
\<close>

section \<open>The base class\<close>

record sRequest =
  req_port :: nat
  req_label :: int
  req_in_pri :: int
  req_out_pri :: int

definition no_request :: sRequest where
  "no_request = \<lparr>req_port = 0, req_label = 0, req_in_pri = 0, req_out_pri = 0\<rparr>"

record allocator =
  al_inputs :: nat
  al_outputs :: nat
  al_dirty :: bool
  al_inmatch :: "nat option list"
  al_outmatch :: "nat option list"

definition Allocator_Clear :: "'m allocator_scheme \<Rightarrow> 'm allocator_scheme" where
  "Allocator_Clear a = (if al_dirty a
     then a\<lparr>al_inmatch := replicate (al_inputs a) None, al_outmatch := replicate (al_outputs a) None, al_dirty := False\<rparr> else a)"

definition Allocator_AddRequest :: "'m allocator_scheme \<Rightarrow> nat \<Rightarrow> nat \<Rightarrow> int \<Rightarrow> 'm allocator_scheme cxx" where
  "Allocator_AddRequest a i out label =
     assertE (i < al_inputs a) (assertE (out < al_outputs a) (assertE (0 \<le> label) (Inr (a\<lparr>al_dirty := True\<rparr>))))"

definition OutputAssigned :: "'m allocator_scheme \<Rightarrow> nat \<Rightarrow> nat option cxx" where
  "OutputAssigned a i = assertE (i < al_inputs a) (Inr (al_inmatch a ! i))"

definition InputAssigned :: "'m allocator_scheme \<Rightarrow> nat \<Rightarrow> nat option cxx" where
  "InputAssigned a out = assertE (out < al_outputs a) (Inr (al_outmatch a ! out))"

section \<open>The dense store\<close>

record dense = allocator +
  de_request :: "sRequest list list"

definition new_dense :: "nat \<Rightarrow> nat \<Rightarrow> dense" where
  "new_dense inputs outputs = \<lparr>al_inputs = inputs, al_outputs = outputs, al_dirty = False,
     al_inmatch = replicate inputs None, al_outmatch = replicate outputs None,
     de_request = replicate inputs (replicate outputs (no_request\<lparr>req_label := -1\<rparr>))\<rparr>"

definition Dense_Clear :: "'m dense_scheme \<Rightarrow> 'm dense_scheme" where
  "Dense_Clear d = Allocator_Clear (d\<lparr>de_request := map (map (\<lambda>r. r\<lparr>req_label := -1\<rparr>)) (de_request d)\<rparr>)"

definition Dense_ReadRequest :: "'m dense_scheme \<Rightarrow> nat \<Rightarrow> nat \<Rightarrow> int cxx" where
  "Dense_ReadRequest d i out = assertE (i < al_inputs d) (assertE (out < al_outputs d) (Inr (req_label (de_request d ! i ! out))))"

text \<open>The other \<open>ReadRequest\<close>: the request it writes to its reference argument, and its result.\<close>

definition Dense_ReadRequest_ref :: "'m dense_scheme \<Rightarrow> nat \<Rightarrow> nat \<Rightarrow> (sRequest \<times> bool) cxx" where
  "Dense_ReadRequest_ref d i out = assertE (i < al_inputs d) (assertE (out < al_outputs d)
     (let req = de_request d ! i ! out in Inr (req, 0 \<le> req_label req)))"

definition set_request :: "sRequest list list \<Rightarrow> nat \<Rightarrow> nat \<Rightarrow> sRequest \<Rightarrow> sRequest list list" where
  "set_request M i j r = M[i := (M ! i)[j := r]]"

definition Dense_AddRequest :: "'m dense_scheme \<Rightarrow> nat \<Rightarrow> nat \<Rightarrow> int \<Rightarrow> int \<Rightarrow> int \<Rightarrow> 'm dense_scheme cxx" where
  "Dense_AddRequest d i out label in_pri out_pri = bindE (Allocator_AddRequest d i out label) (\<lambda>d.
     assertE (req_label (de_request d ! i ! out) = -1)
       (Inr (d\<lparr>de_request := set_request (de_request d) i out
          ((de_request d ! i ! out)\<lparr>req_label := label, req_in_pri := in_pri, req_out_pri := out_pri\<rparr>)\<rparr>)))"

definition Dense_RemoveRequest :: "'m dense_scheme \<Rightarrow> nat \<Rightarrow> nat \<Rightarrow> int \<Rightarrow> 'm dense_scheme cxx" where
  "Dense_RemoveRequest d i out label = assertE (i < al_inputs d) (assertE (out < al_outputs d)
     (Inr (d\<lparr>de_request := set_request (de_request d) i out ((de_request d ! i ! out)\<lparr>req_label := -1\<rparr>)\<rparr>)))"

definition Dense_InputHasRequests :: "'m dense_scheme \<Rightarrow> nat \<Rightarrow> bool" where
  "Dense_InputHasRequests d i = list_ex (\<lambda>out. 0 \<le> req_label (de_request d ! i ! out)) [0..<al_outputs d]"

definition Dense_OutputHasRequests :: "'m dense_scheme \<Rightarrow> nat \<Rightarrow> bool" where
  "Dense_OutputHasRequests d out = list_ex (\<lambda>i. 0 \<le> req_label (de_request d ! i ! out)) [0..<al_inputs d]"

definition Dense_NumInputRequests :: "'m dense_scheme \<Rightarrow> nat \<Rightarrow> nat" where
  "Dense_NumInputRequests d i = length (filter (\<lambda>out. 0 \<le> req_label (de_request d ! i ! out)) [0..<al_outputs d])"

definition Dense_NumOutputRequests :: "'m dense_scheme \<Rightarrow> nat \<Rightarrow> nat" where
  "Dense_NumOutputRequests d out = length (filter (\<lambda>i. 0 \<le> req_label (de_request d ! i ! out)) [0..<al_inputs d])"

section \<open>The sparse store\<close>

record sparse = allocator +
  sp_in_occ :: "nat set"
  sp_out_occ :: "nat set"
  sp_in_req :: "(nat \<times> sRequest) list list"
  sp_out_req :: "(nat \<times> sRequest) list list"

definition new_sparse :: "nat \<Rightarrow> nat \<Rightarrow> sparse" where
  "new_sparse inputs outputs = \<lparr>al_inputs = inputs, al_outputs = outputs, al_dirty = False,
     al_inmatch = replicate inputs None, al_outmatch = replicate outputs None, sp_in_occ = {}, sp_out_occ = {},
     sp_in_req = replicate inputs [], sp_out_req = replicate outputs []\<rparr>"

definition Sparse_Clear :: "'m sparse_scheme \<Rightarrow> 'm sparse_scheme" where
  "Sparse_Clear s = Allocator_Clear (s\<lparr>sp_in_req := map (\<lambda>_. []) (sp_in_req s), sp_out_req := map (\<lambda>_. []) (sp_out_req s),
     sp_in_occ := {}, sp_out_occ := {}\<rparr>)"

definition Sparse_ReadRequest_ref :: "'m sparse_scheme \<Rightarrow> nat \<Rightarrow> nat \<Rightarrow> sRequest option cxx" where
  "Sparse_ReadRequest_ref s i out = assertE (i < al_inputs s) (assertE (out < al_outputs s) (Inr (map_of (sp_in_req s ! i) out)))"

definition Sparse_ReadRequest :: "'m sparse_scheme \<Rightarrow> nat \<Rightarrow> nat \<Rightarrow> int cxx" where
  "Sparse_ReadRequest s i out = bindE (Sparse_ReadRequest_ref s i out) (\<lambda>r. Inr (case r of None \<Rightarrow> -1 | Some r \<Rightarrow> req_label r))"

definition Sparse_AddRequest :: "'m sparse_scheme \<Rightarrow> nat \<Rightarrow> nat \<Rightarrow> int \<Rightarrow> int \<Rightarrow> int \<Rightarrow> 'm sparse_scheme cxx" where
  "Sparse_AddRequest s i out label in_pri out_pri = bindE (Allocator_AddRequest s i out label) (\<lambda>s.
     assertE (map_of (sp_in_req s ! i) out = None) (assertE (map_of (sp_out_req s ! out) i = None)
       (let req = \<lparr>req_port = out, req_label = label, req_in_pri = in_pri, req_out_pri = out_pri\<rparr>
        in Inr (s\<lparr>sp_in_occ := (if sp_in_req s ! i = [] then insert i (sp_in_occ s) else sp_in_occ s),
                  sp_out_occ := (if sp_out_req s ! out = [] then insert out (sp_out_occ s) else sp_out_occ s),
                  sp_in_req := (sp_in_req s)[i := smap_put out req (sp_in_req s ! i)],
                  sp_out_req := (sp_out_req s)[out := smap_put i (req\<lparr>req_port := i\<rparr>) (sp_out_req s ! out)]\<rparr>))))"

definition smap_erase :: "nat \<Rightarrow> (nat \<times> 'v) list \<Rightarrow> (nat \<times> 'v) list" where
  "smap_erase k m = filter (\<lambda>p. fst p \<noteq> k) m"

definition holds_label :: "(nat \<times> sRequest) list \<Rightarrow> nat \<Rightarrow> int \<Rightarrow> bool" where
  "holds_label m k label = (case map_of m k of None \<Rightarrow> False | Some r \<Rightarrow> req_label r = label)"

definition Sparse_RemoveRequest :: "'m sparse_scheme \<Rightarrow> nat \<Rightarrow> nat \<Rightarrow> int \<Rightarrow> 'm sparse_scheme cxx" where
  "Sparse_RemoveRequest s i out label = assertE (i < al_inputs s) (assertE (out < al_outputs s)
     (assertE (holds_label (sp_in_req s ! i) out label)
       (let m = smap_erase out (sp_in_req s ! i);
            s1 = s\<lparr>sp_in_req := (sp_in_req s)[i := m], sp_in_occ := (if m = [] then sp_in_occ s - {i} else sp_in_occ s)\<rparr>
        in assertE (holds_label (sp_out_req s1 ! out) i label)
          (let k = smap_erase i (sp_out_req s1 ! out)
           in Inr (s1\<lparr>sp_out_req := (sp_out_req s1)[out := k],
                      sp_out_occ := (if k = [] then sp_out_occ s1 - {out} else sp_out_occ s1)\<rparr>)))))"

definition Sparse_InputHasRequests :: "'m sparse_scheme \<Rightarrow> nat \<Rightarrow> bool" where
  "Sparse_InputHasRequests s i \<longleftrightarrow> i \<in> sp_in_occ s"

definition Sparse_OutputHasRequests :: "'m sparse_scheme \<Rightarrow> nat \<Rightarrow> bool" where
  "Sparse_OutputHasRequests s out \<longleftrightarrow> out \<in> sp_out_occ s"

text \<open>The code returns \<open>_in_occ.count(in)\<close>, which is 0 or 1.\<close>

definition Sparse_NumInputRequests :: "'m sparse_scheme \<Rightarrow> nat \<Rightarrow> nat" where
  "Sparse_NumInputRequests s i = (if i \<in> sp_in_occ s then 1 else 0)"

definition Sparse_NumOutputRequests :: "'m sparse_scheme \<Rightarrow> nat \<Rightarrow> nat" where
  "Sparse_NumOutputRequests s out = (if out \<in> sp_out_occ s then 1 else 0)"

section \<open>The separable allocators\<close>

record 'a separable = sparse +
  sep_input_arb :: "'a list"
  sep_output_arb :: "'a list"

definition new_separable :: "(nat \<Rightarrow> 'a) \<Rightarrow> nat \<Rightarrow> nat \<Rightarrow> 'a separable" where
  "new_separable new_arb inputs outputs = \<lparr>al_inputs = inputs, al_outputs = outputs, al_dirty = False,
     al_inmatch = replicate inputs None, al_outmatch = replicate outputs None, sp_in_occ = {}, sp_out_occ = {},
     sp_in_req = replicate inputs [], sp_out_req = replicate outputs [],
     sep_input_arb = replicate inputs (new_arb outputs), sep_output_arb = replicate outputs (new_arb inputs)\<rparr>"

definition Separable_Clear :: "'a arb_ops \<Rightarrow> 'a separable \<Rightarrow> 'a separable" where
  "Separable_Clear V s = (let clear = (\<lambda>a. if op_num_reqs V a \<noteq> 0 then op_clear V a else a)
     in Sparse_Clear (s\<lparr>sep_input_arb := map clear (sep_input_arb s), sep_output_arb := map clear (sep_output_arb s)\<rparr>))"

definition vec_at :: "'b list \<Rightarrow> nat \<Rightarrow> 'b cxx" where
  "vec_at xs i = (if i < length xs then Inr (xs ! i) else Inl Out_Of_Range)"

text \<open>\<open>_out_req[output][input]\<close> on a map makes the entry when it is not there.\<close>

definition map_at :: "(nat \<times> sRequest) list \<Rightarrow> nat \<Rightarrow> (nat \<times> sRequest) list" where
  "map_at m k = (if map_of m k = None then smap_put k no_request m else m)"

definition add_all :: "'a arb_ops \<Rightarrow> (sRequest \<Rightarrow> int) \<Rightarrow> 'a \<Rightarrow> (nat \<times> sRequest) list \<Rightarrow> 'a cxx" where
  "add_all V pri a m = foldE (\<lambda>a (k, r). op_add V a (req_port r) (req_label r) (pri r)) a m"

definition propagate_input :: "'a arb_ops \<Rightarrow> 'a separable \<Rightarrow> nat \<Rightarrow> 'a separable cxx" where
  "propagate_input V s input =
     bindE (vec_at (sp_in_req s) input) (\<lambda>reqs. bindE (vec_at (sep_input_arb s) input) (\<lambda>arb.
     bindE (add_all V req_in_pri arb reqs) (\<lambda>arb. bindE (op_arbitrate V arb) (\<lambda>(arb, w).
     case w of None \<Rightarrow> Inl Assert_Failed
     | Some (out, label, _) \<Rightarrow>
         bindE (vec_at (sp_out_req s) out) (\<lambda>m. let m = map_at m input; req = the (map_of m input) in
         assertE (req_port req = input \<and> req_label req = label)
          (bindE (vec_at (sep_output_arb s) out) (\<lambda>oarb. bindE (op_add V oarb (req_port req) (req_label req) (req_out_pri req)) (\<lambda>oarb.
             Inr (s\<lparr>sp_out_req := (sp_out_req s)[out := m], sep_input_arb := (sep_input_arb s)[input := arb],
                    sep_output_arb := (sep_output_arb s)[out := oarb]\<rparr>)))))))))"

definition grant_output :: "'a arb_ops \<Rightarrow> 'a separable \<Rightarrow> nat \<Rightarrow> 'a separable cxx" where
  "grant_output V s out =
     bindE (vec_at (sep_output_arb s) out) (\<lambda>arb. bindE (op_arbitrate V arb) (\<lambda>(arb, w).
     case w of None \<Rightarrow> Inr (s\<lparr>sep_output_arb := (sep_output_arb s)[out := arb]\<rparr>)
     | Some (input, _) \<Rightarrow>
         bindE (vec_at (al_inmatch s) input) (\<lambda>im. bindE (vec_at (al_outmatch s) out) (\<lambda>om. assertE (im = None \<and> om = None)
          (bindE (vec_at (sep_input_arb s) input) (\<lambda>iarb.
             Inr (s\<lparr>al_inmatch := (al_inmatch s)[input := Some out], al_outmatch := (al_outmatch s)[out := Some input],
                    sep_input_arb := (sep_input_arb s)[input := op_update V iarb],
                    sep_output_arb := (sep_output_arb s)[out := op_update V arb]\<rparr>)))))))"

definition InputFirst_Allocate :: "'a arb_ops \<Rightarrow> 'a separable \<Rightarrow> 'a separable cxx" where
  "InputFirst_Allocate V s = bindE (foldE (propagate_input V) s (sorted_list_of_set (sp_in_occ s)))
     (\<lambda>s. foldE (grant_output V) s (sorted_list_of_set (sp_out_occ s)))"

definition propagate_output :: "'a arb_ops \<Rightarrow> 'a separable \<Rightarrow> nat \<Rightarrow> 'a separable cxx" where
  "propagate_output V s out =
     bindE (vec_at (sp_out_req s) out) (\<lambda>reqs. bindE (vec_at (sep_output_arb s) out) (\<lambda>arb.
     bindE (add_all V req_out_pri arb reqs) (\<lambda>arb. bindE (op_arbitrate V arb) (\<lambda>(arb, w).
     case w of None \<Rightarrow> Inl Assert_Failed
     | Some (input, label, _) \<Rightarrow>
         bindE (vec_at (sp_in_req s) input) (\<lambda>m. let m = map_at m out; req = the (map_of m out) in
         assertE (req_port req = out \<and> req_label req = label)
          (bindE (vec_at (sep_input_arb s) input) (\<lambda>iarb. bindE (op_add V iarb (req_port req) (req_label req) (req_in_pri req)) (\<lambda>iarb.
             Inr (s\<lparr>sp_in_req := (sp_in_req s)[input := m], sep_output_arb := (sep_output_arb s)[out := arb],
                    sep_input_arb := (sep_input_arb s)[input := iarb]\<rparr>)))))))))"

definition grant_input :: "'a arb_ops \<Rightarrow> 'a separable \<Rightarrow> nat \<Rightarrow> 'a separable cxx" where
  "grant_input V s input =
     bindE (vec_at (sep_input_arb s) input) (\<lambda>arb. bindE (op_arbitrate V arb) (\<lambda>(arb, w).
     case w of None \<Rightarrow> Inr (s\<lparr>sep_input_arb := (sep_input_arb s)[input := arb]\<rparr>)
     | Some (out, _) \<Rightarrow>
         bindE (vec_at (al_inmatch s) input) (\<lambda>im. bindE (vec_at (al_outmatch s) out) (\<lambda>om. assertE (im = None \<and> om = None)
          (bindE (vec_at (sep_output_arb s) out) (\<lambda>oarb.
             Inr (s\<lparr>al_inmatch := (al_inmatch s)[input := Some out], al_outmatch := (al_outmatch s)[out := Some input],
                    sep_output_arb := (sep_output_arb s)[out := op_update V oarb],
                    sep_input_arb := (sep_input_arb s)[input := op_update V arb]\<rparr>)))))))"

definition OutputFirst_Allocate :: "'a arb_ops \<Rightarrow> 'a separable \<Rightarrow> 'a separable cxx" where
  "OutputFirst_Allocate V s = bindE (foldE (propagate_output V) s (sorted_list_of_set (sp_out_occ s)))
     (\<lambda>s. foldE (grant_input V) s (sorted_list_of_set (sp_in_occ s)))"

end
