(* ===== verification/Request_Stores.thy ===== *)
theory Request_Stores
  imports Allocators
begin

text \<open>
  The two request stores of the allocators against one contract: the requests are a partial map from a pair of ports to a
  label and the two priorities.  A client that respects the assertions reads the same from both; only the number of requests of
  a port differs.
\<close>

section \<open>The contract\<close>

type_synonym port_requests = "nat \<times> nat \<Rightarrow> (int \<times> int \<times> int) option"

datatype req_op = Add_Req nat nat int int int | Remove_Req nat nat int | Clear_Reqs

text \<open>The operations on the abstract requests, with what the callers have to respect.\<close>

fun spec_op :: "nat \<Rightarrow> nat \<Rightarrow> port_requests \<Rightarrow> req_op \<Rightarrow> port_requests cxx" where
  "spec_op ni no R (Add_Req i out label ip op) =
     (if i < ni \<and> out < no \<and> 0 \<le> label \<and> R (i, out) = None then Inr (R((i, out) \<mapsto> (label, ip, op))) else Inl Assert_Failed)"
| "spec_op ni no R (Remove_Req i out label) =
     (case R (i, out) of None \<Rightarrow> Inl Assert_Failed
      | Some (l, _) \<Rightarrow> if l = label then Inr (R((i, out) := None)) else Inl Assert_Failed)"
| "spec_op ni no R Clear_Reqs = Inr Map.empty"

fun store_op :: "('s \<Rightarrow> nat \<Rightarrow> nat \<Rightarrow> int \<Rightarrow> int \<Rightarrow> int \<Rightarrow> 's cxx) \<Rightarrow> ('s \<Rightarrow> nat \<Rightarrow> nat \<Rightarrow> int \<Rightarrow> 's cxx) \<Rightarrow> ('s \<Rightarrow> 's) \<Rightarrow> 's \<Rightarrow>
    req_op \<Rightarrow> 's cxx" where
  "store_op add remove clear s (Add_Req i out label ip op) = add s i out label ip op"
| "store_op add remove clear s (Remove_Req i out label) = remove s i out label"
| "store_op add remove clear s Clear_Reqs = Inr (clear s)"

locale request_store =
  fixes add :: "'s \<Rightarrow> nat \<Rightarrow> nat \<Rightarrow> int \<Rightarrow> int \<Rightarrow> int \<Rightarrow> 's cxx"
    and remove :: "'s \<Rightarrow> nat \<Rightarrow> nat \<Rightarrow> int \<Rightarrow> 's cxx"
    and clear :: "'s \<Rightarrow> 's"
    and read :: "'s \<Rightarrow> nat \<Rightarrow> nat \<Rightarrow> int cxx"
    and in_has :: "'s \<Rightarrow> nat \<Rightarrow> bool"
    and out_has :: "'s \<Rightarrow> nat \<Rightarrow> bool"
    and rep :: "nat \<Rightarrow> nat \<Rightarrow> port_requests \<Rightarrow> 's \<Rightarrow> bool"
  assumes add_rep: "rep ni no R s \<Longrightarrow> i < ni \<Longrightarrow> out < no \<Longrightarrow> 0 \<le> label \<Longrightarrow> R (i, out) = None \<Longrightarrow>
      \<exists>t. add s i out label ip op = Inr t \<and> rep ni no (R((i, out) \<mapsto> (label, ip, op))) t"
    and remove_rep: "rep ni no R s \<Longrightarrow> R (i, out) = Some (label, ip, op) \<Longrightarrow>
      \<exists>t. remove s i out label = Inr t \<and> rep ni no (R((i, out) := None)) t"
    and clear_rep: "rep ni no R s \<Longrightarrow> rep ni no Map.empty (clear s)"
    and read_rep: "rep ni no R s \<Longrightarrow> i < ni \<Longrightarrow> out < no \<Longrightarrow>
      read s i out = Inr (case R (i, out) of None \<Rightarrow> -1 | Some q \<Rightarrow> fst q)"
    and has_rep: "rep ni no R s \<Longrightarrow> i < ni \<Longrightarrow> in_has s i \<longleftrightarrow> (\<exists>out. R (i, out) \<noteq> None)"
      "rep ni no R s \<Longrightarrow> out < no \<Longrightarrow> out_has s out \<longleftrightarrow> (\<exists>i. R (i, out) \<noteq> None)"
begin

lemma op_rep:
  assumes "rep ni no R s" and "spec_op ni no R q = Inr R'"
  shows "\<exists>t. store_op add remove clear s q = Inr t \<and> rep ni no R' t"
proof (cases q)
  case (Add_Req i out label ip op)
  then show ?thesis using assms add_rep by (auto split: if_splits)
next
  case (Remove_Req i out label)
  then show ?thesis using assms remove_rep by (auto split: option.splits if_splits)
next
  case Clear_Reqs
  then show ?thesis using assms clear_rep by auto
qed

lemma run_rep:
  assumes "rep ni no R s" and "foldE (spec_op ni no) R qs = Inr R'"
  shows "\<exists>t. foldE (store_op add remove clear) s qs = Inr t \<and> rep ni no R' t"
  using assms
proof (induction qs arbitrary: R s)
  case (Cons q qs)
  then obtain R1 where R1: "spec_op ni no R q = Inr R1" "foldE (spec_op ni no) R1 qs = Inr R'" by (auto simp: bindE_Inr_iff)
  obtain t where "store_op add remove clear s q = Inr t" "rep ni no R1 t" using op_rep[OF Cons.prems(1) R1(1)] by blast
  then show ?case using Cons.IH[OF _ R1(2)] by simp
qed simp

end

section \<open>The dense store\<close>

definition cell_holds :: "(int \<times> int \<times> int) option \<Rightarrow> sRequest \<Rightarrow> bool" where
  "cell_holds q r \<longleftrightarrow> (case q of None \<Rightarrow> req_label r = -1
     | Some (l, ip, op) \<Rightarrow> 0 \<le> l \<and> req_label r = l \<and> req_in_pri r = ip \<and> req_out_pri r = op)"

definition dense_rep :: "nat \<Rightarrow> nat \<Rightarrow> port_requests \<Rightarrow> 'm dense_scheme \<Rightarrow> bool" where
  "dense_rep ni no R d \<longleftrightarrow> al_inputs d = ni \<and> al_outputs d = no \<and> length (de_request d) = ni \<and>
     (\<forall>i < ni. length (de_request d ! i) = no) \<and> dom R \<subseteq> {..<ni} \<times> {..<no} \<and>
     (\<forall>i < ni. \<forall>out < no. cell_holds (R (i, out)) (de_request d ! i ! out))"

lemma allocator_clear_fields [simp]:
  "al_inputs (Allocator_Clear a) = al_inputs a" "al_outputs (Allocator_Clear a) = al_outputs a"
  "de_request (Allocator_Clear d) = de_request d"
  "sp_in_occ (Allocator_Clear s) = sp_in_occ s" "sp_out_occ (Allocator_Clear s) = sp_out_occ s"
  "sp_in_req (Allocator_Clear s) = sp_in_req s" "sp_out_req (Allocator_Clear s) = sp_out_req s"
  by (simp_all add: Allocator_Clear_def)

lemma allocator_add:
  "i < al_inputs a \<Longrightarrow> out < al_outputs a \<Longrightarrow> 0 \<le> l \<Longrightarrow> Allocator_AddRequest a i out l = Inr (a\<lparr>al_dirty := True\<rparr>)"
  by (simp add: Allocator_AddRequest_def)

lemma set_request_nth:
  assumes "i < length M" and "j < length (M ! i)"
  shows "set_request M i j r ! a ! b = (if a = i \<and> b = j then r else M ! a ! b)" "length (set_request M i j r) = length M"
    "length (set_request M i j r ! a) = length (M ! a)"
  using assms by (auto simp: set_request_def nth_list_update)

lemma dense_label:
  assumes "dense_rep ni no R d" and "i < ni" and "out < no"
  shows "req_label (de_request d ! i ! out) = (case R (i, out) of None \<Rightarrow> -1 | Some q \<Rightarrow> fst q)"
    and "0 \<le> req_label (de_request d ! i ! out) \<longleftrightarrow> R (i, out) \<noteq> None"
proof -
  have "cell_holds (R (i, out)) (de_request d ! i ! out)" using assms unfolding dense_rep_def by blast
  then show "req_label (de_request d ! i ! out) = (case R (i, out) of None \<Rightarrow> -1 | Some q \<Rightarrow> fst q)"
    "0 \<le> req_label (de_request d ! i ! out) \<longleftrightarrow> R (i, out) \<noteq> None"
    by (cases "R (i, out)"; auto simp: cell_holds_def)+
qed

lemma dense_has:
  assumes "dense_rep ni no R d"
  shows "i < ni \<Longrightarrow> Dense_InputHasRequests d i \<longleftrightarrow> (\<exists>out. R (i, out) \<noteq> None)"
    "out < no \<Longrightarrow> Dense_OutputHasRequests d out \<longleftrightarrow> (\<exists>i. R (i, out) \<noteq> None)"
proof -
  have d: "al_inputs d = ni" "al_outputs d = no" "\<And>i out. R (i, out) \<noteq> None \<Longrightarrow> i < ni \<and> out < no"
    using assms by (auto simp: dense_rep_def)
  show "Dense_InputHasRequests d i \<longleftrightarrow> (\<exists>out. R (i, out) \<noteq> None)" if i: "i < ni"
  proof -
    have "Dense_InputHasRequests d i \<longleftrightarrow> (\<exists>out \<in> {0..<no}. 0 \<le> req_label (de_request d ! i ! out))"
      by (simp add: Dense_InputHasRequests_def list_ex_iff d(2))
    also have "\<dots> \<longleftrightarrow> (\<exists>out \<in> {0..<no}. R (i, out) \<noteq> None)" using dense_label(2)[OF assms i] by (intro bex_cong) simp_all
    finally show ?thesis using d(3) by (metis atLeastLessThan_iff le0)
  qed
  show "Dense_OutputHasRequests d out \<longleftrightarrow> (\<exists>i. R (i, out) \<noteq> None)" if o: "out < no"
  proof -
    have "Dense_OutputHasRequests d out \<longleftrightarrow> (\<exists>i \<in> {0..<ni}. 0 \<le> req_label (de_request d ! i ! out))"
      by (simp add: Dense_OutputHasRequests_def list_ex_iff d(1))
    also have "\<dots> \<longleftrightarrow> (\<exists>i \<in> {0..<ni}. R (i, out) \<noteq> None)" using dense_label(2)[OF assms _ o] by (intro bex_cong) simp_all
    finally show ?thesis using d(3) by (metis atLeastLessThan_iff le0)
  qed
qed

lemma dense_set:
  assumes "dense_rep ni no R d" and "i < ni" and "out < no"
    and "cell_holds q r"
  shows "dense_rep ni no (R((i, out) := q)) (d\<lparr>al_dirty := b, de_request := set_request (de_request d) i out r\<rparr>)"
proof -
  have d: "al_inputs d = ni" "al_outputs d = no" "length (de_request d) = ni" "\<forall>i < ni. length (de_request d ! i) = no" "dom R \<subseteq> {..<ni} \<times> {..<no}"
    using assms(1) by (auto simp: dense_rep_def)
  have l: "i < length (de_request d)" "out < length (de_request d ! i)" using d assms(2,3) by simp_all
  have "dom (R((i, out) := q)) \<subseteq> {..<ni} \<times> {..<no}" using d(5) assms(2,3) by (auto split: if_splits)
  moreover have "cell_holds ((R((i, out) := q)) (a, b)) (set_request (de_request d) i out r ! a ! b)" if "a < ni" "b < no" for a b
    using assms(1,4) that by (simp add: set_request_nth[OF l] dense_rep_def)
  ultimately show ?thesis using d by (simp add: dense_rep_def set_request_nth[OF l])
qed

interpretation dense: request_store Dense_AddRequest Dense_RemoveRequest Dense_Clear Dense_ReadRequest
  Dense_InputHasRequests Dense_OutputHasRequests dense_rep
proof unfold_locales
  fix ni no R i out and label ip op :: int and d :: "'a dense_scheme"
  assume a: "dense_rep ni no R d" "i < ni" "out < no" "0 \<le> label" "R (i, out) = None"
  have "req_label (de_request d ! i ! out) = -1" using dense_label(1)[OF a(1-3)] a(5) by simp
  then have "Dense_AddRequest d i out label ip op = Inr (d\<lparr>al_dirty := True, de_request := set_request (de_request d) i out
      ((de_request d ! i ! out)\<lparr>req_label := label, req_in_pri := ip, req_out_pri := op\<rparr>)\<rparr>)"
    using a by (simp add: Dense_AddRequest_def allocator_add dense_rep_def)
  then show "\<exists>t. Dense_AddRequest d i out label ip op = Inr t \<and> dense_rep ni no (R((i, out) \<mapsto> (label, ip, op))) t"
    using dense_set[OF a(1-3), where q = "Some (label, ip, op)"] a(4) by (simp add: cell_holds_def)
next
  fix ni no R i out and label ip op :: int and d :: "'a dense_scheme"
  assume a: "dense_rep ni no R d" "R (i, out) = Some (label, ip, op)"
  then have i: "i < ni" "out < no" by (auto simp: dense_rep_def)
  have "Dense_RemoveRequest d i out label = Inr (d\<lparr>al_dirty := al_dirty d, de_request := set_request (de_request d) i out
      ((de_request d ! i ! out)\<lparr>req_label := -1\<rparr>)\<rparr>)"
    using a i by (simp add: Dense_RemoveRequest_def dense_rep_def)
  then show "\<exists>t. Dense_RemoveRequest d i out label = Inr t \<and> dense_rep ni no (R((i, out) := None)) t"
    using dense_set[OF a(1) i, where q = None and b = "al_dirty d" and r = "(de_request d ! i ! out)\<lparr>req_label := -1\<rparr>"] by (simp add: cell_holds_def)
next
  fix ni no R and d :: "'a dense_scheme"
  assume "dense_rep ni no R d"
  then show "dense_rep ni no Map.empty (Dense_Clear d)" by (simp add: dense_rep_def Dense_Clear_def cell_holds_def)
next
  fix ni no R i out and d :: "'a dense_scheme"
  assume a: "dense_rep ni no R d"
  show "i < ni \<Longrightarrow> out < no \<Longrightarrow> Dense_ReadRequest d i out = Inr (case R (i, out) of None \<Rightarrow> -1 | Some q \<Rightarrow> fst q)"
    using dense_label(1)[OF a] a by (simp add: Dense_ReadRequest_def dense_rep_def)
  show "i < ni \<Longrightarrow> Dense_InputHasRequests d i \<longleftrightarrow> (\<exists>out. R (i, out) \<noteq> None)"
    "out < no \<Longrightarrow> Dense_OutputHasRequests d out \<longleftrightarrow> (\<exists>i. R (i, out) \<noteq> None)" using dense_has[OF a] by auto
qed

section \<open>The sparse store\<close>

lemma map_of_smap_put: "map_of (smap_put k v m) = (map_of m)(k \<mapsto> v)"
  by (induction k v m rule: smap_put.induct) (auto simp: fun_eq_iff)

lemma smap_put_not_Nil [simp]: "smap_put k v m \<noteq> []"
  by (cases "(k, v, m)" rule: smap_put.cases) auto

lemma map_of_smap_erase: "map_of (smap_erase k m) = (map_of m)(k := None)"
  by (induction m) (auto simp: smap_erase_def fun_eq_iff)

lemma smap_erase_sorted: "sorted_keys m \<Longrightarrow> sorted_keys (smap_erase k m)"
  by (simp add: sorted_keys_def smap_erase_def sorted_wrt_map sorted_wrt_filter)

lemma map_of_Nil_iff: "m = [] \<longleftrightarrow> (\<forall>k. map_of m k = None)"
  by (metis ext map_of.simps(1) map_of_eq_empty_iff)

definition entry_of :: "nat \<Rightarrow> int \<times> int \<times> int \<Rightarrow> sRequest" where
  "entry_of p q = \<lparr>req_port = p, req_label = fst q, req_in_pri = fst (snd q), req_out_pri = snd (snd q)\<rparr>"

lemma entry_of_sel [simp]:
  "req_port (entry_of p q) = p" "req_label (entry_of p q) = fst q"
  "req_in_pri (entry_of p q) = fst (snd q)" "req_out_pri (entry_of p q) = snd (snd q)"
  by (simp_all add: entry_of_def)

text \<open>A row of the store holds the requests \<open>Q\<close>.\<close>

definition row_holds :: "(nat \<Rightarrow> (int \<times> int \<times> int) option) \<Rightarrow> (nat \<times> sRequest) list \<Rightarrow> bool" where
  "row_holds Q m \<longleftrightarrow> sorted_keys m \<and> (\<forall>k. map_of m k = map_option (entry_of k) (Q k))"

definition sparse_rep :: "nat \<Rightarrow> nat \<Rightarrow> port_requests \<Rightarrow> 'm sparse_scheme \<Rightarrow> bool" where
  "sparse_rep ni no R s \<longleftrightarrow> al_inputs s = ni \<and> al_outputs s = no \<and> length (sp_in_req s) = ni \<and> length (sp_out_req s) = no \<and>
     dom R \<subseteq> {..<ni} \<times> {..<no} \<and> (\<forall>q \<in> ran R. 0 \<le> fst q) \<and>
     (\<forall>i < ni. row_holds (\<lambda>out. R (i, out)) (sp_in_req s ! i)) \<and>
     (\<forall>out < no. row_holds (\<lambda>i. R (i, out)) (sp_out_req s ! out)) \<and>
     sp_in_occ s = {i. \<exists>out. R (i, out) \<noteq> None} \<and> sp_out_occ s = {out. \<exists>i. R (i, out) \<noteq> None}"

lemma row_holds_Nil: "row_holds (\<lambda>_. None) []"
  by (simp add: row_holds_def sorted_keys_def)

lemma row_holds_empty: "row_holds Q m \<Longrightarrow> m = [] \<longleftrightarrow> (\<forall>k. Q k = None)"
  unfolding map_of_Nil_iff by (simp add: row_holds_def)

lemma row_holds_put: "row_holds Q m \<Longrightarrow> row_holds (Q(k \<mapsto> q)) (smap_put k (entry_of k q) m)"
  by (simp add: row_holds_def smap_put_sorted map_of_smap_put)

lemma row_holds_erase: "row_holds Q m \<Longrightarrow> row_holds (Q(k := None)) (smap_erase k m)"
  by (simp add: row_holds_def smap_erase_sorted map_of_smap_erase)

lemma row_holds_get: "row_holds Q m \<Longrightarrow> map_of m k = map_option (entry_of k) (Q k)"
  by (simp add: row_holds_def)

lemma row_of_upd:
  "(\<lambda>b. (R((i, j) := q)) (a, b)) = (if a = i then (\<lambda>b. R (i, b))(j := q) else (\<lambda>b. R (a, b)))"
  "(\<lambda>a. (R((i, j) := q)) (a, b)) = (if b = j then (\<lambda>a. R (a, j))(i := q) else (\<lambda>a. R (a, b)))"
  by (auto simp: fun_eq_iff)

lemma ran_erase: "ran (f(k := None)) \<subseteq> ran f"
  unfolding ran_def by (auto split: if_splits)

lemma occ_erase:
  "occ = {a. \<exists>b. R (a, b) \<noteq> None} \<Longrightarrow> R (i, j) = Some q \<Longrightarrow> m = [] \<longleftrightarrow> (\<forall>k. ((\<lambda>b. R (i, b))(j := None)) k = None) \<Longrightarrow>
    (if m = [] then occ - {i} else occ) = {a. \<exists>b. (R((i, j) := None)) (a, b) \<noteq> None}"
  "occ' = {b. \<exists>a. R (a, b) \<noteq> None} \<Longrightarrow> R (i, j) = Some q \<Longrightarrow> m' = [] \<longleftrightarrow> (\<forall>k. ((\<lambda>a. R (a, j))(i := None)) k = None) \<Longrightarrow>
    (if m' = [] then occ' - {j} else occ') = {b. \<exists>a. (R((i, j) := None)) (a, b) \<noteq> None}"
proof -
  have e: "(\<exists>b. (R((i, j) := None)) (a, b) \<noteq> None) \<longleftrightarrow> (if a = i then \<not> (\<forall>k. ((\<lambda>b. R (i, b))(j := None)) k = None) else \<exists>b. R (a, b) \<noteq> None)"
    "(\<exists>a. (R((i, j) := None)) (a, b) \<noteq> None) \<longleftrightarrow> (if b = j then \<not> (\<forall>k. ((\<lambda>a. R (a, j))(i := None)) k = None) else \<exists>a. R (a, b) \<noteq> None)" for a b
    by auto
  show "(if m = [] then occ - {i} else occ) = {a. \<exists>b. (R((i, j) := None)) (a, b) \<noteq> None}"
    if occ: "occ = {a. \<exists>b. R (a, b) \<noteq> None}" and q: "R (i, j) = Some q" and m: "m = [] \<longleftrightarrow> (\<forall>k. ((\<lambda>b. R (i, b))(j := None)) k = None)"
  proof (rule set_eqI)
    fix a
    have "i \<in> occ" using occ q by auto
    then have "a \<in> (if m = [] then occ - {i} else occ) \<longleftrightarrow> (if a = i then m \<noteq> [] else a \<in> occ)" by simp
    then show "a \<in> (if m = [] then occ - {i} else occ) \<longleftrightarrow> a \<in> {a. \<exists>b. (R((i, j) := None)) (a, b) \<noteq> None}"
      unfolding mem_Collect_eq e m occ by simp
  qed
  show "(if m' = [] then occ' - {j} else occ') = {b. \<exists>a. (R((i, j) := None)) (a, b) \<noteq> None}"
    if occ: "occ' = {b. \<exists>a. R (a, b) \<noteq> None}" and q: "R (i, j) = Some q" and m: "m' = [] \<longleftrightarrow> (\<forall>k. ((\<lambda>a. R (a, j))(i := None)) k = None)"
  proof (rule set_eqI)
    fix b
    have "j \<in> occ'" using occ q by auto
    then have "b \<in> (if m' = [] then occ' - {j} else occ') \<longleftrightarrow> (if b = j then m' \<noteq> [] else b \<in> occ')" by simp
    then show "b \<in> (if m' = [] then occ' - {j} else occ') \<longleftrightarrow> b \<in> {b. \<exists>a. (R((i, j) := None)) (a, b) \<noteq> None}"
      unfolding mem_Collect_eq e m occ by simp
  qed
qed



lemma sparse_clear: "sparse_rep ni no R s \<Longrightarrow> sparse_rep ni no Map.empty (Sparse_Clear s)"
  by (simp add: sparse_rep_def Sparse_Clear_def row_holds_Nil)

lemma sparse_add:
  assumes s: "sparse_rep ni no R s" and i: "i < ni" "out < no" and l: "0 \<le> label" "R (i, out) = None"
  shows "\<exists>io oo im om. Sparse_AddRequest s i out label ip op =
      Inr (s\<lparr>al_dirty := True, sp_in_occ := io, sp_out_occ := oo, sp_in_req := im, sp_out_req := om\<rparr>) \<and>
    sparse_rep ni no (R((i, out) \<mapsto> (label, ip, op))) (s\<lparr>al_dirty := True, sp_in_occ := io, sp_out_occ := oo, sp_in_req := im, sp_out_req := om\<rparr>)"
proof -
  let ?q = "(label, ip, op)"
  let ?im = "(sp_in_req s)[i := smap_put out (entry_of out ?q) (sp_in_req s ! i)]"
  let ?om = "(sp_out_req s)[out := smap_put i (entry_of i ?q) (sp_out_req s ! out)]"
  let ?io = "if sp_in_req s ! i = [] then insert i (sp_in_occ s) else sp_in_occ s"
  let ?oo = "if sp_out_req s ! out = [] then insert out (sp_out_occ s) else sp_out_occ s"
  have d: "al_inputs s = ni" "al_outputs s = no" "length (sp_in_req s) = ni" "length (sp_out_req s) = no"
    "dom R \<subseteq> {..<ni} \<times> {..<no}" "\<forall>q \<in> ran R. 0 \<le> fst q"
    and r: "\<And>i. i < ni \<Longrightarrow> row_holds (\<lambda>out. R (i, out)) (sp_in_req s ! i)"
      "\<And>out. out < no \<Longrightarrow> row_holds (\<lambda>i. R (i, out)) (sp_out_req s ! out)"
    and o: "sp_in_occ s = {i. \<exists>out. R (i, out) \<noteq> None}" "sp_out_occ s = {out. \<exists>i. R (i, out) \<noteq> None}"
    using s by (simp_all add: sparse_rep_def)
  have "Sparse_AddRequest s i out label ip op =
      Inr (s\<lparr>al_dirty := True, sp_in_occ := ?io, sp_out_occ := ?oo, sp_in_req := ?im, sp_out_req := ?om\<rparr>)"
    using d i l row_holds_get[OF r(1)[OF i(1)]] row_holds_get[OF r(2)[OF i(2)]]
    by (simp add: Sparse_AddRequest_def allocator_add entry_of_def)
  moreover have "?io = {a. \<exists>b. (R((i, out) \<mapsto> ?q)) (a, b) \<noteq> None}"
    using row_holds_empty[OF r(1)[OF i(1)]] by (auto simp: o)
  moreover have "?oo = {b. \<exists>a. (R((i, out) \<mapsto> ?q)) (a, b) \<noteq> None}"
    using row_holds_empty[OF r(2)[OF i(2)]] by (auto simp: o)
  moreover have "row_holds (\<lambda>b. (R((i, out) \<mapsto> ?q)) (a, b)) (?im ! a)" if "a < ni" for a
    using that r(1)[OF that] row_holds_put[OF r(1)[OF i(1)]] d(3) unfolding row_of_upd by simp
  moreover have "row_holds (\<lambda>a. (R((i, out) \<mapsto> ?q)) (a, b)) (?om ! b)" if "b < no" for b
    using that r(2)[OF that] row_holds_put[OF r(2)[OF i(2)]] d(4) unfolding row_of_upd by simp
  moreover have "dom (R((i, out) \<mapsto> ?q)) \<subseteq> {..<ni} \<times> {..<no}" using d(5) i by simp
  moreover have "\<forall>q \<in> ran (R((i, out) \<mapsto> ?q)). 0 \<le> fst q" using d(6) l by simp
  ultimately have "sparse_rep ni no (R((i, out) \<mapsto> ?q)) (s\<lparr>al_dirty := True, sp_in_occ := ?io, sp_out_occ := ?oo, sp_in_req := ?im, sp_out_req := ?om\<rparr>)"
    using d(1-4) unfolding sparse_rep_def by (simp del: fun_upd_apply)
  then show ?thesis using \<open>Sparse_AddRequest s i out label ip op = _\<close> by blast
qed

lemma sparse_remove:
  assumes s: "sparse_rep ni no R s" and q: "R (i, out) = Some (label, ip, op)"
  shows "\<exists>t. Sparse_RemoveRequest s i out label = Inr t \<and> sparse_rep ni no (R((i, out) := None)) t"
proof -
  let ?m = "smap_erase out (sp_in_req s ! i)"
  let ?k = "smap_erase i (sp_out_req s ! out)"
  let ?io = "if ?m = [] then sp_in_occ s - {i} else sp_in_occ s"
  let ?oo = "if ?k = [] then sp_out_occ s - {out} else sp_out_occ s"
  let ?t = "s\<lparr>sp_in_req := (sp_in_req s)[i := ?m], sp_in_occ := ?io, sp_out_req := (sp_out_req s)[out := ?k], sp_out_occ := ?oo\<rparr>"
  have d: "al_inputs s = ni" "al_outputs s = no" "length (sp_in_req s) = ni" "length (sp_out_req s) = no"
    "dom R \<subseteq> {..<ni} \<times> {..<no}" "\<forall>q \<in> ran R. 0 \<le> fst q"
    and r: "\<And>i. i < ni \<Longrightarrow> row_holds (\<lambda>out. R (i, out)) (sp_in_req s ! i)"
      "\<And>out. out < no \<Longrightarrow> row_holds (\<lambda>i. R (i, out)) (sp_out_req s ! out)"
    and o: "sp_in_occ s = {i. \<exists>out. R (i, out) \<noteq> None}" "sp_out_occ s = {out. \<exists>i. R (i, out) \<noteq> None}"
    using s by (simp_all add: sparse_rep_def)
  have i: "i < ni" "out < no" using q d(5) by auto
  have "Sparse_RemoveRequest s i out label = Inr ?t"
    using d i q row_holds_get[OF r(1)[OF i(1)]] row_holds_get[OF r(2)[OF i(2)]]
    by (simp add: Sparse_RemoveRequest_def holds_label_def Let_def)
  moreover have "?io = {a. \<exists>b. (R((i, out) := None)) (a, b) \<noteq> None}"
    by (rule occ_erase(1)[OF o(1) q row_holds_empty[OF row_holds_erase[OF r(1)[OF i(1)]]]])
  moreover have "?oo = {b. \<exists>a. (R((i, out) := None)) (a, b) \<noteq> None}"
    by (rule occ_erase(2)[OF o(2) q row_holds_empty[OF row_holds_erase[OF r(2)[OF i(2)]]]])
  moreover have "row_holds (\<lambda>b. (R((i, out) := None)) (a, b)) ((sp_in_req s)[i := ?m] ! a)" if "a < ni" for a
    using that r(1)[OF that] row_holds_erase[OF r(1)[OF i(1)]] d(3) unfolding row_of_upd by simp
  moreover have "row_holds (\<lambda>a. (R((i, out) := None)) (a, b)) ((sp_out_req s)[out := ?k] ! b)" if "b < no" for b
    using that r(2)[OF that] row_holds_erase[OF r(2)[OF i(2)]] d(4) unfolding row_of_upd by simp
  moreover have "dom (R((i, out) := None)) \<subseteq> {..<ni} \<times> {..<no}" using d(5) by auto
  moreover have "\<forall>q \<in> ran (R((i, out) := None)). 0 \<le> fst q" using d(6) ran_erase[of R "(i, out)"] by blast
  ultimately have "sparse_rep ni no (R((i, out) := None)) ?t"
    using d(1-4) unfolding sparse_rep_def by (simp del: fun_upd_apply)
  then show ?thesis using \<open>Sparse_RemoveRequest s i out label = _\<close> by blast
qed

interpretation sparse: request_store Sparse_AddRequest Sparse_RemoveRequest Sparse_Clear Sparse_ReadRequest
  Sparse_InputHasRequests Sparse_OutputHasRequests sparse_rep
proof unfold_locales
  fix ni no R i out and label ip op :: int and s :: "'a sparse_scheme"
  assume "sparse_rep ni no R s" "i < ni" "out < no" "0 \<le> label" "R (i, out) = None"
  then show "\<exists>t. Sparse_AddRequest s i out label ip op = Inr t \<and> sparse_rep ni no (R((i, out) \<mapsto> (label, ip, op))) t"
    using sparse_add by blast
next
  fix ni no R i out and label ip op :: int and s :: "'a sparse_scheme"
  assume "sparse_rep ni no R s" "R (i, out) = Some (label, ip, op)"
  then show "\<exists>t. Sparse_RemoveRequest s i out label = Inr t \<and> sparse_rep ni no (R((i, out) := None)) t" using sparse_remove by blast
next
  fix ni no R and s :: "'a sparse_scheme"
  assume "sparse_rep ni no R s"
  then show "sparse_rep ni no Map.empty (Sparse_Clear s)" by (rule sparse_clear)
next
  fix ni no R i out and s :: "'a sparse_scheme"
  assume s: "sparse_rep ni no R s"
  show "Sparse_ReadRequest s i out = Inr (case R (i, out) of None \<Rightarrow> -1 | Some q \<Rightarrow> fst q)" if "i < ni" "out < no"
  proof -
    have "row_holds (\<lambda>out. R (i, out)) (sp_in_req s ! i)" using s that by (simp add: sparse_rep_def)
    from row_holds_get[OF this] s that show ?thesis
      by (cases "R (i, out)") (simp_all add: Sparse_ReadRequest_def Sparse_ReadRequest_ref_def sparse_rep_def)
  qed
  show "i < ni \<Longrightarrow> Sparse_InputHasRequests s i \<longleftrightarrow> (\<exists>out. R (i, out) \<noteq> None)"
    "out < no \<Longrightarrow> Sparse_OutputHasRequests s out \<longleftrightarrow> (\<exists>i. R (i, out) \<noteq> None)"
    using s by (auto simp: sparse_rep_def Sparse_InputHasRequests_def Sparse_OutputHasRequests_def)
qed

section \<open>The two stores agree\<close>

definition dense_run :: "nat \<Rightarrow> nat \<Rightarrow> req_op list \<Rightarrow> dense cxx" where
  "dense_run ni no = foldE (store_op Dense_AddRequest Dense_RemoveRequest Dense_Clear) (new_dense ni no)"

definition sparse_run :: "nat \<Rightarrow> nat \<Rightarrow> req_op list \<Rightarrow> sparse cxx" where
  "sparse_run ni no = foldE (store_op Sparse_AddRequest Sparse_RemoveRequest Sparse_Clear) (new_sparse ni no)"










text \<open>The number of requests of a port: the sparse store returns at most 1.\<close>

lemma sparse_counts_ports:
  "\<exists>d s. dense_run 1 2 [Add_Req 0 0 5 0 0, Add_Req 0 1 6 0 0] = Inr d \<and>
     sparse_run 1 2 [Add_Req 0 0 5 0 0, Add_Req 0 1 6 0 0] = Inr s \<and>
     Dense_NumInputRequests d 0 = 2 \<and> Sparse_NumInputRequests s 0 = 1"
  by (simp add: dense_run_def sparse_run_def new_dense_def new_sparse_def Dense_AddRequest_def Sparse_AddRequest_def
      Allocator_AddRequest_def set_request_def no_request_def Dense_NumInputRequests_def Sparse_NumInputRequests_def
      numeral_2_eq_2 Let_def)

end
