(* ===== verification/Separable_Correct.thy ===== *)
theory Separable_Correct
  imports Request_Stores
begin

text \<open>
  The separable allocators under the contract of the arbiters: \<open>Allocate\<close> fails no assertion, its grants are a matching of
  requested pairs, something is granted when something is requested, and the arbiters are fit for the next cycle.  The
  output-first allocator is the input-first one with the two sides exchanged.
\<close>

section \<open>What an allocation promises\<close>

definition matched :: "nat \<Rightarrow> nat \<Rightarrow> port_requests \<Rightarrow> 'm allocator_scheme \<Rightarrow> bool" where
  "matched ni no R a \<longleftrightarrow> length (al_inmatch a) = ni \<and> length (al_outmatch a) = no \<and>
     (\<forall>i < ni. \<forall>out < no. al_inmatch a ! i = Some out \<longleftrightarrow> al_outmatch a ! out = Some i) \<and>
     (\<forall>i < ni. \<forall>out. al_inmatch a ! i = Some out \<longrightarrow> R (i, out) \<noteq> None) \<and>
     (\<forall>out < no. \<forall>i. al_outmatch a ! out = Some i \<longrightarrow> R (i, out) \<noteq> None) \<and>
     (R \<noteq> Map.empty \<longrightarrow> (\<exists>i < ni. al_inmatch a ! i \<noteq> None))"

text \<open>No output that the input asked for has a higher priority at the input's arbiter than the one it was granted.\<close>

definition top_choice :: "port_requests \<Rightarrow> nat \<Rightarrow> nat \<Rightarrow> bool" where
  "top_choice R i out \<longleftrightarrow> (\<exists>l ip op. R (i, out) = Some (l, ip, op) \<and>
     (\<forall>out' l' ip' op'. R (i, out') = Some (l', ip', op') \<longrightarrow> ip' \<le> ip))"

section \<open>Invariants\<close>

definition arbs_ok :: "(nat \<Rightarrow> 'a \<Rightarrow> bool) \<Rightarrow> nat \<Rightarrow> nat \<Rightarrow> 'a separable \<Rightarrow> bool" where
  "arbs_ok ok ni no s \<longleftrightarrow> length (sep_input_arb s) = ni \<and> length (sep_output_arb s) = no \<and>
     (\<forall>i < ni. ok no (sep_input_arb s ! i)) \<and> (\<forall>out < no. ok ni (sep_output_arb s ! out))"

definition no_grants :: "nat \<Rightarrow> nat \<Rightarrow> 'm allocator_scheme \<Rightarrow> bool" where
  "no_grants ni no a \<longleftrightarrow> al_inmatch a = replicate ni None \<and> al_outmatch a = replicate no None"

text \<open>Between two cycles.\<close>

definition sep_inv :: "(nat \<Rightarrow> 'a \<Rightarrow> bool) \<Rightarrow> nat \<Rightarrow> nat \<Rightarrow> 'a separable \<Rightarrow> bool" where
  "sep_inv ok ni no s \<longleftrightarrow> (\<exists>R. sparse_rep ni no R s) \<and> arbs_ok ok ni no s \<and> (\<not> al_dirty s \<longrightarrow> no_grants ni no s)"

text \<open>With the requests \<open>R\<close> of the cycle added.\<close>

definition sep_ready :: "(nat \<Rightarrow> 'a \<Rightarrow> bool) \<Rightarrow> ('a \<Rightarrow> requests) \<Rightarrow> nat \<Rightarrow> nat \<Rightarrow> port_requests \<Rightarrow> 'a separable \<Rightarrow> bool" where
  "sep_ready ok reqs ni no R s \<longleftrightarrow> sparse_rep ni no R s \<and> arbs_ok ok ni no s \<and> no_grants ni no s \<and>
     (\<forall>i < ni. reqs (sep_input_arb s ! i) = Map.empty) \<and> (\<forall>out < no. reqs (sep_output_arb s ! out) = Map.empty) \<and>
     (\<not> al_dirty s \<longrightarrow> R = Map.empty)"

text \<open>The requests at an output's arbiter, when the inputs have chosen \<open>c\<close>.\<close>

definition forwarded :: "port_requests \<Rightarrow> (nat \<Rightarrow> nat option) \<Rightarrow> nat \<Rightarrow> requests" where
  "forwarded R c out = (\<lambda>i. if c i = Some out then map_option (\<lambda>(l, ip, op). (l, op)) (R (i, out)) else None)"

definition chosen :: "(nat \<Rightarrow> 'a \<Rightarrow> bool) \<Rightarrow> ('a \<Rightarrow> requests) \<Rightarrow> nat \<Rightarrow> nat \<Rightarrow> port_requests \<Rightarrow> (nat \<Rightarrow> nat option) \<Rightarrow> 'a separable \<Rightarrow> bool" where
  "chosen ok reqs ni no R c s \<longleftrightarrow> sparse_rep ni no R s \<and> arbs_ok ok ni no s \<and> no_grants ni no s \<and>
     (\<forall>i < ni. c i = None \<longrightarrow> reqs (sep_input_arb s ! i) = Map.empty) \<and>
     (\<forall>out < no. reqs (sep_output_arb s ! out) = forwarded R c out) \<and>
     (\<forall>i out. c i = Some out \<longrightarrow> top_choice R i out) \<and> (\<not> al_dirty s \<longrightarrow> R = Map.empty)"

definition granted :: "(nat \<Rightarrow> 'a \<Rightarrow> bool) \<Rightarrow> ('a \<Rightarrow> requests) \<Rightarrow> nat \<Rightarrow> nat \<Rightarrow> port_requests \<Rightarrow> (nat \<Rightarrow> nat option) \<Rightarrow> nat set \<Rightarrow> 'a separable \<Rightarrow> bool" where
  "granted ok reqs ni no R c Q s \<longleftrightarrow> sparse_rep ni no R s \<and> arbs_ok ok ni no s \<and>
     length (al_inmatch s) = ni \<and> length (al_outmatch s) = no \<and>
     (\<forall>out < no. reqs (sep_output_arb s ! out) = forwarded R c out) \<and>
     (\<forall>i < ni. \<forall>out. al_inmatch s ! i = Some out \<longleftrightarrow> out < no \<and> al_outmatch s ! out = Some i) \<and>
     (\<forall>out < no. \<forall>i. al_outmatch s ! out = Some i \<longrightarrow> c i = Some out) \<and>
     (\<forall>out < no. al_outmatch s ! out \<noteq> None \<longleftrightarrow> out \<in> Q \<and> (\<exists>i. c i = Some out)) \<and>
     (\<forall>i out. c i = Some out \<longrightarrow> top_choice R i out) \<and> (\<not> al_dirty s \<longrightarrow> R = Map.empty)"

lemma sparse_rep_bounds: "sparse_rep ni no R s \<Longrightarrow> R (i, out) = Some q \<Longrightarrow> i < ni \<and> out < no"
  by (auto simp: sparse_rep_def)

lemma top_choice_bounds: "sparse_rep ni no R s \<Longrightarrow> top_choice R i out \<Longrightarrow> i < ni \<and> out < no"
  using sparse_rep_bounds by (fastforce simp: top_choice_def)

lemma sparse_rep_occ: "sparse_rep ni no R s \<Longrightarrow> finite (sp_in_occ s) \<and> finite (sp_out_occ s)"
  using finite_subset[of "sp_in_occ s" "{..<ni}"] finite_subset[of "sp_out_occ s" "{..<no}"] by (fastforce simp: sparse_rep_def)

lemma sparse_rep_cong [simp]:
  "sparse_rep ni no R (s\<lparr>sep_input_arb := x\<rparr>) = sparse_rep ni no R s"
  "sparse_rep ni no R (s\<lparr>sep_output_arb := x\<rparr>) = sparse_rep ni no R s"
  "sparse_rep ni no R (s\<lparr>sep_input_arb := x, sep_output_arb := y\<rparr>) = sparse_rep ni no R s"
  "sparse_rep ni no R (s\<lparr>al_inmatch := u, al_outmatch := v\<rparr>) = sparse_rep ni no R s"
  "sparse_rep ni no R (s\<lparr>al_inmatch := u, al_outmatch := v, sep_input_arb := x, sep_output_arb := y\<rparr>) = sparse_rep ni no R s"
  by (simp_all add: sparse_rep_def)

lemma upd_all: "\<forall>a < length xs. P (xs ! a) \<Longrightarrow> P d \<Longrightarrow> \<forall>a < length xs. P (xs[i := d] ! a)"
  by (metis nth_list_update nth_list_update_neq)

lemma arbs_ok_upd:
  assumes "arbs_ok ok ni no s" and "ok no d" and "ok ni e"
  shows "arbs_ok ok ni no (s\<lparr>sep_input_arb := (sep_input_arb s)[i := d], sep_output_arb := (sep_output_arb s)[out := e]\<rparr>)"
  using assms upd_all[of "sep_input_arb s" "ok no" d i] upd_all[of "sep_output_arb s" "ok ni" e out] by (simp add: arbs_ok_def)

lemma forwarded_None: "c i = None \<Longrightarrow> forwarded R c out i = None"
  by (simp add: forwarded_def)

lemma forwarded_choose:
  "c i = None \<Longrightarrow> R (i, out) = Some (l, ip, op) \<Longrightarrow>
    forwarded R (c(i \<mapsto> out)) b = (if b = out then (forwarded R c b)(i \<mapsto> (l, op)) else forwarded R c b)"
  by (auto simp: forwarded_def fun_eq_iff)

context arbiter_contract begin

lemma add_all_ok:
  assumes "ok n a" and "\<forall>(k, r) \<in> set m. k < n \<and> req_port r = k" and "distinct (map fst m)" and "\<forall>k \<in> fst ` set m. reqs a k = None"
  shows "\<exists>b. add_all V pri a m = Inr b \<and> ok n b \<and>
    reqs b = (\<lambda>k. case map_of m k of None \<Rightarrow> reqs a k | Some r \<Rightarrow> Some (req_label r, pri r))"
  using assms
proof (induction m arbitrary: a)
  case (Cons x m)
  obtain k r where x: "x = (k, r)" "k < n" "req_port r = k" using Cons.prems(2) by (cases x) auto
  obtain b where b: "op_add V a k (req_label r) (pri r) = Inr b" "ok n b" "reqs b = (reqs a)(k \<mapsto> (req_label r, pri r))"
    using add_ok[OF Cons.prems(1) x(2), of "req_label r" "pri r"] Cons.prems(4) x(1) by auto
  have k: "k \<notin> fst ` set m" using Cons.prems(3) x(1) by simp
  have "\<forall>(k, r) \<in> set m. k < n \<and> req_port r = k" "distinct (map fst m)" using Cons.prems(2,3) by auto
  moreover have "\<forall>k \<in> fst ` set m. reqs b k = None"
  proof
    fix j assume j: "j \<in> fst ` set m"
    then have "j \<noteq> k" using k by blast
    moreover have "reqs a j = None" using Cons.prems(4) j by auto
    ultimately show "reqs b j = None" using b(3) by simp
  qed
  ultimately obtain d where d: "add_all V pri b m = Inr d" "ok n d"
    "reqs d = (\<lambda>k. case map_of m k of None \<Rightarrow> reqs b k | Some r \<Rightarrow> Some (req_label r, pri r))"
    using Cons.IH[OF b(2)] by blast
  have "map_of m k = None" using k by (simp add: map_of_eq_None_iff)
  then have "reqs d = (\<lambda>j. case map_of (x # m) j of None \<Rightarrow> reqs a j | Some r \<Rightarrow> Some (req_label r, pri r))"
    using d(3) b(3) x(1) by (auto simp: fun_eq_iff split: option.split)
  then show ?case using d(1,2) b(1) x by (auto simp: add_all_def)
qed (simp add: add_all_def)

lemma row_arbitrated:
  assumes a: "ok no a" "reqs a = Map.empty" and row: "row_holds (\<lambda>out. R (i, out)) m" and dom: "\<forall>out. R (i, out) \<noteq> None \<longrightarrow> out < no"
    and some: "R (i, out0) \<noteq> None"
  shows "\<exists>b d out l ip op. add_all V req_in_pri a m = Inr b \<and> op_arbitrate V b = Inr (d, Some (out, l, ip)) \<and> ok no d \<and>
    R (i, out) = Some (l, ip, op) \<and> top_choice R i out"
proof -
  have m: "sorted_keys m" "\<And>k. map_of m k = map_option (entry_of k) (R (i, k))" using row by (simp_all add: row_holds_def)
  have "k < no \<and> req_port r = k" if "(k, r) \<in> set m" for k r
    using map_of_is_SomeI[OF sorted_keys_distinct[OF m(1)] that] m(2)[of k] dom by auto
  then obtain b where b: "add_all V req_in_pri a m = Inr b" "ok no b"
    "reqs b = (\<lambda>k. case map_of m k of None \<Rightarrow> reqs a k | Some r \<Rightarrow> Some (req_label r, req_in_pri r))"
    using add_all_ok[OF a(1) _ sorted_keys_distinct[OF m(1)], of req_in_pri] a(2) by auto
  then have r: "reqs b k = map_option (\<lambda>(l, ip, op). (l, ip)) (R (i, k))" for k
    using a(2) m(2)[of k] by (cases "R (i, k)") auto
  obtain d w where w: "op_arbitrate V b = Inr (d, w)" "ok no d" "wins (reqs b) w" using arbitrate_ok[OF b(2)] by blast
  have "reqs b out0 \<noteq> None" using r[of out0] some by auto
  then have "reqs b \<noteq> Map.empty" by auto
  then obtain out l ip where out: "w = Some (out, l, ip)" "reqs b out = Some (l, ip)" "\<forall>j q. reqs b j = Some q \<longrightarrow> snd q \<le> ip"
    using w(3) by (auto simp: wins_def split: option.splits)
  then obtain op where op: "R (i, out) = Some (l, ip, op)" using r[of out] by auto
  have "ip' \<le> ip" if "R (i, out') = Some (l', ip', op')" for out' l' ip' op' using out(3) r[of out'] that by fastforce
  then have "top_choice R i out" using op by (auto simp: top_choice_def)
  then show ?thesis using b(1) w(1,2) out(1) op by blast
qed

lemma propagate_chosen:
  assumes s: "chosen ok reqs ni no R c s" and c: "c i = None" and occ: "R (i, out0) \<noteq> None"
  shows "\<exists>t out. propagate_input V s i = Inr t \<and> chosen ok reqs ni no R (c(i \<mapsto> out)) t"
proof -
  have rep: "sparse_rep ni no R s" and arbs: "arbs_ok ok ni no s"
    and fw: "\<And>out. out < no \<Longrightarrow> reqs (sep_output_arb s ! out) = forwarded R c out"
    using s by (simp_all add: chosen_def)
  have i: "i < ni" using sparse_rep_bounds[OF rep] occ by blast
  have dom: "\<forall>out. R (i, out) \<noteq> None \<longrightarrow> out < no" using sparse_rep_bounds[OF rep] by blast
  have l: "length (sp_in_req s) = ni" "length (sep_input_arb s) = ni" "length (sp_out_req s) = no" "length (sep_output_arb s) = no"
    using rep arbs by (simp_all add: sparse_rep_def arbs_ok_def)
  have row: "row_holds (\<lambda>out. R (i, out)) (sp_in_req s ! i)" using rep i by (simp add: sparse_rep_def)
  have a: "ok no (sep_input_arb s ! i)" "reqs (sep_input_arb s ! i) = Map.empty"
    using s arbs i c by (simp_all add: chosen_def arbs_ok_def)
  obtain b d out lab ip op where w: "add_all V req_in_pri (sep_input_arb s ! i) (sp_in_req s ! i) = Inr b"
    "op_arbitrate V b = Inr (d, Some (out, lab, ip))" "ok no d" "R (i, out) = Some (lab, ip, op)" "top_choice R i out"
    using row_arbitrated[OF a row dom occ] by blast
  have o: "out < no" using dom w(4) by simp
  have "row_holds (\<lambda>i. R (i, out)) (sp_out_req s ! out)" using rep o by (simp add: sparse_rep_def)
  from row_holds_get[OF this, of i] w(4) have get: "map_of (sp_out_req s ! out) i = Some (entry_of i (lab, ip, op))" by simp
  have oa: "ok ni (sep_output_arb s ! out)" using arbs o by (simp add: arbs_ok_def)
  have "reqs (sep_output_arb s ! out) i = None" using fw[OF o] c by (simp add: forwarded_None)
  from add_ok[OF oa i this, of lab op] obtain e where e: "op_add V (sep_output_arb s ! out) i lab op = Inr e" "ok ni e"
    "reqs e = (reqs (sep_output_arb s ! out))(i \<mapsto> (lab, op))" by blast
  let ?t = "s\<lparr>sep_input_arb := (sep_input_arb s)[i := d], sep_output_arb := (sep_output_arb s)[out := e]\<rparr>"
  have "propagate_input V s i = Inr ?t"
    using w(1,2) get e(1) i o l by (simp add: propagate_input_def vec_at_def map_at_def Let_def)
  moreover have "arbs_ok ok ni no ?t" using arbs_ok_upd[OF arbs w(3) e(2)] by simp
  moreover have "reqs (sep_output_arb ?t ! b) = forwarded R (c(i \<mapsto> out)) b" if "b < no" for b
    using forwarded_choose[of c i R out lab ip op, OF c w(4)] fw[OF that] fw[OF o] e(3) that l by (simp add: nth_list_update)
  moreover have "\<forall>a < ni. (c(i \<mapsto> out)) a = None \<longrightarrow> reqs (sep_input_arb ?t ! a) = Map.empty"
    using s by (auto simp: chosen_def)
  ultimately show ?thesis using s w(5) by (auto simp: chosen_def no_grants_def simp del: fun_upd_apply) (auto split: if_splits)
qed

lemma propagate_all:
  assumes "chosen ok reqs ni no R c s" and "distinct xs" and "\<forall>i \<in> set xs. c i = None \<and> (\<exists>out. R (i, out) \<noteq> None)"
  shows "\<exists>t c'. foldE (propagate_input V) s xs = Inr t \<and> chosen ok reqs ni no R c' t \<and> dom c' = dom c \<union> set xs"
  using assms
proof (induction xs arbitrary: s c)
  case (Cons i xs)
  then obtain out0 where "c i = None" "R (i, out0) \<noteq> None" by auto
  from propagate_chosen[OF Cons.prems(1) this] obtain t out where
    t: "propagate_input V s i = Inr t" "chosen ok reqs ni no R (c(i \<mapsto> out)) t" by blast
  have "\<forall>j \<in> set xs. (c(i \<mapsto> out)) j = None \<and> (\<exists>out. R (j, out) \<noteq> None)" using Cons.prems(2,3) by auto
  moreover have "distinct xs" using Cons.prems(2) by simp
  ultimately obtain u c' where
    u: "foldE (propagate_input V) t xs = Inr u" "chosen ok reqs ni no R c' u" "dom c' = dom (c(i \<mapsto> out)) \<union> set xs"
    using Cons.IH[OF t(2)] by blast
  then have "dom c' = dom c \<union> set (i # xs)" by simp
  then show ?case using t(1) u(1,2) by auto
qed auto

lemma chosen_granted:
  assumes "chosen ok reqs ni no R c s"
  shows "granted ok reqs ni no R c {} s"
proof -
  have "arbs_ok ok ni no s" "no_grants ni no s" using assms by (simp_all add: chosen_def)
  then show ?thesis using assms by (simp add: granted_def chosen_def no_grants_def)
qed

lemma grant_granted:
  assumes s: "granted ok reqs ni no R c Q s" and o: "out < no" "out \<notin> Q"
  shows "\<exists>t. grant_output V s out = Inr t \<and> granted ok reqs ni no R c (insert out Q) t"
proof -
  have rep: "sparse_rep ni no R s" and arbs: "arbs_ok ok ni no s"
    and fw: "\<And>b. b < no \<Longrightarrow> reqs (sep_output_arb s ! b) = forwarded R c b"
    and l: "length (al_inmatch s) = ni" "length (al_outmatch s) = no"
    and m: "\<And>i b. i < ni \<Longrightarrow> al_inmatch s ! i = Some b \<longleftrightarrow> b < no \<and> al_outmatch s ! b = Some i"
    and om: "\<And>b i. b < no \<Longrightarrow> al_outmatch s ! b = Some i \<Longrightarrow> c i = Some b"
    and Q: "\<And>b. b < no \<Longrightarrow> al_outmatch s ! b \<noteq> None \<longleftrightarrow> b \<in> Q \<and> (\<exists>i. c i = Some b)"
    and c: "\<And>i b. c i = Some b \<Longrightarrow> top_choice R i b" and dirty: "\<not> al_dirty s \<Longrightarrow> R = Map.empty"
    using s by (simp_all add: granted_def)
  have la: "length (sep_input_arb s) = ni" "length (sep_output_arb s) = no" using arbs by (simp_all add: arbs_ok_def)
  have oa: "ok ni (sep_output_arb s ! out)" using arbs o(1) by (simp add: arbs_ok_def)
  obtain d w where w: "op_arbitrate V (sep_output_arb s ! out) = Inr (d, w)" "ok ni d"
    "reqs d = forwarded R c out" "wins (forwarded R c out) w" using arbitrate_ok[OF oa] fw[OF o(1)] by auto
  have none: "al_outmatch s ! out = None" using Q[OF o(1)] o(2) by blast
  show ?thesis
  proof (cases w)
    case None
    let ?t = "s\<lparr>sep_output_arb := (sep_output_arb s)[out := d]\<rparr>"
    have fwd: "forwarded R c out = Map.empty" using w(4) None by (simp add: wins_def)
    have noone: "c i \<noteq> Some out" for i
    proof
      assume ci: "c i = Some out"
      then obtain l ip op where "R (i, out) = Some (l, ip, op)" using c[OF ci] by (auto simp: top_choice_def)
      then show False using fun_cong[OF fwd, of i] ci by (simp add: forwarded_def)
    qed
    have "grant_output V s out = Inr ?t" using w(1) None o(1) la by (simp add: grant_output_def vec_at_def)
    moreover have "arbs_ok ok ni no ?t"
      using arbs w(2) upd_all[of "sep_output_arb s" "ok ni" d out] by (simp add: arbs_ok_def)
    moreover have "reqs (sep_output_arb ?t ! b) = forwarded R c b" if "b < no" for b
      using fw[OF that] w(3) la(2) that by (cases "b = out") simp_all
    ultimately show ?thesis using rep l m om Q c dirty noone by (auto simp: granted_def)
  next
    case (Some x)
    then obtain i lab pri where x: "w = Some (i, lab, pri)" "forwarded R c out i = Some (lab, pri)"
      using w(4) by (cases x) (auto simp: wins_def)
    have ci: "c i = Some out" using x(2) by (auto simp: forwarded_def split: if_splits)
    have i: "i < ni" using top_choice_bounds[OF rep c[OF ci]] by simp
    have free: "al_inmatch s ! i = None"
    proof (cases "al_inmatch s ! i")
      case (Some b)
      then have "b < no" "al_outmatch s ! b = Some i" using m[OF i] by auto
      then show ?thesis using om none ci by force
    qed
    let ?t = "s\<lparr>al_inmatch := (al_inmatch s)[i := Some out], al_outmatch := (al_outmatch s)[out := Some i],
      sep_input_arb := (sep_input_arb s)[i := op_update V (sep_input_arb s ! i)],
      sep_output_arb := (sep_output_arb s)[out := op_update V d]\<rparr>"
    have ia: "ok no (op_update V (sep_input_arb s ! i))" using update_ok arbs i by (simp add: arbs_ok_def)
    have od: "ok ni (op_update V d)" "reqs (op_update V d) = forwarded R c out" using update_ok[OF w(2)] w(3) by simp_all
    have "grant_output V s out = Inr ?t"
      using w(1) x(1) free none o(1) i l la by (simp add: grant_output_def vec_at_def)
    moreover have "arbs_ok ok ni no ?t"
      using arbs_ok_upd[OF arbs ia od(1), where i = i and out = out] by (simp add: arbs_ok_def)
    moreover have "reqs (sep_output_arb ?t ! b) = forwarded R c b" if "b < no" for b
      using fw[OF that] od(2) la(2) that by (cases "b = out") simp_all
    moreover have "al_inmatch ?t ! a = Some b \<longleftrightarrow> b < no \<and> al_outmatch ?t ! b = Some a" if "a < ni" for a b
    proof (cases "b = out")
      case True
      then show ?thesis using m[OF that, of out] none that o(1) l by (cases "a = i") simp_all
    next
      case False
      then show ?thesis using m[OF that, of b] m[OF i, of b] free that l by (cases "a = i") auto
    qed
    moreover have "c a = Some b" if "b < no" "al_outmatch ?t ! b = Some a" for a b
      using om[OF that(1), of a] that ci l by (cases "b = out") auto
    moreover have "al_outmatch ?t ! b \<noteq> None \<longleftrightarrow> b \<in> insert out Q \<and> (\<exists>i. c i = Some b)" if "b < no" for b
      using Q[OF that] that ci l by (cases "b = out") auto
    ultimately have "granted ok reqs ni no R c (insert out Q) ?t"
      using rep l c dirty unfolding granted_def by (simp del: insert_iff)
    then show ?thesis using \<open>grant_output V s out = Inr ?t\<close> by blast
  qed
qed

lemma grant_all:
  assumes "granted ok reqs ni no R c Q s" and "distinct xs" and "\<forall>b \<in> set xs. b < no \<and> b \<notin> Q"
  shows "\<exists>t. foldE (grant_output V) s xs = Inr t \<and> granted ok reqs ni no R c (Q \<union> set xs) t"
  using assms
proof (induction xs arbitrary: s Q)
  case (Cons b xs)
  then obtain t where t: "grant_output V s b = Inr t" "granted ok reqs ni no R c (insert b Q) t"
    using grant_granted[OF Cons.prems(1), of b] by auto
  have "\<forall>x \<in> set xs. x < no \<and> x \<notin> insert b Q" using Cons.prems(2,3) by auto
  from Cons.IH[OF t(2) _ this] Cons.prems(2) t(1) show ?case by simp
qed simp

text \<open>The whole of \<open>Allocate\<close>: every input with requests chooses an output, and every chosen output grants one input.\<close>

lemma input_first_allocates:
  assumes s: "sep_ready ok reqs ni no R s"
  shows "\<exists>t. InputFirst_Allocate V s = Inr t \<and> sep_inv ok ni no t \<and> matched ni no R t \<and>
    (\<forall>i < ni. \<forall>out. al_inmatch t ! i = Some out \<longrightarrow> top_choice R i out)"
proof -
  have rep: "sparse_rep ni no R s" and start: "chosen ok reqs ni no R Map.empty s"
    using s by (auto simp: sep_ready_def chosen_def forwarded_def)
  have occ: "sp_in_occ s = {i. \<exists>out. R (i, out) \<noteq> None}" "finite (sp_in_occ s)"
    using rep sparse_rep_occ[OF rep] by (simp_all add: sparse_rep_def)
  have "\<forall>i \<in> set (sorted_list_of_set (sp_in_occ s)). Map.empty i = None \<and> (\<exists>out. R (i, out) \<noteq> None)"
    unfolding set_sorted_list_of_set[OF occ(2)] using occ(1) by blast
  from propagate_all[OF start _ this] obtain u c where
    u: "foldE (propagate_input V) s (sorted_list_of_set (sp_in_occ s)) = Inr u" "chosen ok reqs ni no R c u"
    "dom c = {} \<union> set (sorted_list_of_set (sp_in_occ s))" using distinct_sorted_list_of_set by (metis dom_empty)
  then have domc: "dom c = sp_in_occ s" unfolding set_sorted_list_of_set[OF occ(2)] by simp
  have repu: "sparse_rep ni no R u" using u(2) by (simp add: chosen_def)
  have occu: "sp_out_occ u = {out. \<exists>i. R (i, out) \<noteq> None}" "finite (sp_out_occ u)"
    using repu sparse_rep_occ[OF repu] by (simp_all add: sparse_rep_def)
  have "\<forall>b \<in> set (sorted_list_of_set (sp_out_occ u)). b < no \<and> b \<notin> {}"
    unfolding set_sorted_list_of_set[OF occu(2)] using sparse_rep_bounds[OF repu] occu(1) by blast
  from grant_all[OF chosen_granted[OF u(2)] _ this] occu(2) obtain t where
    t: "foldE (grant_output V) u (sorted_list_of_set (sp_out_occ u)) = Inr t" "granted ok reqs ni no R c (sp_out_occ u) t" by auto
  have rept: "sparse_rep ni no R t" "arbs_ok ok ni no t" and l: "length (al_inmatch t) = ni" "length (al_outmatch t) = no"
    and m: "\<And>i b. i < ni \<Longrightarrow> al_inmatch t ! i = Some b \<longleftrightarrow> b < no \<and> al_outmatch t ! b = Some i"
    and om: "\<And>b i. b < no \<Longrightarrow> al_outmatch t ! b = Some i \<Longrightarrow> c i = Some b"
    and Q: "\<And>b. b < no \<Longrightarrow> al_outmatch t ! b \<noteq> None \<longleftrightarrow> b \<in> sp_out_occ u \<and> (\<exists>i. c i = Some b)"
    and top: "\<And>i b. c i = Some b \<Longrightarrow> top_choice R i b" and dirty: "\<not> al_dirty t \<Longrightarrow> R = Map.empty"
    using t(2) by (simp_all add: granted_def)
  have R: "R (i, b) \<noteq> None" if "top_choice R i b" for i b using that by (auto simp: top_choice_def)
  have some: "\<exists>i < ni. al_inmatch t ! i \<noteq> None" if ne: "R \<noteq> Map.empty"
  proof -
    obtain i out where "R (i, out) \<noteq> None" using ne by (metis ext surj_pair)
    then have "i \<in> dom c" unfolding domc occ(1) by blast
    then obtain b where b: "c i = Some b" by auto
    then have "b < no" "b \<in> sp_out_occ u" using top_choice_bounds[OF rept(1)] R[OF top[OF b]] top occu(1) by auto
    then obtain j where j: "al_outmatch t ! b = Some j" using Q b by blast
    then have "j < ni" using top_choice_bounds[OF rept(1)] top om[OF \<open>b < no\<close>] by blast
    then show ?thesis using m[OF \<open>j < ni\<close>, of b] j \<open>b < no\<close> by auto
  qed
  have "no_grants ni no t" if "\<not> al_dirty t"
  proof -
    have e: "R = Map.empty" using dirty[OF that] .
    have "al_outmatch t ! b = None" if "b < no" for b
      using om[OF that] R[OF top] e by (cases "al_outmatch t ! b") auto
    moreover have "al_inmatch t ! i = None" if "i < ni" for i
    proof (cases "al_inmatch t ! i")
      case (Some b)
      then have "b < no" "al_outmatch t ! b = Some i" using m[OF that] by blast+
      then show ?thesis using calculation by simp
    qed
    ultimately show ?thesis using l by (auto simp: no_grants_def list_eq_iff_nth_eq)
  qed
  then have "sep_inv ok ni no t" using rept by (auto simp: sep_inv_def)
  moreover have "al_inmatch t ! i = Some b \<longleftrightarrow> al_outmatch t ! b = Some i" if "i < ni" "b < no" for i b using m[OF that(1)] that(2) by simp
  moreover have "R (i, b) \<noteq> None" if "i < ni" "al_inmatch t ! i = Some b" for i b using m[OF that(1)] that(2) om R[OF top] by blast
  moreover have "R (i, b) \<noteq> None" if "b < no" "al_outmatch t ! b = Some i" for i b using om[OF that] R[OF top] by blast
  ultimately have "sep_inv ok ni no t" "matched ni no R t" unfolding matched_def using l some by simp_all
  moreover have "top_choice R i out" if "i < ni" "al_inmatch t ! i = Some out" for i out using m[OF that(1)] that(2) om top by blast
  ultimately show ?thesis using u(1) t(1) by (simp add: InputFirst_Allocate_def)
qed

lemma new_separable_inv:
  assumes "\<And>n. ok n (new_arb n)"
  shows "sep_inv ok ni no (new_separable new_arb ni no)"
proof -
  have "sparse_rep ni no Map.empty (new_separable new_arb ni no)" by (simp add: sparse_rep_def new_separable_def row_holds_Nil)
  moreover have "arbs_ok ok ni no (new_separable new_arb ni no)" using assms by (simp add: arbs_ok_def new_separable_def)
  ultimately show ?thesis by (auto simp: sep_inv_def no_grants_def new_separable_def)
qed

lemma clear_ready:
  assumes s: "sep_inv ok ni no s"
  shows "sep_ready ok reqs ni no Map.empty (Separable_Clear V s)"
proof -
  define f where "f = (\<lambda>a. if op_num_reqs V a \<noteq> 0 then op_clear V a else a)"
  let ?u = "s\<lparr>sep_input_arb := map f (sep_input_arb s), sep_output_arb := map f (sep_output_arb s)\<rparr>"
  have c: "ok n (f a) \<and> reqs (f a) = Map.empty" if "ok n a" for n a
    using clear_ok[OF that] num_reqs_ok[OF that] that by (auto simp: f_def)
  obtain R where R: "sparse_rep ni no R s" and arbs: "arbs_ok ok ni no s" and d: "\<not> al_dirty s \<longrightarrow> no_grants ni no s"
    using s by (auto simp: sep_inv_def)
  have e: "Separable_Clear V s = Sparse_Clear ?u" by (simp add: Separable_Clear_def Let_def f_def)
  have rep: "sparse_rep ni no Map.empty (Sparse_Clear ?u)" using sparse_clear[of ni no R ?u] R by simp
  have a: "sep_input_arb (Sparse_Clear ?u) = map f (sep_input_arb s)" "sep_output_arb (Sparse_Clear ?u) = map f (sep_output_arb s)"
    by (simp_all add: Sparse_Clear_def Allocator_Clear_def)
  have "al_inputs s = ni" "al_outputs s = no" using R by (simp_all add: sparse_rep_def)
  then have "no_grants ni no (Sparse_Clear ?u)" using d by (simp add: Sparse_Clear_def Allocator_Clear_def no_grants_def)
  then show ?thesis unfolding sep_ready_def e using rep arbs c[of no] c[of ni] a by (simp add: arbs_ok_def)
qed

lemma add_ready:
  assumes s: "sep_ready ok reqs ni no R s" and "i < ni" "out < no" "0 \<le> label" "R (i, out) = None"
  shows "\<exists>t. Sparse_AddRequest s i out label ip op = Inr t \<and> sep_ready ok reqs ni no (R((i, out) \<mapsto> (label, ip, op))) t"
proof -
  have "sparse_rep ni no R s" using s by (simp add: sep_ready_def)
  from sparse_add[OF this assms(2-5), of ip op] obtain io oo im om where
    t: "Sparse_AddRequest s i out label ip op =
      Inr (s\<lparr>al_dirty := True, sp_in_occ := io, sp_out_occ := oo, sp_in_req := im, sp_out_req := om\<rparr>)"
    "sparse_rep ni no (R((i, out) \<mapsto> (label, ip, op))) (s\<lparr>al_dirty := True, sp_in_occ := io, sp_out_occ := oo, sp_in_req := im, sp_out_req := om\<rparr>)"
    by blast
  then show ?thesis using s by (auto simp: sep_ready_def arbs_ok_def no_grants_def)
qed

end

section \<open>A cycle of an allocator\<close>

text \<open>The router clears the allocator, adds the requests of the cycle and allocates.\<close>

type_synonym port_request = "nat \<times> nat \<times> int \<times> int \<times> int"

definition add_requests :: "'m sparse_scheme \<Rightarrow> port_request list \<Rightarrow> 'm sparse_scheme cxx" where
  "add_requests s L = foldE (\<lambda>s (i, out, label, ip, op). Sparse_AddRequest s i out label ip op) s L"

definition alloc_cycle :: "'a arb_ops \<Rightarrow> ('a separable \<Rightarrow> 'a separable cxx) \<Rightarrow> 'a separable \<Rightarrow> port_request list \<Rightarrow> 'a separable cxx" where
  "alloc_cycle V alloc s L = bindE (add_requests (Separable_Clear V s) L) alloc"

definition requests_of :: "port_request list \<Rightarrow> port_requests" where
  "requests_of L = map_of (map (\<lambda>(i, out, q). ((i, out), q)) L)"

definition requests_ok :: "nat \<Rightarrow> nat \<Rightarrow> port_request list \<Rightarrow> bool" where
  "requests_ok ni no L \<longleftrightarrow> distinct (map (\<lambda>(i, out, q). (i, out)) L) \<and> (\<forall>(i, out, label, q) \<in> set L. i < ni \<and> out < no \<and> 0 \<le> label)"

context arbiter_contract begin

lemma add_requests_ready:
  assumes "sep_ready ok reqs ni no R s" and "requests_ok ni no L" and "\<forall>(i, out, q) \<in> set L. R (i, out) = None"
  shows "\<exists>t. add_requests s L = Inr t \<and> sep_ready ok reqs ni no (R ++ requests_of L) t"
  using assms
proof (induction L arbitrary: R s)
  case (Cons x L)
  obtain i out label ip op where x: "x = (i, out, label, ip, op)" "i < ni" "out < no" "0 \<le> label" "R (i, out) = None"
    using Cons.prems(2,3) by (cases x) (auto simp: requests_ok_def)
  let ?R = "R((i, out) \<mapsto> (label, ip, op))"
  obtain t where t: "Sparse_AddRequest s i out label ip op = Inr t" "sep_ready ok reqs ni no ?R t"
    using add_ready[OF Cons.prems(1) x(2-5), of ip op] by blast
  have L: "requests_ok ni no L" "(i, out) \<notin> (\<lambda>(i, out, q). (i, out)) ` set L" using Cons.prems(2) x(1) by (auto simp: requests_ok_def)
  have "\<forall>(a, b, q) \<in> set L. ?R (a, b) = None"
  proof (intro ballI, clarify)
    fix a b l ip' op' assume m: "(a, b, l, ip', op') \<in> set L"
    then have "(a, b) \<noteq> (i, out)" using L(2) by force
    moreover have "R (a, b) = None" using Cons.prems(3) m by fastforce
    ultimately show "?R (a, b) = None" by auto
  qed
  from Cons.IH[OF t(2) L(1) this] obtain u where u: "add_requests t L = Inr u" "sep_ready ok reqs ni no (?R ++ requests_of L) u" by blast
  have "(i, out) \<notin> dom (requests_of L)" 
    using L(2) by (simp add: requests_of_def dom_map_of_conv_image_fst image_image case_prod_unfold)
  then have "?R ++ requests_of L = R ++ requests_of (x # L)"
    using x(1) by (auto simp: fun_eq_iff map_add_def requests_of_def split: option.split)
  then show ?case using t(1) u x(1) by (simp add: add_requests_def)
qed (simp add: add_requests_def requests_of_def)

lemma cycle_ready:
  assumes "sep_inv ok ni no s" and "requests_ok ni no L"
  shows "\<exists>t. add_requests (Separable_Clear V s) L = Inr t \<and> sep_ready ok reqs ni no (requests_of L) t"
  using add_requests_ready[OF clear_ready[OF assms(1)] assms(2)] by auto

lemma input_first_cycle:
  assumes "sep_inv ok ni no s" and "requests_ok ni no L"
  shows "\<exists>t. alloc_cycle V (InputFirst_Allocate V) s L = Inr t \<and> sep_inv ok ni no t \<and> matched ni no (requests_of L) t \<and>
    (\<forall>i < ni. \<forall>out. al_inmatch t ! i = Some out \<longrightarrow> top_choice (requests_of L) i out)"
proof -
  obtain u where u: "add_requests (Separable_Clear V s) L = Inr u" "sep_ready ok reqs ni no (requests_of L) u"
    using cycle_ready[OF assms] by blast
  then show ?thesis using input_first_allocates[OF u(2)] by (simp add: alloc_cycle_def)
qed

end

end
