(* ===== verification/Allocation.thy ===== *)
theory Allocation
  imports Separable_Correct
begin

text \<open>
  The output-first allocator as the mirror image of the input-first one, runs of many cycles, and what both promise with
  round-robin and with matrix arbiters.
\<close>

section \<open>Exchanging inputs and outputs\<close>

definition flip :: "sRequest \<Rightarrow> sRequest" where
  "flip r = r\<lparr>req_in_pri := req_out_pri r, req_out_pri := req_in_pri r\<rparr>"

definition mirror_row :: "(nat \<times> sRequest) list \<Rightarrow> (nat \<times> sRequest) list" where
  "mirror_row m = map (map_prod id flip) m"

definition mirror :: "'a separable \<Rightarrow> 'a separable" where
  "mirror s = \<lparr>al_inputs = al_outputs s, al_outputs = al_inputs s, al_dirty = al_dirty s, al_inmatch = al_outmatch s,
     al_outmatch = al_inmatch s, sp_in_occ = sp_out_occ s, sp_out_occ = sp_in_occ s,
     sp_in_req = map mirror_row (sp_out_req s), sp_out_req = map mirror_row (sp_in_req s),
     sep_input_arb = sep_output_arb s, sep_output_arb = sep_input_arb s\<rparr>"

definition mirror_requests :: "port_requests \<Rightarrow> port_requests" where
  "mirror_requests R = (\<lambda>(a, b). map_option (\<lambda>(l, ip, op). (l, op, ip)) (R (b, a)))"

fun mapE :: "('s \<Rightarrow> 't) \<Rightarrow> 's cxx \<Rightarrow> 't cxx" where
  "mapE f (Inl e) = Inl e"
| "mapE f (Inr x) = Inr (f x)"

lemma bindE_mapE [simp]: "bindE (mapE f r) k = bindE r (\<lambda>x. k (f x))"
  by (cases r) simp_all

lemma mapE_bindE [simp]: "mapE f (bindE r k) = bindE r (\<lambda>x. mapE f (k x))"
  by (cases r) simp_all

lemma mapE_assertE [simp]: "mapE f (assertE b r) = assertE b (mapE f r)"
  by (cases b) simp_all

lemma mapE_case:
  "mapE f (case w of None \<Rightarrow> a | Some x \<Rightarrow> b x) = (case w of None \<Rightarrow> mapE f a | Some x \<Rightarrow> mapE f (b x))"
  by (cases w) simp_all

lemma flip_sel [simp]:
  "flip (flip r) = r" "req_port (flip r) = req_port r" "req_label (flip r) = req_label r"
  "req_in_pri (flip r) = req_out_pri r" "req_out_pri (flip r) = req_in_pri r" "flip no_request = no_request"
  by (simp_all add: flip_def no_request_def)

lemma request_case [simp]:
  "(case x of None \<Rightarrow> no_request | Some r \<Rightarrow> flip r) = flip (case x of None \<Rightarrow> no_request | Some r \<Rightarrow> r)"
  by (cases x) simp_all

lemma mirror_row_mirror [simp]: "mirror_row (mirror_row m) = m" "map (mirror_row \<circ> mirror_row) M = M"
  by (simp_all add: mirror_row_def comp_def prod.map_comp prod.map_id map_idI prod.map_ident case_prod_unfold)

lemma fst_mirror_row [simp]: "map fst (mirror_row m) = map fst m"
  by (simp add: mirror_row_def)

lemma map_of_mirror_row [simp]: "map_of (mirror_row m) k = map_option flip (map_of m k)"
  by (induction m) (auto simp: mirror_row_def)

lemma smap_put_mirror: "smap_put k (flip r) (mirror_row m) = mirror_row (smap_put k r m)"
  by (induction k r m rule: smap_put.induct) (auto simp: mirror_row_def)

lemma map_at_mirror [simp]: "map_at (mirror_row m) k = mirror_row (map_at m k)"
  using smap_put_mirror[of k no_request m] by (simp add: map_at_def)

lemma map_of_map_at [simp]: "map_of (map_at m k) k = Some (case map_of m k of None \<Rightarrow> no_request | Some r \<Rightarrow> r)"
  by (auto simp: map_at_def map_of_smap_put split: option.split)

lemma vec_at_map [simp]: "vec_at (map f xs) i = mapE f (vec_at xs i)"
  by (simp add: vec_at_def)

lemma add_all_mirror [simp]:
  "add_all V req_in_pri a (mirror_row m) = add_all V req_out_pri a m"
  by (induction m arbitrary: a) (auto simp: add_all_def mirror_row_def intro: arg_cong[where f = "bindE _"])

lemma mirror_sel [simp]:
  "al_inputs (mirror s) = al_outputs s" "al_outputs (mirror s) = al_inputs s" "al_dirty (mirror s) = al_dirty s"
  "al_inmatch (mirror s) = al_outmatch s" "al_outmatch (mirror s) = al_inmatch s"
  "sp_in_occ (mirror s) = sp_out_occ s" "sp_out_occ (mirror s) = sp_in_occ s"
  "sp_in_req (mirror s) = map mirror_row (sp_out_req s)" "sp_out_req (mirror s) = map mirror_row (sp_in_req s)"
  "sep_input_arb (mirror s) = sep_output_arb s" "sep_output_arb (mirror s) = sep_input_arb s"
  by (simp_all add: mirror_def)

lemma mirror_mirror [simp]: "mirror (mirror s) = s"
  by (simp add: mirror_def)

lemma mirror_steps [simp]:
  "mirror ((mirror s)\<lparr>sp_out_req := map mirror_row M, sep_input_arb := A, sep_output_arb := B\<rparr>) =
    s\<lparr>sp_in_req := M, sep_output_arb := A, sep_input_arb := B\<rparr>"
  "mirror ((mirror s)\<lparr>sep_output_arb := B\<rparr>) = s\<lparr>sep_input_arb := B\<rparr>"
  "mirror ((mirror s)\<lparr>al_inmatch := I, al_outmatch := Q, sep_input_arb := A, sep_output_arb := B\<rparr>) =
    s\<lparr>al_inmatch := Q, al_outmatch := I, sep_output_arb := A, sep_input_arb := B\<rparr>"
  by (cases s; simp add: mirror_def)+

lemma propagate_mirror: "propagate_output V s out = mapE mirror (propagate_input V (mirror s) out)"
  by (simp add: propagate_output_def propagate_input_def Let_def mapE_case case_prod_unfold map_update[symmetric] cong: option.case_cong)

lemma assert_swap: "assertE (a \<and> b) r = assertE (b \<and> a) r"
  by (simp add: conj_commute)

lemma vec_at_swap:
  "bindE (vec_at xs i) (\<lambda>x. bindE (vec_at ys j) (k x)) = bindE (vec_at ys j) (\<lambda>y. bindE (vec_at xs i) (\<lambda>x. k x y))"
  by (simp add: vec_at_def)

lemma grant_mirror: "grant_input V s i = mapE mirror (grant_output V (mirror s) i)"
  unfolding grant_input_def grant_output_def
  by (subst vec_at_swap[of "al_inmatch s"], subst assert_swap) (simp add: mapE_case case_prod_unfold cong: option.case_cong)

lemma foldE_mirror:
  assumes "\<And>s x. f s x = mapE mirror (g (mirror s) x)"
  shows "foldE f s xs = mapE mirror (foldE g (mirror s) xs)"
proof (induction xs arbitrary: s)
  case (Cons x xs)
  show ?case by (cases "g (mirror s) x") (simp_all add: assms[of s x] Cons.IH)
qed simp

lemma output_first_mirror: "OutputFirst_Allocate V s = mapE mirror (InputFirst_Allocate V (mirror s))"
  by (simp add: OutputFirst_Allocate_def InputFirst_Allocate_def foldE_mirror[where f = "propagate_output V" and g = "propagate_input V", OF propagate_mirror] foldE_mirror[where f = "grant_input V" and g = "grant_output V", OF grant_mirror])

section \<open>Runs of cycles\<close>

lemma mirror_requests_None: "mirror_requests R (b, a) = None \<longleftrightarrow> R (a, b) = None"
  by (simp add: mirror_requests_def)

lemma mirror_requests_empty: "mirror_requests R = Map.empty \<longleftrightarrow> R = Map.empty"
  using mirror_requests_None[of R] by (metis ext surj_pair)

lemma row_holds_mirror:
  "row_holds Q m \<Longrightarrow> row_holds (\<lambda>k. map_option (\<lambda>(l, ip, op). (l, op, ip)) (Q k)) (mirror_row m)"
  by (auto simp: row_holds_def sorted_keys_def option.map_comp comp_def case_prod_unfold entry_of_def flip_def)

lemma sparse_rep_mirror:
  assumes "sparse_rep ni no R s"
  shows "sparse_rep no ni (mirror_requests R) (mirror s)"
proof -
  have d: "al_inputs s = ni" "al_outputs s = no" "length (sp_in_req s) = ni" "length (sp_out_req s) = no"
    "\<And>i out. R (i, out) \<noteq> None \<Longrightarrow> i < ni \<and> out < no" "\<And>q. q \<in> ran R \<Longrightarrow> 0 \<le> fst q"
    and r: "\<And>i. i < ni \<Longrightarrow> row_holds (\<lambda>out. R (i, out)) (sp_in_req s ! i)"
      "\<And>out. out < no \<Longrightarrow> row_holds (\<lambda>i. R (i, out)) (sp_out_req s ! out)"
    and o: "sp_in_occ s = {i. \<exists>out. R (i, out) \<noteq> None}" "sp_out_occ s = {out. \<exists>i. R (i, out) \<noteq> None}"
    using assms by (auto simp: sparse_rep_def)
  have "dom (mirror_requests R) \<subseteq> {..<no} \<times> {..<ni}"
  proof (rule subsetI)
    fix x assume "x \<in> dom (mirror_requests R)"
    then have "R (snd x, fst x) \<noteq> None" using mirror_requests_None[of R "fst x" "snd x"] by auto
    then show "x \<in> {..<no} \<times> {..<ni}" using d(5) by (cases x) auto
  qed
  moreover have "0 \<le> fst q" if q: "q \<in> ran (mirror_requests R)" for q
  proof -
    obtain i out l ip op where "R (i, out) = Some (l, ip, op)" "fst q = l"
      using q by (auto simp: ran_def mirror_requests_def)
    then show ?thesis using d(6)[of "(l, ip, op)"] by (auto simp: ran_def)
  qed
  moreover have "row_holds (\<lambda>i. mirror_requests R (out, i)) (map mirror_row (sp_out_req s) ! out)" if "out < no" for out
    using row_holds_mirror[OF r(2)[OF that]] that d(4) by (simp add: mirror_requests_def)
  moreover have "row_holds (\<lambda>out. mirror_requests R (out, i)) (map mirror_row (sp_in_req s) ! i)" if "i < ni" for i
    using row_holds_mirror[OF r(1)[OF that]] that d(3) by (simp add: mirror_requests_def)
  ultimately show ?thesis using d(1-4) unfolding sparse_rep_def by (simp add: o mirror_requests_def)
qed

lemma arbs_ok_mirror: "arbs_ok ok ni no s \<Longrightarrow> arbs_ok ok no ni (mirror s)"
  by (simp add: arbs_ok_def)

lemma sep_inv_mirror: "sep_inv ok ni no s \<Longrightarrow> sep_inv ok no ni (mirror s)"
  unfolding sep_inv_def no_grants_def mirror_sel using sparse_rep_mirror arbs_ok_mirror by blast

lemma sep_ready_mirror: "sep_ready ok reqs ni no R s \<Longrightarrow> sep_ready ok reqs no ni (mirror_requests R) (mirror s)"
  using sparse_rep_mirror[of ni no R s] by (simp add: sep_ready_def arbs_ok_def no_grants_def mirror_requests_empty)

lemma matched_mirror:
  assumes m: "matched no ni (mirror_requests R) u" and dom: "\<And>i out. R (i, out) \<noteq> None \<Longrightarrow> i < ni \<and> out < no"
  shows "matched ni no R (mirror u)"
proof -
  have l: "length (al_inmatch u) = no" "length (al_outmatch u) = ni"
    and e: "\<And>b a. b < no \<Longrightarrow> a < ni \<Longrightarrow> al_inmatch u ! b = Some a \<longleftrightarrow> al_outmatch u ! a = Some b"
    and r: "\<And>b a. b < no \<Longrightarrow> al_inmatch u ! b = Some a \<Longrightarrow> R (a, b) \<noteq> None"
      "\<And>a b. a < ni \<Longrightarrow> al_outmatch u ! a = Some b \<Longrightarrow> R (a, b) \<noteq> None"
    and ne: "R \<noteq> Map.empty \<Longrightarrow> \<exists>b < no. al_inmatch u ! b \<noteq> None"
    using m unfolding matched_def mirror_requests_None mirror_requests_empty by simp_all
  have "\<exists>a < ni. al_outmatch u ! a \<noteq> None" if "R \<noteq> Map.empty"
  proof -
    from ne[OF that] obtain b a where b: "b < no" "al_inmatch u ! b = Some a" by blast
    then have "a < ni" using dom r(1) by blast
    then show ?thesis using e[OF b(1)] b(2) by auto
  qed
  then show ?thesis using l e r by (auto simp: matched_def)
qed

text \<open>The mirrored priority: no input that asked for the output has a higher priority at its arbiter.\<close>

definition top_input :: "port_requests \<Rightarrow> nat \<Rightarrow> nat \<Rightarrow> bool" where
  "top_input R i out \<longleftrightarrow> (\<exists>l ip op. R (i, out) = Some (l, ip, op) \<and>
     (\<forall>i' l' ip' op'. R (i', out) = Some (l', ip', op') \<longrightarrow> op' \<le> op))"

lemma top_choice_mirror: "top_choice (mirror_requests R) out i \<Longrightarrow> top_input R i out"
  by (fastforce simp: top_choice_def top_input_def mirror_requests_def)

definition alloc_run :: "'a arb_ops \<Rightarrow> ('a arb_ops \<Rightarrow> 'a separable \<Rightarrow> 'a separable cxx) \<Rightarrow> (nat \<Rightarrow> 'a) \<Rightarrow> nat \<Rightarrow> nat \<Rightarrow>
    port_request list list \<Rightarrow> 'a separable cxx" where
  "alloc_run V alloc new_arb ni no Ls = foldE (alloc_cycle V (alloc V)) (new_separable new_arb ni no) Ls"

context arbiter_contract begin

lemma output_first_cycle:
  assumes "sep_inv ok ni no s" and "requests_ok ni no L"
  shows "\<exists>t. alloc_cycle V (OutputFirst_Allocate V) s L = Inr t \<and> sep_inv ok ni no t \<and> matched ni no (requests_of L) t \<and>
    (\<forall>out < no. \<forall>i. al_outmatch t ! out = Some i \<longrightarrow> top_input (requests_of L) i out)"
proof -
  let ?R = "requests_of L"
  obtain u where u: "add_requests (Separable_Clear V s) L = Inr u" "sep_ready ok reqs ni no ?R u"
    using cycle_ready[OF assms] by blast
  have "sparse_rep ni no ?R u" using u(2) by (simp add: sep_ready_def)
  then have dom: "\<And>i out. ?R (i, out) \<noteq> None \<Longrightarrow> i < ni \<and> out < no" using sparse_rep_bounds by blast
  from input_first_allocates[OF sep_ready_mirror[OF u(2)]] obtain v where
    v: "InputFirst_Allocate V (mirror u) = Inr v" "sep_inv ok no ni v" "matched no ni (mirror_requests ?R) v"
    "\<forall>out < no. \<forall>i. al_inmatch v ! out = Some i \<longrightarrow> top_choice (mirror_requests ?R) out i" by blast
  have "sep_inv ok ni no (mirror v)" "matched ni no ?R (mirror v)" using sep_inv_mirror[OF v(2)] matched_mirror[OF v(3) dom] by blast+
  moreover have "\<forall>out < no. \<forall>i. al_outmatch (mirror v) ! out = Some i \<longrightarrow> top_input ?R i out"
    using v(4) top_choice_mirror by simp
  ultimately show ?thesis using u(1) v(1) by (simp add: alloc_cycle_def output_first_mirror)
qed

lemma run_of_cycles:
  assumes new: "\<And>n. ok n (new_arb n)"
    and cycle: "\<And>s L. sep_inv ok ni no s \<Longrightarrow> requests_ok ni no L \<Longrightarrow> \<exists>t. alloc_cycle V (alloc V) s L = Inr t \<and> sep_inv ok ni no t \<and> P L t"
    and L: "\<forall>L \<in> set (Ls @ [L]). requests_ok ni no L"
  shows "\<exists>t. alloc_run V alloc new_arb ni no (Ls @ [L]) = Inr t \<and> P L t"
proof -
  have "\<exists>s. foldE (alloc_cycle V (alloc V)) s0 Ls = Inr s \<and> sep_inv ok ni no s" if "sep_inv ok ni no s0" "\<forall>L \<in> set Ls. requests_ok ni no L" for s0 Ls
    using that
  proof (induction Ls arbitrary: s0)
    case (Cons L Ls)
    then obtain s1 where s1: "alloc_cycle V (alloc V) s0 L = Inr s1" "sep_inv ok ni no s1"
      using cycle[OF Cons.prems(1), of L] by auto
    then show ?case using Cons.IH[OF s1(2)] Cons.prems(2) by simp
  qed simp
  from this[OF new_separable_inv[OF new], of Ls] L obtain s where
    s: "foldE (alloc_cycle V (alloc V)) (new_separable new_arb ni no) Ls = Inr s" "sep_inv ok ni no s" by auto
  then show ?thesis using cycle[OF s(2), of L] L by (auto simp: alloc_run_def foldE_append)
qed

lemma input_first_run:
  assumes "\<And>n. ok n (new_arb n)" and "\<forall>L \<in> set (Ls @ [L]). requests_ok ni no L"
  shows "\<exists>t. alloc_run V InputFirst_Allocate new_arb ni no (Ls @ [L]) = Inr t \<and> matched ni no (requests_of L) t \<and>
    (\<forall>i < ni. \<forall>out. al_inmatch t ! i = Some out \<longrightarrow> top_choice (requests_of L) i out)"
  by (rule run_of_cycles[where P = "\<lambda>L t. matched ni no (requests_of L) t \<and>
      (\<forall>i < ni. \<forall>out. al_inmatch t ! i = Some out \<longrightarrow> top_choice (requests_of L) i out)", OF assms(1) _ assms(2)])
    (rule input_first_cycle)

lemma output_first_run:
  assumes "\<And>n. ok n (new_arb n)" and "\<forall>L \<in> set (Ls @ [L]). requests_ok ni no L"
  shows "\<exists>t. alloc_run V OutputFirst_Allocate new_arb ni no (Ls @ [L]) = Inr t \<and> matched ni no (requests_of L) t \<and>
    (\<forall>out < no. \<forall>i. al_outmatch t ! out = Some i \<longrightarrow> top_input (requests_of L) i out)"
  by (rule run_of_cycles[where P = "\<lambda>L t. matched ni no (requests_of L) t \<and>
      (\<forall>out < no. \<forall>i. al_outmatch t ! out = Some i \<longrightarrow> top_input (requests_of L) i out)", OF assms(1) _ assms(2)])
    (rule output_first_cycle)

end

text \<open>Claim C29. The separable input-first allocator, with round-robin and with matrix arbiters, over any number of cycles of
  valid requests: no assertion fails in any cycle, and after the last one the grants are a matching of requested pairs, some
  input is granted when there is a request, and every granted output is of the highest priority among the outputs its input
  asked for.\<close>

theorem input_first_matching:
  assumes "\<forall>L \<in> set (Ls @ [L]). requests_ok ni no L"
  shows "(\<exists>t. alloc_run rr_ops InputFirst_Allocate new_rr ni no (Ls @ [L]) = Inr t \<and> matched ni no (requests_of L) t \<and>
      (\<forall>i < ni. \<forall>out. al_inmatch t ! i = Some out \<longrightarrow> top_choice (requests_of L) i out)) \<and>
    (\<exists>t. alloc_run matrix_ops InputFirst_Allocate new_matrix ni no (Ls @ [L]) = Inr t \<and> matched ni no (requests_of L) t \<and>
      (\<forall>i < ni. \<forall>out. al_inmatch t ! i = Some out \<longrightarrow> top_choice (requests_of L) i out))"
  using rr.input_first_run[OF new_arbiters_ok(1) assms] matrix.input_first_run[OF new_arbiters_ok(2) assms] by (rule conjI)

theorem input_first_matching_witness:
  "\<exists>t. alloc_run rr_ops InputFirst_Allocate new_rr 2 2 ([[(0, 0, 1, 0, 0)]] @ [[(0, 0, 1, 0, 0), (1, 0, 2, 0, 0)]]) = Inr t \<and>
    matched 2 2 (requests_of [(0, 0, 1, 0, 0), (1, 0, 2, 0, 0)]) t"
  using input_first_matching[of "[[(0, 0, 1, 0, 0)]]" "[(0, 0, 1, 0, 0), (1, 0, 2, 0, 0)]" 2 2] by (auto simp: requests_ok_def)

text \<open>The separable output-first allocator, with round-robin and with matrix arbiters: as the input-first one, and
  every output granted goes to an input of the highest priority among those that asked for the output.\<close>

theorem output_first_matching:
  assumes "\<forall>L \<in> set (Ls @ [L]). requests_ok ni no L"
  shows "(\<exists>t. alloc_run rr_ops OutputFirst_Allocate new_rr ni no (Ls @ [L]) = Inr t \<and> matched ni no (requests_of L) t \<and>
      (\<forall>out < no. \<forall>i. al_outmatch t ! out = Some i \<longrightarrow> top_input (requests_of L) i out)) \<and>
    (\<exists>t. alloc_run matrix_ops OutputFirst_Allocate new_matrix ni no (Ls @ [L]) = Inr t \<and> matched ni no (requests_of L) t \<and>
      (\<forall>out < no. \<forall>i. al_outmatch t ! out = Some i \<longrightarrow> top_input (requests_of L) i out))"
  using rr.output_first_run[OF new_arbiters_ok(1) assms] matrix.output_first_run[OF new_arbiters_ok(2) assms] by (rule conjI)

theorem output_first_matching_witness:
  "\<exists>t. alloc_run matrix_ops OutputFirst_Allocate new_matrix 2 2 ([[(0, 0, 1, 0, 0)]] @ [[(0, 0, 1, 0, 0), (1, 0, 2, 0, 0)]]) = Inr t \<and>
    matched 2 2 (requests_of [(0, 0, 1, 0, 0), (1, 0, 2, 0, 0)]) t"
  using output_first_matching[of "[[(0, 0, 1, 0, 0)]]" "[(0, 0, 1, 0, 0), (1, 0, 2, 0, 0)]" 2 2] by (auto simp: requests_ok_def)

end
