(* ===== verification/Ptx_Reg.thy ===== *)
theory Ptx_Reg
  imports Cxx_Prelude
begin

unbundle bit_operations_syntax

text \<open>
  Registers and operands of the functional simulator (cuda-sim/ptx_sim.h, ptx_ir.cc, instructions.cc).  The union
  \<open>ptx_reg_t\<close> is its 64 low bits, a word; \<open>r.u16\<close>, \<open>r.s32\<close> and so on read some of its bits as a number, and an assignment
  to such a member replaces these bits.  Operands in registers and literals are modelled; where the code goes on with
  floating point, with the 128-bit members or with a memory space the outcome is \<open>Outside_Model\<close>.
\<close>

section \<open>The register union\<close>

type_synonym ptx_reg = u64

definition ur :: "nat \<Rightarrow> ptx_reg \<Rightarrow> int" where "ur n r = take_bit n (uint r)"

definition sr :: "nat \<Rightarrow> ptx_reg \<Rightarrow> int" where "sr n r = signed_take_bit (n - 1) (uint r)"

definition put :: "nat \<Rightarrow> ptx_reg \<Rightarrow> int \<Rightarrow> ptx_reg" where
  "put n r v = (r AND NOT (mask n)) OR of_int (take_bit n v)"

definition get_bit :: "ptx_reg \<Rightarrow> nat \<Rightarrow> bool" where "get_bit r n = bit r n"

text \<open>\<open>mask_and(ms, ls)\<close> and \<open>mask_or(ms, ls)\<close> on the two 32-bit halves.\<close>

definition mask_and :: "ptx_reg \<Rightarrow> u32 \<Rightarrow> u32 \<Rightarrow> ptx_reg" where
  "mask_and r ms ls = r AND (push_bit 32 (ucast ms) OR ucast ls)"

definition mask_or :: "ptx_reg \<Rightarrow> u32 \<Rightarrow> u32 \<Rightarrow> ptx_reg" where
  "mask_or r ms ls = r OR (push_bit 32 (ucast ms) OR ucast ls)"

text \<open>An \<open>n\<close>-bit signed result, whose overflow has no defined behaviour.\<close>

definition signed_fits :: "nat \<Rightarrow> int \<Rightarrow> bool" where
  "signed_fits n v \<longleftrightarrow> - (2 ^ (n - 1)) \<le> v \<and> v < 2 ^ (n - 1)"

definition s_arith :: "nat \<Rightarrow> int \<Rightarrow> int cxx" where
  "s_arith n v = (if signed_fits n v then Inr v else Inl Undefined_Behaviour)"

section \<open>Types\<close>

datatype ptx_type = S8_TYPE | S16_TYPE | S32_TYPE | S64_TYPE | U8_TYPE | U16_TYPE | U32_TYPE | U64_TYPE | F16_TYPE | F32_TYPE
  | F64_TYPE | FF64_TYPE | PRED_TYPE | B8_TYPE | B16_TYPE | B32_TYPE | B64_TYPE | BB64_TYPE | BB128_TYPE | TEXREF_TYPE
  | SAMPLERREF_TYPE | SURFREF_TYPE

text \<open>The result of the function, \<open>size\<close> and \<open>basic_type\<close>.\<close>

fun type_decode :: "ptx_type \<Rightarrow> nat \<times> nat \<times> int" where
  "type_decode S8_TYPE = (0, 8, 1)"
| "type_decode S16_TYPE = (1, 16, 1)"
| "type_decode S32_TYPE = (2, 32, 1)"
| "type_decode S64_TYPE = (3, 64, 1)"
| "type_decode U8_TYPE = (4, 8, 0)"
| "type_decode U16_TYPE = (5, 16, 0)"
| "type_decode U32_TYPE = (6, 32, 0)"
| "type_decode U64_TYPE = (7, 64, 0)"
| "type_decode F16_TYPE = (8, 16, -1)"
| "type_decode F32_TYPE = (9, 32, -1)"
| "type_decode F64_TYPE = (10, 64, -1)"
| "type_decode FF64_TYPE = (10, 64, -1)"
| "type_decode PRED_TYPE = (11, 1, 2)"
| "type_decode B8_TYPE = (12, 8, 0)"
| "type_decode B16_TYPE = (13, 16, 0)"
| "type_decode B32_TYPE = (14, 32, 0)"
| "type_decode B64_TYPE = (15, 64, 0)"
| "type_decode BB64_TYPE = (15, 64, 0)"
| "type_decode BB128_TYPE = (16, 128, 0)"
| "type_decode TEXREF_TYPE = (16, 32, 3)"
| "type_decode SAMPLERREF_TYPE = (16, 32, 3)"
| "type_decode SURFREF_TYPE = (16, 32, 3)"

definition type_size :: "ptx_type \<Rightarrow> nat" where "type_size t = fst (snd (type_decode t))"

definition is_float :: "ptx_type \<Rightarrow> bool" where
  "is_float t \<longleftrightarrow> t \<in> {F16_TYPE, F32_TYPE, F64_TYPE, FF64_TYPE}"

section \<open>Threads and operands\<close>

record ptx_thread =
  th_regs :: "string \<Rightarrow> ptx_reg option"
  th_last :: ptx_reg

text \<open>A double operand is a pair; a vector has up to four elements.\<close>

datatype operand_kind = Reg_Op string | Pair_Op string string | Vec_Op "string list" | Literal_Op ptx_reg

record operand_info =
  op_kind :: operand_kind
  op_double :: int
  op_lohi :: nat
  op_neg :: bool
  op_offset :: int

definition set_reg :: "ptx_thread \<Rightarrow> string \<Rightarrow> ptx_reg \<Rightarrow> ptx_thread" where
  "set_reg th s v = (if s = ''_'' then th else th\<lparr>th_regs := (th_regs th)(s \<mapsto> v), th_last := v\<rparr>)"

text \<open>A register that was not written is set to 0; the name \<open>_\<close> is never found.\<close>

definition get_reg :: "ptx_thread \<Rightarrow> string \<Rightarrow> (ptx_thread \<times> ptx_reg) cxx" where
  "get_reg th s = (case th_regs th s of Some v \<Rightarrow> Inr (th, v)
     | None \<Rightarrow> if s = ''_'' then Inl Undefined_Behaviour else Inr (set_reg th s 0, 0))"

definition half_of :: "nat \<Rightarrow> ptx_reg \<Rightarrow> ptx_reg" where
  "half_of lohi r = (if lohi = 1 then r AND 0xFFFF else if lohi = 2 then drop_bit 16 r AND 0xFFFF else r)"

definition negate_as :: "ptx_type \<Rightarrow> ptx_reg \<Rightarrow> ptx_reg cxx" where
  "negate_as t r = (case t of
     S8_TYPE \<Rightarrow> Inr (put 8 r (- sr 8 r)) | U8_TYPE \<Rightarrow> Inr (put 8 r (- sr 8 r)) | B8_TYPE \<Rightarrow> Inr (put 8 r (- sr 8 r))
   | S16_TYPE \<Rightarrow> Inr (put 16 r (- sr 16 r)) | U16_TYPE \<Rightarrow> Inr (put 16 r (- sr 16 r)) | B16_TYPE \<Rightarrow> Inr (put 16 r (- sr 16 r))
   | S32_TYPE \<Rightarrow> bindE (s_arith 32 (- sr 32 r)) (\<lambda>v. Inr (put 32 r v))
   | U32_TYPE \<Rightarrow> bindE (s_arith 32 (- sr 32 r)) (\<lambda>v. Inr (put 32 r v))
   | B32_TYPE \<Rightarrow> bindE (s_arith 32 (- sr 32 r)) (\<lambda>v. Inr (put 32 r v))
   | S64_TYPE \<Rightarrow> bindE (s_arith 64 (- sr 64 r)) (\<lambda>v. Inr (put 64 r v))
   | U64_TYPE \<Rightarrow> bindE (s_arith 64 (- sr 64 r)) (\<lambda>v. Inr (put 64 r v))
   | B64_TYPE \<Rightarrow> bindE (s_arith 64 (- sr 64 r)) (\<lambda>v. Inr (put 64 r v))
   | F16_TYPE \<Rightarrow> Inl Outside_Model | F32_TYPE \<Rightarrow> Inl Outside_Model | F64_TYPE \<Rightarrow> Inl Outside_Model | FF64_TYPE \<Rightarrow> Inl Outside_Model
   | _ \<Rightarrow> Inl Assert_Failed)"

definition vec_sym :: "operand_info \<Rightarrow> nat \<Rightarrow> string cxx" where
  "vec_sym op n = (case op_kind op of
     Pair_Op s1 s2 \<Rightarrow> if n = 0 then Inr s1 else if n = 1 then Inr s2 else Inl Assert_Failed
   | Vec_Op ss \<Rightarrow> if n < 4 \<and> n < length ss then Inr (ss ! n) else Inl Assert_Failed
   | _ \<Rightarrow> Inl Undefined_Behaviour)"

text \<open>The value of the operand before its negation.\<close>

definition operand_value :: "ptx_thread \<Rightarrow> operand_info \<Rightarrow> ptx_type \<Rightarrow> (ptx_thread \<times> ptx_reg) cxx" where
  "operand_value th op t =
     (if op_double op = 0 then
        (if t = BB128_TYPE then Inl Outside_Model
         else if t = BB64_TYPE \<or> t = FF64_TYPE then
           bindE (vec_sym op 0) (\<lambda>s0. bindE (get_reg th s0) (\<lambda>(th, v0).
           bindE (vec_sym op 1) (\<lambda>s1. bindE (get_reg th s1) (\<lambda>(th, v1).
             Inr (th, push_bit 32 (take_bit 32 v1) OR take_bit 32 v0)))))
         else case op_kind op of
             Reg_Op s \<Rightarrow> bindE (get_reg th s) (\<lambda>(th, v). Inr (th, half_of (op_lohi op) v))
           | Literal_Op v \<Rightarrow> Inr (th, half_of (op_lohi op) v)
           | _ \<Rightarrow> Inl Assert_Failed)
      else if op_double op = 1 then
        bindE (vec_sym op 0) (\<lambda>s0. bindE (get_reg th s0) (\<lambda>(th, v0).
        bindE (vec_sym op 1) (\<lambda>s1. bindE (get_reg th s1) (\<lambda>(th, v1). Inr (th, v0 + half_of (op_lohi op) v1)))))
      else if op_double op = 2 then
        bindE (vec_sym op 0) (\<lambda>s0. bindE (get_reg th s0) (\<lambda>(th, v0).
        bindE (vec_sym op 1) (\<lambda>s1. bindE (get_reg th s1) (\<lambda>(th, v1).
          Inr (set_reg th s0 (v0 + half_of (op_lohi op) v1), v0)))))
      else if op_double op = 3 then
        (case op_kind op of Reg_Op s \<Rightarrow> bindE (get_reg th s) (\<lambda>(th, v). Inr (set_reg th s (v + of_int (op_offset op)), v))
         | _ \<Rightarrow> Inl Outside_Model)
      else Inr (th, 0))"

definition get_operand_value :: "ptx_thread \<Rightarrow> operand_info \<Rightarrow> ptx_type \<Rightarrow> bool \<Rightarrow> (ptx_thread \<times> ptx_reg) cxx" where
  "get_operand_value th op t deref = bindE (operand_value th op t) (\<lambda>(th, r).
     if op_neg op \<and> deref then bindE (negate_as t r) (\<lambda>r. Inr (th, r)) else Inr (th, r))"

section \<open>Writing a result\<close>

text \<open>The predicate of a result: bit 0 for zero (the sign bit is not looked at), bit 1 for the sign.\<close>

definition zero_flag :: "ptx_type \<Rightarrow> ptx_reg \<Rightarrow> bool cxx" where
  "zero_flag t r = (case t of
     S8_TYPE \<Rightarrow> Inr (take_bit 7 r = 0) | S16_TYPE \<Rightarrow> Inr (take_bit 15 r = 0) | S32_TYPE \<Rightarrow> Inr (take_bit 31 r = 0)
   | S64_TYPE \<Rightarrow> Inr (take_bit 63 r = 0)
   | U8_TYPE \<Rightarrow> Inr (ur 8 r = 0) | B8_TYPE \<Rightarrow> Inr (ur 8 r = 0) | U16_TYPE \<Rightarrow> Inr (ur 16 r = 0) | B16_TYPE \<Rightarrow> Inr (ur 16 r = 0)
   | U32_TYPE \<Rightarrow> Inr (ur 32 r = 0) | B32_TYPE \<Rightarrow> Inr (ur 32 r = 0) | U64_TYPE \<Rightarrow> Inr (ur 64 r = 0) | B64_TYPE \<Rightarrow> Inr (ur 64 r = 0)
   | F16_TYPE \<Rightarrow> Inl Outside_Model | F32_TYPE \<Rightarrow> Inl Outside_Model | F64_TYPE \<Rightarrow> Inl Outside_Model | FF64_TYPE \<Rightarrow> Inl Outside_Model
   | _ \<Rightarrow> Inl Assert_Failed)"

text \<open>\<open>1 << (size - 1)\<close> has no defined value for a size of 64.\<close>

definition sign_flag :: "ptx_type \<Rightarrow> ptx_reg \<Rightarrow> bool cxx" where
  "sign_flag t r = (if type_size t = 64 then Inl Undefined_Behaviour else Inr (bit r (type_size t - 1)))"

text \<open>\<open>~0xFFFF0000\<close> is an unsigned 32-bit number, so the upper half of the register is cleared with the bits it names.\<close>

definition merge_half :: "nat \<Rightarrow> ptx_reg \<Rightarrow> ptx_reg \<Rightarrow> ptx_reg" where
  "merge_half lohi old r = (if lohi = 1 then (old AND NOT 0xFFFF) + (r AND 0xFFFF)
     else if lohi = 2 then (old AND 0xFFFF) + (push_bit 16 r AND 0xFFFF0000) else r)"

text \<open>\<open>m_regs.back()[s]\<close>, which makes the entry.\<close>

definition reg_at :: "ptx_thread \<Rightarrow> string \<Rightarrow> ptx_thread \<times> ptx_reg" where
  "reg_at th s = (case th_regs th s of None \<Rightarrow> (th\<lparr>th_regs := (th_regs th)(s \<mapsto> 0)\<rparr>, 0) | Some v \<Rightarrow> (th, v))"

text \<open>The register is read only where half of it is kept.\<close>

definition merged :: "ptx_thread \<Rightarrow> nat \<Rightarrow> string \<Rightarrow> ptx_reg \<Rightarrow> ptx_thread \<times> ptx_reg" where
  "merged th lohi s data = (if lohi = 1 \<or> lohi = 2
     then let (th, old) = reg_at th s in (th, merge_half lohi old data) else (th, data))"

definition set_operand_value :: "ptx_thread \<Rightarrow> operand_info \<Rightarrow> ptx_reg \<Rightarrow> ptx_type \<Rightarrow> ptx_thread cxx" where
  "set_operand_value th dst data t =
     (if op_double dst = -1 then
        (if is_float t then Inl Outside_Model
         else bindE (vec_sym dst 0) (\<lambda>s0. bindE (vec_sym dst 1) (\<lambda>s1.
           Inr (set_reg (set_reg th s0 data) s1 (if data = 0 then 0xFFFFFFFF else 0)))))
      else if op_double dst = -2 \<or> op_double dst = -3 then
        bindE (vec_sym dst 0) (\<lambda>p. bindE (vec_sym dst 1) (\<lambda>s. bindE (zero_flag t data) (\<lambda>z. bindE (sign_flag t data) (\<lambda>n.
          let pv = (if z then 1 else 0) OR (if n then 2 else 0);
              (th, v) = merged th (op_lohi dst) s data
          in Inr (set_reg (set_reg th p pv) s v)))))
      else if t = BB128_TYPE then Inl Outside_Model
      else if t = BB64_TYPE \<or> t = FF64_TYPE then
        bindE (vec_sym dst 0) (\<lambda>s0. bindE (vec_sym dst 1) (\<lambda>s1.
          Inr (set_reg (set_reg th s0 (take_bit 32 data)) s1 (drop_bit 32 data))))
      else case op_kind dst of Reg_Op s \<Rightarrow> let (th, v) = merged th (op_lohi dst) s data in Inr (set_reg th s v)
        | _ \<Rightarrow> Inl Undefined_Behaviour)"

text \<open>The other \<open>set_operand_value\<close>, with the overflow and the carry in bits 3 and 2 of the predicate.\<close>

definition set_operand_flags :: "ptx_thread \<Rightarrow> operand_info \<Rightarrow> ptx_reg \<Rightarrow> ptx_type \<Rightarrow> bool \<Rightarrow> bool \<Rightarrow> ptx_thread cxx" where
  "set_operand_flags th dst data t overflow carry = bindE (set_operand_value th dst data t) (\<lambda>th.
     if op_double dst = -2 then
       bindE (vec_sym dst 0) (\<lambda>p.
         let (th, old) = reg_at th p;
             pv = (old AND NOT 0xC) OR (if overflow then 8 else 0) OR (if carry then 4 else 0)
         in Inr (set_reg th p pv))
     else if op_double dst = 0 then Inr th
     else Inl Assert_Failed)"

section \<open>Reading what was written\<close>

lemma ur_put: "n \<le> 64 \<Longrightarrow> ur n (put n r v) = take_bit n v"
  by (rule bit_eqI) (auto simp: ur_def put_def bit_simps)

lemma ur_put_less: "m \<le> n \<Longrightarrow> n \<le> 64 \<Longrightarrow> ur m (put n r v) = take_bit m v"
  by (rule bit_eqI) (auto simp: ur_def put_def bit_simps)

lemma put_zero: "put n 0 v = of_int (take_bit n v)"
  by (simp add: put_def)

lemma ur_of_int: "n \<le> 64 \<Longrightarrow> ur n (of_int v) = take_bit n v"
  by (rule bit_eqI) (auto simp: ur_def bit_simps)

lemma ur_range: "0 \<le> ur n r" "ur n r < 2 ^ n"
  by (simp_all add: ur_def)

lemma ur_mod: "ur n r = uint r mod 2 ^ n"
  by (simp add: ur_def take_bit_eq_mod)

lemma bit_ur: "m < n \<Longrightarrow> bit (ur n r) m = bit r m"
  by (simp add: ur_def bit_simps)

text \<open>The top bit of an \<open>n\<close>-bit number.\<close>

lemma top_bit: "0 < n \<Longrightarrow> bit r (n - 1) \<longleftrightarrow> 2 ^ (n - 1) \<le> ur n r"
proof -
  assume n: "0 < n"
  define h where "h = (2::int) ^ (n - 1)"
  have "(2::int) ^ n = 2 * h" unfolding h_def using n by (metis Suc_diff_1 power_Suc)
  then have x: "0 \<le> ur n r" "ur n r < 2 * h" "0 < h" using ur_range[of n r] by (simp_all add: h_def)
  have "ur n r div h = (if h \<le> ur n r then 1 else 0)"
  proof (cases "h \<le> ur n r")
    case True
    then show ?thesis using x int_div_pos_eq[of "ur n r" h 1 "ur n r - h"] by simp
  qed (use x in \<open>simp add: div_pos_pos_trivial\<close>)
  then have "bit (ur n r) (n - 1) \<longleftrightarrow> h \<le> ur n r" unfolding bit_iff_odd h_def[symmetric] by simp
  then show ?thesis using bit_ur[of "n - 1" n r] n by (simp add: h_def)
qed

lemma sr_ur: "0 < n \<Longrightarrow> sr n r = (if ur n r < 2 ^ (n - 1) then ur n r else ur n r - 2 ^ n)"
proof -
  assume n: "0 < n"
  have "sr n r = ur n r - of_bool (bit (uint r) (n - 1)) * 2 ^ n"
    using n by (simp add: sr_def ur_def signed_take_bit_eq_take_bit_minus)
  moreover have "bit (uint r) (n - 1) = bit r (n - 1)" by (auto simp: bit_uint_iff dest: bit_imp_le_length)
  ultimately show ?thesis using top_bit[OF n, of r] by simp
qed

lemma take_bit_sr: "0 < n \<Longrightarrow> take_bit n (sr n r) = ur n r"
  by (simp add: sr_def ur_def take_bit_signed_take_bit)

end
