(* ===== verification/Ptx_Alu.thy ===== *)
theory Ptx_Alu
  imports Ptx_Reg
begin

unbundle bit_operations_syntax

text \<open>
  The integer instructions of the functional simulator (cuda-sim/instructions.cc): what each \<open>_impl\<close> function computes
  from the values of its operands.  An operation on the host's \<open>int\<close> or \<open>long long\<close> that overflows, a division by zero and
  a shift by the width or more have no defined value; the branches of floating-point types end in \<open>Outside_Model\<close>.
\<close>

section \<open>Instructions\<close>

datatype rounding_option = RN_OPTION | RZ_OPTION | Other_Rounding

datatype cmp_option = EQ_OPTION | NE_OPTION | LT_OPTION | LE_OPTION | GT_OPTION | GE_OPTION | LO_OPTION | LS_OPTION | HI_OPTION
  | HS_OPTION | EQU_OPTION | NEU_OPTION | LTU_OPTION | LEU_OPTION | GTU_OPTION | GEU_OPTION | NUM_OPTION | NAN_OPTION

record ptx_inst =
  i_type :: ptx_type
  i_type2 :: ptx_type
  i_rounding :: rounding_option
  i_wide :: bool
  i_hi :: bool
  i_lo :: bool
  i_sat :: bool
  i_neg :: bool
  i_abs :: bool
  i_cmpop :: cmp_option
  i_operands :: nat

text \<open>The value written with the overflow and the carry.\<close>

type_synonym alu_result = "ptx_reg \<times> bool \<times> bool"

section \<open>Addition and subtraction\<close>

text \<open>The sum of the low \<open>n\<close> bits and \<open>c\<close>: overflow when the operands agree in the top bit and the sum does not, carry from bit
  \<open>n\<close>.  The unsigned cases set the carry only.\<close>

definition add_signed :: "nat \<Rightarrow> ptx_reg \<Rightarrow> ptx_reg \<Rightarrow> int \<Rightarrow> alu_result" where
  "add_signed n a b c = (let d = of_int (ur n a + ur n b + c)
     in (d, bit a (n - 1) = bit b (n - 1) \<and> bit a (n - 1) \<noteq> bit d (n - 1), bit d n))"

definition add_unsigned :: "nat \<Rightarrow> ptx_reg \<Rightarrow> ptx_reg \<Rightarrow> int \<Rightarrow> alu_result" where
  "add_unsigned n a b c = (let d = of_int (ur n a + ur n b + c) in (d, False, bit d n))"

definition rounding_ok :: "ptx_inst \<Rightarrow> bool" where
  "rounding_ok I \<longleftrightarrow> i_rounding I = RN_OPTION \<or> i_rounding I = RZ_OPTION"

definition add_op :: "ptx_inst \<Rightarrow> ptx_reg \<Rightarrow> ptx_reg \<Rightarrow> alu_result cxx" where
  "add_op I a b = assertE (rounding_ok I) (case i_type I of
     S8_TYPE \<Rightarrow> Inr (add_signed 8 a b 0)
   | S16_TYPE \<Rightarrow> Inr (add_signed 16 a b 0)
   | S32_TYPE \<Rightarrow> Inr (add_signed 32 a b 0)
   | S64_TYPE \<Rightarrow> bindE (s_arith 64 (sr 64 a + sr 64 b)) (\<lambda>v. Inr (of_int v, False, False))
   | U8_TYPE \<Rightarrow> Inr (add_unsigned 8 a b 0)
   | U16_TYPE \<Rightarrow> Inr (add_unsigned 16 a b 0)
   | U32_TYPE \<Rightarrow> Inr (add_unsigned 32 a b 0)
   | U64_TYPE \<Rightarrow> Inr (a + b, False, False)
   | F32_TYPE \<Rightarrow> Inl Outside_Model | F64_TYPE \<Rightarrow> Inl Outside_Model | FF64_TYPE \<Rightarrow> Inl Outside_Model
   | _ \<Rightarrow> Inl Assert_Failed)"

text \<open>The third operand is the predicate with the carry in bit 2; the code adds \<open>pred & 0x4\<close>.\<close>

definition carry_in :: "ptx_reg \<Rightarrow> int" where "carry_in p = ur 4 p AND 4"

definition addp_op :: "ptx_inst \<Rightarrow> ptx_reg \<Rightarrow> ptx_reg \<Rightarrow> ptx_reg \<Rightarrow> alu_result cxx" where
  "addp_op I a b p = assertE (rounding_ok I) (case i_type I of
     S8_TYPE \<Rightarrow> Inr (add_signed 8 a b (carry_in p))
   | S16_TYPE \<Rightarrow> Inr (add_signed 16 a b (carry_in p))
   | S32_TYPE \<Rightarrow> Inr (add_signed 32 a b (carry_in p))
   | S64_TYPE \<Rightarrow> bindE (s_arith 64 (sr 64 a + sr 64 b)) (\<lambda>v. bindE (s_arith 64 (v + carry_in p)) (\<lambda>v. Inr (of_int v, False, False)))
   | U8_TYPE \<Rightarrow> Inr (add_unsigned 8 a b (carry_in p))
   | U16_TYPE \<Rightarrow> Inr (add_unsigned 16 a b (carry_in p))
   | U32_TYPE \<Rightarrow> Inr (add_unsigned 32 a b (carry_in p))
   | U64_TYPE \<Rightarrow> bindE (s_arith 64 (sr 64 a + sr 64 b)) (\<lambda>v. bindE (s_arith 64 (v + carry_in p)) (\<lambda>v. Inr (of_int v, False, False)))
   | F32_TYPE \<Rightarrow> Inl Outside_Model | F64_TYPE \<Rightarrow> Inl Outside_Model | FF64_TYPE \<Rightarrow> Inl Outside_Model
   | _ \<Rightarrow> Inl Assert_Failed)"

definition sub_signed :: "nat \<Rightarrow> ptx_reg \<Rightarrow> ptx_reg \<Rightarrow> alu_result" where
  "sub_signed n a b = (let d = of_int (ur n a - ur n b + 2 ^ n)
     in (d, bit a (n - 1) \<noteq> bit b (n - 1) \<and> bit a (n - 1) \<noteq> bit d (n - 1), bit d n))"

definition sub_unsigned :: "nat \<Rightarrow> ptx_reg \<Rightarrow> ptx_reg \<Rightarrow> alu_result" where
  "sub_unsigned n a b = (let d = of_int (ur n a - ur n b + 2 ^ n) in (d, False, bit d n))"

definition sub_op :: "ptx_inst \<Rightarrow> ptx_reg \<Rightarrow> ptx_reg \<Rightarrow> alu_result cxx" where
  "sub_op I a b = (case i_type I of
     S8_TYPE \<Rightarrow> Inr (sub_signed 8 a b)
   | S16_TYPE \<Rightarrow> Inr (sub_signed 16 a b)
   | S32_TYPE \<Rightarrow> Inr (sub_signed 32 a b)
   | S64_TYPE \<Rightarrow> bindE (s_arith 64 (sr 64 a - sr 64 b)) (\<lambda>v. Inr (of_int v, False, False))
   | B8_TYPE \<Rightarrow> Inr (sub_unsigned 8 a b) | U8_TYPE \<Rightarrow> Inr (sub_unsigned 8 a b)
   | B16_TYPE \<Rightarrow> Inr (sub_unsigned 16 a b) | U16_TYPE \<Rightarrow> Inr (sub_unsigned 16 a b)
   | B32_TYPE \<Rightarrow> Inr (sub_unsigned 32 a b) | U32_TYPE \<Rightarrow> Inr (sub_unsigned 32 a b)
   | B64_TYPE \<Rightarrow> Inr (a - b, False, False) | U64_TYPE \<Rightarrow> Inr (a - b, False, False)
   | F32_TYPE \<Rightarrow> Inl Outside_Model | F64_TYPE \<Rightarrow> Inl Outside_Model | FF64_TYPE \<Rightarrow> Inl Outside_Model
   | _ \<Rightarrow> Inl Assert_Failed)"

section \<open>Multiplication\<close>

definition mul_op :: "ptx_inst \<Rightarrow> ptx_reg \<Rightarrow> ptx_reg \<Rightarrow> ptx_reg cxx" where
  "mul_op I a b = (case i_type I of
     S16_TYPE \<Rightarrow> let t = sr 16 a * sr 16 b in
       (if i_wide I then Inr (put 32 0 t) else if i_hi I then Inr (put 16 0 (drop_bit 16 t))
        else if i_lo I then Inr (put 16 0 t) else Inl Assert_Failed)
   | S32_TYPE \<Rightarrow> let t = sr 32 a * sr 32 b in
       (if i_wide I then Inr (put 64 0 t) else if i_hi I then Inr (put 32 0 (drop_bit 32 t))
        else if i_lo I then Inr (put 32 0 t) else Inl Assert_Failed)
   | S64_TYPE \<Rightarrow> bindE (s_arith 64 (sr 64 a * sr 64 b)) (\<lambda>t.
       assertE (\<not> i_wide I) (assertE (\<not> i_hi I) (if i_lo I then Inr (put 64 0 t) else Inl Assert_Failed)))
   | U16_TYPE \<Rightarrow> let t = ur 16 a * ur 16 b in
       (if i_wide I then Inr (put 32 0 t) else if i_lo I then Inr (put 16 0 t)
        else if i_hi I then Inr (put 16 0 (drop_bit 16 t)) else Inl Assert_Failed)
   | U32_TYPE \<Rightarrow> let t = ur 32 a * ur 32 b in
       (if i_wide I then Inr (put 64 0 t) else if i_lo I then Inr (put 32 0 t)
        else if i_hi I then Inr (put 32 0 (drop_bit 32 t)) else Inl Assert_Failed)
   | U64_TYPE \<Rightarrow> assertE (\<not> i_wide I) (assertE (\<not> i_hi I) (if i_lo I then Inr (a * b) else Inl Assert_Failed))
   | F32_TYPE \<Rightarrow> Inl Outside_Model | F64_TYPE \<Rightarrow> Inl Outside_Model | FF64_TYPE \<Rightarrow> Inl Outside_Model
   | _ \<Rightarrow> Inl Assert_Failed)"

text \<open>\<open>mad\<close> and, with a carry predicate \<open>Some p\<close>, \<open>madp\<close>.  The products of 32-bit operands are taken in \<open>int\<close> and \<open>unsigned\<close>.\<close>

definition carry_bit :: "ptx_reg option \<Rightarrow> int" where
  "carry_bit p = (case p of None \<Rightarrow> 0 | Some p \<Rightarrow> drop_bit 2 (ur 4 p AND 4))"

definition mad_op :: "ptx_inst \<Rightarrow> ptx_reg option \<Rightarrow> ptx_reg \<Rightarrow> ptx_reg \<Rightarrow> ptx_reg \<Rightarrow> alu_result cxx" where
  "mad_op I p a b c = (let cb = carry_bit p in case i_type I of
     S16_TYPE \<Rightarrow> let t = sr 16 a * sr 16 b in
       bindE (if i_wide I then bindE (s_arith 32 (t + sr 32 c)) (\<lambda>v. bindE (s_arith 32 (v + cb)) (\<lambda>v. Inr (put 32 0 v)))
              else if i_hi I then Inr (put 16 0 (drop_bit 16 t + sr 16 c + cb))
              else if i_lo I then Inr (put 16 0 (sr 16 (of_int t) + sr 16 c + cb)) else Inl Assert_Failed) (\<lambda>d.
       bindE (s_arith 32 (t + sr 32 c)) (\<lambda>v. bindE (s_arith 32 (v + cb)) (\<lambda>v. Inr (d, False, bit v 32))))
   | S32_TYPE \<Rightarrow> bindE (s_arith 32 (sr 32 a * sr 32 b)) (\<lambda>t.
       bindE (if i_wide I then bindE (s_arith 64 (t + sr 64 c)) (\<lambda>v. bindE (s_arith 64 (v + cb)) (\<lambda>v. Inr (put 64 0 v)))
              else if i_hi I then Inr (put 32 0 (drop_bit 32 t + sr 32 c + cb))
              else if i_lo I then bindE (s_arith 32 (t + sr 32 c)) (\<lambda>v. bindE (s_arith 32 (v + cb)) (\<lambda>v. Inr (put 32 0 v)))
              else Inl Assert_Failed) (\<lambda>d. Inr (d, False, False)))
   | S64_TYPE \<Rightarrow> bindE (s_arith 64 (sr 64 a * sr 64 b)) (\<lambda>t.
       assertE (\<not> i_wide I) (assertE (\<not> i_hi I) (assertE (p = None)
        (if i_lo I then bindE (s_arith 64 (t + sr 64 c)) (\<lambda>v. Inr (put 64 0 v, False, False)) else Inl Assert_Failed))))
   | U16_TYPE \<Rightarrow> bindE (s_arith 32 (ur 16 a * ur 16 b)) (\<lambda>t.
       bindE (if i_wide I then Inr (put 32 0 (t + ur 32 c + cb))
              else if i_hi I then Inr (put 16 0 (drop_bit 16 (take_bit 32 (t + ur 16 c + cb))))
              else if i_lo I then Inr (put 16 0 (take_bit 16 t + ur 16 c + cb)) else Inl Assert_Failed) (\<lambda>d.
       Inr (d, False, bit (t + ur 32 c + cb) 32)))
   | U32_TYPE \<Rightarrow> let t = take_bit 32 (ur 32 a * ur 32 b) in
       bindE (if i_wide I then Inr (put 64 0 (t + ur 64 c + cb))
              else if i_hi I then Inr (put 32 0 (drop_bit 32 (t + ur 32 c + cb)))
              else if i_lo I then Inr (put 32 0 (t + ur 32 c + cb)) else Inl Assert_Failed) (\<lambda>d. Inr (d, False, False))
   | U64_TYPE \<Rightarrow> assertE (\<not> i_wide I) (assertE (\<not> i_hi I) (assertE (p = None)
       (if i_lo I then Inr (a * b + c, False, False) else Inl Assert_Failed)))
   | F32_TYPE \<Rightarrow> Inl Outside_Model | F64_TYPE \<Rightarrow> Inl Outside_Model | FF64_TYPE \<Rightarrow> Inl Outside_Model
   | _ \<Rightarrow> Inl Assert_Failed)"

definition mad24_op :: "ptx_inst \<Rightarrow> ptx_reg \<Rightarrow> ptx_reg \<Rightarrow> ptx_reg \<Rightarrow> ptx_reg cxx" where
  "mad24_op I a b c = assertE (\<not> i_wide I) (case i_type I of
     S32_TYPE \<Rightarrow> bindE (s_arith 32 (sr 32 a * sr 32 b)) (\<lambda>t.
       if i_hi I then (let d = drop_bit 16 t + sr 32 c
         in Inr (of_int (if i_sat I then (if 2 ^ 31 - 1 < d then 2 ^ 31 - 1 else if d < - (2 ^ 31) then - (2 ^ 31) else d) else d)))
       else if i_lo I then bindE (s_arith 32 (t + sr 32 c)) (\<lambda>d. Inr (of_int d)) else Inl Assert_Failed)
   | U32_TYPE \<Rightarrow> let t = take_bit 32 (ur 32 a * ur 32 b) in
       (if i_hi I then Inr (of_int (drop_bit 16 t + ur 32 c))
        else if i_lo I then Inr (of_int (take_bit 32 (t + ur 32 c))) else Inl Assert_Failed)
   | _ \<Rightarrow> Inl Assert_Failed)"

definition extend24 :: "ptx_reg \<Rightarrow> ptx_reg" where
  "extend24 r = (if get_bit r 23 then mask_or r 0xFFFFFFFF 0xFF000000 else r)"

definition mul24_op :: "ptx_inst \<Rightarrow> ptx_reg \<Rightarrow> ptx_reg \<Rightarrow> ptx_reg cxx" where
  "mul24_op I a b = (let a = mask_and a 0 0x00FFFFFF; b = mask_and b 0 0x00FFFFFF in
     bindE (case i_type I of
        S32_TYPE \<Rightarrow> bindE (s_arith 64 (sr 64 (extend24 a) * sr 64 (extend24 b))) (\<lambda>v. Inr (of_int v))
      | U32_TYPE \<Rightarrow> Inr (a * b)
      | _ \<Rightarrow> Inl Assert_Failed) (\<lambda>d.
     Inr (if i_hi I then mask_and (drop_bit 16 d) 0 0xFFFFFFFF else if i_lo I then mask_and d 0 0xFFFFFFFF else d)))"

section \<open>Division, sign, order\<close>

definition trunc_div :: "int \<Rightarrow> int \<Rightarrow> int" where
  "trunc_div a b = sgn a * sgn b * (\<bar>a\<bar> div \<bar>b\<bar>)"

definition div_signed :: "nat \<Rightarrow> ptx_reg \<Rightarrow> ptx_reg \<Rightarrow> ptx_reg cxx" where
  "div_signed n a b = (if sr n b = 0 then Inl Undefined_Behaviour
     else bindE (s_arith (max 32 n) (trunc_div (sr n a) (sr n b))) (\<lambda>v. Inr (put n 0 v)))"

definition div_unsigned :: "nat \<Rightarrow> ptx_reg \<Rightarrow> ptx_reg \<Rightarrow> ptx_reg cxx" where
  "div_unsigned n a b = (if ur n b = 0 then Inl Undefined_Behaviour else Inr (put n 0 (ur n a div ur n b)))"

definition div_op :: "ptx_inst \<Rightarrow> ptx_reg \<Rightarrow> ptx_reg \<Rightarrow> ptx_reg cxx" where
  "div_op I a b = (case i_type I of
     S8_TYPE \<Rightarrow> div_signed 8 a b | S16_TYPE \<Rightarrow> div_signed 16 a b | S32_TYPE \<Rightarrow> div_signed 32 a b | S64_TYPE \<Rightarrow> div_signed 64 a b
   | U8_TYPE \<Rightarrow> div_unsigned 8 a b | U16_TYPE \<Rightarrow> div_unsigned 16 a b | U32_TYPE \<Rightarrow> div_unsigned 32 a b | U64_TYPE \<Rightarrow> div_unsigned 64 a b
   | B8_TYPE \<Rightarrow> div_unsigned 8 a b | B16_TYPE \<Rightarrow> div_unsigned 16 a b | B32_TYPE \<Rightarrow> div_unsigned 32 a b | B64_TYPE \<Rightarrow> div_unsigned 64 a b
   | F32_TYPE \<Rightarrow> Inl Outside_Model | F64_TYPE \<Rightarrow> Inl Outside_Model | FF64_TYPE \<Rightarrow> Inl Outside_Model
   | _ \<Rightarrow> Inl Assert_Failed)"

text \<open>The remainder of the registers as unsigned 64-bit numbers, whatever the type.\<close>

definition rem_op :: "ptx_reg \<Rightarrow> ptx_reg \<Rightarrow> ptx_reg cxx" where
  "rem_op a b = (if b = 0 then Inl Undefined_Behaviour else Inr (a mod b))"

definition neg_op :: "ptx_inst \<Rightarrow> ptx_reg \<Rightarrow> ptx_reg cxx" where
  "neg_op I a = (if i_type I \<in> {S8_TYPE, S16_TYPE, S32_TYPE, S64_TYPE} then bindE (s_arith 64 (0 - sr 64 a)) (\<lambda>v. Inr (of_int v))
     else if i_type I \<in> {F32_TYPE, F64_TYPE, FF64_TYPE} then Inl Outside_Model else Inl Assert_Failed)"

definition abs_op :: "ptx_inst \<Rightarrow> ptx_reg \<Rightarrow> ptx_reg cxx" where
  "abs_op I a = (case i_type I of
     S16_TYPE \<Rightarrow> Inr (put 16 0 \<bar>sr 16 a\<bar>)
   | S32_TYPE \<Rightarrow> bindE (s_arith 32 \<bar>sr 32 a\<bar>) (\<lambda>v. Inr (put 32 0 v))
   | S64_TYPE \<Rightarrow> bindE (s_arith 64 \<bar>sr 64 a\<bar>) (\<lambda>v. Inr (put 64 0 v))
   | U16_TYPE \<Rightarrow> Inr (put 16 0 (ur 16 a)) | U32_TYPE \<Rightarrow> Inr (put 32 0 (ur 32 a)) | U64_TYPE \<Rightarrow> Inr (put 64 0 (ur 64 a))
   | F32_TYPE \<Rightarrow> Inl Outside_Model | F64_TYPE \<Rightarrow> Inl Outside_Model | FF64_TYPE \<Rightarrow> Inl Outside_Model
   | _ \<Rightarrow> Inl Assert_Failed)"

definition max_op :: "ptx_inst \<Rightarrow> ptx_reg \<Rightarrow> ptx_reg \<Rightarrow> ptx_reg cxx" where
  "max_op I a b = (case i_type I of
     U16_TYPE \<Rightarrow> Inr (put 16 0 (max (ur 16 a) (ur 16 b))) | U32_TYPE \<Rightarrow> Inr (put 32 0 (max (ur 32 a) (ur 32 b)))
   | U64_TYPE \<Rightarrow> Inr (put 64 0 (max (ur 64 a) (ur 64 b)))
   | S16_TYPE \<Rightarrow> Inr (put 16 0 (max (sr 16 a) (sr 16 b))) | S32_TYPE \<Rightarrow> Inr (put 32 0 (max (sr 32 a) (sr 32 b)))
   | S64_TYPE \<Rightarrow> Inr (put 64 0 (max (sr 64 a) (sr 64 b)))
   | F32_TYPE \<Rightarrow> Inl Outside_Model | F64_TYPE \<Rightarrow> Inl Outside_Model | FF64_TYPE \<Rightarrow> Inl Outside_Model
   | _ \<Rightarrow> Inl Assert_Failed)"

definition min_op :: "ptx_inst \<Rightarrow> ptx_reg \<Rightarrow> ptx_reg \<Rightarrow> ptx_reg cxx" where
  "min_op I a b = (case i_type I of
     U16_TYPE \<Rightarrow> Inr (put 16 0 (min (ur 16 a) (ur 16 b))) | U32_TYPE \<Rightarrow> Inr (put 32 0 (min (ur 32 a) (ur 32 b)))
   | U64_TYPE \<Rightarrow> Inr (put 64 0 (min (ur 64 a) (ur 64 b)))
   | S16_TYPE \<Rightarrow> Inr (put 16 0 (min (sr 16 a) (sr 16 b))) | S32_TYPE \<Rightarrow> Inr (put 32 0 (min (sr 32 a) (sr 32 b)))
   | S64_TYPE \<Rightarrow> Inr (put 64 0 (min (sr 64 a) (sr 64 b)))
   | F32_TYPE \<Rightarrow> Inl Outside_Model | F64_TYPE \<Rightarrow> Inl Outside_Model | FF64_TYPE \<Rightarrow> Inl Outside_Model
   | _ \<Rightarrow> Inl Assert_Failed)"

definition sad_signed :: "nat \<Rightarrow> ptx_reg \<Rightarrow> ptx_reg \<Rightarrow> ptx_reg \<Rightarrow> ptx_reg cxx" where
  "sad_signed n a b c = bindE (s_arith (max 32 n) (if sr n a < sr n b then sr n b - sr n a else sr n a - sr n b)) (\<lambda>v.
     bindE (s_arith (max 32 n) (sr n c + v)) (\<lambda>v. Inr (put n 0 v)))"

definition sad_unsigned :: "nat \<Rightarrow> ptx_reg \<Rightarrow> ptx_reg \<Rightarrow> ptx_reg \<Rightarrow> ptx_reg" where
  "sad_unsigned n a b c = put n 0 (ur n c + (if ur n a < ur n b then ur n b - ur n a else ur n a - ur n b))"

definition sad_op :: "ptx_inst \<Rightarrow> ptx_reg \<Rightarrow> ptx_reg \<Rightarrow> ptx_reg \<Rightarrow> ptx_reg cxx" where
  "sad_op I a b c = (case i_type I of
     U16_TYPE \<Rightarrow> Inr (sad_unsigned 16 a b c) | U32_TYPE \<Rightarrow> Inr (sad_unsigned 32 a b c) | U64_TYPE \<Rightarrow> Inr (sad_unsigned 64 a b c)
   | S16_TYPE \<Rightarrow> sad_signed 16 a b c | S32_TYPE \<Rightarrow> sad_signed 32 a b c | S64_TYPE \<Rightarrow> sad_signed 64 a b c
   | F32_TYPE \<Rightarrow> Inl Outside_Model | F64_TYPE \<Rightarrow> Inl Outside_Model | FF64_TYPE \<Rightarrow> Inl Outside_Model
   | _ \<Rightarrow> Inl Assert_Failed)"

end
