(* ===== verification/Ptx_Logic.thy ===== *)
theory Ptx_Logic
  imports Ptx_Alu
begin

unbundle bit_operations_syntax

text \<open>
  The logical instructions, shifts, bit counts, comparisons, selections and integer conversions of the functional
  simulator (cuda-sim/instructions.cc).  A predicate is four bits, the lowest one set for \<open>false\<close>.
\<close>

section \<open>Bitwise operations\<close>

definition and_op :: "ptx_inst \<Rightarrow> ptx_reg \<Rightarrow> ptx_reg \<Rightarrow> ptx_reg" where
  "and_op I a b = (if i_type I = PRED_TYPE then put 4 0 (NOT (NOT (ur 4 a) AND NOT (ur 4 b))) else a AND b)"

definition or_op :: "ptx_inst \<Rightarrow> ptx_reg \<Rightarrow> ptx_reg \<Rightarrow> ptx_reg" where
  "or_op I a b = (if i_type I = PRED_TYPE then put 4 0 (NOT (NOT (ur 4 a) OR NOT (ur 4 b))) else a OR b)"

definition orn_op :: "ptx_inst \<Rightarrow> ptx_reg \<Rightarrow> ptx_reg \<Rightarrow> ptx_reg" where
  "orn_op I a b = (if i_type I = PRED_TYPE then put 4 0 (NOT (NOT (ur 4 a) OR ur 4 b)) else a OR NOT b)"

definition xor_op :: "ptx_inst \<Rightarrow> ptx_reg \<Rightarrow> ptx_reg \<Rightarrow> ptx_reg" where
  "xor_op I a b = (if i_type I = PRED_TYPE then put 4 0 (NOT (NOT (ur 4 a) XOR NOT (ur 4 b))) else a XOR b)"

definition nandn_op :: "ptx_inst \<Rightarrow> ptx_reg \<Rightarrow> ptx_reg \<Rightarrow> ptx_reg" where
  "nandn_op I a b = (if i_type I = PRED_TYPE then put 4 0 (NOT (ur 4 a) AND ur 4 b) else NOT (a AND NOT b))"

definition norn_op :: "ptx_inst \<Rightarrow> ptx_reg \<Rightarrow> ptx_reg \<Rightarrow> ptx_reg" where
  "norn_op I a b = (if i_type I = PRED_TYPE then put 4 0 (NOT (ur 4 a AND NOT (ur 4 b))) else NOT a AND b)"

definition andn_op :: "ptx_inst \<Rightarrow> ptx_reg \<Rightarrow> ptx_reg \<Rightarrow> ptx_reg cxx" where
  "andn_op I a b = bindE (case i_type I of
       B16_TYPE \<Rightarrow> Inr (put 16 b (NOT (ur 16 b))) | B32_TYPE \<Rightarrow> Inr (put 32 b (NOT (ur 32 b))) | B64_TYPE \<Rightarrow> Inr (NOT b)
     | _ \<Rightarrow> Inl Assert_Failed) (\<lambda>b. Inr (a AND b))"

definition not_op :: "ptx_inst \<Rightarrow> ptx_reg \<Rightarrow> ptx_reg cxx" where
  "not_op I a = (case i_type I of
     PRED_TYPE \<Rightarrow> Inr (put 4 0 (NOT (ur 4 a) AND 15)) | B16_TYPE \<Rightarrow> Inr (put 16 0 (NOT (ur 16 a)))
   | B32_TYPE \<Rightarrow> Inr (put 32 0 (NOT (ur 32 a))) | B64_TYPE \<Rightarrow> Inr (NOT a) | _ \<Rightarrow> Inl Assert_Failed)"

definition cnot_op :: "ptx_inst \<Rightarrow> ptx_reg \<Rightarrow> ptx_reg cxx" where
  "cnot_op I a = (case i_type I of
     PRED_TYPE \<Rightarrow> Inr (if ur 4 a AND 1 = 0 then 1 else 0) | B16_TYPE \<Rightarrow> Inr (if ur 16 a = 0 then 1 else 0)
   | B32_TYPE \<Rightarrow> Inr (if ur 32 a = 0 then 1 else 0) | B64_TYPE \<Rightarrow> Inr (if a = 0 then 1 else 0) | _ \<Rightarrow> Inl Assert_Failed)"

section \<open>Counting bits\<close>

function clz_loop :: "nat \<Rightarrow> ptx_reg \<Rightarrow> nat \<Rightarrow> ptx_reg \<Rightarrow> nat" where
  "clz_loop limit m d a = (if d < limit \<and> a AND m = 0 then clz_loop limit m (d + 1) (push_bit 1 a) else d)"
  by pat_completeness auto
termination
  by (relation "measure (\<lambda>(limit, m, d, a). limit - d)") auto

declare clz_loop.simps [simp del]

definition clz_op :: "ptx_inst \<Rightarrow> ptx_reg \<Rightarrow> ptx_reg cxx" where
  "clz_op I a = (case i_type I of
     B32_TYPE \<Rightarrow> Inr (of_nat (clz_loop 32 0x80000000 0 a))
   | B64_TYPE \<Rightarrow> Inr (of_nat (clz_loop 64 0x8000000000000000 0 a))
   | _ \<Rightarrow> Inl Assert_Failed)"

definition popc_op :: "ptx_inst \<Rightarrow> ptx_reg \<Rightarrow> ptx_reg cxx" where
  "popc_op I a = (case i_type I of
     B32_TYPE \<Rightarrow> Inr (of_nat (length (filter (bit a) [0..<32])))
   | B64_TYPE \<Rightarrow> Inr (of_nat (length (filter (bit a) [0..<64])))
   | _ \<Rightarrow> Inl Assert_Failed)"

section \<open>Shifts\<close>

text \<open>The 64-bit cases test the low half of the amount and shift by all of it.\<close>

definition shl_op :: "ptx_inst \<Rightarrow> ptx_reg \<Rightarrow> ptx_reg \<Rightarrow> ptx_reg cxx" where
  "shl_op I a b =
     (if i_type I \<in> {B16_TYPE, U16_TYPE} then
        Inr (if 16 \<le> ur 16 b then 0 else put 16 0 (push_bit (nat (ur 16 b)) (ur 16 a)))
      else if i_type I \<in> {B32_TYPE, U32_TYPE} then
        Inr (if 32 \<le> ur 32 b then 0 else put 32 0 (push_bit (nat (ur 32 b)) (ur 32 a)))
      else if i_type I \<in> {B64_TYPE, U64_TYPE} then
        (if 64 \<le> ur 32 b then Inr 0
         else if 64 \<le> ur 64 b then Inl Undefined_Behaviour else Inr (push_bit (nat (ur 64 b)) a))
      else Inl Assert_Failed)"

definition shr_op :: "ptx_inst \<Rightarrow> ptx_reg \<Rightarrow> ptx_reg \<Rightarrow> ptx_reg cxx" where
  "shr_op I a b =
     (if i_type I \<in> {B16_TYPE, U16_TYPE} then
        Inr (if ur 16 b < 16 then put 16 0 (drop_bit (nat (ur 16 b)) (ur 16 a)) else 0)
      else if i_type I \<in> {B32_TYPE, U32_TYPE} then
        Inr (if ur 32 b < 32 then put 32 0 (drop_bit (nat (ur 32 b)) (ur 32 a)) else 0)
      else if i_type I \<in> {B64_TYPE, U64_TYPE} then
        (if ur 32 b < 64 then (if 64 \<le> ur 64 b then Inl Undefined_Behaviour else Inr (drop_bit (nat (ur 64 b)) a)) else Inr 0)
      else if i_type I = S16_TYPE then
        Inr (if ur 16 b < 16 then of_int (drop_bit (nat (ur 16 b)) (sr 16 a)) else if sr 16 a < 0 then -1 else 0)
      else if i_type I = S32_TYPE then
        Inr (if ur 32 b < 32 then of_int (drop_bit (nat (ur 32 b)) (sr 32 a)) else if sr 32 a < 0 then -1 else 0)
      else if i_type I = S64_TYPE then
        Inr (if ur 64 b < 64 then of_int (drop_bit (nat (ur 64 b)) (sr 64 a))
             else if sr 64 a < 0 then (if sr 32 b < 0 then put 32 (-1) 0 else -1) else 0)
      else Inl Assert_Failed)"

section \<open>Comparison and selection\<close>

definition eq_ne :: "cmp_option \<Rightarrow> int \<Rightarrow> int \<Rightarrow> bool cxx" where
  "eq_ne c x y = (case c of EQ_OPTION \<Rightarrow> Inr (x = y) | NE_OPTION \<Rightarrow> Inr (x \<noteq> y) | _ \<Rightarrow> Inl Assert_Failed)"

definition cmp_signed :: "cmp_option \<Rightarrow> int \<Rightarrow> int \<Rightarrow> bool cxx" where
  "cmp_signed c x y = (case c of EQ_OPTION \<Rightarrow> Inr (x = y) | NE_OPTION \<Rightarrow> Inr (x \<noteq> y) | LT_OPTION \<Rightarrow> Inr (x < y)
     | LE_OPTION \<Rightarrow> Inr (x \<le> y) | GT_OPTION \<Rightarrow> Inr (y < x) | GE_OPTION \<Rightarrow> Inr (y \<le> x) | _ \<Rightarrow> Inl Assert_Failed)"

definition cmp_unsigned :: "cmp_option \<Rightarrow> int \<Rightarrow> int \<Rightarrow> bool cxx" where
  "cmp_unsigned c x y = (case c of EQ_OPTION \<Rightarrow> Inr (x = y) | NE_OPTION \<Rightarrow> Inr (x \<noteq> y) | LT_OPTION \<Rightarrow> Inr (x < y)
     | LE_OPTION \<Rightarrow> Inr (x \<le> y) | GT_OPTION \<Rightarrow> Inr (y < x) | GE_OPTION \<Rightarrow> Inr (y \<le> x) | LO_OPTION \<Rightarrow> Inr (x < y)
     | LS_OPTION \<Rightarrow> Inr (x \<le> y) | HI_OPTION \<Rightarrow> Inr (y < x) | HS_OPTION \<Rightarrow> Inr (y \<le> x) | _ \<Rightarrow> Inl Assert_Failed)"

text \<open>The cases of \<open>B16_TYPE\<close> and \<open>B32_TYPE\<close> have no \<open>break\<close>: they go on to the comparison of 64 bits.\<close>

definition CmpOp :: "ptx_type \<Rightarrow> ptx_reg \<Rightarrow> ptx_reg \<Rightarrow> cmp_option \<Rightarrow> bool cxx" where
  "CmpOp t a b c = (case t of
     B16_TYPE \<Rightarrow> bindE (eq_ne c (ur 16 a) (ur 16 b)) (\<lambda>_. bindE (eq_ne c (ur 32 a) (ur 32 b)) (\<lambda>_. eq_ne c (ur 64 a) (ur 64 b)))
   | B32_TYPE \<Rightarrow> bindE (eq_ne c (ur 32 a) (ur 32 b)) (\<lambda>_. eq_ne c (ur 64 a) (ur 64 b))
   | B64_TYPE \<Rightarrow> eq_ne c (ur 64 a) (ur 64 b)
   | S8_TYPE \<Rightarrow> cmp_signed c (sr 16 a) (sr 16 b) | S16_TYPE \<Rightarrow> cmp_signed c (sr 16 a) (sr 16 b)
   | S32_TYPE \<Rightarrow> cmp_signed c (sr 32 a) (sr 32 b) | S64_TYPE \<Rightarrow> cmp_signed c (sr 64 a) (sr 64 b)
   | U8_TYPE \<Rightarrow> cmp_unsigned c (ur 16 a) (ur 16 b) | U16_TYPE \<Rightarrow> cmp_unsigned c (ur 16 a) (ur 16 b)
   | U32_TYPE \<Rightarrow> cmp_unsigned c (ur 32 a) (ur 32 b) | U64_TYPE \<Rightarrow> cmp_unsigned c (ur 64 a) (ur 64 b)
   | F32_TYPE \<Rightarrow> Inl Outside_Model | F64_TYPE \<Rightarrow> Inl Outside_Model | FF64_TYPE \<Rightarrow> Inl Outside_Model
   | _ \<Rightarrow> Inl Assert_Failed)"

definition setp_op :: "ptx_inst \<Rightarrow> ptx_reg \<Rightarrow> ptx_reg \<Rightarrow> ptx_reg cxx" where
  "setp_op I a b = assertE (i_operands I < 4) (bindE (CmpOp (i_type I) a b (i_cmpop I)) (\<lambda>t. Inr (put 4 0 (if t then 0 else 1))))"

definition set_op :: "ptx_inst \<Rightarrow> ptx_reg \<Rightarrow> ptx_reg \<Rightarrow> ptx_reg cxx" where
  "set_op I a b = assertE (i_operands I < 4)
     (bindE (if i_abs I then (case i_type2 I of
           S16_TYPE \<Rightarrow> Inr (put 16 a \<bar>sr 16 a\<bar>)
         | S32_TYPE \<Rightarrow> bindE (s_arith 32 \<bar>sr 32 a\<bar>) (\<lambda>v. Inr (put 32 a v))
         | S64_TYPE \<Rightarrow> bindE (s_arith 64 \<bar>sr 64 a\<bar>) (\<lambda>v. Inr (put 64 a v))
         | U16_TYPE \<Rightarrow> Inr a | U32_TYPE \<Rightarrow> Inr a | U64_TYPE \<Rightarrow> Inr a
         | F32_TYPE \<Rightarrow> Inl Outside_Model | F64_TYPE \<Rightarrow> Inl Outside_Model | FF64_TYPE \<Rightarrow> Inl Outside_Model
         | _ \<Rightarrow> Inl Assert_Failed) else Inr a) (\<lambda>a.
      bindE (CmpOp (i_type2 I) a b (i_cmpop I)) (\<lambda>t.
        if is_float (i_type I) then Inl Outside_Model else Inr (if t then 0xFFFFFFFF else 0))))"

definition selp_op :: "ptx_reg \<Rightarrow> ptx_reg \<Rightarrow> ptx_reg \<Rightarrow> ptx_reg" where
  "selp_op a b c = (if ur 4 c AND 1 = 0 then a else b)"

definition slct_op :: "ptx_inst \<Rightarrow> ptx_reg \<Rightarrow> ptx_reg \<Rightarrow> ptx_reg \<Rightarrow> ptx_reg cxx" where
  "slct_op I a b c = bindE (case i_type2 I of S32_TYPE \<Rightarrow> Inr (0 \<le> sr 32 c) | F32_TYPE \<Rightarrow> Inl Outside_Model | _ \<Rightarrow> Inl Assert_Failed)
     (\<lambda>t. if i_type I \<in> {B16_TYPE, S16_TYPE, U16_TYPE} then Inr (put 16 0 (if t then ur 16 a else ur 16 b))
        else if i_type I \<in> {F32_TYPE, B32_TYPE, S32_TYPE, U32_TYPE} then Inr (put 32 0 (if t then ur 32 a else ur 32 b))
        else if i_type I \<in> {F64_TYPE, FF64_TYPE, B64_TYPE, S64_TYPE, U64_TYPE} then Inr (if t then a else b)
        else Inl Assert_Failed)"

section \<open>Conversion\<close>

definition chop :: "ptx_reg \<Rightarrow> nat \<Rightarrow> ptx_reg cxx" where
  "chop x to_width = (if to_width = 8 then Inr (mask_and x 0 0xFF) else if to_width = 16 then Inr (mask_and x 0 0xFFFF)
     else if to_width = 32 then Inr (mask_and x 0 0xFFFFFFFF) else if to_width = 64 then Inr x else Inl Assert_Failed)"

text \<open>The extension from bit \<open>width - 1\<close>, shared by \<open>sext\<close> and \<open>sexd\<close>.\<close>

definition extend_from :: "nat \<Rightarrow> ptx_reg \<Rightarrow> ptx_reg cxx" where
  "extend_from width x =
     (if width = 8 then Inr (if get_bit x 7 then mask_or x 0xFFFFFFFF 0xFFFFFF00 else x)
      else if width = 16 then Inr (if get_bit x 15 then mask_or x 0xFFFFFFFF 0xFFFF0000 else x)
      else if width = 32 then Inr (if get_bit x 31 then mask_or x 0xFFFFFFFF 0 else x)
      else if width = 64 then Inr x else Inl Assert_Failed)"

definition sext :: "ptx_reg \<Rightarrow> nat \<Rightarrow> nat \<Rightarrow> ptx_reg cxx" where
  "sext x from_width to_width = bindE (chop x from_width) (extend_from from_width)"

definition sexd :: "ptx_reg \<Rightarrow> nat \<Rightarrow> nat \<Rightarrow> ptx_reg cxx" where
  "sexd x from_width to_width = bindE (chop x from_width) (extend_from to_width)"

definition zext :: "ptx_reg \<Rightarrow> nat \<Rightarrow> nat \<Rightarrow> ptx_reg cxx" where
  "zext x from_width to_width = chop x from_width"

datatype cvt_fn = No_Fn | Chop | Sext | Sexd | Zext | Float_Fn

definition g_cvt_fn :: "cvt_fn list list" where
  "g_cvt_fn =
    [[No_Fn, Sext, Sext, Sext, No_Fn, Sext, Sext, Sext, Float_Fn, Float_Fn, Float_Fn],
     [Chop, No_Fn, Sext, Sext, Chop, No_Fn, Sext, Sext, Float_Fn, Float_Fn, Float_Fn],
     [Chop, Sexd, No_Fn, Sext, Chop, Chop, No_Fn, Sext, Float_Fn, Float_Fn, Float_Fn],
     [Chop, Chop, Chop, No_Fn, Chop, Chop, Chop, No_Fn, Float_Fn, Float_Fn, Float_Fn],
     [No_Fn, Zext, Zext, Zext, No_Fn, Zext, Zext, Zext, Float_Fn, Float_Fn, Float_Fn],
     [Chop, No_Fn, Zext, Zext, Chop, No_Fn, Zext, Zext, Float_Fn, Float_Fn, Float_Fn],
     [Chop, Chop, No_Fn, Zext, Chop, Chop, No_Fn, Zext, Float_Fn, Float_Fn, Float_Fn],
     [Chop, Chop, Chop, No_Fn, Chop, Chop, Chop, No_Fn, Float_Fn, Float_Fn, Float_Fn],
     [Float_Fn, Float_Fn, Float_Fn, Float_Fn, Float_Fn, Float_Fn, Float_Fn, Float_Fn, No_Fn, Float_Fn, Float_Fn],
     [Float_Fn, Float_Fn, Float_Fn, Float_Fn, Float_Fn, Float_Fn, Float_Fn, Float_Fn, Float_Fn, Float_Fn, Float_Fn],
     [Float_Fn, Float_Fn, Float_Fn, Float_Fn, Float_Fn, Float_Fn, Float_Fn, Float_Fn, Float_Fn, Float_Fn, Float_Fn]]"

definition cvt_apply :: "cvt_fn \<Rightarrow> ptx_reg \<Rightarrow> nat \<Rightarrow> nat \<Rightarrow> ptx_reg cxx" where
  "cvt_apply f x from_width to_width = (case f of No_Fn \<Rightarrow> Inr x | Chop \<Rightarrow> chop x to_width | Sext \<Rightarrow> sext x from_width to_width
     | Sexd \<Rightarrow> sexd x from_width to_width | Zext \<Rightarrow> zext x from_width to_width | Float_Fn \<Rightarrow> Inl Outside_Model)"

text \<open>The formats of the bit types lie outside the table.\<close>

definition cvt_op :: "ptx_inst \<Rightarrow> ptx_reg \<Rightarrow> ptx_reg cxx" where
  "cvt_op I data =
     (if i_type I = F16_TYPE \<or> i_type2 I = F16_TYPE then Inl Abort_Called
      else case type_decode (i_type2 I) of (src_fmt, from_width, _) \<Rightarrow> case type_decode (i_type I) of (dst_fmt, to_width, _) \<Rightarrow>
        bindE (if i_neg I then negate_as (i_type2 I) data else Inr data) (\<lambda>x.
        if src_fmt < 11 \<and> dst_fmt < 11 then cvt_apply (g_cvt_fn ! src_fmt ! dst_fmt) x from_width to_width else Inl Out_Of_Range))"

end
