(* ===== verification/Ptx_Exec.thy ===== *)
theory Ptx_Exec
  imports Ptx_Logic
begin

unbundle bit_operations_syntax

text \<open>
  The instructions on a thread (cuda-sim/instructions.cc): each \<open>_impl\<close> function reads its operands in the order of the
  code, computes with the operation of Ptx_Alu or Ptx_Logic, and writes the destination.
\<close>

section \<open>Instructions with their operands\<close>

record ptx_code =
  c_inst :: ptx_inst
  c_dst :: operand_info
  c_src :: "operand_info list"

abbreviation c_type :: "ptx_code \<Rightarrow> ptx_type" where "c_type C \<equiv> i_type (c_inst C)"

definition operand :: "ptx_code \<Rightarrow> nat \<Rightarrow> operand_info cxx" where
  "operand C n = (if 0 < n \<and> n \<le> length (c_src C) then Inr (c_src C ! (n - 1)) else Inl Assert_Failed)"

definition read_op :: "ptx_code \<Rightarrow> nat \<Rightarrow> ptx_type \<Rightarrow> bool \<Rightarrow> ptx_thread \<Rightarrow> (ptx_thread \<times> ptx_reg) cxx" where
  "read_op C n t deref th = bindE (operand C n) (\<lambda>op. get_operand_value th op t deref)"

definition read1 :: "ptx_code \<Rightarrow> ptx_type \<Rightarrow> ptx_thread \<Rightarrow> (ptx_thread \<times> ptx_reg) cxx" where
  "read1 C t th = read_op C 1 t True th"

definition read2 :: "ptx_code \<Rightarrow> ptx_type \<Rightarrow> ptx_thread \<Rightarrow> (ptx_thread \<times> ptx_reg \<times> ptx_reg) cxx" where
  "read2 C t th = bindE (read1 C t th) (\<lambda>(th, a). bindE (read_op C 2 t True th) (\<lambda>(th, b). Inr (th, a, b)))"

definition read3 :: "ptx_code \<Rightarrow> ptx_type \<Rightarrow> ptx_type \<Rightarrow> ptx_thread \<Rightarrow> (ptx_thread \<times> ptx_reg \<times> ptx_reg \<times> ptx_reg) cxx" where
  "read3 C t t3 th = bindE (read2 C t th) (\<lambda>(th, a, b). bindE (read_op C 3 t3 True th) (\<lambda>(th, c). Inr (th, a, b, c)))"

text \<open>The shapes of the instructions: one, two or three operands of the instruction's type, the result of that type or of
  \<open>t\<close>.\<close>

definition exec1 :: "(ptx_inst \<Rightarrow> ptx_reg \<Rightarrow> ptx_reg cxx) \<Rightarrow> ptx_type \<Rightarrow> ptx_code \<Rightarrow> ptx_thread \<Rightarrow> ptx_thread cxx" where
  "exec1 f t C th = bindE (read1 C (c_type C) th) (\<lambda>(th, a). bindE (f (c_inst C) a) (\<lambda>d. set_operand_value th (c_dst C) d t))"

definition exec2 :: "(ptx_inst \<Rightarrow> ptx_reg \<Rightarrow> ptx_reg \<Rightarrow> ptx_reg cxx) \<Rightarrow> ptx_code \<Rightarrow> ptx_thread \<Rightarrow> ptx_thread cxx" where
  "exec2 f C th = bindE (read2 C (c_type C) th) (\<lambda>(th, a, b).
     bindE (f (c_inst C) a b) (\<lambda>d. set_operand_value th (c_dst C) d (c_type C)))"

definition exec3 ::
  "(ptx_inst \<Rightarrow> ptx_reg \<Rightarrow> ptx_reg \<Rightarrow> ptx_reg \<Rightarrow> ptx_reg cxx) \<Rightarrow> ptx_type \<Rightarrow> ptx_type \<Rightarrow> ptx_code \<Rightarrow> ptx_thread \<Rightarrow> ptx_thread cxx" where
  "exec3 f t3 t C th = bindE (read3 C (c_type C) t3 th) (\<lambda>(th, a, b, c).
     bindE (f (c_inst C) a b c) (\<lambda>d. set_operand_value th (c_dst C) d t))"

section \<open>Arithmetic\<close>

definition add_impl :: "ptx_code \<Rightarrow> ptx_thread \<Rightarrow> ptx_thread cxx" where
  "add_impl C th = bindE (read2 C (c_type C) th) (\<lambda>(th, a, b).
     bindE (add_op (c_inst C) a b) (\<lambda>(d, ov, cy). set_operand_flags th (c_dst C) d (c_type C) ov cy))"

definition sub_impl :: "ptx_code \<Rightarrow> ptx_thread \<Rightarrow> ptx_thread cxx" where
  "sub_impl C th = bindE (read2 C (c_type C) th) (\<lambda>(th, a, b).
     bindE (sub_op (c_inst C) a b) (\<lambda>(d, ov, cy). set_operand_flags th (c_dst C) d (c_type C) ov cy))"

definition addp_impl :: "ptx_code \<Rightarrow> ptx_thread \<Rightarrow> ptx_thread cxx" where
  "addp_impl C th = bindE (read3 C (c_type C) (c_type C) th) (\<lambda>(th, a, b, p).
     bindE (addp_op (c_inst C) a b p) (\<lambda>(d, ov, cy). set_operand_flags th (c_dst C) d (c_type C) ov cy))"

definition mad_def :: "ptx_code \<Rightarrow> ptx_thread \<Rightarrow> bool \<Rightarrow> ptx_thread cxx" where
  "mad_def C th use_carry = bindE (read3 C (c_type C) (c_type C) th) (\<lambda>(th, a, b, c).
     bindE (if use_carry then bindE (read_op C 4 PRED_TYPE False th) (\<lambda>(th, p). Inr (th, Some p)) else Inr (th, None)) (\<lambda>(th, p).
     bindE (mad_op (c_inst C) p a b c) (\<lambda>(d, ov, cy). set_operand_flags th (c_dst C) d (c_type C) ov cy)))"

definition mad_impl :: "ptx_code \<Rightarrow> ptx_thread \<Rightarrow> ptx_thread cxx" where "mad_impl C th = mad_def C th False"

definition madp_impl :: "ptx_code \<Rightarrow> ptx_thread \<Rightarrow> ptx_thread cxx" where "madp_impl C th = mad_def C th True"

definition mul_impl :: "ptx_code \<Rightarrow> ptx_thread \<Rightarrow> ptx_thread cxx" where "mul_impl = exec2 mul_op"

definition mul24_impl :: "ptx_code \<Rightarrow> ptx_thread \<Rightarrow> ptx_thread cxx" where "mul24_impl = exec2 mul24_op"

definition mad24_impl :: "ptx_code \<Rightarrow> ptx_thread \<Rightarrow> ptx_thread cxx" where
  "mad24_impl C th = exec3 mad24_op (c_type C) (c_type C) C th"

definition div_impl :: "ptx_code \<Rightarrow> ptx_thread \<Rightarrow> ptx_thread cxx" where "div_impl = exec2 div_op"

definition rem_impl :: "ptx_code \<Rightarrow> ptx_thread \<Rightarrow> ptx_thread cxx" where "rem_impl = exec2 (\<lambda>_. rem_op)"

definition neg_impl :: "ptx_code \<Rightarrow> ptx_thread \<Rightarrow> ptx_thread cxx" where "neg_impl C th = exec1 neg_op (c_type C) C th"

definition abs_impl :: "ptx_code \<Rightarrow> ptx_thread \<Rightarrow> ptx_thread cxx" where "abs_impl C th = exec1 abs_op (c_type C) C th"

definition max_impl :: "ptx_code \<Rightarrow> ptx_thread \<Rightarrow> ptx_thread cxx" where "max_impl = exec2 max_op"

definition min_impl :: "ptx_code \<Rightarrow> ptx_thread \<Rightarrow> ptx_thread cxx" where "min_impl = exec2 min_op"

definition sad_impl :: "ptx_code \<Rightarrow> ptx_thread \<Rightarrow> ptx_thread cxx" where
  "sad_impl C th = exec3 sad_op (c_type C) (c_type C) C th"

section \<open>Logic, shifts and counts\<close>

definition and_impl :: "ptx_code \<Rightarrow> ptx_thread \<Rightarrow> ptx_thread cxx" where "and_impl = exec2 (\<lambda>I a b. Inr (and_op I a b))"
definition or_impl :: "ptx_code \<Rightarrow> ptx_thread \<Rightarrow> ptx_thread cxx" where "or_impl = exec2 (\<lambda>I a b. Inr (or_op I a b))"
definition orn_impl :: "ptx_code \<Rightarrow> ptx_thread \<Rightarrow> ptx_thread cxx" where "orn_impl = exec2 (\<lambda>I a b. Inr (orn_op I a b))"
definition xor_impl :: "ptx_code \<Rightarrow> ptx_thread \<Rightarrow> ptx_thread cxx" where "xor_impl = exec2 (\<lambda>I a b. Inr (xor_op I a b))"
definition nandn_impl :: "ptx_code \<Rightarrow> ptx_thread \<Rightarrow> ptx_thread cxx" where "nandn_impl = exec2 (\<lambda>I a b. Inr (nandn_op I a b))"
definition norn_impl :: "ptx_code \<Rightarrow> ptx_thread \<Rightarrow> ptx_thread cxx" where "norn_impl = exec2 (\<lambda>I a b. Inr (norn_op I a b))"
definition andn_impl :: "ptx_code \<Rightarrow> ptx_thread \<Rightarrow> ptx_thread cxx" where "andn_impl = exec2 andn_op"
definition not_impl :: "ptx_code \<Rightarrow> ptx_thread \<Rightarrow> ptx_thread cxx" where "not_impl C th = exec1 not_op (c_type C) C th"
definition cnot_impl :: "ptx_code \<Rightarrow> ptx_thread \<Rightarrow> ptx_thread cxx" where "cnot_impl C th = exec1 cnot_op (c_type C) C th"
definition clz_impl :: "ptx_code \<Rightarrow> ptx_thread \<Rightarrow> ptx_thread cxx" where "clz_impl = exec1 clz_op B32_TYPE"
definition popc_impl :: "ptx_code \<Rightarrow> ptx_thread \<Rightarrow> ptx_thread cxx" where "popc_impl C th = exec1 popc_op (c_type C) C th"
definition shl_impl :: "ptx_code \<Rightarrow> ptx_thread \<Rightarrow> ptx_thread cxx" where "shl_impl = exec2 shl_op"
definition shr_impl :: "ptx_code \<Rightarrow> ptx_thread \<Rightarrow> ptx_thread cxx" where "shr_impl = exec2 shr_op"

section \<open>Comparison, selection, conversion\<close>

definition setp_impl :: "ptx_code \<Rightarrow> ptx_thread \<Rightarrow> ptx_thread cxx" where
  "setp_impl C th = assertE (i_operands (c_inst C) < 4) (bindE (read2 C (c_type C) th) (\<lambda>(th, a, b).
     bindE (setp_op (c_inst C) a b) (\<lambda>d. set_operand_value th (c_dst C) d PRED_TYPE)))"

definition set_impl :: "ptx_code \<Rightarrow> ptx_thread \<Rightarrow> ptx_thread cxx" where
  "set_impl C th = assertE (i_operands (c_inst C) < 4) (bindE (read2 C (i_type2 (c_inst C)) th) (\<lambda>(th, a, b).
     bindE (set_op (c_inst C) a b) (\<lambda>d. set_operand_value th (c_dst C) d (c_type C))))"

definition selp_impl :: "ptx_code \<Rightarrow> ptx_thread \<Rightarrow> ptx_thread cxx" where
  "selp_impl C th = exec3 (\<lambda>I a b c. Inr (selp_op a b c)) (c_type C) PRED_TYPE C th"

definition slct_impl :: "ptx_code \<Rightarrow> ptx_thread \<Rightarrow> ptx_thread cxx" where
  "slct_impl C th = exec3 slct_op (i_type2 (c_inst C)) (c_type C) C th"

definition cvt_impl :: "ptx_code \<Rightarrow> ptx_thread \<Rightarrow> ptx_thread cxx" where
  "cvt_impl C th = (if c_type C = F16_TYPE \<or> i_type2 (c_inst C) = F16_TYPE then Inl Abort_Called
     else bindE (read1 C (i_type2 (c_inst C)) th) (\<lambda>(th, a).
       bindE (cvt_op (c_inst C) a) (\<lambda>d. set_operand_value th (c_dst C) d (c_type C))))"

section \<open>Moves\<close>

definition is_vector :: "operand_info \<Rightarrow> bool" where
  "is_vector op = (case op_kind op of Vec_Op _ \<Rightarrow> True | _ \<Rightarrow> False)"

definition vec_names :: "operand_info \<Rightarrow> string list" where
  "vec_names op = (case op_kind op of Vec_Op ss \<Rightarrow> take 4 ss | _ \<Rightarrow> [])"

text \<open>The elements named \<open>_\<close> keep the 0 of the constructor; a register that was never written is a failed assertion.\<close>

definition get_vector_operand_values :: "ptx_thread \<Rightarrow> operand_info \<Rightarrow> ptx_reg list cxx" where
  "get_vector_operand_values th op = (if is_vector op then
     foldr (\<lambda>s r. bindE r (\<lambda>vs. if s = ''_'' then Inr (0 # vs)
       else case th_regs th s of None \<Rightarrow> Inl Assert_Failed | Some v \<Rightarrow> Inr (v # vs))) (vec_names op) (Inr [])
     else Inl Assert_Failed)"

definition set_vector_operand_values :: "ptx_thread \<Rightarrow> operand_info \<Rightarrow> ptx_reg list \<Rightarrow> ptx_thread cxx" where
  "set_vector_operand_values th dst vs = (if is_vector dst
     then Inr ((fold (\<lambda>(s, v) th. set_reg th s v) (zip (vec_names dst) vs) th)\<lparr>th_last := vs ! 0\<rparr>) else Inl Assert_Failed)"

definition pack :: "nat \<Rightarrow> ptx_reg list \<Rightarrow> ptx_reg cxx" where
  "pack bits vs = (if bits \<in> {8, 16, 32}
     then Inr (fold (\<lambda>(i, v) r. r OR push_bit (bits * i) (of_int (ur bits v))) (zip [0..<length vs] vs) 0) else Inl Assert_Failed)"

definition unpack :: "nat \<Rightarrow> nat \<Rightarrow> ptx_reg \<Rightarrow> ptx_reg list cxx" where
  "unpack bits n r = (if bits \<in> {8, 16, 32}
     then Inr (map (\<lambda>i. if i < n then put bits 0 (uint (drop_bit (bits * i) r)) else 0) [0..<4]) else Inl Assert_Failed)"

definition mov_bits :: "ptx_type \<Rightarrow> nat cxx" where
  "mov_bits t = (if t = B16_TYPE then Inr 16 else if t = B32_TYPE then Inr 32 else if t = B64_TYPE then Inr 64 else Inl Assert_Failed)"

text \<open>The width of an element is the quotient of the width of the type and the number of elements; no element is a division by
  zero.\<close>

definition element_bits :: "nat \<Rightarrow> nat \<Rightarrow> nat cxx" where
  "element_bits bits n = (if n = 0 then Inl Undefined_Behaviour else Inr (bits div n))"

definition mov_impl :: "ptx_code \<Rightarrow> ptx_thread \<Rightarrow> ptx_thread cxx" where
  "mov_impl C th = bindE (operand C 1) (\<lambda>src. let dst = c_dst C; t = c_type C in
     if (is_vector src \<or> is_vector dst) \<and> t \<notin> {BB64_TYPE, BB128_TYPE, FF64_TYPE} then
       bindE (mov_bits t) (\<lambda>nbits.
       bindE (if is_vector src then
           bindE (get_vector_operand_values th src) (\<lambda>vs. bindE (element_bits nbits (length vs)) (\<lambda>w. bindE (pack w vs) (\<lambda>r. Inr (th, r))))
         else bindE (read1 C t th) (\<lambda>(th, v). Inr (th, put nbits 0 (ur nbits v)))) (\<lambda>(th, r).
       if is_vector dst then bindE (element_bits nbits (length (vec_names dst))) (\<lambda>w.
           bindE (unpack w (length (vec_names dst)) r) (set_vector_operand_values th dst))
       else set_operand_value th dst r t))
     else case op_kind src of
       Literal_Op _ \<Rightarrow> bindE (read1 C t th) (\<lambda>(th, v).
         set_operand_value th dst (if t = PRED_TYPE then put 4 0 (if ur 32 v = 0 then 1 else 0) else v) t)
     | _ \<Rightarrow> bindE (read1 C t th) (\<lambda>(th, v). set_operand_value th dst v t))"

end
