(* ===== verification/Ptx_Correct.thy ===== *)
theory Ptx_Correct
  imports Ptx_Logic
begin

unbundle bit_operations_syntax

text \<open>
  What the integer instructions compute: sums and differences with their flags, products, conversions, shifts and leading
  zeros against arithmetic on integers.
\<close>

section \<open>Sums, differences and their flags\<close>

text \<open>Bit \<open>n\<close> of a number of \<open>n + 1\<close> bits.\<close>

lemma bit_top_int:
  assumes "0 \<le> x" and "x < 2 * 2 ^ n"
  shows "bit (x::int) n \<longleftrightarrow> 2 ^ n \<le> x"
proof -
  have "x div 2 ^ n = (if 2 ^ n \<le> x then 1 else 0)"
  proof (cases "2 ^ n \<le> x")
    case True
    then show ?thesis using assms int_div_pos_eq[of x "2 ^ n" 1 "x - 2 ^ n"] by simp
  qed (use assms in \<open>simp add: div_pos_pos_trivial\<close>)
  then show ?thesis by (simp add: bit_iff_odd)
qed

lemma bit_of_int_u64: "n < 64 \<Longrightarrow> bit (of_int x :: u64) n \<longleftrightarrow> bit x n"
  by (simp add: bit_simps)

lemma half_power: "0 < n \<Longrightarrow> (2::int) ^ n = 2 * 2 ^ (n - 1)"
  by (metis Suc_diff_1 power_Suc)

lemma mod_once:
  "0 \<le> x \<Longrightarrow> x < 2 * m \<Longrightarrow> x mod m = (if x < m then x else x - (m::int))"
  using int_mod_pos_eq[of x m 1 "x - m"] by auto

lemma add_signed_correct:
  assumes n: "0 < n" "n < 64"
  shows "\<exists>d ov cy. add_signed n a b 0 = (d, ov, cy) \<and> ur n d = (ur n a + ur n b) mod 2 ^ n \<and>
    (cy \<longleftrightarrow> 2 ^ n \<le> ur n a + ur n b) \<and> (ov \<longleftrightarrow> \<not> signed_fits n (sr n a + sr n b)) \<and> (\<not> ov \<longrightarrow> sr n d = sr n a + sr n b)"
proof -
  define h where "h = (2::int) ^ (n - 1)"
  define x where "x = ur n a + ur n b"
  let ?d = "of_int x :: ptx_reg"
  have h: "(2::int) ^ n = 2 * h" "0 < h" using half_power[OF n(1)] by (simp_all add: h_def)
  have r: "0 \<le> ur n a" "ur n a < 2 * h" "0 \<le> ur n b" "ur n b < 2 * h" using ur_range[of n] h(1) by simp_all
  have d: "ur n ?d = x mod (2 * h)" using ur_of_int[of n x] n by (simp add: take_bit_eq_mod h(1))
  then have d': "ur n ?d = (if x < 2 * h then x else x - 2 * h)" using mod_once[of x "2 * h"] r by (simp add: x_def)
  have cy: "bit ?d n \<longleftrightarrow> 2 * h \<le> x"
    unfolding bit_of_int_u64[OF n(2)] using bit_top_int[of x n] r by (simp add: x_def h(1))
  have t: "bit r (n - 1) \<longleftrightarrow> h \<le> ur n r" for r using top_bit[OF n(1)] by (simp add: h_def)
  have s: "sr n r = (if ur n r < h then ur n r else ur n r - 2 * h)" for r
    using sr_ur[OF n(1), of r] unfolding h_def[symmetric] h(1) .
  have f: "signed_fits n v \<longleftrightarrow> - h \<le> v \<and> v < h" for v by (simp add: signed_fits_def h_def)
  have "(bit a (n - 1) = bit b (n - 1) \<and> bit a (n - 1) \<noteq> bit ?d (n - 1)) \<longleftrightarrow> \<not> signed_fits n (sr n a + sr n b)"
    unfolding t f s d' using r by (auto simp: x_def)
  moreover have "sr n ?d = sr n a + sr n b" if "signed_fits n (sr n a + sr n b)"
    using that r unfolding f s d' by (auto simp: x_def split: if_splits)
  moreover have "add_signed n a b 0 = (?d, bit a (n - 1) = bit b (n - 1) \<and> bit a (n - 1) \<noteq> bit ?d (n - 1), bit ?d n)"
    by (simp add: add_signed_def x_def Let_def)
  ultimately show ?thesis using d cy by (simp add: h(1) x_def)
qed

lemma sub_signed_correct:
  assumes n: "0 < n" "n < 63"
  shows "\<exists>d ov cy. sub_signed n a b = (d, ov, cy) \<and> ur n d = (ur n a - ur n b) mod 2 ^ n \<and>
    (cy \<longleftrightarrow> ur n b \<le> ur n a) \<and> (ov \<longleftrightarrow> \<not> signed_fits n (sr n a - sr n b)) \<and> (\<not> ov \<longrightarrow> sr n d = sr n a - sr n b)"
proof -
  define h where "h = (2::int) ^ (n - 1)"
  define x where "x = ur n a - ur n b + 2 ^ n"
  let ?d = "of_int x :: ptx_reg"
  have h: "(2::int) ^ n = 2 * h" "0 < h" using half_power[OF n(1)] by (simp_all add: h_def)
  have r: "0 \<le> ur n a" "ur n a < 2 * h" "0 \<le> ur n b" "ur n b < 2 * h" using ur_range[of n] h(1) by simp_all
  have x: "x = ur n a - ur n b + 2 * h" by (simp add: x_def h(1))
  have d: "ur n ?d = x mod (2 * h)" using ur_of_int[of n x] n by (simp add: take_bit_eq_mod h(1))
  then have d': "ur n ?d = (if x < 2 * h then x else x - 2 * h)" using mod_once[of x "2 * h"] r by (simp add: x)
  have cy: "bit ?d n \<longleftrightarrow> 2 * h \<le> x"
    unfolding bit_of_int_u64[OF order_less_trans[OF n(2), of 64, simplified]] using bit_top_int[of x n] r by (simp add: x h(1))
  have t: "bit r (n - 1) \<longleftrightarrow> h \<le> ur n r" for r using top_bit[OF n(1)] by (simp add: h_def)
  have s: "sr n r = (if ur n r < h then ur n r else ur n r - 2 * h)" for r
    using sr_ur[OF n(1), of r] unfolding h_def[symmetric] h(1) .
  have f: "signed_fits n v \<longleftrightarrow> - h \<le> v \<and> v < h" for v by (simp add: signed_fits_def h_def)
  have "(bit a (n - 1) \<noteq> bit b (n - 1) \<and> bit a (n - 1) \<noteq> bit ?d (n - 1)) \<longleftrightarrow> \<not> signed_fits n (sr n a - sr n b)"
    unfolding t f s d' using r by (auto simp: x)
  moreover have "sr n ?d = sr n a - sr n b" if "signed_fits n (sr n a - sr n b)"
    using that r unfolding f s d' by (auto simp: x split: if_splits)
  moreover have "sub_signed n a b = (?d, bit a (n - 1) \<noteq> bit b (n - 1) \<and> bit a (n - 1) \<noteq> bit ?d (n - 1), bit ?d n)"
    by (simp add: sub_signed_def x_def Let_def)
  moreover have "x mod (2 * h) = (ur n a - ur n b) mod (2 * h)" by (simp add: x)
  ultimately show ?thesis using d cy by (simp add: h(1) x)
qed

text \<open>The unsigned cases compute the same value and carry.\<close>

lemma unsigned_of_signed:
  "add_signed n a b c = (d, ov, cy) \<Longrightarrow> add_unsigned n a b c = (d, False, cy)"
  "sub_signed n a b = (d, ov, cy) \<Longrightarrow> sub_unsigned n a b = (d, False, cy)"
  by (auto simp: add_signed_def add_unsigned_def sub_signed_def sub_unsigned_def Let_def)

definition narrow_types :: "ptx_type set" where
  "narrow_types = {S8_TYPE, S16_TYPE, S32_TYPE, U8_TYPE, U16_TYPE, U32_TYPE}"

definition is_signed :: "ptx_type \<Rightarrow> bool" where
  "is_signed t \<longleftrightarrow> t \<in> {S8_TYPE, S16_TYPE, S32_TYPE, S64_TYPE}"

lemma narrow_cases:
  assumes "t \<in> narrow_types"
  obtains "t = S8_TYPE" | "t = S16_TYPE" | "t = S32_TYPE" | "t = U8_TYPE" | "t = U16_TYPE" | "t = U32_TYPE"
  using assms by (auto simp: narrow_types_def)

lemma add_op_narrow:
  "i_type I \<in> narrow_types \<Longrightarrow> rounding_ok I \<Longrightarrow> add_op I a b = Inr (if is_signed (i_type I) then add_signed (type_size (i_type I)) a b 0
    else add_unsigned (type_size (i_type I)) a b 0)"
  by (erule narrow_cases) (simp_all add: add_op_def is_signed_def type_size_def)

lemma sub_op_narrow:
  "i_type I \<in> narrow_types \<Longrightarrow> sub_op I a b = Inr (if is_signed (i_type I) then sub_signed (type_size (i_type I)) a b
    else sub_unsigned (type_size (i_type I)) a b)"
  by (erule narrow_cases) (simp_all add: sub_op_def is_signed_def type_size_def)

lemma narrow_size: "t \<in> narrow_types \<Longrightarrow> 0 < type_size t \<and> type_size t < 63"
  by (erule narrow_cases) (simp_all add: type_size_def)

text \<open>Addition and subtraction of 8, 16 and 32 bits.  The low bits of the result are the sum or the difference modulo
  the width.  The carry of an addition says that the unsigned sum needs one bit more, that of a subtraction that nothing was
  borrowed; for signed types the overflow says that the true result does not fit, and otherwise the result is it.\<close>

theorem add_sub_flags:
  assumes t: "i_type I \<in> narrow_types" "rounding_ok I" and n: "n = type_size (i_type I)"
  shows "(\<exists>d ov cy. add_op I a b = Inr (d, ov, cy) \<and> ur n d = (ur n a + ur n b) mod 2 ^ n \<and> (cy \<longleftrightarrow> 2 ^ n \<le> ur n a + ur n b) \<and>
      (ov \<longleftrightarrow> is_signed (i_type I) \<and> \<not> signed_fits n (sr n a + sr n b)) \<and>
      (is_signed (i_type I) \<and> \<not> ov \<longrightarrow> sr n d = sr n a + sr n b)) \<and>
    (\<exists>d ov cy. sub_op I a b = Inr (d, ov, cy) \<and> ur n d = (ur n a - ur n b) mod 2 ^ n \<and> (cy \<longleftrightarrow> ur n b \<le> ur n a) \<and>
      (ov \<longleftrightarrow> is_signed (i_type I) \<and> \<not> signed_fits n (sr n a - sr n b)) \<and>
      (is_signed (i_type I) \<and> \<not> ov \<longrightarrow> sr n d = sr n a - sr n b))"
proof -
  have s: "0 < n" "n < 64" "n < 63" using narrow_size[OF t(1)] n by simp_all
  obtain d ov cy where a: "add_signed n a b 0 = (d, ov, cy)" "ur n d = (ur n a + ur n b) mod 2 ^ n" "cy \<longleftrightarrow> 2 ^ n \<le> ur n a + ur n b"
    "ov \<longleftrightarrow> \<not> signed_fits n (sr n a + sr n b)" "\<not> ov \<longrightarrow> sr n d = sr n a + sr n b" using add_signed_correct[OF s(1,2)] by blast
  obtain e ow cz where b: "sub_signed n a b = (e, ow, cz)" "ur n e = (ur n a - ur n b) mod 2 ^ n" "cz \<longleftrightarrow> ur n b \<le> ur n a"
    "ow \<longleftrightarrow> \<not> signed_fits n (sr n a - sr n b)" "\<not> ow \<longrightarrow> sr n e = sr n a - sr n b" using sub_signed_correct[OF s(1,3)] by blast
  note o = add_op_narrow[OF t, of a b] sub_op_narrow[OF t(1), of a b] unsigned_of_signed(1)[OF a(1)] unsigned_of_signed(2)[OF b(1)]
  show ?thesis
  proof (cases "is_signed (i_type I)")
    case True
    then have "add_op I a b = Inr (d, ov, cy)" "sub_op I a b = Inr (e, ow, cz)" using o a(1) b(1) by (simp_all add: n)
    then show ?thesis using True a(2-5) b(2-5) by blast
  next
    case False
    then have "add_op I a b = Inr (d, False, cy)" "sub_op I a b = Inr (e, False, cz)" using o by (simp_all add: n)
    then show ?thesis using False a(2,3) b(2,3) by blast
  qed
qed

theorem add_sub_flags_witness:
  "\<exists>d. add_op \<lparr>i_type = S8_TYPE, i_type2 = S8_TYPE, i_rounding = RN_OPTION, i_wide = False, i_hi = False, i_lo = False, i_sat = False,
     i_neg = False, i_abs = False, i_cmpop = EQ_OPTION, i_operands = 3\<rparr> 100 100 = Inr (d, True, False) \<and> ur 8 d = 200"
  using add_sub_flags[of "\<lparr>i_type = S8_TYPE, i_type2 = S8_TYPE, i_rounding = RN_OPTION, i_wide = False, i_hi = False, i_lo = False,
     i_sat = False, i_neg = False, i_abs = False, i_cmpop = EQ_OPTION, i_operands = 3\<rparr>" 8 100 100]
  by (auto simp: narrow_types_def rounding_ok_def type_size_def is_signed_def ur_def sr_def signed_fits_def)

section \<open>Products\<close>

lemma ur_put_zero: "n \<le> m \<Longrightarrow> m \<le> 64 \<Longrightarrow> ur n (put m 0 v) = v mod 2 ^ n"
  using ur_put_less[of n m 0 v] by (simp add: take_bit_eq_mod)

text \<open>Multiplication of 16 and 32 bits is exact.  The wide result has the product in twice the width, signed products
  modulo it in two's complement, the high and the low result are its two halves.\<close>

theorem mul_exact:
  assumes "i_type I \<in> {S16_TYPE, S32_TYPE, U16_TYPE, U32_TYPE}" and "i_wide I \<or> i_hi I \<or> i_lo I" and "\<not> (i_hi I \<and> i_lo I)"
    and "n = type_size (i_type I)" and "p = (if is_signed (i_type I) then sr n a * sr n b else ur n a * ur n b)"
  shows "\<exists>d. mul_op I a b = Inr d \<and>
    (if i_wide I then ur (2 * n) d = p mod 2 ^ (2 * n) else if i_hi I then ur n d = (p div 2 ^ n) mod 2 ^ n else ur n d = p mod 2 ^ n)"
  using assms by (cases "i_type I") (auto simp: mul_op_def type_size_def is_signed_def Let_def ur_put_zero drop_bit_eq_div)

theorem mul_exact_witness:
  "\<exists>d. mul_op \<lparr>i_type = S16_TYPE, i_type2 = S16_TYPE, i_rounding = RN_OPTION, i_wide = True, i_hi = False, i_lo = False, i_sat = False,
     i_neg = False, i_abs = False, i_cmpop = EQ_OPTION, i_operands = 3\<rparr> 0xFFFF 7 = Inr d \<and> ur 32 d = 4294967289"
  using mul_exact[of "\<lparr>i_type = S16_TYPE, i_type2 = S16_TYPE, i_rounding = RN_OPTION, i_wide = True, i_hi = False, i_lo = False,
     i_sat = False, i_neg = False, i_abs = False, i_cmpop = EQ_OPTION, i_operands = 3\<rparr>" 16 "-7" "0xFFFF" 7]
  by (auto simp: type_size_def is_signed_def ur_def sr_def)

text \<open>The unsigned 32-bit multiply-add loses the high half of its product: the wide and the high form work with the
  product modulo \<open>2 ^ 32\<close> (the code multiplies two \<open>unsigned\<close> before it assigns to 64 bits), and the high form adds the third
  operand before it shifts.\<close>

theorem mad_loses_high_half:
  assumes "i_type I = U32_TYPE" and "i_wide I \<or> i_hi I"
  shows "mad_op I None a b c = Inr (of_int (if i_wide I then (ur 32 a * ur 32 b) mod 2 ^ 32 + uint c
    else ((ur 32 a * ur 32 b) mod 2 ^ 32 + ur 32 c) div 2 ^ 32), False, False)"
proof -
  let ?p = "ur 32 a * ur 32 b"
  have t: "take_bit 32 ?p = ?p mod 2 ^ 32" by (simp add: take_bit_eq_mod)
  have w: "put 64 0 v = of_int v" for v by (simp add: put_zero) (simp add: take_bit_eq_mod word_of_int_eq_iff take_bit_int_def)
  have "0 \<le> ?p mod 2 ^ 32 + ur 32 c" "?p mod 2 ^ 32 + ur 32 c < 2 ^ 64"
    using ur_range[of 32 c] pos_mod_bound[of "2 ^ 32" ?p] pos_mod_sign[of "2 ^ 32" ?p] by simp_all
  then have h: "put 32 0 ((?p mod 2 ^ 32 + ur 32 c) div 2 ^ 32) = of_int ((?p mod 2 ^ 32 + ur 32 c) div 2 ^ 32)"
    by (simp add: put_zero take_bit_int_eq_self pos_imp_zdiv_nonneg_iff)
  have "uint c = ur 64 c" using unsigned_less[where 'a = int, of c] by (simp add: ur_def take_bit_eq_mod)
  then show ?thesis using assms w h by (auto simp: mad_op_def t carry_bit_def Let_def drop_bit_eq_div)
qed

theorem mad_loses_high_half_witness:
  "mad_op \<lparr>i_type = U32_TYPE, i_type2 = U32_TYPE, i_rounding = RN_OPTION, i_wide = True, i_hi = False, i_lo = False, i_sat = False,
     i_neg = False, i_abs = False, i_cmpop = EQ_OPTION, i_operands = 4\<rparr> None 65536 65536 7 = Inr (7, False, False) \<and>
   mul_op \<lparr>i_type = U32_TYPE, i_type2 = U32_TYPE, i_rounding = RN_OPTION, i_wide = True, i_hi = False, i_lo = False, i_sat = False,
     i_neg = False, i_abs = False, i_cmpop = EQ_OPTION, i_operands = 4\<rparr> 65536 65536 = Inr 4294967296"
  using mad_loses_high_half[of "\<lparr>i_type = U32_TYPE, i_type2 = U32_TYPE, i_rounding = RN_OPTION, i_wide = True, i_hi = False,
     i_lo = False, i_sat = False, i_neg = False, i_abs = False, i_cmpop = EQ_OPTION, i_operands = 4\<rparr>" 65536 65536 7]
  by (simp add: mul_op_def ur_def put_def)

text \<open>Signed, a product that needs more than 32 bits overflows \<open>int\<close>, in the wide and the high form too.\<close>

lemma mad_signed_overflow:
  "i_type I = S32_TYPE \<Longrightarrow> \<not> signed_fits 32 (sr 32 a * sr 32 b) \<Longrightarrow> mad_op I p a b c = Inl Undefined_Behaviour"
  by (simp add: mad_op_def s_arith_def Let_def)

section \<open>Conversions\<close>

definition int_types :: "ptx_type set" where
  "int_types = {S8_TYPE, S16_TYPE, S32_TYPE, S64_TYPE, U8_TYPE, U16_TYPE, U32_TYPE, U64_TYPE}"

definition widths :: "nat set" where "widths = {8, 16, 32, 64}"

lemma masks:
  "push_bit 32 (ucast (0::u32)) OR ucast (0xFF::u32) = (mask 8 :: u64)"
  "push_bit 32 (ucast (0::u32)) OR ucast (0xFFFF::u32) = (mask 16 :: u64)"
  "push_bit 32 (ucast (0::u32)) OR ucast (0xFFFFFFFF::u32) = (mask 32 :: u64)"
  "push_bit 32 (ucast (0xFFFFFFFF::u32)) OR ucast (0xFFFFFF00::u32) = NOT (mask 8 :: u64)"
  "push_bit 32 (ucast (0xFFFFFFFF::u32)) OR ucast (0xFFFF0000::u32) = NOT (mask 16 :: u64)"
  "push_bit 32 (ucast (0xFFFFFFFF::u32)) OR ucast (0::u32) = NOT (mask 32 :: u64)"
  by code_simp+

lemma take_bit_64 [simp]: "take_bit 64 (x::u64) = x"
  by (rule bit_word_eqI) (simp add: bit_simps)

lemma not_mask_64: "NOT (mask 64 :: u64) = 0"
  by code_simp

lemma widths_cases:
  assumes "w \<in> widths"
  obtains "w = 8" | "w = 16" | "w = 32" | "w = 64"
  using assms by (auto simp: widths_def)

lemma chop_width: "w \<in> widths \<Longrightarrow> chop x w = Inr (take_bit w x)"
  unfolding chop_def mask_and_def masks take_bit_eq_mask[symmetric] by (erule widths_cases) simp_all

lemma extend_width:
  "w \<in> widths \<Longrightarrow> extend_from w (take_bit w x) = Inr (if bit x (w - 1) then take_bit w x OR NOT (mask w) else take_bit w x)"
  unfolding extend_from_def mask_or_def masks get_bit_def
  by (erule widths_cases) (simp_all only: numeral_eq_iff semiring_norm if_True if_False simp_thms, simp_all only: not_mask_64 or.right_neutral,
      simp_all add: bit_take_bit_iff)

lemma extended_sr:
  assumes "0 < w" and "w \<le> 64"
  shows "(if bit x (w - 1) then take_bit w x OR NOT (mask w) else take_bit w x) = (of_int (sr w x) :: u64)"
proof (rule bit_word_eqI)
  fix n assume n: "n < LENGTH(64)"
  have r: "bit (of_int (sr w x) :: u64) n = bit x (min n (w - 1))"
    using n assms by (simp add: sr_def bit_simps min.commute)
  have "n < w \<Longrightarrow> n \<noteq> w - 1 \<Longrightarrow> min n (w - 1) = n" "\<not> n < w \<Longrightarrow> min n (w - 1) = w - 1" "n = w - 1 \<Longrightarrow> min n (w - 1) = w - 1" by auto
  then show "bit (if bit x (w - 1) then take_bit w x OR NOT (mask w) else take_bit w x) n = bit (of_int (sr w x) :: u64) n"
    unfolding r using n assms by (cases "n < w"; cases "n = w - 1") (simp_all add: bit_simps)
qed

lemma sext_width:
  assumes w: "w \<in> widths"
  shows "sext x w v = Inr (of_int (sr w x))"
proof -
  have "0 < w" "w \<le> 64" using w by (auto simp: widths_def)
  then show ?thesis using chop_width[OF w] extend_width[OF w] extended_sr[of w x] by (simp add: sext_def)
qed

lemma ur_take: "m \<le> w \<Longrightarrow> ur m (take_bit w x) = ur m x" "w \<le> m \<Longrightarrow> ur m (take_bit w x) = ur w x"
  by (rule bit_eqI; auto simp: ur_def bit_simps)+

lemma sexd_width: "\<exists>d. sexd x 32 16 = Inr d \<and> ur 16 d = ur 16 x"
proof -
  have "take_bit 16 (if bit x 15 then take_bit 32 x OR NOT (mask 16) else take_bit 32 x) = take_bit 16 x"
    by (rule bit_word_eqI) (auto simp: bit_simps)
  from arg_cong[OF this, of "ur 16"]
  have "ur 16 (if bit x 15 then take_bit 32 x OR NOT (mask 16) else take_bit 32 x) = ur 16 x"
    unfolding ur_take(1)[OF order_refl] .
  moreover have "sexd x 32 16 = Inr (if bit x 15 then take_bit 32 x OR NOT (mask 16) else take_bit 32 x)"
    using chop_width[of 32 x] unfolding sexd_def extend_from_def mask_or_def masks get_bit_def
    by (simp add: widths_def bit_take_bit_iff)
  ultimately show ?thesis by blast
qed

definition value_of :: "ptx_type \<Rightarrow> ptx_reg \<Rightarrow> int" where
  "value_of t x = (if is_signed t then sr (type_size t) x else ur (type_size t) x)"

lemma value_low: "0 < type_size t \<Longrightarrow> n \<le> type_size t \<Longrightarrow> value_of t x mod 2 ^ n = ur n x"
proof -
  assume s: "0 < type_size t" and n: "n \<le> type_size t"
  have "take_bit (type_size t) (value_of t x) = ur (type_size t) x"
    using take_bit_sr[OF s, of x] by (simp add: value_of_def) (simp add: ur_def)
  from arg_cong[OF this, of "take_bit n"] show ?thesis using n by (simp add: take_bit_eq_mod[symmetric] ur_def min_absorb1)
qed

lemma chop_value: "w \<in> widths \<Longrightarrow> w \<le> type_size t \<Longrightarrow> \<exists>d. chop x w = Inr d \<and> ur w d = value_of t x mod 2 ^ w"
  using chop_width[of w x] ur_take(1)[of w w x] value_low[of t w x] by (auto simp: widths_def)

lemma sext_value:
  assumes "is_signed t" and w: "type_size t \<in> widths" and n: "n \<le> 64"
  shows "\<exists>d. sext x (type_size t) v = Inr d \<and> ur n d = value_of t x mod 2 ^ n"
  using sext_width[OF w] ur_of_int[OF n, of "sr (type_size t) x"] assms(1) by (simp add: value_of_def take_bit_eq_mod)

lemma zext_value:
  assumes "\<not> is_signed t" and w: "type_size t \<in> widths" and n: "type_size t \<le> n"
  shows "\<exists>d. zext x (type_size t) v = Inr d \<and> ur n d = value_of t x mod 2 ^ n"
proof -
  have "ur (type_size t) x mod 2 ^ n = ur (type_size t) x"
  proof (rule mod_pos_pos_trivial)
    have "ur (type_size t) x < 2 ^ type_size t" by (rule ur_range)
    also have "\<dots> \<le> (2::int) ^ n" using n by (rule power_increasing) simp
    finally show "ur (type_size t) x < 2 ^ n" .
  qed (rule ur_range)
  then show ?thesis using chop_width[OF w] ur_take(2)[OF n] assms(1) by (simp add: zext_def value_of_def)
qed

lemma int_types_cases:
  assumes "t \<in> int_types"
  obtains "t = S8_TYPE" | "t = S16_TYPE" | "t = S32_TYPE" | "t = S64_TYPE" | "t = U8_TYPE" | "t = U16_TYPE" | "t = U32_TYPE" | "t = U64_TYPE"
  using assms by (auto simp: int_types_def)

lemma int_types_size: "t \<in> int_types \<Longrightarrow> type_size t \<in> widths \<and> 0 < type_size t \<and> type_size t \<le> 64"
  by (erule int_types_cases) (simp_all add: type_size_def widths_def)

lemma cvt_entry:
  assumes "from \<in> int_types" and "to \<in> int_types"
  shows "(case g_cvt_fn ! fst (type_decode from) ! fst (type_decode to) of
      No_Fn \<Rightarrow> type_size to = type_size from \<or> \<not> is_signed from \<and> type_size to \<le> type_size from \<or> type_size to \<le> type_size from
    | Chop \<Rightarrow> type_size to \<le> type_size from | Sext \<Rightarrow> is_signed from | Sexd \<Rightarrow> from = S32_TYPE \<and> to = S16_TYPE
    | Zext \<Rightarrow> \<not> is_signed from \<and> type_size from \<le> type_size to | Float_Fn \<Rightarrow> False)"
  using assms
  by (elim int_types_cases) (simp_all add: g_cvt_fn_def type_size_def is_signed_def)

text \<open>Claim C32. Conversion between the integer types.  For all sixty-four pairs of an integer source and an integer destination
  type, \<open>cvt\<close> without negation returns a register whose low bits, as many as the destination has, are the value of the source
  modulo the width of the destination, the value being read signed or unsigned as the source type says.\<close>

theorem cvt_converts:
  assumes "i_type2 I \<in> int_types" and "i_type I \<in> int_types" and "\<not> i_neg I" and "n = type_size (i_type I)"
  shows "\<exists>d. cvt_op I x = Inr d \<and> ur n d = value_of (i_type2 I) x mod 2 ^ n"
proof -
  let ?f = "i_type2 I" and ?t = "i_type I"
  let ?g = "g_cvt_fn ! fst (type_decode ?f) ! fst (type_decode ?t)"
  have idx: "fst (type_decode ?f) < 11" "fst (type_decode ?t) < 11" "?f \<noteq> F16_TYPE" "?t \<noteq> F16_TYPE"
    using assms(1,2) by (auto elim!: int_types_cases)
  then have c: "cvt_op I x = cvt_apply ?g x (type_size ?f) (type_size ?t)"
    using assms(3) by (simp add: cvt_op_def type_size_def case_prod_unfold)
  have f: "type_size ?f \<in> widths" "0 < type_size ?f" "n \<le> 64" "n \<in> widths"
    using int_types_size[OF assms(1)] int_types_size[OF assms(2)] assms(4) by simp_all
  note e = cvt_entry[OF assms(1,2)]
  show ?thesis
  proof (cases ?g)
    case No_Fn
    then show ?thesis using e c value_low[OF f(2), of n x] assms(4) by (auto simp: cvt_apply_def)
  next
    case Chop
    then show ?thesis using e c chop_value[OF f(4), of ?f x] assms(4) by (simp add: cvt_apply_def)
  next
    case Sext
    then show ?thesis using e c sext_value[of ?f n x n] f(1,3) assms(4) by (simp add: cvt_apply_def)
  next
    case Sexd
    then have "?f = S32_TYPE" "?t = S16_TYPE" using e by simp_all
    then show ?thesis using Sexd c sexd_width[of x] value_low[OF f(2), of 16 x] assms(4)
      by (auto simp: cvt_apply_def type_size_def)
  next
    case Zext
    then show ?thesis using e c zext_value[of ?f n x n] f(1) assms(4) by (simp add: cvt_apply_def)
  next
    case Float_Fn
    then show ?thesis using e by simp
  qed
qed

theorem cvt_converts_witness:
  "\<exists>d. cvt_op \<lparr>i_type = U32_TYPE, i_type2 = S8_TYPE, i_rounding = RN_OPTION, i_wide = False, i_hi = False, i_lo = False, i_sat = False,
     i_neg = False, i_abs = False, i_cmpop = EQ_OPTION, i_operands = 2\<rparr> 0xFF = Inr d \<and> ur 32 d = 4294967295"
  using cvt_converts[of "\<lparr>i_type = U32_TYPE, i_type2 = S8_TYPE, i_rounding = RN_OPTION, i_wide = False, i_hi = False, i_lo = False,
     i_sat = False, i_neg = False, i_abs = False, i_cmpop = EQ_OPTION, i_operands = 2\<rparr>" 32 "0xFF"]
  by (auto simp: int_types_def type_size_def is_signed_def value_of_def sr_def)

section \<open>Shifts\<close>

lemma push_mod: "push_bit k (x::int) mod 2 ^ n = (x * 2 ^ k) mod 2 ^ n"
  by (simp add: push_bit_eq_mult)

lemma long_shift: "int n \<le> k \<Longrightarrow> (x * 2 ^ nat k) mod 2 ^ n = (0::int)"
  by (metis dvd_imp_mod_0 dvd_mult2 dvd_triv_right le_imp_power_dvd mult.commute nat_int nat_mono)

lemma long_unsigned_shift:
  assumes "0 \<le> x" and "x < 2 ^ n" and "int n \<le> k"
  shows "x div 2 ^ nat k = (0::int)"
proof (rule div_pos_pos_trivial)
  have "(2::int) ^ n \<le> 2 ^ nat k" using assms(3) by (intro power_increasing) (auto simp: le_nat_iff)
  with assms(2) show "x < 2 ^ nat k" by (rule order_less_le_trans)
qed (fact assms(1))

lemma long_signed_shift:
  assumes "- (2 ^ n) \<le> x" and "x < 2 ^ n" and "int n \<le> k"
  shows "x div 2 ^ nat k = (if x < 0 then -1 else (0::int))"
proof -
  have p: "(2::int) ^ n \<le> 2 ^ nat k" using assms(3) by (intro power_increasing) (auto simp: le_nat_iff)
  show ?thesis
  proof (cases "x < 0")
    case True
    have "x div 2 ^ nat k = -1" by (rule int_div_pos_eq[where r = "x + 2 ^ nat k"]) (use True assms(1) p in linarith)+
    then show ?thesis using True by simp
  next
    case False
    then show ?thesis using long_unsigned_shift[OF _ assms(2,3)] by simp
  qed
qed

lemma sr_range: "0 < n \<Longrightarrow> - (2 ^ (n - 1)) \<le> sr n x" "0 < n \<Longrightarrow> sr n x < 2 ^ (n - 1)"
  by (simp_all add: sr_def)

text \<open>The amount of a shift: 16 bits of the second operand for 16-bit types, the whole register for \<open>S64_TYPE\<close>, 32 bits
  otherwise.\<close>

definition amount :: "ptx_inst \<Rightarrow> ptx_reg \<Rightarrow> int" where
  "amount I b = (if type_size (i_type I) = 16 then ur 16 b else if i_type I = S64_TYPE then ur 64 b else ur 32 b)"

text \<open>The unsigned 64-bit shifts test 32 bits and shift by 64: a short amount in a register with more in its upper half has no
  defined result.\<close>

definition shift_defined :: "ptx_inst \<Rightarrow> ptx_reg \<Rightarrow> bool" where
  "shift_defined I b \<longleftrightarrow> type_size (i_type I) \<noteq> 64 \<or> 64 \<le> ur 32 b \<or> ur 64 b < 64"

text \<open>The one case in which the signed 64-bit shift clears the low half of the result.\<close>

definition half_cleared :: "ptx_inst \<Rightarrow> ptx_reg \<Rightarrow> ptx_reg \<Rightarrow> bool" where
  "half_cleared I a b \<longleftrightarrow> i_type I = S64_TYPE \<and> 64 \<le> ur 64 b \<and> sr 64 a < 0 \<and> sr 32 b < 0"

definition shift_types :: "ptx_type set" where
  "shift_types = {B16_TYPE, U16_TYPE, B32_TYPE, U32_TYPE, B64_TYPE, U64_TYPE}"

definition signed_types :: "ptx_type set" where
  "signed_types = {S16_TYPE, S32_TYPE, S64_TYPE}"

lemma shl_value:
  assumes "n \<le> 64" and "0 \<le> k"
  shows "ur n (if int n \<le> k then 0 else put n 0 (push_bit (nat k) (ur n a))) = (ur n a * 2 ^ nat k) mod 2 ^ n"
proof (cases "int n \<le> k")
  case True
  then show ?thesis using long_shift[OF True, of "ur n a"] by (simp add: ur_def)
next
  case False
  then show ?thesis using ur_put_zero[of n n] assms by (simp add: push_mod)
qed

lemma ur_64: "ur 64 x = uint x"
  using unsigned_less[where 'a = int, of x] by (simp add: ur_def take_bit_eq_mod)

lemma uint_push: "uint (push_bit j (a::u64)) = uint a * 2 ^ j mod 2 ^ 64"
proof -
  have "uint (push_bit j a) = take_bit LENGTH(64) (push_bit j (uint a))" by (rule unsigned_push_bit_eq)
  then show ?thesis by (simp only: take_bit_eq_mod push_bit_eq_mult) simp
qed

lemma uint_drop: "uint (drop_bit j (a::u64)) = uint a div 2 ^ j"
proof -
  have "uint (drop_bit j a) = drop_bit j (take_bit LENGTH(64) (uint a))" by (rule unsigned_drop_bit_eq)
  then show ?thesis using ur_64[of a] by (simp add: ur_def drop_bit_eq_div)
qed

lemma shl_value_64:
  assumes "0 \<le> k"
  shows "ur 64 (if 64 \<le> k then 0 else push_bit (nat k) a) = (ur 64 a * 2 ^ nat k) mod 2 ^ 64"
proof (cases "64 \<le> k")
  case True
  then show ?thesis using long_shift[of 64 k "ur 64 a"] by (simp add: ur_def)
next
  case False
  then show ?thesis unfolding ur_64 uint_push[symmetric] by (simp only: if_False)
qed

lemma div_power_range: "0 \<le> x \<Longrightarrow> x < m \<Longrightarrow> 0 \<le> x div 2 ^ k \<and> x div 2 ^ k < (m::int)"
  using zdiv_mono2[of x 1 "2 ^ k"] by (simp add: pos_imp_zdiv_nonneg_iff)

lemma shr_value:
  assumes "n \<le> 64" and "0 \<le> k"
  shows "ur n (if k < int n then put n 0 (drop_bit (nat k) (ur n a)) else 0) = ur n a div 2 ^ nat k"
proof (cases "k < int n")
  case True
  have "ur n a div 2 ^ nat k mod 2 ^ n = ur n a div 2 ^ nat k"
    using div_power_range[OF ur_range, of n a "nat k"] by (intro mod_pos_pos_trivial) simp_all
  then show ?thesis using True ur_put_zero[of n n "drop_bit (nat k) (ur n a)"] assms by (simp add: drop_bit_eq_div)
next
  case False
  then show ?thesis using long_unsigned_shift[OF ur_range, of n k a] by (simp add: ur_def)
qed

lemma shr_value_64:
  assumes "0 \<le> k"
  shows "ur 64 (if k < 64 then drop_bit (nat k) a else 0) = ur 64 a div 2 ^ nat k"
proof (cases "k < 64")
  case True
  then show ?thesis unfolding ur_64 uint_drop[symmetric] by (simp only: if_True)
next
  case False
  then show ?thesis using long_unsigned_shift[OF ur_range, of 64 k a] by (simp add: ur_def)
qed

lemma sr_of_int: "0 < n \<Longrightarrow> n \<le> 64 \<Longrightarrow> - (2 ^ (n - 1)) \<le> v \<Longrightarrow> v < 2 ^ (n - 1) \<Longrightarrow> sr n (of_int v) = v"
proof -
  assume n: "0 < n" "n \<le> 64" and v: "- (2 ^ (n - 1)) \<le> v" "v < 2 ^ (n - 1)"
  have "sr n (of_int v) = signed_take_bit (n - 1) v"
    by (rule bit_eqI) (use n in \<open>auto simp: sr_def bit_simps\<close>)
  then show ?thesis using v by (simp add: signed_take_bit_int_eq_self)
qed

lemma sar_value:
  assumes n: "0 < n" "n \<le> 64" and k: "0 \<le> k"
  shows "sr n (if k < int n then of_int (drop_bit (nat k) (sr n a)) else if sr n a < 0 then -1 else 0) = sr n a div 2 ^ nat k"
proof -
  define h where "h = (2::int) ^ (n - 1)"
  have h: "1 \<le> h" "h = 2 ^ (n - 1)" by (simp_all add: h_def)
  have r: "- h \<le> sr n a" "sr n a < h" using sr_range[OF n(1)] by (simp_all add: h_def)
  have q: "- h \<le> sr n a div 2 ^ nat k" "sr n a div 2 ^ nat k < h"
  proof -
    have "sr n a div 2 ^ nat k \<ge> (- h) div 2 ^ nat k" using r(1) by (intro zdiv_mono1) auto
    moreover have "- h \<le> (- h) div 2 ^ nat k"
      using h(1) zdiv_mono2_neg[of "- h" 1 "2 ^ nat k"] by simp
    ultimately show "- h \<le> sr n a div 2 ^ nat k" by simp
    show "sr n a div 2 ^ nat k < h"
    proof (cases "0 \<le> sr n a")
      case True
      then show ?thesis using div_power_range[OF True r(2), of "nat k"] by simp
    next
      case False
      then have "sr n a div 2 ^ nat k < 0" by (intro div_neg_pos_less0) simp_all
      then show ?thesis using h(1) by linarith
    qed
  qed
  show ?thesis
  proof (cases "k < int n")
    case True
    then show ?thesis using sr_of_int[OF n, of "sr n a div 2 ^ nat k"] q by (simp add: drop_bit_eq_div h(2))
  next
    case False
    have "sr n a div 2 ^ nat k = (if sr n a < 0 then - 1 else 0)"
      using long_signed_shift[of "n - 1" "sr n a" k] r False n by (simp add: h(2))
    moreover have "sr n (-1) = -1"
    proof -
      have "(-1::int) < 2 ^ (n - 1)" using h by linarith
      then show ?thesis using sr_of_int[OF n, of "-1"] h by simp
    qed
    moreover have "sr n 0 = 0" using sr_of_int[OF n, of 0] h by simp
    ultimately show ?thesis using False by simp
  qed
qed

lemma short_amount: "ur 64 b < 64 \<Longrightarrow> ur 32 b = ur 64 b"
  using mod_mod_cancel[of "2 ^ 32" "2 ^ 64" "uint b"] ur_range(1)[of 64 b] by (simp add: ur_mod)

lemma shl_eval:
  assumes "i_type I \<in> shift_types" and "n = type_size (i_type I)"
  shows "if shift_defined I b then \<exists>d. shl_op I a b = Inr d \<and> ur n d = (ur n a * 2 ^ nat (amount I b)) mod 2 ^ n
    else shl_op I a b = Inl Undefined_Behaviour"
proof -
  consider "i_type I \<in> {B16_TYPE, U16_TYPE}" | "i_type I \<in> {B32_TYPE, U32_TYPE}" | "i_type I \<in> {B64_TYPE, U64_TYPE}"
    using assms(1) by (auto simp: shift_types_def)
  then show ?thesis
  proof cases
    case 1
    then have "type_size (i_type I) = 16" "i_type I \<noteq> S64_TYPE" by (auto simp: type_size_def)
    then show ?thesis using 1 shl_value[of 16 "ur 16 b" a, OF _ ur_range(1)] assms(2)
      by (simp add: shl_op_def amount_def shift_defined_def)
  next
    case 2
    then have "type_size (i_type I) = 32" "i_type I \<noteq> S64_TYPE" by (auto simp: type_size_def)
    then show ?thesis using 2 shl_value[of 32 "ur 32 b" a, OF _ ur_range(1)] assms(2)
      by (auto simp: shl_op_def amount_def shift_defined_def)
  next
    case 3
    then have t: "type_size (i_type I) = 64" "amount I b = ur 32 b" by (auto simp: type_size_def amount_def)
    show ?thesis
    proof (cases "shift_defined I b")
      case True
      then have "shl_op I a b = Inr (if 64 \<le> ur 32 b then 0 else push_bit (nat (ur 32 b)) a)"
        using 3 t(1) short_amount[of b] by (auto simp: shl_op_def shift_defined_def)
      then show ?thesis using True t shl_value_64[of "ur 32 b" a, OF ur_range(1)] assms(2) by simp
    next
      case False
      then show ?thesis using 3 by (auto simp: shl_op_def shift_defined_def)
    qed
  qed
qed

lemma shr_eval:
  assumes "i_type I \<in> shift_types" and "n = type_size (i_type I)"
  shows "if shift_defined I b then \<exists>d. shr_op I a b = Inr d \<and> ur n d = ur n a div 2 ^ nat (amount I b)
    else shr_op I a b = Inl Undefined_Behaviour"
proof -
  consider "i_type I \<in> {B16_TYPE, U16_TYPE}" | "i_type I \<in> {B32_TYPE, U32_TYPE}" | "i_type I \<in> {B64_TYPE, U64_TYPE}"
    using assms(1) by (auto simp: shift_types_def)
  then show ?thesis
  proof cases
    case 1
    then have "type_size (i_type I) = 16" "i_type I \<noteq> S64_TYPE" by (auto simp: type_size_def)
    then show ?thesis using 1 shr_value[of 16 "ur 16 b" a, OF _ ur_range(1)] assms(2)
      by (simp add: shr_op_def amount_def shift_defined_def)
  next
    case 2
    then have "type_size (i_type I) = 32" "i_type I \<noteq> S64_TYPE" by (auto simp: type_size_def)
    then show ?thesis using 2 shr_value[of 32 "ur 32 b" a, OF _ ur_range(1)] assms(2)
      by (auto simp: shr_op_def amount_def shift_defined_def)
  next
    case 3
    then have t: "type_size (i_type I) = 64" "amount I b = ur 32 b" by (auto simp: type_size_def amount_def)
    show ?thesis
    proof (cases "shift_defined I b")
      case True
      then have "shr_op I a b = Inr (if ur 32 b < 64 then drop_bit (nat (ur 32 b)) a else 0)"
        using 3 t(1) short_amount[of b] by (auto simp: shr_op_def shift_defined_def)
      then show ?thesis using True t shr_value_64[of "ur 32 b" a, OF ur_range(1)] assms(2) by simp
    next
      case False
      then show ?thesis using 3 by (auto simp: shr_op_def shift_defined_def)
    qed
  qed
qed

lemma sar_eval:
  assumes "i_type I \<in> signed_types" and "n = type_size (i_type I)"
  shows "if half_cleared I a b then shr_op I a b = Inr 0xFFFFFFFF00000000
    else \<exists>d. shr_op I a b = Inr d \<and> sr n d = sr n a div 2 ^ nat (amount I b)"
proof -
  consider "i_type I = S16_TYPE" | "i_type I = S32_TYPE" | "i_type I = S64_TYPE" using assms(1) by (auto simp: signed_types_def)
  then show ?thesis
  proof cases
    case 1
    then show ?thesis using sar_value[of 16 "ur 16 b" a, OF _ _ ur_range(1)] assms(2)
      by (simp add: shr_op_def amount_def type_size_def half_cleared_def)
  next
    case 2
    then show ?thesis using sar_value[of 32 "ur 32 b" a, OF _ _ ur_range(1)] assms(2)
      by (simp add: shr_op_def amount_def type_size_def half_cleared_def)
  next
    case 3
    then have t: "n = 64" "amount I b = ur 64 b" using assms(2) by (simp_all add: amount_def type_size_def)
    show ?thesis
    proof (cases "half_cleared I a b")
      case True
      moreover have "put 32 (-1) 0 = 0xFFFFFFFF00000000" by (simp add: put_def mask_eq_exp_minus_1)
      ultimately show ?thesis using 3 by (simp add: shr_op_def half_cleared_def)
    next
      case False
      then have "shr_op I a b = Inr (if ur 64 b < 64 then of_int (drop_bit (nat (ur 64 b)) (sr 64 a)) else if sr 64 a < 0 then -1 else 0)"
        using 3 by (simp add: shr_op_def half_cleared_def)
      then show ?thesis using False sar_value[of 64 "ur 64 b" a, OF _ _ ur_range(1)] t by simp
    qed
  qed
qed

text \<open>Claim C33. Shifts of every type by any amount, the width and more included, with the two cases in which the code goes
  wrong.  A left shift multiplies by the power of two modulo the width; a right shift divides by it, rounding down, on the
  unsigned or the signed value as the type says.  The amount is the low half of the second register (16 bits of it for 16-bit
  types, all of it for \<open>S64_TYPE\<close>).  The exceptions: the unsigned 64-bit shifts test the low half and shift by the whole register,
  which is undefined when the low half is below 64 and the register is not; the signed 64-bit shift of a negative number by a
  register of 64 or more whose bit 31 is set returns \<open>0xFFFFFFFF00000000\<close> where \<open>-1\<close> is the quotient.\<close>

theorem shift_semantics:
  assumes "n = type_size (i_type I)"
  shows "(i_type I \<in> shift_types \<longrightarrow>
      (if shift_defined I b
       then (\<exists>d. shl_op I a b = Inr d \<and> ur n d = (ur n a * 2 ^ nat (amount I b)) mod 2 ^ n) \<and>
            (\<exists>d. shr_op I a b = Inr d \<and> ur n d = ur n a div 2 ^ nat (amount I b))
       else shl_op I a b = Inl Undefined_Behaviour \<and> shr_op I a b = Inl Undefined_Behaviour)) \<and>
    (i_type I \<in> signed_types \<longrightarrow>
      (if half_cleared I a b then shr_op I a b = Inr 0xFFFFFFFF00000000
       else \<exists>d. shr_op I a b = Inr d \<and> sr n d = sr n a div 2 ^ nat (amount I b)))"
  using shl_eval[OF _ assms, of b a] shr_eval[OF _ assms, of b a] sar_eval[OF _ assms, of a b] by simp

theorem shift_semantics_witness:
  "\<exists>d. shr_op \<lparr>i_type = S32_TYPE, i_type2 = S32_TYPE, i_rounding = RN_OPTION, i_wide = False, i_hi = False, i_lo = False,
     i_sat = False, i_neg = False, i_abs = False, i_cmpop = EQ_OPTION, i_operands = 3\<rparr> 0xFFFFFFF0 40 = Inr d \<and> sr 32 d = -1"
proof -
  define I where "I = \<lparr>i_type = S32_TYPE, i_type2 = S32_TYPE, i_rounding = RN_OPTION, i_wide = False, i_hi = False, i_lo = False,
     i_sat = False, i_neg = False, i_abs = False, i_cmpop = EQ_OPTION, i_operands = 3\<rparr>"
  have t: "i_type I = S32_TYPE" by (simp add: I_def)
  have a: "sr 32 0xFFFFFFF0 = -16" "amount I 40 = 40" by (simp_all add: sr_def ur_def amount_def t type_size_def)
  have d: "(-16::int) div 2 ^ nat 40 = -1" by (rule int_div_pos_eq[where r = "2 ^ 40 - 16"]) simp_all
  have k: "32 = type_size (i_type I)" "i_type I \<in> signed_types" "\<not> half_cleared I 0xFFFFFFF0 40"
    by (simp_all add: t type_size_def signed_types_def half_cleared_def)
  have "\<exists>d. shr_op I 0xFFFFFFF0 40 = Inr d \<and> sr 32 d = sr 32 0xFFFFFFF0 div 2 ^ nat (amount I 40)"
    using shift_semantics[OF k(1), of 40 "0xFFFFFFF0"] k(2,3) by simp
  then show ?thesis unfolding a d unfolding I_def .
qed

end
