(* ===== verification/Ptx_Run.thy ===== *)
theory Ptx_Run
  imports Ptx_Exec Ptx_Correct
begin

unbundle bit_operations_syntax

text \<open>
  Sequences of instructions on the registers of a thread: a 64-bit sum by \<open>add\<close> and \<open>addp\<close>, a minimum by \<open>setp\<close> and \<open>selp\<close>,
  and a register taken apart and put together by \<open>mov\<close>.
\<close>

section \<open>Register operands\<close>

definition reg_operand :: "string \<Rightarrow> operand_info" where
  "reg_operand s = \<lparr>op_kind = Reg_Op s, op_double = 0, op_lohi = 0, op_neg = False, op_offset = 0\<rparr>"

definition flags_operand :: "string \<Rightarrow> string \<Rightarrow> operand_info" where
  "flags_operand p s = \<lparr>op_kind = Pair_Op p s, op_double = -2, op_lohi = 0, op_neg = False, op_offset = 0\<rparr>"

definition scalar_type :: "ptx_type \<Rightarrow> bool" where
  "scalar_type t \<longleftrightarrow> t \<notin> {BB128_TYPE, BB64_TYPE, FF64_TYPE}"

lemma read_reg [simp]:
  "scalar_type t \<Longrightarrow> th_regs th s = Some v \<Longrightarrow> get_operand_value th (reg_operand s) t d = Inr (th, v)"
  by (simp add: get_operand_value_def operand_value_def reg_operand_def scalar_type_def get_reg_def half_of_def)

lemma write_reg [simp]: "scalar_type t \<Longrightarrow> set_operand_value th (reg_operand s) v t = Inr (set_reg th s v)"
  by (simp add: set_operand_value_def reg_operand_def scalar_type_def merged_def)

lemma write_reg_flags [simp]: "scalar_type t \<Longrightarrow> set_operand_flags th (reg_operand s) v t ov cy = Inr (set_reg th s v)"
  by (simp add: set_operand_flags_def) (simp add: reg_operand_def)

lemma regs_set_reg [simp]: "s \<noteq> ''_'' \<Longrightarrow> th_regs (set_reg th s v) = (th_regs th)(s \<mapsto> v)"
  by (simp add: set_reg_def)

section \<open>The carry chain\<close>

lemma carry_of_flags:
  "carry_in ((((if z then 1 else 0) OR (if n then 2 else 0)) AND NOT 0xC) OR (if ov then 8 else 0) OR (if cy then 4 else 0))
     = (if cy then 4 else 0)"
  by (cases z; cases n; cases ov; cases cy) (simp_all add: carry_in_def ur_def)

lemma write_flags:
  assumes "s \<noteq> ''_''" and "p \<noteq> ''_''" and "s \<noteq> p"
  shows "\<exists>th1 v. set_operand_flags th (flags_operand p s) d U32_TYPE ov cy = Inr th1 \<and>
    th_regs th1 = (th_regs th)(s \<mapsto> d, p \<mapsto> v) \<and> carry_in v = (if cy then 4 else 0)"
proof -
  define z where "z = (if ur 32 d = 0 then 1 else 0::ptx_reg) OR (if bit d 31 then 2 else 0)"
  define v where "v = (z AND NOT 0xC) OR (if ov then 8 else 0) OR (if cy then 4 else 0)"
  have "set_operand_value th (flags_operand p s) d U32_TYPE = Inr (set_reg (set_reg th p z) s d)"
    by (simp add: set_operand_value_def flags_operand_def vec_sym_def zero_flag_def sign_flag_def type_size_def merged_def z_def)
  then have "set_operand_flags th (flags_operand p s) d U32_TYPE ov cy = Inr (set_reg (set_reg (set_reg th p z) s d) p v)"
    using assms by (simp add: set_operand_flags_def flags_operand_def vec_sym_def reg_at_def v_def)
  moreover have "th_regs (set_reg (set_reg (set_reg th p z) s d) p v) = (th_regs th)(s \<mapsto> d, p \<mapsto> v)"
    using assms by auto
  moreover have "carry_in v = (if cy then 4 else 0)" unfolding v_def z_def by (rule carry_of_flags)
  ultimately show ?thesis by blast
qed

lemma add_unsigned_value:
  assumes "n < 64" and "0 \<le> c" and "c \<le> 4"
  shows "\<exists>d cy. add_unsigned n a b c = (d, False, cy) \<and> ur n d = (ur n a + ur n b + c) mod 2 ^ n"
  using assms ur_of_int[of n "ur n a + ur n b + c"] by (simp add: add_unsigned_def Let_def take_bit_eq_mod)

text \<open>Claim C34. A 64-bit sum by \<open>add.u32\<close> on the low halves and \<open>addp.u32\<close> on the high halves.  Without a carry between them
  the two destination registers hold the sum; with one, the high half is 3 too large, since \<open>addp\<close> adds the carry as the 4 it is
  stored as.\<close>

theorem carry_chain:
  assumes add: "c_type C1 = U32_TYPE" "rounding_ok (c_inst C1)" "c_src C1 = [reg_operand al, reg_operand bl]"
      "c_dst C1 = flags_operand p lo"
    and addp: "c_type C2 = U32_TYPE" "rounding_ok (c_inst C2)" "c_src C2 = [reg_operand ah, reg_operand bh, reg_operand p]"
      "c_dst C2 = reg_operand hi"
    and names: "distinct [p, lo, hi, ah, bh, ''_'']"
    and regs: "th_regs th al = Some a0" "th_regs th bl = Some b0" "th_regs th ah = Some a1" "th_regs th bh = Some b1"
  shows "\<exists>th' l h. bindE (add_impl C1 th) (addp_impl C2) = Inr th' \<and> th_regs th' lo = Some l \<and> th_regs th' hi = Some h \<and>
    ur 32 l + 2 ^ 32 * ur 32 h = (ur 32 a0 + 2 ^ 32 * ur 32 a1 + (ur 32 b0 + 2 ^ 32 * ur 32 b1)
      + (if 2 ^ 32 \<le> ur 32 a0 + ur 32 b0 then 3 * 2 ^ 32 else 0)) mod 2 ^ 64"
proof -
  have s: "scalar_type U32_TYPE" by (simp add: scalar_type_def)
  obtain d ov cy where d: "add_signed 32 a0 b0 0 = (d, ov, cy)" "ur 32 d = (ur 32 a0 + ur 32 b0) mod 2 ^ 32"
      "cy \<longleftrightarrow> 2 ^ 32 \<le> ur 32 a0 + ur 32 b0"
    using add_signed_correct[of 32 a0 b0] by auto
  have "add_op (c_inst C1) a0 b0 = Inr (d, False, cy)"
    using unsigned_of_signed(1)[OF d(1)] add(1,2) by (simp add: add_op_def)
  moreover obtain th1 v where w: "set_operand_flags th (flags_operand p lo) d U32_TYPE False cy = Inr th1"
      "th_regs th1 = (th_regs th)(lo \<mapsto> d, p \<mapsto> v)" "carry_in v = (if cy then 4 else 0)"
    using write_flags[of lo p th d False cy] names by auto
  ultimately have 1: "add_impl C1 th = Inr th1"
    using add(1,3,4) regs s by (simp add: add_impl_def read2_def read1_def read_op_def operand_def)
  have c: "0 \<le> carry_in v" "carry_in v \<le> 4" unfolding w(3) by simp_all
  obtain e cy2 where e: "add_unsigned 32 a1 b1 (carry_in v) = (e, False, cy2)"
      "ur 32 e = (ur 32 a1 + ur 32 b1 + carry_in v) mod 2 ^ 32"
    using add_unsigned_value[of 32 "carry_in v" a1 b1] c by auto
  have "addp_op (c_inst C2) a1 b1 v = Inr (e, False, cy2)" using e(1) addp(1,2) by (simp add: addp_op_def)
  moreover have "th_regs th1 ah = Some a1" "th_regs th1 bh = Some b1" "th_regs th1 p = Some v"
    using names regs by (auto simp: w(2))
  ultimately have 2: "addp_impl C2 th1 = Inr (set_reg th1 hi e)"
    using addp(1,3,4) s by (simp add: addp_impl_def read3_def read2_def read1_def read_op_def operand_def)
  define x where "x = ur 32 a0 + ur 32 b0"
  define y where "y = ur 32 a1 + ur 32 b1 + carry_in v"
  have x: "0 \<le> x" "x < 2 * 2 ^ 32" using ur_range[of 32 a0] ur_range[of 32 b0] by (simp_all add: x_def)
  have A: "x mod 2 ^ 32 + 2 ^ 32 * (y mod 2 ^ 32) = (x mod 2 ^ 32 + 2 ^ 32 * y) mod 2 ^ 64"
  proof -
    have "0 \<le> x mod 2 ^ 32 + 2 ^ 32 * (y mod 2 ^ 32)" "x mod 2 ^ 32 + 2 ^ 32 * (y mod 2 ^ 32) < 2 ^ 64"
      using pos_mod_bound[of "2 ^ 32" x] pos_mod_bound[of "2 ^ 32" y] by simp_all
    then have "x mod 2 ^ 32 + 2 ^ 32 * (y mod 2 ^ 32) = (x mod 2 ^ 32 + 2 ^ 32 * (y mod 2 ^ 32)) mod 2 ^ 64" by simp
    also have "\<dots> = (x mod 2 ^ 32 + 2 ^ 32 * y) mod 2 ^ 64"
      using mod_mult_mult1[of "2 ^ 32" y "2 ^ 32 :: int"] mod_add_right_eq[of "x mod 2 ^ 32" "2 ^ 32 * y" "2 ^ 64"] by simp
    finally show ?thesis .
  qed
  have "x mod 2 ^ 32 = x - (if cy then 2 ^ 32 else 0)" using mod_once[OF x] by (simp add: d(3) x_def)
  then have B: "x mod 2 ^ 32 + 2 ^ 32 * y = ur 32 a0 + 2 ^ 32 * ur 32 a1 + (ur 32 b0 + 2 ^ 32 * ur 32 b1)
      + (if 2 ^ 32 \<le> ur 32 a0 + ur 32 b0 then 3 * 2 ^ 32 else 0)"
    unfolding x_def y_def w(3) d(3) by simp
  have "ur 32 d + 2 ^ 32 * ur 32 e = x mod 2 ^ 32 + 2 ^ 32 * (y mod 2 ^ 32)" unfolding d(2) e(2) x_def y_def ..
  also have "\<dots> = (ur 32 a0 + 2 ^ 32 * ur 32 a1 + (ur 32 b0 + 2 ^ 32 * ur 32 b1)
      + (if 2 ^ 32 \<le> ur 32 a0 + ur 32 b0 then 3 * 2 ^ 32 else 0)) mod 2 ^ 64"
    unfolding A B ..
  finally have "ur 32 d + 2 ^ 32 * ur 32 e = (ur 32 a0 + 2 ^ 32 * ur 32 a1 + (ur 32 b0 + 2 ^ 32 * ur 32 b1)
      + (if 2 ^ 32 \<le> ur 32 a0 + ur 32 b0 then 3 * 2 ^ 32 else 0)) mod 2 ^ 64" .
  moreover have "bindE (add_impl C1 th) (addp_impl C2) = Inr (set_reg th1 hi e)" using 1 2 by simp
  moreover have "th_regs (set_reg th1 hi e) lo = Some d" "th_regs (set_reg th1 hi e) hi = Some e" using names by (auto simp: w(2))
  ultimately show ?thesis by blast
qed

text \<open>0xFFFFFFFF + 1: the high half is 4 where the sum has 1.\<close>

definition sample_inst :: "ptx_type \<Rightarrow> ptx_inst" where
  "sample_inst t = \<lparr>i_type = t, i_type2 = t, i_rounding = RN_OPTION, i_wide = False, i_hi = False, i_lo = False,
     i_sat = False, i_neg = False, i_abs = False, i_cmpop = LT_OPTION, i_operands = 3\<rparr>"

theorem carry_chain_witness:
  "\<exists>th' l h. bindE
      (add_impl \<lparr>c_inst = sample_inst U32_TYPE, c_dst = flags_operand ''p'' ''l'', c_src = [reg_operand ''a'', reg_operand ''b'']\<rparr>
        \<lparr>th_regs = [''a'' \<mapsto> 0xFFFFFFFF, ''b'' \<mapsto> 1, ''y'' \<mapsto> 0, ''z'' \<mapsto> 0], th_last = 0\<rparr>)
      (addp_impl \<lparr>c_inst = sample_inst U32_TYPE, c_dst = reg_operand ''h'',
        c_src = [reg_operand ''y'', reg_operand ''z'', reg_operand ''p'']\<rparr>) = Inr th' \<and>
    th_regs th' ''l'' = Some l \<and> th_regs th' ''h'' = Some h \<and> ur 32 l + 2 ^ 32 * ur 32 h = 4 * 2 ^ 32"
proof -
  let ?th = "\<lparr>th_regs = [''a'' \<mapsto> 0xFFFFFFFF, ''b'' \<mapsto> 1, ''y'' \<mapsto> 0, ''z'' \<mapsto> 0], th_last = 0\<rparr> :: ptx_thread"
  let ?C1 = "\<lparr>c_inst = sample_inst U32_TYPE, c_dst = flags_operand ''p'' ''l'', c_src = [reg_operand ''a'', reg_operand ''b'']\<rparr>"
  let ?C2 = "\<lparr>c_inst = sample_inst U32_TYPE, c_dst = reg_operand ''h'', c_src = [reg_operand ''y'', reg_operand ''z'', reg_operand ''p'']\<rparr>"
  have u: "ur 32 0xFFFFFFFF = 0xFFFFFFFF" "ur 32 1 = 1" "ur 32 0 = 0" by (simp_all add: ur_def)
  have v: "(ur 32 0xFFFFFFFF + 2 ^ 32 * ur 32 0 + (ur 32 1 + 2 ^ 32 * ur 32 0)
      + (if 2 ^ 32 \<le> ur 32 0xFFFFFFFF + ur 32 1 then 3 * 2 ^ 32 else 0)) mod 2 ^ 64 = 4 * 2 ^ 32"
    unfolding u by simp
  note c = carry_chain[of ?C1 "''a''" "''b''" "''p''" "''l''" ?C2 "''y''" "''z''" "''h''" ?th "0xFFFFFFFF" 1 0 0, unfolded v]
  show ?thesis by (rule c) (simp_all add: sample_inst_def rounding_ok_def)
qed

section \<open>A minimum\<close>

text \<open>\<open>setp.lt.s32\<close> and \<open>selp\<close> leave the register whose low half is the smaller number, the second one when they
  are equal.\<close>

theorem setp_selp_min:
  assumes setp: "c_type C1 = S32_TYPE" "i_cmpop (c_inst C1) = LT_OPTION" "i_operands (c_inst C1) < 4"
      "c_src C1 = [reg_operand x, reg_operand y]" "c_dst C1 = reg_operand p"
    and selp: "scalar_type (c_type C2)" "c_src C2 = [reg_operand x, reg_operand y, reg_operand p]" "c_dst C2 = reg_operand d"
    and names: "distinct [p, x, ''_'']" "distinct [p, y, ''_'']" "d \<noteq> ''_''"
    and regs: "th_regs th x = Some a" "th_regs th y = Some b"
  shows "\<exists>th'. bindE (setp_impl C1 th) (selp_impl C2) = Inr th' \<and> th_regs th' d = Some (if sr 32 a < sr 32 b then a else b)"
proof -
  have s: "scalar_type S32_TYPE" "scalar_type PRED_TYPE" by (simp_all add: scalar_type_def)
  define v where "v = put 4 0 (if sr 32 a < sr 32 b then 0 else 1)"
  have "setp_op (c_inst C1) a b = Inr v" using setp(1-3) by (simp add: setp_op_def CmpOp_def cmp_signed_def v_def)
  then have 1: "setp_impl C1 th = Inr (set_reg th p v)"
    using setp regs s by (simp add: setp_impl_def read2_def read1_def read_op_def operand_def)
  have "selp_op a b v = (if sr 32 a < sr 32 b then a else b)"
    by (simp add: selp_op_def v_def ur_put)
  moreover have "th_regs (set_reg th p v) x = Some a" "th_regs (set_reg th p v) y = Some b" "th_regs (set_reg th p v) p = Some v"
    using names regs by auto
  ultimately have "selp_impl C2 (set_reg th p v) = Inr (set_reg (set_reg th p v) d (if sr 32 a < sr 32 b then a else b))"
    using selp s by (simp add: selp_impl_def exec3_def read3_def read2_def read1_def read_op_def operand_def)
  then show ?thesis using 1 names(3) by simp
qed

theorem setp_selp_min_witness:
  "\<exists>th'. bindE (setp_impl \<lparr>c_inst = sample_inst S32_TYPE, c_dst = reg_operand ''p'', c_src = [reg_operand ''x'', reg_operand ''y'']\<rparr>
        \<lparr>th_regs = [''x'' \<mapsto> 5, ''y'' \<mapsto> 0xFFFFFFFF], th_last = 0\<rparr>)
      (selp_impl \<lparr>c_inst = sample_inst S32_TYPE, c_dst = reg_operand ''d'',
        c_src = [reg_operand ''x'', reg_operand ''y'', reg_operand ''p'']\<rparr>) = Inr th' \<and> th_regs th' ''d'' = Some 0xFFFFFFFF"
proof -
  let ?th = "\<lparr>th_regs = [''x'' \<mapsto> 5, ''y'' \<mapsto> 0xFFFFFFFF], th_last = 0\<rparr> :: ptx_thread"
  let ?C1 = "\<lparr>c_inst = sample_inst S32_TYPE, c_dst = reg_operand ''p'', c_src = [reg_operand ''x'', reg_operand ''y'']\<rparr>"
  let ?C2 = "\<lparr>c_inst = sample_inst S32_TYPE, c_dst = reg_operand ''d'', c_src = [reg_operand ''x'', reg_operand ''y'', reg_operand ''p'']\<rparr>"
  have v: "(if sr 32 5 < sr 32 0xFFFFFFFF then 5 else 0xFFFFFFFF) = (0xFFFFFFFF :: ptx_reg)" by (simp add: sr_def)
  show ?thesis
    using setp_selp_min[of ?C1 "''x''" "''y''" "''p''" ?C2 "''d''" ?th 5 "0xFFFFFFFF"] unfolding v
    by (simp add: sample_inst_def scalar_type_def)
qed

section \<open>Packing and unpacking\<close>

lemma bit_pack:
  assumes "bits \<in> {8, 16, 32}"
  shows "\<exists>r. pack bits vs = Inr r \<and> (\<forall>i<64. bit r i \<longleftrightarrow> i div bits < length vs \<and> bit (vs ! (i div bits)) (i mod bits))"
proof -
  define f where "f = (\<lambda>(i, v) r. r OR push_bit (bits * i) (of_int (ur bits v)) :: ptx_reg)"
  have b: "0 < bits" "bits \<le> 64" using assms by auto
  have "\<forall>i<64. bit (fold f (zip [0..<length vs] vs) 0) i \<longleftrightarrow> i div bits < length vs \<and> bit (vs ! (i div bits)) (i mod bits)"
  proof (induction vs rule: rev_induct)
    case (snoc v vs)
    have e: "fold f (zip [0..<length (vs @ [v])] (vs @ [v])) 0
        = fold f (zip [0..<length vs] vs) 0 OR push_bit (bits * length vs) (of_int (ur bits v))"
      by (simp add: f_def)
    have one: "bit (push_bit (bits * length vs) (of_int (ur bits v)) :: ptx_reg) i \<longleftrightarrow> i div bits = length vs \<and> bit v (i mod bits)"
      if "i < 64" for i
    proof (cases "i div bits = length vs")
      case True
      then have "i = bits * length vs + i mod bits" using mult_div_mod_eq[of bits i] by simp
      moreover have "i mod bits < bits" using b by simp
      ultimately obtain k where "i = bits * length vs + k" "k < bits" "i mod bits = k" by blast
      then show ?thesis using that True by (simp add: bit_simps ur_def bit_uint_iff)
    next
      case False
      have "i div bits = length vs" if "bits * length vs \<le> i" "i < bits * length vs + bits"
        by (rule div_nat_eqI) (use that in \<open>simp_all add: mult.commute\<close>)
      then have "i < bits * length vs \<or> bits * length vs + bits \<le> i" using False by linarith
      then show ?thesis using that False by (auto simp: bit_simps ur_def)
    qed
    show ?case unfolding e using snoc.IH one by (auto simp: bit_or_iff nth_append)
  qed simp
  then show ?thesis using assms by (auto simp: pack_def f_def)
qed

lemma unpack_nth:
  assumes "bits \<in> {8, 16, 32}" and "n \<le> 4"
  shows "\<exists>vs. unpack bits n r = Inr vs \<and> length vs = 4 \<and> (\<forall>i<n. \<forall>j<bits. bit (vs ! i) j \<longleftrightarrow> bit r (bits * i + j))"
proof -
  have "bit (put bits 0 (uint (drop_bit (bits * i) r)) :: ptx_reg) j \<longleftrightarrow> bit r (bits * i + j)" if "j < bits" for i j
    using that assms(1) by (auto simp: put_def bit_simps bit_uint_iff add.commute dest: bit_imp_le_length)
  then show ?thesis using assms by (auto simp: unpack_def)
qed

text \<open>The unpacked elements pack to the bits they came from.\<close>

lemma pack_unpack:
  assumes "bits \<in> {8, 16, 32}" and "n \<le> 4" and "bits * n \<le> 64"
  shows "\<exists>vs. unpack bits n r = Inr vs \<and> length vs = 4 \<and> pack bits (take n vs) = Inr (take_bit (bits * n) r)"
proof -
  obtain vs where u: "unpack bits n r = Inr vs" "length vs = 4" "\<And>i j. i < n \<Longrightarrow> j < bits \<Longrightarrow> bit (vs ! i) j \<longleftrightarrow> bit r (bits * i + j)"
    using unpack_nth[OF assms(1,2), of r] by blast
  obtain d where d: "pack bits (take n vs) = Inr d"
      "\<And>i. i < 64 \<Longrightarrow> bit d i \<longleftrightarrow> i div bits < length (take n vs) \<and> bit (take n vs ! (i div bits)) (i mod bits)"
    using bit_pack[OF assms(1), of "take n vs"] by blast
  have "d = take_bit (bits * n) r"
  proof (rule bit_eqI)
    fix i assume "possible_bit TYPE(64 word) i"
    then have i: "i < 64" by simp
    have b: "0 < bits" using assms(1) by auto
    then have "i div bits < n \<longleftrightarrow> i < bits * n" by (simp add: less_mult_imp_div_less div_less_iff_less_mult mult.commute)
    moreover have "bit (vs ! (i div bits)) (i mod bits) \<longleftrightarrow> bit r i" if "i div bits < n"
      using u(3)[OF that, of "i mod bits"] b by simp
    ultimately show "bit d i \<longleftrightarrow> bit (take_bit (bits * n) r) i" using d(2)[OF i] u(2) assms(2) by (auto simp: bit_take_bit_iff)
  qed
  then show ?thesis using u d by blast
qed

definition vector_operand :: "string list \<Rightarrow> operand_info" where
  "vector_operand ss = \<lparr>op_kind = Vec_Op ss, op_double = 0, op_lohi = 0, op_neg = False, op_offset = 0\<rparr>"

lemma regs_fold_other:
  "s \<notin> set ss \<Longrightarrow> ''_'' \<notin> set ss \<Longrightarrow> th_regs (fold (\<lambda>(s, v) th. set_reg th s v) (zip ss vs) th) s = th_regs th s"
  by (induction ss vs arbitrary: th rule: list_induct2') auto

lemma regs_fold_set:
  "length vs = length ss \<Longrightarrow> distinct ss \<Longrightarrow> ''_'' \<notin> set ss \<Longrightarrow> i < length ss \<Longrightarrow>
   th_regs (fold (\<lambda>(s, v) th. set_reg th s v) (zip ss vs) th) (ss ! i) = Some (vs ! i)"
proof (induction ss vs arbitrary: th i rule: list_induct2')
  case (4 a ss b vs)
  then show ?case using regs_fold_other[of a ss vs "set_reg th a b"] by (cases i) auto
qed simp_all

lemma gather:
  "\<forall>i<length ss. th_regs th (ss ! i) = Some (vs ! i) \<Longrightarrow> length vs = length ss \<Longrightarrow> ''_'' \<notin> set ss \<Longrightarrow>
   foldr (\<lambda>s r. bindE r (\<lambda>vs. if s = ''_'' then Inr (0 # vs) else case th_regs th s of None \<Rightarrow> Inl Assert_Failed | Some v \<Rightarrow> Inr (v # vs)))
     ss (Inr []) = Inr vs"
proof (induction ss arbitrary: vs)
  case (Cons s ss)
  then obtain w ws where v: "vs = w # ws" by (cases vs) auto
  have "\<forall>i<length ss. th_regs th (ss ! i) = Some (ws ! i)" using Cons.prems(1) by (auto simp: v)
  then show ?case using Cons v by force
qed simp

text \<open>Claim C31. Taking a register apart into two or four named elements and putting it together again.  For \<open>mov.b16\<close>,
  \<open>mov.b32\<close> and \<open>mov.b64\<close> the round trip succeeds whenever an element has 8, 16 or 32 bits, and yields the low bits of the
  register, as many as the type has.\<close>

theorem mov_round_trip:
  assumes type: "mov_bits (c_type C1) = Inr nb" "c_type C2 = c_type C1"
    and vec: "nb div length ss \<in> {8, 16, 32}" "length ss dvd nb" "0 < length ss" "length ss \<le> 4" "distinct ss" "''_'' \<notin> set ss"
    and ops: "c_src C1 = [reg_operand x]" "c_dst C1 = vector_operand ss" "c_src C2 = [vector_operand ss]" "c_dst C2 = reg_operand y"
    and regs: "th_regs th x = Some r" "y \<noteq> ''_''"
  shows "\<exists>th'. bindE (mov_impl C1 th) (mov_impl C2) = Inr th' \<and> th_regs th' y = Some (take_bit nb r)"
proof -
  define w where "w = nb div length ss"
  have nb: "nb = w * length ss" "nb \<le> 64" using vec(2) type(1) by (auto simp: w_def mov_bits_def split: if_splits)
  have wb: "w \<in> {8, 16, 32}" using vec(1) by (simp only: w_def)
  have wn: "w * length ss \<le> 64" using nb by simp
  have t: "c_type C1 \<notin> {BB64_TYPE, BB128_TYPE, FF64_TYPE}" "scalar_type (c_type C1)"
    using type(1) by (auto simp: mov_bits_def scalar_type_def split: if_splits)
  have v: "is_vector (vector_operand ss)" "vec_names (vector_operand ss) = ss" "\<not> is_vector (reg_operand x)" "\<not> is_vector (reg_operand y)"
    using vec(4) by (simp_all add: is_vector_def vec_names_def vector_operand_def reg_operand_def)
  have e: "element_bits nb (length ss) = Inr w" using vec(3) by (simp add: element_bits_def w_def)
  obtain vs where u: "unpack w (length ss) (put nb 0 (ur nb r)) = Inr vs" "length vs = 4"
      "pack w (take (length ss) vs) = Inr (take_bit nb (put nb 0 (ur nb r)))"
    using pack_unpack[OF wb vec(4) wn, of "put nb 0 (ur nb r)", folded nb(1)] by blast
  have low: "take_bit nb (put nb 0 (ur nb r)) = take_bit nb r"
    by (rule bit_eqI) (auto simp: put_def ur_def bit_simps bit_uint_iff)
  define th1 where "th1 = (fold (\<lambda>(s, v) th. set_reg th s v) (zip ss vs) th)\<lparr>th_last := vs ! 0\<rparr>"
  have 1: "mov_impl C1 th = Inr th1"
    using type ops t v e u regs
    by (simp add: mov_impl_def Let_def operand_def read1_def read_op_def set_vector_operand_values_def th1_def)
  define ws where "ws = take (length ss) vs"
  have z: "zip ss vs = zip ss ws" "length ws = length ss"
    using take_zip[of "length ss" ss vs] u(2) vec(4) by (simp_all add: ws_def)
  have g: "\<forall>i<length ss. th_regs th1 (ss ! i) = Some (ws ! i)"
    using regs_fold_set(1)[OF z(2) vec(5,6)] by (simp add: th1_def z(1))
  have "get_vector_operand_values th1 (vector_operand ss) = Inr ws"
    using gather[OF g z(2) vec(6)] v by (simp add: get_vector_operand_values_def)
  then have "mov_impl C2 th1 = Inr (set_reg th1 y (take_bit nb r))"
    using type ops t v e u(3) z low by (simp add: mov_impl_def Let_def operand_def ws_def)
  then show ?thesis using 1 regs(2) by simp
qed

theorem mov_round_trip_witness:
  "\<exists>th'. bindE
      (mov_impl \<lparr>c_inst = sample_inst B32_TYPE, c_dst = vector_operand [''a'', ''b'', ''c'', ''d''], c_src = [reg_operand ''x'']\<rparr>
        \<lparr>th_regs = [''x'' \<mapsto> 0x9900112233], th_last = 0\<rparr>)
      (mov_impl \<lparr>c_inst = sample_inst B32_TYPE, c_dst = reg_operand ''y'', c_src = [vector_operand [''a'', ''b'', ''c'', ''d'']]\<rparr>) = Inr th' \<and>
    th_regs th' ''y'' = Some 0x00112233"
proof -
  let ?th = "\<lparr>th_regs = [''x'' \<mapsto> 0x9900112233], th_last = 0\<rparr> :: ptx_thread"
  let ?C1 = "\<lparr>c_inst = sample_inst B32_TYPE, c_dst = vector_operand [''a'', ''b'', ''c'', ''d''], c_src = [reg_operand ''x'']\<rparr>"
  let ?C2 = "\<lparr>c_inst = sample_inst B32_TYPE, c_dst = reg_operand ''y'', c_src = [vector_operand [''a'', ''b'', ''c'', ''d'']]\<rparr>"
  have v: "take_bit 32 (0x9900112233 :: ptx_reg) = 0x00112233" by code_simp
  note c = mov_round_trip[of ?C1 32 ?C2 "[''a'', ''b'', ''c'', ''d'']" "''x''" "''y''" ?th "0x9900112233", unfolded v]
  show ?thesis by (rule c) (simp_all add: sample_inst_def mov_bits_def, presburger?)
qed

section \<open>The upper half of a register\<close>

text \<open>\<open>add.u32\<close> writes its 33-bit sum; \<open>setp.eq.b32\<close> goes on to compare 64 bits and finds the zero in the low half unequal to
  the zero register, while \<open>setp.eq.u32\<close> compares 32 bits only.\<close>

lemma stale_upper_half:
  "add_op (sample_inst U32_TYPE) 0xFFFFFFFF 1 = Inr (0x100000000, False, True)"
  "CmpOp B32_TYPE 0x100000000 0 EQ_OPTION = Inr False"
  "CmpOp U32_TYPE 0x100000000 0 EQ_OPTION = Inr True"
  "rem_op 0x100000000 3 = Inr 1"
  by (simp_all add: add_op_def add_unsigned_def sample_inst_def rounding_ok_def ur_def CmpOp_def eq_ne_def cmp_unsigned_def rem_op_def Let_def)

end
