(* ===== verification/Ptx_Vote.thy ===== *)
theory Ptx_Vote
  imports Ptx_Run
begin

unbundle bit_operations_syntax

text \<open>
  The warp vote (\<open>vote_impl\<close>, cuda-sim/instructions.cc).  The function is called for one thread after the other and gathers in
  its static variables; the last active thread of the warp writes the result into the destination of every thread gathered.
\<close>

section \<open>State\<close>

datatype vote_mode = Vote_Any | Vote_All | Vote_Uni | Vote_Ballot | Vote_Other

record vote_statics =
  first_in_warp :: bool
  and_all :: bool
  or_all :: bool
  ballot_result :: u32
  threads_in_warp :: "nat list"
  last_tid :: nat

text \<open>Threads are named by their hardware identifier.\<close>

type_synonym warp_threads = "nat \<Rightarrow> ptx_thread"

record vote_code = ptx_code +
  v_mode :: vote_mode
  v_active :: "nat \<Rightarrow> bool"
  v_warp_size :: nat
  v_neg_pred :: bool

text \<open>The highest active lane below \<open>n\<close>.\<close>

fun last_active :: "(nat \<Rightarrow> bool) \<Rightarrow> nat \<Rightarrow> nat option" where
  "last_active act 0 = None"
| "last_active act (Suc n) = (if act n then Some n else last_active act n)"

definition vote_start :: "vote_code \<Rightarrow> nat \<Rightarrow> vote_statics \<Rightarrow> vote_statics cxx" where
  "vote_start C tid S = (if first_in_warp S then
     (case last_active (v_active C) 32 of None \<Rightarrow> Inl Assert_Failed
      | Some l \<Rightarrow> Inr \<lparr>first_in_warp = False, and_all = True, or_all = False, ballot_result = 0, threads_in_warp = [],
                     last_tid = (tid - tid mod v_warp_size C) + l\<rparr>) else Inr S)"

text \<open>\<open>1 << lane_id\<close> on an \<open>int\<close>.\<close>

definition vote_gather :: "vote_code \<Rightarrow> nat \<Rightarrow> bool \<Rightarrow> vote_statics \<Rightarrow> vote_statics cxx" where
  "vote_gather C tid b S = (if b \<and> 32 \<le> tid mod v_warp_size C then Inl Undefined_Behaviour else Inr
     (S\<lparr>threads_in_warp := threads_in_warp S @ [tid], and_all := (and_all S \<and> b), or_all := (or_all S \<or> b),
        ballot_result := (if b then ballot_result S OR push_bit (tid mod v_warp_size C) 1 else ballot_result S)\<rparr>))"

definition vote_result :: "vote_code \<Rightarrow> vote_statics \<Rightarrow> (ptx_reg \<times> ptx_type) cxx" where
  "vote_result C S = (case v_mode C of
     Vote_Ballot \<Rightarrow> Inr (ucast (ballot_result S), i_type (c_inst C))
   | Vote_Any \<Rightarrow> Inr (put 4 0 (if or_all S then 0 else 1), PRED_TYPE)
   | Vote_All \<Rightarrow> Inr (put 4 0 (if and_all S then 0 else 1), PRED_TYPE)
   | Vote_Uni \<Rightarrow> Inr (put 4 0 (if or_all S \<noteq> and_all S then 0 else 1), PRED_TYPE)
   | Vote_Other \<Rightarrow> Inl Abort_Called)"

text \<open>What a thread votes: its predicate, whose lowest bit is set for \<open>false\<close>, inverted for a negated operand.\<close>

definition votes :: "vote_code \<Rightarrow> ptx_reg \<Rightarrow> bool" where
  "votes C p = (v_neg_pred C \<noteq> (ur 4 p AND 1 = 0))"

definition vote_impl :: "vote_code \<Rightarrow> nat \<Rightarrow> vote_statics \<times> warp_threads \<Rightarrow> (vote_statics \<times> warp_threads) cxx" where
  "vote_impl C tid = (\<lambda>(S, W). if v_warp_size C = 0 then Inl Undefined_Behaviour else
     bindE (vote_start C tid S) (\<lambda>S.
     bindE (operand (ptx_code.truncate C) 1) (\<lambda>src.
     bindE (get_operand_value (W tid) src PRED_TYPE True) (\<lambda>(th, p).
     bindE (vote_gather C tid (votes C p) S) (\<lambda>S.
     if tid = last_tid S then
       bindE (vote_result C S) (\<lambda>(d, t).
       bindE (foldE (\<lambda>W i. bindE (set_operand_value (W i) (c_dst C) d t) (\<lambda>th. Inr (W(i := th)))) (W(tid := th)) (threads_in_warp S)) (\<lambda>W.
         Inr (S\<lparr>first_in_warp := True\<rparr>, W)))
     else Inr (S, W(tid := th)))))))"

definition vote_warp :: "vote_code \<Rightarrow> nat list \<Rightarrow> vote_statics \<times> warp_threads \<Rightarrow> (vote_statics \<times> warp_threads) cxx" where
  "vote_warp C tids SW = foldE (\<lambda>SW tid. vote_impl C tid SW) SW tids"

section \<open>The result of a warp\<close>

definition gathered :: "vote_code \<Rightarrow> (nat \<Rightarrow> ptx_reg) \<Rightarrow> nat \<Rightarrow> nat list \<Rightarrow> vote_statics \<Rightarrow> bool" where
  "gathered C v lt ts S \<longleftrightarrow> \<not> first_in_warp S \<and> threads_in_warp S = ts \<and> last_tid S = lt \<and>
     (and_all S \<longleftrightarrow> (\<forall>t\<in>set ts. votes C (v t))) \<and> (or_all S \<longleftrightarrow> (\<exists>t\<in>set ts. votes C (v t))) \<and>
     (\<forall>i<32. bit (ballot_result S) i \<longleftrightarrow> (\<exists>t\<in>set ts. votes C (v t) \<and> t mod 32 = i))"

lemma vote_gather_step:
  assumes "gathered C v lt ts S" and "v_warp_size C = 32"
  shows "\<exists>S'. vote_gather C tid (votes C (v tid)) S = Inr S' \<and> gathered C v lt (ts @ [tid]) S'"
proof -
  have b: "bit (ballot_result S OR push_bit (tid mod 32) 1) i \<longleftrightarrow> bit (ballot_result S) i \<or> tid mod 32 = i" if "i < 32" for i
    using that by (auto simp: bit_simps)
  show ?thesis
    using assms b by (auto simp: vote_gather_def gathered_def)
qed

lemma last_active_Some:
  "last_active act n = Some l \<Longrightarrow> act l \<and> l < n \<and> (\<forall>i<n. act i \<longrightarrow> i \<le> l)"
  by (induction n) (auto split: if_splits simp: less_Suc_eq)

lemma last_active_None: "last_active act n = None \<Longrightarrow> i < n \<Longrightarrow> \<not> act i"
  by (induction n) (auto split: if_splits simp: less_Suc_eq)

text \<open>What is expected of a result \<open>r\<close>: the votes by lane, some vote, only votes.  For \<open>Vote_Uni\<close> it is what the code
  computes, that votes and non-votes both occur.\<close>

definition vote_spec :: "vote_code \<Rightarrow> (nat \<Rightarrow> ptx_reg) \<Rightarrow> nat list \<Rightarrow> ptx_reg \<Rightarrow> bool" where
  "vote_spec C v ts r \<longleftrightarrow> (case v_mode C of
     Vote_Ballot \<Rightarrow> (\<forall>i. bit r i \<longleftrightarrow> i < 32 \<and> (\<exists>t\<in>set ts. votes C (v t) \<and> t mod 32 = i))
   | Vote_Any \<Rightarrow> (ur 4 r AND 1 = 0) = (\<exists>t\<in>set ts. votes C (v t))
   | Vote_All \<Rightarrow> (ur 4 r AND 1 = 0) = (\<forall>t\<in>set ts. votes C (v t))
   | Vote_Uni \<Rightarrow> (ur 4 r AND 1 = 0) = ((\<exists>t\<in>set ts. votes C (v t)) \<and> (\<exists>t\<in>set ts. \<not> votes C (v t)))
   | Vote_Other \<Rightarrow> False)"

lemma vote_result_spec:
  assumes g: "gathered C v lt ts S" and "ts \<noteq> []" and "v_mode C \<noteq> Vote_Other" and "scalar_type (i_type (c_inst C))"
  shows "\<exists>r t. vote_result C S = Inr (r, t) \<and> scalar_type t \<and> vote_spec C v ts r"
proof -
  have s: "scalar_type PRED_TYPE" by (simp add: scalar_type_def)
  have p: "ur 4 (put 4 0 (if b then 0 else 1)) AND 1 = 0 \<longleftrightarrow> b" for b by (simp add: ur_put)
  have u: "or_all S \<noteq> and_all S \<longleftrightarrow> (\<exists>t\<in>set ts. votes C (v t)) \<and> (\<exists>t\<in>set ts. \<not> votes C (v t))"
    using g assms(2) by (cases ts) (auto simp: gathered_def)
  show ?thesis
  proof (cases "v_mode C")
    case Vote_Ballot
    have "bit (ucast (ballot_result S) :: ptx_reg) i \<longleftrightarrow> i < 32 \<and> (\<exists>t\<in>set ts. votes C (v t) \<and> t mod 32 = i)" for i
    proof (cases "i < 32")
      case True
      then show ?thesis using g by (simp add: gathered_def bit_simps)
    next
      case False
      then have "\<not> bit (ballot_result S) i" using bit_imp_le_length[of "ballot_result S" i] by auto
      then show ?thesis using False by (simp add: bit_simps)
    qed
    then show ?thesis using Vote_Ballot assms(4) by (simp add: vote_result_def vote_spec_def)
  qed (use g assms(3) s p u in \<open>simp_all add: vote_result_def vote_spec_def gathered_def\<close>)
qed

lemma write_all:
  assumes "scalar_type t" and "d \<noteq> ''_''"
  shows "\<exists>W'. foldE (\<lambda>W i. bindE (set_operand_value (W i) (reg_operand d) r t) (\<lambda>th. Inr (W(i := th)))) W ts = Inr W' \<and>
    (\<forall>i\<in>set ts. th_regs (W' i) d = Some r)"
proof -
  have "\<exists>W'. foldE (\<lambda>W i. bindE (set_operand_value (W i) (reg_operand d) r t) (\<lambda>th. Inr (W(i := th)))) W ts = Inr W' \<and>
    (\<forall>i. i \<in> set ts \<or> th_regs (W i) d = Some r \<longrightarrow> th_regs (W' i) d = Some r)" for W
  proof (induction ts arbitrary: W)
    case (Cons j ts)
    obtain W' where W': "foldE (\<lambda>W i. bindE (set_operand_value (W i) (reg_operand d) r t) (\<lambda>th. Inr (W(i := th)))) (W(j := set_reg (W j) d r)) ts = Inr W'"
        "\<And>i. i \<in> set ts \<or> th_regs ((W(j := set_reg (W j) d r)) i) d = Some r \<Longrightarrow> th_regs (W' i) d = Some r"
      using Cons.IH by blast
    have "foldE (\<lambda>W i. bindE (set_operand_value (W i) (reg_operand d) r t) (\<lambda>th. Inr (W(i := th)))) W (j # ts) = Inr W'"
      unfolding W'(1)[symmetric] by (simp only: foldE.simps write_reg[OF assms(1)] bindE_simps)
    moreover have "th_regs (W' i) d = Some r" if "i \<in> set (j # ts) \<or> th_regs (W i) d = Some r" for i
      using W'(2)[of i] that assms(2) by auto
    ultimately show ?case by blast
  qed simp
  then show ?thesis by blast
qed

definition vote_ready :: "vote_code \<Rightarrow> string \<Rightarrow> string \<Rightarrow> bool" where
  "vote_ready C s d \<longleftrightarrow> v_warp_size C = 32 \<and> v_mode C \<noteq> Vote_Other \<and> scalar_type (i_type (c_inst C)) \<and>
     c_src C = [reg_operand s] \<and> c_dst C = reg_operand d \<and> d \<noteq> ''_''"

lemma vote_read:
  assumes "vote_ready C s d" and "th_regs (W tid) s = Some p"
  shows "bindE (operand (ptx_code.truncate C) 1) (\<lambda>src. bindE (get_operand_value (W tid) src PRED_TYPE True) k) = k (W tid, p)"
  using assms by (simp add: vote_ready_def operand_def ptx_code.truncate_def scalar_type_def)

lemma vote_impl_step:
  assumes C: "vote_ready C s d" and p: "th_regs (W tid) s = Some (v tid)" and g: "gathered C v lt ts S" and "tid \<noteq> lt"
  shows "\<exists>S'. vote_impl C tid (S, W) = Inr (S', W) \<and> gathered C v lt (ts @ [tid]) S'"
proof -
  obtain S' where S': "vote_gather C tid (votes C (v tid)) S = Inr S'" "gathered C v lt (ts @ [tid]) S'"
    using vote_gather_step[OF g] C by (auto simp: vote_ready_def)
  have "vote_start C tid S = Inr S" using g by (simp add: vote_start_def gathered_def)
  then have "vote_impl C tid (S, W) = Inr (S', W)"
    using C S' assms(4) by (simp add: vote_impl_def vote_read[where W = W, OF C p, unfolded One_nat_def] vote_ready_def gathered_def)
  then show ?thesis using S'(2) by blast
qed

lemma vote_impl_last:
  assumes C: "vote_ready C s d" and p: "th_regs (W lt) s = Some (v lt)" and g: "gathered C v lt ts S"
  shows "\<exists>S' W' r. vote_impl C lt (S, W) = Inr (S', W') \<and> first_in_warp S' \<and> vote_spec C v (ts @ [lt]) r \<and>
    (\<forall>t\<in>set (ts @ [lt]). th_regs (W' t) d = Some r)"
proof -
  obtain S' where S': "vote_gather C lt (votes C (v lt)) S = Inr S'" "gathered C v lt (ts @ [lt]) S'"
    using vote_gather_step[OF g] C by (auto simp: vote_ready_def)
  obtain r t where r: "vote_result C S' = Inr (r, t)" "scalar_type t" "vote_spec C v (ts @ [lt]) r"
    using vote_result_spec[OF S'(2)] C by (auto simp: vote_ready_def)
  obtain W' where W': "foldE (\<lambda>W i. bindE (set_operand_value (W i) (reg_operand d) r t) (\<lambda>th. Inr (W(i := th)))) W (ts @ [lt]) = Inr W'"
      "\<forall>i\<in>set (ts @ [lt]). th_regs (W' i) d = Some r"
    using write_all[OF r(2), of d r W "ts @ [lt]"] C by (auto simp: vote_ready_def)
  have "vote_start C lt S = Inr S" using g by (simp add: vote_start_def gathered_def)
  then have "vote_impl C lt (S, W) = Inr (S'\<lparr>first_in_warp := True\<rparr>, W')"
    using C S' r(1) W'(1) by (simp add: vote_impl_def vote_read[where W = W, OF C p, unfolded One_nat_def] vote_ready_def gathered_def)
  then show ?thesis using r(3) W'(2) by fastforce
qed

lemma vote_warp_prefix:
  assumes C: "vote_ready C s d" and "\<forall>t\<in>set us. th_regs (W t) s = Some (v t)" and "gathered C v lt ts S" and "lt \<notin> set us"
  shows "\<exists>S'. vote_warp C us (S, W) = Inr (S', W) \<and> gathered C v lt (ts @ us) S'"
  using assms(2-4)
proof (induction us arbitrary: ts S)
  case (Cons u us)
  obtain S1 where S1: "vote_impl C u (S, W) = Inr (S1, W)" "gathered C v lt (ts @ [u]) S1"
    using vote_impl_step[OF C, of W u v lt ts S] Cons.prems by auto
  then show ?case using Cons.IH[OF _ S1(2)] Cons.prems by (simp add: vote_warp_def)
qed (simp add: vote_warp_def)

text \<open>Claim C30. A vote of a whole warp.  The active threads of warp \<open>w\<close> call \<open>vote_impl\<close> one after the other, lowest lane first;
  afterwards every one of them holds the same result, the ballot of their predicates, whether one of them votes, or whether all
  do, and the static variables are ready for the next vote.  \<open>vote.uni\<close> answers whether the predicates differ.\<close>

theorem vote_warp_correct:
  assumes C: "vote_ready C s d" and tids: "tids = map (\<lambda>l. 32 * w + l) (filter (v_active C) [0..<32])" and "tids \<noteq> []"
    and regs: "\<forall>t\<in>set tids. th_regs (W t) s = Some (v t)" and "first_in_warp S"
  shows "\<exists>S' W' r. vote_warp C tids (S, W) = Inr (S', W') \<and> first_in_warp S' \<and> vote_spec C v tids r \<and>
    (\<forall>t\<in>set tids. th_regs (W' t) d = Some r)"
proof -
  obtain l where l: "last_active (v_active C) 32 = Some l"
    using last_active_None[of "v_active C" 32] assms(3) tids by (cases "last_active (v_active C) 32") (auto simp: filter_empty_conv)
  have la: "v_active C l" "l < 32" "\<And>i. i < 32 \<Longrightarrow> v_active C i \<Longrightarrow> i \<le> l" using last_active_Some[OF l] by auto
  define us where "us = map (\<lambda>l. 32 * w + l) (filter (v_active C) [0..<l])"
  have "filter (v_active C) [Suc l..<32] = []" using la(3) by (fastforce simp: filter_empty_conv)
  moreover have "[0..<32] = [0..<l] @ l # [Suc l..<32]"
    using la(2) upt_add_eq_append[of 0 l "32 - l"] upt_conv_Cons[of l 32] by simp
  ultimately have t: "tids = us @ [32 * w + l]" using la(1) by (simp add: tids us_def)
  define S0 where "S0 = \<lparr>first_in_warp = False, and_all = True, or_all = False, ballot_result = 0, threads_in_warp = [],
    last_tid = 32 * w + l\<rparr>"
  have g0: "gathered C v (32 * w + l) [] S0" by (simp add: gathered_def S0_def)
  obtain u vs where u: "tids = u # vs" using assms(3) by (cases tids) auto
  have "u \<in> set tids" using u by simp
  then obtain i where "u = 32 * w + i" "i < 32" unfolding tids by auto
  then have "vote_start C u S = Inr S0" "vote_start C u S0 = Inr S0"
    using assms(5) C l by (simp_all add: vote_start_def S0_def vote_ready_def)
  then have "vote_impl C u (S, W) = vote_impl C u (S0, W)" by (simp add: vote_impl_def)
  then have start: "vote_warp C tids (S, W) = vote_warp C tids (S0, W)" by (simp add: vote_warp_def u)
  have ru: "\<forall>t\<in>set us. th_regs (W t) s = Some (v t)" using regs t by simp
  have nu: "32 * w + l \<notin> set us" by (auto simp: us_def)
  obtain S1 where S1: "vote_warp C us (S0, W) = Inr (S1, W)" "gathered C v (32 * w + l) us S1"
    using vote_warp_prefix[OF C ru g0 nu] by auto
  obtain S' W' r where last: "vote_impl C (32 * w + l) (S1, W) = Inr (S', W')" "first_in_warp S'" "vote_spec C v tids r"
      "\<forall>t\<in>set tids. th_regs (W' t) d = Some r"
    using vote_impl_last[OF C _ S1(2), of W] regs t by auto
  have "vote_warp C tids (S0, W) = Inr (S', W')"
    using S1(1) last(1) by (simp add: vote_warp_def t foldE_append)
  then show ?thesis using start last(2-4) by auto
qed

definition vote_all_sample :: vote_code where
  "vote_all_sample = \<lparr>c_inst = sample_inst PRED_TYPE, c_dst = reg_operand ''q'', c_src = [reg_operand ''p''],
     v_mode = Vote_All, v_active = (\<lambda>l. l = 3 \<or> l = 7), v_warp_size = 32, v_neg_pred = False\<rparr>"

text \<open>Lanes 3 and 7 of warp 2; lane 7 has the predicate \<open>false\<close>.\<close>

theorem vote_warp_correct_witness:
  "\<exists>S' W' r. vote_warp vote_all_sample [67, 71] (\<lparr>first_in_warp = True, and_all = False, or_all = False, ballot_result = 0,
       threads_in_warp = [], last_tid = 0\<rparr>, \<lambda>t. \<lparr>th_regs = [''p'' \<mapsto> (if t = 71 then 1 else 0)], th_last = 0\<rparr>) = Inr (S', W') \<and>
     ur 4 r AND 1 \<noteq> 0 \<and> th_regs (W' 67) ''q'' = Some r \<and> th_regs (W' 71) ''q'' = Some r"
proof -
  let ?S = "\<lparr>first_in_warp = True, and_all = False, or_all = False, ballot_result = 0, threads_in_warp = [], last_tid = 0\<rparr> :: vote_statics"
  let ?W = "(\<lambda>t. \<lparr>th_regs = [''p'' \<mapsto> (if t = 71 then 1 else 0)], th_last = 0\<rparr>) :: warp_threads"
  have t: "[67, 71] = map (\<lambda>l. 32 * 2 + l) (filter (v_active vote_all_sample) [0..<32])"
    by (simp add: vote_all_sample_def upt_rec numeral_eq_Suc)
  have r: "vote_ready vote_all_sample ''p'' ''q''"
    by (simp add: vote_ready_def vote_all_sample_def sample_inst_def scalar_type_def)
  obtain S' W' r where x: "vote_warp vote_all_sample [67, 71] (?S, ?W) = Inr (S', W')"
      "vote_spec vote_all_sample (\<lambda>t. if t = 71 then 1 else 0) [67, 71] r" "\<forall>t\<in>set [67, 71]. th_regs (W' t) ''q'' = Some r"
    using vote_warp_correct[OF r t, of ?W "\<lambda>t. if t = 71 then 1 else 0" ?S] by auto
  have "\<not> votes vote_all_sample 1" by (simp add: votes_def vote_all_sample_def ur_def)
  then have "ur 4 r AND 1 \<noteq> 0" using x(2) by (simp add: vote_spec_def vote_all_sample_def)
  then show ?thesis using x(1,3) by auto
qed

end
