(* ===== verification/Coal_Buffer.thy ===== *)
theory Coal_Buffer
  imports Cxx_Prelude
begin

text \<open>
  The buffers of fetches between the caches and the network: hpcl_req_coal_buffer.cc (requests, by memory sub-partition),
  hpcl_comp_buffer.cc (replies, by cluster) and hpcl_rec_comp_buffer.cc (replies waiting to be merged), and the request
  coalescing of \<open>simt_core_cluster::core_cycle\<close> (shader.cc, compiled with \<open>REQ_COAL_MODULE\<close>).  A pointer to a \<open>mem_fetch\<close> is
  a number; what the buffers read of a fetch does not change while it waits.
\<close>

section \<open>Fetches\<close>

record fetch_info =
  fi_part :: nat
  fi_tpc :: nat
  fi_write :: bool
  fi_texture :: bool
  fi_atomic :: bool
  fi_reply :: bool
  fi_ctrl :: nat
  fi_size :: nat
  fi_data :: nat
  fi_res :: nat
  fi_word :: "nat \<Rightarrow> u64"

type_synonym fetches = "nat \<Rightarrow> fetch_info"

section \<open>Vectors of pointers\<close>

text \<open>The erase of \<open>pop_mem_fetch\<close>: the first occurrence, or the first element when there is none.\<close>

definition erase_or_first :: "nat list \<Rightarrow> nat \<Rightarrow> nat list cxx" where
  "erase_or_first xs mf = (if mf \<in> set xs then Inr (remove1 mf xs) else if xs = [] then Inl Undefined_Behaviour else Inr (tl xs))"

definition erase_found :: "nat list \<Rightarrow> nat \<Rightarrow> nat list cxx" where
  "erase_found xs mf = assertE (mf \<in> set xs) (Inr (remove1 mf xs))"

definition at :: "'a list \<Rightarrow> nat \<Rightarrow> 'a cxx" where
  "at xs k = (if k < length xs then Inr (xs ! k) else Inl Out_Of_Range)"

section \<open>The two-level buffers\<close>

record sub_buffer =
  b_buffer :: "nat list"
  b_sub :: "nat list list"
  b_size :: nat

definition sub_buffer_new :: sub_buffer where
  "sub_buffer_new = \<lparr>b_buffer = [], b_sub = [], b_size = 0\<rparr>"

definition buffer_create :: "sub_buffer \<Rightarrow> nat \<Rightarrow> nat \<Rightarrow> sub_buffer" where
  "buffer_create b buffer_size no = b\<lparr>b_size := buffer_size, b_sub := b_sub b @ replicate no []\<rparr>"

definition on_sub :: "(nat list \<Rightarrow> nat list cxx) \<Rightarrow> nat \<Rightarrow> sub_buffer \<Rightarrow> sub_buffer cxx" where
  "on_sub f k b = bindE (at (b_sub b) k) (\<lambda>xs. bindE (f xs) (\<lambda>ys. Inr (b\<lparr>b_sub := (b_sub b)[k := ys]\<rparr>)))"

definition req_push :: "fetches \<Rightarrow> sub_buffer \<Rightarrow> nat \<Rightarrow> sub_buffer cxx" where
  "req_push F b mf = on_sub (\<lambda>xs. Inr (xs @ [mf])) (fi_part (F mf)) (b\<lparr>b_buffer := b_buffer b @ [mf]\<rparr>)"

definition req_pop :: "fetches \<Rightarrow> sub_buffer \<Rightarrow> sub_buffer cxx" where
  "req_pop F b = (case b_buffer b of [] \<Rightarrow> Inl Undefined_Behaviour
     | mf # ms \<Rightarrow> on_sub (\<lambda>xs. erase_or_first xs mf) (fi_part (F mf)) (b\<lparr>b_buffer := ms\<rparr>))"

definition buffer_top :: "sub_buffer \<Rightarrow> nat option" where
  "buffer_top b = (case b_buffer b of [] \<Rightarrow> None | mf # _ \<Rightarrow> Some mf)"

definition buffer_space :: "sub_buffer \<Rightarrow> bool" where
  "buffer_space b \<longleftrightarrow> \<not> b_size b \<le> length (b_buffer b)"

definition buffer_pending :: "sub_buffer \<Rightarrow> bool" where
  "buffer_pending b \<longleftrightarrow> 0 < length (b_buffer b)"

definition req_waiting :: "fetches \<Rightarrow> sub_buffer \<Rightarrow> nat \<Rightarrow> nat list cxx" where
  "req_waiting F b mf = at (b_sub b) (fi_part (F mf))"

definition delete_one :: "(nat \<Rightarrow> nat) \<Rightarrow> sub_buffer \<Rightarrow> nat \<Rightarrow> sub_buffer cxx" where
  "delete_one key b mf = bindE (erase_found (b_buffer b) mf) (\<lambda>ms.
     on_sub (\<lambda>xs. erase_found xs mf) (key mf) (b\<lparr>b_buffer := ms\<rparr>))"

definition req_delete_mfs :: "fetches \<Rightarrow> sub_buffer \<Rightarrow> nat list \<Rightarrow> sub_buffer cxx" where
  "req_delete_mfs F b mfs = foldE (delete_one (\<lambda>m. fi_part (F m))) b mfs"

text \<open>The buffer of replies: its sub-buffers are left out when there are none.\<close>

definition comp_push :: "fetches \<Rightarrow> sub_buffer \<Rightarrow> nat \<Rightarrow> sub_buffer cxx" where
  "comp_push F b mf = (let b = b\<lparr>b_buffer := b_buffer b @ [mf]\<rparr>
     in if 0 < length (b_sub b) then on_sub (\<lambda>xs. Inr (xs @ [mf])) (fi_tpc (F mf)) b else Inr b)"

definition comp_pop :: "fetches \<Rightarrow> sub_buffer \<Rightarrow> sub_buffer cxx" where
  "comp_pop F b = (case b_buffer b of [] \<Rightarrow> Inl Undefined_Behaviour
     | mf # ms \<Rightarrow> if 0 < length (b_sub b) then on_sub (\<lambda>xs. erase_or_first xs mf) (fi_tpc (F mf)) (b\<lparr>b_buffer := ms\<rparr>)
         else Inr (b\<lparr>b_buffer := ms\<rparr>))"

definition comp_waiting :: "fetches \<Rightarrow> sub_buffer \<Rightarrow> nat \<Rightarrow> nat list cxx" where
  "comp_waiting F b mf = at (b_sub b) (fi_tpc (F mf))"

definition comp_delete_mfs :: "fetches \<Rightarrow> sub_buffer \<Rightarrow> nat list \<Rightarrow> sub_buffer cxx" where
  "comp_delete_mfs F b mfs = foldE (delete_one (\<lambda>m. fi_tpc (F m))) b mfs"

definition comp_del_mem_fetch :: "fetches \<Rightarrow> sub_buffer \<Rightarrow> nat \<Rightarrow> sub_buffer cxx" where
  "comp_del_mem_fetch F b mf = bindE (erase_found (b_buffer b) mf) (\<lambda>ms. let b = b\<lparr>b_buffer := ms\<rparr>
     in if 0 < length (b_sub b) then on_sub (\<lambda>xs. erase_found xs mf) (fi_tpc (F mf)) b else Inr b)"

definition comp_next :: "sub_buffer \<Rightarrow> nat option" where
  "comp_next b = buffer_top b"

section \<open>The buffer of replies to be merged\<close>

text \<open>The numbers of fetches merged into one, to the same cluster and to others.\<close>

record merge_info =
  mi_same :: "nat \<Rightarrow> nat list"
  mi_diff :: "nat \<Rightarrow> nat list"

record rec_buffer =
  r_buffer :: "nat list"
  r_size :: nat

definition rec_create :: "rec_buffer \<Rightarrow> nat \<Rightarrow> rec_buffer" where
  "rec_create r buffer_size = r\<lparr>r_size := buffer_size, r_buffer := []\<rparr>"

definition rec_push :: "rec_buffer \<Rightarrow> nat \<Rightarrow> rec_buffer" where
  "rec_push r mf = r\<lparr>r_buffer := r_buffer r @ [mf]\<rparr>"

definition rec_pop :: "rec_buffer \<Rightarrow> rec_buffer cxx" where
  "rec_pop r = (case r_buffer r of [] \<Rightarrow> Inl Undefined_Behaviour | _ # ms \<Rightarrow> Inr (r\<lparr>r_buffer := ms\<rparr>))"

definition rec_top :: "rec_buffer \<Rightarrow> nat option" where
  "rec_top r = (case r_buffer r of [] \<Rightarrow> None | mf # _ \<Rightarrow> Some mf)"

definition rec_space :: "merge_info \<Rightarrow> rec_buffer \<Rightarrow> bool" where
  "rec_space G r \<longleftrightarrow> \<not> r_size r \<le> fold (\<lambda>mf n. n + 1 + length (mi_same G mf) + length (mi_diff G mf)) (r_buffer r) 0"

definition rec_del :: "rec_buffer \<Rightarrow> nat \<Rightarrow> rec_buffer cxx" where
  "rec_del r mf = bindE (erase_found (r_buffer r) mf) (\<lambda>ms. Inr (r\<lparr>r_buffer := ms\<rparr>))"

datatype last_status = NOT_FOUND | COMP_RES_MISMATCH | FOUND

text \<open>\<open>get_last_mem_fetch\<close>, from the back; \<open>None\<close> for a parameter of -1.\<close>

fun last_loop :: "fetches \<Rightarrow> nat option \<Rightarrow> nat option \<Rightarrow> last_status \<Rightarrow> nat list \<Rightarrow> last_status \<times> nat option" where
  "last_loop F res sm st [] = (st, None)"
| "last_loop F res sm st (mf # ms) =
     (if 0 < fi_data (F mf) \<and> (sm = None \<or> sm = Some (fi_tpc (F mf))) then
        (if res = None \<or> res = Some (fi_res (F mf)) then (FOUND, Some mf) else last_loop F res sm COMP_RES_MISMATCH ms)
      else last_loop F res sm st ms)"

definition get_last_mem_fetch :: "fetches \<Rightarrow> rec_buffer \<Rightarrow> nat option \<Rightarrow> nat option \<Rightarrow> last_status \<times> nat option" where
  "get_last_mem_fetch F r res sm = last_loop F res sm NOT_FOUND (rev (r_buffer r))"

definition same_sm :: "fetches \<Rightarrow> merge_info \<Rightarrow> rec_buffer \<Rightarrow> nat \<Rightarrow> nat option" where
  "same_sm F G r sm = List.find (\<lambda>mf. 0 < fi_data (F mf) \<and> fi_tpc (F mf) = sm \<and> length (mi_diff G mf) = 0) (rev (r_buffer r))"

definition diff_sm :: "fetches \<Rightarrow> merge_info \<Rightarrow> rec_buffer \<Rightarrow> nat \<Rightarrow> nat list" where
  "diff_sm F G r sm = filter (\<lambda>mf. 0 < fi_data (F mf) \<and> fi_tpc (F mf) \<noteq> sm \<and> length (mi_same G mf) = 0) (rev (r_buffer r))"

definition same_sm_res :: "fetches \<Rightarrow> rec_buffer \<Rightarrow> nat \<Rightarrow> nat \<Rightarrow> nat option" where
  "same_sm_res F r res sm =
     List.find (\<lambda>mf. (0 < fi_data (F mf) \<and> fi_tpc (F mf) = sm) \<and> fi_res (F mf) = res) (rev (r_buffer r))"

text \<open>The distance of two fetches: whether the first words of their local dictionaries, of the width of the first fetch's
  resolution, differ.\<close>

definition compute_dist :: "fetches \<Rightarrow> nat \<Rightarrow> nat \<Rightarrow> nat cxx" where
  "compute_dist F new_mf prev_mf = (let res = fi_res (F new_mf) in
     if res = 2 \<or> res = 4 \<or> res = 8
     then Inr (if take_bit (8 * res) (fi_word (F new_mf) res) = take_bit (8 * res) (fi_word (F prev_mf) res) then 0 else 1)
     else Inl Assert_Failed)"

definition closest_candidate :: "fetches \<Rightarrow> merge_info \<Rightarrow> nat \<Rightarrow> nat \<Rightarrow> nat \<Rightarrow> nat \<Rightarrow> bool" where
  "closest_candidate F G max_pkt res sm mf \<longleftrightarrow> 0 < fi_data (F mf) \<and> fi_tpc (F mf) \<noteq> sm \<and> fi_res (F mf) = res \<and>
     length (mi_same G mf) = 0 \<and> length (mi_diff G mf) + 1 < max_pkt"

definition closest_step :: "fetches \<Rightarrow> merge_info \<Rightarrow> nat \<Rightarrow> nat \<Rightarrow> nat \<Rightarrow> nat \<Rightarrow>
    (nat \<times> nat) option \<Rightarrow> nat \<Rightarrow> (nat \<times> nat) option cxx" where
  "closest_step F G max_pkt res sm new_mf best mf = (if closest_candidate F G max_pkt res sm mf then
     bindE (compute_dist F new_mf mf) (\<lambda>d. Inr (case best of None \<Rightarrow> Some (d, mf) | Some (e, _) \<Rightarrow> if d < e then Some (d, mf) else best))
     else Inr best)"

definition get_closest_mem_fetch :: "fetches \<Rightarrow> merge_info \<Rightarrow> nat \<Rightarrow> rec_buffer \<Rightarrow> nat \<Rightarrow> nat \<Rightarrow> nat \<Rightarrow> nat option cxx" where
  "get_closest_mem_fetch F G max_pkt r res sm new_mf =
     bindE (foldE (closest_step F G max_pkt res sm new_mf) None (rev (r_buffer r))) (\<lambda>best.
       Inr (case best of None \<Rightarrow> None | Some (d, mf) \<Rightarrow> if d = 0 then Some mf else None))"

definition candidates_diff_sm :: "fetches \<Rightarrow> merge_info \<Rightarrow> rec_buffer \<Rightarrow> nat \<Rightarrow> nat \<Rightarrow> nat list \<Rightarrow> nat list" where
  "candidates_diff_sm F G r res sm candi = candi @ filter (\<lambda>mf. fi_data (F mf) \<noteq> 0 \<and> fi_tpc (F mf) \<noteq> sm \<and> fi_res (F mf) = res \<and>
     \<not> 0 < length (mi_same G mf)) (r_buffer r)"

section \<open>Request coalescing\<close>

text \<open>What a cycle sees of the network: whether the injection buffer is full for a packet, how many packets it holds, the bytes
  a packet may have (\<open>32*g_NI_input_buffer_size\<close>) and the option \<open>hpcl_req_coal_lazy_inj_en\<close>.\<close>

record coal_env =
  e_full :: "nat \<Rightarrow> bool \<Rightarrow> bool"
  e_occupancy :: nat
  e_limit :: nat
  e_lazy :: bool

text \<open>The reads waiting for the partition, as many as fit; the first that does not fit ends the loop.\<close>

fun merge_loop :: "fetches \<Rightarrow> nat \<Rightarrow> nat \<Rightarrow> nat list \<Rightarrow> nat list \<Rightarrow> nat \<Rightarrow> nat list \<times> nat" where
  "merge_loop F limit mf [] merged request_size = (merged, request_size)"
| "merge_loop F limit mf (w # ws) merged request_size =
     (if w \<noteq> mf \<and> \<not> fi_write (F w) then
        (if request_size + fi_ctrl (F w) \<le> limit
         then merge_loop F limit mf ws (merged @ [w]) (request_size + fi_ctrl (F w)) else (merged, request_size))
      else merge_loop F limit mf ws merged request_size)"

text \<open>The state: the buffer, the list \<open>m_merged_req_mfs\<close> of every fetch, and the packets injected, each with the fetches that
  were merged into it at that moment and its size.\<close>

record coal_state =
  cs_buffer :: sub_buffer
  cs_merged :: "nat \<Rightarrow> nat list"
  cs_injected :: "(nat \<times> nat list \<times> nat) list"

definition coal_select :: "fetches \<Rightarrow> coal_env \<Rightarrow> coal_state \<Rightarrow> nat \<Rightarrow> (coal_state \<times> bool \<times> nat) cxx" where
  "coal_select F E s mf = (if fi_write (F mf) then Inr (s, e_full E (fi_size (F mf)) True, fi_size (F mf))
     else bindE (req_waiting F (cs_buffer s) mf) (\<lambda>ws.
       let (merged, request_size) = (if 1 < length ws then merge_loop F (e_limit E) mf ws [] (fi_ctrl (F mf)) else ([], fi_ctrl (F mf)))
       in Inr (s\<lparr>cs_merged := (cs_merged s)(mf := merged)\<rparr>, e_full E request_size True, request_size)))"

definition coal_inject :: "fetches \<Rightarrow> coal_env \<Rightarrow> coal_state \<Rightarrow> nat \<Rightarrow> nat \<Rightarrow> coal_state cxx" where
  "coal_inject F E s mf request_size = (if e_lazy E \<and> \<not> e_occupancy E \<le> 1 then Inr s
     else bindE (req_pop F (cs_buffer s)) (\<lambda>b.
       Inr (s\<lparr>cs_buffer := b, cs_injected := cs_injected s @ [(mf, cs_merged s mf, request_size)]\<rparr>)))"

definition coal_cycle :: "fetches \<Rightarrow> coal_env \<Rightarrow> coal_state \<Rightarrow> coal_state cxx" where
  "coal_cycle F E s = (case buffer_top (cs_buffer s) of None \<Rightarrow> Inr s | Some mf \<Rightarrow>
     bindE (coal_select F E s mf) (\<lambda>(s, is_icnt_full, request_size).
       if \<not> is_icnt_full then
         bindE (coal_inject F E s mf request_size) (\<lambda>s.
           bindE (req_delete_mfs F (cs_buffer s) (cs_merged s mf)) (\<lambda>b. Inr (s\<lparr>cs_buffer := b\<rparr>)))
       else Inr (s\<lparr>cs_merged := (cs_merged s)(mf := [])\<rparr>)))"

text \<open>The cycle with coalescing switched off; \<open>icnt_inject_request_packet\<close> chooses the size: a read that is not atomic has its
  header only.\<close>

definition plain_size :: "fetches \<Rightarrow> nat \<Rightarrow> nat" where
  "plain_size F mf = (if \<not> fi_write (F mf) \<and> \<not> fi_atomic (F mf) then fi_ctrl (F mf) else fi_size (F mf))"

definition plain_cycle :: "fetches \<Rightarrow> coal_env \<Rightarrow> coal_state \<Rightarrow> coal_state cxx" where
  "plain_cycle F E s = (case buffer_top (cs_buffer s) of None \<Rightarrow> Inr s | Some mf \<Rightarrow>
     if \<not> (if fi_texture (F mf) then e_full E (fi_ctrl (F mf)) False else e_full E (fi_size (F mf)) (fi_write (F mf)))
     then coal_inject F E s mf (plain_size F mf) else Inr s)"

end
