(* ===== verification/Decomp_Pipeline.thy ===== *)
theory Decomp_Pipeline
  imports Coal_Buffer Comp_Pipeline
begin

text \<open>
  The decompression pipelines (hpcl_decomp_fpc_pl.h with hpcl_decomp_fpc_pl_proc.h; those of the other codecs have the same
  text) and their place in \<open>simt_core_cluster::icnt_cycle\<close> (shader.cc): replies come from the network, pass the pipeline and the
  decompression buffer, and go to the response FIFO.  A pipeline hands fetches on; of a fetch that carries others for the same
  cluster it splits off the first, for the caller to feed back.
\<close>

section \<open>The pipeline\<close>

text \<open>The registers hold pointers; the input register is that of the first stage.\<close>

record decomp_pl =
  dp_input :: "nat option"
  dp_outputs :: "nat option list"
  dp_count :: int

text \<open>\<open>m_merged_mfs_to_same_SM\<close> of every fetch.\<close>

type_synonym merged_to_same = "nat \<Rightarrow> nat list"

definition decomp_create :: "nat \<Rightarrow> decomp_pl cxx" where
  "decomp_create n = (if n = 0 then Inl Out_Of_Range else Inr \<lparr>dp_input = None, dp_outputs = replicate n None, dp_count = 0\<rparr>)"

definition decomp_set_input :: "decomp_pl \<Rightarrow> nat \<Rightarrow> decomp_pl" where
  "decomp_set_input pl mf = pl\<lparr>dp_input := Some mf, dp_count := dp_count pl + 1\<rparr>"

text \<open>The fetch split off gets a copy of what is left, which also stays with the fetch it was merged into.\<close>

definition split_merged :: "merged_to_same \<Rightarrow> nat \<Rightarrow> nat option \<times> merged_to_same" where
  "split_merged mg mf = (case mg mf of [] \<Rightarrow> (None, mg) | fb # rest \<Rightarrow> (Some fb, mg(mf := rest, fb := rest)))"

definition proc_move :: "decomp_pl \<Rightarrow> decomp_pl" where
  "proc_move pl = pl\<lparr>dp_outputs := (dp_outputs pl)[0 := dp_input pl], dp_input := None\<rparr>"

definition out_clean :: "decomp_pl \<Rightarrow> nat \<Rightarrow> decomp_pl" where
  "out_clean pl i = pl\<lparr>dp_outputs := (dp_outputs pl)[i := None]\<rparr>"

definition out_set :: "decomp_pl \<Rightarrow> nat \<Rightarrow> nat \<Rightarrow> decomp_pl cxx" where
  "out_set pl i mf = (if i < length (dp_outputs pl) then Inr (pl\<lparr>dp_outputs := (dp_outputs pl)[i := Some mf]\<rparr>) else Inl Out_Of_Range)"

text \<open>A stage of \<open>run\<close>, with \<open>ret\<close> and \<open>*fb_mf\<close>.\<close>

definition decomp_stage ::
    "decomp_pl \<times> merged_to_same \<times> nat option \<times> nat option \<Rightarrow> nat \<Rightarrow> (decomp_pl \<times> merged_to_same \<times> nat option \<times> nat option) cxx" where
  "decomp_stage = (\<lambda>(pl, mg, ret, fb) i. let n = length (dp_outputs pl) in
     if i = 0 then
       (let pl = proc_move pl in case dp_outputs pl ! 0 of None \<Rightarrow> Inr (out_clean pl 0, mg, ret, None)
        | Some mf \<Rightarrow> let (fb, mg) = split_merged mg mf in
            if n = 1 then Inr (out_clean (pl\<lparr>dp_count := dp_count pl - 1\<rparr>) 0, mg, Some mf, fb)
            else bindE (out_set pl 1 mf) (\<lambda>pl. Inr (out_clean pl 0, mg, ret, fb)))
     else if i = n - 1 then
       (case dp_outputs pl ! i of None \<Rightarrow> Inr (out_clean pl i, mg, ret, fb)
        | Some mf \<Rightarrow> Inr (out_clean (pl\<lparr>dp_count := dp_count pl - 1\<rparr>) i, mg, Some mf, fb))
     else
       (case dp_outputs pl ! i of None \<Rightarrow> Inr (out_clean pl i, mg, ret, fb)
        | Some mf \<Rightarrow> bindE (out_set pl (i + 1) mf) (\<lambda>pl. Inr (out_clean pl i, mg, ret, fb))))"

definition decomp_run :: "decomp_pl \<Rightarrow> merged_to_same \<Rightarrow> (decomp_pl \<times> merged_to_same \<times> nat option \<times> nat option) cxx" where
  "decomp_run pl mg = foldE decomp_stage (pl, mg, None, None) (rev [0..<length (dp_outputs pl)])"

section \<open>The reply side of a cluster\<close>

record cluster =
  cl_pl :: decomp_pl
  cl_merged :: merged_to_same
  cl_buffer :: sub_buffer
  cl_fifo :: "nat list"

text \<open>From the decompression buffer to the response FIFO.\<close>

definition cluster_phase2 :: "fetches \<Rightarrow> nat \<Rightarrow> nat \<Rightarrow> cluster \<Rightarrow> cluster cxx" where
  "cluster_phase2 F cluster_id ejection_size c = (if length (cl_fifo c) < ejection_size then
     (case comp_next (cl_buffer c) of None \<Rightarrow> Inr c
      | Some mf \<Rightarrow> assertE (fi_tpc (F mf) = cluster_id) (assertE (fi_reply (F mf))
          (bindE (comp_del_mem_fetch F (cl_buffer c) mf) (\<lambda>b. Inr (c\<lparr>cl_buffer := b, cl_fifo := cl_fifo c @ [mf]\<rparr>)))))
     else Inr c)"

text \<open>From the network to the pipeline and from there to the buffer; \<open>net\<close> is what \<open>perf_icnt_pop\<close> would return next.\<close>

definition cluster_phase1 :: "fetches \<Rightarrow> bool \<Rightarrow> cluster \<Rightarrow> nat list \<Rightarrow> (cluster \<times> nat list) cxx" where
  "cluster_phase1 F is_l1d_cache_comp_mode c net = (if buffer_space (cl_buffer c) then
     bindE (decomp_run (cl_pl c) (cl_merged c)) (\<lambda>(pl, mg, decomp_mf, fb_mf).
     bindE (case decomp_mf of None \<Rightarrow> Inr (cl_buffer c, pl, False)
       | Some mf \<Rightarrow> bindE (comp_push F (cl_buffer c) mf) (\<lambda>b.
           Inr (b, case fb_mf of None \<Rightarrow> (pl, False) | Some fb \<Rightarrow> (decomp_set_input pl fb, True)))) (\<lambda>(b, pl, is_mf_pushed).
     let c = c\<lparr>cl_pl := pl, cl_merged := mg, cl_buffer := b\<rparr>
     in if \<not> is_l1d_cache_comp_mode \<and> \<not> is_mf_pushed then
          (case net of [] \<Rightarrow> Inr (c, net) | mf # net' \<Rightarrow> Inr (c\<lparr>cl_pl := decomp_set_input pl mf\<rparr>, net'))
        else Inr (c, net)))
     else Inr (c, net))"

definition cluster_cycle :: "fetches \<Rightarrow> nat \<Rightarrow> nat \<Rightarrow> bool \<Rightarrow> cluster \<Rightarrow> nat list \<Rightarrow> (cluster \<times> nat list) cxx" where
  "cluster_cycle F cluster_id ejection_size is_l1d_cache_comp_mode c net =
     bindE (cluster_phase2 F cluster_id ejection_size c) (\<lambda>c. cluster_phase1 F is_l1d_cache_comp_mode c net)"

section \<open>A run as a shift\<close>

text \<open>The fetches under way, the next to leave first.\<close>

definition decomp_flight :: "decomp_pl \<Rightarrow> nat option list" where
  "decomp_flight pl = rev (tl (dp_outputs pl)) @ [dp_input pl]"

definition decomp_ready :: "decomp_pl \<Rightarrow> bool" where
  "decomp_ready pl \<longleftrightarrow> (\<exists>r. dp_outputs pl = None # r)"

text \<open>The middle stages, from the \<open>k\<close>-th down to the first, move their registers on by one when the next one is free.\<close>

lemma middle_stage:
  assumes "0 < i" and "i + 1 < length (dp_outputs pl)" and "dp_outputs pl ! (i + 1) = None"
  shows "decomp_stage (pl, mg, ret, fb) i =
    Inr (pl\<lparr>dp_outputs := (dp_outputs pl)[i + 1 := dp_outputs pl ! i, i := None]\<rparr>, mg, ret, fb)"
proof -
  have ne: "i \<noteq> length (dp_outputs pl) - 1" using assms(2) by simp
  show ?thesis
  proof (cases "dp_outputs pl ! i")
    case None
    have "(dp_outputs pl)[i + 1 := dp_outputs pl ! i] = dp_outputs pl" using None assms(3) by (metis list_update_id)
    then show ?thesis using None ne assms by (simp add: decomp_stage_def Let_def out_clean_def)
  next
    case (Some mf)
    then show ?thesis using ne assms by (simp add: decomp_stage_def Let_def out_clean_def out_set_def)
  qed
qed

lemma middle_stages:
  "dp_outputs pl = xs @ ys @ None # zs \<Longrightarrow> xs = [a] \<Longrightarrow> length ys = k \<Longrightarrow>
   foldE decomp_stage (pl, mg, ret, fb) (rev [1..<Suc k]) = Inr (pl\<lparr>dp_outputs := xs @ None # ys @ zs\<rparr>, mg, ret, fb)"
proof (induction k arbitrary: pl ys zs)
  case 0
  then show ?case by (cases pl) simp
next
  case (Suc k)
  obtain us y where ys: "ys = us @ [y]" "length us = k" using Suc.prems(3) by (metis length_Suc_conv_rev)
  have o: "dp_outputs pl = a # us @ y # None # zs" using Suc.prems ys by simp
  have i: "Suc k + 1 < length (dp_outputs pl)" "dp_outputs pl ! (Suc k + 1) = None" "dp_outputs pl ! Suc k = y"
    using ys(2) by (simp_all add: o nth_append)
  let ?q = "pl\<lparr>dp_outputs := [a] @ us @ None # y # zs\<rparr>"
  have "(dp_outputs pl)[Suc k + 1 := y, Suc k := None] = [a] @ us @ None # y # zs"
    using ys(2) by (simp add: o list_update_append)
  then have 1: "decomp_stage (pl, mg, ret, fb) (Suc k) = Inr (?q, mg, ret, fb)"
    using middle_stage[of "Suc k" pl mg ret fb] i by simp
  have "foldE decomp_stage (?q, mg, ret, fb) (rev [1..<Suc k]) = Inr (?q\<lparr>dp_outputs := xs @ None # us @ (y # zs)\<rparr>, mg, ret, fb)"
    using Suc.IH[of ?q us "y # zs"] Suc.prems(2) ys(2) by simp
  then show ?case using 1 Suc.prems(2) by (simp add: ys(1))
qed

text \<open>A run shifts the fetches under way by one and splits the fetch that enters.\<close>

definition enter :: "merged_to_same \<Rightarrow> nat option \<Rightarrow> nat option \<times> merged_to_same" where
  "enter mg x = (case x of None \<Rightarrow> (None, mg) | Some mf \<Rightarrow> split_merged mg mf)"

lemma decomp_run_shift:
  assumes "decomp_ready pl"
  shows "\<exists>q. decomp_run pl mg = Inr (q, snd (enter mg (dp_input pl)), hd (decomp_flight pl), fst (enter mg (dp_input pl))) \<and>
    decomp_ready q \<and> length (dp_outputs q) = length (dp_outputs pl) \<and> dp_input q = None \<and>
    decomp_flight q = tl (decomp_flight pl) @ [None] \<and> dp_count q = dp_count pl - (if hd (decomp_flight pl) = None then 0 else 1)"
proof -
  obtain r where o: "dp_outputs pl = None # r" using assms by (auto simp: decomp_ready_def)
  show ?thesis
  proof (cases r rule: rev_cases)
    case Nil
    then show ?thesis
      using o by (cases "dp_input pl")
        (auto simp: decomp_run_def decomp_stage_def proc_move_def out_clean_def decomp_flight_def decomp_ready_def enter_def
          Let_def split: prod.splits)
  next
    case (snoc ys y)
    let ?k = "length ys"
    have n: "length (dp_outputs pl) = Suc (Suc ?k)" using o snoc by simp
    define p1 where "p1 = pl\<lparr>dp_outputs := None # ys @ [None], dp_count := dp_count pl - (if y = None then 0 else 1)\<rparr>"
    have last: "decomp_stage (pl, mg, None, None) (Suc ?k) = Inr (p1, mg, y, None)"
      using o snoc by (cases y) (simp_all add: decomp_stage_def out_clean_def p1_def Let_def nth_append list_update_append)
    define p2 where "p2 = p1\<lparr>dp_outputs := None # None # ys\<rparr>"
    have mid: "foldE decomp_stage (p1, mg, y, None) (rev [1..<Suc ?k]) = Inr (p2, mg, y, None)"
      using middle_stages[of p1 "[None]" ys "[]" None ?k mg y None] by (simp add: p1_def p2_def)
    define q where "q = p2\<lparr>dp_outputs := None # dp_input pl # ys, dp_input := None\<rparr>"
    have first: "decomp_stage (p2, mg, y, None) 0 = Inr (q, snd (enter mg (dp_input pl)), y, fst (enter mg (dp_input pl)))"
      by (cases "dp_input pl") (auto simp: decomp_stage_def proc_move_def out_clean_def out_set_def p2_def p1_def q_def enter_def
          Let_def split: prod.splits)
    have "[0..<Suc (Suc ?k)] = 0 # [Suc 0..<Suc (Suc ?k)]" by (rule upt_conv_Cons) simp
    also have "[Suc 0..<Suc (Suc ?k)] = [Suc 0..<Suc ?k] @ [Suc ?k]" by (rule upt_Suc_append) simp
    finally have "rev [0..<length (dp_outputs pl)] = Suc ?k # rev [1..<Suc ?k] @ [0]" by (simp add: n del: upt_Suc)
    then have "decomp_run pl mg = Inr (q, snd (enter mg (dp_input pl)), y, fst (enter mg (dp_input pl)))"
      unfolding decomp_run_def using last mid first by (simp add: foldE_append del: upt_Suc)
    moreover have "hd (decomp_flight pl) = y" "tl (decomp_flight pl) = rev ys @ [dp_input pl]"
      using o snoc by (simp_all add: decomp_flight_def)
    ultimately show ?thesis
      using n by (auto simp: decomp_ready_def decomp_flight_def q_def p2_def p1_def)
  qed
qed

end
