(* ===== verification/Coal_Correct.thy ===== *)
theory Coal_Correct
  imports Coal_Buffer "HOL-Library.Multiset"
begin

text \<open>
  The buffers keep every fetch in the order of arrival, in the whole buffer and in its sub-buffer; request coalescing sends
  every fetch once, alone or merged into another of the same partition; with lazy injection it loses fetches.
\<close>

section \<open>Well-formed buffers\<close>

definition buffer_wf :: "(nat \<Rightarrow> nat) \<Rightarrow> nat \<Rightarrow> sub_buffer \<Rightarrow> bool" where
  "buffer_wf key np b \<longleftrightarrow> length (b_sub b) = np \<and> distinct (b_buffer b) \<and> (\<forall>m\<in>set (b_buffer b). key m < np) \<and>
     (\<forall>k<np. b_sub b ! k = filter (\<lambda>m. key m = k) (b_buffer b))"

lemma wf_create: "buffer_wf key np (buffer_create sub_buffer_new n np)"
  by (simp add: buffer_wf_def buffer_create_def sub_buffer_new_def)

lemma wf_add:
  assumes "buffer_wf key np b" and "m \<notin> set (b_buffer b)" and "key m < np"
  shows "\<exists>b'. on_sub (\<lambda>xs. Inr (xs @ [m])) (key m) (b\<lparr>b_buffer := b_buffer b @ [m]\<rparr>) = Inr b' \<and> buffer_wf key np b' \<and>
    b_buffer b' = b_buffer b @ [m] \<and> b_size b' = b_size b"
  using assms by (auto simp: on_sub_def at_def buffer_wf_def nth_list_update)

text \<open>Both ways to take a fetch out.\<close>

lemma wf_take:
  assumes wf: "buffer_wf key np b" and m: "m \<in> set (b_buffer b)"
    and f: "\<And>xs. m \<in> set xs \<Longrightarrow> f xs = Inr (remove1 m xs)"
  shows "\<exists>b'. on_sub f (key m) (b\<lparr>b_buffer := remove1 m (b_buffer b)\<rparr>) = Inr b' \<and> buffer_wf key np b' \<and>
    b_buffer b' = remove1 m (b_buffer b) \<and> b_size b' = b_size b"
proof -
  have k: "key m < np" "key m < length (b_sub b)" using wf m by (auto simp: buffer_wf_def)
  have s: "b_sub b ! key m = filter (\<lambda>x. key x = key m) (b_buffer b)" using wf k by (simp add: buffer_wf_def)
  then have "f (b_sub b ! key m) = Inr (remove1 m (b_sub b ! key m))" using f m by simp
  then have o: "on_sub f (key m) (b\<lparr>b_buffer := remove1 m (b_buffer b)\<rparr>)
      = Inr (b\<lparr>b_buffer := remove1 m (b_buffer b), b_sub := (b_sub b)[key m := remove1 m (b_sub b ! key m)]\<rparr>)"
    using k by (simp add: on_sub_def at_def)
  have "(b_sub b)[key m := remove1 m (b_sub b ! key m)] ! j = filter (\<lambda>x. key x = j) (remove1 m (b_buffer b))" if "j < np" for j
  proof (cases "j = key m")
    case True
    then show ?thesis using k s by (simp add: filter_remove1)
  next
    case False
    have "m \<notin> set (filter (\<lambda>x. key x = j) (b_buffer b))" using False by simp
    then show ?thesis using False wf that by (simp add: buffer_wf_def filter_remove1 remove1_idem)
  qed
  then have "buffer_wf key np (b\<lparr>b_buffer := remove1 m (b_buffer b), b_sub := (b_sub b)[key m := remove1 m (b_sub b ! key m)]\<rparr>)"
    using wf notin_set_remove1 by (fastforce simp: buffer_wf_def dest: in_set_remove1[THEN iffD1] set_remove1_subset[THEN subsetD])
  then show ?thesis using o by simp
qed

lemma delete_one_ok:
  assumes "buffer_wf key np b" and "m \<in> set (b_buffer b)"
  shows "\<exists>b'. delete_one key b m = Inr b' \<and> buffer_wf key np b' \<and> b_buffer b' = remove1 m (b_buffer b) \<and> b_size b' = b_size b"
  using wf_take[OF assms, of "\<lambda>xs. erase_found xs m"] assms(2) by (simp add: delete_one_def erase_found_def)

lemma delete_all_ok:
  assumes "buffer_wf key np b" and "set ms \<subseteq> set (b_buffer b)" and "distinct ms"
  shows "\<exists>b'. foldE (delete_one key) b ms = Inr b' \<and> buffer_wf key np b' \<and> mset (b_buffer b') = mset (b_buffer b) - mset ms \<and>
    b_size b' = b_size b"
  using assms
proof (induction ms arbitrary: b)
  case (Cons m ms)
  obtain b1 where b1: "delete_one key b m = Inr b1" "buffer_wf key np b1" "b_buffer b1 = remove1 m (b_buffer b)" "b_size b1 = b_size b"
    using delete_one_ok[OF Cons.prems(1), of m] Cons.prems(2) by auto
  have "distinct (b_buffer b)" using Cons.prems(1) by (simp add: buffer_wf_def)
  then have "set ms \<subseteq> set (b_buffer b1)" using Cons.prems(2,3) by (auto simp: b1(3))
  then obtain b2 where "foldE (delete_one key) b1 ms = Inr b2" "buffer_wf key np b2" "mset (b_buffer b2) = mset (b_buffer b1) - mset ms"
      "b_size b2 = b_size b1"
    using Cons.IH[OF b1(2)] Cons.prems(3) by auto
  then show ?case using b1 by (auto simp: diff_diff_add)
qed simp

lemma req_pop_ok:
  assumes "buffer_wf (\<lambda>m. fi_part (F m)) np b" and "b_buffer b = m # ms"
  shows "\<exists>b'. req_pop F b = Inr b' \<and> buffer_wf (\<lambda>m. fi_part (F m)) np b' \<and> b_buffer b' = ms \<and> b_size b' = b_size b"
  using wf_take[OF assms(1), of m "\<lambda>xs. erase_or_first xs m"] assms(2) by (simp add: req_pop_def erase_or_first_def)

lemma req_push_ok:
  assumes "buffer_wf (\<lambda>m. fi_part (F m)) np b" and "m \<notin> set (b_buffer b)" and "fi_part (F m) < np"
  shows "\<exists>b'. req_push F b m = Inr b' \<and> buffer_wf (\<lambda>m. fi_part (F m)) np b' \<and> b_buffer b' = b_buffer b @ [m] \<and> b_size b' = b_size b"
  using wf_add[OF assms] by (simp add: req_push_def)

lemma distinct_submset: "distinct xs \<Longrightarrow> set xs \<subseteq> set ys \<Longrightarrow> mset xs \<subseteq># mset ys"
  by (rule mset_subset_eqI) (auto simp: distinct_count_atmost_1 Suc_le_eq)

section \<open>Choosing what to merge\<close>

lemma merge_loop_ok:
  assumes "merge_loop F limit mf ws merged n = (g, k)" and "distinct (merged @ ws)" and "mf \<notin> set merged"
    and "\<forall>w\<in>set merged. \<not> fi_write (F w)" and "n = c + sum_list (map (\<lambda>w. fi_ctrl (F w)) merged)" and "merged \<noteq> [] \<longrightarrow> n \<le> limit"
  shows "set g \<subseteq> set merged \<union> set ws \<and> distinct g \<and> mf \<notin> set g \<and> (\<forall>w\<in>set g. \<not> fi_write (F w)) \<and>
    k = c + sum_list (map (\<lambda>w. fi_ctrl (F w)) g) \<and> (g \<noteq> [] \<longrightarrow> k \<le> limit)"
  using assms
proof (induction F limit mf ws merged n rule: merge_loop.induct)
  case (2 F limit mf w ws merged n)
  show ?case
  proof (cases "w \<noteq> mf \<and> \<not> fi_write (F w)")
    case c: True
    show ?thesis
    proof (cases "n + fi_ctrl (F w) \<le> limit")
      case True
      have "set g \<subseteq> set (merged @ [w]) \<union> set ws \<and> distinct g \<and> mf \<notin> set g \<and> (\<forall>w\<in>set g. \<not> fi_write (F w)) \<and>
          k = c + sum_list (map (\<lambda>w. fi_ctrl (F w)) g) \<and> (g \<noteq> [] \<longrightarrow> k \<le> limit)"
        by (rule "2.IH"(1)[OF c True]) (use "2.prems" c True in auto)
      then show ?thesis by auto
    next
      case False
      then show ?thesis using "2.prems" c by auto
    qed
  next
    case False
    have "set g \<subseteq> set merged \<union> set ws \<and> distinct g \<and> mf \<notin> set g \<and> (\<forall>w\<in>set g. \<not> fi_write (F w)) \<and>
        k = c + sum_list (map (\<lambda>w. fi_ctrl (F w)) g) \<and> (g \<noteq> [] \<longrightarrow> k \<le> limit)"
      by (rule "2.IH"(2)[OF False]) (use "2.prems" False in auto)
    then show ?thesis by auto
  qed
qed auto

section \<open>Runs\<close>

definition packet_ok :: "fetches \<Rightarrow> nat \<Rightarrow> nat \<times> nat list \<times> nat \<Rightarrow> bool" where
  "packet_ok F limit p \<longleftrightarrow> (case p of (m, g, k) \<Rightarrow>
     (\<forall>w\<in>set g. fi_part (F w) = fi_part (F m) \<and> \<not> fi_write (F w)) \<and> (fi_write (F m) \<longrightarrow> g = []) \<and>
     (g \<noteq> [] \<longrightarrow> k \<le> limit) \<and>
     k = (if fi_write (F m) then fi_size (F m) else sum_list (map (\<lambda>w. fi_ctrl (F w)) (m # g))))"

definition packet_fetches :: "nat \<times> nat list \<times> nat \<Rightarrow> nat list" where
  "packet_fetches p = fst p # fst (snd p)"

definition coal_inv :: "fetches \<Rightarrow> nat \<Rightarrow> nat \<Rightarrow> coal_state \<times> nat list \<Rightarrow> bool" where
  "coal_inv F np limit = (\<lambda>(s, seen). buffer_wf (\<lambda>m. fi_part (F m)) np (cs_buffer s) \<and> distinct seen \<and>
     mset seen = mset (b_buffer (cs_buffer s)) + mset (concat (map packet_fetches (cs_injected s))) \<and>
     (\<forall>p\<in>set (cs_injected s). packet_ok F limit p) \<and> (\<forall>m. fi_write (F m) \<longrightarrow> cs_merged s m = []))"

text \<open>A new fetch is offered while there is room; every other operation is a cycle, with eager injection.\<close>

datatype coal_op = Offer nat | Cycle coal_env

definition coal_step :: "fetches \<Rightarrow> nat \<Rightarrow> nat \<Rightarrow> coal_state \<times> nat list \<Rightarrow> coal_op \<Rightarrow> (coal_state \<times> nat list) cxx" where
  "coal_step F np limit = (\<lambda>(s, seen) a. case a of
     Offer m \<Rightarrow> if m \<notin> set seen \<and> fi_part (F m) < np \<and> buffer_space (cs_buffer s)
       then bindE (req_push F (cs_buffer s) m) (\<lambda>b. Inr (s\<lparr>cs_buffer := b\<rparr>, seen @ [m])) else Inr (s, seen)
   | Cycle E \<Rightarrow> bindE (coal_cycle F (E\<lparr>e_lazy := False, e_limit := limit\<rparr>) s) (\<lambda>s. Inr (s, seen)))"

lemma coal_select_ok:
  assumes "coal_inv F np limit (s, seen)" and "b_buffer (cs_buffer s) = m # ms" and "e_limit E = limit"
  shows "\<exists>s' full k. coal_select F E s m = Inr (s', full, k) \<and> cs_buffer s' = cs_buffer s \<and> cs_injected s' = cs_injected s \<and>
    (\<forall>m. fi_write (F m) \<longrightarrow> cs_merged s' m = []) \<and>
    packet_ok F limit (m, cs_merged s' m, k) \<and> set (cs_merged s' m) \<subseteq> set ms \<and> distinct (cs_merged s' m)"
proof (cases "fi_write (F m)")
  case True
  then show ?thesis using assms(1) by (simp add: coal_select_def coal_inv_def packet_ok_def)
next
  case False
  let ?ws = "filter (\<lambda>x. fi_part (F x) = fi_part (F m)) (b_buffer (cs_buffer s))"
  have wf: "buffer_wf (\<lambda>m. fi_part (F m)) np (cs_buffer s)" using assms(1) by (simp add: coal_inv_def)
  then have w: "req_waiting F (cs_buffer s) m = Inr ?ws"
    using assms(2) by (auto simp: req_waiting_def at_def buffer_wf_def)
  obtain g k where gk: "(if 1 < length ?ws then merge_loop F limit m ?ws [] (fi_ctrl (F m)) else ([], fi_ctrl (F m))) = (g, k)"
    by (metis prod.exhaust)
  have d: "distinct ?ws" using wf by (simp add: buffer_wf_def)
  have g: "set g \<subseteq> set ?ws \<and> distinct g \<and> m \<notin> set g \<and> (\<forall>w\<in>set g. \<not> fi_write (F w)) \<and>
    k = fi_ctrl (F m) + sum_list (map (\<lambda>w. fi_ctrl (F w)) g) \<and> (g \<noteq> [] \<longrightarrow> k \<le> limit)"
  proof (cases "1 < length ?ws")
    case True
    then have "merge_loop F limit m ?ws [] (fi_ctrl (F m)) = (g, k)" using gk by simp
    from merge_loop_ok[OF this, of "fi_ctrl (F m)"] d show ?thesis by auto
  qed (use gk in auto)
  have "coal_select F E s m = Inr (s\<lparr>cs_merged := (cs_merged s)(m := g)\<rparr>, e_full E k True, k)"
    by (simp only: coal_select_def False if_False w bindE_simps gk assms(3) Let_def prod.case)
  moreover have "packet_ok F limit (m, g, k)" using g False by (auto simp: packet_ok_def)
  moreover have "set g \<subseteq> set ms" using g assms(2) by auto
  ultimately show ?thesis using g assms(1) False by (auto simp: coal_inv_def)
qed

lemma coal_cycle_ok:
  assumes inv: "coal_inv F np limit (s, seen)" and E: "e_limit E = limit" "\<not> e_lazy E"
  shows "\<exists>s'. coal_cycle F E s = Inr s' \<and> coal_inv F np limit (s', seen)"
proof (cases "b_buffer (cs_buffer s)")
  case Nil
  then show ?thesis using inv by (simp add: coal_cycle_def buffer_top_def)
next
  case (Cons m ms)
  obtain s1 full k where s1: "coal_select F E s m = Inr (s1, full, k)" "cs_buffer s1 = cs_buffer s" "cs_injected s1 = cs_injected s"
      "\<And>m. fi_write (F m) \<Longrightarrow> cs_merged s1 m = []" "packet_ok F limit (m, cs_merged s1 m, k)" "set (cs_merged s1 m) \<subseteq> set ms"
      "distinct (cs_merged s1 m)"
    using coal_select_ok[OF inv Cons E(1)] by metis
  have top: "buffer_top (cs_buffer s) = Some m" using Cons by (simp add: buffer_top_def)
  show ?thesis
  proof (cases full)
    case True
    then have "coal_cycle F E s = Inr (s1\<lparr>cs_merged := (cs_merged s1)(m := [])\<rparr>)"
      using s1(1) top by (simp add: coal_cycle_def)
    then show ?thesis using inv s1 by (auto simp: coal_inv_def)
  next
    case False
    have wf: "buffer_wf (\<lambda>m. fi_part (F m)) np (cs_buffer s1)" using inv s1(2) by (simp add: coal_inv_def)
    obtain b where b: "req_pop F (cs_buffer s1) = Inr b" "buffer_wf (\<lambda>m. fi_part (F m)) np b" "b_buffer b = ms"
      using req_pop_ok[OF wf, of m ms] Cons s1(2) by auto
    define s2 where "s2 = s1\<lparr>cs_buffer := b, cs_injected := cs_injected s @ [(m, cs_merged s1 m, k)]\<rparr>"
    have i: "coal_inject F E s1 m k = Inr s2" using E(2) b(1) s1(3) by (simp add: coal_inject_def s2_def)
    obtain b' where b': "req_delete_mfs F b (cs_merged s1 m) = Inr b'" "buffer_wf (\<lambda>m. fi_part (F m)) np b'"
        "mset (b_buffer b') = mset ms - mset (cs_merged s1 m)"
      using delete_all_ok[OF b(2), of "cs_merged s1 m"] s1(6,7) b(3) by (auto simp: req_delete_mfs_def)
    have c: "coal_cycle F E s = Inr (s2\<lparr>cs_buffer := b'\<rparr>)"
      using s1(1) top False i b'(1) by (simp add: coal_cycle_def s2_def)
    have "mset (cs_merged s1 m) \<subseteq># mset ms" using s1(7,6) by (rule distinct_submset)
    then have "add_mset m (mset ms) = mset (b_buffer b') + mset (packet_fetches (m, cs_merged s1 m, k))"
      using b'(3) by (simp add: packet_fetches_def)
    moreover have "mset seen = add_mset m (mset ms) + mset (concat (map packet_fetches (cs_injected s)))"
      using inv Cons by (simp add: coal_inv_def)
    ultimately have "mset seen = mset (b_buffer b') + mset (concat (map packet_fetches (cs_injected s2)))"
      by (simp add: s2_def)
    then have "coal_inv F np limit (s2\<lparr>cs_buffer := b'\<rparr>, seen)"
      using inv s1(4,5) b'(2) by (auto simp: coal_inv_def s2_def)
    then show ?thesis using c by blast
  qed
qed

interpretation coal: total_machine "coal_step F np limit" "coal_inv F np limit"
proof -
  have step: "\<exists>t. coal_step F np limit x a = Inr t \<and> coal_inv F np limit t" if inv: "coal_inv F np limit x" for x a
  proof (cases x)
    case (Pair s seen)
    show ?thesis
    proof (cases a)
      case (Cycle E)
      then show ?thesis
        using coal_cycle_ok[of F np limit s seen "E\<lparr>e_lazy := False, e_limit := limit\<rparr>"] inv Pair by (auto simp: coal_step_def)
    next
      case (Offer m)
      show ?thesis
      proof (cases "m \<notin> set seen \<and> fi_part (F m) < np \<and> buffer_space (cs_buffer s)")
        case True
        have wf: "buffer_wf (\<lambda>m. fi_part (F m)) np (cs_buffer s)" and ms: "mset seen = mset (b_buffer (cs_buffer s)) + mset (concat (map packet_fetches (cs_injected s)))"
          using inv Pair by (simp_all add: coal_inv_def)
        have "set (b_buffer (cs_buffer s)) \<subseteq> set seen" using arg_cong[OF ms, of set_mset] by simp
        then obtain b where "req_push F (cs_buffer s) m = Inr b" "buffer_wf (\<lambda>m. fi_part (F m)) np b" "b_buffer b = b_buffer (cs_buffer s) @ [m]"
          using req_push_ok[OF wf, of m] True by auto
        then show ?thesis using Offer True inv Pair ms by (auto simp: coal_step_def coal_inv_def)
      next
        case False
        then show ?thesis using Offer inv Pair by (auto simp: coal_step_def)
      qed
    qed
  qed
  show "total_machine (coal_step F np limit) (coal_inv F np limit)"
  proof
    show "coal_inv F np limit t" if "coal_inv F np limit s" "coal_step F np limit s a = Inr t" for s a t
      using step[OF that(1), of a] that(2) by simp
    show "okE (coal_step F np limit s a)" if "coal_inv F np limit s" for s a
      using step[OF that, of a] by (auto simp: okE_iff)
  qed
qed

definition coal_new :: "nat \<Rightarrow> nat \<Rightarrow> coal_state" where
  "coal_new buffer_size np = \<lparr>cs_buffer = buffer_create sub_buffer_new buffer_size np, cs_merged = (\<lambda>_. []), cs_injected = []\<rparr>"

lemma coal_new_inv: "coal_inv F np limit (coal_new n np, [])"
  using wf_create[of "\<lambda>m. fi_part (F m)" np n]
  by (simp add: coal_inv_def coal_new_def) (simp add: buffer_create_def sub_buffer_new_def)

text \<open>Claim C35. Request coalescing with eager injection sends every request exactly once.  Whatever requests are offered and
  whatever the network answers, no cycle faults; the requests accepted are those still waiting and those in the packets
  injected, each once; a packet holds requests of one partition, merges reads only, into a read, and has the sum of their
  header sizes, within the limit of a packet when anything is merged.\<close>

theorem eager_coalescing_conserves:
  "\<exists>s seen. foldE (coal_step F np limit) (coal_new n np, []) ops = Inr (s, seen) \<and> distinct seen \<and>
    mset seen = mset (b_buffer (cs_buffer s)) + mset (concat (map packet_fetches (cs_injected s))) \<and>
    list_all (packet_ok F limit) (cs_injected s)"
  using coal.run_total[OF coal_new_inv, of F np limit n ops] by (auto simp: coal_inv_def list_all_iff)

section \<open>Lazy injection\<close>

text \<open>Two reads for one partition; in the first cycle the injection buffer holds two packets, in the second one.\<close>

definition lazy_fetches :: fetches where
  "lazy_fetches = (\<lambda>_. \<lparr>fi_part = 0, fi_tpc = 0, fi_write = False, fi_texture = False, fi_atomic = False, fi_reply = False, fi_ctrl = 8, fi_size = 8,
     fi_data = 0, fi_res = 4, fi_word = (\<lambda>_. 0)\<rparr>)"

definition lazy_env :: "nat \<Rightarrow> coal_env" where
  "lazy_env occupancy = \<lparr>e_full = (\<lambda>_ _. False), e_occupancy = occupancy, e_limit = 64, e_lazy = True\<rparr>"

text \<open>With lazy injection, coalescing loses requests.  Of two reads for the same partition the second is merged into the
  first and taken out of the buffer in a cycle that injects nothing because the network is busy; the next cycle chooses anew and
  sends the first one alone.  The buffer is empty then, and the second request is in no packet.\<close>

theorem lazy_coalescing_loses:
  "\<exists>b s. bindE (req_push lazy_fetches (buffer_create sub_buffer_new 8 1) 0) (\<lambda>b. req_push lazy_fetches b 1) = Inr b \<and>
    b_buffer b = [0, 1] \<and>
    foldE (\<lambda>s E. coal_cycle lazy_fetches E s) \<lparr>cs_buffer = b, cs_merged = (\<lambda>_. []), cs_injected = []\<rparr> [lazy_env 2, lazy_env 1] = Inr s \<and>
    b_buffer (cs_buffer s) = [] \<and> cs_injected s = [(0, [], 8)]"
  by (simp add: req_push_def buffer_create_def sub_buffer_new_def on_sub_def at_def lazy_fetches_def coal_cycle_def buffer_top_def
      coal_select_def req_waiting_def lazy_env_def coal_inject_def req_delete_mfs_def delete_one_def erase_found_def
      req_pop_def erase_or_first_def Let_def)

section \<open>Replies to be merged\<close>

text \<open>The fetch that \<open>get_closest_mem_fetch\<close> finds is the latest candidate whose first word is the new fetch's.\<close>

definition at_zero :: "(nat \<times> nat) option \<Rightarrow> nat option" where
  "at_zero best = (case best of None \<Rightarrow> None | Some (d, m) \<Rightarrow> if d = 0 then Some m else None)"

definition same_word :: "fetches \<Rightarrow> nat \<Rightarrow> nat \<Rightarrow> bool" where
  "same_word F new m \<longleftrightarrow> compute_dist F new m = Inr 0"

lemma closest_step_zero:
  assumes "fi_res (F new) \<in> {2, 4, 8}"
  shows "\<exists>b. closest_step F G k res sm new best m = Inr b \<and>
    at_zero b = (case at_zero best of Some x \<Rightarrow> Some x | None \<Rightarrow>
      if closest_candidate F G k res sm m \<and> same_word F new m then Some m else None)"
proof -
  obtain d where d: "compute_dist F new m = Inr d" using assms by (auto simp: compute_dist_def Let_def)
  then have w: "same_word F new m \<longleftrightarrow> d = 0" by (simp add: same_word_def)
  show ?thesis
  proof (cases best)
    case None
    then show ?thesis using d w by (simp add: closest_step_def at_zero_def)
  next
    case (Some em)
    obtain e x where "em = (e, x)" by (cases em)
    then show ?thesis using Some d w by (simp add: closest_step_def at_zero_def)
  qed
qed

lemma closest_fold:
  assumes "fi_res (F new) \<in> {2, 4, 8}"
  shows "\<exists>b. foldE (closest_step F G k res sm new) best ms = Inr b \<and>
    at_zero b = (case at_zero best of Some x \<Rightarrow> Some x | None \<Rightarrow>
      List.find (\<lambda>m. closest_candidate F G k res sm m \<and> same_word F new m) ms)"
proof (induction ms arbitrary: best)
  case Nil
  then show ?case by (simp split: option.split)
next
  case (Cons m ms)
  obtain c where c: "closest_step F G k res sm new best m = Inr c"
      "at_zero c = (case at_zero best of Some x \<Rightarrow> Some x | None \<Rightarrow>
        if closest_candidate F G k res sm m \<and> same_word F new m then Some m else None)"
    using closest_step_zero[where F = F and new = new, OF assms] by metis
  show ?case using Cons.IH[of c] c by (auto split: option.splits if_splits)
qed

lemma get_closest_finds:
  assumes "fi_res (F new) \<in> {2, 4, 8}"
  shows "get_closest_mem_fetch F G k r res sm new =
    Inr (List.find (\<lambda>m. closest_candidate F G k res sm m \<and> same_word F new m) (rev (r_buffer r)))"
proof -
  obtain b where "foldE (closest_step F G k res sm new) None (rev (r_buffer r)) = Inr b"
      "at_zero b = List.find (\<lambda>m. closest_candidate F G k res sm m \<and> same_word F new m) (rev (r_buffer r))"
    using closest_fold[where F = F and new = new, OF assms, of G k res sm None "rev (r_buffer r)"] by (auto simp: at_zero_def)
  then show ?thesis by (simp add: get_closest_mem_fetch_def at_zero_def)
qed

end
