(* ===== verification/Decomp_Correct.thy ===== *)
theory Decomp_Correct
  imports Decomp_Pipeline Coal_Correct
begin

text \<open>
  The reply path of a cluster: with a pipeline of one stage, or without merged fetches, every fetch that comes from the network
  reaches the response FIFO once and in order, those merged into a packet behind its head; a deeper pipeline drops merged fetches.
\<close>

section \<open>What is under way\<close>

definition opt_list :: "'a option \<Rightarrow> 'a list" where
  "opt_list x = (case x of None \<Rightarrow> [] | Some a \<Rightarrow> [a])"

definition expand :: "merged_to_same \<Rightarrow> nat \<Rightarrow> nat list" where
  "expand mg m = m # mg m"

definition pending :: "merged_to_same \<Rightarrow> decomp_pl \<Rightarrow> nat list" where
  "pending mg pl = concat (map opt_list (rev (tl (dp_outputs pl)))) @ concat (map (expand mg) (opt_list (dp_input pl)))"

definition splits_at_once :: "nat \<Rightarrow> merged_to_same \<Rightarrow> bool" where
  "splits_at_once n mg \<longleftrightarrow> n = 1 \<or> (\<forall>m. mg m = [])"

lemma opt_list_simps [simp]: "opt_list None = []" "opt_list (Some a) = [a]"
  by (simp_all add: opt_list_def)

text \<open>A run followed by what the cluster puts into the input register.\<close>

lemma run_pending:
  assumes ready: "decomp_ready pl" and n: "length (dp_outputs pl) = n" and one: "splits_at_once n mg"
    and dist: "distinct (pending mg pl)"
  shows "\<exists>q mg' ret fb. decomp_run pl mg = Inr (q, mg', ret, fb) \<and> decomp_ready q \<and> length (dp_outputs q) = n \<and> dp_input q = None \<and>
    splits_at_once n mg' \<and> (ret = None \<longrightarrow> fb = None) \<and>
    pending mg pl = opt_list ret @ concat (map opt_list (rev (tl (dp_outputs q)))) @ concat (map (expand mg') (opt_list fb)) \<and>
    (\<forall>m. m \<notin> set (pending mg pl) \<longrightarrow> expand mg' m = expand mg m)"
proof -
  obtain q where q: "decomp_run pl mg = Inr (q, snd (enter mg (dp_input pl)), hd (decomp_flight pl), fst (enter mg (dp_input pl)))"
      "decomp_ready q" "length (dp_outputs q) = n" "dp_input q = None" "decomp_flight q = tl (decomp_flight pl) @ [None]"
    using decomp_run_shift[OF ready, of mg] n by metis
  have r: "rev (tl (dp_outputs q)) = tl (decomp_flight pl)" using q(4,5) by (simp add: decomp_flight_def)
  show ?thesis
  proof (cases "\<forall>m. mg m = []")
    case True
    then have e: "enter mg (dp_input pl) = (None, mg)" by (simp add: enter_def split_merged_def split: option.split)
    have "concat (map (expand mg) (opt_list x)) = opt_list x" for x using True by (cases x) (simp_all add: expand_def)
    then have "pending mg pl = concat (map opt_list (decomp_flight pl))" by (simp add: pending_def decomp_flight_def)
    also have "\<dots> = opt_list (hd (decomp_flight pl)) @ concat (map opt_list (tl (decomp_flight pl)))"
      by (cases "decomp_flight pl") (simp_all add: decomp_flight_def)
    finally show ?thesis using q e r True by (auto simp: splits_at_once_def)
  next
    case False
    then have n1: "n = 1" using one unfolding splits_at_once_def by blast
    then have tl: "tl (dp_outputs pl) = []" using n by (cases "dp_outputs pl") auto
    then have f: "decomp_flight pl = [dp_input pl]" by (simp add: decomp_flight_def)
    show ?thesis
    proof (cases "dp_input pl")
      case None
      then show ?thesis using q f tl r n1 by (auto simp: enter_def pending_def splits_at_once_def)
    next
      case (Some m)
      have p: "pending mg pl = m # mg m" using Some tl by (simp add: pending_def expand_def)
      show ?thesis
      proof (cases "mg m")
        case Nil
        then show ?thesis using q f r n1 Some p by (auto simp: enter_def split_merged_def splits_at_once_def)
      next
        case (Cons fb rest)
        then have "enter mg (dp_input pl) = (Some fb, mg(m := rest, fb := rest))" using Some by (simp add: enter_def split_merged_def)
        then show ?thesis using q f r n1 Some p Cons by (auto simp: splits_at_once_def expand_def)
      qed
    qed
  qed
qed

section \<open>The cluster\<close>

datatype cluster_op = Take | Cluster_Cycle nat bool

text \<open>A cycle with the size of the FIFO and the compression mode, or the core taking the head of the FIFO; \<open>taken\<close> are the
  fetches it has taken.\<close>

definition cluster_step :: "fetches \<Rightarrow> nat \<Rightarrow> cluster \<times> nat list \<times> nat list \<Rightarrow> cluster_op \<Rightarrow> (cluster \<times> nat list \<times> nat list) cxx" where
  "cluster_step F cluster_id = (\<lambda>(c, net, taken) a. case a of
     Take \<Rightarrow> (case cl_fifo c of [] \<Rightarrow> Inr (c, net, taken) | m # ms \<Rightarrow> Inr (c\<lparr>cl_fifo := ms\<rparr>, net, taken @ [m]))
   | Cluster_Cycle ejection_size mode \<Rightarrow> bindE (cluster_cycle F cluster_id ejection_size mode c net) (\<lambda>(c, net). Inr (c, net, taken)))"

definition path :: "cluster \<Rightarrow> nat list \<Rightarrow> nat list" where
  "path c net = cl_fifo c @ b_buffer (cl_buffer c) @ pending (cl_merged c) (cl_pl c) @ concat (map (expand (cl_merged c)) net)"

definition replies_for :: "fetches \<Rightarrow> nat \<Rightarrow> nat list \<Rightarrow> bool" where
  "replies_for F cluster_id L \<longleftrightarrow> distinct L \<and> (\<forall>m\<in>set L. fi_tpc (F m) = cluster_id \<and> fi_reply (F m))"

definition cluster_inv :: "fetches \<Rightarrow> nat \<Rightarrow> nat \<Rightarrow> nat list \<Rightarrow> cluster \<times> nat list \<times> nat list \<Rightarrow> bool" where
  "cluster_inv F cluster_id n L = (\<lambda>(c, net, taken). replies_for F cluster_id L \<and> taken @ path c net = L \<and>
     decomp_ready (cl_pl c) \<and> length (dp_outputs (cl_pl c)) = n \<and> splits_at_once n (cl_merged c) \<and> b_sub (cl_buffer c) = [])"

lemma phase2_ok:
  assumes "cluster_inv F cid n L (c, net, taken)"
  shows "\<exists>c'. cluster_phase2 F cid ej c = Inr c' \<and> cluster_inv F cid n L (c', net, taken)"
proof (cases "length (cl_fifo c) < ej \<and> b_buffer (cl_buffer c) \<noteq> []")
  case True
  then obtain m ms where b: "b_buffer (cl_buffer c) = m # ms" by (cases "b_buffer (cl_buffer c)") auto
  then have "m \<in> set L" using assms by (auto simp: cluster_inv_def path_def)
  then have m: "fi_tpc (F m) = cid" "fi_reply (F m)" using assms by (auto simp: cluster_inv_def replies_for_def)
  have "cluster_phase2 F cid ej c = Inr (c\<lparr>cl_buffer := (cl_buffer c)\<lparr>b_buffer := ms\<rparr>, cl_fifo := cl_fifo c @ [m]\<rparr>)"
    using True b m assms by (simp add: cluster_phase2_def comp_next_def buffer_top_def comp_del_mem_fetch_def erase_found_def cluster_inv_def)
  then show ?thesis using assms b by (auto simp: cluster_inv_def path_def)
next
  case False
  then have "cluster_phase2 F cid ej c = Inr c"
    by (auto simp: cluster_phase2_def comp_next_def buffer_top_def split: list.split)
  then show ?thesis using assms by simp
qed

lemma phase1_ok:
  assumes inv: "cluster_inv F cid n L (c, net, taken)"
  shows "\<exists>c' net'. cluster_phase1 F mode c net = Inr (c', net') \<and> cluster_inv F cid n L (c', net', taken)"
proof (cases "buffer_space (cl_buffer c)")
  case False
  then show ?thesis using inv by (simp add: cluster_phase1_def)
next
  case True
  have i: "replies_for F cid L" "taken @ path c net = L" "decomp_ready (cl_pl c)" "length (dp_outputs (cl_pl c)) = n"
      "splits_at_once n (cl_merged c)" "b_sub (cl_buffer c) = []"
    using inv by (simp_all add: cluster_inv_def)
  have "distinct (pending (cl_merged c) (cl_pl c))" using i(1,2) by (auto simp: replies_for_def path_def)
  then obtain q mg ret fb where q: "decomp_run (cl_pl c) (cl_merged c) = Inr (q, mg, ret, fb)" "decomp_ready q" "length (dp_outputs q) = n"
      "dp_input q = None" "splits_at_once n mg" "ret = None \<longrightarrow> fb = None"
      "pending (cl_merged c) (cl_pl c) = opt_list ret @ concat (map opt_list (rev (tl (dp_outputs q)))) @ concat (map (expand mg) (opt_list fb))"
      "\<forall>m. m \<notin> set (pending (cl_merged c) (cl_pl c)) \<longrightarrow> expand mg m = expand (cl_merged c) m"
    using run_pending[OF i(3,4,5)] by metis
  have "distinct (taken @ cl_fifo c @ b_buffer (cl_buffer c) @ pending (cl_merged c) (cl_pl c) @ concat (map (expand (cl_merged c)) net))"
    using i(1,2) by (simp add: replies_for_def path_def)
  then have dis: "set (pending (cl_merged c) (cl_pl c)) \<inter> set (concat (map (expand (cl_merged c)) net)) = {}"
    by simp
  have net: "concat (map (expand mg) net) = concat (map (expand (cl_merged c)) net)"
  proof -
    have "m \<notin> set (pending (cl_merged c) (cl_pl c))" if "m \<in> set net" for m
    proof -
      have "m \<in> set (concat (map (expand (cl_merged c)) net))" using that by (auto simp: expand_def)
      then show ?thesis using dis by blast
    qed
    then show ?thesis using q(8) by (metis (no_types, lifting) map_eq_conv)
  qed
  define b where "b = (cl_buffer c)\<lparr>b_buffer := b_buffer (cl_buffer c) @ opt_list ret\<rparr>"
  define p where "p = (case fb of None \<Rightarrow> q | Some f \<Rightarrow> decomp_set_input q f)"
  define c1 where "c1 = c\<lparr>cl_pl := p, cl_merged := mg, cl_buffer := b\<rparr>"
  have step: "cluster_phase1 F mode c net = (if \<not> mode \<and> fb = None then
        (case net of [] \<Rightarrow> Inr (c1, net) | mf # net' \<Rightarrow> Inr (c1\<lparr>cl_pl := decomp_set_input p mf\<rparr>, net'))
      else Inr (c1, net))"
    using True q(1,6) i(6)
    by (cases ret; cases fb; cases net) (simp_all add: cluster_phase1_def comp_push_def c1_def b_def p_def Let_def)
  have inp: "pending mg p = concat (map opt_list (rev (tl (dp_outputs q)))) @ concat (map (expand mg) (opt_list fb))"
    using q(4) by (cases fb) (simp_all add: p_def pending_def decomp_set_input_def)
  have "path c1 net = path c net"
    using net inp q(7) by (simp add: path_def c1_def b_def)
  moreover have pr: "decomp_ready p" "length (dp_outputs p) = n"
    using q(2,3) by (auto simp: p_def decomp_set_input_def decomp_ready_def split: option.split)
  ultimately have inv1: "cluster_inv F cid n L (c1, net, taken)"
    using i q(5) by (simp add: cluster_inv_def c1_def b_def)
  have inv2: "cluster_inv F cid n L (c1\<lparr>cl_pl := decomp_set_input p mf\<rparr>, net', taken)" if "fb = None" "net = mf # net'" for mf net'
  proof -
    have "path (c1\<lparr>cl_pl := decomp_set_input p mf\<rparr>) net' = path c1 net"
      using that q(4) inp by (simp add: path_def c1_def p_def pending_def decomp_set_input_def)
    then show ?thesis using inv1 pr by (simp add: cluster_inv_def c1_def decomp_set_input_def decomp_ready_def)
  qed
  show ?thesis
  proof (cases "\<not> mode \<and> fb = None \<and> net \<noteq> []")
    case True
    then show ?thesis using step inv2 by (cases net) auto
  next
    case False
    then have "cluster_phase1 F mode c net = Inr (c1, net)" using step by (auto split: list.split)
    then show ?thesis using inv1 by simp
  qed
qed

interpretation replies: total_machine "cluster_step F cid" "cluster_inv F cid n L"
proof -
  have step: "\<exists>t. cluster_step F cid x a = Inr t \<and> cluster_inv F cid n L t" if inv: "cluster_inv F cid n L x" for x a
  proof (cases x)
    case (fields c net taken)
    show ?thesis
    proof (cases a)
      case Take
      then show ?thesis using inv fields by (cases "cl_fifo c") (auto simp: cluster_step_def cluster_inv_def path_def)
    next
      case (Cluster_Cycle ej mode)
      obtain c' where c': "cluster_phase2 F cid ej c = Inr c'" "cluster_inv F cid n L (c', net, taken)"
        using phase2_ok inv fields by metis
      obtain c'' net' where "cluster_phase1 F mode c' net = Inr (c'', net')" "cluster_inv F cid n L (c'', net', taken)"
        using phase1_ok[OF c'(2)] by metis
      then show ?thesis using c' Cluster_Cycle fields by (simp add: cluster_step_def cluster_cycle_def)
    qed
  qed
  show "total_machine (cluster_step F cid) (cluster_inv F cid n L)"
  proof
    show "cluster_inv F cid n L t" if "cluster_inv F cid n L s" "cluster_step F cid s a = Inr t" for s a t
      using step[OF that(1), of a] that(2) by simp
    show "okE (cluster_step F cid s a)" if "cluster_inv F cid n L s" for s a
      using step[OF that, of a] by (auto simp: okE_iff)
  qed
qed

definition cluster_new :: "nat \<Rightarrow> nat \<Rightarrow> merged_to_same \<Rightarrow> cluster cxx" where
  "cluster_new n buffer_size mg = bindE (decomp_create n) (\<lambda>pl.
     Inr \<lparr>cl_pl = pl, cl_merged = mg, cl_buffer = buffer_create sub_buffer_new buffer_size 0, cl_fifo = []\<rparr>)"

text \<open>Claim C36. Replies arrive whole and in order.  With a decompression pipeline of one stage, or of any depth when no fetches
  are merged, no cycle faults, and at any time the fetches the core has taken, those in the FIFO, the buffer, the pipeline and the
  network are the fetches that came, in order, each followed by those merged into it.\<close>

theorem replies_in_order:
  assumes "cluster_new n buffer_size mg = Inr c" and "splits_at_once n mg" and "replies_for F cid (concat (map (expand mg) net))"
  shows "\<exists>c' net' taken. foldE (cluster_step F cid) (c, net, []) ops = Inr (c', net', taken) \<and>
    taken @ path c' net' = concat (map (expand mg) net)"
proof -
  have c: "c = \<lparr>cl_pl = \<lparr>dp_input = None, dp_outputs = replicate n None, dp_count = 0\<rparr>, cl_merged = mg,
      cl_buffer = buffer_create sub_buffer_new buffer_size 0, cl_fifo = []\<rparr>" "0 < n"
    using assms(1) by (auto simp: cluster_new_def decomp_create_def split: if_splits)
  obtain k where k: "n = Suc k" using c(2) by (cases n) auto
  have e: "concat (map opt_list (rev (replicate k None))) = []" by (induction k) auto
  have "cluster_inv F cid n (concat (map (expand mg) net)) (c, net, [])"
    using assms(2,3) e by (simp add: cluster_inv_def path_def c(1) k buffer_create_def sub_buffer_new_def pending_def decomp_ready_def)
  from replies.run_total[OF this, of ops] show ?thesis by (auto simp: cluster_inv_def)
qed

definition reply_fetches :: fetches where
  "reply_fetches = (\<lambda>_. \<lparr>fi_part = 0, fi_tpc = 3, fi_write = False, fi_texture = False, fi_atomic = False, fi_reply = True,
     fi_ctrl = 8, fi_size = 136, fi_data = 128, fi_res = 4, fi_word = (\<lambda>_. 0)\<rparr>)"

text \<open>A packet of three fetches and one of one; five cycles and three fetches taken by the core.\<close>

theorem replies_in_order_witness:
  "\<exists>c c' net' taken. cluster_new 1 8 ((\<lambda>_. [])(10 := [11, 12])) = Inr c \<and>
    foldE (cluster_step reply_fetches 3) (c, [10, 20], [])
      (replicate 5 (Cluster_Cycle 4 False) @ [Take, Take, Take]) = Inr (c', net', taken) \<and>
    taken @ path c' net' = [10, 11, 12, 20]"
proof -
  let ?mg = "(\<lambda>_. [])(10 := [11, 12]) :: merged_to_same"
  have "\<exists>c. cluster_new 1 8 ?mg = Inr c" by (simp add: cluster_new_def decomp_create_def)
  then obtain c where c: "cluster_new 1 8 ?mg = Inr c" by blast
  have "replies_for reply_fetches 3 (concat (map (expand ?mg) [10, 20]))"
    by (simp add: replies_for_def reply_fetches_def expand_def)
  from replies_in_order[OF c _ this, of "replicate 5 (Cluster_Cycle 4 False) @ [Take, Take, Take]"] c
  show ?thesis by (auto simp: splits_at_once_def expand_def)
qed

section \<open>Deeper pipelines\<close>

text \<open>With two stages a merged fetch is lost.  The fetch split off is fed back only in a cycle in which another fetch
  leaves the pipeline; the packet of two that arrives at an idle cluster leaves as one.\<close>

theorem deep_pipeline_drops:
  "\<exists>c c' taken. cluster_new 2 8 ((\<lambda>_. [])(10 := [11])) = Inr c \<and>
    foldE (cluster_step reply_fetches 3) (c, [10], []) (replicate 6 (Cluster_Cycle 4 False) @ [Take]) = Inr (c', [], taken) \<and>
    taken = [10] \<and> cl_fifo c' = [] \<and> b_buffer (cl_buffer c') = [] \<and> dp_input (cl_pl c') = None \<and>
    dp_outputs (cl_pl c') = [None, None]"
  by (simp add: cluster_new_def decomp_create_def numeral_eq_Suc cluster_step_def cluster_cycle_def cluster_phase2_def
      cluster_phase1_def comp_next_def buffer_top_def buffer_create_def sub_buffer_new_def buffer_space_def decomp_run_def
      decomp_stage_def proc_move_def out_clean_def out_set_def split_merged_def decomp_set_input_def comp_push_def
      comp_del_mem_fetch_def erase_found_def reply_fetches_def Let_def upt_rec)

end
