(* ===== verification/Dram_Sched.thy ===== *)
theory Dram_Sched
  imports Delay_Queue Mem_Access "HOL-Library.Multiset"
begin

text \<open>
  The requests of the memory controller (\<open>dram_req_t\<close> of dram.h, dram.cc) and the scheduler that serves row hits
  first (\<open>frfcfs_scheduler\<close> of dram_sched.h, dram_sched.cc).  A \<open>dram_req_t*\<close> is an address of an explicit store,
  since a bank and the data queue share a request and both change it; following a pointer to a deleted request is a
  fault.  A list node of \<open>m_queue\<close> is a number, so that the iterators that \<open>m_bins\<close> keeps are these numbers, and
  erasing through an iterator whose node is gone is a fault.  A pointer to a value of a \<open>std::map\<close> is its key.
  \<open>m_num_pending\<close> counts list nodes and is a natural number.  Of \<open>mem_fetch\<close> the members are here that the controller
  reads; its status and the timestamps of tracing are left out.
\<close>

section \<open>Requests\<close>

datatype mf_type = READ_REQUEST | WRITE_REQUEST | READ_REPLY | WRITE_ACK | CTRL_MSG

record dram_fetch =
  m_request_uid :: u32
  mf_access_type :: mem_access_type
  mf_is_write :: bool
  m_mf_type :: mf_type
  tlx_chip :: u32
  tlx_bk :: u32
  tlx_row :: u32
  tlx_col :: u32
  tlx_sub_partition :: u32
  mf_addr :: u64
  mf_data_size :: u32

definition set_reply :: "dram_fetch \<Rightarrow> dram_fetch cxx" where
  "set_reply mf =
     assertE (mf_access_type mf \<noteq> L1_WRBK_ACC \<and> mf_access_type mf \<noteq> L2_WRBK_ACC)
       (if m_mf_type mf = READ_REQUEST then assertE (\<not> mf_is_write mf) (Inr (mf\<lparr>m_mf_type := READ_REPLY\<rparr>))
        else if m_mf_type mf = WRITE_REQUEST then assertE (mf_is_write mf) (Inr (mf\<lparr>m_mf_type := WRITE_ACK\<rparr>))
        else Inr mf)"

datatype dram_rw = READ | WRITE

record dram_req =
  req_row :: u32
  req_col :: u32
  req_bk :: nat
  req_nbytes :: u32
  txbytes :: u32
  dqbytes :: u32
  req_timestamp :: u32
  req_rw :: dram_rw
  req_addr :: u64
  req_insertion_time :: u32
  req_data :: dram_fetch

definition dram_req_t :: "u64 \<Rightarrow> u64 \<Rightarrow> dram_fetch \<Rightarrow> dram_req" where
  "dram_req_t sim_cycle tot_sim_cycle mf =
     \<lparr>req_row = tlx_row mf, req_col = tlx_col mf, req_bk = unat (tlx_bk mf), req_nbytes = mf_data_size mf,
      txbytes = 0, dqbytes = 0, req_timestamp = ucast (tot_sim_cycle + sim_cycle),
      req_rw = (if mf_is_write mf then WRITE else READ), req_addr = mf_addr mf,
      req_insertion_time = ucast sim_cycle, req_data = mf\<rparr>"

type_synonym req_store = "nat \<Rightarrow> dram_req option"

definition deref :: "req_store \<Rightarrow> nat \<Rightarrow> dram_req cxx" where
  "deref h p = (case h p of None \<Rightarrow> Inl Undefined_Behaviour | Some r \<Rightarrow> Inr r)"

section \<open>The scheduler\<close>

record row_stats =
  curr_row_service_time :: u32
  row_service_timestamp :: u32
  max_servicetime2samerow :: u32
  concurrent_row_access :: u32
  max_conc_access2samerow :: u32
  num_activates :: u32
  row_access :: u32

record frfcfs =
  m_num_pending :: nat
  m_queue :: "(nat \<times> nat) list list"     \<comment> \<open>per bank the nodes, newest first, with the request of each\<close>
  m_bins :: "(u32 \<Rightarrow> nat list option) list"  \<comment> \<open>per bank and row the nodes, newest first\<close>
  m_last_row :: "u32 option list"
  m_row_stats :: "row_stats list"
  next_node :: nat

definition frfcfs_scheduler :: "nat \<Rightarrow> frfcfs" where
  "frfcfs_scheduler nbk =
     \<lparr>m_num_pending = 0, m_queue = replicate nbk [], m_bins = replicate nbk (\<lambda>_. None),
      m_last_row = replicate nbk None,
      m_row_stats = replicate nbk \<lparr>curr_row_service_time = 0, row_service_timestamp = 0, max_servicetime2samerow = 0,
        concurrent_row_access = 0, max_conc_access2samerow = 0, num_activates = 0, row_access = 0\<rparr>,
      next_node = 0\<rparr>"

text \<open>\<open>m_bins[bk][row]\<close> makes an empty list for a row that is not there.\<close>

definition add_req :: "req_store \<Rightarrow> frfcfs \<Rightarrow> nat \<Rightarrow> frfcfs cxx" where
  "add_req h s p =
     bindE (deref h p) (\<lambda>r.
       if req_bk r < length (m_queue s) then
         (let b = req_bk r; n = next_node s; bins = m_bins s ! b;
              bin = (case bins (req_row r) of None \<Rightarrow> [] | Some l \<Rightarrow> l)
          in Inr (s\<lparr>m_num_pending := m_num_pending s + 1,
                    m_queue := (m_queue s)[b := (n, p) # m_queue s ! b],
                    m_bins := (m_bins s)[b := bins(req_row r := Some (n # bin))],
                    next_node := n + 1\<rparr>))
       else Inl Out_Of_Range)"

definition data_collection :: "u64 \<Rightarrow> row_stats \<Rightarrow> row_stats" where
  "data_collection sim_cycle st =
     (let t = (ucast (sim_cycle - ucast (row_service_timestamp st)) :: u32);
          st1 = (if ucast (row_service_timestamp st) < sim_cycle
                 then st\<lparr>max_servicetime2samerow := max t (max_servicetime2samerow st)\<rparr> else st)
      in st1\<lparr>curr_row_service_time := 0, row_service_timestamp := ucast sim_cycle,
             max_conc_access2samerow := max (concurrent_row_access st1) (max_conc_access2samerow st1),
             concurrent_row_access := 0, num_activates := num_activates st1 + 1\<rparr>)"

text \<open>The first half of \<open>schedule\<close>: the row to serve, when none is being served.  \<open>None\<close> is the early return.\<close>

definition choose_row :: "req_store \<Rightarrow> u64 \<Rightarrow> frfcfs \<Rightarrow> nat \<Rightarrow> u32 \<Rightarrow> frfcfs option cxx" where
  "choose_row h sim_cycle s bank cur =
     (if m_last_row s ! bank \<noteq> None then Inr (Some s)
      else if m_queue s ! bank = [] then Inr None
      else case (m_bins s ! bank) cur of
        Some _ \<Rightarrow> Inr (Some (s\<lparr>m_last_row := (m_last_row s)[bank := Some cur]\<rparr>))
      | None \<Rightarrow>
          bindE (deref h (snd (last (m_queue s ! bank)))) (\<lambda>req.
            assertE ((m_bins s ! bank) (req_row req) \<noteq> None)
              (Inr (Some (s\<lparr>m_last_row := (m_last_row s)[bank := Some (req_row req)],
                 m_row_stats := (m_row_stats s)[bank := data_collection sim_cycle (m_row_stats s ! bank)]\<rparr>)))))"

text \<open>The second half: the oldest request of that row leaves the queue and its bin.\<close>

definition take_from_row :: "req_store \<Rightarrow> frfcfs \<Rightarrow> nat \<Rightarrow> (frfcfs \<times> nat) cxx" where
  "take_from_row h s bank =
     (case m_last_row s ! bank of None \<Rightarrow> Inl Undefined_Behaviour | Some row \<Rightarrow>
      (case (m_bins s ! bank) row of None \<Rightarrow> Inl Undefined_Behaviour | Some bin \<Rightarrow>
       (if bin = [] then Inl Undefined_Behaviour else
        (case map_of (m_queue s ! bank) (last bin) of None \<Rightarrow> Inl Undefined_Behaviour | Some p \<Rightarrow>
          (let st = m_row_stats s ! bank;
               s1 = s\<lparr>m_row_stats := (m_row_stats s)[bank :=
                        st\<lparr>concurrent_row_access := concurrent_row_access st + 1, row_access := row_access st + 1\<rparr>],
                      m_bins := (m_bins s)[bank := (m_bins s ! bank)(row := Some (butlast bin))],
                      m_queue := (m_queue s)[bank := filter (\<lambda>e. fst e \<noteq> last bin) (m_queue s ! bank)]\<rparr>
           in bindE (deref h p) (\<lambda>req.
             let s2 = (if butlast bin = []
                       then s1\<lparr>m_bins := (m_bins s1)[bank := (m_bins s1 ! bank)(req_row req := None)],
                               m_last_row := (m_last_row s1)[bank := None]\<rparr>
                       else s1)
             in assertE (m_num_pending s2 \<noteq> 0)
                  (Inr (s2\<lparr>m_num_pending := m_num_pending s2 - 1\<rparr>, p))))))))"

definition schedule :: "req_store \<Rightarrow> u64 \<Rightarrow> frfcfs \<Rightarrow> nat \<Rightarrow> u32 \<Rightarrow> (frfcfs \<times> nat option) cxx" where
  "schedule h sim_cycle s bank cur =
     (if length (m_queue s) \<le> bank then Inl Out_Of_Range
      else bindE (choose_row h sim_cycle s bank cur) (\<lambda>c.
        case c of None \<Rightarrow> Inr (s, None)
        | Some s1 \<Rightarrow> bindE (take_from_row h s1 bank) (\<lambda>r. Inr (fst r, Some (snd r)))))"

section \<open>The invariant\<close>

definition row_of :: "req_store \<Rightarrow> nat \<Rightarrow> u32" where
  "row_of h p = (case h p of None \<Rightarrow> 0 | Some r \<Rightarrow> req_row r)"

definition bin_of :: "req_store \<Rightarrow> (nat \<times> nat) list \<Rightarrow> u32 \<Rightarrow> nat list option" where
  "bin_of h q row =
     (let l = map fst (filter (\<lambda>e. row_of h (snd e) = row) q) in if l = [] then None else Some l)"

definition bank_queue_ok :: "req_store \<Rightarrow> frfcfs \<Rightarrow> nat \<Rightarrow> bool" where
  "bank_queue_ok h s b \<longleftrightarrow>
     distinct (map fst (m_queue s ! b)) \<and> (\<forall>e \<in> set (m_queue s ! b). fst e < next_node s) \<and>
     (\<forall>e \<in> set (m_queue s ! b). \<exists>r. h (snd e) = Some r \<and> req_bk r = b) \<and>
     m_bins s ! b = bin_of h (m_queue s ! b) \<and>
     (\<forall>row. m_last_row s ! b = Some row \<longrightarrow> bin_of h (m_queue s ! b) row \<noteq> None)"

definition sched_ok :: "req_store \<Rightarrow> frfcfs \<Rightarrow> nat \<Rightarrow> bool" where
  "sched_ok h s nbk \<longleftrightarrow>
     length (m_queue s) = nbk \<and> length (m_bins s) = nbk \<and> length (m_last_row s) = nbk \<and>
     length (m_row_stats s) = nbk \<and> m_num_pending s = length (concat (m_queue s)) \<and>
     (\<forall>b < nbk. bank_queue_ok h s b)"

definition sched_waiting :: "frfcfs \<Rightarrow> nat list" where
  "sched_waiting s = map snd (concat (m_queue s))"

lemma sched_okD:
  assumes "sched_ok h s nbk"
  shows "length (m_queue s) = nbk" "length (m_bins s) = nbk" "length (m_last_row s) = nbk"
    "length (m_row_stats s) = nbk" "m_num_pending s = length (concat (m_queue s))"
    "b < nbk \<Longrightarrow> bank_queue_ok h s b"
  using assms by (auto simp: sched_ok_def)

lemma sched_ok_new: "sched_ok h (frfcfs_scheduler nbk) nbk"
proof -
  have "concat (replicate nbk ([] :: (nat \<times> nat) list)) = []" by (induction nbk) auto
  then show ?thesis by (auto simp: sched_ok_def bank_queue_ok_def frfcfs_scheduler_def bin_of_def fun_eq_iff)
qed

lemma sched_waiting_new [simp]: "sched_waiting (frfcfs_scheduler nbk) = []"
  by (induction nbk) (auto simp: sched_waiting_def frfcfs_scheduler_def)

lemma concat_update_mset:
  "b < length qs \<Longrightarrow> mset (concat (qs[b := x])) + mset (qs ! b) = mset (concat qs) + mset x"
proof (induction qs arbitrary: b)
  case (Cons q qs)
  then show ?case by (cases b) (auto simp: ac_simps)
qed simp

lemma concat_update_length:
  "b < length qs \<Longrightarrow> length (concat (qs[b := x])) + length (qs ! b) = length (concat qs) + length x"
  using arg_cong[OF concat_update_mset[of b qs x], of size] by simp

text \<open>The store may change as long as the requests that wait keep their bank and row.\<close>

lemma bin_of_cong: "(\<And>e. e \<in> set q \<Longrightarrow> row_of h (snd e) = row_of h' (snd e)) \<Longrightarrow> bin_of h q = bin_of h' q"
proof
  fix row
  assume eq: "\<And>e. e \<in> set q \<Longrightarrow> row_of h (snd e) = row_of h' (snd e)"
  have "filter (\<lambda>e. row_of h (snd e) = row) q = filter (\<lambda>e. row_of h' (snd e) = row) q"
    by (rule filter_cong) (simp_all add: eq)
  then show "bin_of h q row = bin_of h' q row" by (simp add: bin_of_def)
qed

lemma sched_ok_store:
  assumes "sched_ok h s nbk"
    and "\<And>p. p \<in> set (sched_waiting s) \<Longrightarrow> map_option req_bk (h' p) = map_option req_bk (h p) \<and> row_of h' p = row_of h p"
  shows "sched_ok h' s nbk"
proof -
  have "bank_queue_ok h' s b" if b: "b < nbk" for b
  proof -
    have w: "snd e \<in> set (sched_waiting s)" if "e \<in> set (m_queue s ! b)" for e
      using that b sched_okD(1)[OF assms(1)] by (force simp: sched_waiting_def)
    have eq: "bin_of h' (m_queue s ! b) = bin_of h (m_queue s ! b)"
      by (rule bin_of_cong) (use assms(2) w in blast)
    have live: "\<exists>r. h' (snd e) = Some r \<and> req_bk r = b" if "e \<in> set (m_queue s ! b)" for e
      using assms(2)[OF w[OF that]] sched_okD(6)[OF assms(1) b] that
      by (fastforce simp: bank_queue_ok_def)
    show ?thesis using sched_okD(6)[OF assms(1) b] live by (auto simp: bank_queue_ok_def eq)
  qed
  then show ?thesis using assms(1) by (simp add: sched_ok_def)
qed


section \<open>First ready, first come, first served\<close>

text \<open>
  What the scheduler promises of a bank whose waiting requests are \<open>w\<close>, oldest first: the row being served is kept
  while requests to it wait; a new row is the open one if some request wants it, else that of the oldest request;
  of the requests to the row the oldest is served.
\<close>

definition pick_row :: "(nat \<Rightarrow> u32) \<Rightarrow> nat list \<Rightarrow> u32 option \<Rightarrow> u32 \<Rightarrow> u32" where
  "pick_row f w lst cur =
     (case lst of Some r \<Rightarrow> r | None \<Rightarrow> if list_ex (\<lambda>p. f p = cur) w then cur else f (hd w))"

definition fr_fcfs :: "(nat \<Rightarrow> u32) \<Rightarrow> nat list \<Rightarrow> u32 option \<Rightarrow> u32 \<Rightarrow> (nat list \<times> u32 option \<times> nat) option" where
  "fr_fcfs f w lst cur =
     (if w = [] then None
      else (let r = pick_row f w lst cur; p = hd (filter (\<lambda>p. f p = r) w); w' = remove1 p w
            in Some (w', if list_ex (\<lambda>p. f p = r) w' then Some r else None, p)))"

definition bank_pending :: "frfcfs \<Rightarrow> nat \<Rightarrow> nat list" where
  "bank_pending s b = rev (map snd (m_queue s ! b))"

lemma oldest_of_row:
  assumes "distinct (map fst q)" and "\<exists>e \<in> set q. f (snd e) = r"
  obtains us n p vs where "q = us @ (n, p) # vs" "f p = r" "\<forall>e \<in> set vs. f (snd e) \<noteq> r"
    "map_of q n = Some p" "filter (\<lambda>e. fst e \<noteq> n) q = us @ vs"
    "n \<notin> fst ` set us" "n \<notin> fst ` set vs"
proof -
  from split_list_last_prop[OF assms(2)] obtain us e vs where
    q: "q = us @ e # vs" "f (snd e) = r" "\<forall>e \<in> set vs. f (snd e) \<noteq> r" by blast
  have n: "fst e \<notin> fst ` set us" "fst e \<notin> fst ` set vs" using assms(1) q(1) by auto
  have "filter (\<lambda>x. fst x \<noteq> fst e) us = us" "filter (\<lambda>x. fst x \<noteq> fst e) vs = vs"
    using n by (auto intro!: filter_True simp: image_iff)
  then have "filter (\<lambda>x. fst x \<noteq> fst e) q = us @ vs" by (simp add: q(1))
  moreover have "map_of q (fst e) = Some (snd e)"
    using assms(1) q(1) by (intro map_of_is_SomeI) auto
  ultimately show ?thesis using that[of us "fst e" "snd e" vs] q n by simp
qed

lemma bin_of_remove:
  assumes "row_of h p = r" and "\<forall>e \<in> set vs. row_of h (snd e) \<noteq> r"
  shows "bin_of h (us @ (n, p) # vs) r = Some (map fst (filter (\<lambda>e. row_of h (snd e) = r) us) @ [n])"
    and "bin_of h (us @ vs) r = (let l = map fst (filter (\<lambda>e. row_of h (snd e) = r) us) in if l = [] then None else Some l)"
    and "r' \<noteq> r \<Longrightarrow> bin_of h (us @ (n, p) # vs) r' = bin_of h (us @ vs) r'"
proof -
  have vs: "filter (\<lambda>e. row_of h (snd e) = r) vs = []" using assms(2) by (simp add: filter_empty_conv)
  show "bin_of h (us @ (n, p) # vs) r = Some (map fst (filter (\<lambda>e. row_of h (snd e) = r) us) @ [n])"
    using assms(1) vs by (simp add: bin_of_def Let_def)
  show "bin_of h (us @ vs) r = (let l = map fst (filter (\<lambda>e. row_of h (snd e) = r) us) in if l = [] then None else Some l)"
    using vs by (simp add: bin_of_def Let_def)
  show "r' \<noteq> r \<Longrightarrow> bin_of h (us @ (n, p) # vs) r' = bin_of h (us @ vs) r'"
    using assms(1) by (auto simp: bin_of_def Let_def)
qed

lemma bin_of_None: "bin_of h q r = None \<longleftrightarrow> (\<forall>e \<in> set q. row_of h (snd e) \<noteq> r)"
  by (auto simp: bin_of_def Let_def filter_empty_conv)

lemma remove_oldest:
  assumes "\<forall>e \<in> set vs. f (snd e) \<noteq> f p"
  shows "hd (filter (\<lambda>x. f x = f p) (rev (map snd (us @ (n, p) # vs)))) = p"
    and "remove1 p (rev (map snd (us @ (n, p) # vs))) = rev (map snd (us @ vs))"
proof -
  have "filter (\<lambda>x. f x = f p) (rev (map snd vs)) = []" using assms by (auto simp: filter_empty_conv)
  then show "hd (filter (\<lambda>x. f x = f p) (rev (map snd (us @ (n, p) # vs)))) = p" by simp
  have "p \<notin> set (rev (map snd vs))" using assms by auto
  then show "remove1 p (rev (map snd (us @ (n, p) # vs))) = rev (map snd (us @ vs))"
    by (simp add: remove1_append)
qed

text \<open>The second half, from a bank whose row is chosen.\<close>

lemma take_from_row_ok:
  assumes ok: "sched_ok h s nbk" and b: "bank < nbk" and r: "m_last_row s ! bank = Some r"
  shows "\<exists>s' p. take_from_row h s bank = Inr (s', p) \<and> sched_ok h s' nbk \<and>
    p = hd (filter (\<lambda>p. row_of h p = r) (bank_pending s bank)) \<and> bank_pending s' bank = remove1 p (bank_pending s bank) \<and>
    m_last_row s' ! bank = (if list_ex (\<lambda>p. row_of h p = r) (bank_pending s' bank) then Some r else None) \<and>
    (\<forall>b. b \<noteq> bank \<longrightarrow> m_queue s' ! b = m_queue s ! b \<and> m_last_row s' ! b = m_last_row s ! b) \<and>
    mset (sched_waiting s) = add_mset p (mset (sched_waiting s'))"
proof -
  note D = sched_okD[OF ok]
  let ?q = "m_queue s ! bank"
  have bq: "bank_queue_ok h s bank" by (rule D(6)[OF b])
  have dist: "distinct (map fst ?q)" and bins: "m_bins s ! bank = bin_of h ?q"
    and rows: "bin_of h ?q r \<noteq> None" using bq r by (auto simp: bank_queue_ok_def)
  from rows have ex: "\<exists>e \<in> set ?q. row_of h (snd e) = r" by (simp add: bin_of_None)
  obtain us n p vs where q: "?q = us @ (n, p) # vs" "row_of h p = r" "\<forall>e \<in> set vs. row_of h (snd e) \<noteq> r"
    "map_of ?q n = Some p" "filter (\<lambda>e. fst e \<noteq> n) ?q = us @ vs" "n \<notin> fst ` set us" "n \<notin> fst ` set vs"
    by (rule oldest_of_row[OF dist ex])
  let ?l = "map fst (filter (\<lambda>e. row_of h (snd e) = r) us)"
  note rem = bin_of_remove[OF q(2,3)]
  have bin: "bin_of h ?q r = Some (?l @ [n])" using rem(1)[of us n] q(1) by simp
  obtain req where req: "h p = Some req" "req_row req = r"
    using bq q(1,2) by (fastforce simp: bank_queue_ok_def row_of_def)
  define s1 where "s1 = s\<lparr>m_row_stats := (m_row_stats s)[bank := (m_row_stats s ! bank)
        \<lparr>concurrent_row_access := concurrent_row_access (m_row_stats s ! bank) + 1,
         row_access := row_access (m_row_stats s ! bank) + 1\<rparr>],
      m_bins := (m_bins s)[bank := bin_of h (us @ vs)], m_queue := (m_queue s)[bank := us @ vs]\<rparr>"
  define s2 where "s2 = s1\<lparr>m_last_row := (m_last_row s)[bank := if ?l = [] then None else Some r],
      m_num_pending := m_num_pending s - 1\<rparr>"
  have upd: "(bin_of h ?q)(r := if ?l = [] then None else Some ?l) = bin_of h (us @ vs)"
    using rem(2)[of us] rem(3)[of _ us n] q(1) by (auto simp: fun_eq_iff Let_def)
  have cat: "length (concat ((m_queue s)[bank := us @ vs])) + 1 = length (concat (m_queue s))"
    using concat_update_length[of bank "m_queue s" "us @ vs"] D(1) b q(1) by simp
  have num: "m_num_pending s \<noteq> 0" using cat D(5) by linarith
  have last: "(m_last_row s)[bank := Some r] = m_last_row s" using r list_update_id[of "m_last_row s" bank] by simp
  have eq: "take_from_row h s bank = Inr (s2, p)"
    unfolding take_from_row_def
    using r bins bin q(4,5) req num upd D(2,3) b last
    by (cases "?l = []") (simp_all add: deref_def s2_def s1_def Let_def)
  have lrow: "(if ?l = [] then None else Some r) = Some row \<Longrightarrow> bin_of h (us @ vs) row \<noteq> None" for row
    using rem(2)[of us] by (auto simp: Let_def split: if_splits)
  have bank': "bank_queue_ok h s2 bank"
    using bq q(1,6,7) D(1-3) b lrow by (auto simp: bank_queue_ok_def s2_def s1_def)
  have others: "bank_queue_ok h s2 c" if "c < nbk" "c \<noteq> bank" for c
    using D(6)[OF that(1)] that(2) by (simp add: bank_queue_ok_def s2_def s1_def)
  have "bank_queue_ok h s2 c" if "c < nbk" for c using bank' others[OF that] by (cases "c = bank") auto
  then have ok2: "sched_ok h s2 nbk" using D(1-5) cat by (simp add: sched_ok_def s2_def s1_def)
  have pend: "bank_pending s2 bank = rev (map snd (us @ vs))" using D(1) b by (simp add: bank_pending_def s2_def s1_def)
  have oldest: "\<forall>e \<in> set vs. row_of h (snd e) \<noteq> row_of h p" using q(2,3) by simp
  note ro = remove_oldest[of vs "row_of h" p us n, OF oldest, folded q(1), folded bank_pending_def]
  have lr: "m_last_row s2 ! bank = (if list_ex (\<lambda>p. row_of h p = r) (bank_pending s2 bank) then Some r else None)"
  proof -
    have "list_ex (\<lambda>p. row_of h p = r) (bank_pending s2 bank) \<longleftrightarrow> (\<exists>e \<in> set us. row_of h (snd e) = r)"
      unfolding pend list_ex_iff set_rev set_map set_append using q(3) by blast
    also have "\<dots> \<longleftrightarrow> ?l \<noteq> []" by (simp add: filter_empty_conv)
    finally show ?thesis using D(3) b by (simp add: s2_def s1_def)
  qed
  have "mset (sched_waiting s) = add_mset p (mset (sched_waiting s2))"
  proof -
    have "mset (concat (m_queue s2)) + mset ?q = mset (concat (m_queue s)) + mset (us @ vs)"
      using concat_update_mset[of bank "m_queue s" "us @ vs"] D(1) b by (simp add: s2_def s1_def)
    then have "mset (concat (m_queue s)) = add_mset (n, p) (mset (concat (m_queue s2)))" using q(1) by simp
    then show ?thesis by (simp add: sched_waiting_def)
  qed
  then show ?thesis
    using eq ok2 ro(1) q(2) ro(2) pend lr by (intro exI[of _ s2] exI[of _ p]) (simp add: s2_def s1_def)
qed

text \<open>The first half: the state differs in the row of the bank and in the statistics.\<close>

lemma choose_row_ok:
  assumes ok: "sched_ok h s nbk" and b: "bank < nbk" and w: "m_queue s ! bank \<noteq> []"
  shows "\<exists>s1. choose_row h now s bank cur = Inr (Some s1) \<and> sched_ok h s1 nbk \<and> m_queue s1 = m_queue s \<and>
    m_last_row s1 = (m_last_row s)[bank := Some (pick_row (row_of h) (bank_pending s bank) (m_last_row s ! bank) cur)]"
proof -
  note D = sched_okD[OF ok]
  let ?q = "m_queue s ! bank"
  have bq: "bank_queue_ok h s bank" by (rule D(6)[OF b])
  have bins: "m_bins s ! bank = bin_of h ?q" using bq by (simp add: bank_queue_ok_def)
  have upd: "sched_ok h (s\<lparr>m_last_row := (m_last_row s)[bank := Some row], m_row_stats := st\<rparr>) nbk"
    if "bin_of h ?q row \<noteq> None" "length st = nbk" for row st
  proof -
    have "bank_queue_ok h (s\<lparr>m_last_row := (m_last_row s)[bank := Some row], m_row_stats := st\<rparr>) c"
      if "c < nbk" for c
      using D(6)[OF that] bq \<open>bin_of h ?q row \<noteq> None\<close> D(3) b
      by (cases "c = bank") (auto simp: bank_queue_ok_def)
    then show ?thesis using D(1-5) that(2) by (simp add: sched_ok_def)
  qed
  show ?thesis
  proof (cases "m_last_row s ! bank")
    case (Some r)
    then show ?thesis using ok list_update_id[of "m_last_row s" bank] by (simp add: choose_row_def pick_row_def)
  next
    case None
    show ?thesis
    proof (cases "bin_of h ?q cur")
      case (Some l)
      then have "list_ex (\<lambda>p. row_of h p = cur) (bank_pending s bank)"
        using bin_of_None[of h ?q cur] by (auto simp: bank_pending_def list_ex_iff)
      then show ?thesis using None Some w bins upd[of cur "m_row_stats s"] D(4)
        by (simp add: choose_row_def pick_row_def)
    next
      case no: None
      obtain e where e: "e = last ?q" "e \<in> set ?q" using w by simp
      obtain req where req: "h (snd e) = Some req" using bq e(2) by (auto simp: bank_queue_ok_def)
      have row: "row_of h (snd e) = req_row req" using req by (simp add: row_of_def)
      have bin: "bin_of h ?q (req_row req) \<noteq> None" using e(2) row by (auto simp: bin_of_None)
      have hd: "hd (bank_pending s bank) = snd e" using w e(1) by (simp add: bank_pending_def hd_rev last_map)
      have "\<not> list_ex (\<lambda>p. row_of h p = cur) (bank_pending s bank)"
        using no by (auto simp: bin_of_None bank_pending_def list_ex_iff)
      then show ?thesis
        using None no w bins bin req e(1) hd row D(4) upd[OF bin, of "(m_row_stats s)[bank := data_collection now (m_row_stats s ! bank)]"]
        by (simp add: choose_row_def pick_row_def deref_def)
    qed
  qed
qed

lemma schedule_ok:
  assumes "sched_ok h s nbk" and "bank < nbk"
  shows "\<exists>s' res. schedule h now s bank cur = Inr (s', res) \<and> sched_ok h s' nbk \<and>
    fr_fcfs (row_of h) (bank_pending s bank) (m_last_row s ! bank) cur =
      map_option (\<lambda>p. (bank_pending s' bank, m_last_row s' ! bank, p)) res \<and>
    (\<forall>b. b \<noteq> bank \<longrightarrow> bank_pending s' b = bank_pending s b \<and> m_last_row s' ! b = m_last_row s ! b) \<and>
    mset (sched_waiting s) = mset (case res of None \<Rightarrow> [] | Some p \<Rightarrow> [p]) + mset (sched_waiting s')"
proof (cases "m_queue s ! bank = []")
  case True
  have "m_last_row s ! bank = None"
    using sched_okD(6)[OF assms] True by (auto simp: bank_queue_ok_def bin_of_def)
  then have "schedule h now s bank cur = Inr (s, None)"
    using True assms(2) sched_okD(1)[OF assms(1)] by (simp add: schedule_def choose_row_def)
  then show ?thesis using assms(1) True by (simp add: fr_fcfs_def bank_pending_def)
next
  case False
  let ?r = "pick_row (row_of h) (bank_pending s bank) (m_last_row s ! bank) cur"
  obtain s1 where s1: "choose_row h now s bank cur = Inr (Some s1)" "sched_ok h s1 nbk" "m_queue s1 = m_queue s"
    "m_last_row s1 = (m_last_row s)[bank := Some ?r]" using choose_row_ok[OF assms False] by blast
  have last: "m_last_row s1 ! bank = Some ?r" using s1(4) sched_okD(3)[OF assms(1)] assms(2) by simp
  obtain s' p where t: "take_from_row h s1 bank = Inr (s', p)" "sched_ok h s' nbk"
    "p = hd (filter (\<lambda>p. row_of h p = ?r) (bank_pending s1 bank))" "bank_pending s' bank = remove1 p (bank_pending s1 bank)"
    "m_last_row s' ! bank = (if list_ex (\<lambda>p. row_of h p = ?r) (bank_pending s' bank) then Some ?r else None)"
    "\<forall>b. b \<noteq> bank \<longrightarrow> m_queue s' ! b = m_queue s1 ! b \<and> m_last_row s' ! b = m_last_row s1 ! b"
    "mset (sched_waiting s1) = add_mset p (mset (sched_waiting s'))"
    using take_from_row_ok[OF s1(2) assms(2) last] by blast
  have pend: "bank_pending s1 = bank_pending s" "sched_waiting s1 = sched_waiting s" using s1(3) by (simp_all add: bank_pending_def sched_waiting_def fun_eq_iff)
  have "schedule h now s bank cur = Inr (s', Some p)"
    using s1(1) t(1) assms(2) sched_okD(1)[OF assms(1)] by (simp add: schedule_def)
  moreover have "fr_fcfs (row_of h) (bank_pending s bank) (m_last_row s ! bank) cur = Some (bank_pending s' bank, m_last_row s' ! bank, p)"
    using False t(3,4,5) by (simp add: fr_fcfs_def pend Let_def) (simp add: bank_pending_def)
  ultimately show ?thesis
    using t(2,6,7) s1(3,4) by (intro exI[of _ s'] exI[of _ "Some p"]) (simp add: pend bank_pending_def)
qed

text \<open>Claim C39. The scheduler serves first the row that is open and then the oldest request: from a state that
  satisfies the invariant \<open>schedule\<close> meets no failed assertion, dangling iterator or dead pointer, returns the request
  that the specification \<open>fr_fcfs\<close> picks from the requests waiting for the bank, leaves those the specification leaves
  and the row being served, touches no other bank, and keeps the invariant.\<close>

theorem frfcfs_refines:
  assumes "sched_ok h s nbk" and "bank < nbk"
  shows "\<exists>s' res. schedule h now s bank cur = Inr (s', res) \<and> sched_ok h s' nbk \<and>
    fr_fcfs (row_of h) (bank_pending s bank) (m_last_row s ! bank) cur =
      map_option (\<lambda>p. (bank_pending s' bank, m_last_row s' ! bank, p)) res \<and>
    (\<forall>b. b \<noteq> bank \<longrightarrow> bank_pending s' b = bank_pending s b \<and> m_last_row s' ! b = m_last_row s ! b) \<and>
    mset (sched_waiting s) = mset (case res of None \<Rightarrow> [] | Some p \<Rightarrow> [p]) + mset (sched_waiting s')"
  by (rule schedule_ok[OF assms])

lemma bin_of_Cons:
  "bin_of h ((n, p) # q) = (bin_of h q)(row_of h p := Some (n # (case bin_of h q (row_of h p) of None \<Rightarrow> [] | Some l \<Rightarrow> l)))"
  by (auto simp: bin_of_def Let_def fun_eq_iff)

text \<open>A request that arrives is the youngest of its bank.\<close>

lemma add_req_ok:
  assumes ok: "sched_ok h s nbk" and p: "h p = Some r" "req_bk r < nbk"
  shows "\<exists>s'. add_req h s p = Inr s' \<and> sched_ok h s' nbk \<and> bank_pending s' (req_bk r) = bank_pending s (req_bk r) @ [p] \<and>
    m_last_row s' = m_last_row s \<and> (\<forall>b. b \<noteq> req_bk r \<longrightarrow> bank_pending s' b = bank_pending s b) \<and>
    mset (sched_waiting s') = add_mset p (mset (sched_waiting s)) \<and> m_num_pending s' = m_num_pending s + 1"
proof -
  note D = sched_okD[OF ok]
  let ?b = "req_bk r" and ?q = "m_queue s ! req_bk r"
  have bq: "bank_queue_ok h s ?b" by (rule D(6)[OF p(2)])
  have row: "row_of h p = req_row r" using p(1) by (simp add: row_of_def)
  have bins: "m_bins s ! ?b = bin_of h ?q" using bq by (simp add: bank_queue_ok_def)
  define s' where "s' = s\<lparr>m_num_pending := m_num_pending s + 1, m_queue := (m_queue s)[?b := (next_node s, p) # ?q],
      m_bins := (m_bins s)[?b := bin_of h ((next_node s, p) # ?q)], next_node := next_node s + 1\<rparr>"
  have eq: "add_req h s p = Inr s'"
    using p D(1) bins row by (simp add: add_req_def deref_def s'_def bin_of_Cons Let_def)
  have cat: "length (concat (m_queue s')) = length (concat (m_queue s)) + 1"
    using concat_update_length[of ?b "m_queue s" "(next_node s, p) # ?q"] D(1) p(2) by (simp add: s'_def)
  have fresh: "next_node s \<notin> fst ` set ?q" using bq by (fastforce simp: bank_queue_ok_def)
  have bank: "bank_queue_ok h s' c" if c: "c < nbk" for c
  proof (cases "c = ?b")
    case True
    then show ?thesis using bq fresh D(1,2) p row
      by (auto simp: bank_queue_ok_def s'_def bin_of_Cons less_Suc_eq)
  next
    case False
    then show ?thesis using D(6)[OF c] by (auto simp: bank_queue_ok_def s'_def)
  qed
  then have ok': "sched_ok h s' nbk" using D(1-5) cat by (simp add: sched_ok_def s'_def)
  have "mset (concat (m_queue s')) = add_mset (next_node s, p) (mset (concat (m_queue s)))"
    using concat_update_mset[of ?b "m_queue s" "(next_node s, p) # ?q"] D(1) p(2) by (simp add: s'_def)
  then have "mset (sched_waiting s') = add_mset p (mset (sched_waiting s))" by (simp add: sched_waiting_def)
  then show ?thesis using eq ok' D(1) p(2) by (intro exI[of _ s']) (auto simp: s'_def bank_pending_def)
qed

end
