(* ===== verification/Dram.thy ===== *)
theory Dram
  imports Dram_Sched
begin

text \<open>
  A channel of the memory: the timing parameters (\<open>memory_config\<close> of gpu-sim.h) and the controller with its banks
  (\<open>dram_t\<close> of dram.h, dram.cc).  The countdowns are words that are set and counted down to zero; bank numbers are natural numbers.  The store \<open>reqs\<close>
  holds the requests that are not deleted.  A cycle returns the command that it issues, as the lines printed under
  \<open>DRAM_VERIFY\<close> name it, and the write-back handed to \<open>memory_partition_unit::set_done\<close>.  The scheduler object is
  there in both modes and used in one.  Left out: printing, the histograms of latencies and queue lengths, the bins of the
  visualiser, and the access counts per core, bank and source line that \<open>push\<close> reports.
\<close>

section \<open>Parameters\<close>

datatype dram_ctrl_t = DRAM_FIFO | DRAM_FRFCFS | Other_Scheduler

record dram_timing =
  nbk :: u32
  tCCD :: u32
  tRRD :: u32
  tRCD :: u32
  tRAS :: u32
  tRP :: u32
  tRC :: u32
  CL :: u32
  WL :: u32
  tCDLR :: u32
  tWR :: u32
  nbkgrp :: u32
  tCCDL :: u32
  tRTPL :: u32

record memory_config = dram_timing +
  BL :: u32
  busW :: u32
  data_command_freq_ratio :: u32
  gpu_n_mem_per_ctrlr :: u32
  m_n_mem :: u32
  m_n_sub_partition_per_memory_channel :: u32
  scheduler_type :: dram_ctrl_t
  frfcfs_dram_sched_queue_size :: u32
  dram_return_queue_size :: u32
  memlatency_stat :: bool
  dram_latency :: u32
  bk_tag_length :: nat
  tRCDWR :: u32
  tRTW :: u32
  tWTR :: u32
  tWTP :: u32
  dram_atom_size :: u32
  m_n_mem_sub_partition :: u32

text \<open>The loop that counts the bits of \<open>nbk / nbkgrp\<close>, an \<open>int\<close>.\<close>

function tag_bits :: "int \<Rightarrow> nat" where
  "tag_bits nbkt = (if 0 < nbkt then Suc (tag_bits (nbkt div 2)) else 0)"
  by pat_completeness auto
termination
  by (relation "measure nat") auto

declare tag_bits.simps [simp del]

text \<open>The part of \<open>memory_config::init\<close> after the timing string is read.  A division by zero is a fault; so
  is the assertion on \<open>nbkgrp\<close>, which the division before it makes unreachable.\<close>

definition memory_config_init :: "memory_config \<Rightarrow> memory_config cxx" where
  "memory_config_init c =
     (if nbkgrp c = 0 then Inl Undefined_Behaviour
      else let c1 = c\<lparr>bk_tag_length := tag_bits (sint (nbk c div nbkgrp c))\<rparr>
           in assertE (nbkgrp c \<noteq> 0)
        (if data_command_freq_ratio c = 0 then Inl Undefined_Behaviour
         else let burst = BL c div data_command_freq_ratio c;
                  c2 = c1\<lparr>tRCDWR := tRCD c - (WL c + 1), tRTW := CL c + burst + 2 - WL c,
                          tWTR := WL c + burst + tCDLR c, tWTP := WL c + burst + tWR c,
                          dram_atom_size := BL c * busW c * gpu_n_mem_per_ctrlr c\<rparr>
              in assertE (0 < m_n_sub_partition_per_memory_channel c)
                (assertE (nbk c mod m_n_sub_partition_per_memory_channel c = 0)
                  (Inr (c2\<lparr>m_n_mem_sub_partition := m_n_mem c * m_n_sub_partition_per_memory_channel c\<rparr>)))))"

section \<open>The state\<close>

record bankgrp_t =
  CCDLc :: u32
  RTPLc :: u32

datatype bank_state = BANK_IDLE | BANK_ACTIVE

record bank_t =
  RCDc :: u32
  RCDWRc :: u32
  RASc :: u32
  RPc :: u32
  RCc :: u32
  WTPc :: u32
  RTPc :: u32
  state :: bank_state
  curr_row :: u32
  mrq :: "nat option"
  n_access :: u32
  n_writes :: u32
  n_idle :: u32
  bkgrpindex :: u32

record dram_counts =
  n_cmd :: u32
  n_activity :: u32
  n_nop :: u32
  n_act :: u32
  n_pre :: u32
  n_req :: u32
  ave_mrqs :: u32
  bwutil :: u32

record dram =
  dram_id :: u32
  bkgrp :: "bankgrp_t list"
  bks :: "bank_t list"
  prio :: nat
  RRDc :: u32
  CCDc :: u32
  RTWc :: u32
  WTRc :: u32
  d_rw :: dram_rw
  rwq :: "nat fifo"
  mrqq :: "nat fifo"
  returnq :: "dram_fetch fifo"
  m_frfcfs :: frfcfs
  reqs :: req_store
  next_req :: nat
  counts :: dram_counts           \<comment> \<open>since the start\<close>
  partial_counts :: dram_counts   \<comment> \<open>since the last report\<close>
  n_rd :: u32
  n_wr :: u32
  max_mrqs_temp :: u32
  max_mrqs :: u32
  max_mrq_latency :: u32
  total_n_access :: u32
  total_n_reads :: u32
  total_n_writes :: u32

definition no_counts :: dram_counts where
  "no_counts = \<lparr>n_cmd = 0, n_activity = 0, n_nop = 0, n_act = 0, n_pre = 0, n_req = 0, ave_mrqs = 0, bwutil = 0\<rparr>"

definition new_bank :: "memory_config \<Rightarrow> nat \<Rightarrow> bank_t" where
  "new_bank c i =
     \<lparr>RCDc = 0, RCDWRc = 0, RASc = 0, RPc = 0, RCc = 0, WTPc = 0, RTPc = 0, state = BANK_IDLE, curr_row = 0,
      mrq = None, n_access = 0, n_writes = 0, n_idle = 0, bkgrpindex = of_nat i div (nbk c div nbkgrp c)\<rparr>"

definition dram_t :: "memory_config \<Rightarrow> u32 \<Rightarrow> dram cxx" where
  "dram_t c partition_id =
     (if nbkgrp c = 0 \<or> nbk c = 0 then Inl Out_Of_Range
      else if nbk c div nbkgrp c = 0 then Inl Undefined_Behaviour
      else bindE (fifo_pipeline (unat (CL c)) (unat (CL c + 1))) (\<lambda>q1.
           bindE (fifo_pipeline 0 2) (\<lambda>q2.
           bindE (fifo_pipeline 0 (if dram_return_queue_size c = 0 then 1024 else unat (dram_return_queue_size c))) (\<lambda>q3.
             Inr \<lparr>dram_id = partition_id,
                  bkgrp = replicate (unat (nbkgrp c)) \<lparr>CCDLc = 0, RTPLc = 0\<rparr>,
                  bks = map (new_bank c) [0..<unat (nbk c)], prio = 0, RRDc = 0, CCDc = 0, RTWc = 0, WTRc = 0,
                  d_rw = READ, rwq = q1, mrqq = q2, returnq = q3, m_frfcfs = frfcfs_scheduler (unat (nbk c)),
                  reqs = (\<lambda>_. None), next_req = 0, counts = no_counts, partial_counts = no_counts, n_rd = 0, n_wr = 0,
                  max_mrqs_temp = 0, max_mrqs = 0, max_mrq_latency = 0, total_n_access = 0, total_n_reads = 0,
                  total_n_writes = 0\<rparr>))))"

definition upd_bank :: "dram \<Rightarrow> nat \<Rightarrow> (bank_t \<Rightarrow> bank_t) \<Rightarrow> dram" where
  "upd_bank s j f = s\<lparr>bks := (bks s)[j := f (bks s ! j)]\<rparr>"

definition upd_grp :: "dram \<Rightarrow> nat \<Rightarrow> (bankgrp_t \<Rightarrow> bankgrp_t) \<Rightarrow> dram" where
  "upd_grp s g f = s\<lparr>bkgrp := (bkgrp s)[g := f (bkgrp s ! g)]\<rparr>"

definition tally :: "(dram_counts \<Rightarrow> dram_counts) \<Rightarrow> dram \<Rightarrow> dram" where
  "tally f s = s\<lparr>counts := f (counts s), partial_counts := f (partial_counts s)\<rparr>"

section \<open>The interface\<close>

definition queue_limit :: "memory_config \<Rightarrow> u32" where
  "queue_limit c = frfcfs_dram_sched_queue_size c"

definition dram_full :: "memory_config \<Rightarrow> dram \<Rightarrow> bool" where
  "dram_full c s =
     (if scheduler_type c = DRAM_FRFCFS then
        (if frfcfs_dram_sched_queue_size c = 0 then False
         else unat (frfcfs_dram_sched_queue_size c) \<le> m_num_pending (m_frfcfs s))
      else fifo_full (mrqq s))"

definition que_length :: "memory_config \<Rightarrow> dram \<Rightarrow> nat" where
  "que_length c s =
     (if scheduler_type c = DRAM_FRFCFS then m_num_pending (m_frfcfs s) else get_length (mrqq s))"

definition returnq_full :: "dram \<Rightarrow> bool" where "returnq_full s = fifo_full (returnq s)"

definition return_queue_top :: "dram \<Rightarrow> dram_fetch option" where
  "return_queue_top s = top_elem (returnq s)"

definition return_queue_pop :: "dram \<Rightarrow> (dram \<times> dram_fetch option) cxx" where
  "return_queue_pop s = bindE (pop (returnq s)) (\<lambda>r. Inr (s\<lparr>returnq := fst r\<rparr>, snd r))"

definition dram_push :: "memory_config \<Rightarrow> u64 \<Rightarrow> u64 \<Rightarrow> dram \<Rightarrow> dram_fetch \<Rightarrow> dram cxx" where
  "dram_push c sim_cycle tot_sim_cycle s mf =
     assertE (dram_id s = tlx_chip mf)
       (let p = next_req s;
            s1 = s\<lparr>reqs := (reqs s)(p := Some (dram_req_t sim_cycle tot_sim_cycle mf)), next_req := p + 1,
                   mrqq := push (mrqq s) (Some p)\<rparr>;
            s2 = tally (\<lambda>t. t\<lparr>n_req := n_req t + 1\<rparr>) s1
        in Inr (s2\<lparr>max_mrqs_temp := max (max_mrqs_temp s2) (of_nat (que_length c s2))\<rparr>))"

definition set_dram_power_stats :: "dram \<Rightarrow> u32 list" where
  "set_dram_power_stats s =
     (let t = counts s in [n_cmd t, n_activity t, n_nop t, n_act t, n_pre t, n_rd s, n_wr s, n_req t])"

text \<open>The reset at the end of \<open>visualizer_print\<close>.\<close>

definition reset_partial :: "dram \<Rightarrow> dram" where
  "reset_partial s = s\<lparr>partial_counts := no_counts\<rparr>"

section \<open>A cycle\<close>

text \<open>The data queue: a transfer ends, and with the last one of its request the request.\<close>

definition dq_transfer :: "memory_config \<Rightarrow> dram \<Rightarrow> nat \<Rightarrow> (dram \<times> dram_fetch option) cxx" where
  "dq_transfer c s p =
     bindE (deref (reqs s) p) (\<lambda>q.
       let cmd = q\<lparr>dqbytes := dqbytes q + dram_atom_size c\<rparr>; data = req_data cmd in
       if dqbytes cmd < req_nbytes cmd then Inr (s\<lparr>reqs := (reqs s)(p := Some cmd)\<rparr>, None)
       else if mf_access_type data = L1_WRBK_ACC \<or> mf_access_type data = L2_WRBK_ACC
       then Inr (s\<lparr>reqs := (reqs s)(p := None)\<rparr>, Some data)
       else bindE (set_reply data) (\<lambda>rep.
         Inr (s\<lparr>returnq := push (returnq s) (Some rep), reqs := (reqs s)(p := None)\<rparr>, None)))"

definition dq_stage :: "memory_config \<Rightarrow> dram \<Rightarrow> (dram \<times> dram_fetch option) cxx" where
  "dq_stage c s =
     (if fifo_full (returnq s) then Inr (s, None)
      else bindE (pop (rwq s)) (\<lambda>r.
        case snd r of None \<Rightarrow> Inr (s\<lparr>rwq := fst r\<rparr>, None) | Some p \<Rightarrow> dq_transfer c (s\<lparr>rwq := fst r\<rparr>) p))"

definition scheduler_fifo :: "dram \<Rightarrow> dram cxx" where
  "scheduler_fifo s =
     (if fifo_empty (mrqq s) then Inr s
      else case top_elem (mrqq s) of None \<Rightarrow> Inl Undefined_Behaviour
      | Some p \<Rightarrow> bindE (deref (reqs s) p) (\<lambda>q.
          if length (bks s) \<le> req_bk q then Inl Out_Of_Range
          else if mrq (bks s ! req_bk q) = None
          then bindE (pop (mrqq s)) (\<lambda>r.
            Inr (upd_bank (s\<lparr>mrqq := fst r\<rparr>) (req_bk q) (\<lambda>b. b\<lparr>mrq := snd r\<rparr>)))
          else Inr s))"

text \<open>The loop that moves requests into the scheduler.  It ends because every turn takes a request off the queue.\<close>

definition fill_one :: "dram \<Rightarrow> dram cxx" where
  "fill_one s =
     bindE (pop (mrqq s)) (\<lambda>r.
       case snd r of None \<Rightarrow> Inl Undefined_Behaviour
       | Some p \<Rightarrow> bindE (deref (reqs s) p) (\<lambda>q.
         let ty = m_mf_type (req_data q)
         in bindE (add_req (reqs s) (m_frfcfs s) p) (\<lambda>f.
              Inr (s\<lparr>mrqq := fst r, m_frfcfs := f, total_n_access := total_n_access s + 1,
                     total_n_writes := total_n_writes s + (if ty = WRITE_REQUEST then 1 else 0),
                     total_n_reads := total_n_reads s + (if ty = READ_REQUEST then 1 else 0)\<rparr>))))"

lemma fill_one_shortens: "fill_one s = Inr s1 \<Longrightarrow> length (payload (mrqq s1)) < length (payload (mrqq s))"
  by (auto simp: fill_one_def Let_def cxx_simps dest!: pop_payload split: option.splits)

function fill_sched :: "memory_config \<Rightarrow> dram \<Rightarrow> dram cxx" where
  "fill_sched c s =
     (if \<not> fifo_empty (mrqq s) \<and>
         (frfcfs_dram_sched_queue_size c = 0 \<or> m_num_pending (m_frfcfs s) < unat (frfcfs_dram_sched_queue_size c))
      then bindE (fill_one s) (\<lambda>s1. fill_sched c s1)
      else Inr s)"
  by pat_completeness auto
termination
  by (relation "measure (\<lambda>(c, s). length (payload (mrqq s)))") (auto intro: fill_one_shortens)

declare fill_sched.simps [simp del]

definition log_latency :: "memory_config \<Rightarrow> u64 \<Rightarrow> u64 \<Rightarrow> dram \<Rightarrow> nat \<Rightarrow> dram cxx" where
  "log_latency c sim_cycle tot_sim_cycle s p =
     (if memlatency_stat c
      then bindE (deref (reqs s) p) (\<lambda>q.
        let now = (ucast (sim_cycle + tot_sim_cycle) :: u32); mrq_latency = now - req_timestamp q
        in Inr (s\<lparr>reqs := (reqs s)(p := Some (q\<lparr>req_timestamp := now\<rparr>)),
                  max_mrq_latency := max mrq_latency (max_mrq_latency s)\<rparr>))
      else Inr s)"

text \<open>The banks are asked in turn from \<open>prio\<close> on, until one takes a request.\<close>

fun feed_bank :: "memory_config \<Rightarrow> u64 \<Rightarrow> u64 \<Rightarrow> dram \<Rightarrow> nat list \<Rightarrow> dram cxx" where
  "feed_bank c sim_cycle tot_sim_cycle s [] = Inr s"
| "feed_bank c sim_cycle tot_sim_cycle s (b # banks) =
     (if length (bks s) \<le> b then Inl Out_Of_Range
      else if mrq (bks s ! b) = None
      then bindE (schedule (reqs s) sim_cycle (m_frfcfs s) b (curr_row (bks s ! b))) (\<lambda>r.
        let s1 = s\<lparr>m_frfcfs := fst r\<rparr> in
        case snd r of None \<Rightarrow> feed_bank c sim_cycle tot_sim_cycle s1 banks
        | Some p \<Rightarrow> log_latency c sim_cycle tot_sim_cycle
            (upd_bank (s1\<lparr>prio := (prio s1 + 1) mod unat (nbk c)\<rparr>) b (\<lambda>k. k\<lparr>mrq := Some p\<rparr>)) p)
      else feed_bank c sim_cycle tot_sim_cycle s banks)"

definition bank_order :: "memory_config \<Rightarrow> nat \<Rightarrow> nat list" where
  "bank_order c start = map (\<lambda>i. (i + start) mod unat (nbk c)) [0..<unat (nbk c)]"

definition scheduler_frfcfs :: "memory_config \<Rightarrow> u64 \<Rightarrow> u64 \<Rightarrow> dram \<Rightarrow> dram cxx" where
  "scheduler_frfcfs c sim_cycle tot_sim_cycle s =
     bindE (fill_sched c s) (\<lambda>s1.
       feed_bank c sim_cycle tot_sim_cycle s1 (bank_order c (prio s1)))"

definition run_scheduler :: "memory_config \<Rightarrow> u64 \<Rightarrow> u64 \<Rightarrow> dram \<Rightarrow> dram cxx" where
  "run_scheduler c sim_cycle tot_sim_cycle s =
     bindE (case scheduler_type c of DRAM_FIFO \<Rightarrow> scheduler_fifo s
            | DRAM_FRFCFS \<Rightarrow> scheduler_frfcfs c sim_cycle tot_sim_cycle s
            | Other_Scheduler \<Rightarrow> Inl Assert_Failed) (\<lambda>s1.
       let n = (of_nat (que_length c s1) :: u32)
       in Inr (tally (\<lambda>t. t\<lparr>ave_mrqs := ave_mrqs t + n\<rparr>) (s1\<lparr>max_mrqs := max n (max_mrqs s1)\<rparr>)))"

subsection \<open>Commands\<close>

datatype dram_cmd = RD nat u32 | WR nat u32 | ACT nat u32 | PRE nat u32

definition grp_of :: "memory_config \<Rightarrow> nat \<Rightarrow> nat" where
  "grp_of c j = drop_bit (bk_tag_length c) j"

definition can_read :: "memory_config \<Rightarrow> dram \<Rightarrow> nat \<Rightarrow> dram_req \<Rightarrow> bool" where
  "can_read c s j q =
     (let b = bks s ! j; g = bkgrp s ! grp_of c j in
      CCDc s = 0 \<and> RCDc b = 0 \<and> CCDLc g = 0 \<and> curr_row b = req_row q \<and> req_rw q = READ \<and> WTRc s = 0 \<and>
      state b = BANK_ACTIVE \<and> \<not> fifo_full (rwq s))"

definition can_write :: "memory_config \<Rightarrow> dram \<Rightarrow> nat \<Rightarrow> dram_req \<Rightarrow> bool" where
  "can_write c s j q =
     (let b = bks s ! j; g = bkgrp s ! grp_of c j in
      CCDc s = 0 \<and> RCDWRc b = 0 \<and> CCDLc g = 0 \<and> curr_row b = req_row q \<and> req_rw q = WRITE \<and> RTWc s = 0 \<and>
      state b = BANK_ACTIVE \<and> \<not> fifo_full (rwq s))"

definition can_activate :: "dram \<Rightarrow> nat \<Rightarrow> bool" where
  "can_activate s j =
     (let b = bks s ! j in RRDc s = 0 \<and> state b = BANK_IDLE \<and> RPc b = 0 \<and> RCc b = 0)"

definition can_precharge :: "memory_config \<Rightarrow> dram \<Rightarrow> nat \<Rightarrow> dram_req \<Rightarrow> bool" where
  "can_precharge c s j q =
     (let b = bks s ! j; g = bkgrp s ! grp_of c j in
      curr_row b \<noteq> req_row q \<and> state b = BANK_ACTIVE \<and> RASc b = 0 \<and> WTPc b = 0 \<and> RTPc b = 0 \<and> RTPLc g = 0)"

text \<open>Turning the data bus around changes the latency of the data queue.\<close>

definition turn_bus :: "dram_rw \<Rightarrow> u32 \<Rightarrow> dram \<Rightarrow> dram cxx" where
  "turn_bus d latency s =
     (if d_rw s \<noteq> d
      then bindE (set_min_length (rwq s) (unat latency)) (\<lambda>q. Inr (s\<lparr>d_rw := d, rwq := q\<rparr>))
      else Inr s)"

definition burst_cycles :: "memory_config \<Rightarrow> u32 cxx" where
  "burst_cycles c =
     (if data_command_freq_ratio c = 0 then Inl Undefined_Behaviour else Inr (BL c div data_command_freq_ratio c))"

text \<open>One burst of the request \<open>p\<close> of bank \<open>j\<close> enters the data queue; the bank lets the request go after the last.\<close>

definition send_burst :: "memory_config \<Rightarrow> dram \<Rightarrow> nat \<Rightarrow> nat \<Rightarrow> dram_req \<Rightarrow> dram" where
  "send_burst c s j p q =
     (let q1 = q\<lparr>txbytes := txbytes q + dram_atom_size c\<rparr>
      in upd_bank (s\<lparr>rwq := push (rwq s) (Some p), reqs := (reqs s)(p := Some q1)\<rparr>) j
           (\<lambda>b. if txbytes q1 < req_nbytes q1 then b else b\<lparr>mrq := None\<rparr>))"

definition issue_read :: "memory_config \<Rightarrow> dram \<Rightarrow> nat \<Rightarrow> nat \<Rightarrow> dram_req \<Rightarrow> dram cxx" where
  "issue_read c s j p q =
     bindE (turn_bus READ (CL c) s) (\<lambda>s1.
     bindE (burst_cycles c) (\<lambda>burst.
       let s2 = send_burst c s1 j p q;
           s3 = upd_bank s2 j (\<lambda>b. b\<lparr>RTPc := burst, n_access := n_access b + 1\<rparr>);
           s4 = upd_grp s3 (grp_of c j) (\<lambda>g. g\<lparr>CCDLc := tCCDL c, RTPLc := tRTPL c\<rparr>)
       in Inr (tally (\<lambda>t. t\<lparr>bwutil := bwutil t + burst\<rparr>) (s4\<lparr>CCDc := tCCD c, RTWc := tRTW c, n_rd := n_rd s4 + 1\<rparr>))))"

definition issue_write :: "memory_config \<Rightarrow> dram \<Rightarrow> nat \<Rightarrow> nat \<Rightarrow> dram_req \<Rightarrow> dram cxx" where
  "issue_write c s j p q =
     bindE (turn_bus WRITE (WL c) s) (\<lambda>s1.
     bindE (burst_cycles c) (\<lambda>burst.
       let s2 = send_burst c s1 j p q;
           s3 = upd_bank s2 j (\<lambda>b. b\<lparr>WTPc := tWTP c\<rparr>);
           s4 = upd_grp s3 (grp_of c j) (\<lambda>g. g\<lparr>CCDLc := tCCDL c\<rparr>)
       in Inr (tally (\<lambda>t. t\<lparr>bwutil := bwutil t + burst\<rparr>) (s4\<lparr>CCDc := tCCD c, WTRc := tWTR c, n_wr := n_wr s4 + 1\<rparr>))))"

definition issue_activate :: "memory_config \<Rightarrow> dram \<Rightarrow> nat \<Rightarrow> dram_req \<Rightarrow> dram" where
  "issue_activate c s j q =
     tally (\<lambda>t. t\<lparr>n_act := n_act t + 1\<rparr>)
       ((upd_bank s j (\<lambda>b. b\<lparr>curr_row := req_row q, state := BANK_ACTIVE, RCDc := tRCD c, RCDWRc := tRCDWR c,
           RASc := tRAS c, RCc := tRC c\<rparr>))\<lparr>RRDc := tRRD c, prio := (j + 1) mod unat (nbk c)\<rparr>)"

definition issue_precharge :: "memory_config \<Rightarrow> dram \<Rightarrow> nat \<Rightarrow> dram" where
  "issue_precharge c s j =
     tally (\<lambda>t. t\<lparr>n_pre := n_pre t + 1\<rparr>)
       ((upd_bank s j (\<lambda>b. b\<lparr>state := BANK_IDLE, RPc := tRP c\<rparr>))\<lparr>prio := (j + 1) mod unat (nbk c)\<rparr>)"

definition bank_quiet :: "dram \<Rightarrow> nat \<Rightarrow> bool" where
  "bank_quiet s j =
     (let b = bks s ! j in CCDc s = 0 \<and> RRDc s = 0 \<and> RTWc s = 0 \<and> WTRc s = 0 \<and> RCDc b = 0 \<and> RASc b = 0 \<and>
        RCc b = 0 \<and> RPc b = 0 \<and> RCDWRc b = 0)"

text \<open>One turn of the loop over the banks: the state, the command issued so far and the count \<open>k\<close>.\<close>

definition bank_at ::
    "memory_config \<Rightarrow> dram \<Rightarrow> dram_cmd option \<Rightarrow> u32 \<Rightarrow> nat \<Rightarrow> (dram \<times> dram_cmd option \<times> u32) cxx" where
  "bank_at c s issued k j =
     (if length (bks s) \<le> j \<or> length (bkgrp s) \<le> grp_of c j then Inl Out_Of_Range
      else case mrq (bks s ! j) of
        None \<Rightarrow> Inr (upd_bank s j (\<lambda>b. b\<lparr>n_idle := n_idle b + 1\<rparr>), issued, if bank_quiet s j then k - 1 else k)
      | Some p \<Rightarrow> bindE (deref (reqs s) p) (\<lambda>q.
          if issued = None \<and> can_read c s j q
          then bindE (issue_read c s j p q) (\<lambda>t. Inr (t, Some (RD j (curr_row (bks s ! j))), k))
          else if issued = None \<and> can_write c s j q
          then bindE (issue_write c s j p q) (\<lambda>t. Inr (t, Some (WR j (curr_row (bks s ! j))), k))
          else if issued = None \<and> can_activate s j
          then Inr (issue_activate c s j q, Some (ACT j (req_row q)), k)
          else if issued = None \<and> can_precharge c s j q
          then Inr (issue_precharge c s j, Some (PRE j (curr_row (bks s ! j))), k)
          else Inr (s, issued, k)))"

text \<open>The bank of the turn depends on \<open>prio\<close>, which a command of an earlier turn may have changed.\<close>

definition bank_turn :: "memory_config \<Rightarrow> dram \<times> dram_cmd option \<times> u32 \<Rightarrow> nat \<Rightarrow> (dram \<times> dram_cmd option \<times> u32) cxx" where
  "bank_turn c acc i =
     (case acc of (s, issued, k) \<Rightarrow> bank_at c s issued k ((i + prio s) mod unat (nbk c)))"

definition DEC2ZERO :: "u32 \<Rightarrow> u32" where
  "DEC2ZERO x = (if x \<noteq> 0 then x - 1 else 0)"

definition count_down :: "dram \<Rightarrow> dram" where
  "count_down s =
     s\<lparr>RRDc := DEC2ZERO (RRDc s), CCDc := DEC2ZERO (CCDc s), RTWc := DEC2ZERO (RTWc s), WTRc := DEC2ZERO (WTRc s),
       bks := map (\<lambda>b. b\<lparr>RCDc := DEC2ZERO (RCDc b), RASc := DEC2ZERO (RASc b), RCc := DEC2ZERO (RCc b),
         RPc := DEC2ZERO (RPc b), RCDWRc := DEC2ZERO (RCDWRc b), WTPc := DEC2ZERO (WTPc b), RTPc := DEC2ZERO (RTPc b)\<rparr>) (bks s),
       bkgrp := map (\<lambda>g. g\<lparr>CCDLc := DEC2ZERO (CCDLc g), RTPLc := DEC2ZERO (RTPLc g)\<rparr>) (bkgrp s)\<rparr>"

definition issue_stage :: "memory_config \<Rightarrow> dram \<Rightarrow> (dram \<times> dram_cmd option) cxx" where
  "issue_stage c s =
     bindE (foldE (bank_turn c) (s, None, nbk c) [0..<unat (nbk c)]) (\<lambda>r.
       case r of (s1, issued, k) \<Rightarrow>
       Inr (count_down (tally (\<lambda>t. t\<lparr>n_nop := n_nop t + (if issued = None then 1 else 0),
                                     n_activity := n_activity t + (if k \<noteq> 0 then 1 else 0),
                                     n_cmd := n_cmd t + 1\<rparr>) s1), issued))"

definition dram_cycle ::
    "memory_config \<Rightarrow> u64 \<Rightarrow> u64 \<Rightarrow> dram \<Rightarrow> (dram \<times> dram_cmd option \<times> dram_fetch option) cxx" where
  "dram_cycle c sim_cycle tot_sim_cycle s =
     bindE (dq_stage c s) (\<lambda>r.
     bindE (run_scheduler c sim_cycle tot_sim_cycle (fst r)) (\<lambda>s1.
     bindE (issue_stage c s1) (\<lambda>q. Inr (fst q, snd q, snd r))))"

end
