(* ===== verification/Dram_Store.thy ===== *)
theory Dram_Store
  imports Dram
begin

text \<open>
  The requests of a channel between the queues, the banks and the data queue: the invariant on the store that both
  parties of a shared request rely on, and what each way of moving a request does to it.  \<open>Q\<close> are the requests that
  wait, \<open>M\<close> those of the banks, \<open>R\<close> the bursts in the data queue.
\<close>

definition fetch_ok :: "memory_config \<Rightarrow> dram_fetch \<Rightarrow> bool" where
  "fetch_ok c mf \<longleftrightarrow>
     unat (tlx_bk mf) < unat (nbk c) \<and> 0 < unat (mf_data_size mf) \<and>
     unat (mf_data_size mf) + unat (dram_atom_size c) < 2 ^ 32 \<and>
     m_mf_type mf = (if mf_is_write mf then WRITE_REQUEST else READ_REQUEST)"

text \<open>The request carries the size and the bank of its fetch.\<close>

definition image_ok :: "memory_config \<Rightarrow> dram_req \<Rightarrow> bool" where
  "image_ok c r \<longleftrightarrow>
     fetch_ok c (req_data r) \<and> req_nbytes r = mf_data_size (req_data r) \<and> req_bk r = unat (tlx_bk (req_data r))"

lemma image_okD:
  assumes "image_ok c r"
  shows "0 < unat (req_nbytes r)" "unat (req_nbytes r) + unat (dram_atom_size c) < 2 ^ 32" "req_bk r < unat (nbk c)"
    "m_mf_type (req_data r) = (if mf_is_write (req_data r) then WRITE_REQUEST else READ_REQUEST)"
  using assms by (simp_all add: image_ok_def fetch_ok_def)

lemma image_ok_cong:
  "req_data q' = req_data q \<Longrightarrow> req_nbytes q' = req_nbytes q \<Longrightarrow> req_bk q' = req_bk q \<Longrightarrow> image_ok c q' = image_ok c q"
  by (simp add: image_ok_def)

definition req_ok :: "memory_config \<Rightarrow> nat list \<Rightarrow> nat option list \<Rightarrow> nat list \<Rightarrow> nat \<Rightarrow> dram_req \<Rightarrow> bool" where
  "req_ok c Q M R p r \<longleftrightarrow>
     image_ok c r \<and>
     unat (dqbytes r) + count_list R p * unat (dram_atom_size c) = unat (txbytes r) \<and>
     unat (txbytes r) < unat (req_nbytes r) + unat (dram_atom_size c) \<and>
     (p \<in> set Q \<longrightarrow> unat (txbytes r) = 0 \<and> Some p \<notin> set M) \<and>
     (Some p \<in> set M \<longrightarrow> unat (txbytes r) < unat (req_nbytes r)) \<and>
     (p \<notin> set Q \<and> Some p \<notin> set M \<longrightarrow> unat (req_nbytes r) \<le> unat (txbytes r) \<and> 0 < count_list R p)"

definition store_ok :: "memory_config \<Rightarrow> req_store \<Rightarrow> nat list \<Rightarrow> nat option list \<Rightarrow> nat list \<Rightarrow> nat \<Rightarrow> bool" where
  "store_ok c h Q M R nx \<longleftrightarrow>
     0 < unat (dram_atom_size c) \<and> (\<forall>p r. h p = Some r \<longrightarrow> req_ok c Q M R p r) \<and>
     (\<forall>p. p \<in> set Q \<or> Some p \<in> set M \<or> p \<in> set R \<longrightarrow> h p \<noteq> None) \<and> distinct Q \<and>
     (\<forall>i j p. i < length M \<and> j < length M \<and> M ! i = Some p \<and> M ! j = Some p \<longrightarrow> i = j) \<and>
     (\<forall>p. nx \<le> p \<longrightarrow> h p = None)"

lemma store_okD:
  assumes "store_ok c h Q M R nx"
  shows "0 < unat (dram_atom_size c)" "h p = Some r \<Longrightarrow> req_ok c Q M R p r" "p \<in> set Q \<Longrightarrow> h p \<noteq> None"
    "Some p \<in> set M \<Longrightarrow> h p \<noteq> None" "p \<in> set R \<Longrightarrow> h p \<noteq> None" "distinct Q"
    "i < length M \<Longrightarrow> j < length M \<Longrightarrow> M ! i = Some p \<Longrightarrow> M ! j = Some p \<Longrightarrow> i = j" "nx \<le> p \<Longrightarrow> h p = None"
  using assms by (auto simp: store_ok_def)

lemma store_okI:
  assumes "0 < unat (dram_atom_size c)" "\<And>p r. h p = Some r \<Longrightarrow> req_ok c Q M R p r" "\<And>p. p \<in> set Q \<Longrightarrow> h p \<noteq> None"
    "\<And>p. Some p \<in> set M \<Longrightarrow> h p \<noteq> None" "\<And>p. p \<in> set R \<Longrightarrow> h p \<noteq> None" "distinct Q"
    "\<And>i j p. i < length M \<Longrightarrow> j < length M \<Longrightarrow> M ! i = Some p \<Longrightarrow> M ! j = Some p \<Longrightarrow> i = j" "\<And>p. nx \<le> p \<Longrightarrow> h p = None"
  shows "store_ok c h Q M R nx"
  unfolding store_ok_def using assms by (intro conjI) blast+

lemma count_list_pos: "0 < count_list R p \<longleftrightarrow> p \<in> set R"
  by (simp add: count_list_0_iff zero_less_iff_neq_zero)

lemma store_ok_perm: "store_ok c h Q M R nx \<Longrightarrow> mset Q' = mset Q \<Longrightarrow> store_ok c h Q' M R nx"
  by (simp add: store_ok_def req_ok_def mset_eq_setD[of Q' Q] mset_eq_imp_distinct_iff[of Q' Q])

lemma store_ok_new: "0 < unat (dram_atom_size c) \<Longrightarrow> store_ok c (\<lambda>_. None) [] (replicate n None) [] 0"
  by (rule store_okI) auto

lemma store_ok_push:
  assumes ok: "store_ok c h Q M R nx" and mf: "fetch_ok c mf"
  shows "store_ok c (h(nx := Some (dram_req_t now tot mf))) (nx # Q) M R (nx + 1)"
proof -
  note D = store_okD[OF ok]
  have nx: "h nx = None" using D(8) by simp
  then have out: "nx \<notin> set Q" "Some nx \<notin> set M" "nx \<notin> set R" using D(3,4,5) by blast+
  show ?thesis
  proof (rule store_okI)
    fix p r
    assume p: "(h(nx := Some (dram_req_t now tot mf))) p = Some r"
    show "req_ok c (nx # Q) M R p r"
    proof (cases "p = nx")
      case True
      have "count_list R nx = 0" using out(3) by simp
      then show ?thesis using p True mf out by (auto simp: req_ok_def image_ok_def dram_req_t_def fetch_ok_def)
    next
      case False
      then show ?thesis using D(2)[of p r] p by (simp add: req_ok_def)
    qed
  qed (use D nx out in \<open>auto split: if_split_asm\<close>)
qed

text \<open>A bank takes a waiting request.\<close>

lemma store_ok_take:
  assumes ok: "store_ok c h Q M R nx" and Q: "mset Q = add_mset p (mset Q')" and b: "b < length M" "M ! b = None"
  shows "store_ok c h Q' (M[b := Some p]) R nx"
proof -
  note D = store_okD[OF ok]
  have set: "set Q = insert p (set Q')" using Q by (metis set_mset_add_mset_insert set_mset_mset)
  have dist: "distinct Q'" "p \<notin> set Q'"
    using D(6) Q by (metis mset.simps(2) mset_eq_imp_distinct_iff distinct.simps(2))+
  have live: "h p \<noteq> None" using D(3) set by simp
  have M: "Some x \<in> set (M[b := Some p]) \<longleftrightarrow> x = p \<or> Some x \<in> set M" for x
  proof -
    have "set (M[b := Some p]) \<subseteq> insert (Some p) (set M)" by (rule set_update_subset_insert)
    moreover have "Some p \<in> set (M[b := Some p])" using b by (simp add: set_update_memI)
    moreover have "Some x \<in> set (M[b := Some p])" if x: "Some x \<in> set M"
    proof -
      obtain i where i: "i < length M" "M ! i = Some x" using x by (auto simp: in_set_conv_nth)
      then have "i \<noteq> b" using b by auto
      then have "M[b := Some p] ! i = Some x" using i by simp
      then show ?thesis using i(1) by (metis length_list_update nth_mem)
    qed
    ultimately show ?thesis by auto
  qed
  have pM: "Some p \<notin> set M"
    using live D(2)[of p] set by (auto simp: req_ok_def)
  show ?thesis
  proof (rule store_okI)
    fix x r
    assume x: "h x = Some r"
    have "0 < unat (req_nbytes r)" using D(2)[OF x] image_okD(1)[of c r] by (simp add: req_ok_def)
    then show "req_ok c Q' (M[b := Some p]) R x r"
      using D(2)[OF x] dist set by (auto simp: req_ok_def M)
  next
    fix i j x
    assume ij: "i < length (M[b := Some p])" "j < length (M[b := Some p])"
      "M[b := Some p] ! i = Some x" "M[b := Some p] ! j = Some x"
    have "x \<noteq> p" if "k < length M" "k \<noteq> b" "M ! k = Some x" for k
      using pM that nth_mem by fastforce
    then show "i = j" using ij b(1) D(7)[of i j x] by (auto simp: nth_list_update split: if_split_asm)
  qed (use D dist set live M in \<open>auto\<close>)
qed

text \<open>A request changes in what the invariant does not look at.\<close>

lemma store_ok_touch:
  assumes ok: "store_ok c h Q M R nx" and p: "h p = Some q"
    and q': "req_data q' = req_data q" "req_nbytes q' = req_nbytes q" "req_bk q' = req_bk q"
      "txbytes q' = txbytes q" "dqbytes q' = dqbytes q"
  shows "store_ok c (h(p := Some q')) Q M R nx"
proof -
  note D = store_okD[OF ok]
  show ?thesis
  proof (rule store_okI)
    fix x r
    assume x: "(h(p := Some q')) x = Some r"
    show "req_ok c Q M R x r"
    proof (cases "x = p")
      case True
      have "req_ok c Q M R p q'"
        using D(2)[OF p] unfolding req_ok_def image_ok_cong[OF q'(1,2,3)] q'(2,4,5) .
      then show ?thesis using x True by simp
    next
      case False
      then show ?thesis using x D(2) by simp
    qed
  qed (use D p in \<open>auto split: if_split_asm\<close>)
qed

lemma unat_add_small: "unat (x :: u32) + unat y < 2 ^ 32 \<Longrightarrow> unat (x + y) = unat x + unat y"
  using unat_add_lem[of x y] by simp

text \<open>A burst of the request of bank \<open>j\<close> enters the data queue.\<close>

lemma store_ok_burst:
  assumes ok: "store_ok c h Q M R nx" and j: "j < length M" "M ! j = Some p" and p: "h p = Some q"
  defines "q' \<equiv> q\<lparr>txbytes := txbytes q + dram_atom_size c\<rparr>"
  shows "store_ok c (h(p := Some q')) Q (if txbytes q' < req_nbytes q' then M else M[j := None]) (R @ [p]) nx"
proof -
  note D = store_okD[OF ok]
  let ?M = "if txbytes q' < req_nbytes q' then M else M[j := None]"
  have pM: "Some p \<in> set M" using j by (metis nth_mem)
  have r: "req_ok c Q M R p q" by (rule D(2)[OF p])
  have tx: "unat (txbytes q') = unat (txbytes q) + unat (dram_atom_size c)"
  proof -
    have "unat (txbytes q) < unat (req_nbytes q)" "image_ok c q" using r pM by (simp_all add: req_ok_def)
    then show ?thesis using image_okD(2)[of c q] unfolding q'_def by (simp add: unat_add_small)
  qed
  have pQ: "p \<notin> set Q" using r pM by (auto simp: req_ok_def)
  have im: "image_ok c q'" using r image_ok_cong[of q' q c] by (simp add: req_ok_def q'_def)
  have M: "Some x \<in> set ?M \<longleftrightarrow> Some x \<in> set M \<and> (x = p \<longrightarrow> txbytes q' < req_nbytes q')" for x
  proof (cases "txbytes q' < req_nbytes q'")
    case False
    have "Some x \<in> set (M[j := None]) \<longleftrightarrow> Some x \<in> set M \<and> x \<noteq> p"
    proof
      assume "Some x \<in> set (M[j := None])"
      then obtain i where i: "i < length M" "M[j := None] ! i = Some x" by (auto simp: in_set_conv_nth)
      then have "i \<noteq> j" "M ! i = Some x" using j(1) by (auto simp: nth_list_update split: if_split_asm)
      then show "Some x \<in> set M \<and> x \<noteq> p" using i(1) j D(7)[of i j p] by (metis nth_mem)
    next
      assume x: "Some x \<in> set M \<and> x \<noteq> p"
      then obtain i where i: "i < length M" "M ! i = Some x" by (auto simp: in_set_conv_nth)
      then have "M[j := None] ! i = Some x" using x j by (cases "i = j") auto
      then show "Some x \<in> set (M[j := None])" using i(1) by (metis length_list_update nth_mem)
    qed
    then show ?thesis using False by simp
  qed simp
  show ?thesis
  proof (rule store_okI)
    fix x s
    assume x: "(h(p := Some q')) x = Some s"
    show "req_ok c Q ?M (R @ [p]) x s"
    proof (cases "x = p")
      case True
      then have s: "s = q'" using x by simp
      have "unat (txbytes q) < unat (req_nbytes q)" using r pM by (simp add: req_ok_def)
      then show ?thesis
        using True r pQ tx pM im unfolding req_ok_def s M True
        by (simp add: q'_def word_less_nat_alt not_less)
    next
      case False
      then show ?thesis using x D(2)[of x s] M[of x] by (simp add: req_ok_def)
    qed
  next
    fix i k x
    assume "i < length ?M" "k < length ?M" "?M ! i = Some x" "?M ! k = Some x"
    then show "i = k" using D(7)[of i k x] j(1) by (auto simp: nth_list_update split: if_split_asm)
  qed (use D p M in \<open>auto split: if_split_asm\<close>)
qed

text \<open>A burst leaves the data queue: the request stays while bursts are missing, and is nobody's after the last.\<close>

lemma store_ok_transfer:
  assumes ok: "store_ok c h Q M (p # R) nx" and p: "h p = Some q"
  defines "q' \<equiv> q\<lparr>dqbytes := dqbytes q + dram_atom_size c\<rparr>"
  shows "dqbytes q' < req_nbytes q' \<Longrightarrow> store_ok c (h(p := Some q')) Q M R nx"
    and "\<not> dqbytes q' < req_nbytes q' \<Longrightarrow> store_ok c (h(p := None)) Q M R nx"
    and "p \<notin> set Q"
proof -
  note D = store_okD[OF ok]
  have r: "req_ok c Q M (p # R) p q" by (rule D(2)[OF p])
  let ?a = "unat (dram_atom_size c)"
  have tx: "unat (dqbytes q) + ?a + count_list R p * ?a = unat (txbytes q)" using r by (simp add: req_ok_def)
  have "unat (dqbytes q) + ?a < 2 ^ 32" using tx unsigned_less[of "txbytes q", where ?'a = nat] by simp
  then have dq: "unat (dqbytes q') = unat (dqbytes q) + ?a" unfolding q'_def by (simp add: unat_add_small)
  show pQ: "p \<notin> set Q" using r tx D(1) by (auto simp: req_ok_def)
  have others: "req_ok c Q M R x s" if "h x = Some s" "x \<noteq> p" for x s
    using D(2)[OF that(1)] that(2) by (simp add: req_ok_def)
  show "store_ok c (h(p := Some q')) Q M R nx" if more: "dqbytes q' < req_nbytes q'"
  proof (rule store_okI)
    fix x s
    assume x: "(h(p := Some q')) x = Some s"
    show "req_ok c Q M R x s"
    proof (cases "x = p")
      case True
      have "0 < count_list R p" if "unat (req_nbytes q) \<le> unat (txbytes q)"
        using that more tx dq by (cases "count_list R p") (simp_all add: q'_def word_less_nat_alt)
      then show ?thesis using True x r tx dq pQ D(1) image_ok_cong[of q' q c] by (auto simp: req_ok_def q'_def)
    next
      case False
      then show ?thesis using x others by simp
    qed
  qed (use D p in \<open>auto split: if_split_asm\<close>)
  show "store_ok c (h(p := None)) Q M R nx" if last: "\<not> dqbytes q' < req_nbytes q'"
  proof -
    have le: "unat (req_nbytes q) \<le> unat (dqbytes q) + ?a" using last dq by (simp add: q'_def word_less_nat_alt)
    have cnt: "count_list R p = 0"
    proof (cases "count_list R p")
      case (Suc n)
      then show ?thesis using tx le r by (simp add: req_ok_def)
    qed simp
    then have pR: "p \<notin> set R" by (simp add: count_list_0_iff)
    have pM: "Some p \<notin> set M" using r tx le by (auto simp: req_ok_def)
    show ?thesis
      by (rule store_okI) (use D p others pQ pR pM in \<open>auto split: if_split_asm\<close>)
  qed
qed

section \<open>The fetches in the store\<close>

definition live_uids :: "req_store \<Rightarrow> u32 multiset" where
  "live_uids h = image_mset (\<lambda>p. case h p of None \<Rightarrow> 0 | Some r \<Rightarrow> m_request_uid (req_data r)) (mset_set (dom h))"

lemma live_finite: "store_ok c h Q M R nx \<Longrightarrow> finite (dom h)"
proof (rule finite_subset)
  assume "store_ok c h Q M R nx"
  then show "dom h \<subseteq> {..<nx}" by (auto simp: store_ok_def not_less[symmetric])
qed simp

lemma live_insert:
  assumes "finite (dom h)" and "h p = None"
  shows "live_uids (h(p := Some r)) = add_mset (m_request_uid (req_data r)) (live_uids h)"
proof -
  have "dom (h(p := Some r)) = insert p (dom h)" by auto
  moreover have "image_mset (\<lambda>x. case (h(p := Some r)) x of None \<Rightarrow> 0 | Some r \<Rightarrow> m_request_uid (req_data r)) (mset_set (dom h)) =
      live_uids h"
    unfolding live_uids_def by (rule image_mset_cong) (use assms in auto)
  ultimately show ?thesis using assms by (simp add: live_uids_def domIff)
qed

lemma live_delete:
  assumes "finite (dom h)" and "h p = Some r"
  shows "live_uids h = add_mset (m_request_uid (req_data r)) (live_uids (h(p := None)))"
proof -
  have "finite (dom (h(p := None)))" using assms(1) by (auto intro: finite_subset)
  from live_insert[OF this, of p r] assms(2) show ?thesis by (simp add: fun_upd_idem)
qed

lemma live_touch: "h p = Some r \<Longrightarrow> req_data r' = req_data r \<Longrightarrow> live_uids (h(p := Some r')) = live_uids h"
  unfolding live_uids_def by (rule arg_cong2[where f = image_mset]) (auto simp: dom_def intro!: arg_cong[where f = mset_set])

end
