(* ===== verification/Dram_Timing.thy ===== *)
theory Dram_Timing
  imports Dram
begin

text \<open>
  The protocol of the memory channel: which countdowns a command starts and which must have run out for it, and the
  open rows.  The controller refines this protocol, from which the distances between any two commands follow.
\<close>

section \<open>The protocol\<close>

datatype timer =
    T_RRD | T_CCD | T_RTW | T_WTR
  | T_RCD nat | T_RCDWR nat | T_RAS nat | T_RC nat | T_RP nat | T_WTP nat | T_RTP nat   \<comment> \<open>of a bank\<close>
  | T_CCDL nat | T_RTPL nat                                                       \<comment> \<open>of a bank group\<close>

text \<open>What a command starts.\<close>

fun sets :: "memory_config \<Rightarrow> dram_cmd \<Rightarrow> timer \<Rightarrow> u32 option" where
  "sets c (RD j r) t =
     (case t of T_CCD \<Rightarrow> Some (tCCD c) | T_RTW \<Rightarrow> Some (tRTW c)
      | T_RTP b \<Rightarrow> if b = j then Some (BL c div data_command_freq_ratio c) else None
      | T_CCDL g \<Rightarrow> if g = grp_of c j then Some (tCCDL c) else None
      | T_RTPL g \<Rightarrow> if g = grp_of c j then Some (tRTPL c) else None | _ \<Rightarrow> None)"
| "sets c (WR j r) t =
     (case t of T_CCD \<Rightarrow> Some (tCCD c) | T_WTR \<Rightarrow> Some (tWTR c)
      | T_WTP b \<Rightarrow> if b = j then Some (tWTP c) else None
      | T_CCDL g \<Rightarrow> if g = grp_of c j then Some (tCCDL c) else None | _ \<Rightarrow> None)"
| "sets c (ACT j r) t =
     (case t of T_RRD \<Rightarrow> Some (tRRD c) | T_RCD b \<Rightarrow> if b = j then Some (tRCD c) else None
      | T_RCDWR b \<Rightarrow> if b = j then Some (tRCDWR c) else None | T_RAS b \<Rightarrow> if b = j then Some (tRAS c) else None
      | T_RC b \<Rightarrow> if b = j then Some (tRC c) else None | _ \<Rightarrow> None)"
| "sets c (PRE j r) t = (case t of T_RP b \<Rightarrow> if b = j then Some (tRP c) else None | _ \<Rightarrow> None)"

text \<open>What must have run out for a command.\<close>

fun needs :: "memory_config \<Rightarrow> dram_cmd \<Rightarrow> timer list" where
  "needs c (RD j r) = [T_CCD, T_RCD j, T_CCDL (grp_of c j), T_WTR]"
| "needs c (WR j r) = [T_CCD, T_RCDWR j, T_CCDL (grp_of c j), T_RTW]"
| "needs c (ACT j r) = [T_RRD, T_RP j, T_RC j]"
| "needs c (PRE j r) = [T_RAS j, T_WTP j, T_RTP j, T_RTPL (grp_of c j)]"

text \<open>The open rows, and which commands they allow.\<close>

fun row_ok :: "(nat \<Rightarrow> u32 option) \<Rightarrow> dram_cmd \<Rightarrow> bool" where
  "row_ok rows (RD j r) = (rows j = Some r)"
| "row_ok rows (WR j r) = (rows j = Some r)"
| "row_ok rows (ACT j r) = (rows j = None)"
| "row_ok rows (PRE j r) = (rows j = Some r)"

fun row_step :: "dram_cmd \<Rightarrow> (nat \<Rightarrow> u32 option) \<Rightarrow> nat \<Rightarrow> u32 option" where
  "row_step (ACT j r) rows = rows(j := Some r)"
| "row_step (PRE j r) rows = rows(j := None)"
| "row_step (RD j r) rows = rows"
| "row_step (WR j r) rows = rows"

text \<open>The protocol on a log of cycles, each with the command it issued, if any.\<close>

definition open_rows :: "dram_cmd option list \<Rightarrow> nat \<Rightarrow> u32 option" where
  "open_rows cmds = fold (\<lambda>x rows. case x of None \<Rightarrow> rows | Some cmd \<Rightarrow> row_step cmd rows) cmds (\<lambda>_. None)"

definition timing_ok :: "memory_config \<Rightarrow> dram_cmd option list \<Rightarrow> bool" where
  "timing_ok c cmds \<longleftrightarrow>
     (\<forall>i j x y t v. i < j \<and> j < length cmds \<and> cmds ! i = Some x \<and> cmds ! j = Some y \<and>
        sets c x t = Some v \<and> t \<in> set (needs c y) \<longrightarrow> unat v \<le> j - i)"

definition rows_ok :: "dram_cmd option list \<Rightarrow> bool" where
  "rows_ok cmds \<longleftrightarrow> (\<forall>j y. j < length cmds \<and> cmds ! j = Some y \<longrightarrow> row_ok (open_rows (take j cmds)) y)"

section \<open>The controller as a timer machine\<close>

definition of_bank :: "dram \<Rightarrow> nat \<Rightarrow> (bank_t \<Rightarrow> u32) \<Rightarrow> u32" where
  "of_bank s b f = (if b < length (bks s) then f (bks s ! b) else 0)"

definition of_grp :: "dram \<Rightarrow> nat \<Rightarrow> (bankgrp_t \<Rightarrow> u32) \<Rightarrow> u32" where
  "of_grp s g f = (if g < length (bkgrp s) then f (bkgrp s ! g) else 0)"

fun timer_val :: "dram \<Rightarrow> timer \<Rightarrow> u32" where
  "timer_val s T_RRD = RRDc s" | "timer_val s T_CCD = CCDc s" | "timer_val s T_RTW = RTWc s" | "timer_val s T_WTR = WTRc s"
| "timer_val s (T_RCD b) = of_bank s b RCDc" | "timer_val s (T_RCDWR b) = of_bank s b RCDWRc"
| "timer_val s (T_RAS b) = of_bank s b RASc" | "timer_val s (T_RC b) = of_bank s b RCc"
| "timer_val s (T_RP b) = of_bank s b RPc" | "timer_val s (T_WTP b) = of_bank s b WTPc"
| "timer_val s (T_RTP b) = of_bank s b RTPc"
| "timer_val s (T_CCDL g) = of_grp s g CCDLc" | "timer_val s (T_RTPL g) = of_grp s g RTPLc"

definition open_row :: "dram \<Rightarrow> nat \<Rightarrow> u32 option" where
  "open_row s b = (if b < length (bks s) \<and> state (bks s ! b) = BANK_ACTIVE then Some (curr_row (bks s ! b)) else None)"

text \<open>Two states that agree on the countdowns, the rows and the shape.\<close>

definition bank_core :: "bank_t \<Rightarrow> bank_t" where
  "bank_core b = b\<lparr>mrq := None, n_access := 0, n_writes := 0, n_idle := 0, bkgrpindex := 0\<rparr>"

definition same_timers :: "dram \<Rightarrow> dram \<Rightarrow> bool" where
  "same_timers s t \<longleftrightarrow> RRDc s = RRDc t \<and> CCDc s = CCDc t \<and> RTWc s = RTWc t \<and> WTRc s = WTRc t \<and> bkgrp s = bkgrp t \<and>
     map bank_core (bks s) = map bank_core (bks t)"

lemma same_timers_refl [simp]: "same_timers s s"
  by (simp add: same_timers_def)

lemma same_timers_trans: "same_timers s t \<Longrightarrow> same_timers t u \<Longrightarrow> same_timers s u"
  by (simp add: same_timers_def)

lemma of_bank_core:
  "map bank_core (bks s) = map bank_core (bks t) \<Longrightarrow> (\<And>b. f (bank_core b) = f b) \<Longrightarrow> of_bank s j f = of_bank t j f"
  unfolding of_bank_def by (metis length_map nth_map)

lemma same_timers_length: "same_timers s t \<Longrightarrow> length (bks s) = length (bks t) \<and> length (bkgrp s) = length (bkgrp t)"
  unfolding same_timers_def by (metis length_map)

lemma same_timers_val: "same_timers s t \<Longrightarrow> timer_val s x = timer_val t x"
  by (cases x) (auto simp: same_timers_def of_grp_def bank_core_def intro!: of_bank_core)

lemma bank_core_sel: "state (bank_core b) = state b" "curr_row (bank_core b) = curr_row b"
  by (simp_all add: bank_core_def)

lemma same_timers_row: "same_timers s t \<Longrightarrow> open_row s = open_row t"
proof
  fix b
  assume st: "same_timers s t"
  then have len: "length (bks s) = length (bks t)" by (simp add: same_timers_length)
  have "bank_core (bks s ! b) = bank_core (bks t ! b)" if "b < length (bks s)"
    using st that len unfolding same_timers_def by (metis nth_map)
  then have "state (bks s ! b) = state (bks t ! b) \<and> curr_row (bks s ! b) = curr_row (bks t ! b)" if "b < length (bks s)"
    using that by (metis bank_core_sel)
  then show "open_row s b = open_row t b" using len by (auto simp: open_row_def)
qed

lemma same_timers_tally [simp]: "same_timers s (tally f t) \<longleftrightarrow> same_timers s t" "same_timers (tally f s) t \<longleftrightarrow> same_timers s t"
  by (simp_all add: same_timers_def tally_def)

lemma same_timers_upd: "(\<And>b. bank_core (f b) = bank_core b) \<Longrightarrow> same_timers s (upd_bank s j f)"
  by (cases "j < length (bks s)")
     (simp_all add: same_timers_def upd_bank_def map_update list_update_beyond list_eq_iff_nth_eq nth_list_update)

lemma dq_transfer_timers:
  assumes "dq_transfer c s p = Inr (s', d)"
  shows "same_timers s s'"
proof (cases "deref (reqs s) p")
  case (Inr q)
  show ?thesis
    using assms by (cases "set_reply (req_data q)") (auto simp: dq_transfer_def Inr Let_def same_timers_def split: if_split_asm)
qed (use assms in \<open>simp add: dq_transfer_def\<close>)

lemma dq_stage_timers:
  assumes "dq_stage c s = Inr (s', d)"
  shows "same_timers s s'"
proof (cases "fifo_full (returnq s)")
  case False
  then obtain r where r: "pop (rwq s) = Inr r" using assms by (auto simp: dq_stage_def bindE_Inr_iff)
  have "same_timers s (s\<lparr>rwq := fst r\<rparr>)" by (simp add: same_timers_def)
  then show ?thesis using assms dq_transfer_timers[of c "s\<lparr>rwq := fst r\<rparr>"]
    by (auto simp: dq_stage_def False r split: option.splits elim: same_timers_trans)
qed (use assms in \<open>simp add: dq_stage_def\<close>)

lemma fill_one_timers: "fill_one s = Inr s' \<Longrightarrow> same_timers s s'"
  by (auto simp: fill_one_def cxx_simps Let_def same_timers_def split: option.splits)

lemma fill_sched_timers: "fill_sched c s = Inr s' \<Longrightarrow> same_timers s s'"
proof (induction c s rule: fill_sched.induct)
  case (1 c s)
  show ?case
  proof (cases "\<not> fifo_empty (mrqq s) \<and> (frfcfs_dram_sched_queue_size c = 0 \<or>
      m_num_pending (m_frfcfs s) < unat (frfcfs_dram_sched_queue_size c))")
    case True
    then obtain s1 where s1: "fill_one s = Inr s1" "fill_sched c s1 = Inr s'"
      using "1.prems" by (subst (asm) fill_sched.simps) (auto simp: bindE_Inr_iff)
    show ?thesis by (rule same_timers_trans[OF fill_one_timers[OF s1(1)] "1.IH"[OF True s1]])
  next
    case False
    then have "fill_sched c s = Inr s" by (subst fill_sched.simps) (simp only: if_False)
    then show ?thesis using "1.prems" by (simp add: same_timers_def)
  qed
qed

lemma same_timers_mrq: "same_timers s (upd_bank s j (\<lambda>b. b\<lparr>mrq := m\<rparr>))"
  by (rule same_timers_upd) (simp add: bank_core_def)

lemma scheduler_fifo_timers:
  assumes "scheduler_fifo s = Inr s'"
  shows "same_timers s s'"
proof -
  have "same_timers s (upd_bank (s\<lparr>mrqq := q\<rparr>) j (\<lambda>b. b\<lparr>mrq := m\<rparr>))" for q j m
    using same_timers_mrq[of "s\<lparr>mrqq := q\<rparr>" j m] by (rule same_timers_trans[rotated]) (simp add: same_timers_def)
  then show ?thesis using assms
    by (auto simp: scheduler_fifo_def bindE_Inr_iff split: if_split_asm option.split_asm)
qed

lemma log_latency_timers: "log_latency c now tot s p = Inr s' \<Longrightarrow> same_timers s s'"
  by (auto simp: log_latency_def bindE_Inr_iff Let_def same_timers_def split: if_split_asm)

lemma feed_bank_timers: "feed_bank c now tot s banks = Inr s' \<Longrightarrow> same_timers s s'"
proof (induction banks arbitrary: s)
  case (Cons b banks)
  show ?case
  proof (cases "mrq (bks s ! b) = None \<and> b < length (bks s)")
    case False
    then show ?thesis using Cons by (auto split: if_split_asm)
  next
    case True
    then obtain f res where r: "schedule (reqs s) now (m_frfcfs s) b (curr_row (bks s ! b)) = Inr (f, res)"
      using Cons.prems by (auto simp: bindE_Inr_iff)
    let ?s = "s\<lparr>m_frfcfs := f\<rparr>"
    have st: "same_timers s ?s" by (simp add: same_timers_def)
    show ?thesis
    proof (cases res)
      case None
      then have "same_timers ?s s'" using Cons.IH[of ?s] Cons.prems True r by simp
      then show ?thesis by (rule same_timers_trans[OF st])
    next
      case (Some p)
      let ?t = "s\<lparr>m_frfcfs := f, prio := (prio s + 1) mod unat (nbk c)\<rparr>"
      have "same_timers (upd_bank ?t b (\<lambda>k. k\<lparr>mrq := Some p\<rparr>)) s'"
        using Cons.prems True r Some by (auto intro: log_latency_timers)
      moreover have "same_timers s ?t" by (simp add: same_timers_def)
      ultimately show ?thesis using same_timers_mrq[of ?t b "Some p"] by (blast intro: same_timers_trans)
    qed
  qed
qed simp

lemma run_scheduler_timers:
  assumes "run_scheduler c now tot s = Inr s'"
  shows "same_timers s s'"
proof -
  have "same_timers s s1" if "scheduler_frfcfs c now tot s = Inr s1" for s1
    using that by (auto simp: scheduler_frfcfs_def bindE_Inr_iff
      intro: same_timers_trans dest!: fill_sched_timers feed_bank_timers)
  then obtain s1 where "same_timers s s1" "s' = tally (\<lambda>t. t\<lparr>ave_mrqs := ave_mrqs t + of_nat (que_length c s1)\<rparr>)
      (s1\<lparr>max_mrqs := max (of_nat (que_length c s1)) (max_mrqs s1)\<rparr>)"
    using assms by (auto simp: run_scheduler_def bindE_Inr_iff Let_def dest: scheduler_fifo_timers split: dram_ctrl_t.split_asm)
  moreover have "same_timers s1 (s1\<lparr>max_mrqs := x\<rparr>)" for x by (simp add: same_timers_def)
  ultimately show ?thesis by (auto intro: same_timers_trans)
qed

section \<open>The loop over the banks\<close>

text \<open>The state after the command \<open>x\<close> has started its countdowns, relative to the state \<open>s\<close> before the loop.\<close>

definition started :: "memory_config \<Rightarrow> dram \<Rightarrow> dram_cmd option \<Rightarrow> dram \<Rightarrow> bool" where
  "started c s issued t \<longleftrightarrow>
     length (bks t) = length (bks s) \<and> length (bkgrp t) = length (bkgrp s) \<and>
     (case issued of None \<Rightarrow> timer_val t = timer_val s \<and> open_row t = open_row s
      | Some x \<Rightarrow> timer_val t = (\<lambda>u. case sets c x u of Some v \<Rightarrow> v | None \<Rightarrow> timer_val s u) \<and>
          open_row t = row_step x (open_row s) \<and> row_ok (open_row s) x \<and>
          list_all (\<lambda>u. timer_val s u = 0) (needs c x))"

lemma turn_bus_timers: "turn_bus d l s = Inr t \<Longrightarrow> same_timers s t \<and> length (bks t) = length (bks s)"
  by (auto simp: turn_bus_def bindE_Inr_iff same_timers_def split: if_split_asm)

lemma send_burst_timers: "same_timers s (send_burst c s j p q)"
proof -
  have "same_timers (s\<lparr>rwq := w, reqs := h\<rparr>) (upd_bank (s\<lparr>rwq := w, reqs := h\<rparr>) j (\<lambda>b. if P then b else b\<lparr>mrq := None\<rparr>))"
    for w h P by (rule same_timers_upd) (simp add: bank_core_def)
  moreover have "same_timers s (s\<lparr>rwq := w, reqs := h\<rparr>)" for w h by (simp add: same_timers_def)
  ultimately show ?thesis unfolding send_burst_def Let_def by (blast intro: same_timers_trans)
qed

lemma of_bank_upd: "of_bank (upd_bank s j g) b f = (if b = j \<and> j < length (bks s) then f (g (bks s ! j)) else of_bank s b f)"
  by (auto simp: of_bank_def upd_bank_def nth_list_update)

lemma of_grp_upd: "of_grp (upd_grp s j g) b f = (if b = j \<and> j < length (bkgrp s) then f (g (bkgrp s ! j)) else of_grp s b f)"
  by (auto simp: of_grp_def upd_grp_def nth_list_update)

lemma frame_simps [simp]:
  "of_bank (tally k s) b f = of_bank s b f" "of_grp (tally k s) g f' = of_grp s g f'"
  "of_bank (upd_grp s j h) b f = of_bank s b f" "of_grp (upd_bank s j h') g f' = of_grp s g f'"
  "RRDc (upd_bank s j h') = RRDc s" "CCDc (upd_bank s j h') = CCDc s" "RTWc (upd_bank s j h') = RTWc s" "WTRc (upd_bank s j h') = WTRc s"
  "RRDc (upd_grp s j h) = RRDc s" "CCDc (upd_grp s j h) = CCDc s" "RTWc (upd_grp s j h) = RTWc s" "WTRc (upd_grp s j h) = WTRc s"
  "RRDc (tally k s) = RRDc s" "CCDc (tally k s) = CCDc s" "RTWc (tally k s) = RTWc s" "WTRc (tally k s) = WTRc s"
  "length (bks (upd_bank s j h')) = length (bks s)" "length (bkgrp (upd_grp s j h)) = length (bkgrp s)"
  "bkgrp (upd_bank s j h') = bkgrp s" "bks (upd_grp s j h) = bks s" "bks (tally k s) = bks s" "bkgrp (tally k s) = bkgrp s"
  by (simp_all add: of_bank_def of_grp_def upd_bank_def upd_grp_def tally_def)

lemma of_simps [simp]:
  "of_bank (s\<lparr>CCDc := x\<rparr>) b f = of_bank s b f" "of_bank (s\<lparr>RTWc := x\<rparr>) b f = of_bank s b f"
  "of_bank (s\<lparr>WTRc := x\<rparr>) b f = of_bank s b f" "of_bank (s\<lparr>n_rd := x\<rparr>) b f = of_bank s b f"
  "of_bank (s\<lparr>n_wr := x\<rparr>) b f = of_bank s b f" "of_bank (s\<lparr>RRDc := x\<rparr>) b f = of_bank s b f"
  "of_bank (s\<lparr>prio := k\<rparr>) b f = of_bank s b f"
  "of_grp (s\<lparr>CCDc := x\<rparr>) g f' = of_grp s g f'" "of_grp (s\<lparr>RTWc := x\<rparr>) g f' = of_grp s g f'"
  "of_grp (s\<lparr>WTRc := x\<rparr>) g f' = of_grp s g f'" "of_grp (s\<lparr>n_rd := x\<rparr>) g f' = of_grp s g f'"
  "of_grp (s\<lparr>n_wr := x\<rparr>) g f' = of_grp s g f'" "of_grp (s\<lparr>RRDc := x\<rparr>) g f' = of_grp s g f'"
  "of_grp (s\<lparr>prio := k\<rparr>) g f' = of_grp s g f'"
  by (simp_all add: of_bank_def of_grp_def)

lemma of_eq: "j < length (bks s) \<Longrightarrow> of_bank s j f = f (bks s ! j)" "g < length (bkgrp s) \<Longrightarrow> of_grp s g h = h (bkgrp s ! g)"
  by (simp_all add: of_bank_def of_grp_def)

lemma open_row_upd:
  "open_row (upd_bank s j g) =
     (if j < length (bks s)
      then (open_row s)(j := if state (g (bks s ! j)) = BANK_ACTIVE then Some (curr_row (g (bks s ! j))) else None)
      else open_row s)"
  by (auto simp: open_row_def upd_bank_def nth_list_update fun_eq_iff)

lemma open_row_frame [simp]:
  "open_row (tally k s) = open_row s" "open_row (upd_grp s j h) = open_row s"
  "open_row (s\<lparr>CCDc := x\<rparr>) = open_row s" "open_row (s\<lparr>RTWc := x\<rparr>) = open_row s"
  "open_row (s\<lparr>WTRc := x\<rparr>) = open_row s" "open_row (s\<lparr>n_rd := x\<rparr>) = open_row s"
  "open_row (s\<lparr>n_wr := x\<rparr>) = open_row s" "open_row (s\<lparr>RRDc := x\<rparr>) = open_row s" "open_row (s\<lparr>prio := i\<rparr>) = open_row s"
  by (simp_all add: open_row_def tally_def upd_grp_def fun_eq_iff)

lemma startedI:
  assumes "length (bks t) = length (bks s)" "length (bkgrp t) = length (bkgrp s)"
    and "\<And>u. timer_val t u = (case sets c x u of Some v \<Rightarrow> v | None \<Rightarrow> timer_val s u)"
    and "open_row t = row_step x (open_row s)" "row_ok (open_row s) x" "list_all (\<lambda>u. timer_val s u = 0) (needs c x)"
  shows "started c s (Some x) t"
  using assms by (simp add: started_def fun_eq_iff)

lemma issue_read_started:
  assumes "issue_read c s j p q = Inr t" and can: "can_read c s j q"
    and j: "j < length (bks s)" "grp_of c j < length (bkgrp s)"
  shows "started c s (Some (RD j (curr_row (bks s ! j)))) t"
proof -
  obtain s1 where s1: "turn_bus READ (CL c) s = Inr s1" using assms(1) by (auto simp: issue_read_def bindE_Inr_iff)
  obtain u where u: "burst_cycles c = Inr u" "u = BL c div data_command_freq_ratio c"
    using assms(1) s1 by (auto simp: issue_read_def bindE_Inr_iff burst_cycles_def split: if_split_asm)
  define s2 where "s2 = send_burst c s1 j p q"
  have st: "same_timers s s2"
    using turn_bus_timers[OF s1] send_burst_timers by (auto simp: s2_def intro: same_timers_trans)
  note len = same_timers_length[OF st] and val = same_timers_val[OF st, symmetric] and row = same_timers_row[OF st]
  define s3 where "s3 = upd_bank s2 j (\<lambda>b. b\<lparr>RTPc := u, n_access := n_access b + 1\<rparr>)"
  define s4 where "s4 = upd_grp s3 (grp_of c j) (\<lambda>g. g\<lparr>CCDLc := tCCDL c, RTPLc := tRTPL c\<rparr>)"
  have t: "t = tally (\<lambda>t. t\<lparr>bwutil := bwutil t + u\<rparr>) (s4\<lparr>CCDc := tCCD c, RTWc := tRTW c, n_rd := n_rd s4 + 1\<rparr>)"
    using assms(1) s1 u(1) by (simp add: issue_read_def s2_def s3_def s4_def Let_def)
  show ?thesis
  proof (rule startedI)
    show "timer_val t x = (case sets c (RD j (curr_row (bks s ! j))) x of Some v \<Rightarrow> v | None \<Rightarrow> timer_val s x)" for x
      using j len u(2) unfolding val[symmetric]
      by (cases x) (simp_all add: t s4_def s3_def of_bank_upd of_grp_upd of_eq)
    have "open_row t = open_row s2"
      using j len by (auto simp: t s4_def s3_def open_row_upd open_row_def fun_eq_iff)
    then show "open_row t = row_step (RD j (curr_row (bks s ! j))) (open_row s)" using row by simp
    show "list_all (\<lambda>u. timer_val s u = 0) (needs c (RD j (curr_row (bks s ! j))))"
      and "row_ok (open_row s) (RD j (curr_row (bks s ! j)))"
      using can j by (simp_all add: can_read_def Let_def of_eq open_row_def)
  qed (use len in \<open>simp_all add: t s4_def s3_def\<close>)
qed

lemma issue_write_started:
  assumes "issue_write c s j p q = Inr t" and can: "can_write c s j q"
    and j: "j < length (bks s)" "grp_of c j < length (bkgrp s)"
  shows "started c s (Some (WR j (curr_row (bks s ! j)))) t"
proof -
  obtain s1 where s1: "turn_bus WRITE (WL c) s = Inr s1" using assms(1) by (auto simp: issue_write_def bindE_Inr_iff)
  obtain u where u: "burst_cycles c = Inr u" using assms(1) s1 by (auto simp: issue_write_def bindE_Inr_iff)
  define s2 where "s2 = send_burst c s1 j p q"
  have st: "same_timers s s2"
    using turn_bus_timers[OF s1] send_burst_timers by (auto simp: s2_def intro: same_timers_trans)
  note len = same_timers_length[OF st] and val = same_timers_val[OF st, symmetric] and row = same_timers_row[OF st]
  define s3 where "s3 = upd_bank s2 j (\<lambda>b. b\<lparr>WTPc := tWTP c\<rparr>)"
  define s4 where "s4 = upd_grp s3 (grp_of c j) (\<lambda>g. g\<lparr>CCDLc := tCCDL c\<rparr>)"
  have t: "t = tally (\<lambda>t. t\<lparr>bwutil := bwutil t + u\<rparr>) (s4\<lparr>CCDc := tCCD c, WTRc := tWTR c, n_wr := n_wr s4 + 1\<rparr>)"
    using assms(1) s1 u by (simp add: issue_write_def s2_def s3_def s4_def Let_def)
  show ?thesis
  proof (rule startedI)
    show "timer_val t x = (case sets c (WR j (curr_row (bks s ! j))) x of Some v \<Rightarrow> v | None \<Rightarrow> timer_val s x)" for x
      using j len unfolding val[symmetric]
      by (cases x) (simp_all add: t s4_def s3_def of_bank_upd of_grp_upd of_eq)
    have "open_row t = open_row s2"
      using j len by (auto simp: t s4_def s3_def open_row_upd open_row_def fun_eq_iff)
    then show "open_row t = row_step (WR j (curr_row (bks s ! j))) (open_row s)" using row by simp
    show "list_all (\<lambda>u. timer_val s u = 0) (needs c (WR j (curr_row (bks s ! j))))"
      and "row_ok (open_row s) (WR j (curr_row (bks s ! j)))"
      using can j by (simp_all add: can_write_def Let_def of_eq open_row_def)
  qed (use len in \<open>simp_all add: t s4_def s3_def\<close>)
qed

lemma issue_activate_started:
  assumes can: "can_activate s j" and j: "j < length (bks s)"
  shows "started c s (Some (ACT j (req_row q))) (issue_activate c s j q)"
proof (rule startedI)
  show "timer_val (issue_activate c s j q) x = (case sets c (ACT j (req_row q)) x of Some v \<Rightarrow> v | None \<Rightarrow> timer_val s x)" for x
    using j by (cases x) (simp_all add: issue_activate_def of_bank_upd of_eq)
qed (use can j in \<open>simp_all add: issue_activate_def can_activate_def open_row_upd Let_def of_eq open_row_def\<close>)

lemma issue_precharge_started:
  assumes can: "can_precharge c s j q" and j: "j < length (bks s)" "grp_of c j < length (bkgrp s)"
  shows "started c s (Some (PRE j (curr_row (bks s ! j)))) (issue_precharge c s j)"
proof (rule startedI)
  show "timer_val (issue_precharge c s j) x = (case sets c (PRE j (curr_row (bks s ! j))) x of Some v \<Rightarrow> v | None \<Rightarrow> timer_val s x)" for x
    using j by (cases x) (simp_all add: issue_precharge_def of_bank_upd of_eq)
qed (use can j in \<open>simp_all add: issue_precharge_def can_precharge_def open_row_upd Let_def of_eq open_row_def\<close>)

lemma started_same:
  assumes "started c s x t" and same: "same_timers t t'"
  shows "started c s x t'"
proof -
  have eq: "timer_val t' = timer_val t" "open_row t' = open_row t" "length (bks t') = length (bks t)"
    "length (bkgrp t') = length (bkgrp t)"
    using same_timers_length[OF same] same_timers_val[OF same] same_timers_row[OF same] by auto
  show ?thesis using assms(1) unfolding started_def eq .
qed

text \<open>A state in which nothing is issued yet looks to a command like the state before the loop.\<close>

lemma started_None:
  assumes "started c s None t" and "started c t (Some x) u"
  shows "started c s (Some x) u"
proof -
  have eq: "timer_val t = timer_val s" "open_row t = open_row s" "length (bks t) = length (bks s)"
    "length (bkgrp t) = length (bkgrp s)" using assms(1) by (auto simp: started_def)
  show ?thesis using assms(2) unfolding started_def eq .
qed

lemma bank_at_started:
  assumes turn: "bank_at c t issued k j = Inr (t', issued', k')" and st: "started c s issued t"
  shows "started c s issued' t'"
proof -
  have j: "j < length (bks t)" "grp_of c j < length (bkgrp t)"
    using turn by (auto simp: bank_at_def split: if_split_asm)
  show ?thesis
  proof (cases "mrq (bks t ! j)")
    case None
    have "same_timers t (upd_bank t j (\<lambda>b. b\<lparr>n_idle := n_idle b + 1\<rparr>))"
      by (rule same_timers_upd) (simp add: bank_core_def)
    then show ?thesis using turn j None started_same[OF st] by (auto simp: bank_at_def)
  next
    case (Some p)
    then obtain q where q: "deref (reqs t) p = Inr q" using turn j by (auto simp: bank_at_def bindE_Inr_iff)
    show ?thesis
    proof (cases "issued = None")
      case False
      then show ?thesis using turn j Some q st by (auto simp: bank_at_def)
    next
      case True
      then have none: "started c s None t" using st by simp
      show ?thesis using turn j Some q True none
        by (auto simp: bank_at_def bindE_Inr_iff split: if_split_asm
          intro!: started_None[OF none] issue_read_started issue_write_started issue_activate_started
            issue_precharge_started)
    qed
  qed
qed

lemma bank_loop_started:
  assumes "foldE (bank_turn c) (s, None, k) is = Inr (t, issued, k')"
  shows "started c s issued t"
proof -
  have "(\<lambda>(t, issued, k). started c s issued t) (t, issued, k')"
  proof (rule foldE_invariant[OF _ _ assms])
    fix acc i acc'
    assume "(\<lambda>(t, issued, k). started c s issued t) acc" "bank_turn c acc i = Inr acc'"
    then show "(\<lambda>(t, issued, k). started c s issued t) acc'"
      by (cases acc; cases acc') (auto simp: bank_turn_def intro: bank_at_started)
  qed (simp add: started_def)
  then show ?thesis by simp
qed

lemma count_down_val: "timer_val (count_down s) u = DEC2ZERO (timer_val s u)"
  by (cases u) (simp_all add: count_down_def of_bank_def of_grp_def DEC2ZERO_def)

lemma count_down_row: "open_row (count_down s) = open_row s"
  by (auto simp: count_down_def open_row_def fun_eq_iff)

lemma timer_val_tally [simp]: "timer_val (tally f s) u = timer_val s u"
  by (cases u) simp_all

text \<open>A cycle refines the protocol: the command it issues is one whose countdowns have run out and whose row fits, and
  every countdown is what the command sets or what it was, less one.\<close>

lemma dram_cycle_protocol:
  assumes "dram_cycle c now tot s = Inr (s', cmd, d)"
  shows "timer_val s' u = DEC2ZERO (case cmd of None \<Rightarrow> timer_val s u
           | Some x \<Rightarrow> (case sets c x u of Some v \<Rightarrow> v | None \<Rightarrow> timer_val s u))"
    and "open_row s' = (case cmd of None \<Rightarrow> open_row s | Some x \<Rightarrow> row_step x (open_row s))"
    and "cmd = Some x \<Longrightarrow> row_ok (open_row s) x \<and> list_all (\<lambda>u. timer_val s u = 0) (needs c x)"
proof -
  obtain s1 where s1: "dq_stage c s = Inr (s1, d)" using assms by (auto simp: dram_cycle_def bindE_Inr_iff)
  obtain s2 where s2: "run_scheduler c now tot s1 = Inr s2" using assms s1 by (auto simp: dram_cycle_def bindE_Inr_iff)
  obtain s3 k where s3: "foldE (bank_turn c) (s2, None, nbk c) [0..<unat (nbk c)] = Inr (s3, cmd, k)"
    "s' = count_down (tally (\<lambda>t. t\<lparr>n_nop := n_nop t + (if cmd = None then 1 else 0),
       n_activity := n_activity t + (if k \<noteq> 0 then 1 else 0), n_cmd := n_cmd t + 1\<rparr>) s3)"
    using assms s1 s2 by (auto simp: dram_cycle_def issue_stage_def bindE_Inr_iff)
  have same: "same_timers s s2" using dq_stage_timers[OF s1] run_scheduler_timers[OF s2] by (rule same_timers_trans)
  have st: "started c s2 cmd s3" by (rule bank_loop_started[OF s3(1)])
  note v = same_timers_val[OF same] and r = same_timers_row[OF same]
  show "timer_val s' u = DEC2ZERO (case cmd of None \<Rightarrow> timer_val s u
           | Some x \<Rightarrow> (case sets c x u of Some v \<Rightarrow> v | None \<Rightarrow> timer_val s u))"
    using st by (simp add: s3(2) count_down_val v started_def split: option.splits)
  show "open_row s' = (case cmd of None \<Rightarrow> open_row s | Some x \<Rightarrow> row_step x (open_row s))"
    using st by (simp add: s3(2) count_down_row r started_def split: option.splits)
  show "cmd = Some x \<Longrightarrow> row_ok (open_row s) x \<and> list_all (\<lambda>u. timer_val s u = 0) (needs c x)"
    using st by (simp add: v r started_def)
qed

section \<open>Runs\<close>

text \<open>What the partition unit does with the channel: it pushes requests, takes replies and runs cycles.  The run
  collects the commands of the cycles, and the fetches that come out as replies and as finished write-backs.\<close>

datatype channel_op = Push_Req dram_fetch | Pop_Reply | Tick u64 u64

type_synonym channel = "dram \<times> dram_cmd option list \<times> dram_fetch list"

fun channel_step :: "memory_config \<Rightarrow> channel \<Rightarrow> channel_op \<Rightarrow> channel cxx" where
  "channel_step c (s, cmds, out) (Push_Req mf) = bindE (dram_push c 0 0 s mf) (\<lambda>t. Inr (t, cmds, out))"
| "channel_step c (s, cmds, out) Pop_Reply =
     bindE (return_queue_pop s) (\<lambda>r. Inr (fst r, cmds, out @ opt_list (snd r)))"
| "channel_step c (s, cmds, out) (Tick now tot) =
     bindE (dram_cycle c now tot s) (\<lambda>r. Inr (fst r, cmds @ [fst (snd r)], out @ opt_list (snd (snd r))))"

text \<open>A countdown covers what is left of the distance since every command that started it.\<close>

definition covers :: "memory_config \<Rightarrow> dram \<Rightarrow> dram_cmd option list \<Rightarrow> bool" where
  "covers c s cmds \<longleftrightarrow>
     (\<forall>i x u v. i < length cmds \<and> cmds ! i = Some x \<and> sets c x u = Some v \<longrightarrow>
        unat v \<le> length cmds - i + unat (timer_val s u))"

definition protocol_inv :: "memory_config \<Rightarrow> channel \<Rightarrow> bool" where
  "protocol_inv c st \<longleftrightarrow>
     (case st of (s, cmds, out) \<Rightarrow>
        covers c s cmds \<and> open_row s = open_rows cmds \<and> timing_ok c cmds \<and> rows_ok cmds)"

lemma unat_DEC2ZERO: "unat (DEC2ZERO v) = unat v - 1"
  by (auto simp: DEC2ZERO_def unat_minus_one)

text \<open>A countdown is started with one value, whatever the command.\<close>

lemma sets_unique: "sets c x u = Some v \<Longrightarrow> sets c y u = Some w \<Longrightarrow> v = w"
  by (cases x; cases y; cases u) (auto split: if_split_asm)

lemma covers_step:
  assumes "covers c s cmds"
    and "\<And>u. timer_val s' u = DEC2ZERO (case cmd of None \<Rightarrow> timer_val s u
           | Some x \<Rightarrow> (case sets c x u of Some v \<Rightarrow> v | None \<Rightarrow> timer_val s u))"
  shows "covers c s' (cmds @ [cmd])"
  unfolding covers_def
proof (intro allI impI, elim conjE)
  fix i x u v
  assume i: "i < length (cmds @ [cmd])" "(cmds @ [cmd]) ! i = Some x" "sets c x u = Some v"
  show "unat v \<le> length (cmds @ [cmd]) - i + unat (timer_val s' u)"
  proof (cases "i = length cmds")
    case True
    then have "timer_val s' u = DEC2ZERO v" using i assms(2)[of u] by simp
    then show ?thesis using True by (simp add: unat_DEC2ZERO)
  next
    case False
    then have old: "i < length cmds" "cmds ! i = Some x" using i by (auto simp: nth_append split: if_split_asm)
    then have le: "unat v \<le> length cmds - i + unat (timer_val s u)" using assms(1) i(3) by (simp add: covers_def)
    show ?thesis
    proof (cases "\<exists>y w. cmd = Some y \<and> sets c y u = Some w")
      case False
      then have "timer_val s' u = DEC2ZERO (timer_val s u)" using assms(2)[of u] by (auto split: option.splits)
      then show ?thesis using le old(1) by (simp add: unat_DEC2ZERO)
    next
      case True
      then obtain y w where y: "cmd = Some y" "sets c y u = Some w" by blast
      then have "timer_val s' u = DEC2ZERO v" using assms(2)[of u] sets_unique[OF i(3) y(2)] by simp
      then show ?thesis using old(1) by (simp add: unat_DEC2ZERO)
    qed
  qed
qed

lemma timing_ok_step:
  assumes ok: "timing_ok c cmds" and cov: "covers c s cmds"
    and ready: "\<And>y. cmd = Some y \<Longrightarrow> list_all (\<lambda>u. timer_val s u = 0) (needs c y)"
  shows "timing_ok c (cmds @ [cmd])"
  unfolding timing_ok_def
proof (intro allI impI, elim conjE)
  fix i j x y u v
  assume h: "i < j" "j < length (cmds @ [cmd])" "(cmds @ [cmd]) ! i = Some x" "(cmds @ [cmd]) ! j = Some y"
    "sets c x u = Some v" "u \<in> set (needs c y)"
  then have i: "i < length cmds" "cmds ! i = Some x" by (auto simp: nth_append)
  show "unat v \<le> j - i"
  proof (cases "j = length cmds")
    case True
    then have "cmd = Some y" using h(4) by simp
    then have "timer_val s u = 0" using ready h(6) by (auto simp: list_all_iff)
    moreover have "unat v \<le> length cmds - i + unat (timer_val s u)" using cov i h(5) by (simp add: covers_def)
    ultimately show ?thesis using True by simp
  next
    case False
    then have "j < length cmds" "cmds ! j = Some y" using h(2,4) by (auto simp: nth_append)
    then show ?thesis using ok h(1,5,6) i(2) unfolding timing_ok_def by blast
  qed
qed

lemma rows_ok_step:
  assumes "rows_ok cmds" and "\<And>y. cmd = Some y \<Longrightarrow> row_ok (open_rows cmds) y"
  shows "rows_ok (cmds @ [cmd])"
  using assms by (auto simp: rows_ok_def nth_append less_Suc_eq)

lemma open_rows_snoc:
  "open_rows (cmds @ [cmd]) = (case cmd of None \<Rightarrow> open_rows cmds | Some x \<Rightarrow> row_step x (open_rows cmds))"
  by (simp add: open_rows_def split: option.splits)

lemma protocol_same:
  assumes "protocol_inv c (s, cmds, out)" and same: "same_timers s t"
  shows "protocol_inv c (t, cmds, out')"
proof -
  have eq: "timer_val t = timer_val s" "open_row t = open_row s"
    using same_timers_val[OF same] same_timers_row[OF same] by auto
  show ?thesis using assms(1) unfolding protocol_inv_def covers_def prod.case eq .
qed

lemma protocol_step:
  assumes inv: "protocol_inv c st" and step: "channel_step c st op = Inr st'"
  shows "protocol_inv c st'"
proof -
  obtain s cmds out where st: "st = (s, cmds, out)" by (cases st)
  note inv' = inv[unfolded st]
  show ?thesis
  proof (cases op)
    case (Push_Req mf)
    then obtain t where t: "dram_push c 0 0 s mf = Inr t" "st' = (t, cmds, out)" using step st by (auto simp: bindE_Inr_iff)
    have "same_timers s t" using t(1) by (auto simp: dram_push_def Let_def assertE_Inr_iff same_timers_def tally_def)
    then show ?thesis using protocol_same[OF inv'] t(2) by simp
  next
    case Pop_Reply
    then obtain t d where t: "return_queue_pop s = Inr (t, d)" "st' = (t, cmds, out @ opt_list d)"
      using step st by (auto simp: bindE_Inr_iff)
    have "same_timers s t" using t(1) by (auto simp: return_queue_pop_def bindE_Inr_iff same_timers_def)
    then show ?thesis using protocol_same[OF inv'] t(2) by simp
  next
    case (Tick now tot)
    then obtain t cmd d where t: "dram_cycle c now tot s = Inr (t, cmd, d)" "st' = (t, cmds @ [cmd], out @ opt_list d)"
      using step st by (auto simp: bindE_Inr_iff)
    note p = dram_cycle_protocol[OF t(1)]
    have "covers c s cmds" "open_row s = open_rows cmds" "timing_ok c cmds" "rows_ok cmds"
      using inv' by (simp_all add: protocol_inv_def)
    then show ?thesis
      using covers_step[of c s cmds t cmd] timing_ok_step[of c cmds s cmd] rows_ok_step[of cmds cmd] p
      by (cases cmd) (simp_all add: t(2) protocol_inv_def open_rows_snoc)
  qed
qed

interpretation protocol: guarded_machine "channel_step c" "protocol_inv c" for c
  by unfold_locales (rule protocol_step)

lemma protocol_new:
  assumes "dram_t c i = Inr s"
  shows "protocol_inv c (s, [], [])"
proof -
  have "bks s = map (new_bank c) [0..<unat (nbk c)]" using assms by (auto simp: dram_t_def bindE_Inr_iff split: if_split_asm)
  then have "open_row s = (\<lambda>_. None)" by (auto simp: open_row_def fun_eq_iff new_bank_def)
  then show ?thesis by (simp add: protocol_inv_def covers_def timing_ok_def rows_ok_def open_rows_def)
qed

text \<open>Claim C37. The controller keeps the timing of the memory: in every run of a new channel, whatever is pushed and
  taken in between, a command comes no earlier after another than each countdown allows that the first starts and the
  second waits for (tRCD, tRCDWR, tRAS, tRP, tRC, tRRD, tCCD, tCCDL, tRTW, tWTR, tWTP, tRTPL and the burst), and a
  column is read or written, a row opened or closed only when the rows opened before allow it.\<close>

theorem dram_timing:
  assumes "dram_t c i = Inr s" and "foldE (channel_step c) (s, [], []) ops = Inr (t, cmds, out)"
  shows "timing_ok c cmds \<and> rows_ok cmds"
  using protocol.run_inv[OF protocol_new[OF assms(1)] assms(2)] by (simp add: protocol_inv_def)

end
