(* ===== verification/Dram_Total.thy ===== *)
theory Dram_Total
  imports Dram_Store Dram_Timing
begin

text \<open>
  A channel never fails: no assertion, no index out of range, no pointer to a deleted request, in any run of its
  interface.  And it keeps its promise to the partition: every fetch pushed is in the channel or has come out, once.
\<close>

section \<open>The invariant of a channel\<close>

definition config_ok :: "memory_config \<Rightarrow> bool" where
  "config_ok c \<longleftrightarrow>
     0 < unat (dram_atom_size c) \<and> data_command_freq_ratio c \<noteq> 0 \<and> scheduler_type c \<noteq> Other_Scheduler \<and>
     0 < unat (nbk c) \<and> (\<forall>j < unat (nbk c). grp_of c j < unat (nbkgrp c))"

definition queued :: "dram \<Rightarrow> nat list" where
  "queued s = payload (mrqq s) @ sched_waiting (m_frfcfs s)"

definition chan_ok :: "memory_config \<Rightarrow> dram \<Rightarrow> bool" where
  "chan_ok c s \<longleftrightarrow>
     store_ok c (reqs s) (queued s) (map mrq (bks s)) (payload (rwq s)) (next_req s) \<and>
     sched_ok (reqs s) (m_frfcfs s) (unat (nbk c)) \<and>
     length (bks s) = unat (nbk c) \<and> length (bkgrp s) = unat (nbkgrp c) \<and>
     fifo_ok (rwq s) \<and> fifo_ok (returnq s) \<and> fifo_ok (mrqq s) \<and> m_min_len (mrqq s) = 0 \<and> None \<notin> set (cells (mrqq s))"

definition chan_uids :: "dram \<Rightarrow> u32 multiset" where
  "chan_uids s = live_uids (reqs s) + mset (map m_request_uid (payload (returnq s)))"

lemma chan_okD:
  assumes "chan_ok c s"
  shows "store_ok c (reqs s) (queued s) (map mrq (bks s)) (payload (rwq s)) (next_req s)"
    "sched_ok (reqs s) (m_frfcfs s) (unat (nbk c))" "length (bks s) = unat (nbk c)" "length (bkgrp s) = unat (nbkgrp c)"
    "fifo_ok (rwq s)" "fifo_ok (returnq s)" "fifo_ok (mrqq s)" "m_min_len (mrqq s) = 0" "None \<notin> set (cells (mrqq s))"
  using assms by (simp_all add: chan_ok_def)

text \<open>The rest of the state does not matter.\<close>

definition chan_view ::
    "dram \<Rightarrow> req_store \<times> nat fifo \<times> frfcfs \<times> nat option list \<times> nat \<times> nat fifo \<times> dram_fetch fifo \<times> nat \<times> u32" where
  "chan_view s = (reqs s, mrqq s, m_frfcfs s, map mrq (bks s), length (bkgrp s), rwq s, returnq s, next_req s, dram_id s)"

lemma chan_view_cong:
  assumes "chan_view s = chan_view t"
  shows "chan_ok c s = chan_ok c t" and "chan_uids s = chan_uids t"
proof -
  have eq: "reqs s = reqs t" "mrqq s = mrqq t" "m_frfcfs s = m_frfcfs t" "map mrq (bks s) = map mrq (bks t)"
    "length (bkgrp s) = length (bkgrp t)" "rwq s = rwq t" "returnq s = returnq t" "next_req s = next_req t"
    using assms by (simp_all add: chan_view_def)
  have "length (bks s) = length (bks t)" using eq(4) by (metis length_map)
  then show "chan_ok c s = chan_ok c t" "chan_uids s = chan_uids t"
    by (simp_all add: chan_ok_def chan_uids_def queued_def eq)
qed

lemma mrq_upd_bank: "map mrq (bks (upd_bank s j f)) = (if j < length (bks s) then (map mrq (bks s))[j := mrq (f (bks s ! j))] else map mrq (bks s))"
  by (simp add: upd_bank_def map_update list_update_beyond)

lemma mrq_upd_same: "(\<And>b. mrq (f b) = mrq b) \<Longrightarrow> map mrq (bks (upd_bank s j f)) = map mrq (bks s)"
  using list_update_id[of "map mrq (bks s)" j]
  by (cases "j < length (bks s)") (simp_all add: upd_bank_def map_update list_update_beyond)

lemma view_upd_bank: "(\<And>b. mrq (f b) = mrq b) \<Longrightarrow> chan_view (upd_bank s j f) = chan_view s"
  using mrq_upd_same[of f s j] by (simp add: chan_view_def) (simp add: upd_bank_def)

lemma view_simps [simp]:
  "chan_view (tally f s) = chan_view s" "chan_view (upd_grp s j g) = chan_view s"
  "chan_view (s\<lparr>CCDc := x\<rparr>) = chan_view s" "chan_view (s\<lparr>RTWc := x\<rparr>) = chan_view s" "chan_view (s\<lparr>WTRc := x\<rparr>) = chan_view s"
  "chan_view (s\<lparr>RRDc := x\<rparr>) = chan_view s" "chan_view (s\<lparr>n_rd := x\<rparr>) = chan_view s" "chan_view (s\<lparr>n_wr := x\<rparr>) = chan_view s"
  "chan_view (s\<lparr>prio := i\<rparr>) = chan_view s" "chan_view (s\<lparr>max_mrqs := x\<rparr>) = chan_view s"
  "chan_view (s\<lparr>max_mrqs_temp := x\<rparr>) = chan_view s" "chan_view (s\<lparr>max_mrq_latency := x\<rparr>) = chan_view s"
  "chan_view (count_down s) = chan_view s"
  by (simp_all add: chan_view_def tally_def upd_grp_def count_down_def comp_def)

text \<open>The promise of a step: it does not fail, keeps the invariant, and the fetches that leave are the ones it says.\<close>

definition keeps :: "memory_config \<Rightarrow> dram \<Rightarrow> dram \<Rightarrow> bool" where
  "keeps c s t \<longleftrightarrow> chan_ok c t \<and> chan_uids t = chan_uids s \<and> dram_id t = dram_id s"

lemma keeps_trans: "keeps c s t \<Longrightarrow> keeps c t u \<Longrightarrow> keeps c s u"
  by (simp add: keeps_def)

lemma keeps_refl: "chan_ok c s \<Longrightarrow> keeps c s s"
  by (simp add: keeps_def)

lemma keeps_view: "keeps c s t \<Longrightarrow> chan_view u = chan_view t \<Longrightarrow> keeps c s u"
  using chan_view_cong[of u t] by (simp add: keeps_def) (simp add: chan_view_def)

section \<open>The stages\<close>

lemma payload_Cons: "cells q = d # rest \<Longrightarrow> payload q = opt_list d @ payload (q\<lparr>cells := rest\<rparr>)"
  by (simp add: payload_def opt_list_def)

lemma pop_plain:
  assumes "fifo_ok q" "m_min_len q = 0" "None \<notin> set (cells q)" "cells q \<noteq> []"
  obtains q' p where "pop q = Inr (q', Some p)" "fifo_ok q'" "m_min_len q' = 0" "None \<notin> set (cells q')"
    "payload q = p # payload q'" "cells q' = tl (cells q)"
proof -
  obtain d rest where c: "cells q = d # rest" using assms(4) by (cases "cells q") auto
  then obtain p where d: "d = Some p" using assms(3) by (cases d) auto
  obtain q' where q': "pop q = Inr (q', Some p)" "fifo_ok q'" "payload q = p # payload q'"
    using pop_ok[OF assms(1)] c d by (auto simp: top_elem_def)
  moreover have "m_min_len q' = 0 \<and> cells q' = rest"
    using q'(1) c assms(2) by (auto simp: pop_def Let_def assertE_Inr_iff uncount_def)
  ultimately show ?thesis using that c assms(3) by auto
qed

lemma sched_ok_upd:
  assumes "sched_ok h f n" and "p \<notin> set (sched_waiting f)"
  shows "sched_ok (h(p := x)) f n"
  by (rule sched_ok_store[OF assms(1)]) (use assms(2) in \<open>auto simp: row_of_def\<close>)

lemma set_reply_ok:
  assumes "m_mf_type mf = (if mf_is_write mf then WRITE_REQUEST else READ_REQUEST)"
    and "mf_access_type mf \<noteq> L1_WRBK_ACC" "mf_access_type mf \<noteq> L2_WRBK_ACC"
  shows "\<exists>rep. set_reply mf = Inr rep \<and> m_request_uid rep = m_request_uid mf"
  using assms by (auto simp: set_reply_def)

lemma dq_transfer_ok:
  assumes ok: "chan_ok c (s\<lparr>rwq := q0\<rparr>)" and q0: "payload q0 = p # payload q1" "fifo_ok q1"
  shows "\<exists>s' d. dq_transfer c (s\<lparr>rwq := q1\<rparr>) p = Inr (s', d) \<and> chan_ok c s' \<and> dram_id s' = dram_id s \<and>
    chan_uids s = chan_uids s' + mset (map m_request_uid (opt_list d))"
proof -
  note D = chan_okD[OF ok, simplified]
  have store: "store_ok c (reqs s) (queued s) (map mrq (bks s)) (p # payload q1) (next_req s)"
    using D(1) q0(1) by (simp add: queued_def)
  obtain q where q: "reqs s p = Some q" using store_okD(5)[OF store] by auto
  have im: "image_ok c q" using store_okD(2)[OF store q] by (simp add: req_ok_def)
  note T = store_ok_transfer[OF store q]
  have fin: "finite (dom (reqs s))" by (rule live_finite[OF store])
  have pW: "p \<notin> set (sched_waiting (m_frfcfs s))" using T(3) by (simp add: queued_def)
  let ?q = "q\<lparr>dqbytes := dqbytes q + dram_atom_size c\<rparr>"
  have ok': "chan_ok c (s\<lparr>rwq := q1, reqs := (reqs s)(p := x), returnq := r\<rparr>)"
    if "store_ok c ((reqs s)(p := x)) (queued s) (map mrq (bks s)) (payload q1) (next_req s)" "fifo_ok r" for x r
    using that D q0(2) sched_ok_upd[OF D(2) pW] by (simp add: chan_ok_def queued_def)
  show ?thesis
  proof (cases "dqbytes ?q < req_nbytes ?q")
    case True
    have "live_uids ((reqs s)(p := Some ?q)) = live_uids (reqs s)" by (rule live_touch[where h = "reqs s" and r = q, OF q]) simp
    then show ?thesis
      using True q ok'[OF T(1)[OF True] D(6)] by (simp add: dq_transfer_def deref_def chan_uids_def opt_list_def)
  next
    case last: False
    have del: "live_uids (reqs s) = add_mset (m_request_uid (req_data q)) (live_uids ((reqs s)(p := None)))"
      by (rule live_delete[OF fin q])
    show ?thesis
    proof (cases "mf_access_type (req_data q) = L1_WRBK_ACC \<or> mf_access_type (req_data q) = L2_WRBK_ACC")
      case True
      then show ?thesis
        using last q ok'[OF T(2)[OF last] D(6)] del
        by (simp add: dq_transfer_def deref_def chan_uids_def opt_list_def)
    next
      case False
      obtain rep where rep: "set_reply (req_data q) = Inr rep" "m_request_uid rep = m_request_uid (req_data q)"
        using set_reply_ok[OF image_okD(4)[OF im]] False by blast
      have "chan_ok c (s\<lparr>rwq := q1, returnq := push (returnq s) (Some rep), reqs := (reqs s)(p := None)\<rparr>)"
        using ok'[OF T(2)[OF last] fifo_ok_push_any[OF D(6), of "Some rep"]] by (simp add: chan_ok_def queued_def)
      then show ?thesis
        using last q False del rep
        by (simp add: dq_transfer_def deref_def chan_uids_def opt_list_def payload_push)
    qed
  qed
qed

lemma dq_stage_ok:
  assumes ok: "chan_ok c s"
  shows "\<exists>s' d. dq_stage c s = Inr (s', d) \<and> chan_ok c s' \<and> dram_id s' = dram_id s \<and>
    chan_uids s = chan_uids s' + mset (map m_request_uid (opt_list d))"
proof (cases "fifo_full (returnq s)")
  case True
  then show ?thesis using ok by (simp add: dq_stage_def opt_list_def)
next
  case False
  obtain q1 where q1: "pop (rwq s) = Inr (q1, top_elem (rwq s))" "fifo_ok q1"
    "payload (rwq s) = opt_list (top_elem (rwq s)) @ payload q1"
    using pop_ok[OF chan_okD(5)[OF ok]] unfolding opt_list_def by blast
  show ?thesis
  proof (cases "top_elem (rwq s)")
    case None
    then have "payload q1 = payload (rwq s)" using q1(3) by (simp add: opt_list_def)
    then have "chan_ok c (s\<lparr>rwq := q1\<rparr>)" using ok q1(2) by (simp add: chan_ok_def queued_def)
    then show ?thesis using False q1(1) None by (simp add: dq_stage_def opt_list_def chan_uids_def)
  next
    case (Some p)
    have "chan_ok c (s\<lparr>rwq := rwq s\<rparr>)" using ok by simp
    from dq_transfer_ok[OF this, of p q1] q1 Some show ?thesis by (simp add: dq_stage_def False opt_list_def)
  qed
qed

subsection \<open>The scheduler\<close>

lemma queued_pop: "payload (mrqq s) = p # payload q \<Longrightarrow> queued s = p # (payload q @ sched_waiting (m_frfcfs s))"
  by (simp add: queued_def)

lemma store_ok_bank: "store_ok c h Q M R nx \<Longrightarrow> h p = Some r \<Longrightarrow> req_bk r < unat (nbk c)"
  using store_okD(2) image_okD(3) by (fastforce simp: req_ok_def)

lemma fill_one_ok:
  assumes ok: "chan_ok c s" and ne: "cells (mrqq s) \<noteq> []"
  shows "\<exists>s'. fill_one s = Inr s' \<and> keeps c s s' \<and> cells (mrqq s') = tl (cells (mrqq s))"
proof -
  note D = chan_okD[OF ok]
  obtain q' p where q': "pop (mrqq s) = Inr (q', Some p)" "fifo_ok q'" "m_min_len q' = 0" "None \<notin> set (cells q')"
    "payload (mrqq s) = p # payload q'" "cells q' = tl (cells (mrqq s))" by (rule pop_plain[OF D(7,8,9) ne])
  have "p \<in> set (queued s)" using q'(5) by (simp add: queued_def)
  then obtain r where r: "reqs s p = Some r" using store_okD(3)[OF D(1)] by blast
  obtain f where f: "add_req (reqs s) (m_frfcfs s) p = Inr f" "sched_ok (reqs s) f (unat (nbk c))"
    "mset (sched_waiting f) = add_mset p (mset (sched_waiting (m_frfcfs s)))"
    using add_req_ok[OF D(2) r store_ok_bank[OF D(1) r]] by blast
  define s' where "s' = s\<lparr>mrqq := q', m_frfcfs := f, total_n_access := total_n_access s + 1,
      total_n_writes := total_n_writes s + (if m_mf_type (req_data r) = WRITE_REQUEST then 1 else 0),
      total_n_reads := total_n_reads s + (if m_mf_type (req_data r) = READ_REQUEST then 1 else 0)\<rparr>"
  have "mset (queued s') = mset (queued s)" using q'(5) f(3) by (simp add: queued_def s'_def)
  then have "store_ok c (reqs s) (queued s') (map mrq (bks s)) (payload (rwq s)) (next_req s)"
    using store_ok_perm[OF D(1)] by simp
  then have "keeps c s s'" using D f(2) q' by (simp add: keeps_def chan_ok_def chan_uids_def s'_def)
  moreover have "fill_one s = Inr s'" using q'(1) r f(1) by (simp add: fill_one_def deref_def s'_def Let_def)
  ultimately show ?thesis using q'(6) by (auto simp: s'_def)
qed

lemma fill_sched_ok:
  assumes "chan_ok c s"
  shows "\<exists>s'. fill_sched c s = Inr s' \<and> keeps c s s'"
  using assms
proof (induction c s rule: fill_sched.induct)
  case (1 c s)
  show ?case
  proof (cases "\<not> fifo_empty (mrqq s) \<and> (frfcfs_dram_sched_queue_size c = 0 \<or>
      m_num_pending (m_frfcfs s) < unat (frfcfs_dram_sched_queue_size c))")
    case False
    then have "fill_sched c s = Inr s" by (subst fill_sched.simps) (simp only: if_False)
    then show ?thesis using keeps_refl[OF "1.prems"] by blast
  next
    case True
    then obtain s1 where s1: "fill_one s = Inr s1" "keeps c s s1"
      using fill_one_ok[OF "1.prems"] by (auto simp: fifo_empty_def)
    have "fill_sched c s = fill_sched c s1" using True s1(1) by (subst fill_sched.simps) simp
    then show ?thesis using "1.IH"[OF True s1(1)] s1(2) keeps_trans by (auto simp: keeps_def)
  qed
qed

text \<open>A bank that serves nothing takes a request that waited.\<close>

lemma bank_takes:
  assumes ok: "chan_ok c s" and Q: "mset (queued s) = add_mset p (mset (payload q @ sched_waiting f))"
    and q: "fifo_ok q" "m_min_len q = 0" "None \<notin> set (cells q)" and f: "sched_ok (reqs s) f (unat (nbk c))"
    and b: "b < unat (nbk c)" "mrq (bks s ! b) = None"
  shows "keeps c s (upd_bank (s\<lparr>mrqq := q, m_frfcfs := f\<rparr>) b (\<lambda>k. k\<lparr>mrq := Some p\<rparr>))"
proof -
  note D = chan_okD[OF ok]
  have "store_ok c (reqs s) (payload q @ sched_waiting f) ((map mrq (bks s))[b := Some p]) (payload (rwq s)) (next_req s)"
    by (rule store_ok_take[OF D(1) Q]) (use b D(3) in simp_all)
  then show ?thesis
    using D q f b by (simp add: keeps_def chan_ok_def chan_uids_def queued_def upd_bank_def map_update)
qed

lemma scheduler_fifo_ok:
  assumes ok: "chan_ok c s"
  shows "\<exists>s'. scheduler_fifo s = Inr s' \<and> keeps c s s'"
proof (cases "cells (mrqq s) = []")
  case True
  then show ?thesis using keeps_refl[OF ok] by (simp add: scheduler_fifo_def fifo_empty_def)
next
  case False
  note D = chan_okD[OF ok]
  obtain q' p where q': "pop (mrqq s) = Inr (q', Some p)" "fifo_ok q'" "m_min_len q' = 0" "None \<notin> set (cells q')"
    "payload (mrqq s) = p # payload q'" by (rule pop_plain[OF D(7,8,9) False])
  have top: "top_elem (mrqq s) = Some p" using pop_ok[OF D(7)] q'(1) by auto
  have "p \<in> set (queued s)" using q'(5) by (simp add: queued_def)
  then obtain r where r: "reqs s p = Some r" using store_okD(3)[OF D(1)] by blast
  note b = store_ok_bank[OF D(1) r]
  show ?thesis
  proof (cases "mrq (bks s ! req_bk r) = None")
    case True
    have "keeps c s (upd_bank (s\<lparr>mrqq := q', m_frfcfs := m_frfcfs s\<rparr>) (req_bk r) (\<lambda>k. k\<lparr>mrq := Some p\<rparr>))"
      by (rule bank_takes[OF ok]) (use queued_pop[OF q'(5)] q' D(2) b True in simp_all)
    then show ?thesis using False top r b D(3) True q'(1) by (simp add: scheduler_fifo_def fifo_empty_def deref_def)
  next
    case busy: False
    then show ?thesis using False top r b D(3) keeps_refl[OF ok] by (auto simp: scheduler_fifo_def fifo_empty_def deref_def)
  qed
qed

lemma log_latency_ok:
  assumes ok: "chan_ok c s" and b: "b < unat (nbk c)" "mrq (bks s ! b) = Some p"
  shows "\<exists>s'. log_latency c now tot s p = Inr s' \<and> keeps c s s'"
proof (cases "memlatency_stat c")
  case False
  then show ?thesis using keeps_refl[OF ok] by (simp add: log_latency_def)
next
  case True
  note D = chan_okD[OF ok]
  have pM: "Some p \<in> set (map mrq (bks s))" using b D(3) by (metis length_map nth_map nth_mem)
  then obtain q where q: "reqs s p = Some q" using store_okD(4)[OF D(1)] by blast
  have pQ: "p \<notin> set (queued s)" using store_okD(2)[OF D(1) q] pM by (auto simp: req_ok_def)
  let ?q = "q\<lparr>req_timestamp := ucast (now + tot)\<rparr>"
  let ?t = "s\<lparr>reqs := (reqs s)(p := Some ?q)\<rparr>"
  have "store_ok c ((reqs s)(p := Some ?q)) (queued s) (map mrq (bks s)) (payload (rwq s)) (next_req s)"
    by (rule store_ok_touch[OF D(1) q]) simp_all
  moreover have "sched_ok ((reqs s)(p := Some ?q)) (m_frfcfs s) (unat (nbk c))"
    by (rule sched_ok_upd[OF D(2)]) (use pQ in \<open>simp add: queued_def\<close>)
  moreover have "live_uids ((reqs s)(p := Some ?q)) = live_uids (reqs s)"
    by (rule live_touch[where h = "reqs s" and r = q, OF q]) simp
  ultimately have "keeps c s ?t" using D by (simp add: keeps_def chan_ok_def chan_uids_def queued_def)
  then show ?thesis using True q
    by (auto simp: log_latency_def deref_def Let_def intro: keeps_view)
qed

lemma feed_bank_ok:
  assumes "chan_ok c s" and "list_all (\<lambda>b. b < unat (nbk c)) banks"
  shows "\<exists>s'. feed_bank c now tot s banks = Inr s' \<and> keeps c s s'"
  using assms
proof (induction banks arbitrary: s)
  case Nil
  then show ?case using keeps_refl by simp
next
  case (Cons b banks)
  note D = chan_okD[OF Cons.prems(1)]
  have b: "b < unat (nbk c)" using Cons.prems(2) by simp
  show ?case
  proof (cases "mrq (bks s ! b) = None")
    case False
    then show ?thesis using Cons.IH[OF Cons.prems(1)] Cons.prems(2) D(3) by auto
  next
    case True
    obtain f res where f: "schedule (reqs s) now (m_frfcfs s) b (curr_row (bks s ! b)) = Inr (f, res)"
      "sched_ok (reqs s) f (unat (nbk c))"
      "mset (sched_waiting (m_frfcfs s)) = mset (case res of None \<Rightarrow> [] | Some p \<Rightarrow> [p]) + mset (sched_waiting f)"
      using schedule_ok[OF D(2) b, of now "curr_row (bks s ! b)"] by blast
    show ?thesis
    proof (cases res)
      case None
      let ?s = "s\<lparr>m_frfcfs := f\<rparr>"
      have "mset (queued ?s) = mset (queued s)" using f(3) None by (simp add: queued_def)
      then have "store_ok c (reqs s) (queued ?s) (map mrq (bks s)) (payload (rwq s)) (next_req s)"
        by (rule store_ok_perm[OF D(1)])
      then have k: "keeps c s ?s" using D f(2) by (simp add: keeps_def chan_ok_def chan_uids_def)
      have "\<exists>s'. feed_bank c now tot ?s banks = Inr s' \<and> keeps c ?s s'"
        using Cons.IH[of ?s] Cons.prems(2) k by (simp add: keeps_def)
      then show ?thesis using True f(1) None b D(3) k keeps_trans by fastforce
    next
      case (Some p)
      let ?u = "upd_bank (s\<lparr>mrqq := mrqq s, m_frfcfs := f\<rparr>) b (\<lambda>k. k\<lparr>mrq := Some p\<rparr>)"
      let ?t = "upd_bank (s\<lparr>m_frfcfs := f, prio := (prio s + 1) mod unat (nbk c)\<rparr>) b (\<lambda>k. k\<lparr>mrq := Some p\<rparr>)"
      have ku: "keeps c s ?u"
        by (rule bank_takes[OF Cons.prems(1)]) (use f Some D b True in \<open>simp_all add: queued_def\<close>)
      have "chan_view ?t = chan_view ?u" by (simp add: chan_view_def upd_bank_def)
      then have k: "keeps c s ?t" by (rule keeps_view[OF ku])
      have "mrq (bks ?t ! b) = Some p" using b D(3) by (simp add: upd_bank_def)
      from log_latency_ok[OF _ b this, of now tot] k
      obtain s' where "log_latency c now tot ?t p = Inr s'" "keeps c ?t s'" by (auto simp: keeps_def)
      then show ?thesis using True f(1) Some b D(3) keeps_trans[OF k] by simp
    qed
  qed
qed

lemma run_scheduler_ok:
  assumes ok: "chan_ok c s" and c: "config_ok c"
  shows "\<exists>s'. run_scheduler c now tot s = Inr s' \<and> keeps c s s'"
proof -
  have "\<exists>s1. scheduler_frfcfs c now tot s = Inr s1 \<and> keeps c s s1"
  proof -
    obtain s1 where s1: "fill_sched c s = Inr s1" "keeps c s s1" using fill_sched_ok[OF ok] by blast
    have "list_all (\<lambda>b. b < unat (nbk c)) (bank_order c (prio s1))"
      using c by (auto simp: bank_order_def list_all_iff config_ok_def)
    moreover have "chan_ok c s1" using s1(2) by (simp add: keeps_def)
    ultimately obtain s2 where "feed_bank c now tot s1 (bank_order c (prio s1)) = Inr s2" "keeps c s1 s2"
      using feed_bank_ok by blast
    then show ?thesis using s1 keeps_trans by (auto simp: scheduler_frfcfs_def)
  qed
  moreover have "\<exists>s1. scheduler_fifo s = Inr s1 \<and> keeps c s s1" by (rule scheduler_fifo_ok[OF ok])
  ultimately obtain s1 where "(case scheduler_type c of DRAM_FIFO \<Rightarrow> scheduler_fifo s
      | DRAM_FRFCFS \<Rightarrow> scheduler_frfcfs c now tot s | Other_Scheduler \<Rightarrow> Inl Assert_Failed) = Inr s1" "keeps c s s1"
    using c by (cases "scheduler_type c") (auto simp: config_ok_def)
  then show ?thesis by (auto simp: run_scheduler_def Let_def intro: keeps_view)
qed

subsection \<open>The commands\<close>

lemma turn_bus_ok:
  assumes ok: "chan_ok c s"
  shows "\<exists>t. turn_bus d l s = Inr t \<and> keeps c s t \<and> bks t = bks s \<and> reqs t = reqs s"
proof (cases "d_rw s = d")
  case True
  then show ?thesis using keeps_refl[OF ok] by (simp add: turn_bus_def)
next
  case False
  note D = chan_okD[OF ok]
  obtain q where q: "set_min_length (rwq s) (unat l) = Inr q" "fifo_ok q" "payload q = payload (rwq s)"
    using set_min_length_ok[OF D(5)] by (auto simp: resized_def)
  have "keeps c s (s\<lparr>d_rw := d, rwq := q\<rparr>)"
    using D q by (simp add: keeps_def chan_ok_def chan_uids_def queued_def)
  then show ?thesis using False q(1) by (simp add: turn_bus_def)
qed

lemma send_burst_ok:
  assumes ok: "chan_ok c s" and j: "j < unat (nbk c)" "mrq (bks s ! j) = Some p" and q: "reqs s p = Some q"
  shows "keeps c s (send_burst c s j p q)"
proof -
  note D = chan_okD[OF ok]
  let ?q = "q\<lparr>txbytes := txbytes q + dram_atom_size c\<rparr>"
  let ?h = "(reqs s)(p := Some ?q)"
  let ?b = "\<lambda>b. if txbytes ?q < req_nbytes ?q then b else b\<lparr>mrq := None\<rparr>"
  let ?t = "upd_bank (s\<lparr>rwq := push (rwq s) (Some p), reqs := ?h\<rparr>) j ?b"
  have jM: "j < length (map mrq (bks s))" "map mrq (bks s) ! j = Some p" using j D(3) by simp_all
  then have pM: "Some p \<in> set (map mrq (bks s))" by (metis nth_mem)
  have pQ: "p \<notin> set (queued s)" using store_okD(2)[OF D(1) q] pM by (auto simp: req_ok_def)
  have map: "map mrq (bks ?t) = (if txbytes ?q < req_nbytes ?q then map mrq (bks s) else (map mrq (bks s))[j := None])"
    using j D(3) mrq_upd_bank[of "s\<lparr>rwq := push (rwq s) (Some p), reqs := ?h\<rparr>" j ?b]
      list_update_id[of "map mrq (bks s)" j] by (auto simp: map_update)
  have "store_ok c ?h (queued s) (map mrq (bks ?t)) (payload (rwq s) @ [p]) (next_req s)"
    using store_ok_burst[OF D(1) jM q] by (simp only: map)
  moreover have "sched_ok ?h (m_frfcfs s) (unat (nbk c))"
    by (rule sched_ok_upd[OF D(2)]) (use pQ in \<open>simp add: queued_def\<close>)
  moreover have "live_uids ?h = live_uids (reqs s)"
    by (rule live_touch[where h = "reqs s" and r = q, OF q]) simp
  moreover have "reqs ?t = ?h" "rwq ?t = push (rwq s) (Some p)" "queued ?t = queued s" "next_req ?t = next_req s"
    "m_frfcfs ?t = m_frfcfs s" "mrqq ?t = mrqq s" "returnq ?t = returnq s" "length (bks ?t) = length (bks s)" "bkgrp ?t = bkgrp s" "dram_id ?t = dram_id s"
    by (simp_all add: upd_bank_def queued_def)
  ultimately have "keeps c s ?t"
    using D fifo_ok_push_any[OF D(5)] by (simp add: keeps_def chan_ok_def chan_uids_def payload_push)
  then show ?thesis by (simp add: send_burst_def Let_def)
qed

lemma issue_ok:
  assumes ok: "chan_ok c s" and c: "config_ok c"
    and j: "j < unat (nbk c)" "mrq (bks s ! j) = Some p" and q: "reqs s p = Some q"
  shows "\<exists>t. issue_read c s j p q = Inr t \<and> keeps c s t" "\<exists>t. issue_write c s j p q = Inr t \<and> keeps c s t"
proof -
  have burst: "burst_cycles c = Inr (BL c div data_command_freq_ratio c)"
    using c by (simp add: burst_cycles_def config_ok_def)
  have sent: "\<exists>t. turn_bus d l s = Inr t \<and> keeps c s (send_burst c t j p q)" for d l
  proof -
    obtain t where t: "turn_bus d l s = Inr t" "keeps c s t" "bks t = bks s" "reqs t = reqs s"
      using turn_bus_ok[OF ok] by blast
    have "keeps c t (send_burst c t j p q)" by (rule send_burst_ok) (use t j q in \<open>simp_all add: keeps_def\<close>)
    then show ?thesis using t(1,2) keeps_trans by blast
  qed
  obtain t where t: "turn_bus READ (CL c) s = Inr t" "keeps c s (send_burst c t j p q)" using sent by blast
  show "\<exists>t. issue_read c s j p q = Inr t \<and> keeps c s t"
    unfolding issue_read_def Let_def t(1) burst bindE_simps
    by (rule exI, rule conjI, rule refl, rule keeps_view[OF t(2)]) (simp add: view_upd_bank)
  obtain t where t: "turn_bus WRITE (WL c) s = Inr t" "keeps c s (send_burst c t j p q)" using sent by blast
  show "\<exists>t. issue_write c s j p q = Inr t \<and> keeps c s t"
    unfolding issue_write_def Let_def t(1) burst bindE_simps
    by (rule exI, rule conjI, rule refl, rule keeps_view[OF t(2)]) (simp add: view_upd_bank)
qed

lemma bank_at_ok:
  assumes ok: "chan_ok c s" and c: "config_ok c" and j: "j < unat (nbk c)"
  shows "\<exists>t issued' k'. bank_at c s issued k j = Inr (t, issued', k') \<and> keeps c s t"
proof -
  note D = chan_okD[OF ok]
  have range: "\<not> (length (bks s) \<le> j \<or> length (bkgrp s) \<le> grp_of c j)"
    using c j D(3,4) by (simp add: config_ok_def not_le)
  show ?thesis
  proof (cases "mrq (bks s ! j)")
    case None
    have "keeps c s (upd_bank s j (\<lambda>b. b\<lparr>n_idle := n_idle b + 1\<rparr>))"
      by (rule keeps_view[OF keeps_refl[OF ok]]) (simp add: view_upd_bank)
    then show ?thesis using None range by (simp add: bank_at_def)
  next
    case (Some p)
    have "Some p \<in> set (map mrq (bks s))" using j Some D(3) by (metis length_map nth_map nth_mem)
    then obtain q where q: "reqs s p = Some q" using store_okD(4)[OF D(1)] by blast
    obtain t where t: "issue_read c s j p q = Inr t" "keeps c s t" using issue_ok(1)[OF ok c j Some q] by blast
    obtain u where u: "issue_write c s j p q = Inr u" "keeps c s u" using issue_ok(2)[OF ok c j Some q] by blast
    have act: "keeps c s (issue_activate c s j q)" and pre: "keeps c s (issue_precharge c s j)"
      by (rule keeps_view[OF keeps_refl[OF ok]], simp add: issue_activate_def issue_precharge_def view_upd_bank)+
    show ?thesis
      using range Some q t u act pre keeps_refl[OF ok] by (simp add: bank_at_def deref_def)
  qed
qed

lemma bank_loop_ok:
  assumes "chan_ok c s" and c: "config_ok c"
  shows "\<exists>t issued' k'. foldE (bank_turn c) (s, issued, k) is = Inr (t, issued', k') \<and> keeps c s t"
  using assms(1)
proof (induction "is" arbitrary: s issued k)
  case Nil
  then show ?case using keeps_refl by simp
next
  case (Cons i "is")
  have "(i + prio s) mod unat (nbk c) < unat (nbk c)" using c by (simp add: config_ok_def)
  from bank_at_ok[OF Cons.prems c this, of issued k]
  obtain t issued1 k1 where t: "bank_turn c (s, issued, k) i = Inr (t, issued1, k1)" "keeps c s t"
    by (auto simp: bank_turn_def)
  have "chan_ok c t" using t(2) by (simp add: keeps_def)
  from Cons.IH[OF this, of issued1 k1] t keeps_trans show ?case by fastforce
qed

lemma dram_cycle_ok:
  assumes ok: "chan_ok c s" and c: "config_ok c"
  shows "\<exists>t cmd d. dram_cycle c now tot s = Inr (t, cmd, d) \<and> chan_ok c t \<and> dram_id t = dram_id s \<and>
    chan_uids s = chan_uids t + mset (map m_request_uid (opt_list d))"
proof -
  obtain s1 d where s1: "dq_stage c s = Inr (s1, d)" "chan_ok c s1" "dram_id s1 = dram_id s"
    "chan_uids s = chan_uids s1 + mset (map m_request_uid (opt_list d))" using dq_stage_ok[OF ok] by blast
  obtain s2 where s2: "run_scheduler c now tot s1 = Inr s2" "keeps c s1 s2" using run_scheduler_ok[OF s1(2) c] by blast
  have "chan_ok c s2" using s2(2) by (simp add: keeps_def)
  from bank_loop_ok[OF this c, of None "nbk c" "[0..<unat (nbk c)]"]
  obtain s3 cmd k where s3: "foldE (bank_turn c) (s2, None, nbk c) [0..<unat (nbk c)] = Inr (s3, cmd, k)" "keeps c s2 s3"
    by blast
  define s4 where "s4 = count_down (tally (\<lambda>t. t\<lparr>n_nop := n_nop t + (if cmd = None then 1 else 0),
      n_activity := n_activity t + (if k \<noteq> 0 then 1 else 0), n_cmd := n_cmd t + 1\<rparr>) s3)"
  have "keeps c s1 s4" by (rule keeps_view[OF keeps_trans[OF s2(2) s3(2)]]) (simp add: s4_def)
  moreover have "dram_cycle c now tot s = Inr (s4, cmd, d)"
    using s1(1) s2(1) s3(1) by (simp add: dram_cycle_def issue_stage_def s4_def)
  ultimately show ?thesis using s1(3,4) by (auto simp: keeps_def)
qed

section \<open>Runs\<close>

definition op_ok :: "memory_config \<Rightarrow> u32 \<Rightarrow> channel_op \<Rightarrow> bool" where
  "op_ok c i op = (case op of Push_Req mf \<Rightarrow> tlx_chip mf = i \<and> fetch_ok c mf | _ \<Rightarrow> True)"

fun pushed_uids :: "channel_op list \<Rightarrow> u32 list" where
  "pushed_uids [] = []"
| "pushed_uids (Push_Req mf # ops) = m_request_uid mf # pushed_uids ops"
| "pushed_uids (Pop_Reply # ops) = pushed_uids ops"
| "pushed_uids (Tick now tot # ops) = pushed_uids ops"

lemma dram_push_ok:
  assumes ok: "chan_ok c s" and mf: "fetch_ok c mf" "tlx_chip mf = dram_id s" and c: "config_ok c"
  shows "\<exists>t. dram_push c now tot s mf = Inr t \<and> chan_ok c t \<and> dram_id t = dram_id s \<and> chan_uids t = add_mset (m_request_uid mf) (chan_uids s)"
proof -
  note D = chan_okD[OF ok]
  let ?p = "next_req s"
  let ?r = "dram_req_t now tot mf"
  let ?h = "(reqs s)(?p := Some ?r)"
  let ?t = "s\<lparr>reqs := ?h, next_req := ?p + 1, mrqq := push (mrqq s) (Some ?p)\<rparr>"
  have none: "reqs s ?p = None" by (rule store_okD(8)[OF D(1) order_refl])
  then have pQ: "?p \<notin> set (queued s)" using store_okD(3)[OF D(1)] by blast
  have "store_ok c ?h (?p # queued s) (map mrq (bks s)) (payload (rwq s)) (?p + 1)"
    by (rule store_ok_push[OF D(1) mf(1)])
  then have "store_ok c ?h (queued ?t) (map mrq (bks s)) (payload (rwq s)) (?p + 1)"
    by (rule store_ok_perm) (simp add: queued_def payload_push)
  moreover have "sched_ok ?h (m_frfcfs s) (unat (nbk c))"
    by (rule sched_ok_upd[OF D(2)]) (use pQ in \<open>simp add: queued_def\<close>)
  moreover have "None \<notin> set (cells (push (mrqq s) (Some ?p)))" using D(9) by (auto simp: push_def dest: in_set_butlastD)
  ultimately have "chan_ok c ?t" using D fifo_ok_push_any[OF D(7)] by (simp add: chan_ok_def)
  moreover have "chan_uids ?t = add_mset (m_request_uid mf) (chan_uids s)"
    using live_insert[OF live_finite[OF D(1)] none, of ?r] by (simp add: chan_uids_def dram_req_t_def)
  moreover obtain u where "dram_push c now tot s mf = Inr u" "chan_view u = chan_view ?t" "dram_id u = dram_id s"
    using mf(2) by (simp add: dram_push_def Let_def tally_def chan_view_def)
  ultimately show ?thesis using chan_view_cong[of u ?t] by auto
qed

lemma return_queue_pop_ok:
  assumes ok: "chan_ok c s"
  shows "\<exists>t d. return_queue_pop s = Inr (t, d) \<and> chan_ok c t \<and> dram_id t = dram_id s \<and>
    chan_uids s = chan_uids t + mset (map m_request_uid (opt_list d))"
proof -
  note D = chan_okD[OF ok]
  obtain q where q: "pop (returnq s) = Inr (q, top_elem (returnq s))" "fifo_ok q"
    "payload (returnq s) = opt_list (top_elem (returnq s)) @ payload q"
    using pop_ok[OF D(6)] unfolding opt_list_def by blast
  have "chan_ok c (s\<lparr>returnq := q\<rparr>)" using D q(2) by (simp add: chan_ok_def queued_def)
  moreover have "chan_uids s = chan_uids (s\<lparr>returnq := q\<rparr>) + mset (map m_request_uid (opt_list (top_elem (returnq s))))"
    by (simp add: chan_uids_def q(3))
  ultimately show ?thesis using q(1) by (simp add: return_queue_pop_def)
qed

text \<open>The run of a channel beside the list of what was pushed into it.\<close>

definition run_inv :: "memory_config \<Rightarrow> u32 \<Rightarrow> u32 list \<Rightarrow> channel \<Rightarrow> bool" where
  "run_inv c i uids st =
     (case st of (s, cmds, out) \<Rightarrow> chan_ok c s \<and> dram_id s = i \<and>
        mset uids = chan_uids s + mset (map m_request_uid out))"

lemma channel_step_ok:
  assumes inv: "run_inv c i uids st" and c: "config_ok c" and op: "op_ok c i op"
  shows "\<exists>st'. channel_step c st op = Inr st' \<and> run_inv c i (uids @ pushed_uids [op]) st'"
proof -
  obtain s cmds out where st: "st = (s, cmds, out)" by (cases st)
  have ok: "chan_ok c s" "dram_id s = i" "mset uids = chan_uids s + mset (map m_request_uid out)"
    using inv by (simp_all add: run_inv_def st)
  show ?thesis
  proof (cases op)
    case (Push_Req mf)
    then have "fetch_ok c mf" "tlx_chip mf = dram_id s" using op ok(2) by (simp_all add: op_ok_def)
    from dram_push_ok[OF ok(1) this c, of 0 0] obtain t where
      "dram_push c 0 0 s mf = Inr t" "chan_ok c t" "dram_id t = dram_id s" "chan_uids t = add_mset (m_request_uid mf) (chan_uids s)"
      by blast
    then show ?thesis using ok(2,3) by (simp add: Push_Req st run_inv_def)
  next
    case Pop_Reply
    obtain t d where "return_queue_pop s = Inr (t, d)" "chan_ok c t" "dram_id t = dram_id s"
      "chan_uids s = chan_uids t + mset (map m_request_uid (opt_list d))" using return_queue_pop_ok[OF ok(1)] by blast
    then show ?thesis using ok(2,3) by (simp add: Pop_Reply st run_inv_def)
  next
    case (Tick now tot)
    obtain t cmd d where "dram_cycle c now tot s = Inr (t, cmd, d)" "chan_ok c t" "dram_id t = dram_id s"
      "chan_uids s = chan_uids t + mset (map m_request_uid (opt_list d))" using dram_cycle_ok[OF ok(1) c] by blast
    then show ?thesis using ok(2,3) by (simp add: Tick st run_inv_def)
  qed
qed

lemma pushed_uids_append: "pushed_uids (xs @ ys) = pushed_uids xs @ pushed_uids ys"
  by (induction xs rule: pushed_uids.induct) auto

lemma channel_run_ok:
  assumes "run_inv c i uids st" and c: "config_ok c" and "list_all (op_ok c i) ops"
  shows "\<exists>st'. foldE (channel_step c) st ops = Inr st' \<and> run_inv c i (uids @ pushed_uids ops) st'"
  using assms(1,3)
proof (induction ops arbitrary: st uids)
  case (Cons op ops)
  have "op_ok c i op" using Cons.prems(2) by simp
  from channel_step_ok[OF Cons.prems(1) c this]
  obtain st1 where st1: "channel_step c st op = Inr st1" "run_inv c i (uids @ pushed_uids [op]) st1" by blast
  from Cons.IH[OF st1(2)] Cons.prems(2) st1(1) show ?case
    using pushed_uids_append[of "[op]" ops] by auto
qed simp

text \<open>A channel that the configuration builds satisfies the invariant.\<close>

lemma tag_bits_bound: "0 \<le> n \<Longrightarrow> n < 2 ^ tag_bits n"
proof (induction n rule: tag_bits.induct)
  case (1 n)
  show ?case
  proof (cases "0 < n")
    case True
    then have "n div 2 < 2 ^ tag_bits (n div 2)" using 1 by simp
    then have "n < 2 * 2 ^ tag_bits (n div 2)" by linarith
    then show ?thesis using True by (subst tag_bits.simps) simp
  next
    case False
    then show ?thesis using "1.prems" by (subst tag_bits.simps) simp
  qed
qed

lemma group_in_range:
  assumes "0 < g" and "j < n" and "n div g < 2 ^ t"
  shows "drop_bit t j < (g :: nat)"
proof -
  have "j < g * 2 ^ t"
  proof -
    have "n < g * (n div g + 1)" using assms(1) by (metis Suc_eq_plus1 dividend_less_times_div mult.commute mult_Suc_right add.commute)
    also have "\<dots> \<le> g * 2 ^ t" using assms(3) by (intro mult_le_mono2) simp
    finally show ?thesis using assms(2) by simp
  qed
  then show ?thesis by (simp add: drop_bit_eq_div less_mult_imp_div_less)
qed

lemma config_ok_init:
  assumes "memory_config_init c0 = Inr c" and "dram_t c i = Inr s" and "unat (nbk c) < 2 ^ 31"
    and "0 < unat (dram_atom_size c)" and "scheduler_type c \<noteq> Other_Scheduler"
  shows "config_ok c"
proof -
  have nz: "nbkgrp c \<noteq> 0" "nbk c \<noteq> 0" using assms(2) by (auto simp: dram_t_def split: if_split_asm)
  have eq: "nbk c0 = nbk c" "nbkgrp c0 = nbkgrp c" "data_command_freq_ratio c \<noteq> 0"
    "bk_tag_length c = tag_bits (sint (nbk c0 div nbkgrp c0))"
    using assms(1) by (auto simp: memory_config_init_def Let_def assertE_Inr_iff split: if_split_asm)
  let ?w = "unat (nbk c) div unat (nbkgrp c)"
  have "?w \<le> unat (nbk c)" by simp
  then have small: "?w < 2 ^ 31" using assms(3) by linarith
  have u: "uint (nbk c div nbkgrp c) = int ?w" by (simp add: unat_div uint_nat)
  have "int ?w < 2 ^ 31" "- (2 ^ 31) \<le> int ?w" using small by auto
  then have "sint (nbk c div nbkgrp c) = int ?w"
    using signed_take_bit_int_eq_self[of 31 "int ?w"] u by (simp add: sint_uint)
  then have "int ?w < 2 ^ bk_tag_length c" using tag_bits_bound[of "int ?w"] eq(1,2,4) by simp
  then have w: "?w < 2 ^ bk_tag_length c" by (metis of_nat_less_iff of_nat_numeral of_nat_power)
  have "grp_of c j < unat (nbkgrp c)" if "j < unat (nbk c)" for j
    unfolding grp_of_def by (rule group_in_range[OF _ that w]) (use nz(1) in \<open>simp add: unat_gt_0\<close>)
  then show ?thesis using assms(4,5) eq(3) nz(2) by (simp add: config_ok_def unat_gt_0)
qed

lemma chan_ok_new:
  assumes "dram_t c i = Inr s" and "0 < unat (dram_atom_size c)"
  shows "run_inv c i [] (s, [], [])"
proof -
  obtain q1 q2 :: "nat fifo" and q3 :: "dram_fetch fifo" where q: "fifo_pipeline (unat (CL c)) (unat (CL c + 1)) = Inr q1"
    "fifo_pipeline 0 2 = Inr q2"
    "fifo_pipeline 0 (if dram_return_queue_size c = 0 then 1024 else unat (dram_return_queue_size c)) = Inr q3"
    "rwq s = q1" "mrqq s = q2" "returnq s = q3"
    and s: "reqs s = (\<lambda>_. None)" "next_req s = 0" "m_frfcfs s = frfcfs_scheduler (unat (nbk c))"
    "bks s = map (new_bank c) [0..<unat (nbk c)]" "length (bkgrp s) = unat (nbkgrp c)" "dram_id s = i"
    using assms(1) by (auto simp: dram_t_def bindE_Inr_iff split: if_split_asm)
  have mrq: "map mrq (bks s) = replicate (unat (nbk c)) None"
    by (simp add: s(4) new_bank_def map_replicate_const comp_def)
  note n1 = fifo_pipeline_new[OF q(1)] and n2 = fifo_pipeline_new[OF q(2)] and n3 = fifo_pipeline_new[OF q(3)]
  have "store_ok c (reqs s) (queued s) (map mrq (bks s)) (payload (rwq s)) (next_req s)"
    using store_ok_new[OF assms(2)] n1(3) n2(3) mrq q(4,5) s(1,2,3) by (simp add: queued_def)
  moreover have "sched_ok (reqs s) (m_frfcfs s) (unat (nbk c))" by (simp add: s(3) sched_ok_new)
  ultimately show ?thesis
    using n1 n2 n3 q(4-6) s by (simp add: run_inv_def chan_ok_def chan_uids_def live_uids_def)
qed

text \<open>Claim C38. A channel never fails and loses nothing: from a new channel of an accepted configuration every sequence of
  pushed fetches (for this channel, an existing bank, of at least a byte), replies taken and cycles runs without a
  failed assertion, an index out of range, a dangling iterator or the use of a deleted request, and the fetches pushed
  are, with their multiplicities, those still in the store, those in the return queue, and those that came out as
  replies or finished write-backs.\<close>

theorem dram_conserves:
  assumes "memory_config_init c0 = Inr c" and "dram_t c i = Inr s" and "unat (nbk c) < 2 ^ 31"
    and "0 < unat (dram_atom_size c)" and "scheduler_type c \<noteq> Other_Scheduler" and "list_all (op_ok c i) ops"
  shows "\<exists>t cmds out. foldE (channel_step c) (s, [], []) ops = Inr (t, cmds, out) \<and>
    mset (pushed_uids ops) =
      live_uids (reqs t) + mset (map m_request_uid (payload (returnq t))) + mset (map m_request_uid out)"
proof -
  have "config_ok c" by (rule config_ok_init[OF assms(1-5)])
  from channel_run_ok[OF chan_ok_new[OF assms(2,4)] this assms(6)] show ?thesis
    by (auto simp: run_inv_def chan_uids_def)
qed

end
