(* ===== verification/Dram_Run.thy ===== *)
theory Dram_Run
  imports Dram_Total
begin

text \<open>
  Concrete channels: a run that keeps the protocol, the bank groups that the countdowns belong to, and what the loop
  over the banks counts.
\<close>

section \<open>Bank groups\<close>

lemma tag_bits_power: "tag_bits (2 ^ k) = Suc k"
proof (induction k)
  case 0
  show ?case by (simp add: tag_bits.simps)
next
  case (Suc k)
  then show ?case by (subst tag_bits.simps) simp
qed

lemma group_width:
  assumes "unat (nbk c) = unat (nbkgrp c) * 2 ^ k" and "unat (nbk c) < 2 ^ 31" and "nbkgrp c \<noteq> 0" and "nbk c \<noteq> 0"
  shows "nbk c div nbkgrp c = 2 ^ k" and "sint (nbk c div nbkgrp c) = 2 ^ k" and "(2::nat) ^ k < 2 ^ 31"
proof -
  have pos: "0 < unat (nbkgrp c)" using assms(3) by (simp add: unat_gt_0)
  then have "2 ^ k \<le> unat (nbkgrp c) * 2 ^ k" by simp
  then show lt: "(2::nat) ^ k < 2 ^ 31" using assms(1,2) by linarith
  have un: "unat (nbk c div nbkgrp c) = 2 ^ k" using pos by (simp add: unat_div assms(1))
  have "nbk c div nbkgrp c = of_nat (unat (nbk c div nbkgrp c))" by simp
  then show "nbk c div nbkgrp c = 2 ^ k" by (simp add: un)
  have "uint (nbk c div nbkgrp c) = 2 ^ k" using un by (metis of_nat_numeral of_nat_power uint_nat)
  moreover have "(2::int) ^ k < 2 ^ 31" using lt by (metis of_nat_less_iff of_nat_numeral of_nat_power)
  moreover have "- (2 ^ 31) \<le> (2::int) ^ k" by (rule order_trans[of _ 0]) simp_all
  ultimately show "sint (nbk c div nbkgrp c) = 2 ^ k"
    using signed_take_bit_int_eq_self[of 31 "2 ^ k"] by (simp add: sint_uint)
qed

text \<open>Claim C40. The countdowns of bank groups cover two groups each: with banks in groups of a power of two the group
  whose countdowns a bank uses (\<open>j >> bk_tag_length\<close>) is half the number of the group that the bank is recorded to
  belong to (\<open>bkgrpindex\<close>), because \<open>bk_tag_length\<close> counts the bits of the size of a group and is one more than its
  logarithm.  The upper half of the group records is never used.\<close>

theorem bank_groups_merged:
  assumes "memory_config_init c0 = Inr c" and "dram_t c i = Inr s"
    and "unat (nbk c) = unat (nbkgrp c) * 2 ^ k" and "unat (nbk c) < 2 ^ 31" and "j < unat (nbk c)"
  shows "grp_of c j = unat (bkgrpindex (bks s ! j)) div 2"
proof -
  have nz: "nbkgrp c \<noteq> 0" "nbk c \<noteq> 0" using assms(2) by (auto simp: dram_t_def split: if_split_asm)
  note w = group_width[OF assms(3,4) nz]
  have eq: "nbk c0 = nbk c" "nbkgrp c0 = nbkgrp c" "bk_tag_length c = tag_bits (sint (nbk c0 div nbkgrp c0))"
    using assms(1) by (auto simp: memory_config_init_def Let_def assertE_Inr_iff split: if_split_asm)
  then have len: "bk_tag_length c = Suc k" using w(2) by (simp add: tag_bits_power)
  have "bks s ! j = new_bank c j" using assms(2,5) by (auto simp: dram_t_def bindE_Inr_iff split: if_split_asm)
  then have idx: "bkgrpindex (bks s ! j) = of_nat j div 2 ^ k" using w(1) by (simp add: new_bank_def)
  have "unat (of_nat j :: u32) = j" using assms(4,5) by (simp add: unat_of_nat)
  moreover have "unat ((2 :: u32) ^ k) = 2 ^ k" using w(3) by (metis w(1) unat_div assms(3) nz(1) nonzero_mult_div_cancel_left unat_eq_zero)
  ultimately have "unat (bkgrpindex (bks s ! j)) = j div 2 ^ k" by (simp add: idx unat_div)
  then show ?thesis using div_mult2_eq[of j "2 ^ k" 2] by (simp add: grp_of_def len drop_bit_eq_div mult.commute)
qed

section \<open>A channel\<close>

text \<open>Two banks, and a read and a write of one burst each to different rows of a bank.\<close>

definition sample_options :: memory_config where
  "sample_options =
     \<lparr>nbk = 2, tCCD = 2, tRRD = 3, tRCD = 2, tRAS = 3, tRP = 2, tRC = 4, CL = 2, WL = 1, tCDLR = 2, tWR = 2, nbkgrp = 1,
      tCCDL = 2, tRTPL = 1, BL = 4, busW = 4, data_command_freq_ratio = 2, gpu_n_mem_per_ctrlr = 1, m_n_mem = 1,
      m_n_sub_partition_per_memory_channel = 1, scheduler_type = DRAM_FRFCFS, frfcfs_dram_sched_queue_size = 4,
      dram_return_queue_size = 4, memlatency_stat = False, dram_latency = 10, bk_tag_length = 0, tRCDWR = 0, tRTW = 0,
      tWTR = 0, tWTP = 0, dram_atom_size = 0, m_n_mem_sub_partition = 0\<rparr>"

definition sample_config :: memory_config where
  "sample_config = sample_options\<lparr>bk_tag_length := 2, tRCDWR := 0, tRTW := 5, tWTR := 5, tWTP := 5,
     dram_atom_size := 16, m_n_mem_sub_partition := 1\<rparr>"

definition sample_fetch :: "u32 \<Rightarrow> bool \<Rightarrow> u32 \<Rightarrow> u32 \<Rightarrow> dram_fetch" where
  "sample_fetch uid wr bank row =
     \<lparr>m_request_uid = uid, mf_access_type = (if wr then GLOBAL_ACC_W else GLOBAL_ACC_R), mf_is_write = wr,
      m_mf_type = (if wr then WRITE_REQUEST else READ_REQUEST), tlx_chip = 0, tlx_bk = bank, tlx_row = row, tlx_col = 0,
      tlx_sub_partition = 0, mf_addr = 0, mf_data_size = 16\<rparr>"

definition sample_ops :: "channel_op list" where
  "sample_ops = [Push_Req (sample_fetch 1 False 1 5), Push_Req (sample_fetch 2 True 1 6), Tick 0 0, Tick 1 0, Tick 2 0,
     Tick 3 0, Tick 4 0, Pop_Reply, Tick 5 0, Tick 6 0]"

definition sample_cmds :: "dram_cmd option list" where
  "sample_cmds = [Some (ACT 1 5), None, Some (RD 1 5), None, Some (PRE 1 5), None, Some (ACT 1 6)]"

lemma sample_config: "memory_config_init sample_options = Inr sample_config"
  by code_simp

lemma sample_run:
  "bindE (dram_t sample_config 0) (\<lambda>s. bindE (foldE (channel_step sample_config) (s, [], []) sample_ops) (\<lambda>r.
     Inr (fst (snd r), map m_request_uid (snd (snd r))))) = Inr (sample_cmds, [1])"
  by code_simp

lemma sample_channel:
  obtains s t out where "dram_t sample_config 0 = Inr s"
    "foldE (channel_step sample_config) (s, [], []) sample_ops = Inr (t, sample_cmds, out)" "map m_request_uid out = [1]"
  using sample_run by (auto simp: bindE_Inr_iff)

theorem dram_timing_witness:
  "\<exists>s t out. dram_t sample_config 0 = Inr s \<and>
     foldE (channel_step sample_config) (s, [], []) sample_ops = Inr (t, sample_cmds, out) \<and>
     timing_ok sample_config sample_cmds \<and> rows_ok sample_cmds"
proof -
  obtain s t out where s: "dram_t sample_config 0 = Inr s"
    "foldE (channel_step sample_config) (s, [], []) sample_ops = Inr (t, sample_cmds, out)" by (rule sample_channel)
  from dram_timing[OF s] s show ?thesis by blast
qed

theorem dram_conserves_witness:
  "\<exists>s t out. dram_t sample_config 0 = Inr s \<and>
     foldE (channel_step sample_config) (s, [], []) sample_ops = Inr (t, sample_cmds, out) \<and>
     {#1, 2#} = live_uids (reqs t) + mset (map m_request_uid (payload (returnq t))) + {#1#}"
proof -
  obtain s t out where s: "dram_t sample_config 0 = Inr s"
    "foldE (channel_step sample_config) (s, [], []) sample_ops = Inr (t, sample_cmds, out)"
    "map m_request_uid out = [1]" by (rule sample_channel)
  have "unat (nbk sample_config) < 2 ^ 31" "0 < unat (dram_atom_size sample_config)"
    "scheduler_type sample_config \<noteq> Other_Scheduler" by (simp_all add: sample_config_def sample_options_def)
  moreover have "list_all (op_ok sample_config 0) sample_ops"
    by (simp add: sample_ops_def op_ok_def fetch_ok_def sample_fetch_def sample_config_def sample_options_def)
  ultimately have "\<exists>t cmds out. foldE (channel_step sample_config) (s, [], []) sample_ops = Inr (t, cmds, out) \<and>
      mset (pushed_uids sample_ops) =
        live_uids (reqs t) + mset (map m_request_uid (payload (returnq t))) + mset (map m_request_uid out)"
    by (rule dram_conserves[OF sample_config s(1)])
  moreover have "mset (pushed_uids sample_ops) = {#1, 2#}" by (simp add: sample_ops_def sample_fetch_def)
  ultimately show ?thesis using s by auto
qed

text \<open>Eight banks in two groups: bank 5 of group 1 uses the countdowns of group 0.\<close>

theorem bank_groups_merged_witness:
  "\<exists>c s. memory_config_init (sample_options\<lparr>nbk := 8, nbkgrp := 2\<rparr>) = Inr c \<and> dram_t c 0 = Inr s \<and>
     unat (bkgrpindex (bks s ! 5)) = 1 \<and> grp_of c 5 = 0"
proof -
  let ?c = "sample_config\<lparr>nbk := 8, nbkgrp := 2, bk_tag_length := 3\<rparr>"
  have c: "memory_config_init (sample_options\<lparr>nbk := 8, nbkgrp := 2\<rparr>) = Inr ?c" by code_simp
  have "bindE (dram_t ?c 0) (\<lambda>s. Inr (bkgrpindex (bks s ! 5))) = Inr 1" by code_simp
  then obtain s where s: "dram_t ?c 0 = Inr s" "bkgrpindex (bks s ! 5) = 1" by (auto simp: bindE_Inr_iff)
  have "grp_of ?c 5 = unat (bkgrpindex (bks s ! 5)) div 2"
    by (rule bank_groups_merged[OF c s(1), where k = 2]) (simp_all add: sample_config_def sample_options_def)
  then show ?thesis using c s by auto
qed

text \<open>
  The loop over the banks computes the bank from \<open>prio\<close>, which the command of an earlier turn changes.  After the row
  of bank 1 is opened in the first turn the second turn asks bank 1 again: the idle bank 0 is not counted as idle.
\<close>

lemma idle_bank_skipped:
  "bindE (dram_t sample_config 0) (\<lambda>s.
     bindE (foldE (channel_step sample_config) (s, [], []) [Push_Req (sample_fetch 1 False 1 5), Tick 0 0]) (\<lambda>r.
       Inr (map n_idle (bks (fst r)), fst (snd r)))) = Inr ([0, 0], [Some (ACT 1 5)])"
  by code_simp

text \<open>A row hit overtakes an older request to another row.\<close>

theorem frfcfs_refines_witness:
  "\<exists>h s s'. sched_ok h s 1 \<and> bank_pending s 0 = [7, 8] \<and> schedule h 0 s 0 6 = Inr (s', Some 8) \<and> bank_pending s' 0 = [7]"
proof -
  define h where "h = (\<lambda>p :: nat. if p = 7 then Some (dram_req_t 0 0 (sample_fetch 1 False 0 5))
     else if p = 8 then Some (dram_req_t 0 0 (sample_fetch 2 False 0 6)) else None)"
  have h: "h 7 = Some (dram_req_t 0 0 (sample_fetch 1 False 0 5))" "h 8 = Some (dram_req_t 0 0 (sample_fetch 2 False 0 6))"
    by (simp_all add: h_def)
  have bk: "req_bk (dram_req_t 0 0 (sample_fetch u w 0 r)) = 0" for u w r by (simp add: dram_req_t_def sample_fetch_def)
  obtain s1 where s1: "sched_ok h s1 1" "bank_pending s1 0 = [7]" "m_last_row s1 = [None]"
    using add_req_ok[where h = h and p = 7, OF sched_ok_new[of h 1] h(1)] by (auto simp: bk bank_pending_def frfcfs_scheduler_def)
  obtain s where s: "sched_ok h s 1" "bank_pending s 0 = [7, 8]" "m_last_row s = [None]"
    using add_req_ok[where h = h and p = 8, OF s1(1) h(2)] s1(2,3) by (auto simp: bk)
  have row: "row_of h 7 = 5" "row_of h 8 = 6" by (simp_all add: row_of_def h dram_req_t_def sample_fetch_def)
  have "fr_fcfs (row_of h) [7, 8] None 6 = Some ([7], None, 8)" by (simp add: fr_fcfs_def pick_row_def row)
  moreover obtain s' res where "schedule h 0 s 0 6 = Inr (s', res)"
    "fr_fcfs (row_of h) (bank_pending s 0) (m_last_row s ! 0) 6 = map_option (\<lambda>p. (bank_pending s' 0, m_last_row s' ! 0, p)) res"
    using frfcfs_refines[OF s(1), of 0 0 6] by auto
  ultimately show ?thesis using s by (cases res) auto
qed

end
