(* ===== verification/Spec2Isabelle.thy ===== *)
theory Spec2Isabelle
  imports Cpack_Pipeline Bpc_Run Scoreboard Simt_Correct Delay_Queue Hpcl_Dict Tag_Layout Tex_Run Conflict_Correct Allocation Ptx_Vote Decomp_Correct Dram_Run
begin

text \<open>
  A verification library for GPGPU-Sim with data compression between the caches and the memory (the code below
  \<open>src/src/\<close>; the file names here are relative to it, and to \<open>gpgpu-sim/\<close> where no directory is given).

  The program.  GPGPU-Sim simulates a GPU cycle by cycle.  A shader core fetches the instructions of a warp,
  follows its threads through branches with a reconvergence stack, holds an instruction back while the scoreboard
  shows a pending write to one of its registers, and sends the memory requests of a warp to a cache.  A cache looks
  the block up in its tag array, merges misses to the same block in the miss status holding registers, and queues
  requests for the level below; responses fill the tags and release the waiting requests.  Between the levels
  requests travel through queues of fixed latency.  The additions of this repository compress the lines on their
  way: a pipeline takes a fetch, runs a codec on its data (frequent patterns, base and deltas, dictionaries) and
  records the compressed size, and the compressed L1 data cache stores lines in segments of a shared data array.

  How the code is modelled.  A C++ object is a record with the members of the class, a method is a function from
  the record to its new value, and a failing \<open>assert\<close>, an \<open>abort\<close>, an index out of range or an operation without
  defined behaviour is a value of \<open>cxx_fault\<close> (\<open>Cxx_Prelude\<close>), so that "no fault" is a theorem and not an assumption.
  \<open>unsigned\<close> and \<open>unsigned long long\<close> are words of 32 and 64 bits; counters whose wrap-around no operation can
  reach are natural numbers, and the theories say so where they choose that.  A pointer to data that nobody else
  writes is the data; line and stage indices are natural numbers with \<open>None\<close> or a fault for \<open>(unsigned)-1\<close>.  A
  \<open>std::map\<close> is an association list in key order, a hash map one without repeated keys.

  The theories, and the code they translate:

    \<^item> \<open>Cxx_Prelude\<close>: outcomes, machine integers, strings, the contracts of state machines (\<open>guarded_machine\<close>,
      \<open>total_machine\<close>) with the lemmas on their runs.  \<open>Prefix_Code\<close>: the contract of a codec that emits one
      self-delimiting piece per item, with unique decodability.
    \<^item> \<open>Hex_Words\<close>, \<open>Mem_Fetch\<close>: the text form of a line that the string-based codecs work on, and the members of
      \<open>mem_fetch\<close> that they read and write (mem_fetch.h, mem_fetch.cc).
    \<^item> \<open>Fpc_Codec\<close>, \<open>Fpc_Correct\<close>: hpcl_comp_fpc_pl_proc.h.  The decoder, the round trip, the exact bit count with
      its bounds, the choice of the shortest pattern.  The \<open>float\<close> counters of the code are exact here: they stay far
      below \<open>2 ^ 24\<close>.
    \<^item> \<open>Bdi_Codec\<close>, \<open>Bdi_Correct\<close>, \<open>Bdi_Lossless\<close>, \<open>Bdi_Payload\<close>, \<open>Bdi_Run\<close>: hpcl_comp_bdi_pl_proc.h and
      hpcl_blocker.h, with the rounding of \<open>double\<close> written out (\<open>rnd53\<close>).  The reference encoder it refines, the
      decoder and the round trip, the least size, the size of the payload, and what the payload lacks.
    \<^item> \<open>Comp_Pipeline\<close>: the pipelines hpcl_comp_fpc_pl.h and hpcl_comp_bdi_pl.h with hpcl_comp_pl_data.h.  Latency,
      order, no loss.
    \<^item> \<open>Cpack_Codec\<close>, \<open>Cpack_Correct\<close>, \<open>Cpack_Pipeline\<close>: the dictionary codec hpcl_comp_cpack_pl_proc.h with hpcl_cpack_dict.h,
      hpcl_code_table.h and its pipeline hpcl_comp_cpack_pl.h.  The reader and the round trip, the size, the pipeline as a
      delay line that carries a dictionary.
    \<^item> \<open>Bpc_Codec\<close>, \<open>Bpc_Correct\<close>, \<open>Bpc_Run\<close>: the bit-plane codec hpcl_comp_bpc_pl_proc.h and its pipeline hpcl_comp_bpc_pl.h.
      The transform is undone, the encoding is that of a reference encoder, decodable but for planes sent as they are;
      two lines with one output.
    \<^item> \<open>Hpcl_Dict\<close>: hpcl_dict.h and hpcl_dict_elem.h, the dictionary of the dictionary codecs with its replacement.
    \<^item> \<open>Instructions\<close>, \<open>Scoreboard\<close>: scoreboard.cc.  \<open>Simt_Stack\<close>, \<open>Simt_Correct\<close>: \<open>simt_stack\<close> of
      abstract_hardware_model.cc; an update serves every live thread and changes nothing below the executing entry.
      \<open>Delay_Queue\<close>: delayqueue.h; order, delay, and what a change of the minimum length leaves.
    \<^item> \<open>Cache_Config\<close>, \<open>Tag_Array\<close>, \<open>Tag_Correct\<close>, \<open>Tag_Layout\<close>, \<open>Tag_Total\<close>: \<open>cache_config\<close>, \<open>cache_block_t\<close> and
      \<open>tag_array\<close> of gpu-cache.h and gpu-cache.cc.  The geometry, the lookup, the plain cache (one line per address, no
      dirty line lost, no operation that faults) and the compressed cache (disjoint segments).  \<open>Mshr_Table\<close>:
      \<open>mshr_table\<close>, with the protocol of its callers.
    \<^item> \<open>Cache_Stats\<close>, \<open>Cache_Control\<close>, \<open>Cache_Correct\<close>, \<open>Cache_Run\<close>: \<open>cache_stats\<close> and the controllers
      \<open>baseline_cache\<close>, \<open>read_only_cache\<close>, \<open>data_cache\<close>, \<open>l1_cache\<close>, \<open>l2_cache\<close> of the same files, over the tags and the
      miss status holding registers.  The requests in flight and the lines reserved for them, the run of a whole
      cache under its callers without a fault, and the line that a merged miss can lose.
    \<^item> \<open>Ring_Fifo\<close>, \<open>Tex_Cache\<close>, \<open>Tex_Correct\<close>, \<open>Tex_Run\<close>: \<open>tex_cache\<close> with its FIFOs and reorder buffer.  The tags are
      the data lines of the future (\<open>replay\<close>); order, coherence, no deadlock.
    \<^item> \<open>Mem_Access\<close>, \<open>Sorted_Map\<close>, \<open>Coalescing\<close>, \<open>Coalesce_Correct\<close>, \<open>Conflict_Correct\<close>: \<open>mem_access_t\<close> and
      \<open>warp_inst_t::generate_mem_accesses\<close> of abstract_hardware_model.h and abstract_hardware_model.cc.  Every thread of a
      warp with addresses below \<open>2 ^ 32\<close> is served once by the smallest pieces (above, the code truncates the address), bank
      conflicts cost at most a cycle per thread, one access per line.
    \<^item> \<open>Arbiters\<close>: the round-robin and the matrix arbiter of intersim2/arbiters under one contract (\<open>arbiter_contract\<close>), and the
      fairness of round robin.  \<open>Allocators\<close>, \<open>Request_Stores\<close>, \<open>Separable_Correct\<close>, \<open>Allocation\<close>: the dense and the sparse
      request store and the separable allocators of intersim2/allocators.  The stores against the contract \<open>request_store\<close>
      (they agree but for the number of requests of a port);
      the allocators over any arbiter that keeps its contract: no failed assertion, a matching, progress, priority.
    \<^item> \<open>Coal_Buffer\<close>, \<open>Coal_Correct\<close>: the buffers hpcl_req_coal_buffer.cc, hpcl_comp_buffer.cc and hpcl_rec_comp_buffer.cc
      and the request coalescing of shader.cc (compiled with \<open>REQ_COAL_MODULE\<close>).  Requests are sent once with eager
      injection and lost with lazy injection.  \<open>Decomp_Pipeline\<close>, \<open>Decomp_Correct\<close>: hpcl_decomp_fpc_pl.h and the reply path of
      shader.cc from the network to the response FIFO.  Order and completeness, and what deeper pipelines drop.
    \<^item> \<open>Ptx_Reg\<close>, \<open>Ptx_Alu\<close>, \<open>Ptx_Logic\<close>, \<open>Ptx_Exec\<close>, \<open>Ptx_Vote\<close>: the integer instructions of the functional simulator
      (cuda-sim/instructions.cc, ptx_sim.h, ptx_ir.h): the register union, operands, what an instruction computes, its effect
      on a thread, the vote of a warp.  \<open>Ptx_Correct\<close>, \<open>Ptx_Run\<close>: sums with their flags, products, conversions and shifts
      against integers; sequences of instructions.  Floating point and memory end in the fault \<open>Outside_Model\<close>.

    \<^item> \<open>Dram_Sched\<close>, \<open>Dram\<close>: a memory channel (dram.cc, dram_sched.cc, the parameters of gpu-sim.h): the requests in a store
      that banks and data queue share, the schedulers, a cycle with its commands.  \<open>Dram_Timing\<close>: the protocol of the
      memory as countdowns and open rows, which the controller refines.  \<open>Dram_Store\<close>, \<open>Dram_Total\<close>: the moves of a request
      through the store, no fault and no loss in any run.  \<open>Dram_Run\<close>: concrete channels, the merged bank groups.

  The lemmas come in the same groups: well-formedness of a state and its preservation by every operation, then the
  behaviour of each operation, then runs over any list of operations through an interpretation of a contract
  (\<open>prefix_code\<close>, \<open>arbiter_contract\<close>, \<open>request_store\<close>, \<open>delay_line\<close>, \<open>memory_queue\<close>, \<open>bounded_queue\<close>,
  \<open>total_machine\<close>, \<open>guarded_machine\<close>) on the model's own definitions.  Theorems that show a defect of the code are stated as what the code does.

  Termination and bounds.  Every loop is a total function: structural over the words, ways or stages it visits, or
  with a measure (the length of the text still to read; the lines left above and below in \<open>evict_loop\<close>; the
  distance to the bound in \<open>LOGB2\<close> and \<open>set_min_length\<close>; the threads not yet grouped in the reconvergence stack; the cells
  above the minimum in \<open>shrink\<close>; the requests still in the queue in \<open>fill_sched\<close>).  Fuel occurs only in the readers of
  \<open>Prefix_Code\<close>, where the length of the text is enough because a piece is not empty.

  Not modelled, and why: the printing and tracing throughout (no state); the statistics and analysis classes, whose
  results are reports; the floating-point heuristics (dictionary rates, approximation, SC2 and FPH histograms); the
  vendored power model; of the functional simulator the parser, control flow, memory and floating point; the routers,
  topologies and traffic of the interconnection network with its iterative allocators, which are far larger than
  their share of this library; of the memory partition what lies between the L2 cache and the channel, and the decoding of addresses.
  \<open>sscanf\<close> is represented by the tokens it reads.  The decompression pipelines of the repository hand the original line on and decode nothing, so the decoders here are those that the formats
  call for.
\<close>

end
